(* ===== verification/Prelude.thy ===== *)
theory Prelude
  imports Main "HOL-Library.Word"
begin

text \<open>
  Shared material of the development.

  \<^item> Names for the machine integers of the C++ code: every \<open>uintN_t\<close> is an \<open>N word\<close>, so that
    wrap-around is the wrap-around of the code; array subscripts are the \<open>unat\<close> of the word.
  \<^item> The ways a C++ operation can fail to return (\<open>err\<close>): an access outside an array, \<open>exit\<close>,
    a failed \<open>ASSERT\<close>, a thrown exception. A fallible operation returns \<open>err + 'a\<close>.
  \<^item> \<open>rbind\<close> (sequencing that stops at the first failure), \<open>aget\<close>/\<open>aset\<close> (checked array access)
    and \<open>rfold\<close> (a counted loop whose body may fail), with the rules that make the component
    proofs go through by \<open>simp add: res_simps\<close>.
  \<^item> Facts on bit fields packed into words, used by the slot words of the index, by the RPC
    header and by the packed Othello array.
\<close>

unbundle bit_operations_syntax

named_theorems res_simps "evaluation of checked array accesses and of sequencing"
named_theorems field_simps_word "reading back bit fields"

section \<open>Machine integers\<close>

type_synonym u8 = "8 word"
type_synonym u16 = "16 word"
type_synonym u32 = "32 word"
type_synonym u64 = "64 word"

section \<open>Failure as a value\<close>

datatype err =
    OutOfBounds      \<comment> \<open>an access outside the array: undefined behaviour of the code\<close>
  | ExitProcess      \<comment> \<open>\<open>exit(0)\<close>\<close>
  | AssertFailed     \<comment> \<open>\<open>ASSERT\<close> or \<open>assert\<close>\<close>
  | NullDeref        \<comment> \<open>a null pointer is dereferenced\<close>
  | KeyNotFound      \<comment> \<open>the exception of \<open>cache.hh\<close>\<close>
  | RuntimeError     \<comment> \<open>\<open>std::runtime_error\<close>\<close>
  | OutOfRange       \<comment> \<open>\<open>std::out_of_range\<close>\<close>
  | Diverges         \<comment> \<open>a loop or recursion that never returns\<close>
  | DanglingIter     \<comment> \<open>a range loop goes on over a vector that its body has replaced\<close>
  | DivByZero        \<comment> \<open>an integer division by zero\<close>
  | Unmapped         \<comment> \<open>an access to memory the process has not mapped\<close>

type_synonym 'a res = "err + 'a"

definition rbind :: "'a res \<Rightarrow> ('a \<Rightarrow> 'b res) \<Rightarrow> 'b res" where
  "rbind m f = (case m of Inl e \<Rightarrow> Inl e | Inr x \<Rightarrow> f x)"

definition aget :: "'a list \<Rightarrow> nat \<Rightarrow> 'a res" where
  "aget xs i = (if i < length xs then Inr (xs ! i) else Inl OutOfBounds)"

definition aset :: "'a list \<Rightarrow> nat \<Rightarrow> 'a \<Rightarrow> 'a list res" where
  "aset xs i v = (if i < length xs then Inr (xs[i := v]) else Inl OutOfBounds)"

fun rfold :: "('b \<Rightarrow> 'a \<Rightarrow> 'a res) \<Rightarrow> 'b list \<Rightarrow> 'a \<Rightarrow> 'a res" where
  "rfold f [] s = Inr s"
| "rfold f (x # xs) s = rbind (f x s) (rfold f xs)"

definition the_res :: "'a res \<Rightarrow> 'a" where
  "the_res m = (case m of Inl _ \<Rightarrow> undefined | Inr x \<Rightarrow> x)"

lemma rbind_Inr [simp, res_simps]: "rbind (Inr x) f = f x"
  by (simp add: rbind_def)

lemma rbind_Inl [simp, res_simps]: "rbind (Inl e) f = Inl e"
  by (simp add: rbind_def)

lemma rbind_eq_Inr: "rbind m f = Inr y \<longleftrightarrow> (\<exists>x. m = Inr x \<and> f x = Inr y)"
  by (cases m) auto

lemma rbindE:
  assumes "rbind m f = Inr y"
  obtains x where "m = Inr x" "f x = Inr y"
  using assms by (auto simp: rbind_eq_Inr)

lemma rbind_cong [fundef_cong]:
  "m = m' \<Longrightarrow> (\<And>x. m' = Inr x \<Longrightarrow> f x = f' x) \<Longrightarrow> rbind m f = rbind m' f'"
  by (cases m') auto

lemma rbind_assoc: "rbind (rbind m f) g = rbind m (\<lambda>x. rbind (f x) g)"
  by (cases m) auto

lemma aget_in [simp, res_simps]: "i < length xs \<Longrightarrow> aget xs i = Inr (xs ! i)"
  by (simp add: aget_def)

lemma aget_out [simp, res_simps]: "\<not> i < length xs \<Longrightarrow> aget xs i = Inl OutOfBounds"
  by (simp add: aget_def)

lemma aset_in [simp, res_simps]: "i < length xs \<Longrightarrow> aset xs i v = Inr (xs[i := v])"
  by (simp add: aset_def)

lemma aset_out [simp, res_simps]: "\<not> i < length xs \<Longrightarrow> aset xs i v = Inl OutOfBounds"
  by (simp add: aset_def)

lemma aget_eq_Inr: "aget xs i = Inr x \<longleftrightarrow> i < length xs \<and> xs ! i = x"
  by (auto simp: aget_def)

lemma aset_eq_Inr: "aset xs i v = Inr ys \<longleftrightarrow> i < length xs \<and> ys = xs[i := v]"
  by (auto simp: aset_def)

lemma rfold_append: "rfold f (xs @ ys) s = rbind (rfold f xs s) (rfold f ys)"
proof (induction xs arbitrary: s)
  case (Cons x xs)
  then show ?case by (cases "f x s") auto
qed simp

lemma rfold_cong [fundef_cong]:
  "xs = ys \<Longrightarrow> s = t \<Longrightarrow> (\<And>x s. x \<in> set ys \<Longrightarrow> f x s = g x s) \<Longrightarrow> rfold f xs s = rfold g ys t"
proof (induction xs arbitrary: ys s t)
  case (Cons x xs)
  then show ?case by (cases "g x t") auto
qed simp

text \<open>The invariant rule of a counted loop: what every iteration keeps, the loop keeps.\<close>

lemma rfold_invariant:
  assumes "rfold f xs s = Inr t" and "P s"
    and "\<And>x s t. x \<in> set xs \<Longrightarrow> P s \<Longrightarrow> f x s = Inr t \<Longrightarrow> P t"
  shows "P t"
  using assms
proof (induction xs arbitrary: s)
  case (Cons x xs)
  from Cons.prems(1) obtain s' where s': "f x s = Inr s'" "rfold f xs s' = Inr t"
    by (auto elim: rbindE)
  have "P s'" using Cons.prems(2,3) s'(1) by (meson list.set_intros(1))
  then show ?case using Cons.IH [OF s'(2)] Cons.prems(3) by (meson list.set_intros(2))
qed simp

text \<open>A loop whose body never fails under an invariant returns.\<close>

lemma rfold_returns:
  assumes "P s" and "\<And>x s. x \<in> set xs \<Longrightarrow> P s \<Longrightarrow> \<exists>t. f x s = Inr t \<and> P t"
  shows "\<exists>t. rfold f xs s = Inr t \<and> P t"
  using assms
proof (induction xs arbitrary: s)
  case (Cons x xs)
  then obtain t where "f x s = Inr t" "P t" by (meson list.set_intros(1))
  with Cons show ?case by simp
qed simp

text \<open>The same rule for a loop that counts up, with an invariant that knows the counter.\<close>

lemma rfold_upt:
  assumes "P 0 s" and "\<And>i s. i < n \<Longrightarrow> P i s \<Longrightarrow> \<exists>t. f i s = Inr t \<and> P (Suc i) t"
  shows "\<exists>t. rfold f [0..<n] s = Inr t \<and> P n t"
  using assms(2)
proof (induction n)
  case (Suc n)
  then obtain t where t: "rfold f [0..<n] s = Inr t" "P n t" by (meson less_Suc_eq)
  then obtain t' where "f n t = Inr t'" "P (Suc n) t'" using Suc.prems by blast
  with t(1) show ?case by (simp add: rfold_append)
qed (simp add: assms(1))

lemma rfold_upt_inv:
  assumes "rfold f [0..<n] s = Inr t" and "P 0 s" and "\<And>i s t. i < n \<Longrightarrow> P i s \<Longrightarrow> f i s = Inr t \<Longrightarrow> P (Suc i) t"
  shows "P n t"
  using assms(1,3)
proof (induction n arbitrary: t)
  case (Suc n)
  then obtain u where u: "rfold f [0..<n] s = Inr u" "f n u = Inr t" by (auto simp: rfold_append elim!: rbindE)
  have "P n u" using Suc.IH [OF u(1)] Suc.prems(2) by (meson less_Suc_eq)
  then show ?case using Suc.prems(2) u(2) by blast
qed (simp add: assms(2))

section \<open>Lists as arrays\<close>

lemma nth_list_update_cases:
  "i < length xs \<Longrightarrow> xs[i := v] ! j = (if j = i then v else xs ! j)"
  by (simp add: nth_list_update)

lemma distinct_map_update_notin:
  "distinct xs \<Longrightarrow> v \<notin> set xs \<Longrightarrow> distinct (xs[i := v])"
  by (rule distinct_list_update) (auto dest: in_set_takeD in_set_dropD)

lemma sum_split_Inr: "(\<exists>e. x = Inl e) \<or> (\<exists>y. x = Inr y)"
  by (cases x) auto

section \<open>Words\<close>

lemma unat_lt_64: "unat (x :: u64) < 2 ^ 64"
  using unsigned_less [of x, where 'a = nat] by simp

text \<open>The two top bits of a 64-bit hash are a slot number below four.\<close>

lemma unat_drop_bit_62 [simp]: "unat (drop_bit 62 (h :: u64)) < 4"
proof -
  have "unat (drop_bit 62 h) = unat h div 2 ^ 62"
    by (rule unat_drop_bit_eq [of 62 h, unfolded drop_bit_eq_div [of _ "unat h"]])
  also have "\<dots> < 4"
    using unat_lt_64 [of h] by (simp add: less_mult_imp_div_less)
  finally show ?thesis .
qed

lemma unat_ucast_drop_bit_62 [simp]: "unat (ucast (drop_bit 62 (h :: u64)) :: u8) = unat (drop_bit 62 h)"
proof -
  have "unat (drop_bit 62 h) < 2 ^ 8" using unat_drop_bit_62 [of h] by (simp del: unat_drop_bit_62)
  then show ?thesis by (simp add: unsigned_ucast_eq unsigned_take_bit_eq take_bit_nat_eq_self)
qed

text \<open>A power of two minus one is a mask, so \<open>x & (size - 1)\<close> is below \<open>size\<close>.\<close>

lemma and_mask_lt:
  "unat ((x :: 'a::len word) AND (2 ^ n - 1)) < 2 ^ n"
proof -
  have "x AND (2 ^ n - 1) = take_bit n x"
    by (simp add: take_bit_eq_mask mask_eq_exp_minus_1)
  moreover have "unat (take_bit n x) < 2 ^ n"
    by (simp add: unsigned_take_bit_eq)
  ultimately show ?thesis by simp
qed

lemma unat_ucast_up:
  assumes "LENGTH('a::len) \<le> LENGTH('b::len)"
  shows "unat (ucast (x :: 'a word) :: 'b word) = unat x"
proof -
  have "unat x < 2 ^ LENGTH('a)" by simp
  also have "\<dots> \<le> 2 ^ LENGTH('b)" using assms by simp
  finally show ?thesis by (simp add: unsigned_ucast_eq take_bit_nat_eq_self)
qed

lemma unat_ucast_up_simps [simp]:
  "unat (ucast (x :: u8) :: u64) = unat x"
  "unat (ucast (x :: u8) :: u32) = unat x"
  "unat (ucast (y :: u16) :: u64) = unat y"
  "unat (ucast (z :: u32) :: u64) = unat z"
  by (simp_all add: unat_ucast_up)

lemma unat_exp:
  assumes "n < LENGTH('a::len)"
  shows "unat (2 ^ n :: 'a word) = 2 ^ n"
proof -
  have "(2 :: nat) ^ n < 2 ^ LENGTH('a)" using assms by simp
  then show ?thesis using assms
    by (metis of_nat_numeral of_nat_power take_bit_nat_eq_self unsigned_of_nat)
qed

lemma unat_exp_minus_1:
  assumes "n < LENGTH('a::len)"
  shows "unat (2 ^ n - 1 :: 'a word) = 2 ^ n - 1"
proof -
  have "unat (2 ^ n :: 'a word) \<noteq> 0" using assms by (simp add: unat_exp)
  then have "(2 ^ n :: 'a word) \<noteq> 0" by force
  then show ?thesis using assms by (simp add: unat_minus_one unat_exp)
qed

lemma unat_succ_lt:
  assumes "unat (x :: 'a::len word) < unat (y :: 'a word)"
  shows "unat (x + 1) = Suc (unat x)"
proof -
  have "Suc (unat x) < 2 ^ LENGTH('a)"
    using assms unsigned_less [of y, where 'a = nat] by linarith
  then show ?thesis by (simp add: unat_word_ariths)
qed

end
