(* ===== verification/Hash_Util.thy ===== *)
theory Hash_Util
  imports Prelude
begin

text \<open>
  The hash functions of \<open>deps/ludo/hashutils\<close> and of the baselines, at the key type the program
  uses (\<open>KeyType = uint64_t\<close>, eight bytes, aligned).

  \<open>FastHasher64\<close> is Bob Jenkins' two-word hash seeded with 64 bits: its result decides the bucket
  pair of a key (\<open>LudoCommon::h\<close>), the slot inside a bucket (\<open>FastHasher64(seed)(k) >> 62\<close>) and the
  fingerprint. \<open>MurmurHash64\<close> is the hash of the RACE and DrTM-R baselines. All are total and
  executable; the lemmas bound what is computed from them.
\<close>

section \<open>BobHash (hashlittle2) on an eight-byte key\<close>

definition rot :: "u32 \<Rightarrow> nat \<Rightarrow> u32" where
  "rot x k = (push_bit k x OR drop_bit (32 - k) x)"

definition final_mix :: "u32 \<Rightarrow> u32 \<Rightarrow> u32 \<Rightarrow> u32 \<times> u32 \<times> u32" where
  "final_mix a b c =
    (let c = c XOR b; c = c - rot b 14;
         a = a XOR c; a = a - rot c 11;
         b = b XOR a; b = b - rot a 25;
         c = c XOR b; c = c - rot b 16;
         a = a XOR c; a = a - rot c 4;
         b = b XOR a; b = b - rot a 14;
         c = c XOR b; c = c - rot b 24
     in (a, b, c))"

text \<open>
  \<open>BobHash(buf, 8, idx1, idx2)\<close>: with \<open>length = 8\<close> the block loop does not run and the switch takes
  \<open>case 8\<close>. The two words of the buffer are \<open>k0\<close>, \<open>k1\<close>; the result is the new \<open>(*idx1, *idx2)\<close>.
\<close>

definition BobHash :: "u32 \<Rightarrow> u32 \<Rightarrow> u32 \<Rightarrow> u32 \<Rightarrow> u32 \<times> u32" where
  "BobHash k0 k1 idx1 idx2 =
    (let a = 0xdeadbeef + 8 + idx1; b = a; c = a;
         c = c + idx2;
         b = b + k1;
         a = a + k0;
         (a, b, c) = final_mix a b c
     in (c, b))"

text \<open>\<open>FastHasher64<uint64_t>(s)(k0)\<close>: seed and result are two little-endian 32-bit words.\<close>

definition fast_hasher64 :: "u64 \<Rightarrow> u64 \<Rightarrow> u64" where
  "fast_hasher64 s k0 =
    (let (h0, h1) = BobHash (ucast k0) (ucast (drop_bit 32 k0)) (ucast s) (ucast (drop_bit 32 s))
     in ucast h0 OR push_bit 32 (ucast h1))"

text \<open>\<open>uint8_t(h(key) >> 62)\<close> with \<open>h\<close> seeded by the bucket's seed byte: the slot of a key.\<close>

definition slot_of :: "u8 \<Rightarrow> u64 \<Rightarrow> u8" where
  "slot_of seed key = ucast (drop_bit 62 (fast_hasher64 (ucast seed) key))"

lemma slot_of_lt4 [simp]: "unat (slot_of seed key) < 4"
  by (simp add: slot_of_def)

lemma slot_of_le3 [simp]: "unat (slot_of seed key) \<le> 3"
  using slot_of_lt4 [of seed key] by linarith

section \<open>MurmurHash64 (RACE and DrTM-R)\<close>

definition MurmurHash64 :: "u64 \<Rightarrow> u32 \<Rightarrow> u64" where
  "MurmurHash64 key seed =
    (let m = 0xc6a4a7935bd1e995 :: u64; r = 47;
         h = ucast seed XOR (8 * m);
         k = key;
         k = k * m;
         k = k XOR drop_bit r k;
         k = k * m;
         h = h XOR k;
         h = h * m;
         h = h XOR drop_bit r h;
         h = h * m;
         h = h XOR drop_bit r h
     in h)"

section \<open>farmhash on an eight-byte key\<close>

text \<open>
  \<open>Hasher64<uint64_t>(s)(k)\<close>, the hash of the Othello locator: \<open>farmhash::Hash64WithSeed\<close> at length 8.
  The build defines no \<open>NDEBUG\<close>, so \<open>debug_mode\<close> is 1 and \<open>DebugTweak\<close> applies.
\<close>

definition BasicRotate64 :: "u64 \<Rightarrow> nat \<Rightarrow> u64" where
  "BasicRotate64 val shift = (if shift = 0 then val else drop_bit shift val OR push_bit (64 - shift) val)"

definition Bswap64 :: "u64 \<Rightarrow> u64" where
  "Bswap64 val =
    (push_bit 56 (val AND 0xFF) OR push_bit 40 (drop_bit 8 val AND 0xFF) OR
     push_bit 24 (drop_bit 16 val AND 0xFF) OR push_bit 8 (drop_bit 24 val AND 0xFF) OR
     (drop_bit 8 val AND 0xFF000000) OR (drop_bit 24 val AND 0xFF0000) OR
     (drop_bit 40 val AND 0xFF00) OR drop_bit 56 val)"

definition HashLen16 :: "u64 \<Rightarrow> u64 \<Rightarrow> u64 \<Rightarrow> u64" where
  "HashLen16 u v mul =
    (let a = (u XOR v) * mul;
         a = a XOR drop_bit 47 a;
         b = (v XOR a) * mul;
         b = b XOR drop_bit 47 b
     in b * mul)"

definition HashLen0to16 :: "u64 \<Rightarrow> u64" where
  "HashLen0to16 s =
    (let k2 = 0x9ae16a3b2f90404f;
         mul = k2 + 8 * 2;
         a = s + k2;
         b = s;
         c = BasicRotate64 b 37 * mul + a;
         d = (BasicRotate64 a 25 + b) * mul
     in HashLen16 c d mul)"

definition DebugTweak :: "u64 \<Rightarrow> u64" where
  "DebugTweak x = NOT (Bswap64 (x * 0xb492b66fbe98f273))"

definition Hash64WithSeed :: "u64 \<Rightarrow> u64 \<Rightarrow> u64" where
  "Hash64WithSeed s seed =
    DebugTweak (HashLen16 (HashLen0to16 s - 0x9ae16a3b2f90404f) seed 0x9ddfea08eb382d69)"

definition hasher64 :: "u64 \<Rightarrow> u64 \<Rightarrow> u64" where
  "hasher64 s k0 = Hash64WithSeed k0 s"

section \<open>Mapping a hash to a range\<close>

definition multiply_high_u32 :: "u32 \<Rightarrow> u32 \<Rightarrow> u32" where
  "multiply_high_u32 x y = ucast (drop_bit 32 (ucast x * ucast y :: u64))"

text \<open>The two candidate buckets of a hash; the code asserts that the table size is a power of two.\<close>

definition two_buckets :: "u64 \<Rightarrow> u32 \<Rightarrow> u32 \<times> u32" where
  "two_buckets x sz =
    (ucast (x AND ucast (sz - 1)), ucast (drop_bit 32 x AND ucast (sz - 1)))"

definition fast_map_to_buckets :: "u64 \<Rightarrow> u32 \<Rightarrow> (u32 \<times> u32) res" where
  "fast_map_to_buckets x sz =
    (if sz AND (sz - 1) \<noteq> 0 then Inl AssertFailed else Inr (two_buckets x sz))"

lemma unat_mult_u32_in_u64:
  "unat (ucast (x :: u32) * ucast (y :: u32) :: u64) = unat x * unat y"
proof -
  have "unat x < 2 ^ 32" "unat y < 2 ^ 32"
    using unsigned_less [of x, where 'a = nat] unsigned_less [of y, where 'a = nat] by auto
  then have "unat x * unat y < 2 ^ 32 * 2 ^ 32"
    by (intro mult_strict_mono) auto
  then show ?thesis
    by (simp add: unat_word_ariths)
qed

text \<open>Lemire's reduction stays below its range, for every 32-bit hash.\<close>

lemma multiply_high_u32_lt:
  assumes "y \<noteq> 0"
  shows "unat (multiply_high_u32 x y) < unat y"
proof -
  have x: "unat x < 2 ^ 32" using unsigned_less [of x, where 'a = nat] by simp
  have y: "unat y < 2 ^ 32" using unsigned_less [of y, where 'a = nat] by simp
  have pos: "0 < unat y" using assms by (simp add: unat_gt_0)
  have *: "unat (drop_bit 32 (ucast x * ucast y :: u64)) = unat x * unat y div 2 ^ 32"
    by (metis drop_bit_eq_div unat_drop_bit_eq unat_mult_u32_in_u64)
  have "unat x * unat y < 2 ^ 32 * unat y" using x pos by simp
  then have lt: "unat x * unat y div 2 ^ 32 < unat y"
    by (simp add: less_mult_imp_div_less mult.commute)
  then have "unat x * unat y div 2 ^ 32 < 2 ^ 32" using y by linarith
  then show ?thesis
    using lt * by (simp add: multiply_high_u32_def unsigned_ucast_eq unsigned_take_bit_eq take_bit_nat_eq_self)
qed

text \<open>For a power-of-two table both candidate buckets are in range.\<close>

lemma fast_map_to_buckets_pow2: "fast_map_to_buckets x (2 ^ n) = Inr (two_buckets x (2 ^ n))"
proof -
  have "(2 ^ n AND (2 ^ n - 1) :: u32) = take_bit n (2 ^ n)"
    by (simp add: take_bit_eq_mask mask_eq_exp_minus_1)
  also have "\<dots> = 0" by (simp add: take_bit_eq_mod)
  finally show ?thesis by (simp add: fast_map_to_buckets_def)
qed

lemma two_buckets_lt:
  assumes "sz = 2 ^ n" and "n < 32"
  shows "unat (fst (two_buckets x sz)) < unat sz"
    and "unat (snd (two_buckets x sz)) < unat sz"
proof -
  have usz: "unat sz = 2 ^ n" using assms by (simp add: unat_exp)
  have m: "(ucast (sz - 1) :: u64) = 2 ^ n - 1"
    unfolding assms(1) using assms(2) by (simp add: word_unat_eq_iff unat_exp_minus_1)
  have bnd: "unat (ucast (z AND (2 ^ n - 1) :: u64) :: u32) < 2 ^ n" for z :: u64
  proof -
    have "unat (ucast (z AND (2 ^ n - 1) :: u64) :: u32) \<le> unat (z AND (2 ^ n - 1))"
      by (simp add: unsigned_ucast_eq unsigned_take_bit_eq take_bit_nat_less_eq_self)
    also have "\<dots> < 2 ^ n" by (rule and_mask_lt)
    finally show ?thesis .
  qed
  show "unat (fst (two_buckets x sz)) < unat sz"
    and "unat (snd (two_buckets x sz)) < unat sz"
    using bnd usz m by (simp_all add: two_buckets_def)
qed

end
