(* ===== verification/Othello_Mem.thy ===== *)
theory Othello_Mem
  imports Hash_Util
begin

text \<open>
  \<open>OthelloCommon\<close> of \<open>deps/ludo/tables/othello_cp_dp.h\<close>: two logical arrays A and B of \<open>VDL\<close>-bit
  elements packed into one array of 64-bit words, and the two hash positions of a key. The template
  arguments \<open>L\<close>, \<open>DL\<close> are arguments here (\<open>VDL = L + DL \<le> 60\<close>, a \<open>static_assert\<close> of the class).

  Shown: an element written is read back, whether or not it straddles two words, and no other element
  changes; both positions of a key are inside their array.
\<close>

section \<open>Definitions\<close>

text \<open>
  The body of \<open>memSet\<close> and \<open>memValueSet\<close> (the two differ in the bit position and the width):
  \<open>len\<close> bits of \<open>value\<close> are written at bit \<open>i\<close> of the array. \<open>left\<close> is the number of bits that fall
  into the next word.
\<close>

definition write_bits :: "nat \<Rightarrow> u64 \<Rightarrow> u64 list \<Rightarrow> u64 \<Rightarrow> u64 list res" where
  "write_bits len i mem value =
    (let v = value AND mask len;
         start = unat (ucast (i div 64) :: u32);
         offset = unat (i mod 64);
         left = int offset + int len - 64
     in rbind (aget mem start) (\<lambda>w0.
        rbind (aset mem start ((w0 AND NOT (push_bit offset (mask len))) OR push_bit offset v)) (\<lambda>mem.
        if left > 0
        then rbind (aget mem (start + 1)) (\<lambda>w1.
               aset mem (start + 1)
                 ((w1 AND push_bit (nat left) (- 1)) OR drop_bit (len - nat left) v))
        else Inr mem)))"

definition read_bits :: "nat \<Rightarrow> u64 \<Rightarrow> u64 list \<Rightarrow> u64 res" where
  "read_bits len i mem =
    (let start = unat (ucast (i div 64) :: u32);
         offset = unat (i mod 64);
         left = int offset + int len - 64;
         left = (if left < 0 then 0 else left)
     in rbind (aget mem start) (\<lambda>w0.
        let result = drop_bit offset w0 AND mask (len - nat left)
        in if left > 0
           then rbind (aget mem (start + 1)) (\<lambda>w1.
                  Inr (result OR push_bit (len - nat left) (w1 AND mask (nat left))))
           else Inr result))"

definition memSet :: "nat \<Rightarrow> u64 list \<Rightarrow> u32 \<Rightarrow> u64 \<Rightarrow> u64 list res" where
  "memSet VDL mem index value =
    (if VDL = 0 then Inr mem else write_bits VDL (ucast index * of_nat VDL) mem value)"

definition memGet :: "nat \<Rightarrow> u64 list \<Rightarrow> u32 \<Rightarrow> u64 res" where
  "memGet VDL mem index =
    (if VDL = 0 then Inr 0 else read_bits VDL (ucast index * of_nat VDL) mem)"

definition memValueSet :: "nat \<Rightarrow> nat \<Rightarrow> u64 list \<Rightarrow> u32 \<Rightarrow> u64 \<Rightarrow> u64 list res" where
  "memValueSet L DL mem index value =
    (if L = 0 then Inr mem else write_bits L (ucast index * of_nat (L + DL) + of_nat DL) mem value)"

definition memValueGet :: "nat \<Rightarrow> nat \<Rightarrow> u64 list \<Rightarrow> u32 \<Rightarrow> u64 res" where
  "memValueGet L DL mem index =
    (if L = 0 then Inr 0 else read_bits L (ucast index * of_nat (L + DL) + of_nat DL) mem)"

definition isEmpty :: "nat \<Rightarrow> u64 list \<Rightarrow> u32 \<Rightarrow> bool res" where
  "isEmpty VDL mem index = rbind (memGet VDL mem index) (\<lambda>v. Inr (v AND 1 = 0))"

text \<open>\<open>getIndices\<close>: the position in A from the low half of the hash, the one in B, shifted by \<open>ma\<close>, from the high half.\<close>

definition getIndices :: "u64 \<Rightarrow> u32 \<Rightarrow> u32 \<Rightarrow> u64 \<Rightarrow> u32 \<times> u32" where
  "getIndices hab_seed ma mb k =
    (let hash = hasher64 hab_seed k
     in (multiply_high_u32 (ucast hash) ma, multiply_high_u32 (ucast (drop_bit 32 hash)) mb + ma))"

text \<open>The words \<open>resizeCapacity\<close> reserves for \<open>ma + mb\<close> elements.\<close>

definition mem_words :: "nat \<Rightarrow> u32 \<Rightarrow> u32 \<Rightarrow> nat" where
  "mem_words VDL ma mb = ((unat ma + unat mb) * VDL + 63) div 64"

section \<open>The packed array bit by bit\<close>

abbreviation mbit :: "u64 list \<Rightarrow> nat \<Rightarrow> bool" where
  "mbit mem p \<equiv> bit (mem ! (p div 64)) (p mod 64)"

text \<open>A bit position whose field lies in the array.\<close>

definition fits :: "u64 list \<Rightarrow> nat \<Rightarrow> nat \<Rightarrow> bool" where
  "fits mem p len \<longleftrightarrow> p + len \<le> 64 * length mem \<and> p < 2 ^ 38"

lemma position_parts:
  fixes i :: u64
  assumes "unat i < 2 ^ 38"
  shows "unat (ucast (i div 64) :: u32) = unat i div 64" and "unat (i mod 64) = unat i mod 64"
proof -
  have d: "unat (i div 64) = unat i div 64" by (simp add: unat_div)
  also have "\<dots> < 2 ^ 32" using assms by simp
  finally show "unat (ucast (i div 64) :: u32) = unat i div 64"
    using d by (simp add: unsigned_ucast_eq take_bit_nat_eq_self)
  show "unat (i mod 64) = unat i mod 64" by (simp add: unat_mod)
qed

lemma index_position:
  assumes "c + unat (index :: u32) * n < 2 ^ 38" "n \<le> 60" "c \<le> 60"
  shows "unat (ucast index * of_nat n + of_nat c :: u64) = c + unat index * n"
    and "unat (ucast index * of_nat n :: u64) = unat index * n"
proof -
  have lt: "unat index * n < 2 ^ 38" using assms(1) by linarith
  have n: "unat (of_nat n :: u64) = n" "unat (of_nat c :: u64) = c"
    using assms by (simp_all add: unsigned_of_nat take_bit_nat_eq_self)
  show m: "unat (ucast index * of_nat n :: u64) = unat index * n"
    using lt n by (simp add: unat_word_ariths)
  have "unat (ucast index * of_nat n + of_nat c :: u64) =
      (unat (ucast index * of_nat n :: u64) + unat (of_nat c :: u64)) mod 2 ^ 64"
    by (simp only: unat_word_ariths(1) len_of_numeral_defs) simp
  also have "\<dots> = c + unat index * n"
    unfolding m n using assms(1) by (simp add: add.commute)
  finally show "unat (ucast index * of_nat n + of_nat c :: u64) = c + unat index * n" .
qed

lemma index_fits:
  assumes "unat index < m" "m * n \<le> 64 * length mem" "n \<le> 60"
  shows "fits mem (unat (index :: u32) * n) n"
proof -
  have "unat index * n + n \<le> m * n" using assms(1) by (metis Suc_leI mult_Suc mult_le_mono1 add.commute)
  moreover have "unat index * n < 2 ^ 38"
  proof -
    have "unat index < 2 ^ 32" using unsigned_less [of index, where 'a = nat] by simp
    then have "unat index * n \<le> 2 ^ 32 * 60" using assms(3) by (intro mult_mono) auto
    then show ?thesis by simp
  qed
  ultimately show ?thesis using assms(2) by (simp add: fits_def)
qed

text \<open>Where bit \<open>j\<close> of a field that starts at bit \<open>p\<close> is: in the first word or in the second.\<close>

lemma straddle:
  fixes p j :: nat
  shows "p mod 64 + j < 64 \<Longrightarrow> (p + j) div 64 = p div 64 \<and> (p + j) mod 64 = p mod 64 + j"
    and "64 \<le> p mod 64 + j \<Longrightarrow> j < 64 \<Longrightarrow>
      (p + j) div 64 = p div 64 + 1 \<and> (p + j) mod 64 = p mod 64 + j - 64"
proof -
  have e: "p + j = (p mod 64 + j) + 64 * (p div 64)" by simp
  have "(p + j) div 64 = ((p mod 64 + j) + 64 * (p div 64)) div 64" by (rule arg_cong [OF e])
  also have "\<dots> = p div 64 + (p mod 64 + j) div 64" by (rule div_mult_self2) simp
  finally have d: "(p + j) div 64 = p div 64 + (p mod 64 + j) div 64" .
  have m: "(p + j) mod 64 = (p mod 64 + j) mod 64" by (simp add: mod_simps)
  show "p mod 64 + j < 64 \<Longrightarrow> (p + j) div 64 = p div 64 \<and> (p + j) mod 64 = p mod 64 + j"
    by (simp add: d m)
  assume j: "64 \<le> p mod 64 + j" "j < 64"
  then have "p mod 64 + j - 64 < 64" using mod_less_divisor [of 64 p] by linarith
  then show "(p + j) div 64 = p div 64 + 1 \<and> (p + j) mod 64 = p mod 64 + j - 64"
    using j(1) by (simp add: d m le_div_geq le_mod_geq)
qed

lemma div_mod_64: "(p :: nat) = 64 * (p div 64) + p mod 64" "p mod 64 < 64"
  by simp_all

lemma read_bits_bit:
  fixes i :: u64
  assumes "fits mem (unat i) len" "0 < len" "len \<le> 60"
  shows "\<exists>w. read_bits len i mem = Inr w \<and> (\<forall>j. bit w j \<longleftrightarrow> j < len \<and> mbit mem (unat i + j))"
proof -
  let ?p = "unat i" let ?o = "unat i mod 64" let ?s = "unat i div 64"
  have pos: "unat (ucast (i div 64) :: u32) = ?s" "unat (i mod 64) = ?o"
    using assms(1) position_parts [of i] by (simp_all add: fits_def)
  have s: "?s < length mem" using assms(1,2) div_mod_64 [of ?p] unfolding fits_def by linarith
  show ?thesis
  proof (cases "?o + len \<le> 64")
    case True
    let ?w = "drop_bit ?o (mem ! ?s) AND mask len"
    have "read_bits len i mem = Inr ?w"
      using True s by (simp add: read_bits_def Let_def pos)
    moreover have "bit ?w j \<longleftrightarrow> j < len \<and> mbit mem (?p + j)" for j
      using True straddle(1) [of ?p j] assms(3)
      by (cases "j < len") (auto simp: bit_simps add.commute)
    ultimately show ?thesis by blast
  next
    case False
    define n where "n = ?o + len - 64"
    have n: "0 < n" "n < len" "int ?o + int len - 64 = int n"
      using False by (simp_all add: n_def)
    have s1: "?s + 1 < length mem" using assms(1) False div_mod_64 [of ?p] unfolding fits_def by linarith
    let ?w = "drop_bit ?o (mem ! ?s) AND mask (len - n) OR push_bit (len - n) (mem ! (?s + 1) AND mask n)"
    have "read_bits len i mem = Inr ?w"
      using s s1 n by (simp add: read_bits_def Let_def pos)
    moreover have "bit ?w j \<longleftrightarrow> j < len \<and> mbit mem (?p + j)" for j
    proof (cases "?o + j < 64")
      case True
      then have "j < len - n" "j < len" "j < 64" using False assms(3) unfolding n_def by linarith+
      then show ?thesis using straddle(1) [OF True] by (auto simp: bit_simps add.commute)
    next
      case out: False
      then have "len - n \<le> j" using False unfolding n_def by linarith
      moreover have "?o + j - 64 = j - (len - n)" using out False unfolding n_def by linarith
      moreover have "j < len \<longleftrightarrow> j - (len - n) < n" "j < len \<Longrightarrow> j - (len - n) < 64" "j < len \<Longrightarrow> j < 64"
        using calculation(1) n(2) assms(3) by linarith+
      ultimately show ?thesis
        using straddle(2) [of ?p j] out n(2)
        by (cases "j < len") (auto simp: bit_simps simp del: diff_diff_right)
    qed
    ultimately show ?thesis by blast
  qed
qed

lemma write_bits_bit:
  fixes i :: u64
  assumes "fits mem (unat i) len" "0 < len" "len \<le> 60"
  shows "\<exists>mem'. write_bits len i mem v = Inr mem' \<and> length mem' = length mem \<and>
    (\<forall>q < 64 * length mem. mbit mem' q \<longleftrightarrow>
        (if unat i \<le> q \<and> q < unat i + len then bit v (q - unat i) else mbit mem q))"
proof -
  let ?p = "unat i" let ?o = "unat i mod 64" let ?s = "unat i div 64"
  have pos: "unat (ucast (i div 64) :: u32) = ?s" "unat (i mod 64) = ?o"
    using assms(1) position_parts [of i] by (simp_all add: fits_def)
  have s: "?s < length mem" using assms(1,2) div_mod_64 [of ?p] unfolding fits_def by linarith
  define w0 where "w0 = (mem ! ?s AND NOT (push_bit ?o (mask len))) OR push_bit ?o (v AND mask len)"
  have b0: "bit w0 j \<longleftrightarrow> j < 64 \<and> (if ?o \<le> j \<and> j < ?o + len then bit v (j - ?o) else bit (mem ! ?s) j)" for j
    unfolding w0_def by (auto simp: bit_simps dest: bit_imp_le_length)
  show ?thesis
  proof (cases "?o + len \<le> 64")
    case True
    have "write_bits len i mem v = Inr (mem[?s := w0])"
      using True s by (simp add: write_bits_def Let_def pos w0_def)
    moreover have "mbit (mem[?s := w0]) q \<longleftrightarrow>
        (if ?p \<le> q \<and> q < ?p + len then bit v (q - ?p) else mbit mem q)" for q
    proof (cases "q div 64 = ?s")
      case same: True
      then have "?o \<le> q mod 64 \<longleftrightarrow> ?p \<le> q" "q mod 64 < ?o + len \<longleftrightarrow> q < ?p + len"
        "?p \<le> q \<Longrightarrow> q mod 64 - ?o = q - ?p"
          using div_mod_64 [of ?p] div_mod_64 [of q] by linarith+
      then show ?thesis using s same by (simp add: b0)
    next
      case False
      have "\<not> (?p \<le> q \<and> q < ?p + len)"
      proof (cases "q div 64 < ?s")
        case True
        then show ?thesis using div_mod_64 [of ?p] div_mod_64 [of q] by linarith
      next
        case ge: False
        then have "?s + 1 \<le> q div 64" using False by linarith
        then show ?thesis using True div_mod_64 [of ?p] div_mod_64 [of q] by linarith
      qed
      then show ?thesis using False by (auto simp: nth_list_update)
    qed
    ultimately show ?thesis by auto
  next
    case False
    define n where "n = ?o + len - 64"
    have n: "0 < n" "n < len" "int ?o + int len - 64 = int n"
      using False by (simp_all add: n_def)
    have s1: "?s + 1 < length mem" using assms(1) False div_mod_64 [of ?p] unfolding fits_def by linarith
    define w1 where "w1 = (mem ! (?s + 1) AND push_bit n (- 1)) OR drop_bit (len - n) (v AND mask len)"
    have b1: "bit w1 j \<longleftrightarrow> j < 64 \<and> (if j < n then bit v (j + (len - n)) else bit (mem ! (?s + 1)) j)" for j
      unfolding w1_def using n assms(3) by (auto simp: bit_simps add.commute dest: bit_imp_le_length)
    let ?m = "mem[?s := w0, ?s + 1 := w1]"
    have "write_bits len i mem v = Inr ?m"
      using s s1 n by (simp add: write_bits_def Let_def pos w0_def w1_def)
    moreover have "mbit ?m q \<longleftrightarrow> (if ?p \<le> q \<and> q < ?p + len then bit v (q - ?p) else mbit mem q)" for q
    proof -
      consider (w0) "q div 64 = ?s" | (w1) "q div 64 = ?s + 1" | (other) "q div 64 \<noteq> ?s" "q div 64 \<noteq> ?s + 1"
        by blast
      then show ?thesis
      proof cases
        case w0
        then have "?o \<le> q mod 64 \<longleftrightarrow> ?p \<le> q" "q mod 64 < ?o + len \<longleftrightarrow> q < ?p + len"
          "?p \<le> q \<Longrightarrow> q mod 64 - ?o = q - ?p"
          using div_mod_64 [of ?p] div_mod_64 [of q] by linarith+
        then show ?thesis using s w0 by (simp add: b0)
      next
        case w1
        have "q mod 64 < n \<longleftrightarrow> q < ?p + len" "?p \<le> q"
          using w1 False div_mod_64 [of ?p] div_mod_64 [of q] unfolding n_def by linarith+
        moreover have "q < ?p + len \<Longrightarrow> q mod 64 + (len - n) = q - ?p"
          using w1 False div_mod_64 [of ?p] div_mod_64 [of q] unfolding n_def by linarith
        ultimately show ?thesis using s1 w1 by (simp add: b1)
      next
        case other
        have "\<not> (?p \<le> q \<and> q < ?p + len)"
        proof (cases "q div 64 < ?s")
          case True
          then show ?thesis using div_mod_64 [of ?p] div_mod_64 [of q] by linarith
        next
          case ge: False
          then have "?s + 2 \<le> q div 64" using other by linarith
          then show ?thesis using assms(3) div_mod_64 [of ?p] div_mod_64 [of q] by linarith
        qed
        then show ?thesis using other by (auto simp: nth_list_update)
      qed
    qed
    ultimately show ?thesis by auto
  qed
qed

section \<open>Elements\<close>

text \<open>The element at an index as the bits say; the contents of the packed array are these numbers.\<close>

definition elem :: "nat \<Rightarrow> u64 list \<Rightarrow> u32 \<Rightarrow> u64" where
  "elem VDL mem index = the_res (memGet VDL mem index)"

definition mem_ok :: "nat \<Rightarrow> nat \<Rightarrow> u64 list \<Rightarrow> bool" where
  "mem_ok VDL m mem \<longleftrightarrow> 0 < VDL \<and> VDL \<le> 60 \<and> m * VDL \<le> 64 * length mem"

lemma mem_words_ok:
  "0 < VDL \<Longrightarrow> VDL \<le> 60 \<Longrightarrow> length mem = mem_words VDL ma mb \<Longrightarrow> mem_ok VDL (unat ma + unat mb) mem"
  using div_mod_64 [of "(unat ma + unat mb) * VDL + 63"] unfolding mem_ok_def mem_words_def by linarith

lemma memGet_bits:
  assumes "mem_ok VDL m mem" "unat index < m"
  shows "memGet VDL mem index = Inr (elem VDL mem index)"
    and "bit (elem VDL mem index) j \<longleftrightarrow> j < VDL \<and> mbit mem (unat index * VDL + j)"
proof -
  have len: "0 < VDL" "VDL \<le> 60" and f: "fits mem (unat index * VDL) VDL"
    using assms index_fits [of index m VDL mem] by (simp_all add: mem_ok_def)
  have p: "unat (ucast index * of_nat VDL :: u64) = unat index * VDL"
    using index_position(2) [of 0 index VDL] f len by (simp add: fits_def)
  obtain w where w: "memGet VDL mem index = Inr w"
    "\<forall>j. bit w j \<longleftrightarrow> j < VDL \<and> mbit mem (unat index * VDL + j)"
    using read_bits_bit [of mem "ucast index * of_nat VDL" VDL] f len by (auto simp: p memGet_def)
  then show "memGet VDL mem index = Inr (elem VDL mem index)"
    and "bit (elem VDL mem index) j \<longleftrightarrow> j < VDL \<and> mbit mem (unat index * VDL + j)"
    by (simp_all add: elem_def the_res_def)
qed

lemma elem_take_bit:
  assumes "mem_ok VDL m mem" "unat index < m"
  shows "take_bit VDL (elem VDL mem index) = elem VDL mem index"
proof (rule bit_word_eqI)
  show "bit (take_bit VDL (elem VDL mem index)) n = bit (elem VDL mem index) n" for n
    unfolding bit_take_bit_iff memGet_bits(2) [OF assms] by blast
qed

text \<open>Writing an element reads back as its low \<open>VDL\<close> bits; every other element is unchanged.\<close>

lemma memSet_elem:
  assumes ok: "mem_ok VDL m mem" and i: "unat index < m"
  obtains mem' where "memSet VDL mem index v = Inr mem'" "length mem' = length mem"
    and "\<And>k. unat k < m \<Longrightarrow>
      elem VDL mem' k = (if k = index then take_bit VDL v else elem VDL mem k)"
proof -
  have len: "0 < VDL" "VDL \<le> 60" and f: "fits mem (unat index * VDL) VDL"
    using assms index_fits [of index m VDL mem] by (simp_all add: mem_ok_def)
  have p: "unat (ucast index * of_nat VDL :: u64) = unat index * VDL"
    using index_position(2) [of 0 index VDL] f len by (simp add: fits_def)
  obtain mem' where set: "memSet VDL mem index v = Inr mem'" and l: "length mem' = length mem"
    and b: "\<And>q. q < 64 * length mem \<Longrightarrow> mbit mem' q \<longleftrightarrow>
        (if unat index * VDL \<le> q \<and> q < unat index * VDL + VDL then bit v (q - unat index * VDL) else mbit mem q)"
    using write_bits_bit [of mem "ucast index * of_nat VDL" VDL v] f len by (auto simp: p memSet_def)
  have ok': "mem_ok VDL m mem'" using ok l by (simp add: mem_ok_def)
  have "elem VDL mem' k = (if k = index then take_bit VDL v else elem VDL mem k)" if k: "unat k < m" for k
  proof (rule bit_word_eqI)
    fix j
    show "bit (elem VDL mem' k) j = bit (if k = index then take_bit VDL v else elem VDL mem k) j"
    proof (cases "j < VDL")
      case True
      have q: "unat k * VDL + j < 64 * length mem"
        using index_fits [of k m VDL mem] k ok True by (simp add: mem_ok_def fits_def)
      have "unat index * VDL \<le> unat k * VDL + j \<and> unat k * VDL + j < unat index * VDL + VDL \<longleftrightarrow> k = index"
        (is "?l \<longleftrightarrow> ?r")
      proof
        assume ?l
        then have "(unat k * VDL + j) div VDL = unat index" 
          by (metis add.commute div_mult_self3 div_less_iff_less_mult dual_order.antisym leD le_less_linear less_Suc_eq_le less_eq_div_iff_mult_less_eq len(1) mult_Suc)
        then show ?r using True by (simp add: word_unat_eq_iff)
      qed (use True in simp)
      then show ?thesis
        using b [OF q] True by (auto simp: memGet_bits(2) [OF ok' k] memGet_bits(2) [OF ok k] bit_simps)
    next
      case False
      then show ?thesis by (simp add: memGet_bits(2) [OF ok' k] memGet_bits(2) [OF ok k] bit_simps)
    qed
  qed
  with set l show ?thesis using that by blast
qed

section \<open>Round trip\<close>

text \<open>
  (C28) The bit-packed array behaves as an array of \<open>VDL\<close>-bit elements, although elements straddle
  word boundaries: a store returns, reads back as the low \<open>VDL\<close> bits of the stored value, and no other
  element changes. (An element has at most 60 bits and the array is large enough.)
\<close>
theorem memSet_memGet:
  assumes "0 < VDL" and "VDL \<le> 60" and "length mem = mem_words VDL ma mb"
    and "unat i < unat ma + unat mb" and "unat k < unat ma + unat mb"
  shows "\<exists>mem'. memSet VDL mem i v = Inr mem' \<and> length mem' = length mem \<and>
    memGet VDL mem' k = (if k = i then Inr (take_bit VDL v) else memGet VDL mem k)"
proof -
  have ok: "mem_ok VDL (unat ma + unat mb) mem" by (rule mem_words_ok [OF assms(1-3)])
  obtain mem' where m: "memSet VDL mem i v = Inr mem'" "length mem' = length mem"
    "\<And>k. unat k < unat ma + unat mb \<Longrightarrow> elem VDL mem' k = (if k = i then take_bit VDL v else elem VDL mem k)"
    by (rule memSet_elem [OF ok assms(4), of v]) blast
  have ok': "mem_ok VDL (unat ma + unat mb) mem'" using ok m(2) by (simp add: mem_ok_def)
  show ?thesis
    using m memGet_bits(1) [OF ok assms(5)] memGet_bits(1) [OF ok' assms(5)] assms(5) by auto
qed

theorem memSet_memGet_witness:
  "\<exists>mem'. memSet 10 [0, 0] 6 1023 = Inr mem' \<and> memGet 10 mem' 6 = Inr 1023 \<and> length mem' = 2"
proof -
  have "take_bit 10 (1023 :: u64) = 1023" by code_simp
  then show ?thesis using memSet_memGet [of 10 "[0, 0]" 4 4 6 6 1023] by (auto simp: mem_words_def)
qed

end
