(* ===== verification/Interfaces.thy ===== *)
theory Interfaces
  imports Prelude
begin

text \<open>
  The contracts the components promise one another, as locales over operations that may fail.

  \<^item> \<open>lossy_map\<close>: a store that may forget (the LRU cache, a log-structured store): what a lookup
    returns after an insert is the inserted value; every other key keeps its value or is forgotten.
    Its client lemma: a lookup never returns a value that was overwritten.
  \<^item> \<open>map_store\<close>: a store that forgets nothing, and so also a \<open>lossy_map\<close> (the Othello and the Ludo control
    planes). Its client lemma: a run of insertions and deletions does to the lookups what the same run does to a map.
  \<^item> \<open>first_write_store\<close>: a store whose insertion does not look for the key, so that the first of several values
    stays visible until an update (the cluster hash table). Its client lemma: a load leaves the first value of every key.
  \<^item> \<open>append_store\<close>: storage addressed by the number an append returns. Its client lemma: after a
    bulk load every returned number still reads back its own record.
  \<^item> \<open>bounded_fifo\<close>: a queue of limited room, seen as the list of its elements. Its client lemma: a
    sequence of insertions that fits succeeds and appends the elements in order.
\<close>

section \<open>A store that may forget\<close>

locale lossy_map =
  fixes inv :: "'m \<Rightarrow> bool"
    and insert :: "'k \<Rightarrow> 'v \<Rightarrow> 'm \<Rightarrow> 'm res"
    and lookup :: "'m \<Rightarrow> 'k \<Rightarrow> 'v option"
  assumes insert_inv: "inv m \<Longrightarrow> insert k v m = Inr m' \<Longrightarrow> inv m'"
    and insert_same: "inv m \<Longrightarrow> insert k v m = Inr m' \<Longrightarrow> lookup m' k = Some v"
    and insert_other: "inv m \<Longrightarrow> insert k v m = Inr m' \<Longrightarrow> k' \<noteq> k \<Longrightarrow>
          lookup m' k' = None \<or> lookup m' k' = lookup m k'"
begin

lemma insert_all_inv:
  "inv m \<Longrightarrow> rfold (\<lambda>(k, v). insert k v) kvs m = Inr m' \<Longrightarrow> inv m'"
  by (erule rfold_invariant) (auto intro: insert_inv)

text \<open>No stale value: a hit is the last value inserted for the key.\<close>

lemma insert_all_no_stale:
  assumes "inv m" and "rfold (\<lambda>(k, v). insert k v) kvs m = Inr m'" and "lookup m' k = Some v"
  shows "(lookup m ++ map_of (rev kvs)) k = Some v"
  using assms
proof (induction kvs arbitrary: m' v rule: rev_induct)
  case (snoc kv kvs)
  obtain k1 v1 where kv: "kv = (k1, v1)" by (cases kv)
  from snoc.prems(2) obtain m1 where m1: "rfold (\<lambda>(k, v). insert k v) kvs m = Inr m1"
    and ins: "insert k1 v1 m1 = Inr m'"
    by (auto simp: rfold_append kv elim!: rbindE)
  have inv1: "inv m1" using snoc.prems(1) m1 by (rule insert_all_inv)
  show ?case
  proof (cases "k = k1")
    case True
    then show ?thesis using insert_same [OF inv1 ins] snoc.prems(3) by (simp add: kv)
  next
    case False
    then have "lookup m1 k = Some v"
      using insert_other [OF inv1 ins False] snoc.prems(3) by auto
    then show ?thesis using snoc.IH [OF snoc.prems(1) m1] False by (simp add: kv map_add_def)
  qed
qed simp

end

section \<open>A store that forgets nothing\<close>

datatype ('k, 'v) store_op = Put 'k 'v | Del 'k

fun run_op :: "('k \<Rightarrow> 'v \<Rightarrow> 'm \<Rightarrow> 'm res) \<Rightarrow> ('k \<Rightarrow> 'm \<Rightarrow> 'm res) \<Rightarrow> ('k, 'v) store_op \<Rightarrow> 'm \<Rightarrow> 'm res" where
  "run_op ins del (Put k v) m = ins k v m"
| "run_op ins del (Del k) m = del k m"

fun map_op :: "('k, 'v) store_op \<Rightarrow> ('k \<rightharpoonup> 'v) \<Rightarrow> 'k \<rightharpoonup> 'v" where
  "map_op (Put k v) f = f(k \<mapsto> v)"
| "map_op (Del k) f = f(k := None)"

locale map_store =
  fixes inv :: "'m \<Rightarrow> bool"
    and insert :: "'k \<Rightarrow> 'v \<Rightarrow> 'm \<Rightarrow> 'm res"
    and delete :: "'k \<Rightarrow> 'm \<Rightarrow> 'm res"
    and lookup :: "'m \<Rightarrow> 'k \<rightharpoonup> 'v"
  assumes put_ok: "inv m \<Longrightarrow> insert k v m = Inr m' \<Longrightarrow> inv m' \<and> lookup m' = (lookup m)(k \<mapsto> v)"
    and del_ok: "inv m \<Longrightarrow> delete k m = Inr m' \<Longrightarrow> inv m' \<and> lookup m' = (lookup m)(k := None)"
begin

lemma run_ops:
  "inv m \<Longrightarrow> rfold (run_op insert delete) ops m = Inr m' \<Longrightarrow> inv m' \<and> lookup m' = fold map_op ops (lookup m)"
proof (induction ops arbitrary: m)
  case (Cons p ops)
  obtain m1 where m1: "run_op insert delete p m = Inr m1" "rfold (run_op insert delete) ops m1 = Inr m'"
    using Cons.prems(2) by (auto elim!: rbindE)
  have "inv m1 \<and> lookup m1 = map_op p (lookup m)" using put_ok [OF Cons.prems(1)] del_ok [OF Cons.prems(1)] m1(1) by (cases p) auto
  then show ?case using Cons.IH [OF _ m1(2)] by simp
qed simp

end

sublocale map_store \<subseteq> lossy: lossy_map inv insert lookup
  using put_ok by unfold_locales auto

section \<open>A store in which the first value stays\<close>

locale first_write_store =
  fixes inv :: "'m \<Rightarrow> bool"
    and insert :: "'k \<Rightarrow> 'v \<Rightarrow> 'm \<Rightarrow> 'm res"
    and update :: "'k \<Rightarrow> 'v \<Rightarrow> 'm \<Rightarrow> 'm res"
    and lookup :: "'m \<Rightarrow> 'k \<rightharpoonup> 'v"
  assumes insert_ok: "inv m \<Longrightarrow> insert k v m = Inr m' \<Longrightarrow> inv m' \<and> lookup m' = [k \<mapsto> v] ++ lookup m"
    and update_ok: "inv m \<Longrightarrow> update k v m = Inr m' \<Longrightarrow>
          inv m' \<and> lookup m' = (if lookup m k = None then lookup m else (lookup m)(k \<mapsto> v))"
begin

lemma load_keeps_first:
  "inv m \<Longrightarrow> rfold (\<lambda>(k, v). insert k v) kvs m = Inr m' \<Longrightarrow> inv m' \<and> lookup m' = map_of kvs ++ lookup m"
proof (induction kvs arbitrary: m)
  case (Cons kv kvs)
  obtain k v where kv: "kv = (k, v)" by (cases kv)
  obtain m1 where m1: "insert k v m = Inr m1" "rfold (\<lambda>(k, v). insert k v) kvs m1 = Inr m'"
    using Cons.prems(2) by (auto simp: kv elim!: rbindE)
  show ?case using Cons.IH [OF _ m1(2)] insert_ok [OF Cons.prems(1) m1(1)] by (auto simp: kv map_add_def fun_eq_iff split: option.splits)
qed simp

lemma insert_then_update:
  assumes "inv m" "insert k v m = Inr m1" "update k v' m1 = Inr m2"
  shows "lookup m2 = (lookup m)(k \<mapsto> v')"
  using update_ok [OF _ assms(3)] insert_ok [OF assms(1,2)] by (auto simp: map_add_def fun_eq_iff split: option.splits)

end

section \<open>Storage addressed by record number\<close>

text \<open>A bulk load: the records are appended one by one and the numbers collected.\<close>

fun append_all :: "('r \<Rightarrow> 's \<Rightarrow> ('a \<times> 's) res) \<Rightarrow> 'r list \<Rightarrow> 's \<Rightarrow> ('a list \<times> 's) res" where
  "append_all app [] s = Inr ([], s)"
| "append_all app (r # rs) s =
    rbind (app r s) (\<lambda>(a, s1).
    rbind (append_all app rs s1) (\<lambda>(as, s2). Inr (a # as, s2)))"

locale append_store =
  fixes inv :: "'s \<Rightarrow> bool"
    and append :: "'r \<Rightarrow> 's \<Rightarrow> ('a \<times> 's) res"
    and read :: "'s \<Rightarrow> 'a \<Rightarrow> 'r option"
  assumes append_inv: "inv s \<Longrightarrow> append r s = Inr (a, s') \<Longrightarrow> inv s'"
    and append_fresh: "inv s \<Longrightarrow> append r s = Inr (a, s') \<Longrightarrow> read s a = None"
    and append_read: "inv s \<Longrightarrow> append r s = Inr (a, s') \<Longrightarrow> read s' = (read s)(a \<mapsto> r)"
begin

lemma append_all_inv: "inv s \<Longrightarrow> append_all append rs s = Inr (as, s') \<Longrightarrow> inv s'"
  by (induction rs arbitrary: s as) (auto elim!: rbindE dest: append_inv)

lemma append_all_keeps:
  "inv s \<Longrightarrow> append_all append rs s = Inr (as, s') \<Longrightarrow> read s a = Some r \<Longrightarrow> read s' a = Some r"
proof (induction rs arbitrary: s as)
  case (Cons r1 rs)
  from Cons.prems(2) obtain a1 s1 as1 where 1: "append r1 s = Inr (a1, s1)"
    and rest: "append_all append rs s1 = Inr (as1, s')" by (auto elim!: rbindE)
  have "a \<noteq> a1" using append_fresh [OF Cons.prems(1) 1] Cons.prems(3) by auto
  then have "read s1 a = Some r" using append_read [OF Cons.prems(1) 1] Cons.prems(3) by simp
  then show ?case using Cons.IH append_inv [OF Cons.prems(1) 1] rest by blast
qed simp

lemma append_all_reads:
  "inv s \<Longrightarrow> append_all append rs s = Inr (as, s') \<Longrightarrow> map (read s') as = map Some rs"
proof (induction rs arbitrary: s as)
  case (Cons r rs)
  from Cons.prems(2) obtain a s1 as1 where 1: "append r s = Inr (a, s1)"
    and rest: "append_all append rs s1 = Inr (as1, s')" and as: "as = a # as1" by (auto elim!: rbindE)
  have inv1: "inv s1" using append_inv [OF Cons.prems(1) 1] .
  have "read s1 a = Some r" using append_read [OF Cons.prems(1) 1] by simp
  then have "read s' a = Some r" by (rule append_all_keeps [OF inv1 rest])
  then show ?case using Cons.IH [OF inv1 rest] by (simp add: as)
qed simp

end

section \<open>A queue of limited room\<close>

locale bounded_fifo =
  fixes inv :: "'q \<Rightarrow> bool"
    and room :: nat
    and elems :: "'q \<Rightarrow> 'a list"
    and push :: "'a \<Rightarrow> 'q \<Rightarrow> 'q res"
    and pop :: "'q \<Rightarrow> ('a \<times> 'q) res"
    and is_empty :: "'q \<Rightarrow> bool"
  assumes push_ok: "inv q \<Longrightarrow> length (elems q) < room \<Longrightarrow>
            \<exists>q'. push x q = Inr q' \<and> inv q' \<and> elems q' = elems q @ [x]"
    and pop_ok: "inv q \<Longrightarrow> elems q = x # xs \<Longrightarrow> \<exists>q'. pop q = Inr (x, q') \<and> inv q' \<and> elems q' = xs"
    and empty_iff: "inv q \<Longrightarrow> is_empty q \<longleftrightarrow> elems q = []"
begin

lemma push_all_ok:
  "inv q \<Longrightarrow> length (elems q) + length xs \<le> room \<Longrightarrow>
   \<exists>q'. rfold push xs q = Inr q' \<and> inv q' \<and> elems q' = elems q @ xs"
proof (induction xs arbitrary: q)
  case (Cons x xs)
  obtain q1 where q1: "push x q = Inr q1" "inv q1" "elems q1 = elems q @ [x]"
    using push_ok [OF Cons.prems(1), of x] Cons.prems(2) by auto
  then show ?case using Cons.IH [OF q1(2)] Cons.prems(2) by simp
qed simp

end

end
