(* ===== verification/Packed_Data.thy ===== *)
theory Packed_Data
  imports Interfaces
begin

text \<open>
  The key-value block storage of \<open>outback/packed_data.hh\<close>: an array of packed records, filled from
  the front by a bump counter and addressed by record number. \<open>rawArray\<close> is the array the class
  points to; a wrapper over registered memory aliases it, so the functions on a mapped region pass
  the region's array in and take it back out.

  Shown: what is appended can be read back under the returned number, earlier records keep their
  contents, the counter never passes the capacity, the returned number is the counter cut to
  32 bits, and attaching a wrapper to registered memory overwrites every record of it.
\<close>

section \<open>Definitions\<close>

record packed_struct =
  ps_key :: u64
  ps_data_length :: u32
  ps_data :: u64

record packed_data =
  rawArray :: "packed_struct list"
  pd_num :: u64
  numElements :: u64

abbreviation zero_struct :: packed_struct where
  "zero_struct \<equiv> \<lparr>ps_key = 0, ps_data_length = 0, ps_data = 0\<rparr>"

definition sizeof_packed_struct :: u64 where
  "sizeof_packed_struct = 20"

text \<open>
  \<open>PackedData(numElements)\<close>: \<open>new packed_struct_t[n]\<close> leaves the records indeterminate; \<open>junk i\<close>
  stands for what the allocator returned at record \<open>i\<close>.
\<close>

definition PackedData_new :: "(nat \<Rightarrow> packed_struct) \<Rightarrow> u64 \<Rightarrow> packed_data" where
  "PackedData_new junk n =
    \<lparr>rawArray = map junk [0..<unat n], pd_num = 0, numElements = n\<rparr>"

text \<open>
  \<open>PackedData(reg_mem, numElements)\<close>: attaches to registered memory, and copies a default-initialised
  (so indeterminate) local record \<open>junk\<close> over each of the first \<open>numElements\<close> records.
\<close>

definition PackedData_map :: "packed_struct \<Rightarrow> packed_struct list \<Rightarrow> u64 \<Rightarrow> packed_data res" where
  "PackedData_map junk reg_mem n =
    rbind (rfold (\<lambda>i mem. aset mem i junk) [0..<unat n] reg_mem)
      (\<lambda>mem. Inr \<lparr>rawArray = mem, pd_num = 0, numElements = n\<rparr>)"

definition read_key :: "packed_data \<Rightarrow> u64 \<Rightarrow> u64 res" where
  "read_key pd i = rbind (aget (rawArray pd) (unat i)) (\<lambda>r. Inr (ps_key r))"

text \<open>\<open>read_data(num, val)\<close>: the value through the reference, the length as the result.\<close>

definition read_data :: "packed_data \<Rightarrow> u64 \<Rightarrow> (u64 \<times> u32) res" where
  "read_data pd i =
    rbind (aget (rawArray pd) (unat i)) (\<lambda>r. Inr (ps_data r, ps_data_length r))"

definition read_data_with_key_check :: "packed_data \<Rightarrow> u64 \<Rightarrow> u64 \<Rightarrow> (u64 \<times> u32) res" where
  "read_data_with_key_check pd i key =
    rbind (aget (rawArray pd) (unat i)) (\<lambda>r.
      Inr (ps_data r, if ps_key r \<noteq> key then 0 else ps_data_length r))"

definition remove_data_with_key_check :: "packed_data \<Rightarrow> u64 \<Rightarrow> u64 \<Rightarrow> (bool \<times> packed_data) res" where
  "remove_data_with_key_check pd i key =
    rbind (aget (rawArray pd) (unat i)) (\<lambda>r.
      if ps_key r \<noteq> key then Inr (False, pd)
      else Inr (True, pd\<lparr>rawArray := (rawArray pd)[unat i := zero_struct]\<rparr>))"

definition bulk_load_data :: "packed_data \<Rightarrow> u64 \<Rightarrow> u32 \<Rightarrow> u64 \<Rightarrow> (u32 \<times> packed_data) res" where
  "bulk_load_data pd key len d =
    (if pd_num pd \<ge> numElements pd then Inl ExitProcess
     else rbind (aset (rawArray pd) (unat (pd_num pd))
                   \<lparr>ps_key = key, ps_data_length = len, ps_data = d\<rparr>)
       (\<lambda>arr. Inr (ucast (pd_num pd), pd\<lparr>rawArray := arr, pd_num := pd_num pd + 1\<rparr>)))"

definition addr_mask :: u64 where
  "addr_mask = push_bit 40 1 - 1"

text \<open>\<open>read_batch_keys\<close>: the counter \<open>ik\<close> is a \<open>uint8_t\<close>, the result vector has one key per address.\<close>

definition read_batch_keys :: "packed_data \<Rightarrow> u64 list \<Rightarrow> u64 list res" where
  "read_batch_keys pd addrs =
    rbind (rfold (\<lambda>addr (ik, keys).
             rbind (aget (rawArray pd) (unat (addr AND addr_mask))) (\<lambda>r.
             rbind (aset keys (unat ik) (ps_key r)) (\<lambda>keys'.
             Inr (ik + 1, keys'))))
           addrs (0 :: u8, replicate (length addrs) 0))
      (\<lambda>(ik, keys). Inr keys)"

definition update_data :: "packed_data \<Rightarrow> u64 \<Rightarrow> u64 \<Rightarrow> u32 \<Rightarrow> u64 \<Rightarrow> (u32 \<times> packed_data) res" where
  "update_data pd i key len d =
    rbind (aset (rawArray pd) (unat i) \<lparr>ps_key = key, ps_data_length = len, ps_data = d\<rparr>)
      (\<lambda>arr. Inr (len, pd\<lparr>rawArray := arr\<rparr>))"

definition remove_data :: "packed_data \<Rightarrow> u64 \<Rightarrow> (u8 \<times> packed_data) res" where
  "remove_data pd i =
    rbind (aget (rawArray pd) (unat i)) (\<lambda>r.
      Inr (0, pd\<lparr>rawArray := (rawArray pd)[unat i := r\<lparr>ps_data_length := 0\<rparr>]\<rparr>))"

definition remote_addr :: "u64 \<Rightarrow> u64" where
  "remote_addr i = i * sizeof_packed_struct"

text \<open>The well-formedness invariant: the counter is within the capacity, the capacity within the array.\<close>

definition pd_wf :: "packed_data \<Rightarrow> bool" where
  "pd_wf pd \<longleftrightarrow> unat (pd_num pd) \<le> unat (numElements pd) \<and> unat (numElements pd) \<le> length (rawArray pd)"

lemmas packed_defs =
  read_key_def read_data_def read_data_with_key_check_def remove_data_with_key_check_def
  update_data_def remove_data_def

section \<open>Lemmas\<close>

lemma PackedData_new_wf: "pd_wf (PackedData_new junk n)"
  by (simp add: PackedData_new_def pd_wf_def)

lemma fill_loop:
  "n \<le> length mem \<Longrightarrow>
   rfold (\<lambda>i mem. aset mem i junk) [0..<n] mem = Inr (replicate n junk @ drop n mem)"
proof (induction n)
  case (Suc n)
  have "(replicate n junk @ drop n mem)[n := junk] = replicate (Suc n) junk @ drop (Suc n) mem"
  proof -
    have "drop n mem = mem ! n # drop (Suc n) mem"
      using Suc.prems by (simp add: Cons_nth_drop_Suc)
    then show ?thesis by (simp add: list_update_append replicate_append_same)
  qed
  with Suc show ?case by (simp add: rfold_append)
qed simp

lemma PackedData_map_eq:
  assumes "unat n \<le> length mem"
  shows "PackedData_map junk mem n =
    Inr \<lparr>rawArray = replicate (unat n) junk @ drop (unat n) mem, pd_num = 0, numElements = n\<rparr>"
  using assms by (simp add: PackedData_map_def fill_loop)

lemma bulk_load_data_ok:
  assumes "pd_wf pd" and "pd_num pd < numElements pd"
  shows "bulk_load_data pd key len d =
    Inr (ucast (pd_num pd), pd\<lparr>rawArray := (rawArray pd)[unat (pd_num pd) :=
            \<lparr>ps_key = key, ps_data_length = len, ps_data = d\<rparr>], pd_num := pd_num pd + 1\<rparr>)"
  using assms by (simp add: bulk_load_data_def pd_wf_def word_less_nat_alt word_le_nat_alt)

lemma bulk_load_data_full:
  "pd_num pd \<ge> numElements pd \<Longrightarrow> bulk_load_data pd key len d = Inl ExitProcess"
  by (simp add: bulk_load_data_def)

lemma bulk_load_data_Inr:
  assumes "pd_wf pd" and "bulk_load_data pd key len d = Inr (a, pd')"
  shows "unat (pd_num pd) < unat (numElements pd)"
    and "a = ucast (pd_num pd)"
    and "unat (pd_num pd') = Suc (unat (pd_num pd))"
    and "numElements pd' = numElements pd"
    and "rawArray pd' = (rawArray pd)[unat (pd_num pd) :=
            \<lparr>ps_key = key, ps_data_length = len, ps_data = d\<rparr>]"
    and "pd_wf pd'"
proof -
  show lt: "unat (pd_num pd) < unat (numElements pd)"
    using assms(2) by (simp add: bulk_load_data_def word_le_nat_alt split: if_splits)
  then have num: "unat (pd_num pd + 1) = Suc (unat (pd_num pd))"
    by (rule unat_succ_lt)
  from lt have "pd_num pd < numElements pd" by (simp add: word_less_nat_alt)
  with assms have eq: "a = ucast (pd_num pd)"
    "pd' = pd\<lparr>rawArray := (rawArray pd)[unat (pd_num pd) :=
            \<lparr>ps_key = key, ps_data_length = len, ps_data = d\<rparr>], pd_num := pd_num pd + 1\<rparr>"
    by (simp_all add: bulk_load_data_ok)
  from eq(1) show "a = ucast (pd_num pd)" .
  from eq(2) num lt assms(1)
  show "unat (pd_num pd') = Suc (unat (pd_num pd))" "numElements pd' = numElements pd"
    "rawArray pd' = (rawArray pd)[unat (pd_num pd) :=
            \<lparr>ps_key = key, ps_data_length = len, ps_data = d\<rparr>]"
    "pd_wf pd'"
    by (simp_all add: pd_wf_def)
qed

lemma update_data_wf:
  "pd_wf pd \<Longrightarrow> update_data pd i key len d = Inr (l, pd') \<Longrightarrow> pd_wf pd'"
  by (auto simp: update_data_def pd_wf_def aset_eq_Inr elim!: rbindE)

lemma remove_data_with_key_check_wf:
  "pd_wf pd \<Longrightarrow> remove_data_with_key_check pd i key = Inr (b, pd') \<Longrightarrow> pd_wf pd'"
  by (auto simp: remove_data_with_key_check_def pd_wf_def elim!: rbindE split: if_splits)

lemma read_batch_keys_loop:
  assumes "length keys = n + length addrs" and "n + length addrs < 256"
    and "\<forall>a\<in>set addrs. unat (a AND addr_mask) < length (rawArray pd)"
  shows "rfold (\<lambda>addr (ik, keys).
             rbind (aget (rawArray pd) (unat (addr AND addr_mask))) (\<lambda>r.
             rbind (aset keys (unat ik) (ps_key r)) (\<lambda>keys'.
             Inr (ik + 1, keys'))))
           addrs (word_of_nat n :: u8, keys)
    = Inr (word_of_nat (n + length addrs),
           take n keys @ map (\<lambda>a. ps_key (rawArray pd ! unat (a AND addr_mask))) addrs)"
  using assms
proof (induction addrs arbitrary: n keys)
  case (Cons a addrs)
  let ?k = "ps_key (rawArray pd ! unat (a AND addr_mask))"
  have n: "unat (word_of_nat n :: u8) = n" "n < length keys"
    using Cons.prems(1,2) by (simp_all add: unsigned_of_nat take_bit_nat_eq_self)
  have s: "(word_of_nat n + 1 :: u8) = word_of_nat (Suc n)" by simp
  have "take (Suc n) (keys[n := ?k]) = take n keys @ [?k]"
    using n(2) by (simp add: take_Suc_conv_app_nth take_update_cancel)
  then show ?case
    using Cons.prems n s Cons.IH [of "keys[n := ?k]" "Suc n"] by (simp add: add_ac)
qed simp

lemma read_batch_keys_eq:
  assumes "length addrs < 256" and "\<forall>a\<in>set addrs. unat (a AND addr_mask) < length (rawArray pd)"
  shows "read_batch_keys pd addrs =
    Inr (map (\<lambda>a. ps_key (rawArray pd ! unat (a AND addr_mask))) addrs)"
  using read_batch_keys_loop [of "replicate (length addrs) 0" 0 addrs pd] assms
  by (simp add: read_batch_keys_def)

section \<open>Bulk loading\<close>

text \<open>
  Appending a record, and the record a number stands for: the numbers below the counter. The numbers
  are the counter cut to 32 bits, so they are distinct while the capacity is at most \<open>2 ^ 32\<close>.
\<close>

definition load_record :: "packed_struct \<Rightarrow> packed_data \<Rightarrow> (u32 \<times> packed_data) res" where
  "load_record r pd = bulk_load_data pd (ps_key r) (ps_data_length r) (ps_data r)"

definition loaded :: "packed_data \<Rightarrow> u32 \<Rightarrow> packed_struct option" where
  "loaded pd a = (if unat a < unat (pd_num pd) then Some (rawArray pd ! unat a) else None)"

definition numbered :: "packed_data \<Rightarrow> bool" where
  "numbered pd \<longleftrightarrow> pd_wf pd \<and> unat (numElements pd) \<le> 2 ^ 32"

lemma load_record_Inr:
  assumes "numbered pd" and "load_record r pd = Inr (a, pd')"
  shows "unat a = unat (pd_num pd)" and "unat (pd_num pd') = Suc (unat a)" and "numbered pd'"
    and "rawArray pd' = (rawArray pd)[unat a := r]" and "unat a < length (rawArray pd)"
    and "numElements pd' = numElements pd"
proof -
  have wf: "pd_wf pd" and cap: "unat (numElements pd) \<le> 2 ^ 32" using assms(1) by (simp_all add: numbered_def)
  note b = bulk_load_data_Inr [OF wf assms(2) [unfolded load_record_def]]
  show a: "unat a = unat (pd_num pd)"
    using b(1,2) cap by (simp add: unsigned_ucast_eq take_bit_nat_eq_self)
  show "unat (pd_num pd') = Suc (unat a)" "numbered pd'" "rawArray pd' = (rawArray pd)[unat a := r]"
    "numElements pd' = numElements pd"
    using a b cap by (cases r, simp add: numbered_def)+
  show "unat a < length (rawArray pd)" using a b(1) wf by (simp add: pd_wf_def)
qed

interpretation bulk: append_store numbered load_record loaded
proof
  fix pd r a pd'
  assume n: "numbered pd" and l: "load_record r pd = Inr (a, pd')"
  note b = load_record_Inr [OF n l]
  show "numbered pd'" by (rule b(3))
  show "loaded pd a = None" by (simp add: loaded_def b(1))
  show "loaded pd' = (loaded pd)(a \<mapsto> r)"
    using b(1,2,4,5) by (auto simp: loaded_def fun_eq_iff less_Suc_eq nth_list_update word_unat_eq_iff)
qed

text \<open>
  A bulk load reads back: after loading any list of records into a block whose capacity is at most
  \<open>2 ^ 32\<close>, reading each returned number gives the key, the value and the length of its own record.
\<close>
theorem bulk_load_reads_back:
  assumes "pd_wf pd" and "unat (numElements pd) \<le> 2 ^ 32"
    and "append_all load_record rs pd = Inr (as, pd')" and "i < length rs"
  shows "length as = length rs \<and> read_key pd' (ucast (as ! i)) = Inr (ps_key (rs ! i)) \<and>
    read_data pd' (ucast (as ! i)) = Inr (ps_data (rs ! i), ps_data_length (rs ! i))"
proof -
  have n: "numbered pd" using assms(1,2) by (simp add: numbered_def)
  have m: "map (loaded pd') as = map Some rs" by (rule bulk.append_all_reads [OF n assms(3)])
  then have len: "length as = length rs" by (metis length_map)
  then have "loaded pd' (as ! i) = Some (rs ! i)" using m assms(4) by (metis nth_map)
  then have s: "unat (as ! i) < unat (pd_num pd')" "rawArray pd' ! unat (as ! i) = rs ! i"
    by (simp_all add: loaded_def split: if_splits)
  have "numbered pd'" using bulk.append_all_inv [OF n assms(3)] .
  then have "unat (as ! i) < length (rawArray pd')" using s(1) by (simp add: numbered_def pd_wf_def)
  then show ?thesis using s(2) len by (simp add: packed_defs)
qed

theorem bulk_load_reads_back_witness:
  "\<exists>as pd'. append_all load_record [\<lparr>ps_key = 7, ps_data_length = 8, ps_data = 70\<rparr>, \<lparr>ps_key = 9, ps_data_length = 8, ps_data = 90\<rparr>]
     (PackedData_new (\<lambda>_. zero_struct) 2) = Inr (as, pd') \<and> read_data pd' (ucast (as ! 1)) = Inr (90, 8)"
proof -
  let ?rs = "[\<lparr>ps_key = 7, ps_data_length = 8, ps_data = 70\<rparr>, \<lparr>ps_key = 9, ps_data_length = 8, ps_data = 90\<rparr>]"
  let ?pd = "PackedData_new (\<lambda>_. zero_struct) 2"
  let ?pd' = "\<lparr>rawArray = ?rs, pd_num = 2, numElements = 2\<rparr>"
  have l: "append_all load_record ?rs ?pd = Inr ([0, 1], ?pd')" by code_simp
  have "unat (numElements ?pd) \<le> 2 ^ 32" "1 < length ?rs" by (simp_all add: PackedData_new_def)
  from bulk_load_reads_back [OF PackedData_new_wf this(1) l this(2)]
  have "read_data ?pd' (ucast ([0, 1] ! 1 :: u32)) = Inr (90, 8)" by simp
  then show ?thesis using l by blast
qed

end
