(* ===== verification/Ludo_Slot.thy ===== *)
theory Ludo_Slot
  imports Hash_Util Packed_Data
begin

text \<open>
  The index words of \<open>outback/ludo_slot.hh\<close>: a slot is one 64-bit word holding a flag bit, a 7-bit
  fingerprint, a 16-bit length and a 40-bit record number; a bucket has four slots. \<open>combine\<close> and
  the four readers are modelled on words, the bucket array as a list of four-slot lists.
\<close>

section \<open>Definitions\<close>

abbreviation SLOTS_NUM_BUCKET :: nat where
  "SLOTS_NUM_BUCKET \<equiv> 4"

type_synonym ludo_bucket = "u64 list"

record ludo_buckets =
  bucketsArray :: "ludo_bucket list"
  lb_numElements :: u64

definition fingerprint_seed :: u64 where
  "fingerprint_seed = 0x93ea45"

definition combine :: "u8 \<Rightarrow> u16 \<Rightarrow> u64 \<Rightarrow> u64" where
  "combine finger len addr =
    push_bit 63 1 +
    push_bit 56 (ucast (finger AND 0x7F)) +
    push_bit 40 (ucast (len AND 0xFFFF)) +
    (addr AND (push_bit 40 1 - 1))"

definition toCachebit :: "u64 \<Rightarrow> u8" where
  "toCachebit w = ucast (drop_bit 63 w AND 0x01)"

definition toFinger :: "u64 \<Rightarrow> u8" where
  "toFinger w = ucast (drop_bit 56 w AND 0x7F)"

definition toLength :: "u64 \<Rightarrow> u16" where
  "toLength w = ucast (drop_bit 40 w AND 0xFFFF)"

definition toAddr :: "u64 \<Rightarrow> u64" where
  "toAddr w = w AND (push_bit 40 1 - 1)"

text \<open>\<open>LudoBuckets(numElements)\<close>: value-initialised buckets; and the wrapper over external memory.\<close>

definition LudoBuckets_new :: "u64 \<Rightarrow> ludo_buckets" where
  "LudoBuckets_new n =
    \<lparr>bucketsArray = replicate (unat n) (replicate SLOTS_NUM_BUCKET 0), lb_numElements = n\<rparr>"

definition LudoBuckets_external :: "ludo_bucket list \<Rightarrow> u64 \<Rightarrow> ludo_buckets" where
  "LudoBuckets_external mem n = \<lparr>bucketsArray = mem, lb_numElements = n\<rparr>"

definition fingerprint :: "u64 \<Rightarrow> u8" where
  "fingerprint key = ucast (fast_hasher64 fingerprint_seed key AND 0x7F)"

definition get_cell :: "ludo_buckets \<Rightarrow> u64 \<Rightarrow> u8 \<Rightarrow> u64 res" where
  "get_cell lb row slot = rbind (aget (bucketsArray lb) (unat row)) (\<lambda>b. aget b (unat slot))"

definition write_cell :: "ludo_buckets \<Rightarrow> u64 \<Rightarrow> u8 \<Rightarrow> u64 \<Rightarrow> ludo_buckets res" where
  "write_cell lb row slot v =
    rbind (aget (bucketsArray lb) (unat row)) (\<lambda>b.
    rbind (aset b (unat slot) v) (\<lambda>b'.
    Inr (lb\<lparr>bucketsArray := (bucketsArray lb)[unat row := b']\<rparr>)))"

text \<open>The loop over the four slots that looks for one whose length is zero.\<close>

fun any_free :: "ludo_buckets \<Rightarrow> u64 \<Rightarrow> u8 list \<Rightarrow> bool res" where
  "any_free lb row [] = Inr False"
| "any_free lb row (idx # rest) =
    rbind (get_cell lb row idx) (\<lambda>w.
      if toLength w = 0 then Inr True else any_free lb row rest)"

text \<open>
  \<open>check_slots\<close>: 0 the slot is free, 1 its fingerprint is the key's, 2 some slot of the row is free,
  3 the row is full.
\<close>

definition check_slots :: "ludo_buckets \<Rightarrow> u64 \<Rightarrow> u64 \<Rightarrow> u8 \<Rightarrow> int res" where
  "check_slots lb key row slot =
    rbind (get_cell lb row slot) (\<lambda>w.
      if toLength w = 0 then Inr 0
      else if toFinger w = fingerprint key then Inr 1
      else rbind (any_free lb row [0, 1, 2, 3]) (\<lambda>free.
             if free then Inr 2 else Inr 3))"

definition read_addr :: "ludo_buckets \<Rightarrow> u64 \<Rightarrow> u8 \<Rightarrow> u64 res" where
  "read_addr lb row slot = rbind (get_cell lb row slot) (\<lambda>w. Inr (toAddr w))"

definition remove_addr :: "ludo_buckets \<Rightarrow> u64 \<Rightarrow> u8 \<Rightarrow> ludo_buckets res" where
  "remove_addr lb row slot = write_cell lb row slot 0"

definition read_cachebit :: "ludo_buckets \<Rightarrow> u64 \<Rightarrow> u8 \<Rightarrow> bool res" where
  "read_cachebit lb row slot = rbind (get_cell lb row slot) (\<lambda>w. Inr (toCachebit w \<noteq> 0))"

definition set_cachebit :: "ludo_buckets \<Rightarrow> u64 \<Rightarrow> u8 \<Rightarrow> ludo_buckets res" where
  "set_cachebit lb row slot =
    rbind (get_cell lb row slot) (\<lambda>w. write_cell lb row slot (w OR push_bit 63 1))"

definition read_bucket_addrs :: "ludo_buckets \<Rightarrow> u64 \<Rightarrow> u64 list res" where
  "read_bucket_addrs lb row =
    rfold (\<lambda>slot addrs. rbind (get_cell lb row slot) (\<lambda>w.
        Inr (if toLength w \<noteq> 0 then addrs @ [w] else addrs)))
      [0, 1, 2, 3] []"

definition write_addr :: "ludo_buckets \<Rightarrow> u64 \<Rightarrow> u64 \<Rightarrow> u8 \<Rightarrow> u64 \<Rightarrow> u16 \<Rightarrow> ludo_buckets res" where
  "write_addr lb key row slot addr len =
    write_cell lb row slot (combine (fingerprint key) len addr)"

definition empty_bucket :: "ludo_buckets \<Rightarrow> u64 \<Rightarrow> ludo_buckets res" where
  "empty_bucket lb row =
    rfold (\<lambda>slot lb. write_cell lb row slot 0) [0, 1, 2, 3] lb"

definition lb_size :: "ludo_buckets \<Rightarrow> u32" where
  "lb_size lb = ucast (lb_numElements lb)"

definition lb_wf :: "ludo_buckets \<Rightarrow> bool" where
  "lb_wf lb \<longleftrightarrow> (\<forall>b\<in>set (bucketsArray lb). length b = SLOTS_NUM_BUCKET)"

text \<open>The word of row \<open>r\<close>, slot \<open>s\<close>.\<close>

abbreviation cell :: "ludo_buckets \<Rightarrow> nat \<Rightarrow> nat \<Rightarrow> u64" where
  "cell lb r s \<equiv> bucketsArray lb ! r ! s"

section \<open>Packing and reading a slot word\<close>

lemma exp_minus_1_mask: "(push_bit n 1 - 1 :: u64) = mask n"
  by (simp add: mask_eq_exp_minus_1 push_bit_of_1)

lemma masks_u64: "(0x7F :: u64) = mask 7" "(0xFFFF :: u64) = mask 16" "(1 :: u64) = mask 1"
  by (simp_all add: mask_eq_exp_minus_1)

lemma toAddr_take_bit: "toAddr w = take_bit 40 w"
  by (simp only: toAddr_def exp_minus_1_mask take_bit_eq_mask)

lemma toLength_take_bit: "toLength w = ucast (take_bit 16 (drop_bit 40 w))"
  by (simp only: toLength_def masks_u64 take_bit_eq_mask)

lemma toFinger_take_bit: "toFinger w = ucast (take_bit 7 (drop_bit 56 w))"
  by (simp only: toFinger_def masks_u64 take_bit_eq_mask)

lemma toCachebit_take_bit: "toCachebit w = ucast (take_bit 1 (drop_bit 63 w))"
  unfolding toCachebit_def masks_u64(3) take_bit_eq_mask by simp

lemmas to_field_take_bit = toAddr_take_bit toLength_take_bit toFinger_take_bit toCachebit_take_bit

text \<open>The four fields of \<open>combine\<close> do not overlap, so the sums are bitwise disjunctions.\<close>

lemma disjoint_fields:
  fixes c :: u64
  shows "push_bit 63 c + push_bit 56 (ucast (take_bit 7 f)) = push_bit 63 c OR push_bit 56 (ucast (take_bit 7 (f :: u8)))"
    and "(push_bit 63 c OR push_bit 56 d) + push_bit 40 (ucast (l :: u16)) = (push_bit 63 c OR push_bit 56 d) OR push_bit 40 (ucast l)"
    and "((push_bit 63 c OR push_bit 56 d) OR push_bit 40 e) + take_bit 40 a = ((push_bit 63 c OR push_bit 56 d) OR push_bit 40 e) OR take_bit 40 a"
  by (rule disjunctive_add_eq_or, rule bit_word_eqI, auto simp: bit_simps dest: bit_imp_le_length)+

lemma combine_or:
  "combine f l a =
     push_bit 63 1 OR push_bit 56 (ucast (take_bit 7 f)) OR push_bit 40 (ucast l) OR take_bit 40 a"
proof -
  let ?c = "push_bit 63 1 :: u64" and ?f = "push_bit 56 (ucast (take_bit 7 f)) :: u64"
  let ?l = "push_bit 40 (ucast l) :: u64" and ?a = "take_bit 40 a"
  have f: "(f AND 0x7F) = take_bit 7 f" by (simp add: take_bit_eq_mask mask_eq_exp_minus_1)
  have "(0xFFFF :: u16) = mask 16" by (simp add: mask_eq_exp_minus_1)
  then have "(l AND 0xFFFF) = take_bit LENGTH(16) l" by (simp add: take_bit_eq_mask)
  then have l: "(l AND 0xFFFF) = l" by (simp only: take_bit_length_eq)
  have "combine f l a = ?c + ?f + ?l + ?a"
    by (simp only: combine_def f l exp_minus_1_mask take_bit_eq_mask)
  also have "?c + ?f = ?c OR ?f" by (rule disjoint_fields)
  also have "(?c OR ?f) + ?l = (?c OR ?f) OR ?l" by (rule disjoint_fields)
  also have "((?c OR ?f) OR ?l) + ?a = ((?c OR ?f) OR ?l) OR ?a" by (rule disjoint_fields)
  finally show ?thesis by (simp only: or.assoc)
qed

lemma toAddr_combine [field_simps_word]: "toAddr (combine f l a) = take_bit 40 a"
  unfolding combine_or to_field_take_bit by (rule bit_word_eqI) (auto simp: bit_simps)

lemma toLength_combine [field_simps_word]: "toLength (combine f l a) = l"
  unfolding combine_or to_field_take_bit by (rule bit_word_eqI) (auto simp: bit_simps)

lemma toFinger_combine [field_simps_word]: "toFinger (combine f l a) = take_bit 7 f"
  unfolding combine_or to_field_take_bit
  by (rule bit_word_eqI) (auto simp: bit_simps dest: bit_imp_le_length)

lemma toCachebit_combine [field_simps_word]: "toCachebit (combine f l a) = 1"
  unfolding combine_or to_field_take_bit by (rule bit_word_eqI) (auto simp: bit_simps)

lemma take_bit_7_fingerprint [simp]: "take_bit 7 (fingerprint key) = fingerprint key"
  unfolding fingerprint_def masks_u64 by (rule bit_word_eqI) (auto simp: bit_simps)

lemma toAddr_small [field_simps_word]: "unat a < 2 ^ 40 \<Longrightarrow> toAddr (combine f l a) = a"
  unfolding toAddr_combine
  by (simp add: word_unat_eq_iff unsigned_take_bit_eq take_bit_nat_eq_self)

lemma toAddr_lt: "unat (toAddr w) < 2 ^ 40"
  by (simp only: toAddr_take_bit unsigned_take_bit_eq take_bit_nat_less_exp)

lemma toAddr_addr_mask: "w AND addr_mask = toAddr w"
  by (simp only: addr_mask_def toAddr_def)

lemma set_flag_fields [field_simps_word]:
  "toAddr (w OR push_bit 63 1) = toAddr w"
  "toLength (w OR push_bit 63 1) = toLength w"
  "toFinger (w OR push_bit 63 1) = toFinger w"
  "toCachebit (w OR push_bit 63 1) = 1"
  unfolding to_field_take_bit by (rule bit_word_eqI; auto simp: bit_simps)+

lemma to_field_zero [simp]: "toAddr 0 = 0" "toLength 0 = 0" "toFinger 0 = 0" "toCachebit 0 = 0"
  by (simp_all add: to_field_take_bit)

section \<open>Buckets\<close>

lemma slot_indices: "unat (s :: u8) < 4 \<longleftrightarrow> s \<in> {0, 1, 2, 3}"
proof -
  have "s \<in> {0, 1, 2, 3} \<longleftrightarrow> unat s \<in> {0, 1, 2, 3}"
    by (auto simp: word_unat_eq_iff)
  then show ?thesis by auto
qed

lemma lb_wf_row: "lb_wf lb \<Longrightarrow> r < length (bucketsArray lb) \<Longrightarrow> length (bucketsArray lb ! r) = 4"
  by (simp add: lb_wf_def)

lemma get_cell_in [simp, res_simps]:
  assumes "lb_wf lb" "unat row < length (bucketsArray lb)" "unat slot < 4"
  shows "get_cell lb row slot = Inr (cell lb (unat row) (unat slot))"
  using assms by (simp add: get_cell_def lb_wf_row)

lemma write_cell_in [simp, res_simps]:
  assumes "lb_wf lb" "unat row < length (bucketsArray lb)" "unat slot < 4"
  shows "write_cell lb row slot v =
    Inr (lb\<lparr>bucketsArray := (bucketsArray lb)[unat row := (bucketsArray lb ! unat row)[unat slot := v]]\<rparr>)"
  using assms by (simp add: write_cell_def lb_wf_row)

lemma lb_wf_upd [simp]:
  assumes "lb_wf lb" "length b = 4"
  shows "lb_wf (lb\<lparr>bucketsArray := (bucketsArray lb)[r := b]\<rparr>)"
  using assms set_update_subset_insert [of "bucketsArray lb" r b] by (auto simp: lb_wf_def)

lemma write_cell_Inr:
  assumes "lb_wf lb" and "write_cell lb row slot v = Inr lb'"
  shows "lb_wf lb'" and "length (bucketsArray lb') = length (bucketsArray lb)"
    and "unat row < length (bucketsArray lb)" and "unat slot < 4"
    and "lb' = lb\<lparr>bucketsArray := (bucketsArray lb)[unat row := (bucketsArray lb ! unat row)[unat slot := v]]\<rparr>"
proof -
  from assms(2) have row: "unat row < length (bucketsArray lb)"
    by (auto simp: write_cell_def aget_eq_Inr elim!: rbindE)
  with assms have slot: "unat slot < 4"
    by (auto simp: write_cell_def aset_eq_Inr lb_wf_row elim!: rbindE)
  show "unat row < length (bucketsArray lb)" "unat slot < 4" by fact+
  show eq: "lb' = lb\<lparr>bucketsArray := (bucketsArray lb)[unat row := (bucketsArray lb ! unat row)[unat slot := v]]\<rparr>"
    using assms row slot by simp
  show "lb_wf lb'" "length (bucketsArray lb') = length (bucketsArray lb)"
    using assms row slot eq by (simp_all add: lb_wf_row)
qed

lemma cell_write:
  assumes "lb_wf lb" "r < length (bucketsArray lb)" "s < 4" "s' < 4"
  shows "(bucketsArray lb)[r := (bucketsArray lb ! r)[s := v]] ! r' ! s' =
    (if r' = r \<and> s' = s then v else bucketsArray lb ! r' ! s')"
  using assms by (auto simp: nth_list_update lb_wf_row)

lemma any_free_eq:
  assumes "lb_wf lb" "unat row < length (bucketsArray lb)" "\<forall>s\<in>set ss. unat s < 4"
  shows "any_free lb row ss = Inr (\<exists>s\<in>set ss. toLength (cell lb (unat row) (unat s)) = 0)"
  using assms by (induction ss) auto

lemma bex_slots: "(\<exists>s\<in>set [0, 1, 2, 3 :: u8]. P (unat s)) \<longleftrightarrow> (\<exists>s<4. P s)"
proof -
  have "(\<exists>s<4. P s) \<longleftrightarrow> P 0 \<or> P 1 \<or> P 2 \<or> P 3"
    by (auto simp: numeral_eq_Suc less_Suc_eq)
  then show ?thesis by simp
qed

text \<open>What \<open>check_slots\<close> decides, in terms of the row's words.\<close>

lemma check_slots_eq:
  assumes "lb_wf lb" "unat row < length (bucketsArray lb)" "unat slot < 4"
  shows "check_slots lb key row slot =
    (let w = cell lb (unat row) (unat slot) in
     Inr (if toLength w = 0 then 0 else if toFinger w = fingerprint key then 1
          else if \<exists>s<4. toLength (cell lb (unat row) s) = 0 then 2 else 3))"
proof -
  have "any_free lb row [0, 1, 2, 3] = Inr (\<exists>s<4. toLength (cell lb (unat row) s) = 0)"
    using any_free_eq [of lb row "[0, 1, 2, 3]"] assms
      bex_slots [of "\<lambda>s. toLength (cell lb (unat row) s) = 0"] by simp
  with assms show ?thesis by (auto simp: check_slots_def Let_def simp del: any_free.simps)
qed

lemma read_bucket_addrs_eq:
  assumes "lb_wf lb" "unat row < length (bucketsArray lb)"
  shows "read_bucket_addrs lb row =
    Inr (filter (\<lambda>w. toLength w \<noteq> 0) (bucketsArray lb ! unat row))"
proof -
  have "length (bucketsArray lb ! unat row) = 4" using assms by (rule lb_wf_row)
  then obtain a b c d where "bucketsArray lb ! unat row = [a, b, c, d]"
    by (auto simp: numeral_eq_Suc length_Suc_conv)
  with assms show ?thesis by (simp add: read_bucket_addrs_def)
qed

lemma empty_bucket_eq:
  assumes "lb_wf lb" "unat row < length (bucketsArray lb)"
  shows "empty_bucket lb row =
    Inr (lb\<lparr>bucketsArray := (bucketsArray lb)[unat row := [0, 0, 0, 0]]\<rparr>)"
proof -
  have len: "length (bucketsArray lb ! unat row) = 4" using assms by (rule lb_wf_row)
  then obtain a b c d where r: "bucketsArray lb ! unat row = [a, b, c, d]"
    by (auto simp: numeral_eq_Suc length_Suc_conv)
  show ?thesis
    using assms len r by (simp add: empty_bucket_def lb_wf_row)
qed

lemma LudoBuckets_new_wf: "lb_wf (LudoBuckets_new n)"
  by (simp add: LudoBuckets_new_def lb_wf_def)

section \<open>Round trip\<close>

text \<open>
  A slot word keeps what was written into it: after \<open>write_addr\<close> of a record number below \<open>2 ^ 40\<close>
  the slot reads back that number, \<open>check_slots\<close> recognises the key's fingerprint (or reports the slot
  free when the length is zero), the flag bit is set, and no other slot of the table has changed.
\<close>
theorem write_addr_roundtrip:
  assumes "lb_wf lb" and "unat row < length (bucketsArray lb)" and "unat slot < 4" and "unat addr < 2 ^ 40"
  shows "\<exists>lb'. write_addr lb key row slot addr len = Inr lb' \<and> lb_wf lb' \<and> read_addr lb' row slot = Inr addr \<and>
    check_slots lb' key row slot = Inr (if len = 0 then 0 else 1) \<and> read_cachebit lb' row slot = Inr True \<and>
    (row' = row \<and> slot' = slot \<or> get_cell lb' row' slot' = get_cell lb row' slot')"
proof -
  let ?w = "combine (fingerprint key) len addr"
  let ?lb = "lb\<lparr>bucketsArray := (bucketsArray lb)[unat row := (bucketsArray lb ! unat row)[unat slot := ?w]]\<rparr>"
  have w: "write_addr lb key row slot addr len = Inr ?lb" using assms by (simp add: write_addr_def)
  have wf: "lb_wf ?lb" using assms by (simp add: lb_wf_row)
  have row: "unat row < length (bucketsArray ?lb)" using assms(2) by simp
  have c: "cell ?lb (unat row) (unat slot) = ?w" using assms by (simp add: lb_wf_row)
  have g: "get_cell ?lb row slot = Inr ?w" using get_cell_in [OF wf row assms(3)] c by simp
  have o: "get_cell ?lb row' slot' = get_cell lb row' slot'" if "\<not> (row' = row \<and> slot' = slot)"
    using that assms by (auto simp: get_cell_def aget_def nth_list_update lb_wf_row word_unat_eq_iff)
  show ?thesis
    using w wf g o assms(4)
    by (intro exI [of _ ?lb]) (auto simp: read_addr_def read_cachebit_def check_slots_def toAddr_small toLength_combine
        toFinger_combine toCachebit_combine)
qed

theorem write_addr_roundtrip_witness:
  "\<exists>lb'. write_addr (LudoBuckets_new 2) 5 1 3 77 64 = Inr lb' \<and> read_addr lb' 1 3 = Inr 77 \<and> check_slots lb' 5 1 3 = Inr 1"
  using write_addr_roundtrip [OF LudoBuckets_new_wf, of 1 2 3 77 5 64 0 0] by (auto simp: LudoBuckets_new_def)

end
