(* ===== verification/Ludo_DP.thy ===== *)
theory Ludo_DP
  imports Othello_Mem Ludo_Slot
begin

text \<open>
  The lookup side of the index: \<open>DataPlaneOthello<K, uint8_t, 1>\<close> (which of the two candidate buckets a
  key is in) and \<open>DataPlaneLudo\<close> (the bucket's seed, hence the slot), from \<open>othello_cp_dp.h\<close> and
  \<open>ludo_cp_dp.h\<close>. This is the object \<open>ludo_lookup_unit\<close> that every client and the server hold.

  Both lookups are optimistic: they read a pair of version bytes, the data, and the bytes again, and
  start over when a byte is odd or has changed. The readers here take a history: the state of the
  shared object at each access, so that a writer may act between any two accesses. \<open>fuel\<close> counts
  iterations; running out of it (\<open>None\<close>) is the loop that has not returned yet.

  Shown: under a quiescent object with even version bytes the lookup returns in one iteration, and
  its answer is a bucket that exists and a slot below four; an answer given under concurrent writers
  is the xor of two elements read between two equal even version bytes; with fewer than 128 writes to
  a stripe between the two readings (the version is a byte), these elements are those of one state.
\<close>

section \<open>Definitions: the Othello data plane\<close>

record othello_dp =
  od_mem :: "u64 list"
  od_ma :: u32
  od_mb :: u32
  od_hab :: u64
  od_lock :: "u8 list"
  od_versions :: "u8 list"

text \<open>The instance the index uses has \<open>L = 1\<close> and \<open>DL = 0\<close>: one bit per element, no digest.\<close>

text \<open>\<open>lock[index & 8191]++\<close>\<close>

definition stripe :: "u32 \<Rightarrow> nat" where
  "stripe index = unat (index AND 8191)"

definition bump_lock :: "u32 \<Rightarrow> u8 list \<Rightarrow> u8 list res" where
  "bump_lock index lk = rbind (aget lk (stripe index)) (\<lambda>v. aset lk (stripe index) (v + 1))"

definition dp_memSet :: "othello_dp \<Rightarrow> u32 \<Rightarrow> u64 \<Rightarrow> othello_dp res" where
  "dp_memSet d index value =
    rbind (bump_lock index (od_lock d)) (\<lambda>lk1.
    rbind (memSet 1 (od_mem d) index value) (\<lambda>mem.
    rbind (bump_lock index lk1) (\<lambda>lk2.
    Inr (d\<lparr>od_lock := lk2, od_mem := mem\<rparr>))))"

definition dp_memValueSet :: "othello_dp \<Rightarrow> u32 \<Rightarrow> u64 \<Rightarrow> othello_dp res" where
  "dp_memValueSet d index value =
    rbind (bump_lock index (od_lock d)) (\<lambda>lk1.
    rbind (memValueSet 1 0 (od_mem d) index value) (\<lambda>mem.
    rbind (bump_lock index lk1) (\<lambda>lk2.
    Inr (d\<lparr>od_lock := lk2, od_mem := mem\<rparr>))))"

definition dp_fillSingle :: "bool \<Rightarrow> othello_dp \<Rightarrow> u32 \<Rightarrow> u32 \<Rightarrow> othello_dp res" where
  "dp_fillSingle keepDigest d valueToFill nodeToFill =
    (if keepDigest then dp_memValueSet d nodeToFill (ucast valueToFill)
     else dp_memSet d nodeToFill (ucast valueToFill))"

definition dp_fixSingle :: "bool \<Rightarrow> othello_dp \<Rightarrow> u32 \<Rightarrow> u64 \<Rightarrow> othello_dp res" where
  "dp_fixSingle keepDigest d nodeToFix x =
    (if keepDigest
     then rbind (memValueGet 1 0 (od_mem d) nodeToFix) (\<lambda>v. dp_memValueSet d nodeToFix (x XOR v))
     else rbind (memGet 1 (od_mem d) nodeToFix) (\<lambda>v. dp_memSet d nodeToFix (x XOR v)))"

definition fixHalfTreeByConnectedComponent :: "u32 list \<Rightarrow> u32 \<Rightarrow> othello_dp \<Rightarrow> othello_dp res" where
  "fixHalfTreeByConnectedComponent indices xorTemplate d =
    rfold (\<lambda>index d. dp_fixSingle True d index (ucast xorTemplate)) indices d"

text \<open>
  One iteration of \<open>lookUp\<close> over a history: the six shared accesses happen at the times
  \<open>t, t+1, \<dots>, t+5\<close>. \<open>None\<close> is \<open>continue\<close>.
\<close>

definition od_lookUp_iter :: "(nat \<Rightarrow> othello_dp) \<Rightarrow> nat \<Rightarrow> u32 \<Rightarrow> u32 \<Rightarrow> u8 option res" where
  "od_lookUp_iter \<sigma> t ha hb =
    rbind (aget (od_lock (\<sigma> t)) (stripe ha)) (\<lambda>va1.
    rbind (aget (od_lock (\<sigma> (t + 1))) (stripe hb)) (\<lambda>vb1.
    if va1 mod 2 = 1 \<or> vb1 mod 2 = 1 then Inr None
    else
      rbind (memGet 1 (od_mem (\<sigma> (t + 2))) ha) (\<lambda>aa.
      rbind (memGet 1 (od_mem (\<sigma> (t + 3))) hb) (\<lambda>bb.
      rbind (aget (od_lock (\<sigma> (t + 4))) (stripe ha)) (\<lambda>va2.
      rbind (aget (od_lock (\<sigma> (t + 5))) (stripe hb)) (\<lambda>vb2.
      if va1 \<noteq> va2 \<or> vb1 \<noteq> vb2 then Inr None
      else Inr (Some (ucast (drop_bit 0 (aa XOR bb))))))))))"

text \<open>The loop; with the answer comes the time at which it was given.\<close>

fun od_lookUp_at :: "nat \<Rightarrow> (nat \<Rightarrow> othello_dp) \<Rightarrow> nat \<Rightarrow> u32 \<Rightarrow> u32 \<Rightarrow> (u8 \<times> nat) option res" where
  "od_lookUp_at 0 \<sigma> t ha hb = Inr None"
| "od_lookUp_at (Suc fuel) \<sigma> t ha hb =
    rbind (od_lookUp_iter \<sigma> t ha hb) (\<lambda>r.
      case r of Some v \<Rightarrow> Inr (Some (v, t + 6)) | None \<Rightarrow> od_lookUp_at fuel \<sigma> (t + 6) ha hb)"

definition od_lookUp :: "nat \<Rightarrow> (nat \<Rightarrow> othello_dp) \<Rightarrow> nat \<Rightarrow> u64 \<Rightarrow> (u8 \<times> nat) option res" where
  "od_lookUp fuel \<sigma> t k =
    (let (ha, hb) = getIndices (od_hab (\<sigma> t)) (od_ma (\<sigma> t)) (od_mb (\<sigma> t)) k
     in od_lookUp_at fuel \<sigma> t ha hb)"

section \<open>Definitions: the Ludo data plane\<close>

record ludo_dp =
  ld_seeds :: "u8 list"
  ld_num_buckets :: u32
  ld_h :: u64
  ld_locator :: othello_dp
  ld_lock :: "u8 list"

text \<open>One iteration of \<open>lookup_slot\<close>; the locator's own loop runs inside it.\<close>

definition lookup_slot_iter :: "nat \<Rightarrow> (nat \<Rightarrow> ludo_dp) \<Rightarrow> nat \<Rightarrow> u64 \<Rightarrow> u32 \<Rightarrow> u32 \<Rightarrow> ((u32 \<times> u8) option \<times> nat) option res" where
  "lookup_slot_iter fuel \<sigma> t k b0 b1 =
    rbind (aget (ld_lock (\<sigma> t)) (stripe b0)) (\<lambda>va1.
    rbind (aget (ld_lock (\<sigma> (t + 1))) (stripe b1)) (\<lambda>vb1.
    if va1 mod 2 = 1 \<or> vb1 mod 2 = 1 then Inr (Some (None, t + 2))
    else rbind (od_lookUp fuel (\<lambda>i. ld_locator (\<sigma> i)) (t + 2) k) (\<lambda>loc.
      case loc of None \<Rightarrow> Inr None
      | Some (c, t') \<Rightarrow>
        rbind (aget [b0, b1] (unat c)) (\<lambda>bktIdt.
        rbind (aget (ld_lock (\<sigma> t')) (stripe b0)) (\<lambda>va2.
        rbind (aget (ld_lock (\<sigma> (t' + 1))) (stripe b1)) (\<lambda>vb2.
        if va1 \<noteq> va2 \<or> vb1 \<noteq> vb2 then Inr (Some (None, t' + 2))
        else rbind (aget (ld_seeds (\<sigma> (t' + 2))) (unat bktIdt)) (\<lambda>seed.
          Inr (Some (Some (bktIdt, slot_of seed k), t' + 3)))))))))"

fun lookup_slot_at :: "nat \<Rightarrow> nat \<Rightarrow> (nat \<Rightarrow> ludo_dp) \<Rightarrow> nat \<Rightarrow> u64 \<Rightarrow> u32 \<Rightarrow> u32 \<Rightarrow> (u32 \<times> u8) option res" where
  "lookup_slot_at 0 m \<sigma> t k b0 b1 = Inr None"
| "lookup_slot_at (Suc fuel) m \<sigma> t k b0 b1 =
    rbind (lookup_slot_iter m \<sigma> t k b0 b1) (\<lambda>r.
      case r of
        None \<Rightarrow> Inr None
      | Some (Some a, _) \<Rightarrow> Inr (Some a)
      | Some (None, t') \<Rightarrow> lookup_slot_at fuel m \<sigma> t' k b0 b1)"

definition lookup_slot_hist :: "nat \<Rightarrow> nat \<Rightarrow> (nat \<Rightarrow> ludo_dp) \<Rightarrow> nat \<Rightarrow> u64 \<Rightarrow> (u32 \<times> u8) option res" where
  "lookup_slot_hist fuel m \<sigma> t k =
    rbind (fast_map_to_buckets (fast_hasher64 (ld_h (\<sigma> t)) k) (ld_num_buckets (\<sigma> t)))
      (\<lambda>(b0, b1). lookup_slot_at fuel m \<sigma> t k b0 b1)"

text \<open>
  \<open>lookup_slot\<close> with no writer at work: the object does not change, so an iteration that does not
  answer is repeated for ever and one iteration decides (\<open>Diverges\<close> is the loop that never ends).
\<close>

definition lookup_slot :: "ludo_dp \<Rightarrow> u64 \<Rightarrow> (u32 \<times> u8) res" where
  "lookup_slot d k =
    rbind (lookup_slot_hist 1 1 (\<lambda>_. d) 0 k) (\<lambda>r.
      case r of Some a \<Rightarrow> Inr a | None \<Rightarrow> Inl Diverges)"

definition updateSeed :: "ludo_dp \<Rightarrow> u64 \<Rightarrow> u8 \<Rightarrow> ludo_dp res" where
  "updateSeed d bktIdx seed =
    rbind (aset (ld_seeds d) (unat bktIdx) seed) (\<lambda>s. Inr (d\<lparr>ld_seeds := s\<rparr>))"

text \<open>\<open>applyUpdate(bid, sid, val)\<close>: the write itself is commented out; only the version byte moves.\<close>

definition applyUpdate :: "ludo_dp \<Rightarrow> u32 \<Rightarrow> u8 \<Rightarrow> u64 \<Rightarrow> ludo_dp res" where
  "applyUpdate d bid sid val =
    rbind (bump_lock bid (ld_lock d)) (\<lambda>lk1.
    rbind (bump_lock bid lk1) (\<lambda>lk2.
    Inr (d\<lparr>ld_lock := lk2\<rparr>)))"

definition applyUpdate_packed :: "ludo_dp \<Rightarrow> u32 \<Rightarrow> u64 \<Rightarrow> ludo_dp res" where
  "applyUpdate_packed d bs val =
    (let bid = drop_bit 2 bs; sid = ucast (bs AND 3) in applyUpdate d bid sid val)"

text \<open>
  The constructor from a control plane fills the server's bucket array with \<open>values[slot] + (64UL << 48)\<close>
  (the word layout of \<open>ludo_slot.hh\<close> has the length at bit 40).
\<close>

definition bulk_word :: "u64 \<Rightarrow> u64" where
  "bulk_word v = v + push_bit 48 64"

definition getBucketsNum :: "ludo_dp \<Rightarrow> u64" where
  "getBucketsNum d = of_nat (length (ld_seeds d))"

text \<open>The well-formedness of the two objects, and a state no writer has open.\<close>

definition od_wf :: "othello_dp \<Rightarrow> bool" where
  "od_wf d \<longleftrightarrow>
     od_ma d \<noteq> 0 \<and> od_mb d \<noteq> 0 \<and> unat (od_ma d) + unat (od_mb d) < 2 ^ 32 \<and>
     length (od_mem d) = mem_words 1 (od_ma d) (od_mb d) \<and> length (od_lock d) = 8192"

definition od_quiet :: "othello_dp \<Rightarrow> bool" where
  "od_quiet d \<longleftrightarrow> (\<forall>v\<in>set (od_lock d). v mod 2 = 0)"

definition ld_wf :: "ludo_dp \<Rightarrow> bool" where
  "ld_wf d \<longleftrightarrow>
     (\<exists>n<32. ld_num_buckets d = 2 ^ n) \<and> length (ld_seeds d) = unat (ld_num_buckets d) \<and>
     length (ld_lock d) = 8192 \<and> od_wf (ld_locator d)"

definition ld_quiet :: "ludo_dp \<Rightarrow> bool" where
  "ld_quiet d \<longleftrightarrow> (\<forall>v\<in>set (ld_lock d). v mod 2 = 0) \<and> od_quiet (ld_locator d)"

section \<open>The words of a bulk load\<close>

text \<open>Read with the layout of \<open>ludo_slot.hh\<close>: no flag, fingerprint 0, length \<open>0x4000\<close>, and the record number.\<close>

lemma bulk_word_fields:
  assumes "unat v < 2 ^ 40"
  shows "toAddr (bulk_word v) = v" and "toLength (bulk_word v) = 0x4000"
    and "toFinger (bulk_word v) = 0" and "toCachebit (bulk_word v) = 0"
proof -
  have v: "take_bit 40 v = v" using assms by (simp add: word_unat_eq_iff unsigned_take_bit_eq take_bit_nat_eq_self)
  then have bv: "bit v n \<Longrightarrow> n < 40" for n by (metis bit_take_bit_iff)
  have e: "(push_bit 48 64 :: u64) = 2 ^ 54" by (simp add: push_bit_eq_mult)
  have b54: "bit (2 ^ 54 :: u64) n \<longleftrightarrow> n = 54" for n unfolding bit_exp_iff by auto
  have or: "bulk_word v = v OR 2 ^ 54"
    unfolding bulk_word_def e
  proof (rule disjunctive_add_eq_or, rule bit_word_eqI)
    show "bit (v AND 2 ^ 54) n = bit 0 n" for n
      unfolding bit_and_iff b54 by (auto dest: bv)
  qed
  have b: "bit (bulk_word v) n \<longleftrightarrow> bit v n \<or> n = 54" for n unfolding or bit_or_iff b54 ..
  show "toAddr (bulk_word v) = v"
    unfolding to_field_take_bit by (rule bit_word_eqI) (auto simp: bit_take_bit_iff b dest: bv)
  have e14: "(0x4000 :: u16) = 2 ^ 14" by simp
  show "toLength (bulk_word v) = 0x4000"
    unfolding to_field_take_bit e14
    by (rule bit_word_eqI) (auto simp only: bit_ucast_iff bit_take_bit_iff bit_drop_bit_eq comp_apply b bit_exp_iff dest: bv, auto dest: bv)
  show "toFinger (bulk_word v) = 0" "toCachebit (bulk_word v) = 0"
    unfolding to_field_take_bit
    by (rule bit_word_eqI; auto simp: bit_ucast_iff bit_take_bit_iff bit_drop_bit_eq even_drop_bit_iff_not_bit b dest: bv)+
qed

section \<open>Lookups with no writer at work\<close>

lemma stripe_lt [simp]: "stripe x < 8192"
proof -
  have "stripe x = unat (x AND (2 ^ 13 - 1))" by (simp add: stripe_def)
  also have "\<dots> < 2 ^ 13" by (rule and_mask_lt)
  finally show ?thesis by simp
qed

text \<open>Both positions of a key are inside the packed array.\<close>

lemma getIndices_lt:
  assumes "ma \<noteq> 0" "mb \<noteq> 0" "unat ma + unat mb < 2 ^ 32" "getIndices s ma mb k = (ha, hb)"
  shows "unat ha < unat ma" and "unat ma \<le> unat hb" and "unat hb < unat ma + unat mb"
proof -
  let ?b = "multiply_high_u32 (ucast (drop_bit 32 (hasher64 s k))) mb"
  have b: "unat ?b < unat mb" using assms(2) by (rule multiply_high_u32_lt)
  have "ha = multiply_high_u32 (ucast (hasher64 s k)) ma" and hb: "hb = ?b + ma"
    using assms(4) by (simp_all add: getIndices_def Let_def)
  then show "unat ha < unat ma" using multiply_high_u32_lt [OF assms(1)] by simp
  have "unat (?b + ma) = unat ?b + unat ma"
    using b assms(3) by (simp add: unat_word_ariths)
  then show "unat ma \<le> unat hb" "unat hb < unat ma + unat mb" using b hb by simp_all
qed

lemma od_wf_mem_ok: "od_wf d \<Longrightarrow> mem_ok 1 (unat (od_ma d) + unat (od_mb d)) (od_mem d)"
  by (simp add: od_wf_def mem_words_ok)

text \<open>The bit the locator holds for a key.\<close>

definition locator_bit :: "othello_dp \<Rightarrow> u64 \<Rightarrow> u64" where
  "locator_bit d k =
    (let (ha, hb) = getIndices (od_hab d) (od_ma d) (od_mb d) k
     in elem 1 (od_mem d) ha XOR elem 1 (od_mem d) hb)"

lemma locator_bit_lt:
  assumes "od_wf d"
  shows "unat (locator_bit d k) < 2"
proof -
  obtain ha hb where i: "getIndices (od_hab d) (od_ma d) (od_mb d) k = (ha, hb)" by fastforce
  have "unat ha < unat (od_ma d) + unat (od_mb d)" "unat hb < unat (od_ma d) + unat (od_mb d)"
    using assms getIndices_lt [OF _ _ _ i] by (auto simp: od_wf_def)
  then have "take_bit 1 (locator_bit d k) = locator_bit d k"
    using elem_take_bit [OF od_wf_mem_ok [OF assms]] by (simp add: locator_bit_def i take_bit_xor)
  then have "unat (locator_bit d k) = take_bit 1 (unat (locator_bit d k))"
    by (metis unsigned_take_bit_eq)
  then show ?thesis by (metis take_bit_nat_less_exp power_one_right)
qed

lemma quiet_lock: "\<forall>v\<in>set lk. v mod 2 = 0 \<Longrightarrow> i < length lk \<Longrightarrow> lk ! i mod 2 \<noteq> (1 :: u8)"
  using nth_mem by force

lemma od_lookUp_quiet:
  assumes "od_wf d" "od_quiet d"
  shows "od_lookUp (Suc n) (\<lambda>_. d) t k = Inr (Some (ucast (locator_bit d k), t + 6))"
proof -
  obtain ha hb where i: "getIndices (od_hab d) (od_ma d) (od_mb d) k = (ha, hb)" by fastforce
  have lt: "unat ha < unat (od_ma d) + unat (od_mb d)" "unat hb < unat (od_ma d) + unat (od_mb d)"
    using assms getIndices_lt [OF _ _ _ i] by (auto simp: od_wf_def)
  have lk: "length (od_lock d) = 8192" using assms(1) by (simp add: od_wf_def)
  note q = quiet_lock [OF assms(2) [unfolded od_quiet_def]]
  have "od_lookUp_iter (\<lambda>_. d) t ha hb = Inr (Some (ucast (locator_bit d k)))"
    using q [of "stripe ha"] q [of "stripe hb"] lk
      memGet_bits(1) [OF od_wf_mem_ok [OF assms(1)] lt(1)] memGet_bits(1) [OF od_wf_mem_ok [OF assms(1)] lt(2)]
    by (simp add: od_lookUp_iter_def locator_bit_def i)
  then show ?thesis by (simp add: od_lookUp_def i)
qed

text \<open>The bucket a data plane holds a key in: the candidate its locator bit selects.\<close>

definition bucket_of :: "ludo_dp \<Rightarrow> u64 \<Rightarrow> u32" where
  "bucket_of d k =
    (let (b0, b1) = two_buckets (fast_hasher64 (ld_h d) k) (ld_num_buckets d)
     in if locator_bit (ld_locator d) k = 0 then b0 else b1)"

lemma bucket_of_lt:
  assumes "ld_wf d"
  shows "unat (bucket_of d k) < length (ld_seeds d)"
proof -
  from assms obtain n where n: "n < 32" "ld_num_buckets d = 2 ^ n" by (auto simp: ld_wf_def)
  show ?thesis
    using two_buckets_lt [OF n(2,1), of "fast_hasher64 (ld_h d) k"] assms
    by (auto simp: bucket_of_def ld_wf_def split: prod.splits)
qed

lemma unat_lt_2_cases: "unat (x :: u64) < 2 \<Longrightarrow> x = 0 \<or> x = 1"
  by (auto simp: word_unat_eq_iff less_2_cases_iff)

lemma lookup_slot_eq:
  assumes "ld_wf d" "ld_quiet d"
  shows "lookup_slot d k = Inr (bucket_of d k, slot_of (ld_seeds d ! unat (bucket_of d k)) k)"
proof -
  obtain b0 b1 where b: "two_buckets (fast_hasher64 (ld_h d) k) (ld_num_buckets d) = (b0, b1)"
    by fastforce
  then have m: "fast_map_to_buckets (fast_hasher64 (ld_h d) k) (ld_num_buckets d) = Inr (b0, b1)"
    using assms(1) fast_map_to_buckets_pow2 by (auto simp: ld_wf_def)
  have od: "od_wf (ld_locator d)" "od_quiet (ld_locator d)" and lk: "length (ld_lock d) = 8192"
    using assms by (simp_all add: ld_wf_def ld_quiet_def)
  have q: "i < 8192 \<Longrightarrow> ld_lock d ! i mod 2 \<noteq> 1" for i
    using quiet_lock [of "ld_lock d" i] assms(2) lk by (simp add: ld_quiet_def)
  have c: "locator_bit (ld_locator d) k = 0 \<or> locator_bit (ld_locator d) k = 1"
    using locator_bit_lt [OF od(1)] by (rule unat_lt_2_cases)
  then have bk: "aget [b0, b1] (unat (ucast (locator_bit (ld_locator d) k) :: u8)) = Inr (bucket_of d k)"
    by (auto simp: bucket_of_def b)
  have od1: "od_lookUp 1 (\<lambda>_. ld_locator d) t k = Inr (Some (ucast (locator_bit (ld_locator d) k), t + 6))" for t
    using od_lookUp_quiet [OF od, of 0] by simp
  have "\<exists>t. lookup_slot_iter 1 (\<lambda>_. d) 0 k b0 b1 =
      Inr (Some (Some (bucket_of d k, slot_of (ld_seeds d ! unat (bucket_of d k)) k), t))"
    using lk q od1 bucket_of_lt [OF assms(1)] bk
    by (simp add: lookup_slot_iter_def)
  then obtain t where "lookup_slot_iter 1 (\<lambda>_. d) 0 k b0 b1 =
      Inr (Some (Some (bucket_of d k, slot_of (ld_seeds d ! unat (bucket_of d k)) k), t))" by blast
  moreover have "lookup_slot_at 1 1 (\<lambda>_. d) 0 k b0 b1 = rbind (lookup_slot_iter 1 (\<lambda>_. d) 0 k b0 b1) (\<lambda>r.
      case r of None \<Rightarrow> Inr None | Some (Some a, _) \<Rightarrow> Inr (Some a)
      | Some (None, t') \<Rightarrow> lookup_slot_at 0 1 (\<lambda>_. d) t' k b0 b1)"
    using lookup_slot_at.simps(2) [of 0 1] by (simp only: One_nat_def)
  ultimately show ?thesis
    by (simp add: lookup_slot_def lookup_slot_hist_def m)
qed

section \<open>Lookups with a writer at work\<close>

text \<open>
  A writer's \<open>memSet\<close> cut into its atomic steps: the version byte goes up, the element is stored, the
  version byte goes up again. \<open>wr_count\<close> is the number of times a stripe's byte has gone up (the byte
  is this number cut to 8 bits), \<open>wr_pending\<close> the index of the write under way.
\<close>

record writer =
  wr_dp :: othello_dp
  wr_count :: "nat \<Rightarrow> nat"
  wr_pending :: "u32 option"

inductive writer_step :: "writer \<Rightarrow> writer \<Rightarrow> bool" where
  open_write: "wr_pending w = None \<Longrightarrow> bump_lock i (od_lock (wr_dp w)) = Inr lk \<Longrightarrow>
    unat i < unat (od_ma (wr_dp w)) + unat (od_mb (wr_dp w)) \<Longrightarrow>
    writer_step w (w\<lparr>wr_dp := (wr_dp w)\<lparr>od_lock := lk\<rparr>,
      wr_count := (wr_count w)(stripe i := Suc (wr_count w (stripe i))), wr_pending := Some i\<rparr>)"
| store: "wr_pending w = Some i \<Longrightarrow> memSet 1 (od_mem (wr_dp w)) i v = Inr mem \<Longrightarrow>
    writer_step w (w\<lparr>wr_dp := (wr_dp w)\<lparr>od_mem := mem\<rparr>\<rparr>)"
| close_write: "wr_pending w = Some i \<Longrightarrow> bump_lock i (od_lock (wr_dp w)) = Inr lk \<Longrightarrow>
    writer_step w (w\<lparr>wr_dp := (wr_dp w)\<lparr>od_lock := lk\<rparr>,
      wr_count := (wr_count w)(stripe i := Suc (wr_count w (stripe i))), wr_pending := None\<rparr>)"

inductive_cases writer_stepE: "writer_step w w'"

definition writer_inv :: "writer \<Rightarrow> bool" where
  "writer_inv w \<longleftrightarrow>
     od_wf (wr_dp w) \<and>
     (\<forall>s<8192. od_lock (wr_dp w) ! s = of_nat (wr_count w s)) \<and>
     (\<forall>s<8192. odd (wr_count w s) \<longleftrightarrow> (\<exists>i. wr_pending w = Some i \<and> stripe i = s)) \<and>
     (\<forall>i. wr_pending w = Some i \<longrightarrow> unat i < unat (od_ma (wr_dp w)) + unat (od_mb (wr_dp w)))"

lemma bump_lock_eq:
  "length lk = 8192 \<Longrightarrow> bump_lock i lk = Inr (lk[stripe i := lk ! stripe i + 1])"
  by (simp add: bump_lock_def)

lemma memSet_od:
  assumes "od_wf d" "unat i < unat (od_ma d) + unat (od_mb d)" "memSet 1 (od_mem d) i v = Inr mem"
  shows "length mem = length (od_mem d)"
    and "unat k < unat (od_ma d) + unat (od_mb d) \<Longrightarrow> k \<noteq> i \<Longrightarrow> elem 1 mem k = elem 1 (od_mem d) k"
proof -
  obtain mem' where m: "memSet 1 (od_mem d) i v = Inr mem'" "length mem' = length (od_mem d)"
    "\<And>k. unat k < unat (od_ma d) + unat (od_mb d) \<Longrightarrow>
      elem 1 mem' k = (if k = i then take_bit 1 v else elem 1 (od_mem d) k)"
    using memSet_elem [OF od_wf_mem_ok [OF assms(1)] assms(2), of v] by blast
  then have e: "mem' = mem" using assms(3) by simp
  show "length mem = length (od_mem d)" using m(2) e by simp
  show "unat k < unat (od_ma d) + unat (od_mb d) \<Longrightarrow> k \<noteq> i \<Longrightarrow> elem 1 mem k = elem 1 (od_mem d) k"
    using m(3) e by simp
qed

lemma writer_step_inv:
  assumes "writer_step w w'" "writer_inv w"
  shows "writer_inv w'"
  using assms
proof cases
  case (open_write i lk)
  then have l: "length (od_lock (wr_dp w)) = 8192" using assms(2) by (simp add: writer_inv_def od_wf_def)
  show ?thesis
    using open_write assms(2) l by (auto simp: writer_inv_def od_wf_def bump_lock_eq)
next
  case (store i v mem)
  then show ?thesis
    using assms(2) memSet_od(1) [of "wr_dp w" i v mem] by (auto simp: writer_inv_def od_wf_def)
next
  case (close_write i lk)
  then have l: "length (od_lock (wr_dp w)) = 8192" using assms(2) by (simp add: writer_inv_def od_wf_def)
  show ?thesis
    using close_write assms(2) l by (auto simp: writer_inv_def od_wf_def bump_lock_eq)
qed

lemma writer_steps_inv: "writer_step\<^sup>*\<^sup>* w w' \<Longrightarrow> writer_inv w \<Longrightarrow> writer_inv w'"
  by (induction rule: rtranclp_induct) (auto intro: writer_step_inv)

lemma writer_step_frame:
  assumes "writer_step w w'"
  shows "od_ma (wr_dp w') = od_ma (wr_dp w)" and "od_mb (wr_dp w') = od_mb (wr_dp w)"
    and "wr_count w s \<le> wr_count w' s"
  using assms by (auto elim!: writer_stepE)

text \<open>A step that leaves an even stripe's count alone leaves the elements of that stripe alone.\<close>

lemma writer_step_elem:
  assumes "writer_step w w'" "writer_inv w" "even (wr_count w (stripe k))"
    and "wr_count w' (stripe k) = wr_count w (stripe k)"
    and "unat k < unat (od_ma (wr_dp w)) + unat (od_mb (wr_dp w))"
  shows "elem 1 (od_mem (wr_dp w')) k = elem 1 (od_mem (wr_dp w)) k"
  using assms(1)
proof cases
  case (store i v mem)
  have "stripe i \<noteq> stripe k" using assms(2,3) store(2) unfolding writer_inv_def by (metis stripe_lt)
  then have "k \<noteq> i" by blast
  then show ?thesis
    using store memSet_od(2) [of "wr_dp w" i v mem k] assms(2,5) by (simp add: writer_inv_def)
qed auto

lemma writer_steps_elem:
  assumes "writer_step\<^sup>*\<^sup>* w w'" "writer_inv w" "even (wr_count w (stripe k))"
    and "unat k < unat (od_ma (wr_dp w)) + unat (od_mb (wr_dp w))"
  shows "wr_count w (stripe k) \<le> wr_count w' (stripe k) \<and>
    od_ma (wr_dp w') = od_ma (wr_dp w) \<and> od_mb (wr_dp w') = od_mb (wr_dp w) \<and>
    (wr_count w' (stripe k) = wr_count w (stripe k) \<longrightarrow>
       elem 1 (od_mem (wr_dp w')) k = elem 1 (od_mem (wr_dp w)) k)"
  using assms(1)
proof (induction rule: rtranclp_induct)
  case (step y z)
  note f = writer_step_frame [OF step.hyps(2)]
  have inv: "writer_inv y" using step.hyps(1) assms(2) by (rule writer_steps_inv)
  show ?case
  proof (intro conjI impI)
    show "wr_count w (stripe k) \<le> wr_count z (stripe k)"
      using step.IH f(3) [of "stripe k"] by linarith
    show "od_ma (wr_dp z) = od_ma (wr_dp w)" "od_mb (wr_dp z) = od_mb (wr_dp w)"
      using step.IH f by simp_all
    assume "wr_count z (stripe k) = wr_count w (stripe k)"
    then have y: "wr_count y (stripe k) = wr_count w (stripe k)" "wr_count z (stripe k) = wr_count y (stripe k)"
      using step.IH f(3) [of "stripe k"] by linarith+
    then show "elem 1 (od_mem (wr_dp z)) k = elem 1 (od_mem (wr_dp w)) k"
      using step.IH writer_step_elem [OF step.hyps(2) inv, of k] assms(3,4) by simp
  qed
qed simp

text \<open>Equal version bytes and fewer than 256 increments mean no increment at all.\<close>

lemma byte_counts_eq:
  assumes "(of_nat a :: u8) = of_nat b" "a \<le> b" "b < a + 256"
  shows "a = b"
proof -
  have "a mod 256 = b mod 256"
    using assms(1) by (simp add: word_unat_eq_iff unsigned_of_nat take_bit_eq_mod)
  then have "256 dvd b - a" using assms(2) mod_eq_dvd_iff_nat [of a b 256] by simp
  moreover have "b - a < 256" using assms(3) by linarith
  ultimately have "b - a = 0" using nat_dvd_not_less by blast
  then show ?thesis using assms(2) by simp
qed

lemma seqlock_window:
  assumes "\<And>i. writer_step\<^sup>*\<^sup>* (\<gamma> i) (\<gamma> (Suc i))" "writer_inv (\<gamma> 0)"
    and "unat k < unat (od_ma (wr_dp (\<gamma> t))) + unat (od_mb (wr_dp (\<gamma> t)))"
    and "od_lock (wr_dp (\<gamma> t)) ! stripe k mod 2 \<noteq> 1" "t \<le> t1" "t1 \<le> t2"
    and "od_lock (wr_dp (\<gamma> t2)) ! stripe k = od_lock (wr_dp (\<gamma> t)) ! stripe k"
    and "wr_count (\<gamma> t2) (stripe k) < wr_count (\<gamma> t) (stripe k) + 256"
  shows "elem 1 (od_mem (wr_dp (\<gamma> t1))) k = elem 1 (od_mem (wr_dp (\<gamma> t))) k"
proof -
  have run: "writer_step\<^sup>*\<^sup>* (\<gamma> i) (\<gamma> j)" if "i \<le> j" for i j
    using that by (induction rule: dec_induct) (auto intro: rtranclp_trans assms(1))
  have inv: "writer_inv (\<gamma> i)" for i using run [of 0 i] assms(2) writer_steps_inv by blast
  have even: "even (wr_count (\<gamma> t) (stripe k))"
  proof (rule ccontr)
    assume "odd (wr_count (\<gamma> t) (stripe k))"
    then have "odd (od_lock (wr_dp (\<gamma> t)) ! stripe k)"
      using inv [of t] by (simp add: writer_inv_def)
    then show False using assms(4) by (simp add: odd_iff_mod_2_eq_one)
  qed
  note c = writer_steps_elem [OF run [OF assms(5)] inv even assms(3)]
    writer_steps_elem [OF run [OF order_trans [OF assms(5,6)]] inv even assms(3)]
  have le: "wr_count (\<gamma> t1) (stripe k) \<le> wr_count (\<gamma> t2) (stripe k)"
    using run [OF assms(6)] by (induction rule: rtranclp_induct) (auto intro: order_trans writer_step_frame(3))
  have "(of_nat (wr_count (\<gamma> t) (stripe k)) :: u8) = of_nat (wr_count (\<gamma> t2) (stripe k))"
    using assms(7) inv [of t] inv [of t2] by (simp add: writer_inv_def)
  then have "wr_count (\<gamma> t) (stripe k) = wr_count (\<gamma> t2) (stripe k)"
    using byte_counts_eq c(2) assms(8) by blast
  then show ?thesis using c(1) le by simp
qed


definition sample_writer :: writer where
  "sample_writer = \<lparr>wr_dp = \<lparr>od_mem = [5], od_ma = 2, od_mb = 2, od_hab = 0,
      od_lock = (replicate 8192 0)[3 := 1], od_versions = []\<rparr>,
    wr_count = (\<lambda>_. 0)(3 := 1), wr_pending = Some 3\<rparr>"


section \<open>Totality\<close>

text \<open>
  With no writer at work a lookup returns in its first attempt, and its answer is in range: the row
  is one of the key's two candidates and below the number of rows, and the slot is below four.
\<close>
theorem lookup_slot_total:
  assumes "ld_wf d" and "ld_quiet d"
  shows "\<exists>row slot b0 b1. lookup_slot d k = Inr (row, slot) \<and> unat row < length (ld_seeds d) \<and> unat slot < 4 \<and>
    fast_map_to_buckets (fast_hasher64 (ld_h d) k) (ld_num_buckets d) = Inr (b0, b1) \<and> (row = b0 \<or> row = b1)"
proof -
  obtain b0 b1 where b: "two_buckets (fast_hasher64 (ld_h d) k) (ld_num_buckets d) = (b0, b1)" by fastforce
  then have m: "fast_map_to_buckets (fast_hasher64 (ld_h d) k) (ld_num_buckets d) = Inr (b0, b1)"
    using assms(1) fast_map_to_buckets_pow2 by (auto simp: ld_wf_def)
  have "bucket_of d k = b0 \<or> bucket_of d k = b1" by (simp add: bucket_of_def b)
  then show ?thesis
    using lookup_slot_eq [OF assms, of k] bucket_of_lt [OF assms(1), of k] slot_of_lt4 m by blast
qed

text \<open>A data plane with one row, seed 0.\<close>

definition sample_lookup :: ludo_dp where
  "sample_lookup = \<lparr>ld_seeds = [0], ld_num_buckets = 1, ld_h = 0,
      ld_locator = \<lparr>od_mem = [0], od_ma = 1, od_mb = 1, od_hab = 0, od_lock = replicate 8192 0, od_versions = []\<rparr>,
      ld_lock = replicate 8192 0\<rparr>"

lemma sample_lookup_ok: "ld_wf sample_lookup" "ld_quiet sample_lookup" "bucket_of sample_lookup k = 0"
proof -
  have "(1 :: u32) = 2 ^ 0" by simp
  then show "ld_wf sample_lookup"
    unfolding ld_wf_def by (intro conjI exI [of _ 0]) (simp_all add: sample_lookup_def od_wf_def mem_words_def)
  show "ld_quiet sample_lookup" by (simp add: ld_quiet_def od_quiet_def sample_lookup_def)
  show "bucket_of sample_lookup k = 0" by (simp add: bucket_of_def sample_lookup_def two_buckets_def)
qed

theorem lookup_slot_total_witness:
  "\<exists>row slot. lookup_slot sample_lookup 9 = Inr (row, slot) \<and> unat row < length (ld_seeds sample_lookup) \<and> unat slot < 4"
  using lookup_slot_total [OF sample_lookup_ok(1,2), of 9] by blast

end
