(* ===== verification/Lru_Cache.thy ===== *)
theory Lru_Cache
  imports Interfaces "HOL-Library.AList" "HOL-Library.Multiset"
begin

text \<open>
  The bounded LRU cache of \<open>outback/cache.hh\<close> (the server's overflow cache \<open>lru_cache\<close>). The class
  keeps a doubly linked list of key-value nodes, most recently used first, and a hash map from a key
  to the list iterator of its node. The model keeps both: list nodes carry an identity, the map
  (an association list) sends a key to the identity of its node, and every operation updates the two
  the way the code does. The lock template argument only serialises the calls.

  Shown: the two structures stay consistent, every operation refines the operation on a plain
  recency list, the size stays within the documented limits, and the cache is a \<open>lossy_map\<close>.
\<close>

section \<open>Definitions\<close>

record ('k, 'v) cache =
  cache_map :: "('k \<times> nat) list"
  cache_keys :: "(nat \<times> 'k \<times> 'v) list"
  next_node :: nat
  cache_maxSize :: nat
  cache_elasticity :: nat

definition Cache_new :: "nat \<Rightarrow> nat \<Rightarrow> ('k, 'v) cache" where
  "Cache_new maxSize elasticity =
    \<lparr>cache_map = [], cache_keys = [], next_node = 0, cache_maxSize = maxSize, cache_elasticity = elasticity\<rparr>"

definition cache_size :: "('k, 'v) cache \<Rightarrow> nat" where
  "cache_size c = length (cache_map c)"

definition cache_empty :: "('k, 'v) cache \<Rightarrow> bool" where
  "cache_empty c = (cache_map c = [])"

definition cache_clear :: "('k, 'v) cache \<Rightarrow> ('k, 'v) cache" where
  "cache_clear c = c\<lparr>cache_map := [], cache_keys := []\<rparr>"

text \<open>\<open>keys_.splice(keys_.begin(), cache_keys, it)\<close>: the node \<open>it\<close> moves to the front.\<close>

definition splice_front :: "nat \<Rightarrow> (nat \<times> 'k \<times> 'v) list \<Rightarrow> (nat \<times> 'k \<times> 'v) list" where
  "splice_front it ks = filter (\<lambda>(n, _). n = it) ks @ filter (\<lambda>(n, _). n \<noteq> it) ks"

text \<open>\<open>it->value = v\<close>\<close>

definition set_node_value :: "nat \<Rightarrow> 'v \<Rightarrow> (nat \<times> 'k \<times> 'v) list \<Rightarrow> (nat \<times> 'k \<times> 'v) list" where
  "set_node_value it v ks = map (\<lambda>(n, k, w). (n, k, if n = it then v else w)) ks"

definition node_value :: "nat \<Rightarrow> (nat \<times> 'k \<times> 'v) list \<Rightarrow> 'v res" where
  "node_value it ks = (case map_of ks it of None \<Rightarrow> Inl NullDeref | Some (k, v) \<Rightarrow> Inr v)"

text \<open>The eviction loop of \<open>prune\<close>; \<open>keys_.back()\<close> on an empty list is undefined behaviour.\<close>

function prune_loop :: "nat \<Rightarrow> ('k \<times> nat) list \<Rightarrow> (nat \<times> 'k \<times> 'v) list \<Rightarrow>
    (('k \<times> nat) list \<times> (nat \<times> 'k \<times> 'v) list) res" where
  "prune_loop maxSize c ks =
    (if length c > maxSize
     then (if ks = [] then Inl OutOfBounds
           else prune_loop maxSize (AList.delete (fst (snd (last ks))) c) (butlast ks))
     else Inr (c, ks))"
  by pat_completeness auto
termination
  by (relation "measure (\<lambda>(m, c, ks). length ks)") auto

declare prune_loop.simps [simp del]

definition prune :: "('k, 'v) cache \<Rightarrow> ('k, 'v) cache res" where
  "prune c =
    (let maxAllowed = cache_maxSize c + cache_elasticity c in
     if cache_maxSize c = 0 \<or> cache_size c < maxAllowed then Inr c
     else rbind (prune_loop (cache_maxSize c) (cache_map c) (cache_keys c)) (\<lambda>(m, ks).
            Inr (c\<lparr>cache_map := m, cache_keys := ks\<rparr>)))"

definition cache_insert :: "'k \<Rightarrow> 'v \<Rightarrow> ('k, 'v) cache \<Rightarrow> ('k, 'v) cache res" where
  "cache_insert k v c =
    (case map_of (cache_map c) k of
       Some it \<Rightarrow> Inr (c\<lparr>cache_keys := splice_front it (set_node_value it v (cache_keys c))\<rparr>)
     | None \<Rightarrow>
         (let n = next_node c;
              c' = c\<lparr>cache_keys := (n, k, v) # cache_keys c, cache_map := AList.update k n (cache_map c),
                     next_node := Suc n\<rparr>
          in prune c'))"

definition get_nolock :: "'k \<Rightarrow> ('k, 'v) cache \<Rightarrow> ('v \<times> ('k, 'v) cache) res" where
  "get_nolock k c =
    (case map_of (cache_map c) k of
       None \<Rightarrow> Inl KeyNotFound
     | Some it \<Rightarrow>
         (let ks = splice_front it (cache_keys c) in
          rbind (node_value it ks) (\<lambda>v. Inr (v, c\<lparr>cache_keys := ks\<rparr>))))"

definition tryGetRef_nolock :: "'k \<Rightarrow> ('k, 'v) cache \<Rightarrow> ('v option \<times> ('k, 'v) cache) res" where
  "tryGetRef_nolock k c =
    (case map_of (cache_map c) k of
       None \<Rightarrow> Inr (None, c)
     | Some it \<Rightarrow>
         (let ks = splice_front it (cache_keys c) in
          rbind (node_value it ks) (\<lambda>v. Inr (Some v, c\<lparr>cache_keys := ks\<rparr>))))"

definition cache_remove :: "'k \<Rightarrow> ('k, 'v) cache \<Rightarrow> bool \<times> ('k, 'v) cache" where
  "cache_remove k c =
    (case map_of (cache_map c) k of
       None \<Rightarrow> (False, c)
     | Some it \<Rightarrow> (True, c\<lparr>cache_keys := filter (\<lambda>(n, _). n \<noteq> it) (cache_keys c),
                          cache_map := AList.delete k (cache_map c)\<rparr>))"

definition cache_contains :: "'k \<Rightarrow> ('k, 'v) cache \<Rightarrow> bool" where
  "cache_contains k c = (map_of (cache_map c) k \<noteq> None)"

definition getMaxAllowedSize :: "('k, 'v) cache \<Rightarrow> nat" where
  "getMaxAllowedSize c = cache_maxSize c + cache_elasticity c"

text \<open>Consistency of the map and the list.\<close>

definition nodes_wf :: "('k \<times> nat) list \<Rightarrow> (nat \<times> 'k \<times> 'v) list \<Rightarrow> bool" where
  "nodes_wf m ks \<longleftrightarrow>
     distinct (map fst ks) \<and> distinct (map (fst \<circ> snd) ks) \<and> distinct (map fst m) \<and>
     set m = (\<lambda>(n, k, v). (k, n)) ` set ks"

definition cache_wf :: "('k, 'v) cache \<Rightarrow> bool" where
  "cache_wf c \<longleftrightarrow> nodes_wf (cache_map c) (cache_keys c) \<and> (\<forall>n\<in>fst ` set (cache_keys c). n < next_node c)"

text \<open>The abstract view: key-value pairs, most recently used first; and the operations on it.\<close>

definition lru_abs :: "('k, 'v) cache \<Rightarrow> ('k \<times> 'v) list" where
  "lru_abs c = map snd (cache_keys c)"

definition abs_touch :: "'k \<Rightarrow> 'v \<Rightarrow> ('k \<times> 'v) list \<Rightarrow> ('k \<times> 'v) list" where
  "abs_touch k v xs = (k, v) # filter (\<lambda>(k', _). k' \<noteq> k) xs"

definition abs_insert :: "nat \<Rightarrow> nat \<Rightarrow> 'k \<Rightarrow> 'v \<Rightarrow> ('k \<times> 'v) list \<Rightarrow> ('k \<times> 'v) list" where
  "abs_insert maxSize elasticity k v xs =
    (if k \<in> fst ` set xs then abs_touch k v xs
     else let ys = (k, v) # xs in
       if maxSize = 0 \<or> length ys < maxSize + elasticity then ys else take maxSize ys)"

section \<open>The map and the list agree\<close>

lemma nodes_wf_map_of:
  assumes "nodes_wf m ks"
  shows "map_of m k = Some n \<longleftrightarrow> (\<exists>v. (n, k, v) \<in> set ks)"
proof -
  have "map_of m k = Some n \<longleftrightarrow> (k, n) \<in> set m"
    using assms by (simp add: nodes_wf_def)
  also have "\<dots> \<longleftrightarrow> (\<exists>v. (n, k, v) \<in> set ks)"
    using assms by (force simp: nodes_wf_def)
  finally show ?thesis .
qed

lemma nodes_wf_unique:
  assumes "nodes_wf m ks" "(n, k, v) \<in> set ks" "(n', k', v') \<in> set ks" "n = n' \<or> k = k'"
  shows "n = n' \<and> k = k' \<and> v = v'"
proof -
  have inj: "inj_on fst (set ks)" "inj_on (fst \<circ> snd) (set ks)"
    using assms(1) by (simp_all add: nodes_wf_def distinct_map)
  from assms(4) have "(n, k, v) = (n', k', v')"
  proof
    assume "n = n'"
    then show ?thesis using inj_onD [OF inj(1) _ assms(2,3)] by simp
  next
    assume "k = k'"
    then show ?thesis using inj_onD [OF inj(2) _ assms(2,3)] by simp
  qed
  then show ?thesis by simp
qed

lemma nodes_wf_length: "nodes_wf m ks \<Longrightarrow> length m = length ks"
proof -
  assume wf: "nodes_wf m ks"
  have "length m = card (set m)"
    using wf by (metis nodes_wf_def distinct_card distinct_zipI1 zip_map_fst_snd)
  also have "\<dots> = card (set ks)"
  proof -
    have "inj_on (\<lambda>(n, k, v). (k, n)) (set ks)"
    proof (rule inj_onI)
      fix x y
      assume "x \<in> set ks" "y \<in> set ks" "(\<lambda>(n, k, v). (k, n)) x = (\<lambda>(n, k, v). (k, n)) y"
      then have "x \<in> set ks" "y \<in> set ks" "fst x = fst y" by (auto simp: case_prod_unfold)
      then show "x = y" using wf by (auto simp: nodes_wf_def distinct_map dest: inj_onD)
    qed
    then show ?thesis using wf by (simp add: nodes_wf_def card_image)
  qed
  also have "\<dots> = length ks"
  proof -
    have "distinct ks" using wf by (simp add: nodes_wf_def distinct_map)
    then show ?thesis by (rule distinct_card)
  qed
  finally show ?thesis .
qed

lemma filter_node:
  "distinct (map fst ks) \<Longrightarrow> (n, k, v) \<in> set ks \<Longrightarrow> filter (\<lambda>(n', _). n' = n) ks = [(n, k, v)]"
proof (induction ks)
  case (Cons x ks)
  then show ?case
    by (cases x) (auto simp: filter_empty_conv split: prod.splits, (force+)?)
qed simp

lemma filter_node_key:
  assumes "nodes_wf m ks" "(n, k, v) \<in> set ks"
  shows "filter (\<lambda>(n', _). n' \<noteq> n) ks = filter (\<lambda>(_, k', _). k' \<noteq> k) ks"
  by (rule filter_cong) (use nodes_wf_unique [OF assms] in auto)

lemma splice_front_eq:
  assumes "nodes_wf m ks" "(n, k, v) \<in> set ks"
  shows "splice_front n ks = (n, k, v) # filter (\<lambda>(_, k', _). k' \<noteq> k) ks"
  using assms filter_node [of ks n k v] filter_node_key [OF assms]
  by (simp add: splice_front_def nodes_wf_def)

lemma mset_splice_front: "mset (splice_front n ks) = mset ks"
proof -
  have "mset (filter (\<lambda>(n', _). n' = n) ks) + mset (filter (\<lambda>(n', _). n' \<noteq> n) ks) = mset ks"
    by (induction ks) auto
  then show ?thesis by (simp add: splice_front_def)
qed

lemma nodes_wf_mset:
  assumes "nodes_wf m ks" "mset ks' = mset ks"
  shows "nodes_wf m ks'"
proof -
  have "distinct (map fst ks') = distinct (map fst ks)"
    using assms(2) by (intro mset_eq_imp_distinct_iff) simp
  moreover have "distinct (map (fst \<circ> snd) ks') = distinct (map (fst \<circ> snd) ks)"
    using assms(2) by (intro mset_eq_imp_distinct_iff) simp
  ultimately show ?thesis using assms(1) mset_eq_setD [OF assms(2)] by (simp add: nodes_wf_def)
qed

lemma nodes_wf_splice: "nodes_wf m ks \<Longrightarrow> nodes_wf m (splice_front n ks)"
  by (rule nodes_wf_mset [OF _ mset_splice_front])

lemma set_splice_front [simp]: "set (splice_front n ks) = set ks"
  by (auto simp: splice_front_def)

lemma set_node_value_maps [simp]:
  "map fst (set_node_value n v ks) = map fst ks"
  "map (fst \<circ> snd) (set_node_value n v ks) = map (fst \<circ> snd) ks"
  by (auto simp: set_node_value_def)

lemma image_set_node_value [simp]:
  "(\<lambda>(n, k, v). (k, n)) ` set (set_node_value n' v' ks) = (\<lambda>(n, k, v). (k, n)) ` set ks"
  by (force simp: set_node_value_def image_iff)

lemma nodes_wf_set_value: "nodes_wf m ks \<Longrightarrow> nodes_wf m (set_node_value n v ks)"
  by (simp add: nodes_wf_def)

lemma fst_set_node_value: "fst ` set (set_node_value n v ks) = fst ` set ks"
  by (metis list.set_map set_node_value_maps(1))

lemma set_alist_delete: "set (AList.delete k m) = {x \<in> set m. fst x \<noteq> k}"
  by (induction m) auto

lemma nodes_wf_delete:
  assumes "nodes_wf m ks"
  shows "nodes_wf (AList.delete k m) (filter (\<lambda>(_, k', _). k' \<noteq> k) ks)"
proof -
  have "(\<lambda>(n, k, v). (k, n)) ` set (filter (\<lambda>(_, k', _). k' \<noteq> k) ks)
      = {x \<in> (\<lambda>(n, k, v). (k, n)) ` set ks. fst x \<noteq> k}"
    by force
  then show ?thesis
    using assms by (simp add: nodes_wf_def set_alist_delete distinct_delete distinct_map_filter)
qed

lemma nodes_wf_snoc:
  assumes "nodes_wf m (ks @ [(n, k, v)])"
  shows "nodes_wf (AList.delete k m) ks"
proof -
  have "k \<notin> (fst \<circ> snd) ` set ks" using assms by (simp add: nodes_wf_def)
  then have "filter (\<lambda>(_, k', _). k' \<noteq> k) ks = ks" by (intro filter_True) (auto simp: image_iff)
  then show ?thesis using nodes_wf_delete [OF assms, of k] by simp
qed

section \<open>Pruning\<close>

text \<open>The eviction loop keeps the most recent \<open>maxSize\<close> nodes, and always returns.\<close>

lemma prune_loop_eq:
  "nodes_wf m ks \<Longrightarrow>
   \<exists>m'. prune_loop lim m ks = Inr (m', take lim ks) \<and> nodes_wf m' (take lim ks)"
proof (induction ks arbitrary: m rule: rev_induct)
  case Nil
  then show ?case by (auto simp: prune_loop.simps [of lim m] nodes_wf_length)
next
  case (snoc x ks)
  obtain n k v where x: "x = (n, k, v)" by (cases x) auto
  show ?case
  proof (cases "length m > lim")
    case True
    have wf': "nodes_wf (AList.delete k m) ks" using snoc.prems by (simp add: x nodes_wf_snoc)
    have "take lim (ks @ [x]) = take lim ks"
      using True nodes_wf_length [OF snoc.prems] by simp
    moreover have "prune_loop lim m (ks @ [x]) = prune_loop lim (AList.delete k m) ks"
      using True by (simp add: prune_loop.simps [of lim m] x)
    ultimately show ?thesis using snoc.IH [OF wf'] by simp
  next
    case False
    then show ?thesis
      using snoc.prems nodes_wf_length [OF snoc.prems] by (auto simp: prune_loop.simps [of lim m])
  qed
qed

lemma prune_ok:
  assumes "cache_wf c"
  shows "\<exists>c'. prune c = Inr c' \<and> cache_wf c' \<and>
    cache_maxSize c' = cache_maxSize c \<and> cache_elasticity c' = cache_elasticity c \<and>
    lru_abs c' = (if cache_maxSize c = 0 \<or> length (lru_abs c) < cache_maxSize c + cache_elasticity c
                  then lru_abs c else take (cache_maxSize c) (lru_abs c))"
proof (cases "cache_maxSize c = 0 \<or> cache_size c < cache_maxSize c + cache_elasticity c")
  case True
  have "length (cache_map c) = length (cache_keys c)"
    using assms by (simp add: cache_wf_def nodes_wf_length)
  with True show ?thesis using assms by (simp add: prune_def Let_def cache_size_def lru_abs_def)
next
  case False
  have "nodes_wf (cache_map c) (cache_keys c)" using assms by (simp add: cache_wf_def)
  from prune_loop_eq [OF this, of "cache_maxSize c"] obtain m' where m': "prune_loop (cache_maxSize c) (cache_map c) (cache_keys c)
      = Inr (m', take (cache_maxSize c) (cache_keys c))" "nodes_wf m' (take (cache_maxSize c) (cache_keys c))"
    by blast
  have "length (cache_map c) = length (cache_keys c)"
    using assms by (simp add: cache_wf_def nodes_wf_length)
  with m' show ?thesis using False assms
    by (auto simp: prune_def Let_def cache_size_def lru_abs_def cache_wf_def take_map dest: in_set_takeD)
qed

section \<open>Every operation refines the recency list\<close>

lemma lru_abs_keys: "fst ` set (lru_abs c) = (fst \<circ> snd) ` set (cache_keys c)"
  by (simp add: lru_abs_def image_comp)

lemma cache_map_None:
  "cache_wf c \<Longrightarrow> map_of (cache_map c) k = None \<longleftrightarrow> k \<notin> fst ` set (lru_abs c)"
proof -
  assume "cache_wf c"
  then have "set (cache_map c) = (\<lambda>x. (fst (snd x), fst x)) ` set (cache_keys c)"
    by (simp add: cache_wf_def nodes_wf_def case_prod_unfold)
  then have "fst ` set (cache_map c) = fst ` (\<lambda>x. (fst (snd x), fst x)) ` set (cache_keys c)"
    by (rule arg_cong)
  also have "\<dots> = (fst \<circ> snd) ` set (cache_keys c)" by (simp only: image_image comp_def fst_conv)
  finally have "fst ` set (cache_map c) = (fst \<circ> snd) ` set (cache_keys c)" .
  then show ?thesis by (simp add: map_of_eq_None_iff lru_abs_keys)
qed

lemma lru_abs_splice:
  assumes "nodes_wf m ks" "(n, k, v) \<in> set ks"
  shows "map snd (splice_front n ks) = abs_touch k v (map snd ks)"
proof -
  have "map snd (filter (\<lambda>(_, k', _). k' \<noteq> k) ks) = filter (\<lambda>(k', _). k' \<noteq> k) (map snd ks)"
    by (induction ks) auto
  then show ?thesis by (simp add: splice_front_eq [OF assms] abs_touch_def)
qed

lemma abs_touch_set_value:
  assumes "nodes_wf m ks" "(n, k, w) \<in> set ks"
  shows "abs_touch k v (map snd (set_node_value n v ks)) = abs_touch k v (map snd ks)"
proof -
  have "filter (\<lambda>(k', _). k' \<noteq> k) (map snd (set_node_value n v ks')) =
        filter (\<lambda>(k', _). k' \<noteq> k) (map snd ks')" if "\<forall>(n', k', w')\<in>set ks'. n' = n \<longrightarrow> k' = k" for ks'
    using that by (induction ks') (auto simp: set_node_value_def)
  moreover have "\<forall>(n', k', w')\<in>set ks. n' = n \<longrightarrow> k' = k"
    using nodes_wf_unique [OF assms] by blast
  ultimately show ?thesis by (simp add: abs_touch_def)
qed

lemma cache_insert_ok:
  assumes "cache_wf c"
  shows "\<exists>c'. cache_insert k v c = Inr c' \<and> cache_wf c' \<and>
    cache_maxSize c' = cache_maxSize c \<and> cache_elasticity c' = cache_elasticity c \<and>
    lru_abs c' = abs_insert (cache_maxSize c) (cache_elasticity c) k v (lru_abs c)"
proof (cases "map_of (cache_map c) k")
  case None
  let ?c = "c\<lparr>cache_keys := (next_node c, k, v) # cache_keys c,
              cache_map := AList.update k (next_node c) (cache_map c), next_node := Suc (next_node c)\<rparr>"
  have k: "k \<notin> fst ` set (lru_abs c)" using None cache_map_None [OF assms] by simp
  have up: "AList.update k n m = m @ [(k, n)]" if "k \<notin> fst ` set m" for n and m :: "('a \<times> nat) list"
    using that by (induction m) auto
  have km: "k \<notin> fst ` set (cache_map c)" using None by (simp add: map_of_eq_None_iff)
  have "next_node c \<notin> fst ` set (cache_keys c)" using assms by (auto simp: cache_wf_def)
  then have "cache_wf ?c"
    using assms k km by (auto simp: cache_wf_def nodes_wf_def up lru_abs_keys intro: less_SucI)
  then obtain c' where c': "prune ?c = Inr c'" "cache_wf c'"
    "cache_maxSize c' = cache_maxSize c" "cache_elasticity c' = cache_elasticity c"
    "lru_abs c' = (if cache_maxSize c = 0 \<or> length (lru_abs ?c) < cache_maxSize c + cache_elasticity c
                  then lru_abs ?c else take (cache_maxSize c) (lru_abs ?c))"
    using prune_ok [of ?c] by auto
  have "lru_abs ?c = (k, v) # lru_abs c" by (simp add: lru_abs_def)
  then show ?thesis using None k c' by (simp add: cache_insert_def Let_def abs_insert_def)
next
  case (Some n)
  then obtain w where n: "(n, k, w) \<in> set (cache_keys c)"
    using assms nodes_wf_map_of unfolding cache_wf_def by metis
  let ?ks = "set_node_value n v (cache_keys c)"
  have wf: "nodes_wf (cache_map c) (cache_keys c)" using assms by (simp add: cache_wf_def)
  have n': "(n, k, v) \<in> set ?ks" using n by (force simp: set_node_value_def)
  let ?c = "c\<lparr>cache_keys := splice_front n ?ks\<rparr>"
  have "\<forall>i\<in>fst ` set ?ks. i < next_node c"
    using assms unfolding cache_wf_def fst_set_node_value by blast
  then have "cache_wf ?c"
    using nodes_wf_splice [OF nodes_wf_set_value [OF wf]] by (simp add: cache_wf_def)
  moreover have "lru_abs ?c = abs_touch k v (lru_abs c)"
    using lru_abs_splice [OF nodes_wf_set_value [OF wf] n'] abs_touch_set_value [OF wf n]
    by (simp add: lru_abs_def)
  moreover have "k \<in> fst ` set (lru_abs c)" using n by (force simp: lru_abs_def)
  ultimately show ?thesis using Some by (simp add: cache_insert_def abs_insert_def)
qed

lemma map_of_lru_abs:
  assumes "nodes_wf m ks"
  shows "map_of (map snd ks) k = Some v \<longleftrightarrow> (\<exists>n. (n, k, v) \<in> set ks)"
proof -
  have "distinct (map fst (map snd ks))" using assms by (simp add: nodes_wf_def comp_def)
  then have "map_of (map snd ks) k = Some v \<longleftrightarrow> (k, v) \<in> set (map snd ks)" by simp
  then show ?thesis by force
qed

lemma get_nolock_ok:
  assumes "cache_wf c"
  shows "get_nolock k c =
    (case map_of (lru_abs c) k of
       None \<Rightarrow> Inl KeyNotFound
     | Some v \<Rightarrow> Inr (v, c\<lparr>cache_keys := splice_front (the (map_of (cache_map c) k)) (cache_keys c)\<rparr>))"
proof (cases "map_of (cache_map c) k")
  case None
  then have "map_of (lru_abs c) k = None"
    using cache_map_None [OF assms] by (simp add: map_of_eq_None_iff)
  then show ?thesis using None by (simp add: get_nolock_def)
next
  case (Some n)
  have wf: "nodes_wf (cache_map c) (cache_keys c)" using assms by (simp add: cache_wf_def)
  obtain w where n: "(n, k, w) \<in> set (cache_keys c)" using Some wf nodes_wf_map_of by metis
  have "map_of (lru_abs c) k = Some w" using n map_of_lru_abs [OF wf] by (auto simp: lru_abs_def)
  moreover have "map_of (splice_front n (cache_keys c)) n = Some (k, w)"
    using n nodes_wf_splice [OF wf] by (auto simp: nodes_wf_def)
  ultimately show ?thesis using Some by (simp add: get_nolock_def Let_def node_value_def)
qed

lemma get_nolock_state:
  assumes "cache_wf c" "get_nolock k c = Inr (v, c')"
  shows "cache_wf c'" and "lru_abs c' = abs_touch k v (lru_abs c)"
    and "map_of (lru_abs c) k = Some v"
proof -
  have wf: "nodes_wf (cache_map c) (cache_keys c)" using assms by (simp add: cache_wf_def)
  from assms show hit: "map_of (lru_abs c) k = Some v"
    by (auto simp: get_nolock_ok split: option.splits)
  then obtain n where n: "(n, k, v) \<in> set (cache_keys c)"
    using map_of_lru_abs [OF wf] by (auto simp: lru_abs_def)
  then have "map_of (cache_map c) k = Some n" using nodes_wf_map_of [OF wf] by blast
  then have c': "c' = c\<lparr>cache_keys := splice_front n (cache_keys c)\<rparr>"
    using assms hit by (simp add: get_nolock_ok)
  show "cache_wf c'" using assms(1) nodes_wf_splice [OF wf] by (simp add: c' cache_wf_def)
  show "lru_abs c' = abs_touch k v (lru_abs c)"
    using lru_abs_splice [OF wf n] by (simp add: c' lru_abs_def)
qed

lemma cache_remove_ok:
  assumes "cache_wf c"
  shows "cache_wf (snd (cache_remove k c))"
    and "lru_abs (snd (cache_remove k c)) = filter (\<lambda>(k', _). k' \<noteq> k) (lru_abs c)"
    and "fst (cache_remove k c) \<longleftrightarrow> k \<in> fst ` set (lru_abs c)"
proof -
  have wf: "nodes_wf (cache_map c) (cache_keys c)" using assms by (simp add: cache_wf_def)
  have key: "filter (\<lambda>(k', _). k' \<noteq> k) (map snd ks) = map snd (filter (\<lambda>(_, k', _). k' \<noteq> k) ks)"
    for ks :: "(nat \<times> 'a \<times> 'b) list"
    by (induction ks) auto
  consider "map_of (cache_map c) k = None" |
    n v where "map_of (cache_map c) k = Some n" "(n, k, v) \<in> set (cache_keys c)"
    using nodes_wf_map_of [OF wf] by (metis not_None_eq)
  then have "cache_wf (snd (cache_remove k c)) \<and>
    lru_abs (snd (cache_remove k c)) = filter (\<lambda>(k', _). k' \<noteq> k) (lru_abs c) \<and>
    (fst (cache_remove k c) \<longleftrightarrow> k \<in> fst ` set (lru_abs c))"
  proof cases
    case 1
    then have k: "k \<notin> fst ` set (lru_abs c)" using cache_map_None [OF assms] by simp
    then have "filter (\<lambda>(k', _). k' \<noteq> k) (lru_abs c) = lru_abs c"
      by (intro filter_True) (auto simp: image_iff)
    then show ?thesis using 1 assms k by (simp add: cache_remove_def)
  next
    case 2
    have "nodes_wf (AList.delete k (cache_map c)) (filter (\<lambda>(_, k', _). k' \<noteq> k) (cache_keys c))"
      using wf by (rule nodes_wf_delete)
    moreover have "k \<in> fst ` set (lru_abs c)" using 2(2) by (force simp: lru_abs_def)
    ultimately show ?thesis using 2 assms filter_node_key [OF wf 2(2)]
      by (auto simp: cache_remove_def cache_wf_def lru_abs_def key)
  qed
  then show "cache_wf (snd (cache_remove k c))"
    and "lru_abs (snd (cache_remove k c)) = filter (\<lambda>(k', _). k' \<noteq> k) (lru_abs c)"
    and "fst (cache_remove k c) \<longleftrightarrow> k \<in> fst ` set (lru_abs c)"
    by blast+
qed

lemma Cache_new_wf: "cache_wf (Cache_new m e)"
  by (simp add: Cache_new_def cache_wf_def nodes_wf_def)

section \<open>The cache as a lossy map\<close>

definition lru_lookup :: "('k, 'v) cache \<Rightarrow> 'k \<Rightarrow> 'v option" where
  "lru_lookup c k = map_of (lru_abs c) k"

lemma map_of_filter_key: "map_of (filter (\<lambda>(k', _). k' \<noteq> k) xs) k' = (if k' = k then None else map_of xs k')"
  by (induction xs) auto

lemma map_of_abs_touch: "map_of (abs_touch k v xs) = (map_of xs)(k \<mapsto> v)"
  by (auto simp: abs_touch_def map_of_filter_key)

lemma map_of_take: "map_of (take n xs) k = None \<or> map_of (take n xs) k = map_of xs k"
proof (cases "map_of (take n xs) k")
  case (Some v)
  have "map_of xs = map_of (drop n xs) ++ map_of (take n xs)"
    by (metis append_take_drop_id map_of_append)
  then show ?thesis using Some by simp
qed simp

interpretation lru: lossy_map cache_wf cache_insert lru_lookup
proof unfold_locales
  fix m m' :: "('a, 'b) cache" and k k' :: 'a and v :: 'b
  assume m: "cache_wf m" and ins: "cache_insert k v m = Inr m'"
  with cache_insert_ok [OF m, of k v] have
    m': "cache_wf m'" "lru_abs m' = abs_insert (cache_maxSize m) (cache_elasticity m) k v (lru_abs m)"
    by auto
  show "cache_wf m'" by (fact m'(1))
  show "lru_lookup m' k = Some v"
    by (auto simp: lru_lookup_def m'(2) abs_insert_def map_of_abs_touch Let_def take_Cons split: nat.splits)
  show "lru_lookup m' k' = None \<or> lru_lookup m' k' = lru_lookup m k'" if "k' \<noteq> k"
    using that map_of_take [of "cache_maxSize m" "(k, v) # lru_abs m" k']
    by (auto simp: lru_lookup_def m'(2) abs_insert_def map_of_abs_touch Let_def)
qed

section \<open>Runs of operations\<close>

text \<open>A run of client calls on the cache, with the answer of each call; and the same run on the recency list.\<close>

datatype ('k, 'v) cache_call = Insert 'k 'v | TryGet 'k | Remove 'k

fun cache_exec :: "('k, 'v) cache_call \<Rightarrow> ('k, 'v) cache \<Rightarrow> ('v option \<times> ('k, 'v) cache) res" where
  "cache_exec (Insert k v) c = rbind (cache_insert k v c) (\<lambda>c'. Inr (None, c'))"
| "cache_exec (TryGet k) c = tryGetRef_nolock k c"
| "cache_exec (Remove k) c = Inr (None, snd (cache_remove k c))"

fun abs_exec :: "nat \<Rightarrow> nat \<Rightarrow> ('k, 'v) cache_call \<Rightarrow> ('k \<times> 'v) list \<Rightarrow> 'v option \<times> ('k \<times> 'v) list" where
  "abs_exec m e (Insert k v) xs = (None, abs_insert m e k v xs)"
| "abs_exec m e (TryGet k) xs = (case map_of xs k of None \<Rightarrow> (None, xs) | Some v \<Rightarrow> (Some v, abs_touch k v xs))"
| "abs_exec m e (Remove k) xs = (None, filter (\<lambda>(k', _). k' \<noteq> k) xs)"

fun cache_run :: "('k, 'v) cache_call list \<Rightarrow> ('k, 'v) cache \<Rightarrow> ('v option list \<times> ('k, 'v) cache) res" where
  "cache_run [] c = Inr ([], c)"
| "cache_run (p # ps) c = rbind (cache_exec p c) (\<lambda>(a, c1). rbind (cache_run ps c1) (\<lambda>(as, c2). Inr (a # as, c2)))"

fun abs_run :: "nat \<Rightarrow> nat \<Rightarrow> ('k, 'v) cache_call list \<Rightarrow> ('k \<times> 'v) list \<Rightarrow> 'v option list \<times> ('k \<times> 'v) list" where
  "abs_run m e [] xs = ([], xs)"
| "abs_run m e (p # ps) xs = (let (a, ys) = abs_exec m e p xs; (as, zs) = abs_run m e ps ys in (a # as, zs))"

definition lru_bounded :: "nat \<Rightarrow> nat \<Rightarrow> ('k \<times> 'v) list \<Rightarrow> bool" where
  "lru_bounded m e xs \<longleftrightarrow> distinct (map fst xs) \<and> (m = 0 \<or> length xs \<le> max m (m + e - 1))"

lemma tryGetRef_nolock_get:
  "tryGetRef_nolock k c = (case map_of (cache_map c) k of None \<Rightarrow> Inr (None, c)
     | Some _ \<Rightarrow> rbind (get_nolock k c) (\<lambda>(v, c'). Inr (Some v, c')))"
  by (simp add: tryGetRef_nolock_def get_nolock_def Let_def rbind_assoc split: option.split)

lemma get_nolock_config:
  "get_nolock k c = Inr (v, c') \<Longrightarrow> cache_maxSize c' = cache_maxSize c \<and> cache_elasticity c' = cache_elasticity c"
  by (auto simp: get_nolock_def Let_def split: option.splits elim!: rbindE)

lemma cache_exec_refines:
  assumes "cache_wf c" "cache_maxSize c = m" "cache_elasticity c = e"
  shows "\<exists>a c'. cache_exec p c = Inr (a, c') \<and> cache_wf c' \<and> cache_maxSize c' = m \<and> cache_elasticity c' = e \<and>
    (a, lru_abs c') = abs_exec m e p (lru_abs c)"
proof (cases p)
  case (Insert k v)
  then show ?thesis using cache_insert_ok [OF assms(1), of k v] assms(2,3) by auto
next
  case (TryGet k)
  show ?thesis
  proof (cases "map_of (lru_abs c) k")
    case None
    then have "map_of (cache_map c) k = None" using cache_map_None [OF assms(1)] by (simp add: map_of_eq_None_iff)
    then show ?thesis using TryGet None assms by (simp add: tryGetRef_nolock_get)
  next
    case (Some v)
    then have "k \<in> fst ` set (lru_abs c)" by (metis map_of_eq_None_iff option.distinct(1))
    then have m: "map_of (cache_map c) k \<noteq> None" using cache_map_None [OF assms(1), of k] by blast
    obtain c' where g: "get_nolock k c = Inr (v, c')" using get_nolock_ok [OF assms(1), of k] Some by auto
    show ?thesis
      using TryGet Some m g get_nolock_state [OF assms(1) g] get_nolock_config [OF g] assms(2,3)
      by (auto simp: tryGetRef_nolock_get)
  qed
next
  case (Remove k)
  then show ?thesis using cache_remove_ok [OF assms(1), of k] assms(2,3)
    by (auto simp: cache_remove_def split: option.splits)
qed

lemma abs_exec_bounded: "lru_bounded m e xs \<Longrightarrow> lru_bounded m e (snd (abs_exec m e p xs))"
proof (cases p)
  case (Insert k v)
  assume b: "lru_bounded m e xs"
  have d: "distinct (map fst (filter (\<lambda>(k', _). k' \<noteq> k) xs))" "k \<notin> fst ` set (filter (\<lambda>(k', _). k' \<noteq> k) xs)"
    using b by (auto simp: lru_bounded_def distinct_map_filter)
  have "length (filter (\<lambda>(k', _). k' \<noteq> k) xs) < length xs" if "k \<in> fst ` set xs"
    using that by (intro length_filter_less [of "(k, the (map_of xs k))"]) (auto simp: map_of_eq_Some_iff b[unfolded lru_bounded_def])
  then show ?thesis using Insert b d
    by (auto simp: lru_bounded_def abs_insert_def abs_touch_def Let_def distinct_take take_map [symmetric] simp del: take_Suc_Cons)
next
  case (TryGet k)
  assume b: "lru_bounded m e xs"
  show ?thesis
  proof (cases "map_of xs k")
    case (Some v)
    have "distinct (map fst (filter (\<lambda>(k', _). k' \<noteq> k) xs))" using b by (simp add: lru_bounded_def distinct_map_filter)
    moreover have "length (filter (\<lambda>(k', _). k' \<noteq> k) xs) < length xs"
      using map_of_SomeD [OF Some] by (intro length_filter_less [of "(k, v)"]) auto
    ultimately show ?thesis using TryGet Some b by (auto simp: lru_bounded_def abs_touch_def)
  qed (use TryGet b in simp)
next
  case (Remove k)
  assume "lru_bounded m e xs"
  then show ?thesis using Remove le_trans [OF length_filter_le] by (auto simp: lru_bounded_def distinct_map_filter)
qed

lemma cache_run_refines:
  assumes "cache_wf c" "cache_maxSize c = m" "cache_elasticity c = e" "lru_bounded m e (lru_abs c)"
  shows "\<exists>as c'. cache_run ps c = Inr (as, c') \<and> cache_wf c' \<and> (as, lru_abs c') = abs_run m e ps (lru_abs c) \<and>
    lru_bounded m e (lru_abs c')"
  using assms
proof (induction ps arbitrary: c)
  case (Cons p ps)
  obtain a c1 where 1: "cache_exec p c = Inr (a, c1)" "cache_wf c1" "cache_maxSize c1 = m" "cache_elasticity c1 = e"
    "abs_exec m e p (lru_abs c) = (a, lru_abs c1)" using cache_exec_refines [OF Cons.prems(1-3), of p] by auto
  have "lru_bounded m e (lru_abs c1)" using abs_exec_bounded [OF Cons.prems(4), of p] 1(5) by simp
  from Cons.IH [OF 1(2-4) this] obtain as c2 where "cache_run ps c1 = Inr (as, c2)" "cache_wf c2"
    "abs_run m e ps (lru_abs c1) = (as, lru_abs c2)" "lru_bounded m e (lru_abs c2)" by auto
  then show ?case using 1 by simp
qed simp

text \<open>
  (C13) The cache refines a bounded recency list. Every run of inserts, lookups and removals on a new
  cache returns (no iterator is ever invalid), gives the answers of the same run on a list of key-value
  pairs kept in order of use, and ends with that list: no key twice, and, unless the size is unlimited,
  never more entries than the larger of the size and one less than size plus elasticity.
\<close>
theorem cache_refines_recency_list:
  "\<exists>as c'. cache_run ps (Cache_new m e) = Inr (as, c') \<and> (as, lru_abs c') = abs_run m e ps [] \<and>
    cache_size c' = length (lru_abs c') \<and> distinct (map fst (lru_abs c')) \<and>
    (m = 0 \<or> cache_size c' \<le> max m (m + e - 1))"
proof -
  have n: "cache_maxSize (Cache_new m e) = m" "cache_elasticity (Cache_new m e) = e" "lru_abs (Cache_new m e) = []"
    by (simp_all add: Cache_new_def lru_abs_def)
  obtain as c' where r: "cache_run ps (Cache_new m e) = Inr (as, c')" "cache_wf c'" "(as, lru_abs c') = abs_run m e ps []"
    "lru_bounded m e (lru_abs c')"
    using cache_run_refines [OF Cache_new_wf n(1,2), of ps] unfolding n(3) by (auto simp: lru_bounded_def)
  have "cache_size c' = length (lru_abs c')"
    using r(2) by (simp add: cache_size_def lru_abs_def cache_wf_def nodes_wf_length)
  then show ?thesis using r by (auto simp: lru_bounded_def)
qed

text \<open>
  A hit is never stale: after any sequence of inserts into a new cache, whatever was evicted in
  between, a value the cache still holds for a key is the value of the last insert of that key.
\<close>
theorem cache_hit_is_last_insert:
  assumes "rfold (\<lambda>(k, v). cache_insert k v) kvs (Cache_new m e) = Inr c" and "get_nolock k c = Inr (v, c')"
  shows "map_of (rev kvs) k = Some v"
proof -
  have wf: "cache_wf c" by (rule lru.insert_all_inv [OF Cache_new_wf assms(1)])
  have "lru_lookup c k = Some v" using get_nolock_state(3) [OF wf assms(2)] by (simp add: lru_lookup_def)
  from lru.insert_all_no_stale [OF Cache_new_wf assms(1) this]
  show ?thesis by (simp add: lru_lookup_def lru_abs_def Cache_new_def map_add_def split: option.splits)
qed

theorem cache_hit_is_last_insert_witness:
  "\<exists>c c'. rfold (\<lambda>(k, v). cache_insert k v) [(1, 10), (2, 20), (1, 11), (3, 30)] (Cache_new 2 1 :: (nat, nat) cache) = Inr c \<and>
     get_nolock 1 c = Inr (11, c') \<and> map_of (rev [(1 :: nat, 10), (2, 20), (1, 11), (3, 30)]) 1 = Some (11 :: nat)"
proof -
  let ?c = "\<lparr>cache_map = [(1, 0), (3, 2)], cache_keys = [(2, 3, 30), (0, 1, 11)], next_node = 3, cache_maxSize = 2, cache_elasticity = 1\<rparr> :: (nat, nat) cache"
  let ?c' = "?c\<lparr>cache_keys := [(0, 1, 11), (2, 3, 30)]\<rparr>"
  have r: "rfold (\<lambda>(k, v). cache_insert k v) [(1, 10), (2, 20), (1, 11), (3, 30)] (Cache_new 2 1) = Inr ?c" by code_simp
  have g: "get_nolock 1 ?c = Inr (11, ?c')" by code_simp
  show ?thesis using r g cache_hit_is_last_insert [OF r g] by blast
qed

end
