(* ===== verification/Rpc.thy ===== *)
theory Rpc
  imports Prelude
begin

text \<open>
  The RPC layer of \<open>xcomm/src/rpc\<close> and the marshalling of \<open>xutils/marshal.hh\<close>: messages are byte
  lists (little endian, as on the target), the header is the 32-bit bit field of \<open>proto.hh\<close> in an
  8-byte slot, \<open>RPCOp\<close> builds a message in a caller's buffer, \<open>ReplyStation\<close> holds the replies each
  coroutine waits for, and \<open>RPCCore\<close> dispatches what has been received.

  Shown: marshalling round-trips; a finalised message is parsed back to its header fields and its
  exact payload; a request reaches the registered callback with the bytes the caller put in; a reply
  is stored once, in the buffer of the waiting coroutine.
\<close>

section \<open>Bytes\<close>

fun le_bytes :: "nat \<Rightarrow> u64 \<Rightarrow> u8 list" where
  "le_bytes 0 w = []"
| "le_bytes (Suc n) w = ucast w # le_bytes n (drop_bit 8 w)"

fun le_word :: "u8 list \<Rightarrow> u64" where
  "le_word [] = 0"
| "le_word (b # bs) = ucast b OR push_bit 8 (le_word bs)"

text \<open>Reading \<open>n\<close> bytes at an offset of a buffer.\<close>

definition read_at :: "u8 list \<Rightarrow> nat \<Rightarrow> nat \<Rightarrow> u8 list res" where
  "read_at buf off n = (if off + n \<le> length buf then Inr (take n (drop off buf)) else Inl OutOfBounds)"

text \<open>\<open>memcpy\<close> into a buffer.\<close>

definition write_at :: "u8 list \<Rightarrow> nat \<Rightarrow> u8 list \<Rightarrow> u8 list res" where
  "write_at buf off bs =
    (if off + length bs \<le> length buf then Inr (take off buf @ bs @ drop (off + length bs) buf)
     else Inl OutOfBounds)"

text \<open>\<open>MemBlock::interpret_as<uint64_t>(off)\<close>\<close>

definition interpret_as_u64 :: "u8 list \<Rightarrow> nat \<Rightarrow> u64 res" where
  "interpret_as_u64 buf off = rbind (read_at buf off 8) (\<lambda>bs. Inr (le_word bs))"

section \<open>Marshal\<close>

definition serialize_to :: "u64 \<Rightarrow> u8 list" where
  "serialize_to t = le_bytes 8 t"

definition serialize_into :: "u64 \<Rightarrow> u8 list \<Rightarrow> u8 list res" where
  "serialize_into t s = (if 8 \<le> length s then write_at s 0 (le_bytes 8 t) else Inl AssertFailed)"

definition deserialize :: "u8 list \<Rightarrow> u64 \<Rightarrow> u64 res" where
  "deserialize buf sz = (if unat sz < 8 then Inl AssertFailed else interpret_as_u64 buf 0)"

definition extract_u64 :: "u8 list \<Rightarrow> u64 res" where
  "extract_u64 buf = interpret_as_u64 buf 0"

definition extract_with_inc :: "u8 list \<Rightarrow> nat \<Rightarrow> (u64 \<times> nat) res" where
  "extract_with_inc buf off = rbind (interpret_as_u64 buf off) (\<lambda>w. Inr (w, off + 8))"

definition deserialize_opt :: "u8 list \<Rightarrow> u64 \<Rightarrow> u64 option res" where
  "deserialize_opt buf sz =
    (if unat sz < 8 then Inr None else rbind (interpret_as_u64 buf 0) (\<lambda>w. Inr (Some w)))"

text \<open>\<open>MarshalT\<close>: a packed pair of the size and the value.\<close>

definition MarshalT_serialize :: "u64 \<Rightarrow> u8 list" where
  "MarshalT_serialize t = le_bytes 8 8 @ le_bytes 8 t"

definition MarshalT_deserialize :: "u8 list \<Rightarrow> u64 option res" where
  "MarshalT_deserialize d =
    (if length d < 16 then Inr None else rbind (interpret_as_u64 d 8) (\<lambda>w. Inr (Some w)))"

section \<open>The header\<close>

datatype msg_type = Req | Reply | Connect

definition msg_code :: "msg_type \<Rightarrow> u32" where
  "msg_code t = (case t of Req \<Rightarrow> 1 | Reply \<Rightarrow> 2 | Connect \<Rightarrow> 3)"

text \<open>Each field holds what fits its width: 2, 5, 18 and 7 bits.\<close>

record header =
  h_type :: u32
  h_rpc_id :: u32
  h_payload :: u32
  h_cor_id :: u32

definition sizeof_Header :: nat where
  "sizeof_Header = 8"

definition header_word :: "header \<Rightarrow> u32" where
  "header_word h =
    (h_type h OR push_bit 2 (h_rpc_id h) OR push_bit 7 (h_payload h) OR push_bit 25 (h_cor_id h))"

definition header_of_word :: "u32 \<Rightarrow> header" where
  "header_of_word w =
    \<lparr>h_type = take_bit 2 w, h_rpc_id = take_bit 5 (drop_bit 2 w),
     h_payload = take_bit 18 (drop_bit 7 w), h_cor_id = drop_bit 25 w\<rparr>"

definition header_wf :: "header \<Rightarrow> bool" where
  "header_wf h \<longleftrightarrow> take_bit 2 (h_type h) = h_type h \<and> take_bit 5 (h_rpc_id h) = h_rpc_id h \<and>
     take_bit 18 (h_payload h) = h_payload h \<and> take_bit 7 (h_cor_id h) = h_cor_id h"

section \<open>Building a message\<close>

record rpc_op =
  op_header :: header
  op_msg :: "u8 list"
  op_msg_sz :: nat
  op_cur :: nat

definition set_msg :: "u8 list \<Rightarrow> rpc_op \<Rightarrow> rpc_op res" where
  "set_msg b op =
    (if length b < sizeof_Header then Inl AssertFailed
     else Inr (op\<lparr>op_msg := b, op_msg_sz := length b, op_cur := sizeof_Header\<rparr>))"

definition set_rpc_id :: "u32 \<Rightarrow> rpc_op \<Rightarrow> rpc_op" where
  "set_rpc_id i op = op\<lparr>op_header := (op_header op)\<lparr>h_rpc_id := take_bit 5 i\<rparr>\<rparr>"

definition set_type :: "msg_type \<Rightarrow> rpc_op \<Rightarrow> rpc_op" where
  "set_type t op = op\<lparr>op_header := (op_header op)\<lparr>h_type := take_bit 2 (msg_code t)\<rparr>\<rparr>"

definition set_corid :: "u32 \<Rightarrow> rpc_op \<Rightarrow> rpc_op" where
  "set_corid i op = op\<lparr>op_header := (op_header op)\<lparr>h_cor_id := take_bit 7 i\<rparr>\<rparr>"

text \<open>\<open>add_opaque\<close>, and \<open>add_arg<T>\<close> on the bytes of its argument: whether there was room.\<close>

definition add_opaque :: "u8 list \<Rightarrow> rpc_op \<Rightarrow> (bool \<times> rpc_op) res" where
  "add_opaque data op =
    (if length data + op_cur op > op_msg_sz op then Inr (False, op)
     else rbind (write_at (op_msg op) (op_cur op) data) (\<lambda>m.
       Inr (True, op\<lparr>op_msg := m, op_cur := op_cur op + length data\<rparr>)))"

definition add_arg :: "u8 list \<Rightarrow> rpc_op \<Rightarrow> (bool \<times> rpc_op) res" where
  "add_arg arg op =
    (if length arg + op_cur op > op_msg_sz op then Inr (False, op)
     else rbind (write_at (op_msg op) (op_cur op) arg) (\<lambda>m.
       Inr (True, op\<lparr>op_msg := m, op_cur := op_cur op + length arg\<rparr>)))"

text \<open>\<open>finalize\<close>: the four header bytes are stored (the padding keeps what the buffer held) and the message is cut.\<close>

definition finalize :: "rpc_op \<Rightarrow> rpc_op res" where
  "finalize op =
    (let h = (op_header op)\<lparr>h_payload := take_bit 18 (of_nat (op_cur op - sizeof_Header))\<rparr>
     in rbind (write_at (op_msg op) 0 (le_bytes 4 (ucast (header_word h)))) (\<lambda>m.
        Inr (op\<lparr>op_header := h, op_msg := m, op_msg_sz := unat (h_payload h) + sizeof_Header\<rparr>)))"

definition op_bytes :: "rpc_op \<Rightarrow> u8 list" where
  "op_bytes op = take (op_msg_sz op) (op_msg op)"

text \<open>\<open>execute\<close>: the bytes handed to the transport's \<open>send\<close>.\<close>

definition execute :: "rpc_op \<Rightarrow> u8 list res" where
  "execute op = rbind (finalize op) (\<lambda>op'. Inr (op_bytes op'))"

definition get_connect_op :: "rpc_op \<Rightarrow> u8 list \<Rightarrow> u8 list \<Rightarrow> rpc_op res" where
  "get_connect_op junk msg opaque_data =
    rbind (set_msg msg junk) (\<lambda>op.
    rbind (add_opaque opaque_data (set_type Connect op)) (\<lambda>(_, op'). Inr op'))"

text \<open>
  The chain of calls the clients make: \<open>set_msg\<close>, \<open>set_req\<close>, \<open>set_rpc_id\<close>, \<open>set_corid\<close>,
  \<open>add_opaque\<close> (whose result they ignore), \<open>execute\<close>. The header of a fresh \<open>RPCOp\<close> is indeterminate
  (\<open>junk\<close>), but a bit field never holds more than its width.
\<close>

definition build_request :: "rpc_op \<Rightarrow> u8 list \<Rightarrow> u32 \<Rightarrow> u32 \<Rightarrow> u8 list \<Rightarrow> u8 list res" where
  "build_request junk send_buf rpc_id cor_id data =
    rbind (set_msg send_buf junk) (\<lambda>op.
    rbind (add_opaque data (set_corid cor_id (set_rpc_id rpc_id (set_type Req op)))) (\<lambda>(_, op').
    execute op'))"

text \<open>And the chain of the server's callbacks; the result of \<open>add_arg\<close> is asserted.\<close>

definition build_reply :: "rpc_op \<Rightarrow> u8 list \<Rightarrow> u32 \<Rightarrow> u8 list \<Rightarrow> u8 list res" where
  "build_reply junk reply_buf cor_id arg =
    rbind (set_msg reply_buf junk) (\<lambda>op.
    rbind (add_arg arg (set_type Reply op)) (\<lambda>(ok, op').
    if \<not> ok then Inl AssertFailed else execute (set_corid cor_id op')))"

section \<open>The reply station\<close>

record reply_entry =
  pending_replies :: nat
  re_buf :: "u8 list"
  re_cur :: nat

definition ReplyEntry_new :: "u8 list \<Rightarrow> reply_entry" where
  "ReplyEntry_new buf = \<lparr>pending_replies = 1, re_buf = buf, re_cur = 0\<rparr>"

type_synonym reply_station = "reply_entry list"

definition ReplyStation_new :: "reply_entry \<Rightarrow> nat \<Rightarrow> reply_station" where
  "ReplyStation_new junk num_cors = replicate num_cors (junk\<lparr>pending_replies := 0\<rparr>)"

definition add_pending_reply :: "nat \<Rightarrow> reply_entry \<Rightarrow> reply_station \<Rightarrow> (bool \<times> reply_station) res" where
  "add_pending_reply cor_id reply s =
    (if \<not> cor_id < length s then Inl AssertFailed
     else if pending_replies (s ! cor_id) > 0 then Inr (False, s)
     else Inr (True, s[cor_id := reply]))"

definition cor_ready :: "nat \<Rightarrow> reply_station \<Rightarrow> bool res" where
  "cor_ready cor_id s = rbind (aget s cor_id) (\<lambda>r. Inr (pending_replies r = 0))"

definition append_reply :: "nat \<Rightarrow> u8 list \<Rightarrow> reply_station \<Rightarrow> (bool \<times> reply_station) res" where
  "append_reply cor_id payload s =
    rbind (cor_ready cor_id s) (\<lambda>ready.
    if ready then Inr (False, s)
    else rbind (aget s cor_id) (\<lambda>r.
      if \<not> re_cur r + length payload \<le> length (re_buf r) then Inl AssertFailed
      else rbind (write_at (re_buf r) (re_cur r) payload) (\<lambda>b.
        Inr (True, s[cor_id := r\<lparr>re_buf := b, re_cur := re_cur r + length payload,
                                pending_replies := pending_replies r - 1\<rparr>]))))"

section \<open>Dispatch\<close>

text \<open>
  A callback gets the header and the payload, changes the application's state and sends one message
  on the reply channel. \<open>rc_sessions\<close> are the sessions that have connected.
\<close>

type_synonym 's rpc_callback = "'s \<Rightarrow> header \<Rightarrow> u8 list \<Rightarrow> ('s \<times> u8 list) res"

record 's rpc_core =
  rc_station :: reply_station
  rc_sessions :: "u32 list"
  rc_app :: 's
  rc_sent :: "(u32 \<times> u8 list) list"
  rc_runnable :: "nat list"

definition parse_msg :: "u8 list \<Rightarrow> (header \<times> u8 list) res" where
  "parse_msg msg =
    (if \<not> sizeof_Header \<le> length msg then Inl AssertFailed
     else let h = header_of_word (ucast (le_word (take 4 msg)))
     in if \<not> unat (h_payload h) + sizeof_Header \<le> length msg then Inl AssertFailed
        else Inr (h, take (unat (h_payload h)) (drop sizeof_Header msg)))"

definition handle_req :: "'s rpc_callback list \<Rightarrow> u32 \<Rightarrow> header \<Rightarrow> u8 list \<Rightarrow> 's rpc_core \<Rightarrow> 's rpc_core res" where
  "handle_req callbacks session_id h payload c =
    (if \<not> unat (h_rpc_id h) < length callbacks then Inl AssertFailed
     else rbind ((callbacks ! unat (h_rpc_id h)) (rc_app c) h payload) (\<lambda>(app, reply).
       if session_id \<notin> set (rc_sessions c) then Inl NullDeref
       else Inr (c\<lparr>rc_app := app, rc_sent := rc_sent c @ [(session_id, reply)]\<rparr>)))"

text \<open>The body of \<open>recv_event_loop\<close>; \<open>poll\<close> distinguishes \<open>reg_poll_future\<close>, which also wakes the coroutine.\<close>

definition recv_msg :: "bool \<Rightarrow> 's rpc_callback list \<Rightarrow> u32 \<times> u8 list \<Rightarrow> 's rpc_core \<Rightarrow> 's rpc_core res" where
  "recv_msg poll callbacks sm c =
    (let (session_id, msg) = sm in
     rbind (parse_msg msg) (\<lambda>(h, payload).
     if h_type h = msg_code Req then handle_req callbacks session_id h payload c
     else if h_type h = msg_code Reply then
       rbind (append_reply (unat (h_cor_id h)) payload (rc_station c)) (\<lambda>(ok, st).
       if \<not> ok then Inl AssertFailed
       else rbind (cor_ready (unat (h_cor_id h)) st) (\<lambda>ready.
         Inr (c\<lparr>rc_station := st,
               rc_runnable := rc_runnable c @ (if poll \<and> ready then [unat (h_cor_id h)] else [])\<rparr>)))
     else if h_type h = msg_code Connect then
       Inr (c\<lparr>rc_sessions := session_id # rc_sessions c\<rparr>)
     else Inl AssertFailed))"

definition recv_event_loop :: "'s rpc_callback list \<Rightarrow> (u32 \<times> u8 list) list \<Rightarrow> 's rpc_core \<Rightarrow> (nat \<times> 's rpc_core) res" where
  "recv_event_loop callbacks msgs c =
    rbind (rfold (recv_msg False callbacks) msgs c) (\<lambda>c'. Inr (length msgs, c'))"

definition poll_future :: "'s rpc_callback list \<Rightarrow> (u32 \<times> u8 list) list \<Rightarrow> 's rpc_core \<Rightarrow> 's rpc_core res" where
  "poll_future callbacks msgs c = rfold (recv_msg True callbacks) msgs c"

section \<open>Lemmas\<close>

lemma length_le_bytes [simp]: "length (le_bytes n w) = n"
  by (induction n arbitrary: w) auto

lemma le_word_le_bytes: "le_word (le_bytes n w) = take_bit (8 * n) w"
proof (induction n arbitrary: w)
  case (Suc n)
  show ?case
  proof (rule bit_word_eqI)
    fix j assume j: "j < LENGTH(64)"
    show "bit (le_word (le_bytes (Suc n) w)) j = bit (take_bit (8 * Suc n) w) j"
      using j by (cases "j < 8") (auto simp: Suc.IH bit_simps dest: bit_imp_le_length)
  qed
qed simp

lemma le_word_8 [simp]: "le_word (le_bytes 8 w) = w"
  by (simp only: le_word_le_bytes) (simp add: take_bit_length_eq [where 'a = 64, simplified])

lemma le_word_4 [simp]: "ucast (le_word (le_bytes 4 (ucast (w :: u32)))) = w"
proof -
  have "le_word (le_bytes 4 (ucast w)) = ucast w"
    unfolding le_word_le_bytes by (rule bit_word_eqI) (auto simp: bit_simps dest: bit_imp_le_length)
  moreover have "ucast (ucast w :: u64) = w" by (rule bit_word_eqI) (simp add: bit_simps)
  ultimately show ?thesis by simp
qed

lemma write_at_ok: "off + length bs \<le> length buf \<Longrightarrow>
  write_at buf off bs = Inr (take off buf @ bs @ drop (off + length bs) buf)"
  by (simp add: write_at_def)

text \<open>Consecutive eight-byte values are found at their offsets.\<close>

lemma interpret_as_u64_append:
  "interpret_as_u64 (pre @ le_bytes 8 w @ post) (length pre) = Inr w"
  by (simp add: interpret_as_u64_def read_at_def)

lemma interpret_args:
  "interpret_as_u64 (le_bytes 8 a @ rest) 0 = Inr a"
  "interpret_as_u64 (le_bytes 8 a @ le_bytes 8 b @ rest) 8 = Inr b"
  "interpret_as_u64 (le_bytes 8 a @ le_bytes 8 b @ le_bytes 8 c) 16 = Inr c"
  using interpret_as_u64_append [of "[]" a rest] interpret_as_u64_append [of "le_bytes 8 a" b rest]
    interpret_as_u64_append [of "le_bytes 8 a @ le_bytes 8 b" c "[]"]
  by simp_all

lemma header_roundtrip:
  assumes "header_wf h"
  shows "header_of_word (header_word h) = h"
proof -
  have w: "bit (h_type h) n \<Longrightarrow> n < 2" "bit (h_rpc_id h) n \<Longrightarrow> n < 5"
    "bit (h_payload h) n \<Longrightarrow> n < 18" "bit (h_cor_id h) n \<Longrightarrow> n < 7" for n
    using assms unfolding header_wf_def by (metis bit_take_bit_iff)+
  have "take_bit 2 (header_word h) = h_type h"
    by (rule bit_word_eqI) (auto simp: header_word_def bit_simps dest: w)
  moreover have "take_bit 5 (drop_bit 2 (header_word h)) = h_rpc_id h"
    by (rule bit_word_eqI) (auto simp: header_word_def bit_simps dest: w)
  moreover have "take_bit 18 (drop_bit 7 (header_word h)) = h_payload h"
    by (rule bit_word_eqI) (auto simp: header_word_def bit_simps dest: w)
  moreover have "drop_bit 25 (header_word h) = h_cor_id h"
    by (rule bit_word_eqI) (auto simp: header_word_def bit_simps dest: w)
  ultimately show ?thesis by (simp add: header_of_word_def)
qed

lemma take_bit_msg_code [simp]: "take_bit 2 (msg_code t) = msg_code t"
  by (cases t) (simp_all add: msg_code_def take_bit_eq_mod)

text \<open>What \<open>execute\<close> hands to the transport is parsed back to the header fields and the exact payload.\<close>

lemma execute_parse:
  assumes "header_wf (op_header op)" and "op_msg op = pre @ payload @ post"
    and "length pre = 8" and "op_cur op = 8 + length payload" and "length payload < 2 ^ 18"
  shows "\<exists>bytes. execute op = Inr bytes \<and>
    parse_msg bytes = Inr ((op_header op)\<lparr>h_payload := of_nat (length payload)\<rparr>, payload)"
proof -
  define h where "h = (op_header op)\<lparr>h_payload := of_nat (length payload)\<rparr>"
  have n: "unat (of_nat (length payload) :: u32) = length payload"
    using assms(5) by (simp add: unsigned_of_nat take_bit_nat_eq_self)
  have t: "take_bit 18 (of_nat (length payload) :: u32) = of_nat (length payload)"
    using assms(5) by (simp add: word_unat_eq_iff unsigned_take_bit_eq n take_bit_nat_eq_self)
  have wf: "header_wf h" using assms(1) t by (simp add: h_def header_wf_def)
  let ?hb = "le_bytes 4 (ucast (header_word h))"
  have ex: "execute op = Inr (?hb @ drop 4 pre @ payload)"
    using assms(2,3,4) n t
    by (simp add: execute_def finalize_def op_bytes_def write_at_def sizeof_Header_def h_def Let_def)
  have "take 4 (?hb @ drop 4 pre @ payload) = ?hb" by simp
  then have "parse_msg (?hb @ drop 4 pre @ payload) = Inr (h, payload)"
    using header_roundtrip [OF wf] assms(3) n
    by (simp add: parse_msg_def sizeof_Header_def Let_def h_def del: le_bytes.simps)
  with ex show ?thesis by (simp add: h_def)
qed

lemma build_request_parse:
  assumes "header_wf (op_header junk)" and "length data + 8 \<le> length send_buf" and "length data < 2 ^ 18"
  shows "\<exists>bytes. build_request junk send_buf rpc_id cor_id data = Inr bytes \<and>
    parse_msg bytes = Inr (\<lparr>h_type = msg_code Req, h_rpc_id = take_bit 5 rpc_id,
      h_payload = of_nat (length data), h_cor_id = take_bit 7 cor_id\<rparr>, data)"
proof -
  let ?op = "\<lparr>op_header = \<lparr>h_type = msg_code Req, h_rpc_id = take_bit 5 rpc_id,
      h_payload = h_payload (op_header junk), h_cor_id = take_bit 7 cor_id\<rparr>,
      op_msg = take 8 send_buf @ data @ drop (8 + length data) send_buf,
      op_msg_sz = length send_buf, op_cur = 8 + length data\<rparr>"
  have "build_request junk send_buf rpc_id cor_id data = execute (?op\<lparr>op_msg_sz := length send_buf\<rparr>)"
    using assms(2)
    by (simp add: build_request_def set_msg_def sizeof_Header_def add_opaque_def write_at_def
        set_corid_def set_rpc_id_def set_type_def) (cases junk; cases "op_header junk"; simp)
  moreover have "header_wf (op_header ?op)" using assms(1) by (simp add: header_wf_def)
  ultimately show ?thesis
    using execute_parse [of ?op "take 8 send_buf" data] assms(2,3) by simp
qed

lemma build_reply_parse:
  assumes "header_wf (op_header junk)" and "length arg + 8 \<le> length reply_buf" and "length arg < 2 ^ 18"
  shows "\<exists>bytes h. build_reply junk reply_buf cor_id arg = Inr bytes \<and>
    parse_msg bytes = Inr (h, arg) \<and> h_type h = msg_code Reply \<and> h_cor_id h = take_bit 7 cor_id"
proof -
  let ?op = "\<lparr>op_header = (op_header junk)\<lparr>h_type := msg_code Reply, h_cor_id := take_bit 7 cor_id\<rparr>,
      op_msg = take 8 reply_buf @ arg @ drop (8 + length arg) reply_buf,
      op_msg_sz = length reply_buf, op_cur = 8 + length arg\<rparr>"
  have "build_reply junk reply_buf cor_id arg = execute ?op"
    using assms(2)
    by (simp add: build_reply_def set_msg_def sizeof_Header_def add_arg_def write_at_def
        set_corid_def set_type_def) (cases junk; cases "op_header junk"; simp)
  moreover have "header_wf (op_header ?op)" using assms(1) by (simp add: header_wf_def)
  ultimately show ?thesis
    using execute_parse [of ?op "take 8 reply_buf" arg] assms(2,3) by auto
qed

text \<open>A reply to a waiting coroutine is copied to its buffer, and a second one is refused.\<close>

lemma append_reply_pending:
  assumes "cor < length s" "pending_replies (s ! cor) = 1" "re_cur (s ! cor) = 0"
    and "length payload \<le> length (re_buf (s ! cor))"
  shows "\<exists>s'. append_reply cor payload s = Inr (True, s') \<and> cor_ready cor s' = Inr True \<and>
    take (length payload) (re_buf (s' ! cor)) = payload \<and> append_reply cor payload' s' = Inr (False, s') \<and>
    (\<forall>i. i \<noteq> cor \<longrightarrow> s' ! i = s ! i) \<and> length s' = length s"
  using assms by (simp add: append_reply_def cor_ready_def write_at_def)

text \<open>
  (C29) A request survives the wire: what a client builds in a send buffer with room for it is parsed by
  the dispatch loop back to a request header with the same callback number and coroutine (cut to the
  5 and 7 bits of their fields) and exactly the payload; a reply likewise.
\<close>
theorem rpc_roundtrip:
  assumes "header_wf (op_header junk)" and "length data + 8 \<le> length buf" and "length data < 2 ^ 18"
  shows "\<exists>bytes bytes' h. build_request junk buf rpc_id cor_id data = Inr bytes \<and>
    parse_msg bytes = Inr (\<lparr>h_type = msg_code Req, h_rpc_id = take_bit 5 rpc_id,
      h_payload = of_nat (length data), h_cor_id = take_bit 7 cor_id\<rparr>, data) \<and>
    build_reply junk buf cor_id data = Inr bytes' \<and> parse_msg bytes' = Inr (h, data) \<and>
    h_type h = msg_code Reply \<and> h_cor_id h = take_bit 7 cor_id"
  using build_request_parse [OF assms, of rpc_id cor_id] build_reply_parse [OF assms, of cor_id] by blast

theorem rpc_roundtrip_witness:
  "\<exists>bytes h. build_request \<lparr>op_header = \<lparr>h_type = 0, h_rpc_id = 0, h_payload = 0, h_cor_id = 0\<rparr>, op_msg = [], op_msg_sz = 0, op_cur = 0\<rparr>
     (replicate 64 0) 3 2 [1, 2, 3] = Inr bytes \<and> parse_msg bytes = Inr (h, [1, 2, 3])"
  using rpc_roundtrip [of "\<lparr>op_header = \<lparr>h_type = 0, h_rpc_id = 0, h_payload = 0, h_cor_id = 0\<rparr>, op_msg = [], op_msg_sz = 0, op_cur = 0\<rparr>"
      "[1, 2, 3]" "replicate 64 0" 3 2] by (auto simp: header_wf_def)

end
