(* ===== verification/Slot_Seed.thy ===== *)
theory Slot_Seed
  imports Hash_Util
begin

text \<open>
  The search for a seed that sends the keys of a row to pairwise different slots. The same loop stands in
  \<open>outback_put_callback\<close> of \<open>outback/outback_server.hh\<close>, where a full row is rewritten, and in \<open>updateSeed\<close>
  of the Ludo control plane (\<open>deps/ludo/ludo_cp_dp.h\<close>).
\<close>

section \<open>Definitions\<close>

text \<open>The inner loop of the seed search: do the keys go to pairwise different slots?\<close>

fun try_seed :: "u8 \<Rightarrow> u64 list \<Rightarrow> bool list \<Rightarrow> bool" where
  "try_seed seed [] occupied = True"
| "try_seed seed (k # ks) occupied =
    (let i = unat (slot_of seed k) in
     if occupied ! i then False else try_seed seed ks (occupied[i := True]))"

lemma u8_succ: "unat (x :: u8) < 255 \<Longrightarrow> unat (x + 1) = Suc (unat x)"
  using unat_succ_lt [of x 255] by simp

text \<open>The outer loop: the first seed below 255 that separates the keys.\<close>

function find_seed_from :: "u8 \<Rightarrow> u64 list \<Rightarrow> u8 option" where
  "find_seed_from seed keys =
    (if seed < 255
     then if try_seed seed keys [False, False, False, False] then Some seed else find_seed_from (seed + 1) keys
     else None)"
  by pat_completeness auto
termination
  by (relation "measure (\<lambda>(seed, keys). 255 - unat seed)") (auto simp: word_less_nat_alt u8_succ)

declare find_seed_from.simps [simp del]

definition find_seed :: "u64 list \<Rightarrow> u8 option" where
  "find_seed keys = find_seed_from 0 keys"

section \<open>What the search finds\<close>

lemma try_seed_iff:
  "length occupied = 4 \<Longrightarrow>
   try_seed seed ks occupied \<longleftrightarrow>
     distinct (map (\<lambda>k. unat (slot_of seed k)) ks) \<and> (\<forall>k\<in>set ks. \<not> occupied ! unat (slot_of seed k))"
proof (induction ks arbitrary: occupied)
  case (Cons k ks)
  let ?i = "unat (slot_of seed k)"
  have "occupied[?i := True] ! unat (slot_of seed k') \<longleftrightarrow> unat (slot_of seed k') = ?i \<or> occupied ! unat (slot_of seed k')" for k'
    using Cons.prems by (simp add: nth_list_update)
  then show ?case using Cons.IH [of "occupied[?i := True]"] Cons.prems
    by (simp add: Let_def image_iff) metis
qed simp

text \<open>The search returns a seed that separates the keys, and fails only when none below 255 does.\<close>

lemma try_seed_distinct:
  "try_seed seed ks [False, False, False, False] \<longleftrightarrow> distinct (map (\<lambda>k. unat (slot_of seed k)) ks)"
proof -
  have "\<not> [False, False, False, False] ! unat (slot_of seed k)" for k
    using slot_of_lt4 [of seed k] by (auto simp: numeral_eq_Suc less_Suc_eq nth_Cons split: nat.splits)
  then show ?thesis using try_seed_iff [of "[False, False, False, False]" seed ks] by simp
qed

lemma find_seed_from_Some: "find_seed_from sd keys = Some seed \<Longrightarrow> try_seed seed keys [False, False, False, False]"
proof (induction sd keys rule: find_seed_from.induct)
  case (1 sd keys)
  then show ?case by (simp add: find_seed_from.simps [of sd] split: if_splits)
qed

lemma find_seed_from_None:
  "find_seed_from sd keys = None \<Longrightarrow> unat sd \<le> unat n \<Longrightarrow> n < 255 \<Longrightarrow>
   \<not> try_seed n keys [False, False, False, False]"
proof (induction sd keys rule: find_seed_from.induct)
  case (1 sd keys)
  have lt: "sd < 255" using 1(3,4) by (auto simp: word_less_nat_alt)
  have no: "\<not> try_seed sd keys [False, False, False, False]" and rest: "find_seed_from (sd + 1) keys = None"
    using 1(2) lt by (simp_all add: find_seed_from.simps [of sd] split: if_splits)
  show ?case
  proof (cases "n = sd")
    case False
    then have "unat (sd + 1) \<le> unat n"
      using 1(3) lt by (simp add: word_less_nat_alt u8_succ word_unat_eq_iff)
    then show ?thesis using 1(1) [OF lt no rest _ 1(4)] by blast
  qed (use no in simp)
qed

lemma find_seed_Some:
  "find_seed keys = Some seed \<Longrightarrow> distinct (map (\<lambda>k. unat (slot_of seed k)) keys)"
  unfolding find_seed_def by (drule find_seed_from_Some) (simp only: try_seed_distinct)

lemma find_seed_None:
  "find_seed keys = None \<Longrightarrow> n < 255 \<Longrightarrow> \<not> distinct (map (\<lambda>k. unat (slot_of n k)) keys)"
  using find_seed_from_None [of 0 keys n] by (simp add: find_seed_def try_seed_distinct)

text \<open>A key that occurs twice is separated by no seed.\<close>

lemma find_seed_duplicate: "\<not> distinct keys \<Longrightarrow> find_seed keys = None"
proof (rule ccontr)
  assume nd: "\<not> distinct keys" and "find_seed keys \<noteq> None"
  then obtain seed where "find_seed keys = Some seed" by blast
  then have "distinct (map (\<lambda>k. unat (slot_of seed k)) keys)" by (rule find_seed_Some)
  with nd show False by (simp add: distinct_map)
qed

end
