(* ===== verification/Outback_Server.thy ===== *)
theory Outback_Server
  imports Ludo_DP Lru_Cache Rpc Slot_Seed
begin

text \<open>
  The memory node's RPC handlers of \<open>outback/outback_server.hh\<close>. The four globals (lookup unit, bucket
  array, record store, overflow cache) are one record; a handler takes the request's bytes and
  returns the new state and the bytes of its reply. A handler holds the mutex of its row throughout,
  so it is one step here.

  The specification is a map from a row and a key to a value: what a client that knows the row's
  current seed finds. Shown: the invariant that every occupied slot holds a record whose key hashes
  to that slot, that records are not shared, is kept by every handler; a PUT either stores the pair
  in the map and changes nothing else, or leaves the map alone and stores it in the overflow cache
  only; reseeding a row moves every key of the row to the slot the new seed gives it; UPDATE and
  REMOVE act on the one key; a GET returns what the map holds.
\<close>

section \<open>Definitions\<close>

record server =
  sv_lookup :: ludo_dp
  sv_buckets :: ludo_buckets
  sv_data :: packed_data
  sv_cache :: "(u64, u64) cache"
  sv_mutexes :: nat

record reply_value =
  rv_status :: bool
  rv_val :: u64

text \<open>\<open>ReplyValue\<close> is packed: one byte and eight.\<close>

definition reply_bytes :: "reply_value \<Rightarrow> u8 list" where
  "reply_bytes r = (if rv_status r then 1 else 0) # le_bytes 8 (rv_val r)"

definition reply_of_bytes :: "u8 list \<Rightarrow> reply_value res" where
  "reply_of_bytes bs =
    rbind (aget bs 0) (\<lambda>b. rbind (interpret_as_u64 bs 1) (\<lambda>v. Inr \<lparr>rv_status = (b \<noteq> 0), rv_val = v\<rparr>))"

definition row_of :: "u64 \<Rightarrow> u64" where
  "row_of loc = loc div 4"

definition slot_in_row :: "u64 \<Rightarrow> u8" where
  "slot_in_row loc = ucast (loc mod 4)"

text \<open>\<open>rawArray[addr].data\<close>\<close>

definition raw_data :: "packed_data \<Rightarrow> u64 \<Rightarrow> u64 res" where
  "raw_data pd addr = rbind (aget (rawArray pd) (unat addr)) (\<lambda>r. Inr (ps_data r))"

definition do_get :: "server \<Rightarrow> u64 \<Rightarrow> reply_value res" where
  "do_get sv loc =
    rbind (read_addr (sv_buckets sv) (row_of loc) (slot_in_row loc)) (\<lambda>addr.
    rbind (raw_data (sv_data sv) addr) (\<lambda>dummy_value.
    Inr \<lparr>rv_status = True, rv_val = dummy_value\<rparr>))"

text \<open>\<open>mutexArray[row]\<close> and \<open>buckets[row].seed\<close>\<close>

definition lock_row :: "server \<Rightarrow> u64 \<Rightarrow> unit res" where
  "lock_row sv row = (if unat row < sv_mutexes sv then Inr () else Inl OutOfBounds)"

definition row_seed :: "server \<Rightarrow> u64 \<Rightarrow> u8 res" where
  "row_seed sv row = aget (ld_seeds (sv_lookup sv)) (unat row)"

text \<open>Case 2: collect the row's keys, append the record, find a seed, and rewrite the row.\<close>

definition reseed_row :: "server \<Rightarrow> u64 \<Rightarrow> u64 \<Rightarrow> u64 \<Rightarrow> (u8 \<times> server) res" where
  "reseed_row sv row key val =
    rbind (read_bucket_addrs (sv_buckets sv) row) (\<lambda>bucket_addrs.
    rbind (read_batch_keys (sv_data sv) bucket_addrs) (\<lambda>bucket_keys.
    rbind (bulk_load_data (sv_data sv) key 8 val) (\<lambda>(addr, pd).
    let bucket_keys = bucket_keys @ [key];
        bucket_addrs = bucket_addrs @ [combine (fingerprint key) 64 (ucast addr)]
    in if \<not> length bucket_keys \<le> 4 then Inl AssertFailed
       else case find_seed bucket_keys of
         None \<Rightarrow> Inl ExitProcess
       | Some seed \<Rightarrow>
           rbind (updateSeed (sv_lookup sv) row seed) (\<lambda>lookup.
           rbind (empty_bucket (sv_buckets sv) row) (\<lambda>lb.
           rbind (rfold (\<lambda>(k, w) lb. write_cell lb row (slot_of seed k) w) (zip bucket_keys bucket_addrs) lb)
             (\<lambda>lb'. Inr (seed, sv\<lparr>sv_lookup := lookup, sv_buckets := lb', sv_data := pd\<rparr>)))))))"

definition cache_put :: "server \<Rightarrow> u64 \<Rightarrow> u64 \<Rightarrow> server res" where
  "cache_put sv key val =
    rbind (cache_insert key val (sv_cache sv)) (\<lambda>c. Inr (sv\<lparr>sv_cache := c\<rparr>))"

definition append_record :: "server \<Rightarrow> u64 \<Rightarrow> u64 \<Rightarrow> (u32 \<times> server) res" where
  "append_record sv key val =
    rbind (bulk_load_data (sv_data sv) key 8 val) (\<lambda>(addr, pd). Inr (addr, sv\<lparr>sv_data := pd\<rparr>))"

text \<open>The switch of \<open>outback_put_callback\<close>.\<close>

definition do_put :: "server \<Rightarrow> u64 \<Rightarrow> u64 \<Rightarrow> u64 \<Rightarrow> (reply_value \<times> server) res" where
  "do_put sv loc key val =
    (let row = row_of loc in
     rbind (lock_row sv row) (\<lambda>_.
     rbind (row_seed sv row) (\<lambda>seed.
     let slot = slot_of seed key in
     rbind (check_slots (sv_buckets sv) key row slot) (\<lambda>status.
     if status = 0 then
       rbind (append_record sv key val) (\<lambda>(addr, sv1).
       rbind (write_addr (sv_buckets sv1) key row slot (ucast addr) 64) (\<lambda>lb.
       Inr (\<lparr>rv_status = True, rv_val = 0\<rparr>, sv1\<lparr>sv_buckets := lb\<rparr>)))
     else if status = 1 then
       rbind (read_addr (sv_buckets sv) row slot) (\<lambda>addr.
       rbind (read_key (sv_data sv) addr) (\<lambda>key'.
       if key' = key then
         rbind (update_data (sv_data sv) addr key 64 val) (\<lambda>(_, pd).
         Inr (\<lparr>rv_status = True, rv_val = 1\<rparr>, sv\<lparr>sv_data := pd\<rparr>))
       else
         rbind (cache_put sv key val) (\<lambda>sv1.
         rbind (append_record sv1 key val) (\<lambda>(_, sv2).
         Inr (\<lparr>rv_status = True, rv_val = 1\<rparr>, sv2)))))
     else if status = 2 then
       rbind (reseed_row sv row key val) (\<lambda>(seed, sv1).
       Inr (\<lparr>rv_status = True, rv_val = push_bit 8 1 + ucast seed\<rparr>, sv1))
     else if status = 3 then
       rbind (cache_put sv key val) (\<lambda>sv1.
       rbind (append_record sv1 key val) (\<lambda>(_, sv2).
       rbind (set_cachebit (sv_buckets sv2) row (slot_in_row loc)) (\<lambda>lb.
       Inr (\<lparr>rv_status = True, rv_val = 3\<rparr>, sv2\<lparr>sv_buckets := lb\<rparr>))))
     else Inl ExitProcess))))"

definition do_update :: "server \<Rightarrow> u64 \<Rightarrow> u64 \<Rightarrow> u64 \<Rightarrow> (reply_value \<times> server) res" where
  "do_update sv loc key val =
    (let row = row_of loc in
     rbind (lock_row sv row) (\<lambda>_.
     rbind (read_addr (sv_buckets sv) row (slot_in_row loc)) (\<lambda>addr.
     rbind (read_key (sv_data sv) addr) (\<lambda>key'.
     if key' = key then
       rbind (update_data (sv_data sv) addr key 64 val) (\<lambda>(_, pd).
       Inr (\<lparr>rv_status = True, rv_val = 1\<rparr>, sv\<lparr>sv_data := pd\<rparr>))
     else
       rbind (cache_put sv key val) (\<lambda>sv1.
       rbind (append_record sv1 key val) (\<lambda>(_, sv2).
       Inr (\<lparr>rv_status = True, rv_val = 2\<rparr>, sv2)))))))"

definition do_remove :: "server \<Rightarrow> u64 \<Rightarrow> u64 \<Rightarrow> (reply_value \<times> server) res" where
  "do_remove sv loc key =
    (let row = row_of loc in
     rbind (lock_row sv row) (\<lambda>_.
     rbind (read_addr (sv_buckets sv) row (slot_in_row loc)) (\<lambda>addr.
     rbind (remove_data_with_key_check (sv_data sv) addr key) (\<lambda>(found, pd).
     rbind (if found then remove_addr (sv_buckets sv) row (slot_in_row loc) else Inr (sv_buckets sv)) (\<lambda>lb.
     Inr (\<lparr>rv_status = True, rv_val = 0\<rparr>, sv\<lparr>sv_data := pd, sv_buckets := lb\<rparr>))))))"

subsection \<open>The callbacks\<close>

text \<open>
  A callback checks the size of its arguments, reads them, and answers in a 64-byte buffer. \<open>junk\<close> is
  what the stack held there: the operation's uninitialised header and the buffer.
\<close>

type_synonym stack_junk = "rpc_op \<times> u8 list"

definition answer :: "stack_junk \<Rightarrow> header \<Rightarrow> reply_value \<Rightarrow> u8 list res" where
  "answer junk h reply = build_reply (fst junk) (snd junk) (h_cor_id h) (reply_bytes reply)"

definition outback_get_callback :: "stack_junk \<Rightarrow> server rpc_callback" where
  "outback_get_callback junk sv h args =
    (if length args \<noteq> 16 then Inl AssertFailed
     else rbind (interpret_as_u64 args 0) (\<lambda>loc.
          rbind (do_get sv loc) (\<lambda>reply.
          rbind (answer junk h reply) (\<lambda>m. Inr (sv, m)))))"

definition outback_put_callback :: "stack_junk \<Rightarrow> server rpc_callback" where
  "outback_put_callback junk sv h args =
    (if length args \<noteq> 24 then Inl AssertFailed
     else rbind (interpret_as_u64 args 0) (\<lambda>loc.
          rbind (interpret_as_u64 args 8) (\<lambda>key.
          rbind (interpret_as_u64 args 16) (\<lambda>val.
          rbind (do_put sv loc key val) (\<lambda>(reply, sv').
          rbind (answer junk h reply) (\<lambda>m. Inr (sv', m)))))))"

definition outback_update_callback :: "stack_junk \<Rightarrow> server rpc_callback" where
  "outback_update_callback junk sv h args =
    (if length args \<noteq> 24 then Inl AssertFailed
     else rbind (interpret_as_u64 args 0) (\<lambda>loc.
          rbind (interpret_as_u64 args 8) (\<lambda>key.
          rbind (interpret_as_u64 args 16) (\<lambda>val.
          rbind (do_update sv loc key val) (\<lambda>(reply, sv').
          rbind (answer junk h reply) (\<lambda>m. Inr (sv', m)))))))"

definition outback_remove_callback :: "stack_junk \<Rightarrow> server rpc_callback" where
  "outback_remove_callback junk sv h args =
    (if length args \<noteq> 16 then Inl AssertFailed
     else rbind (interpret_as_u64 args 0) (\<lambda>loc.
          rbind (interpret_as_u64 args 8) (\<lambda>key.
          rbind (do_remove sv loc key) (\<lambda>(reply, sv').
          rbind (answer junk h reply) (\<lambda>m. Inr (sv', m))))))"

text \<open>\<open>outback_scan_callback\<close> sends an uninitialised reply.\<close>

definition outback_scan_callback :: "stack_junk \<Rightarrow> reply_value \<Rightarrow> server rpc_callback" where
  "outback_scan_callback junk reply sv h args =
    (if length args \<noteq> 16 then Inl AssertFailed
     else rbind (interpret_as_u64 args 0) (\<lambda>key.
          rbind (interpret_as_u64 args 8) (\<lambda>n.
          rbind (answer junk h reply) (\<lambda>m. Inr (sv, m)))))"

datatype rpc_id = GET | PUT | UPDATE | DELETE | SCAN

definition rpc_code :: "rpc_id \<Rightarrow> u32" where
  "rpc_code i = (case i of GET \<Rightarrow> 0 | PUT \<Rightarrow> 1 | UPDATE \<Rightarrow> 2 | DELETE \<Rightarrow> 3 | SCAN \<Rightarrow> 4)"

text \<open>The order in which \<open>server.cc\<close> registers the callbacks.\<close>

definition server_callbacks :: "stack_junk \<Rightarrow> reply_value \<Rightarrow> server rpc_callback list" where
  "server_callbacks junk scan_junk =
    [outback_get_callback junk, outback_put_callback junk, outback_update_callback junk,
     outback_remove_callback junk, outback_scan_callback junk scan_junk]"

section \<open>The index as a map\<close>

text \<open>
  The bucket words \<open>bs\<close>, the seeds and the records are taken apart here, since the NUMA variant keeps
  the same three in other places.
\<close>

abbreviation used_slot :: "ludo_bucket list \<Rightarrow> nat \<Rightarrow> nat \<Rightarrow> bool" where
  "used_slot bs r s \<equiv> toLength (bs ! r ! s) \<noteq> 0"

abbreviation rec_at :: "ludo_bucket list \<Rightarrow> packed_struct list \<Rightarrow> nat \<Rightarrow> nat \<Rightarrow> packed_struct" where
  "rec_at bs arr r s \<equiv> arr ! unat (toAddr (bs ! r ! s))"

definition slots_ok :: "ludo_bucket list \<Rightarrow> u8 list \<Rightarrow> packed_struct list \<Rightarrow> nat \<Rightarrow> bool" where
  "slots_ok bs seeds arr num \<longleftrightarrow>
     length seeds = length bs \<and> (\<forall>r<length bs. length (bs ! r) = 4) \<and>
     (\<forall>r<length bs. \<forall>s<4. used_slot bs r s \<longrightarrow>
        unat (toAddr (bs ! r ! s)) < num \<and> unat (slot_of (seeds ! r) (ps_key (rec_at bs arr r s))) = s) \<and>
     (\<forall>r<length bs. \<forall>s<4. \<forall>r'<length bs. \<forall>s'<4. used_slot bs r s \<longrightarrow> used_slot bs r' s' \<longrightarrow>
        toAddr (bs ! r ! s) = toAddr (bs ! r' ! s') \<longrightarrow> r = r' \<and> s = s')"

definition kv_at :: "ludo_bucket list \<Rightarrow> u8 list \<Rightarrow> packed_struct list \<Rightarrow> nat \<times> u64 \<Rightarrow> u64 option" where
  "kv_at bs seeds arr rk =
    (let (r, k) = rk; s = unat (slot_of (seeds ! r) k) in
     if r < length bs \<and> used_slot bs r s \<and> ps_key (rec_at bs arr r s) = k
     then Some (ps_data (rec_at bs arr r s)) else None)"

lemma slots_okD:
  assumes "slots_ok bs seeds arr num" "r < length bs" "s < 4" "used_slot bs r s"
  shows "unat (toAddr (bs ! r ! s)) < num"
    and "unat (slot_of (seeds ! r) (ps_key (rec_at bs arr r s))) = s"
  using assms by (auto simp: slots_ok_def)

text \<open>A key is found exactly when some slot of the row holds its record.\<close>

lemma kv_at_iff:
  assumes "slots_ok bs seeds arr num" "r < length bs"
  shows "kv_at bs seeds arr (r, k) = Some v \<longleftrightarrow>
    (\<exists>s<4. used_slot bs r s \<and> ps_key (rec_at bs arr r s) = k \<and> ps_data (rec_at bs arr r s) = v)"
    (is "?l \<longleftrightarrow> ?r")
proof
  assume ?l
  then show ?r by (intro exI [of _ "unat (slot_of (seeds ! r) k)"]) (auto simp: kv_at_def Let_def split: if_splits)
next
  assume ?r
  then obtain s where s: "s < 4" "used_slot bs r s" "ps_key (rec_at bs arr r s) = k" "ps_data (rec_at bs arr r s) = v"
    by blast
  then have "unat (slot_of (seeds ! r) k) = s" using assms by (auto simp: slots_ok_def)
  then show ?l using s assms(2) by (simp add: kv_at_def Let_def)
qed

lemma kv_at_out: "\<not> r < length bs \<Longrightarrow> kv_at bs seeds arr (r, k) = None"
  by (simp add: kv_at_def)

text \<open>Two states hold the same map when their rows hold the same pairs.\<close>

lemma kv_at_eqI:
  assumes "slots_ok bs seeds arr num" "slots_ok bs' seeds' arr' num'" "length bs' = length bs"
    and "\<And>r k v. r < length bs \<Longrightarrow>
      (\<exists>s<4. used_slot bs' r s \<and> ps_key (rec_at bs' arr' r s) = k \<and> ps_data (rec_at bs' arr' r s) = v) \<longleftrightarrow>
      (if (r, k) = x then y = Some v
       else \<exists>s<4. used_slot bs r s \<and> ps_key (rec_at bs arr r s) = k \<and> ps_data (rec_at bs arr r s) = v)"
    and "fst x < length bs"
  shows "kv_at bs' seeds' arr' = (kv_at bs seeds arr)(x := y)"
proof
  fix rk :: "nat \<times> u64"
  obtain r k where rk: "rk = (r, k)" by (cases rk)
  show "kv_at bs' seeds' arr' rk = ((kv_at bs seeds arr)(x := y)) rk"
  proof (cases "r < length bs")
    case True
    have "kv_at bs' seeds' arr' (r, k) = Some v \<longleftrightarrow> ((kv_at bs seeds arr)(x := y)) (r, k) = Some v" for v
      using kv_at_iff [OF assms(2), of r k v] kv_at_iff [OF assms(1) True, of k v] assms(4) [OF True, of k v] True assms(3)
      by (cases "(r, k) = x") auto
    then show ?thesis unfolding rk by (metis not_None_eq)
  next
    case False
    then have "rk \<noteq> x" using assms(5) rk by auto
    then show ?thesis using False assms(3) rk by (simp add: kv_at_out)
  qed
qed

text \<open>Appending records changes nothing that is stored.\<close>

lemma slots_ok_append:
  assumes "slots_ok bs seeds arr num" "num \<le> num'" "\<And>i. i < num \<Longrightarrow> arr' ! i = arr ! i"
  shows "slots_ok bs seeds arr' num'" and "kv_at bs seeds arr' = kv_at bs seeds arr"
proof -
  have rec: "rec_at bs arr' r s = rec_at bs arr r s" if "r < length bs" "s < 4" "used_slot bs r s" for r s
    using that assms(1,3) by (auto simp: slots_ok_def)
  show "slots_ok bs seeds arr' num'"
    using assms(1,2) rec unfolding slots_ok_def by (smt (verit, ccfv_threshold) less_le_trans)
  show "kv_at bs seeds arr' = kv_at bs seeds arr"
    using rec by (auto simp: kv_at_def Let_def fun_eq_iff)
qed

text \<open>Storing a fresh record's word in a free slot of the key's own.\<close>

lemma slots_ok_store:
  assumes ok: "slots_ok bs seeds arr num" and r: "r < length bs" and s: "unat (slot_of (seeds ! r) k) = s"
    and free: "\<not> used_slot bs r s" and w: "toLength w \<noteq> 0" "unat (toAddr w) < num"
    and key: "ps_key (arr ! unat (toAddr w)) = k"
    and fresh: "\<And>r' s'. r' < length bs \<Longrightarrow> s' < 4 \<Longrightarrow> used_slot bs r' s' \<Longrightarrow> toAddr (bs ! r' ! s') \<noteq> toAddr w"
  shows "slots_ok (bs[r := (bs ! r)[s := w]]) seeds arr num"
    and "kv_at (bs[r := (bs ! r)[s := w]]) seeds arr = (kv_at bs seeds arr)((r, k) \<mapsto> ps_data (arr ! unat (toAddr w)))"
proof -
  let ?bs = "bs[r := (bs ! r)[s := w]]"
  have s4: "s < 4" using s slot_of_lt4 [of "seeds ! r" k] by simp
  have len: "length (bs ! r) = 4" using ok r by (simp add: slots_ok_def)
  have c: "?bs ! r' ! s' = (if r' = r \<and> s' = s then w else bs ! r' ! s')" if "s' < 4" for r' s'
    using r s4 len that by (auto simp: nth_list_update)
  show ok': "slots_ok ?bs seeds arr num"
    unfolding slots_ok_def
  proof (intro conjI allI impI)
    show "length seeds = length ?bs" using ok by (simp add: slots_ok_def)
    show "length (?bs ! r') = 4" if "r' < length ?bs" for r'
      using ok len that by (cases "r' = r") (simp_all add: slots_ok_def)
    show "unat (toAddr (?bs ! r' ! s')) < num" if "r' < length ?bs" "s' < 4" "used_slot ?bs r' s'" for r' s'
      using ok that w(2) c [OF that(2)] by (auto simp: slots_ok_def split: if_splits)
    show "unat (slot_of (seeds ! r') (ps_key (rec_at ?bs arr r' s'))) = s'"
      if "r' < length ?bs" "s' < 4" "used_slot ?bs r' s'" for r' s'
      using ok that key s c [OF that(2)] by (auto simp: slots_ok_def split: if_splits)
    fix r1 s1 r2 s2
    assume 1: "r1 < length ?bs" "s1 < 4" and 2: "r2 < length ?bs" "s2 < 4"
      and o: "used_slot ?bs r1 s1" "used_slot ?bs r2 s2" and e: "toAddr (?bs ! r1 ! s1) = toAddr (?bs ! r2 ! s2)"
    show "r1 = r2" "s1 = s2"
      using ok 1 2 o e fresh [of r1 s1] fresh [of r2 s2] c [OF 1(2)] c [OF 2(2)]
      by (auto simp: slots_ok_def split: if_splits)
  qed
  have none: "\<not> (\<exists>s'<4. used_slot bs r s' \<and> ps_key (rec_at bs arr r s') = k)"
    using ok r s free by (auto simp: slots_ok_def)
  show "kv_at ?bs seeds arr = (kv_at bs seeds arr)((r, k) \<mapsto> ps_data (arr ! unat (toAddr w)))"
  proof (rule kv_at_eqI [OF ok ok'])
    fix r' k' v assume r': "r' < length bs"
    show "(\<exists>s'<4. used_slot ?bs r' s' \<and> ps_key (rec_at ?bs arr r' s') = k' \<and> ps_data (rec_at ?bs arr r' s') = v) \<longleftrightarrow>
      (if (r', k') = (r, k) then Some (ps_data (arr ! unat (toAddr w))) = Some v
       else \<exists>s'<4. used_slot bs r' s' \<and> ps_key (rec_at bs arr r' s') = k' \<and> ps_data (rec_at bs arr r' s') = v)"
      (is "?l \<longleftrightarrow> ?r")
    proof (cases "(r', k') = (r, k)")
      case True
      then show ?thesis using none s4 w(1) key c by (auto split: if_splits)
    next
      case False
      then show ?thesis using free key c by (auto split: if_splits)
    qed
  qed (use r in simp_all)
qed

text \<open>Overwriting the record of a stored key.\<close>

lemma slots_ok_update:
  assumes ok: "slots_ok bs seeds arr num" and r: "r < length bs" and s: "s < 4" "used_slot bs r s"
    and key: "ps_key (rec_at bs arr r s) = k" "ps_key p = k" and num: "num \<le> length arr"
  shows "slots_ok bs seeds (arr[unat (toAddr (bs ! r ! s)) := p]) num"
    and "kv_at bs seeds (arr[unat (toAddr (bs ! r ! s)) := p]) = (kv_at bs seeds arr)((r, k) \<mapsto> ps_data p)"
proof -
  let ?a = "unat (toAddr (bs ! r ! s))"
  let ?arr = "arr[?a := p]"
  have a: "?a < length arr" using ok r s num by (fastforce simp: slots_ok_def)
  have c: "rec_at bs ?arr r' s' = (if r' = r \<and> s' = s then p else rec_at bs arr r' s')"
    if "r' < length bs" "s' < 4" "used_slot bs r' s'" for r' s'
  proof (cases "r' = r \<and> s' = s")
    case False
    then have "toAddr (bs ! r' ! s') \<noteq> toAddr (bs ! r ! s)"
      using ok that r s unfolding slots_ok_def by blast
    then have "unat (toAddr (bs ! r' ! s')) \<noteq> ?a" by (simp add: word_unat_eq_iff)
    then have "rec_at bs ?arr r' s' = rec_at bs arr r' s'" by simp
    then show ?thesis unfolding if_not_P [OF False] .
  qed (use a in simp)
  show ok': "slots_ok bs seeds ?arr num"
    using ok c key unfolding slots_ok_def by (smt (verit, ccfv_threshold))
  show "kv_at bs seeds ?arr = (kv_at bs seeds arr)((r, k) \<mapsto> ps_data p)"
  proof (rule kv_at_eqI [OF ok ok'])
    fix r' k' v assume r': "r' < length bs"
    have u: "s' = s" if "s' < 4" "used_slot bs r s'" "ps_key (rec_at bs arr r s') = k" for s'
      using ok r s key(1) that unfolding slots_ok_def by metis
    show "(\<exists>s'<4. used_slot bs r' s' \<and> ps_key (rec_at bs ?arr r' s') = k' \<and> ps_data (rec_at bs ?arr r' s') = v) \<longleftrightarrow>
      (if (r', k') = (r, k) then Some (ps_data p) = Some v
       else \<exists>s'<4. used_slot bs r' s' \<and> ps_key (rec_at bs arr r' s') = k' \<and> ps_data (rec_at bs arr r' s') = v)"
    proof (cases "(r', k') = (r, k)")
      case True
      have "ps_data (rec_at bs ?arr r s') = ps_data p"
        if "s' < 4" "used_slot bs r s'" "ps_key (rec_at bs ?arr r s') = k" for s'
        using that c [OF r that(1,2)] u [OF that(1,2)] by (cases "s' = s") auto
      moreover have "ps_key (rec_at bs ?arr r s) = k" "ps_data (rec_at bs ?arr r s) = ps_data p"
        using c [OF r s] key(2) by simp_all
      ultimately show ?thesis using True s by auto
    next
      case False
      then show ?thesis using c [OF r'] key s by (auto split: if_splits)
    qed
  qed (use r in simp_all)
qed

text \<open>Clearing a slot together with its record.\<close>

lemma slots_ok_clear:
  fixes p :: packed_struct
  assumes ok: "slots_ok bs seeds arr num" and r: "r < length bs" and s: "s < 4" "used_slot bs r s"
    and key: "ps_key (rec_at bs arr r s) = k" and num: "num \<le> length arr"
  defines "arr' \<equiv> arr[unat (toAddr (bs ! r ! s)) := p]"
  shows "slots_ok (bs[r := (bs ! r)[s := 0]]) seeds arr' num"
    and "kv_at (bs[r := (bs ! r)[s := 0]]) seeds arr' = (kv_at bs seeds arr)((r, k) := None)"
proof -
  let ?bs = "bs[r := (bs ! r)[s := 0]]"
  have len: "length (bs ! r) = 4" using ok r by (simp add: slots_ok_def)
  have c: "?bs ! r' ! s' = (if r' = r \<and> s' = s then 0 else bs ! r' ! s')" if "s' < 4" for r' s'
    using r s(1) len that by (auto simp: nth_list_update)
  have rec: "rec_at ?bs arr' r' s' = rec_at bs arr r' s'" and used_slot': "used_slot bs r' s'" "\<not> (r' = r \<and> s' = s)"
    if "r' < length bs" "s' < 4" "used_slot ?bs r' s'" for r' s'
  proof -
    show n: "\<not> (r' = r \<and> s' = s)" and o: "used_slot bs r' s'" using that(3) c [OF that(2)] by (auto split: if_splits)
    have "toAddr (bs ! r' ! s') \<noteq> toAddr (bs ! r ! s)" using ok that(1,2) o r s n unfolding slots_ok_def by blast
    then have ne: "unat (toAddr (bs ! r' ! s')) \<noteq> unat (toAddr (bs ! r ! s))" by (simp add: word_unat_eq_iff)
    have w: "?bs ! r' ! s' = bs ! r' ! s'" using n c [OF that(2), of r'] by auto
    show "rec_at ?bs arr' r' s' = rec_at bs arr r' s'" unfolding w arr'_def using ne by simp
  qed
  have occ2: "used_slot ?bs r' s'" if "s' < 4" "used_slot bs r' s'" "\<not> (r' = r \<and> s' = s)" for r' s'
    using that c [OF that(1)] by simp
  show ok': "slots_ok ?bs seeds arr' num"
    unfolding slots_ok_def
  proof (intro conjI allI impI)
    show "length seeds = length ?bs" using ok by (simp add: slots_ok_def)
    show "length (?bs ! r') = 4" if "r' < length ?bs" for r'
      using ok len that by (cases "r' = r") (simp_all add: slots_ok_def)
    show "unat (toAddr (?bs ! r' ! s')) < num" if "r' < length ?bs" "s' < 4" "used_slot ?bs r' s'" for r' s'
      using ok that c [OF that(2)] by (auto simp: slots_ok_def split: if_splits)
    show "unat (slot_of (seeds ! r') (ps_key (rec_at ?bs arr' r' s'))) = s'"
      if "r' < length ?bs" "s' < 4" "used_slot ?bs r' s'" for r' s'
      using ok that rec [of r' s'] used_slot' [of r' s'] by (simp add: slots_ok_def)
    fix r1 s1 r2 s2
    assume 1: "r1 < length ?bs" "s1 < 4" and 2: "r2 < length ?bs" "s2 < 4"
      and o: "used_slot ?bs r1 s1" "used_slot ?bs r2 s2" and e: "toAddr (?bs ! r1 ! s1) = toAddr (?bs ! r2 ! s2)"
    show "r1 = r2" "s1 = s2"
      using ok 1 2 o e c [OF 1(2)] c [OF 2(2)] by (auto simp: slots_ok_def split: if_splits)
  qed
  have u: "s' = s" if "s' < 4" "used_slot bs r s'" "ps_key (rec_at bs arr r s') = k" for s'
    using ok r s key that unfolding slots_ok_def by metis
  show "kv_at ?bs seeds arr' = (kv_at bs seeds arr)((r, k) := None)"
  proof (rule kv_at_eqI [OF ok ok'])
    fix r' k' v assume r': "r' < length bs"
    show "(\<exists>s'<4. used_slot ?bs r' s' \<and> ps_key (rec_at ?bs arr' r' s') = k' \<and> ps_data (rec_at ?bs arr' r' s') = v) \<longleftrightarrow>
      (if (r', k') = (r, k) then None = Some v
       else \<exists>s'<4. used_slot bs r' s' \<and> ps_key (rec_at bs arr r' s') = k' \<and> ps_data (rec_at bs arr r' s') = v)"
    proof (cases "(r', k') = (r, k)")
      case True
      have False if "s' < 4" "used_slot ?bs r s'" "ps_key (rec_at ?bs arr' r s') = k" for s'
        using rec [OF r that(1,2)] used_slot' [OF r that(1,2)] u [of s'] that(1,3) by simp
      then show ?thesis using True by auto
    next
      case False
      have "used_slot ?bs r' s' \<and> ps_key (rec_at ?bs arr' r' s') = k' \<and> ps_data (rec_at ?bs arr' r' s') = v \<longleftrightarrow>
          used_slot bs r' s' \<and> ps_key (rec_at bs arr r' s') = k' \<and> ps_data (rec_at bs arr r' s') = v" if "s' < 4" for s'
      proof (cases "used_slot ?bs r' s'")
        case True
        then show ?thesis using rec [OF r' that True] used_slot' [OF r' that True] by simp
      next
        case no: False
        have "\<not> (used_slot bs r' s' \<and> ps_key (rec_at bs arr r' s') = k')"
          using no occ2 [OF that] False key by blast
        then show ?thesis using no by blast
      qed
      then show ?thesis unfolding if_not_P [OF False] by blast
    qed
  qed (use r in simp_all)
qed

text \<open>Changing bits of the words other than the length and the record number.\<close>

lemma slots_ok_cong:
  assumes "slots_ok bs seeds arr num" "length bs' = length bs" "\<And>r. r < length bs \<Longrightarrow> length (bs' ! r) = 4"
    and "\<And>r s. r < length bs \<Longrightarrow> s < 4 \<Longrightarrow>
      toLength (bs' ! r ! s) = toLength (bs ! r ! s) \<and> toAddr (bs' ! r ! s) = toAddr (bs ! r ! s)"
  shows "slots_ok bs' seeds arr num" and "kv_at bs' seeds arr = kv_at bs seeds arr"
proof -
  show "slots_ok bs' seeds arr num" using assms by (simp add: slots_ok_def)
  show "kv_at bs' seeds arr = kv_at bs seeds arr"
  proof
    fix rk :: "nat \<times> u64"
    obtain r k where rk: "rk = (r, k)" by (cases rk)
    show "kv_at bs' seeds arr rk = kv_at bs seeds arr rk"
    proof (cases "r < length bs")
      case True
      then show ?thesis using assms(2) assms(4) [OF True slot_of_lt4 [of "seeds ! r" k]]
        by (simp add: rk kv_at_def Let_def)
    qed (simp add: rk kv_at_def assms(2))
  qed
qed

text \<open>
  Rewriting a row under a new seed: \<open>ps\<close> lists the keys and words it shall hold, each word at the slot
  the new seed gives its key.
\<close>

lemma slots_ok_reseed:
  assumes ok: "slots_ok bs seeds arr num" and r: "r < length bs" and len: "length b = 4"
    and only: "\<And>s. s < 4 \<Longrightarrow> toLength (b ! s) \<noteq> 0 \<Longrightarrow> \<exists>k. (k, b ! s) \<in> set ps \<and> unat (slot_of seed k) = s"
    and all: "\<And>k w. (k, w) \<in> set ps \<Longrightarrow> b ! unat (slot_of seed k) = w \<and> toLength w \<noteq> 0 \<and>
      unat (toAddr w) < num \<and> ps_key (arr ! unat (toAddr w)) = k"
    and other: "\<And>k w r' s'. (k, w) \<in> set ps \<Longrightarrow> r' < length bs \<Longrightarrow> r' \<noteq> r \<Longrightarrow> s' < 4 \<Longrightarrow> used_slot bs r' s' \<Longrightarrow>
      toAddr (bs ! r' ! s') \<noteq> toAddr w"
  shows "slots_ok (bs[r := b]) (seeds[r := seed]) arr num"
    and "r' \<noteq> r \<Longrightarrow> kv_at (bs[r := b]) (seeds[r := seed]) arr (r', k) = kv_at bs seeds arr (r', k)"
    and "kv_at (bs[r := b]) (seeds[r := seed]) arr (r, k) = Some v \<longleftrightarrow>
      (\<exists>w. (k, w) \<in> set ps \<and> ps_data (arr ! unat (toAddr w)) = v)"
proof -
  let ?bs = "bs[r := b]" and ?sd = "seeds[r := seed]"
  have sl: "length seeds = length bs" using ok by (simp add: slots_ok_def)
  have row: "\<exists>k. (k, b ! s) \<in> set ps \<and> unat (slot_of seed k) = s \<and> unat (toAddr (b ! s)) < num \<and>
      ps_key (arr ! unat (toAddr (b ! s))) = k" if "s < 4" "toLength (b ! s) \<noteq> 0" for s
    using only [OF that] all by blast
  show ok': "slots_ok ?bs ?sd arr num"
    unfolding slots_ok_def
  proof (intro conjI allI impI)
    show "length ?sd = length ?bs" using sl by simp
    show "length (?bs ! r') = 4" if "r' < length ?bs" for r'
      using ok len that by (cases "r' = r") (simp_all add: slots_ok_def)
    show "unat (toAddr (?bs ! r' ! s')) < num" if "r' < length ?bs" "s' < 4" "used_slot ?bs r' s'" for r' s'
      using ok that row [of s'] by (cases "r' = r") (auto simp: slots_ok_def)
    show "unat (slot_of (?sd ! r') (ps_key (rec_at ?bs arr r' s'))) = s'"
      if "r' < length ?bs" "s' < 4" "used_slot ?bs r' s'" for r' s'
      using ok that row [of s'] sl by (cases "r' = r") (auto simp: slots_ok_def)
    fix r1 s1 r2 s2
    assume 1: "r1 < length ?bs" "s1 < 4" and 2: "r2 < length ?bs" "s2 < 4"
      and o: "used_slot ?bs r1 s1" "used_slot ?bs r2 s2" and e: "toAddr (?bs ! r1 ! s1) = toAddr (?bs ! r2 ! s2)"
    show "r1 = r2"
    proof (rule ccontr)
      assume n: "r1 \<noteq> r2"
      then consider "r1 = r" "r2 \<noteq> r" | "r2 = r" "r1 \<noteq> r" | "r1 \<noteq> r" "r2 \<noteq> r" by blast
      then show False
      proof cases
        case 1
        then show False using row [of s1] other [of _ "b ! s1" r2 s2] o e r \<open>s1 < 4\<close> 2 by auto
      next
        case 2
        then show False using row [of s2] other [of _ "b ! s2" r1 s1] o e r \<open>s2 < 4\<close> 1 by auto
      next
        case 3
        then show False using ok o e n 1 2 by (auto simp: slots_ok_def)
      qed
    qed
    show "s1 = s2"
    proof (cases "r1 = r")
      case True
      then have "toLength (b ! s1) \<noteq> 0" "toLength (b ! s2) \<noteq> 0" "toAddr (b ! s1) = toAddr (b ! s2)"
        using o e r \<open>r1 = r2\<close> by simp_all
      then show ?thesis using row [OF 1(2)] row [OF 2(2)] by metis
    next
      case False
      then have "used_slot bs r1 s1" "used_slot bs r1 s2" "toAddr (bs ! r1 ! s1) = toAddr (bs ! r1 ! s2)"
        using o e \<open>r1 = r2\<close> by simp_all
      then show ?thesis using ok 1 2 unfolding slots_ok_def by (metis length_list_update)
    qed
  qed
  show "kv_at ?bs ?sd arr (r', k) = kv_at bs seeds arr (r', k)" if "r' \<noteq> r"
    using that by (simp add: kv_at_def Let_def)
  show "kv_at ?bs ?sd arr (r, k) = Some v \<longleftrightarrow> (\<exists>w. (k, w) \<in> set ps \<and> ps_data (arr ! unat (toAddr w)) = v)"
  proof
    assume "kv_at ?bs ?sd arr (r, k) = Some v"
    then obtain s where s: "s < 4" "toLength (b ! s) \<noteq> 0" "ps_key (arr ! unat (toAddr (b ! s))) = k"
      "ps_data (arr ! unat (toAddr (b ! s))) = v"
      using kv_at_iff [OF ok', of r k v] r by auto
    then show "\<exists>w. (k, w) \<in> set ps \<and> ps_data (arr ! unat (toAddr w)) = v" using row [OF s(1,2)] by metis
  next
    assume "\<exists>w. (k, w) \<in> set ps \<and> ps_data (arr ! unat (toAddr w)) = v"
    then obtain w where w: "(k, w) \<in> set ps" "ps_data (arr ! unat (toAddr w)) = v" by blast
    have "\<exists>s<4. used_slot ?bs r s \<and> ps_key (rec_at ?bs arr r s) = k \<and> ps_data (rec_at ?bs arr r s) = v"
      using all [OF w(1)] w(2) r by (intro exI [of _ "unat (slot_of seed k)"]) simp
    then show "kv_at ?bs ?sd arr (r, k) = Some v" using kv_at_iff [OF ok', of r k v] r by simp
  qed
qed

section \<open>The server's invariant\<close>

text \<open>
  \<open>bulk_load_data\<close> returns a 32-bit record number, so the invariant asks for a store of at most \<open>2 ^ 32\<close>
  records.
\<close>

definition srv_inv :: "server \<Rightarrow> bool" where
  "srv_inv sv \<longleftrightarrow>
     slots_ok (bucketsArray (sv_buckets sv)) (ld_seeds (sv_lookup sv)) (rawArray (sv_data sv)) (unat (pd_num (sv_data sv))) \<and>
     pd_wf (sv_data sv) \<and> unat (numElements (sv_data sv)) \<le> 2 ^ 32 \<and> cache_wf (sv_cache sv) \<and>
     sv_mutexes sv = length (bucketsArray (sv_buckets sv))"

definition srv_map :: "server \<Rightarrow> nat \<times> u64 \<Rightarrow> u64 option" where
  "srv_map sv = kv_at (bucketsArray (sv_buckets sv)) (ld_seeds (sv_lookup sv)) (rawArray (sv_data sv))"

lemma slots_ok_lb_wf: "slots_ok (bucketsArray lb) seeds arr num \<Longrightarrow> lb_wf lb"
  by (auto simp: slots_ok_def lb_wf_def in_set_conv_nth)

lemma srv_inv_wf:
  assumes "srv_inv sv"
  shows "lb_wf (sv_buckets sv)" and "length (ld_seeds (sv_lookup sv)) = length (bucketsArray (sv_buckets sv))"
    and "unat (pd_num (sv_data sv)) \<le> length (rawArray (sv_data sv))"
  using assms slots_ok_lb_wf by (auto simp: srv_inv_def slots_ok_def pd_wf_def)

lemma append_record_ok:
  assumes inv: "srv_inv sv" and app: "append_record sv key val = Inr (addr, sv')"
  shows "srv_inv sv'" and "srv_map sv' = srv_map sv"
    and "unat addr = unat (pd_num (sv_data sv))" and "unat addr < unat (pd_num (sv_data sv'))"
    and "rawArray (sv_data sv') ! unat addr = \<lparr>ps_key = key, ps_data_length = 8, ps_data = val\<rparr>"
    and "sv_buckets sv' = sv_buckets sv" and "sv_lookup sv' = sv_lookup sv" and "sv_cache sv' = sv_cache sv"
    and "sv_mutexes sv' = sv_mutexes sv"
proof -
  from app obtain pd where b: "bulk_load_data (sv_data sv) key 8 val = Inr (addr, pd)"
    and sv': "sv' = sv\<lparr>sv_data := pd\<rparr>"
    by (auto simp: append_record_def elim!: rbindE)
  have wf: "pd_wf (sv_data sv)" using inv by (simp add: srv_inv_def)
  note d = bulk_load_data_Inr [OF wf b]
  have "unat (pd_num (sv_data sv)) < 2 ^ 32" using d(1) inv by (simp add: srv_inv_def)
  then show a: "unat addr = unat (pd_num (sv_data sv))"
    using d(2) by (simp add: unsigned_ucast_eq take_bit_nat_eq_self)
  have n: "unat (pd_num (sv_data sv)) < length (rawArray (sv_data sv))"
    using d(1) wf by (simp add: pd_wf_def)
  have arr: "rawArray pd ! i = rawArray (sv_data sv) ! i" if "i < unat (pd_num (sv_data sv))" for i
    using that d(5) by simp
  have ok: "slots_ok (bucketsArray (sv_buckets sv)) (ld_seeds (sv_lookup sv)) (rawArray (sv_data sv)) (unat (pd_num (sv_data sv)))"
    using inv by (simp add: srv_inv_def)
  note k = slots_ok_append [OF ok _ arr, of "unat (pd_num pd)"]
  show "srv_inv sv'" using inv k(1) d by (simp add: srv_inv_def sv')
  show "srv_map sv' = srv_map sv" using k(2) d(3) by (simp add: srv_map_def sv')
  show "unat addr < unat (pd_num (sv_data sv'))" using a d(3) by (simp add: sv')
  show "rawArray (sv_data sv') ! unat addr = \<lparr>ps_key = key, ps_data_length = 8, ps_data = val\<rparr>"
    using a d(5) n by (simp add: sv')
qed (use app in \<open>auto simp: append_record_def elim!: rbindE\<close>)

lemma cache_put_ok:
  assumes "srv_inv sv" "cache_put sv key val = Inr sv'"
  shows "srv_inv sv'" and "srv_map sv' = srv_map sv" and "lru_lookup (sv_cache sv') key = Some val"
    and "sv_buckets sv' = sv_buckets sv" and "sv_lookup sv' = sv_lookup sv" and "sv_data sv' = sv_data sv"
proof -
  from assms(2) obtain c where c: "cache_insert key val (sv_cache sv) = Inr c" "sv' = sv\<lparr>sv_cache := c\<rparr>"
    by (auto simp: cache_put_def elim!: rbindE)
  have wf: "cache_wf (sv_cache sv)" using assms(1) by (simp add: srv_inv_def)
  show "srv_inv sv'" using assms(1) lru.insert_inv [OF wf c(1)] by (simp add: srv_inv_def c(2))
  show "lru_lookup (sv_cache sv') key = Some val" using lru.insert_same [OF wf c(1)] by (simp add: c(2))
qed (use assms(2) in \<open>auto simp: cache_put_def srv_map_def elim!: rbindE\<close>)

text \<open>Case 0: the key's slot is free.\<close>

lemma put_free:
  assumes inv: "srv_inv sv" and row: "unat row < length (bucketsArray (sv_buckets sv))"
    and slot: "slot = slot_of (ld_seeds (sv_lookup sv) ! unat row) key"
    and free: "\<not> used_slot (bucketsArray (sv_buckets sv)) (unat row) (unat slot)"
    and app: "append_record sv key val = Inr (addr, sv1)"
    and wr: "write_addr (sv_buckets sv1) key row slot (ucast addr) 64 = Inr lb"
  shows "srv_inv (sv1\<lparr>sv_buckets := lb\<rparr>)"
    and "srv_map (sv1\<lparr>sv_buckets := lb\<rparr>) = (srv_map sv)((unat row, key) \<mapsto> val)"
proof -
  note a = append_record_ok [OF inv app]
  let ?bs = "bucketsArray (sv_buckets sv)" and ?w = "combine (fingerprint key) 64 (ucast addr)"
  have "unat (ucast addr :: u64) < 2 ^ 40"
    using unsigned_less [of addr, where 'a = nat] by simp
  then have w: "toAddr ?w = ucast addr" "toLength ?w = 64" by (simp_all add: toAddr_small toLength_combine)
  have lb: "lb = (sv_buckets sv)\<lparr>bucketsArray := ?bs[unat row := (?bs ! unat row)[unat slot := ?w]]\<rparr>"
    using wr row srv_inv_wf(1) [OF inv] by (simp add: write_addr_def a slot)
  have ok1: "slots_ok ?bs (ld_seeds (sv_lookup sv)) (rawArray (sv_data sv1)) (unat (pd_num (sv_data sv1)))"
    using a(1) by (simp add: srv_inv_def a)
  have ok: "slots_ok ?bs (ld_seeds (sv_lookup sv)) (rawArray (sv_data sv)) (unat (pd_num (sv_data sv)))"
    using inv by (simp add: srv_inv_def)
  have fresh: "toAddr (?bs ! r' ! s') \<noteq> toAddr ?w" if "r' < length ?bs" "s' < 4" "used_slot ?bs r' s'" for r' s'
  proof -
    have "unat (toAddr (?bs ! r' ! s')) < unat addr" using slots_okD(1) [OF ok that] a(3) by simp
    then show ?thesis unfolding w(1) by (metis less_irrefl unat_ucast_up_simps(4))
  qed
  note k = slots_ok_store [OF ok1 row _ free _ _ _ fresh, where k = key]
  have st: "slots_ok (?bs[unat row := (?bs ! unat row)[unat slot := ?w]]) (ld_seeds (sv_lookup sv))
      (rawArray (sv_data sv1)) (unat (pd_num (sv_data sv1)))"
    using k(1) slot w a(4,5) by simp
  show "srv_inv (sv1\<lparr>sv_buckets := lb\<rparr>)" using a(1) st by (simp add: srv_inv_def lb a)
  have "kv_at (?bs[unat row := (?bs ! unat row)[unat slot := ?w]]) (ld_seeds (sv_lookup sv)) (rawArray (sv_data sv1))
      = (kv_at ?bs (ld_seeds (sv_lookup sv)) (rawArray (sv_data sv1)))((unat row, key) \<mapsto> val)"
    using k(2) slot w a(4,5) by simp
  moreover have "kv_at ?bs (ld_seeds (sv_lookup sv)) (rawArray (sv_data sv1)) = srv_map sv"
    using a(2) by (simp add: srv_map_def a)
  moreover have "srv_map (sv1\<lparr>sv_buckets := lb\<rparr>) =
      kv_at (?bs[unat row := (?bs ! unat row)[unat slot := ?w]]) (ld_seeds (sv_lookup sv)) (rawArray (sv_data sv1))"
    by (simp add: srv_map_def lb a)
  ultimately show "srv_map (sv1\<lparr>sv_buckets := lb\<rparr>) = (srv_map sv)((unat row, key) \<mapsto> val)" by simp
qed

text \<open>Case 1 with the same key, and UPDATE: the record is overwritten in place.\<close>

lemma put_same_key:
  assumes inv: "srv_inv sv" and row: "unat row < length (bucketsArray (sv_buckets sv))" and slot: "unat slot < 4"
    and used_slot: "used_slot (bucketsArray (sv_buckets sv)) (unat row) (unat slot)"
    and ad: "read_addr (sv_buckets sv) row slot = Inr addr" and ky: "read_key (sv_data sv) addr = Inr key"
    and up: "update_data (sv_data sv) addr key 64 val = Inr (l, pd)"
  shows "srv_inv (sv\<lparr>sv_data := pd\<rparr>)"
    and "srv_map (sv\<lparr>sv_data := pd\<rparr>) = (srv_map sv)((unat row, key) \<mapsto> val)"
proof -
  let ?bs = "bucketsArray (sv_buckets sv)" and ?arr = "rawArray (sv_data sv)"
  let ?p = "\<lparr>ps_key = key, ps_data_length = 64, ps_data = val\<rparr>"
  have ok: "slots_ok ?bs (ld_seeds (sv_lookup sv)) ?arr (unat (pd_num (sv_data sv)))"
    using inv by (simp add: srv_inv_def)
  have addr: "addr = toAddr (?bs ! unat row ! unat slot)"
    using ad row slot srv_inv_wf(1) [OF inv] by (simp add: read_addr_def)
  have key: "ps_key (rec_at ?bs ?arr (unat row) (unat slot)) = key"
    using ky by (auto simp: read_key_def aget_eq_Inr addr elim!: rbindE)
  have pd: "pd = (sv_data sv)\<lparr>rawArray := ?arr[unat addr := ?p]\<rparr>"
    using up by (auto simp: update_data_def aset_eq_Inr elim!: rbindE)
  note k = slots_ok_update [OF ok row slot used_slot key _ srv_inv_wf(3) [OF inv], of ?p]
  show "srv_inv (sv\<lparr>sv_data := pd\<rparr>)"
    using inv k(1) by (simp add: srv_inv_def pd_wf_def pd addr)
  show "srv_map (sv\<lparr>sv_data := pd\<rparr>) = (srv_map sv)((unat row, key) \<mapsto> val)"
    using k(2) by (simp add: srv_map_def pd addr)
qed

section \<open>Reseeding a row\<close>

text \<open>The words of a row after the rewriting loop.\<close>

definition place :: "u8 \<Rightarrow> (u64 \<times> u64) list \<Rightarrow> u64 list \<Rightarrow> u64 list" where
  "place seed ps b = fold (\<lambda>(k, w) b. b[unat (slot_of seed k) := w]) ps b"

lemma place_simps [simp]:
  "place seed [] b = b"
  "place seed ((k, w) # ps) b = place seed ps (b[unat (slot_of seed k) := w])"
  by (simp_all add: place_def)

lemma length_place [simp]: "length (place seed ps b) = length b"
  by (induction ps arbitrary: b) (auto simp: case_prod_unfold place_def)

lemma place_other:
  "\<forall>(k, w)\<in>set ps. unat (slot_of seed k) \<noteq> s \<Longrightarrow> place seed ps b ! s = b ! s"
  by (induction ps arbitrary: b) auto

lemma place_in:
  assumes "distinct (map (\<lambda>(k, w). unat (slot_of seed k)) ps)" "(k, w) \<in> set ps" "length b = 4"
  shows "place seed ps b ! unat (slot_of seed k) = w"
  using assms
proof (induction ps arbitrary: b)
  case (Cons p ps)
  obtain k1 w1 where p: "p = (k1, w1)" by (cases p)
  show ?case
  proof (cases "(k, w) = p")
    case True
    have "\<forall>(k', w')\<in>set ps. unat (slot_of seed k') \<noteq> unat (slot_of seed k)"
      using Cons.prems(1) True by (force simp: p)
    then show ?thesis using True Cons.prems(3) by (simp add: p place_other)
  next
    case False
    then have "(k, w) \<in> set ps" using Cons.prems(2) by simp
    then show ?thesis
      using Cons.IH [of "b[unat (slot_of seed k1) := w1]"] Cons.prems(1,3) by (simp add: p)
  qed
qed simp

lemma place_only:
  assumes "s < length b" "toLength (place seed ps b ! s) \<noteq> 0" "toLength (b ! s) = 0"
  shows "\<exists>k. (k, place seed ps b ! s) \<in> set ps \<and> unat (slot_of seed k) = s"
  using assms
proof (induction ps arbitrary: b rule: rev_induct)
  case (snoc p ps)
  obtain k w where p: "p = (k, w)" by (cases p)
  have pl: "place seed (ps @ [p]) b = (place seed ps b)[unat (slot_of seed k) := w]"
    by (simp add: place_def p)
  show ?case
  proof (cases "unat (slot_of seed k) = s")
    case True
    then have "place seed (ps @ [p]) b ! s = w" using snoc.prems(1) by (simp add: pl)
    then show ?thesis using True by (intro exI [of _ k]) (simp add: p)
  next
    case False
    then have e: "place seed (ps @ [p]) b ! s = place seed ps b ! s" by (simp add: pl)
    obtain k' where "(k', place seed ps b ! s) \<in> set ps" "unat (slot_of seed k') = s"
      using snoc.IH [of b] snoc.prems unfolding e by blast
    then show ?thesis unfolding e by (intro exI [of _ k']) simp
  qed
qed simp

lemma write_pairs:
  "lb_wf lb \<Longrightarrow> unat row < length (bucketsArray lb) \<Longrightarrow>
   rfold (\<lambda>(k, w) lb. write_cell lb row (slot_of seed k) w) ps lb =
     Inr (lb\<lparr>bucketsArray := (bucketsArray lb)[unat row := place seed ps (bucketsArray lb ! unat row)]\<rparr>)"
proof (induction ps arbitrary: lb)
  case (Cons p ps)
  obtain k w where p: "p = (k, w)" by (cases p)
  let ?lb = "lb\<lparr>bucketsArray := (bucketsArray lb)[unat row := (bucketsArray lb ! unat row)[unat (slot_of seed k) := w]]\<rparr>"
  have "write_cell lb row (slot_of seed k) w = Inr ?lb" using Cons.prems by simp
  moreover have "lb_wf ?lb" using Cons.prems by (simp add: lb_wf_row)
  ultimately show ?case using Cons.IH [of ?lb] Cons.prems(2) by (simp add: p)
qed simp

text \<open>What case 2 does to the row.\<close>

lemma reseed_row_eq:
  assumes inv: "srv_inv sv" and row: "unat row < length (bucketsArray (sv_buckets sv))"
    and res: "reseed_row sv row key val = Inr (seed, sv')"
  defines "bs \<equiv> bucketsArray (sv_buckets sv)"
  defines "ws \<equiv> filter (\<lambda>w. toLength w \<noteq> 0) (bs ! unat row)"
  defines "ks \<equiv> map (\<lambda>w. ps_key (rawArray (sv_data sv) ! unat (toAddr w))) ws"
  obtains addr sv1 where "append_record sv key val = Inr (addr, sv1)"
    and "distinct (map (\<lambda>k. unat (slot_of seed k)) (ks @ [key]))"
    and "sv' = sv1\<lparr>sv_lookup := (sv_lookup sv)\<lparr>ld_seeds := (ld_seeds (sv_lookup sv))[unat row := seed]\<rparr>,
      sv_buckets := (sv_buckets sv)\<lparr>bucketsArray := bs[unat row :=
        place seed (zip (ks @ [key]) (ws @ [combine (fingerprint key) 64 (ucast addr)])) [0, 0, 0, 0]]\<rparr>\<rparr>"
proof -
  have ok: "slots_ok bs (ld_seeds (sv_lookup sv)) (rawArray (sv_data sv)) (unat (pd_num (sv_data sv)))"
    using inv by (simp add: srv_inv_def bs_def)
  have lb: "lb_wf (sv_buckets sv)" using inv by (rule srv_inv_wf)
  have ws: "read_bucket_addrs (sv_buckets sv) row = Inr ws"
    using read_bucket_addrs_eq [OF lb row] by (simp add: ws_def bs_def)
  have len: "length ws < 256" using lb row length_filter_le [of "\<lambda>w. toLength w \<noteq> 0" "bs ! unat row"]
    by (simp add: ws_def lb_wf_row bs_def)
  have "unat (w AND addr_mask) < length (rawArray (sv_data sv))" if "w \<in> set ws" for w
  proof -
    from that obtain s where "s < length (bs ! unat row)" "bs ! unat row ! s = w" "toLength w \<noteq> 0"
      by (auto simp: ws_def in_set_conv_nth)
    then show ?thesis using ok row srv_inv_wf(3) [OF inv] unfolding slots_ok_def toAddr_addr_mask bs_def by fastforce
  qed
  then have ks: "read_batch_keys (sv_data sv) ws = Inr ks"
    using read_batch_keys_eq [OF len, of "sv_data sv"] by (simp add: ks_def toAddr_addr_mask)
  from res obtain addr pd where app: "bulk_load_data (sv_data sv) key 8 val = Inr (addr, pd)"
    and fs: "find_seed (ks @ [key]) = Some seed"
    and sv': "sv' = sv\<lparr>sv_lookup := (sv_lookup sv)\<lparr>ld_seeds := (ld_seeds (sv_lookup sv))[unat row := seed]\<rparr>,
      sv_buckets := (sv_buckets sv)\<lparr>bucketsArray := bs[unat row :=
        place seed (zip (ks @ [key]) (ws @ [combine (fingerprint key) 64 (ucast addr)])) [0, 0, 0, 0]]\<rparr>, sv_data := pd\<rparr>"
    using row lb srv_inv_wf(2) [OF inv]
    by (auto simp: reseed_row_def ws ks updateSeed_def empty_bucket_eq write_pairs bs_def Let_def
        elim!: rbindE split: if_splits option.splits)
  have "append_record sv key val = Inr (addr, sv\<lparr>sv_data := pd\<rparr>)" using app by (simp add: append_record_def)
  then show ?thesis using that find_seed_Some [OF fs] sv' by simp
qed

text \<open>Case 2 stores the pair and keeps every other key of the row under the new seed.\<close>

lemma put_reseed:
  assumes inv: "srv_inv sv" and row: "unat row < length (bucketsArray (sv_buckets sv))"
    and res: "reseed_row sv row key val = Inr (seed, sv')"
  shows "srv_inv sv'" and "srv_map sv' = (srv_map sv)((unat row, key) \<mapsto> val)"
    and "sv_lookup sv' = (sv_lookup sv)\<lparr>ld_seeds := (ld_seeds (sv_lookup sv))[unat row := seed]\<rparr>"
proof -
  define bs where "bs = bucketsArray (sv_buckets sv)"
  define ws where "ws = filter (\<lambda>w. toLength w \<noteq> 0) (bs ! unat row)"
  define ks where "ks = map (\<lambda>w. ps_key (rawArray (sv_data sv) ! unat (toAddr w))) ws"
  obtain addr sv1 where app: "append_record sv key val = Inr (addr, sv1)"
    and dist: "distinct (map (\<lambda>k. unat (slot_of seed k)) (ks @ [key]))"
    and sv': "sv' = sv1\<lparr>sv_lookup := (sv_lookup sv)\<lparr>ld_seeds := (ld_seeds (sv_lookup sv))[unat row := seed]\<rparr>,
      sv_buckets := (sv_buckets sv)\<lparr>bucketsArray := bs[unat row :=
        place seed (zip (ks @ [key]) (ws @ [combine (fingerprint key) 64 (ucast addr)])) [0, 0, 0, 0]]\<rparr>\<rparr>"
    using reseed_row_eq [OF inv row res] unfolding bs_def ws_def ks_def by blast
  note a = append_record_ok [OF inv app]
  define w where "w = combine (fingerprint key) 64 (ucast addr)"
  define ps where "ps = zip (ks @ [key]) (ws @ [w])"
  let ?arr = "rawArray (sv_data sv)" and ?arr1 = "rawArray (sv_data sv1)" and ?sd = "ld_seeds (sv_lookup sv)"
  have ok: "slots_ok bs ?sd ?arr (unat (pd_num (sv_data sv)))" using inv by (simp add: srv_inv_def bs_def)
  have ok1: "slots_ok bs ?sd ?arr1 (unat (pd_num (sv_data sv1)))" using a(1) by (simp add: srv_inv_def a bs_def)
  have r: "unat row < length bs" using row by (simp add: bs_def)
  have "unat (ucast addr :: u64) < 2 ^ 40" using unsigned_less [of addr, where 'a = nat] by simp
  then have w: "toAddr w = ucast addr" "toLength w = 64" by (simp_all add: w_def toAddr_small toLength_combine)
  have keep: "?arr1 ! i = ?arr ! i" if "i < unat (pd_num (sv_data sv))" for i
    using app that bulk_load_data_Inr(5) [of "sv_data sv" key 8 val addr] inv
    by (auto simp: append_record_def srv_inv_def elim!: rbindE)
  have ws: "x \<in> set ws \<longleftrightarrow> (\<exists>s<4. bs ! unat row ! s = x \<and> toLength x \<noteq> 0)" for x
    using ok r by (auto simp: ws_def in_set_conv_nth slots_ok_def)
  have set_ps: "set ps = (\<lambda>x. (ps_key (?arr ! unat (toAddr x)), x)) ` set ws \<union> {(key, w)}"
    by (simp add: ps_def ks_def zip_append1) (simp add: zip_map1 zip_same_conv_map image_image)
  have old: "unat (toAddr x) < unat (pd_num (sv_data sv))" if "x \<in> set ws" for x
    using that slots_okD(1) [OF ok r] by (auto simp: ws)
  have pdist: "distinct (map (\<lambda>(k, w). unat (slot_of seed k)) ps)"
  proof -
    have "map (\<lambda>(k, w). unat (slot_of seed k)) ps = map (\<lambda>k. unat (slot_of seed k)) (map fst ps)"
      by (simp add: case_prod_unfold)
    also have "map fst ps = ks @ [key]" by (simp add: ps_def ks_def)
    finally show ?thesis using dist by simp
  qed
  have num: "unat (pd_num (sv_data sv)) < unat (pd_num (sv_data sv1))" using a(3,4) by simp
  let ?b = "place seed ps [0, 0, 0, 0]"
  have only: "\<exists>k. (k, ?b ! s) \<in> set ps \<and> unat (slot_of seed k) = s" if "s < 4" "toLength (?b ! s) \<noteq> 0" for s
    using place_only [of s "[0, 0, 0, 0]" seed ps] that by (simp add: nth_Cons split: nat.splits)
  have all: "?b ! unat (slot_of seed k) = x \<and> toLength x \<noteq> 0 \<and> unat (toAddr x) < unat (pd_num (sv_data sv1)) \<and>
      ps_key (?arr1 ! unat (toAddr x)) = k" if "(k, x) \<in> set ps" for k x
  proof -
    have pl: "?b ! unat (slot_of seed k) = x" using place_in [OF pdist that] by simp
    from that consider "x = w" "k = key" | "x \<in> set ws" "k = ps_key (?arr ! unat (toAddr x))"
      by (auto simp: set_ps)
    then show ?thesis
    proof cases
      case 1
      then show ?thesis using pl w a(4,5) by simp
    next
      case 2
      then have "toLength x \<noteq> 0" by (simp add: ws_def)
      then show ?thesis using 2 pl old [OF 2(1)] keep [OF old [OF 2(1)]] num by simp
    qed
  qed
  have other: "toAddr (bs ! r' ! s') \<noteq> toAddr x"
    if "(k, x) \<in> set ps" "r' < length bs" "r' \<noteq> unat row" "s' < 4" "used_slot bs r' s'" for k x r' s'
  proof (cases "x = w")
    case True
    have "unat (toAddr (bs ! r' ! s')) < unat addr" using slots_okD(1) [OF ok that(2,4,5)] a(3) by simp
    then show ?thesis unfolding True w(1) by (metis less_irrefl unat_ucast_up_simps(4))
  next
    case False
    then have "x \<in> set ws" using that(1) by (auto simp: set_ps)
    then obtain s where "s < 4" "bs ! unat row ! s = x" "toLength x \<noteq> 0" using ws by blast
    then show ?thesis using ok r that unfolding slots_ok_def by blast
  qed
  have len: "length ?b = 4" by simp
  have reseed: "slots_ok (bs[unat row := ?b]) (?sd[unat row := seed]) ?arr1 (unat (pd_num (sv_data sv1)))"
    by (rule slots_ok_reseed(1) [OF ok1 r len], fact only, fact all, fact other)
  have row_map: "kv_at (bs[unat row := ?b]) (?sd[unat row := seed]) ?arr1 (unat row, k) = Some v \<longleftrightarrow>
      (\<exists>w. (k, w) \<in> set ps \<and> ps_data (?arr1 ! unat (toAddr w)) = v)" for k v
    by (rule slots_ok_reseed(3) [OF ok1 r len], fact only, fact all, fact other)
  have other_row: "kv_at (bs[unat row := ?b]) (?sd[unat row := seed]) ?arr1 (r', k) = kv_at bs ?sd ?arr1 (r', k)"
    if "r' \<noteq> unat row" for r' k
    using that by (simp add: kv_at_def Let_def)
  show "srv_inv sv'"
    using a(1) reseed by (simp add: srv_inv_def sv' ps_def [symmetric] w_def [symmetric] bs_def [symmetric] a)
  have map': "srv_map sv' = kv_at (bs[unat row := ?b]) (?sd[unat row := seed]) ?arr1"
    by (simp add: srv_map_def sv' ps_def w_def)
  have map1: "srv_map sv = kv_at bs ?sd ?arr1"
    using a(2) by (simp add: srv_map_def a bs_def)
  have keyn: "key \<notin> set ks" using dist by (auto simp: image_iff)
  have "srv_map sv' (unat row, k) = Some v \<longleftrightarrow> ((srv_map sv)((unat row, key) \<mapsto> val)) (unat row, k) = Some v" for k v
  proof (cases "k = key")
    case True
    have "(key, x) \<in> set ps \<longleftrightarrow> x = w" for x using keyn by (auto simp: set_ps ks_def)
    then have "srv_map sv' (unat row, key) = Some v \<longleftrightarrow> ps_data (?arr1 ! unat (toAddr w)) = v"
      using row_map [of key v] unfolding map' by auto
    then show ?thesis using True w a(5) by simp
  next
    case False
    have "srv_map sv' (unat row, k) = Some v \<longleftrightarrow> (\<exists>x\<in>set ws. ps_key (?arr ! unat (toAddr x)) = k \<and> ps_data (?arr1 ! unat (toAddr x)) = v)"
      unfolding map' using row_map [of k v] False by (auto simp: set_ps)
    also have "\<dots> \<longleftrightarrow> (\<exists>x\<in>set ws. ps_key (?arr1 ! unat (toAddr x)) = k \<and> ps_data (?arr1 ! unat (toAddr x)) = v)"
      using old keep by (metis (no_types, lifting))
    also have "\<dots> \<longleftrightarrow> srv_map sv (unat row, k) = Some v"
      unfolding map1 kv_at_iff [OF ok1 r] Bex_def ws by blast
    finally show ?thesis using False by simp
  qed
  then have here: "srv_map sv' (unat row, k) = ((srv_map sv)((unat row, key) \<mapsto> val)) (unat row, k)" for k
    by (metis not_None_eq)
  show "srv_map sv' = (srv_map sv)((unat row, key) \<mapsto> val)"
  proof
    fix rk :: "nat \<times> u64"
    obtain r' k' where rk: "rk = (r', k')" by (cases rk)
    show "srv_map sv' rk = ((srv_map sv)((unat row, key) \<mapsto> val)) rk"
      using here other_row by (cases "r' = unat row") (auto simp: rk map' map1)
  qed
  show "sv_lookup sv' = (sv_lookup sv)\<lparr>ld_seeds := ?sd[unat row := seed]\<rparr>" by (simp add: sv')
qed

section \<open>What the handlers do to the map\<close>

lemma row_lt: "srv_inv sv \<Longrightarrow> lock_row sv row = Inr u \<Longrightarrow> unat row < length (bucketsArray (sv_buckets sv))"
  by (auto simp: lock_row_def srv_inv_def split: if_splits)

lemma slot_in_row_lt [simp]: "unat (slot_in_row loc) < 4"
proof -
  have "unat (loc mod 4) < 4" by (simp add: unat_mod)
  then show ?thesis by (simp add: slot_in_row_def unsigned_ucast_eq take_bit_nat_eq_self)
qed

lemma set_cachebit_ok:
  assumes "srv_inv sv" "set_cachebit (sv_buckets sv) row slot = Inr lb" "unat slot < 4"
    and "unat row < length (bucketsArray (sv_buckets sv))"
  shows "srv_inv (sv\<lparr>sv_buckets := lb\<rparr>)" and "srv_map (sv\<lparr>sv_buckets := lb\<rparr>) = srv_map sv"
proof -
  let ?bs = "bucketsArray (sv_buckets sv)"
  have wf: "lb_wf (sv_buckets sv)" using assms(1) by (rule srv_inv_wf)
  let ?v = "?bs ! unat row ! unat slot OR push_bit 63 1"
  have lb: "lb = (sv_buckets sv)\<lparr>bucketsArray := ?bs[unat row := (?bs ! unat row)[unat slot := ?v]]\<rparr>"
    using assms(2-4) wf by (simp add: set_cachebit_def)
  have c: "bucketsArray lb ! r ! s = (if r = unat row \<and> s = unat slot then ?v else ?bs ! r ! s)" if "s < 4" for r s
    using cell_write [OF wf assms(4,3) that] by (simp add: lb)
  have l: "length (bucketsArray lb ! r) = 4" if "r < length ?bs" for r
    using wf that assms(4) by (cases "r = unat row") (simp_all add: lb lb_wf_row)
  have ok: "slots_ok ?bs (ld_seeds (sv_lookup sv)) (rawArray (sv_data sv)) (unat (pd_num (sv_data sv)))"
    using assms(1) by (simp add: srv_inv_def)
  have f: "toLength (bucketsArray lb ! r ! s) = toLength (?bs ! r ! s) \<and> toAddr (bucketsArray lb ! r ! s) = toAddr (?bs ! r ! s)"
    if "s < 4" for r s
    using c [OF that, of r] set_flag_fields(1,2) [of "?bs ! unat row ! unat slot"] by (auto split: if_splits)
  have len: "length (bucketsArray lb) = length ?bs" by (simp add: lb)
  note k = slots_ok_cong [OF ok len l f]
  show "srv_inv (sv\<lparr>sv_buckets := lb\<rparr>)" using assms(1) k(1) len by (simp add: srv_inv_def)
  show "srv_map (sv\<lparr>sv_buckets := lb\<rparr>) = srv_map sv" using k(2) by (simp add: srv_map_def)
qed

text \<open>The pair goes to the overflow cache and to a record no slot refers to.\<close>

lemma cache_and_append:
  assumes "srv_inv sv" "cache_put sv key val = Inr sv1" "append_record sv1 key val = Inr (addr, sv2)"
  shows "srv_inv sv2" and "srv_map sv2 = srv_map sv" and "lru_lookup (sv_cache sv2) key = Some val"
    and "sv_buckets sv2 = sv_buckets sv" and "sv_lookup sv2 = sv_lookup sv"
  using cache_put_ok [OF assms(1,2)] append_record_ok [OF cache_put_ok(1) [OF assms(1,2)] assms(3)] by simp_all

text \<open>The slot of a row that holds a key.\<close>

lemma srv_map_SomeD:
  assumes "srv_inv sv" "srv_map sv (unat row, key) = Some v"
    and "slot = slot_of (ld_seeds (sv_lookup sv) ! unat row) key"
  shows "unat row < length (bucketsArray (sv_buckets sv))"
    and "used_slot (bucketsArray (sv_buckets sv)) (unat row) (unat slot)"
    and "read_addr (sv_buckets sv) row slot = Inr (toAddr (bucketsArray (sv_buckets sv) ! unat row ! unat slot))"
    and "unat (toAddr (bucketsArray (sv_buckets sv) ! unat row ! unat slot)) < length (rawArray (sv_data sv))"
    and "rec_at (bucketsArray (sv_buckets sv)) (rawArray (sv_data sv)) (unat row) (unat slot)
      = \<lparr>ps_key = key, ps_data_length =
          ps_data_length (rec_at (bucketsArray (sv_buckets sv)) (rawArray (sv_data sv)) (unat row) (unat slot)), ps_data = v\<rparr>"
proof -
  let ?bs = "bucketsArray (sv_buckets sv)"
  show r: "unat row < length ?bs" and o: "used_slot ?bs (unat row) (unat slot)"
    using assms(2,3) by (auto simp: srv_map_def kv_at_def Let_def split: if_splits)
  show "read_addr (sv_buckets sv) row slot = Inr (toAddr (?bs ! unat row ! unat slot))"
    using r srv_inv_wf(1) [OF assms(1)] assms(3) by (simp add: read_addr_def)
  have ok: "slots_ok ?bs (ld_seeds (sv_lookup sv)) (rawArray (sv_data sv)) (unat (pd_num (sv_data sv)))"
    using assms(1) by (simp add: srv_inv_def)
  show "unat (toAddr (?bs ! unat row ! unat slot)) < length (rawArray (sv_data sv))"
    using slots_okD(1) [OF ok r _ o] srv_inv_wf(3) [OF assms(1)] assms(3) by simp
  show "rec_at ?bs (rawArray (sv_data sv)) (unat row) (unat slot)
      = \<lparr>ps_key = key, ps_data_length =
          ps_data_length (rec_at ?bs (rawArray (sv_data sv)) (unat row) (unat slot)), ps_data = v\<rparr>"
    using assms(2,3) by (auto simp: srv_map_def kv_at_def Let_def split: if_splits)
qed

text \<open>The location a client computes from a row and a slot, and back.\<close>

definition loc_of :: "u32 \<Rightarrow> u8 \<Rightarrow> u64" where
  "loc_of row slot = ucast (4 * row + ucast slot)"

lemma loc_of_parts:
  assumes "unat row < 2 ^ 30" "unat slot < 4"
  shows "row_of (loc_of row slot) = ucast row" and "slot_in_row (loc_of row slot) = slot"
proof -
  have sl: "unat (ucast slot :: u32) = unat slot" by simp
  have "unat (4 * row + ucast slot :: u32) = 4 * unat row + unat slot"
    using assms by (simp add: unat_word_ariths)
  then have l: "unat (loc_of row slot) = 4 * unat row + unat slot" by (simp add: loc_of_def)
  have "unat (row_of (loc_of row slot)) = unat row" using l assms(2) by (simp add: row_of_def unat_div)
  then show "row_of (loc_of row slot) = ucast row" by (simp add: word_unat_eq_iff)
  have "unat (loc_of row slot mod 4) = unat slot" using l assms(2) by (simp add: unat_mod)
  then show "slot_in_row (loc_of row slot) = slot"
    using assms(2) by (simp add: slot_in_row_def word_unat_eq_iff unsigned_ucast_eq take_bit_nat_eq_self)
qed

lemma seed_reply:
  fixes sd :: u8
  shows "(push_bit 8 1 + ucast sd :: u64) AND 256 \<noteq> 0" and "ucast (push_bit 8 1 + ucast sd :: u64) = sd"
proof -
  have e: "(push_bit 8 1 :: u64) = 2 ^ 8" "(256 :: u64) = 2 ^ 8" by (simp_all add: push_bit_eq_mult)
  have b256: "bit (2 ^ 8 :: u64) n \<longleftrightarrow> n = 8" for n unfolding bit_exp_iff by auto
  have or: "(2 ^ 8 :: u64) + ucast sd = 2 ^ 8 OR ucast sd"
  proof (rule disjunctive_add_eq_or, rule bit_word_eqI)
    show "bit (2 ^ 8 AND ucast sd :: u64) n = bit 0 n" for n
      unfolding bit_and_iff b256 bit_ucast_iff by (auto dest: bit_imp_le_length)
  qed
  have b: "bit (2 ^ 8 + ucast sd :: u64) n \<longleftrightarrow> n = 8 \<or> bit sd n" for n
    unfolding or bit_or_iff b256 bit_ucast_iff by (auto dest: bit_imp_le_length)
  have "bit ((2 ^ 8 + ucast sd :: u64) AND 2 ^ 8) 8" unfolding bit_and_iff b b256 by simp
  then show "(push_bit 8 1 + ucast sd :: u64) AND 256 \<noteq> 0" unfolding e by fastforce
  show "ucast (push_bit 8 1 + ucast sd :: u64) = sd"
    unfolding e by (rule bit_word_eqI) (auto simp only: bit_ucast_iff b dest: bit_imp_le_length, auto)
qed

lemma do_put_cases:
  assumes inv: "srv_inv sv" and put: "do_put sv loc key val = Inr (reply, sv')"
  shows "srv_inv sv' \<and> rv_status reply \<and>
    (srv_map sv' = (srv_map sv)((unat (row_of loc), key) \<mapsto> val) \<and>
       (if rv_val reply AND 256 = 0 then sv_lookup sv' = sv_lookup sv
        else sv_lookup sv' = (sv_lookup sv)\<lparr>ld_seeds := (ld_seeds (sv_lookup sv))[unat (row_of loc) := ucast (rv_val reply)]\<rparr>) \<or>
     srv_map sv' = srv_map sv \<and> lru_lookup (sv_cache sv') key = Some val \<and> rv_val reply \<in> {1, 3} \<and>
       sv_lookup sv' = sv_lookup sv)"
proof -
  let ?row = "row_of loc" and ?bs = "bucketsArray (sv_buckets sv)"
  from put obtain seed st where lk: "lock_row sv ?row = Inr ()" and sd: "row_seed sv ?row = Inr seed"
    and st: "check_slots (sv_buckets sv) key ?row (slot_of seed key) = Inr st"
    by (auto simp: do_put_def Let_def elim!: rbindE)
  have r: "unat ?row < length ?bs" using inv lk by (rule row_lt)
  have seed: "seed = ld_seeds (sv_lookup sv) ! unat ?row" using sd by (simp add: row_seed_def aget_eq_Inr)
  let ?slot = "slot_of seed key"
  have chk: "st = (let w = ?bs ! unat ?row ! unat ?slot in
      if toLength w = 0 then 0 else if toFinger w = fingerprint key then 1
      else if \<exists>s<4. toLength (?bs ! unat ?row ! s) = 0 then 2 else 3)"
    using st check_slots_eq [OF srv_inv_wf(1) [OF inv] r, of ?slot key] by (simp add: Let_def)
  note put' = put [unfolded do_put_def Let_def lk sd st rbind_Inr st]
  consider (free) "st = 0" | (same) "st = 1" | (some_free) "st = 2" | (full) "st = 3"
  proof -
    have "st \<in> {0, 1, 2, 3}" unfolding chk Let_def by simp
    then show ?thesis using that by blast
  qed
  then show ?thesis
  proof cases
    case free
    then have "\<not> used_slot ?bs (unat ?row) (unat ?slot)" using chk by (simp add: Let_def split: if_splits)
    from put' free obtain addr sv1 lb where app: "append_record sv key val = Inr (addr, sv1)"
      and wr: "write_addr (sv_buckets sv1) key ?row ?slot (ucast addr) 64 = Inr lb"
      and res: "reply = \<lparr>rv_status = True, rv_val = 0\<rparr>" "sv' = sv1\<lparr>sv_buckets := lb\<rparr>"
      by (auto elim!: rbindE)
    show ?thesis
      using put_free [OF inv r _ \<open>\<not> used_slot ?bs (unat ?row) (unat ?slot)\<close> app wr] append_record_ok(7) [OF inv app] seed res
      by simp
  next
    case same
    then have used_slot: "used_slot ?bs (unat ?row) (unat ?slot)" using chk by (auto simp: Let_def split: if_splits)
    from put' same obtain addr key' where ad: "read_addr (sv_buckets sv) ?row ?slot = Inr addr"
      and ky: "read_key (sv_data sv) addr = Inr key'"
      and br: "if key' = key then \<exists>l pd. update_data (sv_data sv) addr key 64 val = Inr (l, pd) \<and>
            sv' = sv\<lparr>sv_data := pd\<rparr> \<and> reply = \<lparr>rv_status = True, rv_val = 1\<rparr>
          else \<exists>sv1 a. cache_put sv key val = Inr sv1 \<and> append_record sv1 key val = Inr (a, sv') \<and>
            reply = \<lparr>rv_status = True, rv_val = 1\<rparr>"
      by (auto elim!: rbindE split: if_splits)
    show ?thesis
    proof (cases "key' = key")
      case True
      then obtain l pd where u: "update_data (sv_data sv) addr key 64 val = Inr (l, pd)" "sv' = sv\<lparr>sv_data := pd\<rparr>"
        "reply = \<lparr>rv_status = True, rv_val = 1\<rparr>" using br by auto
      show ?thesis using put_same_key [OF inv r slot_of_lt4 used_slot ad ky [unfolded True] u(1)] u(2,3) by simp
    next
      case False
      then obtain sv1 a where c: "cache_put sv key val = Inr sv1" "append_record sv1 key val = Inr (a, sv')"
        "reply = \<lparr>rv_status = True, rv_val = 1\<rparr>" using br by auto
      show ?thesis using cache_and_append [OF inv c(1,2)] c(3) by simp
    qed
  next
    case some_free
    from put' some_free obtain sd' where rs: "reseed_row sv ?row key val = Inr (sd', sv')"
      and rep: "rv_status reply" "rv_val reply = push_bit 8 1 + ucast sd'" by (auto elim!: rbindE)
    show ?thesis
      unfolding rep(2) using put_reseed [OF inv r rs] seed_reply [of sd'] rep(1) by (simp del: push_bit_of_1)
  next
    case full
    from put' full obtain sv1 a sv2 lb where c: "cache_put sv key val = Inr sv1" "append_record sv1 key val = Inr (a, sv2)"
      and b: "set_cachebit (sv_buckets sv2) ?row (slot_in_row loc) = Inr lb"
      and res: "reply = \<lparr>rv_status = True, rv_val = 3\<rparr>" "sv' = sv2\<lparr>sv_buckets := lb\<rparr>"
      by (auto elim!: rbindE)
    note ca = cache_and_append [OF inv c]
    show ?thesis using set_cachebit_ok [OF ca(1) b] ca r res by simp
  qed
qed

lemma do_get_map:
  assumes "srv_inv sv" "srv_map sv (unat row, key) = Some v" "unat row < 2 ^ 30"
  shows "do_get sv (loc_of row (slot_of (ld_seeds (sv_lookup sv) ! unat row) key)) = Inr \<lparr>rv_status = True, rv_val = v\<rparr>"
proof -
  have m: "srv_map sv (unat (ucast row :: u64), key) = Some v" using assms(2) by simp
  note d = srv_map_SomeD [OF assms(1) m refl]
  note l = loc_of_parts [OF assms(3) slot_of_lt4]
  show ?thesis using d(3,4) arg_cong [OF d(5), of ps_data] by (simp add: do_get_def l raw_data_def)
qed

section \<open>Properties\<close>

text \<open>
  (C1) PUT then GET. After a PUT that returns, either a GET at the location given by the row's seed (the
  new one, if the row was reseeded) returns the value, and no other row or key of the index has
  changed; or the index has not changed, the reply's code is 1 or 3, and the pair is in the overflow
  cache. The invariant holds again in both cases.
\<close>

theorem put_then_get:
  assumes "srv_inv sv" and "do_put sv loc key val = Inr (reply, sv')" and "unat (row_of loc) < 2 ^ 30"
  shows "srv_inv sv' \<and> rv_status reply \<and>
    (do_get sv' (loc_of (ucast (row_of loc)) (slot_of (ld_seeds (sv_lookup sv') ! unat (row_of loc)) key))
       = Inr \<lparr>rv_status = True, rv_val = val\<rparr> \<and>
     (\<forall>rk. rk \<noteq> (unat (row_of loc), key) \<longrightarrow> srv_map sv' rk = srv_map sv rk) \<or>
     srv_map sv' = srv_map sv \<and> rv_val reply \<in> {1, 3} \<and> lru_lookup (sv_cache sv') key = Some val)"
proof -
  have u: "unat (ucast (row_of loc) :: u32) = unat (row_of loc)"
    using assms(3) by (simp add: unsigned_ucast_eq take_bit_nat_eq_self)
  note p = do_put_cases [OF assms(1,2)]
  show ?thesis
  proof (cases "srv_map sv' = (srv_map sv)((unat (row_of loc), key) \<mapsto> val)")
    case True
    have "do_get sv' (loc_of (ucast (row_of loc)) (slot_of (ld_seeds (sv_lookup sv') ! unat (row_of loc)) key))
       = Inr \<lparr>rv_status = True, rv_val = val\<rparr>"
      using do_get_map [of sv' "ucast (row_of loc)" key val] p True assms(3) by (simp add: u)
    then show ?thesis using p True by simp
  next
    case False
    then show ?thesis using p by blast
  qed
qed

text \<open>A row with one key, whose slot a second key needs: the server picks seed 1.\<close>

definition sample_buckets :: ludo_buckets where
  "sample_buckets = \<lparr>bucketsArray = [[0, 0, 0, combine (fingerprint 1) 64 0]], lb_numElements = 1\<rparr>"

definition sample_data :: packed_data where
  "sample_data = \<lparr>rawArray = [\<lparr>ps_key = 1, ps_data_length = 8, ps_data = 11\<rparr>, zero_struct, zero_struct, zero_struct],
    pd_num = 1, numElements = 4\<rparr>"

definition sample_server :: server where
  "sample_server = \<lparr>sv_lookup = sample_lookup, sv_buckets = sample_buckets, sv_data = sample_data,
    sv_cache = Cache_new 1024 10, sv_mutexes = 1\<rparr>"

lemmas sample_defs = sample_server_def sample_lookup_def sample_buckets_def sample_data_def

lemma all_lt_4: "(\<forall>s<4. P s) \<longleftrightarrow> P 0 \<and> P 1 \<and> P 2 \<and> P (3 :: nat)"
  by (auto simp: numeral_eq_Suc less_Suc_eq)

lemma sample_server_inv: "srv_inv sample_server"
proof -
  have w: "toLength (combine (fingerprint 1) 64 0) = 64" "toAddr (combine (fingerprint 1) 64 0) = 0"
    by (simp_all add: toLength_combine toAddr_combine)
  have sl: "slot_of 0 1 = 3" by code_simp
  have "slots_ok [[0, 0, 0, combine (fingerprint 1) 64 0]] [0]
      [\<lparr>ps_key = 1, ps_data_length = 8, ps_data = 11\<rparr>, zero_struct, zero_struct, zero_struct] 1"
    unfolding slots_ok_def all_lt_4 by (simp add: w sl)
  then show ?thesis
    by (simp add: srv_inv_def sample_defs pd_wf_def Cache_new_wf)
qed

lemma sample_server_map: "srv_map sample_server (0, 1) = Some 11"
proof -
  have w: "toLength (combine (fingerprint 1) 64 0) = 64" "toAddr (combine (fingerprint 1) 64 0) = 0"
    by (simp_all add: toLength_combine toAddr_combine)
  have sl: "slot_of 0 1 = 3" by code_simp
  show ?thesis by (simp add: srv_map_def sample_defs kv_at_def w sl)
qed

definition sample_row :: "u64 list" where
  "sample_row = [combine (fingerprint 1) 64 0]"

lemma put_sample:
  assumes p: "row_of loc = 0"
  shows "\<exists>sv'. do_put sample_server loc 2 22 = Inr (\<lparr>rv_status = True, rv_val = 257\<rparr>, sv') \<and>
     ld_seeds (sv_lookup sv') = [1]"
proof -
  have f0: "sv_buckets sample_server = sample_buckets" "sv_data sample_server = sample_data"
    "sv_lookup sample_server = sample_lookup" "ld_seeds sample_lookup = [0]"
    by (simp_all add: sample_server_def sample_lookup_def)
  have l: "lock_row sample_server 0 = Inr ()" "row_seed sample_server 0 = Inr 0"
    by (simp_all add: lock_row_def row_seed_def f0) (simp add: sample_server_def)
  have s: "check_slots sample_buckets 2 0 (slot_of 0 2) = Inr 2" by code_simp
  have a: "read_bucket_addrs sample_buckets 0 = Inr sample_row" by code_simp
  have b: "read_batch_keys sample_data sample_row = Inr [1]" by code_simp
  have f: "find_seed [1, 2] = Some 1" by code_simp
  have lb: "lb_wf sample_buckets" "length (bucketsArray sample_buckets) = 1"
    by (simp_all add: sample_buckets_def lb_wf_def)
  have "pd_wf sample_data" "pd_num sample_data < numElements sample_data"
    by (simp_all add: sample_data_def pd_wf_def)
  note bl = bulk_load_data_ok [OF this]
  have "\<exists>sv'. reseed_row sample_server 0 2 22 = Inr (1, sv') \<and> ld_seeds (sv_lookup sv') = [1]"
    using lb by (simp add: reseed_row_def f0 a b f bl updateSeed_def empty_bucket_eq write_pairs)
  then show ?thesis by (auto simp: do_put_def Let_def p l s f0)
qed

theorem put_then_get_witness:
  "\<exists>reply sv'. do_put sample_server 0 2 22 = Inr (reply, sv') \<and> rv_val reply = 257 \<and>
     do_get sv' (loc_of 0 (slot_of 1 2)) = Inr \<lparr>rv_status = True, rv_val = 22\<rparr> \<and> srv_map sv' (0, 1) = Some 11"
proof -
  obtain sv' where put: "do_put sample_server 0 2 22 = Inr (\<lparr>rv_status = True, rv_val = 257\<rparr>, sv')"
    and r: "ld_seeds (sv_lookup sv') = [1]" using put_sample [of 0] by (auto simp: row_of_def)
  show ?thesis
    using put_then_get [OF sample_server_inv put] put r sample_server_map by (simp add: row_of_def)
qed

lemma stored_location:
  assumes "srv_inv sv" and "srv_map sv (unat row, key) = Some v" and "unat row < 2 ^ 30"
  defines "loc \<equiv> loc_of row (slot_of (ld_seeds (sv_lookup sv) ! unat row) key)"
  shows "row_of loc = ucast row" and "slot_in_row loc = slot_of (ld_seeds (sv_lookup sv) ! unat row) key"
    and "lock_row sv (ucast row) = Inr ()"
  using loc_of_parts [OF assms(3) slot_of_lt4] assms(1) srv_map_SomeD(1) [of sv "ucast row" key v] assms(2)
  by (simp_all add: loc_def lock_row_def srv_inv_def)

text \<open>
  (C26) UPDATE of a stored key, at its location: the reply is code 1, the value changes for this key and
  for no other, and the invariant holds again.
\<close>

theorem update_stored:
  assumes "srv_inv sv" and "srv_map sv (unat row, key) = Some v" and "unat row < 2 ^ 30"
  shows "\<exists>sv'. do_update sv (loc_of row (slot_of (ld_seeds (sv_lookup sv) ! unat row) key)) key val
      = Inr (\<lparr>rv_status = True, rv_val = 1\<rparr>, sv') \<and> srv_inv sv' \<and>
      srv_map sv' = (srv_map sv)((unat row, key) \<mapsto> val)"
proof -
  have m: "srv_map sv (unat (ucast row :: u64), key) = Some v" using assms(2) by simp
  note d = srv_map_SomeD [OF assms(1) m refl]
  note l = stored_location [OF assms]
  let ?slot = "slot_of (ld_seeds (sv_lookup sv) ! unat row) key"
  let ?addr = "toAddr (bucketsArray (sv_buckets sv) ! unat row ! unat ?slot)"
  have ky: "read_key (sv_data sv) ?addr = Inr key"
    using d(4) arg_cong [OF d(5), of ps_key] by (simp add: read_key_def)
  obtain pd where up: "update_data (sv_data sv) ?addr key 64 val = Inr (64, pd)"
    using d(4) by (simp add: update_data_def)
  have "do_update sv (loc_of row ?slot) key val = Inr (\<lparr>rv_status = True, rv_val = 1\<rparr>, sv\<lparr>sv_data := pd\<rparr>)"
    using d(3) ky up by (simp add: do_update_def l)
  then show ?thesis
    using put_same_key [OF assms(1) d(1) _ d(2,3) _ up [folded unat_ucast_up_simps(4)]] ky up
    by simp
qed

text \<open>
  (C27) REMOVE of a stored key, at its location: the key is gone, no other key is affected, and the
  invariant holds again.
\<close>

theorem remove_stored:
  assumes "srv_inv sv" and "srv_map sv (unat row, key) = Some v" and "unat row < 2 ^ 30"
  shows "\<exists>sv'. do_remove sv (loc_of row (slot_of (ld_seeds (sv_lookup sv) ! unat row) key)) key
      = Inr (\<lparr>rv_status = True, rv_val = 0\<rparr>, sv') \<and> srv_inv sv' \<and>
      srv_map sv' = (srv_map sv)((unat row, key) := None)"
proof -
  have m: "srv_map sv (unat (ucast row :: u64), key) = Some v" using assms(2) by simp
  note d = srv_map_SomeD [OF assms(1) m refl]
  note l = stored_location [OF assms]
  let ?bs = "bucketsArray (sv_buckets sv)" and ?slot = "slot_of (ld_seeds (sv_lookup sv) ! unat row) key"
  let ?addr = "toAddr (?bs ! unat row ! unat ?slot)"
  let ?pd = "(sv_data sv)\<lparr>rawArray := (rawArray (sv_data sv))[unat ?addr := zero_struct]\<rparr>"
  let ?lb = "(sv_buckets sv)\<lparr>bucketsArray := ?bs[unat row := (?bs ! unat row)[unat ?slot := 0]]\<rparr>"
  have rm: "remove_data_with_key_check (sv_data sv) ?addr key = Inr (True, ?pd)"
    using d(4) arg_cong [OF d(5), of ps_key] by (simp add: remove_data_with_key_check_def)
  have ra: "remove_addr (sv_buckets sv) (ucast row) ?slot = Inr ?lb"
    using d(1) srv_inv_wf(1) [OF assms(1)] by (simp add: remove_addr_def)
  have rem: "do_remove sv (loc_of row ?slot) key = Inr (\<lparr>rv_status = True, rv_val = 0\<rparr>, sv\<lparr>sv_data := ?pd, sv_buckets := ?lb\<rparr>)"
    using d(3) rm ra by (simp add: do_remove_def l)
  have ok: "slots_ok ?bs (ld_seeds (sv_lookup sv)) (rawArray (sv_data sv)) (unat (pd_num (sv_data sv)))"
    using assms(1) by (simp add: srv_inv_def)
  have r: "unat row < length ?bs" and o: "used_slot ?bs (unat row) (unat ?slot)"
    and k: "ps_key (rec_at ?bs (rawArray (sv_data sv)) (unat row) (unat ?slot)) = key"
    using d(1,2) arg_cong [OF d(5), of ps_key] by simp_all
  note c = slots_ok_clear [OF ok r slot_of_lt4 o k srv_inv_wf(3) [OF assms(1)], of zero_struct]
  show ?thesis
    using rem c assms(1) by (simp add: srv_inv_def srv_map_def pd_wf_def)
qed

theorem update_stored_witness:
  "\<exists>sv'. do_update sample_server (loc_of 0 (slot_of 0 1)) 1 99 = Inr (\<lparr>rv_status = True, rv_val = 1\<rparr>, sv') \<and>
     srv_map sv' (0, 1) = Some 99"
proof -
  have m: "srv_map sample_server (unat (0 :: u32), 1) = Some 11" using sample_server_map by simp
  have s: "ld_seeds (sv_lookup sample_server) ! unat (0 :: u32) = 0" by (simp add: sample_defs)
  show ?thesis using update_stored [OF sample_server_inv m, of 99] unfolding s by auto
qed

theorem remove_stored_witness:
  "\<exists>sv'. do_remove sample_server (loc_of 0 (slot_of 0 1)) 1 = Inr (\<lparr>rv_status = True, rv_val = 0\<rparr>, sv') \<and>
     srv_map sv' (0, 1) = None"
proof -
  have m: "srv_map sample_server (unat (0 :: u32), 1) = Some 11" using sample_server_map by simp
  have s: "ld_seeds (sv_lookup sample_server) ! unat (0 :: u32) = 0" by (simp add: sample_defs)
  show ?thesis using remove_stored [OF sample_server_inv m] unfolding s by auto
qed

text \<open>
  (C38) A PUT of a key that is already in its row, while the slot's fingerprint is not the key's and the
  row has a free slot, ends the server process: the row's key list then holds the key twice and no
  seed separates it. (This is the state bulk loading leaves: see \<open>bulk_word_fields\<close>.)
\<close>

theorem put_duplicate_exits:
  assumes "srv_inv sv" and "srv_map sv (unat (row_of loc), key) = Some v"
    and "toFinger (bucketsArray (sv_buckets sv) ! unat (row_of loc) !
           unat (slot_of (ld_seeds (sv_lookup sv) ! unat (row_of loc)) key)) \<noteq> fingerprint key"
    and "\<exists>s<4. \<not> used_slot (bucketsArray (sv_buckets sv)) (unat (row_of loc)) s"
    and "pd_num (sv_data sv) < numElements (sv_data sv)"
  shows "do_put sv loc key val = Inl ExitProcess"
proof -
  let ?row = "row_of loc" and ?bs = "bucketsArray (sv_buckets sv)"
  let ?slot = "slot_of (ld_seeds (sv_lookup sv) ! unat ?row) key"
  note d = srv_map_SomeD [OF assms(1,2) refl]
  have ok: "slots_ok ?bs (ld_seeds (sv_lookup sv)) (rawArray (sv_data sv)) (unat (pd_num (sv_data sv)))"
    using assms(1) by (simp add: srv_inv_def)
  have wf: "lb_wf (sv_buckets sv)" using assms(1) by (rule srv_inv_wf)
  have st: "check_slots (sv_buckets sv) key ?row ?slot = Inr 2"
    using check_slots_eq [OF wf d(1) slot_of_lt4, of key] d(2) assms(3,4) by (simp add: Let_def)
  define ws where "ws = filter (\<lambda>w. toLength w \<noteq> 0) (?bs ! unat ?row)"
  define ks where "ks = map (\<lambda>w. ps_key (rawArray (sv_data sv) ! unat (toAddr w))) ws"
  have len: "length (?bs ! unat ?row) = 4" using wf d(1) by (rule lb_wf_row)
  have "length ws < 4"
  proof -
    obtain s where "s < 4" "\<not> used_slot ?bs (unat ?row) s" using assms(4) by blast
    then show ?thesis
      using length_filter_less [of "?bs ! unat ?row ! s" "?bs ! unat ?row" "\<lambda>w. toLength w \<noteq> 0"] len
      by (simp add: ws_def)
  qed
  have "unat (toAddr w) < length (rawArray (sv_data sv))" if "w \<in> set ws" for w
  proof -
    from that obtain s where "s < 4" "?bs ! unat ?row ! s = w" "toLength w \<noteq> 0"
      using len by (auto simp: ws_def in_set_conv_nth)
    then show ?thesis using slots_okD(1) [OF ok d(1), of s] srv_inv_wf(3) [OF assms(1)] by simp
  qed
  then have rd: "read_batch_keys (sv_data sv) ws = Inr ks"
    using read_batch_keys_eq [of ws "sv_data sv"] \<open>length ws < 4\<close> by (simp add: ks_def toAddr_addr_mask)
  have "?bs ! unat ?row ! unat ?slot \<in> set ws" using d(2) len by (simp add: ws_def)
  then have "key \<in> set ks" using arg_cong [OF d(5), of ps_key] by (force simp: ks_def)
  then have fs: "find_seed (ks @ [key]) = None" by (intro find_seed_duplicate) simp
  have "length ks \<le> 3" using \<open>length ws < 4\<close> by (simp add: ks_def)
  moreover have "pd_wf (sv_data sv)" using assms(1) by (simp add: srv_inv_def)
  ultimately have "reseed_row sv ?row key val = Inl ExitProcess"
    using fs by (simp add: reseed_row_def read_bucket_addrs_eq [OF wf d(1)] ws_def [symmetric] rd Let_def
        bulk_load_data_ok assms(5))
  moreover have "lock_row sv ?row = Inr ()" "row_seed sv ?row = Inr (ld_seeds (sv_lookup sv) ! unat ?row)"
    using d(1) assms(1) srv_inv_wf(2) [OF assms(1)] by (simp_all add: lock_row_def row_seed_def srv_inv_def)
  ultimately show ?thesis using st by (simp add: do_put_def Let_def)
qed

definition bulk_loaded_server :: server where
  "bulk_loaded_server = sample_server\<lparr>sv_buckets := \<lparr>bucketsArray = [[0, 0, 0, bulk_word 0]], lb_numElements = 1\<rparr>\<rparr>"

theorem put_duplicate_exits_witness: "do_put bulk_loaded_server 0 1 12 = Inl ExitProcess"
proof -
  have w: "toLength (bulk_word 0) = 0x4000" "toAddr (bulk_word 0) = 0" "toFinger (bulk_word 0) = 0"
    using bulk_word_fields [of 0] by simp_all
  have sl: "slot_of 0 1 = 3" by code_simp
  have fp: "fingerprint 1 \<noteq> 0" by code_simp
  have "slots_ok [[0, 0, 0, bulk_word 0]] [0]
      [\<lparr>ps_key = 1, ps_data_length = 8, ps_data = 11\<rparr>, zero_struct, zero_struct, zero_struct] 1"
    unfolding slots_ok_def all_lt_4 by (simp add: w sl)
  then have "srv_inv bulk_loaded_server"
    by (simp add: srv_inv_def bulk_loaded_server_def sample_defs pd_wf_def Cache_new_wf)
  moreover have "srv_map bulk_loaded_server (0, 1) = Some 11"
    by (simp add: srv_map_def bulk_loaded_server_def sample_defs kv_at_def w sl)
  ultimately show ?thesis
    using put_duplicate_exits [of bulk_loaded_server 0 1 11 12] sl w fp
    by (simp add: row_of_def bulk_loaded_server_def sample_defs) (metis numeral_less_iff zero_less_numeral nth_Cons_0 to_field_zero(2))
qed

end
