(* ===== verification/Rpc_Call.thy ===== *)
theory Rpc_Call
  imports Outback_Server
begin

text \<open>
  A remote call as all clients of the repository make it: register a buffer for the reply with the reply station, build
  and send the request, yield, and find the reply in the buffer when the coroutine wakes up. The network in between runs
  the dispatch loop of the server on the request and the poll loop of the client on what the server sent.

  Shown: the callback with the number of the request runs on exactly the bytes of the arguments, its answer is what the
  coroutine finds, the coroutine is then ready for another call, and a callback that ends the server ends the call.
\<close>

section \<open>Definitions\<close>

text \<open>What the stack holds when a call starts: an uninitialised operation, the send and the reply buffer.\<close>

record call_junk =
  cj_op :: rpc_op
  cj_send_buf :: "u8 list"
  cj_reply_buf :: "u8 list"

text \<open>\<open>add_one_reply\<close> ignores that a reply may be pending already.\<close>

definition register_pending :: "u32 \<Rightarrow> u8 list \<Rightarrow> unit rpc_core \<Rightarrow> unit rpc_core res" where
  "register_pending cor reply_buf core =
    rbind (add_pending_reply (unat (take_bit 7 cor)) (ReplyEntry_new reply_buf) (rc_station core)) (\<lambda>(_, st).
    Inr (core\<lparr>rc_station := st\<rparr>))"

text \<open>The request reaches the server's loop on the client's session, the reply that loop sends reaches the client's poll loop.\<close>

definition rpc_exchange :: "'s rpc_callback list \<Rightarrow> u32 \<Rightarrow> u8 list \<Rightarrow> unit rpc_core \<Rightarrow> 's rpc_core \<Rightarrow> (unit rpc_core \<times> 's rpc_core) res" where
  "rpc_exchange callbacks session req core sc =
    rbind (recv_event_loop callbacks [(session, req)] sc) (\<lambda>(_, sc').
    rbind (poll_future [] (drop (length (rc_sent sc)) (rc_sent sc')) core) (\<lambda>cc. Inr (cc, sc')))"

text \<open>\<open>*(reinterpret_cast<ReplyValue*>(reply_buf))\<close> after the yield.\<close>

definition station_reply :: "u32 \<Rightarrow> unit rpc_core \<Rightarrow> reply_value res" where
  "station_reply cor core = rbind (aget (rc_station core) (unat cor)) (\<lambda>r. reply_of_bytes (re_buf r))"

text \<open>The two forms of a call in the clients: one that only waits for its reply, and a query that returns the value of the reply.\<close>

definition remote_call :: "'s rpc_callback list \<Rightarrow> u32 \<Rightarrow> call_junk \<Rightarrow> u32 \<Rightarrow> rpc_id \<Rightarrow> u8 list \<Rightarrow> unit rpc_core \<Rightarrow> 's rpc_core \<Rightarrow>
    (unit rpc_core \<times> 's rpc_core) res" where
  "remote_call callbacks session j cor i data core sc =
    rbind (register_pending cor (cj_reply_buf j) core) (\<lambda>core.
    rbind (build_request (cj_op j) (cj_send_buf j) (rpc_code i) cor data) (\<lambda>m.
    rpc_exchange callbacks session m core sc))"

definition remote_query :: "'s rpc_callback list \<Rightarrow> u32 \<Rightarrow> call_junk \<Rightarrow> u32 \<Rightarrow> u8 list \<Rightarrow> unit rpc_core \<Rightarrow> 's rpc_core \<Rightarrow>
    (u64 option \<times> unit rpc_core \<times> 's rpc_core) res" where
  "remote_query callbacks session j cor data core sc =
    rbind (register_pending cor (cj_reply_buf j) core) (\<lambda>core.
    rbind (cor_ready (unat cor) (rc_station core)) (\<lambda>ready.
    if ready then Inl AssertFailed
    else rbind (build_request (cj_op j) (cj_send_buf j) (rpc_code GET) cor data) (\<lambda>m.
      rbind (rpc_exchange callbacks session m core sc) (\<lambda>(core, sc).
      rbind (station_reply cor core) (\<lambda>r. Inr (if rv_status r then Some (rv_val r) else None, core, sc))))))"

section \<open>A call\<close>

text \<open>What a call needs of its surroundings: buffers of the sizes the code declares, an idle coroutine, a session.\<close>

definition rpc_ready :: "call_junk \<Rightarrow> stack_junk \<Rightarrow> u32 \<Rightarrow> u32 \<Rightarrow> unit rpc_core \<Rightarrow> 's rpc_core \<Rightarrow> bool" where
  "rpc_ready j sj session cor core sc \<longleftrightarrow>
     header_wf (op_header (cj_op j)) \<and> length (cj_send_buf j) = 64 \<and> length (cj_reply_buf j) = 9 \<and>
     header_wf (op_header (fst sj)) \<and> length (snd sj) = 64 \<and>
     unat cor < 128 \<and> unat cor < length (rc_station core) \<and>
     pending_replies (rc_station core ! unat cor) = 0 \<and> session \<in> set (rc_sessions sc)"

lemma take_bit_cor: "unat (cor :: u32) < 128 \<Longrightarrow> take_bit 7 cor = cor"
  by (simp add: word_unat_eq_iff unsigned_take_bit_eq take_bit_nat_eq_self)

lemma length_reply_bytes [simp]: "length (reply_bytes r) = 9"
  by (simp add: reply_bytes_def)

lemma reply_roundtrip: "reply_of_bytes (reply_bytes r) = Inr r"
  using interpret_as_u64_append [of "[x]" "rv_val r" "[]" for x]
  by (simp add: reply_of_bytes_def reply_bytes_def)

lemma rpc_code_5: "take_bit 5 (rpc_code i) = rpc_code i"
  by (cases i) (simp_all add: rpc_code_def take_bit_eq_mod)

lemma length_serialize_to [simp]: "length (serialize_to a) = 8"
  by (simp add: serialize_to_def)

lemma serialize_args:
  "interpret_as_u64 (serialize_to a) 0 = Inr a"
  "interpret_as_u64 (serialize_to a @ serialize_to b) 0 = Inr a"
  "interpret_as_u64 (serialize_to a @ serialize_to b) 8 = Inr b"
  "interpret_as_u64 (serialize_to a @ serialize_to b @ serialize_to d) 0 = Inr a"
  "interpret_as_u64 (serialize_to a @ serialize_to b @ serialize_to d) 8 = Inr b"
  "interpret_as_u64 (serialize_to a @ serialize_to b @ serialize_to d) 16 = Inr d"
  using interpret_args(1) [of a "[]"] interpret_args(1) [of a "le_bytes 8 b"] interpret_args(2) [of a b "[]"] interpret_args(1) [of a "le_bytes 8 b @ le_bytes 8 d"]
    interpret_args(2) [of a b "le_bytes 8 d"] interpret_args(3) [of a b d]
  by (simp_all add: serialize_to_def del: le_bytes.simps)

lemma register_pending_ok:
  assumes "rpc_ready j sj session cor core sc"
  shows "register_pending cor (cj_reply_buf j) core = Inr (core\<lparr>rc_station := (rc_station core)[unat cor := ReplyEntry_new (cj_reply_buf j)]\<rparr>)"
    "cor_ready (unat cor) ((rc_station core)[unat cor := ReplyEntry_new (cj_reply_buf j)]) = Inr False"
  using assms by (simp_all add: rpc_ready_def register_pending_def add_pending_reply_def take_bit_cor cor_ready_def ReplyEntry_new_def)

lemma request_parses:
  assumes "rpc_ready j sj session cor core sc" "length data \<le> 56"
  shows "\<exists>m. build_request (cj_op j) (cj_send_buf j) (rpc_code i) cor data = Inr m \<and>
    parse_msg m = Inr (\<lparr>h_type = msg_code Req, h_rpc_id = rpc_code i, h_payload = of_nat (length data), h_cor_id = cor\<rparr>, data)"
  using build_request_parse [of "cj_op j" data "cj_send_buf j" "rpc_code i" cor] assms
  by (auto simp: rpc_ready_def take_bit_cor rpc_code_5)

text \<open>
  A request with the right header runs the callback on exactly the bytes of the arguments, and the
  reply ends up in the buffer the coroutine registered.
\<close>

lemma rpc_exchange_ok:
  assumes rdy: "rpc_ready j sj session cor core sc"
    and cb: "callbacks ! unat (rpc_code i) = f" "unat (rpc_code i) < length callbacks"
    and len: "length data \<le> 56"
    and f: "\<And>h. h_cor_id h = cor \<Longrightarrow> f (rc_app sc) h data = rbind (answer sj h reply) (\<lambda>m. Inr (app', m))"
    and req: "build_request (cj_op j) (cj_send_buf j) (rpc_code i) cor data = Inr m"
  defines "core1 \<equiv> core\<lparr>rc_station := (rc_station core)[unat cor := ReplyEntry_new (cj_reply_buf j)]\<rparr>"
  shows "\<exists>core2 sc'. rpc_exchange callbacks session m core1 sc = Inr (core2, sc') \<and> rc_app sc' = app' \<and>
    station_reply cor core2 = Inr reply \<and> rpc_ready j sj session cor core2 sc'"
proof -
  let ?h = "\<lparr>h_type = msg_code Req, h_rpc_id = rpc_code i, h_payload = of_nat (length data), h_cor_id = cor\<rparr>"
  have cor: "take_bit 7 cor = cor" using rdy by (simp add: rpc_ready_def take_bit_cor)
  have p: "parse_msg m = Inr (?h, data)" using request_parses [OF rdy len, of i] req by auto
  obtain rm rh where rm: "answer sj ?h reply = Inr rm" "parse_msg rm = Inr (rh, reply_bytes reply)"
    "h_type rh = msg_code Reply" "h_cor_id rh = cor"
    using build_reply_parse [of "fst sj" "reply_bytes reply" "snd sj" cor] rdy
    by (auto simp: rpc_ready_def answer_def cor)
  let ?sc = "sc\<lparr>rc_app := app', rc_sent := rc_sent sc @ [(session, rm)]\<rparr>"
  have srv: "recv_event_loop callbacks [(session, m)] sc = Inr (1, ?sc)"
    using rdy cb f [of ?h] rm(1)
    by (simp add: recv_event_loop_def recv_msg_def p handle_req_def rpc_ready_def)
  let ?st = "rc_station core1"
  have st: "unat cor < length ?st" "?st ! unat cor = ReplyEntry_new (cj_reply_buf j)"
    using rdy by (simp_all add: core1_def rpc_ready_def)
  obtain st' where ap: "append_reply (unat cor) (reply_bytes reply) ?st = Inr (True, st')"
    "cor_ready (unat cor) st' = Inr True" "take 9 (re_buf (st' ! unat cor)) = reply_bytes reply"
    "length st' = length ?st" "length (re_buf (st' ! unat cor)) = 9" "pending_replies (st' ! unat cor) = 0"
    using append_reply_pending [OF st(1), of "reply_bytes reply" "[]"] st rdy
    by (auto simp: ReplyEntry_new_def rpc_ready_def append_reply_def cor_ready_def write_at_def)
  have "msg_code Reply \<noteq> msg_code Req" by (simp add: msg_code_def)
  then obtain cc where cc: "poll_future [] [(session, rm)] core1 = Inr cc" "rc_station cc = st'"
    using rm ap(1,2) by (simp add: poll_future_def recv_msg_def)
  have "rpc_exchange callbacks session m core1 sc = Inr (cc, ?sc)"
    using srv cc(1) by (simp add: rpc_exchange_def)
  moreover have "station_reply cor cc = Inr reply"
    using cc(2) ap st(1) reply_roundtrip by (simp add: station_reply_def)
  moreover have "rpc_ready j sj session cor cc ?sc" using rdy cc(2) ap(4,6) st(1) by (simp add: rpc_ready_def)
  ultimately show ?thesis by auto
qed

text \<open>A callback that does not return takes the server down.\<close>

lemma rpc_exchange_fails:
  assumes rdy: "rpc_ready j sj session cor core sc"
    and cb: "callbacks ! unat (rpc_code i) = f" "unat (rpc_code i) < length callbacks"
    and len: "length data \<le> 56"
    and f: "\<And>h. f (rc_app sc) h data = Inl e"
    and req: "build_request (cj_op j) (cj_send_buf j) (rpc_code i) cor data = Inr m"
  shows "rpc_exchange callbacks session m core1 sc = Inl e"
proof -
  have "parse_msg m = Inr (\<lparr>h_type = msg_code Req, h_rpc_id = rpc_code i, h_payload = of_nat (length data), h_cor_id = cor\<rparr>, data)"
    using request_parses [OF rdy len, of i] req by auto
  then show ?thesis using cb f by (simp add: rpc_exchange_def recv_event_loop_def recv_msg_def handle_req_def)
qed

lemma remote_call_ok:
  assumes rdy: "rpc_ready j sj session cor core sc"
    and cb: "callbacks ! unat (rpc_code i) = f" "unat (rpc_code i) < length callbacks" and len: "length data \<le> 56"
    and f: "\<And>h. f (rc_app sc) h data = rbind (answer sj h reply) (\<lambda>m. Inr (app', m))"
  shows "\<exists>core' sc'. remote_call callbacks session j cor i data core sc = Inr (core', sc') \<and> rc_app sc' = app' \<and> rpc_ready j sj session cor core' sc'"
proof -
  obtain m where m: "build_request (cj_op j) (cj_send_buf j) (rpc_code i) cor data = Inr m" using request_parses [OF rdy len] by blast
  show ?thesis using rpc_exchange_ok [OF rdy cb len f m] register_pending_ok(1) [OF rdy] m by (auto simp: remote_call_def)
qed

lemma remote_query_ok:
  assumes rdy: "rpc_ready j sj session cor core sc"
    and cb: "callbacks ! unat (rpc_code GET) = f" "unat (rpc_code GET) < length callbacks" and len: "length data \<le> 56"
    and f: "\<And>h. f (rc_app sc) h data = rbind (answer sj h reply) (\<lambda>m. Inr (app', m))"
  shows "\<exists>core' sc'. remote_query callbacks session j cor data core sc = Inr (if rv_status reply then Some (rv_val reply) else None, core', sc') \<and>
    rc_app sc' = app' \<and> rpc_ready j sj session cor core' sc'"
proof -
  obtain m where m: "build_request (cj_op j) (cj_send_buf j) (rpc_code GET) cor data = Inr m" using request_parses [OF rdy len] by blast
  obtain core2 sc' where x: "rpc_exchange callbacks session m (core\<lparr>rc_station := (rc_station core)[unat cor := ReplyEntry_new (cj_reply_buf j)]\<rparr>) sc = Inr (core2, sc')"
    "rc_app sc' = app'" "station_reply cor core2 = Inr reply" "rpc_ready j sj session cor core2 sc'" using rpc_exchange_ok [OF rdy cb len f m] by blast
  show ?thesis using x m register_pending_ok [OF rdy] by (simp add: remote_query_def)
qed

lemma remote_query_fails:
  assumes rdy: "rpc_ready j sj session cor core sc"
    and cb: "callbacks ! unat (rpc_code GET) = f" "unat (rpc_code GET) < length callbacks" and len: "length data \<le> 56"
    and f: "\<And>h. f (rc_app sc) h data = Inl e"
  shows "remote_query callbacks session j cor data core sc = Inl e"
proof -
  obtain m where m: "build_request (cj_op j) (cj_send_buf j) (rpc_code GET) cor data = Inr m" using request_parses [OF rdy len] by blast
  show ?thesis using rpc_exchange_fails [OF rdy cb len f m] m register_pending_ok [OF rdy] by (simp add: remote_query_def)
qed

section \<open>Surroundings of a call\<close>

definition sample_op :: rpc_op where
  "sample_op = \<lparr>op_header = \<lparr>h_type = 0, h_rpc_id = 0, h_payload = 0, h_cor_id = 0\<rparr>, op_msg = [], op_msg_sz = 0, op_cur = 0\<rparr>"

definition sample_call :: call_junk where
  "sample_call = \<lparr>cj_op = sample_op, cj_send_buf = replicate 64 0, cj_reply_buf = replicate 9 0\<rparr>"

definition sample_stack :: stack_junk where
  "sample_stack = (sample_op, replicate 64 0)"

definition sample_core :: "'s \<Rightarrow> 's rpc_core" where
  "sample_core app = \<lparr>rc_station = [\<lparr>pending_replies = 0, re_buf = [], re_cur = 0\<rparr>], rc_sessions = [7], rc_app = app,
    rc_sent = [], rc_runnable = []\<rparr>"

definition sample_reply :: reply_value where
  "sample_reply = \<lparr>rv_status = False, rv_val = 0\<rparr>"

lemma sample_rpc_ready: "rpc_ready sample_call sample_stack 7 0 (sample_core ()) (sample_core app)"
  by (simp add: rpc_ready_def sample_call_def sample_stack_def sample_op_def sample_core_def header_wf_def)

end
