(* ===== verification/Outback_Client.thy ===== *)
theory Outback_Client
  imports Rpc_Call
begin

text \<open>
  The compute node's calls of \<open>outback/outback_client.hh\<close> and the whole exchange with the memory node:
  the client computes the location from its copy of the lookup unit, sends the request, sleeps, and
  reads the reply from the buffer it registered; after a PUT that reseeded a row it copies the new
  seed. A call is cut at the point where the coroutine yields (\<open>_send\<close> and \<open>_finish\<close>), and \<open>exchange\<close>
  runs the two dispatch loops in between.

  Shown: a GET of a stored key returns its value; a PUT has on the server exactly the effect of the
  handler, and leaves the client's lookup unit equal to the server's; the request that
  \<open>remote_remove\<close> builds is refused by the server's size check.
\<close>

section \<open>Definitions\<close>

record client =
  cl_lookup :: ludo_dp
  cl_core :: "unit rpc_core"

text \<open>\<open>SLOTS_NUM_BUCKET * loc.first + loc.second\<close> is computed in 32 bits (\<open>loc_of\<close>).\<close>

definition key_num :: "client \<Rightarrow> u64 \<Rightarrow> (u32 \<times> u64) res" where
  "key_num c key = rbind (lookup_slot (cl_lookup c) key) (\<lambda>(b, s). Inr (b, loc_of b s))"

definition register_reply :: "u32 \<Rightarrow> u8 list \<Rightarrow> client \<Rightarrow> client res" where
  "register_reply cor reply_buf c = rbind (register_pending cor reply_buf (cl_core c)) (\<lambda>core. Inr (c\<lparr>cl_core := core\<rparr>))"

definition remote_search_send :: "call_junk \<Rightarrow> u32 \<Rightarrow> u64 \<Rightarrow> client \<Rightarrow> (u8 list \<times> client) res" where
  "remote_search_send j cor key c =
    rbind (key_num c key) (\<lambda>(b, num).
    rbind (register_reply cor (cj_reply_buf j) c) (\<lambda>c'.
    rbind (cor_ready (unat cor) (rc_station (cl_core c'))) (\<lambda>ready.
    if ready then Inl AssertFailed
    else rbind (build_request (cj_op j) (cj_send_buf j) (rpc_code GET) cor (serialize_to num @ serialize_to key)) (\<lambda>m.
      Inr (m, c')))))"

definition read_reply :: "u32 \<Rightarrow> client \<Rightarrow> reply_value res" where
  "read_reply cor c = station_reply cor (cl_core c)"

definition remote_search_finish :: "u32 \<Rightarrow> client \<Rightarrow> u64 option res" where
  "remote_search_finish cor c =
    rbind (read_reply cor c) (\<lambda>r. Inr (if rv_status r then Some (rv_val r) else None))"

definition remote_put_send :: "call_junk \<Rightarrow> u32 \<Rightarrow> u64 \<Rightarrow> u64 \<Rightarrow> client \<Rightarrow> ((u32 \<times> u8 list) \<times> client) res" where
  "remote_put_send j cor key val c =
    rbind (key_num c key) (\<lambda>(b, num).
    rbind (register_reply cor (cj_reply_buf j) c) (\<lambda>c'.
    rbind (build_request (cj_op j) (cj_send_buf j) (rpc_code PUT) cor
             (serialize_to num @ serialize_to key @ serialize_to val)) (\<lambda>m.
    Inr ((b, m), c'))))"

definition remote_put_finish :: "u32 \<Rightarrow> u32 \<Rightarrow> client \<Rightarrow> client res" where
  "remote_put_finish cor b c =
    rbind (read_reply cor c) (\<lambda>r.
    if rv_status r then
      if rv_val r AND push_bit 8 1 \<noteq> 0
      then rbind (updateSeed (cl_lookup c) (ucast b) (ucast (rv_val r AND 0xFF))) (\<lambda>d. Inr (c\<lparr>cl_lookup := d\<rparr>))
      else Inr c
    else Inl ExitProcess)"

definition remote_update_send :: "call_junk \<Rightarrow> u32 \<Rightarrow> u64 \<Rightarrow> u64 \<Rightarrow> client \<Rightarrow> (u8 list \<times> client) res" where
  "remote_update_send j cor key val c =
    rbind (key_num c key) (\<lambda>(b, num).
    rbind (register_reply cor (cj_reply_buf j) c) (\<lambda>c'.
    rbind (build_request (cj_op j) (cj_send_buf j) (rpc_code UPDATE) cor
             (serialize_to num @ serialize_to key @ serialize_to val)) (\<lambda>m.
    Inr (m, c'))))"

text \<open>\<open>remote_remove\<close> sends the key alone.\<close>

definition remote_remove_send :: "call_junk \<Rightarrow> u32 \<Rightarrow> u64 \<Rightarrow> client \<Rightarrow> (u8 list \<times> client) res" where
  "remote_remove_send j cor key c =
    rbind (register_reply cor (cj_reply_buf j) c) (\<lambda>c'.
    rbind (build_request (cj_op j) (cj_send_buf j) (rpc_code DELETE) cor (serialize_to key)) (\<lambda>m.
    Inr (m, c')))"

definition remote_scan_send :: "call_junk \<Rightarrow> u32 \<Rightarrow> u64 \<Rightarrow> u64 \<Rightarrow> client \<Rightarrow> (u8 list \<times> client) res" where
  "remote_scan_send j cor key n c =
    rbind (register_reply cor (cj_reply_buf j) c) (\<lambda>c'.
    rbind (build_request (cj_op j) (cj_send_buf j) (rpc_code SCAN) cor (serialize_to key @ serialize_to n)) (\<lambda>m.
    Inr (m, c')))"

definition exchange :: "server rpc_callback list \<Rightarrow> u32 \<Rightarrow> u8 list \<Rightarrow> client \<Rightarrow> server rpc_core \<Rightarrow>
    (client \<times> server rpc_core) res" where
  "exchange callbacks session req c sc =
    rbind (rpc_exchange callbacks session req (cl_core c) sc) (\<lambda>(core, sc'). Inr (c\<lparr>cl_core := core\<rparr>, sc'))"

definition remote_search :: "server rpc_callback list \<Rightarrow> u32 \<Rightarrow> call_junk \<Rightarrow> u32 \<Rightarrow> u64 \<Rightarrow> client \<Rightarrow> server rpc_core \<Rightarrow>
    (u64 option \<times> client \<times> server rpc_core) res" where
  "remote_search callbacks session j cor key c sc =
    rbind (remote_search_send j cor key c) (\<lambda>(req, c1).
    rbind (exchange callbacks session req c1 sc) (\<lambda>(c2, sc').
    rbind (remote_search_finish cor c2) (\<lambda>v. Inr (v, c2, sc'))))"

definition remote_put :: "server rpc_callback list \<Rightarrow> u32 \<Rightarrow> call_junk \<Rightarrow> u32 \<Rightarrow> u64 \<Rightarrow> u64 \<Rightarrow> client \<Rightarrow> server rpc_core \<Rightarrow>
    (client \<times> server rpc_core) res" where
  "remote_put callbacks session j cor key val c sc =
    rbind (remote_put_send j cor key val c) (\<lambda>((b, req), c1).
    rbind (exchange callbacks session req c1 sc) (\<lambda>(c2, sc').
    rbind (remote_put_finish cor b c2) (\<lambda>c3. Inr (c3, sc'))))"

definition remote_remove :: "server rpc_callback list \<Rightarrow> u32 \<Rightarrow> call_junk \<Rightarrow> u32 \<Rightarrow> u64 \<Rightarrow> client \<Rightarrow> server rpc_core \<Rightarrow>
    (client \<times> server rpc_core) res" where
  "remote_remove callbacks session j cor key c sc =
    rbind (remote_remove_send j cor key c) (\<lambda>(req, c1). exchange callbacks session req c1 sc)"

section \<open>The exchange\<close>

abbreviation call_ready :: "call_junk \<Rightarrow> stack_junk \<Rightarrow> u32 \<Rightarrow> u32 \<Rightarrow> client \<Rightarrow> server rpc_core \<Rightarrow> bool" where
  "call_ready j sj session cor c sc \<equiv> rpc_ready j sj session cor (cl_core c) sc"

lemma register_reply_ok:
  assumes "call_ready j sj session cor c sc"
  shows "register_reply cor (cj_reply_buf j) c = Inr (c\<lparr>cl_core := (cl_core c)\<lparr>rc_station :=
    (rc_station (cl_core c))[unat cor := ReplyEntry_new (cj_reply_buf j)]\<rparr>\<rparr>)"
  using register_pending_ok(1) [OF assms] by (simp add: register_reply_def)

lemma exchange_ok:
  assumes rdy: "call_ready j sj session cor c sc"
    and cb: "callbacks ! unat (rpc_code i) = f" "unat (rpc_code i) < length callbacks"
    and len: "length data \<le> 56"
    and f: "\<And>h. h_cor_id h = cor \<Longrightarrow> f (rc_app sc) h data = rbind (answer sj h reply) (\<lambda>m. Inr (app', m))"
    and req: "build_request (cj_op j) (cj_send_buf j) (rpc_code i) cor data = Inr m"
  defines "c1 \<equiv> c\<lparr>cl_core := (cl_core c)\<lparr>rc_station :=
    (rc_station (cl_core c))[unat cor := ReplyEntry_new (cj_reply_buf j)]\<rparr>\<rparr>"
  shows "\<exists>c2 sc'. exchange callbacks session m c1 sc = Inr (c2, sc') \<and> rc_app sc' = app' \<and>
    cl_lookup c2 = cl_lookup c \<and> read_reply cor c2 = Inr reply"
  using rpc_exchange_ok [OF rdy cb len f req] by (auto simp: exchange_def read_reply_def c1_def)

text \<open>The location a client computes is that of the bucket and the seed its lookup unit holds.\<close>

lemma key_num_ok:
  assumes "ld_wf (cl_lookup c)" "ld_quiet (cl_lookup c)"
  shows "key_num c key = Inr (bucket_of (cl_lookup c) key,
    loc_of (bucket_of (cl_lookup c) key) (slot_of (ld_seeds (cl_lookup c) ! unat (bucket_of (cl_lookup c) key)) key))"
  using lookup_slot_eq [OF assms] by (simp add: key_num_def)

lemma request_returns:
  assumes "call_ready j sj session cor c sc" "length data \<le> 56"
  obtains m where "build_request (cj_op j) (cj_send_buf j) (rpc_code i) cor data = Inr m"
  using request_parses [OF assms] by blast

section \<open>Properties\<close>

text \<open>
  (C12) A GET over the network. When the client's lookup unit is the server's and the server stores the
  key in the bucket that unit selects, \<open>remote_search\<close> returns the stored value.
\<close>

theorem remote_search_stored:
  assumes "call_ready j sj session cor c sc" and "srv_inv (rc_app sc)"
    and "cl_lookup c = sv_lookup (rc_app sc)" and "ld_wf (cl_lookup c)" and "ld_quiet (cl_lookup c)"
    and "unat (ld_num_buckets (cl_lookup c)) \<le> 2 ^ 30"
    and "srv_map (rc_app sc) (unat (bucket_of (cl_lookup c) key), key) = Some v"
  shows "\<exists>c' sc'. remote_search (server_callbacks sj rj) session j cor key c sc = Inr (Some v, c', sc') \<and>
    rc_app sc' = rc_app sc \<and> cl_lookup c' = cl_lookup c"
proof -
  let ?b = "bucket_of (cl_lookup c) key"
  let ?num = "loc_of ?b (slot_of (ld_seeds (cl_lookup c) ! unat ?b) key)"
  let ?data = "serialize_to ?num @ serialize_to key"
  have b: "unat ?b < 2 ^ 30" using bucket_of_lt [OF assms(4), of key] assms(4,6) by (simp add: ld_wf_def)
  have get: "do_get (rc_app sc) ?num = Inr \<lparr>rv_status = True, rv_val = v\<rparr>"
    using do_get_map [OF assms(2,7) b] assms(3) by simp
  obtain m where m: "build_request (cj_op j) (cj_send_buf j) (rpc_code GET) cor ?data = Inr m"
    using request_returns [OF assms(1), of ?data GET] by (auto simp: serialize_args)
  have cb: "outback_get_callback sj (rc_app sc) h ?data =
      rbind (answer sj h \<lparr>rv_status = True, rv_val = v\<rparr>) (\<lambda>m. Inr (rc_app sc, m))" for h
    by (simp add: outback_get_callback_def serialize_args get)
  obtain c2 sc' where ex: "exchange (server_callbacks sj rj) session m
      (c\<lparr>cl_core := (cl_core c)\<lparr>rc_station := (rc_station (cl_core c))[unat cor := ReplyEntry_new (cj_reply_buf j)]\<rparr>\<rparr>) sc = Inr (c2, sc')"
    "rc_app sc' = rc_app sc" "cl_lookup c2 = cl_lookup c" "read_reply cor c2 = Inr \<lparr>rv_status = True, rv_val = v\<rparr>"
    using exchange_ok [where f = "outback_get_callback sj" and callbacks = "server_callbacks sj rj", OF assms(1) _ _ _ cb m]
    by (auto simp: server_callbacks_def rpc_code_def)
  show ?thesis
    using assms(1) ex m key_num_ok [OF assms(4,5)] register_reply_ok [OF assms(1)]
    by (simp add: remote_search_def remote_search_send_def remote_search_finish_def cor_ready_def
        ReplyEntry_new_def rpc_ready_def)
qed

text \<open>
  (C11) A PUT over the network. When the client's lookup unit is the server's and the handler's PUT
  returns, \<open>remote_put\<close> returns, the server is in the handler's final state, and the client's lookup
  unit is again the server's: a new seed reaches the client.
\<close>

theorem remote_put_in_sync:
  assumes "call_ready j sj session cor c sc" and "srv_inv (rc_app sc)"
    and "cl_lookup c = sv_lookup (rc_app sc)" and "ld_wf (cl_lookup c)" and "ld_quiet (cl_lookup c)"
    and "unat (ld_num_buckets (cl_lookup c)) \<le> 2 ^ 30"
    and "do_put (rc_app sc) (loc_of (bucket_of (cl_lookup c) key)
           (slot_of (ld_seeds (cl_lookup c) ! unat (bucket_of (cl_lookup c) key)) key)) key val = Inr (reply, sv')"
  shows "\<exists>c' sc'. remote_put (server_callbacks sj rj) session j cor key val c sc = Inr (c', sc') \<and>
    rc_app sc' = sv' \<and> cl_lookup c' = sv_lookup sv'"
proof -
  let ?b = "bucket_of (cl_lookup c) key"
  let ?num = "loc_of ?b (slot_of (ld_seeds (cl_lookup c) ! unat ?b) key)"
  let ?data = "serialize_to ?num @ serialize_to key @ serialize_to val"
  have b: "unat ?b < 2 ^ 30" and bl: "unat ?b < length (ld_seeds (cl_lookup c))"
    using bucket_of_lt [OF assms(4), of key] assms(4,6) by (simp_all add: ld_wf_def)
  have row: "unat (row_of ?num) = unat ?b" using loc_of_parts(1) [OF b slot_of_lt4] by simp
  obtain m where m: "build_request (cj_op j) (cj_send_buf j) (rpc_code PUT) cor ?data = Inr m"
    using request_returns [OF assms(1), of ?data PUT] by (auto simp: serialize_args)
  have cb: "outback_put_callback sj (rc_app sc) h ?data = rbind (answer sj h reply) (\<lambda>m. Inr (sv', m))" for h
    by (simp add: outback_put_callback_def serialize_args assms(7))
  obtain c2 sc' where ex: "exchange (server_callbacks sj rj) session m
      (c\<lparr>cl_core := (cl_core c)\<lparr>rc_station := (rc_station (cl_core c))[unat cor := ReplyEntry_new (cj_reply_buf j)]\<rparr>\<rparr>) sc = Inr (c2, sc')"
    "rc_app sc' = sv'" "cl_lookup c2 = cl_lookup c" "read_reply cor c2 = Inr reply"
    using exchange_ok [where f = "outback_put_callback sj" and callbacks = "server_callbacks sj rj", OF assms(1) _ _ _ cb m]
    by (auto simp: server_callbacks_def rpc_code_def)
  note p = do_put_cases [OF assms(2,7)]
  have fin: "\<exists>c3. remote_put_finish cor ?b c2 = Inr c3 \<and> cl_lookup c3 = sv_lookup sv'"
  proof (cases "rv_val reply AND 256 = 0")
    case True
    then have "sv_lookup sv' = cl_lookup c" using p assms(3) by auto
    then show ?thesis using True p ex(3,4) by (simp add: remote_put_finish_def push_bit_eq_mult)
  next
    case False
    then have "rv_val reply \<notin> {1, 3}" by auto
    then have "sv_lookup sv' = (cl_lookup c)\<lparr>ld_seeds := (ld_seeds (cl_lookup c))[unat ?b := ucast (rv_val reply)]\<rparr>"
      using p False assms(3) row by simp
    moreover have "(ucast (rv_val reply AND 0xFF) :: u8) = ucast (rv_val reply)"
    proof -
      have e: "rv_val reply AND 0xFF = take_bit 8 (rv_val reply)" by (simp add: take_bit_eq_mask mask_eq_exp_minus_1)
      show ?thesis unfolding e by (rule bit_word_eqI) (auto simp: bit_simps)
    qed
    ultimately show ?thesis
      using False p ex(3,4) bl by (simp add: remote_put_finish_def updateSeed_def push_bit_eq_mult)
  qed
  show ?thesis
    using ex(1,2) fin m key_num_ok [OF assms(4,5)] register_reply_ok [OF assms(1)]
    by (auto simp: remote_put_def remote_put_send_def)
qed

text \<open>
  \<open>remote_remove\<close> sends eight bytes where \<open>outback_remove_callback\<close> asserts sixteen: whatever the
  key and the state of the two sides, the server's assertion fails.
\<close>

theorem remote_remove_refused:
  assumes "call_ready j sj session cor c sc"
  shows "remote_remove (server_callbacks sj rj) session j cor key c sc = Inl AssertFailed"
proof -
  let ?data = "serialize_to key"
  obtain m where m: "build_request (cj_op j) (cj_send_buf j) (rpc_code DELETE) cor ?data = Inr m"
    using request_returns [OF assms, of ?data DELETE] by auto
  have "outback_remove_callback sj (rc_app sc) h ?data = Inl AssertFailed" for h by (simp add: outback_remove_callback_def)
  then have "exchange (server_callbacks sj rj) session m c1 sc = Inl AssertFailed" for c1
    using rpc_exchange_fails [where f = "outback_remove_callback sj" and callbacks = "server_callbacks sj rj", OF assms _ _ _ _ m]
    by (simp add: exchange_def server_callbacks_def rpc_code_def)
  then show ?thesis
    using m register_reply_ok [OF assms] by (simp add: remote_remove_def remote_remove_send_def)
qed

section \<open>A client and a server\<close>

definition sample_client :: client where
  "sample_client = \<lparr>cl_lookup = sample_lookup, cl_core = sample_core ()\<rparr>"

lemma sample_call_ready: "call_ready sample_call sample_stack 7 0 sample_client (sample_core sample_server)"
  using sample_rpc_ready by (simp add: sample_client_def)

lemmas sample_client_facts =
  sample_call_ready sample_server_inv sample_lookup_ok

theorem remote_search_stored_witness:
  "\<exists>c' sc'. remote_search (server_callbacks sample_stack sample_reply) 7 sample_call 0 1 sample_client (sample_core sample_server)
     = Inr (Some 11, c', sc')"
  using remote_search_stored [of sample_call sample_stack 7 0 sample_client "sample_core sample_server" 1 11 sample_reply]
    sample_client_facts sample_server_map
  by (simp add: sample_client_def sample_core_def) (auto simp: sample_server_def sample_lookup_def)

theorem remote_put_in_sync_witness:
  "\<exists>c' sc'. remote_put (server_callbacks sample_stack sample_reply) 7 sample_call 0 2 22 sample_client (sample_core sample_server)
     = Inr (c', sc') \<and> ld_seeds (cl_lookup c') = [1]"
proof -
  have l: "row_of (loc_of 0 (slot_of 0 2)) = 0" using loc_of_parts(1) [of 0 "slot_of 0 2"] by simp
  obtain sv' where put: "do_put sample_server (loc_of 0 (slot_of 0 2)) 2 22 = Inr (\<lparr>rv_status = True, rv_val = 257\<rparr>, sv')"
    and sd: "ld_seeds (sv_lookup sv') = [1]" using put_sample [OF l] by blast
  have eq: "cl_lookup sample_client = sample_lookup" "rc_app (sample_core sample_server) = sample_server"
    "sv_lookup sample_server = sample_lookup" "ld_seeds sample_lookup = [0]" "ld_num_buckets sample_lookup = 1"
    by (simp_all add: sample_client_def sample_core_def sample_server_def sample_lookup_def)
  show ?thesis
    using remote_put_in_sync [OF sample_call_ready, of 2 22 "\<lparr>rv_status = True, rv_val = 257\<rparr>" sv' sample_reply]
      put sd sample_server_inv
    by (auto simp: eq sample_lookup_ok)
qed

theorem remote_remove_refused_witness:
  "remote_remove (server_callbacks sample_stack sample_reply) 7 sample_call 0 1 sample_client (sample_core sample_server) = Inl AssertFailed"
  using remote_remove_refused [OF sample_call_ready] by simp

end
