(* ===== verification/Spin_Lock.thy ===== *)
theory Spin_Lock
  imports Prelude
begin

text \<open>
  The three test-and-test-and-set locks of the code: the row lock byte of
  \<open>xcomm/src/transport/numa_transport.hh\<close>, \<open>SpinLock\<close> of \<open>xutils/spin_lock.hh\<close> (16 bits, with
  \<open>try_lock\<close>) and \<open>spinlock\<close> of \<open>race/spinlock.hh\<close>. Each is a step relation over the lock word and
  the positions of any number of threads; one exchange or one read of the word is one step.

  The locale \<open>ttas_lock\<close> states what a step may do; inside it, once for the three: at most one thread
  holds the lock, the word is set exactly while some thread holds it, and a waiting thread can always
  get the lock when nobody holds it.
\<close>

section \<open>Definitions\<close>

datatype lock_pc = Outside | TestAndSet | Spinning | Holding

type_synonym 'w lock_state = "'w word \<times> (nat \<Rightarrow> lock_pc)"

text \<open>
  \<open>numa_lock_byte\<close>: the outer \<open>while\<close> is the test-and-set, the inner one re-reads the byte.
  \<open>numa_unlock_byte\<close> stores zero.
\<close>

inductive numa_lock_step :: "8 lock_state \<Rightarrow> 8 lock_state \<Rightarrow> bool" where
  "pc t = Outside \<Longrightarrow> numa_lock_step (b, pc) (b, pc(t := TestAndSet))"
| "pc t = TestAndSet \<Longrightarrow> b = 0 \<Longrightarrow> numa_lock_step (b, pc) (1, pc(t := Holding))"
| "pc t = TestAndSet \<Longrightarrow> b \<noteq> 0 \<Longrightarrow> numa_lock_step (b, pc) (1, pc(t := Spinning))"
| "pc t = Spinning \<Longrightarrow> b \<noteq> 0 \<Longrightarrow> numa_lock_step (b, pc) (b, pc)"
| "pc t = Spinning \<Longrightarrow> b = 0 \<Longrightarrow> numa_lock_step (b, pc) (b, pc(t := TestAndSet))"
| "pc t = Holding \<Longrightarrow> numa_lock_step (b, pc) (0, pc(t := Outside))"

text \<open>
  \<open>SpinLock\<close>: \<open>lock\<close> and \<open>unlock\<close> as above with \<open>xchg16\<close>; \<open>try_lock\<close> exchanges once and returns the
  old word, so a thread that gets zero holds the lock and any other goes on without it.
\<close>

inductive spin_lock_step :: "16 lock_state \<Rightarrow> 16 lock_state \<Rightarrow> bool" where
  "pc t = Outside \<Longrightarrow> spin_lock_step (w, pc) (w, pc(t := TestAndSet))"
| "pc t = TestAndSet \<Longrightarrow> spin_lock_step (w, pc) (1, pc(t := if w = 0 then Holding else Spinning))"
| "pc t = Spinning \<Longrightarrow> spin_lock_step (w, pc) (w, pc(t := if w \<noteq> 0 then Spinning else TestAndSet))"
| "pc t = Holding \<Longrightarrow> spin_lock_step (w, pc) (0, pc(t := Outside))"
| "pc t = Outside \<Longrightarrow> spin_lock_step (w, pc) (1, pc(t := if w = 0 then Holding else Outside))"

text \<open>\<open>spin_lock\<close>, \<open>spin_unlock\<close> and \<open>spin_trylock\<close> of the RACE code.\<close>

inductive race_lock_step :: "8 lock_state \<Rightarrow> 8 lock_state \<Rightarrow> bool" where
  "pc t = Outside \<Longrightarrow> race_lock_step (w, pc) (w, pc(t := TestAndSet))"
| "pc t = TestAndSet \<Longrightarrow> race_lock_step (w, pc) (1, pc(t := if w = 0 then Holding else Spinning))"
| "pc t = Spinning \<Longrightarrow> race_lock_step (w, pc) (w, pc(t := if w \<noteq> 0 then Spinning else TestAndSet))"
| "pc t = Holding \<Longrightarrow> race_lock_step (w, pc) (0, pc(t := Outside))"
| "pc t = Outside \<Longrightarrow> race_lock_step (w, pc) (1, pc(t := if w = 0 then Holding else Outside))"

inductive_cases numa_lock_stepE: "numa_lock_step (b, pc) (b', pc')"
inductive_cases spin_lock_stepE: "spin_lock_step (b, pc) (b', pc')"
inductive_cases race_lock_stepE: "race_lock_step (b, pc) (b', pc')"

section \<open>The contract and mutual exclusion\<close>

text \<open>A step of one thread either takes a free lock, or releases, or changes neither the holders nor whether the word is set.\<close>

definition lock_effect :: "'w::len lock_state \<Rightarrow> 'w lock_state \<Rightarrow> bool" where
  "lock_effect s s' \<longleftrightarrow>
    (\<exists>t p. snd s' = (snd s)(t := p) \<and>
      ((fst s = 0 \<and> fst s' \<noteq> 0 \<and> snd s t \<noteq> Holding \<and> p = Holding) \<or>
       (fst s' = 0 \<and> snd s t = Holding \<and> p \<noteq> Holding) \<or>
       ((fst s = 0 \<longleftrightarrow> fst s' = 0) \<and> snd s t \<noteq> Holding \<and> p \<noteq> Holding)))"

definition lock_inv :: "'w::len lock_state \<Rightarrow> bool" where
  "lock_inv s \<longleftrightarrow>
    (\<forall>t t'. snd s t = Holding \<longrightarrow> snd s t' = Holding \<longrightarrow> t = t') \<and>
    (fst s \<noteq> 0 \<longleftrightarrow> (\<exists>t. snd s t = Holding))"

locale ttas_lock =
  fixes step :: "'w::len lock_state \<Rightarrow> 'w lock_state \<Rightarrow> bool"
  assumes step_effect: "step s s' \<Longrightarrow> lock_effect s s'"
    and may_request: "pc t = Outside \<Longrightarrow> step (w, pc) (w, pc(t := TestAndSet))"
    and may_retry: "pc t = Spinning \<Longrightarrow> step (0, pc) (0, pc(t := TestAndSet))"
    and may_acquire: "pc t = TestAndSet \<Longrightarrow> step (0, pc) (1, pc(t := Holding))"
begin

lemma step_inv: "step s s' \<Longrightarrow> lock_inv s \<Longrightarrow> lock_inv s'"
  by (drule step_effect) (auto simp: lock_effect_def lock_inv_def split: if_splits; metis)

lemma reachable_inv: "step\<^sup>*\<^sup>* (0, \<lambda>_. Outside) s \<Longrightarrow> lock_inv s"
proof (induction rule: rtranclp_induct)
  case base
  then show ?case by (simp add: lock_inv_def)
next
  case (step s s')
  then show ?case by (blast intro: step_inv)
qed

lemma holder_unique:
  "step\<^sup>*\<^sup>* (0, \<lambda>_. Outside) (w, pc) \<Longrightarrow> pc t = Holding \<Longrightarrow> pc t' = Holding \<Longrightarrow> t = t'"
  using reachable_inv by (fastforce simp: lock_inv_def)

lemma free_iff_no_holder:
  "step\<^sup>*\<^sup>* (0, \<lambda>_. Outside) (w, pc) \<Longrightarrow> w = 0 \<longleftrightarrow> (\<forall>t. pc t \<noteq> Holding)"
  using reachable_inv by (fastforce simp: lock_inv_def)

lemma no_deadlock:
  assumes "step\<^sup>*\<^sup>* (0, \<lambda>_. Outside) (w, pc)" and "\<forall>t. pc t \<noteq> Holding"
  shows "\<exists>s. step\<^sup>*\<^sup>* (w, pc) s \<and> snd s t = Holding"
proof -
  have w: "w = 0" using free_iff_no_holder assms by simp
  have acq: "step\<^sup>*\<^sup>* (0, pc(t := TestAndSet)) (1, pc(t := Holding))"
    using may_acquire [of "pc(t := TestAndSet)" t] by (auto intro: r_into_rtranclp)
  have "step\<^sup>*\<^sup>* (0, pc) (0, pc(t := TestAndSet))"
  proof (cases "pc t")
    case TestAndSet
    then have "pc(t := TestAndSet) = pc" by (metis fun_upd_triv)
    then show ?thesis by simp
  qed (use assms(2) in \<open>auto intro: r_into_rtranclp may_request may_retry\<close>)
  then show ?thesis using acq w by (intro exI [of _ "(1, pc(t := Holding))"]) (auto intro: rtranclp_trans)
qed

end

interpretation numa_lock: ttas_lock numa_lock_step
proof
  show "lock_effect s s'" if "numa_lock_step s s'" for s s'
    using that
  proof cases
    case (4 pc t b)
    then have "pc(t := Spinning) = pc" by auto
    with 4 show ?thesis
      by (auto simp: lock_effect_def intro!: exI [of _ t] exI [of _ Spinning] simp del: fun_upd_apply)
  qed (fastforce simp: lock_effect_def simp del: fun_upd_apply)+
qed (auto intro: numa_lock_step.intros)

interpretation spin: ttas_lock spin_lock_step
proof
  show "lock_effect s s'" if "spin_lock_step s s'" for s s'
    using that by cases (fastforce simp: lock_effect_def simp del: fun_upd_apply)+
  show "spin_lock_step (0, pc) (0, pc(t := TestAndSet))" if "pc t = Spinning" for pc t
    using spin_lock_step.intros(3) [of pc t 0] that by simp
  show "spin_lock_step (0, pc) (1, pc(t := Holding))" if "pc t = TestAndSet" for pc t
    using spin_lock_step.intros(2) [of pc t 0] that by simp
qed (rule spin_lock_step.intros(1))

interpretation race_spin: ttas_lock race_lock_step
proof
  show "lock_effect s s'" if "race_lock_step s s'" for s s'
    using that by cases (fastforce simp: lock_effect_def simp del: fun_upd_apply)+
  show "race_lock_step (0, pc) (0, pc(t := TestAndSet))" if "pc t = Spinning" for pc t
    using race_lock_step.intros(3) [of pc t 0] that by simp
  show "race_lock_step (0, pc) (1, pc(t := Holding))" if "pc t = TestAndSet" for pc t
    using race_lock_step.intros(2) [of pc t 0] that by simp
qed (rule race_lock_step.intros(1))

section \<open>Properties\<close>

text \<open>
  (C14) Mutual exclusion of the NUMA row lock: however the threads' reads, exchanges and releases of
  the lock byte interleave, at most one thread is between \<open>numa_lock_byte\<close> and \<open>numa_unlock_byte\<close>,
  and the byte is zero exactly when no thread is.
\<close>
theorem numa_lock_mutual_exclusion:
  assumes "numa_lock_step\<^sup>*\<^sup>* (0, \<lambda>_. Outside) (b, pc)"
  shows "(pc t = Holding \<longrightarrow> pc t' = Holding \<longrightarrow> t = t') \<and> (b = 0 \<longleftrightarrow> (\<forall>t. pc t \<noteq> Holding))"
  using numa_lock.holder_unique [OF assms] numa_lock.free_iff_no_holder [OF assms] by blast

text \<open>Two threads: one holds the byte, the other spins on it.\<close>

theorem numa_lock_mutual_exclusion_witness:
  "numa_lock_step\<^sup>*\<^sup>* (0, \<lambda>_. Outside) (1, ((\<lambda>_. Outside)(0 := Holding))(1 := Spinning)) \<and>
   {t :: nat. (((\<lambda>_. Outside)(0 := Holding))(1 := Spinning)) t = Holding} = {0}"
    (is "numa_lock_step\<^sup>*\<^sup>* ?s (1, ?pc) \<and> _")
proof -
  have "numa_lock_step (0, \<lambda>_. Outside) (0, (\<lambda>_. Outside)(0 := TestAndSet))"
    by (rule numa_lock_step.intros(1)) simp
  moreover have "numa_lock_step (0, (\<lambda>_. Outside)(0 := TestAndSet)) (1, (\<lambda>_. Outside)(0 := Holding))"
    using numa_lock_step.intros(2) [of "(\<lambda>_. Outside)(0 := TestAndSet)" 0 0] by simp
  moreover have "numa_lock_step (1, (\<lambda>_. Outside)(0 := Holding)) (1, ((\<lambda>_. Outside)(0 := Holding))(1 := TestAndSet))"
    by (rule numa_lock_step.intros(1)) simp
  moreover have "numa_lock_step (1, ((\<lambda>_. Outside)(0 := Holding))(1 := TestAndSet)) (1, ?pc)"
    using numa_lock_step.intros(3) [of "((\<lambda>_. Outside)(0 := Holding))(1 := TestAndSet)" 1 1] by simp
  ultimately have r: "numa_lock_step\<^sup>*\<^sup>* ?s (1, ?pc)"
    by (meson rtranclp.rtrancl_into_rtrancl rtranclp.rtrancl_refl)
  have "?pc t = Holding \<longrightarrow> ?pc t' = Holding \<longrightarrow> t = t'" for t t'
    by (rule numa_lock_mutual_exclusion [OF r, of t t', THEN conjunct1])
  then have "?pc t = Holding \<longleftrightarrow> t = 0" for t by (metis fun_upd_def zero_neq_one)
  with r show ?thesis by blast
qed

text \<open>
  The RACE spin lock and \<open>SpinLock\<close> cannot deadlock: in every reachable state in which no thread
  holds the lock, each thread has a run of steps that gives it the lock.
\<close>
theorem spin_lock_no_deadlock:
  assumes "race_lock_step\<^sup>*\<^sup>* (0, \<lambda>_. Outside) (w, pc)" and "\<forall>t. pc t \<noteq> Holding"
    and "spin_lock_step\<^sup>*\<^sup>* (0, \<lambda>_. Outside) (w2, pc2)" and "\<forall>t. pc2 t \<noteq> Holding"
  shows "(\<exists>s. race_lock_step\<^sup>*\<^sup>* (w, pc) s \<and> snd s t = Holding) \<and>
         (\<exists>s. spin_lock_step\<^sup>*\<^sup>* (w2, pc2) s \<and> snd s t = Holding)"
  using race_spin.no_deadlock [OF assms(1,2)] spin.no_deadlock [OF assms(3,4)] by blast

theorem spin_lock_no_deadlock_witness:
  "(\<exists>s. race_lock_step\<^sup>*\<^sup>* (0, \<lambda>_. Outside) s \<and> snd s 3 = Holding) \<and>
   (\<exists>s. spin_lock_step\<^sup>*\<^sup>* (0, \<lambda>_. Outside) s \<and> snd s 3 = Holding)"
  using spin_lock_no_deadlock [of 0 "\<lambda>_. Outside" 0 "\<lambda>_. Outside" 3] by simp

end
