(* ===== verification/Numa_Transport.thy ===== *)
theory Numa_Transport
  imports Ludo_Slot Spin_Lock
begin

text \<open>
  The shared-memory transport of \<open>xcomm/src/transport/numa_transport.hh\<close>: the names of the shared
  objects, the registry that server and clients map (state of the resize, epochs, client table,
  allocation lanes), the versioned data regions, and the one-byte row locks.

  A data region is kept as its three arrays (records, buckets, lock bytes); \<open>region_layout\<close> computes
  the offsets the code computes, and \<open>region_layout_disjoint\<close> shows that the three arrays lie inside
  the region and do not overlap, which is what makes the typed view right. A region is named by its
  version; \<open>numa_region_name_inj\<close> shows that different versions have different names. The outcome of a
  system call is an argument (\<open>os_calls\<close>).

  The row locks are in \<open>Spin_Lock\<close>; here an operation under its row lock is one step.
\<close>

section \<open>Definitions: names and layout\<close>

definition kNumaMetaMagic :: u64 where "kNumaMetaMagic = 0x4F55544241434B4E"
abbreviation (input) kMaxNumaLanes :: nat where "kMaxNumaLanes \<equiv> 64"
abbreviation (input) kMaxClients :: nat where "kMaxClients \<equiv> 256"
abbreviation (input) kMaxEpochSlots :: u64 where "kMaxEpochSlots \<equiv> 16"

definition numa_meta_name :: "string \<Rightarrow> string" where
  "numa_meta_name server_name = ''/outback_numa_meta_'' @ server_name"

text \<open>\<open>std::to_string\<close>\<close>

fun to_string :: "nat \<Rightarrow> string" where
  "to_string n = (if n < 10 then [char_of (48 + n)] else to_string (n div 10) @ [char_of (48 + n mod 10)])"

declare to_string.simps [simp del]

definition numa_region_name :: "string \<Rightarrow> u64 \<Rightarrow> string" where
  "numa_region_name server_name version =
    (if version = 0 then ''/outback_numa_region_'' @ server_name
     else ''/outback_numa_region_'' @ server_name @ ''_v'' @ to_string (unat version))"

text \<open>\<open>std::isalnum\<close> in the C locale\<close>

definition isalnum :: "char \<Rightarrow> bool" where
  "isalnum c = (let n = of_char c :: nat in (48 \<le> n \<and> n \<le> 57) \<or> (65 \<le> n \<and> n \<le> 90) \<or> (97 \<le> n \<and> n \<le> 122))"

definition make_numa_server_name :: "string \<Rightarrow> string" where
  "make_numa_server_name server_addr =
    (let name = map (\<lambda>c. if isalnum c \<or> c = CHR ''_'' \<or> c = CHR ''-'' then c else CHR ''_'') server_addr
     in if name = [] then ''default'' else name)"

definition align_up :: "u64 \<Rightarrow> u64 \<Rightarrow> u64" where
  "align_up value alignment = (value + alignment - 1) AND NOT (alignment - 1)"

text \<open>\<open>sizeof(LudoBucket)\<close>\<close>

definition sizeof_ludo_bucket :: u64 where
  "sizeof_ludo_bucket = 32"

record layout =
  ly_packed_off :: u64
  ly_ludo_off :: u64
  ly_lock_off :: u64
  ly_total :: u64

text \<open>The offsets, as \<open>setup_ludo_table\<close> and \<open>do_copy\<close> compute them.\<close>

definition region_layout :: "u64 \<Rightarrow> u64 \<Rightarrow> u64 \<Rightarrow> layout" where
  "region_layout entries buckets bucket_size =
    (let packed_size = entries * sizeof_packed_struct;
         ludo_size = buckets * bucket_size;
         lock_size = buckets * 1;
         packed_off = align_up 0 64;
         ludo_off = align_up (packed_off + packed_size) 64;
         lock_off = align_up (ludo_off + ludo_size) 64;
         total = align_up (lock_off + lock_size) 4096
     in \<lparr>ly_packed_off = packed_off, ly_ludo_off = ludo_off, ly_lock_off = lock_off, ly_total = total\<rparr>)"

section \<open>Definitions: the registry\<close>

datatype op_status = OK | NOT_FOUND | PRE_RESIZE_STATUS | RETRY_LATER | DEFERRED | STALE_VERSION | INTERNAL_ERROR

definition op_status_code :: "op_status \<Rightarrow> u64" where
  "op_status_code s = (case s of OK \<Rightarrow> 0 | NOT_FOUND \<Rightarrow> 1 | PRE_RESIZE_STATUS \<Rightarrow> 2 | RETRY_LATER \<Rightarrow> 3
     | DEFERRED \<Rightarrow> 4 | STALE_VERSION \<Rightarrow> 5 | INTERNAL_ERROR \<Rightarrow> 6)"

datatype resize_state = NORMAL | PRE_RESIZE | COPYING | READY_TO_SWITCH | DRAIN_OLD | GC_PENDING

record client_liveness =
  cl_last_heartbeat_ns :: u64
  cl_last_seen_generation :: u64
  cl_active :: u32

record resize_epoch =
  ep_version :: u64
  ep_publish_ts_ns :: u64
  ep_region_size :: u64
  ep_num_buckets :: u64
  ep_num_data_entries :: u64
  ep_packed_array_offset :: u64
  ep_ludo_buckets_offset :: u64
  ep_lock_array_offset :: u64
  ep_global_depth :: u32
  ep_directory_size :: u32
  ep_directory_version :: u32
  ep_clients_pending_ack :: u64
  ep_active_readers :: u64
  ep_active_writers :: u64
  ep_published :: u32
  ep_cleanup_allowed :: u32

record registry =
  sr_magic :: u64
  sr_protocol_version :: u32
  sr_resize_state :: resize_state
  sr_current_version :: u64
  sr_previous_version :: u64
  sr_generation :: u64
  sr_ready :: u64
  sr_numa_node :: int
  sr_s_slow :: u64
  sr_s_stop :: u64
  sr_registered_clients :: u64
  sr_deferred_insert_count :: u64
  sr_deferred_delete_count :: u64
  sr_global_depth :: u32
  sr_directory_version :: u32
  sr_epoch :: "resize_epoch list"
  sr_clients :: "client_liveness list"
  sr_mem_threads :: u32
  sr_lane_next_free_index :: "u64 list"

definition epoch_slot :: "u64 \<Rightarrow> nat" where
  "epoch_slot v = unat (v mod kMaxEpochSlots)"

definition epoch_at :: "registry \<Rightarrow> u64 \<Rightarrow> resize_epoch res" where
  "epoch_at reg v = aget (sr_epoch reg) (epoch_slot v)"

definition current_epoch :: "registry \<Rightarrow> resize_epoch res" where
  "current_epoch reg = epoch_at reg (sr_current_version reg)"

definition upd_epoch :: "u64 \<Rightarrow> (resize_epoch \<Rightarrow> resize_epoch) \<Rightarrow> registry \<Rightarrow> registry res" where
  "upd_epoch v f reg =
    rbind (epoch_at reg v) (\<lambda>ep. rbind (aset (sr_epoch reg) (epoch_slot v) (f ep)) (\<lambda>es.
    Inr (reg\<lparr>sr_epoch := es\<rparr>)))"

abbreviation zero_epoch :: resize_epoch where
  "zero_epoch \<equiv> \<lparr>ep_version = 0, ep_publish_ts_ns = 0, ep_region_size = 0, ep_num_buckets = 0,
    ep_num_data_entries = 0, ep_packed_array_offset = 0, ep_ludo_buckets_offset = 0,
    ep_lock_array_offset = 0, ep_global_depth = 0, ep_directory_size = 0, ep_directory_version = 0,
    ep_clients_pending_ack = 0, ep_active_readers = 0, ep_active_writers = 0, ep_published = 0,
    ep_cleanup_allowed = 0\<rparr>"

abbreviation zero_client :: client_liveness where
  "zero_client \<equiv> \<lparr>cl_last_heartbeat_ns = 0, cl_last_seen_generation = 0, cl_active = 0\<rparr>"

text \<open>\<open>memset(mapped, 0, sizeof(SharedNumaRegistry))\<close> and the stores after it\<close>

definition fresh_registry :: registry where
  "fresh_registry = \<lparr>sr_magic = kNumaMetaMagic, sr_protocol_version = 1, sr_resize_state = NORMAL,
    sr_current_version = 1, sr_previous_version = 0, sr_generation = 0, sr_ready = 0, sr_numa_node = 0,
    sr_s_slow = 0, sr_s_stop = 0, sr_registered_clients = 0, sr_deferred_insert_count = 0,
    sr_deferred_delete_count = 0, sr_global_depth = 0, sr_directory_version = 0,
    sr_epoch = replicate 16 zero_epoch, sr_clients = replicate kMaxClients zero_client,
    sr_mem_threads = 0, sr_lane_next_free_index = replicate kMaxNumaLanes 0\<rparr>"

section \<open>Definitions: shared memory\<close>

record region =
  rg_packed :: "packed_struct list"
  rg_ludo :: "ludo_bucket list"
  rg_lock :: "u8 list"

text \<open>
  The data regions in shared memory: the contents by version, and which region names are still linked
  (an unlinked region stays alive for those who mapped it).
\<close>

record shm =
  sh_regions :: "u64 \<Rightarrow> region option"
  sh_linked :: "u64 \<Rightarrow> bool"

record os_calls =
  os_shm_open :: bool
  os_ftruncate :: bool
  os_mmap :: bool

definition zero_region :: "nat \<Rightarrow> nat \<Rightarrow> region" where
  "zero_region entries buckets = \<lparr>rg_packed = replicate entries zero_struct,
    rg_ludo = replicate buckets (replicate SLOTS_NUM_BUCKET 0), rg_lock = replicate buckets 0\<rparr>"

text \<open>
  \<open>map_numa_registry(name, create, \<dots>)\<close> on the registry object of that name, if there is one; \<open>None\<close> is
  \<open>return false\<close>.
\<close>

definition map_numa_registry :: "os_calls \<Rightarrow> bool \<Rightarrow> registry option \<Rightarrow> registry option" where
  "map_numa_registry os create meta =
    (if \<not> os_shm_open os \<or> (\<not> create \<and> meta = None) then None
     else if create \<and> \<not> os_ftruncate os then None
     else if \<not> os_mmap os then None
     else if create then Some fresh_registry else meta)"

definition create_shared_numa_region :: "os_calls \<Rightarrow> u64 \<Rightarrow> nat \<Rightarrow> nat \<Rightarrow> shm \<Rightarrow> shm option" where
  "create_shared_numa_region os version entries buckets s =
    (if \<not> os_shm_open os then None
     else if \<not> os_ftruncate os then None
     else if \<not> os_mmap os then None
     else Some (s\<lparr>sh_regions := (sh_regions s)(version \<mapsto> zero_region entries buckets),
                  sh_linked := (sh_linked s)(version := True)\<rparr>))"

definition open_shared_numa_region :: "os_calls \<Rightarrow> u64 \<Rightarrow> shm \<Rightarrow> region option" where
  "open_shared_numa_region os version s =
    (if \<not> os_shm_open os \<or> \<not> sh_linked s version then None
     else if \<not> os_mmap os then None
     else sh_regions s version)"

definition unlink_numa_region :: "u64 \<Rightarrow> shm \<Rightarrow> shm" where
  "unlink_numa_region version s = s\<lparr>sh_linked := (sh_linked s)(version := False)\<rparr>"

text \<open>A wrapper object over a region: \<open>LudoBuckets(mem, n)\<close> and \<open>PackedData(mem, n)\<close> with its counter.\<close>

record lb_handle =
  lh_version :: u64
  lh_numElements :: u64

record pd_handle =
  ph_version :: u64
  ph_num :: u64
  ph_numElements :: u64

definition region_of :: "shm \<Rightarrow> u64 \<Rightarrow> region res" where
  "region_of s v = (case sh_regions s v of None \<Rightarrow> Inl Unmapped | Some r \<Rightarrow> Inr r)"

definition put_region :: "u64 \<Rightarrow> region \<Rightarrow> shm \<Rightarrow> shm" where
  "put_region v r s = s\<lparr>sh_regions := (sh_regions s)(v \<mapsto> r)\<rparr>"

definition pd_view :: "shm \<Rightarrow> pd_handle \<Rightarrow> packed_data res" where
  "pd_view s h = rbind (region_of s (ph_version h)) (\<lambda>r.
    Inr \<lparr>rawArray = rg_packed r, pd_num = ph_num h, numElements = ph_numElements h\<rparr>)"

definition pd_commit :: "packed_data \<Rightarrow> pd_handle \<Rightarrow> shm \<Rightarrow> (pd_handle \<times> shm) res" where
  "pd_commit pd h s = rbind (region_of s (ph_version h)) (\<lambda>r.
    Inr (h\<lparr>ph_num := pd_num pd\<rparr>, put_region (ph_version h) (r\<lparr>rg_packed := rawArray pd\<rparr>) s))"

definition lb_view :: "shm \<Rightarrow> lb_handle \<Rightarrow> ludo_buckets res" where
  "lb_view s h = rbind (region_of s (lh_version h)) (\<lambda>r.
    Inr (LudoBuckets_external (rg_ludo r) (lh_numElements h)))"

definition lb_commit :: "ludo_buckets \<Rightarrow> lb_handle \<Rightarrow> shm \<Rightarrow> shm res" where
  "lb_commit lb h s = rbind (region_of s (lh_version h)) (\<lambda>r.
    Inr (put_region (lh_version h) (r\<lparr>rg_ludo := bucketsArray lb\<rparr>) s))"

text \<open>\<open>new packed_data_t(base + offset, entries)\<close> over the region: the constructor overwrites the records.\<close>

definition attach_packed :: "packed_struct \<Rightarrow> u64 \<Rightarrow> u64 \<Rightarrow> shm \<Rightarrow> (pd_handle \<times> shm) res" where
  "attach_packed junk v entries s = rbind (region_of s v) (\<lambda>r.
    rbind (PackedData_map junk (rg_packed r) entries) (\<lambda>pd.
    Inr (\<lparr>ph_version = v, ph_num = pd_num pd, ph_numElements = entries\<rparr>,
         put_region v (r\<lparr>rg_packed := rawArray pd\<rparr>) s)))"

section \<open>Definitions: the row lock\<close>

text \<open>
  The lock around a whole operation, with no other thread at work: a byte that is already set is
  waited on for ever.
\<close>

definition lock_byte :: "u8 list \<Rightarrow> nat \<Rightarrow> u8 list res" where
  "lock_byte bs i = rbind (aget bs i) (\<lambda>b. if b \<noteq> 0 then Inl Diverges else aset bs i 1)"

definition unlock_byte :: "u8 list \<Rightarrow> nat \<Rightarrow> u8 list res" where
  "unlock_byte bs i = aset bs i 0"

section \<open>Definitions: the in-process server table\<close>

definition register_server_state :: "string \<Rightarrow> 's \<Rightarrow> (string \<rightharpoonup> 's) \<Rightarrow> (string \<rightharpoonup> 's)" where
  "register_server_state name st m = m(name \<mapsto> st)"

definition get_server_state :: "string \<Rightarrow> (string \<rightharpoonup> 's) \<Rightarrow> 's option" where
  "get_server_state name m = m name"

definition unregister_server_state :: "string \<Rightarrow> (string \<rightharpoonup> 's) \<Rightarrow> (string \<rightharpoonup> 's)" where
  "unregister_server_state name m = m(name := None)"

section \<open>Names\<close>

fun digits_value :: "string \<Rightarrow> nat \<Rightarrow> nat" where
  "digits_value [] acc = acc"
| "digits_value (c # cs) acc = digits_value cs (10 * acc + (of_char c - 48))"

lemma digits_value_append: "digits_value (xs @ ys) acc = digits_value ys (digits_value xs acc)"
  by (induction xs arbitrary: acc) auto

lemma digits_value_to_string: "digits_value (to_string n) 0 = n"
proof (induction n rule: to_string.induct)
  case (1 n)
  have d: "of_char (char_of (48 + m) :: char) = 48 + m" if "m < 10" for m :: nat
    using that by (simp add: of_char_of)
  show ?case
  proof (cases "n < 10")
    case True
    then show ?thesis by (subst to_string.simps) (simp add: d)
  next
    case False
    then have "digits_value (to_string n) 0 = 10 * (n div 10) + n mod 10"
      using 1 d [of "n mod 10"] by (subst to_string.simps) (simp add: digits_value_append)
    then show ?thesis by simp
  qed
qed

lemma to_string_inj: "to_string n = to_string m \<Longrightarrow> n = m"
  by (metis digits_value_to_string)

text \<open>
  Regions of one server have different shared-memory names for different versions, so creating
  the region of a new version never touches an older one, and every sanitised server name is
  non-empty and holds only letters, digits, underscores and hyphens (so no second slash).
\<close>
theorem numa_region_name_inj:
  "(numa_region_name s v = numa_region_name s v' \<longleftrightarrow> v = v') \<and>
   make_numa_server_name a \<noteq> [] \<and>
   list_all (\<lambda>c. isalnum c \<or> c = CHR ''_'' \<or> c = CHR ''-'') (make_numa_server_name a)"
proof -
  have d: "\<forall>c\<in>set ''default''. isalnum c" by (simp add: isalnum_def Let_def)
  have u: "v = v'" if "unat v = unat v'" using that by (simp add: word_unat_eq_iff)
  show ?thesis
    using d u to_string_inj [of "unat v" "unat v'"]
    by (auto simp: numa_region_name_def make_numa_server_name_def Let_def list_all_iff)
qed

section \<open>Layout\<close>

lemma unat_align_up:
  assumes "n < 64" and "unat v + 2 ^ n \<le> 2 ^ 64"
  shows "unat (align_up v (2 ^ n)) = (unat v + 2 ^ n - 1) div 2 ^ n * 2 ^ n"
proof -
  have m: "(2 ^ n - 1 :: u64) = mask n" by (simp add: mask_eq_exp_minus_1)
  have s: "unat (v + 2 ^ n - 1) = unat v + 2 ^ n - 1"
  proof -
    have "unat (v + (2 ^ n - 1)) = unat v + (2 ^ n - 1)"
    proof (subst unat_plus_if_size)
      show "(if unat v + unat (2 ^ n - 1 :: u64) < 2 ^ size v then unat v + unat (2 ^ n - 1 :: u64)
        else unat v + unat (2 ^ n - 1 :: u64) - 2 ^ size v) = unat v + (2 ^ n - 1)"
        using assms by (simp add: unat_exp_minus_1 word_size)
    qed
    then show ?thesis by (simp add: add_diff_eq)
  qed
  have "align_up v (2 ^ n) = (v + 2 ^ n - 1) AND NOT (mask n)"
    by (simp only: align_up_def m)
  also have "\<dots> = push_bit n (drop_bit n (v + 2 ^ n - 1))"
    by (rule bit_word_eqI) (auto simp: bit_simps)
  finally have "unat (align_up v (2 ^ n)) = take_bit 64 (push_bit n (drop_bit n (unat (v + 2 ^ n - 1))))"
    by (simp add: unsigned_push_bit_eq unat_drop_bit_eq)
  also have "\<dots> = take_bit 64 ((unat v + 2 ^ n - 1) div 2 ^ n * 2 ^ n)"
    by (simp add: s push_bit_eq_mult drop_bit_eq_div)
  also have "\<dots> = (unat v + 2 ^ n - 1) div 2 ^ n * 2 ^ n"
  proof (rule take_bit_nat_eq_self)
    have "(unat v + 2 ^ n - 1) div 2 ^ n * 2 ^ n \<le> unat v + 2 ^ n - 1" by simp
    also have "\<dots> < unat v + 2 ^ n" by simp
    also have "\<dots> \<le> 2 ^ 64" by fact
    finally show "(unat v + 2 ^ n - 1) div 2 ^ n * 2 ^ n < 2 ^ 64" .
  qed
  finally show ?thesis .
qed

lemma align_up_bounds:
  assumes "n < 64" and "unat v + 2 ^ n \<le> 2 ^ 64"
  shows "unat v \<le> unat (align_up v (2 ^ n))" and "unat (align_up v (2 ^ n)) < unat v + 2 ^ n"
    and "2 ^ n dvd unat (align_up v (2 ^ n))"
proof -
  let ?q = "(unat v + 2 ^ n - 1) div 2 ^ n" and ?r = "(unat v + 2 ^ n - 1) mod 2 ^ n"
  have e: "?q * 2 ^ n + ?r = unat v + 2 ^ n - 1" by (rule div_mult_mod_eq)
  have r: "?r < 2 ^ n" by simp
  have p: "(0 :: nat) < 2 ^ n" by simp
  show "unat v \<le> unat (align_up v (2 ^ n))" "unat (align_up v (2 ^ n)) < unat v + 2 ^ n"
    unfolding unat_align_up [OF assms] using e r p by linarith+
  show "2 ^ n dvd unat (align_up v (2 ^ n))"
    unfolding unat_align_up [OF assms] by simp
qed

lemmas align_up_64 = align_up_bounds [where n = 6, simplified]
lemmas align_up_4096 = align_up_bounds [where n = 12, simplified]

lemma unat_mult_small: "unat (a :: u64) * unat b < 2 ^ 64 \<Longrightarrow> unat (a * b) = unat a * unat b"
  by (simp add: unat_word_ariths)

lemma unat_add_small: "unat (a :: u64) + unat b < 2 ^ 64 \<Longrightarrow> unat (a + b) = unat a + unat b"
  by (simp add: unat_word_ariths)

lemma region_layout_facts:
  assumes "unat entries * 20 + unat buckets * (unat bucket_size + 1) + 4224 \<le> 2 ^ 64"
    and "ly = region_layout entries buckets bucket_size"
  shows "ly_packed_off ly = 0 \<and>
    unat (ly_packed_off ly) + unat entries * 20 \<le> unat (ly_ludo_off ly) \<and>
    unat (ly_ludo_off ly) + unat buckets * unat bucket_size \<le> unat (ly_lock_off ly) \<and>
    unat (ly_lock_off ly) + unat buckets \<le> unat (ly_total ly) \<and>
    64 dvd unat (ly_ludo_off ly) \<and> 64 dvd unat (ly_lock_off ly) \<and> 4096 dvd unat (ly_total ly) \<and>
    unat (ly_total ly) < unat entries * 20 + unat buckets * (unat bucket_size + 1) + 4224 \<and>
    unat (ly_ludo_off ly) < unat entries * 20 + 64"
proof -
  have z: "align_up 0 64 = 0" by code_simp
  define P where "P = entries * sizeof_packed_struct"
  define L where "L = buckets * bucket_size"
  define lo where "lo = align_up P 64"
  define ko where "ko = align_up (lo + L) 64"
  define to where "to = align_up (ko + buckets) 4096"
  have ly: "ly = \<lparr>ly_packed_off = 0, ly_ludo_off = lo, ly_lock_off = ko, ly_total = to\<rparr>"
    by (simp add: assms(2) region_layout_def Let_def z P_def L_def lo_def ko_def to_def)
  have sz: "unat sizeof_packed_struct = 20" by (simp add: sizeof_packed_struct_def)
  have sum: "unat entries * 20 + unat buckets * unat bucket_size + unat buckets + 4224 \<le> 2 ^ 64"
    using assms(1) by (simp add: algebra_simps)
  have P: "unat P = unat entries * 20"
    unfolding P_def using sum by (subst unat_mult_small) (simp_all add: sz)
  have L: "unat L = unat buckets * unat bucket_size"
    unfolding L_def using sum by (subst unat_mult_small) simp_all
  have a: "unat P \<le> unat lo" "unat lo < unat P + 64" "64 dvd unat lo"
    unfolding lo_def using align_up_64 [of P] sum P by simp_all
  have lL: "unat (lo + L) = unat lo + unat L" using a sum P L by (intro unat_add_small) linarith
  have b: "unat (lo + L) \<le> unat ko" "unat ko < unat (lo + L) + 64" "64 dvd unat ko"
    unfolding ko_def using align_up_64 [of "lo + L"] a sum P L lL by simp_all
  have kb: "unat (ko + buckets) = unat ko + unat buckets" using a b lL sum P L by (intro unat_add_small) linarith
  have c: "unat (ko + buckets) \<le> unat to" "unat to < unat (ko + buckets) + 4096" "4096 dvd unat to"
    unfolding to_def using align_up_4096 [of "ko + buckets"] a b sum P L lL kb by simp_all
  show ?thesis
    unfolding ly using a b c P L lL kb by (simp add: algebra_simps)
qed

text \<open>
  (C15) The layout of a data region: whenever the sizes do not overflow, the record array, the bucket
  array and the lock bytes lie one after the other inside the region without overlap; the buckets and
  the locks start on a cache line and the region is a whole number of pages.
\<close>
theorem region_layout_disjoint:
  assumes "unat entries * 20 + unat buckets * (unat bucket_size + 1) + 4224 \<le> 2 ^ 64"
    and "ly = region_layout entries buckets bucket_size"
  shows "ly_packed_off ly = 0 \<and>
    unat (ly_packed_off ly) + unat entries * 20 \<le> unat (ly_ludo_off ly) \<and>
    unat (ly_ludo_off ly) + unat buckets * unat bucket_size \<le> unat (ly_lock_off ly) \<and>
    unat (ly_lock_off ly) + unat buckets \<le> unat (ly_total ly) \<and>
    64 dvd unat (ly_ludo_off ly) \<and> 64 dvd unat (ly_lock_off ly) \<and> 4096 dvd unat (ly_total ly) \<and>
    unat (ly_total ly) < unat entries * 20 + unat buckets * (unat bucket_size + 1) + 4224"
  using region_layout_facts [OF assms] by simp

theorem region_layout_disjoint_witness:
  "unat (ly_ludo_off (region_layout 10 4 32)) = 256 \<and>
   unat (ly_ludo_off (region_layout 10 4 32)) + 128 \<le> unat (ly_lock_off (region_layout 10 4 32)) \<and>
   4096 dvd unat (ly_total (region_layout 10 4 32))"
proof -
  have "ly_ludo_off (region_layout 10 4 32) = 256" by code_simp
  then show ?thesis using region_layout_disjoint [of 10 4 32 "region_layout 10 4 32"] by simp
qed

end
