(* ===== verification/Numa_Table.thy ===== *)
theory Numa_Table
  imports Numa_Transport Outback_Server
begin

text \<open>
  The index of a data region as the NUMA code uses it. The client of \<open>outback_client_numa.hh\<close>, the
  handlers of \<open>outback_server_numa.hh\<close> and the replay of \<open>outback_resize.hh\<close> read and write the same
  words, but unlike the RDMA server they also place a key in a slot of its row that is not the one its
  seed gives, so a key is looked for in the whole row. This theory has the two loops they share, and
  the specification: the map from row and key to the record that the row scan finds.
\<close>

section \<open>Definitions\<close>

text \<open>\<open>for (s = 0; s < SLOTS_NUM_BUCKET; s++) if (check_slots(key, row, s) == 0) \<dots> break\<close>\<close>

fun first_free :: "ludo_buckets \<Rightarrow> u64 \<Rightarrow> u64 \<Rightarrow> u8 list \<Rightarrow> u8 option res" where
  "first_free lb key row [] = Inr None"
| "first_free lb key row (s # ss) =
    rbind (check_slots lb key row s) (\<lambda>st. if st = 0 then Inr (Some s) else first_free lb key row ss)"

text \<open>
  The scan of \<open>numa_search\<close> and \<open>replay_delete\<close>: skip the primary slot and every slot whose record
  number is 0; the first slot whose record has the key.
\<close>

fun scan_row :: "ludo_buckets \<Rightarrow> packed_data \<Rightarrow> u64 \<Rightarrow> u64 \<Rightarrow> u8 \<Rightarrow> u8 list \<Rightarrow> (u8 \<times> u64) option res" where
  "scan_row lb pd key row primary [] = Inr None"
| "scan_row lb pd key row primary (s # ss) =
    (if s = primary then scan_row lb pd key row primary ss
     else rbind (read_addr lb row s) (\<lambda>a.
       if a = 0 then scan_row lb pd key row primary ss
       else rbind (read_key pd a) (\<lambda>k.
         if k = key then Inr (Some (s, a)) else scan_row lb pd key row primary ss)))"

abbreviation row_slots :: "u8 list" where
  "row_slots \<equiv> [0, 1, 2, 3]"

text \<open>The row lock around an operation.\<close>

definition with_row_lock :: "u8 list \<Rightarrow> nat \<Rightarrow> (u8 list \<Rightarrow> 'a res) \<Rightarrow> ('a \<times> u8 list) res" where
  "with_row_lock lk row body =
    rbind (lock_byte lk row) (\<lambda>lk1. rbind (body lk1) (\<lambda>x. rbind (unlock_byte lk1 row) (\<lambda>lk2. Inr (x, lk2))))"

lemma with_row_lock_free:
  assumes "row < length lk" "lk ! row = 0"
  shows "with_row_lock lk row body = rbind (body (lk[row := 1])) (\<lambda>x. Inr (x, lk))"
proof -
  have "lk[row := 0] = lk" using assms(2) by (metis list_update_id)
  then show ?thesis using assms by (simp add: with_row_lock_def lock_byte_def unlock_byte_def)
qed

section \<open>What the loops find\<close>

lemma check_slots_zero:
  assumes "lb_wf lb" "unat row < length (bucketsArray lb)" "unat s < 4"
  shows "\<exists>st. check_slots lb key row s = Inr st \<and> (st = 0 \<longleftrightarrow> toLength (cell lb (unat row) (unat s)) = 0)"
  using assms by (simp add: check_slots_eq Let_def)

lemma first_free_Some:
  assumes "lb_wf lb" "unat row < length (bucketsArray lb)" "\<forall>s\<in>set ss. unat s < 4"
    and "\<exists>s\<in>set ss. toLength (cell lb (unat row) (unat s)) = 0"
  shows "\<exists>s\<in>set ss. first_free lb key row ss = Inr (Some s) \<and> toLength (cell lb (unat row) (unat s)) = 0"
  using assms(3,4)
proof (induction ss)
  case (Cons s ss)
  obtain st where st: "check_slots lb key row s = Inr st"
    "st = 0 \<longleftrightarrow> toLength (cell lb (unat row) (unat s)) = 0"
    using check_slots_zero [OF assms(1,2)] Cons.prems(1) by (metis list.set_intros(1))
  with Cons show ?case by (cases "st = 0") auto
qed simp

text \<open>The record a row scan finds: the primary slot first, then the other slots in order.\<close>

definition row_find :: "ludo_bucket \<Rightarrow> packed_struct list \<Rightarrow> u64 \<Rightarrow> u8 \<Rightarrow> u64 option" where
  "row_find b arr key primary =
    (let hit = (\<lambda>s. ps_key (arr ! unat (toAddr (b ! unat s))) = key) in
     if hit primary then Some (toAddr (b ! unat primary))
     else case filter (\<lambda>s. s \<noteq> primary \<and> toAddr (b ! unat s) \<noteq> 0 \<and> hit s) row_slots of
       [] \<Rightarrow> None | s # _ \<Rightarrow> Some (toAddr (b ! unat s)))"

lemma scan_row_eq:
  assumes "lb_wf lb" "unat row < length (bucketsArray lb)" "\<forall>s\<in>set ss. unat s < 4"
    and "\<forall>s\<in>set ss. unat (toAddr (cell lb (unat row) (unat s))) < length (rawArray pd)"
  shows "scan_row lb pd key row primary ss =
    (let c = (\<lambda>s. toAddr (cell lb (unat row) (unat s))) in
     Inr (case filter (\<lambda>s. s \<noteq> primary \<and> c s \<noteq> 0 \<and> ps_key (rawArray pd ! unat (c s)) = key) ss of
       [] \<Rightarrow> None | s # _ \<Rightarrow> Some (s, c s)))"
  using assms(3,4)
proof (induction ss)
  case (Cons s ss)
  then show ?case using assms(1,2) by (auto simp: read_addr_def read_key_def Let_def)
qed simp

end
