(* ===== verification/Outback_Resize.thy ===== *)
theory Outback_Resize
  imports Numa_Table
begin

text \<open>
  The resize orchestrator of \<open>outback/outback_resize.hh\<close> on the server's state: the registry, the
  shared regions, the interception flag the handlers read, the server state and the orchestrator's own
  members. A call of \<open>check_state\<close> by the monitor thread is one step; what it cannot decide itself is
  in \<open>env\<close>: the results of the system calls, the successive clock readings, the free memory, and what
  the stack held where \<open>PackedData(reg_mem, n)\<close> copies an uninitialised record from.
\<close>

section \<open>Definitions: the state\<close>

record deferred_insert =
  di_key :: u64
  di_value :: u64
  di_enqueue_ts_ns :: u64

record deferred_delete =
  dd_key :: u64
  dd_enqueue_ts_ns :: u64

record resize_metrics =
  rm_resize_count :: u64
  rm_copy_duration_ms :: u64
  rm_ack_wait_ms :: u64
  rm_drain_duration_ms :: u64
  rm_gc_delay_ms :: u64
  rm_zombie_cleanups :: u64
  rm_pressure_guard_fails :: u64
  rm_deferred_inserts_total :: u64
  rm_deferred_deletes_total :: u64

definition kZombieThresholdNs :: u64 where "kZombieThresholdNs = 30 * 1000000000"
definition kAckGraceMs :: u64 where "kAckGraceMs = 5000"
definition kGcGraceMs :: u64 where "kGcGraceMs = 2000"
definition kMaxDeferredDepth :: nat where "kMaxDeferredDepth = 1000000"

text \<open>A mapped region is known by its version; base pointer and descriptor of one mapping go together.\<close>

record srv_state =
  ss_ludo_buckets_ptr :: "lb_handle option"
  ss_packed_data_ptr :: "pd_handle option"
  ss_num_buckets :: u64
  ss_num_data_entries :: u64
  ss_lock_array :: "u64 option"
  ss_numa_node :: int
  ss_shared_region_base :: "u64 option"

record orchestrator =
  ro_new_ludo_buckets :: "lb_handle option"
  ro_new_packed_data :: "pd_handle option"
  ro_deferred_inserts :: "deferred_insert list"
  ro_deferred_deletes :: "deferred_delete list"
  ro_pending_old_ver :: u64
  ro_pending_old_base :: "u64 option"
  ro_pending_old_size :: u64
  ro_ack_wait_start :: u64
  ro_gc_start_time :: u64
  ro_metrics :: resize_metrics

record numa_sys =
  sy_reg :: registry
  sy_shm :: shm
  sy_mapped :: "u64 list"               \<comment> \<open>regions mapped by the server process\<close>
  sy_blocked :: bool                    \<comment> \<open>\<open>g_structural_mutations_blocked\<close>\<close>
  sy_orch_registered :: bool            \<comment> \<open>\<open>g_resize_orch_ptr\<close> and the two function pointers\<close>
  sy_srv :: srv_state
  sy_orch :: orchestrator
  sy_lookup :: ludo_dp
  sy_mutexes :: nat
  sy_buckets :: lb_handle               \<comment> \<open>the global \<open>ludo_buckets\<close>\<close>
  sy_packed :: pd_handle                \<comment> \<open>the global \<open>packed_data\<close>\<close>
  sy_cache :: "(u64, u64) cache option"

record env =
  en_os :: os_calls
  en_now_ns :: "nat \<Rightarrow> u64"             \<comment> \<open>the readings of the monotonic clock, in order\<close>
  en_free_bytes :: "u64 option"         \<comment> \<open>\<open>sysinfo\<close>, if it succeeds\<close>
  en_junk :: packed_struct

definition now_ms :: "env \<Rightarrow> nat \<Rightarrow> u64" where
  "now_ms e i = en_now_ns e i div 1000000"

abbreviation upd_reg :: "(registry \<Rightarrow> registry) \<Rightarrow> numa_sys \<Rightarrow> numa_sys" where
  "upd_reg f s \<equiv> s\<lparr>sy_reg := f (sy_reg s)\<rparr>"

abbreviation upd_orch :: "(orchestrator \<Rightarrow> orchestrator) \<Rightarrow> numa_sys \<Rightarrow> numa_sys" where
  "upd_orch f s \<equiv> s\<lparr>sy_orch := f (sy_orch s)\<rparr>"

abbreviation upd_metrics :: "(resize_metrics \<Rightarrow> resize_metrics) \<Rightarrow> numa_sys \<Rightarrow> numa_sys" where
  "upd_metrics f s \<equiv> upd_orch (\<lambda>r. r\<lparr>ro_metrics := f (ro_metrics r)\<rparr>) s"

section \<open>Definitions: interface to the handlers and the clients\<close>

definition structural_blocked :: "resize_state \<Rightarrow> bool" where
  "structural_blocked st = (st = COPYING \<or> st = READY_TO_SWITCH \<or> st = DRAIN_OLD)"

definition set_state :: "resize_state \<Rightarrow> numa_sys \<Rightarrow> numa_sys" where
  "set_state st s =
    upd_reg (\<lambda>r. r\<lparr>sr_resize_state := st, sr_generation := sr_generation r + 1\<rparr>)
      (s\<lparr>sy_blocked := structural_blocked st\<rparr>)"

definition start :: "numa_sys \<Rightarrow> numa_sys" where
  "start s = s\<lparr>sy_orch_registered := True\<rparr>"

definition stop :: "numa_sys \<Rightarrow> numa_sys" where
  "stop s = s\<lparr>sy_blocked := False, sy_orch_registered := False\<rparr>"

definition structural_mutations_allowed :: "numa_sys \<Rightarrow> bool" where
  "structural_mutations_allowed s =
    (sr_resize_state (sy_reg s) = NORMAL \<or> sr_resize_state (sy_reg s) = PRE_RESIZE)"

definition defer_insert :: "u64 \<Rightarrow> u64 \<Rightarrow> u64 \<Rightarrow> numa_sys \<Rightarrow> bool \<times> numa_sys" where
  "defer_insert now_ns key val s =
    (if length (ro_deferred_inserts (sy_orch s)) \<ge> kMaxDeferredDepth then (False, s)
     else (True,
       upd_metrics (\<lambda>m. m\<lparr>rm_deferred_inserts_total := rm_deferred_inserts_total m + 1\<rparr>)
       (upd_reg (\<lambda>r. r\<lparr>sr_deferred_insert_count := sr_deferred_insert_count r + 1\<rparr>)
       (upd_orch (\<lambda>r. r\<lparr>ro_deferred_inserts := ro_deferred_inserts r @
            [\<lparr>di_key = key, di_value = val, di_enqueue_ts_ns = now_ns\<rparr>]\<rparr>) s))))"

definition defer_delete :: "u64 \<Rightarrow> u64 \<Rightarrow> numa_sys \<Rightarrow> bool \<times> numa_sys" where
  "defer_delete now_ns key s =
    (if length (ro_deferred_deletes (sy_orch s)) \<ge> kMaxDeferredDepth then (False, s)
     else (True,
       upd_metrics (\<lambda>m. m\<lparr>rm_deferred_deletes_total := rm_deferred_deletes_total m + 1\<rparr>)
       (upd_reg (\<lambda>r. r\<lparr>sr_deferred_delete_count := sr_deferred_delete_count r + 1\<rparr>)
       (upd_orch (\<lambda>r. r\<lparr>ro_deferred_deletes := ro_deferred_deletes r @
            [\<lparr>dd_key = key, dd_enqueue_ts_ns = now_ns\<rparr>]\<rparr>) s))))"

text \<open>The first slot of the client table that a compare-and-swap from 0 to 1 takes.\<close>

fun claim_slot :: "nat \<Rightarrow> client_liveness list \<Rightarrow> nat option" where
  "claim_slot i [] = None"
| "claim_slot i (c # cs) = (if cl_active c = 0 then Some i else claim_slot (Suc i) cs)"

definition register_client :: "u64 \<Rightarrow> registry \<Rightarrow> int \<times> registry" where
  "register_client now_ns reg =
    (case claim_slot 0 (sr_clients reg) of
       None \<Rightarrow> (-1, reg)
     | Some i \<Rightarrow> (int i, reg\<lparr>sr_clients := (sr_clients reg)[i := \<lparr>cl_last_heartbeat_ns = now_ns,
           cl_last_seen_generation = sr_generation reg, cl_active = 1\<rparr>],
         sr_registered_clients := sr_registered_clients reg + 1\<rparr>))"

definition update_heartbeat :: "u64 \<Rightarrow> int \<Rightarrow> registry \<Rightarrow> registry" where
  "update_heartbeat now_ns client_slot reg =
    (if client_slot < 0 \<or> nat client_slot \<ge> kMaxClients then reg
     else let i = nat client_slot; c = sr_clients reg ! i in
       reg\<lparr>sr_clients := (sr_clients reg)[i := c\<lparr>cl_last_heartbeat_ns := now_ns,
         cl_last_seen_generation := sr_generation reg\<rparr>]\<rparr>)"

definition deregister_client :: "int \<Rightarrow> registry \<Rightarrow> registry" where
  "deregister_client client_slot reg =
    (if client_slot < 0 \<or> nat client_slot \<ge> kMaxClients then reg
     else let i = nat client_slot; c = sr_clients reg ! i in
       if cl_active c = 1 then reg\<lparr>sr_clients := (sr_clients reg)[i := c\<lparr>cl_active := 0\<rparr>],
            sr_registered_clients := sr_registered_clients reg - 1\<rparr>
       else reg)"

section \<open>Definitions: the triggers\<close>

text \<open>The highest lane index; the lane count is not clamped here.\<close>

definition orch_lanes :: "registry \<Rightarrow> nat" where
  "orch_lanes reg = (if sr_mem_threads reg \<noteq> 0 then unat (sr_mem_threads reg) else 1)"

definition max_lane_index :: "registry \<Rightarrow> u64 res" where
  "max_lane_index reg =
    rfold (\<lambda>i m. rbind (aget (sr_lane_next_free_index reg) i) (\<lambda>idx. Inr (if idx > m then idx else m)))
      [0..<orch_lanes reg] 0"

definition maybe_trigger_pre_resize :: "numa_sys \<Rightarrow> numa_sys res" where
  "maybe_trigger_pre_resize s =
    (if sr_s_slow (sy_reg s) = 0 then Inr s
     else rbind (max_lane_index (sy_reg s)) (\<lambda>max_idx.
       Inr (if max_idx \<ge> sr_s_slow (sy_reg s) then set_state PRE_RESIZE s else s)))"

definition memory_pressure_ok :: "env \<Rightarrow> u64 \<Rightarrow> bool" where
  "memory_pressure_ok e current_region_size =
    (case en_free_bytes e of None \<Rightarrow> True | Some free_bytes \<Rightarrow> free_bytes \<ge> current_region_size * 2)"

section \<open>Definitions: the copy\<close>

definition next_version :: "u64 \<Rightarrow> u64" where
  "next_version old_ver =
    (let v = old_ver + 1 in if v mod kMaxEpochSlots = 0 then v + 1 else v)"

definition bucket_size_each :: "resize_epoch \<Rightarrow> u64" where
  "bucket_size_each ep =
    (if ep_num_buckets ep > 0
     then (ep_lock_array_offset ep - ep_ludo_buckets_offset ep) div ep_num_buckets ep
     else sizeof_ludo_bucket)"

text \<open>\<open>memcpy\<close> and \<open>memset\<close> between arrays, in elements.\<close>

definition memcpy_front :: "'a list \<Rightarrow> 'a list \<Rightarrow> nat \<Rightarrow> 'a list res" where
  "memcpy_front dst src n =
    (if n \<le> length dst \<and> n \<le> length src then Inr (take n src @ drop n dst) else Inl OutOfBounds)"

definition memset_range :: "'a \<Rightarrow> 'a list \<Rightarrow> nat \<Rightarrow> nat \<Rightarrow> 'a list res" where
  "memset_range x dst i n =
    (if i + n \<le> length dst then Inr (take i dst @ replicate n x @ drop (i + n) dst) else Inl OutOfBounds)"

definition srv_region :: "numa_sys \<Rightarrow> u64 option \<Rightarrow> region res" where
  "srv_region s v = (case v of None \<Rightarrow> Inl NullDeref
     | Some v \<Rightarrow> if v \<in> set (sy_mapped s) then region_of (sy_shm s) v else Inl Unmapped)"

text \<open>
  The three copies into the new region. The typed view of the buckets needs the bucket size of the old
  epoch to be that of \<open>LudoBucket\<close>; another size copies bytes outside the bucket array.
\<close>

definition copy_region :: "resize_epoch \<Rightarrow> region \<Rightarrow> region \<Rightarrow> region res" where
  "copy_region old_ep old new =
    (if bucket_size_each old_ep \<noteq> sizeof_ludo_bucket then Inl OutOfBounds
     else rbind (memcpy_front (rg_packed new) (rg_packed old) (unat (ep_num_data_entries old_ep))) (\<lambda>packed.
       rbind (memcpy_front (rg_ludo new) (rg_ludo old) (unat (ep_num_buckets old_ep))) (\<lambda>ludo1.
       rbind (memset_range [0, 0, 0, 0] ludo1 (unat (ep_num_buckets old_ep)) (unat (ep_num_buckets old_ep))) (\<lambda>ludo.
       rbind (memset_range 0 (rg_lock new) 0 (unat (ep_num_buckets old_ep * 2))) (\<lambda>lk.
       Inr \<lparr>rg_packed = packed, rg_ludo = ludo, rg_lock = lk\<rparr>)))))"

definition new_epoch :: "u64 \<Rightarrow> u64 \<Rightarrow> registry \<Rightarrow> resize_epoch \<Rightarrow> resize_epoch \<Rightarrow> resize_epoch" where
  "new_epoch now new_ver reg old_ep ep =
    (let entries = ep_num_data_entries old_ep * 2; buckets = ep_num_buckets old_ep * 2;
         ly = region_layout entries buckets (bucket_size_each old_ep)
     in ep\<lparr>ep_version := new_ver, ep_publish_ts_ns := now, ep_region_size := ly_total ly,
          ep_num_buckets := buckets, ep_num_data_entries := entries,
          ep_packed_array_offset := ly_packed_off ly, ep_ludo_buckets_offset := ly_ludo_off ly,
          ep_lock_array_offset := ly_lock_off ly,
          ep_global_depth := ep_global_depth old_ep + 1,
          ep_directory_size := ep_directory_size old_ep * 2,
          ep_directory_version := ep_directory_version old_ep + 1,
          ep_clients_pending_ack := sr_registered_clients reg,
          ep_active_readers := 0, ep_active_writers := 0, ep_cleanup_allowed := 0,
          ep_published := 1\<rparr>)"

definition reset_lanes :: "u64 \<Rightarrow> registry \<Rightarrow> registry res" where
  "reset_lanes base reg =
    rbind (rfold (\<lambda>i ls. aset ls i (base + of_nat i)) [0..<orch_lanes reg] (sr_lane_next_free_index reg))
      (\<lambda>ls. Inr (reg\<lparr>sr_lane_next_free_index := ls\<rparr>))"

definition publish :: "env \<Rightarrow> u64 \<Rightarrow> u64 \<Rightarrow> resize_epoch \<Rightarrow> numa_sys \<Rightarrow> numa_sys res" where
  "publish e old_ver new_ver old_ep s =
    rbind (upd_epoch new_ver (new_epoch (en_now_ns e 1) new_ver (sy_reg s) old_ep) (sy_reg s)) (\<lambda>reg1.
    rbind (reset_lanes (ep_num_data_entries old_ep) reg1) (\<lambda>reg2.
    Inr (set_state READY_TO_SWITCH (s\<lparr>sy_reg := reg2\<lparr>sr_previous_version := old_ver,
      sr_current_version := new_ver, sr_generation := sr_generation reg2 + 1\<rparr>\<rparr>))))"

text \<open>After the publication: metrics, the old region kept for the collector, and the wrappers of the new one.\<close>

definition adopt_region :: "env \<Rightarrow> u64 \<Rightarrow> u64 \<Rightarrow> resize_epoch \<Rightarrow> numa_sys \<Rightarrow> numa_sys res" where
  "adopt_region e old_ver new_ver old_ep s =
    (let entries = ep_num_data_entries old_ep * 2; buckets = ep_num_buckets old_ep * 2;
         s1 = upd_metrics (\<lambda>m. m\<lparr>rm_copy_duration_ms := rm_copy_duration_ms m + (now_ms e 2 - now_ms e 0),
                                 rm_resize_count := rm_resize_count m + 1\<rparr>) s;
         s2 = upd_orch (\<lambda>r. r\<lparr>ro_pending_old_ver := old_ver,
                              ro_pending_old_base := ss_shared_region_base (sy_srv s),
                              ro_pending_old_size := ep_region_size old_ep, ro_gc_start_time := 0\<rparr>) s1;
         lh = \<lparr>lh_version = new_ver, lh_numElements = buckets\<rparr>
     in rbind (attach_packed (en_junk e) new_ver entries (sy_shm s2)) (\<lambda>(ph, shm').
        Inr ((upd_orch (\<lambda>r. r\<lparr>ro_new_ludo_buckets := Some lh, ro_new_packed_data := Some ph\<rparr>) s2)
          \<lparr>sy_shm := shm', sy_srv := (sy_srv s)\<lparr>ss_shared_region_base := Some new_ver,
             ss_num_buckets := buckets, ss_num_data_entries := entries, ss_lock_array := Some new_ver,
             ss_ludo_buckets_ptr := Some lh, ss_packed_data_ptr := Some ph\<rparr>\<rparr>)))"

definition do_copy :: "env \<Rightarrow> u64 \<Rightarrow> numa_sys \<Rightarrow> numa_sys res" where
  "do_copy e old_ver s0 =
    (let s = set_state COPYING s0; new_ver = next_version old_ver in
     rbind (epoch_at (sy_reg s) old_ver) (\<lambda>old_ep.
     let entries = ep_num_data_entries old_ep * 2; buckets = ep_num_buckets old_ep * 2 in
     case create_shared_numa_region (en_os e) new_ver (unat entries) (unat buckets) (sy_shm s) of
       None \<Rightarrow> Inr (set_state NORMAL s)
     | Some shm1 \<Rightarrow>
         rbind (srv_region s (ss_shared_region_base (sy_srv s))) (\<lambda>old.
         rbind (region_of shm1 new_ver) (\<lambda>new.
         rbind (copy_region old_ep old new) (\<lambda>new'.
         let s1 = s\<lparr>sy_shm := put_region new_ver new' shm1, sy_mapped := new_ver # sy_mapped s\<rparr> in
         rbind (publish e old_ver new_ver old_ep s1) (\<lambda>s2.
         adopt_region e old_ver new_ver old_ep s2))))))"

definition maybe_start_copying :: "env \<Rightarrow> numa_sys \<Rightarrow> numa_sys res" where
  "maybe_start_copying e s =
    (if sr_s_slow (sy_reg s) = 0 then Inr s
     else let cur_ver = sr_current_version (sy_reg s) in
       rbind (epoch_at (sy_reg s) cur_ver) (\<lambda>ep.
       rbind (max_lane_index (sy_reg s)) (\<lambda>max_idx.
       if max_idx < sr_s_stop (sy_reg s) then Inr s
       else if \<not> memory_pressure_ok e (ep_region_size ep)
         then Inr (upd_metrics (\<lambda>m. m\<lparr>rm_pressure_guard_fails := rm_pressure_guard_fails m + 1\<rparr>) s)
       else do_copy e cur_ver s)))"

section \<open>Definitions: acknowledgements, drain and collection\<close>

definition zombie_count :: "u64 \<Rightarrow> client_liveness list \<Rightarrow> nat" where
  "zombie_count now cs =
    length (filter (\<lambda>c. cl_active c \<noteq> 0 \<and> now - cl_last_heartbeat_ns c > kZombieThresholdNs) cs)"

definition clear_pending :: "u64 \<Rightarrow> numa_sys \<Rightarrow> numa_sys res" where
  "clear_pending v s =
    rbind (upd_epoch v (\<lambda>ep. ep\<lparr>ep_clients_pending_ack := 0\<rparr>) (sy_reg s)) (\<lambda>reg. Inr (s\<lparr>sy_reg := reg\<rparr>))"

definition wait_for_acks_or_timeout :: "env \<Rightarrow> numa_sys \<Rightarrow> numa_sys res" where
  "wait_for_acks_or_timeout e s =
    (let cur_ver = sr_current_version (sy_reg s); now = en_now_ns e 0 in
     rbind (epoch_at (sy_reg s) cur_ver) (\<lambda>ep.
     let pending = ep_clients_pending_ack ep in
     if pending = 0 then Inr (set_state DRAIN_OLD s)
     else
       let zombies = zombie_count now (sr_clients (sy_reg s));
           s1 = upd_metrics (\<lambda>m. m\<lparr>rm_zombie_cleanups := rm_zombie_cleanups m + of_nat zombies\<rparr>) s
       in if pending \<le> of_nat zombies
          then rbind (clear_pending cur_ver s1) (\<lambda>s2. Inr (set_state DRAIN_OLD s2))
          else
            let s2 = (if ro_ack_wait_start (sy_orch s1) = 0
                      then upd_orch (\<lambda>r. r\<lparr>ro_ack_wait_start := now_ms e 1\<rparr>) s1 else s1);
                elapsed = now_ms e 2 - ro_ack_wait_start (sy_orch s2)
            in if elapsed > kAckGraceMs
               then rbind (clear_pending cur_ver
                      (upd_metrics (\<lambda>m. m\<lparr>rm_ack_wait_ms := rm_ack_wait_ms m + elapsed\<rparr>) s2)) (\<lambda>s3.
                    Inr (upd_orch (\<lambda>r. r\<lparr>ro_ack_wait_start := 0\<rparr>) (set_state DRAIN_OLD s3)))
               else Inr s2))"

text \<open>The switch of \<open>replay_insert\<close> on the index and the records of the new region.\<close>

definition replay_put :: "ludo_buckets \<Rightarrow> packed_data \<Rightarrow> u64 \<Rightarrow> u8 \<Rightarrow> u64 \<Rightarrow> u64 \<Rightarrow> (ludo_buckets \<times> packed_data) res" where
  "replay_put lb pd row slot key val =
    rbind (check_slots lb key row slot) (\<lambda>status.
    if status = 0 then
      rbind (bulk_load_data pd key 8 val) (\<lambda>(addr, pd').
      rbind (write_addr lb key row slot (ucast addr) 64) (\<lambda>lb'. Inr (lb', pd')))
    else if status = 1 then
      rbind (read_addr lb row slot) (\<lambda>addr.
      rbind (read_key pd addr) (\<lambda>stored_key.
      if stored_key = key
      then rbind (update_data pd addr key 8 val) (\<lambda>(_, pd'). Inr (lb, pd'))
      else Inr (lb, pd)))
    else if status = 2 then
      rbind (first_free lb key row row_slots) (\<lambda>free.
      case free of None \<Rightarrow> Inr (lb, pd)
      | Some s \<Rightarrow>
          rbind (bulk_load_data pd key 8 val) (\<lambda>(addr, pd').
          rbind (write_addr lb key row s (ucast addr) 64) (\<lambda>lb'. Inr (lb', pd'))))
    else Inr (lb, pd))"

definition replay_del :: "ludo_buckets \<Rightarrow> packed_data \<Rightarrow> u64 \<Rightarrow> u8 \<Rightarrow> u64 \<Rightarrow> (ludo_buckets \<times> packed_data) res" where
  "replay_del lb pd row slot key =
    rbind (read_addr lb row slot) (\<lambda>addr.
    rbind (remove_data_with_key_check pd addr key) (\<lambda>(hit, pd').
    if hit then rbind (remove_addr lb row slot) (\<lambda>lb'. Inr (lb', pd'))
    else rbind (scan_row lb pd key row slot row_slots) (\<lambda>found.
      case found of None \<Rightarrow> Inr (lb, pd)
      | Some (s, a) \<Rightarrow>
          rbind (remove_data_with_key_check pd a key) (\<lambda>(_, pd'').
          rbind (remove_addr lb row s) (\<lambda>lb'. Inr (lb', pd''))))))"

text \<open>Reading the wrappers of the new region and storing them back.\<close>

definition on_new_region ::
  "(ludo_buckets \<Rightarrow> packed_data \<Rightarrow> (ludo_buckets \<times> packed_data) res) \<Rightarrow> numa_sys \<Rightarrow> numa_sys res" where
  "on_new_region f s =
    (case (ro_new_ludo_buckets (sy_orch s), ro_new_packed_data (sy_orch s)) of
       (Some lh, Some ph) \<Rightarrow>
         rbind (lb_view (sy_shm s) lh) (\<lambda>lb.
         rbind (pd_view (sy_shm s) ph) (\<lambda>pd.
         rbind (f lb pd) (\<lambda>(lb', pd').
         rbind (lb_commit lb' lh (sy_shm s)) (\<lambda>shm1.
         rbind (pd_commit pd' ph shm1) (\<lambda>(ph', shm2).
         Inr (upd_orch (\<lambda>r. r\<lparr>ro_new_packed_data := Some ph'\<rparr>) (s\<lparr>sy_shm := shm2\<rparr>)))))))
     | _ \<Rightarrow> Inr s)"

definition sys_lock_row :: "numa_sys \<Rightarrow> u64 \<Rightarrow> unit res" where
  "sys_lock_row s row = (if unat row < sy_mutexes s then Inr () else Inl OutOfBounds)"

definition replay_insert :: "u64 \<Rightarrow> u64 \<Rightarrow> numa_sys \<Rightarrow> numa_sys res" where
  "replay_insert key val s =
    (if ro_new_ludo_buckets (sy_orch s) = None \<or> ro_new_packed_data (sy_orch s) = None then Inr s
     else rbind (lookup_slot (sy_lookup s) key) (\<lambda>(b, _).
       let row = ucast b in
       rbind (sys_lock_row s row) (\<lambda>_.
       rbind (aget (ld_seeds (sy_lookup s)) (unat row)) (\<lambda>seed.
       on_new_region (\<lambda>lb pd. replay_put lb pd row (slot_of seed key) key val) s))))"

definition replay_delete :: "u64 \<Rightarrow> numa_sys \<Rightarrow> numa_sys res" where
  "replay_delete key s =
    (if ro_new_ludo_buckets (sy_orch s) = None \<or> ro_new_packed_data (sy_orch s) = None then Inr s
     else rbind (lookup_slot (sy_lookup s) key) (\<lambda>(b, slot).
       let row = ucast b in
       rbind (sys_lock_row s row) (\<lambda>_.
       on_new_region (\<lambda>lb pd. replay_del lb pd row slot key) s)))"

definition pop_insert :: "deferred_insert \<Rightarrow> numa_sys \<Rightarrow> numa_sys res" where
  "pop_insert di s =
    rbind (replay_insert (di_key di) (di_value di) s) (\<lambda>s1.
    Inr (upd_reg (\<lambda>r. r\<lparr>sr_deferred_insert_count := sr_deferred_insert_count r - 1\<rparr>)
      (upd_orch (\<lambda>r. r\<lparr>ro_deferred_inserts := tl (ro_deferred_inserts r)\<rparr>) s1)))"

definition pop_delete :: "deferred_delete \<Rightarrow> numa_sys \<Rightarrow> numa_sys res" where
  "pop_delete dd s =
    rbind (replay_delete (dd_key dd) s) (\<lambda>s1.
    Inr (upd_reg (\<lambda>r. r\<lparr>sr_deferred_delete_count := sr_deferred_delete_count r - 1\<rparr>)
      (upd_orch (\<lambda>r. r\<lparr>ro_deferred_deletes := tl (ro_deferred_deletes r)\<rparr>) s1)))"

text \<open>The two loops run under the mutex of the queues, so each empties the queue it finds.\<close>

definition drain_old :: "env \<Rightarrow> numa_sys \<Rightarrow> numa_sys res" where
  "drain_old e s =
    (let old = ro_pending_old_ver (sy_orch s) in
     rbind (if old > 0 then rbind (epoch_at (sy_reg s) old) (\<lambda>ep. Inr (ep_active_writers ep)) else Inr 0) (\<lambda>writers.
     if writers > 0 then Inr s
     else
       rbind (rfold pop_insert (ro_deferred_inserts (sy_orch s)) s) (\<lambda>s1.
       rbind (rfold pop_delete (ro_deferred_deletes (sy_orch s1)) s1) (\<lambda>s2.
       rbind (if old > 0 then upd_epoch old (\<lambda>ep. ep\<lparr>ep_cleanup_allowed := 1\<rparr>) (sy_reg s2) else Inr (sy_reg s2)) (\<lambda>reg.
       Inr (set_state GC_PENDING
         (upd_orch (\<lambda>r. r\<lparr>ro_gc_start_time := now_ms e 2\<rparr>)
         (upd_metrics (\<lambda>m. m\<lparr>rm_drain_duration_ms := rm_drain_duration_ms m + (now_ms e 1 - now_ms e 0)\<rparr>)
         (s2\<lparr>sy_reg := reg\<rparr>)))))))))"

text \<open>The end of \<open>maybe_gc\<close>: unmap and unlink the old region and go back to \<open>NORMAL\<close>.\<close>

definition collect_old :: "env \<Rightarrow> numa_sys \<Rightarrow> numa_sys" where
  "collect_old e s1 =
    (let old = ro_pending_old_ver (sy_orch s1);
         unmapped = (case ro_pending_old_base (sy_orch s1) of
                       Some v \<Rightarrow> if ro_pending_old_size (sy_orch s1) > 0 then [v] else [] | None \<Rightarrow> []);
         s2 = s1\<lparr>sy_mapped := filter (\<lambda>v. v \<notin> set unmapped) (sy_mapped s1),
                 sy_shm := (if old > 0 then unlink_numa_region old (sy_shm s1) else sy_shm s1)\<rparr>;
         s3 = upd_orch (\<lambda>r. r\<lparr>ro_pending_old_base := (if unmapped = [] then ro_pending_old_base r else None),
                              ro_pending_old_ver := 0, ro_pending_old_size := 0\<rparr>) s2;
         s4 = upd_reg (\<lambda>r. r\<lparr>sr_previous_version := 0, sr_generation := sr_generation r + 1\<rparr>) s3;
         s5 = upd_orch (\<lambda>r. r\<lparr>ro_metrics := (ro_metrics r)\<lparr>rm_gc_delay_ms :=
                                 rm_gc_delay_ms (ro_metrics r) + (now_ms e 2 - ro_gc_start_time r)\<rparr>,
                              ro_gc_start_time := 0\<rparr>) s4
     in set_state NORMAL s5)"

definition maybe_gc :: "env \<Rightarrow> numa_sys \<Rightarrow> numa_sys res" where
  "maybe_gc e s =
    (let s1 = (if ro_gc_start_time (sy_orch s) = 0
               then upd_orch (\<lambda>r. r\<lparr>ro_gc_start_time := now_ms e 0\<rparr>) s else s);
         elapsed = now_ms e 1 - ro_gc_start_time (sy_orch s1);
         old = ro_pending_old_ver (sy_orch s1)
     in if elapsed < kGcGraceMs then Inr s1
        else
          rbind (if old > 0 then rbind (epoch_at (sy_reg s1) old) (\<lambda>ep. Inr (ep_active_readers ep)) else Inr 0) (\<lambda>readers.
          if readers > 0 then Inr s1 else Inr (collect_old e s1)))"

definition check_state :: "env \<Rightarrow> numa_sys \<Rightarrow> numa_sys res" where
  "check_state e s =
    (case sr_resize_state (sy_reg s) of
       NORMAL \<Rightarrow> maybe_trigger_pre_resize s
     | PRE_RESIZE \<Rightarrow> maybe_start_copying e s
     | COPYING \<Rightarrow> Inr s
     | READY_TO_SWITCH \<Rightarrow> wait_for_acks_or_timeout e s
     | DRAIN_OLD \<Rightarrow> drain_old e s
     | GC_PENDING \<Rightarrow> maybe_gc e s)"

section \<open>What the steps leave alone\<close>

text \<open>A replay changes the memory and the counter of the new region's wrapper only.\<close>

definition replay_frame :: "numa_sys \<Rightarrow> numa_sys \<Rightarrow> bool" where
  "replay_frame s s' \<longleftrightarrow>
    (\<exists>shm' ph. s' = upd_orch (\<lambda>r. r\<lparr>ro_new_packed_data := ph\<rparr>) (s\<lparr>sy_shm := shm'\<rparr>))"

lemma replay_frame_refl: "replay_frame s s"
  unfolding replay_frame_def
  by (rule exI [of _ "sy_shm s"], rule exI [of _ "ro_new_packed_data (sy_orch s)"]) simp

lemma replay_frame_new: "replay_frame s (s\<lparr>sy_shm := m, sy_orch := sy_orch s\<lparr>ro_new_packed_data := ph\<rparr>\<rparr>)"
  unfolding replay_frame_def by (rule exI [of _ m], rule exI [of _ ph]) simp

lemma on_new_region_frame: "on_new_region f s = Inr s' \<Longrightarrow> replay_frame s s'"
  unfolding on_new_region_def
  by (auto split: option.splits elim!: rbindE intro: replay_frame_refl replay_frame_new)

lemma replay_insert_frame: "replay_insert k v s = Inr s' \<Longrightarrow> replay_frame s s'"
  unfolding replay_insert_def
  by (auto simp: Let_def split: if_splits elim!: rbindE intro: replay_frame_refl dest: on_new_region_frame)

lemma replay_delete_frame: "replay_delete k s = Inr s' \<Longrightarrow> replay_frame s s'"
  unfolding replay_delete_def
  by (auto simp: Let_def split: if_splits elim!: rbindE intro: replay_frame_refl dest: on_new_region_frame)

text \<open>A replay loop takes its queue apart and keeps everything but memory, the counter and the queue.\<close>

lemma pop_inserts_frame:
  assumes "rfold pop_insert q s = Inr s'" and "ro_deferred_inserts (sy_orch s) = q"
  shows "\<exists>shm' ph. s' = upd_reg (\<lambda>r. r\<lparr>sr_deferred_insert_count := sr_deferred_insert_count r - of_nat (length q)\<rparr>)
      (upd_orch (\<lambda>r. r\<lparr>ro_new_packed_data := ph, ro_deferred_inserts := []\<rparr>) (s\<lparr>sy_shm := shm'\<rparr>))"
  using assms
proof (induction q arbitrary: s)
  case Nil
  then have "s' = s" by simp
  then show ?case using Nil
    by (intro exI [of _ "sy_shm s"] exI [of _ "ro_new_packed_data (sy_orch s)"]) simp
next
  case (Cons di q)
  from Cons.prems(1) obtain s0 where s0: "pop_insert di s = Inr s0" and rest: "rfold pop_insert q s0 = Inr s'"
    by (auto elim: rbindE)
  from s0 obtain shm1 ph1 where e: "s0 = upd_reg (\<lambda>r. r\<lparr>sr_deferred_insert_count := sr_deferred_insert_count r - 1\<rparr>)
      (upd_orch (\<lambda>r. r\<lparr>ro_deferred_inserts := tl (ro_deferred_inserts r)\<rparr>)
        (upd_orch (\<lambda>r. r\<lparr>ro_new_packed_data := ph1\<rparr>) (s\<lparr>sy_shm := shm1\<rparr>)))"
    unfolding pop_insert_def by (auto elim!: rbindE simp: replay_frame_def dest!: replay_insert_frame)
  have "ro_deferred_inserts (sy_orch s0) = q" using Cons.prems(2) e by simp
  from Cons.IH [OF rest this] show ?case unfolding e by (auto simp: algebra_simps)
qed

lemma pop_deletes_frame:
  assumes "rfold pop_delete q s = Inr s'" and "ro_deferred_deletes (sy_orch s) = q"
  shows "\<exists>shm' ph. s' = upd_reg (\<lambda>r. r\<lparr>sr_deferred_delete_count := sr_deferred_delete_count r - of_nat (length q)\<rparr>)
      (upd_orch (\<lambda>r. r\<lparr>ro_new_packed_data := ph, ro_deferred_deletes := []\<rparr>) (s\<lparr>sy_shm := shm'\<rparr>))"
  using assms
proof (induction q arbitrary: s)
  case Nil
  then have "s' = s" by simp
  then show ?case using Nil
    by (intro exI [of _ "sy_shm s"] exI [of _ "ro_new_packed_data (sy_orch s)"]) simp
next
  case (Cons dd q)
  from Cons.prems(1) obtain s0 where s0: "pop_delete dd s = Inr s0" and rest: "rfold pop_delete q s0 = Inr s'"
    by (auto elim: rbindE)
  from s0 obtain shm1 ph1 where e: "s0 = upd_reg (\<lambda>r. r\<lparr>sr_deferred_delete_count := sr_deferred_delete_count r - 1\<rparr>)
      (upd_orch (\<lambda>r. r\<lparr>ro_deferred_deletes := tl (ro_deferred_deletes r)\<rparr>)
        (upd_orch (\<lambda>r. r\<lparr>ro_new_packed_data := ph1\<rparr>) (s\<lparr>sy_shm := shm1\<rparr>)))"
    unfolding pop_delete_def by (auto elim!: rbindE simp: replay_frame_def dest!: replay_delete_frame)
  have "ro_deferred_deletes (sy_orch s0) = q" using Cons.prems(2) e by simp
  from Cons.IH [OF rest this] show ?case unfolding e by (auto simp: algebra_simps)
qed

section \<open>The invariant of the orchestrator\<close>

abbreviation rstate :: "numa_sys \<Rightarrow> resize_state" where
  "rstate s \<equiv> sr_resize_state (sy_reg s)"

definition sizes_ok :: "registry \<Rightarrow> bool" where
  "sizes_ok reg \<longleftrightarrow> length (sr_epoch reg) = 16 \<and> length (sr_clients reg) = 256 \<and>
     length (sr_lane_next_free_index reg) = 64"

definition queues_ok :: "numa_sys \<Rightarrow> bool" where
  "queues_ok s \<longleftrightarrow>
     sr_deferred_insert_count (sy_reg s) = of_nat (length (ro_deferred_inserts (sy_orch s))) \<and>
     sr_deferred_delete_count (sy_reg s) = of_nat (length (ro_deferred_deletes (sy_orch s))) \<and>
     length (ro_deferred_inserts (sy_orch s)) \<le> kMaxDeferredDepth \<and>
     length (ro_deferred_deletes (sy_orch s)) \<le> kMaxDeferredDepth"

definition resize_inv :: "numa_sys \<Rightarrow> bool" where
  "resize_inv s \<longleftrightarrow>
     sy_blocked s = structural_blocked (rstate s) \<and> rstate s \<noteq> COPYING \<and>
     epoch_slot (sr_current_version (sy_reg s)) \<noteq> 0 \<and> sizes_ok (sy_reg s) \<and> queues_ok s"

text \<open>The new version: one or two above the old one, never in slot 0, never in the old one's slot.\<close>

lemma u64_mod_16: "(x :: u64) mod 16 = take_bit 4 x"
  by (simp add: take_bit_eq_mod)

lemma next_version_slots:
  "epoch_slot (next_version v) \<noteq> 0" "epoch_slot (next_version v) \<noteq> epoch_slot v"
proof -
  have m: "unat (x mod 16) = unat x mod 16" for x :: u64 by (simp add: unat_mod)
  have s: "unat (v + k) mod 16 = (unat v mod 16 + unat k) mod 16" for k :: u64
  proof -
    have "unat (v + k) mod 16 = ((unat v + unat k) mod 2 ^ 64) mod 16" by (simp add: unat_word_ariths)
    also have "\<dots> = (unat v + unat k) mod 16" by (rule mod_mod_cancel) simp
    finally show ?thesis by (simp add: mod_add_left_eq)
  qed
  have z: "x mod 16 = 0 \<longleftrightarrow> unat x mod 16 = 0" for x :: u64
    by (metis m unat_0 unat_eq_zero)
  define n where "n = unat v mod 16"
  have lt: "n < 16" by (simp add: n_def)
  have s1: "unat (v + 1) mod 16 = (n + 1) mod 16" using s [of 1] by (simp add: n_def)
  have s2: "unat (v + 1 + 1) mod 16 = (n + 2) mod 16" using s [of 2] by (simp add: n_def add.commute)
  have e: "unat (next_version v) mod 16 = (if (n + 1) mod 16 = 0 then (n + 2) mod 16 else (n + 1) mod 16)"
    unfolding next_version_def Let_def z s1 if_distrib [of unat] if_distrib [of "\<lambda>x. x mod 16"] s2 ..
  have "unat (next_version v) mod 16 \<noteq> 0 \<and> unat (next_version v) mod 16 \<noteq> n"
    unfolding e using lt by (cases "n = 15") simp_all
  then show "epoch_slot (next_version v) \<noteq> 0" "epoch_slot (next_version v) \<noteq> epoch_slot v"
    by (simp_all add: m epoch_slot_def n_def)
qed

lemma upd_epoch_Inr:
  "upd_epoch v f reg = Inr reg' \<Longrightarrow> \<exists>ep. epoch_at reg v = Inr ep \<and>
     reg' = reg\<lparr>sr_epoch := (sr_epoch reg)[epoch_slot v := f ep]\<rparr>"
  by (auto simp: upd_epoch_def epoch_at_def aset_eq_Inr elim!: rbindE)

lemma rfold_aset_length:
  "rfold (\<lambda>i ls. aset ls i (g i)) is ls = Inr ls' \<Longrightarrow> length ls' = length ls"
  by (rule rfold_invariant [where P = "\<lambda>x. length x = length ls"]) (auto simp: aset_eq_Inr)

lemma reset_lanes_Inr:
  "reset_lanes base reg = Inr reg' \<Longrightarrow> \<exists>ls. reg' = reg\<lparr>sr_lane_next_free_index := ls\<rparr> \<and>
     length ls = length (sr_lane_next_free_index reg)"
  by (auto simp: reset_lanes_def elim!: rbindE dest: rfold_aset_length)

text \<open>What a copy does to the control plane.\<close>

lemma publish_control:
  assumes "publish e old_ver new_ver old_ep s = Inr s'"
  shows "\<exists>eps ls. s' = set_state READY_TO_SWITCH (upd_reg (\<lambda>r. r\<lparr>sr_epoch := eps, sr_lane_next_free_index := ls,
      sr_previous_version := old_ver, sr_current_version := new_ver, sr_generation := sr_generation r + 1\<rparr>) s) \<and>
      length eps = length (sr_epoch (sy_reg s)) \<and> length ls = length (sr_lane_next_free_index (sy_reg s)) \<and>
      eps = (sr_epoch (sy_reg s))[epoch_slot new_ver := new_epoch (en_now_ns e 1) new_ver (sy_reg s) old_ep
              (sr_epoch (sy_reg s) ! epoch_slot new_ver)]"
  using assms unfolding publish_def
  by (auto elim!: rbindE dest!: upd_epoch_Inr reset_lanes_Inr simp: epoch_at_def aget_eq_Inr)

lemma adopt_region_control:
  assumes "adopt_region e old_ver new_ver old_ep s = Inr s'"
  shows "sy_reg s' = sy_reg s" "sy_blocked s' = sy_blocked s"
    "ro_deferred_inserts (sy_orch s') = ro_deferred_inserts (sy_orch s)"
    "ro_deferred_deletes (sy_orch s') = ro_deferred_deletes (sy_orch s)"
    "ro_pending_old_ver (sy_orch s') = old_ver"
  using assms unfolding adopt_region_def by (auto simp: Let_def elim!: rbindE)

lemma set_state_simps [simp]:
  "sy_blocked (set_state st s) = structural_blocked st"
  "rstate (set_state st s) = st"
  "sr_generation (sy_reg (set_state st s)) = sr_generation (sy_reg s) + 1"
  "sr_current_version (sy_reg (set_state st s)) = sr_current_version (sy_reg s)"
  "sr_epoch (sy_reg (set_state st s)) = sr_epoch (sy_reg s)"
  "sr_clients (sy_reg (set_state st s)) = sr_clients (sy_reg s)"
  "sr_registered_clients (sy_reg (set_state st s)) = sr_registered_clients (sy_reg s)"
  "sr_lane_next_free_index (sy_reg (set_state st s)) = sr_lane_next_free_index (sy_reg s)"
  "sr_mem_threads (sy_reg (set_state st s)) = sr_mem_threads (sy_reg s)"
  "sr_deferred_insert_count (sy_reg (set_state st s)) = sr_deferred_insert_count (sy_reg s)"
  "sr_deferred_delete_count (sy_reg (set_state st s)) = sr_deferred_delete_count (sy_reg s)"
  "sizes_ok (sy_reg (set_state st s)) = sizes_ok (sy_reg s)"
  "sy_orch (set_state st s) = sy_orch s" "sy_shm (set_state st s) = sy_shm s"
  "sy_mapped (set_state st s) = sy_mapped s" "sy_srv (set_state st s) = sy_srv s"
  "queues_ok (set_state st s) = queues_ok s"
  by (simp_all add: set_state_def sizes_ok_def queues_ok_def)

lemma srv_region_set_state: "srv_region (set_state st s) w = srv_region s w"
  by (simp add: srv_region_def split: option.split)

text \<open>The two ways a copy returns.\<close>

lemma do_copy_cases:
  assumes "do_copy e v s = Inr s'"
  obtains (aborted) "s' = set_state NORMAL (set_state COPYING s)"
  | (published) old_ep shm1 old new s1 s2 where
      "epoch_at (sy_reg s) v = Inr old_ep"
      "create_shared_numa_region (en_os e) (next_version v) (unat (ep_num_data_entries old_ep * 2))
         (unat (ep_num_buckets old_ep * 2)) (sy_shm s) = Some shm1"
      "srv_region s (ss_shared_region_base (sy_srv s)) = Inr old"
      "copy_region old_ep old (zero_region (unat (ep_num_data_entries old_ep * 2)) (unat (ep_num_buckets old_ep * 2))) = Inr new"
      "s1 = (set_state COPYING s)\<lparr>sy_shm := put_region (next_version v) new shm1, sy_mapped := next_version v # sy_mapped s\<rparr>"
      "publish e v (next_version v) old_ep s1 = Inr s2"
      "adopt_region e v (next_version v) old_ep s2 = Inr s'"
proof -
  have ep: "epoch_at (sy_reg (set_state COPYING s)) v = epoch_at (sy_reg s) v"
    by (simp add: epoch_at_def)
  note sr = srv_region_set_state
  show thesis
    using assms aborted published unfolding do_copy_def Let_def ep sr
    by (auto split: option.splits if_splits elim!: rbindE
        simp: create_shared_numa_region_def region_of_def)
qed

lemma do_copy_control:
  assumes "do_copy e v s = Inr s'"
  shows "s' = set_state NORMAL (set_state COPYING s) \<or>
    (rstate s' = READY_TO_SWITCH \<and> sy_blocked s' \<and>
     sr_current_version (sy_reg s') = next_version v \<and>
     (sizes_ok (sy_reg s) \<longrightarrow> sizes_ok (sy_reg s')) \<and> (queues_ok s \<longrightarrow> queues_ok s') \<and>
     sr_generation (sy_reg s') = sr_generation (sy_reg s) + 3)"
  using assms
proof (cases rule: do_copy_cases)
  case (published old_ep shm1 old new s1 s2)
  note a = adopt_region_control [OF published(7)]
  from publish_control [OF published(6)] obtain eps ls where
    p: "s2 = set_state READY_TO_SWITCH (upd_reg (\<lambda>r. r\<lparr>sr_epoch := eps, sr_lane_next_free_index := ls,
      sr_previous_version := v, sr_current_version := next_version v, sr_generation := sr_generation r + 1\<rparr>) s1)"
    "length eps = length (sr_epoch (sy_reg s1))" "length ls = length (sr_lane_next_free_index (sy_reg s1))"
    by blast
  have s1: "sy_reg s1 = sy_reg (set_state COPYING s)" "sy_orch s1 = sy_orch s"
    by (simp_all add: published(5))
  show ?thesis
    using a(1-4) p s1 by (simp add: structural_blocked_def sizes_ok_def queues_ok_def)
qed simp

text \<open>The cycle of states; \<open>COPYING\<close> lasts only inside \<open>do_copy\<close>.\<close>

definition resize_next :: "resize_state \<Rightarrow> resize_state \<Rightarrow> bool" where
  "resize_next st st' = (case st of
      NORMAL \<Rightarrow> st' \<in> {NORMAL, PRE_RESIZE}
    | PRE_RESIZE \<Rightarrow> st' \<in> {PRE_RESIZE, READY_TO_SWITCH, NORMAL}
    | COPYING \<Rightarrow> st' = COPYING
    | READY_TO_SWITCH \<Rightarrow> st' \<in> {READY_TO_SWITCH, DRAIN_OLD}
    | DRAIN_OLD \<Rightarrow> st' \<in> {DRAIN_OLD, GC_PENDING}
    | GC_PENDING \<Rightarrow> st' \<in> {GC_PENDING, NORMAL})"

lemma resize_inv_set_state:
  "resize_inv s \<Longrightarrow> st \<noteq> COPYING \<Longrightarrow> resize_inv (set_state st s)"
  by (simp add: resize_inv_def)

lemma resize_inv_orch:
  assumes "resize_inv s" "sy_reg s' = sy_reg s" "sy_blocked s' = sy_blocked s"
    "ro_deferred_inserts (sy_orch s') = ro_deferred_inserts (sy_orch s)"
    "ro_deferred_deletes (sy_orch s') = ro_deferred_deletes (sy_orch s)"
  shows "resize_inv s'"
  using assms by (simp add: resize_inv_def queues_ok_def)

lemma resize_inv_epoch:
  assumes "resize_inv s" "upd_epoch v f (sy_reg s) = Inr reg"
  shows "resize_inv (s\<lparr>sy_reg := reg\<rparr>)"
  using assms by (auto simp: resize_inv_def sizes_ok_def queues_ok_def dest!: upd_epoch_Inr)

lemma trigger_ok:
  assumes "maybe_trigger_pre_resize s = Inr s'" "resize_inv s"
  shows "resize_inv s' \<and> (s' = s \<or> s' = set_state PRE_RESIZE s)"
  using assms by (auto simp: maybe_trigger_pre_resize_def resize_inv_set_state split: if_splits elim!: rbindE)

lemma start_copying_ok:
  assumes "maybe_start_copying e s = Inr s'" "resize_inv s"
  shows "resize_inv s' \<and> (rstate s' = rstate s \<and> sy_reg s' = sy_reg s \<or>
    rstate s' \<in> {READY_TO_SWITCH, NORMAL} \<and>
      (sr_generation (sy_reg s') = sr_generation (sy_reg s) + 2 \<or> sr_generation (sy_reg s') = sr_generation (sy_reg s) + 3))"
proof -
  have "s' = s \<or> s' = upd_metrics (\<lambda>m. m\<lparr>rm_pressure_guard_fails := rm_pressure_guard_fails m + 1\<rparr>) s \<or>
    do_copy e (sr_current_version (sy_reg s)) s = Inr s'"
  proof (cases "sr_s_slow (sy_reg s) = 0")
    case True
    then show ?thesis using assms(1) by (simp add: maybe_start_copying_def)
  next
    case False
    with assms(1) obtain ep :: resize_epoch and mi where
      i: "(if mi < sr_s_stop (sy_reg s) then Inr s
       else if \<not> memory_pressure_ok e (ep_region_size ep)
         then Inr (upd_metrics (\<lambda>m. m\<lparr>rm_pressure_guard_fails := rm_pressure_guard_fails m + 1\<rparr>) s)
       else do_copy e (sr_current_version (sy_reg s)) s) = Inr s'"
      unfolding maybe_start_copying_def Let_def by (simp only: if_False) (elim rbindE, rule that, assumption)
    show ?thesis using i by (simp split: if_split_asm)
  qed
  then consider (same) "s' = s" | (pressure) "s' = upd_metrics (\<lambda>m. m\<lparr>rm_pressure_guard_fails := rm_pressure_guard_fails m + 1\<rparr>) s"
    | (copy) "do_copy e (sr_current_version (sy_reg s)) s = Inr s'"
    by blast
  then show ?thesis
  proof cases
    case same
    then show ?thesis using assms(2) by simp
  next
    case pressure
    then show ?thesis using assms(2) by (simp add: resize_inv_def queues_ok_def)
  next
    case copy
    from do_copy_control [OF this] show ?thesis
    proof
      assume "s' = set_state NORMAL (set_state COPYING s)"
      then show ?thesis using assms(2) by (simp add: resize_inv_def)
    next
      assume "rstate s' = READY_TO_SWITCH \<and> sy_blocked s' \<and>
        sr_current_version (sy_reg s') = next_version (sr_current_version (sy_reg s)) \<and>
        (sizes_ok (sy_reg s) \<longrightarrow> sizes_ok (sy_reg s')) \<and> (queues_ok s \<longrightarrow> queues_ok s') \<and>
        sr_generation (sy_reg s') = sr_generation (sy_reg s) + 3"
      then show ?thesis
        using assms(2) by (simp add: resize_inv_def next_version_slots structural_blocked_def)
    qed
  qed
qed

lemma clear_pending_ok:
  assumes "clear_pending v s = Inr s'" "resize_inv s"
  shows "resize_inv s' \<and> rstate s' = rstate s \<and> sr_generation (sy_reg s') = sr_generation (sy_reg s)"
  using assms by (auto simp: clear_pending_def elim!: rbindE intro: resize_inv_epoch dest: upd_epoch_Inr)

text \<open>The three outcomes of a wait: acknowledged, forced on, still waiting.\<close>

lemma wait_cases:
  assumes "wait_for_acks_or_timeout e s = Inr s'"
  obtains (acked) "s' = set_state DRAIN_OLD s"
  | (zombies) m s1 where "clear_pending (sr_current_version (sy_reg s)) (upd_metrics m s) = Inr s1"
      "s' = set_state DRAIN_OLD s1"
  | (forced) m t s1 where
      "clear_pending (sr_current_version (sy_reg s)) (upd_orch (\<lambda>r. r\<lparr>ro_ack_wait_start := t, ro_metrics := m\<rparr>) s) = Inr s1"
      "s' = upd_orch (\<lambda>r. r\<lparr>ro_ack_wait_start := 0\<rparr>) (set_state DRAIN_OLD s1)"
  | (waiting) m t where "s' = upd_orch (\<lambda>r. r\<lparr>ro_ack_wait_start := t, ro_metrics := m\<rparr>) s"
proof -
  let ?v = "sr_current_version (sy_reg s)"
  let ?z = "zombie_count (en_now_ns e 0) (sr_clients (sy_reg s))"
  let ?m = "\<lambda>m. m\<lparr>rm_zombie_cleanups := rm_zombie_cleanups m + of_nat ?z\<rparr>"
  obtain ep where ep: "epoch_at (sy_reg s) ?v = Inr ep"
    using assms unfolding wait_for_acks_or_timeout_def Let_def by (elim rbindE)
  note w = assms [unfolded wait_for_acks_or_timeout_def Let_def ep rbind_Inr]
  show thesis
  proof (cases "ep_clients_pending_ack ep = 0")
    case True
    then show thesis using w acked by simp
  next
    case False
    note w1 = w [unfolded if_not_P [OF False]]
    show thesis
    proof (cases "ep_clients_pending_ack ep \<le> of_nat ?z")
      case True
      then show thesis using w1 by (simp only: if_P) (elim rbindE, rule zombies, assumption, simp)
    next
      case False
      note w2 = w1 [unfolded if_not_P [OF False]]
      define t where "t = (if ro_ack_wait_start (sy_orch s) = 0 then now_ms e 1 else ro_ack_wait_start (sy_orch s))"
      have s2: "(if ro_ack_wait_start (sy_orch (upd_metrics ?m s)) = 0
          then upd_orch (\<lambda>r. r\<lparr>ro_ack_wait_start := now_ms e 1\<rparr>) (upd_metrics ?m s) else upd_metrics ?m s)
        = upd_orch (\<lambda>r. r\<lparr>ro_ack_wait_start := t, ro_metrics := ?m (ro_metrics r)\<rparr>) s"
        by (simp add: t_def)
      note w3 = w2 [unfolded s2]
      let ?el = "now_ms e 2 - t"
      show thesis
      proof (cases "?el > kAckGraceMs")
        case True
        with w3 obtain s1 where "clear_pending ?v (upd_orch (\<lambda>r. r\<lparr>ro_ack_wait_start := t, ro_metrics :=
            (?m (ro_metrics (sy_orch s)))\<lparr>rm_ack_wait_ms := rm_ack_wait_ms (?m (ro_metrics (sy_orch s))) + ?el\<rparr>\<rparr>) s) = Inr s1"
          and "s' = upd_orch (\<lambda>r. r\<lparr>ro_ack_wait_start := 0\<rparr>) (set_state DRAIN_OLD s1)"
          by (auto elim!: rbindE)
        then show thesis by (rule forced)
      next
        case False
        then have "s' = upd_orch (\<lambda>r. r\<lparr>ro_ack_wait_start := t, ro_metrics := ?m (ro_metrics r)\<rparr>) s"
          using w3 by simp
        then show thesis by (rule waiting)
      qed
    qed
  qed
qed

lemma wait_ok:
  assumes w: "wait_for_acks_or_timeout e s = Inr s'" and inv: "resize_inv s"
  shows "resize_inv s' \<and> (rstate s' = rstate s \<and> sy_reg s' = sy_reg s \<or>
    rstate s' = DRAIN_OLD \<and> sr_generation (sy_reg s') = sr_generation (sy_reg s) + 1)"
proof -
  have orch: "resize_inv (upd_metrics m s)" "resize_inv (upd_orch (\<lambda>r. r\<lparr>ro_ack_wait_start := t, ro_metrics := m'\<rparr>) s)"
    for m m' t by (intro resize_inv_orch [OF inv]; simp)+
  from w show ?thesis
  proof (cases rule: wait_cases)
    case acked
    then show ?thesis using inv by (simp add: resize_inv_set_state)
  next
    case (zombies m s1)
    then show ?thesis using clear_pending_ok [OF zombies(1) orch(1) [of m]] by (simp add: resize_inv_set_state)
  next
    case (forced m t s1)
    note c = clear_pending_ok [OF forced(1) orch(2) [where t = t and m' = m]]
    then have "resize_inv (set_state DRAIN_OLD s1)" by (simp add: resize_inv_set_state)
    then have "resize_inv s'" by (rule resize_inv_orch) (simp_all add: forced(2))
    then show ?thesis using c forced(2) by simp
  next
    case (waiting m t)
    then show ?thesis using orch(2) by simp
  qed
qed

text \<open>A drain either waits for writers of the old region or empties both queues.\<close>

lemma drain_cases:
  assumes "drain_old e s = Inr s'"
  obtains (writers) ep where "s' = s" "ro_pending_old_ver (sy_orch s) > 0"
      "epoch_at (sy_reg s) (ro_pending_old_ver (sy_orch s)) = Inr ep" "ep_active_writers ep > 0"
  | (drained) s1 s2 reg where
      "rfold pop_insert (ro_deferred_inserts (sy_orch s)) s = Inr s1"
      "rfold pop_delete (ro_deferred_deletes (sy_orch s1)) s1 = Inr s2"
      "reg = sy_reg s2 \<or> upd_epoch (ro_pending_old_ver (sy_orch s)) (\<lambda>ep. ep\<lparr>ep_cleanup_allowed := 1\<rparr>) (sy_reg s2) = Inr reg"
      "s' = set_state GC_PENDING (upd_orch (\<lambda>r. r\<lparr>ro_gc_start_time := now_ms e 2\<rparr>)
         (upd_metrics (\<lambda>m. m\<lparr>rm_drain_duration_ms := rm_drain_duration_ms m + (now_ms e 1 - now_ms e 0)\<rparr>)
         (s2\<lparr>sy_reg := reg\<rparr>)))"
proof -
  let ?old = "ro_pending_old_ver (sy_orch s)"
  obtain w where w: "(if ?old > 0 then rbind (epoch_at (sy_reg s) ?old) (\<lambda>ep. Inr (ep_active_writers ep)) else Inr 0) = Inr w"
    using assms unfolding drain_old_def Let_def by (elim rbindE)
  note d = assms [unfolded drain_old_def Let_def w rbind_Inr]
  show thesis
  proof (cases "w > 0")
    case True
    then show thesis using w d writers by (auto split: if_splits elim!: rbindE)
  next
    case False
    with d obtain s1 s2 reg where
      1: "rfold pop_insert (ro_deferred_inserts (sy_orch s)) s = Inr s1"
      and 2: "rfold pop_delete (ro_deferred_deletes (sy_orch s1)) s1 = Inr s2"
      and 3: "(if ?old > 0 then upd_epoch ?old (\<lambda>ep. ep\<lparr>ep_cleanup_allowed := 1\<rparr>) (sy_reg s2) else Inr (sy_reg s2)) = Inr reg"
      and 4: "s' = set_state GC_PENDING (upd_orch (\<lambda>r. r\<lparr>ro_gc_start_time := now_ms e 2\<rparr>)
         (upd_metrics (\<lambda>m. m\<lparr>rm_drain_duration_ms := rm_drain_duration_ms m + (now_ms e 1 - now_ms e 0)\<rparr>)
         (s2\<lparr>sy_reg := reg\<rparr>)))"
      by (simp only: if_False) (elim rbindE, simp only: sum.inject)
    from 3 have "reg = sy_reg s2 \<or> upd_epoch ?old (\<lambda>ep. ep\<lparr>ep_cleanup_allowed := 1\<rparr>) (sy_reg s2) = Inr reg"
      by (simp split: if_split_asm)
    with 1 2 4 show thesis using drained by blast
  qed
qed

lemma drained_frame:
  assumes "rfold pop_insert (ro_deferred_inserts (sy_orch s)) s = Inr s1"
    and "rfold pop_delete (ro_deferred_deletes (sy_orch s1)) s1 = Inr s2"
  shows "sy_reg s2 = (sy_reg s)\<lparr>
      sr_deferred_insert_count := sr_deferred_insert_count (sy_reg s) - of_nat (length (ro_deferred_inserts (sy_orch s))),
      sr_deferred_delete_count := sr_deferred_delete_count (sy_reg s) - of_nat (length (ro_deferred_deletes (sy_orch s)))\<rparr>"
    and "ro_deferred_inserts (sy_orch s2) = []" and "ro_deferred_deletes (sy_orch s2) = []"
    and "sy_blocked s2 = sy_blocked s" and "sy_mapped s2 = sy_mapped s"
    and "ro_pending_old_ver (sy_orch s2) = ro_pending_old_ver (sy_orch s)"
    and "ro_pending_old_base (sy_orch s2) = ro_pending_old_base (sy_orch s)"
    and "ro_pending_old_size (sy_orch s2) = ro_pending_old_size (sy_orch s)"
  using pop_inserts_frame [OF assms(1) refl] pop_deletes_frame [OF assms(2) refl] by auto

lemma drain_ok:
  assumes d: "drain_old e s = Inr s'" and inv: "resize_inv s"
  shows "resize_inv s' \<and> (s' = s \<or>
    rstate s' = GC_PENDING \<and> sr_generation (sy_reg s') = sr_generation (sy_reg s) + 1 \<and>
    ro_deferred_inserts (sy_orch s') = [] \<and> ro_deferred_deletes (sy_orch s') = [])"
  using d
proof (cases rule: drain_cases)
  case (drained s1 s2 reg)
  note f = drained_frame [OF drained(1,2)]
  have i2: "resize_inv s2"
    using inv f(1-4) by (simp add: resize_inv_def sizes_ok_def queues_ok_def)
  from drained(3) have r: "resize_inv (s2\<lparr>sy_reg := reg\<rparr>) \<and> sr_generation reg = sr_generation (sy_reg s)"
  proof
    assume "reg = sy_reg s2"
    then show ?thesis using i2 f(1) by (intro conjI resize_inv_orch [OF i2]) simp_all
  next
    assume u: "upd_epoch (ro_pending_old_ver (sy_orch s)) (\<lambda>ep. ep\<lparr>ep_cleanup_allowed := 1\<rparr>) (sy_reg s2) = Inr reg"
    then show ?thesis using resize_inv_epoch [OF i2 u] f(1) by (auto dest!: upd_epoch_Inr)
  qed
  let ?s = "upd_orch (\<lambda>r. r\<lparr>ro_gc_start_time := now_ms e 2\<rparr>)
         (upd_metrics (\<lambda>m. m\<lparr>rm_drain_duration_ms := rm_drain_duration_ms m + (now_ms e 1 - now_ms e 0)\<rparr>)
         (s2\<lparr>sy_reg := reg\<rparr>))"
  have "resize_inv ?s" by (rule resize_inv_orch [OF conjunct1 [OF r]]) simp_all
  then show ?thesis using f(2,3) r drained(4) by (simp add: resize_inv_set_state)
qed (use inv in simp)

lemma collect_old_control:
  "sy_reg (collect_old e s) = (sy_reg s)\<lparr>sr_previous_version := 0, sr_resize_state := NORMAL,
     sr_generation := sr_generation (sy_reg s) + 2\<rparr>"
  "sy_blocked (collect_old e s) = structural_blocked NORMAL"
  "ro_deferred_inserts (sy_orch (collect_old e s)) = ro_deferred_inserts (sy_orch s)"
  "ro_deferred_deletes (sy_orch (collect_old e s)) = ro_deferred_deletes (sy_orch s)"
  by (simp_all add: collect_old_def Let_def set_state_def)

lemma gc_ok:
  assumes g: "maybe_gc e s = Inr s'" and inv: "resize_inv s"
  shows "resize_inv s' \<and> (rstate s' = rstate s \<and> sy_reg s' = sy_reg s \<or>
    rstate s' = NORMAL \<and> sr_generation (sy_reg s') = sr_generation (sy_reg s) + 2)"
proof -
  define s1 where "s1 = (if ro_gc_start_time (sy_orch s) = 0
    then upd_orch (\<lambda>r. r\<lparr>ro_gc_start_time := now_ms e 0\<rparr>) s else s)"
  have s1: "sy_reg s1 = sy_reg s" "sy_blocked s1 = sy_blocked s"
    "ro_deferred_inserts (sy_orch s1) = ro_deferred_inserts (sy_orch s)"
    "ro_deferred_deletes (sy_orch s1) = ro_deferred_deletes (sy_orch s)"
    by (simp_all add: s1_def)
  have inv1: "resize_inv s1" by (rule resize_inv_orch [OF inv s1])
  show ?thesis
  proof (cases "s' = s1")
    case True
    then show ?thesis using inv1 s1 by simp
  next
    case False
    with g have "s' = collect_old e s1"
      unfolding maybe_gc_def Let_def s1_def [symmetric] by (auto split: if_split_asm elim!: rbindE)
    then show ?thesis
      using inv1 s1 by (simp add: collect_old_control resize_inv_def sizes_ok_def queues_ok_def)
  qed
qed

lemma check_state_inv: "check_state e s = Inr s' \<Longrightarrow> resize_inv s \<Longrightarrow> resize_inv s'"
  by (cases "rstate s")
    (auto simp: check_state_def dest: trigger_ok start_copying_ok wait_ok drain_ok gc_ok)

section \<open>Steps of all actors\<close>

text \<open>
  The monitor thread's tick; a handler that read the flag earlier and defers now; a client joining,
  beating, leaving, acknowledging or taking a record number; and the writes to the data itself.
\<close>

inductive resize_step :: "numa_sys \<Rightarrow> numa_sys \<Rightarrow> bool" where
  tick: "check_state e s = Inr s' \<Longrightarrow> resize_step s s'"
| insert_deferred: "defer_insert now k v s = (b, s') \<Longrightarrow> resize_step s s'"
| delete_deferred: "defer_delete now k s = (b, s') \<Longrightarrow> resize_step s s'"
| client_joins: "register_client now (sy_reg s) = (i, reg) \<Longrightarrow> resize_step s (s\<lparr>sy_reg := reg\<rparr>)"
| client_beats: "resize_step s (s\<lparr>sy_reg := update_heartbeat now i (sy_reg s)\<rparr>)"
| client_leaves: "resize_step s (s\<lparr>sy_reg := deregister_client i (sy_reg s)\<rparr>)"
| client_acks: "upd_epoch v (\<lambda>ep. ep\<lparr>ep_clients_pending_ack := ep_clients_pending_ack ep - 1\<rparr>) (sy_reg s) = Inr reg
    \<Longrightarrow> resize_step s (s\<lparr>sy_reg := reg\<rparr>)"
| client_allocates: "resize_step s (upd_reg (\<lambda>r. r\<lparr>sr_lane_next_free_index := (sr_lane_next_free_index r)[l := x]\<rparr>) s)"
| data_written: "resize_step s (s\<lparr>sy_shm := m, sy_cache := c, sy_packed := p\<rparr>)"

definition resize_start :: "numa_sys \<Rightarrow> bool" where
  "resize_start s \<longleftrightarrow>
     rstate s = NORMAL \<and> \<not> sy_blocked s \<and> sr_current_version (sy_reg s) = 1 \<and> sizes_ok (sy_reg s) \<and>
     sr_deferred_insert_count (sy_reg s) = 0 \<and> sr_deferred_delete_count (sy_reg s) = 0 \<and>
     ro_deferred_inserts (sy_orch s) = [] \<and> ro_deferred_deletes (sy_orch s) = []"

lemma defer_inv:
  "defer_insert now k v s = (b, s') \<Longrightarrow> resize_inv s \<Longrightarrow> resize_inv s'"
  "defer_delete now k s = (b, s') \<Longrightarrow> resize_inv s \<Longrightarrow> resize_inv s'"
  by (auto simp: defer_insert_def defer_delete_def resize_inv_def sizes_ok_def queues_ok_def split: if_splits)

lemma client_inv:
  "register_client now (sy_reg s) = (i, reg) \<Longrightarrow> resize_inv s \<Longrightarrow> resize_inv (s\<lparr>sy_reg := reg\<rparr>)"
  "resize_inv s \<Longrightarrow> resize_inv (s\<lparr>sy_reg := update_heartbeat now j (sy_reg s)\<rparr>)"
  "resize_inv s \<Longrightarrow> resize_inv (s\<lparr>sy_reg := deregister_client j (sy_reg s)\<rparr>)"
  by (auto simp: register_client_def update_heartbeat_def deregister_client_def Let_def
      resize_inv_def sizes_ok_def queues_ok_def split: option.splits)

lemma resize_step_inv: "resize_step s s' \<Longrightarrow> resize_inv s \<Longrightarrow> resize_inv s'"
proof (induction rule: resize_step.induct)
  case (client_acks v s reg)
  then show ?case by (blast intro: resize_inv_epoch)
qed (auto intro: check_state_inv defer_inv client_inv, auto simp: resize_inv_def sizes_ok_def queues_ok_def)

lemma resize_start_inv: "resize_start s \<Longrightarrow> resize_inv s"
  by (simp add: resize_start_def resize_inv_def structural_blocked_def queues_ok_def epoch_slot_def)

lemma resize_reachable_inv: "resize_step\<^sup>*\<^sup>* s0 s \<Longrightarrow> resize_start s0 \<Longrightarrow> resize_inv s"
  by (induction rule: rtranclp_induct) (auto intro: resize_start_inv resize_step_inv)

section \<open>A small server\<close>

text \<open>Four records and two buckets in version 1, one allocation lane that has passed both thresholds.\<close>

definition sample_epoch :: resize_epoch where
  "sample_epoch = zero_epoch\<lparr>ep_version := 1, ep_region_size := 4096, ep_num_buckets := 2, ep_num_data_entries := 4,
    ep_ludo_buckets_offset := 128, ep_lock_array_offset := 192, ep_published := 1\<rparr>"

definition sample_reg :: registry where
  "sample_reg = fresh_registry\<lparr>sr_s_slow := 3, sr_s_stop := 4, sr_epoch := (replicate 16 zero_epoch)[1 := sample_epoch],
    sr_mem_threads := 1, sr_lane_next_free_index := (replicate 64 0)[0 := 4]\<rparr>"

definition sample_orch :: orchestrator where
  "sample_orch = \<lparr>ro_new_ludo_buckets = None, ro_new_packed_data = None, ro_deferred_inserts = [], ro_deferred_deletes = [],
    ro_pending_old_ver = 0, ro_pending_old_base = None, ro_pending_old_size = 0, ro_ack_wait_start = 0, ro_gc_start_time = 0,
    ro_metrics = \<lparr>rm_resize_count = 0, rm_copy_duration_ms = 0, rm_ack_wait_ms = 0, rm_drain_duration_ms = 0, rm_gc_delay_ms = 0,
      rm_zombie_cleanups = 0, rm_pressure_guard_fails = 0, rm_deferred_inserts_total = 0, rm_deferred_deletes_total = 0\<rparr>\<rparr>"

definition sample_sys :: numa_sys where
  "sample_sys = \<lparr>sy_reg = sample_reg,
    sy_shm = \<lparr>sh_regions = (\<lambda>_. None)(1 \<mapsto> zero_region 4 2), sh_linked = (\<lambda>v. v = 1)\<rparr>,
    sy_mapped = [1], sy_blocked = False, sy_orch_registered = True,
    sy_srv = \<lparr>ss_ludo_buckets_ptr = Some \<lparr>lh_version = 1, lh_numElements = 2\<rparr>,
      ss_packed_data_ptr = Some \<lparr>ph_version = 1, ph_num = 0, ph_numElements = 4\<rparr>, ss_num_buckets = 2,
      ss_num_data_entries = 4, ss_lock_array = Some 1, ss_numa_node = 0, ss_shared_region_base = Some 1\<rparr>,
    sy_orch = sample_orch, sy_lookup = sample_lookup, sy_mutexes = 2,
    sy_buckets = \<lparr>lh_version = 1, lh_numElements = 2\<rparr>, sy_packed = \<lparr>ph_version = 1, ph_num = 0, ph_numElements = 4\<rparr>,
    sy_cache = None\<rparr>"

definition sample_env :: env where
  "sample_env = \<lparr>en_os = \<lparr>os_shm_open = True, os_ftruncate = True, os_mmap = True\<rparr>, en_now_ns = (\<lambda>_. 9000000000),
    en_free_bytes = None, en_junk = zero_struct\<rparr>"

lemma sample_start: "resize_start sample_sys"
  by (simp add: resize_start_def sample_sys_def sample_reg_def fresh_registry_def sizes_ok_def sample_orch_def)

lemma sample_tick: "check_state sample_env sample_sys = Inr (set_state PRE_RESIZE sample_sys)"
proof -
  have "max_lane_index sample_reg = Inr 4"
    by (simp add: max_lane_index_def orch_lanes_def sample_reg_def fresh_registry_def)
  moreover have "sy_reg sample_sys = sample_reg" "sr_s_slow sample_reg = 3" "sr_resize_state sample_reg = NORMAL"
    by (simp_all add: sample_sys_def sample_reg_def fresh_registry_def)
  ultimately show ?thesis by (simp add: check_state_def maybe_trigger_pre_resize_def)
qed

section \<open>Properties of the state machine\<close>





section \<open>What a copy leaves in the new region\<close>

text \<open>A server that is ready to copy: the active epoch describes the region it has mapped.\<close>

definition copy_ready :: "env \<Rightarrow> u64 \<Rightarrow> resize_epoch \<Rightarrow> region \<Rightarrow> numa_sys \<Rightarrow> bool" where
  "copy_ready e v ep old s \<longleftrightarrow>
     en_os e = \<lparr>os_shm_open = True, os_ftruncate = True, os_mmap = True\<rparr> \<and>
     epoch_at (sy_reg s) v = Inr ep \<and> bucket_size_each ep = sizeof_ludo_bucket \<and>
     2 * unat (ep_num_data_entries ep) < 2 ^ 64 \<and> 2 * unat (ep_num_buckets ep) < 2 ^ 64 \<and>
     srv_region s (ss_shared_region_base (sy_srv s)) = Inr old \<and>
     length (rg_packed old) = unat (ep_num_data_entries ep) \<and> length (rg_ludo old) = unat (ep_num_buckets ep) \<and>
     sizes_ok (sy_reg s) \<and> orch_lanes (sy_reg s) \<le> 64"

lemma unat_double: "2 * unat (x :: u64) < 2 ^ 64 \<Longrightarrow> unat (x * 2) = 2 * unat x"
  using unat_mult_small [of x 2] by simp

lemma copy_region_eq:
  assumes "bucket_size_each ep = sizeof_ludo_bucket"
    and "2 * unat (ep_num_data_entries ep) < 2 ^ 64" "2 * unat (ep_num_buckets ep) < 2 ^ 64"
    and "length (rg_packed old) = unat (ep_num_data_entries ep)" "length (rg_ludo old) = unat (ep_num_buckets ep)"
  shows "copy_region ep old (zero_region (unat (ep_num_data_entries ep * 2)) (unat (ep_num_buckets ep * 2))) =
    Inr \<lparr>rg_packed = rg_packed old @ replicate (unat (ep_num_data_entries ep)) zero_struct,
        rg_ludo = rg_ludo old @ replicate (unat (ep_num_buckets ep)) [0, 0, 0, 0],
        rg_lock = replicate (2 * unat (ep_num_buckets ep)) 0\<rparr>"
  using assms
  by (simp add: copy_region_def memcpy_front_def memset_range_def zero_region_def unat_double drop_replicate)

lemma rfold_aset_returns:
  assumes "\<forall>i\<in>set is. i < length ls"
  shows "\<exists>ls'. rfold (\<lambda>i ls. aset ls i (g i)) is ls = Inr ls'"
proof -
  have "\<exists>t. rfold (\<lambda>i ls. aset ls i (g i)) is ls = Inr t \<and> length t = length ls"
    using assms by (intro rfold_returns) auto
  then show ?thesis by blast
qed

lemma epoch_slot_lt: "epoch_slot v < 16"
  by (simp add: epoch_slot_def unat_mod)

lemma publish_returns:
  assumes "sizes_ok (sy_reg s)" "orch_lanes (sy_reg s) \<le> 64"
  shows "\<exists>s'. publish e old_ver new_ver ep s = Inr s'"
proof -
  let ?reg = "(sy_reg s)\<lparr>sr_epoch := (sr_epoch (sy_reg s))[epoch_slot new_ver :=
     new_epoch (en_now_ns e 1) new_ver (sy_reg s) ep (sr_epoch (sy_reg s) ! epoch_slot new_ver)]\<rparr>"
  have 1: "upd_epoch new_ver (new_epoch (en_now_ns e 1) new_ver (sy_reg s) ep) (sy_reg s) = Inr ?reg"
    using assms(1) epoch_slot_lt [of new_ver] by (simp add: upd_epoch_def epoch_at_def sizes_ok_def)
  have "\<exists>reg2. reset_lanes (ep_num_data_entries ep) ?reg = Inr reg2"
  proof -
    have "orch_lanes ?reg = orch_lanes (sy_reg s)" by (simp add: orch_lanes_def)
    then obtain ls where "rfold (\<lambda>i ls. aset ls i (ep_num_data_entries ep + of_nat i)) [0..<orch_lanes ?reg]
        (sr_lane_next_free_index ?reg) = Inr ls"
      using rfold_aset_returns [of "[0..<orch_lanes ?reg]" "sr_lane_next_free_index ?reg"
          "\<lambda>i. ep_num_data_entries ep + of_nat i"] assms by (auto simp: sizes_ok_def)
    then show ?thesis unfolding reset_lanes_def by (simp only: rbind_Inr) blast
  qed
  then obtain reg2 where 2: "reset_lanes (ep_num_data_entries ep) ?reg = Inr reg2" by blast
  show ?thesis unfolding publish_def 1 rbind_Inr 2 by blast
qed

text \<open>
  (C25) A copy that can be made is made, and publishes: the monitor ends in READY_TO_SWITCH with the
  next version active. In the new region the lower half of the index is the old index word for word and
  the upper half is empty, but no record of the old region is left: attaching the record wrapper after
  the copy overwrites every record of the new region with one uninitialised record.
\<close>
theorem do_copy_outcome:
  assumes "copy_ready e v ep old s"
  shows "\<exists>s' new. do_copy e v s = Inr s' \<and> rstate s' = READY_TO_SWITCH \<and>
    sr_current_version (sy_reg s') = next_version v \<and>
    sh_regions (sy_shm s') (next_version v) = Some new \<and>
    rg_ludo new = rg_ludo old @ replicate (unat (ep_num_buckets ep)) [0, 0, 0, 0] \<and>
    rg_packed new = replicate (2 * unat (ep_num_data_entries ep)) (en_junk e) \<and>
    ro_new_packed_data (sy_orch s') =
      Some \<lparr>ph_version = next_version v, ph_num = 0, ph_numElements = ep_num_data_entries ep * 2\<rparr>"
proof -
  let ?nv = "next_version v" and ?E = "unat (ep_num_data_entries ep)" and ?B = "unat (ep_num_buckets ep)"
  let ?s = "set_state COPYING s"
  let ?zero = "zero_region (unat (ep_num_data_entries ep * 2)) (unat (ep_num_buckets ep * 2))"
  let ?shm1 = "(sy_shm s)\<lparr>sh_regions := (sh_regions (sy_shm s))(?nv \<mapsto> ?zero), sh_linked := (sh_linked (sy_shm s))(?nv := True)\<rparr>"
  define new where "new = \<lparr>rg_packed = rg_packed old @ replicate ?E zero_struct,
        rg_ludo = rg_ludo old @ replicate ?B [0, 0, 0, 0], rg_lock = replicate (2 * ?B) (0 :: u8)\<rparr>"
  define s1 where "s1 = ?s\<lparr>sy_shm := put_region ?nv new ?shm1, sy_mapped := ?nv # sy_mapped s\<rparr>"
  from assms have ep: "epoch_at (sy_reg ?s) v = Inr ep"
    and old: "srv_region ?s (ss_shared_region_base (sy_srv ?s)) = Inr old"
    by (simp_all add: copy_ready_def epoch_at_def srv_region_set_state)
  have c: "copy_region ep old ?zero = Inr new"
    using assms copy_region_eq [of ep old] by (simp add: copy_ready_def new_def)
  have "sizes_ok (sy_reg s1)" "orch_lanes (sy_reg s1) \<le> 64"
    using assms by (auto simp: s1_def copy_ready_def orch_lanes_def set_state_def sizes_ok_def)
  then obtain s2 where s2: "publish e v ?nv ep s1 = Inr s2" using publish_returns by blast
  then have shm2: "sy_shm s2 = sy_shm s1" and st2: "rstate s2 = READY_TO_SWITCH" "sr_current_version (sy_reg s2) = ?nv"
    using publish_control [OF s2] by auto
  have reg2: "region_of (sy_shm s2) ?nv = Inr new"
    by (simp add: shm2 s1_def region_of_def put_region_def)
  have E: "unat (ep_num_data_entries ep * 2) = 2 * ?E" "length (rg_packed new) = 2 * ?E"
    using assms by (simp_all add: copy_ready_def unat_double new_def)
  have pd: "PackedData_map (en_junk e) (rg_packed new) (ep_num_data_entries ep * 2) =
    Inr \<lparr>rawArray = replicate (2 * ?E) (en_junk e), pd_num = 0, numElements = ep_num_data_entries ep * 2\<rparr>"
    using PackedData_map_eq [of "ep_num_data_entries ep * 2" "rg_packed new"] E by simp
  obtain s' where s': "adopt_region e v ?nv ep s2 = Inr s'"
    and new': "sh_regions (sy_shm s') ?nv = Some (new\<lparr>rg_packed := replicate (2 * ?E) (en_junk e)\<rparr>)"
    and ph: "ro_new_packed_data (sy_orch s') =
      Some \<lparr>ph_version = ?nv, ph_num = 0, ph_numElements = ep_num_data_entries ep * 2\<rparr>"
    using reg2 pd by (simp add: adopt_region_def Let_def attach_packed_def put_region_def)
  have "do_copy e v s = Inr s'"
    using ep old c s2 s' assms unfolding do_copy_def Let_def
    by (simp add: create_shared_numa_region_def copy_ready_def region_of_def s1_def [symmetric])
  then show ?thesis
    using adopt_region_control [OF s'] st2 new' ph by (auto simp: new_def)
qed

theorem do_copy_outcome_witness:
  "\<exists>s' new. do_copy sample_env 1 sample_sys = Inr s' \<and> rstate s' = READY_TO_SWITCH \<and>
    sh_regions (sy_shm s') 2 = Some new \<and> rg_packed new = replicate 8 zero_struct"
proof -
  have "copy_ready sample_env 1 sample_epoch (zero_region 4 2) sample_sys"
    by (simp add: copy_ready_def sample_env_def sample_sys_def sample_reg_def fresh_registry_def epoch_at_def
        epoch_slot_def bucket_size_each_def sizeof_ludo_bucket_def sample_epoch_def srv_region_def region_of_def
        zero_region_def sizes_ok_def orch_lanes_def)
  moreover have "next_version 1 = 2" by code_simp
  ultimately show ?thesis
    using do_copy_outcome [of sample_env 1 sample_epoch "zero_region 4 2" sample_sys]
    by (auto simp: sample_env_def sample_epoch_def)
qed

section \<open>Geometry of the epochs\<close>

text \<open>An epoch whose offsets are those of its entry and bucket counts, with an even number of buckets.\<close>

definition epoch_geometry :: "resize_epoch \<Rightarrow> bool" where
  "epoch_geometry ep \<longleftrightarrow>
     (let ly = region_layout (ep_num_data_entries ep) (ep_num_buckets ep) sizeof_ludo_bucket in
      ep_packed_array_offset ep = ly_packed_off ly \<and> ep_ludo_buckets_offset ep = ly_ludo_off ly \<and>
      ep_lock_array_offset ep = ly_lock_off ly \<and> ep_region_size ep = ly_total ly) \<and>
     ep_num_buckets ep > 0 \<and> even (unat (ep_num_buckets ep)) \<and>
     unat (ep_num_data_entries ep) * 20 + unat (ep_num_buckets ep) * 33 + 4224 \<le> 2 ^ 64"

lemma dvd_between:
  fixes a b c d :: nat
  assumes "d dvd a" "d dvd b" "b \<le> a" "a < b + d"
  shows "a = b"
proof -
  have "d dvd a - b" using assms(1,2) by (simp add: dvd_diff_nat)
  moreover have "a - b < d" using assms(3,4) by linarith
  ultimately have "a - b = 0" using nat_dvd_not_less by blast
  then show ?thesis using assms(3) by simp
qed

lemma layout_lock_off:
  assumes "unat entries * 20 + unat buckets * 33 + 4224 \<le> 2 ^ 64" and "even (unat buckets)"
    and "ly = region_layout entries buckets sizeof_ludo_bucket"
  shows "unat (ly_lock_off ly) = unat (ly_ludo_off ly) + unat buckets * 32"
proof -
  have sz: "unat sizeof_ludo_bucket = 32" by (simp add: sizeof_ludo_bucket_def)
  note d = region_layout_facts [OF _ assms(3), unfolded sz, simplified, OF assms(1) [simplified]]
  let ?lo = "ly_ludo_off ly"
  have ko: "ly_lock_off ly = align_up (?lo + buckets * sizeof_ludo_bucket) 64"
    by (simp add: assms(3) region_layout_def Let_def)
  have bound: "unat ?lo + unat buckets * 32 + 64 \<le> 2 ^ 64"
    using d assms(1) by linarith
  have L: "unat (buckets * sizeof_ludo_bucket) = unat buckets * 32"
    using bound by (subst unat_mult_small) (simp_all add: sz)
  have lL: "unat (?lo + buckets * sizeof_ludo_bucket) = unat ?lo + unat buckets * 32"
    using bound L by (subst unat_add_small) simp_all
  have dv: "64 dvd unat ?lo + unat buckets * 32"
    using d assms(2) by (auto elim!: evenE intro: dvd_add)
  show ?thesis
    unfolding ko using align_up_64 [of "?lo + buckets * sizeof_ludo_bucket"] lL bound dv
    by (intro dvd_between [of 64]) simp_all
qed

lemma epoch_geometry_bucket_size:
  assumes "epoch_geometry ep"
  shows "bucket_size_each ep = sizeof_ludo_bucket"
proof -
  let ?ly = "region_layout (ep_num_data_entries ep) (ep_num_buckets ep) sizeof_ludo_bucket"
  have l: "unat (ly_lock_off ?ly) = unat (ly_ludo_off ?ly) + unat (ep_num_buckets ep) * 32"
    using assms by (intro layout_lock_off) (simp_all add: epoch_geometry_def Let_def)
  have o: "ep_lock_array_offset ep = ly_lock_off ?ly" "ep_ludo_buckets_offset ep = ly_ludo_off ?ly"
    and b: "ep_num_buckets ep > 0" using assms by (simp_all add: epoch_geometry_def Let_def)
  have "ly_ludo_off ?ly \<le> ly_lock_off ?ly" using l by (simp add: word_le_nat_alt)
  then have "unat (ly_lock_off ?ly - ly_ludo_off ?ly) = unat (ep_num_buckets ep) * 32"
    using l by (simp add: unat_sub)
  then have "unat (bucket_size_each ep) = 32"
    using b by (simp add: bucket_size_each_def o unat_div word_less_nat_alt)
  then show ?thesis by (simp add: word_unat_eq_iff sizeof_ludo_bucket_def)
qed

text \<open>
  The geometry survives a resize: if the active epoch's offsets are those of its counts and its
  number of buckets is even, the per-bucket size the copy derives from the offsets is the size of a
  bucket, and the epoch it publishes (twice the records, twice the buckets) again has offsets that fit
  its counts, as long as the doubled region still fits the address space.
\<close>
theorem new_epoch_geometry:
  assumes "epoch_geometry ep"
    and "unat (ep_num_data_entries ep) * 40 + unat (ep_num_buckets ep) * 66 + 4224 \<le> 2 ^ 64"
  shows "bucket_size_each ep = 32 \<and> epoch_geometry (new_epoch now v reg ep ep') \<and>
    unat (ep_num_buckets (new_epoch now v reg ep ep')) = 2 * unat (ep_num_buckets ep) \<and>
    unat (ep_num_data_entries (new_epoch now v reg ep ep')) = 2 * unat (ep_num_data_entries ep) \<and>
    ep_published (new_epoch now v reg ep ep') = 1"
proof -
  note bs = epoch_geometry_bucket_size [OF assms(1)]
  have E: "unat (ep_num_data_entries ep * 2) = 2 * unat (ep_num_data_entries ep)"
    and B: "unat (ep_num_buckets ep * 2) = 2 * unat (ep_num_buckets ep)"
    using assms(2) by (intro unat_double; simp)+
  have "ep_num_buckets ep * 2 > 0"
    using assms(1) B by (simp add: word_less_nat_alt epoch_geometry_def)
  then show ?thesis
    using assms bs E B by (simp add: epoch_geometry_def new_epoch_def Let_def sizeof_ludo_bucket_def)
qed

theorem new_epoch_geometry_witness:
  "epoch_geometry (zero_epoch\<lparr>ep_num_data_entries := 10, ep_num_buckets := 4, ep_ludo_buckets_offset := 256,
      ep_lock_array_offset := 384, ep_region_size := 4096\<rparr>) \<and>
   bucket_size_each (zero_epoch\<lparr>ep_num_data_entries := 10, ep_num_buckets := 4, ep_ludo_buckets_offset := 256,
      ep_lock_array_offset := 384, ep_region_size := 4096\<rparr>) = 32"
    (is "epoch_geometry ?ep \<and> _")
proof -
  have "region_layout 10 4 sizeof_ludo_bucket =
    \<lparr>ly_packed_off = 0, ly_ludo_off = 256, ly_lock_off = 384, ly_total = 4096\<rparr>" by code_simp
  then have g: "epoch_geometry ?ep" by (simp add: epoch_geometry_def)
  then show ?thesis using new_epoch_geometry [of ?ep 0 2 fresh_registry zero_epoch] by simp
qed

section \<open>Waiting for acknowledgements\<close>

text \<open>
  (C24) A client that never acknowledges does not block a resize: once the monitor has started to wait,
  a tick whose clock is more than the grace period later leaves READY_TO_SWITCH, whatever the clients
  did in between, and the pending count of the new epoch is then zero.
\<close>
theorem ack_wait_ends:
  assumes "sizes_ok (sy_reg s)" and "rstate s = READY_TO_SWITCH"
    and "ro_ack_wait_start (sy_orch s) \<noteq> 0"
    and "now_ms e 2 - ro_ack_wait_start (sy_orch s) > kAckGraceMs"
  shows "\<exists>s' ep. check_state e s = Inr s' \<and> rstate s' = DRAIN_OLD \<and>
    epoch_at (sy_reg s') (sr_current_version (sy_reg s')) = Inr ep \<and> ep_clients_pending_ack ep = 0"
proof -
  let ?v = "sr_current_version (sy_reg s)"
  define ep where "ep = sr_epoch (sy_reg s) ! epoch_slot ?v"
  have lt: "epoch_slot ?v < length (sr_epoch (sy_reg s))"
    using assms(1) epoch_slot_lt [of ?v] by (simp add: sizes_ok_def)
  have ep: "epoch_at (sy_reg s) ?v = Inr ep" using lt by (simp add: epoch_at_def ep_def)
  have clr: "clear_pending ?v s0 = Inr (s0\<lparr>sy_reg := (sy_reg s)\<lparr>sr_epoch :=
      (sr_epoch (sy_reg s))[epoch_slot ?v := ep\<lparr>ep_clients_pending_ack := 0\<rparr>]\<rparr>\<rparr>)"
    if "sy_reg s0 = sy_reg s" for s0
    using lt that by (simp add: clear_pending_def upd_epoch_def epoch_at_def ep_def)
  show ?thesis
    using assms(2-4) lt ep
    by (simp add: check_state_def wait_for_acks_or_timeout_def Let_def clr epoch_at_def)
qed

theorem ack_wait_ends_witness:
  "\<exists>s'. check_state sample_env (set_state READY_TO_SWITCH (upd_orch (\<lambda>r. r\<lparr>ro_ack_wait_start := 1\<rparr>) sample_sys)) = Inr s' \<and>
    rstate s' = DRAIN_OLD"
proof -
  have "now_ms sample_env 2 = 9000" by (simp add: now_ms_def sample_env_def)
  moreover have "sizes_ok (sy_reg sample_sys)" using sample_start by (simp add: resize_start_def)
  ultimately show ?thesis
    using ack_wait_ends [of "set_state READY_TO_SWITCH (upd_orch (\<lambda>r. r\<lparr>ro_ack_wait_start := 1\<rparr>) sample_sys)" sample_env]
    by (auto simp: kAckGraceMs_def)
qed

section \<open>Replaying deferred mutations\<close>

lemma ucast_ucast_small: "unat (x :: u64) < 2 ^ 32 \<Longrightarrow> ucast (ucast x :: u32) = x"
  by (simp add: word_unat_eq_iff unsigned_ucast_eq unsigned_take_bit_eq take_bit_nat_eq_self)

text \<open>A replayed insert into the key's free slot.\<close>

definition can_append :: "ludo_buckets \<Rightarrow> packed_data \<Rightarrow> u64 \<Rightarrow> u8 \<Rightarrow> bool" where
  "can_append lb pd row slot \<longleftrightarrow> lb_wf lb \<and> pd_wf pd \<and> pd_num pd < numElements pd \<and> unat (pd_num pd) < 2 ^ 32 \<and>
     unat row < length (bucketsArray lb) \<and> unat slot < 4 \<and> toLength (cell lb (unat row) (unat slot)) = 0"

lemma replay_put_free:
  assumes "can_append lb pd row slot"
  shows "\<exists>lb' pd'. replay_put lb pd row slot key val = Inr (lb', pd') \<and> lb_wf lb' \<and>
    length (bucketsArray lb') = length (bucketsArray lb) \<and> length (rawArray pd') = length (rawArray pd) \<and>
    unat (pd_num pd) < length (rawArray pd) \<and>
    toAddr (cell lb' (unat row) (unat slot)) = pd_num pd \<and> toLength (cell lb' (unat row) (unat slot)) = 64 \<and>
    rawArray pd' ! unat (pd_num pd) = \<lparr>ps_key = key, ps_data_length = 8, ps_data = val\<rparr> \<and>
    (\<forall>r q. q < 4 \<longrightarrow> (r, q) \<noteq> (unat row, unat slot) \<longrightarrow> cell lb' r q = cell lb r q)"
proof -
  let ?w = "combine (fingerprint key) 64 (ucast (ucast (pd_num pd) :: u32))"
  note a = assms [unfolded can_append_def]
  have cs: "check_slots lb key row slot = Inr 0" using a by (simp add: check_slots_eq Let_def)
  have w: "toAddr ?w = pd_num pd" using a by (simp add: ucast_ucast_small toAddr_small)
  have lt: "unat (pd_num pd) < length (rawArray pd)" using a by (simp add: pd_wf_def word_less_nat_alt)
  show ?thesis
    unfolding replay_put_def cs using a lt w
    by (simp add: bulk_load_data_ok write_addr_def cell_write toLength_combine lb_wf_row)
qed

text \<open>
  The replay of a deferred insert starts numbering records at the wrapper's counter, which a resize
  sets to zero, while the copied index still refers to those numbers: an insert replayed into its free
  slot takes over the record of every copied slot that has that number.
\<close>
theorem replay_insert_takes_record:
  assumes "can_append lb pd row slot"
    and "r < length (bucketsArray lb)" and "q < 4" and "(r, q) \<noteq> (unat row, unat slot)"
    and "toAddr (cell lb r q) = pd_num pd"
  shows "\<exists>lb' pd'. replay_put lb pd row slot key val = Inr (lb', pd') \<and>
    toAddr (cell lb' (unat row) (unat slot)) = toAddr (cell lb' r q) \<and>
    rawArray pd' ! unat (toAddr (cell lb' r q)) = \<lparr>ps_key = key, ps_data_length = 8, ps_data = val\<rparr>"
  using replay_put_free [OF assms(1), of key val] assms(3-5) by auto

text \<open>A copied slot for key 1 with record 0, and a replayed insert of key 4 into slot 0.\<close>

definition sample_pd :: packed_data where
  "sample_pd = \<lparr>rawArray = [\<lparr>ps_key = 1, ps_data_length = 8, ps_data = 11\<rparr>, zero_struct], pd_num = 0, numElements = 2\<rparr>"

lemma sample_can_append: "can_append sample_buckets sample_pd 0 0"
  by (simp add: can_append_def sample_buckets_def sample_pd_def lb_wf_def pd_wf_def)

theorem replay_insert_takes_record_witness:
  "\<exists>lb' pd'. replay_put sample_buckets sample_pd 0 0 4 44 = Inr (lb', pd') \<and>
    toAddr (cell lb' 0 0) = toAddr (cell lb' 0 3) \<and>
    rawArray pd' ! unat (toAddr (cell lb' 0 3)) = \<lparr>ps_key = 4, ps_data_length = 8, ps_data = 44\<rparr>"
proof -
  have "cell sample_buckets 0 3 = combine (fingerprint 1) 64 0" by (simp add: sample_buckets_def)
  then have "toAddr (cell sample_buckets 0 3) = pd_num sample_pd"
    by (simp add: toAddr_small sample_pd_def)
  then show ?thesis
    using replay_insert_takes_record [OF sample_can_append, of 0 3 4 44] by (simp add: sample_buckets_def)
qed



end
