(* ===== verification/Outback_Server_Numa.thy ===== *)
theory Outback_Server_Numa
  imports Outback_Resize
begin

text \<open>
  The NUMA server: the direct handlers of \<open>outback/outback_server_numa.hh\<close>, and the set-up, registration
  and clean-up of \<open>benchs/outback/server_numa.cc\<close>. The handlers go through the globals \<open>ludo_buckets\<close> and
  \<open>packed_data\<close>, which set-up points at version 1 of the region. The lookup unit and the index that the
  Ludo control plane builds, and the thresholds computed in floating point, are arguments of the set-up.
\<close>

section \<open>Definitions: the handlers\<close>

definition sys_lb :: "numa_sys \<Rightarrow> ludo_buckets res" where
  "sys_lb s = (if lh_version (sy_buckets s) \<in> set (sy_mapped s) then lb_view (sy_shm s) (sy_buckets s) else Inl Unmapped)"

definition sys_pd :: "numa_sys \<Rightarrow> packed_data res" where
  "sys_pd s = (if ph_version (sy_packed s) \<in> set (sy_mapped s) then pd_view (sy_shm s) (sy_packed s) else Inl Unmapped)"

text \<open>Storing the index and the records back into the region of the globals.\<close>

definition sys_commit :: "ludo_buckets \<Rightarrow> packed_data \<Rightarrow> numa_sys \<Rightarrow> numa_sys res" where
  "sys_commit lb pd s =
    rbind (lb_commit lb (sy_buckets s) (sy_shm s)) (\<lambda>shm1.
    rbind (pd_commit pd (sy_packed s) shm1) (\<lambda>(ph, shm2).
    Inr (s\<lparr>sy_shm := shm2, sy_packed := ph\<rparr>)))"

definition outback_get_direct :: "u64 \<Rightarrow> numa_sys \<Rightarrow> reply_value res" where
  "outback_get_direct loc s =
    rbind (sys_lb s) (\<lambda>lb. rbind (sys_pd s) (\<lambda>pd.
    rbind (read_addr lb (row_of loc) (slot_in_row loc)) (\<lambda>addr.
    rbind (raw_data pd addr) (\<lambda>dummy_value. Inr \<lparr>rv_status = True, rv_val = dummy_value\<rparr>))))"

abbreviation deferred_reply :: reply_value where
  "deferred_reply \<equiv> \<lparr>rv_status = False, rv_val = op_status_code DEFERRED\<rparr>"

text \<open>The switch of \<open>outback_put_direct\<close> on the index, the records and the overflow cache.\<close>

definition put_switch ::
  "ludo_buckets \<Rightarrow> packed_data \<Rightarrow> (u64, u64) cache option \<Rightarrow> u64 \<Rightarrow> u8 \<Rightarrow> u64 \<Rightarrow> u64 \<Rightarrow> reply_value
    \<Rightarrow> (reply_value \<times> ludo_buckets \<times> packed_data \<times> (u64, u64) cache option) res" where
  "put_switch lb pd cache row seed key val reply =
    (let slot = slot_of seed key in
     rbind (check_slots lb key row slot) (\<lambda>status.
     if status = 0 then
       rbind (bulk_load_data pd key 8 val) (\<lambda>(addr, pd').
       rbind (write_addr lb key row slot (ucast addr) 64) (\<lambda>lb'.
       Inr (\<lparr>rv_status = True, rv_val = 0\<rparr>, lb', pd', cache)))
     else if status = 1 then
       rbind (read_addr lb row slot) (\<lambda>addr.
       rbind (read_key pd addr) (\<lambda>key'.
       if key' = key then
         rbind (update_data pd addr key 64 val) (\<lambda>(_, pd').
         Inr (\<lparr>rv_status = True, rv_val = 1\<rparr>, lb, pd', cache))
       else Inr (\<lparr>rv_status = False, rv_val = 0\<rparr>, lb, pd, cache)))
     else if status = 2 then
       rbind (first_free lb key row row_slots) (\<lambda>free.
       case free of None \<Rightarrow> Inr (reply, lb, pd, cache)
       | Some s \<Rightarrow>
           rbind (bulk_load_data pd key 8 val) (\<lambda>(addr, pd').
           rbind (write_addr lb key row s (ucast addr) 64) (\<lambda>lb'.
           Inr (\<lparr>rv_status = True, rv_val = 2\<rparr>, lb', pd', cache))))
     else if status = 3 then
       (case cache of
          None \<Rightarrow> Inr (\<lparr>rv_status = True, rv_val = push_bit 8 1 OR ucast seed\<rparr>, lb, pd, None)
        | Some c \<Rightarrow>
            rbind (cache_insert key val c) (\<lambda>c'.
            rbind (set_cachebit lb row slot) (\<lambda>lb'.
            Inr (\<lparr>rv_status = True, rv_val = push_bit 8 1 OR ucast seed\<rparr>, lb', pd, Some c'))))
     else Inr (\<lparr>rv_status = False, rv_val = 0\<rparr>, lb, pd, cache)))"

text \<open>\<open>reply\<close> is what the caller's reply object held before.\<close>

definition outback_put_direct :: "u64 \<Rightarrow> u64 \<Rightarrow> u64 \<Rightarrow> u64 \<Rightarrow> reply_value \<Rightarrow> numa_sys \<Rightarrow> (reply_value \<times> numa_sys) res" where
  "outback_put_direct now loc key val reply s =
    (if sy_blocked s
     then Inr (deferred_reply, if sy_orch_registered s then snd (defer_insert now key val s) else s)
     else let row = row_of loc in
       rbind (sys_lock_row s row) (\<lambda>_.
       rbind (aget (ld_seeds (sy_lookup s)) (unat row)) (\<lambda>seed.
       rbind (sys_lb s) (\<lambda>lb. rbind (sys_pd s) (\<lambda>pd.
       rbind (put_switch lb pd (sy_cache s) row seed key val reply) (\<lambda>(reply', lb', pd', cache').
       rbind (sys_commit lb' pd' s) (\<lambda>s'. Inr (reply', s'\<lparr>sy_cache := cache'\<rparr>))))))))"

definition outback_update_direct :: "u64 \<Rightarrow> u64 \<Rightarrow> u64 \<Rightarrow> numa_sys \<Rightarrow> (reply_value \<times> numa_sys) res" where
  "outback_update_direct loc key val s =
    (let row = row_of loc in
     rbind (sys_lock_row s row) (\<lambda>_.
     rbind (sys_lb s) (\<lambda>lb. rbind (sys_pd s) (\<lambda>pd.
     rbind (read_addr lb row (slot_in_row loc)) (\<lambda>addr.
     rbind (read_key pd addr) (\<lambda>key'.
     if key' = key then
       rbind (update_data pd addr key 64 val) (\<lambda>(_, pd').
       rbind (sys_commit lb pd' s) (\<lambda>s'. Inr (\<lparr>rv_status = True, rv_val = 1\<rparr>, s')))
     else Inr (\<lparr>rv_status = False, rv_val = 0\<rparr>, s)))))))"

definition outback_remove_direct :: "u64 \<Rightarrow> u64 \<Rightarrow> u64 \<Rightarrow> numa_sys \<Rightarrow> (reply_value \<times> numa_sys) res" where
  "outback_remove_direct now loc key s =
    (if sy_blocked s
     then Inr (deferred_reply, if sy_orch_registered s then snd (defer_delete now key s) else s)
     else let row = row_of loc in
       rbind (sys_lock_row s row) (\<lambda>_.
       rbind (sys_lb s) (\<lambda>lb. rbind (sys_pd s) (\<lambda>pd.
       rbind (read_addr lb row (slot_in_row loc)) (\<lambda>addr.
       rbind (remove_data_with_key_check pd addr key) (\<lambda>(found, pd').
       rbind (if found then remove_addr lb row (slot_in_row loc) else Inr lb) (\<lambda>lb'.
       rbind (sys_commit lb' pd' s) (\<lambda>s'. Inr (\<lparr>rv_status = True, rv_val = 0\<rparr>, s')))))))))"

definition outback_scan_direct :: "u64 \<Rightarrow> u64 \<Rightarrow> u64 list" where
  "outback_scan_direct key n = []"

section \<open>Definitions: set-up, registration, clean-up\<close>

text \<open>
  \<open>setup_ludo_table\<close>: \<open>keys\<close> are the loaded keys, \<open>lookup\<close> and \<open>gen\<close> the lookup unit and the bucket words
  of the control plane, \<open>s_slow\<close> and \<open>s_stop\<close> the two thresholds. A stop signal that
  arrives while keys are loaded is left out.
\<close>

definition load_keys :: "u64 list \<Rightarrow> packed_data \<Rightarrow> packed_data res" where
  "load_keys keys pd =
    rfold (\<lambda>(i, key) pd. rbind (bulk_load_data pd key 8 (of_nat i)) (\<lambda>(_, pd'). Inr pd')) (enumerate 0 keys) pd"

definition effective_mem_threads :: "nat \<Rightarrow> nat" where
  "effective_mem_threads mem_threads = max 1 (min mem_threads kMaxNumaLanes)"

definition setup_registry :: "int \<Rightarrow> u64 \<Rightarrow> u64 \<Rightarrow> nat \<Rightarrow> u64 \<Rightarrow> u64 \<Rightarrow> nat \<Rightarrow> registry \<Rightarrow> registry res" where
  "setup_registry node entries buckets nkeys s_slow s_stop mem_threads reg =
    (let ly = region_layout entries buckets sizeof_ludo_bucket; lanes = effective_mem_threads mem_threads in
     rbind (aget (sr_epoch reg) 1) (\<lambda>ep.
     rbind (aset (sr_epoch reg) 1 (ep\<lparr>ep_version := 1, ep_publish_ts_ns := 0, ep_region_size := ly_total ly,
        ep_num_buckets := buckets, ep_num_data_entries := entries, ep_packed_array_offset := ly_packed_off ly,
        ep_ludo_buckets_offset := ly_ludo_off ly, ep_lock_array_offset := ly_lock_off ly,
        ep_global_depth := 1, ep_directory_size := 0, ep_directory_version := 1, ep_clients_pending_ack := 0,
        ep_active_readers := 0, ep_active_writers := 0, ep_published := 1, ep_cleanup_allowed := 0\<rparr>)) (\<lambda>eps.
     Inr (reg\<lparr>sr_magic := kNumaMetaMagic, sr_numa_node := node, sr_ready := 0, sr_epoch := eps,
        sr_s_slow := s_slow, sr_s_stop := s_stop, sr_mem_threads := of_nat lanes,
        sr_lane_next_free_index :=
          map (\<lambda>lane. if lane < lanes then of_nat nkeys + of_nat lane else entries) [0..<kMaxNumaLanes]\<rparr>))))"

definition setup_ludo_table ::
  "env \<Rightarrow> env \<Rightarrow> int \<Rightarrow> nat \<Rightarrow> u64 \<Rightarrow> u64 \<Rightarrow> ludo_dp \<Rightarrow> ludo_bucket list \<Rightarrow> u64 list \<Rightarrow> shm \<Rightarrow> numa_sys option res" where
  "setup_ludo_table e1 e2 node mem_threads s_slow s_stop lookup gen keys s =
    (let nkeys = length keys; entries = 2 * of_nat nkeys; buckets = getBucketsNum lookup in
     case map_numa_registry (en_os e1) True None of None \<Rightarrow> Inr None
     | Some reg \<Rightarrow>
     case create_shared_numa_region (en_os e2) 1 (unat entries) (unat buckets) s of None \<Rightarrow> Inr None
     | Some shm1 \<Rightarrow>
       rbind (attach_packed (en_junk e2) 1 entries shm1) (\<lambda>(ph, shm2).
       rbind (region_of shm2 1) (\<lambda>r.
       rbind (memcpy_front (rg_ludo r) gen (unat buckets)) (\<lambda>ludo.
       rbind (memset_range 0 (rg_lock r) 0 (unat buckets)) (\<lambda>lk.
       let shm3 = put_region 1 (r\<lparr>rg_ludo := ludo, rg_lock := lk\<rparr>) shm2 in
       rbind (pd_view shm3 ph) (\<lambda>pd.
       rbind (load_keys keys pd) (\<lambda>pd'.
       rbind (pd_commit pd' ph shm3) (\<lambda>(ph', shm4).
       rbind (setup_registry node entries buckets nkeys s_slow s_stop mem_threads reg) (\<lambda>reg'.
       let lh = \<lparr>lh_version = 1, lh_numElements = buckets\<rparr> in
       Inr (Some \<lparr>sy_reg = reg', sy_shm = shm4, sy_mapped = [1], sy_blocked = False, sy_orch_registered = False,
         sy_srv = \<lparr>ss_ludo_buckets_ptr = Some lh, ss_packed_data_ptr = Some ph', ss_num_buckets = buckets,
           ss_num_data_entries = entries, ss_lock_array = Some 1, ss_numa_node = node, ss_shared_region_base = Some 1\<rparr>,
         sy_orch = \<lparr>ro_new_ludo_buckets = None, ro_new_packed_data = None, ro_deferred_inserts = [], ro_deferred_deletes = [],
           ro_pending_old_ver = 0, ro_pending_old_base = None, ro_pending_old_size = 0, ro_ack_wait_start = 0, ro_gc_start_time = 0,
           ro_metrics = \<lparr>rm_resize_count = 0, rm_copy_duration_ms = 0, rm_ack_wait_ms = 0, rm_drain_duration_ms = 0,
             rm_gc_delay_ms = 0, rm_zombie_cleanups = 0, rm_pressure_guard_fails = 0, rm_deferred_inserts_total = 0,
             rm_deferred_deletes_total = 0\<rparr>\<rparr>,
         sy_lookup = lookup, sy_mutexes = unat buckets, sy_buckets = lh, sy_packed = ph',
         sy_cache = Some (Cache_new 2048 10)\<rparr>))))))))))"

text \<open>\<open>register_numa_server\<close>: the in-process table, the ready flag, and the orchestrator.\<close>

definition register_numa_server ::
  "string \<Rightarrow> (string \<rightharpoonup> srv_state) \<Rightarrow> numa_sys \<Rightarrow> (string \<rightharpoonup> srv_state) \<times> numa_sys" where
  "register_numa_server name mgr s =
    (let lanes = (if sr_mem_threads (sy_reg s) > 0 then unat (sr_mem_threads (sy_reg s)) else 1);
         mgr1 = register_server_state ''default'' (sy_srv s) (register_server_state name (sy_srv s) mgr);
         mgr2 = fold (\<lambda>i. register_server_state (''b'' @ to_string i) (sy_srv s)) [0..<lanes] mgr1
     in (mgr2, start (upd_reg (\<lambda>r. r\<lparr>sr_ready := 1\<rparr>) s)))"

text \<open>
  \<open>cleanup_numa_ipc\<close>: stop the orchestrator, clear the ready flag, unmap the registry and the region, and
  unlink the registry and the unversioned region name (version 0). The result is what other processes
  still find: no registry under its name, and the regions.
\<close>

definition cleanup_numa_ipc :: "numa_sys \<Rightarrow> registry option \<times> numa_sys" where
  "cleanup_numa_ipc s =
    (let s1 = upd_reg (\<lambda>r. r\<lparr>sr_ready := 0\<rparr>) (stop s);
         s2 = (case ss_shared_region_base (sy_srv s1) of
                 None \<Rightarrow> s1
               | Some v \<Rightarrow> s1\<lparr>sy_mapped := filter (\<lambda>w. w \<noteq> v) (sy_mapped s1),
                              sy_srv := (sy_srv s1)\<lparr>ss_shared_region_base := None\<rparr>\<rparr>)
     in (None, s2\<lparr>sy_shm := unlink_numa_region 0 (sy_shm s2)\<rparr>))"

section \<open>The handlers while a resize blocks them\<close>

text \<open>
  (C32) While a resize blocks structural mutations, a PUT and a REMOVE leave the index, the records and
  the overflow cache alone and answer DEFERRED; each is appended to its deferral queue, unless the queue
  already holds its maximum, in which case the mutation is dropped although the answer is the same.
\<close>
theorem blocked_mutations_deferred:
  assumes "sy_blocked s" and "sy_orch_registered s"
  shows "\<exists>s1 s2. outback_put_direct now loc key val reply s = Inr (deferred_reply, s1) \<and>
      outback_remove_direct now loc key s = Inr (deferred_reply, s2) \<and>
      sy_shm s1 = sy_shm s \<and> sy_cache s1 = sy_cache s \<and> sy_shm s2 = sy_shm s \<and> sy_cache s2 = sy_cache s \<and>
      ro_deferred_inserts (sy_orch s1) = ro_deferred_inserts (sy_orch s) @
        (if length (ro_deferred_inserts (sy_orch s)) < kMaxDeferredDepth
         then [\<lparr>di_key = key, di_value = val, di_enqueue_ts_ns = now\<rparr>] else []) \<and>
      ro_deferred_deletes (sy_orch s2) = ro_deferred_deletes (sy_orch s) @
        (if length (ro_deferred_deletes (sy_orch s)) < kMaxDeferredDepth
         then [\<lparr>dd_key = key, dd_enqueue_ts_ns = now\<rparr>] else [])"
  using assms by (simp add: outback_put_direct_def outback_remove_direct_def defer_insert_def defer_delete_def)

theorem blocked_mutations_deferred_witness:
  "\<exists>s1. outback_put_direct 5 0 7 70 deferred_reply (set_state COPYING sample_sys) = Inr (deferred_reply, s1) \<and>
     ro_deferred_inserts (sy_orch s1) = [\<lparr>di_key = 7, di_value = 70, di_enqueue_ts_ns = 5\<rparr>]"
proof -
  have "sy_blocked (set_state COPYING sample_sys)" by (simp add: structural_blocked_def)
  moreover have "sy_orch_registered (set_state COPYING sample_sys)" by (simp add: set_state_def sample_sys_def)
  moreover have "ro_deferred_inserts (sy_orch (set_state COPYING sample_sys)) = []"
    by (simp add: sample_sys_def sample_orch_def)
  ultimately show ?thesis
    using blocked_mutations_deferred [of "set_state COPYING sample_sys" 5 0 7 70 deferred_reply]
    by (auto simp: kMaxDeferredDepth_def)
qed

section \<open>The set-up\<close>

lemma load_keys_step:
  assumes "pd_wf pd" and "unat (pd_num pd) = n" and "n + length keys \<le> unat (numElements pd)"
  shows "\<exists>pd'. rfold (\<lambda>(i, key) pd. rbind (bulk_load_data pd key 8 (of_nat i)) (\<lambda>(_, pd'). Inr pd')) (enumerate m keys) pd = Inr pd' \<and>
    pd_wf pd' \<and> unat (pd_num pd') = n + length keys \<and> numElements pd' = numElements pd \<and>
    length (rawArray pd') = length (rawArray pd) \<and> take n (rawArray pd') = take n (rawArray pd) \<and>
    (\<forall>i<length keys. rawArray pd' ! (n + i) = \<lparr>ps_key = keys ! i, ps_data_length = 8, ps_data = of_nat (m + i)\<rparr>)"
  using assms
proof (induction keys arbitrary: pd n m)
  case (Cons key keys)
  have lt: "pd_num pd < numElements pd" using Cons.prems(2,3) by (simp add: word_less_nat_alt)
  note ok = bulk_load_data_ok [OF Cons.prems(1) lt, of key 8 "of_nat m"]
  note r = bulk_load_data_Inr [OF Cons.prems(1) ok]
  let ?pd = "pd\<lparr>rawArray := (rawArray pd)[unat (pd_num pd) := \<lparr>ps_key = key, ps_data_length = 8, ps_data = of_nat m\<rparr>],
    pd_num := pd_num pd + 1\<rparr>"
  have len: "n < length (rawArray pd)"
    using Cons.prems by (simp add: pd_wf_def)
  obtain pd' where pd': "rfold (\<lambda>(i, key) pd. rbind (bulk_load_data pd key 8 (of_nat i)) (\<lambda>(_, pd'). Inr pd')) (enumerate (Suc m) keys) ?pd = Inr pd'"
    and f: "pd_wf pd'" "unat (pd_num pd') = Suc n + length keys" "numElements pd' = numElements pd"
      "length (rawArray pd') = length (rawArray pd)" "take (Suc n) (rawArray pd') = take (Suc n) (rawArray ?pd)"
      "\<forall>i<length keys. rawArray pd' ! (Suc n + i) = \<lparr>ps_key = keys ! i, ps_data_length = 8, ps_data = of_nat (Suc m + i)\<rparr>"
    using Cons.IH [OF r(6), of "Suc n" "Suc m"] Cons.prems(2,3) r(3,4) by auto
  have tk: "take n (rawArray pd') = take n (rawArray pd)"
    using arg_cong [OF f(5), of "take n"] Cons.prems(2) by (simp add: min_def)
  have nth: "rawArray pd' ! n = \<lparr>ps_key = key, ps_data_length = 8, ps_data = of_nat m\<rparr>"
  proof -
    have "take (Suc n) (rawArray pd') ! n = take (Suc n) (rawArray ?pd) ! n" by (rule arg_cong [OF f(5)])
    then show ?thesis using Cons.prems(2) len by simp
  qed
  have "rawArray pd' ! (n + i) = \<lparr>ps_key = (key # keys) ! i, ps_data_length = 8, ps_data = of_nat (m + i)\<rparr>"
    if "i < length (key # keys)" for i
    using that f(6) nth by (cases i) (auto simp: add_ac)
  then show ?case using pd' f tk ok by simp
qed simp

text \<open>The sizes and results under which the set-up goes through.\<close>

definition setup_ready :: "env \<Rightarrow> env \<Rightarrow> ludo_dp \<Rightarrow> ludo_bucket list \<Rightarrow> u64 list \<Rightarrow> bool" where
  "setup_ready e1 e2 lookup gen keys \<longleftrightarrow>
     en_os e1 = \<lparr>os_shm_open = True, os_ftruncate = True, os_mmap = True\<rparr> \<and>
     en_os e2 = \<lparr>os_shm_open = True, os_ftruncate = True, os_mmap = True\<rparr> \<and>
     length gen = length (ld_seeds lookup) \<and> length gen > 0 \<and> even (length gen) \<and>
     length keys * 40 + length gen * 33 + 4224 \<le> 2 ^ 64"

lemma setup_registry_ok:
  assumes E: "unat entries = 2 * n" and B: "unat buckets = b" "b > 0" "even b" and bound: "n * 40 + b * 33 + 4224 \<le> 2 ^ 64"
  shows "\<exists>reg. setup_registry node entries buckets n s_slow s_stop mem_threads fresh_registry = Inr reg \<and>
    sr_resize_state reg = NORMAL \<and> sr_current_version reg = 1 \<and> sizes_ok reg \<and>
    sr_deferred_insert_count reg = 0 \<and> sr_deferred_delete_count reg = 0 \<and>
    epoch_geometry (sr_epoch reg ! epoch_slot 1) \<and> (\<forall>l<64. unat (sr_lane_next_free_index reg ! l) \<ge> n)"
proof -
  have s: "epoch_slot 1 = 1" by (simp add: epoch_slot_def)
  have "buckets > 0" using B by (simp add: word_less_nat_alt)
  moreover have "n \<le> unat (of_nat n + of_nat l :: u64)" if "l < 64" for l
  proof -
    have "unat (of_nat n + of_nat l :: u64) = n + l"
      using bound that by (simp add: unsigned_of_nat take_bit_nat_eq_self flip: of_nat_add)
    then show ?thesis by simp
  qed
  ultimately show ?thesis
    using E B bound unfolding s
    by (simp add: setup_registry_def Let_def fresh_registry_def sizes_ok_def epoch_geometry_def)
qed

lemma fresh_packed_region:
  assumes "unat n = length (rg_packed r)" and "sh_regions s v = Some r"
  shows "attach_packed junk v n s = Inr (\<lparr>ph_version = v, ph_num = 0, ph_numElements = n\<rparr>,
    put_region v (r\<lparr>rg_packed := replicate (unat n) junk\<rparr>) s)"
  using assms PackedData_map_eq [of n "rg_packed r" junk] by (simp add: attach_packed_def region_of_def)

text \<open>What the set-up leaves, with the views of the index and of the records through the globals.\<close>

lemma setup_ok:
  assumes "setup_ready e1 e2 lookup gen keys"
  shows "\<exists>s r. setup_ludo_table e1 e2 node mem_threads s_slow s_stop lookup gen keys shm = Inr (Some s) \<and>
    resize_start s \<and> epoch_geometry (sr_epoch (sy_reg s) ! epoch_slot 1) \<and>
    sh_regions (sy_shm s) 1 = Some r \<and> rg_ludo r = gen \<and> rg_lock r = replicate (length gen) 0 \<and>
    length (rg_packed r) = 2 * length keys \<and>
    (\<forall>i<length keys. rg_packed r ! i = \<lparr>ps_key = keys ! i, ps_data_length = 8, ps_data = of_nat i\<rparr>) \<and>
    (\<forall>l<64. unat (sr_lane_next_free_index (sy_reg s) ! l) \<ge> length keys) \<and>
    sys_lb s = Inr (LudoBuckets_external gen (getBucketsNum lookup)) \<and> (\<exists>pd. sys_pd s = Inr pd \<and> rawArray pd = rg_packed r)"
proof -
  let ?n = "length keys" and ?b = "length gen"
  let ?entries = "2 * of_nat ?n :: u64" and ?buckets = "getBucketsNum lookup"
  have bound: "?n * 40 + ?b * 33 + 4224 \<le> 2 ^ 64" and gen: "?b > 0" "even ?b" "length (ld_seeds lookup) = ?b"
    and os: "en_os e1 = \<lparr>os_shm_open = True, os_ftruncate = True, os_mmap = True\<rparr>"
      "en_os e2 = \<lparr>os_shm_open = True, os_ftruncate = True, os_mmap = True\<rparr>"
    using assms unfolding setup_ready_def by metis+
  have un: "unat (of_nat k :: u64) = k" if "k < 2 ^ 64" for k using that by (simp add: unsigned_of_nat take_bit_nat_eq_self)
  have E: "unat ?entries = 2 * ?n" using un [of ?n] un [of "2 * ?n"] bound by simp
  have B: "unat ?buckets = ?b" using un [of ?b] bound by (simp add: getBucketsNum_def gen(3))
  define pd0 where "pd0 = \<lparr>rawArray = replicate (2 * ?n) (en_junk e2), pd_num = 0, numElements = ?entries\<rparr>"
  have wf: "pd_wf pd0" "unat (pd_num pd0) = 0" "0 + ?n \<le> unat (numElements pd0)"
    by (simp_all add: pd0_def pd_wf_def E)
  obtain pd' where ld: "load_keys keys pd0 = Inr pd'" and p: "length (rawArray pd') = 2 * ?n"
    "\<forall>i<?n. rawArray pd' ! i = \<lparr>ps_key = keys ! i, ps_data_length = 8, ps_data = of_nat i\<rparr>"
    using load_keys_step [OF wf, of 0] unfolding load_keys_def by (auto simp: pd0_def)
  obtain reg' where reg': "setup_registry node ?entries ?buckets ?n s_slow s_stop mem_threads fresh_registry = Inr reg'"
    and rp: "sr_resize_state reg' = NORMAL" "sr_current_version reg' = 1" "sizes_ok reg'"
      "sr_deferred_insert_count reg' = 0" "sr_deferred_delete_count reg' = 0"
      "epoch_geometry (sr_epoch reg' ! epoch_slot 1)" "\<forall>l<64. unat (sr_lane_next_free_index reg' ! l) \<ge> ?n"
    using setup_registry_ok [OF E B gen(1,2) bound] by metis
  define shm1 where "shm1 = shm\<lparr>sh_regions := (sh_regions shm)(1 \<mapsto> zero_region (2 * ?n) ?b), sh_linked := (sh_linked shm)(1 := True)\<rparr>"
  have cr: "create_shared_numa_region (en_os e2) 1 (unat ?entries) (unat ?buckets) shm = Some shm1"
    by (simp add: create_shared_numa_region_def os E B shm1_def)
  have at: "attach_packed (en_junk e2) 1 ?entries shm1 = Inr (\<lparr>ph_version = 1, ph_num = 0, ph_numElements = ?entries\<rparr>,
     put_region 1 ((zero_region (2 * ?n) ?b)\<lparr>rg_packed := replicate (2 * ?n) (en_junk e2)\<rparr>) shm1)"
    using fresh_packed_region [of ?entries "zero_region (2 * ?n) ?b" shm1 1 "en_junk e2"] E
    by (simp add: shm1_def zero_region_def)
  have mr: "map_numa_registry (en_os e1) True None = Some fresh_registry" by (simp add: map_numa_registry_def os)
  show ?thesis
    unfolding setup_ludo_table_def Let_def mr cr at option.case rbind_Inr prod.case
    using ld [unfolded pd0_def] reg' rp p
    by (simp add: region_of_def put_region_def zero_region_def memcpy_front_def memset_range_def B pd_view_def
        pd_commit_def resize_start_def sys_lb_def sys_pd_def lb_view_def)
qed

text \<open>
  The set-up publishes a correct first epoch: when the shared objects can be created it returns a
  system whose registry is the start state of the resize machinery, whose active epoch's offsets fit its
  counts, whose index is the generated one, whose row locks are free, and whose record \<open>i\<close> holds the
  \<open>i\<close>-th key with value \<open>i\<close>; the first number each allocation lane hands out lies behind those records.
\<close>
theorem setup_publishes:
  assumes "setup_ready e1 e2 lookup gen keys"
  shows "\<exists>s r. setup_ludo_table e1 e2 node mem_threads s_slow s_stop lookup gen keys shm = Inr (Some s) \<and>
    resize_start s \<and> epoch_geometry (sr_epoch (sy_reg s) ! epoch_slot 1) \<and>
    sh_regions (sy_shm s) 1 = Some r \<and> rg_ludo r = gen \<and> rg_lock r = replicate (length gen) 0 \<and>
    length (rg_packed r) = 2 * length keys \<and>
    (\<forall>i<length keys. rg_packed r ! i = \<lparr>ps_key = keys ! i, ps_data_length = 8, ps_data = of_nat i\<rparr>) \<and>
    (\<forall>l<64. unat (sr_lane_next_free_index (sy_reg s) ! l) \<ge> length keys)"
  using setup_ok [OF assms, of node mem_threads s_slow s_stop shm] by blast

theorem setup_publishes_witness:
  "\<exists>s r. setup_ludo_table sample_env sample_env 0 1 3 4 (sample_lookup\<lparr>ld_seeds := [0, 0]\<rparr>)
      [[0, 0, 0, 0], [0, 0, 0, 0]] [5, 6] \<lparr>sh_regions = (\<lambda>_. None), sh_linked = (\<lambda>_. False)\<rparr> = Inr (Some s) \<and>
    resize_start s \<and> sh_regions (sy_shm s) 1 = Some r \<and>
    rg_packed r ! 1 = \<lparr>ps_key = 6, ps_data_length = 8, ps_data = 1\<rparr>"
proof -
  have "setup_ready sample_env sample_env (sample_lookup\<lparr>ld_seeds := [0, 0]\<rparr>) [[0, 0, 0, 0], [0, 0, 0, 0]] [5, 6]"
    by (simp add: setup_ready_def sample_env_def)
  then obtain s r where "setup_ludo_table sample_env sample_env 0 1 3 4 (sample_lookup\<lparr>ld_seeds := [0, 0]\<rparr>)
      [[0, 0, 0, 0], [0, 0, 0, 0]] [5, 6] \<lparr>sh_regions = (\<lambda>_. None), sh_linked = (\<lambda>_. False)\<rparr> = Inr (Some s)"
    and "resize_start s" "sh_regions (sy_shm s) 1 = Some r"
    and r: "\<forall>i<length [5, 6 :: u64]. rg_packed r ! i = \<lparr>ps_key = [5, 6] ! i, ps_data_length = 8, ps_data = of_nat i\<rparr>"
    using setup_publishes by blast
  moreover have "rg_packed r ! 1 = \<lparr>ps_key = 6, ps_data_length = 8, ps_data = 1\<rparr>"
    using r [rule_format, of 1] by simp
  ultimately show ?thesis by blast
qed

section \<open>The handlers in the normal state\<close>

text \<open>The system while no resize runs: the globals are attached to one mapped region.\<close>

definition direct_ready :: "numa_sys \<Rightarrow> u64 \<Rightarrow> region \<Rightarrow> ludo_buckets \<Rightarrow> packed_data \<Rightarrow> bool" where
  "direct_ready s v r lb pd \<longleftrightarrow>
     \<not> sy_blocked s \<and> v \<in> set (sy_mapped s) \<and> lh_version (sy_buckets s) = v \<and> ph_version (sy_packed s) = v \<and>
     sh_regions (sy_shm s) v = Some r \<and>
     lb = LudoBuckets_external (rg_ludo r) (lh_numElements (sy_buckets s)) \<and>
     pd = \<lparr>rawArray = rg_packed r, pd_num = ph_num (sy_packed s), numElements = ph_numElements (sy_packed s)\<rparr> \<and>
     lb_wf lb \<and> pd_wf pd \<and> length (ld_seeds (sy_lookup s)) = length (rg_ludo r) \<and> sy_mutexes s = length (rg_ludo r)"

lemma direct_views:
  assumes "direct_ready s v r lb pd"
  shows "sys_lb s = Inr lb" "sys_pd s = Inr pd" "bucketsArray lb = rg_ludo r"
  using assms by (auto simp: direct_ready_def sys_lb_def sys_pd_def lb_view_def pd_view_def region_of_def LudoBuckets_external_def)

lemma sys_commit_views:
  assumes "direct_ready s v r lb pd" and "lb_numElements lb' = lb_numElements lb" and "numElements pd' = numElements pd"
  shows "\<exists>s'. sys_commit lb' pd' s = Inr s' \<and> sys_lb s' = Inr lb' \<and> sys_pd s' = Inr pd'"
  using assms
  by (auto simp: direct_ready_def sys_commit_def lb_commit_def pd_commit_def region_of_def put_region_def
      sys_lb_def sys_pd_def lb_view_def pd_view_def LudoBuckets_external_def)

text \<open>
  A PUT through the direct handler whose primary slot is taken by a key with another fingerprint,
  while another slot of the row is free, is acknowledged (status true, code 2), but a GET at the location
  the row's seed gives the key answers with the value of the record that was in that slot before.
\<close>
theorem put_direct_case2_invisible:
  assumes "direct_ready s v r lb pd" and "unat row < length (rg_ludo r)"
    and "slot = slot_of (ld_seeds (sy_lookup s) ! unat row) key"
    and "check_slots lb key row slot = Inr 2" and "pd_num pd < numElements pd"
    and "toAddr (cell lb (unat row) (unat slot)) < pd_num pd"
    and "row_of loc = row" and "slot_in_row loc = slot"
  shows "\<exists>s'. outback_put_direct now loc key val reply s = Inr (\<lparr>rv_status = True, rv_val = 2\<rparr>, s') \<and>
    outback_get_direct loc s' = outback_get_direct loc s"
proof -
  note vw = direct_views [OF assms(1)]
  have wf: "lb_wf lb" "pd_wf pd" and row: "unat row < length (bucketsArray lb)"
    using assms(1,2) vw by (auto simp: direct_ready_def)
  have s4: "unat slot < 4" by (simp add: assms(3))
  have occ: "toLength (cell lb (unat row) (unat slot)) \<noteq> 0" "\<exists>q<4. toLength (cell lb (unat row) q) = 0"
    using assms(4) wf row s4 by (auto simp: check_slots_eq Let_def split: if_splits)
  obtain f where f: "first_free lb key row row_slots = Inr (Some f)" "f \<in> set row_slots"
      "toLength (cell lb (unat row) (unat f)) = 0"
    using first_free_Some [OF wf(1) row, of row_slots key] bex_slots [of "\<lambda>q. toLength (cell lb (unat row) q) = 0"] occ(2)
    by auto
  have f4: "unat f < 4" using f(2) by auto
  have ne: "unat f \<noteq> unat slot" using f(3) occ(1) by auto
  let ?pd = "pd\<lparr>rawArray := (rawArray pd)[unat (pd_num pd) := \<lparr>ps_key = key, ps_data_length = 8, ps_data = val\<rparr>],
     pd_num := pd_num pd + 1\<rparr>"
  let ?lb = "lb\<lparr>bucketsArray := (bucketsArray lb)[unat row := (bucketsArray lb ! unat row)[unat f :=
     combine (fingerprint key) 64 (ucast (ucast (pd_num pd) :: u32))]]\<rparr>"
  have sw: "put_switch lb pd (sy_cache s) row (ld_seeds (sy_lookup s) ! unat row) key val reply =
    Inr (\<lparr>rv_status = True, rv_val = 2\<rparr>, ?lb, ?pd, sy_cache s)"
    using f f4 wf row assms(4,5) by (simp add: put_switch_def Let_def assms(3) [symmetric] bulk_load_data_ok write_addr_def)
  obtain s1 where s1: "sys_commit ?lb ?pd s = Inr s1" "sys_lb s1 = Inr ?lb" "sys_pd s1 = Inr ?pd"
    using sys_commit_views [OF assms(1), of ?lb ?pd] by auto
  have put: "outback_put_direct now loc key val reply s = Inr (\<lparr>rv_status = True, rv_val = 2\<rparr>, s1\<lparr>sy_cache := sy_cache s\<rparr>)"
    using assms(1,2) s1(1) sw vw
    by (simp add: outback_put_direct_def direct_ready_def sys_lock_row_def assms(7))
  have vw': "sys_lb (s1\<lparr>sy_cache := sy_cache s\<rparr>) = Inr ?lb" "sys_pd (s1\<lparr>sy_cache := sy_cache s\<rparr>) = Inr ?pd"
    using s1(2,3) by (simp_all add: sys_lb_def sys_pd_def split: if_splits)
  have wf': "lb_wf ?lb" using wf(1) row by (simp add: lb_wf_row)
  have c: "cell ?lb (unat row) (unat slot) = cell lb (unat row) (unat slot)"
    using ne wf row f4 s4 by (simp add: cell_write)
  have ge: "outback_get_direct loc (s1\<lparr>sy_cache := sy_cache s\<rparr>) = outback_get_direct loc s"
    using vw vw' wf wf' row s4 c assms(6)
    by (simp add: outback_get_direct_def assms(7,8) read_addr_def raw_data_def word_less_nat_alt aget_def)
  show ?thesis using put ge by blast
qed

text \<open>One row: key 1 in slot 3, which key 2 also needs; slots 0 to 2 are free.\<close>

definition sample_region :: region where
  "sample_region = \<lparr>rg_packed = rawArray sample_data, rg_ludo = bucketsArray sample_buckets, rg_lock = [0]\<rparr>"

definition sample_direct :: numa_sys where
  "sample_direct = sample_sys\<lparr>sy_shm := \<lparr>sh_regions = (\<lambda>_. None)(1 \<mapsto> sample_region), sh_linked = (\<lambda>v. v = 1)\<rparr>,
     sy_buckets := \<lparr>lh_version = 1, lh_numElements = 1\<rparr>, sy_packed := \<lparr>ph_version = 1, ph_num = 1, ph_numElements = 4\<rparr>,
     sy_mutexes := 1\<rparr>"

lemma sample_direct_ready: "direct_ready sample_direct 1 sample_region sample_buckets sample_data"
  by (simp add: direct_ready_def sample_direct_def sample_sys_def sample_region_def LudoBuckets_external_def
      sample_buckets_def sample_data_def lb_wf_def pd_wf_def sample_lookup_def)

theorem put_direct_case2_invisible_witness:
  "\<exists>s'. outback_put_direct 0 3 2 22 deferred_reply sample_direct = Inr (\<lparr>rv_status = True, rv_val = 2\<rparr>, s') \<and>
    outback_get_direct 3 s' = outback_get_direct 3 sample_direct"
proof -
  have 1: "slot_of 0 2 = 3" by code_simp
  have 2: "check_slots sample_buckets 2 0 3 = Inr 2" by code_simp
  have 3: "toAddr (cell sample_buckets 0 3) = 0" by (simp add: sample_buckets_def toAddr_small)
  have 4: "slot_in_row 3 = 3" "row_of 3 = 0" by code_simp+
  show ?thesis
    using put_direct_case2_invisible [OF sample_direct_ready, of 0 3 2 3 0 22 deferred_reply] 1 2 3 4
    by (simp add: sample_direct_def sample_sys_def sample_lookup_def sample_region_def sample_data_def)
      (simp add: sample_buckets_def)
qed



text \<open>
  The clean-up removes the registry, the flag and the interception of the handlers, but not the data
  region: it unlinks the unversioned name, while every region the server creates has a version, so a
  linked region stays linked after the server is gone.
\<close>
theorem cleanup_leaves_regions:
  assumes "cleanup_numa_ipc s = (m, s')"
  shows "m = None \<and> \<not> sy_blocked s' \<and> \<not> sy_orch_registered s' \<and> sr_ready (sy_reg s') = 0 \<and>
    ss_shared_region_base (sy_srv s') = None \<and>
    (\<forall>v. v \<noteq> 0 \<longrightarrow> sh_linked (sy_shm s') v = sh_linked (sy_shm s) v)"
  using assms
  by (auto simp: cleanup_numa_ipc_def Let_def stop_def unlink_numa_region_def split: option.splits)

theorem cleanup_leaves_regions_witness:
  "sh_linked (sy_shm (snd (cleanup_numa_ipc sample_sys))) 1"
  using cleanup_leaves_regions [of sample_sys "fst (cleanup_numa_ipc sample_sys)" "snd (cleanup_numa_ipc sample_sys)"]
  by (simp add: sample_sys_def)

end
