(* ===== verification/Outback_Client_Numa.thy ===== *)
theory Outback_Client_Numa
  imports Outback_Server_Numa
begin

text \<open>
  The NUMA client of \<open>outback/outback_client_numa.hh\<close>: it works on the shared registry and the shared
  regions itself. The client's state is the thread-local \<open>ClientRegionState\<close>, the process globals and
  which regions the process has mapped; an operation takes it and the shared state and returns both. An
  operation that changes the index does so under the row's lock byte and is one step here.
\<close>

section \<open>Definitions: state\<close>

record numa_client =
  cn_lookup :: ludo_dp
  cn_registry :: bool                    \<comment> \<open>\<open>remote_registry\<close> is not null\<close>
  cn_lane_id :: u32
  cn_local_version :: u64
  cn_local_generation :: u64
  cn_region :: "u64 option"              \<comment> \<open>base and descriptor of the mapped region\<close>
  cn_region_size :: u64
  cn_buckets :: "lb_handle option"
  cn_packed :: "pd_handle option"
  cn_lock :: "u64 option"
  cn_client_slot :: int
  cn_remote_buckets :: "lb_handle option"
  cn_remote_packed :: "pd_handle option"
  cn_remote_lock :: "u64 option"
  cn_mapped :: "u64 list"

record numa_shared =
  nh_reg :: registry
  nh_shm :: shm

text \<open>What a call meets: the system calls, the clock, and the uninitialised record of the constructor.\<close>

definition cl_region :: "numa_client \<Rightarrow> numa_shared \<Rightarrow> u64 \<Rightarrow> region res" where
  "cl_region c h v = (if v \<in> set (cn_mapped c) then region_of (nh_shm h) v else Inl Unmapped)"

definition or_else :: "'a option \<Rightarrow> 'a option \<Rightarrow> 'a option" where
  "or_else a b = (case a of None \<Rightarrow> b | Some x \<Rightarrow> Some x)"

section \<open>Definitions: allocation and heartbeat\<close>

definition client_lanes :: "registry \<Rightarrow> u32" where
  "client_lanes reg = (if sr_mem_threads reg = 0 then 1 else min (sr_mem_threads reg) 64)"

definition alloc_remote_data_slot :: "bool \<Rightarrow> u32 \<Rightarrow> registry \<Rightarrow> (u64 option \<times> registry) res" where
  "alloc_remote_data_slot mapped lane_id reg =
    (if \<not> mapped then Inr (None, reg)
     else let lanes = client_lanes reg; lane = unat (lane_id mod lanes) in
       rbind (current_epoch reg) (\<lambda>ep.
       rbind (aget (sr_lane_next_free_index reg) lane) (\<lambda>idx.
       let reg' = reg\<lparr>sr_lane_next_free_index := (sr_lane_next_free_index reg)[lane := idx + ucast lanes]\<rparr> in
       Inr (if idx \<ge> ep_num_data_entries ep then None else Some idx, reg'))))"

definition client_heartbeat :: "u64 \<Rightarrow> numa_client \<Rightarrow> registry \<Rightarrow> registry res" where
  "client_heartbeat now_ns c reg =
    (if \<not> cn_registry c \<or> cn_client_slot c < 0 then Inr reg
     else let i = nat (cn_client_slot c) in
       rbind (aget (sr_clients reg) i) (\<lambda>cl.
       Inr (reg\<lparr>sr_clients := (sr_clients reg)[i := cl\<lparr>cl_last_heartbeat_ns := now_ns,
              cl_last_seen_generation := sr_generation reg\<rparr>]\<rparr>)))"

section \<open>Definitions: following the server to a new region\<close>

text \<open>The wrappers of a freshly mapped region, the acknowledgement and the heartbeat.\<close>

definition attach_region :: "env \<Rightarrow> u64 \<Rightarrow> resize_epoch \<Rightarrow> numa_client \<Rightarrow> numa_shared \<Rightarrow> (numa_client \<times> numa_shared) res" where
  "attach_region e v ep c h =
    rbind (attach_packed (en_junk e) v (ep_num_data_entries ep) (nh_shm h)) (\<lambda>(ph, shm').
    let c' = c\<lparr>cn_region := Some v, cn_region_size := ep_region_size ep,
               cn_buckets := Some \<lparr>lh_version = v, lh_numElements = ep_num_buckets ep\<rparr>,
               cn_packed := Some ph, cn_lock := Some v, cn_local_version := v,
               cn_local_generation := sr_generation (nh_reg h), cn_mapped := v # cn_mapped c\<rparr>
    in rbind (upd_epoch v (\<lambda>ep. ep\<lparr>ep_clients_pending_ack := ep_clients_pending_ack ep - 1\<rparr>) (nh_reg h)) (\<lambda>reg1.
       rbind (client_heartbeat (en_now_ns e 0) c' reg1) (\<lambda>reg2.
       Inr (c', h\<lparr>nh_reg := reg2, nh_shm := shm'\<rparr>))))"

definition unmap_old :: "numa_client \<Rightarrow> numa_client" where
  "unmap_old c = (case cn_region c of None \<Rightarrow> c
     | Some v \<Rightarrow> c\<lparr>cn_buckets := None, cn_packed := None, cn_mapped := filter (\<lambda>w. w \<noteq> v) (cn_mapped c)\<rparr>)"

definition remap_to_current_epoch :: "env \<Rightarrow> numa_client \<Rightarrow> numa_shared \<Rightarrow> (bool \<times> numa_client \<times> numa_shared) res" where
  "remap_to_current_epoch e c h =
    (if \<not> cn_registry c then Inr (False, c, h)
     else let new_ver = sr_current_version (nh_reg h) in
       rbind (epoch_at (nh_reg h) new_ver) (\<lambda>ep.
       if ep_published ep = 0 then Inr (False, c, h)
       else let c1 = unmap_old c in
         case open_shared_numa_region (en_os e) new_ver (nh_shm h) of
           None \<Rightarrow> Inr (False, c1, h)
         | Some _ \<Rightarrow> rbind (attach_region e new_ver ep c1 h) (\<lambda>(c2, h2). Inr (True, c2, h2))))"

definition maybe_check_version :: "env \<Rightarrow> numa_client \<Rightarrow> numa_shared \<Rightarrow> (numa_client \<times> numa_shared) res" where
  "maybe_check_version e c h =
    (if \<not> cn_registry c then Inr (c, h)
     else let cur_gen = sr_generation (nh_reg h) in
       if cur_gen = cn_local_generation c then Inr (c, h)
       else if sr_current_version (nh_reg h) \<noteq> cn_local_version c
         then rbind (remap_to_current_epoch e c h) (\<lambda>(_, c', h'). Inr (c', h'))
       else rbind (client_heartbeat (en_now_ns e 0) c (nh_reg h)) (\<lambda>reg.
         Inr (c\<lparr>cn_local_generation := cur_gen\<rparr>, h\<lparr>nh_reg := reg\<rparr>)))"

section \<open>Definitions: the operations\<close>

abbreviation cl_buckets :: "numa_client \<Rightarrow> lb_handle option" where
  "cl_buckets c \<equiv> or_else (cn_buckets c) (cn_remote_buckets c)"

abbreviation cl_packed :: "numa_client \<Rightarrow> pd_handle option" where
  "cl_packed c \<equiv> or_else (cn_packed c) (cn_remote_packed c)"

abbreviation cl_lock :: "numa_client \<Rightarrow> u64 option" where
  "cl_lock c \<equiv> or_else (cn_lock c) (cn_remote_lock c)"

definition cl_lb_view :: "numa_client \<Rightarrow> numa_shared \<Rightarrow> lb_handle \<Rightarrow> ludo_buckets res" where
  "cl_lb_view c h lh = rbind (cl_region c h (lh_version lh)) (\<lambda>_. lb_view (nh_shm h) lh)"

definition cl_pd_view :: "numa_client \<Rightarrow> numa_shared \<Rightarrow> pd_handle \<Rightarrow> packed_data res" where
  "cl_pd_view c h ph = rbind (cl_region c h (ph_version ph)) (\<lambda>_. pd_view (nh_shm h) ph)"

text \<open>The lookup of \<open>numa_search\<close>: the primary slot, then the rest of the row.\<close>

definition search_row :: "ludo_buckets \<Rightarrow> packed_data \<Rightarrow> u64 \<Rightarrow> u64 \<Rightarrow> u8 \<Rightarrow> u64 option res" where
  "search_row lb pd key row slot =
    rbind (read_addr lb row slot) (\<lambda>addr.
    rbind (read_key pd addr) (\<lambda>stored_key.
    if stored_key = key then rbind (raw_data pd addr) (\<lambda>v. Inr (Some v))
    else rbind (scan_row lb pd key row slot row_slots) (\<lambda>found.
      case found of None \<Rightarrow> Inr None | Some (_, a) \<Rightarrow> rbind (raw_data pd a) (\<lambda>v. Inr (Some v)))))"

definition numa_search :: "env \<Rightarrow> u64 \<Rightarrow> numa_client \<Rightarrow> numa_shared \<Rightarrow> (u64 option \<times> numa_client \<times> numa_shared) res" where
  "numa_search e key c0 h0 =
    rbind (maybe_check_version e c0 h0) (\<lambda>(c, h).
    case (cl_buckets c, cl_packed c) of
      (Some lh, Some ph) \<Rightarrow>
        rbind (lookup_slot (cn_lookup c) key) (\<lambda>(b, slot).
        rbind (cl_lb_view c h lh) (\<lambda>lb.
        rbind (cl_pd_view c h ph) (\<lambda>pd.
        rbind (search_row lb pd key (ucast b) slot) (\<lambda>r. Inr (r, c, h)))))
    | _ \<Rightarrow> Inr (None, c, h))"

text \<open>Storing a record under a number and its word in a slot.\<close>

definition store_record :: "ludo_buckets \<Rightarrow> packed_data \<Rightarrow> u64 \<Rightarrow> u64 \<Rightarrow> u8 \<Rightarrow> u64 \<Rightarrow> u64 \<Rightarrow> (ludo_buckets \<times> packed_data) res" where
  "store_record lb pd idx row slot key val =
    rbind (update_data pd idx key 8 val) (\<lambda>(_, pd').
    rbind (write_addr lb key row slot idx 64) (\<lambda>lb'. Inr (lb', pd')))"

text \<open>The switch of \<open>numa_put\<close>; \<open>alloc\<close> is the registry and the lane the allocation uses.\<close>

definition numa_put_switch ::
  "(registry \<Rightarrow> (u64 option \<times> registry) res) \<Rightarrow> registry \<Rightarrow> ludo_dp \<Rightarrow> ludo_buckets \<Rightarrow> packed_data \<Rightarrow> u64 \<Rightarrow> u64 \<Rightarrow> u64
    \<Rightarrow> (registry \<times> ludo_dp \<times> ludo_buckets \<times> packed_data) res" where
  "numa_put_switch alloc reg lookup lb pd row key val =
    rbind (aget (ld_seeds lookup) (unat row)) (\<lambda>seed.
    let slot = slot_of seed key in
    rbind (check_slots lb key row slot) (\<lambda>status.
    if status = 0 then
      rbind (alloc reg) (\<lambda>(slot_addr, reg').
      case slot_addr of None \<Rightarrow> Inr (reg', lookup, lb, pd)
      | Some idx \<Rightarrow> rbind (store_record lb pd idx row slot key val) (\<lambda>(lb', pd'). Inr (reg', lookup, lb', pd')))
    else if status = 1 then
      rbind (read_addr lb row slot) (\<lambda>addr.
      rbind (read_key pd addr) (\<lambda>key'.
      if key' = key then rbind (update_data pd addr key 64 val) (\<lambda>(_, pd'). Inr (reg, lookup, lb, pd'))
      else Inr (reg, lookup, lb, pd)))
    else if status = 2 then
      rbind (first_free lb key row row_slots) (\<lambda>free.
      case free of None \<Rightarrow> Inr (reg, lookup, lb, pd)
      | Some s \<Rightarrow>
        rbind (alloc reg) (\<lambda>(slot_addr, reg').
        case slot_addr of None \<Rightarrow> Inr (reg', lookup, lb, pd)
        | Some idx \<Rightarrow> rbind (store_record lb pd idx row s key val) (\<lambda>(lb', pd'). Inr (reg', lookup, lb', pd'))))
    else if status = 3 then
      rbind (read_addr lb row slot) (\<lambda>addr.
      rbind (update_data pd addr key 64 val) (\<lambda>(_, pd').
      rbind (updateSeed lookup row (seed + 1)) (\<lambda>lookup'. Inr (reg, lookup', lb, pd'))))
    else Inr (reg, lookup, lb, pd)))"

text \<open>
  An operation that takes the row lock: read the views, set the lock byte, run the body, release the byte,
  store the views back. With a missing wrapper nothing happens.
\<close>

definition locked_op ::
  "env \<Rightarrow> u64 \<Rightarrow> (numa_client \<Rightarrow> registry \<Rightarrow> ludo_buckets \<Rightarrow> packed_data \<Rightarrow> u64 \<Rightarrow> u8
      \<Rightarrow> (registry \<times> ludo_dp \<times> ludo_buckets \<times> packed_data) res)
    \<Rightarrow> numa_client \<Rightarrow> numa_shared \<Rightarrow> (numa_client \<times> numa_shared) res" where
  "locked_op e key body c0 h0 =
    rbind (maybe_check_version e c0 h0) (\<lambda>(c, h).
    case (cl_buckets c, cl_packed c, cl_lock c) of
      (Some lh, Some ph, Some lv) \<Rightarrow>
        rbind (lookup_slot (cn_lookup c) key) (\<lambda>(b, slot).
        rbind (cl_region c h lv) (\<lambda>lr.
        rbind (cl_lb_view c h lh) (\<lambda>lb.
        rbind (cl_pd_view c h ph) (\<lambda>pd.
        rbind (with_row_lock (rg_lock lr) (unat b) (\<lambda>_. body c (nh_reg h) lb pd (ucast b) slot))
          (\<lambda>((reg', lookup', lb', pd'), lk).
        rbind (lb_commit lb' lh (nh_shm h)) (\<lambda>shm1.
        rbind (pd_commit pd' ph shm1) (\<lambda>(_, shm2).
        rbind (region_of shm2 lv) (\<lambda>r2.
        Inr (c\<lparr>cn_lookup := lookup'\<rparr>,
             h\<lparr>nh_reg := reg', nh_shm := put_region lv (r2\<lparr>rg_lock := lk\<rparr>) shm2\<rparr>)))))))))
    | _ \<Rightarrow> Inr (c, h))"

definition numa_put :: "env \<Rightarrow> u64 \<Rightarrow> u64 \<Rightarrow> numa_client \<Rightarrow> numa_shared \<Rightarrow> (numa_client \<times> numa_shared) res" where
  "numa_put e key val =
    locked_op e key (\<lambda>c reg lb pd row _.
      numa_put_switch (alloc_remote_data_slot (cn_registry c) (cn_lane_id c)) reg (cn_lookup c) lb pd row key val)"

definition numa_update :: "env \<Rightarrow> u64 \<Rightarrow> u64 \<Rightarrow> numa_client \<Rightarrow> numa_shared \<Rightarrow> (numa_client \<times> numa_shared) res" where
  "numa_update e key val =
    locked_op e key (\<lambda>c reg lb pd row slot.
      rbind (read_addr lb row slot) (\<lambda>addr.
      rbind (read_key pd addr) (\<lambda>key'.
      if key' = key then rbind (update_data pd addr key 64 val) (\<lambda>(_, pd'). Inr (reg, cn_lookup c, lb, pd'))
      else Inr (reg, cn_lookup c, lb, pd))))"

definition numa_remove :: "env \<Rightarrow> u64 \<Rightarrow> numa_client \<Rightarrow> numa_shared \<Rightarrow> (numa_client \<times> numa_shared) res" where
  "numa_remove e key =
    locked_op e key (\<lambda>c reg lb pd row slot.
      rbind (read_addr lb row slot) (\<lambda>addr.
      rbind (remove_data_with_key_check pd addr key) (\<lambda>(res, pd').
      rbind (if res then remove_addr lb row slot else Inr lb) (\<lambda>lb'.
      Inr (reg, cn_lookup c, lb', pd')))))"

definition numa_scan :: "u64 \<Rightarrow> u64 \<Rightarrow> u64 list" where
  "numa_scan key n = []"

section \<open>Definitions: connecting\<close>

text \<open>
  \<open>connect_to_numa_server\<close>: an in-process server's pointers are taken over; otherwise the registry is
  mapped and checked, a client slot is claimed, and the current region is mapped and attached. \<open>mgr\<close> is
  the in-process table's entry, \<open>meta\<close> the registry object found under the server's name.
\<close>

definition connect_in_process :: "srv_state \<Rightarrow> registry option \<Rightarrow> numa_client \<Rightarrow> numa_client" where
  "connect_in_process ss meta c =
    (let c1 = c\<lparr>cn_remote_buckets := ss_ludo_buckets_ptr ss, cn_remote_packed := ss_packed_data_ptr ss,
                cn_remote_lock := ss_lock_array ss, cn_registry := (meta \<noteq> None),
                cn_mapped := (case ss_shared_region_base ss of None \<Rightarrow> [] | Some v \<Rightarrow> [v]) @ cn_mapped c\<rparr>
     in case meta of None \<Rightarrow> c1
        | Some reg \<Rightarrow> c1\<lparr>cn_local_version := sr_current_version reg, cn_local_generation := sr_generation reg,
            cn_buckets := ss_ludo_buckets_ptr ss, cn_packed := ss_packed_data_ptr ss, cn_lock := ss_lock_array ss\<rparr>)"

definition claim_client_slot :: "numa_client \<Rightarrow> registry \<Rightarrow> numa_client \<times> registry" where
  "claim_client_slot c reg =
    (case claim_slot 0 (sr_clients reg) of
       None \<Rightarrow> (c, reg)
     | Some i \<Rightarrow> (c\<lparr>cn_client_slot := int i\<rparr>,
         reg\<lparr>sr_clients := (sr_clients reg)[i := (sr_clients reg ! i)\<lparr>cl_active := 1\<rparr>],
             sr_registered_clients := sr_registered_clients reg + 1\<rparr>))"

definition connect_to_numa_server ::
  "env \<Rightarrow> srv_state option \<Rightarrow> registry option \<Rightarrow> numa_client \<Rightarrow> shm \<Rightarrow> (bool \<times> numa_client \<times> registry option \<times> shm) res" where
  "connect_to_numa_server e mgr meta c s =
    (case mgr of
       Some ss \<Rightarrow> Inr (True, connect_in_process ss meta c, meta, s)
     | None \<Rightarrow>
       case map_numa_registry (en_os e) False meta of
         None \<Rightarrow> Inr (False, c, meta, s)
       | Some reg \<Rightarrow>
         if sr_magic reg \<noteq> kNumaMetaMagic \<or> sr_ready reg = 0
         then Inr (False, c\<lparr>cn_registry := False\<rparr>, meta, s)
         else let cur_ver = sr_current_version reg in
           rbind (epoch_at reg cur_ver) (\<lambda>ep.
           if ep_published ep = 0 then Inr (False, c\<lparr>cn_registry := False\<rparr>, meta, s)
           else let (c1, reg1) = claim_client_slot (c\<lparr>cn_registry := True\<rparr>) reg in
             case open_shared_numa_region (en_os e) cur_ver s of
               None \<Rightarrow> Inr (False, c1\<lparr>cn_registry := False\<rparr>, Some reg1, s)
             | Some _ \<Rightarrow>
               rbind (attach_region e cur_ver ep c1 \<lparr>nh_reg = reg1, nh_shm = s\<rparr>) (\<lambda>(c2, h).
               Inr (True, c2\<lparr>cn_remote_buckets := cn_buckets c2, cn_remote_packed := cn_packed c2,
                             cn_remote_lock := cn_lock c2\<rparr>, Some (nh_reg h), nh_shm h))))"

section \<open>Record numbers are handed out once\<close>

text \<open>The lanes interleave: lane \<open>l\<close> of \<open>n\<close> hands out the numbers \<open>base + l + k * n\<close>.\<close>

definition lanes_ok :: "nat \<Rightarrow> nat \<Rightarrow> registry \<Rightarrow> bool" where
  "lanes_ok base room reg \<longleftrightarrow>
     length (sr_lane_next_free_index reg) = 64 \<and> length (sr_epoch reg) = 16 \<and>
     (\<forall>l<unat (client_lanes reg). unat (sr_lane_next_free_index reg ! l) \<ge> base \<and>
        unat (sr_lane_next_free_index reg ! l) mod unat (client_lanes reg) = (base + l) mod unat (client_lanes reg) \<and>
        unat (sr_lane_next_free_index reg ! l) + 64 * room < 2 ^ 64)"

text \<open>Allocations by clients with the lane numbers \<open>ls\<close>, in that order; the numbers that were given.\<close>

fun alloc_run :: "u32 list \<Rightarrow> registry \<Rightarrow> (u64 list \<times> registry) res" where
  "alloc_run [] reg = Inr ([], reg)"
| "alloc_run (l # ls) reg =
    rbind (alloc_remote_data_slot True l reg) (\<lambda>(r, reg1).
    rbind (alloc_run ls reg1) (\<lambda>(rs, reg2).
    Inr (case r of None \<Rightarrow> rs | Some i \<Rightarrow> i # rs, reg2)))"

lemma client_lanes_bounds: "0 < unat (client_lanes reg)" "unat (client_lanes reg) \<le> 64"
proof -
  have "client_lanes reg \<noteq> 0" by (auto simp: client_lanes_def min_def)
  then show "0 < unat (client_lanes reg)" by (simp add: unat_gt_0)
  have "client_lanes reg \<le> 64" by (simp add: client_lanes_def)
  then show "unat (client_lanes reg) \<le> 64" by (simp add: word_le_nat_alt)
qed

lemma mod_add_inj:
  fixes n :: nat
  assumes "(b + l) mod n = (b + l') mod n" "l < n" "l' < n"
  shows "l = l'"
proof -
  have le: "x = y" if "(b + x) mod n = (b + y) mod n" "x \<le> y" "y < n" for x y
  proof -
    have "n dvd (b + y) - (b + x)"
      using that(2) mod_eq_dvd_iff_nat [of "b + x" "b + y" n] that(1) [symmetric] by simp
    then have "n dvd y - x" by simp
    then show ?thesis using that(2,3) nat_dvd_not_less [of "y - x" n] by (cases "y - x = 0") auto
  qed
  show ?thesis using le [of l l'] le [of l' l] assms by (cases "l \<le> l'") auto
qed

lemma alloc_cases:
  assumes "alloc_remote_data_slot True lid reg = Inr (r, reg')" and "lanes_ok base (Suc room) reg"
  obtains l where "l < unat (client_lanes reg)" and "client_lanes reg' = client_lanes reg"
    and "lanes_ok base room reg'"
    and "\<And>l'. sr_lane_next_free_index reg' ! l' \<ge> sr_lane_next_free_index reg ! l' \<or> \<not> l' < 64"
    and "unat (sr_lane_next_free_index reg ! l) < unat (sr_lane_next_free_index reg' ! l)"
    and "r = None \<or> r = Some (sr_lane_next_free_index reg ! l)"
proof -
  let ?n = "client_lanes reg" and ?ix = "sr_lane_next_free_index reg"
  define l where "l = unat (lid mod ?n)"
  have n: "0 < unat ?n" "unat ?n \<le> 64" by (rule client_lanes_bounds)+
  have l: "l < unat ?n" using n by (simp add: l_def unat_mod)
  note ok = assms(2) [unfolded lanes_ok_def]
  have l64: "l < length ?ix" using ok l n by simp
  have reg': "reg' = reg\<lparr>sr_lane_next_free_index := ?ix[l := ?ix ! l + ucast ?n]\<rparr>"
    and r: "r = None \<or> r = Some (?ix ! l)"
    using assms(1) l64 by (auto simp: alloc_remote_data_slot_def Let_def l_def elim!: rbindE split: if_splits)
  have u: "unat (?ix ! l + ucast ?n) = unat (?ix ! l) + unat ?n"
    using ok l n unat_add_small [of "?ix ! l" "ucast ?n"] by fastforce
  have cl: "client_lanes reg' = ?n" by (simp add: reg' client_lanes_def)
  have "unat (sr_lane_next_free_index reg' ! m) \<ge> base \<and>
        unat (sr_lane_next_free_index reg' ! m) mod unat ?n = (base + m) mod unat ?n \<and>
        unat (sr_lane_next_free_index reg' ! m) + 64 * room < 2 ^ 64" if m: "m < unat ?n" for m
  proof (cases "m = l")
    case True
    then show ?thesis using ok u n l l64 by (auto simp: reg')
  next
    case False
    then show ?thesis using ok m by (auto simp: reg')
  qed
  then have "lanes_ok base room reg'"
    using ok unfolding lanes_ok_def cl by (simp add: reg')
  moreover have "sr_lane_next_free_index reg' ! l' \<ge> ?ix ! l' \<or> \<not> l' < 64" for l'
    using u l64 by (auto simp: reg' nth_list_update word_le_nat_alt)
  moreover have "unat (?ix ! l) < unat (sr_lane_next_free_index reg' ! l)"
    using u n l64 by (simp add: reg')
  ultimately show thesis using that [OF l cl] r by blast
qed

text \<open>Every number a run gives is at or above its lane's counter, and its lane is the residue.\<close>

lemma alloc_run_numbers:
  assumes "alloc_run ls reg = Inr (rs, reg')" and "lanes_ok base (length ls) reg" and "i \<in> set rs"
  shows "\<exists>l<unat (client_lanes reg). unat (sr_lane_next_free_index reg ! l) \<le> unat i \<and>
    unat i mod unat (client_lanes reg) = (base + l) mod unat (client_lanes reg)"
  using assms
proof (induction ls arbitrary: reg rs)
  case (Cons lid ls)
  from Cons.prems(1) obtain r reg1 rs1 where 1: "alloc_remote_data_slot True lid reg = Inr (r, reg1)"
    and rest: "alloc_run ls reg1 = Inr (rs1, reg')" and rs: "rs = (case r of None \<Rightarrow> rs1 | Some i \<Rightarrow> i # rs1)"
    by (auto elim!: rbindE)
  have ok: "lanes_ok base (Suc (length ls)) reg" using Cons.prems(2) by simp
  from 1 ok show ?case
  proof (cases rule: alloc_cases)
    case (1 l)
    show ?thesis
    proof (cases "i \<in> set rs1")
      case True
      from Cons.IH [OF rest 1(3) True] obtain l' where l': "l' < unat (client_lanes reg)"
        "unat (sr_lane_next_free_index reg1 ! l') \<le> unat i"
        "unat i mod unat (client_lanes reg) = (base + l') mod unat (client_lanes reg)"
        unfolding 1(2) by blast
      then show ?thesis using 1(4) [of l'] client_lanes_bounds(2) [of reg] by (fastforce simp: word_le_nat_alt)
    next
      case False
      then have "i = sr_lane_next_free_index reg ! l" using Cons.prems(3) rs 1(6) by auto
      then show ?thesis using 1(1) ok by (auto simp: lanes_ok_def)
    qed
  qed
qed simp


text \<open>Two clients on two lanes and one more allocation on the first: 4, 5 and 6.\<close>

definition two_lanes :: registry where
  "two_lanes = sample_reg\<lparr>sr_mem_threads := 2, sr_lane_next_free_index := [4, 5] @ replicate 62 0,
     sr_epoch := (replicate 16 zero_epoch)[1 := sample_epoch\<lparr>ep_num_data_entries := 8\<rparr>]\<rparr>"


section \<open>What a search finds\<close>

text \<open>
  A client that is up to date: it has seen the current generation, its three wrappers are over one mapped
  region, the row locks are free, every slot's record number is within the record array, and its lookup
  unit is well formed, fits the region and has no writer at work.
\<close>

definition client_ready :: "numa_client \<Rightarrow> numa_shared \<Rightarrow> u64 \<Rightarrow> region \<Rightarrow> ludo_buckets \<Rightarrow> packed_data \<Rightarrow> bool" where
  "client_ready c h v r lb pd \<longleftrightarrow>
     (cn_registry c \<longrightarrow> sr_generation (nh_reg h) = cn_local_generation c) \<and>
     (\<exists>lh. cl_buckets c = Some lh \<and> lh_version lh = v \<and> lb = LudoBuckets_external (rg_ludo r) (lh_numElements lh)) \<and>
     (\<exists>ph. cl_packed c = Some ph \<and> ph_version ph = v \<and>
        pd = \<lparr>rawArray = rg_packed r, pd_num = ph_num ph, numElements = ph_numElements ph\<rparr>) \<and>
     cl_lock c = Some v \<and> v \<in> set (cn_mapped c) \<and> sh_regions (nh_shm h) v = Some r \<and>
     ld_wf (cn_lookup c) \<and> ld_quiet (cn_lookup c) \<and> length (ld_seeds (cn_lookup c)) \<le> length (rg_ludo r) \<and>
     length (rg_lock r) = length (rg_ludo r) \<and> (\<forall>i<length (rg_lock r). rg_lock r ! i = 0) \<and>
     (\<forall>i<length (rg_ludo r). length (rg_ludo r ! i) = 4 \<and>
        (\<forall>q<4. unat (toAddr (rg_ludo r ! i ! q)) < length (rg_packed r)))"

text \<open>The abstract answer: the record that the scan of the key's row finds.\<close>

definition client_row :: "numa_client \<Rightarrow> u64 \<Rightarrow> nat" where
  "client_row c key = unat (bucket_of (cn_lookup c) key)"

definition client_slot_of :: "numa_client \<Rightarrow> u64 \<Rightarrow> u8" where
  "client_slot_of c key = slot_of (ld_seeds (cn_lookup c) ! client_row c key) key"

definition client_find :: "numa_client \<Rightarrow> region \<Rightarrow> u64 \<Rightarrow> u64 option" where
  "client_find c r key =
    map_option (\<lambda>a. ps_data (rg_packed r ! unat a))
      (row_find (rg_ludo r ! client_row c key) (rg_packed r) key (client_slot_of c key))"

lemma client_ready_parts:
  assumes "client_ready c h v r lb pd"
  shows "maybe_check_version e c h = Inr (c, h)" "bucketsArray lb = rg_ludo r" "rawArray pd = rg_packed r"
    "lb_wf lb" "client_row c key < length (rg_ludo r)"
    "lookup_slot (cn_lookup c) key = Inr (bucket_of (cn_lookup c) key, client_slot_of c key)"
    "unat (client_slot_of c key) < 4" "cl_region c h v = Inr r"
proof -
  note a = assms [unfolded client_ready_def]
  show "maybe_check_version e c h = Inr (c, h)" using a by (auto simp: maybe_check_version_def)
  show b: "bucketsArray lb = rg_ludo r" "rawArray pd = rg_packed r" using a by (auto simp: LudoBuckets_external_def)
  show "lb_wf lb" using a by (auto simp: lb_wf_def b in_set_conv_nth)
  show "client_row c key < length (rg_ludo r)" using a bucket_of_lt [of "cn_lookup c" key] by (auto simp: client_row_def)
  show "lookup_slot (cn_lookup c) key = Inr (bucket_of (cn_lookup c) key, client_slot_of c key)"
    using a lookup_slot_eq [of "cn_lookup c" key] by (simp add: client_slot_of_def client_row_def)
  show "unat (client_slot_of c key) < 4" by (simp add: client_slot_of_def)
  show "cl_region c h v = Inr r" using a by (simp add: cl_region_def region_of_def)
qed

lemma client_ready_views:
  assumes "client_ready c h v r lb pd"
  obtains lh ph where "cl_buckets c = Some lh" "cl_packed c = Some ph" "cl_lock c = Some v"
    "cl_lb_view c h lh = Inr lb" "cl_pd_view c h ph = Inr pd" "lh_version lh = v" "ph_version ph = v"
  using assms client_ready_parts(8) [OF assms]
  by (auto simp: client_ready_def cl_lb_view_def cl_pd_view_def lb_view_def pd_view_def region_of_def)

lemma search_row_eq:
  assumes "lb_wf lb" "row < length (bucketsArray lb)" "unat slot < 4" "row < 2 ^ 32"
    and "\<forall>q<4. unat (toAddr (bucketsArray lb ! row ! q)) < length (rawArray pd)"
  shows "search_row lb pd key (ucast (of_nat row :: u32)) slot =
    Inr (map_option (\<lambda>a. ps_data (rawArray pd ! unat a)) (row_find (bucketsArray lb ! row) (rawArray pd) key slot))"
proof -
  have u: "unat (ucast (of_nat row :: u32) :: u64) = row"
    using assms(4) by (simp add: unsigned_of_nat take_bit_nat_eq_self)
  have sc: "scan_row lb pd key (ucast (of_nat row :: u32)) slot row_slots =
    Inr (case filter (\<lambda>s. s \<noteq> slot \<and> toAddr (cell lb row (unat s)) \<noteq> 0 \<and>
        ps_key (rawArray pd ! unat (toAddr (cell lb row (unat s)))) = key) row_slots of
       [] \<Rightarrow> None | s # _ \<Rightarrow> Some (s, toAddr (cell lb row (unat s))))"
    using scan_row_eq [of lb "ucast (of_nat row :: u32)" row_slots pd key slot] assms u by (simp add: Let_def)
  let ?F = "filter (\<lambda>s. s \<noteq> slot \<and> toAddr (cell lb row (unat s)) \<noteq> 0 \<and>
        ps_key (rawArray pd ! unat (toAddr (cell lb row (unat s)))) = key) row_slots"
  have rd: "unat (toAddr (cell lb row (unat s))) < length (rawArray pd)" if "s \<in> set ?F" for s
    using that assms(5) by (auto split: if_splits)
  show ?thesis
  proof (cases "ps_key (rawArray pd ! unat (toAddr (cell lb row (unat slot)))) = key")
    case True
    then show ?thesis
      using assms u by (simp add: search_row_def read_addr_def read_key_def raw_data_def row_find_def)
  next
    case False
    show ?thesis
    proof (cases ?F)
      case Nil
      then show ?thesis
        using False assms u sc by (simp add: search_row_def read_addr_def read_key_def row_find_def del: filter.simps)
    next
      case (Cons s ss)
      have lt: "unat (toAddr (cell lb row (unat s))) < length (rawArray pd)" using rd [of s] Cons by simp
      show ?thesis
        using False assms u sc lt Cons
        by (simp add: search_row_def read_addr_def read_key_def row_find_def raw_data_def del: filter.simps)
    qed
  qed
qed

lemma numa_search_eq:
  assumes "client_ready c h v r lb pd"
  shows "numa_search e key c h = Inr (client_find c r key, c, h)"
proof -
  note p = client_ready_parts [OF assms]
  obtain lh ph where w: "cl_buckets c = Some lh" "cl_packed c = Some ph"
    "cl_lb_view c h lh = Inr lb" "cl_pd_view c h ph = Inr pd" using client_ready_views [OF assms] by metis
  have b: "ucast (bucket_of (cn_lookup c) key) = (ucast (of_nat (client_row c key) :: u32) :: u64)"
    by (simp add: client_row_def)
  have lt: "client_row c key < 2 ^ 32"
    unfolding client_row_def using unsigned_less [of "bucket_of (cn_lookup c) key", where 'a = nat] by simp
  have ad: "\<forall>q<4. unat (toAddr (bucketsArray lb ! client_row c key ! q)) < length (rawArray pd)"
    using assms p(5) [of key] by (auto simp: client_ready_def p(2,3))
  have "search_row lb pd key (ucast (bucket_of (cn_lookup c) key)) (client_slot_of c key) = Inr (client_find c r key)"
    unfolding b client_find_def using search_row_eq [of lb "client_row c key" "client_slot_of c key" pd key] p(2-5,7) lt ad by simp
  then show ?thesis by (simp add: numa_search_def p(1,6) w)
qed


section \<open>Storing a new key\<close>

text \<open>Writing a fresh record and its word into a free slot of a row.\<close>

lemma row_find_store:
  fixes s p :: u8
  assumes b: "length b = 4" "unat s < 4" and p: "unat p < 4" and none: "row_find b arr key p = None"
    and idx: "unat idx < length arr" "idx \<noteq> 0" "toAddr w = idx" "ps_key rec = key"
    and fresh: "\<forall>q<4. toAddr (b ! q) \<noteq> idx"
  shows "row_find (b[unat s := w]) (arr[unat idx := rec]) key p = Some idx"
proof -
  let ?b = "b[unat s := w]" and ?arr = "arr[unat idx := rec]"
  have old: "ps_key (?arr ! unat (toAddr (b ! q))) = ps_key (arr ! unat (toAddr (b ! q)))" if "q < 4" for q
  proof -
    have "unat (toAddr (b ! q)) \<noteq> unat idx" using fresh that by (metis word_unat_eq_iff)
    then show ?thesis by simp
  qed
  have hit: "ps_key (?arr ! unat (toAddr (?b ! unat q))) = key \<longleftrightarrow>
    q = s \<or> ps_key (arr ! unat (toAddr (b ! unat q))) = key" if "unat q < 4" for q :: u8
    using that old [of "unat q"] idx b by (cases "q = s") (auto simp: nth_list_update word_unat_eq_iff)
  have nop: "ps_key (arr ! unat (toAddr (b ! unat p))) \<noteq> key"
    and nof: "q \<in> set row_slots \<Longrightarrow> q \<noteq> p \<Longrightarrow> toAddr (b ! unat q) \<noteq> 0 \<Longrightarrow> ps_key (arr ! unat (toAddr (b ! unat q))) \<noteq> key" for q
    using none by (auto simp: row_find_def Let_def filter_empty_conv split: if_splits list.splits)
  show ?thesis
  proof (cases "p = s")
    case True
    then show ?thesis using hit [of p] p idx b by (simp add: row_find_def)
  next
    case False
    have s: "s \<in> set row_slots" using b(2) slot_indices by simp
    have "filter (\<lambda>q. q \<noteq> p \<and> toAddr (?b ! unat q) \<noteq> 0 \<and> ps_key (?arr ! unat (toAddr (?b ! unat q))) = key) row_slots =
        filter (\<lambda>q. q = s) row_slots"
    proof (rule filter_cong [OF refl])
      fix q :: u8 assume q: "q \<in> set row_slots"
      then have q4: "unat q < 4" using slot_indices by simp
      show "(q \<noteq> p \<and> toAddr (?b ! unat q) \<noteq> 0 \<and> ps_key (?arr ! unat (toAddr (?b ! unat q))) = key) = (q = s)"
        using hit [OF q4] nof [OF q] False idx b q4 by (auto simp: nth_list_update word_unat_eq_iff)
    qed
    also have "\<dots> = [s]" using s by auto
    finally show ?thesis using hit [OF p] nop False idx b by (simp add: row_find_def del: filter.simps)
  qed
qed

lemma row_find_frame:
  fixes s p :: u8
  assumes b: "length b = 4" "unat s < 4" "b ! unat s = 0" and p: "unat p < 4"
    and idx: "toAddr w = idx" "ps_key rec \<noteq> key" "unat idx < length arr" "idx \<noteq> 0"
    and zero: "ps_key (arr ! 0) \<noteq> key" and fresh: "\<forall>q<4. toAddr (b ! q) \<noteq> idx"
  shows "row_find (b[unat s := w]) (arr[unat idx := rec]) key p = row_find b arr key p"
proof -
  let ?b = "b[unat s := w]" and ?arr = "arr[unat idx := rec]"
  have hit: "ps_key (?arr ! unat (toAddr (?b ! unat q))) = key \<longleftrightarrow> ps_key (arr ! unat (toAddr (b ! unat q))) = key"
    if q: "unat q < 4" for q :: u8
  proof (cases "unat q = unat s")
    case True
    then show ?thesis using idx b zero by simp
  next
    case False
    have "unat (toAddr (b ! unat q)) \<noteq> unat idx" using fresh q by (metis word_unat_eq_iff)
    then show ?thesis using False by simp
  qed
  have same: "?b ! unat q = b ! unat q" if "ps_key (arr ! unat (toAddr (b ! unat q))) = key" for q :: u8
    using that b zero by (cases "unat q = unat s") auto
  have "filter (\<lambda>q. q \<noteq> p \<and> toAddr (?b ! unat q) \<noteq> 0 \<and> ps_key (?arr ! unat (toAddr (?b ! unat q))) = key) row_slots =
      filter (\<lambda>q. q \<noteq> p \<and> toAddr (b ! unat q) \<noteq> 0 \<and> ps_key (arr ! unat (toAddr (b ! unat q))) = key) row_slots" (is "?F' = ?F")
  proof (rule filter_cong [OF refl])
    fix q :: u8 assume "q \<in> set row_slots"
    then have q4: "unat q < 4" using slot_indices by simp
    show "(q \<noteq> p \<and> toAddr (?b ! unat q) \<noteq> 0 \<and> ps_key (?arr ! unat (toAddr (?b ! unat q))) = key) =
      (q \<noteq> p \<and> toAddr (b ! unat q) \<noteq> 0 \<and> ps_key (arr ! unat (toAddr (b ! unat q))) = key)"
      using hit [OF q4] same [of q] by auto
  qed
  moreover have "(case ?F of [] \<Rightarrow> None | s # _ \<Rightarrow> Some (toAddr (?b ! unat s))) = (case ?F of [] \<Rightarrow> None | s # _ \<Rightarrow> Some (toAddr (b ! unat s)))"
  proof (cases ?F)
    case (Cons q qs)
    have "q \<in> set ?F" unfolding Cons by simp
    then have "ps_key (arr ! unat (toAddr (b ! unat q))) = key" by (simp only: set_filter mem_Collect_eq)
    then show ?thesis unfolding Cons using same [of q] by simp
  qed (simp del: filter.simps)
  ultimately show ?thesis
    unfolding row_find_def Let_def hit [OF p] using same [of p] by (simp del: filter.simps)
qed

text \<open>A record no slot of the row refers to does not matter.\<close>

lemma row_find_arr:
  fixes p :: u8
  assumes fresh: "\<forall>q<4. toAddr (b ! q) \<noteq> idx" and p: "unat p < 4"
  shows "row_find b (arr[unat idx := rec]) key p = row_find b arr key p"
proof -
  have hit: "(arr[unat idx := rec]) ! unat (toAddr (b ! unat q)) = arr ! unat (toAddr (b ! unat q))"
    if q: "unat q < 4" for q :: u8
  proof -
    have "unat (toAddr (b ! unat q)) \<noteq> unat idx" using fresh q by (metis word_unat_eq_iff)
    then show ?thesis by simp
  qed
  have "filter (\<lambda>q. q \<noteq> p \<and> toAddr (b ! unat q) \<noteq> 0 \<and> ps_key (arr[unat idx := rec] ! unat (toAddr (b ! unat q))) = key) row_slots =
      filter (\<lambda>q. q \<noteq> p \<and> toAddr (b ! unat q) \<noteq> 0 \<and> ps_key (arr ! unat (toAddr (b ! unat q))) = key) row_slots"
    using hit slot_indices by (intro filter_cong [OF refl]) auto
  then show ?thesis unfolding row_find_def Let_def hit [OF p] by (simp del: filter.simps)
qed

text \<open>The record a row scan finds is one of the row's.\<close>

lemma row_find_Some:
  assumes "row_find b arr key p = Some a" and "unat p < 4"
  shows "\<exists>q<4. a = toAddr (b ! q)"
proof (cases "ps_key (arr ! unat (toAddr (b ! unat p))) = key")
  case True
  then show ?thesis using assms by (auto simp: row_find_def)
next
  case False
  let ?F = "filter (\<lambda>s. s \<noteq> p \<and> toAddr (b ! unat s) \<noteq> 0 \<and> ps_key (arr ! unat (toAddr (b ! unat s))) = key) row_slots"
  have F: "(case ?F of [] \<Rightarrow> None | s # _ \<Rightarrow> Some (toAddr (b ! unat s))) = Some a"
    using False assms(1) unfolding row_find_def Let_def by simp
  show ?thesis
  proof (cases ?F)
    case Nil
    then show ?thesis using F by simp
  next
    case (Cons s ss)
    have "s \<in> set ?F" unfolding Cons by simp
    then have "unat s < 4" using slot_indices [of s] by (simp only: set_filter mem_Collect_eq set_simps)
    moreover have "a = toAddr (b ! unat s)" using F unfolding Cons by simp
    ultimately show ?thesis by blast
  qed
qed

text \<open>A slot of the row is free for the key: the primary one, or another one when the primary one is taken.\<close>

lemma numa_put_switch_store:
  assumes "lb_wf lb" "unat row < length (bucketsArray lb)" "unat row < length (ld_seeds lookup)"
    and "slot = slot_of (ld_seeds lookup ! unat row) key"
    and st: "check_slots lb key row slot = Inr st" "st = 0 \<or> st = 2"
    and al: "alloc reg = Inr (Some idx, reg')" and idx: "unat idx < length (rawArray pd)"
  obtains s :: u8 where "unat s < 4" "toLength (cell lb (unat row) (unat s)) = 0"
    and "numa_put_switch alloc reg lookup lb pd row key val =
      Inr (reg', lookup,
        lb\<lparr>bucketsArray := (bucketsArray lb)[unat row := (bucketsArray lb ! unat row)[unat s := combine (fingerprint key) 64 idx]]\<rparr>,
        pd\<lparr>rawArray := (rawArray pd)[unat idx := \<lparr>ps_key = key, ps_data_length = 8, ps_data = val\<rparr>]\<rparr>)"
proof -
  have s4: "unat slot < 4" by (simp add: assms(4))
  have sr: "store_record lb pd idx row s key val = Inr (
        lb\<lparr>bucketsArray := (bucketsArray lb)[unat row := (bucketsArray lb ! unat row)[unat s := combine (fingerprint key) 64 idx]]\<rparr>,
        pd\<lparr>rawArray := (rawArray pd)[unat idx := \<lparr>ps_key = key, ps_data_length = 8, ps_data = val\<rparr>]\<rparr>)"
    if "unat s < 4" for s :: u8
    using assms(1,2) idx that by (simp add: store_record_def update_data_def write_addr_def)
  from st(2) show thesis
  proof
    assume 0: "st = 0"
    then have "toLength (cell lb (unat row) (unat slot)) = 0"
      using st(1) assms(1,2) s4 by (auto simp: check_slots_eq Let_def split: if_splits)
    moreover have "numa_put_switch alloc reg lookup lb pd row key val =
        rbind (store_record lb pd idx row slot key val) (\<lambda>(lb', pd'). Inr (reg', lookup, lb', pd'))"
      using 0 st(1) al assms(3) by (simp add: numa_put_switch_def Let_def assms(4) [symmetric])
    ultimately show thesis using that [OF s4] sr [OF s4] by simp
  next
    assume 2: "st = 2"
    then have "\<exists>q<4. toLength (cell lb (unat row) q) = 0"
      using st(1) assms(1,2) s4 by (auto simp: check_slots_eq Let_def split: if_splits)
    then obtain f where f: "first_free lb key row row_slots = Inr (Some f)" "f \<in> set row_slots"
      "toLength (cell lb (unat row) (unat f)) = 0"
      using first_free_Some [of lb row row_slots key] bex_slots [of "\<lambda>q. toLength (cell lb (unat row) q) = 0"] assms(1,2) by auto
    have f4: "unat f < 4" using f(2) slot_indices by simp
    have "numa_put_switch alloc reg lookup lb pd row key val =
        rbind (store_record lb pd idx row f key val) (\<lambda>(lb', pd'). Inr (reg', lookup, lb', pd'))"
      using 2 st(1) al f(1) assms(3) by (simp add: numa_put_switch_def Let_def assms(4) [symmetric])
    then show thesis using that [OF f4 f(3)] sr [OF f4] by simp
  qed
qed

text \<open>The effect of a locked operation on a ready client.\<close>

lemma locked_op_ready:
  assumes "client_ready c h v r lb pd"
    and "body c (nh_reg h) lb pd (ucast (bucket_of (cn_lookup c) key)) (client_slot_of c key) = Inr (reg', lookup', lb', pd')"
  shows "locked_op e key body c h = Inr (c\<lparr>cn_lookup := lookup'\<rparr>, h\<lparr>nh_reg := reg',
    nh_shm := put_region v (r\<lparr>rg_ludo := bucketsArray lb', rg_packed := rawArray pd'\<rparr>) (nh_shm h)\<rparr>)"
proof -
  note p = client_ready_parts [OF assms(1)] and a = assms(1) [unfolded client_ready_def]
  obtain lh ph where w: "cl_buckets c = Some lh" "cl_packed c = Some ph" "cl_lock c = Some v"
    "cl_lb_view c h lh = Inr lb" "cl_pd_view c h ph = Inr pd" "lh_version lh = v" "ph_version ph = v"
    using client_ready_views [OF assms(1)] by metis
  have row: "unat (bucket_of (cn_lookup c) key) < length (rg_lock r)" "rg_lock r ! unat (bucket_of (cn_lookup c) key) = 0"
    using a p(5) [of key] by (auto simp: client_row_def)
  have rg: "sh_regions (nh_shm h) v = Some r" using a by simp
  show ?thesis
    using assms(2) rg
    by (simp add: locked_op_def p(1,6,8) w with_row_lock_free [OF row] lb_commit_def pd_commit_def region_of_def put_region_def)
qed

text \<open>The region after a fresh record of the key was stored in a free slot of its row.\<close>

definition stored :: "numa_client \<Rightarrow> u64 \<Rightarrow> u64 \<Rightarrow> u8 \<Rightarrow> u64 \<Rightarrow> region \<Rightarrow> region" where
  "stored c key val s idx r = r\<lparr>
     rg_ludo := (rg_ludo r)[client_row c key := (rg_ludo r ! client_row c key)[unat s := combine (fingerprint key) 64 idx]],
     rg_packed := (rg_packed r)[unat idx := \<lparr>ps_key = key, ps_data_length = 8, ps_data = val\<rparr>]\<rparr>"

definition fresh_number :: "u64 \<Rightarrow> region \<Rightarrow> bool" where
  "fresh_number idx r \<longleftrightarrow> unat idx < length (rg_packed r) \<and> unat idx < 2 ^ 40 \<and> idx \<noteq> 0 \<and>
     (\<forall>i<length (rg_ludo r). \<forall>q<4. toAddr (rg_ludo r ! i ! q) \<noteq> idx)"

lemma stored_row:
  assumes "client_row c key < length (rg_ludo r)"
  shows "rg_ludo (stored c key val s idx r) ! i =
    (if i = client_row c key then (rg_ludo r ! i)[unat s := combine (fingerprint key) 64 idx] else rg_ludo r ! i)"
  using assms by (simp add: stored_def nth_list_update)

lemma stored_ready:
  assumes ready: "client_ready c h v r lb pd" and s: "unat s < 4" and idx: "fresh_number idx r"
    and gen: "sr_generation reg' = sr_generation (nh_reg h)"
  shows "\<exists>lb' pd'. client_ready c (h\<lparr>nh_reg := reg', nh_shm := put_region v (stored c key val s idx r) (nh_shm h)\<rparr>) v
    (stored c key val s idx r) lb' pd'"
proof -
  note a = ready [unfolded client_ready_def] and row = client_ready_parts(5) [OF ready, of key]
  let ?r = "stored c key val s idx r"
  have all: "\<forall>i<length (rg_ludo r). length (rg_ludo r ! i) = 4 \<and> (\<forall>q<4. unat (toAddr (rg_ludo r ! i ! q)) < length (rg_packed r))"
    using a by blast
  have w: "unat (toAddr (combine (fingerprint key) 64 idx)) < length (rg_packed r)"
    using idx toAddr_small [of idx] by (simp add: fresh_number_def)
  have cell: "(b[unat s := w]) ! q = (if q = unat s then w else b ! q)" if "length b = 4" for b :: ludo_bucket and w q
    using that s by (simp add: nth_list_update)
  have len: "length (rg_packed ?r) = length (rg_packed r)" "length (rg_ludo ?r) = length (rg_ludo r)" "rg_lock ?r = rg_lock r"
    by (simp_all add: stored_def)
  have rows: "length (rg_ludo ?r ! i) = 4 \<and> (\<forall>q<4. unat (toAddr (rg_ludo ?r ! i ! q)) < length (rg_packed ?r))"
    if "i < length (rg_ludo ?r)" for i
    using that all w unfolding len stored_row [OF row] by (cases "i = client_row c key") (simp_all add: cell)
  obtain lh ph where hd: "cl_buckets c = Some lh" "lh_version lh = v" "cl_packed c = Some ph" "ph_version ph = v"
    using client_ready_views [OF ready] by metis
  show ?thesis
    using a hd rows gen len
    by (intro exI [of _ "LudoBuckets_external (rg_ludo ?r) (lh_numElements lh)"]
        exI [of _ "\<lparr>rawArray = rg_packed ?r, pd_num = ph_num ph, numElements = ph_numElements ph\<rparr>"])
      (auto simp: client_ready_def put_region_def)
qed

lemma stored_find_same:
  assumes ready: "client_ready c h v r lb pd" and absent: "client_find c r key = None"
    and s: "unat s < 4" and idx: "fresh_number idx r"
  shows "client_find c (stored c key val s idx r) key = Some val"
proof -
  note row = client_ready_parts(5) [OF ready, of key]
  have len: "length (rg_ludo r ! client_row c key) = 4" using ready row by (auto simp: client_ready_def)
  have "row_find ((rg_ludo r ! client_row c key)[unat s := combine (fingerprint key) 64 idx])
     ((rg_packed r)[unat idx := \<lparr>ps_key = key, ps_data_length = 8, ps_data = val\<rparr>]) key (client_slot_of c key) = Some idx"
    using absent idx toAddr_small [of idx] row client_ready_parts(7) [OF ready]
    by (intro row_find_store [OF len s]) (auto simp: client_find_def fresh_number_def)
  then show ?thesis using idx unfolding client_find_def stored_row [OF row] by (simp add: stored_def fresh_number_def)
qed

lemma stored_find_other:
  assumes ready: "client_ready c h v r lb pd" and s: "unat s < 4" "rg_ludo r ! client_row c key ! unat s = 0"
    and idx: "fresh_number idx r" and ne: "key' \<noteq> key" "key' \<noteq> ps_key (rg_packed r ! 0)"
  shows "client_find c (stored c key val s idx r) key' = client_find c r key'"
proof -
  let ?row' = "client_row c key'" and ?p = "client_slot_of c key'" and ?r = "stored c key val s idx r"
  let ?rec = "\<lparr>ps_key = key, ps_data_length = 8, ps_data = val\<rparr>"
  note row = client_ready_parts(5) [OF ready]
  have len: "length (rg_ludo r ! client_row c key) = 4" using ready row [of key] by (auto simp: client_ready_def)
  have p4: "unat ?p < 4" by (rule client_ready_parts(7) [OF ready])
  have fr: "\<forall>q<4. toAddr (rg_ludo r ! ?row' ! q) \<noteq> idx" using idx row [of key'] by (simp add: fresh_number_def)
  have packed: "rg_packed ?r = (rg_packed r)[unat idx := ?rec]" by (simp add: stored_def)
  have same: "row_find (rg_ludo ?r ! ?row') (rg_packed ?r) key' ?p = row_find (rg_ludo r ! ?row') (rg_packed r) key' ?p"
  proof (cases "?row' = client_row c key")
    case True
    show ?thesis
      unfolding stored_row [OF row] if_P [OF True] packed
      using len s idx toAddr_small [of idx] p4 ne fr unfolding True [symmetric] fresh_number_def
      by (intro row_find_frame) auto
  next
    case False
    then show ?thesis unfolding stored_row [OF row] packed using row_find_arr [OF fr p4] by simp
  qed
  show ?thesis
  proof (cases "row_find (rg_ludo r ! ?row') (rg_packed r) key' ?p")
    case None
    then show ?thesis unfolding client_find_def same by simp
  next
    case (Some a)
    then obtain q where "q < 4" "a = toAddr (rg_ludo r ! ?row' ! q)" using row_find_Some p4 by blast
    then have "a \<noteq> idx" using fr by blast
    then have "unat a \<noteq> unat idx" by (simp add: word_unat_eq_iff)
    then show ?thesis unfolding client_find_def same unfolding packed using Some by simp
  qed
qed


text \<open>One row, empty but for key 1 in slot 3 with record 1; key 2 also belongs to slot 3.\<close>

definition client_region :: region where
  "client_region = \<lparr>rg_packed = [zero_struct, \<lparr>ps_key = 1, ps_data_length = 8, ps_data = 11\<rparr>, zero_struct, zero_struct],
     rg_ludo = [[0, 0, 0, combine (fingerprint 1) 64 1]], rg_lock = [0]\<rparr>"

definition numa_client0 :: numa_client where
  "numa_client0 = \<lparr>cn_lookup = sample_lookup, cn_registry = True, cn_lane_id = 0, cn_local_version = 1,
     cn_local_generation = 0, cn_region = Some 1, cn_region_size = 4096,
     cn_buckets = Some \<lparr>lh_version = 1, lh_numElements = 1\<rparr>, cn_packed = Some \<lparr>ph_version = 1, ph_num = 0, ph_numElements = 4\<rparr>,
     cn_lock = Some 1, cn_client_slot = 0, cn_remote_buckets = None, cn_remote_packed = None, cn_remote_lock = None, cn_mapped = [1]\<rparr>"

definition sample_shared :: numa_shared where
  "sample_shared = \<lparr>nh_reg = sample_reg\<lparr>sr_lane_next_free_index := 2 # replicate 63 0\<rparr>,
     nh_shm = \<lparr>sh_regions = (\<lambda>_. None)(1 \<mapsto> client_region), sh_linked = (\<lambda>v. v = 1)\<rparr>\<rparr>"

abbreviation client_lb :: ludo_buckets where
  "client_lb \<equiv> LudoBuckets_external [[0, 0, 0, combine (fingerprint 1) 64 1]] 1"

lemma client_region_addrs: "unat (toAddr (combine (fingerprint 1) 64 1)) = 1"
  by (simp add: toAddr_small)

lemma numa_client0_ready:
  "client_ready numa_client0 sample_shared 1 client_region client_lb
     \<lparr>rawArray = rg_packed client_region, pd_num = 0, numElements = 4\<rparr>"
proof -
  have lt4: "q = 0 \<or> q = 1 \<or> q = 2 \<or> q = 3" if "q < 4" for q :: nat using that by auto
  have a: "unat (toAddr ([0, 0, 0, combine (fingerprint 1) 64 1] ! q)) < 4" if "q < 4" for q
    using lt4 [OF that] client_region_addrs by auto
  have "sr_generation sample_reg = 0"
    by (simp add: sample_reg_def fresh_registry_def)
  moreover have "length (rg_packed client_region) = 4" "length (rg_lock client_region) = 1" "length (rg_ludo client_region) = 1"
    "rg_ludo client_region ! 0 = [0, 0, 0, combine (fingerprint 1) 64 1]" "rg_lock client_region ! 0 = 0"
    "length (ld_seeds sample_lookup) = 1"
    "rg_ludo client_region = [[0, 0, 0, combine (fingerprint 1) 64 1]]"
    by (simp_all add: client_region_def sample_lookup_def)
  ultimately show ?thesis
    unfolding client_ready_def using sample_lookup_ok a
    by (simp add: numa_client0_def sample_shared_def or_else_def)
qed

lemma numa_client0_row: "client_row numa_client0 key = 0"
  using bucket_of_lt [OF sample_lookup_ok(1), of key] by (simp add: client_row_def numa_client0_def) (simp add: sample_lookup_def)

lemma numa_client0_slot: "client_slot_of numa_client0 key = slot_of 0 key"
  by (simp add: client_slot_of_def numa_client0_row) (simp add: numa_client0_def sample_lookup_def)



section \<open>Following a resize\<close>

text \<open>
  (C31) A client that sees a new generation with a new active version moves to it: if the epoch is
  published and its region is linked and as large as the epoch says, the check succeeds, the client's
  version and generation are the registry's, one acknowledgement is taken off the epoch's pending count,
  and the client works on the new region. Attaching its record wrapper overwrites every record of the
  shared region for all of its users.
\<close>
theorem client_follows_resize:
  assumes "cn_registry c" and "sizes_ok (nh_reg h)" and "cn_client_slot c < 256"
    and "sr_generation (nh_reg h) \<noteq> cn_local_generation c" and "sr_current_version (nh_reg h) = v" and "v \<noteq> cn_local_version c"
    and "epoch_at (nh_reg h) v = Inr ep" and "ep_published ep \<noteq> 0"
    and "en_os e = \<lparr>os_shm_open = True, os_ftruncate = True, os_mmap = True\<rparr>"
    and "sh_linked (nh_shm h) v" and "sh_regions (nh_shm h) v = Some r"
    and "length (rg_packed r) = unat (ep_num_data_entries ep)"
  shows "\<exists>c' h' r' ep'. maybe_check_version e c h = Inr (c', h') \<and>
    cn_local_version c' = v \<and> cn_local_generation c' = sr_generation (nh_reg h') \<and> v \<in> set (cn_mapped c') \<and>
    cl_buckets c' = Some \<lparr>lh_version = v, lh_numElements = ep_num_buckets ep\<rparr> \<and>
    epoch_at (nh_reg h') v = Inr ep' \<and> ep_clients_pending_ack ep' = ep_clients_pending_ack ep - 1 \<and>
    sh_regions (nh_shm h') v = Some r' \<and> rg_ludo r' = rg_ludo r \<and>
    rg_packed r' = replicate (length (rg_packed r)) (en_junk e)"
proof -
  define c1 where "c1 = unmap_old c"
  have c1: "cn_registry c1" "cn_client_slot c1 = cn_client_slot c"
    using assms(1) by (simp_all add: c1_def unmap_old_def split: option.split)
  let ?ph = "\<lparr>ph_version = v, ph_num = 0, ph_numElements = ep_num_data_entries ep\<rparr>"
  let ?shm = "put_region v (r\<lparr>rg_packed := replicate (unat (ep_num_data_entries ep)) (en_junk e)\<rparr>) (nh_shm h)"
  have at: "attach_packed (en_junk e) v (ep_num_data_entries ep) (nh_shm h) = Inr (?ph, ?shm)"
    using fresh_packed_region [of "ep_num_data_entries ep" r "nh_shm h" v] assms(11,12) by simp
  define c2 where "c2 = c1\<lparr>cn_region := Some v, cn_region_size := ep_region_size ep,
     cn_buckets := Some \<lparr>lh_version = v, lh_numElements = ep_num_buckets ep\<rparr>,
     cn_packed := Some ?ph, cn_lock := Some v, cn_local_version := v,
     cn_local_generation := sr_generation (nh_reg h), cn_mapped := v # cn_mapped c1\<rparr>"
  let ?ep = "ep\<lparr>ep_clients_pending_ack := ep_clients_pending_ack ep - 1\<rparr>"
  let ?reg = "(nh_reg h)\<lparr>sr_epoch := (sr_epoch (nh_reg h))[epoch_slot v := ?ep]\<rparr>"
  have sl: "epoch_slot v < length (sr_epoch (nh_reg h))" using assms(2) epoch_slot_lt by (simp add: sizes_ok_def)
  have up: "upd_epoch v (\<lambda>ep. ep\<lparr>ep_clients_pending_ack := ep_clients_pending_ack ep - 1\<rparr>) (nh_reg h) = Inr ?reg"
    using assms(7) sl by (simp add: upd_epoch_def)
  obtain reg2 where hb: "client_heartbeat (en_now_ns e 0) c2 ?reg = Inr reg2" "sr_generation reg2 = sr_generation (nh_reg h)"
     "sr_epoch reg2 = sr_epoch ?reg"
  proof -
    have c2: "cn_registry c2" "cn_client_slot c2 = cn_client_slot c" using c1 by (simp_all add: c2_def)
    show thesis
    proof (cases "cn_client_slot c < 0")
      case True
      then show thesis using that [of ?reg] c2 by (simp add: client_heartbeat_def)
    next
      case False
      then have "nat (cn_client_slot c) < length (sr_clients ?reg)" using assms(2,3) by (simp add: sizes_ok_def nat_less_iff)
      then show thesis using that c2 False by (simp add: client_heartbeat_def Let_def)
    qed
  qed
  have att: "attach_region e v ep c1 h = Inr (c2, h\<lparr>nh_reg := reg2, nh_shm := ?shm\<rparr>)"
    unfolding attach_region_def at Let_def rbind_Inr prod.case up c2_def [symmetric] hb(1) ..
  have op: "open_shared_numa_region (en_os e) v (nh_shm h) = Some r"
    using assms(9-11) by (simp add: open_shared_numa_region_def)
  have "maybe_check_version e c h = Inr (c2, h\<lparr>nh_reg := reg2, nh_shm := ?shm\<rparr>)"
    using assms(1,4-8) op att by (simp add: maybe_check_version_def remap_to_current_epoch_def c1_def)
  then show ?thesis
    using hb sl assms(12) by (simp add: c2_def or_else_def epoch_at_def put_region_def)
qed

text \<open>A client of version 1 and generation 0 after the server published version 2.\<close>

definition resized_shared :: numa_shared where
  "resized_shared = \<lparr>nh_reg = sample_reg\<lparr>sr_current_version := 2, sr_generation := 5,
      sr_epoch := ((replicate 16 zero_epoch)[1 := sample_epoch])[2 := sample_epoch\<lparr>ep_version := 2, ep_clients_pending_ack := 1\<rparr>]\<rparr>,
     nh_shm = \<lparr>sh_regions = (\<lambda>_. None)(1 \<mapsto> client_region, 2 \<mapsto> client_region), sh_linked = (\<lambda>v. v = 1 \<or> v = 2)\<rparr>\<rparr>"

theorem client_follows_resize_witness:
  "\<exists>c' h' ep'. maybe_check_version sample_env numa_client0 resized_shared = Inr (c', h') \<and> cn_local_version c' = 2 \<and>
     epoch_at (nh_reg h') 2 = Inr ep' \<and> ep_clients_pending_ack ep' = 0"
proof -
  let ?ep = "sample_epoch\<lparr>ep_version := 2, ep_clients_pending_ack := 1\<rparr>"
  have ep: "epoch_at (nh_reg resized_shared) 2 = Inr ?ep"
    by (simp add: resized_shared_def sample_reg_def fresh_registry_def epoch_at_def epoch_slot_def)
  have f: "cn_registry numa_client0" "cn_client_slot numa_client0 = 0" "cn_local_version numa_client0 = 1"
    "cn_local_generation numa_client0 = 0" "sr_generation (nh_reg resized_shared) = 5" "sr_current_version (nh_reg resized_shared) = 2"
    "sizes_ok (nh_reg resized_shared)" "sh_linked (nh_shm resized_shared) 2" "sh_regions (nh_shm resized_shared) 2 = Some client_region"
    "length (rg_packed client_region) = 4" "ep_published ?ep = 1" "ep_num_data_entries ?ep = 4" "ep_num_buckets ?ep = 2"
    "ep_clients_pending_ack ?ep = 1"
    by (simp_all add: numa_client0_def resized_shared_def sample_reg_def fresh_registry_def sizes_ok_def client_region_def sample_epoch_def)
  have "\<exists>c' h' r' ep'. maybe_check_version sample_env numa_client0 resized_shared = Inr (c', h') \<and>
    cn_local_version c' = 2 \<and> cn_local_generation c' = sr_generation (nh_reg h') \<and> 2 \<in> set (cn_mapped c') \<and>
    cl_buckets c' = Some \<lparr>lh_version = 2, lh_numElements = 2\<rparr> \<and>
    epoch_at (nh_reg h') 2 = Inr ep' \<and> ep_clients_pending_ack ep' = 1 - 1 \<and>
    sh_regions (nh_shm h') 2 = Some r' \<and> rg_ludo r' = rg_ludo client_region \<and>
    rg_packed r' = replicate 4 zero_struct"
    using client_follows_resize [of numa_client0 resized_shared 2 ?ep sample_env client_region] ep f by (simp add: sample_env_def)
  then show ?thesis by auto
qed

end
