(* ===== verification/Forest.thy ===== *)
theory Forest
  imports Prelude
begin

text \<open>
  The graph behind Othello: every key is an edge between a node of array A and a node of array B, and
  the array can be filled when the edges form a forest. Here: connection by a set of edges, forests as
  graphs in which every edge is a bridge, and the depth-first walk that the control plane uses in four
  places (fill a tree, fix a half tree, collect a half tree, repair the disjoint set).

  \<open>dfs\<close> is that loop: a stack of (key we came by, node), popped until it is empty; from a node it takes
  every edge but the one it came by. On a graph with a cycle the loop of the code never ends; the walk
  gives up (\<open>Diverges\<close>) after more steps than there are nodes. The locale \<open>linked_forest\<close> states what the
  walk needs of its client; its lemma \<open>dfs_runs\<close> shows that the walk ends, visits each node of the tree
  once, and reaches each from a node visited before.
\<close>

section \<open>Definitions\<close>

definition joins :: "('k \<Rightarrow> 'n \<times> 'n) \<Rightarrow> 'k \<Rightarrow> 'n \<Rightarrow> 'n \<Rightarrow> bool" where
  "joins e j u v \<longleftrightarrow> e j = (u, v) \<or> e j = (v, u)"

definition conn :: "('k \<Rightarrow> 'n \<times> 'n) \<Rightarrow> 'k set \<Rightarrow> 'n \<Rightarrow> 'n \<Rightarrow> bool" where
  "conn e K = (\<lambda>u v. \<exists>j\<in>K. joins e j u v)\<^sup>*\<^sup>*"

definition bridges :: "('k \<Rightarrow> 'n \<times> 'n) \<Rightarrow> 'k set \<Rightarrow> bool" where
  "bridges e K \<longleftrightarrow> (\<forall>j\<in>K. \<forall>u v. joins e j u v \<longrightarrow> \<not> conn e (K - {j}) u v)"

fun dfs :: "nat \<Rightarrow> ('n \<Rightarrow> ('k \<times> 'n) list res) \<Rightarrow> ('k \<Rightarrow> 'n \<Rightarrow> 'n \<Rightarrow> 's \<Rightarrow> 's res) \<Rightarrow> ('k \<times> 'n) list \<Rightarrow> 's \<Rightarrow> 's res" where
  "dfs fuel cells visit [] s = Inr s"
| "dfs 0 cells visit (x # stk) s = Inl Diverges"
| "dfs (Suc fuel) cells visit ((prev, nid) # stk) s =
    rbind (cells nid) (\<lambda>cs.
    rbind (rfold (\<lambda>(j, w) (stk, s).
        if j = prev then Inr (stk, s)
        else rbind (visit j w nid s) (\<lambda>s'. Inr ((j, w) # stk, s'))) cs (stk, s)) (\<lambda>(stk', s').
    dfs fuel cells visit stk' s'))"

section \<open>Connection\<close>

lemma joins_sym: "joins e j u v \<longleftrightarrow> joins e j v u"
  by (auto simp: joins_def)

lemma joins_ends: "joins e j u v \<Longrightarrow> joins e j u' v' \<Longrightarrow> u' = u \<and> v' = v \<or> u' = v \<and> v' = u"
  by (auto simp: joins_def)

lemma conn_refl [simp, intro]: "conn e K u u"
  by (simp add: conn_def)

lemma conn_trans: "conn e K u v \<Longrightarrow> conn e K v w \<Longrightarrow> conn e K u w"
  by (simp add: conn_def)

lemma conn_edge: "j \<in> K \<Longrightarrow> joins e j u v \<Longrightarrow> conn e K u v"
  by (auto simp: conn_def)

lemma conn_sym: "conn e K u v \<Longrightarrow> conn e K v u"
proof -
  have "symp (\<lambda>u v. \<exists>j\<in>K. joins e j u v)" by (auto simp: symp_def joins_sym)
  then show "conn e K u v \<Longrightarrow> conn e K v u" unfolding conn_def by (metis sympD symp_rtranclp)
qed

lemma conn_mono: "conn e K u v \<Longrightarrow> K \<subseteq> K' \<Longrightarrow> conn e K' u v"
  unfolding conn_def by (erule rtranclp_mono [THEN predicate2D, rotated]) auto

lemma conn_cong: "(\<And>j. j \<in> K \<Longrightarrow> e j = e' j) \<Longrightarrow> conn e K u v \<longleftrightarrow> conn e' K u v"
  by (simp add: conn_def joins_def cong: bex_cong)

lemma conn_closed:
  assumes "conn e K u v" and "u \<in> S" and "\<And>j x y. j \<in> K \<Longrightarrow> x \<in> S \<Longrightarrow> joins e j x y \<Longrightarrow> y \<in> S"
  shows "v \<in> S"
  using assms(1) unfolding conn_def by (induction rule: rtranclp_induct) (use assms(2,3) in blast)+

lemma conn_empty [simp]: "conn e {} u v \<longleftrightarrow> u = v"
proof
  show "conn e {} u v \<Longrightarrow> u = v" using conn_closed [of e "{}" u v "{u}"] by auto
qed simp

text \<open>A path in a graph with one more edge either avoids the edge or passes it.\<close>

lemma conn_insert:
  assumes "conn e (insert j K) u v" and "joins e j a b"
  shows "conn e K u v \<or> conn e K u a \<and> conn e K b v \<or> conn e K u b \<and> conn e K a v"
  using assms(1) unfolding conn_def [of e "insert j K"]
proof (induction rule: rtranclp_induct)
  case (step y z)
  from step.hyps(2) consider "joins e j y z" | i where "i \<in> K" "joins e i y z" by blast
  then show ?case
  proof cases
    case 1
    then show ?thesis using step.IH joins_ends [OF assms(2), of y z] by (auto intro: conn_trans dest: conn_sym)
  next
    case 2
    then have "conn e K y z" by (rule conn_edge)
    then show ?thesis using step.IH by (auto intro: conn_trans)
  qed
qed simp

lemma conn_insert_iff:
  assumes "joins e j a b"
  shows "conn e (insert j K) u v \<longleftrightarrow> conn e K u v \<or> conn e K u a \<and> conn e K b v \<or> conn e K u b \<and> conn e K a v"
proof
  have m: "conn e K x y \<Longrightarrow> conn e (insert j K) x y" for x y by (erule conn_mono) blast
  have "conn e (insert j K) a b" by (rule conn_edge [of j]) (use assms in auto)
  then show "conn e K u v \<or> conn e K u a \<and> conn e K b v \<or> conn e K u b \<and> conn e K a v \<Longrightarrow> conn e (insert j K) u v"
    using conn_sym m by (metis conn_trans)
qed (rule conn_insert [OF _ assms])

lemma bridges_mono: "bridges e K \<Longrightarrow> K' \<subseteq> K \<Longrightarrow> bridges e K'"
  unfolding bridges_def using conn_mono [of e "K' - {j}" _ _ "K - {j}" for j] by (meson Diff_mono subsetD subset_refl)

lemma bridges_empty [simp]: "bridges e {}"
  by (simp add: bridges_def)

lemma bridges_cong: "(\<And>j. j \<in> K \<Longrightarrow> e j = e' j) \<Longrightarrow> bridges e K \<longleftrightarrow> bridges e' K"
  using conn_cong [of "K - {j}" e e' for j] by (simp add: bridges_def joins_def)

text \<open>An edge between two trees keeps the forest; one inside a tree closes a cycle.\<close>

lemma bridges_insert:
  assumes "bridges e K" "j \<notin> K" "joins e j a b" "\<not> conn e K a b"
  shows "bridges e (insert j K)"
  unfolding bridges_def
proof (intro ballI allI impI notI)
  fix i u v
  assume i: "i \<in> insert j K" "joins e i u v" "conn e (insert j K - {i}) u v"
  show False
  proof (cases "i = j")
    case True
    then have "conn e K u v" using i(3) assms(2) by simp
    then show False using joins_ends [OF assms(3), of u v] i(2) True assms(4) conn_sym by metis
  next
    case False
    then have ik: "i \<in> K" using i(1) by simp
    have "insert j K - {i} = insert j (K - {i})" using False by blast
    then have p: "conn e (K - {i}) u v \<or> conn e (K - {i}) u a \<and> conn e (K - {i}) b v \<or>
        conn e (K - {i}) u b \<and> conn e (K - {i}) a v"
      using conn_insert [OF _ assms(3)] i(3) by metis
    have nuv: "\<not> conn e (K - {i}) u v" using assms(1) ik i(2) by (auto simp: bridges_def)
    have m: "conn e (K - {i}) x y \<Longrightarrow> conn e K x y" for x y by (erule conn_mono) blast
    have uv: "conn e K u v" using ik i(2) by (rule conn_edge)
    show False using p nuv m uv assms(4) by (metis conn_sym conn_trans)
  qed
qed

lemma bridges_insertD:
  assumes "bridges e (insert j K)" "j \<notin> K" "joins e j a b"
  shows "\<not> conn e K a b"
  using assms by (auto simp: bridges_def)

section \<open>The order of a walk\<close>

text \<open>
  A list of visits (key, new node, node we come from) that grows a tree from the nodes \<open>V\<close>: each visit
  goes from a node already there to a node not yet there, over an edge that joins them.
\<close>

fun tree_order :: "('k \<Rightarrow> 'n \<times> 'n) \<Rightarrow> 'n set \<Rightarrow> ('k \<times> 'n \<times> 'n) list \<Rightarrow> bool" where
  "tree_order e V [] \<longleftrightarrow> True"
| "tree_order e V ((j, w, v) # os) \<longleftrightarrow> joins e j v w \<and> v \<in> V \<and> w \<notin> V \<and> tree_order e (insert w V) os"

abbreviation new_nodes :: "('k \<times> 'n \<times> 'n) list \<Rightarrow> 'n set" where
  "new_nodes os \<equiv> (\<lambda>(j, w, v). w) ` set os"

abbreviation used_keys :: "('k \<times> 'n \<times> 'n) list \<Rightarrow> 'k set" where
  "used_keys os \<equiv> (\<lambda>(j, w, v). j) ` set os"

lemma tree_order_append:
  "tree_order e V (xs @ ys) \<longleftrightarrow> tree_order e V xs \<and> tree_order e (V \<union> new_nodes xs) ys"
proof (induction xs arbitrary: V)
  case (Cons x xs)
  obtain j w v where x: "x = (j, w, v)" by (cases x)
  have "V \<union> new_nodes (x # xs) = insert w V \<union> new_nodes xs" by (simp add: x)
  then show ?case using Cons.IH [of "insert w V"] by (simp add: x)
qed simp

lemma tree_order_node:
  assumes "v \<in> V" "\<forall>(j, w)\<in>set cs. joins e j v w \<and> w \<notin> V" "distinct (map snd cs)"
  shows "tree_order e V (map (\<lambda>(j, w). (j, w, v)) cs)"
  using assms
proof (induction cs arbitrary: V)
  case (Cons c cs)
  obtain j w where c: "c = (j, w)" by (cases c)
  have "\<forall>(j, w')\<in>set cs. joins e j v w' \<and> w' \<notin> insert w V" using Cons.prems by (force simp: c)
  then show ?case using Cons.IH [of "insert w V"] Cons.prems by (simp add: c)
qed simp

lemma new_nodes_fresh: "tree_order e V os \<Longrightarrow> x \<in> new_nodes os \<Longrightarrow> x \<notin> V"
proof (induction e V os rule: tree_order.induct)
  case (2 e V j w v os)
  show ?case
  proof (cases "x = w")
    case False
    then have "x \<in> new_nodes os" using "2.prems"(2) by auto
    then show ?thesis using "2.IH" "2.prems"(1) by auto
  qed (use "2.prems" in simp)
qed simp

text \<open>The loop over the edges of one node.\<close>

lemma visit_cells:
  "rfold (\<lambda>(j, w) (stk, s). if j = prev then Inr (stk, s) else rbind (visit j w nid s) (\<lambda>s'. Inr ((j, w) # stk, s'))) cs (stk, s) =
   (let cs' = filter (\<lambda>(j, w). j \<noteq> prev) cs in
    rbind (rfold (\<lambda>(j, w, v). visit j w v) (map (\<lambda>(j, w). (j, w, nid)) cs') s) (\<lambda>s'. Inr (rev cs' @ stk, s')))"
proof (induction cs arbitrary: stk s)
  case (Cons c cs)
  obtain j w where c: "c = (j, w)" by (cases c)
  show ?case
  proof (cases "j = prev")
    case False
    then show ?thesis by (cases "visit j w nid s") (simp_all add: c Cons.IH Let_def)
  qed (simp add: c Cons.IH)
qed simp

text \<open>
  The state of a walk from \<open>r\<close> that must not take edge \<open>p\<close>: \<open>D\<close> the nodes finished, \<open>V\<close> the nodes reached,
  \<open>U\<close> the edges taken, and the stack.
\<close>

definition walk :: "('k \<Rightarrow> 'n \<times> 'n) \<Rightarrow> 'k set \<Rightarrow> 'k \<Rightarrow> 'n \<Rightarrow> 'n set \<Rightarrow> 'n set \<Rightarrow> 'k set \<Rightarrow> ('k \<times> 'n) list \<Rightarrow> bool" where
  "walk e K p r D V U stk \<longleftrightarrow>
     r \<in> V \<and> D \<subseteq> V \<and> U \<subseteq> K - {p} \<and> snd ` set stk = V - D \<and> distinct (map snd stk) \<and>
     (\<forall>v\<in>V. conn e U r v) \<and>
     (\<forall>j\<in>U. \<forall>u v. joins e j u v \<longrightarrow> u \<in> V) \<and>
     (\<forall>(q, v)\<in>set stk. (if v = r then q = p else q \<in> U) \<and> (\<forall>j\<in>U. \<forall>w. joins e j v w \<longrightarrow> j = q)) \<and>
     (\<forall>v\<in>D. \<forall>j\<in>K - {p}. \<forall>w. joins e j v w \<longrightarrow> w \<in> V \<and> j \<in> U)"

lemma walkD:
  assumes "walk e K p r D V U stk"
  shows "r \<in> V" and "D \<subseteq> V" and "U \<subseteq> K - {p}" and "snd ` set stk = V - D" and "distinct (map snd stk)"
    and "\<forall>v\<in>V. conn e U r v" and "\<forall>j\<in>U. \<forall>u v. joins e j u v \<longrightarrow> u \<in> V"
    and "\<forall>(q, v)\<in>set stk. (if v = r then q = p else q \<in> U) \<and> (\<forall>j\<in>U. \<forall>w. joins e j v w \<longrightarrow> j = q)"
    and "\<forall>v\<in>D. \<forall>j\<in>K - {p}. \<forall>w. joins e j v w \<longrightarrow> w \<in> V \<and> j \<in> U"
  using assms by (simp_all add: walk_def)

lemma walkI:
  assumes "r \<in> V" and "D \<subseteq> V" and "U \<subseteq> K - {p}" and "snd ` set stk = V - D" and "distinct (map snd stk)"
    and "\<forall>v\<in>V. conn e U r v" and "\<forall>j\<in>U. \<forall>u v. joins e j u v \<longrightarrow> u \<in> V"
    and "\<And>q v. (q, v) \<in> set stk \<Longrightarrow> (if v = r then q = p else q \<in> U) \<and> (\<forall>j\<in>U. \<forall>w. joins e j v w \<longrightarrow> j = q)"
    and "\<And>v j w. v \<in> D \<Longrightarrow> j \<in> K - {p} \<Longrightarrow> joins e j v w \<Longrightarrow> w \<in> V \<and> j \<in> U"
  shows "walk e K p r D V U stk"
proof -
  have a: "\<forall>(q, v)\<in>set stk. (if v = r then q = p else q \<in> U) \<and> (\<forall>j\<in>U. \<forall>w. joins e j v w \<longrightarrow> j = q)"
  proof
    fix x
    assume "x \<in> set stk"
    then show "case x of (q, v) \<Rightarrow> (if v = r then q = p else q \<in> U) \<and> (\<forall>j\<in>U. \<forall>w. joins e j v w \<longrightarrow> j = q)"
      using assms(8) [of "fst x" "snd x"] by (simp add: split_beta)
  qed
  have b: "\<forall>v\<in>D. \<forall>j\<in>K - {p}. \<forall>w. joins e j v w \<longrightarrow> w \<in> V \<and> j \<in> U" using assms(9) by blast
  show ?thesis unfolding walk_def by (intro conjI) (fact assms a b)+
qed

lemma walk_Nil: "walk e K p r D V U [] \<Longrightarrow> V = D"
  using walkD(2,4) by fastforce

lemma walk_start: "walk e K p r {} {r} {} [(p, r)]"
  by (simp add: walk_def)

text \<open>What the edges of the node on top of the stack look like.\<close>

lemma walk_cells:
  assumes "bridges e K" and w: "walk e K p r D V U ((q, v) # stk)" and "p \<notin> K \<or> (\<exists>x. joins e p r x)"
    and cs: "distinct cs" "set cs = {(j, w). j \<in> K \<and> joins e j v w}"
  defines "cs' \<equiv> filter (\<lambda>(j, w). j \<noteq> q) cs"
  shows "\<forall>(j, w)\<in>set cs'. j \<in> K - {p} \<and> j \<notin> U \<and> joins e j v w \<and> w \<notin> V" and "distinct (map snd cs')"
    and "v \<in> V" "v \<notin> D"
proof -
  have v: "v \<in> V" "v \<notin> D" "conn e U r v" "if v = r then q = p else q \<in> U" "\<And>j w. j \<in> U \<Longrightarrow> joins e j v w \<Longrightarrow> j = q"
    using w by (auto simp: walk_def)
  show "v \<in> V" "v \<notin> D" by fact+
  have U: "U \<subseteq> K - {p}" "\<And>x. x \<in> V \<Longrightarrow> conn e U r x" using w by (auto simp: walk_def)
  have no: "\<not> conn e U x y" if "j \<in> K" "j \<notin> U" "joins e j x y" for j x y
    using assms(1) that conn_mono [of e U x y "K - {j}"] U(1) by (auto simp: bridges_def)
  have jp: "j \<noteq> p" if j: "j \<in> K" "joins e j v w" "j \<noteq> q" for j w
  proof
    assume jp: "j = p"
    obtain x where x: "joins e p r x" using assms(3) j(1) jp by blast
    have "v \<noteq> r" using v(4) j(3) jp by (auto split: if_splits)
    then have "v = x" using joins_ends [OF x, of v w] j(2) jp by auto
    then show False using no [of p r x] x j(1) jp U(1) v(3) by blast
  qed
  show c: "\<forall>(j, w)\<in>set cs'. j \<in> K - {p} \<and> j \<notin> U \<and> joins e j v w \<and> w \<notin> V"
  proof (clarify, intro conjI)
    fix j w
    assume "(j, w) \<in> set cs'"
    then have j: "j \<in> K" "joins e j v w" "j \<noteq> q" using cs(2) by (auto simp: cs'_def)
    then show "j \<in> K - {p}" "joins e j v w" using jp by auto
    show jU: "j \<notin> U" using v(5) j by blast
    show "w \<notin> V"
    proof
      assume "w \<in> V"
      then have "conn e U v w" using U(2) v(3) by (meson conn_sym conn_trans)
      then show False using no [OF j(1) jU j(2)] by blast
    qed
  qed
  have "j = j'" if "(j, w) \<in> set cs" "(j', w) \<in> set cs" for j j' w
  proof (rule ccontr)
    assume "j \<noteq> j'"
    then have "conn e (K - {j}) v w" using that(2) cs(2) by (intro conn_edge [of j']) auto
    then show False using that(1) cs(2) assms(1) by (auto simp: bridges_def)
  qed
  then have "inj_on snd (set cs)" by (auto simp: inj_on_def)
  then have "inj_on snd (set cs')" by (rule inj_on_subset) (auto simp: cs'_def)
  then show "distinct (map snd cs')" using cs(1) by (simp add: distinct_map cs'_def)
qed

lemma walk_step:
  assumes "bridges e K" and w: "walk e K p r D V U ((q, v) # stk)" and "p \<notin> K \<or> (\<exists>x. joins e p r x)"
    and cs: "distinct cs" "set cs = {(j, w). j \<in> K \<and> joins e j v w}"
  defines "cs' \<equiv> filter (\<lambda>(j, w). j \<noteq> q) cs"
  shows "walk e K p r (insert v D) (V \<union> snd ` set cs') (U \<union> fst ` set cs') (rev cs' @ stk)"
proof -
  note c = walk_cells [OF assms(1-5), folded cs'_def]
  have c1: "j \<in> K" "j \<noteq> p" "j \<notin> U" "joins e j v w" "w \<notin> V" if "(j, w) \<in> set cs'" for j w using c(1) that by auto
  have w': "r \<in> V \<and> D \<subseteq> V \<and> U \<subseteq> K - {p} \<and> insert v (snd ` set stk) = V - D \<and> v \<notin> snd ` set stk \<and> distinct (map snd stk)"
    "\<forall>v\<in>V. conn e U r v" "\<forall>j\<in>U. \<forall>u v. joins e j u v \<longrightarrow> u \<in> V"
    "\<forall>(q, v)\<in>set ((q, v) # stk). (if v = r then q = p else q \<in> U) \<and> (\<forall>j\<in>U. \<forall>w. joins e j v w \<longrightarrow> j = q)"
    "\<forall>v\<in>D. \<forall>j\<in>K - {p}. \<forall>w. joins e j v w \<longrightarrow> w \<in> V \<and> j \<in> U"
    using walkD(1-5) [OF w] walkD(6-9) [OF w] by simp_all
  have o: "r \<in> V" "D \<subseteq> V" "U \<subseteq> K - {p}" "insert v (snd ` set stk) = V - D" "v \<notin> snd ` set stk" "distinct (map snd stk)"
    "\<And>x. x \<in> V \<Longrightarrow> conn e U r x" "\<And>j x y. j \<in> U \<Longrightarrow> joins e j x y \<Longrightarrow> x \<in> V"
    using w'(1-3) by blast+
  have o2: "(if x = r then q' = p else q' \<in> U) \<and> (\<forall>j\<in>U. \<forall>y. joins e j x y \<longrightarrow> j = q')" if "(q', x) \<in> set ((q, v) # stk)" for q' x
    using bspec [OF w'(4) that] by simp
  have o9: "if x = r then q' = p else q' \<in> U" if "(q', x) \<in> set stk" for q' x using o2 [of q' x] that by simp
  have o10: "j = q'" if "(q', x) \<in> set stk" "j \<in> U" "joins e j x y" for q' x j y using o2 [of q' x] that by auto
  have o11: "y \<in> V \<and> j \<in> U" if "x \<in> D" "j \<in> K - {p}" "joins e j x y" for x j y using w'(5) that by blast
  have o12: "if v = r then q = p else q \<in> U" using o2 [of q v] by simp
  have stk_V: "x \<in> V" if "(q', x) \<in> set stk" for q' x using o(4) that by force
  let ?U = "U \<union> fst ` set cs'"
  have "conn e ?U r w" if "(j, w) \<in> set cs'" for j w
  proof -
    have "conn e ?U r v" by (rule conn_mono [OF o(7) [OF c(3)]]) blast
    moreover have "conn e ?U v w" using that c1(4) by (intro conn_edge [of j]) force+
    ultimately show ?thesis by (rule conn_trans)
  qed
  then have connected: "\<forall>x\<in>V \<union> snd ` set cs'. conn e ?U r x" using o(7) conn_mono [of e U r _ ?U] by force
  have ends: "\<forall>j\<in>?U. \<forall>x y. joins e j x y \<longrightarrow> x \<in> V \<union> snd ` set cs'"
  proof (intro ballI allI impI)
    fix j x y
    assume "j \<in> ?U" "joins e j x y"
    then consider "j \<in> U" | u where "(j, u) \<in> set cs'" by force
    then show "x \<in> V \<union> snd ` set cs'"
    proof cases
      case 2
      then have "x = v \<or> x = u" using joins_ends [OF c1(4)] \<open>joins e j x y\<close> by blast
      then show ?thesis using c(3) 2 by force
    qed (use o(8) \<open>joins e j x y\<close> in blast)
  qed
  have top: "(if x = r then q' = p else q' \<in> ?U) \<and> (\<forall>j\<in>?U. \<forall>y. joins e j x y \<longrightarrow> j = q')"
    if "(q', x) \<in> set (rev cs' @ stk)" for q' x
  proof -
    from that consider "(q', x) \<in> set cs'" | "(q', x) \<in> set stk" by auto
    then show ?thesis
    proof cases
      case 1
      then have xV: "x \<notin> V" using c1 by blast
      have "j = q'" if j: "j \<in> ?U" "joins e j x y" for j y
      proof -
        from j have "j \<notin> U" using o(8) xV by blast
        then obtain u where u: "(j, u) \<in> set cs'" using j by force
        then have "u = x" using joins_ends [OF c1(4) [OF u] j(2)] xV c(3) by blast
        then show ?thesis using u 1 c(2) by (metis eq_key_imp_eq_value distinct_map inj_on_def snd_conv prod.inject)
      qed
      then show ?thesis using 1 xV o(1) by force
    next
      case 2
      have "j = q'" if j: "j \<in> ?U" "joins e j x y" for j y
      proof (cases "j \<in> U")
        case False
        then obtain u where u: "(j, u) \<in> set cs'" using j by force
        have "x \<noteq> v" using 2 o(5) by force
        then have "x = u" using joins_ends [OF c1(4) [OF u] j(2)] by blast
        then show ?thesis using c1(5) [OF u] stk_V [OF 2] by blast
      qed (use o10 [OF 2] j in blast)
      then show ?thesis using o9 [OF 2] by auto
    qed
  qed
  have closed: "y \<in> V \<union> snd ` set cs' \<and> j \<in> ?U" if "x \<in> insert v D" "j \<in> K - {p}" "joins e j x y" for x j y
  proof (cases "x = v")
    case True
    then have m: "(j, y) \<in> set cs" using that cs(2) by auto
    show ?thesis
    proof (cases "j = q")
      case True
      then have "q \<in> U" using o12 that(2) by (auto split: if_splits)
      then show ?thesis using True o(8) that(3) joins_sym by fastforce
    next
      case False
      then show ?thesis using m by (force simp: cs'_def)
    qed
  next
    case False
    then show ?thesis using o11 that by blast
  qed
  have nodes: "snd ` set (rev cs' @ stk) = (V \<union> snd ` set cs') - insert v D"
    using o(2,4,5) c(3) c1(5) by (auto simp: image_iff) 
  have d: "distinct (map snd (rev cs' @ stk))"
  proof -
    have "snd ` set cs' \<inter> snd ` set stk = {}" using stk_V c1(5) by fastforce
    then show ?thesis using c(2) o(6) by (simp add: rev_map [symmetric])
  qed
  have u: "U \<union> fst ` set cs' \<subseteq> K - {p}" using o(3) c1(1,2) by force
  have s: "r \<in> V \<union> snd ` set cs'" "insert v D \<subseteq> V \<union> snd ` set cs'" using o(1,2) c(3) by blast+
  show ?thesis by (rule walkI [OF s u nodes d connected ends top closed])
qed

section \<open>Walking a linked forest\<close>

text \<open>
  What a client of the walk promises in the states that satisfy \<open>inv\<close>: finitely many nodes, live edges
  between nodes and forming a forest, and for each node its edges, each once, with their other ends.
\<close>

locale linked_forest =
  fixes inv :: "'s \<Rightarrow> bool"
    and nodes :: "'s \<Rightarrow> 'n set"
    and live :: "'s \<Rightarrow> 'k set"
    and ends :: "'s \<Rightarrow> 'k \<Rightarrow> 'n \<times> 'n"
    and cells :: "'s \<Rightarrow> 'n \<Rightarrow> ('k \<times> 'n) list res"
  assumes finite_nodes: "inv s \<Longrightarrow> finite (nodes s)"
    and ends_nodes: "inv s \<Longrightarrow> j \<in> live s \<Longrightarrow> joins (ends s) j u v \<Longrightarrow> u \<in> nodes s"
    and forest: "inv s \<Longrightarrow> bridges (ends s) (live s)"
    and cells_ok: "inv s \<Longrightarrow> v \<in> nodes s \<Longrightarrow>
          \<exists>cs. cells s v = Inr cs \<and> distinct cs \<and> set cs = {(j, w). j \<in> live s \<and> joins (ends s) j v w}"
begin

lemma dfs_walk:
  assumes "inv s" and "walk (ends s) (live s) p r D V U stk" and "p \<notin> live s \<or> (\<exists>x. joins (ends s) p r x)"
    and "V \<subseteq> nodes s" and "card (nodes s - D) \<le> n"
  shows "\<exists>os. (\<forall>visit (t :: 't). dfs n (cells s) visit stk t = rfold (\<lambda>(j, w, v). visit j w v) os t) \<and>
    tree_order (ends s) V os \<and> walk (ends s) (live s) p r (V \<union> new_nodes os) (V \<union> new_nodes os) (U \<union> used_keys os) [] \<and>
    V \<union> new_nodes os \<subseteq> nodes s"
  using assms(2,4,5)
proof (induction n arbitrary: D V U stk)
  case 0
  then have "nodes s - D = {}" using finite_nodes [OF assms(1)] by simp
  then have "V - D = {}" using "0.prems"(2) by blast
  then have "snd ` set stk = {}" using walkD(4) [OF "0.prems"(1)] by (rule trans [rotated])
  then have "stk = []" by simp
  moreover from this have "V = D" using walk_Nil "0.prems"(1) by simp
  ultimately show ?case using "0.prems"(1,2) by (intro exI [of _ "[]"]) simp
next
  case (Suc n)
  show ?case
  proof (cases stk)
    case Nil
    then have "V = D" using walk_Nil Suc.prems(1) by simp
    then show ?thesis using Suc.prems(1,2) Nil by (intro exI [of _ "[]"]) simp
  next
    case (Cons x stk')
    obtain q v where x: "x = (q, v)" by (cases x)
    note w = Suc.prems(1) [unfolded Cons x]
    have v: "v \<in> V - D" using walkD(4) [OF w] by auto
    then obtain cs where cs: "cells s v = Inr cs" "distinct cs" "set cs = {(j, w). j \<in> live s \<and> joins (ends s) j v w}"
      using cells_ok [OF assms(1)] Suc.prems(2) by blast
    define cs' where "cs' = filter (\<lambda>(j, w). j \<noteq> q) cs"
    note c = walk_cells [OF forest [OF assms(1)] w assms(3) cs(2,3), folded cs'_def]
    note w' = walk_step [OF forest [OF assms(1)] w assms(3) cs(2,3), folded cs'_def]
    let ?os = "map (\<lambda>(j, w). (j, w, v)) cs'"
    have im: "new_nodes ?os = snd ` set cs'" "used_keys ?os = fst ` set cs'" by force+
    have sub: "V \<union> snd ` set cs' \<subseteq> nodes s"
      using Suc.prems(2) c(1) ends_nodes [OF assms(1)] joins_sym by fastforce
    have "card (nodes s - insert v D) < card (nodes s - D)"
      using finite_nodes [OF assms(1)] v Suc.prems(2) by (intro psubset_card_mono) auto
    then have "card (nodes s - insert v D) \<le> n" using Suc.prems(3) by linarith
    from Suc.IH [OF w' sub this] obtain os where os0:
      "(\<forall>visit (t :: 't). dfs n (cells s) visit (rev cs' @ stk') t = rfold (\<lambda>(j, w, v). visit j w v) os t) \<and>
       tree_order (ends s) (V \<union> snd ` set cs') os \<and>
       walk (ends s) (live s) p r (V \<union> snd ` set cs' \<union> new_nodes os) (V \<union> snd ` set cs' \<union> new_nodes os)
         (U \<union> fst ` set cs' \<union> used_keys os) [] \<and>
       V \<union> snd ` set cs' \<union> new_nodes os \<subseteq> nodes s" ..
    note os = os0 [THEN conjunct1, rule_format] os0 [THEN conjunct2, THEN conjunct1]
      os0 [THEN conjunct2, THEN conjunct2, THEN conjunct1] os0 [THEN conjunct2, THEN conjunct2, THEN conjunct2]
    have run: "dfs (Suc n) (cells s) visit stk t = rfold (\<lambda>(j, w, v). visit j w v) (?os @ os) t" for visit and t :: 't
      unfolding Cons x dfs.simps cs(1) rbind_Inr visit_cells Let_def cs'_def [symmetric] rfold_append rbind_assoc prod.case os(1)
      by (rule rbind_cong) (rule refl)+
    have tree: "tree_order (ends s) V (?os @ os)"
      unfolding tree_order_append im using os(2) c tree_order_node [of v V cs' "ends s"] by fast
    have sets: "V \<union> new_nodes (?os @ os) = V \<union> snd ` set cs' \<union> new_nodes os"
      "U \<union> used_keys (?os @ os) = U \<union> fst ` set cs' \<union> used_keys os"
      unfolding set_append image_Un im by blast+
    show ?thesis
      by (intro exI [of _ "?os @ os"] conjI allI, rule run, rule tree) (unfold sets, rule os(3), rule os(4))
  qed
qed

text \<open>The walk ends, and visits exactly the nodes connected to the start without the avoided edge.\<close>

lemma dfs_runs:
  assumes "inv s" and "r \<in> nodes s" and "p \<notin> live s \<or> (\<exists>x. joins (ends s) p r x)" and "card (nodes s) \<le> n"
  shows "\<exists>os. (\<forall>visit (t :: 't). dfs n (cells s) visit [(p, r)] t = rfold (\<lambda>(j, w, v). visit j w v) os t) \<and>
    tree_order (ends s) {r} os \<and> insert r (new_nodes os) = {u. conn (ends s) (live s - {p}) r u} \<and>
    used_keys os = {j \<in> live s - {p}. \<exists>u v. joins (ends s) j u v \<and> conn (ends s) (live s - {p}) r u} \<and>
    insert r (new_nodes os) \<subseteq> nodes s"
proof -
  obtain os where os: "\<And>visit (t :: 't). dfs n (cells s) visit [(p, r)] t = rfold (\<lambda>(j, w, v). visit j w v) os t"
    "tree_order (ends s) {r} os" "walk (ends s) (live s) p r (insert r (new_nodes os)) (insert r (new_nodes os)) (used_keys os) []"
    "insert r (new_nodes os) \<subseteq> nodes s"
    using dfs_walk [OF assms(1) walk_start assms(3), of n] assms(2,4) by auto
  let ?V = "insert r (new_nodes os)" and ?K = "live s - {p}"
  have w: "used_keys os \<subseteq> ?K" "\<forall>v\<in>?V. conn (ends s) (used_keys os) r v"
    "\<forall>v\<in>?V. \<forall>j\<in>?K. \<forall>w. joins (ends s) j v w \<longrightarrow> w \<in> ?V \<and> j \<in> used_keys os"
    "\<forall>j\<in>used_keys os. \<forall>u v. joins (ends s) j u v \<longrightarrow> u \<in> ?V"
    using walkD(3,6,9,7) [OF os(3)] by blast+
  have "u \<in> ?V" if "conn (ends s) ?K r u" for u
    using that by (rule conn_closed) (use w(3) in blast)+
  moreover have "conn (ends s) ?K r u" if "u \<in> ?V" for u
    using w(1,2) that conn_mono by metis
  ultimately have V: "?V = {u. conn (ends s) ?K r u}" by blast
  have ex: "\<exists>u v. joins (ends s) j u v" for j by (cases "ends s j") (auto simp: joins_def)
  have "used_keys os = {j \<in> ?K. \<exists>u v. joins (ends s) j u v \<and> u \<in> ?V}"
  proof (intro equalityI subsetI)
    fix j
    assume j: "j \<in> used_keys os"
    then show "j \<in> {j \<in> ?K. \<exists>u v. joins (ends s) j u v \<and> u \<in> ?V}" using w(1) w(4) [rule_format, OF j] ex [of j] by fast
  next
    fix j
    assume "j \<in> {j \<in> ?K. \<exists>u v. joins (ends s) j u v \<and> u \<in> ?V}"
    then have "j \<in> ?K" "\<exists>u v. joins (ends s) j u v \<and> u \<in> ?V" by (simp_all only: mem_Collect_eq)
    then obtain u v where "j \<in> ?K" "joins (ends s) j u v" "u \<in> ?V" by iprover
    then show "j \<in> used_keys os" using w(3) [rule_format, of u j v] by fast
  qed
  then have "used_keys os = {j \<in> ?K. \<exists>u v. joins (ends s) j u v \<and> conn (ends s) ?K r u}" unfolding V mem_Collect_eq .
  with os(2,4) V os(1) show ?thesis by blast
qed

end

section \<open>Folding over a walk\<close>

text \<open>Filling: each new node gets the exclusive or of the key's data and the node it is reached from.\<close>

fun fill :: "('k \<Rightarrow> 'a::semiring_bit_operations) \<Rightarrow> ('k \<times> 'n \<times> 'n) list \<Rightarrow> ('n \<Rightarrow> 'a) \<Rightarrow> 'n \<Rightarrow> 'a" where
  "fill d [] f = f"
| "fill d ((j, w, v) # os) f = fill d os (f(w := d j XOR f v))"

lemma fill_frame: "x \<notin> new_nodes os \<Longrightarrow> fill d os f x = f x"
  by (induction d os f rule: fill.induct) auto

lemma fill_edges:
  assumes "tree_order e V os" "(j, w, v) \<in> set os"
  shows "fill d os f w = d j XOR fill d os f v"
  using assms
proof (induction d os f arbitrary: V rule: fill.induct)
  case (2 d j1 w1 v1 os f)
  have o: "v1 \<in> V" "w1 \<notin> V" "tree_order e (insert w1 V) os" using "2.prems"(1) by auto
  have new: "x \<notin> insert w1 V" if "x \<in> new_nodes os" for x using new_nodes_fresh [OF o(3) that] .
  show ?case
  proof (cases "(j, w, v) \<in> set os")
    case True
    then show ?thesis using "2.IH" [OF o(3)] by (simp add: fun_upd_def)
  next
    case False
    then have e: "j = j1" "w = w1" "v = v1" using "2.prems"(2) by auto
    have "w1 \<notin> new_nodes os" "v1 \<notin> new_nodes os" using new o(1) by blast+
    moreover have "v1 \<noteq> w1" using o(1,2) by blast
    ultimately show ?thesis using e by (simp add: fill_frame)
  qed
qed simp

end
