(* ===== verification/Disjoint_Set.thy ===== *)
theory Disjoint_Set
  imports Forest
begin

text \<open>
  \<open>DisjointSet\<close> of \<open>deps/ludo/tables/disjointset.h\<close>: an array of parents, where the all-ones word marks an
  element that no operation has touched yet. \<open>representative\<close> follows the parents to the root and
  compresses the path; on an array with a cycle the recursion of the code never returns, and a
  recursion deeper than the array is long is on a cycle (\<open>Diverges\<close>).

  Shown: from the empty sets on, \<open>representative\<close>, \<open>sameSet\<close> and \<open>merge\<close> return, keep the structure
  acyclic, and two elements have the same representative exactly when a chain of merges connects them.
\<close>

section \<open>Definitions\<close>

type_synonym disjoint_set = "u32 list"

definition ds_set :: "u32 \<Rightarrow> u32 \<Rightarrow> disjoint_set \<Rightarrow> disjoint_set res" where
  "ds_set i parent mem = aset mem (unat i) parent"

fun representative_rec :: "nat \<Rightarrow> u32 \<Rightarrow> disjoint_set \<Rightarrow> (u32 \<times> disjoint_set) res" where
  "representative_rec 0 i mem = Inl Diverges"
| "representative_rec (Suc depth) i mem =
    rbind (aget mem (unat i)) (\<lambda>p.
    if p = - 1 then rbind (aset mem (unat i) i) (\<lambda>mem'. Inr (i, mem'))
    else if p \<noteq> i then
      rbind (representative_rec depth p mem) (\<lambda>(r, mem1).
      rbind (aset mem1 (unat i) r) (\<lambda>mem2. Inr (r, mem2)))
    else Inr (i, mem))"

definition representative :: "u32 \<Rightarrow> disjoint_set \<Rightarrow> (u32 \<times> disjoint_set) res" where
  "representative i mem = representative_rec (Suc (length mem)) i mem"

definition merge :: "u32 \<Rightarrow> u32 \<Rightarrow> disjoint_set \<Rightarrow> disjoint_set res" where
  "merge a b mem =
    rbind (representative a mem) (\<lambda>(ra, mem1).
    rbind (representative b mem1) (\<lambda>(rb, mem2).
    aset mem2 (unat rb) ra))"

definition sameSet :: "u32 \<Rightarrow> u32 \<Rightarrow> disjoint_set \<Rightarrow> (bool \<times> disjoint_set) res" where
  "sameSet a b mem =
    rbind (representative a mem) (\<lambda>(ra, mem1).
    rbind (representative b mem1) (\<lambda>(rb, mem2). Inr (ra = rb, mem2)))"

definition isRoot :: "u32 \<Rightarrow> disjoint_set \<Rightarrow> bool res" where
  "isRoot a mem = rbind (aget mem (unat a)) (\<lambda>p. Inr (p = a))"

definition ds_reset :: "disjoint_set \<Rightarrow> disjoint_set" where
  "ds_reset mem = replicate (length mem) (- 1)"

definition ds_resize :: "nat \<Rightarrow> disjoint_set \<Rightarrow> disjoint_set" where
  "ds_resize n mem = take n mem @ replicate (n - length mem) (- 1)"

section \<open>Structure\<close>

text \<open>
  \<open>root\<close> gives each element its root and \<open>h\<close> a height that falls along the parents, so that the parent
  graph has no cycle. The all-ones word is not an index of the array.
\<close>

definition ds_wf :: "(u32 \<Rightarrow> u32) \<Rightarrow> (u32 \<Rightarrow> nat) \<Rightarrow> disjoint_set \<Rightarrow> bool" where
  "ds_wf root h mem \<longleftrightarrow> length mem < 2 ^ 32 \<and>
     (\<forall>i. unat i < length mem \<longrightarrow>
        (let p = mem ! unat i in
         if p = - 1 \<or> p = i then root i = i
         else unat p < length mem \<and> root i = root p \<and> h p < h i))"

definition touched :: "disjoint_set \<Rightarrow> u32 \<Rightarrow> bool" where
  "touched mem i \<longleftrightarrow> unat i < length mem \<and> mem ! unat i \<noteq> - 1"

lemma ds_wf_cases:
  assumes "ds_wf root h mem" "unat i < length mem"
  obtains (fresh) "mem ! unat i = - 1" "root i = i"
  | (root) "mem ! unat i = i" "root i = i" "i \<noteq> - 1"
  | (child) p where "mem ! unat i = p" "p \<noteq> - 1" "p \<noteq> i" "unat p < length mem" "root i = root p" "h p < h i"
proof -
  have "(let p = mem ! unat i in if p = - 1 \<or> p = i then root i = i
         else unat p < length mem \<and> root i = root p \<and> h p < h i)"
    using assms by (auto simp: ds_wf_def)
  then have "if mem ! unat i = - 1 \<or> mem ! unat i = i then root i = i
         else unat (mem ! unat i) < length mem \<and> root i = root (mem ! unat i) \<and> h (mem ! unat i) < h i"
    by (simp add: Let_def)
  then show thesis
    by (cases "mem ! unat i = - 1"; cases "mem ! unat i = i") (use fresh root child in auto)
qed

text \<open>The root of an element is a root, and no higher than the element.\<close>

lemma ds_root:
  assumes "ds_wf root h mem" "unat i < length mem"
  shows "unat (root i) < length mem \<and> root (root i) = root i \<and> (mem ! unat (root i) = - 1 \<or> mem ! unat (root i) = root i) \<and>
    (root i = i \<or> h (root i) < h i)"
  using assms(2)
proof (induction "h i" arbitrary: i rule: less_induct)
  case less
  from assms(1) less.prems show ?case
  proof (cases rule: ds_wf_cases)
    case (child p)
    then show ?thesis using less.hyps [OF child(6,4)] by auto
  qed (use less.prems in auto)
qed

text \<open>Elements of smaller height than \<open>i\<close>: one more than a path from \<open>i\<close> can pass.\<close>

definition below :: "(u32 \<Rightarrow> nat) \<Rightarrow> disjoint_set \<Rightarrow> u32 \<Rightarrow> u32 set" where
  "below h mem i = {j. unat j < length mem \<and> h j < h i}"

lemma below_psubset:
  assumes "h p < h i" "unat p < length mem"
  shows "card (below h mem p) < card (below h mem i)"
proof (rule psubset_card_mono)
  show "below h mem p \<subset> below h mem i" using assms by (auto simp: below_def)
qed simp

lemma card_below: "card (below h mem i) \<le> length mem"
proof -
  have "inj_on unat (below h mem i)" by (simp add: inj_on_def word_unat_eq_iff)
  moreover have "unat ` below h mem i \<subseteq> {..<length mem}" by (auto simp: below_def)
  ultimately show ?thesis by (metis card_image card_lessThan card_mono finite_lessThan)
qed

lemma not_minus_one: "length mem < 2 ^ 32 \<Longrightarrow> unat (r :: u32) < length mem \<Longrightarrow> r \<noteq> - 1"
proof
  assume l: "length mem < 2 ^ 32" "unat r < length mem" "r = - 1"
  have "unat (- 1 :: u32) = 2 ^ 32 - 1" by (simp add: unsigned_minus_1_eq_mask mask_eq_exp_minus_1)
  then show False using l by simp
qed

text \<open>A write of the root (or of itself, for a root) keeps the structure.\<close>

lemma ds_wf_point:
  assumes "ds_wf root h mem" "unat i < length mem" "unat r < length mem" "root i = r" "root r = r" "i = r \<or> h r < h i"
  shows "ds_wf root h (mem[unat i := r])"
  using assms not_minus_one [of mem r] unfolding ds_wf_def Let_def
  by (auto simp: nth_list_update simp flip: word_unat_eq_iff)

lemma representative_rec_ok:
  assumes "ds_wf root h mem" "unat i < length mem" "card (below h mem i) < depth"
  shows "\<exists>mem'. representative_rec depth i mem = Inr (root i, mem') \<and> ds_wf root h mem' \<and> length mem' = length mem \<and>
    touched mem' (root i) \<and> touched mem' i \<and> (\<forall>j. touched mem j \<longrightarrow> touched mem' j) \<and>
    (\<forall>j. touched mem' j \<longrightarrow> touched mem j \<or> root j = root i)"
  using assms
proof (induction depth i mem rule: representative_rec.induct)
  case (2 depth i mem)
  have len: "length mem < 2 ^ 32" using "2.prems"(1) by (simp add: ds_wf_def)
  from "2.prems"(1,2) show ?case
  proof (cases rule: ds_wf_cases)
    case fresh
    have "ds_wf root h (mem[unat i := i])" using ds_wf_point [OF "2.prems"(1,2)] "2.prems"(2) fresh by simp
    then show ?thesis using fresh "2.prems"(2) not_minus_one [OF len "2.prems"(2)]
      by (auto simp: touched_def nth_list_update simp flip: word_unat_eq_iff)
  next
    case root
    then show ?thesis using "2.prems" by (auto simp: touched_def)
  next
    case (child p)
    have "card (below h mem p) < depth" using below_psubset [OF child(6,4)] "2.prems"(3) by linarith
    from "2.IH" [OF _ _ _ "2.prems"(1) child(4) this] child "2.prems"(2)
    obtain mem1 where m: "representative_rec depth p mem = Inr (root p, mem1)" "ds_wf root h mem1" "length mem1 = length mem"
      "touched mem1 (root p)" "\<forall>j. touched mem j \<longrightarrow> touched mem1 j"
      "\<forall>j. touched mem1 j \<longrightarrow> touched mem j \<or> root j = root p" by auto
    let ?mem = "mem1[unat i := root p]"
    have r: "unat (root p) < length mem" "root (root p) = root p" "root p = p \<or> h (root p) < h p"
      using ds_root [OF "2.prems"(1) child(4)] by auto
    then have lt: "h (root p) < h i" using child(6) by auto
    have wf: "ds_wf root h ?mem" using m child "2.prems"(2) r lt by (intro ds_wf_point) auto
    have r1: "root p \<noteq> - 1" using not_minus_one [OF len r(1)] .
    have "touched ?mem j \<longleftrightarrow> touched mem1 j \<or> j = i" for j
      using "2.prems"(2) m(3) r1 by (auto simp: touched_def nth_list_update simp flip: word_unat_eq_iff)
    moreover have "representative_rec (Suc depth) i mem = Inr (root i, ?mem)"
      using child m(1,3) "2.prems"(2) by simp
    ultimately show ?thesis using wf m(3-6) child(5) by auto
  qed
qed simp

lemma representative_ok:
  assumes "ds_wf root h mem" "unat i < length mem"
  obtains mem' where "representative i mem = Inr (root i, mem')" "ds_wf root h mem'" "length mem' = length mem"
    "touched mem' (root i)" "touched mem' i"
    "\<And>j. touched mem j \<Longrightarrow> touched mem' j" "\<And>j. touched mem' j \<Longrightarrow> touched mem j \<or> root j = root i"
  using representative_rec_ok [OF assms, of "Suc (length mem)"] card_below [of h mem i]
  unfolding representative_def by (metis le_imp_less_Suc)

text \<open>\<open>sameSet\<close> compares the roots and keeps them.\<close>

lemma sameSet_ok:
  assumes "ds_wf root h mem" "unat a < length mem" "unat b < length mem"
  obtains mem' where "sameSet a b mem = Inr (root a = root b, mem')" "ds_wf root h mem'" "length mem' = length mem"
    "\<And>j. touched mem j \<Longrightarrow> touched mem' j" "\<And>j. touched mem' j \<Longrightarrow> touched mem j \<or> root j = root a \<or> root j = root b"
proof -
  obtain m1 where m1: "representative a mem = Inr (root a, m1)" "ds_wf root h m1" "length m1 = length mem"
    "\<And>j. touched mem j \<Longrightarrow> touched m1 j" "\<And>j. touched m1 j \<Longrightarrow> touched mem j \<or> root j = root a"
    by (rule representative_ok [OF assms(1,2)]) blast
  have "unat b < length m1" using assms(3) m1(3) by simp
  from representative_ok [OF m1(2) this] obtain m2 where m2: "representative b m1 = Inr (root b, m2)" "ds_wf root h m2"
    "length m2 = length m1" "\<And>j. touched m1 j \<Longrightarrow> touched m2 j" "\<And>j. touched m2 j \<Longrightarrow> touched m1 j \<or> root j = root b" by blast
  show thesis by (rule that [of m2]) (use m1 m2 in \<open>auto simp: sameSet_def\<close>)
qed

text \<open>\<open>merge\<close> unites two trees under the root of the first.\<close>

definition merged_root :: "(u32 \<Rightarrow> u32) \<Rightarrow> u32 \<Rightarrow> u32 \<Rightarrow> u32 \<Rightarrow> u32" where
  "merged_root root a b x = (if root x = root b then root a else root x)"

definition merged_height :: "(u32 \<Rightarrow> u32) \<Rightarrow> (u32 \<Rightarrow> nat) \<Rightarrow> u32 \<Rightarrow> u32 \<Rightarrow> u32 \<Rightarrow> nat" where
  "merged_height root h a b x = (if root x = root b then Suc (h x + h (root a)) else h x)"

lemma merge_ok:
  assumes "ds_wf root h mem" "unat a < length mem" "unat b < length mem"
  obtains mem' where "merge a b mem = Inr mem'" "ds_wf (merged_root root a b) (merged_height root h a b) mem'"
    "length mem' = length mem" "touched mem' (root a)"
    "\<And>j. touched mem j \<Longrightarrow> touched mem' j" "touched mem' a" "touched mem' b"
    "\<And>j. touched mem' j \<Longrightarrow> touched mem j \<or> root j = root a \<or> root j = root b"
proof -
  obtain m1 where m1: "representative a mem = Inr (root a, m1)" "ds_wf root h m1" "length m1 = length mem"
    "touched m1 (root a)" "touched m1 a" "\<And>j. touched mem j \<Longrightarrow> touched m1 j"
    "\<And>j. touched m1 j \<Longrightarrow> touched mem j \<or> root j = root a"
    by (rule representative_ok [OF assms(1,2)]) blast
  have "unat b < length m1" using assms(3) m1(3) by simp
  from representative_ok [OF m1(2) this] obtain m2 where m2: "representative b m1 = Inr (root b, m2)" "ds_wf root h m2"
    "length m2 = length m1" "touched m2 (root b)" "touched m2 b" "\<And>j. touched m1 j \<Longrightarrow> touched m2 j"
    "\<And>j. touched m2 j \<Longrightarrow> touched m1 j \<or> root j = root b" by blast
  have len: "length mem < 2 ^ 32" "length m2 = length mem" using assms(1) m1(3) m2(3) by (simp_all add: ds_wf_def)
  have ra: "unat (root a) < length m2" "root (root a) = root a" "root a \<noteq> - 1"
    using ds_root [OF assms(1,2)] len not_minus_one [of mem "root a"] by auto
  have rb: "unat (root b) < length m2" "root (root b) = root b" using ds_root [OF assms(1,3)] len by auto
  let ?m = "m2[unat (root b) := root a]"
  have mg: "merge a b mem = Inr ?m" using m1(1) m2(1) rb(1) by (simp add: merge_def)
  have wf: "ds_wf (merged_root root a b) (merged_height root h a b) ?m"
    unfolding ds_wf_def
  proof (intro conjI allI impI)
    fix i :: u32
    assume i: "unat i < length ?m"
    then have i': "unat i < length m2" by simp
    show "let p = ?m ! unat i in if p = - 1 \<or> p = i then merged_root root a b i = i
      else unat p < length ?m \<and> merged_root root a b i = merged_root root a b p \<and> merged_height root h a b p < merged_height root h a b i"
    proof (cases "i = root b")
      case True
      then show ?thesis using ra rb by (simp add: merged_root_def merged_height_def)
    next
      case False
      then have e: "?m ! unat i = m2 ! unat i" by (simp add: nth_list_update word_unat_eq_iff)
      from m2(2) i' show ?thesis
      proof (cases rule: ds_wf_cases)
        case (child p)
        then show ?thesis using e by (simp add: merged_root_def merged_height_def)
      qed (use e False rb in \<open>auto simp: merged_root_def\<close>)
    qed
  qed (use len in simp)
  have t: "touched ?m j \<longleftrightarrow> touched m2 j" for j
    using ra(3) m2(4) by (auto simp: touched_def nth_list_update simp flip: word_unat_eq_iff)
  show thesis
    by (rule that [OF mg wf]) (use m1 m2 t len in auto)
qed

text \<open>The empty sets: every element is its own root and untouched.\<close>

lemma ds_reset_wf: "length mem < 2 ^ 32 \<Longrightarrow> ds_wf (\<lambda>x. x) (\<lambda>_. 0) (ds_reset mem)"
  by (simp add: ds_wf_def ds_reset_def)

lemma ds_reset_untouched: "\<not> touched (ds_reset mem) i"
  by (simp add: touched_def ds_reset_def)

lemma isRoot_ok:
  assumes "ds_wf root h mem" "unat i < length mem"
  shows "isRoot i mem = Inr (touched mem i \<and> root i = i)"
proof -
  have "i \<noteq> - 1" using not_minus_one assms by (auto simp: ds_wf_def)
  from assms show ?thesis
  proof (cases rule: ds_wf_cases)
    case (child p)
    then have "root i \<noteq> i" using ds_root [OF assms(1) child(4)] by auto
    then show ?thesis using child assms(2) by (simp add: isRoot_def)
  qed (use assms(2) \<open>i \<noteq> - 1\<close> in \<open>auto simp: isRoot_def touched_def\<close>)
qed

section \<open>Roots and connection\<close>

text \<open>The roots tell apart exactly what the edges \<open>K\<close> do not connect.\<close>

definition roots_conn :: "nat \<Rightarrow> (u32 \<Rightarrow> u32) \<Rightarrow> ('k \<Rightarrow> u32 \<times> u32) \<Rightarrow> 'k set \<Rightarrow> bool" where
  "roots_conn n root e K \<longleftrightarrow> (\<forall>u v. unat u < n \<longrightarrow> unat v < n \<longrightarrow> root u = root v \<longleftrightarrow> conn e K u v)"

lemma roots_conn_empty: "roots_conn n (\<lambda>x. x) e {}"
  by (simp add: roots_conn_def)

lemma roots_conn_merge:
  assumes "roots_conn n root e K" "joins e j a b" "unat a < n" "unat b < n"
  shows "roots_conn n (merged_root root a b) e (insert j K)"
  unfolding roots_conn_def
proof (intro allI impI)
  fix u v :: u32
  assume uv: "unat u < n" "unat v < n"
  have r: "root x = root y \<longleftrightarrow> conn e K x y" if "x \<in> {u, v, a, b}" "y \<in> {u, v, a, b}" for x y
    using assms(1) that uv assms(3,4) by (auto simp: roots_conn_def)
  have s: "conn e K x y \<longleftrightarrow> root x = root y" if "x \<in> {u, v, a, b}" "y \<in> {u, v, a, b}" for x y using r [OF that] by simp
  show "merged_root root a b u = merged_root root a b v \<longleftrightarrow> conn e (insert j K) u v"
    unfolding conn_insert_iff [OF assms(2)] merged_root_def
    using s [of u v] s [of u a] s [of b v] s [of u b] s [of a v] by auto
qed

text \<open>
  A run of merges: the \<open>i\<close>-th pair is the edge \<open>i\<close>.
\<close>

lemma merge_run:
  assumes "ds_wf root h mem" "roots_conn (length mem) root (nth ps) {..<k}"
    and "\<forall>(a, b)\<in>set (drop k ps). unat a < length mem \<and> unat b < length mem" "k \<le> length ps"
  shows "\<exists>mem' root' h'. rfold (\<lambda>(a, b). merge a b) (drop k ps) mem = Inr mem' \<and> ds_wf root' h' mem' \<and>
    length mem' = length mem \<and> roots_conn (length mem) root' (nth ps) {..<length ps}"
  using assms
proof (induction "length ps - k" arbitrary: k root h mem)
  case (Suc n)
  obtain a b where ab: "ps ! k = (a, b)" by (cases "ps ! k")
  have k: "k < length ps" using Suc.hyps(2) by simp
  then have d: "drop k ps = (a, b) # drop (Suc k) ps" using ab by (metis Cons_nth_drop_Suc)
  have in_range: "unat a < length mem" "unat b < length mem" using Suc.prems(3) by (simp_all add: d)
  obtain mem1 where m: "merge a b mem = Inr mem1" "ds_wf (merged_root root a b) (merged_height root h a b) mem1"
    "length mem1 = length mem" by (rule merge_ok [OF Suc.prems(1) in_range])
  have "roots_conn (length mem1) (merged_root root a b) (nth ps) {..<Suc k}"
    using roots_conn_merge [OF Suc.prems(2), of k a b] in_range m(3) ab by (simp add: joins_def lessThan_Suc)
  moreover have "n = length ps - Suc k" using Suc.hyps(2) by simp
  ultimately obtain mem' root' h' where "rfold (\<lambda>(a, b). merge a b) (drop (Suc k) ps) mem1 = Inr mem'" "ds_wf root' h' mem'"
    "length mem' = length mem" "roots_conn (length mem) root' (nth ps) {..<length ps}"
    using Suc.hyps(1) [OF _ m(2), of "Suc k"] Suc.prems(3) k m(3) d by auto
  then show ?case using m(1) d by auto
qed auto

text \<open>
  (C20) The disjoint set decides connection: after any list of merges inside a reset structure, whatever
  paths were compressed on the way, every merge and the test itself return, and \<open>sameSet\<close> answers whether
  a chain of merged pairs connects the two elements.
\<close>
theorem disjoint_set_connectivity:
  assumes "length mem < 2 ^ 32" and "\<forall>(a, b)\<in>set ps. unat a < length mem \<and> unat b < length mem"
    and "unat u < length mem" and "unat v < length mem"
  shows "\<exists>mem' mem''. rfold (\<lambda>(a, b). merge a b) ps (ds_reset mem) = Inr mem' \<and>
    sameSet u v mem' = Inr (conn (nth ps) {..<length ps} u v, mem'')"
proof -
  have l: "length (ds_reset mem) = length mem" by (simp add: ds_reset_def)
  obtain mem' root h where m: "rfold (\<lambda>(a, b). merge a b) ps (ds_reset mem) = Inr mem'" "ds_wf root h mem'"
    "length mem' = length mem" "roots_conn (length mem) root (nth ps) {..<length ps}"
    using merge_run [OF ds_reset_wf [OF assms(1)], of ps 0] roots_conn_empty [of "length mem" "nth ps"] assms(2) l by auto
  obtain mem'' where "sameSet u v mem' = Inr (root u = root v, mem'')"
    by (rule sameSet_ok [OF m(2), of u v]) (use assms(3,4) m(3) in auto)
  then show ?thesis using m(1,4) assms(3,4) by (auto simp: roots_conn_def)
qed

text \<open>Four elements, two merges: 0 and 2 are connected through 1.\<close>

theorem disjoint_set_connectivity_witness:
  "\<exists>mem' mem''. rfold (\<lambda>(a, b). merge a b) [(0, 1), (1, 2)] (ds_reset (replicate 4 0)) = Inr mem' \<and>
    sameSet 0 2 mem' = Inr (True, mem'')"
proof -
  have c: "conn (nth [(0 :: u32, 1 :: u32), (1, 2)]) {..<2} 0 2"
    by (rule conn_trans [OF conn_edge [of 0] conn_edge [of 1]]) (simp_all add: joins_def)
  have "length (replicate 4 0 :: u32 list) < 2 ^ 32"
    "\<forall>(a, b)\<in>set [(0, 1), (1, 2)]. unat a < length (replicate 4 0 :: u32 list) \<and> unat b < length (replicate 4 0 :: u32 list)"
    "unat (0 :: u32) < length (replicate 4 0 :: u32 list)" "unat (2 :: u32) < length (replicate 4 0 :: u32 list)"
    by simp_all
  from disjoint_set_connectivity [OF this] c show ?thesis by (simp add: numeral_2_eq_2 [symmetric])
qed

end
