(* ===== verification/Double_Arith.thy ===== *)
theory Double_Arith
  imports Prelude
begin

text \<open>
  The floating-point products of the code, where a table size is a number of keys times a load factor. They are computed
  exactly and rounded to the 53 bits of a \<open>double\<close>, half to even.
\<close>

section \<open>Definitions\<close>

text \<open>
  The product of an integer and the \<open>double\<close> \<open>m / 2 ^ e\<close>, rounded to 53 bits, half to even: \<open>dbl_prod\<close> is its
  numerator over \<open>2 ^ e\<close>, \<open>dbl_trunc\<close> its conversion to an integer. A constant such as
  1.33334 is the numerator and the exponent of the double nearest to it.
\<close>

fun bit_length :: "nat \<Rightarrow> nat" where
  "bit_length n = (if n = 0 then 0 else Suc (bit_length (n div 2)))"

declare bit_length.simps [simp del]

definition dbl_prod :: "nat \<Rightarrow> nat \<Rightarrow> nat" where
  "dbl_prod n m =
    (let p = n * m; s = 2 ^ (bit_length p - 53); q = p div s; r = p mod s
     in (if s < 2 * r \<or> s = 2 * r \<and> odd q then Suc q else q) * s)"

definition dbl_trunc :: "nat \<Rightarrow> nat \<Rightarrow> nat \<Rightarrow> nat" where
  "dbl_trunc n m e = dbl_prod n m div 2 ^ e"

text \<open>
  The quotient of an integer and the \<open>double\<close> \<open>m / 2 ^ e\<close>, at least one, rounded in the same way: its numerator over
  \<open>2 ^ 52\<close>.
\<close>

definition dbl_quot :: "nat \<Rightarrow> nat \<Rightarrow> nat \<Rightarrow> nat" where
  "dbl_quot n m e =
    (let p = n * 2 ^ (e + 52); s = 2 ^ (bit_length (p div m) - 53); q = p div (m * s); r = p mod (m * s)
     in (if m * s < 2 * r \<or> m * s = 2 * r \<and> odd q then Suc q else q) * s)"

section \<open>Bounds\<close>

lemma bit_length_bounds: "0 < n \<Longrightarrow> 2 ^ (bit_length n - 1) \<le> n \<and> n < 2 ^ bit_length n \<and> 0 < bit_length n"
proof (induction n rule: bit_length.induct)
  case (1 n)
  show ?case
  proof (cases "n div 2 = 0")
    case True
    then have "n = 1" using "1.prems" by linarith
    then show ?thesis by (simp add: bit_length.simps One_nat_def)
  next
    case False
    then have ih: "2 ^ (bit_length (n div 2) - 1) \<le> n div 2" "n div 2 < 2 ^ bit_length (n div 2)" "0 < bit_length (n div 2)"
      using "1.IH" "1.prems" by simp_all
    have b: "bit_length n = Suc (bit_length (n div 2))" using "1.prems" by (simp add: bit_length.simps [of n])
    obtain c where c: "bit_length (n div 2) = Suc c" using ih(3) by (cases "bit_length (n div 2)") auto
    have "2 * (n div 2) \<le> n" "n < 2 * (n div 2) + 2" by simp_all
    then have "2 * 2 ^ c \<le> n" "n < 2 * (2 * 2 ^ c)" using ih c by simp_all
    then show ?thesis using b c by simp
  qed
qed

lemma dbl_prod_lower: "n * m < dbl_prod n m + 2 ^ (bit_length (n * m) - 53)"
proof -
  let ?s = "2 ^ (bit_length (n * m) - 53) :: nat"
  have "n * m div ?s * ?s \<le> dbl_prod n m" by (simp add: dbl_prod_def Let_def)
  moreover have "n * m < n * m div ?s * ?s + ?s" 
  proof -
    have "n * m mod ?s < ?s" by simp
    then show ?thesis using div_mult_mod_eq [of "n * m" ?s] by linarith
  qed
  ultimately show ?thesis by linarith
qed

lemma dbl_unit:
  assumes "0 < n * m"
  shows "2 ^ (bit_length (n * m) - 53) = (1 :: nat) \<or> 2 ^ (bit_length (n * m) - 53) * 2 ^ 52 \<le> n * m"
proof (cases "bit_length (n * m) \<le> 53")
  case False
  then have "54 \<le> bit_length (n * m)" by simp
  then obtain d where "bit_length (n * m) = 54 + d" by (metis le_Suc_ex)
  then have "(2 :: nat) ^ (bit_length (n * m) - 53) * 2 ^ 52 = 2 ^ (bit_length (n * m) - 1)"
    by (simp add: power_add)
  then show ?thesis using bit_length_bounds [OF assms] by simp
qed simp

lemma dbl_unit_le:
  assumes "v \<le> k * 2 ^ 52" "0 < k"
  shows "2 ^ (bit_length v - 53) \<le> k"
proof (cases "v = 0")
  case False
  then have "2 ^ (bit_length v - 53) = (1 :: nat) \<or> 2 ^ (bit_length v - 53) * 2 ^ 52 \<le> v" using dbl_unit [of v 1] by simp
  then show ?thesis
  proof
    assume "2 ^ (bit_length v - 53) * 2 ^ 52 \<le> v"
    then have "2 ^ (bit_length v - 53) * 2 ^ 52 \<le> k * 2 ^ 52" using assms(1) by (rule le_trans)
    then show ?thesis unfolding mult_le_cancel2 by simp
  qed (use assms(2) in simp)
qed (use assms(2) in \<open>simp add: bit_length.simps\<close>)

lemma dbl_prod_upper: "dbl_prod n m \<le> n * m + 2 ^ (bit_length (n * m) - 53)"
proof -
  let ?s = "2 ^ (bit_length (n * m) - 53) :: nat"
  have "dbl_prod n m \<le> Suc (n * m div ?s) * ?s" by (simp add: dbl_prod_def Let_def)
  also have "\<dots> \<le> n * m + ?s" using div_times_less_eq_dividend [of "n * m" ?s] by simp
  finally show ?thesis .
qed

lemma bit_length_shift: "0 < m \<Longrightarrow> bit_length (2 ^ i * m) = i + bit_length m"
proof (induction i)
  case (Suc i)
  then show ?case using bit_length.simps [of "2 ^ Suc i * m"] by simp
qed simp

lemma bit_length_le: "m < 2 ^ j \<Longrightarrow> bit_length m \<le> j"
proof (cases "m = 0")
  case False
  assume m: "m < 2 ^ j"
  have "2 ^ (bit_length m - 1) \<le> m" "0 < bit_length m" using bit_length_bounds [of m] False by simp_all
  then have "(2 :: nat) ^ (bit_length m - 1) < 2 ^ j" using m by linarith
  then show ?thesis using \<open>0 < bit_length m\<close> by (simp add: power_strict_increasing_iff)
qed (simp add: bit_length.simps)

text \<open>Scaling a \<open>double\<close> by a power of two is exact.\<close>

lemma dbl_prod_pow2:
  assumes "m < 2 ^ 53"
  shows "dbl_prod (2 ^ i) m = 2 ^ i * m"
proof (cases "m = 0")
  case False
  let ?d = "i + bit_length m - 53"
  have b: "bit_length (2 ^ i * m) - 53 = ?d" using bit_length_shift False by simp
  have "?d \<le> i" using bit_length_le [OF assms] by linarith
  then have "2 ^ ?d dvd (2 :: nat) ^ i * m" by (simp add: le_imp_power_dvd)
  then obtain q where q: "2 ^ i * m = 2 ^ ?d * q" by (elim dvdE)
  have "bit_length (2 ^ ?d * q) - 53 = ?d" using b unfolding q .
  then show ?thesis unfolding dbl_prod_def Let_def q by simp
qed (simp add: dbl_prod_def)

lemma dbl_trunc_one:
  assumes "n < 2 ^ 53"
  shows "dbl_trunc n (2 ^ 52) 52 = n"
proof -
  have "dbl_prod n (2 ^ 52) = dbl_prod (2 ^ 52) n" unfolding dbl_prod_def mult.commute [of n] ..
  also have "\<dots> = 2 ^ 52 * n" by (rule dbl_prod_pow2 [OF assms])
  finally show ?thesis unfolding dbl_trunc_def by (metis nonzero_mult_div_cancel_left power_not_zero zero_neq_numeral)
qed

text \<open>The error of a quotient, in units of its last place.\<close>

lemma dbl_quot_bounds:
  assumes "0 < m"
  shows "dbl_quot n m e \<le> n * 2 ^ (e + 52) div m + 2 ^ (bit_length (n * 2 ^ (e + 52) div m) - 53)"
    "n * 2 ^ (e + 52) div m < dbl_quot n m e + 2 ^ (bit_length (n * 2 ^ (e + 52) div m) - 53)"
proof -
  define p s :: nat where "p = n * 2 ^ (e + 52)" and "s = 2 ^ (bit_length (p div m) - 53)"
  have q: "p div (m * s) = p div m div s" by (simp add: div_mult2_eq)
  have "0 < s" by (simp add: s_def)
  then have "p div m div s * s \<le> p div m" "p div m < p div m div s * s + s"
    using div_mult_mod_eq [of "p div m" s] mod_less_divisor [of s "p div m"] by linarith+
  moreover have "p div m div s * s \<le> dbl_quot n m e" "dbl_quot n m e \<le> Suc (p div m div s) * s"
    unfolding dbl_quot_def Let_def p_def [symmetric] s_def [symmetric] q [symmetric] by simp_all
  ultimately have "dbl_quot n m e \<le> p div m + s" "p div m < dbl_quot n m e + s" unfolding mult_Suc by linarith+
  then show "dbl_quot n m e \<le> n * 2 ^ (e + 52) div m + 2 ^ (bit_length (n * 2 ^ (e + 52) div m) - 53)"
    "n * 2 ^ (e + 52) div m < dbl_quot n m e + 2 ^ (bit_length (n * 2 ^ (e + 52) div m) - 53)" unfolding p_def s_def by simp_all
qed

text \<open>A product with a factor between one and two, converted to an integer, lies between the number and twice it.\<close>

lemma dbl_trunc_bounds:
  assumes "2 ^ 52 + 2 \<le> m" "m < 2 ^ 53" "0 < n" "n < 2 ^ 51"
  shows "n \<le> dbl_trunc n m 52" "dbl_trunc n m 52 \<le> 2 * n"
proof -
  define s :: nat where "s = 2 ^ (bit_length (n * m) - 53)"
  have nm: "n * 2 ^ 52 + 2 * n \<le> n * m" using mult_le_mono2 [OF assms(1), of n] by (simp add: algebra_simps)
  have up: "n * m < 2 * n * 2 ^ 52" using mult_less_mono2 [OF assms(2,3)] by (simp add: algebra_simps)
  have "s = 1 \<or> s * 2 ^ 52 \<le> n * m" unfolding s_def using dbl_unit [of n m] assms by simp
  then have s: "s \<le> 2 * n"
  proof
    assume "s * 2 ^ 52 \<le> n * m"
    then have "s * 2 ^ 52 < 2 * n * 2 ^ 52" using up by (rule le_less_trans)
    then show ?thesis unfolding mult_less_cancel2 by simp
  qed (use assms(3) in simp)
  have "n * m < dbl_prod n m + s" unfolding s_def by (rule dbl_prod_lower)
  then have "n * 2 ^ 52 \<le> dbl_prod n m" using nm s by linarith
  then show "n \<le> dbl_trunc n m 52" unfolding dbl_trunc_def by (simp add: less_eq_div_iff_mult_less_eq)
  have "dbl_prod n m \<le> n * m + s" unfolding s_def by (rule dbl_prod_upper)
  moreover have "2 * n < 2 ^ 52" using assms(4) by simp
  ultimately have "dbl_prod n m < 2 * n * 2 ^ 52 + 2 ^ 52" using up s by linarith
  then have "dbl_prod n m < (2 * n + 1) * 2 ^ 52" by (simp only: add_mult_distrib mult_1)
  then have "dbl_prod n m div 2 ^ 52 < 2 * n + 1" by (rule less_mult_imp_div_less)
  then show "dbl_trunc n m 52 \<le> 2 * n" by (simp add: dbl_trunc_def)
qed

end
