(* ===== verification/Othello_CP.thy ===== *)
theory Othello_CP
  imports Disjoint_Set Ludo_DP Double_Arith
begin

text \<open>
  \<open>ControlPlaneOthello\<close> of \<open>deps/ludo/tables/othello_cp_dp.h\<close> as the Ludo control plane uses it:
  64-bit keys, one-bit values, no digest, data plane and disjoint set maintained, not randomised.

  A key is an edge between two cells of the packed array. \<open>head\<close>, \<open>nextAtA\<close> and \<open>nextAtB\<close> are the
  linked lists of the edges at each cell, \<open>connectivityForest\<close> the disjoint set of connected cells,
  \<open>mem\<close> and \<open>indMem\<close> the two arrays in which the exclusive or of a key's two cells is its value and its
  index. The loops that walk a tree are \<open>dfs\<close> of theory \<open>Forest\<close>; a list that does not end within the
  number of keys is cyclic and the loop over it never ends.

  The seeds that \<open>rand()\<close> yields are an argument. Floating-point products are computed exactly and
  rounded to 53 bits (\<open>dbl_prod\<close>).
\<close>

section \<open>Definitions: state\<close>

type_synonym cp_cell = "u32 \<times> u32"   \<comment> \<open>\<open>OthelloCPCell\<close>: \<open>keyId\<close>, \<open>nodeId\<close>\<close>

record othello_cp =
  cp_ma :: u32
  cp_mb :: u32
  cp_mem :: "u64 list"
  cp_hab :: u64
  cp_keys :: "u64 list"
  cp_values :: "u8 list"
  cp_indMem :: "u32 list"
  cp_head :: "cp_cell list"
  cp_nextAtA :: "cp_cell list"
  cp_nextAtB :: "cp_cell list"
  cp_connectivityForest :: disjoint_set
  cp_nKeysInOthello :: u32
  cp_compact :: bool
  cp_integrity :: bool

record othello_result =
  or_status :: int
  or_xorTemplate :: u64
  or_marks :: "int \<times> int"
  or_cc :: "u32 list"

definition no_result :: othello_result where
  "no_result = \<lparr>or_status = 0, or_xorTemplate = 0, or_marks = (- 1, - 1), or_cc = []\<rparr>"

definition cp_getIndices :: "othello_cp \<Rightarrow> u64 \<Rightarrow> u32 \<times> u32" where
  "cp_getIndices st k = getIndices (cp_hab st) (cp_ma st) (cp_mb st) k"

section \<open>Definitions: lookups\<close>

definition cp_lookUp :: "othello_cp \<Rightarrow> u64 \<Rightarrow> u8 res" where
  "cp_lookUp st k =
    (let (ha, hb) = cp_getIndices st k in
     rbind (memGet 1 (cp_mem st) ha) (\<lambda>aa.
     rbind (memGet 1 (cp_mem st) hb) (\<lambda>bb.
     Inr (ucast (drop_bit 0 (aa XOR bb))))))"

definition lookUpIndex :: "othello_cp \<Rightarrow> u64 \<Rightarrow> u32 res" where
  "lookUpIndex st k =
    (let (ha, hb) = cp_getIndices st k in
     rbind (aget (cp_indMem st) (unat ha)) (\<lambda>aa.
     rbind (aget (cp_indMem st) (unat hb)) (\<lambda>bb. Inr (aa XOR bb))))"

definition cp_isMember :: "othello_cp \<Rightarrow> u64 \<Rightarrow> bool res" where
  "cp_isMember st k =
    rbind (lookUpIndex st k) (\<lambda>index.
    if index < cp_nKeysInOthello st
    then rbind (aget (cp_keys st) (unat index)) (\<lambda>key. Inr (key = k)) else Inr False)"

section \<open>Definitions: the linked lists\<close>

text \<open>\<open>for (cell = head[nid]; cell.keyId != -1; cell = next[cell.keyId])\<close>; the bodies do not write the lists.\<close>

fun chain :: "nat \<Rightarrow> cp_cell list \<Rightarrow> cp_cell \<Rightarrow> cp_cell list res" where
  "chain 0 nxt c = (if fst c = - 1 then Inr [] else Inl Diverges)"
| "chain (Suc n) nxt c =
    (if fst c = - 1 then Inr []
     else rbind (aget nxt (unat (fst c))) (\<lambda>c'. rbind (chain n nxt c') (\<lambda>cs. Inr (c # cs))))"

definition cells_of :: "othello_cp \<Rightarrow> u32 \<Rightarrow> cp_cell list res" where
  "cells_of st nid =
    (let nxt = (if nid < cp_ma st then cp_nextAtA st else cp_nextAtB st) in
     rbind (aget (cp_head st) (unat nid)) (chain (length nxt) nxt))"

abbreviation cp_nodes :: "othello_cp \<Rightarrow> nat" where
  "cp_nodes st \<equiv> unat (cp_ma st) + unat (cp_mb st)"

definition addEdge :: "u32 \<Rightarrow> u32 \<Rightarrow> u32 \<Rightarrow> othello_cp \<Rightarrow> othello_cp res" where
  "addEdge key ha hb st =
    rbind (aget (cp_head st) (unat ha)) (\<lambda>headA.
    rbind (aset (cp_nextAtA st) (unat key) headA) (\<lambda>nextA.
    rbind (aset (cp_head st) (unat ha) (key, hb)) (\<lambda>head1.
    rbind (aget head1 (unat hb)) (\<lambda>headB.
    rbind (aset (cp_nextAtB st) (unat key) headB) (\<lambda>nextB.
    rbind (aset head1 (unat hb) (key, ha)) (\<lambda>head2.
    rbind (merge ha hb (cp_connectivityForest st)) (\<lambda>forest.
    Inr (st\<lparr>cp_head := head2, cp_nextAtA := nextA, cp_nextAtB := nextB, cp_connectivityForest := forest\<rparr>))))))))"

text \<open>\<open>testHash\<close>: adds the keys one by one and stops at the first that closes a cycle.\<close>

fun testHash_from :: "nat \<Rightarrow> nat \<Rightarrow> othello_cp \<Rightarrow> (bool \<times> othello_cp) res" where
  "testHash_from 0 i st = Inr (True, st)"
| "testHash_from (Suc n) i st =
    rbind (aget (cp_keys st) i) (\<lambda>k.
    let (ha, hb) = cp_getIndices st k in
    rbind (sameSet ha hb (cp_connectivityForest st)) (\<lambda>(same, forest).
    let st1 = st\<lparr>cp_connectivityForest := forest\<rparr> in
    if same then Inr (False, st1)
    else rbind (addEdge (of_nat i) ha hb st1) (\<lambda>st2. testHash_from n (Suc i) st2)))"

definition testHash :: "othello_cp \<Rightarrow> (bool \<times> othello_cp) res" where
  "testHash st = testHash_from (unat (cp_nKeysInOthello st)) 0 st"

definition resetBuildState :: "othello_cp \<Rightarrow> othello_cp res" where
  "resetBuildState st =
    rbind (rfold (\<lambda>i mem. memSet 1 mem (of_nat i) 0) [0..<cp_nodes st] (cp_mem st)) (\<lambda>mem.
    Inr (st\<lparr>cp_mem := mem, cp_head := replicate (length (cp_head st)) (- 1, - 1),
            cp_nextAtA := replicate (length (cp_nextAtA st)) (- 1, - 1),
            cp_nextAtB := replicate (length (cp_nextAtB st)) (- 1, - 1),
            cp_connectivityForest := ds_reset (cp_connectivityForest st)\<rparr>))"

section \<open>Definitions: filling and fixing a tree\<close>

text \<open>The three template arguments of the code are the three leading arguments.\<close>

definition cp_fillSingle :: "bool \<Rightarrow> bool \<Rightarrow> bool \<Rightarrow> u32 \<Rightarrow> u32 \<Rightarrow> u32 \<Rightarrow> othello_cp \<Rightarrow> othello_cp res" where
  "cp_fillSingle fillValue fillIndex keepDigest keyId nodeToFill oppositeNode st =
    rbind (if \<not> fillValue then Inr st
      else rbind (aget (cp_values st) (unat keyId)) (\<lambda>v.
        if keepDigest
        then rbind (memValueGet 1 0 (cp_mem st) oppositeNode) (\<lambda>ov.
             rbind (memValueSet 1 0 (cp_mem st) nodeToFill (ucast v XOR ov)) (\<lambda>mem. Inr (st\<lparr>cp_mem := mem\<rparr>)))
        else rbind (memGet 1 (cp_mem st) oppositeNode) (\<lambda>ov.
             rbind (memSet 1 (cp_mem st) nodeToFill (ucast v XOR ov)) (\<lambda>mem. Inr (st\<lparr>cp_mem := mem\<rparr>))))) (\<lambda>st.
    if \<not> fillIndex then Inr st
    else rbind (aget (cp_indMem st) (unat oppositeNode)) (\<lambda>ov.
         rbind (aset (cp_indMem st) (unat nodeToFill) (keyId XOR ov)) (\<lambda>ind. Inr (st\<lparr>cp_indMem := ind\<rparr>))))"

definition cp_fixSingle :: "bool \<Rightarrow> bool \<Rightarrow> bool \<Rightarrow> u32 \<Rightarrow> u64 \<Rightarrow> u32 \<Rightarrow> othello_cp \<Rightarrow> othello_cp res" where
  "cp_fixSingle fillValue fillIndex keepDigest nodeToFix x ix st =
    rbind (if \<not> fillValue then Inr st
      else if keepDigest
        then rbind (memValueGet 1 0 (cp_mem st) nodeToFix) (\<lambda>ov.
             rbind (memValueSet 1 0 (cp_mem st) nodeToFix (x XOR ov)) (\<lambda>mem. Inr (st\<lparr>cp_mem := mem\<rparr>)))
        else rbind (memGet 1 (cp_mem st) nodeToFix) (\<lambda>ov.
             rbind (memSet 1 (cp_mem st) nodeToFix (x XOR ov)) (\<lambda>mem. Inr (st\<lparr>cp_mem := mem\<rparr>)))) (\<lambda>st.
    if \<not> fillIndex then Inr st
    else rbind (aget (cp_indMem st) (unat nodeToFix)) (\<lambda>ov.
         rbind (aset (cp_indMem st) (unat nodeToFix) (ix XOR ov)) (\<lambda>ind. Inr (st\<lparr>cp_indMem := ind\<rparr>))))"

definition fillTreeDFS :: "bool \<Rightarrow> bool \<Rightarrow> bool \<Rightarrow> u32 \<Rightarrow> othello_cp \<Rightarrow> othello_cp res" where
  "fillTreeDFS fillValue fillIndex keepDigest root st =
    dfs (cp_nodes st) (cells_of st) (cp_fillSingle fillValue fillIndex keepDigest) [(- 1, root)] st"

definition cp_fillValue :: "bool \<Rightarrow> othello_cp \<Rightarrow> othello_cp res" where
  "cp_fillValue keepDigest st =
    rfold (\<lambda>i st. rbind (isRoot (of_nat i) (cp_connectivityForest st)) (\<lambda>r.
      if r then fillTreeDFS True True keepDigest (of_nat i) st else Inr st)) [0..<cp_nodes st] st"

definition memOrValueGet :: "bool \<Rightarrow> u64 list \<Rightarrow> u32 \<Rightarrow> u64 res" where
  "memOrValueGet keepDigest mem i = (if keepDigest then memValueGet 1 0 mem i else memGet 1 mem i)"

definition fixHalfTreeDFS :: "bool \<Rightarrow> bool \<Rightarrow> bool \<Rightarrow> u32 \<Rightarrow> u32 \<Rightarrow> u32 \<Rightarrow> othello_cp \<Rightarrow> (u64 \<times> othello_cp) res" where
  "fixHalfTreeDFS fillValue fillIndex keepDigest keyId startNode skippedNode st =
    (if \<not> (startNode < cp_ma st \<and> keyId \<noteq> - 1) then Inl AssertFailed
     else rbind (memGet 1 (cp_mem st) startNode) (\<lambda>startNodeVal. rbind (memGet 1 (cp_mem st) skippedNode) (\<lambda>_.
       rbind (if fillValue then memOrValueGet keepDigest (cp_mem st) startNode else Inr 0) (\<lambda>x0.
       rbind (if fillIndex then aget (cp_indMem st) (unat startNode) else Inr 0) (\<lambda>ix0.
       rbind (cp_fillSingle fillValue fillIndex keepDigest keyId startNode skippedNode st) (\<lambda>st1.
       rbind (if fillValue then memOrValueGet keepDigest (cp_mem st1) startNode else Inr x0) (\<lambda>x1.
       rbind (if fillIndex then aget (cp_indMem st1) (unat startNode) else Inr ix0) (\<lambda>ix1.
       let x = x0 XOR x1; ix = ix0 XOR ix1 in
       rbind (dfs (cp_nodes st1) (cells_of st1)
          (\<lambda>j w v. cp_fixSingle fillValue fillIndex keepDigest w x ix) [(keyId, startNode)] st1) (\<lambda>st2.
       Inr (x, st2))))))))))"

definition getHalfTree :: "u64 \<Rightarrow> bool \<Rightarrow> bool \<Rightarrow> othello_cp \<Rightarrow> u32 list res" where
  "getHalfTree k startFromA prependTheOtherEnd st =
    (let (na, nb) = cp_getIndices st k;
         (start, other) = (if startFromA then (na, nb) else (nb, na))
     in rbind (lookUpIndex st k) (\<lambda>index.
        dfs (cp_nodes st) (cells_of st) (\<lambda>j w v result. Inr (result @ [w])) [(index, start)]
          ((if prependTheOtherEnd then [other] else []) @ [start])))"

section \<open>Definitions: building\<close>

definition tryBuild :: "othello_cp \<Rightarrow> (bool \<times> othello_cp) res" where
  "tryBuild st =
    rbind (resetBuildState st) (\<lambda>st1.
    if cp_nKeysInOthello st1 = 0 then Inr (True, st1)
    else rbind (testHash st1) (\<lambda>(succ, st2).
      if succ then rbind (cp_fillValue False st2) (\<lambda>st3. Inr (True, st3\<lparr>cp_integrity := True\<rparr>))
      else Inr (False, st2)))"

text \<open>
  \<open>hab.setSeed\<close> with two calls of \<open>rand()\<close>: the seeds come from the list \<open>rnd\<close>, one per try, and what is
  left of it is returned. A list that runs out stands for a build that has not ended. \<open>MAX_REHASH\<close> is 5.
\<close>

fun build_tries :: "nat \<Rightarrow> u64 list \<Rightarrow> othello_cp \<Rightarrow> (bool \<times> u64 list \<times> othello_cp) res" where
  "build_tries 0 rnd st = Inr (False, rnd, st)"
| "build_tries (Suc n) [] st = Inl Diverges"
| "build_tries (Suc n) (s # rnd) st =
    rbind (tryBuild (st\<lparr>cp_hab := s\<rparr>)) (\<lambda>(built, st1).
    if built then Inr (True, rnd, st1) else build_tries n rnd st1)"

text \<open>The constants are the doubles nearest to 1.33334, 1.33 and 0.8.\<close>

definition next_ma :: "nat \<Rightarrow> nat" where
  "next_ma mb = dbl_trunc mb 6004829527158177 52"

definition vresize :: "nat \<Rightarrow> 'a \<Rightarrow> 'a list \<Rightarrow> 'a list" where
  "vresize n d xs = take n xs @ replicate (n - length xs) d"

function double_until :: "nat \<Rightarrow> nat \<Rightarrow> nat" where
  "double_until n t = (if n = 0 \<or> t \<le> n then n else double_until (2 * n) t)"
  by auto
termination by (relation "measure (\<lambda>(n, t). t - n)") auto

declare double_until.simps [simp del]

text \<open>\<open>resizeCapacity\<close> up to the call of \<open>build\<close>; with the state comes whether the hash sizes changed.\<close>

definition cp_resize :: "u32 \<Rightarrow> othello_cp \<Rightarrow> (bool \<times> othello_cp) res" where
  "cp_resize target0 st =
    (let target = max (cp_nKeysInOthello st) (max target0 256);
         nextMb = (if cp_compact st then unat target else double_until 256 (unat target));
         nextMa = next_ma nextMb
     in if 2 ^ 32 \<le> nextMa + nextMb then Inl RuntimeError
     else
       let reserve = unat (max 256 (target * (if cp_compact st then 1 else 2)));
           st1 = (if length (cp_keys st) < unat target
             then st\<lparr>cp_keys := vresize reserve 0 (cp_keys st), cp_values := vresize reserve 0 (cp_values st),
                     cp_nextAtA := vresize reserve (0, 0) (cp_nextAtA st), cp_nextAtB := vresize reserve (0, 0) (cp_nextAtB st)\<rparr>
             else st)
       in if unat (cp_ma st) < nextMa \<or> nextMa * 2 ^ 52 < dbl_prod (unat (cp_ma st)) 3602879701896397
          then Inr (True, st1\<lparr>cp_integrity := False, cp_ma := of_nat nextMa, cp_mb := of_nat nextMb,
                 cp_mem := vresize (mem_words 1 (of_nat nextMa) (of_nat nextMb)) 0 (cp_mem st),
                 cp_indMem := vresize (nextMa + nextMb) 0 (cp_indMem st), cp_head := vresize (nextMa + nextMb) (0, 0) (cp_head st),
                 cp_connectivityForest := ds_resize (nextMa + nextMb) (cp_connectivityForest st)\<rparr>)
          else Inr (False, st1))"

text \<open>
  \<open>build\<close>: five tries, then \<open>resizeCapacity(keys.size() * 1.33, true)\<close>, whose own \<open>build\<close> runs first, and the
  loop again. Every round takes a seed, so the number of seeds bounds the rounds. A \<open>double\<close> outside the
  range of \<open>uint32_t\<close> has no defined conversion.
\<close>

fun build_loop :: "nat \<Rightarrow> u64 list \<Rightarrow> othello_cp \<Rightarrow> (u64 list \<times> othello_cp) res" where
  "build_loop 0 rnd st = Inl Diverges"
| "build_loop (Suc fuel) rnd st =
    rbind (build_tries 5 rnd st) (\<lambda>(built, rnd1, st1).
    if built then Inr (rnd1, st1\<lparr>cp_integrity := True\<rparr>)
    else
      let target = dbl_trunc (length (cp_keys st1)) 748723438050345 49 in
      if 2 ^ 32 \<le> target then Inl OutOfBounds
      else rbind (cp_resize (of_nat target) st1) (\<lambda>(changed, st2).
           rbind (build_loop fuel rnd1 st2) (\<lambda>(rnd2, st3). build_loop fuel rnd2 st3)))"

definition cp_build :: "u64 list \<Rightarrow> othello_cp \<Rightarrow> (u64 list \<times> othello_cp) res" where
  "cp_build rnd st = build_loop (Suc (length rnd)) rnd st"

definition cp_resizeCapacity :: "u32 \<Rightarrow> bool \<Rightarrow> bool \<Rightarrow> u64 list \<Rightarrow> othello_cp \<Rightarrow> (u64 list \<times> othello_cp) res" where
  "cp_resizeCapacity target forceBuild skipBuild rnd st =
    rbind (cp_resize target st) (\<lambda>(changed, st1).
    if changed then (if skipBuild then Inr (rnd, st1) else cp_build rnd st1)
    else if forceBuild then cp_build rnd st1 else Inr (rnd, st1))"

definition ControlPlaneOthello :: "u32 \<Rightarrow> bool \<Rightarrow> u64 list \<Rightarrow> u8 list \<Rightarrow> u64 list \<Rightarrow> (u64 list \<times> othello_cp) res" where
  "ControlPlaneOthello keyCapacity compact keys vals rnd =
    (let n = min (of_nat (min (length keys) (length vals))) keyCapacity in
     cp_resizeCapacity (max keyCapacity n) True False rnd
       \<lparr>cp_ma = 0, cp_mb = 0, cp_mem = [], cp_hab = 0, cp_keys = take (unat n) keys, cp_values = take (unat n) vals, cp_indMem = [],
        cp_head = [], cp_nextAtA = replicate (unat n) (0, 0), cp_nextAtB = replicate (unat n) (0, 0), cp_connectivityForest = [],
        cp_nKeysInOthello = n, cp_compact = compact, cp_integrity = True\<rparr>)"

section \<open>Definitions: updates\<close>

definition changeValueAt :: "u32 \<Rightarrow> u8 \<Rightarrow> othello_cp \<Rightarrow> (u64 \<times> othello_cp) res" where
  "changeValueAt keyId val st =
    (if \<not> keyId < cp_nKeysInOthello st then Inl AssertFailed
     else rbind (aset (cp_values st) (unat keyId) val) (\<lambda>vs.
       rbind (aget (cp_keys st) (unat keyId)) (\<lambda>k.
       let (ha, hb) = cp_getIndices st k in
       fixHalfTreeDFS True False True keyId ha hb (st\<lparr>cp_values := vs\<rparr>))))"

definition cp_changeValue :: "u64 \<Rightarrow> u8 \<Rightarrow> othello_cp \<Rightarrow> (othello_result \<times> othello_cp) res" where
  "cp_changeValue k val st =
    rbind (cp_isMember st k) (\<lambda>m. if \<not> m then Inl AssertFailed
    else rbind (lookUpIndex st k) (\<lambda>keyId.
      rbind (changeValueAt keyId val st) (\<lambda>(x, st1).
      if x \<noteq> 0 then rbind (getHalfTree k (0 < sint x) False st1) (\<lambda>cc. Inr (no_result\<lparr>or_xorTemplate := x, or_cc := cc\<rparr>, st1))
      else Inr (no_result\<lparr>or_xorTemplate := x\<rparr>, st1))))"

definition toggleInOthello :: "u64 \<Rightarrow> othello_cp \<Rightarrow> (othello_result \<times> othello_cp) res" where
  "toggleInOthello k st =
    rbind (cp_isMember st k) (\<lambda>m. if \<not> m then Inl AssertFailed
    else rbind (lookUpIndex st k) (\<lambda>keyId.
      rbind (aget (cp_values st) (unat keyId)) (\<lambda>v.
      rbind (aset (cp_values st) (unat keyId) (if v = 0 then 1 else 0)) (\<lambda>vs.
      let (ha, hb) = cp_getIndices st k in
      rbind (fixHalfTreeDFS True False True keyId ha hb (st\<lparr>cp_values := vs\<rparr>)) (\<lambda>(x, st1).
      rbind (getHalfTree k (0 < sint x) False st1) (\<lambda>cc.
      Inr (no_result\<lparr>or_xorTemplate := 1, or_cc := cc\<rparr>, st1)))))))"

definition isConnectedDFS :: "u32 \<Rightarrow> u32 \<Rightarrow> othello_cp \<Rightarrow> (bool \<times> othello_cp) res" where
  "isConnectedDFS ha hb st =
    rbind (sameSet ha hb (cp_connectivityForest st)) (\<lambda>(same, f). Inr (same, st\<lparr>cp_connectivityForest := f\<rparr>))"

text \<open>
  \<open>insert\<close> calls itself after an enlargement. The second call finds room unless \<open>nKeysInOthello * 4\<close> wrapped,
  and then so does every later one.
\<close>

fun insert_rec :: "nat \<Rightarrow> u64 \<Rightarrow> u8 \<Rightarrow> bool \<Rightarrow> u64 list \<Rightarrow> othello_cp \<Rightarrow> (othello_result \<times> u64 list \<times> othello_cp) res" where
  "insert_rec 0 k v noRebuild rnd st = Inl Diverges"
| "insert_rec (Suc fuel) k v noRebuild rnd st =
    rbind (cp_isMember st k) (\<lambda>m.
    if m then rbind (cp_changeValue k v st) (\<lambda>(r, st1). Inr (r, rnd, st1))
    else let n = cp_nKeysInOthello st in
    if length (cp_keys st) \<le> unat n \<or> cp_mb st \<le> n then
      if noRebuild then Inr (no_result\<lparr>or_status := - 2\<rparr>, rnd, st)
      else rbind (cp_resizeCapacity (n * 4) True False rnd st) (\<lambda>(rnd1, st1).
           rbind (insert_rec fuel k v False rnd1 st1) (\<lambda>(r, rnd2, st2).
           if or_status r < 0 then Inl RuntimeError else Inr (r\<lparr>or_status := 2\<rparr>, rnd2, st2)))
    else let (ha, hb) = cp_getIndices st k in
    rbind (isConnectedDFS ha hb st) (\<lambda>(c, st1).
    if c then
      if noRebuild then Inr (no_result\<lparr>or_status := - 1\<rparr>, rnd, st1)
      else rbind (aset (cp_keys st1) (unat n) k) (\<lambda>ks. rbind (aset (cp_values st1) (unat n) v) (\<lambda>vs.
           rbind (cp_build rnd (st1\<lparr>cp_keys := ks, cp_values := vs, cp_nKeysInOthello := n + 1\<rparr>)) (\<lambda>(rnd1, st2).
           Inr (no_result\<lparr>or_status := 1\<rparr>, rnd1, st2))))
    else rbind (aset (cp_keys st1) (unat n) k) (\<lambda>ks. rbind (aset (cp_values st1) (unat n) v) (\<lambda>vs.
      rbind (addEdge n ha hb (st1\<lparr>cp_keys := ks, cp_values := vs\<rparr>)) (\<lambda>st2.
      rbind (fixHalfTreeDFS True True False n ha hb (st2\<lparr>cp_nKeysInOthello := n + 1\<rparr>)) (\<lambda>(x, st3).
      rbind (getHalfTree k (0 < sint x) False st3) (\<lambda>cc.
      Inr (no_result\<lparr>or_xorTemplate := x, or_cc := cc\<rparr>, rnd, st3))))))))"

definition cp_insert :: "u64 \<Rightarrow> u8 \<Rightarrow> bool \<Rightarrow> u64 list \<Rightarrow> othello_cp \<Rightarrow> (othello_result \<times> u64 list \<times> othello_cp) res" where
  "cp_insert = insert_rec 3"

text \<open>
  The linked list of \<open>node\<close>: the cell that holds \<open>keyId\<close>, at the head or behind another key, is overwritten.
\<close>

fun list_walk :: "nat \<Rightarrow> cp_cell list \<Rightarrow> u32 \<Rightarrow> u32 \<Rightarrow> u32 res" where
  "list_walk 0 nxt t keyId = Inl Diverges"
| "list_walk (Suc n) nxt t keyId =
    rbind (aget nxt (unat t)) (\<lambda>c. if fst c \<noteq> keyId then list_walk n nxt (fst c) keyId else Inr t)"

definition relink :: "u32 \<Rightarrow> u32 \<Rightarrow> cp_cell \<Rightarrow> cp_cell list \<times> cp_cell list \<Rightarrow> (cp_cell list \<times> cp_cell list) res" where
  "relink node keyId new = (\<lambda>(hd, nxt).
    rbind (aget hd (unat node)) (\<lambda>c.
    if fst c = keyId then rbind (aset hd (unat node) new) (\<lambda>hd'. Inr (hd', nxt))
    else rbind (list_walk (length nxt) nxt (fst c) keyId) (\<lambda>t.
         rbind (aset nxt (unat t) new) (\<lambda>nxt'. Inr (hd, nxt')))))"

definition unlinkKey :: "u32 \<Rightarrow> u32 \<Rightarrow> u32 \<Rightarrow> othello_cp \<Rightarrow> othello_cp res" where
  "unlinkKey keyId ha hb st =
    rbind (aget (cp_nextAtA st) (unat keyId)) (\<lambda>ca. rbind (relink ha keyId ca (cp_head st, cp_nextAtA st)) (\<lambda>(h1, na).
    rbind (aget (cp_nextAtB st) (unat keyId)) (\<lambda>cb. rbind (relink hb keyId cb (h1, cp_nextAtB st)) (\<lambda>(h2, nb).
    Inr (st\<lparr>cp_head := h2, cp_nextAtA := na, cp_nextAtB := nb\<rparr>)))))"

text \<open>The last key takes the place \<open>keyId\<close>.\<close>

definition moveLastKey :: "u32 \<Rightarrow> u32 \<Rightarrow> othello_cp \<Rightarrow> othello_cp res" where
  "moveLastKey keyId n st =
    rbind (aget (cp_keys st) (unat n)) (\<lambda>lastKey. rbind (aset (cp_keys st) (unat keyId) lastKey) (\<lambda>ks.
    rbind (aget (cp_values st) (unat n)) (\<lambda>lastVal. rbind (aset (cp_values st) (unat keyId) lastVal) (\<lambda>vs.
    let (hal, hbl) = cp_getIndices st lastKey in
    rbind (aget (cp_nextAtA st) (unat n)) (\<lambda>ca. rbind (aset (cp_nextAtA st) (unat keyId) ca) (\<lambda>na1.
    rbind (relink hal n (keyId, hbl) (cp_head st, na1)) (\<lambda>(h1, na2).
    rbind (aget (cp_nextAtB st) (unat n)) (\<lambda>cb. rbind (aset (cp_nextAtB st) (unat keyId) cb) (\<lambda>nb1.
    rbind (relink hbl n (keyId, hal) (h1, nb1)) (\<lambda>(h2, nb2).
    rbind (fixHalfTreeDFS False True True keyId hal hbl
      (st\<lparr>cp_keys := ks, cp_values := vs, cp_head := h2, cp_nextAtA := na2, cp_nextAtB := nb2\<rparr>)) (\<lambda>(x, st1).
    Inr st1)))))))))))"

definition connectDFS :: "u32 \<Rightarrow> othello_cp \<Rightarrow> othello_cp res" where
  "connectDFS root0 st =
    rbind (aget (cp_head st) (unat root0)) (\<lambda>c.
    if fst c = - 1
    then rbind (ds_set root0 root0 (cp_connectivityForest st)) (\<lambda>f. Inr (st\<lparr>cp_connectivityForest := f\<rparr>))
    else let root = (if cp_ma st < root0 then snd c else root0) in
      rbind (ds_set root root (cp_connectivityForest st)) (\<lambda>f.
      rbind (dfs (cp_nodes st) (cells_of st) (\<lambda>j w v f. ds_set w root f) [(- 1, root)] f) (\<lambda>f'.
      Inr (st\<lparr>cp_connectivityForest := f'\<rparr>))))"

definition cp_isEmpty :: "othello_cp \<Rightarrow> u32 \<Rightarrow> bool res" where
  "cp_isEmpty st index = rbind (memGet 1 (cp_mem st) index) (\<lambda>x. Inr (x AND 1 = 0))"

definition cp_remove :: "u64 \<Rightarrow> u32 \<Rightarrow> othello_cp \<Rightarrow> (othello_result \<times> othello_cp) res" where
  "cp_remove k keyId0 st =
    rbind (if keyId0 = - 1 then lookUpIndex st k else Inr keyId0) (\<lambda>keyId.
    rbind (if cp_nKeysInOthello st \<le> keyId then Inr True else rbind (aget (cp_keys st) (unat keyId)) (\<lambda>x. Inr (x \<noteq> k))) (\<lambda>absent.
    if absent then Inr (no_result, st)
    else let (ha, hb) = cp_getIndices st k; n = cp_nKeysInOthello st - 1 in
      rbind (unlinkKey keyId ha hb (st\<lparr>cp_nKeysInOthello := n\<rparr>)) (\<lambda>st1.
      rbind (if keyId \<noteq> n then moveLastKey keyId n st1 else Inr st1) (\<lambda>st2.
      rbind (connectDFS ha st2) (\<lambda>st3. rbind (connectDFS hb st3) (\<lambda>st4.
      rbind (cp_isEmpty st4 ha) (\<lambda>ea. rbind (cp_isEmpty st4 hb) (\<lambda>eb.
      Inr (no_result\<lparr>or_marks := (if ea then sint ha else - 1, if eb then sint hb else - 1)\<rparr>, st4)))))))))"

definition cp_clear :: "othello_cp \<Rightarrow> othello_cp" where
  "cp_clear st = st\<lparr>cp_nKeysInOthello := 0\<rparr>"

text \<open>\<open>compose\<close>: every round removes a key or moves on.\<close>

fun compose_from :: "nat \<Rightarrow> (u8 \<rightharpoonup> u8) \<Rightarrow> nat \<Rightarrow> othello_cp \<Rightarrow> othello_cp res" where
  "compose_from 0 migration i st = (if i < unat (cp_nKeysInOthello st) then Inl Diverges else Inr st)"
| "compose_from (Suc m) migration i st =
    (if \<not> i < unat (cp_nKeysInOthello st) then Inr st
     else rbind (aget (cp_values st) i) (\<lambda>v. rbind (aget (cp_keys st) i) (\<lambda>k.
       case migration v of
         None \<Rightarrow> rbind (cp_remove k (- 1) st) (\<lambda>(r, st1). compose_from m migration i st1)
       | Some dst \<Rightarrow> compose_from m migration (Suc i) (st\<lparr>cp_values := (cp_values st)[i := dst]\<rparr>))))"

definition compose :: "(u8 \<rightharpoonup> u8) \<Rightarrow> othello_cp \<Rightarrow> othello_cp res" where
  "compose migration st =
    rbind (compose_from (unat (cp_nKeysInOthello st)) migration 0 st) (cp_fillValue True)"

text \<open>\<open>fullSync\<close> and the constructor of the data plane; \<open>prepareDP\<close> does nothing when the data plane is maintained.\<close>

definition fullSync :: "othello_cp \<Rightarrow> othello_dp \<Rightarrow> othello_dp" where
  "fullSync cp dp = dp\<lparr>od_ma := cp_ma cp, od_mb := cp_mb cp, od_hab := cp_hab cp, od_mem := cp_mem cp\<rparr>"

definition DataPlaneOthello :: "othello_cp \<Rightarrow> othello_dp" where
  "DataPlaneOthello cp =
    (fullSync cp \<lparr>od_mem = [], od_ma = 0, od_mb = 0, od_hab = 0, od_lock = replicate 8192 0, od_versions = []\<rparr>)
      \<lparr>od_versions := replicate (unat (cp_ma cp + cp_mb cp)) 0\<rparr>"

section \<open>The graph of a state\<close>

definition cp_edge :: "othello_cp \<Rightarrow> u32 \<Rightarrow> u32 \<times> u32" where
  "cp_edge st j = cp_getIndices st (cp_keys st ! unat j)"

definition cp_live :: "othello_cp \<Rightarrow> u32 set" where
  "cp_live st = {j. j < cp_nKeysInOthello st}"

definition cp_nodeset :: "othello_cp \<Rightarrow> u32 set" where
  "cp_nodeset st = {v. unat v < cp_nodes st}"

text \<open>Sizes of the arrays, as \<open>resizeCapacity\<close> sets them.\<close>

definition cp_wf :: "othello_cp \<Rightarrow> bool" where
  "cp_wf st \<longleftrightarrow> cp_ma st \<noteq> 0 \<and> cp_mb st \<noteq> 0 \<and> cp_nodes st < 2 ^ 32 \<and>
     length (cp_mem st) = mem_words 1 (cp_ma st) (cp_mb st) \<and> length (cp_indMem st) = cp_nodes st \<and>
     length (cp_head st) = cp_nodes st \<and> length (cp_connectivityForest st) = cp_nodes st \<and>
     unat (cp_nKeysInOthello st) \<le> length (cp_keys st) \<and> length (cp_keys st) < 2 ^ 32 \<and>
     length (cp_values st) = length (cp_keys st) \<and> length (cp_nextAtA st) = length (cp_keys st) \<and>
     length (cp_nextAtB st) = length (cp_keys st)"

text \<open>A list of cells that runs through the keys \<open>js\<close>, with the other end of each.\<close>

fun linked :: "cp_cell list \<Rightarrow> (u32 \<Rightarrow> u32) \<Rightarrow> cp_cell \<Rightarrow> u32 list \<Rightarrow> bool" where
  "linked nxt oth c [] \<longleftrightarrow> fst c = - 1"
| "linked nxt oth c (j # js) \<longleftrightarrow> c = (j, oth j) \<and> unat j < length nxt \<and> linked nxt oth (nxt ! unat j) js"

text \<open>The list from cell \<open>c\<close> runs through the keys of \<open>K\<close> whose own end is \<open>v\<close>, each once.\<close>

definition listed :: "cp_cell list \<Rightarrow> (u32 \<Rightarrow> u32) \<Rightarrow> (u32 \<Rightarrow> u32) \<Rightarrow> u32 set \<Rightarrow> u32 \<Rightarrow> cp_cell \<Rightarrow> bool" where
  "listed nxt own oth K v c \<longleftrightarrow> (\<exists>js. distinct js \<and> set js = {j \<in> K. own j = v} \<and> linked nxt oth c js)"

abbreviation endA :: "othello_cp \<Rightarrow> u32 \<Rightarrow> u32" where "endA st j \<equiv> fst (cp_edge st j)"
abbreviation endB :: "othello_cp \<Rightarrow> u32 \<Rightarrow> u32" where "endB st j \<equiv> snd (cp_edge st j)"

definition cp_linked :: "othello_cp \<Rightarrow> u32 set \<Rightarrow> bool" where
  "cp_linked st K \<longleftrightarrow>
     (\<forall>v. unat v < cp_nodes st \<longrightarrow>
       (if v < cp_ma st then listed (cp_nextAtA st) (endA st) (endB st) K v (cp_head st ! unat v)
        else listed (cp_nextAtB st) (endB st) (endA st) K v (cp_head st ! unat v)))"

definition cp_forest :: "othello_cp \<Rightarrow> u32 set \<Rightarrow> bool" where
  "cp_forest st K \<longleftrightarrow> bridges (cp_edge st) K \<and>
     (\<exists>root h. ds_wf root h (cp_connectivityForest st) \<and> roots_conn (cp_nodes st) root (cp_edge st) K \<and>
        (\<forall>j\<in>K. touched (cp_connectivityForest st) (root (fst (cp_edge st j)))))"

text \<open>The graph part of the invariant, for the first \<open>n\<close> keys.\<close>

definition cp_graph :: "othello_cp \<Rightarrow> nat \<Rightarrow> bool" where
  "cp_graph st n \<longleftrightarrow> cp_wf st \<and> n \<le> length (cp_keys st) \<and> cp_linked st {j. unat j < n} \<and> cp_forest st {j. unat j < n}"

text \<open>What of it the walks need: the lists, and no cycle.\<close>

definition cp_tree :: "othello_cp \<Rightarrow> nat \<Rightarrow> bool" where
  "cp_tree st n \<longleftrightarrow> cp_wf st \<and> n \<le> length (cp_keys st) \<and> cp_linked st {j. unat j < n} \<and> bridges (cp_edge st) {j. unat j < n}"

lemma cp_graph_tree: "cp_graph st n \<Longrightarrow> cp_tree st n"
  by (simp add: cp_graph_def cp_tree_def cp_forest_def)

lemma cp_edge_ends:
  assumes "cp_wf st"
  shows "unat (fst (cp_edge st j)) < unat (cp_ma st)" "unat (cp_ma st) \<le> unat (snd (cp_edge st j))"
    "unat (snd (cp_edge st j)) < cp_nodes st"
  using assms getIndices_lt [of "cp_ma st" "cp_mb st" "cp_hab st" "cp_keys st ! unat j"]
  by (cases "cp_edge st j"; force simp: cp_wf_def cp_edge_def cp_getIndices_def)+

section \<open>The lists are the edges\<close>

lemma linked_chain:
  assumes "linked nxt oth c js" "length js \<le> n" "length nxt < 2 ^ 32"
  shows "chain n nxt c = Inr (map (\<lambda>j. (j, oth j)) js)"
  using assms
proof (induction js arbitrary: c n)
  case (Cons j js)
  then obtain m where n: "n = Suc m" by (cases n) auto
  have "j \<noteq> - 1" using Cons.prems by (intro not_minus_one [of nxt]) auto
  then show ?case using Cons n by simp
next
  case Nil
  then show ?case by (cases n) simp_all
qed

lemma linked_length:
  assumes "linked nxt oth c js" "distinct js"
  shows "length js \<le> length nxt"
proof -
  have "\<forall>j\<in>set js. unat j < length nxt" using assms(1) by (induction nxt oth c js rule: linked.induct) auto
  then have "unat ` set js \<subseteq> {..<length nxt}" by auto
  then have "card (unat ` set js) \<le> length nxt" by (metis card_lessThan card_mono finite_lessThan)
  moreover have "card (unat ` set js) = length js"
    using assms(2) by (simp add: card_image inj_on_def distinct_card word_unat_eq_iff)
  ultimately show ?thesis by simp
qed

lemma linked_update:
  "linked nxt oth c js \<Longrightarrow> k \<notin> set js \<Longrightarrow> linked (nxt[unat k := x]) oth c js"
  by (induction nxt oth c js rule: linked.induct) (auto simp: nth_list_update simp flip: word_unat_eq_iff)

lemma linked_cong:
  "(\<And>j. j \<in> set js \<Longrightarrow> oth j = oth' j) \<Longrightarrow> linked nxt oth c js \<longleftrightarrow> linked nxt oth' c js"
  by (induction nxt oth c js rule: linked.induct) auto

lemma listed_cong:
  assumes "\<And>j. j \<in> K \<Longrightarrow> own j = own' j \<and> oth j = oth' j"
  shows "listed nxt own oth K v c \<longleftrightarrow> listed nxt own' oth' K v c"
proof -
  have "{j \<in> K. own j = v} = {j \<in> K. own' j = v}" using assms by auto
  moreover have "linked nxt oth c js \<longleftrightarrow> linked nxt oth' c js" if "set js = {j \<in> K. own' j = v}" for js
    using assms that by (intro linked_cong) auto
  ultimately show ?thesis unfolding listed_def by metis
qed

lemma listed_cells:
  assumes "listed nxt own oth K v c" "length nxt < 2 ^ 32"
  shows "\<exists>cs. chain (length nxt) nxt c = Inr cs \<and> distinct cs \<and> set cs = {(j, w). j \<in> K \<and> own j = v \<and> oth j = w}"
proof -
  obtain js where js: "distinct js" "set js = {j \<in> K. own j = v}" "linked nxt oth c js" using assms(1) by (auto simp: listed_def)
  have "chain (length nxt) nxt c = Inr (map (\<lambda>j. (j, oth j)) js)"
    by (rule linked_chain [OF js(3) linked_length [OF js(3,1)] assms(2)])
  moreover have "distinct (map (\<lambda>j. (j, oth j)) js)" using js(1) by (simp add: distinct_map inj_on_def)
  ultimately show ?thesis using js(2) by auto
qed

lemma listed_add:
  assumes "listed nxt own oth K v c" "key \<notin> K" "unat key < length nxt"
  shows "own key = v \<Longrightarrow> listed (nxt[unat key := c]) own oth (insert key K) v (key, oth key)"
    and "own key \<noteq> v \<Longrightarrow> listed (nxt[unat key := x]) own oth (insert key K) v c"
proof -
  obtain js where js: "distinct js" "set js = {j \<in> K. own j = v}" "linked nxt oth c js" using assms(1) by (auto simp: listed_def)
  have new: "key \<notin> set js" using js(2) assms(2) by simp
  note l = linked_update [OF js(3) new]
  show "listed (nxt[unat key := c]) own oth (insert key K) v (key, oth key)" if "own key = v"
    unfolding listed_def using js new l assms(3) that by (intro exI [of _ "key # js"]) auto
  show "listed (nxt[unat key := x]) own oth (insert key K) v c" if "own key \<noteq> v"
    unfolding listed_def using js l that by (intro exI [of _ js]) auto
qed

lemma cp_live_nodes: "cp_wf st \<Longrightarrow> joins (cp_edge st) j u v \<Longrightarrow> u \<in> cp_nodeset st"
  using cp_edge_ends [of st j] by (auto simp: joins_def cp_nodeset_def)

lemma joins_side:
  assumes "cp_wf st"
  shows "v < cp_ma st \<Longrightarrow> joins (cp_edge st) j v w \<longleftrightarrow> endA st j = v \<and> endB st j = w"
    and "\<not> v < cp_ma st \<Longrightarrow> joins (cp_edge st) j v w \<longleftrightarrow> endB st j = v \<and> endA st j = w"
  using cp_edge_ends [OF assms, of j] by (auto simp: joins_def prod_eq_iff word_less_nat_alt)

lemma cells_of_linked:
  assumes "cp_wf st" "cp_linked st K" "unat v < cp_nodes st"
  shows "\<exists>cs. cells_of st v = Inr cs \<and> distinct cs \<and> set cs = {(j, w). j \<in> K \<and> joins (cp_edge st) j v w}"
proof -
  have hd: "aget (cp_head st) (unat v) = Inr (cp_head st ! unat v)"
    and nx: "length (cp_nextAtA st) < 2 ^ 32" "length (cp_nextAtB st) < 2 ^ 32"
    using assms(1,3) by (simp_all add: cp_wf_def)
  show ?thesis
  proof (cases "v < cp_ma st")
    case True
    then have "listed (cp_nextAtA st) (endA st) (endB st) K v (cp_head st ! unat v)" using assms(2,3) by (simp add: cp_linked_def)
    from listed_cells [OF this nx(1)] show ?thesis using True hd by (simp add: cells_of_def Let_def joins_side(1) [OF assms(1)])
  next
    case False
    then have "listed (cp_nextAtB st) (endB st) (endA st) K v (cp_head st ! unat v)" using assms(2,3) by (simp add: cp_linked_def)
    from listed_cells [OF this nx(2)] show ?thesis using False hd by (simp add: cells_of_def Let_def joins_side(2) [OF assms(1)])
  qed
qed

text \<open>The states in which the first keys form a linked forest are clients of the walk.\<close>

interpretation cp: linked_forest
  "\<lambda>(st, n). cp_tree st n" "\<lambda>(st, n). cp_nodeset st" "\<lambda>(st, n). {j. unat j < n}" "\<lambda>(st, n). cp_edge st" "\<lambda>(st, n). cells_of st"
proof (unfold_locales, goal_cases)
  case (1 s)
  then show ?case by (cases s) (simp add: cp_nodeset_def)
next
  case (2 s j u v)
  then show ?case using cp_live_nodes by (cases s) (auto simp: cp_tree_def)
next
  case (3 s)
  then show ?case by (cases s) (auto simp: cp_tree_def)
next
  case (4 s v)
  obtain st n where s: "s = (st, n)" by (cases s)
  then have "cp_wf st" "cp_linked st {j. unat j < n}" "unat v < cp_nodes st"
    using 4 by (simp_all add: cp_tree_def cp_nodeset_def)
  from cells_of_linked [OF this] show ?case by (simp add: s)
qed

section \<open>Adding edges\<close>

lemma cp_edge_upd [simp]:
  "cp_edge (st\<lparr>cp_head := h\<rparr>) = cp_edge st" "cp_edge (st\<lparr>cp_nextAtA := a\<rparr>) = cp_edge st"
  "cp_edge (st\<lparr>cp_nextAtB := b\<rparr>) = cp_edge st" "cp_edge (st\<lparr>cp_connectivityForest := f\<rparr>) = cp_edge st"
  "cp_edge (st\<lparr>cp_mem := m\<rparr>) = cp_edge st" "cp_edge (st\<lparr>cp_indMem := i\<rparr>) = cp_edge st"
  "cp_edge (st\<lparr>cp_values := v\<rparr>) = cp_edge st" "cp_edge (st\<lparr>cp_nKeysInOthello := n\<rparr>) = cp_edge st"
  "cp_edge (st\<lparr>cp_integrity := g\<rparr>) = cp_edge st"
  by (simp_all add: cp_edge_def cp_getIndices_def fun_eq_iff)

lemma cp_getIndices_upd [simp]:
  "cp_getIndices (st\<lparr>cp_head := h\<rparr>) = cp_getIndices st" "cp_getIndices (st\<lparr>cp_nextAtA := a\<rparr>) = cp_getIndices st"
  "cp_getIndices (st\<lparr>cp_nextAtB := b\<rparr>) = cp_getIndices st" "cp_getIndices (st\<lparr>cp_connectivityForest := f\<rparr>) = cp_getIndices st"
  "cp_getIndices (st\<lparr>cp_mem := m\<rparr>) = cp_getIndices st" "cp_getIndices (st\<lparr>cp_indMem := i\<rparr>) = cp_getIndices st"
  "cp_getIndices (st\<lparr>cp_values := v\<rparr>) = cp_getIndices st" "cp_getIndices (st\<lparr>cp_nKeysInOthello := n\<rparr>) = cp_getIndices st"
  "cp_getIndices (st\<lparr>cp_keys := k\<rparr>) = cp_getIndices st" "cp_getIndices (st\<lparr>cp_integrity := g\<rparr>) = cp_getIndices st"
  by (simp_all add: cp_getIndices_def fun_eq_iff)

lemma keys_below_Suc: "n < 2 ^ 32 \<Longrightarrow> {j :: u32. unat j < Suc n} = insert (of_nat n) {j. unat j < n}"
  by (auto simp: less_Suc_eq word_unat_eq_iff unsigned_of_nat take_bit_nat_eq_self)

lemma unat_of_nat_u32: "n < 2 ^ 32 \<Longrightarrow> unat (of_nat n :: u32) = n"
  by (simp add: unsigned_of_nat take_bit_nat_eq_self)

lemma cp_graph_parts_upd [simp]:
  "cp_linked (st\<lparr>cp_connectivityForest := f\<rparr>) K = cp_linked st K" "cp_linked (st\<lparr>cp_mem := m\<rparr>) K = cp_linked st K"
  "cp_linked (st\<lparr>cp_indMem := i\<rparr>) K = cp_linked st K" "cp_linked (st\<lparr>cp_values := v\<rparr>) K = cp_linked st K"
  "cp_linked (st\<lparr>cp_nKeysInOthello := n\<rparr>) K = cp_linked st K" "cp_linked (st\<lparr>cp_integrity := g\<rparr>) K = cp_linked st K"
  "cp_forest (st\<lparr>cp_mem := m\<rparr>) K = cp_forest st K" "cp_forest (st\<lparr>cp_indMem := i\<rparr>) K = cp_forest st K"
  "cp_forest (st\<lparr>cp_values := v\<rparr>) K = cp_forest st K" "cp_forest (st\<lparr>cp_nKeysInOthello := n\<rparr>) K = cp_forest st K"
  "cp_forest (st\<lparr>cp_integrity := g\<rparr>) K = cp_forest st K"
  "cells_of (st\<lparr>cp_connectivityForest := f\<rparr>) = cells_of st" "cells_of (st\<lparr>cp_mem := m\<rparr>) = cells_of st"
  "cells_of (st\<lparr>cp_indMem := i\<rparr>) = cells_of st" "cells_of (st\<lparr>cp_values := v\<rparr>) = cells_of st"
  by (simp_all add: cp_linked_def cp_forest_def cells_of_def fun_eq_iff)

text \<open>The lists after \<open>addEdge\<close>.\<close>

lemma cp_linked_add:
  assumes "cp_wf st" "cp_linked st K" "key \<notin> K" "unat key < length (cp_keys st)" "cp_edge st key = (ha, hb)"
  defines "head' \<equiv> (cp_head st)[unat ha := (key, hb), unat hb := (key, ha)]"
  shows "cp_linked (st\<lparr>cp_head := head', cp_nextAtA := (cp_nextAtA st)[unat key := cp_head st ! unat ha],
    cp_nextAtB := (cp_nextAtB st)[unat key := cp_head st ! unat hb], cp_connectivityForest := f\<rparr>) (insert key K)"
  unfolding cp_linked_def
proof (simp, intro allI impI conjI)
  have ends: "unat ha < unat (cp_ma st)" "unat (cp_ma st) \<le> unat hb" "unat hb < cp_nodes st"
    using cp_edge_ends [OF assms(1), of key] assms(5) by simp_all
  have len: "length (cp_head st) = cp_nodes st" "unat key < length (cp_nextAtA st)" "unat key < length (cp_nextAtB st)"
    using assms(1,4) by (simp_all add: cp_wf_def)
  fix v :: u32
  assume v: "unat v < cp_nodes st"
  show "listed ((cp_nextAtA st)[unat key := cp_head st ! unat ha]) (endA st) (endB st) (insert key K) v (head' ! unat v)" if A: "v < cp_ma st"
  proof -
    have "head' ! unat v = (if v = ha then (key, hb) else cp_head st ! unat v)"
      using ends len A by (auto simp: head'_def nth_list_update word_less_nat_alt simp flip: word_unat_eq_iff)
    moreover have "listed (cp_nextAtA st) (endA st) (endB st) K v (cp_head st ! unat v)" using assms(2) v A by (simp add: cp_linked_def)
    from listed_add [OF this assms(3) len(2)] have
      "v = ha \<Longrightarrow> listed ((cp_nextAtA st)[unat key := cp_head st ! unat v]) (endA st) (endB st) (insert key K) v (key, endB st key)"
      "v \<noteq> ha \<Longrightarrow> listed ((cp_nextAtA st)[unat key := cp_head st ! unat ha]) (endA st) (endB st) (insert key K) v (cp_head st ! unat v)"
      using assms(5) by simp_all
    ultimately show ?thesis using assms(5) by (cases "v = ha") simp_all
  qed
  show "listed ((cp_nextAtB st)[unat key := cp_head st ! unat hb]) (endB st) (endA st) (insert key K) v (head' ! unat v)" if B: "\<not> v < cp_ma st"
  proof -
    have "head' ! unat v = (if v = hb then (key, ha) else cp_head st ! unat v)"
      using ends len B by (auto simp: head'_def nth_list_update word_less_nat_alt simp flip: word_unat_eq_iff)
    moreover have "listed (cp_nextAtB st) (endB st) (endA st) K v (cp_head st ! unat v)" using assms(2) v B by (simp add: cp_linked_def)
    from listed_add [OF this assms(3) len(3)] have
      "v = hb \<Longrightarrow> listed ((cp_nextAtB st)[unat key := cp_head st ! unat v]) (endB st) (endA st) (insert key K) v (key, endA st key)"
      "v \<noteq> hb \<Longrightarrow> listed ((cp_nextAtB st)[unat key := cp_head st ! unat hb]) (endB st) (endA st) (insert key K) v (cp_head st ! unat v)"
      using assms(5) by simp_all
    ultimately show ?thesis using assms(5) by (cases "v = hb") simp_all
  qed
qed

lemma addEdge_graph:
  assumes "cp_graph st n" "n < length (cp_keys st)" "cp_edge st (of_nat n) = (ha, hb)"
    and "\<not> conn (cp_edge st) {j. unat j < n} ha hb"
  obtains h a b f where "addEdge (of_nat n) ha hb st = Inr (st\<lparr>cp_head := h, cp_nextAtA := a, cp_nextAtB := b, cp_connectivityForest := f\<rparr>)"
    "cp_graph (st\<lparr>cp_head := h, cp_nextAtA := a, cp_nextAtB := b, cp_connectivityForest := f\<rparr>) (Suc n)"
proof -
  let ?key = "of_nat n :: u32" and ?K = "{j :: u32. unat j < n}"
  have wf: "cp_wf st" and li: "cp_linked st ?K" and fo: "cp_forest st ?K" using assms(1) by (simp_all add: cp_graph_def)
  have n32: "n < 2 ^ 32" using assms(2) wf by (simp add: cp_wf_def)
  have key: "unat ?key = n" by (rule unat_of_nat_u32 [OF n32])
  have ends: "unat ha < unat (cp_ma st)" "unat (cp_ma st) \<le> unat hb" "unat hb < cp_nodes st"
    using cp_edge_ends [OF wf, of ?key] assms(3) by simp_all
  have ne: "unat hb \<noteq> unat ha" using ends by simp
  have len: "length (cp_head st) = cp_nodes st" "n < length (cp_nextAtA st)" "n < length (cp_nextAtB st)"
    "length (cp_connectivityForest st) = cp_nodes st"
    using wf assms(2) by (simp_all add: cp_wf_def)
  obtain root h where r: "ds_wf root h (cp_connectivityForest st)" "roots_conn (cp_nodes st) root (cp_edge st) ?K"
    "\<And>j. j \<in> ?K \<Longrightarrow> touched (cp_connectivityForest st) (root (fst (cp_edge st j)))"
    using fo by (auto simp: cp_forest_def)
  have in_range: "unat ha < length (cp_connectivityForest st)" "unat hb < length (cp_connectivityForest st)"
    using ends len(4) by auto
  obtain f where f: "merge ha hb (cp_connectivityForest st) = Inr f" "ds_wf (merged_root root ha hb) (merged_height root h ha hb) f"
    "length f = cp_nodes st" "touched f (root ha)" "\<And>j. touched (cp_connectivityForest st) j \<Longrightarrow> touched f j"
    using merge_ok [OF r(1) in_range] len(4) by metis
  let ?h = "(cp_head st)[unat ha := (?key, hb), unat hb := (?key, ha)]"
  let ?a = "(cp_nextAtA st)[n := cp_head st ! unat ha]" and ?b = "(cp_nextAtB st)[n := cp_head st ! unat hb]"
  let ?st = "st\<lparr>cp_head := ?h, cp_nextAtA := ?a, cp_nextAtB := ?b, cp_connectivityForest := f\<rparr>"
  have add: "addEdge ?key ha hb st = Inr ?st"
    using ends len ne f(1) key by (simp add: addEdge_def)
  have K: "{j :: u32. unat j < Suc n} = insert ?key ?K" by (rule keys_below_Suc [OF n32])
  have nK: "?key \<notin> ?K" using key by simp
  have "cp_linked ?st (insert ?key ?K)"
    using cp_linked_add [OF wf li nK _ assms(3), of f] assms(2) key by simp
  moreover have "cp_forest ?st (insert ?key ?K)"
    unfolding cp_forest_def cp_edge_upd
  proof (intro conjI exI)
    have j: "joins (cp_edge st) ?key ha hb" using assms(3) by (simp add: joins_def)
    show "bridges (cp_edge st) (insert ?key ?K)"
      using fo nK j assms(4) by (intro bridges_insert) (simp_all add: cp_forest_def)
    show "ds_wf (merged_root root ha hb) (merged_height root h ha hb) (cp_connectivityForest ?st)" using f(2) by simp
    show "roots_conn (cp_nodes ?st) (merged_root root ha hb) (cp_edge st) (insert ?key ?K)"
      using roots_conn_merge [OF r(2) j] ends by simp
    show "\<forall>j\<in>insert ?key ?K. touched (cp_connectivityForest ?st) (merged_root root ha hb (fst (cp_edge st j)))"
      using r(3) f(4,5) assms(3) by (auto simp: merged_root_def)
  qed
  moreover have "cp_wf ?st" using wf f(3) by (simp add: cp_wf_def)
  ultimately have "cp_graph ?st (Suc n)" using assms(2) K by (simp add: cp_graph_def)
  then show thesis using that add by blast
qed

section \<open>Testing a seed\<close>

text \<open>Only the lists and the disjoint set change while edges are added.\<close>

definition graph_change :: "othello_cp \<Rightarrow> othello_cp \<Rightarrow> bool" where
  "graph_change st st' \<longleftrightarrow>
     (\<exists>h a b f. st' = st\<lparr>cp_head := h, cp_nextAtA := a, cp_nextAtB := b, cp_connectivityForest := f\<rparr>)"

lemma graph_change_trans: "graph_change st st1 \<Longrightarrow> graph_change st1 st2 \<Longrightarrow> graph_change st st2"
  unfolding graph_change_def by (elim exE, simp) blast

lemma graph_change_forest: "graph_change st (st\<lparr>cp_connectivityForest := f\<rparr>)"
  unfolding graph_change_def by (intro exI [of _ "cp_head st"] exI [of _ "cp_nextAtA st"] exI [of _ "cp_nextAtB st"] exI [of _ f]) simp

lemma graph_change_edge: "graph_change st st' \<Longrightarrow> cp_edge st' = cp_edge st \<and> cp_keys st' = cp_keys st"
  by (auto simp: graph_change_def)

lemma cp_graph_forest:
  assumes "cp_graph st n" "unat a < cp_nodes st" "unat b < cp_nodes st"
  obtains f where "sameSet a b (cp_connectivityForest st) = Inr (conn (cp_edge st) {j. unat j < n} a b, f)"
    "cp_graph (st\<lparr>cp_connectivityForest := f\<rparr>) n"
proof -
  let ?K = "{j :: u32. unat j < n}"
  have wf: "cp_wf st" and len: "length (cp_connectivityForest st) = cp_nodes st"
    using assms(1) by (simp_all add: cp_graph_def cp_wf_def)
  obtain root h where r: "ds_wf root h (cp_connectivityForest st)" "roots_conn (cp_nodes st) root (cp_edge st) ?K"
    "\<And>j. j \<in> ?K \<Longrightarrow> touched (cp_connectivityForest st) (root (fst (cp_edge st j)))" and br: "bridges (cp_edge st) ?K"
    using assms(1) by (auto simp: cp_graph_def cp_forest_def)
  obtain f where f: "sameSet a b (cp_connectivityForest st) = Inr (root a = root b, f)" "ds_wf root h f"
    "length f = cp_nodes st" "\<And>j. touched (cp_connectivityForest st) j \<Longrightarrow> touched f j"
    using sameSet_ok [OF r(1), of a b] assms(2,3) len by metis
  have "cp_forest (st\<lparr>cp_connectivityForest := f\<rparr>) ?K"
    using f(2,4) r(2,3) br unfolding cp_forest_def by auto
  moreover have "cp_linked (st\<lparr>cp_connectivityForest := f\<rparr>) ?K" using assms(1) by (simp add: cp_graph_def)
  moreover have "cp_wf (st\<lparr>cp_connectivityForest := f\<rparr>)" using wf f(3) by (simp add: cp_wf_def)
  ultimately have "cp_graph (st\<lparr>cp_connectivityForest := f\<rparr>) n" using assms(1) by (simp add: cp_graph_def)
  moreover have "(root a = root b) = conn (cp_edge st) ?K a b" using r(2) assms(2,3) by (auto simp: roots_conn_def)
  ultimately show thesis using that f(1) by auto
qed

lemma testHash_from_ok:
  assumes "cp_graph st i" "i + m \<le> length (cp_keys st)"
  shows "\<exists>b st'. testHash_from m i st = Inr (b, st') \<and> graph_change st st' \<and> cp_wf st' \<and>
    (b \<longleftrightarrow> bridges (cp_edge st) {j. unat j < i + m}) \<and> (b \<longrightarrow> cp_graph st' (i + m))"
  using assms
proof (induction m arbitrary: i st)
  case 0
  then show ?case using graph_change_forest [of st "cp_connectivityForest st"]
    by (auto simp: cp_graph_def cp_forest_def)
next
  case (Suc m)
  let ?key = "of_nat i :: u32" and ?K = "{j :: u32. unat j < i}"
  have wf: "cp_wf st" using Suc.prems(1) by (simp add: cp_graph_def)
  have i: "i < length (cp_keys st)" "i < 2 ^ 32" using Suc.prems(2) wf by (simp_all add: cp_wf_def)
  have key: "unat ?key = i" by (rule unat_of_nat_u32 [OF i(2)])
  obtain ha hb where e: "cp_edge st ?key = (ha, hb)" by (cases "cp_edge st ?key")
  then have gi: "cp_getIndices st (cp_keys st ! i) = (ha, hb)" by (simp add: cp_edge_def key)
  have ends: "unat ha < cp_nodes st" "unat hb < cp_nodes st" using cp_edge_ends [OF wf, of ?key] e by simp_all
  obtain f where f: "sameSet ha hb (cp_connectivityForest st) = Inr (conn (cp_edge st) ?K ha hb, f)"
    "cp_graph (st\<lparr>cp_connectivityForest := f\<rparr>) i" by (rule cp_graph_forest [OF Suc.prems(1) ends])
  let ?st = "st\<lparr>cp_connectivityForest := f\<rparr>"
  have gc: "graph_change st ?st" by (rule graph_change_forest)
  have j: "joins (cp_edge st) ?key ha hb" using e by (simp add: joins_def)
  show ?case
  proof (cases "conn (cp_edge st) ?K ha hb")
    case True
    have "insert ?key ?K \<subseteq> {j. unat j < i + Suc m}" using key by auto
    moreover have "\<not> bridges (cp_edge st) (insert ?key ?K)" using True bridges_insertD [OF _ _ j] key by auto
    ultimately have "\<not> bridges (cp_edge st) {j. unat j < i + Suc m}" using bridges_mono by blast
    then show ?thesis using True f i(1) gi gc by (auto simp: Let_def cp_graph_def)
  next
    case False
    then have p: "i < length (cp_keys ?st)" "cp_edge ?st ?key = (ha, hb)" "\<not> conn (cp_edge ?st) ?K ha hb" using i(1) e by simp_all
    obtain h a b f' where add: "addEdge ?key ha hb ?st = Inr (?st\<lparr>cp_head := h, cp_nextAtA := a, cp_nextAtB := b, cp_connectivityForest := f'\<rparr>)"
      "cp_graph (?st\<lparr>cp_head := h, cp_nextAtA := a, cp_nextAtB := b, cp_connectivityForest := f'\<rparr>) (Suc i)"
      by (rule addEdge_graph [OF f(2) p])
    let ?st2 = "?st\<lparr>cp_head := h, cp_nextAtA := a, cp_nextAtB := b, cp_connectivityForest := f'\<rparr>"
    have gc2: "graph_change st ?st2" by (auto simp: graph_change_def)
    from Suc.IH [OF add(2)] Suc.prems(2) obtain bb st' where r: "testHash_from m (Suc i) ?st2 = Inr (bb, st')" "graph_change ?st2 st'"
      "cp_wf st'" "bb \<longleftrightarrow> bridges (cp_edge st) {j. unat j < i + Suc m}" "bb \<longrightarrow> cp_graph st' (i + Suc m)" by auto
    have "testHash_from (Suc m) i st = Inr (bb, st')"
      using f(1) False i(1) gi add(1) r(1) by (simp add: Let_def)
    then show ?thesis using r graph_change_trans [OF gc2 r(2)] by blast
  qed
qed

end
