(* ===== verification/Othello_Build.thy ===== *)
theory Othello_Build
  imports Othello_CP
begin

text \<open>
  Building an Othello: the walk over each tree fills the packed array and the index array, so that a
  successful \<open>tryBuild\<close> makes every key look up its own value and its own index.
\<close>

section \<open>Filling the arrays\<close>

abbreviation cpV :: "othello_cp \<Rightarrow> u32 \<Rightarrow> u64" where
  "cpV st x \<equiv> elem 1 (cp_mem st) x"

abbreviation cpI :: "othello_cp \<Rightarrow> u32 \<Rightarrow> u32" where
  "cpI st x \<equiv> cp_indMem st ! unat x"

definition cp_val :: "othello_cp \<Rightarrow> u32 \<Rightarrow> u64" where
  "cp_val st j = take_bit 1 (ucast (cp_values st ! unat j))"

text \<open>Only the two arrays change, and on the nodes they become \<open>f\<close> and \<open>g\<close>.\<close>

definition fills :: "othello_cp \<Rightarrow> othello_cp \<Rightarrow> (u32 \<Rightarrow> u64) \<Rightarrow> (u32 \<Rightarrow> u32) \<Rightarrow> bool" where
  "fills st st' f g \<longleftrightarrow>
     (\<exists>m i. st' = st\<lparr>cp_mem := m, cp_indMem := i\<rparr> \<and> length m = length (cp_mem st) \<and> length i = length (cp_indMem st)) \<and>
     (\<forall>x\<in>cp_nodeset st. cpV st' x = f x \<and> cpI st' x = g x)"

lemma fills_refl: "fills st st (cpV st) (cpI st)"
  unfolding fills_def by (intro conjI exI [of _ "cp_mem st"] exI [of _ "cp_indMem st"]) simp_all

lemma fills_trans:
  assumes "fills st st1 f g" "fills st1 st2 f' g'"
  shows "fills st st2 f' g'"
proof -
  obtain m i where s1: "st1 = st\<lparr>cp_mem := m, cp_indMem := i\<rparr>" "length m = length (cp_mem st)" "length i = length (cp_indMem st)"
    using assms(1) unfolding fills_def by blast
  obtain m' i' where s2: "st2 = st1\<lparr>cp_mem := m', cp_indMem := i'\<rparr>" "length m' = length (cp_mem st1)" "length i' = length (cp_indMem st1)"
    using assms(2) unfolding fills_def by blast
  have "st2 = st\<lparr>cp_mem := m', cp_indMem := i'\<rparr>" "length m' = length (cp_mem st)" "length i' = length (cp_indMem st)"
    using s1 s2 by simp_all
  moreover have "cp_nodeset st1 = cp_nodeset st" by (simp add: s1(1) cp_nodeset_def)
  moreover have "\<forall>x\<in>cp_nodeset st1. cpV st2 x = f' x \<and> cpI st2 x = g' x" using assms(2) unfolding fills_def by (rule conjunct2)
  ultimately show ?thesis unfolding fills_def by blast
qed

lemma fills_cong: "fills st st' f g \<Longrightarrow> (\<And>x. x \<in> cp_nodeset st \<Longrightarrow> f x = f' x \<and> g x = g' x) \<Longrightarrow> fills st st' f' g'"
  by (simp add: fills_def)

lemma fills_frame:
  assumes "fills st st' f g"
  shows "cp_edge st' = cp_edge st" "cp_nodeset st' = cp_nodeset st" "cp_values st' = cp_values st" "cp_keys st' = cp_keys st"
    "cp_nKeysInOthello st' = cp_nKeysInOthello st" "cp_connectivityForest st' = cp_connectivityForest st"
    "cp_wf st' = cp_wf st" "cp_graph st' n = cp_graph st n" "cp_val st' = cp_val st" "cells_of st' = cells_of st"
    "cp_ma st' = cp_ma st" "cp_mb st' = cp_mb st" "cp_hab st' = cp_hab st" "cp_tree st' n = cp_tree st n"
proof -
  obtain m i where s: "st' = st\<lparr>cp_mem := m, cp_indMem := i\<rparr>" "length m = length (cp_mem st)" "length i = length (cp_indMem st)"
    using assms by (auto simp: fills_def)
  show "cp_edge st' = cp_edge st" "cp_nodeset st' = cp_nodeset st" "cp_values st' = cp_values st" "cp_keys st' = cp_keys st"
    "cp_nKeysInOthello st' = cp_nKeysInOthello st" "cp_connectivityForest st' = cp_connectivityForest st"
    "cp_val st' = cp_val st" "cells_of st' = cells_of st"
    "cp_ma st' = cp_ma st" "cp_mb st' = cp_mb st" "cp_hab st' = cp_hab st"
    by (simp_all add: s cp_nodeset_def cp_val_def fun_eq_iff)
  show "cp_wf st' = cp_wf st" using s by (simp add: cp_wf_def)
  then show "cp_graph st' n = cp_graph st n" "cp_tree st' n = cp_tree st n" by (simp_all add: cp_graph_def cp_tree_def s(1))
qed

lemma cp_mem_ok: "cp_wf st \<Longrightarrow> mem_ok 1 (cp_nodes st) (cp_mem st)"
  by (simp add: cp_wf_def mem_words_ok)

lemma memValue_1 [simp]: "memValueGet (Suc 0) 0 = memGet (Suc 0)" "memValueSet (Suc 0) 0 = memSet (Suc 0)"
  by (simp_all add: memValueGet_def memGet_def memValueSet_def memSet_def fun_eq_iff)

text \<open>One write to the packed array.\<close>

lemma memSet_cp:
  assumes "cp_wf st" "w \<in> cp_nodeset st" "v \<in> cp_nodeset st"
  obtains m where "memGet 1 (cp_mem st) v = Inr (cpV st v)" "memSet 1 (cp_mem st) w (d XOR cpV st v) = Inr m"
    "length m = length (cp_mem st)" "\<And>x. x \<in> cp_nodeset st \<Longrightarrow> elem 1 m x = ((cpV st)(w := take_bit 1 d XOR cpV st v)) x"
proof -
  have w: "unat w < cp_nodes st" and v: "unat v < cp_nodes st" using assms(2,3) by (simp_all add: cp_nodeset_def)
  obtain m where m: "memSet 1 (cp_mem st) w (d XOR cpV st v) = Inr m" "length m = length (cp_mem st)"
    "\<And>k. unat k < cp_nodes st \<Longrightarrow> elem 1 m k = (if k = w then take_bit 1 (d XOR cpV st v) else cpV st k)"
    by (rule memSet_elem [OF cp_mem_ok [OF assms(1)] w, of "d XOR cpV st v"]) blast
  have "take_bit 1 (d XOR cpV st v) = take_bit 1 d XOR cpV st v"
    using elem_take_bit [OF cp_mem_ok [OF assms(1)] v] by (simp add: take_bit_xor)
  then show thesis using that [OF memGet_bits(1) [OF cp_mem_ok [OF assms(1)] v] m(1,2)] m(3) by (simp add: cp_nodeset_def)
qed

lemma cp_fillSingle_ok:
  assumes "cp_wf st" "unat j < length (cp_values st)" "w \<in> cp_nodeset st" "v \<in> cp_nodeset st"
  shows "\<exists>st'. cp_fillSingle fv fi kd j w v st = Inr st' \<and>
    fills st st' (if fv then (cpV st)(w := cp_val st j XOR cpV st v) else cpV st) (if fi then (cpI st)(w := j XOR cpI st v) else cpI st)"
proof -
  have n: "unat w < length (cp_indMem st)" "unat v < length (cp_indMem st)"
    using assms by (simp_all add: cp_wf_def cp_nodeset_def)
  obtain m where m: "memGet 1 (cp_mem st) v = Inr (cpV st v)"
    "memSet 1 (cp_mem st) w (ucast (cp_values st ! unat j) XOR cpV st v) = Inr m" "length m = length (cp_mem st)"
    "\<And>x. x \<in> cp_nodeset st \<Longrightarrow> elem 1 m x = ((cpV st)(w := cp_val st j XOR cpV st v)) x"
    unfolding cp_val_def by (rule memSet_cp [OF assms(1,3,4), of "ucast (cp_values st ! unat j)"]) blast
  let ?m = "if fv then m else cp_mem st"
  let ?i = "if fi then (cp_indMem st)[unat w := j XOR cpI st v] else cp_indMem st"
  have r: "cp_fillSingle fv fi kd j w v st = Inr (st\<lparr>cp_mem := ?m, cp_indMem := ?i\<rparr>)"
    using assms(2) m(1,2) n by (cases fv; cases kd; cases fi) (simp_all add: cp_fillSingle_def)
  have "?i ! unat x = (if fi then (cpI st)(w := j XOR cpI st v) else cpI st) x" for x
    using n by (auto simp: nth_list_update simp flip: word_unat_eq_iff)
  then have "fills st (st\<lparr>cp_mem := ?m, cp_indMem := ?i\<rparr>)
      (if fv then (cpV st)(w := cp_val st j XOR cpV st v) else cpV st) (if fi then (cpI st)(w := j XOR cpI st v) else cpI st)"
    unfolding fills_def by (intro conjI exI [of _ ?m] exI [of _ ?i]) (use m(3,4) in auto)
  with r show ?thesis by blast
qed

text \<open>The whole walk: the arrays are filled along the order of the visits.\<close>

lemma fill_cong:
  "(\<And>x. x \<in> N \<Longrightarrow> f x = g x) \<Longrightarrow> (\<And>j w v. (j, w, v) \<in> set os \<Longrightarrow> v \<in> N) \<Longrightarrow> x \<in> N \<Longrightarrow> fill d os f x = fill d os g x"
proof (induction d os f arbitrary: g rule: fill.induct)
  case (2 d j w v os f)
  have "v \<in> N" using "2.prems"(2) [of j w v] by simp
  then have e: "f v = g v" using "2.prems"(1) by simp
  have "fill d os (f(w := d j XOR f v)) x = fill d os (g(w := d j XOR g v)) x"
  proof (rule "2.IH")
    show "(f(w := d j XOR f v)) y = (g(w := d j XOR g v)) y" if "y \<in> N" for y using "2.prems"(1) [OF that] e by simp
    show "v' \<in> N" if "(j', w', v') \<in> set os" for j' w' v' using "2.prems"(2) [of j' w' v'] that by simp
  qed (fact "2.prems"(3))
  then show ?case by simp
qed simp

definition in_range :: "othello_cp \<Rightarrow> (u32 \<times> u32 \<times> u32) list \<Rightarrow> bool" where
  "in_range st os \<longleftrightarrow> (\<forall>(j, w, v)\<in>set os. unat j < length (cp_values st) \<and> w \<in> cp_nodeset st \<and> v \<in> cp_nodeset st)"

lemma in_range_Cons [simp]:
  "in_range st ((j, w, v) # os) \<longleftrightarrow> unat j < length (cp_values st) \<and> w \<in> cp_nodeset st \<and> v \<in> cp_nodeset st \<and> in_range st os"
  by (simp add: in_range_def)

lemma fill_fold:
  assumes "cp_wf st" "in_range st os"
  shows "\<exists>st'. rfold (\<lambda>(j, w, v). cp_fillSingle fv fi kd j w v) os st = Inr st' \<and>
    fills st st' (if fv then fill (cp_val st) os (cpV st) else cpV st) (if fi then fill id os (cpI st) else cpI st)"
  using assms
proof (induction os arbitrary: st)
  case Nil
  then show ?case using fills_refl by simp
next
  case (Cons x os)
  obtain j w v where x: "x = (j, w, v)" by (cases x)
  have o: "unat j < length (cp_values st)" "w \<in> cp_nodeset st" "v \<in> cp_nodeset st" "in_range st os"
    using Cons.prems(2) by (simp_all add: x)
  obtain st1 where s1: "cp_fillSingle fv fi kd j w v st = Inr st1"
    "fills st st1 (if fv then (cpV st)(w := cp_val st j XOR cpV st v) else cpV st) (if fi then (cpI st)(w := j XOR cpI st v) else cpI st)"
    using cp_fillSingle_ok [OF Cons.prems(1) o(1-3), of fv fi kd] by blast
  note fr = fills_frame [OF s1(2)]
  have "in_range st1 os" using o(4) by (simp add: in_range_def fr)
  then obtain st2 where s2: "rfold (\<lambda>(j, w, v). cp_fillSingle fv fi kd j w v) os st1 = Inr st2"
    "fills st1 st2 (if fv then fill (cp_val st) os (cpV st1) else cpV st1) (if fi then fill id os (cpI st1) else cpI st1)"
    using Cons.IH [of st1] Cons.prems(1) unfolding fr(7,9) by blast
  have n: "v' \<in> cp_nodeset st" if "(j', w', v') \<in> set os" for j' w' v' using o(4) that by (auto simp: in_range_def)
  have e: "cpV st1 x = (if fv then (cpV st)(w := cp_val st j XOR cpV st v) else cpV st) x"
    "cpI st1 x = (if fi then (cpI st)(w := j XOR cpI st v) else cpI st) x" if "x \<in> cp_nodeset st" for x
    using s1(2) that unfolding fills_def by blast+
  have v: "fill (cp_val st) os (cpV st1) x = fill (cp_val st) os ((cpV st)(w := cp_val st j XOR cpV st v)) x"
    if "fv" "x \<in> cp_nodeset st" for x
    by (rule fill_cong [OF _ n that(2)]) (use e(1) that(1) in \<open>simp_all del: fun_upd_apply\<close>)
  have i: "fill id os (cpI st1) x = fill id os ((cpI st)(w := j XOR cpI st v)) x" if "fi" "x \<in> cp_nodeset st" for x
    by (rule fill_cong [OF _ n that(2)]) (use e(2) that(1) in \<open>simp_all del: fun_upd_apply\<close>)
  have "fills st st2 (if fv then fill (cp_val st) (x # os) (cpV st) else cpV st) (if fi then fill id (x # os) (cpI st) else cpI st)"
    by (rule fills_cong [OF fills_trans [OF s1(2) s2(2)]]) (use v i e in \<open>simp add: x\<close>)
  then show ?case using s1(1) s2(1) by (simp add: x)
qed

section \<open>Filling a tree\<close>

text \<open>Edge \<open>j\<close> is right when the exclusive or of its two cells is its datum.\<close>

definition edge_ok :: "(u32 \<Rightarrow> u32 \<times> u32) \<Rightarrow> (u32 \<Rightarrow> 'a::semiring_bit_operations) \<Rightarrow> (u32 \<Rightarrow> 'a) \<Rightarrow> u32 \<Rightarrow> bool" where
  "edge_ok e d f j \<longleftrightarrow> f (fst (e j)) XOR f (snd (e j)) = d j"

lemma xor_cancel_word [simp]: "(x :: 'a::len word) XOR (x XOR y) = y" "x XOR (y XOR x) = y" "(x XOR y) XOR x = y" "(y XOR x) XOR x = y"
  by (auto simp: bit_eq_iff bit_xor_iff)

lemma tree_order_joins: "tree_order e V os \<Longrightarrow> (j, w, v) \<in> set os \<Longrightarrow> joins e j v w"
  by (induction e V os rule: tree_order.induct) auto

lemma edge_ok_fill:
  assumes "tree_order e V os" "j \<in> used_keys os"
  shows "edge_ok e (d :: u32 \<Rightarrow> 'a::len word) (fill d os f) j"
proof -
  obtain w v where m: "(j, w, v) \<in> set os" using assms(2) by auto
  have "joins e j v w" by (rule tree_order_joins [OF assms(1) m])
  then show ?thesis using fill_edges [OF assms(1) m, of d f] by (auto simp: joins_def edge_ok_def)
qed

lemma keys_not_all_ones: "cp_wf st \<Longrightarrow> n \<le> length (cp_keys st) \<Longrightarrow> unat (- 1 :: u32) \<ge> n"
  by (simp add: cp_wf_def unsigned_minus_1_eq_mask mask_eq_exp_minus_1)

lemma card_cp_nodeset: "card (cp_nodeset st) \<le> cp_nodes st"
proof -
  have "card (unat ` cp_nodeset st) \<le> card {..<cp_nodes st}" by (rule card_mono) (auto simp: cp_nodeset_def)
  then show ?thesis by (simp add: card_image inj_on_def word_unat_eq_iff)
qed

text \<open>The walk from \<open>r\<close> that may not take the key \<open>p\<close>.\<close>

lemma cp_dfs:
  assumes "cp_tree st n" "r \<in> cp_nodeset st" "p \<notin> {j. unat j < n} \<or> (\<exists>x. joins (cp_edge st) p r x)"
  obtains os where "\<And>visit (t :: 't). dfs (cp_nodes st) (cells_of st) visit [(p, r)] t = rfold (\<lambda>(j, w, v). visit j w v) os t"
    "tree_order (cp_edge st) {r} os" "in_range st os"
    "insert r (new_nodes os) = {u. conn (cp_edge st) ({j. unat j < n} - {p}) r u}"
    "used_keys os = {j \<in> {j. unat j < n} - {p}. \<exists>u v. joins (cp_edge st) j u v \<and> conn (cp_edge st) ({j. unat j < n} - {p}) r u}"
proof -
  let ?K = "{j :: u32. unat j < n} - {p}"
  have 1: "case (st, n) of (st, n) \<Rightarrow> cp_tree st n" "r \<in> (case (st, n) of (st, n) \<Rightarrow> cp_nodeset st)"
    "p \<notin> (case (st, n) of (st, n) \<Rightarrow> {j. unat j < n}) \<or> (\<exists>x. joins (case (st, n) of (st, n) \<Rightarrow> cp_edge st) p r x)"
    "card (case (st, n) of (st, n) \<Rightarrow> cp_nodeset st) \<le> cp_nodes st" using assms card_cp_nodeset by simp_all
  have wf: "cp_wf st" and n: "n \<le> length (cp_values st)" using assms(1) by (auto simp: cp_tree_def cp_wf_def)
  show thesis using cp.dfs_runs [OF 1, unfolded prod.case]
  proof (elim exE conjE)
    fix os
    assume os: "\<forall>visit (t :: 't). dfs (cp_nodes st) (cells_of st) visit [(p, r)] t = rfold (\<lambda>(j, w, v). visit j w v) os t"
      "tree_order (cp_edge st) {r} os" "insert r (new_nodes os) = {u. conn (cp_edge st) ?K r u}"
      "used_keys os = {j \<in> ?K. \<exists>u v. joins (cp_edge st) j u v \<and> conn (cp_edge st) ?K r u}"
    have "in_range st os" unfolding in_range_def
    proof (clarify, intro conjI)
      fix j w v
      assume m: "(j, w, v) \<in> set os"
      have "joins (cp_edge st) j v w" by (rule tree_order_joins [OF os(2) m])
      then show "w \<in> cp_nodeset st" "v \<in> cp_nodeset st" using cp_live_nodes [OF wf] joins_sym by metis+
      have "j \<in> used_keys os" using m by force
      then have "j \<in> ?K" unfolding os(4) by blast
      then show "unat j < length (cp_values st)" using n by simp
    qed
    then show thesis using that os by metis
  qed
qed

text \<open>
  \<open>fillTreeDFS\<close> returns, makes every key of the tree right, and leaves every other cell as it was.
\<close>

lemma fillTreeDFS_ok:
  assumes "cp_graph st n" "r \<in> cp_nodeset st"
  obtains st' f g where "fillTreeDFS True True kd r st = Inr st'" "fills st st' f g"
    "\<And>j u v. unat j < n \<Longrightarrow> joins (cp_edge st) j u v \<Longrightarrow> conn (cp_edge st) {j. unat j < n} r u \<Longrightarrow>
       edge_ok (cp_edge st) (cp_val st) f j \<and> edge_ok (cp_edge st) id g j"
    "\<And>x. \<not> conn (cp_edge st) {j. unat j < n} r x \<Longrightarrow> f x = cpV st x \<and> g x = cpI st x"
proof -
  have wf: "cp_wf st" "n \<le> length (cp_keys st)" using assms(1) by (simp_all add: cp_graph_def)
  have p: "(- 1 :: u32) \<notin> {j. unat j < n}" using keys_not_all_ones [OF wf] by simp
  have K: "{j :: u32. unat j < n} - {- 1} = {j. unat j < n}" using p by blast
  obtain os where os: "\<And>visit (t :: othello_cp). dfs (cp_nodes st) (cells_of st) visit [(- 1, r)] t = rfold (\<lambda>(j, w, v). visit j w v) os t"
    "tree_order (cp_edge st) {r} os" "in_range st os" "insert r (new_nodes os) = {u. conn (cp_edge st) {j. unat j < n} r u}"
    "used_keys os = {j \<in> {j. unat j < n}. \<exists>u v. joins (cp_edge st) j u v \<and> conn (cp_edge st) {j. unat j < n} r u}"
    by (rule cp_dfs [OF cp_graph_tree [OF assms(1)] assms(2) disjI1 [OF p], unfolded K]) blast
  obtain st' where s: "rfold (\<lambda>(j, w, v). cp_fillSingle True True kd j w v) os st = Inr st'"
    "fills st st' (fill (cp_val st) os (cpV st)) (fill id os (cpI st))"
    using fill_fold [OF wf(1) os(3), of True True kd] by auto
  show thesis
  proof (rule that [OF _ s(2)])
    show "fillTreeDFS True True kd r st = Inr st'" using s(1) os(1) by (simp add: fillTreeDFS_def)
    show "edge_ok (cp_edge st) (cp_val st) (fill (cp_val st) os (cpV st)) j \<and> edge_ok (cp_edge st) id (fill id os (cpI st)) j"
      if "unat j < n" "joins (cp_edge st) j u v" "conn (cp_edge st) {j. unat j < n} r u" for j u v
    proof -
      have "j \<in> used_keys os" unfolding os(5) using that by blast
      from edge_ok_fill [OF os(2) this] edge_ok_fill [OF os(2) this] show ?thesis ..
    qed
    show "fill (cp_val st) os (cpV st) x = cpV st x \<and> fill id os (cpI st) x = cpI st x" if "\<not> conn (cp_edge st) {j. unat j < n} r x" for x
      using that os(4) by (intro conjI fill_frame) blast+
  qed
qed

section \<open>Filling all trees\<close>

text \<open>The keys below \<open>n\<close> look right in the two arrays.\<close>

definition cp_filled :: "othello_cp \<Rightarrow> u32 set \<Rightarrow> bool" where
  "cp_filled st K \<longleftrightarrow> (\<forall>j\<in>K. edge_ok (cp_edge st) (cp_val st) (cpV st) j \<and> edge_ok (cp_edge st) id (cpI st) j)"

lemma cp_filled_fills:
  assumes "cp_wf st" "fills st st' f g" "\<And>j. j \<in> K \<Longrightarrow> edge_ok (cp_edge st) (cp_val st) f j \<and> edge_ok (cp_edge st) id g j"
  shows "cp_filled st' K"
  unfolding cp_filled_def fills_frame [OF assms(2)]
proof
  fix j
  assume "j \<in> K"
  have "fst (cp_edge st j) \<in> cp_nodeset st" "snd (cp_edge st j) \<in> cp_nodeset st"
    using cp_edge_ends [OF assms(1), of j] by (simp_all add: cp_nodeset_def)
  then have "cpV st' (fst (cp_edge st j)) = f (fst (cp_edge st j))" "cpV st' (snd (cp_edge st j)) = f (snd (cp_edge st j))"
    "cpI st' (fst (cp_edge st j)) = g (fst (cp_edge st j))" "cpI st' (snd (cp_edge st j)) = g (snd (cp_edge st j))"
    using assms(2) unfolding fills_def by blast+
  then show "edge_ok (cp_edge st) (cp_val st) (cpV st') j \<and> edge_ok (cp_edge st) id (cpI st') j"
    using assms(3) [OF \<open>j \<in> K\<close>] by (simp add: edge_ok_def)
qed

lemma fill_component:
  assumes "cp_graph st n" "r \<in> cp_nodeset st" "cp_filled st K" "K \<subseteq> {j. unat j < n}"
    and "\<And>j. j \<in> K \<Longrightarrow> \<not> conn (cp_edge st) {j. unat j < n} r (fst (cp_edge st j))"
  obtains st' f g where "fillTreeDFS True True kd r st = Inr st'" "fills st st' f g"
    "cp_filled st' (K \<union> {j. unat j < n \<and> conn (cp_edge st) {j. unat j < n} r (fst (cp_edge st j))})"
proof -
  let ?K = "{j :: u32. unat j < n}"
  have wf: "cp_wf st" using assms(1) by (simp add: cp_graph_def)
  obtain st' f g where s: "fillTreeDFS True True kd r st = Inr st'" "fills st st' f g"
    "\<And>j u v. unat j < n \<Longrightarrow> joins (cp_edge st) j u v \<Longrightarrow> conn (cp_edge st) ?K r u \<Longrightarrow>
       edge_ok (cp_edge st) (cp_val st) f j \<and> edge_ok (cp_edge st) id g j"
    "\<And>x. \<not> conn (cp_edge st) ?K r x \<Longrightarrow> f x = cpV st x \<and> g x = cpI st x"
    by (rule fillTreeDFS_ok [OF assms(1,2), of kd]) blast
  have j: "joins (cp_edge st) j (fst (cp_edge st j)) (snd (cp_edge st j))" for j by (simp add: joins_def)
  have "edge_ok (cp_edge st) (cp_val st) f j \<and> edge_ok (cp_edge st) id g j"
    if "j \<in> K \<union> {j. unat j < n \<and> conn (cp_edge st) ?K r (fst (cp_edge st j))}" for j
  proof (cases "j \<in> K")
    case True
    then have n: "j \<in> ?K" and f: "\<not> conn (cp_edge st) ?K r (fst (cp_edge st j))" using assms(4,5) by blast+
    have "\<not> conn (cp_edge st) ?K r (snd (cp_edge st j))"
      using f conn_trans [OF _ conn_sym [OF conn_edge [OF n j]]] by blast
    then show ?thesis using s(4) f assms(3) True by (simp add: cp_filled_def edge_ok_def)
  next
    case False
    then have "unat j < n" "conn (cp_edge st) ?K r (fst (cp_edge st j))" using that by simp_all
    from s(3) [OF this(1) j this(2)] show ?thesis .
  qed
  then have "cp_filled st' (K \<union> {j. unat j < n \<and> conn (cp_edge st) ?K r (fst (cp_edge st j))})"
    by (rule cp_filled_fills [OF wf s(2)])
  then show thesis using that s(1,2) by blast
qed

lemma cp_fillValue_ok:
  assumes "cp_graph st n"
  obtains st' f g where "cp_fillValue kd st = Inr st'" "fills st st' f g" "cp_filled st' {j. unat j < n}"
proof -
  let ?K = "{j :: u32. unat j < n}"
  have wf: "cp_wf st" and len: "length (cp_connectivityForest st) = cp_nodes st" "cp_nodes st < 2 ^ 32"
    using assms by (simp_all add: cp_graph_def cp_wf_def)
  obtain root h where r: "ds_wf root h (cp_connectivityForest st)" "roots_conn (cp_nodes st) root (cp_edge st) ?K"
    "\<And>j. j \<in> ?K \<Longrightarrow> touched (cp_connectivityForest st) (root (fst (cp_edge st j)))"
    using assms by (auto simp: cp_graph_def cp_forest_def)
  have e: "unat (fst (cp_edge st j)) < cp_nodes st" for j using cp_edge_ends(1) [OF wf, of j] by simp
  have rr: "root (root x) = root x" "unat (root x) < cp_nodes st" if "unat x < cp_nodes st" for x
    using ds_root [OF r(1), of x] len that by auto
  let ?done = "\<lambda>i. {j \<in> ?K. unat (root (fst (cp_edge st j))) < i}"
  let ?P = "\<lambda>i s. (\<exists>f g. fills st s f g) \<and> cp_filled s (?done i)"
  have "\<exists>t. rfold (\<lambda>i st. rbind (isRoot (of_nat i) (cp_connectivityForest st)) (\<lambda>r.
      if r then fillTreeDFS True True kd (of_nat i) st else Inr st)) [0..<cp_nodes st] st = Inr t \<and> ?P (cp_nodes st) t"
  proof (rule rfold_upt [where P = ?P])
    show "?P 0 st" using fills_refl by (auto simp: cp_filled_def)
  next
    fix i s
    assume i: "i < cp_nodes st" and P: "?P i s"
    then obtain f g where fs: "fills st s f g" by blast
    note fr = fills_frame [OF fs]
    let ?i = "of_nat i :: u32"
    have ui: "unat ?i = i" using i len(2) by (intro unat_of_nat_u32) simp
    have node: "?i \<in> cp_nodeset s" using i ui by (simp add: fr cp_nodeset_def)
    have ir: "isRoot ?i (cp_connectivityForest s) = Inr (touched (cp_connectivityForest st) ?i \<and> root ?i = ?i)"
      using isRoot_ok [OF r(1), of ?i] i ui len(1) by (simp add: fr)
    have co: "conn (cp_edge st) ?K ?i (fst (cp_edge st j)) \<longleftrightarrow> root (fst (cp_edge st j)) = ?i" if "root ?i = ?i" for j
      using r(2) e [of j] i ui that unfolding roots_conn_def by metis
    have step: "?done (Suc i) = ?done i \<union> {j. unat j < n \<and> root (fst (cp_edge st j)) = ?i}"
      using ui by (auto simp: less_Suc_eq word_unat_eq_iff)
    show "\<exists>t. rbind (isRoot ?i (cp_connectivityForest s)) (\<lambda>r. if r then fillTreeDFS True True kd ?i s else Inr s) = Inr t \<and> ?P (Suc i) t"
    proof (cases "touched (cp_connectivityForest st) ?i \<and> root ?i = ?i")
      case True
      have a: "cp_graph s n" "cp_filled s (?done i)" using assms P by (simp_all add: fr)
      have b: "\<not> conn (cp_edge s) ?K ?i (fst (cp_edge s j))" if "j \<in> ?done i" for j
        using that co [of j] True ui by (auto simp: fr)
      obtain t f' g' where t: "fillTreeDFS True True kd ?i s = Inr t" "fills s t f' g'"
        "cp_filled t (?done i \<union> {j. unat j < n \<and> conn (cp_edge s) ?K ?i (fst (cp_edge s j))})"
        by (rule fill_component [OF a(1) node a(2), of kd]) (use b in blast)+
      have "cp_filled t (?done (Suc i))" using t(3) co True unfolding step fr by simp
      then show ?thesis using ir True t(1) fills_trans [OF fs t(2)] by auto
    next
      case False
      have "{j. unat j < n \<and> root (fst (cp_edge st j)) = ?i} = {}"
      proof -
        have "touched (cp_connectivityForest st) ?i \<and> root ?i = ?i" if "unat j < n" "root (fst (cp_edge st j)) = ?i" for j
          using r(3) [of j] rr(1) [OF e, of j] that by simp
        then show ?thesis using False by blast
      qed
      then have "?done (Suc i) = ?done i" unfolding step by blast
      then show ?thesis using ir False P by (simp only: rbind_Inr if_False simp_thms) blast
    qed
  qed
  then obtain t f g where t: "cp_fillValue kd st = Inr t" "fills st t f g" "cp_filled t (?done (cp_nodes st))"
    by (auto simp: cp_fillValue_def)
  moreover have "?done (cp_nodes st) = ?K" using rr(2) [OF e] by auto
  ultimately show thesis using that by simp
qed

section \<open>The invariant of a built Othello\<close>

definition cp_inv :: "othello_cp \<Rightarrow> bool" where
  "cp_inv st \<longleftrightarrow> cp_graph st (unat (cp_nKeysInOthello st)) \<and> cp_filled st {j. unat j < unat (cp_nKeysInOthello st)}"

text \<open>What the invariant gives a lookup.\<close>

lemma lookUpIndex_returns:
  assumes "cp_wf st"
  shows "lookUpIndex st k = Inr (cpI st (fst (cp_getIndices st k)) XOR cpI st (snd (cp_getIndices st k)))"
  using assms getIndices_lt [of "cp_ma st" "cp_mb st" "cp_hab st" k]
  by (cases "cp_getIndices st k") (force simp: lookUpIndex_def cp_wf_def cp_getIndices_def)

lemma cp_lookUp_returns:
  assumes "cp_wf st"
  shows "cp_lookUp st k = Inr (ucast (cpV st (fst (cp_getIndices st k)) XOR cpV st (snd (cp_getIndices st k))))"
proof -
  obtain a b where ab: "cp_getIndices st k = (a, b)" by (cases "cp_getIndices st k")
  have "unat a < cp_nodes st" "unat b < cp_nodes st"
    using assms getIndices_lt [of "cp_ma st" "cp_mb st" "cp_hab st" k] ab
    by (auto simp: cp_wf_def cp_getIndices_def)
  then show ?thesis
    using memGet_bits(1) [OF cp_mem_ok [OF assms], of a] memGet_bits(1) [OF cp_mem_ok [OF assms], of b] ab
    by (simp add: cp_lookUp_def)
qed

lemma cp_edge_nth: "i < 2 ^ 32 \<Longrightarrow> cp_edge st (of_nat i) = cp_getIndices st (cp_keys st ! i)"
  by (simp add: cp_edge_def unat_of_nat_u32)

lemma ucast_take_bit: "ucast (take_bit n (ucast v :: u64)) = (take_bit n v :: u8)"
  by (rule bit_word_eqI) (auto simp: bit_take_bit_iff bit_unsigned_iff)

lemma cp_inv_lookups:
  assumes "cp_inv st" "i < unat (cp_nKeysInOthello st)"
  shows "cp_lookUp st (cp_keys st ! i) = Inr (take_bit 1 (cp_values st ! i))"
    and "lookUpIndex st (cp_keys st ! i) = Inr (of_nat i)"
proof -
  have wf: "cp_wf st" using assms(1) by (simp add: cp_inv_def cp_graph_def)
  have i: "i < 2 ^ 32" using assms(2) wf by (simp add: cp_wf_def)
  have u: "unat (of_nat i :: u32) = i" by (rule unat_of_nat_u32 [OF i])
  have ok: "edge_ok (cp_edge st) (cp_val st) (cpV st) (of_nat i)" "edge_ok (cp_edge st) id (cpI st) (of_nat i)"
    using assms u by (simp_all add: cp_inv_def cp_filled_def)
  then show "lookUpIndex st (cp_keys st ! i) = Inr (of_nat i)"
    unfolding lookUpIndex_returns [OF wf] edge_ok_def cp_edge_nth [OF i] by simp
  have "ucast (cp_val st (of_nat i)) = take_bit 1 (cp_values st ! i)"
    unfolding cp_val_def u by (rule ucast_take_bit)
  then show "cp_lookUp st (cp_keys st ! i) = Inr (take_bit 1 (cp_values st ! i))"
    using ok(1) unfolding cp_lookUp_returns [OF wf] edge_ok_def cp_edge_nth [OF i] by simp
qed

lemma cp_inv_isMember:
  assumes "cp_inv st"
  shows "cp_isMember st k = Inr (k \<in> set (take (unat (cp_nKeysInOthello st)) (cp_keys st)))"
proof -
  have wf: "cp_wf st" and n: "unat (cp_nKeysInOthello st) \<le> length (cp_keys st)"
    using assms by (simp_all add: cp_inv_def cp_graph_def cp_wf_def)
  obtain ix where ix: "lookUpIndex st k = Inr ix" using lookUpIndex_returns [OF wf] by blast
  have mem: "cp_isMember st k = Inr (ix < cp_nKeysInOthello st \<and> cp_keys st ! unat ix = k)"
    using ix n by (auto simp: cp_isMember_def word_less_nat_alt)
  have "ix < cp_nKeysInOthello st \<and> cp_keys st ! unat ix = k"
    if k: "k \<in> set (take (unat (cp_nKeysInOthello st)) (cp_keys st))"
  proof -
    obtain i where i: "i < unat (cp_nKeysInOthello st)" "k = cp_keys st ! i" using k n by (auto simp: in_set_conv_nth)
    then have "ix = of_nat i" using cp_inv_lookups(2) [OF assms i(1)] ix by simp
    moreover have "unat (of_nat i :: u32) = i" using i(1) n wf by (intro unat_of_nat_u32) (simp add: cp_wf_def)
    ultimately show ?thesis using i by (simp add: word_less_nat_alt)
  qed
  moreover have "k \<in> set (take (unat (cp_nKeysInOthello st)) (cp_keys st))"
    if "ix < cp_nKeysInOthello st" "cp_keys st ! unat ix = k"
    using that n by (force simp: word_less_nat_alt in_set_conv_nth)
  ultimately show ?thesis unfolding mem by blast
qed

section \<open>Building\<close>

lemma resetBuildState_ok:
  assumes "cp_wf st"
  obtains st' where "resetBuildState st = Inr st'" "cp_graph st' 0" "cp_edge st' = cp_edge st"
    "cp_keys st' = cp_keys st" "cp_values st' = cp_values st" "cp_nKeysInOthello st' = cp_nKeysInOthello st"
    "cp_hab st' = cp_hab st" "cp_ma st' = cp_ma st" "cp_mb st' = cp_mb st"
proof -
  let ?P = "\<lambda>(i :: nat) mem. length mem = length (cp_mem st)"
  have "\<exists>t. rfold (\<lambda>i mem. memSet 1 mem (of_nat i) 0) [0..<cp_nodes st] (cp_mem st) = Inr t \<and> ?P (cp_nodes st) t"
  proof (rule rfold_upt [where P = ?P])
    fix i and mem :: "u64 list"
    assume i: "i < cp_nodes st" and l: "length mem = length (cp_mem st)"
    have "mem_ok 1 (cp_nodes st) mem" using cp_mem_ok [OF assms] l by (simp add: mem_ok_def)
    moreover have "unat (of_nat i :: u32) < cp_nodes st" using i assms by (simp add: cp_wf_def unat_of_nat_u32)
    ultimately show "\<exists>t. memSet 1 mem (of_nat i) 0 = Inr t \<and> length t = length (cp_mem st)"
      using memSet_elem [of 1 "cp_nodes st" mem "of_nat i" 0] l by metis
  qed simp
  then obtain m where m: "rfold (\<lambda>i mem. memSet 1 mem (of_nat i) 0) [0..<cp_nodes st] (cp_mem st) = Inr m"
    "length m = length (cp_mem st)" by blast
  let ?st = "st\<lparr>cp_mem := m, cp_head := replicate (length (cp_head st)) (- 1, - 1),
    cp_nextAtA := replicate (length (cp_nextAtA st)) (- 1, - 1), cp_nextAtB := replicate (length (cp_nextAtB st)) (- 1, - 1),
    cp_connectivityForest := ds_reset (cp_connectivityForest st)\<rparr>"
  have r: "resetBuildState st = Inr ?st" using m(1) by (simp add: resetBuildState_def)
  have wf: "cp_wf ?st" using assms m(2) by (simp add: cp_wf_def ds_reset_def)
  have li: "cp_linked ?st {}"
    using assms unfolding cp_linked_def cp_wf_def listed_def by (auto intro!: exI [of _ "[]"])
  have fo: "cp_forest ?st {}"
    unfolding cp_forest_def
  proof (intro conjI exI)
    show "ds_wf (\<lambda>x. x) (\<lambda>_. 0) (cp_connectivityForest ?st)" using assms ds_reset_wf by (simp add: cp_wf_def)
  qed (simp_all add: roots_conn_empty)
  have "cp_graph ?st 0" using wf li fo by (simp add: cp_graph_def)
  then show thesis using that [OF r] by simp
qed

lemma tryBuild_ok:
  assumes "cp_wf st"
  obtains b st' where "tryBuild st = Inr (b, st')" "b \<longleftrightarrow> bridges (cp_edge st) (cp_live st)" "cp_wf st'" "b \<Longrightarrow> cp_inv st'"
    "cp_keys st' = cp_keys st" "cp_values st' = cp_values st" "cp_nKeysInOthello st' = cp_nKeysInOthello st"
    "cp_hab st' = cp_hab st" "cp_ma st' = cp_ma st" "cp_mb st' = cp_mb st"
proof -
  obtain st1 where s1: "resetBuildState st = Inr st1" "cp_graph st1 0" "cp_edge st1 = cp_edge st"
    "cp_keys st1 = cp_keys st" "cp_values st1 = cp_values st" "cp_nKeysInOthello st1 = cp_nKeysInOthello st"
    "cp_hab st1 = cp_hab st" "cp_ma st1 = cp_ma st" "cp_mb st1 = cp_mb st"
    by (rule resetBuildState_ok [OF assms])
  let ?n = "unat (cp_nKeysInOthello st)"
  have live: "cp_live st = {j. unat j < ?n}" by (simp add: cp_live_def word_less_nat_alt)
  show thesis
  proof (cases "cp_nKeysInOthello st = 0")
    case True
    then have "cp_inv st1" using s1(2,6) by (simp add: cp_inv_def cp_filled_def)
    moreover have "cp_live st = {}" using True by (simp add: cp_live_def)
    ultimately show thesis using that [of True st1] s1 True by (simp add: tryBuild_def cp_inv_def cp_graph_def)
  next
    case False
    have n: "0 + ?n \<le> length (cp_keys st1)" using assms s1(4) by (simp add: cp_wf_def)
    obtain b st2 where t: "testHash st1 = Inr (b, st2)" "graph_change st1 st2" "cp_wf st2"
      "b \<longleftrightarrow> bridges (cp_edge st) (cp_live st)" "b \<longrightarrow> cp_graph st2 ?n"
      using testHash_from_ok [OF s1(2) n] s1(3,6) by (auto simp: testHash_def live)
    have k: "cp_keys st2 = cp_keys st" "cp_values st2 = cp_values st" "cp_nKeysInOthello st2 = cp_nKeysInOthello st"
      "cp_hab st2 = cp_hab st" "cp_ma st2 = cp_ma st" "cp_mb st2 = cp_mb st"
      using t(2) s1(4-9) by (auto simp: graph_change_def)
    show thesis
    proof (cases b)
      case True
      obtain st3 f g where s3: "cp_fillValue False st2 = Inr st3" "fills st2 st3 f g" "cp_filled st3 {j. unat j < ?n}"
        by (rule cp_fillValue_ok [of st2 ?n False]) (use t(5) True in blast)+
      note fr = fills_frame [OF s3(2)]
      let ?st = "st3\<lparr>cp_integrity := True\<rparr>"
      have g: "cp_graph ?st ?n" using t(5) True fr(8) by (simp add: cp_graph_def cp_wf_def)
      moreover have "cp_filled ?st {j. unat j < ?n}" using s3(3) by (simp add: cp_filled_def cp_val_def [abs_def])
      ultimately have "cp_inv ?st" using k(3) fr(5) by (simp add: cp_inv_def)
      moreover have "tryBuild st = Inr (True, ?st)" using s1(1,6) False t(1) True s3(1) by (simp add: tryBuild_def)
      ultimately show thesis using that [of True ?st] t(4) True k fr g by (simp add: cp_graph_def)
    next
      case nb: False
      then have "tryBuild st = Inr (False, st2)" using s1(1,6) False t(1) by (simp add: tryBuild_def)
      then show thesis using that [of False st2] t(3,4) nb k by simp
    qed
  qed
qed

text \<open>
  Building an Othello. With arrays of the sizes \<open>resizeCapacity\<close> gives them, \<open>tryBuild\<close> returns,
  whatever the arrays held before; it succeeds exactly when the keys, as edges between their two
  cells, form a forest (which makes them distinct); and then every key looks up its own value bit and
  its own index, and \<open>isMember\<close> answers for every key, stored or not, whether it is one of them.
\<close>
theorem tryBuild_correct:
  assumes "cp_wf st"
  shows "\<exists>b st'. tryBuild st = Inr (b, st') \<and> (b \<longleftrightarrow> bridges (cp_edge st) (cp_live st)) \<and>
    cp_keys st' = cp_keys st \<and> cp_values st' = cp_values st \<and>
    (b \<longrightarrow> (\<forall>i<unat (cp_nKeysInOthello st).
        cp_lookUp st' (cp_keys st ! i) = Inr (take_bit 1 (cp_values st ! i)) \<and>
        lookUpIndex st' (cp_keys st ! i) = Inr (of_nat i)) \<and>
      (\<forall>k. cp_isMember st' k = Inr (k \<in> set (take (unat (cp_nKeysInOthello st)) (cp_keys st)))))"
proof -
  obtain b st' where b: "tryBuild st = Inr (b, st')" "b \<longleftrightarrow> bridges (cp_edge st) (cp_live st)" "b \<Longrightarrow> cp_inv st'"
    "cp_keys st' = cp_keys st" "cp_values st' = cp_values st" "cp_nKeysInOthello st' = cp_nKeysInOthello st"
    by (rule tryBuild_ok [OF assms]) blast
  moreover have "cp_lookUp st' (cp_keys st ! i) = Inr (take_bit 1 (cp_values st ! i)) \<and> lookUpIndex st' (cp_keys st ! i) = Inr (of_nat i)"
    if "b" "i < unat (cp_nKeysInOthello st)" for i
    using cp_inv_lookups [OF b(3) [OF that(1)], of i] that(2) b(4-6) by simp
  moreover have "cp_isMember st' k = Inr (k \<in> set (take (unat (cp_nKeysInOthello st)) (cp_keys st)))" if "b" for k
    using cp_inv_isMember [OF b(3) [OF that], of k] b(4-6) by simp
  ultimately show ?thesis by blast
qed

text \<open>One key, whatever its two cells are: one edge is a forest.\<close>

definition one_key :: othello_cp where
  "one_key = \<lparr>cp_ma = 5, cp_mb = 4, cp_mem = [0], cp_hab = 11, cp_keys = [7, 0], cp_values = [1, 0], cp_indMem = replicate 9 0,
     cp_head = replicate 9 (0, 0), cp_nextAtA = replicate 2 (0, 0), cp_nextAtB = replicate 2 (0, 0),
     cp_connectivityForest = replicate 9 0, cp_nKeysInOthello = 1, cp_compact = True, cp_integrity = False\<rparr>"

lemma one_key_wf: "cp_wf one_key"
  by (simp add: cp_wf_def one_key_def mem_words_def)

lemma one_key_forest: "bridges (cp_edge one_key) (cp_live one_key)"
proof -
  have l: "cp_live one_key = insert 0 {}" by (auto simp: cp_live_def one_key_def)
  obtain a b where e: "cp_edge one_key 0 = (a, b)" by (cases "cp_edge one_key 0")
  have "a \<noteq> b" using cp_edge_ends [OF one_key_wf, of 0] e by auto
  then show ?thesis unfolding l using e by (intro bridges_insert [of _ _ _ a b]) (auto simp: joins_def)
qed

theorem tryBuild_correct_witness:
  "\<exists>st'. tryBuild one_key = Inr (True, st') \<and> cp_lookUp st' 7 = Inr 1 \<and> lookUpIndex st' 7 = Inr 0 \<and> cp_isMember st' 8 = Inr False"
  using tryBuild_correct [OF one_key_wf] one_key_forest
  by (auto simp: one_key_def dest: spec [of _ 0])

end
