(* ===== verification/Othello_Update.thy ===== *)
theory Othello_Update
  imports Othello_Build
begin

text \<open>
  The updates of a built Othello: changing a value, inserting a key between two trees, removing a key.
  Each keeps the invariant \<open>cp_inv\<close>, so that every stored key goes on looking up its value and index.
  The central lemma is \<open>fixHalfTreeDFS_ok\<close>: xoring the half tree behind a key's edge makes this key right
  and leaves every other key as right as it was.
\<close>

declare One_nat_def [simp del]

lemma memValue_one [simp]: "memValueGet 1 0 = memGet 1" "memValueSet 1 0 = memSet 1"
  using memValue_1 by (simp_all add: One_nat_def)

section \<open>Fixing half a tree\<close>

text \<open>
  Inside the half tree both ends of an edge change, outside none does; only the edge \<open>p\<close> crosses.
\<close>

lemma half_fix_edges:
  fixes d f :: "u32 \<Rightarrow> 'a::len word"
  assumes "bridges e K" "p \<in> K" "joins e p r s"
  defines "f' \<equiv> \<lambda>y. if conn e (K - {p}) r y then (f r XOR (d p XOR f s)) XOR f y else f y"
  shows "edge_ok e d f' p" and "j \<in> K \<Longrightarrow> j \<noteq> p \<Longrightarrow> edge_ok e d f j \<Longrightarrow> edge_ok e d f' j"
proof -
  have "\<not> conn e (K - {p}) r s" using assms(1-3) by (auto simp: bridges_def)
  then have "f' r = d p XOR f s" "f' s = f s" by (simp_all add: f'_def bit_eq_iff bit_xor_iff)
  then show "edge_ok e d f' p" using assms(3) by (auto simp: edge_ok_def joins_def)
  assume j: "j \<in> K" "j \<noteq> p" "edge_ok e d f j"
  have "conn e (K - {p}) (fst (e j)) (snd (e j))" using j by (intro conn_edge [of j]) (auto simp: joins_def)
  then have "conn e (K - {p}) r (fst (e j)) \<longleftrightarrow> conn e (K - {p}) r (snd (e j))"
    by (blast intro: conn_trans conn_sym)
  moreover have "(x XOR a) XOR (x XOR b) = a XOR b" for x a b :: "'a word" by (auto simp: bit_eq_iff bit_xor_iff)
  ultimately show "edge_ok e d f' j" using j(3) by (simp add: edge_ok_def f'_def)
qed

lemma cp_fixSingle_ok:
  assumes "cp_wf st" "w \<in> cp_nodeset st" "take_bit 1 x = x"
  shows "\<exists>st'. cp_fixSingle fv fi kd w x ix st = Inr st' \<and>
    fills st st' (if fv then (cpV st)(w := x XOR cpV st w) else cpV st) (if fi then (cpI st)(w := ix XOR cpI st w) else cpI st)"
proof -
  have n: "unat w < length (cp_indMem st)" using assms by (simp add: cp_wf_def cp_nodeset_def)
  obtain m where m: "memGet 1 (cp_mem st) w = Inr (cpV st w)" "memSet 1 (cp_mem st) w (x XOR cpV st w) = Inr m"
    "length m = length (cp_mem st)" "\<And>y. y \<in> cp_nodeset st \<Longrightarrow> elem 1 m y = ((cpV st)(w := x XOR cpV st w)) y"
    using memSet_cp [OF assms(1,2,2), of x] unfolding assms(3) by blast
  let ?m = "if fv then m else cp_mem st"
  let ?i = "if fi then (cp_indMem st)[unat w := ix XOR cpI st w] else cp_indMem st"
  have r: "cp_fixSingle fv fi kd w x ix st = Inr (st\<lparr>cp_mem := ?m, cp_indMem := ?i\<rparr>)"
    using m(1,2) n by (cases fv; cases kd; cases fi) (simp_all add: cp_fixSingle_def)
  have "?i ! unat y = (if fi then (cpI st)(w := ix XOR cpI st w) else cpI st) y" for y
    using n by (auto simp: nth_list_update simp flip: word_unat_eq_iff)
  then have "fills st (st\<lparr>cp_mem := ?m, cp_indMem := ?i\<rparr>)
      (if fv then (cpV st)(w := x XOR cpV st w) else cpV st) (if fi then (cpI st)(w := ix XOR cpI st w) else cpI st)"
    unfolding fills_def by (intro conjI exI [of _ ?m] exI [of _ ?i]) (use m(3,4) in auto)
  with r show ?thesis by blast
qed

text \<open>The walk xors each new node once.\<close>

definition xored :: "bool \<Rightarrow> u32 set \<Rightarrow> 'a::len word \<Rightarrow> (u32 \<Rightarrow> 'a word) \<Rightarrow> u32 \<Rightarrow> 'a word" where
  "xored b N x f y = (if b \<and> y \<in> N then x XOR f y else f y)"

lemma fix_fold:
  assumes "cp_wf st" "in_range st os" "tree_order e V os" "take_bit 1 x = x"
  shows "\<exists>st'. rfold (\<lambda>(j, w, v). cp_fixSingle fv fi kd w x ix) os st = Inr st' \<and>
    fills st st' (xored fv (new_nodes os) x (cpV st)) (xored fi (new_nodes os) ix (cpI st))"
  using assms(1-3)
proof (induction os arbitrary: st V)
  case Nil
  have "fills st st (xored fv {} x (cpV st)) (xored fi {} ix (cpI st))"
    by (rule fills_cong [OF fills_refl]) (simp add: xored_def)
  then show ?case by simp
next
  case (Cons c os)
  obtain j w v where c: "c = (j, w, v)" by (cases c)
  have o: "w \<in> cp_nodeset st" "in_range st os" "tree_order e (insert w V) os" using Cons.prems(2,3) by (simp_all add: c)
  obtain st1 where s1: "cp_fixSingle fv fi kd w x ix st = Inr st1"
    "fills st st1 (if fv then (cpV st)(w := x XOR cpV st w) else cpV st) (if fi then (cpI st)(w := ix XOR cpI st w) else cpI st)"
    using cp_fixSingle_ok [OF Cons.prems(1) o(1) assms(4), of fv fi kd ix] by blast
  note fr = fills_frame [OF s1(2)]
  have "in_range st1 os" using o(2) by (simp add: in_range_def fr)
  then obtain st2 where s2: "rfold (\<lambda>(j, w, v). cp_fixSingle fv fi kd w x ix) os st1 = Inr st2"
    "fills st1 st2 (xored fv (new_nodes os) x (cpV st1)) (xored fi (new_nodes os) ix (cpI st1))"
    using Cons.IH [of st1 "insert w V"] Cons.prems(1) o(3) unfolding fr(7) by blast
  have e: "cpV st1 y = (if fv then (cpV st)(w := x XOR cpV st w) else cpV st) y"
    "cpI st1 y = (if fi then (cpI st)(w := ix XOR cpI st w) else cpI st) y" if "y \<in> cp_nodeset st" for y
    using s1(2) that unfolding fills_def by blast+
  have "w \<notin> new_nodes os" using new_nodes_fresh [OF o(3)] by blast
  then have "fills st st2 (xored fv (new_nodes (c # os)) x (cpV st)) (xored fi (new_nodes (c # os)) ix (cpI st))"
    by (intro fills_cong [OF fills_trans [OF s1(2) s2(2)]]) (auto simp: xored_def e c)
  then show ?case using s1(1) s2(1) by (simp add: c)
qed

abbreviation halfTree :: "othello_cp \<Rightarrow> nat \<Rightarrow> u32 \<Rightarrow> u32 \<Rightarrow> u32 set" where
  "halfTree st n p r \<equiv> {y. conn (cp_edge st) ({j. unat j < n} - {p}) r y}"

lemma cpV_take_bit: "cp_wf st \<Longrightarrow> y \<in> cp_nodeset st \<Longrightarrow> take_bit 1 (cpV st y) = cpV st y"
  using elem_take_bit [OF cp_mem_ok] by (simp add: cp_nodeset_def)

lemma fixHalfTreeDFS_ok:
  assumes "cp_tree st n" "unat p < n" "cp_edge st p = (r, s)"
  obtains x st' where "fixHalfTreeDFS fv fi kd p r s st = Inr (x, st')"
    "fills st st' (xored fv (halfTree st n p r) (cpV st r XOR (cp_val st p XOR cpV st s)) (cpV st))
      (xored fi (halfTree st n p r) (cpI st r XOR (p XOR cpI st s)) (cpI st))"
    "x = (if fv then cpV st r XOR (cp_val st p XOR cpV st s) else 0)"
proof -
  have wf: "cp_wf st" and n: "n \<le> length (cp_keys st)" using assms(1) by (simp_all add: cp_tree_def)
  have ends: "unat r < unat (cp_ma st)" "unat s < cp_nodes st" using cp_edge_ends [OF wf, of p] assms(3) by simp_all
  have N: "r \<in> cp_nodeset st" "s \<in> cp_nodeset st" using ends by (simp_all add: cp_nodeset_def)
  have p: "p \<noteq> - 1" using keys_not_all_ones [OF wf n] assms(2) by auto
  have len: "unat r < length (cp_indMem st)" "unat p < length (cp_values st)"
    using wf ends assms(2) n by (simp_all add: cp_wf_def)
  have mg: "memGet 1 (cp_mem st) r = Inr (cpV st r)" "memGet 1 (cp_mem st) s = Inr (cpV st s)"
    using memGet_bits(1) [OF cp_mem_ok [OF wf]] N by (simp_all add: cp_nodeset_def)
  let ?F = "if fv then (cpV st)(r := cp_val st p XOR cpV st s) else cpV st"
  let ?G = "if fi then (cpI st)(r := p XOR cpI st s) else cpI st"
  let ?x = "if fv then cpV st r XOR (cp_val st p XOR cpV st s) else 0" and ?ix = "if fi then cpI st r XOR (p XOR cpI st s) else 0"
  obtain st1 where s1: "cp_fillSingle fv fi kd p r s st = Inr st1" "fills st st1 ?F ?G"
    using cp_fillSingle_ok [OF wf len(2) N, of fv fi kd] by blast
  note fr = fills_frame [OF s1(2)]
  have r1: "cpV st1 y = ?F y" "cpI st1 y = ?G y" if "y \<in> cp_nodeset st" for y using s1(2) that unfolding fills_def by blast+
  have wf1: "cp_wf st1" and g1: "cp_tree st1 n" using wf assms(1) by (simp_all add: fr)
  have mg1: "memGet 1 (cp_mem st1) r = Inr (cpV st1 r)"
    using memGet_bits(1) [OF cp_mem_ok [OF wf1]] N fr by (simp add: cp_nodeset_def)
  have i1: "unat r < length (cp_indMem st1)" using wf1 ends fr by (simp add: cp_wf_def)
  have N1: "r \<in> cp_nodeset st1" using N fr by simp
  have j1: "p \<notin> {j. unat j < n} \<or> (\<exists>y. joins (cp_edge st1) p r y)" using assms(3) fr by (auto simp: joins_def)
  obtain os where os: "\<And>visit (t :: othello_cp). dfs (cp_nodes st1) (cells_of st1) visit [(p, r)] t = rfold (\<lambda>(j, w, v). visit j w v) os t"
    "tree_order (cp_edge st1) {r} os" "in_range st1 os" "insert r (new_nodes os) = halfTree st1 n p r"
    by (rule cp_dfs [OF g1 N1 j1]) blast
  have tx: "take_bit 1 ?x = ?x"
    using cpV_take_bit [OF wf N(1)] cpV_take_bit [OF wf N(2)] by (cases fv) (simp_all add: take_bit_xor cp_val_def)
  obtain st2 where s2: "rfold (\<lambda>(j, w, v). cp_fixSingle fv fi kd w ?x ?ix) os st1 = Inr st2"
    "fills st1 st2 (xored fv (new_nodes os) ?x (cpV st1)) (xored fi (new_nodes os) ?ix (cpI st1))"
    using fix_fold [OF wf1 os(3,2) tx, of fv fi kd ?ix] by blast
  have run: "fixHalfTreeDFS fv fi kd p r s st = Inr (?x, st2)"
    using ends(1) p mg mg1 s1(1) s2(1) os(1) len(1) i1 r1 [OF N(1)]
    by (cases fv; cases fi; cases kd) (simp_all add: fixHalfTreeDFS_def memOrValueGet_def word_less_nat_alt)
  have nr: "r \<notin> new_nodes os" using new_nodes_fresh [OF os(2)] by blast
  have H: "halfTree st n p r = insert r (new_nodes os)" using os(4) unfolding fr(1) by simp
  have "fills st st2 (xored fv (halfTree st n p r) (cpV st r XOR (cp_val st p XOR cpV st s)) (cpV st))
      (xored fi (halfTree st n p r) (cpI st r XOR (p XOR cpI st s)) (cpI st))"
    unfolding H by (rule fills_cong [OF fills_trans [OF s1(2) s2(2)]]) (use nr in \<open>auto simp: xored_def r1\<close>)
  then show thesis using that run by simp
qed

lemma cp_filled_fix:
  assumes "cp_tree st n" "unat p < n" "cp_edge st p = (r, s)"
    and "fills st st' (xored fv (halfTree st n p r) (cpV st r XOR (cp_val st p XOR cpV st s)) (cpV st))
      (xored fi (halfTree st n p r) (cpI st r XOR (p XOR cpI st s)) (cpI st))"
    and "\<And>j. unat j < n \<Longrightarrow> j \<noteq> p \<or> \<not> fv \<Longrightarrow> edge_ok (cp_edge st) (cp_val st) (cpV st) j"
    and "\<And>j. unat j < n \<Longrightarrow> j \<noteq> p \<or> \<not> fi \<Longrightarrow> edge_ok (cp_edge st) id (cpI st) j"
  shows "cp_filled st' {j. unat j < n}"
proof (rule cp_filled_fills [OF _ assms(4)])
  show "cp_wf st" using assms(1) by (simp add: cp_tree_def)
  fix j :: u32
  assume j: "j \<in> {j. unat j < n}"
  have br: "bridges (cp_edge st) {j. unat j < n}" using assms(1) by (simp add: cp_tree_def)
  have p: "p \<in> {j. unat j < n}" "joins (cp_edge st) p r s" using assms(2,3) by (simp_all add: joins_def)
  note hv = half_fix_edges [OF br p, where f = "cpV st" and d = "cp_val st"]
    and hi = half_fix_edges [OF br p, where f = "cpI st" and d = id, unfolded id_apply [of p]]
  have "edge_ok (cp_edge st) (cp_val st) (xored fv (halfTree st n p r) (cpV st r XOR (cp_val st p XOR cpV st s)) (cpV st)) j"
    using hv assms(5) [of j] j by (cases fv; cases "j = p") (simp_all add: xored_def [abs_def])
  moreover have "edge_ok (cp_edge st) id (xored fi (halfTree st n p r) (cpI st r XOR (p XOR cpI st s)) (cpI st)) j"
    using hi assms(6) [of j] j by (cases fi; cases "j = p") (simp_all add: xored_def [abs_def])
  ultimately show "edge_ok (cp_edge st) (cp_val st) (xored fv (halfTree st n p r) (cpV st r XOR (cp_val st p XOR cpV st s)) (cpV st)) j \<and>
    edge_ok (cp_edge st) id (xored fi (halfTree st n p r) (cpI st r XOR (p XOR cpI st s)) (cpI st)) j" ..
qed

section \<open>The abstract map\<close>

text \<open>What an Othello stores: a value for each of its keys, of which a lookup gives one bit.\<close>

abbreviation cp_n :: "othello_cp \<Rightarrow> nat" where
  "cp_n st \<equiv> unat (cp_nKeysInOthello st)"

definition cp_abs :: "othello_cp \<Rightarrow> u64 \<rightharpoonup> u8" where
  "cp_abs st = map_of (zip (take (cp_n st) (cp_keys st)) (take (cp_n st) (cp_values st)))"

lemma cp_invD:
  assumes "cp_inv st"
  shows "cp_wf st" "cp_graph st (cp_n st)" "cp_filled st {j. unat j < cp_n st}" "bridges (cp_edge st) {j. unat j < cp_n st}"
    "cp_n st \<le> length (cp_keys st)" "length (cp_values st) = length (cp_keys st)" "length (cp_keys st) < 2 ^ 32"
    "length (cp_nextAtA st) = length (cp_keys st)" "length (cp_nextAtB st) = length (cp_keys st)"
  using assms by (simp_all add: cp_inv_def cp_graph_def cp_forest_def cp_wf_def)

lemma cp_inv_distinct:
  assumes "cp_inv st"
  shows "distinct (take (cp_n st) (cp_keys st))"
  unfolding distinct_conv_nth
proof (intro allI impI)
  fix i j
  assume i: "i < length (take (cp_n st) (cp_keys st))" "j < length (take (cp_n st) (cp_keys st))" "i \<noteq> j"
  then have b: "i < cp_n st" "j < cp_n st" by simp_all
  have l: "i < 2 ^ 32" "j < 2 ^ 32" using i cp_invD(7) [OF assms] by simp_all
  show "take (cp_n st) (cp_keys st) ! i \<noteq> take (cp_n st) (cp_keys st) ! j"
  proof
    assume "take (cp_n st) (cp_keys st) ! i = take (cp_n st) (cp_keys st) ! j"
    then have "(of_nat i :: u32) = of_nat j"
      using cp_inv_lookups(2) [OF assms b(1)] cp_inv_lookups(2) [OF assms b(2)] b by simp
    then show False using i(3) unat_of_nat_u32 [OF l(1)] unat_of_nat_u32 [OF l(2)] by simp
  qed
qed

lemma cp_abs_nth:
  assumes "cp_inv st" "i < cp_n st"
  shows "cp_abs st (cp_keys st ! i) = Some (cp_values st ! i)"
  using map_of_zip_nth [OF _ cp_inv_distinct [OF assms(1)], of "take (cp_n st) (cp_values st)" i]
    cp_invD(5,6) [OF assms(1)] assms(2) by (simp add: cp_abs_def)

lemma cp_abs_dom: "cp_inv st \<Longrightarrow> dom (cp_abs st) = set (take (cp_n st) (cp_keys st))"
  using cp_invD(5,6) [of st] by (simp add: cp_abs_def)

lemma cp_abs_Some:
  assumes "cp_inv st" "cp_abs st k = Some b"
  obtains i where "i < cp_n st" "k = cp_keys st ! i" "b = cp_values st ! i"
proof -
  have "k \<in> set (take (cp_n st) (cp_keys st))" using cp_abs_dom [OF assms(1)] assms(2) by blast
  then obtain i where i: "i < cp_n st" "k = cp_keys st ! i" using cp_invD(5) [OF assms(1)] by (auto simp: in_set_conv_nth)
  then show thesis using that cp_abs_nth [OF assms(1) i(1)] assms(2) by simp
qed

text \<open>The queries answer from the map.\<close>

lemma cp_lookUp_abs: "cp_inv st \<Longrightarrow> cp_abs st k = Some b \<Longrightarrow> cp_lookUp st k = Inr (take_bit 1 b)"
  by (metis cp_abs_Some cp_inv_lookups(1))

lemma cp_isMember_abs: "cp_inv st \<Longrightarrow> cp_isMember st k = Inr (cp_abs st k \<noteq> None)"
  using cp_abs_dom [of st] by (auto simp: cp_inv_isMember)

section \<open>Half trees\<close>

lemma tree_order_distinct: "tree_order e V os \<Longrightarrow> distinct (map (\<lambda>(j, w, v). w) os)"
proof (induction e V os rule: tree_order.induct)
  case (2 e V j w v os)
  then have "tree_order e (insert w V) os" by simp
  from new_nodes_fresh [OF this, of w] have "w \<notin> new_nodes os" by (metis insertI1)
  then show ?case using 2 unfolding list.map prod.case distinct.simps set_map by simp
qed simp

lemma rfold_collect: "rfold (\<lambda>(j, w, v) res. Inr (res @ [w])) os res = Inr (res @ map (\<lambda>(j, w, v). w) os)"
  by (induction os arbitrary: res) auto

text \<open>\<open>getHalfTree\<close> lists each cell on one side of a key's edge once.\<close>

lemma getHalfTree_ok:
  assumes "cp_inv st" "i < cp_n st" "cp_edge st (of_nat i) = (ha, hb)"
  obtains cc where "getHalfTree (cp_keys st ! i) fromA False st = Inr cc" "distinct cc"
    "set cc = halfTree st (cp_n st) (of_nat i) (if fromA then ha else hb)"
proof -
  note inv = cp_invD [OF assms(1)]
  have i32: "i < 2 ^ 32" using assms(2) inv(5,7) by simp
  have gi: "cp_getIndices st (cp_keys st ! i) = (ha, hb)" using assms(3) cp_edge_nth [OF i32] by simp
  let ?r = "if fromA then ha else hb"
  have r: "?r \<in> cp_nodeset st" using cp_edge_ends [OF inv(1), of "of_nat i"] assms(3) by (simp add: cp_nodeset_def)
  have "joins (cp_edge st) (of_nat i) ?r (if fromA then hb else ha)" using assms(3) by (simp add: joins_def)
  then have j: "of_nat i \<notin> {j. unat j < cp_n st} \<or> (\<exists>x. joins (cp_edge st) (of_nat i) ?r x)" by blast
  obtain os where os: "\<And>visit (t :: u32 list). dfs (cp_nodes st) (cells_of st) visit [(of_nat i, ?r)] t = rfold (\<lambda>(j, w, v). visit j w v) os t"
    "tree_order (cp_edge st) {?r} os" "insert ?r (new_nodes os) = halfTree st (cp_n st) (of_nat i) ?r"
    by (rule cp_dfs [OF cp_graph_tree [OF inv(2)] r j]) blast
  let ?cc = "?r # map (\<lambda>(j, w, v). w) os"
  have "getHalfTree (cp_keys st ! i) fromA False st = Inr ?cc"
    using gi cp_inv_lookups(2) [OF assms(1,2)] os(1) by (cases fromA) (simp_all add: getHalfTree_def rfold_collect)
  moreover have "distinct ?cc"
    unfolding distinct.simps set_map using tree_order_distinct [OF os(2)] new_nodes_fresh [OF os(2), of ?r] by blast
  moreover have "set ?cc = halfTree st (cp_n st) (of_nat i) ?r" using os(3) by simp
  ultimately show thesis by (rule that)
qed

section \<open>Changing a value\<close>

text \<open>A change of the values leaves the graph; a change of one value leaves the other keys right.\<close>

lemma cp_graph_values:
  "length vs = length (cp_values st) \<Longrightarrow> cp_graph (st\<lparr>cp_values := vs\<rparr>) n = cp_graph st n"
  by (simp add: cp_graph_def cp_wf_def)

lemma edge_ok_values:
  assumes "edge_ok (cp_edge st) (cp_val st) (cpV st) j" "j \<noteq> p"
  shows "edge_ok (cp_edge st) (cp_val (st\<lparr>cp_values := (cp_values st)[unat p := v]\<rparr>)) (cpV st) j"
  using assms by (simp add: edge_ok_def cp_val_def nth_list_update flip: word_unat_eq_iff)

lemma fix_value_ok:
  fixes v :: u8
  assumes "cp_inv st" "unat p < cp_n st" "cp_edge st p = (ha, hb)"
  defines "vs \<equiv> (cp_values st)[unat p := v]"
  obtains x st' where "fixHalfTreeDFS True False True p ha hb (st\<lparr>cp_values := vs\<rparr>) = Inr (x, st')" "cp_inv st'"
    "x = cp_val st p XOR take_bit 1 (ucast v)" "cp_values st' = vs" "cp_keys st' = cp_keys st"
    "cp_nKeysInOthello st' = cp_nKeysInOthello st" "cp_edge st' = cp_edge st" "cp_hab st' = cp_hab st" "cp_ma st' = cp_ma st" "cp_mb st' = cp_mb st"
proof -
  let ?st = "st\<lparr>cp_values := vs\<rparr>"
  note inv = cp_invD [OF assms(1)]
  have l: "length vs = length (cp_values st)" by (simp add: vs_def)
  have p: "unat p < length (cp_values st)" using assms(2) inv(5,6) by simp
  have g: "cp_graph ?st (cp_n st)" using inv(2) cp_graph_values [OF l] by blast
  have e: "cp_edge ?st p = (ha, hb)" using assms(3) by simp
  have val: "cp_val ?st p = take_bit 1 (ucast v)" using p by (simp add: cp_val_def vs_def)
  obtain x st' where r: "fixHalfTreeDFS True False True p ha hb ?st = Inr (x, st')"
    "fills ?st st' (xored True (halfTree ?st (cp_n st) p ha) (cpV ?st ha XOR (cp_val ?st p XOR cpV ?st hb)) (cpV ?st))
      (xored False (halfTree ?st (cp_n st) p ha) (cpI ?st ha XOR (p XOR cpI ?st hb)) (cpI ?st))"
    "x = (if True then cpV ?st ha XOR (cp_val ?st p XOR cpV ?st hb) else 0)"
    by (rule fixHalfTreeDFS_ok [OF cp_graph_tree [OF g] assms(2) e, of True False True])
  note fr = fills_frame [OF r(2)]
  have ok: "edge_ok (cp_edge st) (cp_val st) (cpV st) j" "edge_ok (cp_edge st) id (cpI st) j" if "unat j < cp_n st" for j
    using inv(3) that by (simp_all add: cp_filled_def)
  have "cp_filled st' {j. unat j < cp_n st}"
    by (rule cp_filled_fix [OF cp_graph_tree [OF g] assms(2) e r(2)]) (use ok edge_ok_values in \<open>auto simp: vs_def\<close>)
  then have "cp_inv st'" using g fr by (simp add: cp_inv_def)
  moreover have "cpV st ha XOR cpV st hb = cp_val st p" using ok(1) [OF assms(2)] assms(3) by (simp add: edge_ok_def)
  then have "x = cp_val st p XOR take_bit 1 (ucast v)" using r(3) val by (auto simp: bit_eq_iff bit_xor_iff)
  ultimately show thesis using that r(1) fr by simp
qed

lemma cp_edge_member:
  assumes "cp_inv st" "i < cp_n st"
  shows "cp_edge st (of_nat i) = cp_getIndices st (cp_keys st ! i)" "unat (of_nat i :: u32) = i"
  using assms(2) cp_invD(5,7) [OF assms(1)] by (simp_all add: cp_edge_nth unat_of_nat_u32)

text \<open>An update of one entry of the map.\<close>

lemma map_of_zip_update:
  assumes "distinct ks" "length vs = length ks" "i < length ks"
  shows "map_of (zip ks (vs[i := v])) = (map_of (zip ks vs))(ks ! i \<mapsto> v)"
  using assms
proof (induction ks arbitrary: vs i)
  case (Cons k ks)
  obtain x xs where vs: "vs = x # xs" using Cons.prems(2) by (cases vs) auto
  show ?case
  proof (cases i)
    case (Suc j)
    then have "ks ! j \<noteq> k" using Cons.prems(1,3) by auto
    then show ?thesis using Cons vs Suc by (auto simp: fun_eq_iff)
  qed (use vs in \<open>auto simp: fun_eq_iff\<close>)
qed simp

lemma cp_abs_change:
  assumes "cp_inv st" "i < cp_n st" "cp_keys st' = cp_keys st" "cp_nKeysInOthello st' = cp_nKeysInOthello st"
    and "cp_values st' = (cp_values st)[i := v]"
  shows "cp_abs st' = (cp_abs st)(cp_keys st ! i \<mapsto> v)"
proof -
  let ?n = "cp_n st"
  have "take ?n ((cp_values st)[i := v]) = (take ?n (cp_values st))[i := v]" using assms(2) by (simp add: take_update_swap)
  then show ?thesis
    using map_of_zip_update [OF cp_inv_distinct [OF assms(1)], of "take ?n (cp_values st)" i v]
      cp_invD(5,6) [OF assms(1)] assms(2-5) by (simp add: cp_abs_def map_update)
qed

lemma changeValueAt_ok:
  assumes "cp_inv st" "i < cp_n st"
  obtains x st' where "changeValueAt (of_nat i) v st = Inr (x, st')" "cp_inv st'"
    "x = take_bit 1 (ucast (cp_values st ! i)) XOR take_bit 1 (ucast v)" "cp_keys st' = cp_keys st" "cp_values st' = (cp_values st)[i := v]"
    "cp_nKeysInOthello st' = cp_nKeysInOthello st" "cp_abs st' = (cp_abs st)(cp_keys st ! i \<mapsto> v)" "cp_edge st' = cp_edge st"
proof -
  note m = cp_edge_member [OF assms] and inv = cp_invD [OF assms(1)]
  obtain ha hb where e: "cp_edge st (of_nat i) = (ha, hb)" by (cases "cp_edge st (of_nat i)")
  have p: "unat (of_nat i :: u32) < cp_n st" using m(2) assms(2) by simp
  obtain x st' where r: "fixHalfTreeDFS True False True (of_nat i) ha hb (st\<lparr>cp_values := (cp_values st)[i := v]\<rparr>) = Inr (x, st')"
    "cp_inv st'" "x = cp_val st (of_nat i) XOR take_bit 1 (ucast v)" "cp_values st' = (cp_values st)[i := v]" "cp_keys st' = cp_keys st"
    "cp_nKeysInOthello st' = cp_nKeysInOthello st" "cp_edge st' = cp_edge st"
    by (rule fix_value_ok [OF assms(1) p e, of v, unfolded m(2)])
  have gi: "cp_getIndices st (cp_keys st ! i) = (ha, hb)" using m(1) e by simp
  have "changeValueAt (of_nat i) v st = Inr (x, st')"
    using r(1) m(2) p assms(2) inv(5,6) gi by (simp add: changeValueAt_def word_less_nat_alt)
  then show thesis using that r cp_abs_change [OF assms r(5,6,4)] m(2) by (simp add: cp_val_def)
qed

lemma cp_changeValue_ok:
  assumes "cp_inv st" "cp_abs st k \<noteq> None"
  obtains r st' where "cp_changeValue k v st = Inr (r, st')" "cp_inv st'" "cp_abs st' = (cp_abs st)(k \<mapsto> v)"
    "or_status r = 0"
proof -
  obtain b where "cp_abs st k = Some b" using assms(2) by blast
  then obtain i where i: "i < cp_n st" "k = cp_keys st ! i" by (rule cp_abs_Some [OF assms(1)])
  obtain x st' where c: "changeValueAt (of_nat i) v st = Inr (x, st')" "cp_inv st'" "cp_keys st' = cp_keys st"
    "cp_nKeysInOthello st' = cp_nKeysInOthello st" "cp_abs st' = (cp_abs st)(k \<mapsto> v)"
    unfolding i(2) by (rule changeValueAt_ok [OF assms(1) i(1), of v])
  obtain ha hb where e: "cp_edge st' (of_nat i) = (ha, hb)" by (cases "cp_edge st' (of_nat i)")
  have i': "i < cp_n st'" using i(1) c(4) by simp
  obtain cc where cc: "getHalfTree k (0 < sint x) False st' = Inr cc"
    using getHalfTree_ok [OF c(2) i' e, of "0 < sint x"] i(2) c(3) by metis
  have m: "cp_isMember st k = Inr True" "lookUpIndex st k = Inr (of_nat i)"
    using cp_isMember_abs [OF assms(1)] assms(2) cp_inv_lookups(2) [OF assms(1) i(1)] i(2) by simp_all
  show thesis
  proof (cases "x = 0")
    case True
    then show ?thesis using that [OF _ c(2,5), of "no_result\<lparr>or_xorTemplate := 0\<rparr>"] m c(1) by (simp add: cp_changeValue_def no_result_def)
  next
    case False
    then show ?thesis using that [OF _ c(2,5), of "no_result\<lparr>or_xorTemplate := x, or_cc := cc\<rparr>"] m c(1) cc
      by (simp add: cp_changeValue_def no_result_def)
  qed
qed

text \<open>Toggling writes the negation of the stored value, as a truth value.\<close>

lemma toggleInOthello_ok:
  assumes "cp_inv st" "cp_abs st k = Some v"
  obtains r st' where "toggleInOthello k st = Inr (r, st')" "cp_inv st'"
    "cp_abs st' = (cp_abs st)(k \<mapsto> (if v = 0 then 1 else 0))" "or_status r = 0"
proof -
  obtain i where i: "i < cp_n st" "k = cp_keys st ! i" "v = cp_values st ! i" by (rule cp_abs_Some [OF assms])
  note m = cp_edge_member [OF assms(1) i(1)] and inv = cp_invD [OF assms(1)]
  obtain ha hb where e: "cp_edge st (of_nat i) = (ha, hb)" by (cases "cp_edge st (of_nat i)")
  have p: "unat (of_nat i :: u32) < cp_n st" using m(2) i(1) by simp
  let ?v = "if v = 0 then 1 else 0 :: u8"
  obtain x st' where r: "fixHalfTreeDFS True False True (of_nat i) ha hb (st\<lparr>cp_values := (cp_values st)[i := ?v]\<rparr>) = Inr (x, st')"
    "cp_inv st'" "cp_values st' = (cp_values st)[i := ?v]" "cp_keys st' = cp_keys st" "cp_nKeysInOthello st' = cp_nKeysInOthello st" "cp_edge st' = cp_edge st"
    using fix_value_ok [OF assms(1) p e, of ?v, unfolded m(2)] by metis
  have gi: "cp_getIndices st k = (ha, hb)" using m(1) e i(2) by simp
  have i': "i < cp_n st'" "cp_edge st' (of_nat i) = (ha, hb)" using i(1) r(5,6) e by simp_all
  obtain cc where cc: "getHalfTree k (0 < sint x) False st' = Inr cc"
    using getHalfTree_ok [OF r(2) i', of "0 < sint x"] i(2) r(4) by metis
  have q: "cp_isMember st k = Inr True" "lookUpIndex st k = Inr (of_nat i)"
    using cp_isMember_abs [OF assms(1)] assms(2) cp_inv_lookups(2) [OF assms(1) i(1)] i(2) by simp_all
  have "aget (cp_values st) (unat (of_nat i :: u32)) = Inr v" using i(1,3) inv(5,6) m(2) by simp
  then have "toggleInOthello k st = Inr (no_result\<lparr>or_xorTemplate := 1, or_cc := cc\<rparr>, st')"
    using q gi r(1) cc m(2) i(1) inv(5,6) by (simp add: toggleInOthello_def)
  then show thesis using that r(2) cp_abs_change [OF assms(1) i(1) r(4,5,3)] i(2) by (simp add: no_result_def)
qed

section \<open>Inserting a key\<close>

lemma cp_linked_cong:
  assumes "\<And>j. j \<in> K \<Longrightarrow> cp_edge st' j = cp_edge st j" "cp_head st' = cp_head st" "cp_nextAtA st' = cp_nextAtA st"
    "cp_nextAtB st' = cp_nextAtB st" "cp_ma st' = cp_ma st" "cp_mb st' = cp_mb st" "cp_linked st K"
  shows "cp_linked st' K"
  using assms(7) listed_cong [of K "endA st'" "endA st" "endB st'" "endB st"] listed_cong [of K "endB st'" "endB st" "endA st'" "endA st"] assms(1)
  unfolding cp_linked_def assms(2-6) by simp

lemma cp_forest_cong:
  assumes "\<And>j. j \<in> K \<Longrightarrow> cp_edge st' j = cp_edge st j" "cp_connectivityForest st' = cp_connectivityForest st"
    "cp_ma st' = cp_ma st" "cp_mb st' = cp_mb st" "cp_forest st K"
  shows "cp_forest st' K"
proof -
  have "bridges (cp_edge st') K = bridges (cp_edge st) K" by (rule bridges_cong) (rule assms(1))
  moreover have "roots_conn n root (cp_edge st') K = roots_conn n root (cp_edge st) K" for n root
    unfolding roots_conn_def using conn_cong [of K "cp_edge st'" "cp_edge st"] assms(1) by simp
  ultimately show ?thesis using assms unfolding cp_forest_def by simp
qed

lemma cp_graph_keys:
  assumes "cp_graph st n" "length ks = length (cp_keys st)" "length vs = length (cp_values st)" "\<And>i. i < n \<Longrightarrow> ks ! i = cp_keys st ! i"
  shows "cp_graph (st\<lparr>cp_keys := ks, cp_values := vs\<rparr>) n"
proof -
  have e: "cp_edge (st\<lparr>cp_keys := ks, cp_values := vs\<rparr>) j = cp_edge st j" if "j \<in> {j. unat j < n}" for j
    using assms(4) [of "unat j"] that by (simp add: cp_edge_def)
  have "cp_linked (st\<lparr>cp_keys := ks, cp_values := vs\<rparr>) {j. unat j < n}"
    by (rule cp_linked_cong [OF e]) (use assms(1) in \<open>simp_all add: cp_graph_def\<close>)
  moreover have "cp_forest (st\<lparr>cp_keys := ks, cp_values := vs\<rparr>) {j. unat j < n}"
    by (rule cp_forest_cong [OF e]) (use assms(1) in \<open>simp_all add: cp_graph_def\<close>)
  ultimately show ?thesis using assms(1-3) by (simp add: cp_graph_def cp_wf_def)
qed

lemma map_of_zip_snoc:
  "length vs = length ks \<Longrightarrow> k \<notin> set ks \<Longrightarrow> map_of (zip (ks @ [k]) (vs @ [v])) = (map_of (zip ks vs))(k \<mapsto> v)"
  by (simp add: map_add_upd_left)

text \<open>A key whose cells lie in two trees: the edge is added and one of the trees fixed.\<close>

lemma insert_acyclic:
  assumes "cp_inv st" "cp_abs st k = None" "cp_n st < length (cp_keys st)" "cp_getIndices st k = (ha, hb)"
    and "\<not> conn (cp_edge st) {j. unat j < cp_n st} ha hb"
  defines "n \<equiv> cp_nKeysInOthello st"
  obtains x st2 st3 cc where
    "addEdge n ha hb (st\<lparr>cp_keys := (cp_keys st)[unat n := k], cp_values := (cp_values st)[unat n := v]\<rparr>) = Inr st2"
    "fixHalfTreeDFS True True False n ha hb (st2\<lparr>cp_nKeysInOthello := n + 1\<rparr>) = Inr (x, st3)"
    "getHalfTree k (0 < sint x) False st3 = Inr cc" "cp_inv st3" "cp_abs st3 = (cp_abs st)(k \<mapsto> v)"
proof -
  note inv = cp_invD [OF assms(1)]
  let ?n = "cp_n st"
  let ?ks = "(cp_keys st)[?n := k]" and ?vs = "(cp_values st)[?n := v]"
  let ?st1 = "st\<lparr>cp_keys := ?ks, cp_values := ?vs\<rparr>"
  have on: "of_nat ?n = n" by (simp add: n_def)
  have un: "unat (n + 1) = Suc ?n"
    using assms(3) inv(7) unfolding n_def by (simp add: unat_word_ariths)
  have g1: "cp_graph ?st1 ?n" by (rule cp_graph_keys [OF inv(2)]) simp_all
  have e1: "cp_edge ?st1 (of_nat ?n) = (ha, hb)" using assms(3,4) by (simp add: cp_edge_def)
  have ej: "cp_edge ?st1 j = cp_edge st j" if "j \<in> {j. unat j < ?n}" for j using that by (simp add: cp_edge_def)
  have nc: "\<not> conn (cp_edge ?st1) {j. unat j < ?n} ha hb" using assms(5) conn_cong [of "{j. unat j < ?n}" "cp_edge ?st1" "cp_edge st" ha hb, OF ej] by blast
  have ln: "?n < length (cp_keys ?st1)" using assms(3) by simp
  obtain h a b f where add: "addEdge (of_nat ?n) ha hb ?st1 = Inr (?st1\<lparr>cp_head := h, cp_nextAtA := a, cp_nextAtB := b, cp_connectivityForest := f\<rparr>)"
    "cp_graph (?st1\<lparr>cp_head := h, cp_nextAtA := a, cp_nextAtB := b, cp_connectivityForest := f\<rparr>) (Suc ?n)"
    by (rule addEdge_graph [OF g1 ln e1 nc])
  let ?st2 = "?st1\<lparr>cp_head := h, cp_nextAtA := a, cp_nextAtB := b, cp_connectivityForest := f\<rparr>"
  let ?st2' = "?st2\<lparr>cp_nKeysInOthello := n + 1\<rparr>"
  have g2: "cp_graph ?st2' (Suc ?n)" using add(2) un assms(3) by (simp add: cp_graph_def cp_wf_def)
  have e2: "cp_edge ?st2' n = (ha, hb)" using e1 on by simp
  have p: "unat n < Suc ?n" by (simp add: n_def)
  obtain x st3 where r: "fixHalfTreeDFS True True False n ha hb ?st2' = Inr (x, st3)"
    "fills ?st2' st3 (xored True (halfTree ?st2' (Suc ?n) n ha) (cpV ?st2' ha XOR (cp_val ?st2' n XOR cpV ?st2' hb)) (cpV ?st2'))
      (xored True (halfTree ?st2' (Suc ?n) n ha) (cpI ?st2' ha XOR (n XOR cpI ?st2' hb)) (cpI ?st2'))"
    by (rule fixHalfTreeDFS_ok [OF cp_graph_tree [OF g2] p e2, of True True False])
  note fr = fills_frame [OF r(2)]
  have old: "edge_ok (cp_edge ?st2') (cp_val ?st2') (cpV ?st2') j" "edge_ok (cp_edge ?st2') id (cpI ?st2') j"
    if "unat j < Suc ?n" "j \<noteq> n \<or> \<not> True" for j
  proof -
    have j: "unat j < ?n" using that by (auto simp: n_def less_Suc_eq word_unat_eq_iff)
    then show "edge_ok (cp_edge ?st2') (cp_val ?st2') (cpV ?st2') j" "edge_ok (cp_edge ?st2') id (cpI ?st2') j"
      using inv(3) ej [of j] by (simp_all add: cp_filled_def edge_ok_def cp_val_def)
  qed
  have "cp_filled st3 {j. unat j < Suc ?n}" by (rule cp_filled_fix [OF cp_graph_tree [OF g2] p e2 r(2) old])
  then have i3: "cp_inv st3" using g2 fr un by (simp add: cp_inv_def)
  have k3: "cp_keys st3 = ?ks" "cp_values st3 = ?vs" "cp_n st3 = Suc ?n" using fr un by simp_all
  have "take (Suc ?n) ?ks = take ?n (cp_keys st) @ [k]" "take (Suc ?n) ?vs = take ?n (cp_values st) @ [v]"
    using assms(3) inv(6) by (simp_all add: take_Suc_conv_app_nth)
  moreover have "k \<notin> set (take ?n (cp_keys st))" using cp_abs_dom [OF assms(1)] assms(2) by auto
  ultimately have abs: "cp_abs st3 = (cp_abs st)(k \<mapsto> v)"
    using map_of_zip_snoc [of "take ?n (cp_values st)" "take ?n (cp_keys st)" k v] inv(5,6) assms(3)
    by (simp add: cp_abs_def k3)
  have "?n < cp_n st3" "cp_edge st3 (of_nat ?n) = (ha, hb)" "cp_keys st3 ! ?n = k" using k3 fr e2 on assms(3) by simp_all
  then obtain cc where "getHalfTree k (0 < sint x) False st3 = Inr cc"
    using getHalfTree_ok [OF i3, of ?n ha hb "0 < sint x"] by metis
  then show thesis using that [OF _ r(1) _ i3 abs] add(1) unfolding on by (simp add: n_def)
qed

text \<open>The test for a cycle compresses paths of the disjoint set and changes nothing else.\<close>

lemma isConnectedDFS_ok:
  assumes "cp_inv st" "cp_getIndices st k = (ha, hb)"
  obtains f where "isConnectedDFS ha hb st = Inr (conn (cp_edge st) {j. unat j < cp_n st} ha hb, st\<lparr>cp_connectivityForest := f\<rparr>)"
    "cp_inv (st\<lparr>cp_connectivityForest := f\<rparr>)" "cp_abs (st\<lparr>cp_connectivityForest := f\<rparr>) = cp_abs st"
proof -
  note inv = cp_invD [OF assms(1)]
  have ab: "unat ha < cp_nodes st" "unat hb < cp_nodes st"
    using getIndices_lt [of "cp_ma st" "cp_mb st" "cp_hab st" k ha hb] inv(1) assms(2) by (simp_all add: cp_wf_def cp_getIndices_def)
  obtain f where f: "sameSet ha hb (cp_connectivityForest st) = Inr (conn (cp_edge st) {j. unat j < cp_n st} ha hb, f)"
    "cp_graph (st\<lparr>cp_connectivityForest := f\<rparr>) (cp_n st)" by (rule cp_graph_forest [OF inv(2) ab])
  have "cp_filled (st\<lparr>cp_connectivityForest := f\<rparr>) {j. unat j < cp_n st}" using inv(3) by (simp add: cp_filled_def cp_val_def [abs_def])
  then have "cp_inv (st\<lparr>cp_connectivityForest := f\<rparr>)" using f(2) by (simp add: cp_inv_def)
  then show thesis using that f(1) by (simp add: isConnectedDFS_def cp_abs_def)
qed

abbreviation cp_full :: "othello_cp \<Rightarrow> bool" where
  "cp_full st \<equiv> length (cp_keys st) \<le> cp_n st \<or> cp_mb st \<le> cp_nKeysInOthello st"

definition cp_cyclic :: "othello_cp \<Rightarrow> u64 \<Rightarrow> bool" where
  "cp_cyclic st k \<longleftrightarrow> (case cp_getIndices st k of (ha, hb) \<Rightarrow> conn (cp_edge st) {j. unat j < cp_n st} ha hb)"

lemma insert_member:
  assumes "cp_inv st" "cp_abs st k \<noteq> None"
  shows "\<exists>r st'. insert_rec (Suc m) k v nr rnd st = Inr (r, rnd, st') \<and> cp_inv st' \<and> cp_abs st' = (cp_abs st)(k \<mapsto> v) \<and> or_status r = 0"
proof -
  obtain r st' where c: "cp_changeValue k v st = Inr (r, st')" "cp_inv st'" "cp_abs st' = (cp_abs st)(k \<mapsto> v)" "or_status r = 0"
    by (rule cp_changeValue_ok [OF assms, of v])
  then have "insert_rec (Suc m) k v nr rnd st = Inr (r, rnd, st')" using cp_isMember_abs [OF assms(1), of k] assms(2) by simp
  then show ?thesis using c by blast
qed

lemma insert_fresh:
  assumes "cp_inv st" "cp_abs st k = None" "\<not> cp_full st" "\<not> cp_cyclic st k"
  shows "\<exists>r st'. insert_rec (Suc m) k v nr rnd st = Inr (r, rnd, st') \<and> cp_inv st' \<and> cp_abs st' = (cp_abs st)(k \<mapsto> v) \<and> or_status r = 0"
proof -
  obtain ha hb where gi: "cp_getIndices st k = (ha, hb)" by (cases "cp_getIndices st k")
  obtain f where f: "isConnectedDFS ha hb st = Inr (conn (cp_edge st) {j. unat j < cp_n st} ha hb, st\<lparr>cp_connectivityForest := f\<rparr>)"
    "cp_inv (st\<lparr>cp_connectivityForest := f\<rparr>)" "cp_abs (st\<lparr>cp_connectivityForest := f\<rparr>) = cp_abs st"
    by (rule isConnectedDFS_ok [OF assms(1) gi])
  let ?st = "st\<lparr>cp_connectivityForest := f\<rparr>"
  have h: "cp_abs ?st k = None" "cp_n ?st < length (cp_keys ?st)" "cp_getIndices ?st k = (ha, hb)"
    "\<not> conn (cp_edge ?st) {j. unat j < cp_n ?st} ha hb"
    using f(3) assms(2-4) gi by (simp_all add: cp_cyclic_def)
  obtain x st2 st3 cc where i:
    "addEdge (cp_nKeysInOthello ?st) ha hb (?st\<lparr>cp_keys := (cp_keys ?st)[cp_n ?st := k], cp_values := (cp_values ?st)[cp_n ?st := v]\<rparr>) = Inr st2"
    "fixHalfTreeDFS True True False (cp_nKeysInOthello ?st) ha hb (st2\<lparr>cp_nKeysInOthello := cp_nKeysInOthello ?st + 1\<rparr>) = Inr (x, st3)"
    "getHalfTree k (0 < sint x) False st3 = Inr cc" "cp_inv st3" "cp_abs st3 = (cp_abs ?st)(k \<mapsto> v)"
    by (rule insert_acyclic [OF f(2) h, of v])
  have "insert_rec (Suc m) k v nr rnd st = Inr (no_result\<lparr>or_xorTemplate := x, or_cc := cc\<rparr>, rnd, st3)"
    using cp_isMember_abs [OF assms(1), of k] assms(2,3) gi f(1) h(4) i(1-3) cp_invD(6) [OF assms(1)]
    by (simp add: Let_def)
  then show ?thesis using i(4,5) f(3) by (simp add: no_result_def)
qed

lemma insert_refused:
  assumes "cp_inv st" "cp_abs st k = None" "cp_full st \<or> cp_cyclic st k"
  shows "\<exists>r st'. insert_rec (Suc m) k v True rnd st = Inr (r, rnd, st') \<and> cp_inv st' \<and> cp_abs st' = cp_abs st \<and>
    or_status r = (if cp_full st then - 2 else - 1)"
proof (cases "cp_full st")
  case True
  then have "insert_rec (Suc m) k v True rnd st = Inr (no_result\<lparr>or_status := - 2\<rparr>, rnd, st)"
    using cp_isMember_abs [OF assms(1), of k] assms(2) by (simp add: Let_def)
  then show ?thesis using True assms(1) by (simp add: no_result_def)
next
  case False
  obtain ha hb where gi: "cp_getIndices st k = (ha, hb)" by (cases "cp_getIndices st k")
  obtain f where f: "isConnectedDFS ha hb st = Inr (conn (cp_edge st) {j. unat j < cp_n st} ha hb, st\<lparr>cp_connectivityForest := f\<rparr>)"
    "cp_inv (st\<lparr>cp_connectivityForest := f\<rparr>)" "cp_abs (st\<lparr>cp_connectivityForest := f\<rparr>) = cp_abs st"
    by (rule isConnectedDFS_ok [OF assms(1) gi])
  have "insert_rec (Suc m) k v True rnd st = Inr (no_result\<lparr>or_status := - 1\<rparr>, rnd, st\<lparr>cp_connectivityForest := f\<rparr>)"
    using cp_isMember_abs [OF assms(1), of k] assms(2,3) False gi f(1) by (simp add: Let_def cp_cyclic_def)
  then show ?thesis using f(2,3) False by (simp add: no_result_def)
qed

text \<open>
  (C16) Inserting without permission to rebuild. On a built Othello \<open>insert(k, v, true)\<close> returns. It
  refuses a new key with status \<open>-2\<close> exactly when the arrays are full, and with \<open>-1\<close> exactly when the key's
  two cells are already connected, and then stores nothing; otherwise the map it stores has gained or
  changed exactly the entry of \<open>k\<close>. In every case the Othello stays built, so that afterwards every
  stored key looks up the low bit of its value.
\<close>
theorem insert_online_correct:
  assumes "cp_inv st"
  shows "\<exists>r st'. cp_insert k v True rnd st = Inr (r, rnd, st') \<and> cp_inv st' \<and>
    or_status r = (if cp_abs st k \<noteq> None then 0 else if cp_full st then - 2 else if cp_cyclic st k then - 1 else 0) \<and>
    cp_abs st' = (if or_status r = 0 then (cp_abs st)(k \<mapsto> v) else cp_abs st) \<and>
    (\<forall>k' b. cp_abs st' k' = Some b \<longrightarrow> cp_lookUp st' k' = Inr (take_bit 1 b))"
proof -
  consider "cp_abs st k \<noteq> None" | "cp_abs st k = None" "\<not> cp_full st" "\<not> cp_cyclic st k" | "cp_abs st k = None" "cp_full st \<or> cp_cyclic st k"
    by blast
  then obtain r st' where "cp_insert k v True rnd st = Inr (r, rnd, st')" "cp_inv st'"
    "or_status r = (if cp_abs st k \<noteq> None then 0 else if cp_full st then - 2 else if cp_cyclic st k then - 1 else 0)"
    "cp_abs st' = (if or_status r = 0 then (cp_abs st)(k \<mapsto> v) else cp_abs st)"
  proof cases
    case 1
    then show ?thesis using insert_member [OF assms 1, of 2 v True rnd] that by (auto simp: cp_insert_def numeral_3_eq_3 numeral_2_eq_2)
  next
    case 2
    then show ?thesis using insert_fresh [OF assms 2, of 2 v True rnd] that by (auto simp: cp_insert_def numeral_3_eq_3 numeral_2_eq_2)
  next
    case 3
    then show ?thesis using insert_refused [OF assms 3, of 2 v rnd] that
      by (auto simp: cp_insert_def numeral_3_eq_3 numeral_2_eq_2 split: if_splits)
  qed
  then show ?thesis using cp_lookUp_abs by blast
qed

text \<open>The first key of an empty Othello.\<close>

definition empty_cp :: othello_cp where
  "empty_cp = one_key\<lparr>cp_nKeysInOthello := 0, cp_head := replicate 9 (- 1, - 1), cp_connectivityForest := replicate 9 (- 1)\<rparr>"

lemma empty_cp_inv: "cp_inv empty_cp"
proof -
  have wf: "cp_wf empty_cp" using one_key_wf by (simp add: cp_wf_def empty_cp_def one_key_def)
  have c: "cp_connectivityForest empty_cp = ds_reset (replicate 9 0)" by (simp add: empty_cp_def ds_reset_def)
  have "cp_forest empty_cp {}" unfolding cp_forest_def
  proof (intro conjI exI)
    show "ds_wf (\<lambda>x. x) (\<lambda>_. 0) (cp_connectivityForest empty_cp)" unfolding c by (rule ds_reset_wf) simp
  qed (simp_all add: roots_conn_empty)
  moreover have "cp_linked empty_cp {}"
    by (auto simp: cp_linked_def listed_def empty_cp_def one_key_def intro!: exI [of _ "[]"])
  ultimately show ?thesis using wf by (simp add: cp_inv_def cp_graph_def cp_filled_def empty_cp_def)
qed

lemma empty_cp_fresh: "cp_abs empty_cp = Map.empty" "\<not> cp_full empty_cp" "\<not> cp_cyclic empty_cp 7"
proof -
  have n: "cp_n empty_cp = 0" by (simp add: empty_cp_def)
  show "cp_abs empty_cp = Map.empty" "\<not> cp_full empty_cp"
    by (simp_all add: empty_cp_def one_key_def cp_abs_def)
  obtain a b where e: "cp_getIndices empty_cp 7 = (a, b)" by (cases "cp_getIndices empty_cp 7")
  then have "cp_edge empty_cp 0 = (a, b)" by (simp add: cp_edge_def empty_cp_def one_key_def)
  then have "a \<noteq> b" using cp_edge_ends [OF cp_invD(1) [OF empty_cp_inv], of 0] by auto
  then show "\<not> cp_cyclic empty_cp 7" using e n by (simp add: cp_cyclic_def)
qed

theorem insert_online_correct_witness:
  "\<exists>r st'. cp_insert 7 1 True [] empty_cp = Inr (r, [], st') \<and> or_status r = 0 \<and> cp_inv st' \<and> cp_lookUp st' 7 = Inr 1"
proof -
  from insert_online_correct [OF empty_cp_inv, of 7 1 "[]"] empty_cp_fresh
  obtain r st' where r: "cp_insert 7 1 True [] empty_cp = Inr (r, [], st')" "cp_inv st'" "or_status r = 0"
    "cp_abs st' = (cp_abs empty_cp)(7 \<mapsto> 1)" "\<forall>k' b. cp_abs st' k' = Some b \<longrightarrow> cp_lookUp st' k' = Inr (take_bit 1 b)"
    by auto
  then have "cp_lookUp st' 7 = Inr (take_bit 1 1)" by simp
  then show ?thesis using r by (simp add: One_nat_def)
qed

text \<open>A built Othello with one key.\<close>

lemma one_key_state: "\<exists>st. cp_inv st \<and> cp_abs st = [7 \<mapsto> 1]"
  using insert_fresh [OF empty_cp_inv, of 7 0 1 True "[]"] empty_cp_fresh by auto

end
