(* ===== verification/Othello_Remove.thy ===== *)
theory Othello_Remove
  imports Othello_Update
begin

text \<open>
  Removing a key from a built Othello: its edge leaves the two linked lists, the last key takes its
  place (a relabelling of the edges), the indices behind the moved key are fixed, and the disjoint set
  is rebuilt for the two halves of the tree that fell apart.
\<close>

section \<open>The linked lists\<close>

lemma linked_bounds: "linked nxt oth c js \<Longrightarrow> j \<in> set js \<Longrightarrow> unat j < length nxt"
  by (induction nxt oth c js rule: linked.induct) auto

lemma list_walk_ok:
  assumes "linked nxt oth c (x # xs @ p # ys)" "distinct (x # xs @ p # ys)" "length xs < fuel"
  shows "list_walk fuel nxt x p = Inr (last (x # xs))"
  using assms
proof (induction xs arbitrary: x c fuel)
  case Nil
  then obtain m where "fuel = Suc m" by (cases fuel) auto
  then show ?case using Nil by simp
next
  case (Cons y xs)
  then obtain m where m: "fuel = Suc m" by (cases fuel) auto
  have l: "linked nxt oth (nxt ! unat x) (y # xs @ p # ys)" "unat x < length nxt" using Cons.prems(1) by simp_all
  have "list_walk m nxt y p = Inr (last (y # xs))" using Cons.IH [OF l(1)] Cons.prems m by simp
  then show ?case using l Cons.prems(2) m by auto
qed

lemma linked_splice:
  assumes "linked nxt oth c (xs @ p # ys)" "distinct xs" "xs \<noteq> []" "linked nxt oth new zs" "last xs \<notin> set zs"
  shows "linked (nxt[unat (last xs) := new]) oth c (xs @ zs)"
  using assms
proof (induction xs arbitrary: c)
  case (Cons x xs)
  show ?case
  proof (cases xs)
    case Nil
    then show ?thesis using Cons.prems linked_update [of nxt oth new zs x new] by simp
  next
    case (Cons y ys')
    then have "last xs \<noteq> x" using Cons.prems(2) by (metis distinct.simps(2) last_in_set list.distinct(1))
    then have n: "nxt[unat (last xs) := new] ! unat x = nxt ! unat x" by (simp add: nth_list_update flip: word_unat_eq_iff)
    have "linked (nxt[unat (last xs) := new]) oth (nxt ! unat x) (xs @ zs)"
      using Cons.IH [of "nxt ! unat x"] Cons.prems \<open>xs = y # ys'\<close> by simp
    then show ?thesis using Cons.prems(1) n \<open>xs = y # ys'\<close> by simp
  qed
qed simp

text \<open>The cell that holds \<open>p\<close> is overwritten by the start of another list.\<close>

lemma relink_ok:
  assumes "linked nxt oth (hs ! unat v) (xs @ p # ys)" "distinct (xs @ p # ys)" "unat v < length hs"
    and "linked nxt oth new zs" "set xs \<inter> set zs = {}"
  obtains hs' nxt' where "relink v p new (hs, nxt) = Inr (hs', nxt')" "linked nxt' oth (hs' ! unat v) (xs @ zs)"
    "length hs' = length hs" "length nxt' = length nxt" "\<And>i. i \<noteq> unat v \<Longrightarrow> hs' ! i = hs ! i"
    "\<And>j. j \<notin> set xs \<Longrightarrow> nxt' ! unat j = nxt ! unat j"
proof (cases xs)
  case Nil
  then have "fst (hs ! unat v) = p" using assms(1) by simp
  then have "relink v p new (hs, nxt) = Inr (hs[unat v := new], nxt)" using assms(3) by (simp add: relink_def)
  then show ?thesis using that [of "hs[unat v := new]" nxt] assms(3,4) Nil by simp
next
  case (Cons x xs')
  let ?t = "last xs"
  have c: "fst (hs ! unat v) = x" "x \<noteq> p" using assms(1,2) Cons by auto
  have "length xs' < length nxt" using linked_length [OF assms(1,2)] Cons by simp
  then have w: "list_walk (length nxt) nxt x p = Inr ?t"
    using list_walk_ok [of nxt oth "hs ! unat v" x xs' p ys "length nxt"] assms(1,2) Cons by simp
  have t: "?t \<in> set xs" "unat ?t < length nxt" using Cons linked_bounds [OF assms(1), of ?t] by simp_all
  have r: "relink v p new (hs, nxt) = Inr (hs, nxt[unat ?t := new])"
    using c w t assms(3) by (simp add: relink_def)
  have l: "linked (nxt[unat ?t := new]) oth (hs ! unat v) (xs @ zs)"
  proof (rule linked_splice [OF assms(1) _ _ assms(4)])
    show "?t \<notin> set zs" using t(1) assms(5) by blast
  qed (use assms(2) Cons in auto)
  have "nxt[unat ?t := new] ! unat j = nxt ! unat j" if "j \<notin> set xs" for j
    using that t by (metis nth_list_update_neq word_unat_eq_iff)
  then show ?thesis using that r l by simp
qed

lemma linked_behind: "linked nxt oth c (xs @ p # ys) \<Longrightarrow> linked nxt oth (nxt ! unat p) ys"
proof (induction xs arbitrary: c)
  case (Cons x xs)
  then show ?case using Cons.IH [of "nxt ! unat x"] by simp
qed simp

text \<open>The lists of the other nodes do not see the change.\<close>

lemma linked_same:
  "linked nxt oth c js \<Longrightarrow> length nxt' = length nxt \<Longrightarrow> (\<And>j. j \<in> set js \<Longrightarrow> nxt' ! unat j = nxt ! unat j) \<Longrightarrow> linked nxt' oth c js"
  by (induction nxt oth c js rule: linked.induct) auto

lemma listed_other:
  assumes "listed nxt own oth K u c" "own p \<noteq> u" "length nxt' = length nxt" "\<And>j. own j = u \<Longrightarrow> j \<in> K \<Longrightarrow> nxt' ! unat j = nxt ! unat j"
  shows "listed nxt' own oth (K - {p}) u c"
proof -
  obtain js where js: "distinct js" "set js = {j \<in> K. own j = u}" "linked nxt oth c js" using assms(1) by (auto simp: listed_def)
  have "linked nxt' oth c js" using js(2) assms(4) by (intro linked_same [OF js(3) assms(3)]) auto
  then show ?thesis unfolding listed_def using js assms(2) by (intro exI [of _ js]) auto
qed

text \<open>Removing a key from the list of its node.\<close>

lemma listed_relink:
  assumes "listed nxt own oth K v (hs ! unat v)" "p \<in> K" "own p = v" "unat v < length hs"
  obtains hs' nxt' where "relink v p (nxt ! unat p) (hs, nxt) = Inr (hs', nxt')" "length hs' = length hs" "length nxt' = length nxt"
    "listed nxt' own oth (K - {p}) v (hs' ! unat v)" "\<And>i. i \<noteq> unat v \<Longrightarrow> hs' ! i = hs ! i"
    "\<And>u c. u \<noteq> v \<Longrightarrow> listed nxt own oth K u c \<Longrightarrow> listed nxt' own oth (K - {p}) u c" "unat p < length nxt"
proof -
  obtain js where js: "distinct js" "set js = {j \<in> K. own j = v}" "linked nxt oth (hs ! unat v) js" using assms(1) by (auto simp: listed_def)
  have "p \<in> set js" using js(2) assms(2,3) by simp
  then obtain xs ys where s: "js = xs @ p # ys" by (meson split_list)
  have l: "linked nxt oth (hs ! unat v) (xs @ p # ys)" "distinct (xs @ p # ys)" using js s by simp_all
  have dj: "set xs \<inter> set ys = {}" using l(2) by auto
  obtain hs' nxt' where r: "relink v p (nxt ! unat p) (hs, nxt) = Inr (hs', nxt')" "linked nxt' oth (hs' ! unat v) (xs @ ys)"
    "length hs' = length hs" "length nxt' = length nxt" "\<And>i. i \<noteq> unat v \<Longrightarrow> hs' ! i = hs ! i"
    "\<And>j. j \<notin> set xs \<Longrightarrow> nxt' ! unat j = nxt ! unat j"
    by (rule relink_ok [OF l assms(4) linked_behind [OF l(1)] dj]) blast
  have "listed nxt' own oth (K - {p}) v (hs' ! unat v)"
    unfolding listed_def using r(2) l(2) js(2) s by (intro exI [of _ "xs @ ys"]) auto
  moreover have "listed nxt' own oth (K - {p}) u c" if "u \<noteq> v" "listed nxt own oth K u c" for u c
    using that(1) assms(3) js(2) s r(6) by (intro listed_other [OF that(2) _ r(4)]) auto
  ultimately show thesis using that [OF r(1,3,4)] r(5) linked_bounds [OF l(1), of p] by simp
qed

lemma cp_linkedD:
  assumes "cp_linked st K" "unat v < cp_nodes st"
  shows "v < cp_ma st \<Longrightarrow> listed (cp_nextAtA st) (endA st) (endB st) K v (cp_head st ! unat v)"
    and "\<not> v < cp_ma st \<Longrightarrow> listed (cp_nextAtB st) (endB st) (endA st) K v (cp_head st ! unat v)"
  using assms by (simp_all add: cp_linked_def)

lemma unlinkKey_ok:
  assumes "cp_wf st" "cp_linked st K" "p \<in> K" "cp_edge st p = (ha, hb)"
  obtains h a b where "unlinkKey p ha hb st = Inr (st\<lparr>cp_head := h, cp_nextAtA := a, cp_nextAtB := b\<rparr>)"
    "length h = length (cp_head st)" "length a = length (cp_nextAtA st)" "length b = length (cp_nextAtB st)"
    "cp_linked (st\<lparr>cp_head := h, cp_nextAtA := a, cp_nextAtB := b\<rparr>) (K - {p})"
proof -
  have ends: "unat ha < unat (cp_ma st)" "unat (cp_ma st) \<le> unat hb" "unat hb < cp_nodes st"
    using cp_edge_ends [OF assms(1), of p] assms(4) by simp_all
  have len: "length (cp_head st) = cp_nodes st" using assms(1) by (simp add: cp_wf_def)
  have A: "ha < cp_ma st" "unat ha < cp_nodes st" and B: "\<not> hb < cp_ma st" using ends by (simp_all add: word_less_nat_alt)
  have ea: "endA st p = ha" "unat ha < length (cp_head st)" using assms(4) A len by simp_all
  obtain h1 a where r1: "relink ha p (cp_nextAtA st ! unat p) (cp_head st, cp_nextAtA st) = Inr (h1, a)" "length h1 = length (cp_head st)"
    "length a = length (cp_nextAtA st)" "listed a (endA st) (endB st) (K - {p}) ha (h1 ! unat ha)" "\<And>i. i \<noteq> unat ha \<Longrightarrow> h1 ! i = cp_head st ! i"
    "\<And>u c. u \<noteq> ha \<Longrightarrow> listed (cp_nextAtA st) (endA st) (endB st) K u c \<Longrightarrow> listed a (endA st) (endB st) (K - {p}) u c"
    "unat p < length (cp_nextAtA st)"
    by (rule listed_relink [OF cp_linkedD(1) [OF assms(2) A(2,1)] assms(3) ea]) blast
  have "h1 ! unat hb = cp_head st ! unat hb" using r1(5) ends by simp
  then have lb: "listed (cp_nextAtB st) (endB st) (endA st) K hb (h1 ! unat hb)" using cp_linkedD(2) [OF assms(2) ends(3) B] by simp
  have eb: "endB st p = hb" "unat hb < length h1" using assms(4) r1(2) ends len by simp_all
  obtain h2 b where r2: "relink hb p (cp_nextAtB st ! unat p) (h1, cp_nextAtB st) = Inr (h2, b)" "length h2 = length h1"
    "length b = length (cp_nextAtB st)" "listed b (endB st) (endA st) (K - {p}) hb (h2 ! unat hb)" "\<And>i. i \<noteq> unat hb \<Longrightarrow> h2 ! i = h1 ! i"
    "\<And>u c. u \<noteq> hb \<Longrightarrow> listed (cp_nextAtB st) (endB st) (endA st) K u c \<Longrightarrow> listed b (endB st) (endA st) (K - {p}) u c"
    "unat p < length (cp_nextAtB st)"
    by (rule listed_relink [OF lb assms(3) eb]) blast
  let ?st = "st\<lparr>cp_head := h2, cp_nextAtA := a, cp_nextAtB := b\<rparr>"
  have run: "unlinkKey p ha hb st = Inr ?st" using r1(1,7) r2(1,7) by (simp add: unlinkKey_def)
  have "cp_linked ?st (K - {p})"
    unfolding cp_linked_def
  proof (intro allI impI)
    fix v :: u32
    assume v: "unat v < cp_nodes ?st"
    show "if v < cp_ma ?st then listed (cp_nextAtA ?st) (endA ?st) (endB ?st) (K - {p}) v (cp_head ?st ! unat v)
      else listed (cp_nextAtB ?st) (endB ?st) (endA ?st) (K - {p}) v (cp_head ?st ! unat v)"
    proof (cases "v < cp_ma st")
      case True
      then have "h2 ! unat v = h1 ! unat v" using r2(5) ends by (simp add: word_less_nat_alt)
      then show ?thesis using True r1(4-6) cp_linkedD(1) [OF assms(2) _ True] v by (cases "v = ha") (simp_all flip: word_unat_eq_iff)
    next
      case False
      have "v \<noteq> ha" using False A(1) by blast
      then have "h1 ! unat v = cp_head st ! unat v" using r1(5) by (simp flip: word_unat_eq_iff)
      then show ?thesis using False r2(4-6) cp_linkedD(2) [OF assms(2) _ False] v by (cases "v = hb") (simp_all flip: word_unat_eq_iff)
    qed
  qed
  then show thesis using that [OF run] r1(2,3) r2(2,3) by simp
qed

text \<open>The key \<open>l\<close> takes the place \<open>p\<close> in the list of its node.\<close>

lemma listed_move:
  assumes "listed nxt own oth L v (hs ! unat v)" "l \<in> L" "p \<notin> L" "own l = v" "unat v < length hs" "unat p < length nxt"
  obtains hs' nxt' where "relink v l (p, oth l) (hs, nxt[unat p := nxt ! unat l]) = Inr (hs', nxt')" "length hs' = length hs" "length nxt' = length nxt"
    "listed nxt' (own(p := own l)) (oth(p := oth l)) (insert p (L - {l})) v (hs' ! unat v)" "\<And>i. i \<noteq> unat v \<Longrightarrow> hs' ! i = hs ! i"
    "\<And>u c. u \<noteq> v \<Longrightarrow> listed nxt own oth L u c \<Longrightarrow> listed nxt' (own(p := own l)) (oth(p := oth l)) (insert p (L - {l})) u c"
proof -
  let ?nxt = "nxt[unat p := nxt ! unat l]" and ?own = "own(p := own l)" and ?oth = "oth(p := oth l)"
  obtain js where js: "distinct js" "set js = {j \<in> L. own j = v}" "linked nxt oth (hs ! unat v) js" using assms(1) by (auto simp: listed_def)
  have "l \<in> set js" using js(2) assms(2,4) by simp
  then obtain xs ys where s: "js = xs @ l # ys" by (meson split_list)
  have pj: "p \<notin> set js" using js(2) assms(3) by simp
  have upd: "linked ?nxt ?oth c zs" if "linked nxt oth c zs" "p \<notin> set zs" for c zs
  proof -
    have "\<And>j. j \<in> set zs \<Longrightarrow> oth j = ?oth j" using that(2) by auto
    then show ?thesis using linked_update [OF that] linked_cong [of zs oth ?oth ?nxt c] by blast
  qed
  have l: "linked ?nxt ?oth (hs ! unat v) (xs @ l # ys)" "distinct (xs @ l # ys)" using js s upd pj by simp_all
  have "linked nxt oth (nxt ! unat l) ys" using js(3) s linked_behind by blast
  then have "linked ?nxt ?oth (nxt ! unat l) ys" using upd pj s by simp
  then have z: "linked ?nxt ?oth (p, oth l) (p # ys)" using assms(6) by simp
  have dj: "set xs \<inter> set (p # ys) = {}" using l(2) pj s by auto
  obtain hs' nxt' where r: "relink v l (p, oth l) (hs, ?nxt) = Inr (hs', nxt')" "linked nxt' ?oth (hs' ! unat v) (xs @ p # ys)"
    "length hs' = length hs" "length nxt' = length ?nxt" "\<And>i. i \<noteq> unat v \<Longrightarrow> hs' ! i = hs ! i"
    "\<And>j. j \<notin> set xs \<Longrightarrow> nxt' ! unat j = ?nxt ! unat j"
    by (rule relink_ok [OF l assms(5) z dj]) blast
  have pl: "p \<noteq> l" using assms(2,3) by blast
  have "listed nxt' ?own ?oth (insert p (L - {l})) v (hs' ! unat v)"
    unfolding listed_def using r(2) l(2) js(2) s pj assms(4) pl by (intro exI [of _ "xs @ p # ys"]) auto
  moreover have "listed nxt' ?own ?oth (insert p (L - {l})) u c" if u: "u \<noteq> v" "listed nxt own oth L u c" for u c
  proof -
    obtain ks where ks: "distinct ks" "set ks = {j \<in> L. own j = u}" "linked nxt oth c ks" using u(2) by (auto simp: listed_def)
    have "p \<notin> set ks" using ks(2) assms(3) by simp
    then have "linked ?nxt ?oth c ks" using upd ks(3) by blast
    then have "linked nxt' ?oth c ks"
      by (rule linked_same [OF _ r(4)]) (use r(6) ks(2) js(2) s u(1) in auto)
    then show ?thesis unfolding listed_def using ks \<open>p \<notin> set ks\<close> u(1) assms(3,4) pl by (intro exI [of _ ks]) auto
  qed
  ultimately show thesis using that [OF r(1)] r(3-5) by simp
qed

lemma cp_edge_move:
  assumes "unat p < length (cp_keys st)"
  shows "cp_edge (st\<lparr>cp_keys := (cp_keys st)[unat p := cp_keys st ! unat l], cp_values := vs\<rparr>) = (cp_edge st)(p := cp_edge st l)"
  using assms by (auto simp: fun_eq_iff cp_edge_def nth_list_update simp flip: word_unat_eq_iff)

lemma moveLast_lists:
  assumes "cp_wf st" "cp_linked st L" "l \<in> L" "p \<notin> L" "unat p < length (cp_keys st)" "cp_edge st l = (hal, hbl)"
  obtains h1 h2 a b where "relink hal l (p, hbl) (cp_head st, (cp_nextAtA st)[unat p := cp_nextAtA st ! unat l]) = Inr (h1, a)"
    "relink hbl l (p, hal) (h1, (cp_nextAtB st)[unat p := cp_nextAtB st ! unat l]) = Inr (h2, b)"
    "length h2 = length (cp_head st)" "length a = length (cp_nextAtA st)" "length b = length (cp_nextAtB st)"
    "cp_linked (st\<lparr>cp_keys := (cp_keys st)[unat p := cp_keys st ! unat l], cp_values := vs, cp_head := h2, cp_nextAtA := a, cp_nextAtB := b\<rparr>) (insert p (L - {l}))"
proof -
  have ends: "unat hal < unat (cp_ma st)" "unat (cp_ma st) \<le> unat hbl" "unat hbl < cp_nodes st"
    using cp_edge_ends [OF assms(1), of l] assms(6) by simp_all
  have len: "length (cp_head st) = cp_nodes st" "unat p < length (cp_nextAtA st)" "unat p < length (cp_nextAtB st)"
    using assms(1,5) by (simp_all add: cp_wf_def)
  have A: "hal < cp_ma st" "unat hal < cp_nodes st" and B: "\<not> hbl < cp_ma st" using ends by (simp_all add: word_less_nat_alt)
  have ea: "endA st l = hal" "unat hal < length (cp_head st)" using assms(6) A len by simp_all
  let ?A = "(endA st)(p := endA st l)" and ?B = "(endB st)(p := endB st l)" and ?L = "insert p (L - {l})"
  obtain h1 a where r1: "relink hal l (p, endB st l) (cp_head st, (cp_nextAtA st)[unat p := cp_nextAtA st ! unat l]) = Inr (h1, a)"
    "length h1 = length (cp_head st)" "length a = length (cp_nextAtA st)" "listed a ?A ?B ?L hal (h1 ! unat hal)"
    "\<And>i. i \<noteq> unat hal \<Longrightarrow> h1 ! i = cp_head st ! i"
    "\<And>u c. u \<noteq> hal \<Longrightarrow> listed (cp_nextAtA st) (endA st) (endB st) L u c \<Longrightarrow> listed a ?A ?B ?L u c"
    by (rule listed_move [OF cp_linkedD(1) [OF assms(2) A(2,1)] assms(3,4) ea len(2)]) blast
  have "h1 ! unat hbl = cp_head st ! unat hbl" using r1(5) ends by simp
  then have lb: "listed (cp_nextAtB st) (endB st) (endA st) L hbl (h1 ! unat hbl)" using cp_linkedD(2) [OF assms(2) ends(3) B] by simp
  have eb: "endB st l = hbl" "unat hbl < length h1" using assms(6) r1(2) ends len by simp_all
  obtain h2 b where r2: "relink hbl l (p, endA st l) (h1, (cp_nextAtB st)[unat p := cp_nextAtB st ! unat l]) = Inr (h2, b)"
    "length h2 = length h1" "length b = length (cp_nextAtB st)" "listed b ?B ?A ?L hbl (h2 ! unat hbl)"
    "\<And>i. i \<noteq> unat hbl \<Longrightarrow> h2 ! i = h1 ! i"
    "\<And>u c. u \<noteq> hbl \<Longrightarrow> listed (cp_nextAtB st) (endB st) (endA st) L u c \<Longrightarrow> listed b ?B ?A ?L u c"
    by (rule listed_move [OF lb assms(3,4) eb len(3)]) blast
  let ?st = "st\<lparr>cp_keys := (cp_keys st)[unat p := cp_keys st ! unat l], cp_values := vs, cp_head := h2, cp_nextAtA := a, cp_nextAtB := b\<rparr>"
  have e: "endA ?st = ?A" "endB ?st = ?B" using cp_edge_move [OF assms(5), where l = l and vs = vs] by (auto simp: fun_eq_iff)
  have "cp_linked ?st ?L"
    unfolding cp_linked_def e
  proof (intro allI impI)
    fix v :: u32
    assume v: "unat v < cp_nodes ?st"
    show "if v < cp_ma ?st then listed (cp_nextAtA ?st) ?A ?B ?L v (cp_head ?st ! unat v)
      else listed (cp_nextAtB ?st) ?B ?A ?L v (cp_head ?st ! unat v)"
    proof (cases "v < cp_ma st")
      case True
      then have "h2 ! unat v = h1 ! unat v" using r2(5) ends by (simp add: word_less_nat_alt)
      then show ?thesis using True r1(4-6) cp_linkedD(1) [OF assms(2) _ True] v by (cases "v = hal") (simp_all flip: word_unat_eq_iff)
    next
      case False
      have "v \<noteq> hal" using False A(1) by blast
      then have "h1 ! unat v = cp_head st ! unat v" using r1(5) by (simp flip: word_unat_eq_iff)
      then show ?thesis using False r2(4-6) cp_linkedD(2) [OF assms(2) _ False] v by (cases "v = hbl") (simp_all flip: word_unat_eq_iff)
    qed
  qed
  then show thesis using that [of h1 a h2 b] r1(1-3) r2(1-3) ea(1) eb(1) by simp
qed

section \<open>Relabelling the edges\<close>

lemma conn_relabel:
  assumes "\<And>j. j \<in> K \<Longrightarrow> e' j = e (\<phi> j)"
  shows "conn e' K = conn e (\<phi> ` K)"
proof -
  have "(\<lambda>u v. \<exists>j\<in>K. joins e' j u v) = (\<lambda>u v. \<exists>j\<in>\<phi> ` K. joins e j u v)"
    using assms by (auto simp: joins_def fun_eq_iff)
  then show ?thesis by (simp add: conn_def)
qed

lemma bridges_relabel:
  assumes "\<And>j. j \<in> K \<Longrightarrow> e' j = e (\<phi> j)" "inj_on \<phi> K" "bridges e (\<phi> ` K)"
  shows "bridges e' K"
  unfolding bridges_def
proof (intro ballI allI impI)
  fix j u v
  assume j: "j \<in> K" "joins e' j u v"
  have "\<phi> ` (K - {j}) = \<phi> ` K - {\<phi> j}" using assms(2) j(1) by (auto simp: inj_on_def)
  then have "conn e' (K - {j}) = conn e (\<phi> ` K - {\<phi> j})" using conn_relabel [of "K - {j}" e' e \<phi>] assms(1) by simp
  moreover have "joins e (\<phi> j) u v" using j assms(1) by (simp add: joins_def)
  ultimately show "\<not> conn e' (K - {j}) u v" using assms(3) j(1) by (auto simp: bridges_def)
qed

section \<open>The disjoint set\<close>

text \<open>Whole trees of the structure get a new root each.\<close>

definition retree :: "(u32 \<rightharpoonup> u32) \<Rightarrow> (u32 \<Rightarrow> u32) \<Rightarrow> u32 \<Rightarrow> u32" where
  "retree T root x = (case T x of None \<Rightarrow> root x | Some r \<Rightarrow> r)"

lemma ds_wf_retree:
  assumes "ds_wf root h f" "length f' = length f" "\<And>x. unat x < length f \<Longrightarrow> f' ! unat x = (case T x of None \<Rightarrow> f ! unat x | Some r \<Rightarrow> r)"
    and "\<And>x r. unat x < length f \<Longrightarrow> T x = Some r \<Longrightarrow> unat r < length f \<and> T r = Some r"
    and "\<And>x y. unat x < length f \<Longrightarrow> unat y < length f \<Longrightarrow> root x = root y \<Longrightarrow> T x = None \<Longrightarrow> T y = None"
  shows "ds_wf (retree T root) (\<lambda>x. case T x of None \<Rightarrow> h x | Some r \<Rightarrow> if x = r then 0 else 1) f'"
  unfolding ds_wf_def assms(2)
proof (intro conjI allI impI)
  show len: "length f < 2 ^ 32" using assms(1) by (simp add: ds_wf_def)
  fix i :: u32
  assume i: "unat i < length f"
  show "let p = f' ! unat i in if p = - 1 \<or> p = i then retree T root i = i
    else unat p < length f \<and> retree T root i = retree T root p \<and>
      (case T p of None \<Rightarrow> h p | Some r \<Rightarrow> if p = r then 0 else 1) < (case T i of None \<Rightarrow> h i | Some r \<Rightarrow> if i = r then 0 else 1)"
  proof (cases "T i")
    case (Some r)
    have r: "unat r < length f" "T r = Some r" using assms(4) [OF i Some] by simp_all
    have "r \<noteq> - 1" by (rule not_minus_one [OF len r(1)])
    then show ?thesis using Some r assms(3) [OF i] by (auto simp: retree_def)
  next
    case None
    have e: "f' ! unat i = f ! unat i" using assms(3) [OF i] None by simp
    from assms(1) i show ?thesis
    proof (cases rule: ds_wf_cases)
      case (child p)
      then have "T p = None" using assms(5) [OF i child(4,5) None] by simp
      then show ?thesis using child None e by (simp add: retree_def)
    qed (use e None in \<open>simp_all add: retree_def\<close>)
  qed
qed

text \<open>Cutting the edge \<open>p\<close> of a forest: the two halves get their own roots.\<close>

lemma cut_roots:
  assumes "ds_wf root h f" "roots_conn (length f) root e K" "bridges e K" "p \<in> K" "joins e p a b"
    and "conn e (K - {p}) a ra" "conn e (K - {p}) b rb" "unat ra < length f" "unat rb < length f"
    and "length f' = length f" "\<And>x. unat x < length f \<Longrightarrow> f' ! unat x =
      (if conn e (K - {p}) b x then rb else if conn e (K - {p}) a x then ra else f ! unat x)"
  shows "\<exists>root' h'. ds_wf root' h' f' \<and> roots_conn (length f) root' e (K - {p}) \<and>
    (\<forall>x. unat x < length f \<longrightarrow> touched f (root x) \<longrightarrow> touched f' (root' x))"
proof -
  let ?C = "conn e (K - {p})"
  define T where "T x = (if ?C b x then Some rb else if ?C a x then Some ra else None)" for x
  have nab: "\<not> ?C a b" using assms(3-5) by (auto simp: bridges_def)
  have sy: "?C x y \<Longrightarrow> ?C y x" and tr: "?C x y \<Longrightarrow> ?C y z \<Longrightarrow> ?C x z" for x y z by (rule conn_sym conn_trans; assumption)+
  have K: "insert p (K - {p}) = K" using assms(4) by blast
  have split: "conn e K x y \<longleftrightarrow> ?C x y \<or> ?C x a \<and> ?C b y \<or> ?C x b \<and> ?C a y" for x y
    using conn_insert_iff [OF assms(5), of "K - {p}" x y] unfolding K .
  have Tn: "T x = None \<longleftrightarrow> \<not> conn e K a x" for x unfolding T_def split by auto
  have both: "\<not> (?C a x \<and> ?C b x)" for x using nab sy tr by blast
  have ne: "ra \<noteq> rb" using both [of ra] assms(6,7) by blast
  have T1: "T x = Some ra \<longleftrightarrow> ?C a x" "T x = Some rb \<longleftrightarrow> ?C b x" for x
    unfolding T_def using both [of x] ne by simp_all
  have T2: "T x = Some r \<Longrightarrow> r = ra \<or> r = rb" for x r by (auto simp: T_def split: if_splits)
  have Tr: "T x = Some r \<Longrightarrow> T r = Some r" for x r using T2 T1 assms(6,7) by blast
  have rc: "root x = root y \<longleftrightarrow> conn e K x y" if "unat x < length f" "unat y < length f" for x y
    using assms(2) that by (simp add: roots_conn_def)
  have wf: "ds_wf (retree T root) (\<lambda>x. case T x of None \<Rightarrow> h x | Some r \<Rightarrow> if x = r then 0 else 1) f'"
  proof (rule ds_wf_retree [OF assms(1,10)])
    show "f' ! unat x = (case T x of None \<Rightarrow> f ! unat x | Some r \<Rightarrow> r)" if "unat x < length f" for x
      using assms(11) [OF that] by (simp add: T_def)
    show "unat r < length f \<and> T r = Some r" if "T x = Some r" for x r
      using T2 [OF that] T1 assms(6-9) by auto
    show "T y = None" if "unat x < length f" "unat y < length f" "root x = root y" "T x = None" for x y
      using that rc conn_trans conn_sym unfolding Tn by metis
  qed
  have out: "T (root x) = None" "?C x (root x)" if x: "unat x < length f" "T x = None" for x
  proof -
    have "conn e K x (root x)" using rc [of x "root x"] ds_root [OF assms(1) x(1)] x(1) by simp
    moreover have "\<not> conn e K a x" using x(2) by (simp add: Tn)
    ultimately show "T (root x) = None" "?C x (root x)" unfolding Tn split [of x]
      using conn_trans conn_sym split by metis+
  qed
  have "roots_conn (length f) (retree T root) e (K - {p})"
    unfolding roots_conn_def
  proof (intro allI impI)
    fix u v :: u32
    assume uv: "unat u < length f" "unat v < length f"
    show "retree T root u = retree T root v \<longleftrightarrow> ?C u v"
    proof (cases "T u"; cases "T v")
      assume n: "T u = None" "T v = None"
      then have "\<not> ?C u a" "\<not> ?C u b" using sy by (auto simp: T_def split: if_splits)
      then show ?thesis using n rc [OF uv] split [of u v] by (simp add: retree_def)
    next
      fix r
      assume n: "T u = None" "T v = Some r"
      then have "root u \<noteq> r" using out(1) [OF uv(1) n(1)] Tr [OF n(2)] by auto
      moreover have "\<not> ?C u v" using n T2 [OF n(2)] T1 tr sy by (metis option.distinct(1))
      ultimately show ?thesis using n by (simp add: retree_def)
    next
      fix r
      assume n: "T u = Some r" "T v = None"
      then have "root v \<noteq> r" using out(1) [OF uv(2) n(2)] Tr [OF n(1)] by auto
      moreover have "\<not> ?C u v" using n T2 [OF n(1)] T1 tr sy by (metis option.distinct(1))
      ultimately show ?thesis using n by (auto simp: retree_def)
    next
      fix r r'
      assume n: "T u = Some r" "T v = Some r'"
      have "r = r' \<longleftrightarrow> ?C u v" using n T2 [OF n(1)] T2 [OF n(2)] T1 tr sy ne by (metis option.inject)
      then show ?thesis using n by (simp add: retree_def)
    qed
  qed
  moreover have "touched f' (retree T root x)" if x: "unat x < length f" "touched f (root x)" for x
  proof (cases "T x")
    case None
    then have "f' ! unat (root x) = f ! unat (root x)"
      using out(1) [OF x(1) None] assms(11) [of "root x"] x(2) by (auto simp: T_def touched_def split: if_splits)
    then show ?thesis using x(2) None assms(10) by (simp add: touched_def retree_def)
  next
    case (Some r)
    have len: "length f < 2 ^ 32" using assms(1) by (simp add: ds_wf_def)
    have r: "unat r < length f" "T r = Some r" using T2 [OF Some] T1 assms(6-9) by auto
    then have "f' ! unat r = r" using assms(11) [OF r(1)] by (auto simp: T_def split: if_splits)
    then show ?thesis using Some r(1) not_minus_one [OF len r(1)] assms(10) by (simp add: touched_def retree_def)
  qed
  ultimately show ?thesis using wf by blast
qed

text \<open>\<open>connectDFS\<close> makes one cell of a tree the root of all its cells.\<close>

lemma nth_update_unat: "unat w < length f \<Longrightarrow> f[unat w := r] ! unat x = (if x = w then r else f ! unat x)"
  by (auto simp: nth_list_update simp flip: word_unat_eq_iff)

lemma ds_set_fold:
  assumes "\<forall>(j, w, v)\<in>set os. unat w < length f"
  shows "\<exists>f'. rfold (\<lambda>(j, w, v) f. ds_set w r f) os f = Inr f' \<and> length f' = length f \<and>
    (\<forall>x. f' ! unat x = (if x \<in> new_nodes os then r else f ! unat x))"
  using assms
proof (induction os arbitrary: f)
  case (Cons c os)
  obtain j w v where c: "c = (j, w, v)" by (cases c)
  have w: "unat w < length f" using Cons.prems by (simp add: c)
  have b: "\<forall>(j, w', v)\<in>set os. unat w' < length (f[unat w := r])" using Cons.prems by simp
  obtain f' where f': "rfold (\<lambda>(j, w, v) f. ds_set w r f) os (f[unat w := r]) = Inr f'" "length f' = length f"
    "\<forall>x. f' ! unat x = (if x \<in> new_nodes os then r else f[unat w := r] ! unat x)"
    using Cons.IH [of "f[unat w := r]", OF b] by auto
  have "f' ! unat x = (if x \<in> new_nodes (c # os) then r else f ! unat x)" for x
    using f'(3) nth_update_unat [OF w] by (simp add: c)
  then show ?case using f'(1,2) w by (simp add: c ds_set_def)
qed simp

lemma chain_head: "chain m nxt c = Inr cs \<Longrightarrow> (fst c = - 1 \<longleftrightarrow> cs = []) \<and> (fst c \<noteq> - 1 \<longrightarrow> c \<in> set cs)"
  by (cases m) (auto split: if_splits elim!: rbindE)

lemma connectDFS_ok:
  assumes "cp_tree st n" "a \<in> cp_nodeset st"
  obtains f r where "connectDFS a st = Inr (st\<lparr>cp_connectivityForest := f\<rparr>)" "length f = cp_nodes st"
    "conn (cp_edge st) {j. unat j < n} a r" "r \<in> cp_nodeset st"
    "\<And>x. unat x < cp_nodes st \<Longrightarrow> f ! unat x = (if conn (cp_edge st) {j. unat j < n} a x then r else cp_connectivityForest st ! unat x)"
proof -
  let ?K = "{j :: u32. unat j < n}" and ?f = "cp_connectivityForest st"
  have wf: "cp_wf st" "cp_linked st ?K" "n \<le> length (cp_keys st)" using assms(1) by (simp_all add: cp_tree_def)
  have len: "length (cp_head st) = cp_nodes st" "length ?f = cp_nodes st" and a: "unat a < cp_nodes st"
    using wf assms(2) by (simp_all add: cp_wf_def cp_nodeset_def)
  obtain cs where cs: "cells_of st a = Inr cs" "set cs = {(j, w). j \<in> ?K \<and> joins (cp_edge st) j a w}"
    using cells_of_linked [OF wf(1,2) a] by blast
  let ?c = "cp_head st ! unat a"
  have ch: "(fst ?c = - 1 \<longleftrightarrow> cs = []) \<and> (fst ?c \<noteq> - 1 \<longrightarrow> ?c \<in> set cs)"
    using cs(1) a len(1) unfolding cells_of_def Let_def by (auto dest!: chain_head)
  show thesis
  proof (cases "fst ?c = - 1")
    case True
    then have "set cs = {}" using ch by simp
    then have none: "\<not> joins (cp_edge st) j a w" if "j \<in> ?K" for j w using cs(2) that by auto
    have "conn (cp_edge st) ?K a x \<longleftrightarrow> x = a" for x
      using conn_closed [of "cp_edge st" ?K a x "{a}"] none by blast
    then show thesis using that [of "?f[unat a := a]" a] True a len assms(2)
      by (simp add: connectDFS_def ds_set_def nth_list_update flip: word_unat_eq_iff)
  next
    case False
    define r where "r = (if cp_ma st < a then snd ?c else a)"
    have "?c \<in> set cs" using ch False by blast
    then have "fst ?c \<in> ?K" "joins (cp_edge st) (fst ?c) a (snd ?c)" unfolding cs(2) by (simp_all add: split_beta)
    then have cr: "conn (cp_edge st) ?K a (snd ?c)" "snd ?c \<in> cp_nodeset st"
      using conn_edge [of "fst ?c" ?K "cp_edge st"] cp_live_nodes [OF wf(1)] joins_sym by metis+
    then have ar: "conn (cp_edge st) ?K a r" and rn: "r \<in> cp_nodeset st" using assms(2) by (simp_all add: r_def)
    have p: "(- 1 :: u32) \<notin> ?K" using keys_not_all_ones [OF wf(1,3)] by simp
    then have K: "?K - {- 1} = ?K" by blast
    obtain os where os: "\<And>visit (t :: disjoint_set). dfs (cp_nodes st) (cells_of st) visit [(- 1, r)] t = rfold (\<lambda>(j, w, v). visit j w v) os t"
      "in_range st os" "insert r (new_nodes os) = {u. conn (cp_edge st) ?K r u}"
      by (rule cp_dfs [OF assms(1) rn disjI1 [OF p], unfolded K]) blast
    have ur: "unat r < length ?f" using rn len by (simp add: cp_nodeset_def)
    have "\<forall>(j, w, v)\<in>set os. unat w < length (?f[unat r := r])" using os(2) len by (auto simp: in_range_def cp_nodeset_def)
    then obtain f where f: "rfold (\<lambda>(j, w, v) f. ds_set w r f) os (?f[unat r := r]) = Inr f" "length f = length ?f"
      "\<And>x. f ! unat x = (if x \<in> new_nodes os then r else ?f[unat r := r] ! unat x)"
      using ds_set_fold [of os "?f[unat r := r]" r] by auto
    have run: "connectDFS a st = Inr (st\<lparr>cp_connectivityForest := f\<rparr>)"
    proof -
      have "ds_set r r ?f = Inr (?f[unat r := r])" using ur by (simp add: ds_set_def)
      then show ?thesis using False a len f(1) os(1) by (simp add: connectDFS_def r_def [symmetric] Let_def)
    qed
    have "conn (cp_edge st) ?K a x \<longleftrightarrow> x \<in> insert r (new_nodes os)" for x
      unfolding os(3) using conn_trans [OF ar, of x] conn_trans [OF conn_sym [OF ar], of x] by blast
    then have fin: "f ! unat x = (if conn (cp_edge st) ?K a x then r else ?f ! unat x)" for x
      using f(3) nth_update_unat [OF ur] by simp
    show thesis by (rule that [OF run _ ar rn fin]) (use f(2) len(2) in simp)
  qed
qed

section \<open>Removing a key\<close>

text \<open>The place of the removed key is filled by the last one.\<close>

definition moved :: "u32 \<Rightarrow> u32 \<Rightarrow> u32 \<Rightarrow> u32" where
  "moved p l j = (if j = p then l else j)"

lemma moved_image:
  assumes "unat l = m" "unat p < Suc m"
  shows "moved p l ` {j. unat j < m} = {j. unat j < Suc m} - {p}" "inj_on (moved p l) {j. unat j < m}"
proof -
  show "inj_on (moved p l) {j. unat j < m}" using assms(1) by (auto simp: inj_on_def moved_def split: if_splits)
  have "j \<in> moved p l ` {j. unat j < m}" if "unat j < Suc m" "j \<noteq> p" for j
  proof (cases "j = l")
    case True
    then have "unat p \<noteq> m" using that(2) assms(1) by (auto simp: word_unat_eq_iff)
    then show ?thesis using True assms(2) by (intro image_eqI [of _ _ p]) (auto simp: moved_def)
  next
    case False
    then have "unat j < m" using that(1) assms(1) by (auto simp: less_Suc_eq word_unat_eq_iff)
    then show ?thesis using that(2) by (intro image_eqI [of _ _ j]) (auto simp: moved_def)
  qed
  moreover have "moved p l j \<in> {j. unat j < Suc m} - {p}" if "unat j < m" for j
    using that assms by (auto simp: moved_def word_unat_eq_iff)
  ultimately show "moved p l ` {j. unat j < m} = {j. unat j < Suc m} - {p}"
    by (intro equalityI subsetI) (elim imageE, simp, simp)
qed

lemma remove_moved:
  assumes "cp_inv st" "cp_n st = Suc m" "unat l = m" "unat p < Suc m"
    and "length h = length (cp_head st)" "length a = length (cp_nextAtA st)" "length b = length (cp_nextAtB st)"
  defines "st1 \<equiv> st\<lparr>cp_nKeysInOthello := l, cp_head := h, cp_nextAtA := a, cp_nextAtB := b\<rparr>"
  assumes "cp_linked st1 ({j. unat j < Suc m} - {p})"
  obtains st2 where "(if p \<noteq> l then moveLastKey p l st1 else Inr st1) = Inr st2" "cp_tree st2 m" "cp_filled st2 {j. unat j < m}"
    "cp_nKeysInOthello st2 = l" "cp_connectivityForest st2 = cp_connectivityForest st" "cp_ma st2 = cp_ma st" "cp_mb st2 = cp_mb st"
    "\<And>j. unat j < m \<Longrightarrow> cp_edge st2 j = cp_edge st (moved p l j)"
    "cp_keys st2 = (cp_keys st)[unat p := cp_keys st ! m]" "cp_values st2 = (cp_values st)[unat p := cp_values st ! m]"
proof -
  note inv = cp_invD [OF assms(1)] and im = moved_image [OF assms(3,4)]
  let ?K = "{j :: u32. unat j < Suc m}" and ?K' = "{j :: u32. unat j < m}"
  have wf1: "cp_wf st1" using inv(1) assms(2,3,5-7) by (simp add: cp_wf_def st1_def)
  have m: "m < length (cp_keys st)" using inv(5) assms(2) by simp
  have br: "bridges (cp_edge st) (moved p l ` ?K')" unfolding im(1) using inv(4) assms(2) by (auto intro: bridges_mono)
  have ok: "edge_ok (cp_edge st) (cp_val st) (cpV st) j" "edge_ok (cp_edge st) id (cpI st) j" if "unat j < Suc m" for j
    using inv(3) assms(2) that by (simp_all add: cp_filled_def)
  show thesis
  proof (cases "p = l")
    case True
    have mv: "moved p l j = j" for j using True by (simp add: moved_def)
    then have K: "?K - {p} = ?K'" using im(1) by (simp add: image_def)
    have "cp_tree st1 m" using wf1 assms(9) br m unfolding K by (simp add: cp_tree_def st1_def mv)
    moreover have "cp_filled st1 ?K'" using ok by (simp add: cp_filled_def st1_def cp_val_def [abs_def])
    ultimately show thesis using that [of st1] True assms(3) mv by (simp add: st1_def moved_def)
  next
    case False
    have pu: "unat p < m" using False assms(3,4) by (auto simp: less_Suc_eq word_unat_eq_iff)
    have p: "unat p < length (cp_keys st1)" using pu m by (simp add: st1_def)
    have l: "l \<in> ?K - {p}" "p \<notin> ?K - {p}" using False assms(3) by auto
    obtain hal hbl where e: "cp_edge st1 l = (hal, hbl)" by (cases "cp_edge st1 l")
    let ?ks = "(cp_keys st1)[unat p := cp_keys st1 ! unat l]" and ?vs = "(cp_values st1)[unat p := cp_values st1 ! unat l]"
    obtain h1 h2 a' b' where r: "relink hal l (p, hbl) (cp_head st1, (cp_nextAtA st1)[unat p := cp_nextAtA st1 ! unat l]) = Inr (h1, a')"
      "relink hbl l (p, hal) (h1, (cp_nextAtB st1)[unat p := cp_nextAtB st1 ! unat l]) = Inr (h2, b')"
      "length h2 = length (cp_head st1)" "length a' = length (cp_nextAtA st1)" "length b' = length (cp_nextAtB st1)"
      "cp_linked (st1\<lparr>cp_keys := ?ks, cp_values := ?vs, cp_head := h2, cp_nextAtA := a', cp_nextAtB := b'\<rparr>) (insert p (?K - {p} - {l}))"
      by (rule moveLast_lists [OF wf1 assms(9) l p e])
    let ?s = "st1\<lparr>cp_keys := ?ks, cp_values := ?vs, cp_head := h2, cp_nextAtA := a', cp_nextAtB := b'\<rparr>"
    have es: "cp_edge ?s j = cp_edge st (moved p l j)" for j
      using cp_edge_move [OF p, where l = l and vs = ?vs] by (simp add: moved_def) (simp add: st1_def)
    have K: "insert p (?K - {p} - {l}) = ?K'" using pu assms(3) by (auto simp: less_Suc_eq word_unat_eq_iff)
    have "cp_wf ?s" using wf1 r(3-5) by (simp add: cp_wf_def)
    moreover have "bridges (cp_edge ?s) ?K'" by (rule bridges_relabel [OF es im(2) br])
    ultimately have t: "cp_tree ?s m" using r(6) m unfolding K by (simp add: cp_tree_def) (simp add: st1_def)
    have ep: "cp_edge ?s p = (hal, hbl)" using es [of p] e by (simp add: moved_def st1_def)
    obtain x st2 where f: "fixHalfTreeDFS False True True p hal hbl ?s = Inr (x, st2)"
      "fills ?s st2 (xored False (halfTree ?s m p hal) (cpV ?s hal XOR (cp_val ?s p XOR cpV ?s hbl)) (cpV ?s))
        (xored True (halfTree ?s m p hal) (cpI ?s hal XOR (p XOR cpI ?s hbl)) (cpI ?s))"
      by (rule fixHalfTreeDFS_ok [OF t pu ep, of False True True])
    note fr = fills_frame [OF f(2)]
    have val: "cp_val ?s j = cp_val st (moved p l j)" for j
      using p wf1 by (simp add: cp_val_def moved_def nth_update_unat cp_wf_def) (simp add: st1_def)
    have mvj: "unat (moved p l j) < Suc m" if "unat j < m" for j using that assms(3) by (simp add: moved_def)
    have "edge_ok (cp_edge ?s) (cp_val ?s) (cpV ?s) j" if "unat j < m" for j
      using ok(1) [OF mvj [OF that]] unfolding edge_ok_def es val by (simp add: st1_def)
    moreover have "edge_ok (cp_edge ?s) id (cpI ?s) j" if "unat j < m" "j \<noteq> p" for j
      using ok(2) [OF mvj [OF that(1)]] that(2) unfolding edge_ok_def es by (simp add: st1_def moved_def)
    ultimately have "cp_filled st2 ?K'" by (intro cp_filled_fix [OF t pu ep f(2)]) blast+
    moreover have "moveLastKey p l st1 = Inr st2"
    proof -
      have "cp_getIndices st1 (cp_keys st1 ! unat l) = (hal, hbl)" using e by (simp add: cp_edge_def)
      moreover have "unat l < length (cp_keys st1)" "unat l < length (cp_values st1)" "unat p < length (cp_values st1)"
        "unat l < length (cp_nextAtA st1)" "unat l < length (cp_nextAtB st1)" "unat p < length (cp_nextAtA st1)" "unat p < length (cp_nextAtB st1)"
        using wf1 m p assms(3) by (simp_all add: cp_wf_def) (simp_all add: st1_def)
      ultimately show ?thesis using p r(1,2) f(1) by (simp add: moveLastKey_def)
    qed
    moreover have "cp_edge st2 j = cp_edge st (moved p l j)" for j unfolding fr(1) by (rule es)
    moreover have "cp_tree st2 m" using t fr(14) by blast
    ultimately show thesis using that [of st2] False fr(3-6,11,12) assms(3) by (simp add: st1_def)
  qed
qed

lemma cp_abs_iff: "cp_inv st \<Longrightarrow> cp_abs st x = Some w \<longleftrightarrow> (\<exists>i<cp_n st. cp_keys st ! i = x \<and> cp_values st ! i = w)"
  using cp_abs_Some [of st x w] cp_abs_nth [of st] by metis

lemma option_ext: "(\<And>w. a = Some w \<longleftrightarrow> b = Some w) \<Longrightarrow> a = b"
  by (cases a; cases b) auto

lemma cp_abs_remove:
  assumes "cp_inv st" "cp_inv st'" "i < cp_n st" "cp_n st = Suc m" "cp_n st' = m"
    and "cp_keys st' = (cp_keys st)[i := cp_keys st ! m]" "cp_values st' = (cp_values st)[i := cp_values st ! m]"
  shows "cp_abs st' = (cp_abs st)(cp_keys st ! i := None)"
proof
  note inv = cp_invD [OF assms(1)]
  fix x
  have d: "cp_keys st ! j \<noteq> cp_keys st ! j'" if "j < Suc m" "j' < Suc m" "j \<noteq> j'" for j j'
    using cp_inv_distinct [OF assms(1)] that assms(4) inv(5) by (auto simp: distinct_conv_nth)
  have m: "i < length (cp_keys st)" "i < length (cp_values st)" using assms(3) inv(5,6) by simp_all
  have nth: "cp_keys st' ! j = cp_keys st ! (if j = i then m else j)" "cp_values st' ! j = cp_values st ! (if j = i then m else j)" for j
    using m assms(6,7) by (auto simp: nth_list_update)
  have "cp_abs st' x = Some w \<longleftrightarrow> x \<noteq> cp_keys st ! i \<and> cp_abs st x = Some w" for w
  proof
    assume "cp_abs st' x = Some w"
    then obtain j where j: "j < m" "cp_keys st' ! j = x" "cp_values st' ! j = w" using cp_abs_iff [OF assms(2)] assms(5) by metis
    let ?j = "if j = i then m else j"
    have "?j < Suc m" "?j \<noteq> i" using j(1) assms(3,4) by auto
    then show "x \<noteq> cp_keys st ! i \<and> cp_abs st x = Some w"
      using d [of ?j i] assms(3,4) cp_abs_iff [OF assms(1)] j(2,3) nth [of j] by metis
  next
    assume x: "x \<noteq> cp_keys st ! i \<and> cp_abs st x = Some w"
    then obtain j where j: "j < Suc m" "cp_keys st ! j = x" "cp_values st ! j = w" using cp_abs_iff [OF assms(1)] assms(4) by metis
    let ?j = "if j = m then i else j"
    have "j \<noteq> i" using x j(2) by blast
    then have "?j < m" "(if ?j = i then m else ?j) = j" using j(1) assms(3,4) by auto
    then show "cp_abs st' x = Some w" using cp_abs_iff [OF assms(2), of x w] assms(5) j(2,3) nth [of ?j] by auto
  qed
  then show "cp_abs st' x = ((cp_abs st)(cp_keys st ! i := None)) x" by (intro option_ext) simp
qed

text \<open>The repair of the disjoint set after the cut.\<close>

lemma reconnect_ok:
  assumes "cp_inv st" "cp_n st = Suc m" "unat l = m" "unat p < Suc m" "cp_edge st p = (ha, hb)"
    and "cp_tree st2 m" "cp_filled st2 {j. unat j < m}" "cp_nKeysInOthello st2 = l" "cp_connectivityForest st2 = cp_connectivityForest st"
    and "cp_ma st2 = cp_ma st" "cp_mb st2 = cp_mb st" "\<And>j. unat j < m \<Longrightarrow> cp_edge st2 j = cp_edge st (moved p l j)"
  obtains f1 f2 where "connectDFS ha st2 = Inr (st2\<lparr>cp_connectivityForest := f1\<rparr>)"
    "connectDFS hb (st2\<lparr>cp_connectivityForest := f1\<rparr>) = Inr (st2\<lparr>cp_connectivityForest := f2\<rparr>)"
    "cp_inv (st2\<lparr>cp_connectivityForest := f2\<rparr>)"
proof -
  note inv = cp_invD [OF assms(1)] and im = moved_image [OF assms(3,4)]
  let ?K = "{j :: u32. unat j < Suc m}" and ?K' = "{j :: u32. unat j < m}" and ?f = "cp_connectivityForest st"
  let ?C = "conn (cp_edge st) (?K - {p})"
  have C: "conn (cp_edge st2) ?K' = ?C" using conn_relabel [of ?K' "cp_edge st2" "cp_edge st" "moved p l"] assms(12) im(1) by simp
  have ns: "cp_nodeset st2 = cp_nodeset st" "cp_nodes st2 = cp_nodes st" using assms(10,11) by (simp_all add: cp_nodeset_def)
  have N: "ha \<in> cp_nodeset st" "hb \<in> cp_nodeset st" using cp_edge_ends [OF inv(1), of p] assms(5) by (simp_all add: cp_nodeset_def)
  have len: "length ?f = cp_nodes st" using inv(1) by (simp add: cp_wf_def)
  obtain f1 ra where r1: "connectDFS ha st2 = Inr (st2\<lparr>cp_connectivityForest := f1\<rparr>)" "length f1 = cp_nodes st2"
    "conn (cp_edge st2) ?K' ha ra" "ra \<in> cp_nodeset st2"
    "\<And>x. unat x < cp_nodes st2 \<Longrightarrow> f1 ! unat x = (if conn (cp_edge st2) ?K' ha x then ra else cp_connectivityForest st2 ! unat x)"
    using connectDFS_ok [OF assms(6), of ha] N(1) ns(1) by metis
  let ?st3 = "st2\<lparr>cp_connectivityForest := f1\<rparr>"
  have t3: "cp_tree ?st3 m" using assms(6) r1(2) by (simp add: cp_tree_def cp_wf_def)
  have N3: "hb \<in> cp_nodeset ?st3" using N(2) ns(1) by (simp add: cp_nodeset_def)
  obtain f2 rb where r2: "connectDFS hb ?st3 = Inr (?st3\<lparr>cp_connectivityForest := f2\<rparr>)" "length f2 = cp_nodes ?st3"
    "conn (cp_edge ?st3) ?K' hb rb" "rb \<in> cp_nodeset ?st3"
    "\<And>x. unat x < cp_nodes ?st3 \<Longrightarrow> f2 ! unat x = (if conn (cp_edge ?st3) ?K' hb x then rb else cp_connectivityForest ?st3 ! unat x)"
    using connectDFS_ok [OF t3 N3] by metis
  let ?st4 = "st2\<lparr>cp_connectivityForest := f2\<rparr>"
  obtain root h where w: "ds_wf root h ?f" "roots_conn (cp_nodes st) root (cp_edge st) ?K"
    "\<And>j. j \<in> ?K \<Longrightarrow> touched ?f (root (endA st j))"
    using inv(2) assms(2) by (auto simp: cp_graph_def cp_forest_def)
  have j: "joins (cp_edge st) p ha hb" using assms(5) by (simp add: joins_def)
  have c: "?C ha ra" "?C hb rb" "unat ra < length ?f" "unat rb < length ?f" "length f2 = length ?f"
    using r1(3,4) r2(2-4) C ns len by (simp_all add: cp_nodeset_def)
  have fx: "f2 ! unat x = (if ?C hb x then rb else if ?C ha x then ra else ?f ! unat x)" if "unat x < length ?f" for x
    using r1(5) [of x] r2(5) [of x] that len ns(2) C assms(9) by simp
  have rc: "roots_conn (length ?f) root (cp_edge st) ?K" "bridges (cp_edge st) ?K" "p \<in> ?K" using w(2) inv(4) assms(2,4) len by simp_all
  obtain root' h' where w': "ds_wf root' h' f2" "roots_conn (cp_nodes st) root' (cp_edge st) (?K - {p})"
    "\<And>x. unat x < cp_nodes st \<Longrightarrow> touched ?f (root x) \<Longrightarrow> touched f2 (root' x)"
    using cut_roots [OF w(1) rc j c fx] len by auto
  have "cp_forest ?st4 ?K'"
    unfolding cp_forest_def
  proof (intro conjI exI)
    show "bridges (cp_edge ?st4) ?K'" using assms(6) by (simp add: cp_tree_def)
    show "ds_wf root' h' (cp_connectivityForest ?st4)" using w'(1) by simp
    show "roots_conn (cp_nodes ?st4) root' (cp_edge ?st4) ?K'" using w'(2) C ns by (simp add: roots_conn_def)
    show "\<forall>j\<in>?K'. touched (cp_connectivityForest ?st4) (root' (endA ?st4 j))"
    proof
      fix j :: u32
      assume "j \<in> ?K'"
      then have m: "moved p l j \<in> ?K" "endA ?st4 j = endA st (moved p l j)" using im(1) assms(12) by (auto simp: moved_def assms(3))
      have "unat (endA st (moved p l j)) < cp_nodes st" using cp_edge_ends(1) [OF inv(1), of "moved p l j"] by simp
      then show "touched (cp_connectivityForest ?st4) (root' (endA ?st4 j))" unfolding m(2) using w(3) [OF m(1)] w'(3) by simp
    qed
  qed
  then have "cp_graph ?st4 m" using assms(6) r2(2) by (simp add: cp_graph_def cp_tree_def cp_wf_def)
  moreover have "cp_filled ?st4 ?K'" using assms(7) by (simp add: cp_filled_def cp_val_def [abs_def])
  ultimately have "cp_inv ?st4" using assms(3,8) by (simp add: cp_inv_def)
  then show thesis using that r1(1) r2(1) by simp
qed

lemma remove_present:
  assumes "cp_inv st" "i < cp_n st"
  obtains r st' where "cp_remove (cp_keys st ! i) (- 1) st = Inr (r, st')" "cp_inv st'" "or_status r = 0"
    "cp_abs st' = (cp_abs st)(cp_keys st ! i := None)" "cp_n st' = cp_n st - 1"
proof -
  note inv = cp_invD [OF assms(1)] and e = cp_edge_member [OF assms]
  define m where "m = cp_n st - 1"
  define l where "l = cp_nKeysInOthello st - 1"
  let ?p = "of_nat i :: u32" and ?k = "cp_keys st ! i"
  have n: "cp_n st = Suc m" using assms(2) by (simp add: m_def)
  have "cp_nKeysInOthello st \<noteq> 0" using n by auto
  then have l: "unat l = m" by (simp add: l_def m_def unat_minus_one)
  have p: "unat ?p < Suc m" "unat ?p = i" using e(2) assms(2) n by simp_all
  obtain ha hb where h: "cp_edge st ?p = (ha, hb)" by (cases "cp_edge st ?p")
  let ?st0 = "st\<lparr>cp_nKeysInOthello := l\<rparr>"
  have "cp_linked st {j. unat j < Suc m}" using inv(2) n by (simp add: cp_graph_def)
  then have u: "cp_wf ?st0" "cp_linked ?st0 {j. unat j < Suc m}" "?p \<in> {j. unat j < Suc m}" "cp_edge ?st0 ?p = (ha, hb)"
    using inv(1) l n p h by (simp_all add: cp_wf_def)
  obtain hs a b where r1: "unlinkKey ?p ha hb ?st0 = Inr (?st0\<lparr>cp_head := hs, cp_nextAtA := a, cp_nextAtB := b\<rparr>)"
    "length hs = length (cp_head ?st0)" "length a = length (cp_nextAtA ?st0)" "length b = length (cp_nextAtB ?st0)"
    "cp_linked (?st0\<lparr>cp_head := hs, cp_nextAtA := a, cp_nextAtB := b\<rparr>) ({j. unat j < Suc m} - {?p})"
    by (rule unlinkKey_ok [OF u])
  let ?st1 = "?st0\<lparr>cp_head := hs, cp_nextAtA := a, cp_nextAtB := b\<rparr>"
  have lens: "length hs = length (cp_head st)" "length a = length (cp_nextAtA st)" "length b = length (cp_nextAtB st)" using r1(2-4) by simp_all
  obtain st2 where r2: "(if ?p \<noteq> l then moveLastKey ?p l ?st1 else Inr ?st1) = Inr st2" "cp_tree st2 m" "cp_filled st2 {j. unat j < m}"
    "cp_nKeysInOthello st2 = l" "cp_connectivityForest st2 = cp_connectivityForest st" "cp_ma st2 = cp_ma st" "cp_mb st2 = cp_mb st"
    "\<And>j. unat j < m \<Longrightarrow> cp_edge st2 j = cp_edge st (moved ?p l j)"
    "cp_keys st2 = (cp_keys st)[i := cp_keys st ! m]" "cp_values st2 = (cp_values st)[i := cp_values st ! m]"
    using remove_moved [OF assms(1) n l p(1) lens r1(5)] unfolding p(2) by metis
  obtain f1 f2 where r3: "connectDFS ha st2 = Inr (st2\<lparr>cp_connectivityForest := f1\<rparr>)"
    "connectDFS hb (st2\<lparr>cp_connectivityForest := f1\<rparr>) = Inr (st2\<lparr>cp_connectivityForest := f2\<rparr>)"
    "cp_inv (st2\<lparr>cp_connectivityForest := f2\<rparr>)"
    by (rule reconnect_ok [OF assms(1) n l p(1) h r2(2-8)])
  let ?st4 = "st2\<lparr>cp_connectivityForest := f2\<rparr>"
  have N: "unat ha < cp_nodes ?st4" "unat hb < cp_nodes ?st4" using cp_edge_ends [OF inv(1), of ?p] h r2(6,7) by simp_all
  have mg: "\<exists>x. memGet 1 (cp_mem ?st4) v = Inr x" if "unat v < cp_nodes ?st4" for v
    using memGet_bits(1) [OF cp_mem_ok [OF cp_invD(1) [OF r3(3)]] that] by blast
  obtain ea eb where q: "cp_isEmpty ?st4 ha = Inr ea" "cp_isEmpty ?st4 hb = Inr eb"
    using mg [OF N(1)] mg [OF N(2)] by (auto simp: cp_isEmpty_def)
  have gi: "cp_getIndices st ?k = (ha, hb)" using e(1) h by simp
  have lt: "\<not> cp_nKeysInOthello st \<le> ?p" "i < length (cp_keys st)" using assms(2) p(2) inv(5) by (simp_all add: word_le_nat_alt)
  have "cp_remove ?k (- 1) st = Inr (no_result\<lparr>or_marks := (if ea then sint ha else - 1, if eb then sint hb else - 1)\<rparr>, ?st4)"
    using cp_inv_lookups(2) [OF assms] lt p(2) gi r1(1) r2(1) r3(1,2) q by (simp add: cp_remove_def Let_def l_def [symmetric])
  moreover have "cp_abs ?st4 = (cp_abs st)(?k := None)"
    by (rule cp_abs_remove [OF assms(1) r3(3) assms(2) n]) (use r2(4,9,10) l in simp_all)
  ultimately show thesis using that r3(3) r2(4) l n by (simp add: no_result_def)
qed

text \<open>Stored or not: the key is gone afterwards, and nothing else has changed.\<close>

lemma cp_remove_ok:
  assumes "cp_inv st"
  shows "\<exists>r st'. cp_remove k (- 1) st = Inr (r, st') \<and> cp_inv st' \<and> cp_abs st' = (cp_abs st)(k := None)"
proof (cases "cp_abs st k")
  case None
  obtain ix where ix: "lookUpIndex st k = Inr ix" using lookUpIndex_returns [OF cp_invD(1) [OF assms]] by blast
  have "cp_isMember st k = Inr False" using cp_isMember_abs [OF assms] None by simp
  then have "ix < cp_nKeysInOthello st \<Longrightarrow> cp_keys st ! unat ix \<noteq> k"
    using ix cp_invD(5) [OF assms] by (auto simp: cp_isMember_def word_less_nat_alt)
  then have "cp_remove k (- 1) st = Inr (no_result, st)"
    using ix cp_invD(5) [OF assms] by (auto simp: cp_remove_def word_less_nat_alt not_le)
  then show ?thesis using assms None by (auto simp: fun_eq_iff)
next
  case (Some b)
  obtain i where "i < cp_n st" "k = cp_keys st ! i" by (rule cp_abs_Some [OF assms Some])
  then show ?thesis using remove_present [OF assms] by metis
qed

text \<open>
  (C17) Removing a key. On a built Othello \<open>remove(k)\<close> returns, the entry of \<open>k\<close> is gone from the map it
  stores and every other entry is as before (although the last key has moved to another index and one
  tree has fallen in two), and the Othello stays built: each remaining key looks up its bit, and the
  disjoint set again answers what the edges connect, so that the next insertion may trust it.
\<close>
theorem remove_correct:
  assumes "cp_inv st"
  shows "\<exists>r st'. cp_remove k (- 1) st = Inr (r, st') \<and> cp_inv st' \<and> cp_abs st' = (cp_abs st)(k := None) \<and>
    (\<forall>k' b. k' \<noteq> k \<longrightarrow> cp_abs st k' = Some b \<longrightarrow> cp_lookUp st' k' = Inr (take_bit 1 b)) \<and> cp_isMember st' k = Inr False"
proof -
  obtain r st' where r: "cp_remove k (- 1) st = Inr (r, st')" "cp_inv st'" "cp_abs st' = (cp_abs st)(k := None)"
    using cp_remove_ok [OF assms, of k] by blast
  then have "cp_lookUp st' k' = Inr (take_bit 1 b)" if "k' \<noteq> k" "cp_abs st k' = Some b" for k' b
    using cp_lookUp_abs [OF r(2)] that by simp
  then show ?thesis using r cp_isMember_abs [OF r(2), of k] by auto
qed

text \<open>The only key of an Othello is removed.\<close>

theorem remove_correct_witness:
  "\<exists>st r st'. cp_abs st = [7 \<mapsto> 1] \<and> cp_remove 7 (- 1) st = Inr (r, st') \<and> cp_inv st' \<and> cp_abs st' = Map.empty \<and> cp_isMember st' 7 = Inr False"
proof -
  obtain st where "cp_inv st" "cp_abs st = [7 \<mapsto> 1]" using one_key_state by blast
  then show ?thesis using remove_correct [of st 7] by auto
qed

end
