(* ===== verification/Othello_Grow.thy ===== *)
theory Othello_Grow
  imports Othello_Remove
begin

text \<open>
  Growing an Othello: \<open>resizeCapacity\<close>, \<open>build\<close>, the constructor, and the insertion that may rebuild.
  The sizes are computed in floating point; the bound shown here, that array A is never smaller than
  array B, is what keeps the reserved arrays from wrapping.
\<close>

section \<open>Sizes\<close>

lemma next_ma_ge: "0 < mb \<Longrightarrow> mb \<le> next_ma mb"
proof -
  assume mb: "0 < mb"
  let ?m = "6004829527158177 :: nat"
  define s where "s = (2 :: nat) ^ (bit_length (mb * ?m) - 53)"
  have lo: "mb * ?m < dbl_prod mb ?m + s" unfolding s_def by (rule dbl_prod_lower)
  have "s = 1 \<or> s * 2 ^ 52 \<le> mb * ?m" unfolding s_def using dbl_unit [of mb ?m] mb by simp
  then have "mb * 2 ^ 52 \<le> dbl_prod mb ?m" using lo mb by auto
  then show ?thesis unfolding next_ma_def dbl_trunc_def by (simp add: less_eq_div_iff_mult_less_eq)
qed

lemma double_until_ge: "0 < n \<Longrightarrow> n \<le> double_until n t \<and> t \<le> double_until n t"
proof (induction n t rule: double_until.induct)
  case (1 n t)
  then show ?case by (cases "t \<le> n") (auto simp: double_until.simps [of n t])
qed

lemma length_vresize [simp]: "length (vresize n d xs) = n"
  by (simp add: vresize_def)

lemma take_vresize: "m \<le> length xs \<Longrightarrow> m \<le> n \<Longrightarrow> take m (vresize n d xs) = take m xs"
  by (simp add: vresize_def min_absorb1)

lemma length_ds_resize [simp]: "length (ds_resize n mem) = n"
  by (simp add: ds_resize_def)

section \<open>Resizing\<close>

text \<open>The arrays by key, which the constructor sets up before the arrays by cell exist.\<close>

definition cp_lens :: "othello_cp \<Rightarrow> bool" where
  "cp_lens st \<longleftrightarrow> cp_n st \<le> length (cp_keys st) \<and> length (cp_keys st) < 2 ^ 32 \<and> length (cp_values st) = length (cp_keys st) \<and>
     length (cp_nextAtA st) = length (cp_keys st) \<and> length (cp_nextAtB st) = length (cp_keys st)"

definition same_content :: "othello_cp \<Rightarrow> othello_cp \<Rightarrow> bool" where
  "same_content st st' \<longleftrightarrow> cp_nKeysInOthello st' = cp_nKeysInOthello st \<and>
     take (cp_n st) (cp_keys st') = take (cp_n st) (cp_keys st) \<and> take (cp_n st) (cp_values st') = take (cp_n st) (cp_values st)"

lemma same_content_refl: "same_content st st"
  by (simp add: same_content_def)

lemma same_content_trans: "same_content st st1 \<Longrightarrow> same_content st1 st2 \<Longrightarrow> same_content st st2"
  by (simp add: same_content_def)

lemma same_content_abs: "same_content st st' \<Longrightarrow> cp_abs st' = cp_abs st"
  by (simp add: same_content_def cp_abs_def)

lemma cp_wf_lens: "cp_wf st \<Longrightarrow> cp_lens st"
  by (simp add: cp_wf_def cp_lens_def)

text \<open>Longer arrays by key; the entries in use stay where they are.\<close>

abbreviation cp_reserve :: "nat \<Rightarrow> othello_cp \<Rightarrow> othello_cp" where
  "cp_reserve r st \<equiv> st\<lparr>cp_keys := vresize r 0 (cp_keys st), cp_values := vresize r 0 (cp_values st),
     cp_nextAtA := vresize r (0, 0) (cp_nextAtA st), cp_nextAtB := vresize r (0, 0) (cp_nextAtB st)\<rparr>"

lemma nth_vresize: "i < length xs \<Longrightarrow> length xs \<le> r \<Longrightarrow> vresize r d xs ! i = xs ! i"
  by (simp add: vresize_def nth_append)

lemma linked_longer:
  "linked nxt oth c js \<Longrightarrow> length nxt \<le> r \<Longrightarrow> linked (vresize r d nxt) oth c js"
  by (induction nxt oth c js rule: linked.induct) (auto simp: nth_vresize)

lemma cp_inv_reserve:
  assumes "cp_inv st" "length (cp_keys st) \<le> r" "r < 2 ^ 32"
  shows "cp_inv (cp_reserve r st)"
proof -
  note inv = cp_invD [OF assms(1)]
  let ?st = "cp_reserve r st" and ?K = "{j :: u32. unat j < cp_n st}"
  have e: "cp_edge ?st j = cp_edge st j" "cp_val ?st j = cp_val st j" if "j \<in> ?K" for j
    using that inv(5,6) assms(2) by (simp_all add: cp_edge_def cp_val_def cp_getIndices_def nth_vresize)
  have listed: "listed (vresize r d nxt) own' oth' ?K v c"
    if "listed nxt own oth ?K v c" "length nxt = length (cp_keys st)" "\<And>j. j \<in> ?K \<Longrightarrow> own j = own' j \<and> oth j = oth' j" for nxt d own own' oth oth' v c
  proof -
    have "listed (vresize r d nxt) own oth ?K v c" using that(1,2) assms(2) linked_longer unfolding listed_def by metis
    then show ?thesis using listed_cong [of ?K own own' oth oth', OF that(3)] by blast
  qed
  have "cp_linked st ?K" using inv(2) by (simp add: cp_graph_def)
  then have "cp_linked ?st ?K"
    using listed [of "cp_nextAtA st" "endA st" "endB st" _ _ "endA ?st" "endB ?st"] listed [of "cp_nextAtB st" "endB st" "endA st" _ _ "endB ?st" "endA ?st"]
      inv(8,9) e(1) unfolding cp_linked_def by simp
  moreover have "cp_forest ?st ?K" by (rule cp_forest_cong [of ?K ?st st]) (use e(1) inv(2) in \<open>simp_all add: cp_graph_def\<close>)
  moreover have "cp_wf ?st" using inv(1,5) assms(2,3) by (simp add: cp_wf_def)
  moreover have "cp_filled ?st ?K" using inv(3) e unfolding cp_filled_def edge_ok_def by simp
  ultimately show ?thesis using inv(5) assms(2) by (simp add: cp_inv_def cp_graph_def)
qed

lemma cp_resize_ok:
  assumes "cp_resize target st = Inr (c, st')" "cp_wf st \<or> cp_lens st \<and> cp_ma st = 0"
  shows "cp_wf st' \<and> same_content st st' \<and> (\<not> c \<longrightarrow> st' = st \<or> (\<exists>r. length (cp_keys st) \<le> r \<and> r < 2 ^ 32 \<and> st' = cp_reserve r st))"
proof -
  have lens: "cp_lens st" using assms(2) cp_wf_lens by blast
  define t where "t = max (cp_nKeysInOthello st) (max target 256)"
  define nb where "nb = (if cp_compact st then unat t else double_until 256 (unat t))"
  define na where "na = next_ma nb"
  define r where "r = unat (max 256 (t * (if cp_compact st then 1 else 2)))"
  define st1 where "st1 = (if length (cp_keys st) < unat t
     then st\<lparr>cp_keys := vresize r 0 (cp_keys st), cp_values := vresize r 0 (cp_values st),
             cp_nextAtA := vresize r (0, 0) (cp_nextAtA st), cp_nextAtB := vresize r (0, 0) (cp_nextAtB st)\<rparr> else st)"
  have t: "cp_n st \<le> unat t" "256 \<le> unat t" by (auto simp: t_def max_def word_le_nat_alt)
  have nb: "256 \<le> nb" "unat t \<le> nb" using t(2) double_until_ge [of 256 "unat t"] by (auto simp: nb_def)
  have na: "nb \<le> na" unfolding na_def using nb(1) by (intro next_ma_ge) simp
  have g: "na + nb < 2 ^ 32" using assms(1) unfolding cp_resize_def Let_def t_def [symmetric] nb_def [symmetric] na_def [symmetric]
    by (auto split: if_splits)
  have eq: "(if unat (cp_ma st) < na \<or> na * 2 ^ 52 < dbl_prod (unat (cp_ma st)) 3602879701896397
    then Inr (True, st1\<lparr>cp_integrity := False, cp_ma := of_nat na, cp_mb := of_nat nb,
      cp_mem := vresize (mem_words 1 (of_nat na) (of_nat nb)) 0 (cp_mem st), cp_indMem := vresize (na + nb) 0 (cp_indMem st),
      cp_head := vresize (na + nb) (0, 0) (cp_head st), cp_connectivityForest := ds_resize (na + nb) (cp_connectivityForest st)\<rparr>)
    else Inr (False, st1)) = (Inr (c, st') :: (bool \<times> othello_cp) res)"
  proof -
    have "\<not> 2 ^ 32 \<le> na + nb" using g by simp
    then show ?thesis
      using assms(1) unfolding cp_resize_def Let_def t_def [symmetric] nb_def [symmetric] na_def [symmetric] r_def [symmetric] st1_def [symmetric]
      by (simp only: if_False)
  qed
  have t31: "unat t < 2 ^ 31" using na nb(2) g by simp
  then have "unat (t * 2) = 2 * unat t" by (simp add: unat_word_ariths)
  then have r: "unat t \<le> r" "r < 2 ^ 32" using t(2) t31 by (auto simp: r_def max_def word_le_nat_alt split: if_splits)
  have l1: "cp_lens st1" and c1: "same_content st st1"
    using lens r t(1) by (simp_all add: st1_def cp_lens_def same_content_def take_vresize)
  have un: "unat (of_nat na :: u32) = na" "unat (of_nat nb :: u32) = nb" using g by (simp_all add: unat_of_nat_u32)
  show ?thesis
  proof (cases "unat (cp_ma st) < na \<or> na * 2 ^ 52 < dbl_prod (unat (cp_ma st)) 3602879701896397")
    case True
    then have s: "st' = st1\<lparr>cp_integrity := False, cp_ma := of_nat na, cp_mb := of_nat nb,
      cp_mem := vresize (mem_words 1 (of_nat na) (of_nat nb)) 0 (cp_mem st), cp_indMem := vresize (na + nb) 0 (cp_indMem st),
      cp_head := vresize (na + nb) (0, 0) (cp_head st), cp_connectivityForest := ds_resize (na + nb) (cp_connectivityForest st)\<rparr>"
      using eq by simp
    have "(of_nat na :: u32) \<noteq> 0" "(of_nat nb :: u32) \<noteq> 0" using un nb na by auto
    moreover have c using eq True by simp
    ultimately show ?thesis using s l1 c1 g un by (simp add: cp_wf_def cp_lens_def same_content_def)
  next
    case False
    then have "cp_ma st \<noteq> 0" using na nb by auto
    then have "cp_wf st" using assms(2) by blast
    then have "cp_wf st1" using l1 by (simp add: st1_def cp_wf_def cp_lens_def)
    moreover have "st1 = st \<or> (\<exists>r. length (cp_keys st) \<le> r \<and> r < 2 ^ 32 \<and> st1 = cp_reserve r st)"
      unfolding st1_def using r by (cases "length (cp_keys st) < unat t") (auto intro!: exI [of _ r])
    ultimately show ?thesis using eq False c1 by simp
  qed
qed

section \<open>Building\<close>

lemma cp_inv_integrity [simp]: "cp_inv (st\<lparr>cp_integrity := g\<rparr>) = cp_inv st"
  by (simp add: cp_inv_def cp_graph_def cp_wf_def cp_filled_def cp_val_def [abs_def])

lemma cp_wf_hab [simp]: "cp_wf (st\<lparr>cp_hab := s\<rparr>) = cp_wf st"
  by (simp add: cp_wf_def)

text \<open>One round of tries: it stops at the first seed under which the keys form a forest.\<close>

abbreviation good_seed :: "othello_cp \<Rightarrow> u64 \<Rightarrow> bool" where
  "good_seed st s \<equiv> bridges (cp_edge (st\<lparr>cp_hab := s\<rparr>)) (cp_live st)"

lemma good_seed_cong:
  assumes "cp_keys st' = cp_keys st" "cp_nKeysInOthello st' = cp_nKeysInOthello st" "cp_ma st' = cp_ma st" "cp_mb st' = cp_mb st"
  shows "good_seed st' s = good_seed st s"
proof -
  have "cp_edge (st'\<lparr>cp_hab := s\<rparr>) = cp_edge (st\<lparr>cp_hab := s\<rparr>)" using assms by (simp add: fun_eq_iff cp_edge_def cp_getIndices_def)
  then show ?thesis using assms(2) by (simp add: cp_live_def)
qed

lemma tryBuild_seed:
  assumes "cp_wf st"
  obtains st' where "tryBuild (st\<lparr>cp_hab := s\<rparr>) = Inr (good_seed st s, st')" "cp_wf st'" "good_seed st s \<Longrightarrow> cp_inv st'"
    "cp_keys st' = cp_keys st" "cp_values st' = cp_values st" "cp_nKeysInOthello st' = cp_nKeysInOthello st" "cp_ma st' = cp_ma st" "cp_mb st' = cp_mb st"
proof -
  let ?st = "st\<lparr>cp_hab := s\<rparr>"
  have wf: "cp_wf ?st" using assms by simp
  obtain b st' where b: "tryBuild ?st = Inr (b, st')" "b \<longleftrightarrow> bridges (cp_edge ?st) (cp_live ?st)" "cp_wf st'" "b \<Longrightarrow> cp_inv st'"
    "cp_keys st' = cp_keys ?st" "cp_values st' = cp_values ?st" "cp_nKeysInOthello st' = cp_nKeysInOthello ?st"
    "cp_hab st' = cp_hab ?st" "cp_ma st' = cp_ma ?st" "cp_mb st' = cp_mb ?st"
    by (rule tryBuild_ok [OF wf]) blast
  moreover have "cp_live ?st = cp_live st" by (simp add: cp_live_def)
  ultimately show thesis using that [of st'] by simp
qed

lemma build_tries_ok:
  assumes "build_tries m rnd st = Inr (b, rnd', st')" "cp_wf st"
  shows "cp_wf st' \<and> (b \<longrightarrow> cp_inv st') \<and> cp_keys st' = cp_keys st \<and> cp_values st' = cp_values st \<and> cp_nKeysInOthello st' = cp_nKeysInOthello st"
  using assms
proof (induction m rnd st rule: build_tries.induct)
  case (3 m s rnd st)
  obtain st1 where t: "tryBuild (st\<lparr>cp_hab := s\<rparr>) = Inr (good_seed st s, st1)" "cp_wf st1" "good_seed st s \<Longrightarrow> cp_inv st1"
    "cp_keys st1 = cp_keys st" "cp_values st1 = cp_values st" "cp_nKeysInOthello st1 = cp_nKeysInOthello st"
    by (rule tryBuild_seed [OF "3.prems"(2), of s]) blast
  show ?case
  proof (cases "good_seed st s")
    case True
    then show ?thesis using "3.prems"(1) t by auto
  next
    case False
    have "build_tries m rnd st1 = Inr (b, rnd', st')" using "3.prems"(1) t(1) False by simp
    from "3.IH" [OF t(1) refl False this t(2)] show ?thesis using t by simp
  qed
qed auto

lemma build_tries_returns:
  assumes "cp_wf st" "j < m" "j < length rnd" "good_seed st (rnd ! j)"
  shows "\<exists>rnd' st'. build_tries m rnd st = Inr (True, rnd', st')"
  using assms
proof (induction m rnd st arbitrary: j rule: build_tries.induct)
  case (3 m s rnd st)
  obtain st1 where t: "tryBuild (st\<lparr>cp_hab := s\<rparr>) = Inr (good_seed st s, st1)" "cp_wf st1"
    "cp_keys st1 = cp_keys st" "cp_nKeysInOthello st1 = cp_nKeysInOthello st" "cp_ma st1 = cp_ma st" "cp_mb st1 = cp_mb st"
    by (rule tryBuild_seed [OF "3.prems"(1), of s])
  show ?case
  proof (cases "good_seed st s")
    case False
    then obtain j' where j: "j = Suc j'" using "3.prems"(4) by (cases j) auto
    have "good_seed st1 (rnd ! j')" using "3.prems"(4) j good_seed_cong [OF t(3-6)] by simp
    then show ?thesis using "3.IH" [OF t(1) refl _ t(2), of j'] "3.prems"(2,3) j False t(1) by simp
  qed (use t(1) in simp)
qed auto

lemma build_loop_ok:
  assumes "build_loop fuel rnd st = Inr (rnd', st')" "cp_wf st"
  shows "cp_inv st' \<and> same_content st st'"
  using assms
proof (induction fuel arbitrary: rnd st rnd' st')
  case (Suc fuel)
  obtain b rnd1 st1 where t: "build_tries 5 rnd st = Inr (b, rnd1, st1)" using Suc.prems(1) by (auto elim!: rbindE)
  have t1: "cp_wf st1" "b \<Longrightarrow> cp_inv st1" "same_content st st1"
    using build_tries_ok [OF t Suc.prems(2)] by (auto simp: same_content_def)
  show ?case
  proof (cases b)
    case True
    then show ?thesis using Suc.prems(1) t t1 by (auto simp: same_content_def)
  next
    case False
    let ?t = "dbl_trunc (length (cp_keys st1)) 748723438050345 49"
    obtain c st2 rnd2 st3 where r: "cp_resize (of_nat ?t) st1 = Inr (c, st2)" "build_loop fuel rnd1 st2 = Inr (rnd2, st3)"
      "build_loop fuel rnd2 st3 = Inr (rnd', st')"
      using Suc.prems(1) t False by (auto simp: Let_def split: if_splits elim!: rbindE)
    have s2: "cp_wf st2" "same_content st1 st2" using cp_resize_ok [OF r(1)] t1(1) by simp_all
    have s3: "cp_inv st3" "same_content st2 st3" using Suc.IH [OF r(2) s2(1)] by simp_all
    then show ?thesis using Suc.IH [OF r(3) cp_invD(1) [OF s3(1)]] t1(3) s2(2) same_content_trans by blast
  qed
qed simp

text \<open>
  (C18) \<open>build\<close> with all its retries and enlargements. From arrays of matching sizes, whenever it returns the
  Othello is built over the same keys and values; and it does return when one of the first five seeds
  drawn makes the keys a forest.
\<close>
theorem build_correct:
  assumes "cp_wf st"
  shows "(\<forall>rnd' st'. cp_build rnd st = Inr (rnd', st') \<longrightarrow> cp_inv st' \<and> cp_abs st' = cp_abs st) \<and>
    (\<forall>j<5. j < length rnd \<longrightarrow> good_seed st (rnd ! j) \<longrightarrow> (\<exists>rnd' st'. cp_build rnd st = Inr (rnd', st') \<and> cp_inv st' \<and> cp_abs st' = cp_abs st))"
proof -
  have ok: "cp_inv st' \<and> cp_abs st' = cp_abs st" if "cp_build rnd st = Inr (rnd', st')" for rnd' st'
    using build_loop_ok [OF that [unfolded cp_build_def] assms] same_content_abs by blast
  moreover have "\<exists>rnd' st'. cp_build rnd st = Inr (rnd', st')" if j: "j < 5" "j < length rnd" "good_seed st (rnd ! j)" for j
    using build_tries_returns [OF assms j] by (auto simp: cp_build_def)
  ultimately show ?thesis by blast
qed

theorem build_correct_witness:
  "\<exists>rnd' st'. cp_build [11] one_key = Inr (rnd', st') \<and> cp_inv st' \<and> cp_abs st' = [7 \<mapsto> 1]"
proof -
  have "one_key\<lparr>cp_hab := 11\<rparr> = one_key" by (simp add: one_key_def)
  then have g: "good_seed one_key ([11] ! 0)" using one_key_forest by simp
  have "cp_abs one_key = [7 \<mapsto> 1]" by (simp add: cp_abs_def one_key_def One_nat_def)
  then show ?thesis using build_correct [OF one_key_wf, of "[11]"] g by auto
qed

section \<open>Inserting with permission to rebuild\<close>

lemma cp_resizeCapacity_ok:
  assumes "cp_resizeCapacity target True False rnd st = Inr (rnd', st')" "cp_wf st \<or> cp_lens st \<and> cp_ma st = 0"
  shows "cp_inv st' \<and> cp_abs st' = cp_abs st"
proof -
  obtain c st1 where r: "cp_resize target st = Inr (c, st1)" "cp_build rnd st1 = Inr (rnd', st')"
    using assms(1) by (auto simp: cp_resizeCapacity_def split: if_splits elim!: rbindE)
  have s: "cp_wf st1" "same_content st st1" using cp_resize_ok [OF r(1) assms(2)] by simp_all
  have "cp_inv st' \<and> same_content st1 st'" by (rule build_loop_ok [OF r(2) [unfolded cp_build_def] s(1)])
  then show ?thesis using s(2) same_content_abs by metis
qed

text \<open>Without a forced build: rebuilt when the sizes change, otherwise at most given longer arrays.\<close>

lemma cp_reserve_abs: "cp_inv st \<Longrightarrow> length (cp_keys st) \<le> r \<Longrightarrow> cp_abs (cp_reserve r st) = cp_abs st"
  using cp_invD(5,6) [of st] by (simp add: cp_abs_def take_vresize)

lemma cp_resizeCapacity_keeps:
  assumes "cp_resizeCapacity target False False rnd st = Inr (rnd', st')" "cp_inv st"
  shows "cp_inv st' \<and> cp_abs st' = cp_abs st"
proof -
  obtain c st1 where r: "cp_resize target st = Inr (c, st1)" "(if c then cp_build rnd st1 else Inr (rnd, st1)) = Inr (rnd', st')"
    using assms(1) by (auto simp: cp_resizeCapacity_def split: if_splits elim!: rbindE)
  have s: "cp_wf st1" "same_content st st1" "\<not> c \<Longrightarrow> st1 = st \<or> (\<exists>r. length (cp_keys st) \<le> r \<and> r < 2 ^ 32 \<and> st1 = cp_reserve r st)"
    using cp_resize_ok [OF r(1)] cp_invD(1) [OF assms(2)] by simp_all
  show ?thesis
  proof (cases c)
    case True
    then have b: "cp_build rnd st1 = Inr (rnd', st')" using r(2) by simp
    have "cp_inv st' \<and> same_content st1 st'" by (rule build_loop_ok [OF b [unfolded cp_build_def] s(1)])
    then show ?thesis using s(2) same_content_abs by metis
  next
    case False
    then show ?thesis using s(3) r(2) assms(2) cp_inv_reserve cp_reserve_abs by auto
  qed
qed

text \<open>The key that closes a cycle: stored first, then everything is built anew.\<close>

lemma cp_abs_snoc:
  fixes v :: u8
  assumes "cp_inv st" "cp_abs st k = None" "cp_n st < length (cp_keys st)"
  defines "st' \<equiv> st\<lparr>cp_keys := (cp_keys st)[cp_n st := k], cp_values := (cp_values st)[cp_n st := v], cp_nKeysInOthello := cp_nKeysInOthello st + 1\<rparr>"
  shows "cp_wf st'" "cp_abs st' = (cp_abs st)(k \<mapsto> v)"
proof -
  note inv = cp_invD [OF assms(1)]
  have un: "unat (cp_nKeysInOthello st + 1) = Suc (cp_n st)" using assms(3) inv(7) by (simp add: unat_word_ariths)
  then show "cp_wf st'" using inv(1) assms(3) by (simp add: st'_def cp_wf_def)
  have "take (Suc (cp_n st)) ((cp_keys st)[cp_n st := k]) = take (cp_n st) (cp_keys st) @ [k]"
    "take (Suc (cp_n st)) ((cp_values st)[cp_n st := v]) = take (cp_n st) (cp_values st) @ [v]"
    using assms(3) inv(6) by (simp_all add: take_Suc_conv_app_nth)
  moreover have "k \<notin> set (take (cp_n st) (cp_keys st))" using cp_abs_dom [OF assms(1)] assms(2) by auto
  ultimately show "cp_abs st' = (cp_abs st)(k \<mapsto> v)"
    using map_of_zip_snoc [of "take (cp_n st) (cp_values st)" "take (cp_n st) (cp_keys st)" k v] inv(5,6) assms(3) un
    by (simp add: cp_abs_def st'_def)
qed

lemma insert_rec_offline:
  assumes "insert_rec fuel k v False rnd st = Inr (r, rnd', st')" "cp_inv st"
  shows "cp_inv st' \<and> cp_abs st' = (cp_abs st)(k \<mapsto> v) \<and> or_status r \<in> {0, 1, 2}"
  using assms
proof (induction fuel arbitrary: rnd st r rnd' st')
  case (Suc fuel)
  consider "cp_abs st k \<noteq> None" | "cp_abs st k = None" "\<not> cp_full st" "\<not> cp_cyclic st k"
    | (full) "cp_abs st k = None" "cp_full st" | (cyc) "cp_abs st k = None" "\<not> cp_full st" "cp_cyclic st k" by blast
  then show ?case
  proof cases
    case 1
    then show ?thesis using insert_member [OF Suc.prems(2) 1, of fuel v False rnd] Suc.prems(1) by auto
  next
    case 2
    then show ?thesis using insert_fresh [OF Suc.prems(2) 2, of fuel v False rnd] Suc.prems(1) by auto
  next
    case full
    have "cp_isMember st k = Inr False" using cp_isMember_abs [OF Suc.prems(2)] full(1) by simp
    then obtain rnd1 st1 r1 where s: "cp_resizeCapacity (cp_nKeysInOthello st * 4) True False rnd st = Inr (rnd1, st1)"
      "insert_rec fuel k v False rnd1 st1 = Inr (r1, rnd', st')" "r = r1\<lparr>or_status := 2\<rparr>"
      using Suc.prems(1) full(2) by (auto simp: Let_def split: if_splits elim!: rbindE)
    have "cp_inv st1" "cp_abs st1 = cp_abs st" using cp_resizeCapacity_ok [OF s(1)] cp_invD(1) [OF Suc.prems(2)] by simp_all
    then show ?thesis using Suc.IH [OF s(2)] s(3) by simp
  next
    case cyc
    obtain ha hb where gi: "cp_getIndices st k = (ha, hb)" by (cases "cp_getIndices st k")
    obtain f where f: "isConnectedDFS ha hb st = Inr (conn (cp_edge st) {j. unat j < cp_n st} ha hb, st\<lparr>cp_connectivityForest := f\<rparr>)"
      "cp_inv (st\<lparr>cp_connectivityForest := f\<rparr>)" "cp_abs (st\<lparr>cp_connectivityForest := f\<rparr>) = cp_abs st"
      by (rule isConnectedDFS_ok [OF Suc.prems(2) gi])
    let ?st = "st\<lparr>cp_connectivityForest := f\<rparr>"
    let ?st1 = "?st\<lparr>cp_keys := (cp_keys ?st)[cp_n ?st := k], cp_values := (cp_values ?st)[cp_n ?st := v], cp_nKeysInOthello := cp_nKeysInOthello ?st + 1\<rparr>"
    have m: "cp_isMember st k = Inr False" using cp_isMember_abs [OF Suc.prems(2)] cyc(1) by simp
    have c: "conn (cp_edge st) {j. unat j < cp_n st} ha hb" using cyc(3) gi by (simp add: cp_cyclic_def)
    have lt: "cp_n st < length (cp_keys st)" "cp_n st < length (cp_values st)" using cyc(2) cp_invD(6) [OF Suc.prems(2)] by auto
    have b: "cp_build rnd ?st1 = Inr (rnd', st')" "r = no_result\<lparr>or_status := 1\<rparr>"
      using Suc.prems(1) m cyc(2) gi f(1) c lt by (auto simp: Let_def elim!: rbindE)
    have h: "cp_abs ?st k = None" "cp_n ?st < length (cp_keys ?st)" using f(3) cyc(1) lt by simp_all
    note sn = cp_abs_snoc [OF f(2) h, of v]
    have "cp_inv st' \<and> same_content ?st1 st'" by (rule build_loop_ok [OF b(1) [unfolded cp_build_def] sn(1)])
    then show ?thesis using same_content_abs [of ?st1 st'] sn(2) f(3) b(2) by simp
  qed
qed simp

text \<open>
  (C19) Inserting with permission to rebuild. Whenever \<open>insert(k, v)\<close> returns on a built Othello, with or
  without a rebuild or an enlargement on the way, the Othello is built, its map is the old one with \<open>k\<close>
  at \<open>v\<close>, and the status is 0, 1 or 2, never an error. It returns at once, drawing no seed, for a key
  that is stored or whose edge closes no cycle while there is room.
\<close>
theorem insert_offline_correct:
  assumes "cp_inv st"
  shows "(\<forall>r rnd' st'. cp_insert k v False rnd st = Inr (r, rnd', st') \<longrightarrow>
      cp_inv st' \<and> cp_abs st' = (cp_abs st)(k \<mapsto> v) \<and> or_status r \<in> {0, 1, 2}) \<and>
    (cp_abs st k \<noteq> None \<or> \<not> cp_full st \<and> \<not> cp_cyclic st k \<longrightarrow>
      (\<exists>r st'. cp_insert k v False rnd st = Inr (r, rnd, st') \<and> cp_abs st' = (cp_abs st)(k \<mapsto> v) \<and> or_status r = 0))"
proof -
  have 3: "cp_insert = insert_rec (Suc 2)" by (simp add: cp_insert_def numeral_3_eq_3 numeral_2_eq_2)
  have "cp_inv st' \<and> cp_abs st' = (cp_abs st)(k \<mapsto> v) \<and> or_status r \<in> {0, 1, 2}" if "cp_insert k v False rnd st = Inr (r, rnd', st')" for r rnd' st'
    by (rule insert_rec_offline [OF _ assms]) (use that in \<open>simp only: cp_insert_def\<close>)
  moreover have "\<exists>r st'. cp_insert k v False rnd st = Inr (r, rnd, st') \<and> cp_abs st' = (cp_abs st)(k \<mapsto> v) \<and> or_status r = 0"
    if "cp_abs st k \<noteq> None \<or> \<not> cp_full st \<and> \<not> cp_cyclic st k"
    using that insert_member [OF assms, of k 2 v False rnd] insert_fresh [OF assms, of k 2 v False rnd] unfolding 3 by blast
  ultimately show ?thesis by blast
qed

theorem insert_offline_correct_witness:
  "\<exists>r st'. cp_insert 7 1 False [] empty_cp = Inr (r, [], st') \<and> cp_abs st' = [7 \<mapsto> 1] \<and> or_status r = 0"
  using insert_offline_correct [OF empty_cp_inv, of 7 1 "[]"] empty_cp_fresh by simp

section \<open>Construction, export, clearing\<close>

lemma constructor_ok:
  assumes "ControlPlaneOthello cap c keys vals rnd = Inr (rnd', st)" "length keys < 2 ^ 32"
  shows "cp_inv st \<and> cp_abs st = map_of (zip (take (min (min (length keys) (length vals)) (unat cap)) keys) (take (min (min (length keys) (length vals)) (unat cap)) vals))"
proof -
  define n where "n = min (of_nat (min (length keys) (length vals))) cap"
  have "unat (of_nat (min (length keys) (length vals)) :: u32) = min (length keys) (length vals)" using assms(2) by (intro unat_of_nat_u32) simp
  then have n: "unat n = min (min (length keys) (length vals)) (unat cap)" by (simp add: n_def min_def word_le_nat_alt)
  let ?st = "\<lparr>cp_ma = 0, cp_mb = 0, cp_mem = [], cp_hab = 0, cp_keys = take (unat n) keys, cp_values = take (unat n) vals, cp_indMem = [],
        cp_head = [], cp_nextAtA = replicate (unat n) (0, 0), cp_nextAtB = replicate (unat n) (0, 0), cp_connectivityForest = [],
        cp_nKeysInOthello = n, cp_compact = c, cp_integrity = True\<rparr>"
  have r: "cp_resizeCapacity (max cap n) True False rnd ?st = Inr (rnd', st)" using assms(1) by (simp add: ControlPlaneOthello_def n_def Let_def)
  have "cp_lens ?st" using n assms(2) by (simp add: cp_lens_def)
  from cp_resizeCapacity_ok [OF r] this have "cp_inv st \<and> cp_abs st = cp_abs ?st" by simp
  then show ?thesis using n by (simp add: cp_abs_def)
qed

text \<open>A data plane made from a built control plane answers like it.\<close>

lemma export_ok:
  assumes "cp_inv st"
  shows "od_wf (DataPlaneOthello st)" "od_quiet (DataPlaneOthello st)"
    "cp_abs st k = Some b \<Longrightarrow> ucast (locator_bit (DataPlaneOthello st) k) = take_bit 1 b"
proof -
  show wf: "od_wf (DataPlaneOthello st)" using cp_invD(1) [OF assms] by (simp add: DataPlaneOthello_def fullSync_def od_wf_def cp_wf_def)
  show q: "od_quiet (DataPlaneOthello st)" by (simp add: DataPlaneOthello_def fullSync_def od_quiet_def)
  assume "cp_abs st k = Some b"
  then have "cp_lookUp st k = Inr (take_bit 1 b)" by (rule cp_lookUp_abs [OF assms])
  then show "ucast (locator_bit (DataPlaneOthello st) k) = take_bit 1 b"
    unfolding cp_lookUp_returns [OF cp_invD(1) [OF assms]]
    by (simp add: locator_bit_def DataPlaneOthello_def fullSync_def cp_getIndices_def split_beta)
qed

text \<open>
  \<open>clear\<close> only resets the number of keys. The lists and the disjoint set keep the old edges: a key stored
  before is not a member any more, but its two cells are still connected.
\<close>

lemma cleared_key:
  assumes "cp_inv st" "cp_abs st k = Some v"
  obtains ha hb f where "cp_isMember (cp_clear st) k = Inr False" "cp_getIndices (cp_clear st) k = (ha, hb)"
    "isConnectedDFS ha hb (cp_clear st) = Inr (True, (cp_clear st)\<lparr>cp_connectivityForest := f\<rparr>)"
    "cp_wf (st\<lparr>cp_connectivityForest := f\<rparr>)" "0 < length (cp_keys st)" "cp_mb st \<noteq> 0"
proof -
  note inv = cp_invD [OF assms(1)]
  obtain i where i: "i < cp_n st" "k = cp_keys st ! i" by (rule cp_abs_Some [OF assms]) blast
  note m = cp_edge_member [OF assms(1) i(1)]
  obtain ha hb where gi: "cp_getIndices st k = (ha, hb)" by (cases "cp_getIndices st k")
  then have e: "joins (cp_edge st) (of_nat i) ha hb" using m(1) i(2) by (simp add: joins_def)
  have c: "conn (cp_edge st) {j. unat j < cp_n st} ha hb" by (rule conn_edge [OF _ e]) (use m(2) i(1) in simp)
  have ab: "unat ha < cp_nodes st" "unat hb < cp_nodes st" using cp_edge_ends [OF inv(1), of "of_nat i"] m(1) gi i(2) by simp_all
  obtain f where f: "sameSet ha hb (cp_connectivityForest st) = Inr (conn (cp_edge st) {j. unat j < cp_n st} ha hb, f)"
    "cp_graph (st\<lparr>cp_connectivityForest := f\<rparr>) (cp_n st)"
    by (rule cp_graph_forest [OF inv(2) ab])
  have "isConnectedDFS ha hb (cp_clear st) = Inr (True, (cp_clear st)\<lparr>cp_connectivityForest := f\<rparr>)"
    using f(1) c by (simp add: isConnectedDFS_def cp_clear_def)
  moreover have "cp_isMember (cp_clear st) k = Inr False"
    using lookUpIndex_returns [OF inv(1), of k] by (simp add: cp_isMember_def cp_clear_def lookUpIndex_def cp_getIndices_def)
  moreover have "cp_getIndices (cp_clear st) k = (ha, hb)" using gi by (simp add: cp_clear_def)
  moreover have "0 < length (cp_keys st)" "cp_mb st \<noteq> 0" using i(1) inv(1,5) by (auto simp: cp_wf_def)
  ultimately show thesis using that [of ha hb f] f(2) by (simp add: cp_graph_def)
qed

text \<open>So an insertion that may not rebuild refuses such a key, although the Othello is empty.\<close>

lemma clear_refuses_old_keys:
  assumes "cp_inv st" "cp_abs st k = Some v"
  shows "\<exists>r st'. cp_insert k v' True rnd (cp_clear st) = Inr (r, rnd, st') \<and> or_status r = - 1"
proof -
  obtain ha hb f where c: "cp_isMember (cp_clear st) k = Inr False" "cp_getIndices (cp_clear st) k = (ha, hb)"
    "isConnectedDFS ha hb (cp_clear st) = Inr (True, (cp_clear st)\<lparr>cp_connectivityForest := f\<rparr>)" "0 < length (cp_keys st)" "cp_mb st \<noteq> 0"
    by (rule cleared_key [OF assms]) blast
  have z: "cp_nKeysInOthello (cp_clear st) = 0" "cp_keys (cp_clear st) = cp_keys st" "cp_mb (cp_clear st) = cp_mb st" by (simp_all add: cp_clear_def)
  show ?thesis using c by (simp add: cp_insert_def numeral_3_eq_3 Let_def no_result_def z)
qed

text \<open>An insertion that may rebuild does so, and leaves the Othello built with that key alone.\<close>

lemma clear_insert_rebuilds:
  assumes "cp_inv st" "cp_abs st k = Some v" "cp_insert k v' False rnd (cp_clear st) = Inr (r, rnd', st')"
  shows "cp_inv st' \<and> cp_abs st' = [k \<mapsto> v'] \<and> or_status r = 1"
proof -
  obtain ha hb f where c: "cp_isMember (cp_clear st) k = Inr False" "cp_getIndices (cp_clear st) k = (ha, hb)"
    "isConnectedDFS ha hb (cp_clear st) = Inr (True, (cp_clear st)\<lparr>cp_connectivityForest := f\<rparr>)" "cp_wf (st\<lparr>cp_connectivityForest := f\<rparr>)"
    "0 < length (cp_keys st)" "cp_mb st \<noteq> 0"
    by (rule cleared_key [OF assms(1,2)])
  have z: "cp_nKeysInOthello (cp_clear st) = 0" "cp_keys (cp_clear st) = cp_keys st" "cp_mb (cp_clear st) = cp_mb st" "cp_values (cp_clear st) = cp_values st"
    by (simp_all add: cp_clear_def)
  let ?st = "(cp_clear st)\<lparr>cp_connectivityForest := f, cp_keys := (cp_keys st)[0 := k], cp_values := (cp_values st)[0 := v'], cp_nKeysInOthello := 1\<rparr>"
  have lv: "0 < length (cp_values st)" using c(5) cp_invD(6) [OF assms(1)] by simp
  have b: "cp_build rnd ?st = Inr (rnd', st')" "r = no_result\<lparr>or_status := 1\<rparr>"
    using assms(3) c lv by (auto simp: cp_insert_def numeral_3_eq_3 Let_def z elim!: rbindE)
  have wf: "cp_wf ?st" using c(4,5) by (simp add: cp_wf_def cp_clear_def Suc_le_eq One_nat_def)
  have "cp_inv st' \<and> same_content ?st st'" by (rule build_loop_ok [OF b(1) [unfolded cp_build_def] wf])
  moreover have "cp_abs ?st = [k \<mapsto> v']" using c(5) lv by (simp add: cp_abs_def One_nat_def take_Suc hd_conv_nth neq_Nil_conv)
  ultimately show ?thesis using same_content_abs [of ?st st'] b(2) by simp
qed

section \<open>The Othello as a map\<close>

text \<open>The state of the store is the control plane with the values of \<open>rand()\<close> still to come.\<close>

definition othello_put :: "u64 \<Rightarrow> u8 \<Rightarrow> u64 list \<times> othello_cp \<Rightarrow> (u64 list \<times> othello_cp) res" where
  "othello_put k v = (\<lambda>(rnd, st). rbind (cp_insert k v False rnd st) (\<lambda>(r, rnd1, st1). Inr (rnd1, st1)))"

definition othello_del :: "u64 \<Rightarrow> u64 list \<times> othello_cp \<Rightarrow> (u64 list \<times> othello_cp) res" where
  "othello_del k = (\<lambda>(rnd, st). rbind (cp_remove k (- 1) st) (\<lambda>(r, st1). Inr (rnd, st1)))"

interpretation othello: map_store "\<lambda>s. cp_inv (snd s)" othello_put othello_del "\<lambda>s. cp_abs (snd s)"
proof
  fix m k v m' assume m: "cp_inv (snd m)" "othello_put k v m = Inr m'"
  obtain r where "cp_insert k v False (fst m) (snd m) = Inr (r, m')" using m(2) by (auto simp: othello_put_def split: prod.splits elim!: rbindE)
  then show "cp_inv (snd m') \<and> cp_abs (snd m') = (cp_abs (snd m))(k \<mapsto> v)"
    using insert_rec_offline [of 3 k v "fst m" "snd m" r "fst m'" "snd m'"] m(1) by (simp add: cp_insert_def)
next
  fix m k m' assume m: "cp_inv (snd m)" "othello_del k m = Inr m'"
  then show "cp_inv (snd m') \<and> cp_abs (snd m') = (cp_abs (snd m))(k := None)"
    using cp_remove_ok [OF m(1), of k] by (auto simp: othello_del_def split: prod.splits elim!: rbindE)
qed

end
