(* ===== verification/Path_Queue.thy ===== *)
theory Path_Queue
  imports Interfaces
begin

text \<open>
  \<open>CuckooPathQueue\<close> of \<open>deps/ludo/ludo_cp_dp.h\<close>: the ring buffer in which the search for a cuckoo path keeps
  the buckets it has still to look at. The positions \<open>head_\<close> and \<open>tail_\<close> run modulo the size of the array, and
  equal positions mean empty, so one cell always stays free. The ring is interpreted as a
  \<open>bounded_fifo\<close> with room for one element less than the array.
\<close>

section \<open>Definitions\<close>

text \<open>\<open>CuckooPathEntry\<close>: a bucket, its depth, and where the search came from (\<open>-1\<close>: from a root).\<close>

record path_node =
  pn_bucket :: u32
  pn_depth :: int
  pn_parent :: int
  pn_parent_slot :: int

definition kSlotsPerBucket :: nat where
  "kSlotsPerBucket = 4"

definition kMaxBFSPathLen :: nat where
  "kMaxBFSPathLen = 5"

text \<open>The constant expressions that size the arrays: a sum of \<open>levels\<close> powers, each four times the last.\<close>

fun calSize :: "nat \<Rightarrow> nat \<Rightarrow> nat \<Rightarrow> nat" where
  "calSize 0 term result = result"
| "calSize (Suc levels) term result = calSize levels (term * ((2 - 1) * kSlotsPerBucket)) (result + term)"

definition kMaxQueueSize :: nat where
  "kMaxQueueSize = calSize kMaxBFSPathLen 4 0"

definition kVisitedListSize :: nat where
  "kVisitedListSize = calSize (kMaxBFSPathLen - 1) 4 0"

record path_queue =
  pq_queue :: "path_node list"
  pq_head :: nat
  pq_tail :: nat

definition push_back :: "path_node \<Rightarrow> path_queue \<Rightarrow> path_queue res" where
  "push_back e q =
    rbind (aset (pq_queue q) (pq_tail q) e) (\<lambda>a.
    Inr (q\<lparr>pq_queue := a, pq_tail := (pq_tail q + 1) mod kMaxQueueSize\<rparr>))"

definition pop_front :: "path_queue \<Rightarrow> (path_node \<times> path_queue) res" where
  "pop_front q =
    rbind (aget (pq_queue q) (pq_head q)) (\<lambda>e.
    Inr (e, q\<lparr>pq_head := (pq_head q + 1) mod kMaxQueueSize\<rparr>))"

definition pq_empty :: "path_queue \<Rightarrow> bool" where
  "pq_empty q \<longleftrightarrow> pq_head q = pq_tail q"

definition pq_full :: "path_queue \<Rightarrow> bool" where
  "pq_full q \<longleftrightarrow> (pq_tail q + 1) mod kMaxQueueSize = pq_head q"

definition pq_reset :: "path_queue \<Rightarrow> path_queue" where
  "pq_reset q = q\<lparr>pq_head := 0, pq_tail := 0\<rparr>"

section \<open>The ring is a queue\<close>

lemma queue_sizes [simp]: "kMaxQueueSize = 1364" "kVisitedListSize = 340"
  by (simp_all add: kMaxQueueSize_def kVisitedListSize_def kMaxBFSPathLen_def kSlotsPerBucket_def numeral_eq_Suc)

definition pq_inv :: "path_queue \<Rightarrow> bool" where
  "pq_inv q \<longleftrightarrow> length (pq_queue q) = kMaxQueueSize \<and> pq_head q < kMaxQueueSize \<and> pq_tail q < kMaxQueueSize"

definition pq_count :: "path_queue \<Rightarrow> nat" where
  "pq_count q = (pq_tail q + kMaxQueueSize - pq_head q) mod kMaxQueueSize"

definition pq_elems :: "path_queue \<Rightarrow> path_node list" where
  "pq_elems q = map (\<lambda>i. pq_queue q ! ((pq_head q + i) mod kMaxQueueSize)) [0..<pq_count q]"

lemma length_pq_elems: "length (pq_elems q) = pq_count q"
  by (simp add: pq_elems_def)

lemma pq_count_cases:
  assumes "pq_inv q"
  shows "pq_count q = (if pq_head q \<le> pq_tail q then pq_tail q - pq_head q else pq_tail q + 1364 - pq_head q)"
proof (cases "pq_head q \<le> pq_tail q")
  case True
  then have "pq_tail q + 1364 - pq_head q = (pq_tail q - pq_head q) + 1364" by linarith
  moreover have "(pq_tail q - pq_head q) mod 1364 = pq_tail q - pq_head q"
    using assms unfolding pq_inv_def queue_sizes by (intro mod_less) linarith
  ultimately show ?thesis using True by (simp only: pq_count_def queue_sizes mod_add_self2 if_True)
qed (use assms in \<open>simp add: pq_count_def pq_inv_def\<close>)

lemma pq_tail_pos:
  assumes "pq_inv q"
  shows "(pq_head q + pq_count q) mod kMaxQueueSize = pq_tail q"
  using assms by (auto simp: pq_count_cases [OF assms] pq_inv_def)

lemma pq_count_push:
  assumes "pq_inv q" "pq_count q < 1363"
  shows "pq_count (q\<lparr>pq_queue := a, pq_tail := (pq_tail q + 1) mod kMaxQueueSize\<rparr>) = Suc (pq_count q)"
proof -
  let ?q = "q\<lparr>pq_queue := replicate kMaxQueueSize undefined, pq_tail := (pq_tail q + 1) mod kMaxQueueSize\<rparr>"
  have i: "pq_inv ?q" using assms(1) by (simp add: pq_inv_def)
  have n: "pq_head ?q = pq_head q" "pq_tail ?q = (if pq_tail q = 1363 then 0 else pq_tail q + 1)"
    using assms(1) by (auto simp: pq_inv_def)
  have "pq_count ?q = Suc (pq_count q)"
    using assms unfolding pq_count_cases [OF i] pq_count_cases [OF assms(1)] n by (auto simp: pq_inv_def split: if_splits)
  then show ?thesis by (simp add: pq_count_def)
qed

lemma push_back_ok:
  assumes "pq_inv q" "length (pq_elems q) < 1363"
  shows "\<exists>q'. push_back e q = Inr q' \<and> pq_inv q' \<and> pq_elems q' = pq_elems q @ [e]"
proof -
  let ?q = "q\<lparr>pq_queue := (pq_queue q)[pq_tail q := e], pq_tail := (pq_tail q + 1) mod kMaxQueueSize\<rparr>"
  have c: "pq_count q < 1363" using assms(2) by (simp add: length_pq_elems)
  have p: "push_back e q = Inr ?q" "pq_inv ?q" using assms(1) by (simp_all add: push_back_def pq_inv_def)
  have "pq_queue ?q ! ((pq_head q + i) mod kMaxQueueSize) = (pq_elems q @ [e]) ! i" if "i < Suc (pq_count q)" for i
  proof (cases "i = pq_count q")
    case True
    then show ?thesis using pq_tail_pos [OF assms(1)] assms(1) by (simp add: length_pq_elems nth_append pq_inv_def)
  next
    case False
    then have i: "i < pq_count q" using that by simp
    have "(pq_head q + i) mod 1364 \<noteq> (pq_head q + pq_count q) mod 1364"
    proof
      assume "(pq_head q + i) mod 1364 = (pq_head q + pq_count q) mod 1364"
      then have "1364 dvd (pq_head q + pq_count q) - (pq_head q + i)" using i
        by (metis add_le_cancel_left less_imp_le_nat mod_eq_dvd_iff_nat)
      then have "1364 dvd pq_count q - i" by simp
      then show False using i c by (auto dest: dvd_imp_le)
    qed
    then have "(pq_head q + i) mod kMaxQueueSize \<noteq> pq_tail q" using pq_tail_pos [OF assms(1)] by simp
    then show ?thesis using i by (simp add: nth_append length_pq_elems pq_elems_def)
  qed
  then have "pq_elems ?q = pq_elems q @ [e]"
    unfolding pq_elems_def [of ?q] pq_count_push [OF assms(1) c]
    by (intro nth_equalityI) (simp_all add: length_pq_elems del: upt_Suc)
  then show ?thesis using p by blast
qed

lemma pq_count_pop:
  assumes "pq_inv q" "0 < pq_count q"
  shows "pq_count (q\<lparr>pq_head := (pq_head q + 1) mod kMaxQueueSize\<rparr>) = pq_count q - 1"
proof -
  let ?q = "q\<lparr>pq_head := (pq_head q + 1) mod kMaxQueueSize\<rparr>"
  have i: "pq_inv ?q" using assms(1) by (simp add: pq_inv_def)
  have n: "pq_tail ?q = pq_tail q" "pq_head ?q = (if pq_head q = 1363 then 0 else pq_head q + 1)"
    using assms(1) by (auto simp: pq_inv_def)
  show ?thesis
    using assms unfolding pq_count_cases [OF i] pq_count_cases [OF assms(1)] n by (auto simp: pq_inv_def split: if_splits)
qed

lemma pop_front_ok:
  assumes "pq_inv q" "pq_elems q = e # es"
  shows "\<exists>q'. pop_front q = Inr (e, q') \<and> pq_inv q' \<and> pq_elems q' = es"
proof -
  let ?q = "q\<lparr>pq_head := (pq_head q + 1) mod kMaxQueueSize\<rparr>"
  have c: "pq_count q = Suc (length es)" using arg_cong [OF assms(2), of length] by (simp add: length_pq_elems)
  have "e = pq_elems q ! 0" using assms(2) by simp
  also have "\<dots> = pq_queue q ! pq_head q" using c assms(1) by (simp add: pq_elems_def pq_inv_def del: upt_Suc)
  finally have p: "pop_front q = Inr (e, ?q)" "pq_inv ?q" using assms(1) by (simp_all add: pop_front_def pq_inv_def)
  have cq: "pq_count ?q = length es" using pq_count_pop [OF assms(1)] c by simp
  have "pq_elems ?q ! i = es ! i" if "i < length es" for i
  proof -
    have "es ! i = pq_elems q ! Suc i" using assms(2) by simp
    also have "\<dots> = pq_queue q ! ((pq_head q + Suc i) mod 1364)" using c that by (simp add: pq_elems_def del: upt_Suc)
    also have "\<dots> = pq_elems ?q ! i" using cq that by (simp add: pq_elems_def mod_simps)
    finally show ?thesis ..
  qed
  then have "pq_elems ?q = es" using cq length_pq_elems [of ?q] by (intro nth_equalityI) simp_all
  then show ?thesis using p by blast
qed

interpretation ring: bounded_fifo pq_inv 1363 pq_elems push_back pop_front pq_empty
proof
  show "pq_empty q \<longleftrightarrow> pq_elems q = []" if "pq_inv q" for q
    using pq_tail_pos [OF that] that unfolding pq_empty_def length_0_conv [symmetric] length_pq_elems
    by (auto simp: pq_count_def pq_inv_def)
qed (fact push_back_ok pop_front_ok)+

end
