(* ===== verification/Ludo_CP.thy ===== *)
theory Ludo_CP
  imports Othello_Grow Path_Queue Slot_Seed
begin

text \<open>
  \<open>ControlPlaneLudo\<close> of \<open>deps/ludo/ludo_cp_dp.h\<close> with 64-bit keys and values: the table from which the lookup
  unit and the rows of the index are made. A key lies in one of its two candidate buckets; the Othello
  \<open>locator\<close> says in which; the seed of a bucket sends its keys to different slots.

  This theory holds the definitions: buckets, seeds, the search for a cuckoo path and the moves along it,
  insertion, removal, growing, rebuilding and the export to the data plane. A bucket array is a list of
  length four; its cells are not initialised until the mask says so, and read as 0 before.

  The seeds that \<open>rand()\<close> yields (\<open>lc_rnd\<close>) and the global \<open>g_ludo_load_factor\<close> are fields of the state. The load
  factor is the \<open>double\<close> \<open>m / 2 ^ e\<close>. The queue and the visited list of the path search are reset by every
  search and are therefore local to it.
\<close>

section \<open>Definitions: state\<close>

record cp_bucket =
  b_seed :: u8
  b_occupiedMask :: u8
  b_keys :: "u64 list"
  b_values :: "u64 list"

record path_entry =
  pe_status :: int
  pe_bid :: u32
  pe_sid :: u8
  pe_newSeed :: u8
  pe_slots :: "u8 list"
  pe_locatorCC :: "u32 list"

record ludo_result =
  lr_status :: int
  lr_path :: "path_entry list"

record ludo_cp =
  lc_load_factor :: "nat \<times> nat"
  lc_rnd :: "u64 list"
  lc_num_buckets :: u32
  lc_h :: u64
  lc_nKeys :: u32
  lc_locator :: othello_cp
  lc_buckets :: "cp_bucket list"
  lc_oldBuckets :: "cp_bucket list"
  lc_capacity :: u32
  lc_integrity :: bool

definition no_bucket :: cp_bucket where
  "no_bucket = \<lparr>b_seed = 0, b_occupiedMask = 0, b_keys = replicate 4 0, b_values = replicate 4 0\<rparr>"

definition ludo_ok :: ludo_result where
  "ludo_ok = \<lparr>lr_status = 0, lr_path = []\<rparr>"

section \<open>Definitions: one bucket\<close>

definition occ :: "cp_bucket \<Rightarrow> nat \<Rightarrow> bool" where
  "occ B s \<longleftrightarrow> bit (b_occupiedMask B) s"

definition occ_slots :: "cp_bucket \<Rightarrow> nat list" where
  "occ_slots B = filter (occ B) [0..<4]"

definition occ_keys :: "cp_bucket \<Rightarrow> u64 list" where
  "occ_keys B = map ((!) (b_keys B)) (occ_slots B)"

definition find_key :: "u64 \<Rightarrow> cp_bucket \<Rightarrow> nat option" where
  "find_key k B = find (\<lambda>s. occ B s \<and> b_keys B ! s = k) [0..<4]"

definition FindInBucket :: "u64 \<Rightarrow> cp_bucket \<Rightarrow> u64 option" where
  "FindInBucket k B = map_option ((!) (b_values B)) (find_key k B)"

definition FindFreeSlot :: "cp_bucket \<Rightarrow> nat option" where
  "FindFreeSlot B = find (\<lambda>s. \<not> occ B s) [0..<4]"

definition put_slot :: "nat \<Rightarrow> u64 \<Rightarrow> u64 \<Rightarrow> cp_bucket \<Rightarrow> cp_bucket" where
  "put_slot s k v B = B\<lparr>b_keys := (b_keys B)[s := k], b_values := (b_values B)[s := v]\<rparr>"

definition set_occ :: "nat \<Rightarrow> cp_bucket \<Rightarrow> cp_bucket" where
  "set_occ s B = B\<lparr>b_occupiedMask := b_occupiedMask B OR push_bit s 1\<rparr>"

definition flip_occ :: "nat \<Rightarrow> cp_bucket \<Rightarrow> cp_bucket" where
  "flip_occ s B = B\<lparr>b_occupiedMask := b_occupiedMask B XOR push_bit s 1\<rparr>"

definition upd_bucket :: "u32 \<Rightarrow> (cp_bucket \<Rightarrow> cp_bucket) \<Rightarrow> ludo_cp \<Rightarrow> ludo_cp res" where
  "upd_bucket b f st =
    rbind (aget (lc_buckets st) (unat b)) (\<lambda>B. Inr (st\<lparr>lc_buckets := (lc_buckets st)[unat b := f B]\<rparr>))"

section \<open>Definitions: lookups\<close>

definition candidates :: "ludo_cp \<Rightarrow> u64 \<Rightarrow> (u32 \<times> u32) res" where
  "candidates st k = fast_map_to_buckets (fast_hasher64 (lc_h st) k) (of_nat (length (lc_buckets st)))"

text \<open>\<open>for (uint32_t &b : buckets)\<close>: the first of the two buckets in which \<open>f\<close> finds something.\<close>

fun in_buckets :: "(cp_bucket \<Rightarrow> 'a option) \<Rightarrow> u32 list \<Rightarrow> cp_bucket list \<Rightarrow> (u32 \<times> 'a) option res" where
  "in_buckets f [] Bs = Inr None"
| "in_buckets f (b # bs) Bs =
    rbind (aget Bs (unat b)) (\<lambda>B. case f B of Some x \<Rightarrow> Inr (Some (b, x)) | None \<Rightarrow> in_buckets f bs Bs)"

definition in_candidates :: "(cp_bucket \<Rightarrow> 'a option) \<Rightarrow> u64 \<Rightarrow> ludo_cp \<Rightarrow> (u32 \<times> 'a) option res" where
  "in_candidates f k st = rbind (candidates st k) (\<lambda>(b0, b1). in_buckets f [b0, b1] (lc_buckets st))"

definition locate :: "u64 \<Rightarrow> ludo_cp \<Rightarrow> (u32 \<times> u32) res" where
  "locate k st =
    rbind (in_candidates (find_key k) k st) (\<lambda>r. Inr (case r of Some (b, s) \<Rightarrow> (b, of_nat s) | None \<Rightarrow> (- 1, - 1)))"

definition lc_isMember :: "u64 \<Rightarrow> ludo_cp \<Rightarrow> bool res" where
  "lc_isMember k st = rbind (in_candidates (FindInBucket k) k st) (\<lambda>r. Inr (r \<noteq> None))"

definition lc_lookUp :: "u64 \<Rightarrow> ludo_cp \<Rightarrow> u64 option res" where
  "lc_lookUp k st = rbind (in_candidates (FindInBucket k) k st) (\<lambda>r. Inr (map_option snd r))"

definition lc_changeValue :: "u64 \<Rightarrow> u64 \<Rightarrow> ludo_cp \<Rightarrow> (ludo_result \<times> ludo_cp) res" where
  "lc_changeValue k v st =
    rbind (in_candidates (find_key k) k st) (\<lambda>r. case r of None \<Rightarrow> Inr (ludo_ok, st)
    | Some (b, s) \<Rightarrow>
        rbind (aget (lc_buckets st) (unat b)) (\<lambda>B.
        rbind (upd_bucket b (\<lambda>B. B\<lparr>b_values := (b_values B)[s := v]\<rparr>) st) (\<lambda>st1.
        Inr (\<lparr>lr_status = 0, lr_path = [\<lparr>pe_status = 0, pe_bid = take_bit 30 b, pe_sid = slot_of (b_seed B) k,
               pe_newSeed = 0, pe_slots = [0, 0, 0, 0], pe_locatorCC = []\<rparr>]\<rparr>, st1))))"

section \<open>Definitions: the locator\<close>

definition registerKey :: "u64 \<Rightarrow> u8 \<Rightarrow> bool \<Rightarrow> ludo_cp \<Rightarrow> (othello_result \<times> ludo_cp) res" where
  "registerKey k bi online st =
    rbind (cp_isMember (lc_locator st) k) (\<lambda>m.
    if m then rbind (cp_lookUp (lc_locator st) k) (\<lambda>x.
      if x = bi then Inr (no_result, st)
      else rbind (cp_changeValue k bi (lc_locator st)) (\<lambda>(r, l). Inr (r, st\<lparr>lc_locator := l\<rparr>)))
    else rbind (cp_insert k bi online (lc_rnd st) (lc_locator st)) (\<lambda>(r, rnd, l).
         Inr (r, st\<lparr>lc_rnd := rnd, lc_locator := l\<rparr>)))"

definition unregisterKey :: "u64 \<Rightarrow> ludo_cp \<Rightarrow> ludo_cp res" where
  "unregisterKey k st = rbind (cp_remove k (- 1) (lc_locator st)) (\<lambda>(r, l). Inr (st\<lparr>lc_locator := l\<rparr>))"

definition toggleKey :: "u64 \<Rightarrow> ludo_cp \<Rightarrow> (othello_result \<times> ludo_cp) res" where
  "toggleKey k st = rbind (toggleInOthello k (lc_locator st)) (\<lambda>(r, l). Inr (r, st\<lparr>lc_locator := l\<rparr>))"

text \<open>\<open>RemoveInBucket\<close> for the slot \<open>s\<close> that holds the key, and \<open>remove\<close>.\<close>

definition RemoveInBucket :: "u64 \<Rightarrow> u32 \<Rightarrow> nat \<Rightarrow> ludo_cp \<Rightarrow> ludo_cp res" where
  "RemoveInBucket k b s st = rbind (upd_bucket b (flip_occ s) st) (unregisterKey k)"

definition lc_remove :: "u64 \<Rightarrow> ludo_cp \<Rightarrow> (ludo_result \<times> ludo_cp) res" where
  "lc_remove k st =
    rbind (in_candidates (find_key k) k st) (\<lambda>r. case r of None \<Rightarrow> Inr (ludo_ok, st)
    | Some (b, s) \<Rightarrow> rbind (RemoveInBucket k b s st) (\<lambda>st1. Inr (ludo_ok, st1\<lparr>lc_nKeys := lc_nKeys st1 - 1\<rparr>)))"

section \<open>Definitions: the seed of a bucket\<close>

text \<open>
  What the data plane has to do when the seed of a row changes: the word in slot \<open>i\<close> goes to slot \<open>m ! i\<close>. Slots
  that hold no key, and the slot of the key just added (\<open>slotNew\<close>), are sent to the first slot no old key goes to.
\<close>

definition slot_moves :: "u8 \<Rightarrow> u8 \<Rightarrow> int \<Rightarrow> cp_bucket \<Rightarrow> u8 list res" where
  "slot_moves oldSeed seed slotNew B =
    (let m = fold (\<lambda>s m. if int s \<noteq> slotNew
               then m[unat (slot_of oldSeed (b_keys B ! s)) := slot_of seed (b_keys B ! s)] else m) (occ_slots B) [- 1, - 1, - 1, - 1];
         used = fold (\<lambda>s u. if m ! s \<noteq> - 1 then u[unat (m ! s) := True] else u) [0..<4] [False, False, False, False];
         first = find (\<lambda>s. \<not> used ! s) [0..<4]
     in rfold (\<lambda>s m. if m ! s \<noteq> - 1 then Inr m
          else case first of None \<Rightarrow> Inl AssertFailed | Some f \<Rightarrow> Inr (m[s := of_nat f])) [0..<4] m)"

definition lc_updateSeed :: "u32 \<Rightarrow> bool \<Rightarrow> int \<Rightarrow> ludo_cp \<Rightarrow> (u8 \<times> u8 list \<times> ludo_cp) res" where
  "lc_updateSeed b withDp slotNew st =
    rbind (aget (lc_buckets st) (unat b)) (\<lambda>B.
    case find_seed (occ_keys B) of None \<Rightarrow> Inl RuntimeError
    | Some seed \<Rightarrow>
        rbind (if withDp then slot_moves (b_seed B) seed slotNew B else Inr []) (\<lambda>toSlot.
        rbind (upd_bucket b (\<lambda>B. B\<lparr>b_seed := seed\<rparr>) st) (\<lambda>st1. Inr (seed, toSlot, st1))))"

definition getDpBucket :: "u32 \<Rightarrow> ludo_cp \<Rightarrow> cp_bucket res" where
  "getDpBucket index st =
    rbind (aget (lc_buckets st) (unat index)) (\<lambda>B.
    Inr (fold (\<lambda>s R. let d = unat (slot_of (b_seed B) (b_keys B ! s))
           in set_occ d (R\<lparr>b_values := (b_values R)[d := b_values B ! s]\<rparr>)) (occ_slots B)
         (no_bucket\<lparr>b_seed := b_seed B\<rparr>)))"

section \<open>Definitions: placing and moving an item\<close>

text \<open>\<open>path\<close> is \<open>None\<close> for a null pointer: the update is not recorded and the locator may be rebuilt.\<close>

definition putItem :: "u64 \<Rightarrow> u64 \<Rightarrow> u32 \<Rightarrow> nat \<Rightarrow> bool \<Rightarrow> path_entry list option \<Rightarrow> ludo_cp \<Rightarrow> (bool \<times> path_entry list option \<times> ludo_cp) res" where
  "putItem k v b slot toFirstBucket path st =
    rbind (registerKey k (if toFirstBucket then 0 else 1) (path \<noteq> None) st) (\<lambda>(result, st1).
    if or_status result < 0 then Inr (False, path, st1)
    else
      rbind (upd_bucket b (\<lambda>B. set_occ slot (put_slot slot k v B)) st1) (\<lambda>st2.
      rbind (lc_updateSeed b (path \<noteq> None) (int slot) st2) (\<lambda>(seed, toSlot, st3).
      case path of None \<Rightarrow> Inr (True, None, st3)
      | Some p \<Rightarrow>
          rbind (if or_xorTemplate result \<noteq> 0 then getHalfTree k (0 < sint (or_xorTemplate result)) False (lc_locator st3) else Inr []) (\<lambda>cc.
          Inr (True, Some (p @ [\<lparr>pe_status = (if or_status result \<noteq> 0 then - 2 + (if toFirstBucket then 1 else 0) else int (length cc)),
                 pe_bid = take_bit 30 b, pe_sid = slot_of seed k, pe_newSeed = seed, pe_slots = toSlot, pe_locatorCC = cc\<rparr>]), st3)))))"

definition moveItem :: "u32 \<Rightarrow> nat \<Rightarrow> u32 \<Rightarrow> nat \<Rightarrow> path_entry list option \<Rightarrow> ludo_cp \<Rightarrow> (path_entry list option \<times> ludo_cp) res" where
  "moveItem sBkt sSlot dBkt dSlot path st =
    rbind (aget (lc_buckets st) (unat sBkt)) (\<lambda>S.
    let k = b_keys S ! sSlot in
    rbind (upd_bucket dBkt (put_slot dSlot k (b_values S ! sSlot)) st) (\<lambda>st1.
    rbind (toggleKey k st1) (\<lambda>(result, st2).
    if or_status result \<noteq> 0 then Inl AssertFailed
    else rbind (lc_updateSeed dBkt (path \<noteq> None) (int dSlot) st2) (\<lambda>(seed, toSlot, st3).
      case path of None \<Rightarrow> Inr (None, st3)
      | Some p \<Rightarrow>
          rbind (getHalfTree k (0 < sint (or_xorTemplate result)) False (lc_locator st3)) (\<lambda>cc.
          Inr (Some (p @ [\<lparr>pe_status = int (length cc), pe_bid = take_bit 30 dBkt, pe_sid = slot_of seed k,
                 pe_newSeed = seed, pe_slots = toSlot, pe_locatorCC = cc\<rparr>]), st3))))))"

section \<open>Definitions: the cuckoo path\<close>

text \<open>The children of a full bucket: the other candidate bucket of each of its keys, from \<open>start_slot\<close> on.\<close>

definition child_slot :: "path_node \<Rightarrow> nat \<Rightarrow> nat" where
  "child_slot e i = (unat ((of_int (pn_depth e) + pn_bucket e) mod 4) + i) mod 4"

definition push_child :: "ludo_cp \<Rightarrow> cp_bucket \<Rightarrow> path_node \<Rightarrow> nat \<Rightarrow> nat \<Rightarrow> path_queue \<Rightarrow> path_queue res" where
  "push_child st B e parent_index i q =
    (let slot = child_slot e i in
     rbind (candidates st (b_keys B ! slot)) (\<lambda>(b0, b1).
     rfold (\<lambda>b q. if b = pn_bucket e then Inr q
       else push_back \<lparr>pn_bucket = b, pn_depth = pn_depth e + 1, pn_parent = int parent_index, pn_parent_slot = int slot\<rparr> q) [b0, b1] q))"

text \<open>
  The search: it ends with a bucket that has a free slot, with that slot and the visited list, or without.
  \<open>n\<close> is the number of visited entries, \<open>visited_end + 1\<close>.
\<close>

fun cuckoo_search :: "nat \<Rightarrow> ludo_cp \<Rightarrow> path_queue \<Rightarrow> path_node list \<Rightarrow> nat \<Rightarrow> (path_node \<times> nat \<times> path_node list) option res" where
  "cuckoo_search 0 st q visited n = Inl Diverges"
| "cuckoo_search (Suc fuel) st q visited n =
    (if pq_empty q then Inr None
     else rbind (pop_front q) (\<lambda>(entry, q1).
       rbind (aget (lc_buckets st) (unat (pn_bucket entry))) (\<lambda>B.
       case FindFreeSlot B of
         Some s \<Rightarrow> Inr (Some (entry, s, visited))
       | None \<Rightarrow>
           if pn_depth entry < int kMaxBFSPathLen
           then rbind (aset visited n entry) (\<lambda>visited1.
                rbind (rfold (push_child st B entry n) [0..<4] q1) (\<lambda>q2.
                cuckoo_search fuel st q2 visited1 (Suc n)))
           else cuckoo_search fuel st q1 visited n)))"

text \<open>The moves along the path, from its end to a root.\<close>

definition vget :: "path_node list \<Rightarrow> int \<Rightarrow> path_node res" where
  "vget visited i = (if i < 0 then Inl OutOfBounds else aget visited (nat i))"

fun cuckoo_moves :: "nat \<Rightarrow> path_node list \<Rightarrow> path_node \<Rightarrow> nat \<Rightarrow> bool \<Rightarrow> path_entry list option \<Rightarrow> ludo_cp \<Rightarrow>
    (path_node \<times> nat \<times> bool \<times> path_entry list option \<times> ludo_cp) res" where
  "cuckoo_moves 0 visited entry free_slot toFirst path st = Inl Diverges"
| "cuckoo_moves (Suc fuel) visited entry free_slot toFirst path st =
    (if pn_depth entry > 1
     then rbind (vget visited (pn_parent entry)) (\<lambda>parent.
          let toFirst1 = (if pn_depth entry = 2 then pn_parent entry = 0 else toFirst) in
          rbind (moveItem (pn_bucket parent) (nat (pn_parent_slot entry)) (pn_bucket entry) free_slot path st) (\<lambda>(path1, st1).
          cuckoo_moves fuel visited parent (nat (pn_parent_slot entry)) toFirst1 path1 st1))
     else Inr (entry, free_slot, toFirst, path, st))"

definition root_node :: "u32 \<Rightarrow> path_node" where
  "root_node b = \<lparr>pn_bucket = b, pn_depth = 1, pn_parent = - 1, pn_parent_slot = - 1\<rparr>"

definition new_queue :: path_queue where
  "new_queue = pq_reset \<lparr>pq_queue = replicate kMaxQueueSize (root_node 0), pq_head = 0, pq_tail = 0\<rparr>"

definition find_path :: "u64 \<Rightarrow> ludo_cp \<Rightarrow> (path_node \<times> nat \<times> path_node list) option res" where
  "find_path k st =
    rbind (candidates st k) (\<lambda>(b0, b1).
    rbind (rfold (\<lambda>b. push_back (root_node b)) [b0, b1] new_queue) (\<lambda>q.
    cuckoo_search kMaxQueueSize st q (replicate kVisitedListSize (root_node 0)) 0))"

text \<open>
  How a call of \<open>insert\<close> goes on: it returns a result, or it first enlarges or rebuilds the table and inserts again,
  because all places are taken (\<open>Grow False\<close>) or because no path was found (\<open>Grow True\<close>).
\<close>

datatype insert_outcome = Returned ludo_result | Grow bool

definition path_of :: "path_entry list option \<Rightarrow> path_entry list" where
  "path_of p = (case p of None \<Rightarrow> [] | Some es \<Rightarrow> es)"

definition CuckooInsert :: "u64 \<Rightarrow> u64 \<Rightarrow> bool \<Rightarrow> ludo_cp \<Rightarrow> (insert_outcome \<times> ludo_cp) res" where
  "CuckooInsert k v online st =
    rbind (find_path k st) (\<lambda>found. case found of
      None \<Rightarrow> Inr (if online then Returned (ludo_ok\<lparr>lr_status := - 2\<rparr>) else Grow True, st)
    | Some (entry, free_slot, visited) \<Rightarrow>
        rbind (upd_bucket (pn_bucket entry) (set_occ free_slot) st) (\<lambda>st1.
        rbind (cuckoo_moves kMaxBFSPathLen visited entry free_slot False (if online then Some [] else None) st1)
          (\<lambda>(entry1, slot1, toFirst, path, st2).
        rbind (putItem k v (pn_bucket entry1) slot1 toFirst path st2) (\<lambda>(succ, path1, st3).
        Inr (Returned \<lparr>lr_status = (if succ then 0 else - 1), lr_path = path_of path1\<rparr>, st3)))))"

section \<open>Definitions: inserting\<close>

definition insert_step :: "u64 \<Rightarrow> u64 \<Rightarrow> bool \<Rightarrow> ludo_cp \<Rightarrow> (insert_outcome \<times> ludo_cp) res" where
  "insert_step k v online st =
    rbind (lc_isMember k st) (\<lambda>m.
    if m then rbind (lc_changeValue k v st) (\<lambda>(r, st1). Inr (Returned r, st1))
    else if lc_nKeys st + 1 > lc_capacity st then
      Inr (if online then Returned (ludo_ok\<lparr>lr_status := - 2\<rparr>) else Grow False, st)
    else
      rbind (candidates st k) (\<lambda>(b0, b1).
      rbind (in_buckets FindFreeSlot [b0, b1] (lc_buckets st)) (\<lambda>target.
      rbind (case target of
          Some (b, s) \<Rightarrow>
            rbind (putItem k v b s (b = b0) (if online then Some [] else None) st) (\<lambda>(succ, path, st1).
            Inr (Returned \<lparr>lr_status = (if succ then 0 else - 1), lr_path = path_of path\<rparr>, st1))
        | None \<Rightarrow> CuckooInsert k v online st) (\<lambda>(out, st1).
      Inr (out, case out of Returned r \<Rightarrow> if 0 \<le> lr_status r then st1\<lparr>lc_nKeys := lc_nKeys st1 + 1\<rparr> else st1 | Grow _ \<Rightarrow> st1)))))"

section \<open>Definitions: growing and rebuilding\<close>

text \<open>
  \<open>capacity = num_buckets * g_ludo_load_factor * kSlotsPerBucket\<close>, and the loop that doubles the number of buckets until
  the capacity suffices. Past \<open>doublings\<close> the number has been shifted out of its integer type and stays 0.
\<close>

definition ludo_capacity :: "nat \<times> nat \<Rightarrow> nat \<Rightarrow> nat" where
  "ludo_capacity lf nb = dbl_prod nb (fst lf) * 4 div 2 ^ snd lf"

fun grow_buckets :: "nat \<Rightarrow> nat \<Rightarrow> nat \<times> nat \<Rightarrow> nat \<Rightarrow> nat \<Rightarrow> (nat \<times> nat) res" where
  "grow_buckets doublings width lf nb target =
    (let cap = ludo_capacity lf nb in
     if 2 ^ width \<le> cap then Inl OutOfBounds
     else if target \<le> cap then Inr (nb, cap)
     else case doublings of 0 \<Rightarrow> Inl Diverges | Suc d \<Rightarrow> grow_buckets d width lf (2 * nb) target)"

declare grow_buckets.simps [simp del]

definition power_item :: "nat \<Rightarrow> nat \<Rightarrow> ludo_cp \<Rightarrow> ludo_cp res" where
  "power_item i slot st =
    rbind (aget (lc_buckets st) i) (\<lambda>B.
    if \<not> occ B slot then Inr st
    else let key = b_keys B ! slot; value = b_values B ! slot in
      rbind (fast_map_to_buckets (fast_hasher64 (lc_h st) key) (lc_num_buckets st)) (\<lambda>(b0, b1).
      rbind (cp_lookUp (lc_locator st) key) (\<lambda>x.
      rbind (aget [b0, b1] (unat x)) (\<lambda>bi.
      if unat bi = i then Inr st
      else rbind (upd_bucket (of_nat i) (flip_occ slot) st) (\<lambda>st1.
           rbind (upd_bucket bi (\<lambda>D. put_slot slot key value (set_occ slot D)) st1) (\<lambda>st2.
           rbind (lc_updateSeed bi False (- 1) st2) (\<lambda>(seed, _, st3). Inr st3)))))))"

definition powerSize :: "u32 \<Rightarrow> ludo_cp \<Rightarrow> ludo_cp res" where
  "powerSize factor st =
    (if factor = 0 then Inl OutOfBounds
     else rbind (cp_resizeCapacity (lc_capacity st) False False (lc_rnd st) (lc_locator st)) (\<lambda>(rnd, l).
       rfold (\<lambda>i. rfold (power_item i) [0..<4]) [0..<unat (lc_num_buckets st div factor)]
         (st\<lparr>lc_buckets := vresize (unat (lc_num_buckets st)) no_bucket (lc_buckets st), lc_rnd := rnd, lc_locator := l\<rparr>)))"

text \<open>\<open>resizeCapacity\<close> up to the call of \<open>build\<close>; with the state comes whether \<open>build\<close> is called.\<close>

definition lc_resize :: "u32 \<Rightarrow> bool \<Rightarrow> ludo_cp \<Rightarrow> (bool \<times> ludo_cp) res" where
  "lc_resize target0 forceBuild st =
    rbind (grow_buckets 57 64 (lc_load_factor st) 64 (unat (max (lc_nKeys st) (max target0 256)))) (\<lambda>(nb, cap).
    let old = unat (lc_num_buckets st); enlarge = old < nb;
        factor = (if enlarge then nb div old else old div nb);
        st1 = st\<lparr>lc_num_buckets := of_nat nb, lc_capacity := of_nat cap\<rparr>
    in if enlarge \<and> lc_integrity st then rbind (powerSize (of_nat factor) st1) (\<lambda>st2. Inr (False, st2))
       else rbind (cp_resizeCapacity (lc_capacity st1) False False (lc_rnd st1) (lc_locator st1)) (\<lambda>(rnd, l).
         if 2 ^ 30 \<le> lc_num_buckets st1 then Inl RuntimeError
         else Inr (forceBuild \<or> enlarge \<or> nb < old,
                st1\<lparr>lc_integrity := False, lc_oldBuckets := lc_buckets st1, lc_rnd := rnd, lc_locator := l,
                    lc_buckets := vresize (unat (lc_num_buckets st1)) no_bucket (lc_buckets st1)\<rparr>)))"

text \<open>
  \<open>tryBuild\<close>. A call of \<open>insert\<close> that has to grow the table replaces \<open>oldBuckets\<close> while the loop runs over it.
\<close>

definition rebuild_slot :: "cp_bucket \<Rightarrow> nat \<Rightarrow> bool \<times> ludo_cp \<Rightarrow> (bool \<times> ludo_cp) res" where
  "rebuild_slot B s = (\<lambda>(succ, st).
    rbind (insert_step (b_keys B ! s) (b_values B ! s) False st) (\<lambda>(out, st1).
    case out of Grow _ \<Rightarrow> Inl DanglingIter | Returned r \<Rightarrow> Inr (succ \<and> 0 \<le> lr_status r, st1)))"

fun rebuild_from :: "cp_bucket list \<Rightarrow> ludo_cp \<Rightarrow> (bool \<times> ludo_cp) res" where
  "rebuild_from [] st = Inr (True, st)"
| "rebuild_from (B # Bs) st =
    rbind (rfold (rebuild_slot B) (occ_slots B) (True, st)) (\<lambda>(succ, st1).
    if succ then rebuild_from Bs st1 else Inr (False, st1))"

definition lc_tryBuild :: "ludo_cp \<Rightarrow> (bool \<times> ludo_cp) res" where
  "lc_tryBuild st =
    rbind (rebuild_from (lc_oldBuckets st) (st\<lparr>lc_locator := cp_clear (lc_locator st), lc_nKeys := 0,
      lc_buckets := map (\<lambda>B. B\<lparr>b_occupiedMask := 0\<rparr>) (lc_buckets st)\<rparr>)) (\<lambda>(succ, st1).
    Inr (succ, st1\<lparr>lc_integrity := succ\<rparr>))"

text \<open>\<open>build\<close>: two tries (\<open>MAX_REHASH\<close>), each with a new seed of \<open>h\<close>, then a larger table.\<close>

fun lc_tries :: "nat \<Rightarrow> ludo_cp \<Rightarrow> (bool \<times> ludo_cp) res" where
  "lc_tries 0 st = Inr (False, st)"
| "lc_tries (Suc n) st =
    (case lc_rnd st of [] \<Rightarrow> Inl Diverges
     | s # rnd \<Rightarrow> rbind (lc_tryBuild (st\<lparr>lc_h := s, lc_rnd := rnd\<rparr>)) (\<lambda>(built, st1).
         if built then Inr (True, st1) else lc_tries n st1))"

fun lc_build :: "nat \<Rightarrow> ludo_cp \<Rightarrow> ludo_cp res" where
  "lc_build 0 st = Inl Diverges"
| "lc_build (Suc fuel) st =
    rbind (lc_tries 2 st) (\<lambda>(built, st1).
    if built then Inr st1
    else rbind (lc_resize (lc_capacity st1 + 1) True st1) (\<lambda>(more, st2).
         rbind (if more then lc_build fuel st2 else Inr st2) (lc_build fuel)))"

definition lc_resizeCapacity :: "u32 \<Rightarrow> bool \<Rightarrow> ludo_cp \<Rightarrow> ludo_cp res" where
  "lc_resizeCapacity target forceBuild st =
    rbind (lc_resize target forceBuild st) (\<lambda>(more, st1).
    if more then lc_build (Suc (length (lc_rnd st1))) st1 else Inr st1)"

text \<open>
  \<open>insert\<close>. The fuel bounds how often the table is enlarged or rebuilt; running out of it stands for a call
  that has not returned.
\<close>

fun lc_insert_rec :: "nat \<Rightarrow> u64 \<Rightarrow> u64 \<Rightarrow> bool \<Rightarrow> ludo_cp \<Rightarrow> (ludo_result \<times> ludo_cp) res" where
  "lc_insert_rec 0 k v online st = Inl Diverges"
| "lc_insert_rec (Suc fuel) k v online st =
    rbind (insert_step k v online st) (\<lambda>(out, st1).
    case out of Returned r \<Rightarrow> Inr (r, st1)
    | Grow cuckoo \<Rightarrow>
        rbind (lc_resizeCapacity (lc_nKeys st1 + 1) True st1) (\<lambda>st2.
        rbind (lc_insert_rec fuel k v False st2) (\<lambda>(r, st3).
        if cuckoo then Inr (r\<lparr>lr_status := 2\<rparr>, st3\<lparr>lc_nKeys := lc_nKeys st3 + 1\<rparr>)
        else if lr_status r < 0 then Inl RuntimeError
        else Inr (r\<lparr>lr_status := 2\<rparr>, st3))))"

definition lc_insert :: "u64 \<Rightarrow> u64 \<Rightarrow> bool \<Rightarrow> ludo_cp \<Rightarrow> (ludo_result \<times> ludo_cp) res" where
  "lc_insert k v online st = lc_insert_rec (Suc (length (lc_rnd st))) k v online st"

definition ControlPlaneLudo :: "nat \<times> nat \<Rightarrow> u64 list \<Rightarrow> u32 \<Rightarrow> u64 list \<Rightarrow> u64 list \<Rightarrow> ludo_cp res" where
  "ControlPlaneLudo lf rnd0 capacity0 keys vals =
    (let toInsert = min (of_nat (min (length keys) (length vals))) capacity0 in
     rbind (ControlPlaneOthello 1 True [] [] rnd0) (\<lambda>(rnd1, l1).
     rbind (grow_buckets 25 32 lf 64 (unat capacity0)) (\<lambda>(nb, cap).
     rbind (cp_resizeCapacity toInsert False False rnd1 l1) (\<lambda>(rnd2, l2).
     rfold (\<lambda>i st. rbind (lc_insert (keys ! i) (vals ! i) False st) (\<lambda>(r, st1). Inr st1)) [0..<unat toInsert]
       \<lparr>lc_load_factor = lf, lc_rnd = rnd2, lc_num_buckets = of_nat nb, lc_h = 0xe2211e2211, lc_nKeys = 0, lc_locator = l2,
        lc_buckets = replicate nb no_bucket, lc_oldBuckets = [], lc_capacity = of_nat cap, lc_integrity = True\<rparr>))))"

section \<open>Definitions: whole-table operations\<close>

definition lc_toMap :: "ludo_cp \<Rightarrow> u64 \<rightharpoonup> u64" where
  "lc_toMap st = map_of (concat (map (\<lambda>B. map (\<lambda>s. (b_keys B ! s, b_values B ! s)) (occ_slots B)) (lc_buckets st)))"

definition SelfCompose :: "(u64 \<rightharpoonup> u64) \<Rightarrow> ludo_cp \<Rightarrow> ludo_cp res" where
  "SelfCompose tr st =
    rfold (\<lambda>i. rfold (\<lambda>slot st. rbind (aget (lc_buckets st) i) (\<lambda>B.
        if \<not> occ B slot then Inr st
        else case tr (b_values B ! slot) of
          Some v \<Rightarrow> upd_bucket (of_nat i) (\<lambda>B. B\<lparr>b_values := (b_values B)[slot := v]\<rparr>) st
        | None \<Rightarrow> rbind (upd_bucket (of_nat i) (\<lambda>B. B\<lparr>b_occupiedMask := b_occupiedMask B AND NOT (push_bit slot 1)\<rparr>) st) (\<lambda>st1.
            Inr (st1\<lparr>lc_nKeys := lc_nKeys st1 - 1\<rparr>)))) [0..<4]) [0..<unat (lc_num_buckets st)] st"

text \<open>\<open>Merge\<close>: the entries of the other map in the order of its iterator.\<close>

definition Merge :: "(u64 \<times> u64) list \<Rightarrow> (u64 \<Rightarrow> bool) \<Rightarrow> ludo_cp \<Rightarrow> ludo_cp res" where
  "Merge another isValid st =
    rfold (\<lambda>(k, v) st. if isValid v then rbind (lc_insert k v False st) (\<lambda>(r, st1). Inr st1)
      else rbind (lc_remove k st) (\<lambda>(r, st1). Inr st1)) another st"

section \<open>Definitions: the data plane\<close>

definition DataPlaneLudo :: "ludo_cp \<Rightarrow> ludo_dp res" where
  "DataPlaneLudo cp =
    rbind (rfold (\<lambda>i seeds. rbind (aget (lc_buckets cp) i) (\<lambda>B. aset seeds i (b_seed B)))
        [0..<unat (lc_num_buckets cp)] (replicate (unat (lc_num_buckets cp)) 0)) (\<lambda>seeds.
    Inr \<lparr>ld_seeds = seeds, ld_num_buckets = lc_num_buckets cp, ld_h = lc_h cp,
         ld_locator = DataPlaneOthello (lc_locator cp), ld_lock = replicate 8192 0\<rparr>)"

definition pd_row :: "cp_bucket \<Rightarrow> ludo_bucket" where
  "pd_row B = fold (\<lambda>s row. row[unat (slot_of (b_seed B) (b_keys B ! s)) := bulk_word (b_values B ! s)]) (occ_slots B) (replicate 4 0)"

text \<open>The second constructor also fills the rows of slot words.\<close>

definition DataPlaneLudo_pd :: "ludo_cp \<Rightarrow> (ludo_dp \<times> ludo_buckets) res" where
  "DataPlaneLudo_pd cp =
    rbind (DataPlaneLudo cp) (\<lambda>d.
    let pd = LudoBuckets_new (ucast (lc_num_buckets cp)) in
    rbind (rfold (\<lambda>i rows. rbind (aget (lc_buckets cp) i) (\<lambda>B. aset rows i (pd_row B)))
        [0..<unat (lc_num_buckets cp)] (bucketsArray pd)) (\<lambda>rows.
    Inr (d, pd\<lparr>bucketsArray := rows\<rparr>)))"

end
