(* ===== verification/Ludo_Table.thy ===== *)
theory Ludo_Table
  imports Ludo_CP
begin

text \<open>
  The invariant of the Ludo control plane and what it gives a lookup.

  A cell is a bucket number with a slot number; \<open>cells\<close> are the occupied ones. \<open>lc_core st P\<close> says that the cells
  of \<open>P\<close> hold different keys, each in the bucket to which the locator points, that the locator stores no other key, and
  that the seed of every bucket separates its keys. While items move along a cuckoo path one
  occupied cell is a hole, outside \<open>P\<close>; between operations \<open>P\<close> is all of \<open>cells\<close>.
\<close>

section \<open>Cells\<close>

definition cells :: "cp_bucket list \<Rightarrow> (nat \<times> nat) set" where
  "cells Bs = {(b, s). b < length Bs \<and> s < 4 \<and> occ (Bs ! b) s}"

definition ckey :: "cp_bucket list \<Rightarrow> nat \<times> nat \<Rightarrow> u64" where
  "ckey Bs p = b_keys (Bs ! fst p) ! snd p"

definition cval :: "cp_bucket list \<Rightarrow> nat \<times> nat \<Rightarrow> u64" where
  "cval Bs p = b_values (Bs ! fst p) ! snd p"

definition citems :: "cp_bucket list \<Rightarrow> (nat \<times> nat) set \<Rightarrow> (u64 \<times> u64) set" where
  "citems Bs P = (\<lambda>p. (ckey Bs p, cval Bs p)) ` P"

definition bucket_wf :: "cp_bucket \<Rightarrow> bool" where
  "bucket_wf B \<longleftrightarrow> length (b_keys B) = 4 \<and> length (b_values B) = 4"

lemma bit_push_one: "s < 8 \<Longrightarrow> bit (2 ^ s :: u8) i \<longleftrightarrow> i = s"
  by (auto simp: bit_exp_iff)

lemma occ_set_occ [simp]: "s < 8 \<Longrightarrow> occ (set_occ s B) i \<longleftrightarrow> occ B i \<or> i = s"
  by (simp add: occ_def set_occ_def bit_or_iff bit_push_one)

lemma occ_flip_occ [simp]: "s < 8 \<Longrightarrow> occ (flip_occ s B) i \<longleftrightarrow> (occ B i \<noteq> (i = s))"
  by (auto simp: occ_def flip_occ_def bit_xor_iff bit_push_one)

lemma bucket_updates [simp]:
  "b_keys (set_occ s B) = b_keys B" "b_values (set_occ s B) = b_values B" "b_seed (set_occ s B) = b_seed B"
  "b_keys (flip_occ s B) = b_keys B" "b_values (flip_occ s B) = b_values B" "b_seed (flip_occ s B) = b_seed B"
  "b_keys (put_slot s k v B) = (b_keys B)[s := k]" "b_values (put_slot s k v B) = (b_values B)[s := v]"
  "b_seed (put_slot s k v B) = b_seed B" "occ (put_slot s k v B) = occ B"
  "occ (B\<lparr>b_seed := sd\<rparr>) = occ B" "occ (B\<lparr>b_values := vs\<rparr>) = occ B"
  by (simp_all add: set_occ_def flip_occ_def put_slot_def occ_def fun_eq_iff)

lemma set_occ_slots: "set (occ_slots B) = {s. s < 4 \<and> occ B s}"
  by (auto simp: occ_slots_def)

lemma distinct_occ_slots [simp]: "distinct (occ_slots B)"
  by (simp add: occ_slots_def)

lemma cells_iff: "(b, s) \<in> cells Bs \<longleftrightarrow> b < length Bs \<and> s < 4 \<and> occ (Bs ! b) s"
  by (simp add: cells_def)

lemma finite_cells [simp]: "finite (cells Bs)"
  by (rule finite_subset [of _ "{..<length Bs} \<times> {..<4}"]) (auto simp: cells_def)

text \<open>What writing one bucket does to the cells.\<close>

lemma cells_update:
  "b < length Bs \<Longrightarrow> cells (Bs[b := B']) = {p \<in> cells Bs. fst p \<noteq> b} \<union> {(b, s) |s. s < 4 \<and> occ B' s}"
  by (auto simp: cells_def nth_list_update split: if_splits)

lemma cells_add:
  assumes "b < length Bs" "s < 4" "\<And>i. i < 4 \<Longrightarrow> occ B' i \<longleftrightarrow> occ (Bs ! b) i \<or> i = s"
  shows "cells (Bs[b := B']) = insert (b, s) (cells Bs)"
  unfolding cells_update [OF assms(1)] using assms by (auto simp: cells_def)

lemma cells_same:
  assumes "b < length Bs" "\<And>i. i < 4 \<Longrightarrow> occ B' i \<longleftrightarrow> occ (Bs ! b) i"
  shows "cells (Bs[b := B']) = cells Bs"
  unfolding cells_update [OF assms(1)] using assms by (auto simp: cells_def)

lemma ckey_same [simp]: "b_keys B' = b_keys (Bs ! b) \<Longrightarrow> ckey (Bs[b := B']) = ckey Bs"
  by (cases "b < length Bs") (auto simp: fun_eq_iff ckey_def nth_list_update list_update_beyond)

lemma cval_same [simp]: "b_values B' = b_values (Bs ! b) \<Longrightarrow> cval (Bs[b := B']) = cval Bs"
  by (cases "b < length Bs") (auto simp: fun_eq_iff cval_def nth_list_update list_update_beyond)

lemma ckey_update:
  assumes "b < length Bs" "s < length (b_keys (Bs ! b))" "b_keys B' = (b_keys (Bs ! b))[s := k]"
  shows "ckey (Bs[b := B']) = (ckey Bs)((b, s) := k)"
  using assms by (auto simp: fun_eq_iff ckey_def nth_list_update split: if_splits)

lemma cval_update:
  assumes "b < length Bs" "s < length (b_values (Bs ! b))" "b_values B' = (b_values (Bs ! b))[s := v]"
  shows "cval (Bs[b := B']) = (cval Bs)((b, s) := v)"
  using assms by (auto simp: fun_eq_iff cval_def nth_list_update split: if_splits)

text \<open>A seed that the search returns separates the keys in the occupied slots.\<close>

definition seeded :: "cp_bucket \<Rightarrow> bool" where
  "seeded B \<longleftrightarrow> inj_on (\<lambda>s. slot_of (b_seed B) (b_keys B ! s)) {s. s < 4 \<and> occ B s}"

lemma seeded_distinct: "seeded B \<longleftrightarrow> distinct (map (\<lambda>k. unat (slot_of (b_seed B) k)) (occ_keys B))"
proof -
  have "seeded B \<longleftrightarrow> inj_on (\<lambda>s. unat (slot_of (b_seed B) (b_keys B ! s))) {s. s < 4 \<and> occ B s}"
    by (simp add: seeded_def inj_on_def word_unat_eq_iff)
  also have "\<dots> \<longleftrightarrow> distinct (map (\<lambda>s. unat (slot_of (b_seed B) (b_keys B ! s))) (occ_slots B))"
    by (simp add: distinct_map set_occ_slots)
  finally show ?thesis by (simp add: occ_keys_def comp_def)
qed

lemma lc_updateSeed_ok:
  assumes "lc_updateSeed b dp sl st = Inr (seed, ts, st')"
  obtains B where "unat b < length (lc_buckets st)" "B = (lc_buckets st ! unat b)\<lparr>b_seed := seed\<rparr>" "seeded B"
    "st' = st\<lparr>lc_buckets := (lc_buckets st)[unat b := B]\<rparr>"
proof -
  let ?B = "lc_buckets st ! unat b"
  have b: "unat b < length (lc_buckets st)" using assms by (auto simp: lc_updateSeed_def aget_eq_Inr elim!: rbindE)
  have f: "find_seed (occ_keys ?B) = Some seed" and s: "st' = st\<lparr>lc_buckets := (lc_buckets st)[unat b := ?B\<lparr>b_seed := seed\<rparr>]\<rparr>"
    using assms b by (auto simp: lc_updateSeed_def upd_bucket_def split: option.splits elim!: rbindE)
  have "occ_keys (?B\<lparr>b_seed := seed\<rparr>) = occ_keys ?B" by (simp add: occ_keys_def occ_slots_def)
  then have "seeded (?B\<lparr>b_seed := seed\<rparr>)" using find_seed_Some [OF f] by (simp add: seeded_distinct)
  then show thesis using that b s by blast
qed

section \<open>The invariant\<close>

definition home :: "ludo_cp \<Rightarrow> u64 \<Rightarrow> u8 \<Rightarrow> u32" where
  "home st k x = (let (b0, b1) = two_buckets (fast_hasher64 (lc_h st) k) (of_nat (length (lc_buckets st))) in if x = 0 then b0 else b1)"

definition lc_core :: "ludo_cp \<Rightarrow> (nat \<times> nat) set \<Rightarrow> bool" where
  "lc_core st P \<longleftrightarrow>
     (\<exists>n<32. length (lc_buckets st) = 2 ^ n) \<and> (\<forall>B\<in>set (lc_buckets st). bucket_wf B) \<and> cp_inv (lc_locator st) \<and>
     P \<subseteq> cells (lc_buckets st) \<and> inj_on (ckey (lc_buckets st)) P \<and>
     dom (cp_abs (lc_locator st)) = ckey (lc_buckets st) ` P \<and>
     (\<forall>p\<in>P. \<exists>x. cp_abs (lc_locator st) (ckey (lc_buckets st) p) = Some x \<and> (x = 0 \<or> x = 1) \<and> unat (home st (ckey (lc_buckets st) p) x) = fst p) \<and>
     (\<forall>b<length (lc_buckets st). inj_on (\<lambda>s. slot_of (b_seed (lc_buckets st ! b)) (ckey (lc_buckets st) (b, s))) {s. (b, s) \<in> P})"

text \<open>The load factor is at least one half and at most one, a \<open>double\<close>.\<close>

definition lf_ok :: "nat \<times> nat \<Rightarrow> bool" where
  "lf_ok lf \<longleftrightarrow> 0 < fst lf \<and> fst lf < 2 ^ 53 \<and> 2 ^ snd lf \<le> 2 * fst lf \<and> fst lf \<le> 2 ^ snd lf"

definition lc_inv :: "ludo_cp \<Rightarrow> bool" where
  "lc_inv st \<longleftrightarrow> lc_core st (cells (lc_buckets st)) \<and> unat (lc_num_buckets st) = length (lc_buckets st) \<and> lf_ok (lc_load_factor st)"

abbreviation lc_items :: "ludo_cp \<Rightarrow> (u64 \<times> u64) set" where
  "lc_items st \<equiv> citems (lc_buckets st) (cells (lc_buckets st))"

lemma lc_coreD:
  assumes "lc_core st P"
  shows "cp_inv (lc_locator st)" "P \<subseteq> cells (lc_buckets st)" "inj_on (ckey (lc_buckets st)) P"
    "dom (cp_abs (lc_locator st)) = ckey (lc_buckets st) ` P"
    "\<And>b. b < length (lc_buckets st) \<Longrightarrow> bucket_wf (lc_buckets st ! b)"
    "\<And>b. b < length (lc_buckets st) \<Longrightarrow> inj_on (\<lambda>s. slot_of (b_seed (lc_buckets st ! b)) (ckey (lc_buckets st) (b, s))) {s. (b, s) \<in> P}"
  using assms unfolding lc_core_def by simp_all

lemma lc_core_home:
  assumes "lc_core st P" "p \<in> P"
  obtains x where "cp_abs (lc_locator st) (ckey (lc_buckets st) p) = Some x" "x = 0 \<or> x = 1"
    "unat (home st (ckey (lc_buckets st) p) x) = fst p"
  using assms unfolding lc_core_def by blast

lemma lc_core_pow2:
  assumes "lc_core st P"
  obtains n where "n < 32" "length (lc_buckets st) = 2 ^ n" "(of_nat (length (lc_buckets st)) :: u32) = 2 ^ n"
proof -
  from assms obtain n where n: "n < 32" "length (lc_buckets st) = 2 ^ n" unfolding lc_core_def by blast
  then have "(of_nat (length (lc_buckets st)) :: u32) = 2 ^ n" by simp
  then show thesis using that n by blast
qed

lemma home_lt:
  assumes "lc_core st P"
  shows "unat (home st k x) < length (lc_buckets st)"
proof -
  obtain n where n: "n < 32" "length (lc_buckets st) = 2 ^ n" "(of_nat (length (lc_buckets st)) :: u32) = 2 ^ n" by (rule lc_core_pow2 [OF assms])
  then have "unat (2 ^ n :: u32) = length (lc_buckets st)" by (simp add: unat_exp)
  then show ?thesis using two_buckets_lt [OF n(3,1), of "fast_hasher64 (lc_h st) k"] n(3)
    by (simp add: home_def split_beta)
qed

lemma candidates_ok:
  assumes "lc_core st P"
  shows "candidates st k = Inr (home st k 0, home st k 1)"
proof -
  obtain n where n: "(of_nat (length (lc_buckets st)) :: u32) = 2 ^ n" by (rule lc_core_pow2 [OF assms])
  show ?thesis unfolding candidates_def n fast_map_to_buckets_pow2 by (simp add: home_def n split_beta)
qed

section \<open>Lookups\<close>

lemma find_Some_upt:
  assumes "find Q [0..<4] = Some s"
  shows "s < 4 \<and> Q s"
  using assms by (auto simp: find_Some_iff)

lemma find_None_upt: "find Q [0..<4] = None \<longleftrightarrow> (\<forall>s<4. \<not> Q s)"
  by (auto simp: find_None_iff)

lemma find_key_Some: "find_key k B = Some s \<Longrightarrow> s < 4 \<and> occ B s \<and> b_keys B ! s = k"
  unfolding find_key_def by (drule find_Some_upt) simp

lemma find_key_None: "find_key k B = None \<longleftrightarrow> (\<forall>s<4. occ B s \<longrightarrow> b_keys B ! s \<noteq> k)"
  unfolding find_key_def find_None_upt by blast

lemma FindFreeSlot_Some: "FindFreeSlot B = Some s \<Longrightarrow> s < 4 \<and> \<not> occ B s"
  unfolding FindFreeSlot_def by (rule find_Some_upt)

lemma FindFreeSlot_None: "FindFreeSlot B = None \<longleftrightarrow> (\<forall>s<4. occ B s)"
  unfolding FindFreeSlot_def find_None_upt by blast

lemma in_candidates_ok:
  assumes "lc_core st P"
  shows "in_candidates f k st = Inr (case f (lc_buckets st ! unat (home st k 0)) of Some x \<Rightarrow> Some (home st k 0, x)
    | None \<Rightarrow> map_option (Pair (home st k 1)) (f (lc_buckets st ! unat (home st k 1))))"
  using home_lt [OF assms, of k 0] home_lt [OF assms, of k 1]
  by (simp add: in_candidates_def candidates_ok [OF assms] split: option.split)

text \<open>A stored key is found in the cell that holds it, another key nowhere.\<close>

lemma find_stored:
  assumes "lc_core st (cells (lc_buckets st))" "p \<in> cells (lc_buckets st)" "ckey (lc_buckets st) p = k"
  obtains b s where "in_candidates (find_key k) k st = Inr (Some (b, s))" "(unat b, s) = p"
    "find_key k (lc_buckets st ! unat b) = Some s"
proof -
  let ?Bs = "lc_buckets st"
  have uniq: "(unat b, s) = p" if "find_key k (?Bs ! unat b) = Some s" "unat b < length ?Bs" for b :: u32 and s
  proof -
    have "(unat b, s) \<in> cells ?Bs" "ckey ?Bs (unat b, s) = k" using find_key_Some [OF that(1)] that(2) by (simp_all add: cells_iff ckey_def)
    then show ?thesis using inj_onD [OF lc_coreD(3) [OF assms(1)], of "(unat b, s)" p] assms(2,3) by simp
  qed
  obtain x where x: "x = 0 \<or> x = 1" "unat (home st k x) = fst p" using lc_core_home [OF assms(1,2)] assms(3) by metis
  obtain bp sp where p: "p = (bp, sp)" by (cases p)
  have "find_key k (?Bs ! unat (home st k x)) \<noteq> None"
    unfolding find_key_None using assms(2,3) x(2) by (auto simp: p cells_iff ckey_def)
  then have "\<exists>b s. in_candidates (find_key k) k st = Inr (Some (b, s)) \<and> find_key k (?Bs ! unat b) = Some s \<and> unat b < length ?Bs"
    using x(1) home_lt [OF assms(1)] unfolding in_candidates_ok [OF assms(1)] by (auto split: option.splits)
  then show thesis using that uniq by blast
qed

lemma find_absent:
  assumes "lc_core st (cells (lc_buckets st))" "k \<notin> ckey (lc_buckets st) ` cells (lc_buckets st)"
  shows "find_key k (lc_buckets st ! unat (home st k x)) = None"
proof -
  have "b_keys (lc_buckets st ! unat (home st k x)) ! s \<noteq> k" if "s < 4" "occ (lc_buckets st ! unat (home st k x)) s" for s
  proof
    assume "b_keys (lc_buckets st ! unat (home st k x)) ! s = k"
    then have "ckey (lc_buckets st) (unat (home st k x), s) = k" by (simp add: ckey_def)
    moreover have "(unat (home st k x), s) \<in> cells (lc_buckets st)" using that home_lt [OF assms(1)] by (simp add: cells_iff)
    ultimately show False using assms(2) by (metis image_eqI)
  qed
  then show ?thesis by (simp add: find_key_None)
qed

lemma citems_iff:
  assumes "inj_on (ckey Bs) P"
  shows "single_valued (citems Bs P)"
  using assms by (auto simp: single_valued_def citems_def inj_on_def)

lemma map_of_single_valued:
  assumes "single_valued (set xs)"
  shows "map_of xs k = Some v \<longleftrightarrow> (k, v) \<in> set xs"
proof
  assume "(k, v) \<in> set xs"
  then obtain v' where "map_of xs k = Some v'" by (metis weak_map_of_SomeI)
  moreover from this have "(k, v') \<in> set xs" by (rule map_of_SomeD)
  ultimately show "map_of xs k = Some v" using assms \<open>(k, v) \<in> set xs\<close> by (auto dest: single_valuedD)
qed (rule map_of_SomeD)

lemma items_set:
  "set (concat (map (\<lambda>B. map (\<lambda>s. (b_keys B ! s, b_values B ! s)) (occ_slots B)) Bs)) = citems Bs (cells Bs)"
proof -
  have "set (concat (map (\<lambda>B. map (\<lambda>s. (b_keys B ! s, b_values B ! s)) (occ_slots B)) Bs)) =
      (\<Union>B\<in>set Bs. (\<lambda>s. (b_keys B ! s, b_values B ! s)) ` {s. s < 4 \<and> occ B s})"
    by (simp add: set_occ_slots)
  also have "\<dots> = (\<Union>b<length Bs. (\<lambda>s. (b_keys (Bs ! b) ! s, b_values (Bs ! b) ! s)) ` {s. s < 4 \<and> occ (Bs ! b) s})"
    unfolding set_conv_nth by (auto simp only: Setcompr_eq_image Collect_conj_eq image_image UN_extend_simps lessThan_def)
  also have "\<dots> = citems Bs (cells Bs)" by (force simp: citems_def cells_def ckey_def cval_def)
  finally show ?thesis .
qed

lemma toMap_items:
  assumes "inj_on (ckey (lc_buckets st)) (cells (lc_buckets st))"
  shows "lc_toMap st k = Some v \<longleftrightarrow> (k, v) \<in> lc_items st"
  unfolding lc_toMap_def using map_of_single_valued [OF citems_iff [OF assms, folded items_set], of k v] by (simp only: items_set)

lemma toMap_none:
  assumes "inj_on (ckey (lc_buckets st)) (cells (lc_buckets st))"
  shows "lc_toMap st k = None \<longleftrightarrow> k \<notin> ckey (lc_buckets st) ` cells (lc_buckets st)"
proof -
  have "lc_toMap st k \<noteq> None \<longleftrightarrow> (\<exists>v. (k, v) \<in> lc_items st)" using toMap_items [OF assms, of k] by auto
  then show ?thesis by (auto simp: citems_def)
qed

lemma FindInBucket_None [simp]: "FindInBucket k B = None \<longleftrightarrow> find_key k B = None"
  by (simp add: FindInBucket_def)

lemma lc_lookUp_ok:
  assumes "lc_core st (cells (lc_buckets st))"
  shows "lc_lookUp k st = Inr (lc_toMap st k)" "lc_isMember k st = Inr (lc_toMap st k \<noteq> None)"
proof -
  note inj = lc_coreD(3) [OF assms]
  let ?Bs = "lc_buckets st"
  have f: "in_candidates (FindInBucket k) k st = rbind (in_candidates (find_key k) k st) (\<lambda>r. Inr (map_option (\<lambda>(b, s). (b, b_values (?Bs ! unat b) ! s)) r))"
    unfolding in_candidates_ok [OF assms] by (simp add: FindInBucket_def option.map_comp comp_def split: option.split)
  have "in_candidates (FindInBucket k) k st = Inr None" if "lc_toMap st k = None"
    using find_absent [OF assms] that by (simp add: toMap_none [OF inj] in_candidates_ok [OF assms] FindInBucket_def)
  moreover have "\<exists>b. in_candidates (FindInBucket k) k st = Inr (Some (b, v))" if kv: "lc_toMap st k = Some v" for v
  proof -
    obtain p where p: "p \<in> cells ?Bs" "ckey ?Bs p = k" "cval ?Bs p = v" using kv by (auto simp: toMap_items [OF inj] citems_def)
    obtain b s where "in_candidates (find_key k) k st = Inr (Some (b, s))" "(unat b, s) = p" by (rule find_stored [OF assms p(1,2)])
    then show ?thesis unfolding f using p(3) by (auto simp: cval_def)
  qed
  ultimately show "lc_lookUp k st = Inr (lc_toMap st k)" "lc_isMember k st = Inr (lc_toMap st k \<noteq> None)"
    by (cases "lc_toMap st k"; force simp: lc_lookUp_def lc_isMember_def)+
qed

end
