(* ===== verification/Ludo_Insert.thy ===== *)
theory Ludo_Insert
  imports Ludo_Table
begin

text \<open>
  The operations that change one key: value change, removal, placing and moving an item, the search for a
  cuckoo path, and one round of \<open>insert\<close>. The lemma \<open>core_write\<close> is the common step of placing and of moving: a key is
  written into a free cell of the bucket to which the locator now points, and leaves the cell it had.
\<close>

section \<open>Writing one cell\<close>

lemma all_update: "\<forall>x\<in>set xs. Q x \<Longrightarrow> Q y \<Longrightarrow> \<forall>x\<in>set (xs[i := y]). Q x"
  using set_update_subset_insert [of xs i y] by blast

lemma citems_insert: "citems Bs (insert p Q) = insert (ckey Bs p, cval Bs p) (citems Bs Q)"
  by (simp add: citems_def)

lemma citems_filter: "{e \<in> citems Bs P. fst e \<noteq> k} = citems Bs {p \<in> P. ckey Bs p \<noteq> k}"
  unfolding citems_def Compr_image_eq by simp

lemma home_cong: "lc_h st' = lc_h st \<Longrightarrow> length (lc_buckets st') = length (lc_buckets st) \<Longrightarrow> home st' = home st"
  by (simp add: fun_eq_iff home_def)

lemma lc_core_cong:
  assumes "lc_core st P" "lc_h st' = lc_h st" "lc_buckets st' = lc_buckets st" "lc_locator st' = lc_locator st"
  shows "lc_core st' P"
proof -
  have "home st' = home st" using assms(2,3) by (intro home_cong) simp_all
  then show ?thesis using assms unfolding lc_core_def by simp
qed

lemma core_write:
  assumes core: "lc_core st P" and new: "(b, s) \<notin> P" "b < length (lc_buckets st)" "s < 4"
    and loc: "cp_inv l" "cp_abs l = (cp_abs (lc_locator st))(k \<mapsto> x)" "x = 0 \<or> x = 1" "unat (home st k x) = b"
    and B: "b_keys B = (b_keys (lc_buckets st ! b))[s := k]" "b_values B = (b_values (lc_buckets st ! b))[s := v]"
      "\<And>i. i < 4 \<Longrightarrow> occ B i \<longleftrightarrow> occ (lc_buckets st ! b) i \<or> i = s" "seeded B"
    and st': "lc_h st' = lc_h st" "lc_buckets st' = (lc_buckets st)[b := B]" "lc_locator st' = l"
  defines "P' \<equiv> insert (b, s) {p \<in> P. ckey (lc_buckets st) p \<noteq> k}"
  shows "lc_core st' P'" "citems (lc_buckets st') P' = insert (k, v) {e \<in> citems (lc_buckets st) P. fst e \<noteq> k}"
    "cells (lc_buckets st') = insert (b, s) (cells (lc_buckets st))"
proof -
  let ?Bs = "lc_buckets st" and ?Bs' = "lc_buckets st'"
  note D = lc_coreD [OF core]
  have len: "s < length (b_keys (?Bs ! b))" "s < length (b_values (?Bs ! b))" using D(5) [OF new(2)] new(3) by (simp_all add: bucket_wf_def)
  have ck: "ckey ?Bs' = (ckey ?Bs)((b, s) := k)" unfolding st'(2) by (rule ckey_update [OF new(2) len(1) B(1)])
  have cv: "cval ?Bs' = (cval ?Bs)((b, s) := v)" unfolding st'(2) by (rule cval_update [OF new(2) len(2) B(2)])
  show cs: "cells ?Bs' = insert (b, s) (cells ?Bs)" unfolding st'(2) by (rule cells_add [OF new(2,3) B(3)])
  have hm: "home st' = home st" using st' by (intro home_cong) simp_all
  have nb: "p \<noteq> (b, s)" if "p \<in> P" for p using that new(1) by blast
  have old: "ckey ?Bs' p = ckey ?Bs p" if "p \<in> P" for p using nb [OF that] ck by simp
  show "citems ?Bs' P' = insert (k, v) {e \<in> citems ?Bs P. fst e \<noteq> k}"
    using nb by (auto simp: citems_def P'_def ck cv)
  have "\<exists>n<32. length ?Bs' = 2 ^ n" using core st'(2) unfolding lc_core_def by simp
  moreover have "\<forall>C\<in>set ?Bs'. bucket_wf C"
  proof -
    have "bucket_wf B" using D(5) [OF new(2)] B(1,2) by (simp add: bucket_wf_def)
    moreover have "\<forall>C\<in>set ?Bs. bucket_wf C" using core by (simp add: lc_core_def)
    ultimately show ?thesis unfolding st'(2) by (intro all_update)
  qed
  moreover have "P' \<subseteq> cells ?Bs'" using D(2) cs by (auto simp: P'_def)
  moreover have "inj_on (ckey ?Bs') P'"
    using D(3) nb unfolding P'_def inj_on_def by (auto simp: ck)
  moreover have "dom (cp_abs l) = ckey ?Bs' ` P'"
    using D(4) nb unfolding P'_def loc(2) by (auto simp: ck image_iff)
  moreover have "\<exists>y. cp_abs l (ckey ?Bs' p) = Some y \<and> (y = 0 \<or> y = 1) \<and> unat (home st' (ckey ?Bs' p) y) = fst p" if p: "p \<in> P'" for p
  proof (cases "p = (b, s)")
    case True
    then show ?thesis using loc by (simp add: ck hm)
  next
    case False
    then have q: "p \<in> P" "ckey ?Bs p \<noteq> k" using p by (auto simp: P'_def)
    obtain y where "cp_abs (lc_locator st) (ckey ?Bs p) = Some y" "y = 0 \<or> y = 1" "unat (home st (ckey ?Bs p) y) = fst p"
      by (rule lc_core_home [OF core q(1)])
    then show ?thesis using q old [OF q(1)] by (auto simp: loc(2) hm)
  qed
  moreover have "inj_on (\<lambda>i. slot_of (b_seed (?Bs' ! c)) (ckey ?Bs' (c, i))) {i. (c, i) \<in> P'}" if c: "c < length ?Bs'" for c
  proof (cases "c = b")
    case True
    have "{i. (b, i) \<in> P'} \<subseteq> {i. i < 4 \<and> occ B i}"
      using D(2) new(3) B(3) by (auto simp: P'_def cells_def)
    moreover have "ckey ?Bs' (b, i) = b_keys B ! i" for i using new(2) by (simp add: ckey_def st'(2))
    ultimately show ?thesis using B(4) new(2) unfolding seeded_def True st'(2) by (auto intro: inj_on_subset)
  next
    case False
    have c': "c < length ?Bs" using c by (simp add: st'(2))
    have "?Bs' ! c = ?Bs ! c" using False by (simp add: st'(2))
    moreover have "ckey ?Bs' (c, i) = ckey ?Bs (c, i)" for i using False by (simp add: ck)
    moreover have "{i. (c, i) \<in> P'} \<subseteq> {i. (c, i) \<in> P}" using False by (auto simp: P'_def)
    ultimately show ?thesis using D(6) [OF c'] by (auto intro: inj_on_subset)
  qed
  ultimately show "lc_core st' P'" using loc(1) st'(3) unfolding lc_core_def by blast
qed

section \<open>The frame\<close>

text \<open>What changing a value, placing and moving leave as it is.\<close>

definition lc_frame :: "ludo_cp \<Rightarrow> ludo_cp \<Rightarrow> bool" where
  "lc_frame st st' \<longleftrightarrow> lc_load_factor st' = lc_load_factor st \<and> lc_num_buckets st' = lc_num_buckets st \<and> lc_h st' = lc_h st \<and>
     lc_nKeys st' = lc_nKeys st \<and> lc_oldBuckets st' = lc_oldBuckets st \<and> lc_capacity st' = lc_capacity st \<and>
     lc_integrity st' = lc_integrity st \<and> length (lc_buckets st') = length (lc_buckets st)"

lemma lc_frame_refl [simp]: "lc_frame st st"
  by (simp add: lc_frame_def)

lemma lc_frame_trans: "lc_frame st st1 \<Longrightarrow> lc_frame st1 st2 \<Longrightarrow> lc_frame st st2"
  by (simp add: lc_frame_def)

section \<open>Changing a value, removing a key\<close>

lemma lc_core_values:
  assumes "lc_core st P" "b < length (lc_buckets st)" "length vs = 4" "lc_h st' = lc_h st" "lc_locator st' = lc_locator st"
    "lc_buckets st' = (lc_buckets st)[b := (lc_buckets st ! b)\<lparr>b_values := vs\<rparr>]"
  shows "lc_core st' P" "cells (lc_buckets st') = cells (lc_buckets st)" "ckey (lc_buckets st') = ckey (lc_buckets st)"
proof -
  let ?Bs = "lc_buckets st" and ?Bs' = "lc_buckets st'"
  show ck: "ckey ?Bs' = ckey ?Bs" unfolding assms(6) by (rule ckey_same) simp
  show cs: "cells ?Bs' = cells ?Bs" unfolding assms(6) by (rule cells_same [OF assms(2)]) simp
  have hm: "home st' = home st" using assms by (intro home_cong) simp_all
  have wf: "\<forall>C\<in>set ?Bs'. bucket_wf C"
  proof -
    have "bucket_wf ((?Bs ! b)\<lparr>b_values := vs\<rparr>)" using lc_coreD(5) [OF assms(1,2)] assms(3) by (simp add: bucket_wf_def)
    moreover have "\<forall>C\<in>set ?Bs. bucket_wf C" using assms(1) by (simp add: lc_core_def)
    ultimately show ?thesis unfolding assms(6) by (intro all_update)
  qed
  have sd: "b_seed (?Bs' ! c) = b_seed (?Bs ! c)" "length ?Bs' = length ?Bs" for c
    using assms(2) by (cases "c = b"; simp add: assms(6))+
  show "lc_core st' P" using assms(1) wf unfolding lc_core_def ck cs hm sd assms(5) by blast
qed

lemma lc_changeValue_ok:
  assumes "lc_inv st" "lc_toMap st k \<noteq> None"
  obtains r st' where "lc_changeValue k v st = Inr (r, st')" "lr_status r = 0" "lc_inv st'" "lc_toMap st' = (lc_toMap st)(k \<mapsto> v)"
    "lc_frame st st'"
proof -
  let ?Bs = "lc_buckets st"
  have core: "lc_core st (cells ?Bs)" using assms(1) by (simp add: lc_inv_def)
  note inj = lc_coreD(3) [OF core]
  obtain p where p: "p \<in> cells ?Bs" "ckey ?Bs p = k" using assms(2) by (auto simp: toMap_none [OF inj])
  obtain b s where b: "in_candidates (find_key k) k st = Inr (Some (b, s))" "(unat b, s) = p" by (rule find_stored [OF core p])
  have bl: "unat b < length ?Bs" "s < 4" using p(1) b(2) by (auto simp: cells_def)
  have wf: "length (b_values (?Bs ! unat b)) = 4" using lc_coreD(5) [OF core bl(1)] by (simp add: bucket_wf_def)
  let ?B = "(?Bs ! unat b)\<lparr>b_values := (b_values (?Bs ! unat b))[s := v]\<rparr>"
  let ?st = "st\<lparr>lc_buckets := ?Bs[unat b := ?B]\<rparr>"
  have r: "\<exists>r. lc_changeValue k v st = Inr (r, ?st) \<and> lr_status r = 0"
    using b(1) bl by (simp add: lc_changeValue_def upd_bucket_def)
  note c = lc_core_values [OF core bl(1), of "(b_values (?Bs ! unat b))[s := v]" ?st]
  have c1: "lc_core ?st (cells ?Bs)" "cells (lc_buckets ?st) = cells ?Bs" "ckey (lc_buckets ?st) = ckey ?Bs"
    using c wf by simp_all
  have cv: "cval (lc_buckets ?st) = (cval ?Bs)(p := v)"
  proof -
    have "cval (lc_buckets ?st) = (cval ?Bs)((unat b, s) := v)" using cval_update [OF bl(1), of s ?B v] bl wf by simp
    then show ?thesis using b(2) by simp
  qed
  have inv: "lc_inv ?st" using assms(1) c1(1,2) by (simp add: lc_inv_def)
  have "lc_toMap ?st k' = ((lc_toMap st)(k \<mapsto> v)) k'" for k'
  proof -
    have inj': "inj_on (ckey (lc_buckets ?st)) (cells (lc_buckets ?st))" using inj c1(2,3) by simp
    have "lc_toMap ?st k' = Some w \<longleftrightarrow> ((lc_toMap st)(k \<mapsto> v)) k' = Some w" for w
      unfolding toMap_items [OF inj'] citems_def c1(2,3) cv
      using toMap_items [OF inj, of k' w] inj p by (auto simp: citems_def inj_on_def image_iff)
    then show ?thesis by (metis option.exhaust)
  qed
  moreover have "lc_frame st ?st" by (simp add: lc_frame_def)
  ultimately show thesis using that [of _ ?st] r inv by (auto simp: fun_eq_iff)
qed

lemma core_remove:
  assumes core: "lc_core st (cells (lc_buckets st))" and p: "(b, s) \<in> cells (lc_buckets st)" "ckey (lc_buckets st) (b, s) = k"
    and l: "cp_inv l" "cp_abs l = (cp_abs (lc_locator st))(k := None)"
    and st': "lc_h st' = lc_h st" "lc_buckets st' = (lc_buckets st)[b := flip_occ s (lc_buckets st ! b)]" "lc_locator st' = l"
  shows "lc_core st' (cells (lc_buckets st'))" "cells (lc_buckets st') = cells (lc_buckets st) - {(b, s)}"
    "ckey (lc_buckets st') = ckey (lc_buckets st)" "cval (lc_buckets st') = cval (lc_buckets st)"
proof -
  let ?Bs = "lc_buckets st" and ?Bs' = "lc_buckets st'"
  note D = lc_coreD [OF core]
  have b: "b < length ?Bs" "s < 4" "occ (?Bs ! b) s" using p(1) by (simp_all add: cells_iff)
  show ck: "ckey ?Bs' = ckey ?Bs" unfolding st'(2) by (rule ckey_same) simp
  show "cval ?Bs' = cval ?Bs" unfolding st'(2) by (rule cval_same) simp
  show cs: "cells ?Bs' = cells ?Bs - {(b, s)}"
    unfolding st'(2) cells_update [OF b(1)] using b by (auto simp: cells_def)
  have hm: "home st' = home st" using st' by (intro home_cong) simp_all
  have wf: "\<forall>C\<in>set ?Bs'. bucket_wf C"
  proof -
    have "bucket_wf (flip_occ s (?Bs ! b))" using D(5) [OF b(1)] by (simp add: bucket_wf_def)
    moreover have "\<forall>C\<in>set ?Bs. bucket_wf C" using core by (simp add: lc_core_def)
    ultimately show ?thesis unfolding st'(2) by (intro all_update)
  qed
  have sd: "b_seed (?Bs' ! c) = b_seed (?Bs ! c)" "length ?Bs' = length ?Bs" for c
    using b(1) by (cases "c = b"; simp add: st'(2))+
  have ne: "ckey ?Bs q \<noteq> k" if "q \<in> cells ?Bs - {(b, s)}" for q using inj_onD [OF D(3), of q "(b, s)"] p that by auto
  have "inj_on (ckey ?Bs) (cells ?Bs - {(b, s)})" using D(3) by (rule inj_on_subset) blast
  moreover have "dom (cp_abs l) = ckey ?Bs ` (cells ?Bs - {(b, s)})" using D(4) ne p unfolding l(2) by (auto simp: image_iff)
  moreover have "\<forall>q\<in>cells ?Bs - {(b, s)}. \<exists>x. cp_abs l (ckey ?Bs q) = Some x \<and> (x = 0 \<or> x = 1) \<and> unat (home st (ckey ?Bs q) x) = fst q"
    using core ne unfolding lc_core_def l(2) by fastforce
  moreover have "inj_on (\<lambda>i. slot_of (b_seed (?Bs ! c)) (ckey ?Bs (c, i))) {i. (c, i) \<in> cells ?Bs - {(b, s)}}" if "c < length ?Bs" for c
    using D(6) [OF that] by (rule inj_on_subset) blast
  moreover have "\<exists>n<32. length ?Bs = 2 ^ n" using core by (simp add: lc_core_def)
  ultimately show "lc_core st' (cells ?Bs')" using wf l(1) unfolding lc_core_def ck cs hm sd st'(3) by blast
qed

lemma toMap_delete:
  assumes "inj_on (ckey (lc_buckets st)) (cells (lc_buckets st))" "p \<in> cells (lc_buckets st)" "ckey (lc_buckets st) p = k"
    "cells (lc_buckets st') = cells (lc_buckets st) - {p}" "ckey (lc_buckets st') = ckey (lc_buckets st)" "cval (lc_buckets st') = cval (lc_buckets st)"
  shows "lc_toMap st' = (lc_toMap st)(k := None)"
proof (rule ext)
  fix k'
  have inj': "inj_on (ckey (lc_buckets st')) (cells (lc_buckets st'))" unfolding assms(4,5) using assms(1) by (rule inj_on_subset) blast
  have "lc_toMap st' k' = Some w \<longleftrightarrow> ((lc_toMap st)(k := None)) k' = Some w" for w
    unfolding toMap_items [OF inj'] citems_def assms(4-6)
    using toMap_items [OF assms(1), of k' w] assms(1-3) by (auto simp: citems_def inj_on_def image_iff)
  then show "lc_toMap st' k' = ((lc_toMap st)(k := None)) k'" by (metis option.exhaust)
qed


text \<open>\<open>remove(k)\<close> returns and deletes exactly that key.\<close>

lemma lc_remove_ok:
  assumes "lc_inv st"
  obtains r st' where "lc_remove k st = Inr (r, st')" "lr_status r = 0" "lc_inv st'" "lc_toMap st' = (lc_toMap st)(k := None)"
proof (cases "lc_toMap st k")
  case None
  have core: "lc_core st (cells (lc_buckets st))" using assms by (simp add: lc_inv_def)
  have a: "k \<notin> ckey (lc_buckets st) ` cells (lc_buckets st)" using None by (simp add: toMap_none [OF lc_coreD(3) [OF core]])
  have "in_candidates (find_key k) k st = Inr None" unfolding in_candidates_ok [OF core] by (simp add: find_absent [OF core a])
  then have "lc_remove k st = Inr (ludo_ok, st)" by (simp add: lc_remove_def)
  moreover have "(lc_toMap st)(k := None) = lc_toMap st" using None by auto
  ultimately show thesis using that [of ludo_ok st] assms by (simp add: ludo_ok_def)
next
  case (Some v)
  let ?Bs = "lc_buckets st"
  have core: "lc_core st (cells ?Bs)" using assms by (simp add: lc_inv_def)
  note D = lc_coreD [OF core]
  have "\<not> k \<notin> ckey ?Bs ` cells ?Bs" using Some toMap_none [OF D(3), of k] by simp
  then obtain p where p: "p \<in> cells ?Bs" "ckey ?Bs p = k" by blast
  obtain b s where b: "in_candidates (find_key k) k st = Inr (Some (b, s))" "(unat b, s) = p" by (rule find_stored [OF core p])
  have bl: "unat b < length ?Bs" using p(1) b(2) by (auto simp: cells_def)
  obtain r l where l: "cp_remove k (- 1) (lc_locator st) = Inr (r, l)" "cp_inv l" "cp_abs l = (cp_abs (lc_locator st))(k := None)"
    using cp_remove_ok [OF D(1), of k] by blast
  let ?st = "st\<lparr>lc_buckets := ?Bs[unat b := flip_occ s (?Bs ! unat b)], lc_locator := l, lc_nKeys := lc_nKeys st - 1\<rparr>"
  have r: "lc_remove k st = Inr (ludo_ok, ?st)"
    using b(1) bl l(1) by (simp add: lc_remove_def RemoveInBucket_def upd_bucket_def unregisterKey_def)
  have q: "(unat b, s) \<in> cells ?Bs" "ckey ?Bs (unat b, s) = k" using p b(2) by simp_all
  have c: "lc_core ?st (cells (lc_buckets ?st))" "cells (lc_buckets ?st) = cells ?Bs - {(unat b, s)}"
    "ckey (lc_buckets ?st) = ckey ?Bs" "cval (lc_buckets ?st) = cval ?Bs"
    by (rule core_remove [OF core q l(2,3)]; simp)+
  have "lc_toMap ?st = (lc_toMap st)(k := None)" by (rule toMap_delete [OF D(3) q c(2-4)])
  moreover have "lc_inv ?st" using assms c(1) by (simp add: lc_inv_def)
  ultimately show thesis using that [OF r] by (simp add: ludo_ok_def)
qed


section \<open>Placing an item\<close>

lemma registerKey_ok:
  assumes "cp_inv (lc_locator st)" "cp_abs (lc_locator st) k = None" "registerKey k x online st = Inr (r, st')"
  obtains rnd l where "st' = st\<lparr>lc_rnd := rnd, lc_locator := l\<rparr>" "cp_inv l"
    "cp_abs l = (if or_status r < 0 then cp_abs (lc_locator st) else (cp_abs (lc_locator st))(k \<mapsto> x))" "or_status r < 0 \<Longrightarrow> online"
proof -
  have "cp_isMember (lc_locator st) k = Inr False" using cp_isMember_abs [OF assms(1)] assms(2) by simp
  then obtain rnd l where i: "cp_insert k x online (lc_rnd st) (lc_locator st) = Inr (r, rnd, l)" "st' = st\<lparr>lc_rnd := rnd, lc_locator := l\<rparr>"
    using assms(3) by (auto simp: registerKey_def elim!: rbindE)
  have "cp_inv l \<and> cp_abs l = (if or_status r < 0 then cp_abs (lc_locator st) else (cp_abs (lc_locator st))(k \<mapsto> x)) \<and> (or_status r < 0 \<longrightarrow> online)"
  proof (cases online)
    case False
    then show ?thesis using insert_rec_offline [of 3 k x "lc_rnd st" "lc_locator st" r rnd l] i(1) assms(1) by (auto simp: cp_insert_def)
  next
    case True
    then show ?thesis
      using insert_fresh [OF assms(1,2), of 2 x True "lc_rnd st"] insert_refused [OF assms(1,2), of 2 x "lc_rnd st"] i(1)
      by (cases "cp_full (lc_locator st) \<or> cp_cyclic (lc_locator st) k") (auto simp: cp_insert_def numeral_3_eq_3 numeral_2_eq_2 split: if_splits)
  qed
  then show thesis using that i(2) by blast
qed

text \<open>
  The item is placed once the locator has the key. The state before may have another locator \<open>l0\<close>, as long as it
  stands for the same map; so the lemma also serves a locator that was cleared.
\<close>

lemma putItem_placed:
  assumes core: "lc_core (st\<lparr>lc_locator := l0\<rparr>) P" and new: "(unat b, s) \<notin> P" "unat b < length (lc_buckets st)" "s < 4"
    and k: "k \<notin> ckey (lc_buckets st) ` P" "home st k x = b" "x = (if toFirst then 0 else 1)"
    and reg: "registerKey k x (path \<noteq> None) st = Inr (r, st\<lparr>lc_rnd := rnd, lc_locator := l\<rparr>)" "0 \<le> or_status r"
    and l: "cp_inv l" "cp_abs l = (cp_abs l0)(k \<mapsto> x)"
    and put: "putItem k v b s toFirst path st = Inr (succ, path', st')"
  shows "succ" "lc_frame st st'" "lc_core st' (insert (unat b, s) P)" "citems (lc_buckets st') (insert (unat b, s) P) = insert (k, v) (citems (lc_buckets st) P)"
    "cells (lc_buckets st') = insert (unat b, s) (cells (lc_buckets st))"
proof -
  let ?B = "lc_buckets st ! unat b" and ?st0 = "st\<lparr>lc_locator := l0\<rparr>"
  let ?st2 = "st\<lparr>lc_rnd := rnd, lc_locator := l, lc_buckets := (lc_buckets st)[unat b := set_occ s (put_slot s k v ?B)]\<rparr>"
  have u: "upd_bucket b (\<lambda>B. set_occ s (put_slot s k v B)) (st\<lparr>lc_rnd := rnd, lc_locator := l\<rparr>) = Inr ?st2" using new(2) by (simp add: upd_bucket_def)
  obtain seed ts where us: "lc_updateSeed b (path \<noteq> None) (int s) ?st2 = Inr (seed, ts, st')" and succ: succ
    using put reg u k(3) by (auto simp: putItem_def split: option.splits elim!: rbindE)
  obtain B where B: "B = (lc_buckets ?st2 ! unat b)\<lparr>b_seed := seed\<rparr>" "seeded B" "st' = ?st2\<lparr>lc_buckets := (lc_buckets ?st2)[unat b := B]\<rparr>"
    by (rule lc_updateSeed_ok [OF us]) blast
  have B': "B = (set_occ s (put_slot s k v ?B))\<lparr>b_seed := seed\<rparr>" using B(1) new(2) by simp
  have st': "lc_h st' = lc_h ?st0" "lc_buckets st' = (lc_buckets ?st0)[unat b := B]" "lc_locator st' = l" using B(3) by simp_all
  have "home ?st0 = home st" by (intro home_cong) simp_all
  then have a: "cp_abs l = (cp_abs (lc_locator ?st0))(k \<mapsto> x)" "x = 0 \<or> x = 1" "unat (home ?st0 k x) = unat b" using l(2) k(2,3) by simp_all
  have f: "b_keys B = (b_keys (lc_buckets ?st0 ! unat b))[s := k]" "b_values B = (b_values (lc_buckets ?st0 ! unat b))[s := v]"
    "\<And>i. i < 4 \<Longrightarrow> occ B i \<longleftrightarrow> occ (lc_buckets ?st0 ! unat b) i \<or> i = s"
    using new(3) by (simp_all add: B')
  have bl: "unat b < length (lc_buckets ?st0)" using new(2) by simp
  have P0: "{p \<in> P. ckey (lc_buckets ?st0) p \<noteq> k} = P" using k(1) by auto
  note w = core_write [OF core new(1) bl new(3) l(1) a f B(2) st', unfolded citems_filter P0]
  show "lc_core st' (insert (unat b, s) P)" using w(1) .
  show "citems (lc_buckets st') (insert (unat b, s) P) = insert (k, v) (citems (lc_buckets st) P)" "cells (lc_buckets st') = insert (unat b, s) (cells (lc_buckets st))"
    using w(2,3) by simp_all
  show "lc_frame st st'" using B(3) by (simp add: lc_frame_def)
  show succ by (rule succ)
qed

lemma putItem_ok:
  assumes core: "lc_core st P" and new: "(unat b, s) \<notin> P" "unat b < length (lc_buckets st)" "s < 4"
    and k: "k \<notin> ckey (lc_buckets st) ` P" "home st k (if toFirst then 0 else 1) = b"
    and put: "putItem k v b s toFirst path st = Inr (succ, path', st')"
  shows "lc_frame st st'"
    "succ \<Longrightarrow> lc_core st' (insert (unat b, s) P) \<and> citems (lc_buckets st') (insert (unat b, s) P) = insert (k, v) (citems (lc_buckets st) P) \<and>
       cells (lc_buckets st') = insert (unat b, s) (cells (lc_buckets st))"
    "\<not> succ \<Longrightarrow> lc_core st' P \<and> lc_buckets st' = lc_buckets st \<and> path \<noteq> None"
proof -
  note D = lc_coreD [OF core]
  let ?x = "if toFirst then 0 else 1 :: u8"
  obtain r st1 where r: "registerKey k ?x (path \<noteq> None) st = Inr (r, st1)" using put by (auto simp: putItem_def elim!: rbindE)
  have "cp_abs (lc_locator st) k = None" using D(4) k(1) by (metis domIff)
  then obtain rnd l where l: "st1 = st\<lparr>lc_rnd := rnd, lc_locator := l\<rparr>" "cp_inv l"
    "cp_abs l = (if or_status r < 0 then cp_abs (lc_locator st) else (cp_abs (lc_locator st))(k \<mapsto> ?x))" "or_status r < 0 \<Longrightarrow> path \<noteq> None"
    by (rule registerKey_ok [OF D(1) _ r]) blast
  have *: "lc_frame st st' \<and> (if succ then lc_core st' (insert (unat b, s) P) \<and> citems (lc_buckets st') (insert (unat b, s) P) = insert (k, v) (citems (lc_buckets st) P) \<and>
       cells (lc_buckets st') = insert (unat b, s) (cells (lc_buckets st)) else lc_core st' P \<and> lc_buckets st' = lc_buckets st \<and> path \<noteq> None)"
  proof (cases "or_status r < 0")
    case True
    then have e: "\<not> succ" "st' = st1" using put r by (auto simp: putItem_def)
    have "home st1 = home st" unfolding l(1) by (intro home_cong) simp_all
    then have "lc_core st1 P" using core l True unfolding lc_core_def by simp
    then show ?thesis using e True l by (simp add: lc_frame_def)
  next
    case False
    have c: "lc_core (st\<lparr>lc_locator := lc_locator st\<rparr>) P" and s: "0 \<le> or_status r" and a: "cp_abs l = (cp_abs (lc_locator st))(k \<mapsto> ?x)"
      using core False l(3) by simp_all
    show ?thesis using putItem_placed [OF c new k refl r [unfolded l(1)] s l(2) a put] by simp
  qed
  then show "lc_frame st st'" by simp
  show "succ \<Longrightarrow> lc_core st' (insert (unat b, s) P) \<and> citems (lc_buckets st') (insert (unat b, s) P) = insert (k, v) (citems (lc_buckets st) P) \<and>
       cells (lc_buckets st') = insert (unat b, s) (cells (lc_buckets st))" using * by simp
  show "\<not> succ \<Longrightarrow> lc_core st' P \<and> lc_buckets st' = lc_buckets st \<and> path \<noteq> None" using * by simp
qed

section \<open>Moving an item\<close>

text \<open>The two buckets of a key, in either order.\<close>

definition two_homes :: "ludo_cp \<Rightarrow> u64 \<Rightarrow> u32 \<Rightarrow> u32 \<Rightarrow> bool" where
  "two_homes st k b b' \<longleftrightarrow> home st k 0 = b \<and> home st k 1 = b' \<or> home st k 0 = b' \<and> home st k 1 = b"

lemma moveItem_ok:
  assumes core: "lc_core st (cells (lc_buckets st) - {(unat d, ds)})" and hole: "(unat d, ds) \<in> cells (lc_buckets st)"
    and src: "(unat s, ss) \<in> cells (lc_buckets st)" "s \<noteq> d" "two_homes st (ckey (lc_buckets st) (unat s, ss)) s d"
    and mv: "moveItem s ss d ds path st = Inr (path', st')"
  shows "lc_core st' (cells (lc_buckets st') - {(unat s, ss)})" "cells (lc_buckets st') = cells (lc_buckets st)"
    "citems (lc_buckets st') (cells (lc_buckets st') - {(unat s, ss)}) = citems (lc_buckets st) (cells (lc_buckets st) - {(unat d, ds)})"
    "ckey (lc_buckets st') = (ckey (lc_buckets st))((unat d, ds) := ckey (lc_buckets st) (unat s, ss))" "lc_frame st st'" "path' = None \<longleftrightarrow> path = None"
proof -
  let ?Bs = "lc_buckets st" and ?S = "lc_buckets st ! unat s" and ?D = "lc_buckets st ! unat d"
  let ?P = "cells ?Bs - {(unat d, ds)}" and ?k = "ckey ?Bs (unat s, ss)" and ?v = "cval ?Bs (unat s, ss)"
  note D = lc_coreD [OF core]
  have dl: "unat d < length ?Bs" "ds < 4" "occ ?D ds" and sl: "unat s < length ?Bs" using hole src(1) by (simp_all add: cells_iff)
  have inP: "(unat s, ss) \<in> ?P" using src(1,2) by (auto simp: word_unat_eq_iff)
  obtain x where x: "cp_abs (lc_locator st) ?k = Some x" "x = 0 \<or> x = 1" "unat (home st ?k x) = unat s"
    using lc_core_home [OF core inP] by auto
  let ?y = "if x = 0 then 1 else 0 :: u8"
  have "home st ?k x = s" using x(3) by (simp add: word_unat_eq_iff)
  then have y: "home st ?k ?y = d" using x(2) src(2,3) by (auto simp: two_homes_def)
  obtain r l where l: "toggleInOthello ?k (lc_locator st) = Inr (r, l)" "cp_inv l" "cp_abs l = (cp_abs (lc_locator st))(?k \<mapsto> ?y)" "or_status r = 0"
    by (rule toggleInOthello_ok [OF D(1) x(1)])
  let ?st2 = "st\<lparr>lc_buckets := ?Bs[unat d := put_slot ds ?k ?v ?D], lc_locator := l\<rparr>"
  obtain seed ts where us: "lc_updateSeed d (path \<noteq> None) (int ds) ?st2 = Inr (seed, ts, st')" and p': "path' = None \<longleftrightarrow> path = None"
    using mv sl dl l(1,4)
    by (auto simp: moveItem_def upd_bucket_def toggleKey_def Let_def ckey_def cval_def split: option.splits if_splits elim!: rbindE)
  obtain B where B: "B = (lc_buckets ?st2 ! unat d)\<lparr>b_seed := seed\<rparr>" "seeded B" "st' = ?st2\<lparr>lc_buckets := (lc_buckets ?st2)[unat d := B]\<rparr>"
    by (rule lc_updateSeed_ok [OF us]) blast
  have B': "B = (put_slot ds ?k ?v ?D)\<lparr>b_seed := seed\<rparr>" using B(1) dl by simp
  have st': "lc_h st' = lc_h st" "lc_buckets st' = ?Bs[unat d := B]" "lc_locator st' = l" using B(3) by simp_all
  have new: "(unat d, ds) \<notin> ?P" by simp
  have a: "?y = 0 \<or> ?y = 1" "unat (home st ?k ?y) = unat d" using y by simp_all
  have f: "b_keys B = (b_keys ?D)[ds := ?k]" "b_values B = (b_values ?D)[ds := ?v]" "\<And>i. i < 4 \<Longrightarrow> occ B i \<longleftrightarrow> occ ?D i \<or> i = ds"
    using dl(3) by (auto simp: B')
  note w = core_write [OF core new dl(1,2) l(2,3) a f B(2) st']
  have cs: "cells (lc_buckets st') = cells ?Bs" using w(3) hole by auto
  have "p = (unat s, ss)" if "p \<in> ?P" "ckey ?Bs p = ?k" for p using inj_onD [OF D(3) that(2) that(1) inP] .
  then have P0: "{p \<in> ?P. ckey ?Bs p \<noteq> ?k} = ?P - {(unat s, ss)}" by auto
  have P1: "insert (unat d, ds) {p \<in> ?P. ckey ?Bs p \<noteq> ?k} = cells (lc_buckets st') - {(unat s, ss)}"
    unfolding P0 cs using hole inP src(2) by (auto simp: word_unat_eq_iff)
  show "lc_core st' (cells (lc_buckets st') - {(unat s, ss)})" using w(1) unfolding P1 .
  show "cells (lc_buckets st') = cells ?Bs" by (rule cs)
  have "{e \<in> citems ?Bs ?P. fst e \<noteq> ?k} = citems ?Bs (?P - {(unat s, ss)})" unfolding citems_filter P0 ..
  moreover have "citems ?Bs ?P = insert (?k, ?v) (citems ?Bs (?P - {(unat s, ss)}))" 
    unfolding citems_insert [symmetric] insert_Diff [OF inP] ..
  ultimately show "citems (lc_buckets st') (cells (lc_buckets st') - {(unat s, ss)}) = citems ?Bs ?P" using w(2) unfolding P1 by simp
  have "ds < length (b_keys ?D)" using D(5) [OF dl(1)] dl(2) by (simp add: bucket_wf_def)
  then show "ckey (lc_buckets st') = (ckey ?Bs)((unat d, ds) := ?k)" unfolding st'(2) by (rule ckey_update [OF dl(1) _ f(1)])
  show "lc_frame st st'" using B(3) by (simp add: lc_frame_def)
  show "path' = None \<longleftrightarrow> path = None" by (rule p')
qed

end
