(* ===== verification/Ludo_Path.thy ===== *)
theory Ludo_Path
  imports Ludo_Insert
begin

text \<open>
  The search for a cuckoo path and the moves along it.

  The search returns: its queue never holds more than 682 entries, half of what the ring has room for, and its visited list
  never more than 170 of 340. What it finds is a chain of full buckets, each reached from a key of the one before, that ends at a
  bucket with a free slot. The chain may pass through a cell twice; then it is at most five buckets long and comes back after
  two steps, and copying item after item into the next cell is still right.
\<close>

section \<open>What the search visits\<close>

abbreviation full_bucket :: "ludo_cp \<Rightarrow> u32 \<Rightarrow> bool" where
  "full_bucket st b \<equiv> FindFreeSlot (lc_buckets st ! unat b) = None"

text \<open>The step from a bucket to the other bucket of the key in one of its slots.\<close>

definition path_step :: "ludo_cp \<Rightarrow> path_node \<Rightarrow> path_node \<Rightarrow> bool" where
  "path_step st p e \<longleftrightarrow> pn_depth e = pn_depth p + 1 \<and> pn_bucket e \<noteq> pn_bucket p \<and> 0 \<le> pn_parent_slot e \<and> pn_parent_slot e < 4 \<and>
     two_homes st (ckey (lc_buckets st) (unat (pn_bucket p), nat (pn_parent_slot e))) (pn_bucket p) (pn_bucket e)"

definition node_ok :: "ludo_cp \<Rightarrow> path_node list \<Rightarrow> nat \<Rightarrow> path_node \<Rightarrow> bool" where
  "node_ok st vis n e \<longleftrightarrow> unat (pn_bucket e) < length (lc_buckets st) \<and> 1 \<le> pn_depth e \<and> pn_depth e \<le> 5 \<and>
     (pn_depth e \<noteq> 1 \<longrightarrow> 0 \<le> pn_parent e \<and> pn_parent e < int n \<and> path_step st (vis ! nat (pn_parent e)) e)"

definition visited_ok :: "ludo_cp \<Rightarrow> u32 \<Rightarrow> u32 \<Rightarrow> path_node list \<Rightarrow> nat \<Rightarrow> bool" where
  "visited_ok st b0 b1 vis n \<longleftrightarrow> length vis = kVisitedListSize \<and> n \<le> kVisitedListSize \<and>
     (\<forall>i<n. node_ok st vis i (vis ! i) \<and> full_bucket st (pn_bucket (vis ! i)) \<and>
        (pn_depth (vis ! i) = 1 \<longrightarrow> pn_bucket (vis ! i) = (if i = 0 then b0 else b1)))"

lemma node_ok_mono:
  assumes "node_ok st vis n e" "n \<le> n'" "\<And>i. i < n \<Longrightarrow> vis' ! i = vis ! i"
  shows "node_ok st vis' n' e"
proof -
  have "vis' ! nat (pn_parent e) = vis ! nat (pn_parent e)" if "pn_depth e \<noteq> 1"
    using assms(1) that by (intro assms(3)) (auto simp: node_ok_def)
  then show ?thesis using assms(1,2) by (auto simp: node_ok_def)
qed

lemma visited_ok_add:
  assumes "visited_ok st b0 b1 vis n" "n < kVisitedListSize" "node_ok st vis n e" "full_bucket st (pn_bucket e)"
    "pn_depth e = 1 \<Longrightarrow> pn_bucket e = (if n = 0 then b0 else b1)"
  shows "visited_ok st b0 b1 (vis[n := e]) (Suc n)"
proof -
  have old: "vis[n := e] ! j = vis ! j" if "j < n" for j using that by simp
  have "node_ok st (vis[n := e]) i (vis[n := e] ! i)" if "i < Suc n" for i
  proof (cases "i = n")
    case True
    then show ?thesis using node_ok_mono [OF assms(3), of n] assms(1,2) by (simp add: visited_ok_def)
  next
    case False
    then have "i < n" using that by simp
    then show ?thesis using node_ok_mono [of st vis i "vis ! i" i "vis[n := e]"] assms(1) by (simp add: visited_ok_def)
  qed
  then show ?thesis using assms by (auto simp: visited_ok_def less_Suc_eq)
qed

text \<open>The entries that can still come from an entry, itself included.\<close>

fun subtree :: "nat \<Rightarrow> nat" where
  "subtree 0 = 0"
| "subtree (Suc m) = 1 + 4 * subtree m"

definition weight :: "path_node list \<Rightarrow> nat" where
  "weight es = sum_list (map (\<lambda>e. subtree (nat (6 - pn_depth e))) es)"

definition inner_weight :: "path_node list \<Rightarrow> nat" where
  "inner_weight es = sum_list (map (\<lambda>e. subtree (nat (5 - pn_depth e))) es)"

lemma weight_simps [simp]:
  "weight [] = 0" "weight (e # es) = subtree (nat (6 - pn_depth e)) + weight es" "weight (es @ fs) = weight es + weight fs"
  "inner_weight [] = 0" "inner_weight (e # es) = subtree (nat (5 - pn_depth e)) + inner_weight es" "inner_weight (es @ fs) = inner_weight es + inner_weight fs"
  by (simp_all add: weight_def inner_weight_def)

lemma subtree_level:
  "d < 5 \<Longrightarrow> subtree (nat (6 - d)) = 1 + 4 * subtree (nat (6 - (d + 1)))"
  "d < 5 \<Longrightarrow> subtree (nat (5 - d)) = 1 + 4 * subtree (nat (5 - (d + 1)))"
proof -
  assume d: "d < 5"
  have "nat (6 - d) = Suc (nat (6 - (d + 1)))" "nat (5 - d) = Suc (nat (5 - (d + 1)))" using d by auto
  then show "subtree (nat (6 - d)) = 1 + 4 * subtree (nat (6 - (d + 1)))" "subtree (nat (5 - d)) = 1 + 4 * subtree (nat (5 - (d + 1)))"
    by (simp_all only: subtree.simps)
qed

lemma weight_level:
  assumes "\<forall>c\<in>set cs. pn_depth c = d + 1" "length cs \<le> 4" "d < 5"
  shows "weight cs + 1 \<le> subtree (nat (6 - d))" "inner_weight cs + 1 \<le> subtree (nat (5 - d))"
proof -
  have "weight cs = length cs * subtree (nat (6 - (d + 1)))" "inner_weight cs = length cs * subtree (nat (5 - (d + 1)))"
    using assms(1) by (induction cs) (simp_all add: algebra_simps)
  moreover have "length cs * m \<le> 4 * m" for m using assms(2) by simp
  ultimately show "weight cs + 1 \<le> subtree (nat (6 - d))" "inner_weight cs + 1 \<le> subtree (nat (5 - d))"
    unfolding subtree_level [OF assms(3)] by simp_all
qed

lemma length_le_weight: "\<forall>e\<in>set es. pn_depth e \<le> 5 \<Longrightarrow> length es \<le> weight es"
proof (induction es)
  case (Cons e es)
  obtain m where "nat (6 - pn_depth e) = Suc m" using Cons.prems by (cases "nat (6 - pn_depth e)") auto
  then show ?case using Cons by simp
qed simp

section \<open>The children of a full bucket\<close>

lemma push_child_ok:
  assumes core: "lc_core st (cells (lc_buckets st))" and e: "unat (pn_bucket e) < length (lc_buckets st)" "full_bucket st (pn_bucket e)"
    and q: "pq_inv q" "length (pq_elems q) < 1363"
  obtains q' cs where "push_child st (lc_buckets st ! unat (pn_bucket e)) e n i q = Inr q'" "pq_inv q'" "pq_elems q' = pq_elems q @ cs"
    "length cs \<le> 1" "\<And>c. c \<in> set cs \<Longrightarrow> path_step st e c \<and> pn_parent c = int n \<and> unat (pn_bucket c) < length (lc_buckets st)"
proof -
  let ?b = "pn_bucket e" and ?s = "child_slot e i"
  let ?k = "ckey (lc_buckets st) (unat ?b, ?s)"
  let ?c = "\<lambda>b. \<lparr>pn_bucket = b, pn_depth = pn_depth e + 1, pn_parent = int n, pn_parent_slot = int ?s\<rparr>"
  let ?f = "\<lambda>b q. if b = ?b then Inr q else push_back (?c b) q"
  have s: "?s < 4" by (simp add: child_slot_def)
  have cell: "(unat ?b, ?s) \<in> cells (lc_buckets st)" using e s by (simp add: cells_iff FindFreeSlot_None)
  obtain x where x: "x = 0 \<or> x = 1" "unat (home st ?k x) = unat ?b" using lc_core_home [OF core cell] by auto
  have "home st ?k x = ?b" using x(2) by (simp add: word_unat_eq_iff)
  then have h: "home st ?k 0 = ?b \<or> home st ?k 1 = ?b" using x(1) by auto
  have eq: "push_child st (lc_buckets st ! unat ?b) e n i q = rfold ?f [home st ?k 0, home st ?k 1] q"
    by (simp add: push_child_def Let_def candidates_ok [OF core] ckey_def)
  have step: "path_step st e (?c b) \<and> pn_parent (?c b) = int n \<and> unat (pn_bucket (?c b)) < length (lc_buckets st)"
    if "b \<noteq> ?b" "b = home st ?k 0 \<or> b = home st ?k 1" for b
    using that h s home_lt [OF core] by (auto simp: path_step_def two_homes_def)
  show thesis
  proof (cases "home st ?k 0 = ?b \<and> home st ?k 1 = ?b")
    case True
    then show thesis using that [of q "[]"] eq q(1) by simp
  next
    case False
    define b where "b = (if home st ?k 0 = ?b then home st ?k 1 else home st ?k 0)"
    have b: "b \<noteq> ?b" "b = home st ?k 0 \<or> b = home st ?k 1" using False by (auto simp: b_def)
    obtain q' where q': "push_back (?c b) q = Inr q'" "pq_inv q'" "pq_elems q' = pq_elems q @ [?c b]"
      using ring.push_ok [OF q, of "?c b"] by blast
    have "push_child st (lc_buckets st ! unat ?b) e n i q = Inr q'"
      using q'(1) h False unfolding eq b_def by (auto split: if_splits)
    then show thesis using that [OF _ q'(2,3)] step [OF b] by simp
  qed
qed

lemma push_children_ok:
  assumes core: "lc_core st (cells (lc_buckets st))" and e: "unat (pn_bucket e) < length (lc_buckets st)" "full_bucket st (pn_bucket e)"
    and q: "pq_inv q" "length (pq_elems q) + m \<le> 1363"
  shows "\<exists>q' cs. rfold (push_child st (lc_buckets st ! unat (pn_bucket e)) e n) [0..<m] q = Inr q' \<and> pq_inv q' \<and> pq_elems q' = pq_elems q @ cs \<and>
    length cs \<le> m \<and> (\<forall>c\<in>set cs. path_step st e c \<and> pn_parent c = int n \<and> unat (pn_bucket c) < length (lc_buckets st))"
  using q(2)
proof (induction m)
  case (Suc m)
  then obtain q1 cs where 1: "rfold (push_child st (lc_buckets st ! unat (pn_bucket e)) e n) [0..<m] q = Inr q1" "pq_inv q1"
    "pq_elems q1 = pq_elems q @ cs" "length cs \<le> m" "\<forall>c\<in>set cs. path_step st e c \<and> pn_parent c = int n \<and> unat (pn_bucket c) < length (lc_buckets st)"
    by auto
  then have "length (pq_elems q1) < 1363" using Suc.prems by simp
  then obtain q2 ds where 2: "push_child st (lc_buckets st ! unat (pn_bucket e)) e n m q1 = Inr q2" "pq_inv q2" "pq_elems q2 = pq_elems q1 @ ds"
    "length ds \<le> 1" "\<And>c. c \<in> set ds \<Longrightarrow> path_step st e c \<and> pn_parent c = int n \<and> unat (pn_bucket c) < length (lc_buckets st)"
    by (rule push_child_ok [OF core e 1(2)]) blast
  have "rfold (push_child st (lc_buckets st ! unat (pn_bucket e)) e n) [0..<Suc m] q = Inr q2"
    "pq_elems q2 = pq_elems q @ (cs @ ds)" "length (cs @ ds) \<le> Suc m"
    "\<forall>c\<in>set (cs @ ds). path_step st e c \<and> pn_parent c = int n \<and> unat (pn_bucket c) < length (lc_buckets st)"
    using 1 2 by (auto simp: rfold_append)
  then show ?case using 2(2) by blast
qed (use q(1) in simp)

section \<open>The search\<close>

definition roots_ok :: "u32 \<Rightarrow> path_node list \<Rightarrow> nat \<Rightarrow> bool" where
  "roots_ok b1 es n \<longleftrightarrow> (n = 1 \<longrightarrow> es \<noteq> [] \<and> hd es = root_node b1 \<and> (\<forall>e\<in>set (tl es). pn_depth e \<noteq> 1)) \<and> (2 \<le> n \<longrightarrow> (\<forall>e\<in>set es. pn_depth e \<noteq> 1))"

definition search_ok :: "ludo_cp \<Rightarrow> u32 \<Rightarrow> u32 \<Rightarrow> path_queue \<Rightarrow> path_node list \<Rightarrow> nat \<Rightarrow> bool" where
  "search_ok st b0 b1 q vis n \<longleftrightarrow> pq_inv q \<and> visited_ok st b0 b1 vis n \<and> (\<forall>e\<in>set (pq_elems q). node_ok st vis n e) \<and>
     (n = 0 \<longrightarrow> pq_elems q = [root_node b0, root_node b1]) \<and> roots_ok b1 (pq_elems q) n \<and>
     weight (pq_elems q) \<le> 682 \<and> n + inner_weight (pq_elems q) \<le> 170"

definition found_ok :: "ludo_cp \<Rightarrow> u32 \<Rightarrow> u32 \<Rightarrow> path_node \<times> nat \<times> path_node list \<Rightarrow> bool" where
  "found_ok st b0 b1 r \<longleftrightarrow> (case r of (e, s, vis) \<Rightarrow> \<exists>n. visited_ok st b0 b1 vis n \<and> node_ok st vis n e \<and> (pn_depth e = 1 \<longrightarrow> pn_bucket e = b0 \<or> pn_bucket e = b1) \<and>
     FindFreeSlot (lc_buckets st ! unat (pn_bucket e)) = Some s)"

lemma search_root:
  assumes "search_ok st b0 b1 q vis n" "pq_elems q = e # es" "pn_depth e = 1"
  shows "pn_bucket e = (if n = 0 then b0 else b1)"
proof -
  consider "n = 0" | "n = 1" | "2 \<le> n" by linarith
  then show ?thesis
  proof cases
    case 1
    then show ?thesis using assms(1,2) by (simp add: search_ok_def root_node_def)
  next
    case 2
    then show ?thesis using assms(1,2) by (simp add: search_ok_def roots_ok_def root_node_def)
  next
    case 3
    then show ?thesis using assms by (simp add: search_ok_def roots_ok_def)
  qed
qed

text \<open>A bucket is taken from the queue, found full, and its children are appended.\<close>

lemma search_expand:
  assumes core: "lc_core st (cells (lc_buckets st))" and ok: "search_ok st b0 b1 q vis n" and es: "pq_elems q = e # es"
    and full: "full_bucket st (pn_bucket e)" and d: "pn_depth e < 5" and q1: "pq_inv q1" "pq_elems q1 = es"
  obtains q2 where "rfold (push_child st (lc_buckets st ! unat (pn_bucket e)) e n) [0..<4] q1 = Inr q2" "n < length vis"
    "search_ok st b0 b1 q2 (vis[n := e]) (Suc n)" "weight (pq_elems q2) < weight (pq_elems q)"
proof -
  have nodes: "\<forall>c\<in>set (e # es). node_ok st vis n c" and vis: "visited_ok st b0 b1 vis n" and w: "weight (e # es) \<le> 682" "n + inner_weight (e # es) \<le> 170"
    using ok es by (simp_all add: search_ok_def)
  have e: "unat (pn_bucket e) < length (lc_buckets st)" "1 \<le> pn_depth e" using nodes by (simp_all add: node_ok_def)
  have "length (e # es) \<le> weight (e # es)" using nodes by (intro length_le_weight) (simp add: node_ok_def)
  then have "length (pq_elems q1) + 4 \<le> 1363" using w(1) q1(2) by simp
  then obtain q2 cs where q2: "rfold (push_child st (lc_buckets st ! unat (pn_bucket e)) e n) [0..<4] q1 = Inr q2" "pq_inv q2" "pq_elems q2 = es @ cs"
    "length cs \<le> 4" "\<forall>c\<in>set cs. path_step st e c \<and> pn_parent c = int n \<and> unat (pn_bucket c) < length (lc_buckets st)"
    using push_children_ok [OF core e(1) full q1(1), of 4 n] q1(2) by auto
  have cd: "\<forall>c\<in>set cs. pn_depth c = pn_depth e + 1" using q2(5) by (simp add: path_step_def)
  note wl = weight_level [OF cd q2(4) d]
  have n: "n < kVisitedListSize" using wl(2) w(2) by simp
  have l: "length vis = kVisitedListSize" using vis by (simp add: visited_ok_def)
  have root: "pn_bucket e = (if n = 0 then b0 else b1)" if "pn_depth e = 1" by (rule search_root [OF ok es that])
  have v': "visited_ok st b0 b1 (vis[n := e]) (Suc n)"
    by (rule visited_ok_add [OF vis n _ full root]) (use nodes in simp)
  have "node_ok st (vis[n := e]) (Suc n) c" if "c \<in> set es" for c
    by (rule node_ok_mono [of st vis n c]) (use nodes that in simp_all)
  moreover have "node_ok st (vis[n := e]) (Suc n) c" if "c \<in> set cs" for c
    using q2(5) that cd d e(2) n l by (auto simp: node_ok_def)
  ultimately have nodes': "\<forall>c\<in>set (es @ cs). node_ok st (vis[n := e]) (Suc n) c" by auto
  have c1: "\<forall>c\<in>set cs. pn_depth c \<noteq> 1" using cd e(2) by auto
  have "roots_ok b1 (es @ cs) (Suc n)"
  proof (cases "n = 0")
    case True
    then have "es = [root_node b1]" using ok es by (simp add: search_ok_def)
    then show ?thesis using c1 True by (simp add: roots_ok_def)
  next
    case False
    then have "\<forall>c\<in>set es. pn_depth c \<noteq> 1" using ok es by (cases "n = 1") (auto simp: search_ok_def roots_ok_def)
    then show ?thesis using c1 False by (auto simp: roots_ok_def)
  qed
  then have "search_ok st b0 b1 q2 (vis[n := e]) (Suc n)"
    using q2(2,3) v' nodes' wl w by (simp add: search_ok_def)
  moreover have "weight (pq_elems q2) < weight (pq_elems q)" using wl(1) q2(3) es by simp
  ultimately show thesis using that [OF q2(1)] n l by simp
qed

lemma cuckoo_search_ok:
  assumes core: "lc_core st (cells (lc_buckets st))" and ok: "search_ok st b0 b1 q vis n" "weight (pq_elems q) < fuel"
  shows "\<exists>r. cuckoo_search fuel st q vis n = Inr r \<and> (\<forall>f. r = Some f \<longrightarrow> found_ok st b0 b1 f)"
  using ok
proof (induction fuel arbitrary: q vis n)
  case (Suc fuel)
  have inv: "pq_inv q" using Suc.prems(1) by (simp add: search_ok_def)
  show ?case
  proof (cases "pq_elems q")
    case Nil
    then show ?thesis using ring.empty_iff [OF inv] by simp
  next
    case (Cons e es)
    obtain q1 where q1: "pop_front q = Inr (e, q1)" "pq_inv q1" "pq_elems q1 = es" using ring.pop_ok [OF inv Cons] by blast
    have ne: "\<not> pq_empty q" using ring.empty_iff [OF inv] Cons by simp
    have e: "node_ok st vis n e" "visited_ok st b0 b1 vis n" using Suc.prems(1) Cons by (simp_all add: search_ok_def)
    then have b: "unat (pn_bucket e) < length (lc_buckets st)" by (simp add: node_ok_def)
    show ?thesis
    proof (cases "FindFreeSlot (lc_buckets st ! unat (pn_bucket e))")
      case (Some s)
      then have "cuckoo_search (Suc fuel) st q vis n = Inr (Some (e, s, vis))" using ne q1(1) b by simp
      moreover have "pn_depth e = 1 \<longrightarrow> pn_bucket e = b0 \<or> pn_bucket e = b1" using search_root [OF Suc.prems(1) Cons] by auto
      then have "found_ok st b0 b1 (e, s, vis)" using e Some by (auto simp: found_ok_def)
      ultimately show ?thesis by simp
    next
      case None
      show ?thesis
      proof (cases "pn_depth e < 5")
        case True
        obtain q2 where q2: "rfold (push_child st (lc_buckets st ! unat (pn_bucket e)) e n) [0..<4] q1 = Inr q2" "n < length vis"
          "search_ok st b0 b1 q2 (vis[n := e]) (Suc n)" "weight (pq_elems q2) < weight (pq_elems q)"
          by (rule search_expand [OF core Suc.prems(1) Cons None True q1(2,3)])
        have "cuckoo_search (Suc fuel) st q vis n = cuckoo_search fuel st q2 (vis[n := e]) (Suc n)"
          using ne q1(1) b None True q2(1,2) by (simp add: kMaxBFSPathLen_def)
        then show ?thesis using Suc.IH [OF q2(3)] q2(4) Suc.prems(2) by simp
      next
        case False
        have n: "n \<noteq> 0" "n \<noteq> 1"
          using Suc.prems(1) Cons False by (auto simp: search_ok_def roots_ok_def root_node_def)
        then have "search_ok st b0 b1 q1 vis n" using Suc.prems(1) Cons q1 by (simp add: search_ok_def roots_ok_def)
        moreover have "weight es < fuel"
        proof -
          have "pn_depth e = 5" using e(1) False by (simp add: node_ok_def)
          then show ?thesis using Suc.prems(2) Cons by simp
        qed
        moreover have "cuckoo_search (Suc fuel) st q vis n = cuckoo_search fuel st q1 vis n"
          using ne q1(1) b None False by (simp add: kMaxBFSPathLen_def)
        ultimately show ?thesis using Suc.IH [of q1 vis n] q1(3) by simp
      qed
    qed
  qed
qed simp

lemma find_path_ok:
  assumes "lc_core st (cells (lc_buckets st))"
  shows "\<exists>r. find_path k st = Inr r \<and> (\<forall>f. r = Some f \<longrightarrow> found_ok st (home st k 0) (home st k 1) f)"
proof -
  let ?b0 = "home st k 0" and ?b1 = "home st k 1" and ?vis = "replicate kVisitedListSize (root_node 0)"
  have nq: "pq_inv new_queue" "pq_elems new_queue = []"
    by (simp_all add: new_queue_def pq_reset_def pq_inv_def pq_elems_def pq_count_def)
  obtain q where q: "rfold push_back [root_node ?b0, root_node ?b1] new_queue = Inr q" "pq_inv q" "pq_elems q = [root_node ?b0, root_node ?b1]"
    using ring.push_all_ok [OF nq(1), of "[root_node ?b0, root_node ?b1]"] nq(2) by auto
  have w: "weight (pq_elems q) = 682" "inner_weight (pq_elems q) = 170"
    unfolding q(3) by (simp_all add: root_node_def numeral_eq_Suc)
  have "search_ok st ?b0 ?b1 q ?vis 0"
    using q(2,3) w home_lt [OF assms(1), of k] by (simp add: search_ok_def visited_ok_def node_ok_def roots_ok_def root_node_def)
  moreover have "find_path k st = cuckoo_search kMaxQueueSize st q ?vis 0"
    using q(1) by (auto simp: find_path_def candidates_ok [OF assms(1)] elim!: rbindE)
  ultimately show ?thesis using cuckoo_search_ok [OF assms] w(1) by simp
qed

section \<open>The path that was found\<close>

definition trail_ok :: "ludo_cp \<Rightarrow> u32 \<Rightarrow> u32 \<Rightarrow> path_node list \<Rightarrow> path_node list \<Rightarrow> bool" where
  "trail_ok st b0 b1 vis es \<longleftrightarrow> es \<noteq> [] \<and> length es \<le> 5 \<and>
     (\<forall>i<length es. pn_depth (es ! i) = int (Suc i) \<and> unat (pn_bucket (es ! i)) < length (lc_buckets st)) \<and>
     (\<forall>i. Suc i < length es \<longrightarrow> vget vis (pn_parent (es ! Suc i)) = Inr (es ! i) \<and> path_step st (es ! i) (es ! Suc i) \<and> full_bucket st (pn_bucket (es ! i))) \<and>
     (Suc 0 < length es \<longrightarrow> pn_bucket (es ! 0) = (if pn_parent (es ! Suc 0) = 0 then b0 else b1))"

lemma trail_exists:
  assumes "visited_ok st b0 b1 vis n" "node_ok st vis m e" "m \<le> n"
  shows "\<exists>es. trail_ok st b0 b1 vis es \<and> last es = e \<and> int (length es) = pn_depth e"
  using assms(2,3)
proof (induction "nat (pn_depth e)" arbitrary: e m)
  case 0
  then show ?case by (simp add: node_ok_def)
next
  case (Suc d)
  show ?case
  proof (cases "pn_depth e = 1")
    case True
    then have "trail_ok st b0 b1 vis [e]" using Suc.prems(1) by (simp add: trail_ok_def node_ok_def)
    then show ?thesis using True by (intro exI [of _ "[e]"]) simp
  next
    case False
    define i where "i = nat (pn_parent e)"
    let ?p = "vis ! i"
    have e: "0 \<le> pn_parent e" "pn_parent e = int i" "i < n" "path_step st ?p e" "pn_depth e \<le> 5" "unat (pn_bucket e) < length (lc_buckets st)"
      using Suc.prems False by (auto simp: node_ok_def i_def)
    have v: "node_ok st vis i ?p" "full_bucket st (pn_bucket ?p)" "pn_depth ?p = 1 \<longrightarrow> pn_bucket ?p = (if i = 0 then b0 else b1)" "i < length vis"
      using assms(1) e(3) by (auto simp: visited_ok_def)
    have "d = nat (pn_depth ?p)" using Suc.hyps(2) e(4) by (simp add: path_step_def)
    then obtain es where es: "trail_ok st b0 b1 vis es" "last es = ?p" "int (length es) = pn_depth ?p"
      using Suc.hyps(1) [OF _ v(1)] e(3) by fastforce
    have ne: "es \<noteq> []" using es(1) by (simp add: trail_ok_def)
    have l: "es ! (length es - 1) = ?p" using es(2) ne by (simp add: last_conv_nth)
    have g: "vget vis (pn_parent e) = Inr ?p" using e(1,2) v(4) by (simp add: vget_def)
    have n: "(es @ [e]) ! i = es ! i" if "i < length es" for i using that by (simp add: nth_append)
    have d: "pn_depth e = int (Suc (length es))" using e(4) es(3) by (simp add: path_step_def)
    have "trail_ok st b0 b1 vis (es @ [e])"
      unfolding trail_ok_def
    proof (intro conjI allI impI)
      show "length (es @ [e]) \<le> 5" using d e(5) by simp
    next
      fix j assume "j < length (es @ [e])"
      then consider "j < length es" | "j = length es" by (auto simp: less_Suc_eq)
      then have "pn_depth ((es @ [e]) ! j) = int (Suc j) \<and> unat (pn_bucket ((es @ [e]) ! j)) < length (lc_buckets st)"
      proof cases
        case 1
        then show ?thesis using es(1) by (simp add: trail_ok_def nth_append)
      next
        case 2
        then show ?thesis using d e(6) by simp
      qed
      then show "pn_depth ((es @ [e]) ! j) = int (Suc j)" "unat (pn_bucket ((es @ [e]) ! j)) < length (lc_buckets st)" by simp_all
    next
      fix j assume "Suc j < length (es @ [e])"
      then consider "Suc j < length es" | "Suc j = length es" by (auto simp: less_Suc_eq)
      then have "vget vis (pn_parent ((es @ [e]) ! Suc j)) = Inr ((es @ [e]) ! j) \<and> path_step st ((es @ [e]) ! j) ((es @ [e]) ! Suc j) \<and>
        full_bucket st (pn_bucket ((es @ [e]) ! j))"
      proof cases
        case 1
        then show ?thesis using es(1) by (simp add: trail_ok_def nth_append)
      next
        case 2
        then have "j = length es - 1" "j < length es" by simp_all
        then have "(es @ [e]) ! j = ?p" "(es @ [e]) ! Suc j = e" using l 2 by (simp_all add: nth_append)
        then show ?thesis using g e(4) v(2) by simp
      qed
      then show "vget vis (pn_parent ((es @ [e]) ! Suc j)) = Inr ((es @ [e]) ! j)" "path_step st ((es @ [e]) ! j) ((es @ [e]) ! Suc j)"
        "full_bucket st (pn_bucket ((es @ [e]) ! j))" by simp_all
    next
      show "pn_bucket ((es @ [e]) ! 0) = (if pn_parent ((es @ [e]) ! Suc 0) = 0 then b0 else b1)"
      proof (cases "length es = 1")
        case True
        then have "es ! 0 = ?p" "pn_depth ?p = 1" using l es(3) by simp_all
        then show ?thesis using True v(3) e(2) ne by (simp add: nth_append)
      next
        case False
        then have "Suc 0 < length es" using ne by (cases es) auto
        then show ?thesis using es(1) ne by (simp add: trail_ok_def nth_append)
      qed
    qed simp
    then show ?thesis using d by (intro exI [of _ "es @ [e]"]) simp
  qed
qed

text \<open>The cells of the path: the slot from which the next bucket was reached, and the free slot at the end.\<close>

definition pos :: "path_node list \<Rightarrow> nat \<Rightarrow> nat \<Rightarrow> nat \<times> nat" where
  "pos es f i = (unat (pn_bucket (es ! i)), if Suc i < length es then nat (pn_parent_slot (es ! Suc i)) else f)"

lemma two_homes_other: "two_homes st k b c \<Longrightarrow> two_homes st k b c' \<Longrightarrow> c \<noteq> b \<Longrightarrow> c' \<noteq> b \<Longrightarrow> c = c'"
  by (auto simp: two_homes_def)

lemma path_repeat:
  assumes trail: "trail_ok st b0 b1 vis es" and free: "FindFreeSlot (lc_buckets st ! unat (pn_bucket (last es))) = Some f"
    and ij: "i < j" "j < length es" "pos es f i = pos es f j"
  shows "j = Suc (Suc i)"
proof -
  let ?b = "\<lambda>i. pn_bucket (es ! i)"
  have step: "path_step st (es ! i) (es ! Suc i)" "full_bucket st (?b i)" if "Suc i < length es" for i
    using trail that by (simp_all add: trail_ok_def)
  have last: "?b (length es - 1) = pn_bucket (last es)" using trail by (simp add: trail_ok_def last_conv_nth)
  have bij: "?b i = ?b j" using ij(3) by (simp add: pos_def word_unat_eq_iff)
  have full: "?b m \<noteq> pn_bucket (last es)" if "Suc m < length es" for m using step(2) [OF that] free by auto
  have sj: "Suc j < length es"
  proof (rule ccontr)
    assume "\<not> Suc j < length es"
    then have "j = length es - 1" using ij(2) by simp
    then show False using full [of i] ij bij last by simp
  qed
  have si: "Suc i < length es" using ij sj by simp
  have "two_homes st (ckey (lc_buckets st) (pos es f i)) (?b i) (?b (Suc i))" "?b (Suc i) \<noteq> ?b i"
    using step(1) [OF si] si by (simp_all add: path_step_def pos_def)
  moreover have "two_homes st (ckey (lc_buckets st) (pos es f j)) (?b j) (?b (Suc j))" "?b (Suc j) \<noteq> ?b j"
    using step(1) [OF sj] sj by (simp_all add: path_step_def pos_def)
  ultimately have next_eq: "?b (Suc i) = ?b (Suc j)" using two_homes_other ij(3) bij by metis
  have "Suc (Suc j) < length es"
  proof (rule ccontr)
    assume "\<not> Suc (Suc j) < length es"
    then have "Suc j = length es - 1" using sj by simp
    then have "?b (Suc j) = pn_bucket (last es)" using last by simp
    then show False using full [of "Suc i"] ij(1) sj next_eq by simp
  qed
  moreover have "length es \<le> 5" using trail by (simp add: trail_ok_def)
  moreover have "j \<noteq> Suc i" using bij step(1) [OF si] by (auto simp: path_step_def)
  ultimately show ?thesis using ij(1) by linarith
qed

section \<open>The moves\<close>

lemma two_homes_frame: "lc_frame st st' \<Longrightarrow> two_homes st' = two_homes st"
proof -
  assume "lc_frame st st'"
  then have "home st' = home st" by (intro home_cong) (simp_all add: lc_frame_def)
  then show ?thesis by (simp add: two_homes_def fun_eq_iff)
qed

lemma cuckoo_moves_ok:
  assumes trail: "trail_ok st0 b0 b1 vis es"
    and rep: "\<And>i j. i < j \<Longrightarrow> j < length es \<Longrightarrow> pos es f i = pos es f j \<Longrightarrow> j = Suc (Suc i)"
    and j: "j < length es" "j < fuel"
    and core: "lc_core st (cells (lc_buckets st) - {pos es f j})" "pos es f j \<in> cells (lc_buckets st)"
    and todo: "\<And>i. i < j \<Longrightarrow> pos es f i \<in> cells (lc_buckets st) \<and> two_homes st (ckey (lc_buckets st) (pos es f i)) (pn_bucket (es ! i)) (pn_bucket (es ! Suc i))"
    and tf: "j = 0 \<Longrightarrow> pn_bucket (es ! 0) = (if toFirst then b0 else b1)"
    and run: "cuckoo_moves fuel vis (es ! j) (snd (pos es f j)) toFirst path st = Inr (e1, s1, tf1, path1, st1)"
  shows "e1 = es ! 0 \<and> s1 = snd (pos es f 0) \<and> lc_core st1 (cells (lc_buckets st1) - {pos es f 0}) \<and> cells (lc_buckets st1) = cells (lc_buckets st) \<and>
    citems (lc_buckets st1) (cells (lc_buckets st1) - {pos es f 0}) = citems (lc_buckets st) (cells (lc_buckets st) - {pos es f j}) \<and>
    lc_frame st st1 \<and> pn_bucket (es ! 0) = (if tf1 then b0 else b1) \<and> (path1 = None \<longleftrightarrow> path = None)"
  using j core todo tf run
proof (induction j arbitrary: fuel st toFirst path)
  case 0
  then obtain n where n: "fuel = Suc n" by (cases fuel) auto
  have "pn_depth (es ! 0) = 1" using trail "0.prems"(1) by (simp add: trail_ok_def)
  then show ?case using "0.prems" n by auto
next
  case (Suc j)
  obtain n where n: "fuel = Suc n" using Suc.prems(2) by (cases fuel) auto
  let ?e = "es ! Suc j" and ?p = "es ! j" and ?Bs = "lc_buckets st"
  have d: "pn_depth ?e = int (Suc (Suc j))" "vget vis (pn_parent ?e) = Inr ?p" "path_step st0 ?p ?e"
    using trail Suc.prems(1) by (simp_all add: trail_ok_def)
  have slot: "nat (pn_parent_slot ?e) = snd (pos es f j)" using Suc.prems(1) by (simp add: pos_def)
  obtain g where g: "pos es f (Suc j) = (unat (pn_bucket ?e), g)" by (simp add: pos_def)
  have pj: "pos es f j = (unat (pn_bucket ?p), nat (pn_parent_slot ?e))" using Suc.prems(1) by (simp add: pos_def)
  have ne: "pn_bucket ?p \<noteq> pn_bucket ?e" using d(3) by (auto simp: path_step_def)
  let ?tf = "if pn_depth ?e = 2 then pn_parent ?e = 0 else toFirst"
  obtain path2 st2 where mv: "moveItem (pn_bucket ?p) (nat (pn_parent_slot ?e)) (pn_bucket ?e) g path st = Inr (path2, st2)"
    and rest: "cuckoo_moves n vis ?p (snd (pos es f j)) ?tf path2 st2 = Inr (e1, s1, tf1, path1, st1)"
    using Suc.prems(7) d unfolding n by (auto simp: slot g Let_def elim!: rbindE)
  have src: "pos es f j \<in> cells ?Bs" "two_homes st (ckey ?Bs (pos es f j)) (pn_bucket ?p) (pn_bucket ?e)" using Suc.prems(5) [of j] by simp_all
  note m = moveItem_ok [OF Suc.prems(3) [unfolded g] Suc.prems(4) [unfolded g] src(1) [unfolded pj] ne src(2) [unfolded pj] mv, folded pj g]
  have todo: "pos es f i \<in> cells (lc_buckets st2) \<and> two_homes st2 (ckey (lc_buckets st2) (pos es f i)) (pn_bucket (es ! i)) (pn_bucket (es ! Suc i))" if i: "i < j" for i
  proof (cases "pos es f i = pos es f (Suc j)")
    case True
    then have ij: "Suc j = Suc (Suc i)" using rep [of i "Suc j"] i Suc.prems(1) by simp
    have b: "pn_bucket (es ! i) = pn_bucket ?e" using True by (simp add: pos_def word_unat_eq_iff)
    have "two_homes st (ckey ?Bs (pos es f j)) (pn_bucket (es ! i)) (pn_bucket (es ! Suc i))" using src(2) b ij by (auto simp: two_homes_def)
    then show ?thesis using True m(2,4) Suc.prems(4) two_homes_frame [OF m(5)] by simp
  next
    case False
    then show ?thesis using Suc.prems(5) [of i] i m(2,4) two_homes_frame [OF m(5)] by simp
  qed
  have tf: "pn_bucket (es ! 0) = (if ?tf then b0 else b1)" if "j = 0" using that trail Suc.prems(1) d(1) by (simp add: trail_ok_def)
  have c: "pos es f j \<in> cells (lc_buckets st2)" "j < n" "j < length es" using src(1) m(2) Suc.prems(1,2) n by simp_all
  note ih = Suc.IH [OF c(3,2) m(1) c(1) todo tf rest]
  then show ?case using m(2,3,6) lc_frame_trans [OF m(5)] by metis
qed

section \<open>Inserting along a path\<close>

text \<open>Marking a free slot as taken makes it the hole.\<close>

lemma core_hole:
  assumes core: "lc_core st (cells (lc_buckets st))" and b: "b < length (lc_buckets st)" "f < 4" "\<not> occ (lc_buckets st ! b) f"
    and st': "st' = st\<lparr>lc_buckets := (lc_buckets st)[b := set_occ f (lc_buckets st ! b)]\<rparr>"
  shows "cells (lc_buckets st') = insert (b, f) (cells (lc_buckets st))" "(b, f) \<notin> cells (lc_buckets st)"
    "lc_core st' (cells (lc_buckets st))" "ckey (lc_buckets st') = ckey (lc_buckets st)" "cval (lc_buckets st') = cval (lc_buckets st)"
proof -
  let ?Bs = "lc_buckets st" and ?Bs' = "lc_buckets st'"
  have bs: "?Bs' = ?Bs[b := set_occ f (?Bs ! b)]" by (simp add: st')
  show cs: "cells ?Bs' = insert (b, f) (cells ?Bs)" unfolding bs by (rule cells_add [OF b(1,2)]) (use b(2) in simp)
  show "(b, f) \<notin> cells ?Bs" using b(3) by (simp add: cells_iff)
  show ck: "ckey ?Bs' = ckey ?Bs" unfolding bs by (rule ckey_same) simp
  show "cval ?Bs' = cval ?Bs" unfolding bs by (rule cval_same) simp
  have hm: "home st' = home st" unfolding st' by (intro home_cong) simp_all
  have sd: "b_seed (?Bs' ! c) = b_seed (?Bs ! c)" "length ?Bs' = length ?Bs" for c
    using b(1) by (cases "c = b"; simp add: bs)+
  have "bucket_wf (set_occ f (?Bs ! b))" using lc_coreD(5) [OF core b(1)] by (simp add: bucket_wf_def)
  moreover have "\<forall>C\<in>set ?Bs. bucket_wf C" using core by (simp add: lc_core_def)
  ultimately have wf: "\<forall>C\<in>set ?Bs'. bucket_wf C" unfolding bs by (intro all_update)
  have "cells ?Bs \<subseteq> cells ?Bs'" using cs by blast
  moreover have "lc_locator st' = lc_locator st" by (simp add: st')
  ultimately show "lc_core st' (cells ?Bs)" using core wf unfolding lc_core_def ck hm sd by simp
qed

text \<open>All the moves of a path that was found: the hole is then in one of the two buckets of the new key.\<close>

lemma follow_path:
  assumes core: "lc_core st (cells (lc_buckets st))" and found: "found_ok st b0 b1 (e, f, vis)" and full: "full_bucket st b0" "full_bucket st b1"
    and u: "upd_bucket (pn_bucket e) (set_occ f) st = Inr st1"
    and mv: "cuckoo_moves kMaxBFSPathLen vis e f False path st1 = Inr (e1, s1, tf, path1, st2)"
  shows "(unat (pn_bucket e1), s1) \<in> cells (lc_buckets st2)" "lc_core st2 (cells (lc_buckets st2) - {(unat (pn_bucket e1), s1)})"
    "citems (lc_buckets st2) (cells (lc_buckets st2) - {(unat (pn_bucket e1), s1)}) = lc_items st" "lc_frame st st2"
    "pn_bucket e1 = (if tf then b0 else b1)" "path1 = None \<longleftrightarrow> path = None"
proof -
  let ?Bs = "lc_buckets st"
  obtain n where n: "visited_ok st b0 b1 vis n" "node_ok st vis n e" "FindFreeSlot (?Bs ! unat (pn_bucket e)) = Some f" "pn_depth e \<noteq> 1"
    using found full by (auto simp: found_ok_def)
  obtain es where es: "trail_ok st b0 b1 vis es" "last es = e" "int (length es) = pn_depth e" using trail_exists [OF n(1,2)] by blast
  define j where "j = length es - 1"
  have j: "j < length es" "j < kMaxBFSPathLen" "es ! j = e" "Suc j = length es"
    using es by (auto simp: j_def trail_ok_def last_conv_nth Suc_le_eq kMaxBFSPathLen_def)
  have j0: "j \<noteq> 0" using es(3) n(4) j(4) by auto
  have pj: "pos es f j = (unat (pn_bucket e), f)" using j by (simp add: pos_def)
  have free: "unat (pn_bucket e) < length ?Bs" "f < 4" "\<not> occ (?Bs ! unat (pn_bucket e)) f"
    using n(2) FindFreeSlot_Some [OF n(3)] by (simp_all add: node_ok_def)
  have st1: "st1 = st\<lparr>lc_buckets := ?Bs[unat (pn_bucket e) := set_occ f (?Bs ! unat (pn_bucket e))]\<rparr>"
    using u free(1) by (simp add: upd_bucket_def)
  note hole = core_hole [OF core free st1, folded pj]
  have fr1: "lc_frame st st1" by (simp add: lc_frame_def st1)
  have c1: "cells (lc_buckets st1) - {pos es f j} = cells ?Bs" "pos es f j \<in> cells (lc_buckets st1)" using hole(1,2) by auto
  have core1: "lc_core st1 (cells (lc_buckets st1) - {pos es f j})" using hole(3) c1(1) by simp
  have rep: "m = Suc (Suc i)" if "i < m" "m < length es" "pos es f i = pos es f m" for i m
    by (rule path_repeat [OF es(1) _ that]) (use es(2) n(3) in simp)
  have todo: "pos es f i \<in> cells (lc_buckets st1) \<and> two_homes st1 (ckey (lc_buckets st1) (pos es f i)) (pn_bucket (es ! i)) (pn_bucket (es ! Suc i))" if "i < j" for i
  proof -
    have i: "Suc i < length es" using that j by simp
    have s: "path_step st (es ! i) (es ! Suc i)" "full_bucket st (pn_bucket (es ! i))" "unat (pn_bucket (es ! i)) < length ?Bs"
      using es(1) i by (simp_all add: trail_ok_def)
    have "pos es f i \<in> cells ?Bs" using s i by (auto simp: pos_def cells_iff path_step_def FindFreeSlot_None)
    then show ?thesis using hole(1,4) s(1) i two_homes_frame [OF fr1] by (simp add: path_step_def pos_def)
  qed
  have tf0: "pn_bucket (es ! 0) = (if False then b0 else b1)" if "j = 0" using that j0 by simp
  have mv': "cuckoo_moves kMaxBFSPathLen vis (es ! j) (snd (pos es f j)) False path st1 = Inr (e1, s1, tf, path1, st2)" using mv j(3) pj by simp
  have m0: "e1 = es ! 0 \<and> s1 = snd (pos es f 0) \<and> lc_core st2 (cells (lc_buckets st2) - {pos es f 0}) \<and> cells (lc_buckets st2) = cells (lc_buckets st1) \<and>
    citems (lc_buckets st2) (cells (lc_buckets st2) - {pos es f 0}) = citems (lc_buckets st1) (cells (lc_buckets st1) - {pos es f j}) \<and>
    lc_frame st1 st2 \<and> pn_bucket (es ! 0) = (if tf then b0 else b1) \<and> (path1 = None \<longleftrightarrow> path = None)"
    by (rule cuckoo_moves_ok [OF es(1) rep j(1,2) core1 c1(2) todo tf0 mv'])
  note m = m0 [THEN conjunct1] conjunct1 [OF m0 [THEN conjunct2]]
  have "lc_core st2 (cells (lc_buckets st2) - {pos es f 0})" and cs: "cells (lc_buckets st2) = cells (lc_buckets st1)"
    and it: "citems (lc_buckets st2) (cells (lc_buckets st2) - {pos es f 0}) = citems (lc_buckets st1) (cells (lc_buckets st1) - {pos es f j})"
    and fr2: "lc_frame st1 st2" and tf: "pn_bucket (es ! 0) = (if tf then b0 else b1)" and pn: "path1 = None \<longleftrightarrow> path = None"
    using m0 by blast+
  have s1: "(unat (pn_bucket e1), s1) = pos es f 0" unfolding m(1,2) by (simp add: pos_def)
  have "pos es f 0 \<in> cells (lc_buckets st1)" by (rule todo [THEN conjunct1]) (use j0 in simp)
  then show "(unat (pn_bucket e1), s1) \<in> cells (lc_buckets st2)" unfolding s1 cs .
  show "lc_core st2 (cells (lc_buckets st2) - {(unat (pn_bucket e1), s1)})" unfolding s1 by fact
  show "citems (lc_buckets st2) (cells (lc_buckets st2) - {(unat (pn_bucket e1), s1)}) = lc_items st"
    unfolding s1 it c1(1) by (simp add: citems_def hole(4,5))
  show "lc_frame st st2" by (rule lc_frame_trans [OF fr1 fr2])
  show "pn_bucket e1 = (if tf then b0 else b1)" unfolding m(1) by (rule tf)
  show "path1 = None \<longleftrightarrow> path = None" by (rule pn)
qed

lemma citems_keys: "fst ` citems Bs P = ckey Bs ` P"
  by (simp add: citems_def image_image)

lemma CuckooInsert_ok:
  assumes core: "lc_core st (cells (lc_buckets st))" and full: "full_bucket st (home st k 0)" "full_bucket st (home st k 1)"
    and k: "k \<notin> ckey (lc_buckets st) ` cells (lc_buckets st)" and ins: "CuckooInsert k v False st = Inr (out, st')"
  shows "out = Grow True \<and> st' = st \<or>
    (\<exists>r. out = Returned r \<and> lr_status r = 0 \<and> lc_core st' (cells (lc_buckets st')) \<and> lc_items st' = insert (k, v) (lc_items st) \<and> lc_frame st st')"
proof -
  let ?b0 = "home st k 0" and ?b1 = "home st k 1"
  obtain found where fp: "find_path k st = Inr found" "\<And>f. found = Some f \<Longrightarrow> found_ok st ?b0 ?b1 f"
    using find_path_ok [OF core] by blast
  show ?thesis
  proof (cases found)
    case None
    then show ?thesis using ins fp(1) by (simp add: CuckooInsert_def)
  next
    case (Some r)
    obtain e f vis where r: "r = (e, f, vis)" by (cases r)
    obtain st1 e1 s1 tf path st2 succ path1 where u: "upd_bucket (pn_bucket e) (set_occ f) st = Inr st1"
      and mv: "cuckoo_moves kMaxBFSPathLen vis e f False None st1 = Inr (e1, s1, tf, path, st2)"
      and put: "putItem k v (pn_bucket e1) s1 tf path st2 = Inr (succ, path1, st')"
      and out: "out = Returned \<lparr>lr_status = (if succ then 0 else - 1), lr_path = path_of path1\<rparr>"
      using ins fp(1) Some by (auto simp: CuckooInsert_def r elim!: rbindE)
    note w = follow_path [OF core fp(2) [OF Some, unfolded r] full u mv]
    let ?p = "(unat (pn_bucket e1), s1)"
    have kk: "k \<notin> ckey (lc_buckets st2) ` (cells (lc_buckets st2) - {?p})" using k w(3) unfolding citems_keys [symmetric] by simp
    have hm: "home st2 = home st" using w(4) by (intro home_cong) (simp_all add: lc_frame_def)
    have hk: "home st2 k (if tf then 0 else 1) = pn_bucket e1" using w(5) hm by (simp split: if_splits)
    have cell: "?p \<notin> cells (lc_buckets st2) - {?p}" "unat (pn_bucket e1) < length (lc_buckets st2)" "s1 < 4"
      using w(1) by (simp_all add: cells_iff)
    note pi = putItem_ok [OF w(2) cell kk hk put]
    have succ: succ using pi(3) w(6) by auto
    have ins_p0: "insert ?p (cells (lc_buckets st2) - {?p}) = cells (lc_buckets st2)" "insert ?p (cells (lc_buckets st2)) = cells (lc_buckets st2)"
      using w(1) by auto
    note q = pi(2) [OF succ, unfolded ins_p0 w(3)]
    have "lc_frame st st'" using w(4) pi(1) lc_frame_trans by blast
    then show ?thesis using q out succ by simp
  qed
qed

end
