(* ===== verification/Ludo_Rebuild.thy ===== *)
theory Ludo_Rebuild
  imports Ludo_Path
begin

text \<open>
  One round of \<open>insert\<close>, and \<open>tryBuild\<close>, which clears the locator and the buckets and inserts the items of the old
  buckets one by one. Clearing the locator only resets its number of keys, so the table is outside its invariant until
  the first item is inserted, which makes the locator build itself anew.
\<close>

section \<open>One round of insert\<close>

lemma toMap_add:
  assumes "inj_on (ckey (lc_buckets st)) (cells (lc_buckets st))" "inj_on (ckey (lc_buckets st')) (cells (lc_buckets st'))"
    "lc_items st' = insert (k, v) (lc_items st)" "lc_toMap st k = None"
  shows "lc_toMap st' = (lc_toMap st)(k \<mapsto> v)"
proof
  fix k'
  have "lc_toMap st' k' = Some w \<longleftrightarrow> ((lc_toMap st)(k \<mapsto> v)) k' = Some w" for w
    using toMap_items [OF assms(1), of k' w] toMap_items [OF assms(2), of k' w] assms(3,4) by auto
  then show "lc_toMap st' k' = ((lc_toMap st)(k \<mapsto> v)) k'" by (metis option.exhaust)
qed

lemma in_buckets_two:
  assumes "unat b0 < length Bs" "unat b1 < length Bs"
  shows "in_buckets f [b0, b1] Bs = Inr (case f (Bs ! unat b0) of Some x \<Rightarrow> Some (b0, x) | None \<Rightarrow> map_option (Pair b1) (f (Bs ! unat b1)))"
  using assms by (simp split: option.split)

text \<open>What a successful round of \<open>insert\<close> has done.\<close>

definition inserted :: "u64 \<Rightarrow> u64 \<Rightarrow> ludo_cp \<Rightarrow> ludo_cp \<Rightarrow> bool" where
  "inserted k v st st' \<longleftrightarrow> lc_inv st' \<and> lc_toMap st' = (lc_toMap st)(k \<mapsto> v) \<and>
     lc_frame (st\<lparr>lc_nKeys := lc_nKeys st + (if lc_toMap st k = None then 1 else 0)\<rparr>) st'"

lemma inserted_new:
  assumes "lc_inv st" "lc_toMap st k = None" "lc_core st1 (cells (lc_buckets st1))"
    "lc_items st1 = insert (k, v) (lc_items st)" "lc_frame st st1"
  shows "inserted k v st (st1\<lparr>lc_nKeys := lc_nKeys st1 + 1\<rparr>)"
proof -
  let ?st = "st1\<lparr>lc_nKeys := lc_nKeys st1 + 1\<rparr>"
  have core: "lc_core st (cells (lc_buckets st))" using assms(1) by (simp add: lc_inv_def)
  have "lc_core ?st (cells (lc_buckets st1))" by (rule lc_core_cong [OF assms(3)]) simp_all
  then have core': "lc_core ?st (cells (lc_buckets ?st))" by simp
  have "lc_inv ?st" using assms(1,5) core' by (simp add: lc_inv_def lc_frame_def)
  moreover have "lc_toMap ?st = (lc_toMap st)(k \<mapsto> v)"
    by (rule toMap_add [OF lc_coreD(3) [OF core] lc_coreD(3) [OF core']]) (use assms(2,4) in simp_all)
  ultimately show ?thesis using assms(2,5) by (simp add: inserted_def lc_frame_def)
qed

lemma insert_step_ok:
  assumes inv: "lc_inv st" and ins: "insert_step k v False st = Inr (out, st')"
  shows "(\<exists>c. out = Grow c) \<and> st' = st \<and> lc_toMap st k = None \<or> (\<exists>r. out = Returned r \<and> lr_status r = 0) \<and> inserted k v st st'"
proof (cases "lc_toMap st k")
  case (Some w)
  have core: "lc_core st (cells (lc_buckets st))" using inv by (simp add: lc_inv_def)
  have m: "lc_isMember k st = Inr True" using lc_lookUp_ok(2) [OF core, of k] Some by simp
  have "lc_toMap st k \<noteq> None" using Some by simp
  then obtain r st1 where "lc_changeValue k v st = Inr (r, st1)" "lr_status r = 0" "lc_inv st1" "lc_toMap st1 = (lc_toMap st)(k \<mapsto> v)" "lc_frame st st1"
    by (rule lc_changeValue_ok [OF inv])
  then show ?thesis using ins m Some by (auto simp: insert_step_def inserted_def)
next
  case None
  let ?Bs = "lc_buckets st" and ?b0 = "home st k 0" and ?b1 = "home st k 1"
  have core: "lc_core st (cells ?Bs)" using inv by (simp add: lc_inv_def)
  have a: "k \<notin> ckey ?Bs ` cells ?Bs" using None by (simp add: toMap_none [OF lc_coreD(3) [OF core]])
  have m: "lc_isMember k st = Inr False" using lc_lookUp_ok(2) [OF core, of k] None by simp
  show ?thesis
  proof (cases "lc_nKeys st + 1 > lc_capacity st")
    case True
    then show ?thesis using ins m None by (auto simp: insert_step_def)
  next
    case False
    obtain target where t: "in_buckets FindFreeSlot [?b0, ?b1] ?Bs = Inr target"
      "target = (case FindFreeSlot (?Bs ! unat ?b0) of Some x \<Rightarrow> Some (?b0, x) | None \<Rightarrow> map_option (Pair ?b1) (FindFreeSlot (?Bs ! unat ?b1)))"
      using in_buckets_two [OF home_lt [OF core] home_lt [OF core]] by metis
    show ?thesis
    proof (cases target)
      case N: None
      then have full: "full_bucket st ?b0" "full_bucket st ?b1" using t(2) by (simp_all split: option.splits)
      obtain st1 where c: "CuckooInsert k v False st = Inr (out, st1)"
        "st' = (case out of Returned r \<Rightarrow> if 0 \<le> lr_status r then st1\<lparr>lc_nKeys := lc_nKeys st1 + 1\<rparr> else st1 | Grow _ \<Rightarrow> st1)"
        using ins m False t(1) N by (auto simp: insert_step_def candidates_ok [OF core] elim!: rbindE)
      then show ?thesis using CuckooInsert_ok [OF core full a c(1)] inserted_new [OF inv None] None by auto
    next
      case (Some bs)
      obtain b s where bs: "bs = (b, s)" by (cases bs)
      have f: "FindFreeSlot (?Bs ! unat b) = Some s" "home st k (if b = ?b0 then 0 else 1) = b" "unat b < length ?Bs"
        using t(2) [symmetric] Some bs home_lt [OF core] by (auto split: option.splits)
      have s: "s < 4" "(unat b, s) \<notin> cells ?Bs" using FindFreeSlot_Some [OF f(1)] by (simp_all add: cells_iff)
      obtain succ path st1 where p: "putItem k v b s (b = ?b0) None st = Inr (succ, path, st1)"
        "out = Returned \<lparr>lr_status = (if succ then 0 else - 1), lr_path = path_of path\<rparr>"
        "st' = (if succ then st1\<lparr>lc_nKeys := lc_nKeys st1 + 1\<rparr> else st1)"
        using ins m False t(1) Some bs by (auto simp: insert_step_def candidates_ok [OF core] split: if_splits elim!: rbindE)
      note w = putItem_ok [OF core s(2) f(3) s(1) a f(2) p(1)]
      show ?thesis using w inserted_new [OF inv None, of st1 v] p(2,3) by auto
    qed
  qed
qed

section \<open>The cleared table\<close>

text \<open>The state in which \<open>tryBuild\<close> starts to insert; \<open>l\<close> is the locator that was cleared.\<close>

definition cleared :: "othello_cp \<Rightarrow> ludo_cp \<Rightarrow> bool" where
  "cleared l st \<longleftrightarrow> cp_inv l \<and> lc_locator st = cp_clear l \<and> (\<forall>B\<in>set (lc_buckets st). bucket_wf B \<and> b_occupiedMask B = 0) \<and>
     (\<exists>n<32. length (lc_buckets st) = 2 ^ n) \<and> unat (lc_num_buckets st) = length (lc_buckets st) \<and> lf_ok (lc_load_factor st)"

lemma occ_zero [simp]: "b_occupiedMask B = 0 \<Longrightarrow> \<not> occ B s"
  by (simp add: occ_def)

lemma cleared_cells: "cleared l st \<Longrightarrow> cells (lc_buckets st) = {}"
  by (auto simp: cleared_def cells_def)

lemma cleared_core: "cleared l st \<Longrightarrow> cp_inv l0 \<Longrightarrow> cp_abs l0 = Map.empty \<Longrightarrow> lc_core (st\<lparr>lc_locator := l0\<rparr>) {}"
  by (auto simp: cleared_def lc_core_def)

lemma empty_cp_abs: "cp_abs empty_cp = Map.empty"
  by (simp add: cp_abs_def empty_cp_def)

lemma toMap_cleared: "cleared l st \<Longrightarrow> lc_toMap st = Map.empty"
  using toMap_none [of st] cleared_cells [of l st] by auto

text \<open>With no key to insert, clearing changed nothing in the locator.\<close>

lemma cleared_empty:
  assumes "cleared l st" "cp_abs l = Map.empty"
  shows "lc_inv st"
proof -
  have inv: "cp_inv l" "lc_locator st = cp_clear l" using assms(1) by (simp_all add: cleared_def)
  have "cp_n l = 0"
    using assms(2) cp_invD(5,6) [OF inv(1)] by (auto simp: cp_abs_def)
  then have "cp_clear l = l" by (simp add: cp_clear_def unat_eq_zero)
  then have "st\<lparr>lc_locator := l\<rparr> = st" using inv(2) by simp
  then have "lc_core st {}" using cleared_core [OF assms(1) inv(1) assms(2)] by simp
  then show ?thesis using assms(1) cleared_cells [OF assms(1)] by (simp add: lc_inv_def cleared_def)
qed

lemma first_insert:
  assumes c: "cleared l st" and k: "cp_abs l k \<noteq> None" and ins: "insert_step k v False st = Inr (Returned r, st')"
  shows "lr_status r = 0 \<and> inserted k v st st'"
proof -
  let ?st0 = "st\<lparr>lc_locator := empty_cp\<rparr>" and ?b = "home st k 0"
  have core: "lc_core ?st0 {}" by (rule cleared_core [OF c empty_cp_inv empty_cp_abs])
  have hm: "home ?st0 = home st" by (intro home_cong) simp_all
  have bl: "unat (home st k x) < length (lc_buckets st)" for x using home_lt [OF core, of k x] hm by simp
  have cand: "candidates st k = Inr (?b, home st k 1)" using candidates_ok [OF core, of k] hm by (simp add: candidates_def)
  have free: "FindFreeSlot (lc_buckets st ! unat (home st k x)) = Some 0" "find_key k (lc_buckets st ! unat (home st k x)) = None" for x
    using c bl [of x] by (simp_all add: cleared_def FindFreeSlot_def find_key_None upt_conv_Cons)
  have m: "lc_isMember k st = Inr False" using bl free(2) by (simp add: lc_isMember_def in_candidates_def cand FindInBucket_def)
  obtain succ path st1 where p: "putItem k v ?b 0 True None st = Inr (succ, path, st1)"
    "r = \<lparr>lr_status = (if succ then 0 else - 1), lr_path = path_of path\<rparr>" "st' = (if succ then st1\<lparr>lc_nKeys := lc_nKeys st1 + 1\<rparr> else st1)"
    using ins m bl free(1) by (auto simp: insert_step_def cand split: if_splits elim!: rbindE)
  obtain w where w: "cp_abs l k = Some w" using k by blast
  have l: "cp_inv l" "lc_locator st = cp_clear l" using c by (simp_all add: cleared_def)
  obtain ha hb f where "cp_isMember (cp_clear l) k = Inr False" by (rule cleared_key [OF l(1) w])
  then obtain res rnd l' where reg: "cp_insert k 0 False (lc_rnd st) (cp_clear l) = Inr (res, rnd, l')"
      "registerKey k 0 False st = Inr (res, st\<lparr>lc_rnd := rnd, lc_locator := l'\<rparr>)"
    using p(1) l(2) by (auto simp: putItem_def registerKey_def elim!: rbindE)
  have l': "cp_inv l'" "cp_abs l' = (cp_abs empty_cp)(k \<mapsto> 0)" "0 \<le> or_status res"
    using clear_insert_rebuilds [OF l(1) w reg(1)] by (simp_all add: empty_cp_abs)
  have reg': "registerKey k 0 (None \<noteq> (None :: path_entry list option)) st = Inr (res, st\<lparr>lc_rnd := rnd, lc_locator := l'\<rparr>)" using reg(2) by simp
  have x: "(0 :: u8) = (if True then 0 else 1)" by simp
  note w = putItem_placed [OF core _ bl _ _ refl x reg' l'(3) l'(1,2) p(1)]
  have w: "succ" "lc_frame st st1" "lc_core st1 (cells (lc_buckets st1))" "lc_items st1 = {(k, v)}"
    using w cleared_cells [OF c] by (simp_all add: citems_def)
  have "lc_core st' (cells (lc_buckets st1))" by (rule lc_core_cong [OF w(3)]) (use p(3) w(1) in simp_all)
  then have core': "lc_core st' (cells (lc_buckets st'))" using p(3) w(1) by simp
  have "lc_toMap st' = (lc_toMap st)(k \<mapsto> v)"
    by (rule toMap_add [OF _ lc_coreD(3) [OF core']]) (use p(3) w(1,4) cleared_cells [OF c] toMap_cleared [OF c] in \<open>simp_all add: citems_def\<close>)
  moreover have "lc_inv st'" using core' c p(3) w(1,2) by (simp add: lc_inv_def cleared_def lc_frame_def)
  ultimately show ?thesis using p(2,3) w(1,2) toMap_cleared [OF c] by (simp add: inserted_def lc_frame_def)
qed

section \<open>Rebuilding\<close>

text \<open>While the items of the old buckets are inserted: nothing inserted yet, or the invariant holds.\<close>

definition rebuilding :: "othello_cp \<Rightarrow> (u64 \<rightharpoonup> u64) \<Rightarrow> ludo_cp \<Rightarrow> bool" where
  "rebuilding l m st \<longleftrightarrow> lc_toMap st = m \<and> (if m = Map.empty then cleared l st else lc_inv st)"

lemma rebuilding_step:
  assumes "rebuilding l m st" "cp_abs l k \<noteq> None" "insert_step k v False st = Inr (Returned r, st')"
  shows "lr_status r = 0 \<and> rebuilding l (m(k \<mapsto> v)) st'"
proof (cases "m = Map.empty")
  case True
  then show ?thesis using first_insert [OF _ assms(2,3)] assms(1) by (simp add: rebuilding_def inserted_def)
next
  case False
  then show ?thesis using insert_step_ok [OF _ assms(3)] assms(1) by (auto simp: rebuilding_def inserted_def)
qed

definition bucket_items :: "cp_bucket \<Rightarrow> nat list \<Rightarrow> (u64 \<times> u64) list" where
  "bucket_items B ss = map (\<lambda>s. (b_keys B ! s, b_values B ! s)) ss"

lemma rebuild_slot_Returned:
  assumes "rebuild_slot B s (succ, st) = Inr (succ', st')"
  obtains r where "insert_step (b_keys B ! s) (b_values B ! s) False st = Inr (Returned r, st')" "succ' \<longleftrightarrow> succ \<and> 0 \<le> lr_status r"
  using assms by (auto simp: rebuild_slot_def split: insert_outcome.splits elim!: rbindE)

lemma rebuild_slots:
  assumes "rfold (rebuild_slot B) ss (True, st) = Inr (succ, st')" "rebuilding l m st" "\<forall>e\<in>set (bucket_items B ss). cp_abs l (fst e) \<noteq> None"
  shows "succ \<and> rebuilding l (m ++ map_of (rev (bucket_items B ss))) st'"
  using assms
proof (induction ss arbitrary: m st)
  case (Cons s ss)
  obtain c st1 where c: "rebuild_slot B s (True, st) = Inr (c, st1)" "rfold (rebuild_slot B) ss (c, st1) = Inr (succ, st')"
    using Cons.prems(1) by (auto elim!: rbindE)
  obtain r where "insert_step (b_keys B ! s) (b_values B ! s) False st = Inr (Returned r, st1)" "c \<longleftrightarrow> 0 \<le> lr_status r"
    by (rule rebuild_slot_Returned [OF c(1)]) simp
  note i = this(1) c(2) [unfolded this(2)]
  have "lr_status r = 0 \<and> rebuilding l (m(b_keys B ! s \<mapsto> b_values B ! s)) st1"
    by (rule rebuilding_step [OF Cons.prems(2) _ i(1)]) (use Cons.prems(3) in \<open>simp add: bucket_items_def\<close>)
  moreover have "m ++ map_of (rev (bucket_items B (s # ss))) = m(b_keys B ! s \<mapsto> b_values B ! s) ++ map_of (rev (bucket_items B ss))"
    by (simp add: bucket_items_def map_of_append)
  ultimately show ?case using Cons.IH [of st1 "m(b_keys B ! s \<mapsto> b_values B ! s)"] i(2) Cons.prems(3)
    by (simp add: bucket_items_def del: fun_upd_apply)
qed (simp add: bucket_items_def)

lemma rebuild_from_ok:
  assumes "rebuild_from Bs st = Inr (succ, st')" "rebuilding l m st"
    "\<forall>e\<in>set (concat (map (\<lambda>B. bucket_items B (occ_slots B)) Bs)). cp_abs l (fst e) \<noteq> None"
  shows "succ \<and> rebuilding l (m ++ map_of (rev (concat (map (\<lambda>B. bucket_items B (occ_slots B)) Bs)))) st'"
  using assms
proof (induction Bs arbitrary: m st)
  case (Cons B Bs)
  obtain c st1 where c: "rfold (rebuild_slot B) (occ_slots B) (True, st) = Inr (c, st1)" "(if c then rebuild_from Bs st1 else Inr (False, st1)) = Inr (succ, st')"
    using Cons.prems(1) by (auto elim!: rbindE)
  have s: "c \<and> rebuilding l (m ++ map_of (rev (bucket_items B (occ_slots B)))) st1"
    by (rule rebuild_slots [OF c(1) Cons.prems(2)]) (use Cons.prems(3) in simp)
  then show ?case using Cons.IH [of st1 "m ++ map_of (rev (bucket_items B (occ_slots B)))"] c(2) Cons.prems(3)
    by (simp add: map_of_append)
qed simp

lemma map_of_rev:
  assumes "single_valued (set xs)"
  shows "map_of (rev xs) = map_of xs"
proof
  fix k
  have "map_of (rev xs) k = Some v \<longleftrightarrow> map_of xs k = Some v" for v
    using map_of_single_valued [of xs k v] map_of_single_valued [of "rev xs" k v] assms by simp
  then show "map_of (rev xs) k = map_of xs k" by (metis option.exhaust)
qed

text \<open>
  \<open>tryBuild\<close> never fails: a call of \<open>insert\<close> that returns has inserted. When it returns the table is whole and holds what the old
  buckets hold.
\<close>

lemma lc_tryBuild_ok:
  assumes old: "inj_on (ckey (lc_buckets old)) (cells (lc_buckets old))" "lc_oldBuckets st = lc_buckets old"
    and l: "cp_inv (lc_locator st)" "dom (cp_abs (lc_locator st)) = dom (lc_toMap old)"
    and wf: "\<exists>n<32. length (lc_buckets st) = 2 ^ n" "unat (lc_num_buckets st) = length (lc_buckets st)"
      "\<forall>B\<in>set (lc_buckets st). bucket_wf B" "lf_ok (lc_load_factor st)"
    and tb: "lc_tryBuild st = Inr (succ, st')"
  shows "succ \<and> lc_inv st' \<and> lc_toMap st' = lc_toMap old \<and> lc_integrity st'"
proof -
  let ?st = "st\<lparr>lc_locator := cp_clear (lc_locator st), lc_nKeys := 0, lc_buckets := map (\<lambda>B. B\<lparr>b_occupiedMask := 0\<rparr>) (lc_buckets st)\<rparr>"
  let ?xs = "concat (map (\<lambda>B. bucket_items B (occ_slots B)) (lc_oldBuckets st))"
  obtain st1 where r: "rebuild_from (lc_oldBuckets st) ?st = Inr (succ, st1)" "st' = st1\<lparr>lc_integrity := succ\<rparr>"
    using tb by (auto simp: lc_tryBuild_def elim!: rbindE)
  have m: "lc_toMap old = map_of ?xs" by (simp add: lc_toMap_def bucket_items_def old(2))
  have c: "cleared (lc_locator st) ?st" using l(1) wf by (auto simp: cleared_def bucket_wf_def)
  have k: "\<forall>e\<in>set ?xs. cp_abs (lc_locator st) (fst e) \<noteq> None"
  proof
    fix e assume "e \<in> set ?xs"
    then have "fst e \<in> dom (cp_abs (lc_locator st))" unfolding l(2) m dom_map_of_conv_image_fst by (rule imageI)
    then show "cp_abs (lc_locator st) (fst e) \<noteq> None" by (simp add: domIff)
  qed
  have "rebuilding (lc_locator st) Map.empty ?st" using c toMap_cleared [OF c] by (simp add: rebuilding_def)
  then have s: "succ \<and> rebuilding (lc_locator st) (map_of (rev ?xs)) st1"
    using rebuild_from_ok [OF r(1) _ k, of Map.empty] by simp
  have "single_valued (set ?xs)"
    using citems_iff [OF old(1), folded items_set] by (simp only: old(2) bucket_items_def)
  then have "map_of (rev ?xs) = lc_toMap old" using map_of_rev m by metis
  then have b: "lc_toMap st1 = lc_toMap old" "lc_inv st1"
    using s cleared_empty [of "lc_locator st" st1] l(2) by (auto simp: rebuilding_def split: if_splits)
  have "lc_core st1 (cells (lc_buckets st1))" using b(2) by (simp add: lc_inv_def)
  then have "lc_core st' (cells (lc_buckets st1))" by (rule lc_core_cong) (use r(2) in simp_all)
  then have "lc_inv st'" using b(2) r(2) by (simp add: lc_inv_def)
  then show ?thesis using s b(1) r(2) by (simp add: lc_toMap_def)
qed

end
