(* ===== verification/Ludo_Grow.thy ===== *)
theory Ludo_Grow
  imports Ludo_Rebuild
begin

text \<open>
  Growing the Ludo control plane: the new number of buckets, \<open>powerSize\<close>, which moves items to the new buckets
  without a new hash seed, \<open>resizeCapacity\<close> with its rebuild, and \<open>insert\<close> as a whole.
\<close>

section \<open>The number of buckets\<close>

lemma ludo_capacity_ge:
  assumes "lf_ok lf"
  shows "2 * 2 ^ i \<le> ludo_capacity lf (2 ^ i)" "ludo_capacity lf (2 ^ i) \<le> 4 * 2 ^ i"
proof -
  have lf: "fst lf < 2 ^ 53" "2 ^ snd lf \<le> 2 * fst lf" "fst lf \<le> 2 ^ snd lf" using assms by (simp_all add: lf_ok_def)
  have c: "ludo_capacity lf (2 ^ i) = (4 * 2 ^ i * fst lf) div 2 ^ snd lf" by (simp add: ludo_capacity_def dbl_prod_pow2 [OF lf(1)] mult_ac)
  have "2 * 2 ^ i * 2 ^ snd lf \<le> 4 * 2 ^ i * fst lf" using mult_le_mono2 [OF lf(2), of "2 * 2 ^ i"] by (simp add: mult_ac)
  then show "2 * 2 ^ i \<le> ludo_capacity lf (2 ^ i)" unfolding c by (simp add: less_eq_div_iff_mult_less_eq)
  have "4 * 2 ^ i * fst lf \<le> 4 * 2 ^ i * 2 ^ snd lf" using lf(3) by simp
  then show "ludo_capacity lf (2 ^ i) \<le> 4 * 2 ^ i" unfolding c by (metis div_le_mono nonzero_mult_div_cancel_right power_not_zero zero_neq_numeral)
qed

text \<open>The loop stops, below $2^{32}$ buckets, with a capacity that suffices.\<close>

lemma grow_buckets_ok:
  assumes "lf_ok lf" "target < 2 ^ 32" "i < 32" "32 \<le> i + d" "34 \<le> width"
  shows "\<exists>j. i \<le> j \<and> j < 32 \<and> grow_buckets d width lf (2 ^ i) target = Inr (2 ^ j, ludo_capacity lf (2 ^ j)) \<and> target \<le> ludo_capacity lf (2 ^ j) \<and>
    (j = i \<or> 2 ^ j < target)"
  using assms
proof (induction d arbitrary: i)
  case (Suc d)
  note c = ludo_capacity_ge [OF Suc.prems(1), of i]
  have "(2 :: nat) ^ i \<le> 2 ^ 31" using Suc.prems(3) by (intro power_increasing) simp_all
  then have "ludo_capacity lf (2 ^ i) < 2 ^ 34" using c(2) by (simp add: field_simps)
  also have "(2 :: nat) ^ 34 \<le> 2 ^ width" using Suc.prems(5) by (intro power_increasing) simp_all
  finally have w: "\<not> 2 ^ width \<le> ludo_capacity lf (2 ^ i)" by simp
  show ?case
  proof (cases "target \<le> ludo_capacity lf (2 ^ i)")
    case True
    then show ?thesis using w Suc.prems(3) by (intro exI [of _ i]) (simp add: grow_buckets.simps [of "Suc d"])
  next
    case False
    then have t: "(2 :: nat) ^ Suc i < target" using c(1) by simp
    then have "(2 :: nat) ^ Suc i < 2 ^ 32" using Suc.prems(2) by (rule less_trans)
    then have i: "Suc i < 32" by (simp only: power_strict_increasing_iff)
    have g: "grow_buckets (Suc d) width lf (2 ^ i) target = grow_buckets d width lf (2 ^ Suc i) target"
      using w False by (simp add: grow_buckets.simps [of "Suc d"])
    obtain j where "Suc i \<le> j" "j < 32" "grow_buckets d width lf (2 ^ Suc i) target = Inr (2 ^ j, ludo_capacity lf (2 ^ j))" "target \<le> ludo_capacity lf (2 ^ j)" "j = Suc i \<or> 2 ^ j < target"
      using Suc.IH [OF Suc.prems(1,2) i] Suc.prems(4,5) by auto
    then show ?thesis unfolding g using t by (intro exI [of _ j]) auto
  qed
qed simp

section \<open>Splitting the buckets\<close>

text \<open>The candidate buckets in a larger table are the old ones, taken modulo the old size.\<close>

lemma unat_two_buckets:
  assumes "n < 32"
  shows "unat (fst (two_buckets x (2 ^ n))) = unat x mod 2 ^ n" "unat (snd (two_buckets x (2 ^ n))) = unat (drop_bit 32 x) mod 2 ^ n"
proof -
  have m: "(ucast (2 ^ n - 1 :: u32) :: u64) = mask n"
    using assms by (simp add: word_unat_eq_iff unat_exp_minus_1 mask_eq_exp_minus_1)
  have "unat (ucast (z AND mask n :: u64) :: u32) = unat z mod 2 ^ n" for z :: u64
  proof -
    have "unat (ucast (z AND mask n :: u64) :: u32) = take_bit 32 (take_bit n (unat z))"
      by (simp add: unsigned_ucast_eq flip: take_bit_eq_mask) (simp add: unsigned_take_bit_eq)
    also have "\<dots> = take_bit n (unat z)" using assms by (simp add: take_bit_take_bit min_def)
    finally show ?thesis by (simp add: take_bit_eq_mod)
  qed
  then show "unat (fst (two_buckets x (2 ^ n))) = unat x mod 2 ^ n" "unat (snd (two_buckets x (2 ^ n))) = unat (drop_bit 32 x) mod 2 ^ n"
    by (simp_all add: two_buckets_def m)
qed

lemma home_mod:
  assumes "length (lc_buckets st) = 2 ^ n" "length (lc_buckets st') = 2 ^ n'" "n \<le> n'" "n' < 32" "lc_h st' = lc_h st"
  shows "unat (home st' k x) mod 2 ^ n = unat (home st k x)"
proof -
  have "(2 :: nat) ^ n dvd 2 ^ n'" using assms(3) by (rule le_imp_power_dvd)
  then show ?thesis using assms by (simp add: home_def split_beta unat_two_buckets mod_mod_cancel)
qed

text \<open>
  The state while \<open>powerSize\<close> runs: the old cells in \<open>D\<close> are done. An item is where it belongs, or still in the old cell; a new cell is
  filled from the old cell with the same slot number.
\<close>

definition splitting :: "nat \<Rightarrow> (u64 \<rightharpoonup> u8) \<Rightarrow> (u64 \<times> u64) set \<Rightarrow> (nat \<times> nat) set \<Rightarrow> ludo_cp \<Rightarrow> bool" where
  "splitting n a E D st \<longleftrightarrow>
     (\<forall>B\<in>set (lc_buckets st). bucket_wf B) \<and> inj_on (ckey (lc_buckets st)) (cells (lc_buckets st)) \<and> lc_items st = E \<and>
     (\<forall>p\<in>cells (lc_buckets st). \<exists>x. a (ckey (lc_buckets st) p) = Some x \<and> (x = 0 \<or> x = 1) \<and>
        (if p \<in> D \<or> 2 ^ n \<le> fst p then unat (home st (ckey (lc_buckets st) p) x) else unat (home st (ckey (lc_buckets st) p) x) mod 2 ^ n) = fst p) \<and>
     (\<forall>p\<in>cells (lc_buckets st). 2 ^ n \<le> fst p \<longrightarrow> (fst p mod 2 ^ n, snd p) \<in> D) \<and>
     (\<forall>b<length (lc_buckets st). seeded (lc_buckets st ! b))"

lemma seeded_fewer: "seeded B \<Longrightarrow> b_seed B' = b_seed B \<Longrightarrow> b_keys B' = b_keys B \<Longrightarrow> (\<And>s. occ B' s \<Longrightarrow> occ B s) \<Longrightarrow> seeded B'"
  unfolding seeded_def by (auto intro: inj_on_subset)

lemma lc_core_iff_seeded:
  assumes "P = cells (lc_buckets st)"
  shows "(\<forall>b<length (lc_buckets st). inj_on (\<lambda>s. slot_of (b_seed (lc_buckets st ! b)) (ckey (lc_buckets st) (b, s))) {s. (b, s) \<in> P}) \<longleftrightarrow>
    (\<forall>b<length (lc_buckets st). seeded (lc_buckets st ! b))"
  unfolding assms by (simp add: seeded_def cells_iff ckey_def cong: conj_cong)

lemma splitting_stay:
  assumes "splitting n a E D st" "\<And>x. (i, s) \<in> cells (lc_buckets st) \<Longrightarrow> a (ckey (lc_buckets st) (i, s)) = Some x \<Longrightarrow> unat (home st (ckey (lc_buckets st) (i, s)) x) = i"
  shows "splitting n a E (insert (i, s) D) st"
proof -
  have "\<exists>x. a (ckey (lc_buckets st) p) = Some x \<and> (x = 0 \<or> x = 1) \<and>
    (if p \<in> insert (i, s) D \<or> 2 ^ n \<le> fst p then unat (home st (ckey (lc_buckets st) p) x) else unat (home st (ckey (lc_buckets st) p) x) mod 2 ^ n) = fst p"
    if p: "p \<in> cells (lc_buckets st)" for p
  proof (cases "p = (i, s)")
    case True
    obtain x where "a (ckey (lc_buckets st) p) = Some x" "x = 0 \<or> x = 1" using assms(1) p unfolding splitting_def by blast
    then show ?thesis using assms(2) [of x] p True by simp
  next
    case False
    then show ?thesis using assms(1) p unfolding splitting_def by simp
  qed
  then show ?thesis using assms(1) unfolding splitting_def by blast
qed

text \<open>An item moves from the old cell to the new one.\<close>

lemma splitting_move:
  assumes sp: "splitting n a E D st" and p: "(i, s) \<in> cells (lc_buckets st)" "(i, s) \<notin> D" "i < 2 ^ n"
    and x: "a (ckey (lc_buckets st) (i, s)) = Some x" and b: "unat (home st (ckey (lc_buckets st) (i, s)) x) = b" "b \<noteq> i" "b < length (lc_buckets st)"
    and B: "b_keys B = (b_keys (lc_buckets st ! b))[s := ckey (lc_buckets st) (i, s)]" "b_values B = (b_values (lc_buckets st ! b))[s := cval (lc_buckets st) (i, s)]"
      "\<And>j. j < 4 \<Longrightarrow> occ B j \<longleftrightarrow> occ (lc_buckets st ! b) j \<or> j = s" "seeded B"
    and st': "lc_h st' = lc_h st" "lc_buckets st' = (lc_buckets st)[i := flip_occ s (lc_buckets st ! i), b := B]"
  shows "splitting n a E (insert (i, s) D) st'"
proof -
  let ?Bs = "lc_buckets st" and ?Bs' = "lc_buckets st'" and ?Bs1 = "(lc_buckets st)[i := flip_occ s (lc_buckets st ! i)]" and ?k = "ckey (lc_buckets st) (i, s)"
  have il: "i < length ?Bs" "s < 4" "occ (?Bs ! i) s" using p(1) by (simp_all add: cells_iff)
  have wf: "bucket_wf C" if "C \<in> set ?Bs" for C using sp that unfolding splitting_def by blast
  have inj: "inj_on (ckey ?Bs) (cells ?Bs)" and sd: "seeded (?Bs ! c)" if "c < length ?Bs" for c using sp that unfolding splitting_def by blast+
  have hm: "home st' = home st" using st' by (intro home_cong) simp_all
  have at: "\<exists>y. a (ckey ?Bs q) = Some y \<and> (y = 0 \<or> y = 1) \<and>
      (if q \<in> D \<or> 2 ^ n \<le> fst q then unat (home st (ckey ?Bs q) y) else unat (home st (ckey ?Bs q) y) mod 2 ^ n) = fst q" if "q \<in> cells ?Bs" for q
    using sp that unfolding splitting_def by blast
  have bn: "b mod 2 ^ n = i" "x = 0 \<or> x = 1" "2 ^ n \<le> b"
  proof -
    show m: "b mod 2 ^ n = i" and "x = 0 \<or> x = 1" using at [OF p(1)] p(2,3) x b(1) by auto
    show "2 ^ n \<le> b" using m b(2) by (metis mod_less not_le)
  qed
  have new: "(b, s) \<notin> cells ?Bs" using sp bn p(2) unfolding splitting_def by fastforce
  have c1: "cells ?Bs1 = cells ?Bs - {(i, s)}" unfolding cells_update [OF il(1)] using il by (auto simp: cells_def)
  have n1: "?Bs1 ! b = ?Bs ! b" "b < length ?Bs1" using b by simp_all
  have cs: "cells ?Bs' = insert (b, s) (cells ?Bs - {(i, s)})" unfolding st'(2) c1 [symmetric] by (rule cells_add [OF n1(2) il(2)]) (simp add: B(3) n1(1))
  have wfb: "bucket_wf (?Bs ! b)" using wf b(3) by simp
  have "ckey ?Bs1 = ckey ?Bs" "cval ?Bs1 = cval ?Bs" by (auto intro!: ckey_same cval_same)
  then have ck: "ckey ?Bs' = (ckey ?Bs)((b, s) := ?k)" "cval ?Bs' = (cval ?Bs)((b, s) := cval ?Bs (i, s))"
    unfolding st'(2) using ckey_update [OF n1(2), of s B ?k] cval_update [OF n1(2), of s B "cval ?Bs (i, s)"] n1(1) B(1,2) wfb il(2) by (simp_all add: bucket_wf_def)
  have ne: "q \<noteq> (b, s)" "ckey ?Bs q \<noteq> ?k" if "q \<in> cells ?Bs - {(i, s)}" for q
    using that new inj_onD [OF inj [OF il(1)], of q "(i, s)"] p(1) by auto
  have "\<forall>C\<in>set ?Bs'. bucket_wf C"
  proof -
    have "bucket_wf B" "bucket_wf (flip_occ s (?Bs ! i))" using wfb wf il(1) B(1,2) by (simp_all add: bucket_wf_def)
    then show ?thesis unfolding st'(2) using wf by (intro all_update) auto
  qed
  moreover have "inj_on (ckey ?Bs') (cells ?Bs')"
  proof -
    have q: "inj_on (ckey ?Bs) (cells ?Bs - {(i, s)})" by (rule inj_on_subset [OF inj [OF il(1)]]) blast
    have k: "?k \<notin> ckey ?Bs ` (cells ?Bs - {(i, s)})" by (metis imageE ne(2))
    have "((ckey ?Bs)((b, s) := ?k)) q = ckey ?Bs q" if "q \<in> cells ?Bs - {(i, s)}" for q using ne(1) [OF that] by simp
    then have "((ckey ?Bs)((b, s) := ?k)) ` (cells ?Bs - {(i, s)}) = ckey ?Bs ` (cells ?Bs - {(i, s)})" by (intro image_cong) simp_all
    then show ?thesis unfolding cs ck inj_on_insert using inj_on_fun_updI [OF q k] k by auto
  qed
  moreover have "lc_items st' = E"
  proof -
    have "lc_items st' = insert (?k, cval ?Bs (i, s)) (citems ?Bs (cells ?Bs - {(i, s)}))"
      unfolding cs citems_def ck using ne(1) by auto
    also have "\<dots> = lc_items st" unfolding citems_insert [symmetric] insert_Diff [OF p(1)] ..
    finally show ?thesis using sp by (simp add: splitting_def)
  qed
  moreover have "\<exists>y. a (ckey ?Bs' q) = Some y \<and> (y = 0 \<or> y = 1) \<and>
      (if q \<in> insert (i, s) D \<or> 2 ^ n \<le> fst q then unat (home st' (ckey ?Bs' q) y) else unat (home st' (ckey ?Bs' q) y) mod 2 ^ n) = fst q" if q: "q \<in> cells ?Bs'" for q
  proof (cases "q = (b, s)")
    case True
    then show ?thesis using x b(1) bn by (simp add: ck hm)
  next
    case False
    then have q': "q \<in> cells ?Bs" "q \<in> insert (i, s) D \<longleftrightarrow> q \<in> D" using q cs by auto
    have k: "ckey ?Bs' q = ckey ?Bs q" using False by (simp add: ck)
    show ?thesis using at [OF q'(1)] unfolding q'(2) k hm .
  qed
  moreover have "(fst q mod 2 ^ n, snd q) \<in> insert (i, s) D" if "q \<in> cells ?Bs'" "2 ^ n \<le> fst q" for q
    using sp that bn(1) unfolding cs splitting_def by auto
  moreover have "seeded (?Bs' ! c)" if "c < length ?Bs'" for c
    using that il(1) b B(4) sd [of c] seeded_fewer [OF sd [OF il(1)], of "flip_occ s (?Bs ! i)"] il by (auto simp: st'(2) nth_list_update)
  ultimately show ?thesis unfolding splitting_def by blast
qed

lemma power_item_ok:
  assumes sp: "splitting n (cp_abs (lc_locator st)) E D st" and p: "(i, s) \<notin> D" "i < 2 ^ n" "s < 4"
    and nb: "length (lc_buckets st) = 2 ^ n'" "n' < 32" "n \<le> n'" "lc_num_buckets st = 2 ^ n'" and l: "cp_inv (lc_locator st)"
    and pw: "power_item i s st = Inr st'"
  shows "splitting n (cp_abs (lc_locator st')) E (insert (i, s) D) st'" "lc_frame st st'" "lc_locator st' = lc_locator st"
proof -
  let ?Bs = "lc_buckets st" and ?k = "ckey (lc_buckets st) (i, s)"
  have il: "i < length ?Bs"
  proof -
    have "(2 :: nat) ^ n \<le> 2 ^ n'" using nb(3) by (rule power_increasing) simp
    then show ?thesis using p(2) nb(1) by linarith
  qed
  have "splitting n (cp_abs (lc_locator st')) E (insert (i, s) D) st' \<and> lc_frame st st' \<and> lc_locator st' = lc_locator st"
  proof (cases "occ (?Bs ! i) s")
    case False
    then have "st' = st" using pw il by (simp add: power_item_def)
    then show ?thesis using splitting_stay [OF sp, of i s] False by (simp add: cells_iff)
  next
    case True
    then have c: "(i, s) \<in> cells ?Bs" using il p(3) by (simp add: cells_iff)
    obtain x where x: "cp_abs (lc_locator st) ?k = Some x" "x = 0 \<or> x = 1" using sp c unfolding splitting_def by blast
    have m: "fast_map_to_buckets (fast_hasher64 (lc_h st) ?k) (lc_num_buckets st) = Inr (home st ?k 0, home st ?k 1)"
      by (simp add: nb(1,4) fast_map_to_buckets_pow2 home_def split_beta)
    have lk: "cp_lookUp (lc_locator st) ?k = Inr x" using cp_lookUp_abs [OF l x(1)] x(2) by (auto simp: take_bit_eq_mod)
    have ag: "aget [home st ?k 0, home st ?k 1] (unat x) = Inr (home st ?k x)" using x(2) by (auto simp: aget_def)
    have hl: "unat (home st ?k x) < length ?Bs"
      using two_buckets_lt [of "2 ^ n'" n' "fast_hasher64 (lc_h st) ?k"] nb(2) by (simp add: home_def split_beta nb(1) unat_exp)
    show ?thesis
    proof (cases "unat (home st ?k x) = i")
      case True
      then have "st' = st" using pw il \<open>occ (?Bs ! i) s\<close> m lk ag by (simp add: power_item_def Let_def ckey_def)
      then show ?thesis using splitting_stay [OF sp, of i s] True x(1) by auto
    next
      case False
      let ?b = "home st ?k x" and ?v = "cval ?Bs (i, s)"
      let ?st2 = "st\<lparr>lc_buckets := ?Bs[i := flip_occ s (?Bs ! i), unat ?b := put_slot s ?k ?v (set_occ s (?Bs ! unat ?b))]\<rparr>"
      have i32: "unat (of_nat i :: u32) = i"
      proof -
        have "(2 :: nat) ^ n' < 2 ^ 32" using nb(2) by (intro power_strict_increasing) simp_all
        then show ?thesis using il nb(1) by (simp add: unat_of_nat take_bit_eq_mod)
      qed
      have u1: "upd_bucket (of_nat i) (flip_occ s) st = Inr (st\<lparr>lc_buckets := ?Bs[i := flip_occ s (?Bs ! i)]\<rparr>)" using il i32 by (simp add: upd_bucket_def)
      have u2: "upd_bucket ?b (\<lambda>D. put_slot s ?k ?v (set_occ s D)) (st\<lparr>lc_buckets := ?Bs[i := flip_occ s (?Bs ! i)]\<rparr>) = Inr ?st2"
        using hl False by (simp add: upd_bucket_def)
      obtain seed ts where us: "lc_updateSeed ?b False (- 1) ?st2 = Inr (seed, ts, st')"
        using pw il \<open>occ (?Bs ! i) s\<close> m lk ag u1 u2 False by (auto simp: power_item_def Let_def ckey_def cval_def elim!: rbindE)
      obtain B where B: "B = (lc_buckets ?st2 ! unat ?b)\<lparr>b_seed := seed\<rparr>" "seeded B" "st' = ?st2\<lparr>lc_buckets := (lc_buckets ?st2)[unat ?b := B]\<rparr>"
        by (rule lc_updateSeed_ok [OF us]) blast
      have B': "B = (put_slot s ?k ?v (set_occ s (?Bs ! unat ?b)))\<lparr>b_seed := seed\<rparr>" using B(1) hl by simp
      have st': "lc_h st' = lc_h st" "lc_buckets st' = ?Bs[i := flip_occ s (?Bs ! i), unat ?b := B]" using B(3) by simp_all
      have f: "b_keys B = (b_keys (?Bs ! unat ?b))[s := ?k]" "b_values B = (b_values (?Bs ! unat ?b))[s := ?v]"
        "\<And>j. j < 4 \<Longrightarrow> occ B j \<longleftrightarrow> occ (?Bs ! unat ?b) j \<or> j = s"
        using p(3) by (simp_all add: B')
      have "splitting n (cp_abs (lc_locator st)) E (insert (i, s) D) st'"
        by (rule splitting_move [OF sp c p(1,2) x(1) refl False hl f B(2) st'])
      then show ?thesis using B(3) by (simp add: lc_frame_def)
    qed
  qed
  then show "splitting n (cp_abs (lc_locator st')) E (insert (i, s) D) st'" "lc_frame st st'" "lc_locator st' = lc_locator st" by blast+
qed

section \<open>powerSize\<close>

lemma nth_vresize_bucket: "length Bs \<le> N \<Longrightarrow> b < N \<Longrightarrow> vresize N no_bucket Bs ! b = (if b < length Bs then Bs ! b else no_bucket)"
  by (simp add: vresize_def nth_append)

lemma set_vresize: "set (vresize N d xs) \<subseteq> insert d (set xs)"
  by (auto simp: vresize_def dest: in_set_takeD)

lemma no_bucket_wf [simp]: "bucket_wf no_bucket" "\<not> occ no_bucket s" "seeded no_bucket"
  by (simp_all add: bucket_wf_def no_bucket_def seeded_def)

lemma cells_vresize:
  assumes "length Bs \<le> N"
  shows "cells (vresize N no_bucket Bs) = cells Bs" "p \<in> cells Bs \<Longrightarrow> ckey (vresize N no_bucket Bs) p = ckey Bs p"
    "p \<in> cells Bs \<Longrightarrow> cval (vresize N no_bucket Bs) p = cval Bs p"
  using assms by (auto simp: cells_def ckey_def cval_def nth_vresize_bucket split: if_splits)

lemma splitting_start:
  assumes core: "lc_core st (cells (lc_buckets st))" and n: "length (lc_buckets st) = 2 ^ n" "n \<le> n'" "n' < 32"
    and st1: "lc_h st1 = lc_h st" "lc_buckets st1 = vresize (2 ^ n') no_bucket (lc_buckets st)" "cp_abs (lc_locator st1) = cp_abs (lc_locator st)"
  shows "splitting n (cp_abs (lc_locator st1)) (lc_items st) {} st1"
proof -
  let ?Bs = "lc_buckets st" and ?Bs1 = "lc_buckets st1"
  have N: "length ?Bs \<le> 2 ^ n'" using n by (simp add: power_increasing)
  note c = cells_vresize [OF N, folded st1(2)]
  have len: "length ?Bs1 = 2 ^ n'" by (simp add: st1(2))
  note D = lc_coreD [OF core]
  have "\<forall>B\<in>set ?Bs1. bucket_wf B" using core set_vresize [of "2 ^ n'" no_bucket ?Bs] unfolding st1(2) lc_core_def by auto
  moreover have "inj_on (ckey ?Bs1) (cells ?Bs1)" using D(3) c by (simp add: inj_on_def)
  moreover have "lc_items st1 = lc_items st" using c by (auto simp: citems_def image_iff)
  moreover have "\<exists>x. cp_abs (lc_locator st1) (ckey ?Bs1 p) = Some x \<and> (x = 0 \<or> x = 1) \<and>
        (if p \<in> {} \<or> 2 ^ n \<le> fst p then unat (home st1 (ckey ?Bs1 p) x) else unat (home st1 (ckey ?Bs1 p) x) mod 2 ^ n) = fst p" if "p \<in> cells ?Bs1" for p
  proof -
    have p: "p \<in> cells ?Bs" using that c(1) by simp
    then have "\<not> 2 ^ n \<le> fst p" using n(1) by (auto simp: cells_def)
    moreover obtain x where "cp_abs (lc_locator st) (ckey ?Bs p) = Some x" "x = 0 \<or> x = 1" "unat (home st (ckey ?Bs p) x) = fst p"
      by (rule lc_core_home [OF core p])
    ultimately show ?thesis using home_mod [OF n(1) len n(2,3) st1(1)] p by (simp add: c(2) st1(3))
  qed
  moreover have "\<forall>p\<in>cells ?Bs1. 2 ^ n \<le> fst p \<longrightarrow> (fst p mod 2 ^ n, snd p) \<in> {}" using n(1) unfolding c(1) by (auto simp: cells_def)
  moreover have "seeded (?Bs1 ! b)" if "b < length ?Bs1" for b
    using that nth_vresize_bucket [OF N, of b] lc_core_iff_seeded [OF refl, of st] D(6) by (auto simp: st1(2))
  ultimately show ?thesis unfolding splitting_def by blast
qed

lemma splitting_done:
  assumes sp: "splitting n (cp_abs (lc_locator st)) E ({..<2 ^ n} \<times> {..<4}) st" and l: "cp_inv (lc_locator st)" "dom (cp_abs (lc_locator st)) = fst ` E"
    and n: "length (lc_buckets st) = 2 ^ n'" "n' < 32"
  shows "lc_core st (cells (lc_buckets st))" "lc_items st = E"
proof -
  let ?Bs = "lc_buckets st"
  show e: "lc_items st = E" using sp by (simp add: splitting_def)
  have "p \<in> {..<2 ^ n} \<times> {..<4} \<or> 2 ^ n \<le> fst p" if "p \<in> cells ?Bs" for p using that by (cases p) (auto simp: cells_def)
  then have "\<forall>p\<in>cells ?Bs. \<exists>x. cp_abs (lc_locator st) (ckey ?Bs p) = Some x \<and> (x = 0 \<or> x = 1) \<and> unat (home st (ckey ?Bs p) x) = fst p"
    using sp unfolding splitting_def by (metis (no_types, lifting))
  moreover have "dom (cp_abs (lc_locator st)) = ckey ?Bs ` cells ?Bs" unfolding l(2) e [symmetric] by (auto simp: citems_def image_image)
  ultimately show "lc_core st (cells ?Bs)"
    using sp l(1) n lc_core_iff_seeded [OF refl, of st] unfolding lc_core_def splitting_def by auto
qed

lemma powerSize_ok:
  assumes core: "lc_core st (cells (lc_buckets st))" and n: "length (lc_buckets st) = 2 ^ n" "n \<le> n'" "n' < 32"
    and nb: "lc_num_buckets st = 2 ^ n'" "unat (lc_num_buckets st div factor) = 2 ^ n" and pw: "powerSize factor st = Inr st'"
  shows "lc_core st' (cells (lc_buckets st')) \<and> lc_items st' = lc_items st \<and> length (lc_buckets st') = 2 ^ n' \<and>
    lc_frame (st\<lparr>lc_buckets := lc_buckets st'\<rparr>) st'"
proof -
  have unb: "unat (lc_num_buckets st) = 2 ^ n'" using n(3) nb(1) by (simp add: unat_exp)
  obtain rnd l where l: "cp_resizeCapacity (lc_capacity st) False False (lc_rnd st) (lc_locator st) = Inr (rnd, l)"
    using pw by (auto simp: powerSize_def split: if_splits elim!: rbindE)
  let ?st1 = "st\<lparr>lc_buckets := vresize (2 ^ n') no_bucket (lc_buckets st), lc_rnd := rnd, lc_locator := l\<rparr>"
  have f: "rfold (\<lambda>i. rfold (power_item i) [0..<4]) [0..<2 ^ n] ?st1 = Inr st'"
    using pw l unb nb(2) by (simp add: powerSize_def split: if_splits)
  have la: "cp_inv l" "cp_abs l = cp_abs (lc_locator st)" using cp_resizeCapacity_keeps [OF l lc_coreD(1) [OF core]] by simp_all
  define Q where "Q D s \<longleftrightarrow> splitting n (cp_abs l) (lc_items st) D s \<and> lc_frame ?st1 s \<and> lc_locator s = l" for D s
  have start: "Q {} ?st1" using splitting_start [OF core n, of ?st1] la by (simp add: Q_def)
  have step: "Q (insert (i, s) D) t" if "Q D u" "(i, s) \<notin> D" "i < 2 ^ n" "s < 4" "power_item i s u = Inr t" for i s D t u
  proof -
    have u: "lc_frame ?st1 u" "lc_locator u = l" "splitting n (cp_abs (lc_locator u)) (lc_items st) D u" using that(1) by (simp_all add: Q_def)
    have b: "length (lc_buckets u) = 2 ^ n'" "lc_num_buckets u = 2 ^ n'" using u(1) nb(1) by (simp_all add: lc_frame_def)
    have "cp_inv (lc_locator u)" using u(2) la(1) by simp
    from power_item_ok [OF u(3) that(2-4) b(1) n(3,2) b(2) this that(5)]
    show ?thesis using u(1,2) lc_frame_trans by (auto simp: Q_def)
  qed
  have "Q ({..<2 ^ n} \<times> {..<4}) st'"
  proof (rule rfold_upt_inv [OF f, where P = "\<lambda>i. Q ({..<i} \<times> {..<4})"])
    fix i u t assume i: "i < 2 ^ n" "Q ({..<i} \<times> {..<4}) u" "rfold (power_item i) [0..<4] u = Inr t"
    have "Q ({..<i} \<times> {..<4} \<union> {i} \<times> {..<4}) t"
    proof (rule rfold_upt_inv [OF i(3), where P = "\<lambda>s. Q ({..<i} \<times> {..<4} \<union> {i} \<times> {..<s})"])
      fix s u t assume s: "s < 4" "Q ({..<i} \<times> {..<4} \<union> {i} \<times> {..<s}) u" "power_item i s u = Inr t"
      have "insert (i, s) ({..<i} \<times> {..<4} \<union> {i} \<times> {..<s}) = {..<i} \<times> {..<4} \<union> {i} \<times> {..<Suc s}" by auto
      then show "Q ({..<i} \<times> {..<4} \<union> {i} \<times> {..<Suc s}) t" using step [OF s(2) _ i(1) s(1,3)] by simp
    qed (use i(2) in simp)
    moreover have "{..<i} \<times> {..<4} \<union> {i} \<times> {..<4 :: nat} = {..<Suc i} \<times> {..<4}" by auto
    ultimately show "Q ({..<Suc i} \<times> {..<4}) t" by simp
  qed (use start in simp)
  then have q: "splitting n (cp_abs (lc_locator st')) (lc_items st) ({..<2 ^ n} \<times> {..<4}) st'" "lc_frame ?st1 st'" "lc_locator st' = l" by (simp_all add: Q_def)
  have "dom (cp_abs (lc_locator st')) = fst ` lc_items st" unfolding q(3) la(2) lc_coreD(4) [OF core] by (auto simp: citems_def image_image)
  moreover have "length (lc_buckets st') = 2 ^ n'" using q(2) by (simp add: lc_frame_def)
  ultimately show ?thesis using splitting_done [OF q(1)] q(2,3) la(1) n(3) by (simp add: lc_frame_def)
qed

section \<open>resizeCapacity and build\<close>

lemma toMap_same_items:
  assumes "inj_on (ckey (lc_buckets st)) (cells (lc_buckets st))" "inj_on (ckey (lc_buckets st')) (cells (lc_buckets st'))" "lc_items st' = lc_items st"
  shows "lc_toMap st' = lc_toMap st"
proof
  fix k
  have "lc_toMap st' k = Some w \<longleftrightarrow> lc_toMap st k = Some w" for w
    using toMap_items [OF assms(1), of k w] toMap_items [OF assms(2), of k w] assms(3) by simp
  then show "lc_toMap st' k = lc_toMap st k" by (metis option.exhaust)
qed

text \<open>What \<open>build\<close> relies on: the old buckets hold the items of \<open>old\<close>, the locator has their keys.\<close>

definition rebuildable :: "ludo_cp \<Rightarrow> ludo_cp \<Rightarrow> bool" where
  "rebuildable old st \<longleftrightarrow> inj_on (ckey (lc_buckets old)) (cells (lc_buckets old)) \<and> lc_oldBuckets st = lc_buckets old \<and>
     cp_inv (lc_locator st) \<and> dom (cp_abs (lc_locator st)) = dom (lc_toMap old) \<and> (\<exists>n<32. length (lc_buckets st) = 2 ^ n) \<and>
     unat (lc_num_buckets st) = length (lc_buckets st) \<and> (\<forall>B\<in>set (lc_buckets st). bucket_wf B) \<and> lf_ok (lc_load_factor st)"

lemma toMap_dom:
  assumes "lc_core st (cells (lc_buckets st))"
  shows "dom (lc_toMap st) = dom (cp_abs (lc_locator st))"
proof (rule set_eqI)
  fix k
  show "k \<in> dom (lc_toMap st) \<longleftrightarrow> k \<in> dom (cp_abs (lc_locator st))"
    unfolding lc_coreD(4) [OF assms] using toMap_none [OF lc_coreD(3) [OF assms], of k] by auto
qed

lemma lc_build_ok:
  assumes "rebuildable old st" "lc_build fuel st = Inr st'"
  shows "lc_inv st' \<and> lc_toMap st' = lc_toMap old"
proof -
  obtain f where f: "fuel = Suc f" using assms(2) by (cases fuel) auto
  obtain s rnd b st1 where t: "lc_rnd st = s # rnd" "lc_tryBuild (st\<lparr>lc_h := s, lc_rnd := rnd\<rparr>) = Inr (b, st1)"
    using assms(2) by (auto simp: f numeral_2_eq_2 split: list.splits elim!: rbindE)
  have o: "b \<and> lc_inv st1 \<and> lc_toMap st1 = lc_toMap old \<and> lc_integrity st1"
    by (rule lc_tryBuild_ok [OF _ _ _ _ _ _ _ _ t(2)]) (use assms(1) in \<open>auto simp: rebuildable_def\<close>)
  then have "st' = st1" using assms(2) t by (simp add: f numeral_2_eq_2)
  then show ?thesis using o by simp
qed

lemma lc_resize_ok:
  assumes inv: "lc_inv st" and rs: "lc_resize target fb st = Inr (go, st1)"
  shows "if go then rebuildable st st1 else lc_inv st1 \<and> lc_toMap st1 = lc_toMap st"
proof -
  let ?Bs = "lc_buckets st"
  have core: "lc_core st (cells ?Bs)" and lf: "lf_ok (lc_load_factor st)" and num: "unat (lc_num_buckets st) = length ?Bs"
    using inv by (simp_all add: lc_inv_def)
  obtain n where n: "n < 32" "length ?Bs = 2 ^ n" by (rule lc_core_pow2 [OF core])
  have "unat (max (lc_nKeys st) (max target 256)) < 2 ^ 32" using unsigned_less [of "max (lc_nKeys st) (max target 256)", where 'a = nat] by simp
  then obtain j where j: "j < 32" "grow_buckets 57 64 (lc_load_factor st) (2 ^ 6) (unat (max (lc_nKeys st) (max target 256))) = Inr (2 ^ j, ludo_capacity (lc_load_factor st) (2 ^ j))"
    using grow_buckets_ok [OF lf, of _ 6 57 64] by fastforce
  define st2 where "st2 = st\<lparr>lc_num_buckets := 2 ^ j, lc_capacity := of_nat (ludo_capacity (lc_load_factor st) (2 ^ j))\<rparr>"
  have s2: "lc_buckets st2 = ?Bs" "lc_num_buckets st2 = 2 ^ j" "lc_load_factor st2 = lc_load_factor st" "lc_locator st2 = lc_locator st" by (simp_all add: st2_def)
  have core2: "lc_core st2 (cells ?Bs)" by (rule lc_core_cong [OF core]) (simp_all add: st2_def)
  have uj: "unat (2 ^ j :: u32) = 2 ^ j" using j(1) by (simp add: unat_exp)
  show ?thesis
  proof (cases "length ?Bs < 2 ^ j \<and> lc_integrity st")
    case True
    then have nj: "n \<le> j" using n(2) by (simp add: power_strict_increasing_iff)
    have p: "powerSize (of_nat (2 ^ j div 2 ^ n)) st2 = Inr st1" "\<not> go"
      using rs j(2) True num n(2) by (auto simp: lc_resize_def st2_def Let_def elim!: rbindE)
    have q: "(2 :: nat) ^ j div 2 ^ n = 2 ^ (j - n)" using nj by (simp add: power_diff)
    have "unat (2 ^ j div 2 ^ (j - n) :: u32) = 2 ^ n" 
    proof -
      have "unat (2 ^ (j - n) :: u32) = 2 ^ (j - n)" using j(1) by (simp add: unat_exp)
      then show ?thesis using uj nj by (simp add: unat_div flip: power_diff)
    qed
    then have "lc_core st1 (cells (lc_buckets st1)) \<and> lc_items st1 = lc_items st2 \<and> length (lc_buckets st1) = 2 ^ j \<and> lc_frame (st2\<lparr>lc_buckets := lc_buckets st1\<rparr>) st1"
      using powerSize_ok [of st2 n j, OF _ _ nj j(1) s2(2) _ p(1)] core2 n(2) unfolding s2 q by simp
    then have c1: "lc_core st1 (cells (lc_buckets st1))" "lc_items st1 = lc_items st" "lc_inv st1"
      using lf uj by (auto simp: s2 lc_inv_def lc_frame_def)
    have "lc_toMap st1 = lc_toMap st" by (rule toMap_same_items [OF lc_coreD(3) [OF core] lc_coreD(3) [OF c1(1)] c1(2)])
    then show ?thesis using c1(3) p(2) by simp
  next
    case False
    obtain rnd l where l: "cp_resizeCapacity (lc_capacity st2) False False (lc_rnd st2) (lc_locator st2) = Inr (rnd, l)"
      "go = (fb \<or> length ?Bs < 2 ^ j \<or> 2 ^ j < length ?Bs)"
      "st1 = st2\<lparr>lc_integrity := False, lc_oldBuckets := ?Bs, lc_rnd := rnd, lc_locator := l, lc_buckets := vresize (2 ^ j) no_bucket ?Bs\<rparr>"
      using rs j(2) False num uj by (auto simp: lc_resize_def st2_def Let_def split: if_splits elim!: rbindE)
    have la: "cp_inv l" "cp_abs l = cp_abs (lc_locator st)" using cp_resizeCapacity_keeps [OF l(1)] lc_coreD(1) [OF core] s2(4) by simp_all
    show ?thesis
    proof (cases go)
      case True
      have "\<forall>B\<in>set (vresize (2 ^ j) no_bucket ?Bs). bucket_wf B" using core set_vresize [of "2 ^ j" no_bucket ?Bs] unfolding lc_core_def by auto
      moreover have "\<exists>i<32. (2 :: nat) ^ j = 2 ^ i" using j(1) by blast
      ultimately have "rebuildable st st1"
        using la lc_coreD(3) [OF core] toMap_dom [OF core] lf uj unfolding rebuildable_def l(3) by (simp add: s2)
      then show ?thesis using True by simp
    next
      case f: False
      then have e: "vresize (2 ^ j) no_bucket ?Bs = ?Bs" using l(2) by (simp add: vresize_def)
      have hm: "home st1 = home st" by (rule home_cong) (simp_all add: l(3) e st2_def)
      have "lc_core st1 (cells ?Bs)" using core la unfolding lc_core_def hm by (simp add: l(3) e)
      then have "lc_inv st1" using lf uj f l(2) by (simp add: lc_inv_def l(3) e s2)
      then show ?thesis using f by (simp add: lc_toMap_def l(3) e)
    qed
  qed
qed

lemma lc_resizeCapacity_ok:
  assumes "lc_inv st" "lc_resizeCapacity target fb st = Inr st'"
  shows "lc_inv st' \<and> lc_toMap st' = lc_toMap st"
proof -
  obtain go st1 where r: "lc_resize target fb st = Inr (go, st1)" "(if go then lc_build (Suc (length (lc_rnd st1))) st1 else Inr st1) = Inr st'"
    using assms(2) unfolding lc_resizeCapacity_def by (elim rbindE) (simp split: prod.splits)
  show ?thesis using lc_resize_ok [OF assms(1) r(1)] r(2) lc_build_ok [of st st1] by (cases go) (simp_all del: lc_build.simps)
qed

end
