(* ===== verification/Ludo_Control.thy ===== *)
theory Ludo_Control
  imports Ludo_Grow
begin

text \<open>
  The Ludo control plane seen from outside: \<open>insert\<close> and the constructor refine the update of a map, and a data plane
  made from a control plane sends every stored key to the slot that holds its value.
\<close>

section \<open>insert\<close>

lemma lc_insert_rec_ok:
  assumes "lc_inv st" "lc_insert_rec fuel k v False st = Inr (r, st')"
  shows "lc_inv st' \<and> lc_toMap st' = (lc_toMap st)(k \<mapsto> v) \<and> lr_status r \<in> {0, 2}"
  using assms
proof (induction fuel arbitrary: st r st')
  case (Suc fuel)
  obtain out st1 where s: "insert_step k v False st = Inr (out, st1)"
    using Suc.prems(2) by (auto elim!: rbindE)
  show ?case
  proof (cases out)
    case (Returned r')
    then show ?thesis using insert_step_ok [OF Suc.prems(1) s] Suc.prems(2) s by (auto simp: inserted_def)
  next
    case (Grow c)
    obtain st2 r3 st3 where g: "lc_resizeCapacity (lc_nKeys st1 + 1) True st1 = Inr st2" "lc_insert_rec fuel k v False st2 = Inr (r3, st3)"
      "lc_buckets st' = lc_buckets st3" "st' = st3 \<or> st' = st3\<lparr>lc_nKeys := lc_nKeys st3 + 1\<rparr>" "lr_status r = 2"
      using Suc.prems(2) s Grow by (auto split: if_splits elim!: rbindE)
    have "st1 = st" using insert_step_ok [OF Suc.prems(1) s] Grow by auto
    then have r: "lc_inv st2" "lc_toMap st2 = lc_toMap st" using lc_resizeCapacity_ok [OF Suc.prems(1)] g(1) by simp_all
    have i: "lc_inv st3" "lc_toMap st3 = (lc_toMap st)(k \<mapsto> v)" using Suc.IH [OF r(1) g(2)] r(2) by auto
    have "lc_core st' (cells (lc_buckets st3))" by (rule lc_core_cong [of st3]) (use i(1) g(4) in \<open>auto simp: lc_inv_def\<close>)
    then have "lc_inv st'" using i(1) g(3,4) by (auto simp: lc_inv_def)
    moreover have "lc_toMap st' = lc_toMap st3" using g(3) by (simp add: lc_toMap_def)
    ultimately show ?thesis using i(2) g(5) by simp
  qed
qed simp

text \<open>
  The round that needs no growing: a candidate bucket has a free slot and a seed for its keys and the new one, and the locator
  takes the key without a rebuild.
\<close>

definition has_room :: "u64 \<Rightarrow> ludo_cp \<Rightarrow> bool" where
  "has_room k st \<longleftrightarrow> lc_nKeys st + 1 \<le> lc_capacity st \<and> \<not> cp_full (lc_locator st) \<and> \<not> cp_cyclic (lc_locator st) k \<and>
     (\<exists>b s. in_buckets FindFreeSlot [home st k 0, home st k 1] (lc_buckets st) = Inr (Some (b, s)) \<and>
        find_seed (occ_keys (set_occ s (put_slot s k 0 (lc_buckets st ! unat b)))) \<noteq> None)"

lemma occ_keys_value: "occ_keys (set_occ s (put_slot s k v B)) = occ_keys (set_occ s (put_slot s k w B))"
proof -
  have "occ (set_occ s (put_slot s k v B)) = occ (set_occ s (put_slot s k w B))"
    by (simp add: occ_def fun_eq_iff set_occ_def put_slot_def)
  then show ?thesis by (simp add: occ_keys_def occ_slots_def)
qed

lemma lc_insert_room:
  assumes inv: "lc_inv st" and room: "has_room k st" and new: "lc_toMap st k = None"
  shows "\<exists>r st'. lc_insert k v False st = Inr (r, st') \<and> lr_status r = 0 \<and> inserted k v st st'"
proof -
  let ?Bs = "lc_buckets st" and ?b0 = "home st k 0" and ?b1 = "home st k 1"
  have core: "lc_core st (cells ?Bs)" using inv by (simp add: lc_inv_def)
  have m: "lc_isMember k st = Inr False" using lc_lookUp_ok(2) [OF core, of k] new by simp
  obtain b s where b: "in_buckets FindFreeSlot [?b0, ?b1] ?Bs = Inr (Some (b, s))" "find_seed (occ_keys (set_occ s (put_slot s k v (?Bs ! unat b)))) \<noteq> None"
    using room occ_keys_value unfolding has_room_def by metis
  have bl: "unat b < length ?Bs"
    using b(1) home_lt [OF core, of k] in_buckets_two [of ?b0 ?Bs ?b1 FindFreeSlot] by (auto split: option.splits)
  have a: "cp_abs (lc_locator st) k = None" using new toMap_dom [OF core] by (metis domIff)
  have cm: "cp_isMember (lc_locator st) k = Inr False" using cp_isMember_abs [OF lc_coreD(1) [OF core]] a by simp
  obtain res l where "cp_insert k (if b = ?b0 then 0 else 1) False (lc_rnd st) (lc_locator st) = Inr (res, lc_rnd st, l)" "or_status res = 0"
    using insert_fresh [OF lc_coreD(1) [OF core] a, of 2 "if b = ?b0 then 0 else 1" False "lc_rnd st"] room
    unfolding has_room_def cp_insert_def numeral_3_eq_3 numeral_2_eq_2 by blast
  then have reg: "registerKey k (if b = ?b0 then 0 else 1) False st = Inr (res, st\<lparr>lc_rnd := lc_rnd st, lc_locator := l\<rparr>)" "\<not> or_status res < 0"
    using cm by (simp_all add: registerKey_def)
  obtain st1 where "putItem k v b s (b = ?b0) None st = Inr (True, None, st1)"
    using reg b(2) bl by (auto simp: putItem_def upd_bucket_def lc_updateSeed_def)
  moreover have "\<not> lc_nKeys st + 1 > lc_capacity st" using room by (simp add: has_room_def not_less)
  ultimately obtain st2 where s: "insert_step k v False st = Inr (Returned \<lparr>lr_status = 0, lr_path = []\<rparr>, st2)"
    using m b(1) by (auto simp: insert_step_def candidates_ok [OF core] path_of_def)
  then show ?thesis using insert_step_ok [OF inv s] by (auto simp: lc_insert_def)
qed

text \<open>What a call leaves the caller with: the map with the new entry, and a table that answers lookups from it.\<close>

lemma lc_insert_ok:
  assumes "lc_inv st" "lc_insert k v False st = Inr (r, st')"
  shows "lc_inv st'" "lc_toMap st' = (lc_toMap st)(k \<mapsto> v)" "lr_status r \<in> {0, 2}"
  using lc_insert_rec_ok [OF assms(1) assms(2) [unfolded lc_insert_def]] by blast+

section \<open>The constructor\<close>

lemma grow_buckets_bound:
  assumes "grow_buckets d width lf (2 ^ i) target = Inr (nb, cap)" "i + d < 32"
  shows "\<exists>j<32. nb = 2 ^ j"
  using assms
proof (induction d arbitrary: i)
  case 0
  then show ?case by (auto simp: grow_buckets.simps [of 0] Let_def split: if_splits)
next
  case (Suc d)
  then show ?case using Suc.IH [of "Suc i"] by (auto simp: grow_buckets.simps [of "Suc d"] Let_def split: if_splits)
qed

lemma new_ludo_inv:
  assumes "lf_ok lf" "cp_inv l" "cp_abs l = Map.empty" "j < 32" "lc_load_factor st = lf" "lc_num_buckets st = 2 ^ j" "lc_locator st = l" "lc_buckets st = replicate (2 ^ j) no_bucket"
  shows "lc_inv st" "lc_toMap st = Map.empty"
proof -
  have c: "cells (lc_buckets st) = {}" by (auto simp: cells_def assms(8))
  then have "lc_core st {}" using assms by (auto simp: lc_core_def)
  then show "lc_inv st" using c assms by (simp add: lc_inv_def unat_exp)
  show "lc_toMap st = Map.empty" using toMap_none [of st] c by auto
qed

lemma ControlPlaneLudo_ok:
  assumes "lf_ok lf" "ControlPlaneLudo lf rnd cap keys vals = Inr st" "m = min (min (length keys) (length vals)) (unat cap)" "length keys < 2 ^ 32"
  shows "lc_inv st \<and> lc_toMap st = map_of (rev (zip (take m keys) (take m vals)))"
proof -
  define toInsert where "toInsert = min (of_nat (min (length keys) (length vals))) cap"
  have ti: "unat toInsert = m"
  proof -
    have "unat (of_nat (min (length keys) (length vals)) :: u32) = min (length keys) (length vals)" using assms(4) by (simp add: unat_of_nat take_bit_nat_eq_self)
    then show ?thesis unfolding toInsert_def assms(3) by (simp add: min_def word_le_nat_alt)
  qed
  obtain rnd1 l1 nb c rnd2 l2 where o: "ControlPlaneOthello 1 True [] [] rnd = Inr (rnd1, l1)" "grow_buckets 25 32 lf (2 ^ 6) (unat cap) = Inr (nb, c)"
      "cp_resizeCapacity toInsert False False rnd1 l1 = Inr (rnd2, l2)"
    and f: "rfold (\<lambda>i st. rbind (lc_insert (keys ! i) (vals ! i) False st) (\<lambda>(r, st1). Inr st1)) [0..<m]
       \<lparr>lc_load_factor = lf, lc_rnd = rnd2, lc_num_buckets = of_nat nb, lc_h = 0xe2211e2211, lc_nKeys = 0, lc_locator = l2,
        lc_buckets = replicate nb no_bucket, lc_oldBuckets = [], lc_capacity = of_nat c, lc_integrity = True\<rparr> = Inr st" (is "rfold _ _ ?st0 = _")
    using assms(2) by (auto simp: ControlPlaneLudo_def Let_def ti simp flip: toInsert_def elim!: rbindE)
  have l: "cp_inv l2" "cp_abs l2 = Map.empty"
    using constructor_ok [OF o(1)] cp_resizeCapacity_keeps [OF o(3)] by simp_all
  obtain j where j: "j < 32" "nb = 2 ^ j" using grow_buckets_bound [OF o(2)] by auto
  have s0: "lc_inv ?st0" "lc_toMap ?st0 = Map.empty" by (rule new_ludo_inv [OF assms(1) l j(1)]; simp add: j(2))+
  have "lc_inv st \<and> lc_toMap st = map_of (rev (zip (take m keys) (take m vals)))"
  proof (rule rfold_upt_inv [OF f, where P = "\<lambda>i st. lc_inv st \<and> lc_toMap st = map_of (rev (zip (take i keys) (take i vals)))"])
    fix i s t assume i: "i < m" "lc_inv s \<and> lc_toMap s = map_of (rev (zip (take i keys) (take i vals)))"
      "rbind (lc_insert (keys ! i) (vals ! i) False s) (\<lambda>(r, st1). Inr st1) = Inr t"
    obtain r where r: "lc_insert (keys ! i) (vals ! i) False s = Inr (r, t)" using i(3) by (auto elim!: rbindE)
    have "i < length keys" "i < length vals" using i(1) assms(3) by simp_all
    then have "zip (take (Suc i) keys) (take (Suc i) vals) = zip (take i keys) (take i vals) @ [(keys ! i, vals ! i)]" by (simp add: take_Suc_conv_app_nth)
    then show "lc_inv t \<and> lc_toMap t = map_of (rev (zip (take (Suc i) keys) (take (Suc i) vals)))"
      using lc_insert_ok [OF _ r] i(2) by simp
  qed (use s0 in simp)
  then show ?thesis .
qed

section \<open>A new table takes a key\<close>

lemma no_keys_acyclic:
  assumes "cp_wf st" "cp_nKeysInOthello st = 0"
  shows "\<not> cp_cyclic st k"
proof -
  obtain a b where e: "cp_getIndices st k = (a, b)" by (cases "cp_getIndices st k")
  have "unat a < unat (cp_ma st)" "unat (cp_ma st) \<le> unat b"
    using getIndices_lt [of "cp_ma st" "cp_mb st" "cp_hab st" k a b] assms(1) e by (simp_all add: cp_wf_def cp_getIndices_def)
  then show ?thesis using e assms(2) by (auto simp: cp_cyclic_def)
qed

lemma next_ma_256: "next_ma 256 = 341"
  using dbl_prod_pow2 [of 6004829527158177 8] by (simp add: next_ma_def dbl_trunc_def)

lemma double_until_256: "double_until 256 256 = 256"
  by (simp add: double_until.simps)

lemma new_othello_returns:
  "\<exists>l. ControlPlaneOthello 1 True [] [] (s # rnd) = Inr (rnd, l) \<and> cp_nKeysInOthello l = 0 \<and> cp_ma l = 341 \<and> length (cp_keys l) = 256"
proof -
  let ?st = "\<lparr>cp_ma = 0, cp_mb = 0, cp_mem = [], cp_hab = 0, cp_keys = [], cp_values = [], cp_indMem = [], cp_head = [], cp_nextAtA = [], cp_nextAtB = [],
     cp_connectivityForest = [], cp_nKeysInOthello = 0, cp_compact = True, cp_integrity = True\<rparr> :: othello_cp"
  obtain st1 where r: "cp_resize 1 ?st = Inr (True, st1)" "cp_nKeysInOthello st1 = 0" "cp_ma st1 = 341" "length (cp_keys st1) = 256"
    by (simp add: cp_resize_def Let_def next_ma_256)
  have wf: "cp_wf st1" using cp_resize_ok [OF r(1)] by (simp add: cp_lens_def)
  have g: "good_seed st1 s" using r(2) by (simp add: cp_live_def)
  obtain st2 where "tryBuild (st1\<lparr>cp_hab := s\<rparr>) = Inr (good_seed st1 s, st2)" "cp_keys st2 = cp_keys st1" "cp_nKeysInOthello st2 = cp_nKeysInOthello st1" "cp_ma st2 = cp_ma st1"
    by (rule tryBuild_seed [OF wf, of s]) blast
  then have "cp_build (s # rnd) st1 = Inr (rnd, st2\<lparr>cp_integrity := True\<rparr>) \<and> cp_keys st2 = cp_keys st1 \<and> cp_nKeysInOthello st2 = 0 \<and> cp_ma st2 = 341"
    using g r by (simp add: cp_build_def eval_nat_numeral)
  then show ?thesis using r by (auto simp: ControlPlaneOthello_def cp_resizeCapacity_def)
qed

lemma ludo_capacity_one: "ludo_capacity (1, 0) (2 ^ i) = 4 * 2 ^ i"
  by (simp add: ludo_capacity_def dbl_prod_pow2)

lemma new_ludo_returns:
  "\<exists>st. ControlPlaneLudo (1, 0) (s # rnd) 1024 [] [] = Inr st \<and> length (lc_buckets st) = 256 \<and> lc_nKeys st = 0 \<and> lc_capacity st = 1024 \<and>
     \<not> cp_full (lc_locator st) \<and> (\<forall>k. \<not> cp_cyclic (lc_locator st) k) \<and> lc_buckets st = replicate 256 no_bucket"
proof -
  obtain l where l: "ControlPlaneOthello 1 True [] [] (s # rnd) = Inr (rnd, l)" "cp_nKeysInOthello l = 0" "cp_ma l = 341" "length (cp_keys l) = 256"
    using new_othello_returns by blast
  have inv: "cp_inv l" using constructor_ok [OF l(1)] by simp
  have "dbl_prod 341 3602879701896397 \<le> 341 * 2 ^ 52"
  proof -
    define u :: nat where "u = 2 ^ (bit_length (341 * 3602879701896397) - 53)"
    have "dbl_prod 341 3602879701896397 \<le> 341 * 3602879701896397 + u" unfolding u_def by (rule dbl_prod_upper)
    moreover have "u = 1 \<or> u * 2 ^ 52 \<le> 341 * 3602879701896397" unfolding u_def by (rule dbl_unit) simp
    ultimately show ?thesis by auto
  qed
  then have r: "cp_resizeCapacity 0 False False rnd l = Inr (rnd, l)"
    using l by (simp add: cp_resizeCapacity_def cp_resize_def Let_def next_ma_256 double_until_256)
  have g: "grow_buckets 25 32 (1, 0) 64 1024 = Inr (256, 1024)"
    using ludo_capacity_one [of 6] ludo_capacity_one [of 7] ludo_capacity_one [of 8]
    by (simp add: eval_nat_numeral(3) [of num.One] grow_buckets.simps Let_def)
  have "cp_mb l \<noteq> 0" using cp_invD(1) [OF inv] by (simp add: cp_wf_def)
  then have "\<not> cp_full l" using l by simp
  moreover have "\<not> cp_cyclic l k" for k by (rule no_keys_acyclic [OF cp_invD(1) [OF inv] l(2)])
  ultimately show ?thesis using l(1) r g by (simp add: ControlPlaneLudo_def)
qed

lemma new_table_room:
  assumes "lc_inv st" "lc_buckets st = replicate n no_bucket" "lc_nKeys st = 0" "1 \<le> lc_capacity st" "\<not> cp_full (lc_locator st)" "\<not> cp_cyclic (lc_locator st) k"
  shows "has_room k st"
proof -
  have core: "lc_core st (cells (lc_buckets st))" using assms(1) by (simp add: lc_inv_def)
  have n: "unat (home st k x) < n" for x using home_lt [OF core, of k x] assms(2) by simp
  have f: "FindFreeSlot no_bucket = Some 0" by (simp add: FindFreeSlot_def upt_conv_Cons)
  have "in_buckets FindFreeSlot [home st k 0, home st k 1] (lc_buckets st) = Inr (Some (home st k 0, 0))"
    using n by (simp add: assms(2) f)
  moreover have "occ_keys (set_occ 0 (put_slot 0 k 0 (lc_buckets st ! unat (home st k 0)))) = [k]"
    using n by (simp add: assms(2) occ_keys_def occ_slots_def upt_conv_Cons) (simp add: no_bucket_def)
  moreover have "find_seed [k] \<noteq> None" using try_seed_distinct [of 0 "[k]"] by (simp add: find_seed_def find_seed_from.simps del: try_seed.simps)
  ultimately show ?thesis using assms(3-6) unfolding has_room_def by auto
qed

section \<open>Export\<close>

lemma rfold_fill:
  assumes "length ys = length xs"
  shows "rfold (\<lambda>i ys. rbind (aget xs i) (\<lambda>x. aset ys i (f x))) [0..<length xs] ys = Inr (map f xs)"
proof -
  have "\<exists>t. rfold (\<lambda>i ys. rbind (aget xs i) (\<lambda>x. aset ys i (f x))) [0..<length xs] ys = Inr t \<and> length t = length xs \<and> (\<forall>j<length xs. t ! j = f (xs ! j))"
    by (rule rfold_upt [where P = "\<lambda>i t. length t = length xs \<and> (\<forall>j<i. t ! j = f (xs ! j))"]) (use assms in \<open>auto simp: nth_list_update less_Suc_eq\<close>)
  then obtain t where "rfold (\<lambda>i ys. rbind (aget xs i) (\<lambda>x. aset ys i (f x))) [0..<length xs] ys = Inr t" "length t = length xs" "\<forall>j<length xs. t ! j = f (xs ! j)"
    by blast
  moreover from this have "t = map f xs" by (intro nth_equalityI) simp_all
  ultimately show ?thesis by simp
qed

lemma fold_writes:
  assumes "distinct (map f xs)" "\<forall>s\<in>set xs. f s < length r"
  shows "length (fold (\<lambda>s row. row[f s := g s]) xs r) = length r \<and> (\<forall>s\<in>set xs. fold (\<lambda>s row. row[f s := g s]) xs r ! f s = g s) \<and>
    (\<forall>j. j \<notin> f ` set xs \<longrightarrow> fold (\<lambda>s row. row[f s := g s]) xs r ! j = r ! j)"
  using assms
proof (induction xs arbitrary: r)
  case (Cons s xs)
  then have ih: "length (fold (\<lambda>s row. row[f s := g s]) xs (r[f s := g s])) = length r \<and> (\<forall>u\<in>set xs. fold (\<lambda>s row. row[f s := g s]) xs (r[f s := g s]) ! f u = g u) \<and>
    (\<forall>j. j \<notin> f ` set xs \<longrightarrow> fold (\<lambda>s row. row[f s := g s]) xs (r[f s := g s]) ! j = r[f s := g s] ! j)" by simp
  have "f s \<notin> f ` set xs" "f s < length r" using Cons.prems by simp_all
  then show ?case using ih by (auto simp: nth_list_update)
qed simp

lemma pd_row_slots:
  assumes "seeded B"
  shows "length (pd_row B) = 4"
    "\<And>s. s < 4 \<Longrightarrow> occ B s \<Longrightarrow> pd_row B ! unat (slot_of (b_seed B) (b_keys B ! s)) = bulk_word (b_values B ! s)"
    "\<And>q. q < 4 \<Longrightarrow> pd_row B ! q \<noteq> 0 \<Longrightarrow> \<exists>s<4. occ B s \<and> q = unat (slot_of (b_seed B) (b_keys B ! s))"
proof -
  let ?f = "\<lambda>s. unat (slot_of (b_seed B) (b_keys B ! s))"
  have d: "distinct (map ?f (occ_slots B))" using assms by (simp add: seeded_distinct occ_keys_def comp_def)
  have l: "\<forall>s\<in>set (occ_slots B). ?f s < length (replicate 4 (0 :: u64))" by (simp add: slot_of_lt4)
  note w = fold_writes [OF d l, of "\<lambda>s. bulk_word (b_values B ! s)", folded pd_row_def]
  show "length (pd_row B) = 4" using w by simp
  show "pd_row B ! unat (slot_of (b_seed B) (b_keys B ! s)) = bulk_word (b_values B ! s)" if "s < 4" "occ B s" for s
    using w that by (simp add: set_occ_slots)
  show "\<exists>s<4. occ B s \<and> q = unat (slot_of (b_seed B) (b_keys B ! s))" if "q < 4" "pd_row B ! q \<noteq> 0" for q
  proof (rule ccontr)
    assume "\<not> ?thesis"
    then have "q \<notin> ?f ` set (occ_slots B)" by (auto simp: set_occ_slots)
    then show False using w that by simp
  qed
qed

definition exported_unit :: "ludo_cp \<Rightarrow> ludo_dp" where
  "exported_unit cp = \<lparr>ld_seeds = map b_seed (lc_buckets cp), ld_num_buckets = lc_num_buckets cp, ld_h = lc_h cp,
     ld_locator = DataPlaneOthello (lc_locator cp), ld_lock = replicate 8192 0\<rparr>"

definition exported_rows :: "ludo_cp \<Rightarrow> ludo_buckets" where
  "exported_rows cp = \<lparr>bucketsArray = map pd_row (lc_buckets cp), lb_numElements = ucast (lc_num_buckets cp)\<rparr>"

lemma DataPlaneLudo_eq:
  assumes "unat (lc_num_buckets cp) = length (lc_buckets cp)"
  shows "DataPlaneLudo cp = Inr (exported_unit cp)" "DataPlaneLudo_pd cp = Inr (exported_unit cp, exported_rows cp)"
proof -
  show d: "DataPlaneLudo cp = Inr (exported_unit cp)" by (simp add: DataPlaneLudo_def exported_unit_def assms rfold_fill)
  show "DataPlaneLudo_pd cp = Inr (exported_unit cp, exported_rows cp)"
    by (simp add: DataPlaneLudo_pd_def d exported_rows_def LudoBuckets_new_def assms rfold_fill unsigned_ucast_eq)
qed

lemma exported_wf:
  assumes "lc_inv cp"
  shows "ld_wf (exported_unit cp)" "ld_quiet (exported_unit cp)" "lb_wf (exported_rows cp)"
    "length (bucketsArray (exported_rows cp)) = length (ld_seeds (exported_unit cp))"
proof -
  have core: "lc_core cp (cells (lc_buckets cp))" and num: "unat (lc_num_buckets cp) = length (lc_buckets cp)" using assms by (simp_all add: lc_inv_def)
  note o = export_ok [OF lc_coreD(1) [OF core]]
  obtain n where n: "n < 32" "length (lc_buckets cp) = 2 ^ n" by (rule lc_core_pow2 [OF core])
  have "lc_num_buckets cp = 2 ^ n" using num n by (simp add: word_unat_eq_iff unat_exp)
  then show "ld_wf (exported_unit cp)" using n o(1) num by (auto simp: ld_wf_def exported_unit_def)
  show "ld_quiet (exported_unit cp)" using o(2) by (simp add: ld_quiet_def exported_unit_def)
  have "\<forall>B\<in>set (lc_buckets cp). seeded B" using lc_coreD(6) [OF core] lc_core_iff_seeded [OF refl, of cp] by (auto simp: in_set_conv_nth)
  then show "lb_wf (exported_rows cp)" by (auto simp: lb_wf_def exported_rows_def pd_row_slots(1))
  show "length (bucketsArray (exported_rows cp)) = length (ld_seeds (exported_unit cp))" by (simp add: exported_rows_def exported_unit_def)
qed

lemma exported_bucket:
  assumes "lc_inv cp" "p \<in> cells (lc_buckets cp)"
  shows "unat (bucket_of (exported_unit cp) (ckey (lc_buckets cp) p)) = fst p"
proof -
  have core: "lc_core cp (cells (lc_buckets cp))" and num: "unat (lc_num_buckets cp) = length (lc_buckets cp)" using assms(1) by (simp_all add: lc_inv_def)
  have nb: "of_nat (length (lc_buckets cp)) = lc_num_buckets cp" unfolding num [symmetric] by simp
  let ?k = "ckey (lc_buckets cp) p" and ?b = "locator_bit (DataPlaneOthello (lc_locator cp)) (ckey (lc_buckets cp) p)"
  obtain x where x: "cp_abs (lc_locator cp) ?k = Some x" "x = 0 \<or> x = 1" "unat (home cp ?k x) = fst p" by (rule lc_core_home [OF core assms(2)])
  note o = export_ok [OF lc_coreD(1) [OF core]]
  have u: "ucast ?b = x" using o(3) [OF x(1)] x(2) by (auto simp: take_bit_eq_mod)
  have "?b = 0 \<longleftrightarrow> x = 0"
  proof -
    have "unat ?b < 2" by (rule locator_bit_lt [OF o(1)])
    then have "unat (ucast ?b :: u8) = unat ?b" by (simp add: unsigned_ucast_eq take_bit_nat_eq_self)
    then show ?thesis unfolding u by (auto simp: word_unat_eq_iff)
  qed
  then show ?thesis using x(3) by (simp add: bucket_of_def exported_unit_def home_def nb split_beta)
qed

text \<open>The lookup unit sends a stored key to the word made from its value, and every word of the rows comes from a stored key.\<close>

lemma exported_lookup:
  assumes "lc_inv cp" "lc_toMap cp k = Some v"
  obtains row slot where "lookup_slot (exported_unit cp) k = Inr (row, slot)" "unat row < length (bucketsArray (exported_rows cp))" "unat slot < 4"
    "slot = slot_of (ld_seeds (exported_unit cp) ! unat row) k" "cell (exported_rows cp) (unat row) (unat slot) = bulk_word v"
proof -
  let ?Bs = "lc_buckets cp"
  have core: "lc_core cp (cells ?Bs)" using assms(1) by (simp add: lc_inv_def)
  obtain p where p: "p \<in> cells ?Bs" "ckey ?Bs p = k" "cval ?Bs p = v" using assms(2) by (auto simp: toMap_items [OF lc_coreD(3) [OF core]] citems_def)
  have b: "unat (bucket_of (exported_unit cp) k) = fst p" using exported_bucket [OF assms(1) p(1)] p(2) by simp
  have q: "fst p < length ?Bs" "snd p < 4" "occ (?Bs ! fst p) (snd p)" using p(1) by (auto simp: cells_def)
  have s: "seeded (?Bs ! fst p)" using q(1) lc_coreD(6) [OF core] lc_core_iff_seeded [OF refl, of cp] by simp
  have "pd_row (?Bs ! fst p) ! unat (slot_of (b_seed (?Bs ! fst p)) k) = bulk_word v"
    using pd_row_slots(2) [OF s q(2,3)] p(2,3) by (simp add: ckey_def cval_def)
  then have w: "cell (exported_rows cp) (fst p) (unat (slot_of (ld_seeds (exported_unit cp) ! fst p) k)) = bulk_word v"
    using q(1) by (simp add: exported_rows_def exported_unit_def)
  have l: "fst p < length (bucketsArray (exported_rows cp))" using q(1) by (simp add: exported_rows_def)
  show thesis by (rule that [OF lookup_slot_eq [OF exported_wf(1,2) [OF assms(1)], of k] _ _ refl]) (simp_all only: b w l slot_of_lt4)
qed

lemma exported_word:
  assumes "lc_inv cp" "r < length (bucketsArray (exported_rows cp))" "s < 4" "cell (exported_rows cp) r s \<noteq> 0"
  obtains k v where "lc_toMap cp k = Some v" "cell (exported_rows cp) r s = bulk_word v" "s = unat (slot_of (ld_seeds (exported_unit cp) ! r) k)"
    "unat (bucket_of (exported_unit cp) k) = r"
proof -
  let ?Bs = "lc_buckets cp"
  have core: "lc_core cp (cells ?Bs)" using assms(1) by (simp add: lc_inv_def)
  have r: "r < length ?Bs" using assms(2) by (simp add: exported_rows_def)
  have sd: "seeded (?Bs ! r)" using r lc_coreD(6) [OF core] lc_core_iff_seeded [OF refl, of cp] by simp
  have nz: "pd_row (?Bs ! r) ! s \<noteq> 0" using assms(4) r by (simp add: exported_rows_def)
  obtain q where q: "q < 4" "occ (?Bs ! r) q" "s = unat (slot_of (b_seed (?Bs ! r)) (b_keys (?Bs ! r) ! q))"
    using pd_row_slots(3) [OF sd assms(3) nz] by blast
  have c: "(r, q) \<in> cells ?Bs" using q r by (simp add: cells_iff)
  then have "(ckey ?Bs (r, q), cval ?Bs (r, q)) \<in> lc_items cp" by (auto simp: citems_def)
  then have "lc_toMap cp (ckey ?Bs (r, q)) = Some (cval ?Bs (r, q))" by (simp add: toMap_items [OF lc_coreD(3) [OF core]])
  then show thesis using that [of "ckey ?Bs (r, q)" "cval ?Bs (r, q)"] pd_row_slots(2) [OF sd q(1,2)] q(3) r exported_bucket [OF assms(1) c]
    by (simp add: exported_rows_def exported_unit_def ckey_def cval_def)
qed

section \<open>Sizing an empty data plane\<close>

text \<open>
  \<open>resizeCapacity\<close> of the two data planes, used before any entry is set, and \<open>lookUp\<close> of the Ludo data plane, which looks
  the slot up, returns true and leaves \<open>out\<close> as it was.
\<close>

definition od_resizeCapacity :: "u32 \<Rightarrow> bool \<Rightarrow> othello_dp \<Rightarrow> othello_dp" where
  "od_resizeCapacity target0 compact d =
    (let target = max target0 256;
         nextMb = (if compact then unat target else double_until 256 (unat target));
         nextMa = next_ma nextMb
     in if unat (od_ma d) < nextMa \<or> nextMa * 2 ^ 52 < dbl_prod (unat (od_ma d)) 3602879701896397
        then d\<lparr>od_ma := of_nat nextMa, od_mb := of_nat nextMb,
               od_mem := vresize (mem_words 1 (of_nat nextMa) (of_nat nextMb)) 0 (od_mem d)\<rparr>
        else d)"

definition ld_resizeCapacity :: "nat \<times> nat \<Rightarrow> u32 \<Rightarrow> ludo_dp \<Rightarrow> ludo_dp res" where
  "ld_resizeCapacity lf target d =
    rbind (grow_buckets 57 64 lf 64 (unat (max target 256))) (\<lambda>(nb, cap).
    let n = of_nat nb in
    Inr (d\<lparr>ld_num_buckets := n, ld_seeds := vresize (unat n) 0 (ld_seeds d), ld_locator := od_resizeCapacity (of_nat cap) True (ld_locator d)\<rparr>))"

definition ld_lookUp :: "ludo_dp \<Rightarrow> u64 \<Rightarrow> u64 \<Rightarrow> (bool \<times> u64) res" where
  "ld_lookUp d k out = rbind (lookup_slot d k) (\<lambda>_. Inr (True, out))"

lemma next_ma_le: "0 < n \<Longrightarrow> next_ma n \<le> 2 * n"
proof -
  assume n: "0 < n"
  let ?m = "6004829527158177 :: nat"
  define u :: nat where "u = 2 ^ (bit_length (n * ?m) - 53)"
  have "dbl_prod n ?m \<le> n * ?m + u" unfolding u_def by (rule dbl_prod_upper)
  moreover have "u = 1 \<or> u * 2 ^ 52 \<le> n * ?m" unfolding u_def by (rule dbl_unit) (use n in simp)
  ultimately have "dbl_prod n ?m \<le> 2 * n * 2 ^ 52" using n by auto
  then have "dbl_prod n ?m div 2 ^ 52 \<le> 2 * n * 2 ^ 52 div 2 ^ 52" by (rule div_le_mono)
  then show ?thesis by (simp add: next_ma_def dbl_trunc_def)
qed

lemma od_resizeCapacity_wf:
  assumes "od_wf d" "unat target < 2 ^ 30"
  shows "od_wf (od_resizeCapacity target True d)"
proof -
  let ?n = "unat (max target 256)"
  have n: "0 < ?n" "?n < 2 ^ 30" using assms(2) by (auto simp: max_def word_le_nat_alt)
  note a = next_ma_le [OF n(1)] next_ma_ge [OF n(1)]
  have w: "unat (of_nat (next_ma ?n) :: u32) = next_ma ?n" "unat (of_nat ?n :: u32) = ?n"
    using a n by (simp_all add: unsigned_of_nat take_bit_nat_eq_self)
  have z: "(of_nat (next_ma ?n) :: u32) \<noteq> 0" "(of_nat ?n :: u32) \<noteq> 0" using w a n(1) by (metis le_zero_eq not_gr_zero unat_0)+
  show ?thesis using assms(1) a n w z by (simp add: od_resizeCapacity_def Let_def od_wf_def)
qed

lemma ld_resizeCapacity_wf:
  assumes "lf_ok lf" "ld_wf d" "unat target \<le> 2 ^ 28"
  shows "\<exists>d'. ld_resizeCapacity lf target d = Inr d' \<and> ld_wf d' \<and> unat target \<le> 4 * length (ld_seeds d')"
proof -
  let ?t = "unat (max target 256)"
  have t: "?t < 2 ^ 32" "?t \<le> 2 ^ 28" using assms(3) by (auto simp: max_def)
  obtain j where j: "6 \<le> j" "j < 32" "grow_buckets 57 64 lf (2 ^ 6) ?t = Inr (2 ^ j, ludo_capacity lf (2 ^ j))" "?t \<le> ludo_capacity lf (2 ^ j)" "j = 6 \<or> 2 ^ j < ?t"
    using grow_buckets_ok [OF assms(1) t(1), of 6 57 64] by auto
  note c = ludo_capacity_ge [OF assms(1), of j]
  have b: "(2 :: nat) ^ j < 2 ^ 28" using j(5) t(2) by auto
  then have "ludo_capacity lf (2 ^ j) < 2 ^ 30" using c(2) by simp
  then have "unat (of_nat (ludo_capacity lf (2 ^ j)) :: u32) < 2 ^ 30" by (simp add: unsigned_of_nat take_bit_nat_eq_self)
  then have wf: "od_wf (od_resizeCapacity (of_nat (ludo_capacity lf (2 ^ j))) True (ld_locator d))" using assms(2) by (intro od_resizeCapacity_wf) (simp_all add: ld_wf_def)
  have u: "unat (2 ^ j :: u32) = 2 ^ j" using j(2) by (simp add: unat_exp)
  have "unat target \<le> ?t" by (simp add: max_def word_le_nat_alt)
  then have "unat target \<le> 4 * 2 ^ j" using j(4) c(2) by linarith
  then show ?thesis using j(2,3) wf u assms(2) by (auto simp: ld_resizeCapacity_def ld_wf_def Let_def)
qed

section \<open>The control plane as a map\<close>

definition ludo_put :: "u64 \<Rightarrow> u64 \<Rightarrow> ludo_cp \<Rightarrow> ludo_cp res" where
  "ludo_put k v st = rbind (lc_insert k v False st) (\<lambda>(r, st1). Inr st1)"

definition ludo_del :: "u64 \<Rightarrow> ludo_cp \<Rightarrow> ludo_cp res" where
  "ludo_del k st = rbind (lc_remove k st) (\<lambda>(r, st1). Inr st1)"

interpretation ludo: map_store lc_inv ludo_put ludo_del lc_toMap
proof
  fix m k v m' assume m: "lc_inv m" "ludo_put k v m = Inr m'"
  obtain r where "lc_insert k v False m = Inr (r, m')" using m(2) by (auto simp: ludo_put_def elim!: rbindE)
  then show "lc_inv m' \<and> lc_toMap m' = (lc_toMap m)(k \<mapsto> v)" using lc_insert_ok [OF m(1)] by blast
next
  fix m k m' assume m: "lc_inv m" "ludo_del k m = Inr m'"
  obtain r st where "lc_remove k m = Inr (r, st)" "lc_inv st" "lc_toMap st = (lc_toMap m)(k := None)" by (rule lc_remove_ok [OF m(1)])
  then show "lc_inv m' \<and> lc_toMap m' = (lc_toMap m)(k := None)" using m(2) by (simp add: ludo_del_def)
qed

text \<open>\<open>Merge\<close> is such a run.\<close>

lemma Merge_ok:
  assumes "lc_inv st" "Merge another isValid st = Inr st'"
  shows "lc_inv st' \<and> lc_toMap st' = fold (\<lambda>(k, v) m. if isValid v then m(k \<mapsto> v) else m(k := None)) another (lc_toMap st)"
proof -
  let ?op = "\<lambda>(k, v). if isValid v then Put k v else Del k"
  have f: "rfold (run_op ludo_put ludo_del) (map ?op xs) s =
    rfold (\<lambda>(k, v) st. if isValid v then rbind (lc_insert k v False st) (\<lambda>(r, st1). Inr st1) else rbind (lc_remove k st) (\<lambda>(r, st1). Inr st1)) xs s" for xs s
    by (induction xs arbitrary: s) (auto simp: ludo_put_def ludo_del_def intro!: rbind_cong)
  have "fold map_op (map ?op xs) m = fold (\<lambda>(k, v) m. if isValid v then m(k \<mapsto> v) else m(k := None)) xs m" for xs and m :: "u64 \<rightharpoonup> u64"
    by (induction xs arbitrary: m) auto
  then show ?thesis using ludo.run_ops [OF assms(1), of "map ?op another" st'] assms(2) by (simp add: f Merge_def)
qed

section \<open>Properties\<close>

text \<open>
  (C3) Inserting into the Ludo table with permission to rebuild: whenever \<open>insert\<close> returns, with or without a cuckoo path,
  growing or rebuilding on the way, it reports success, the invariant holds, the table stores the old map with the new
  entry, and every lookup answers from that map. It does return, at once, when the key is stored, and when a candidate
  bucket has room for a new key.
\<close>
theorem ludo_insert_correct:
  assumes "lc_inv st"
  shows "(\<forall>r st'. lc_insert k v False st = Inr (r, st') \<longrightarrow> lc_inv st' \<and> lc_toMap st' = (lc_toMap st)(k \<mapsto> v) \<and> lr_status r \<in> {0, 2} \<and>
      (\<forall>k'. lc_lookUp k' st' = Inr (if k' = k then Some v else lc_toMap st k'))) \<and>
    (lc_toMap st k \<noteq> None \<or> has_room k st \<longrightarrow> (\<exists>r st'. lc_insert k v False st = Inr (r, st') \<and> lr_status r = 0))"
proof -
  have "lc_lookUp k' st' = Inr (if k' = k then Some v else lc_toMap st k')" if "lc_insert k v False st = Inr (r, st')" for r st' k'
    using lc_insert_ok [OF assms that] lc_lookUp_ok(1) [of st' k'] by (simp add: lc_inv_def)
  moreover have "\<exists>r st'. lc_insert k v False st = Inr (r, st') \<and> lr_status r = 0" if m: "lc_toMap st k \<noteq> None"
  proof -
    obtain r st' where c: "lc_changeValue k v st = Inr (r, st')" "lr_status r = 0" by (rule lc_changeValue_ok [OF assms m])
    have "lc_isMember k st = Inr True" using lc_lookUp_ok(2) [of st k] assms m by (simp add: lc_inv_def)
    then show ?thesis using c by (simp add: lc_insert_def insert_step_def)
  qed
  moreover have "\<exists>r st'. lc_insert k v False st = Inr (r, st') \<and> lr_status r = 0" if "has_room k st" "lc_toMap st k = None"
    using lc_insert_room [OF assms that] by blast
  ultimately show ?thesis using lc_insert_ok [OF assms] by blast
qed

text \<open>
  After an insertion that found no path and rebuilt the table, the key is counted twice: by the inner call, and
  again by the outer one.
\<close>

lemma cuckoo_rebuild_counts_twice:
  assumes "lc_inv st2" "lc_toMap st2 k = None" "insert_step k v False st = Inr (Grow True, st1)"
    "lc_resizeCapacity (lc_nKeys st1 + 1) True st1 = Inr st2" "insert_step k v False st2 = Inr (Returned r, st3)"
  shows "\<exists>r' st'. lc_insert_rec (Suc (Suc n)) k v False st = Inr (r', st') \<and> lc_nKeys st' = lc_nKeys st2 + 2 \<and> dom (lc_toMap st') = insert k (dom (lc_toMap st2))"
proof -
  have "inserted k v st2 st3" using insert_step_ok [OF assms(1,5)] by auto
  then show ?thesis using assms by (auto simp: inserted_def lc_frame_def lc_toMap_def)
qed

text \<open>A table to try the properties on: new, with 256 buckets.\<close>

lemma new_ludo_state:
  "\<exists>st. ControlPlaneLudo (1, 0) [5] 1024 [] [] = Inr st \<and> lc_inv st \<and> lc_toMap st = Map.empty \<and> has_room 7 st"
proof -
  obtain st where st: "ControlPlaneLudo (1, 0) [5] 1024 [] [] = Inr st" "lc_nKeys st = 0" "lc_capacity st = 1024" "\<not> cp_full (lc_locator st)"
    "\<forall>k. \<not> cp_cyclic (lc_locator st) k" "lc_buckets st = replicate 256 no_bucket"
    using new_ludo_returns by blast
  have lf: "lf_ok (1, 0)" by (simp add: lf_ok_def)
  have inv: "lc_inv st" "lc_toMap st = Map.empty" using ControlPlaneLudo_ok [OF lf st(1)] by simp_all
  have "has_room 7 st" by (rule new_table_room [OF inv(1) st(6)]) (use st in simp_all)
  then show ?thesis using st(1) inv by blast
qed

theorem ludo_insert_correct_witness:
  "\<exists>st r st'. ControlPlaneLudo (1, 0) [5] 1024 [] [] = Inr st \<and> lc_insert 7 3 False st = Inr (r, st') \<and> lr_status r = 0 \<and>
     lc_lookUp 7 st' = Inr (Some 3) \<and> lc_lookUp 8 st' = Inr None"
proof -
  obtain st where st: "ControlPlaneLudo (1, 0) [5] 1024 [] [] = Inr st" "lc_inv st" "lc_toMap st = Map.empty" "has_room 7 st" using new_ludo_state by blast
  note c = ludo_insert_correct [OF st(2), of 7 3]
  obtain r st' where i: "lc_insert 7 3 False st = Inr (r, st')" "lr_status r = 0" using c st(4) by blast
  have "lc_lookUp k' st' = Inr (if k' = 7 then Some 3 else None)" for k' using c i(1) st(3) by auto
  then show ?thesis using st(1) i by auto
qed



text \<open>
  (C7) A data plane made from a control plane: it is well formed, no writer has it open, and the lookup sends every stored
  key to a row and a slot whose word is the one made from its value; every other word of the rows is zero or belongs to
  another stored key.
\<close>
theorem ludo_export_correct:
  assumes "lc_inv cp"
  shows "\<exists>d rows. DataPlaneLudo_pd cp = Inr (d, rows) \<and> DataPlaneLudo cp = Inr d \<and> ld_wf d \<and> ld_quiet d \<and> lb_wf rows \<and>
    length (bucketsArray rows) = length (ld_seeds d) \<and>
    (\<forall>k v. lc_toMap cp k = Some v \<longrightarrow> (\<exists>row slot. lookup_slot d k = Inr (row, slot) \<and> unat row < length (bucketsArray rows) \<and> unat slot < 4 \<and>
       cell rows (unat row) (unat slot) = bulk_word v)) \<and>
    (\<forall>r<length (bucketsArray rows). \<forall>s<4. cell rows r s \<noteq> 0 \<longrightarrow>
       (\<exists>k v row slot. lc_toMap cp k = Some v \<and> lookup_slot d k = Inr (row, slot) \<and> unat row = r \<and> unat slot = s \<and> cell rows r s = bulk_word v))"
proof -
  have e: "DataPlaneLudo cp = Inr (exported_unit cp)" "DataPlaneLudo_pd cp = Inr (exported_unit cp, exported_rows cp)"
    using DataPlaneLudo_eq [of cp] assms by (simp_all add: lc_inv_def)
  note wf = exported_wf [OF assms]
  have "\<exists>row slot. lookup_slot (exported_unit cp) k = Inr (row, slot) \<and> unat row < length (bucketsArray (exported_rows cp)) \<and> unat slot < 4 \<and>
       cell (exported_rows cp) (unat row) (unat slot) = bulk_word v" if "lc_toMap cp k = Some v" for k v
    by (rule exported_lookup [OF assms that]) blast
  moreover have "\<exists>k v row slot. lc_toMap cp k = Some v \<and> lookup_slot (exported_unit cp) k = Inr (row, slot) \<and> unat row = r \<and> unat slot = s \<and> cell (exported_rows cp) r s = bulk_word v"
    if h: "r < length (bucketsArray (exported_rows cp))" "s < 4" "cell (exported_rows cp) r s \<noteq> 0" for r s
  proof -
    obtain k v where "lc_toMap cp k = Some v" "cell (exported_rows cp) r s = bulk_word v" "s = unat (slot_of (ld_seeds (exported_unit cp) ! r) k)"
      "unat (bucket_of (exported_unit cp) k) = r" by (rule exported_word [OF assms h])
    then show ?thesis using lookup_slot_eq [OF wf(1,2), of k] by metis
  qed
  ultimately show ?thesis using e wf by blast
qed

theorem ludo_export_correct_witness:
  "\<exists>st r cp d rows row slot. ControlPlaneLudo (1, 0) [5] 1024 [] [] = Inr st \<and> lc_insert 7 3 False st = Inr (r, cp) \<and> DataPlaneLudo_pd cp = Inr (d, rows) \<and>
     lookup_slot d 7 = Inr (row, slot) \<and> toAddr (cell rows (unat row) (unat slot)) = 3"
proof -
  obtain st where st: "ControlPlaneLudo (1, 0) [5] 1024 [] [] = Inr st" "lc_inv st" "lc_toMap st = Map.empty" "has_room 7 st" using new_ludo_state by blast
  obtain r cp where i: "lc_insert 7 3 False st = Inr (r, cp)" using lc_insert_room [OF st(2,4), of 3] st(3) by auto
  have cp: "lc_inv cp" "lc_toMap cp 7 = Some 3" using lc_insert_ok [OF st(2) i] by simp_all
  obtain d rows row slot where d: "DataPlaneLudo_pd cp = Inr (d, rows)" "lookup_slot d 7 = Inr (row, slot)" "cell rows (unat row) (unat slot) = bulk_word 3"
    using ludo_export_correct [OF cp(1)] cp(2) by blast
  have "toAddr (bulk_word 3) = 3" by (rule bulk_word_fields(1)) simp
  then show ?thesis using st(1) i d by metis
qed

end
