(* ===== verification/Outback_Setup.thy ===== *)
theory Outback_Setup
  imports Ludo_Control Outback_Client_Numa
begin

text \<open>
  How the programs of \<open>benchs/outback\<close> start: \<open>setup_ludo_table\<close> of the RDMA server, of the two clients and of the NUMA server. Each of
  them inserts the loaded keys into a Ludo control plane of its own and makes its lookup unit from it; the servers also
  make the rows of slot words and store one record per key.

  The lookup units of a server and of its clients are not sent to each other. They agree because the programs run the same
  insertions with the same values of \<open>rand()\<close>, which no program seeds (\<open>rnd\<close> below).
\<close>

section \<open>Definitions\<close>

definition load_table :: "nat \<times> nat \<Rightarrow> u64 list \<Rightarrow> u64 list \<Rightarrow> ludo_cp res" where
  "load_table lf rnd keys =
    rbind (ControlPlaneLudo lf rnd 1024 [] []) (rfold (\<lambda>i cp.
      rbind (lc_insert (keys ! i) (of_nat i) False cp) (\<lambda>(r, cp1). Inr cp1)) [0..<length keys])"

text \<open>The set-up of both clients: the lookup unit.\<close>

definition client_setup :: "nat \<times> nat \<Rightarrow> u64 list \<Rightarrow> u64 list \<Rightarrow> ludo_dp res" where
  "client_setup lf rnd keys = rbind (load_table lf rnd keys) DataPlaneLudo"

text \<open>The set-up of the RDMA server; \<open>junk\<close> is what the record array holds before.\<close>

definition server_setup :: "(nat \<Rightarrow> packed_struct) \<Rightarrow> nat \<times> nat \<Rightarrow> u64 list \<Rightarrow> u64 list \<Rightarrow> server res" where
  "server_setup junk lf rnd keys =
    rbind (ControlPlaneLudo lf rnd 1024 [] []) (\<lambda>cp0.
    rbind (rfold (\<lambda>i (pd, cp).
        rbind (bulk_load_data pd (keys ! i) 8 (of_nat i)) (\<lambda>(addr, pd1).
        rbind (lc_insert (keys ! i) (ucast addr) False cp) (\<lambda>(r, cp1). Inr (pd1, cp1))))
      [0..<length keys] (PackedData_new junk (2 * of_nat (length keys)), cp0)) (\<lambda>(pd, cp).
    rbind (DataPlaneLudo cp) (\<lambda>unit.
    rbind (DataPlaneLudo_pd cp) (\<lambda>(_, rows).
    Inr \<lparr>sv_lookup = unit, sv_buckets = rows, sv_data = pd, sv_cache = Cache_new 2048 10, sv_mutexes = unat (getBucketsNum unit)\<rparr>))))"

text \<open>The set-up of the NUMA server: the control plane, then the part modelled as \<open>setup_ludo_table\<close>.\<close>

definition numa_setup ::
  "env \<Rightarrow> env \<Rightarrow> int \<Rightarrow> nat \<Rightarrow> u64 \<Rightarrow> u64 \<Rightarrow> nat \<times> nat \<Rightarrow> u64 list \<Rightarrow> u64 list \<Rightarrow> shm \<Rightarrow> numa_sys option res" where
  "numa_setup e1 e2 node mem_threads s_slow s_stop lf rnd keys s =
    rbind (load_table lf rnd keys) (\<lambda>cp.
    rbind (DataPlaneLudo cp) (\<lambda>unit.
    rbind (DataPlaneLudo_pd cp) (\<lambda>(_, rows).
    setup_ludo_table e1 e2 node mem_threads s_slow s_stop unit (bucketsArray rows) keys s)))"

section \<open>The loaded table\<close>

text \<open>After \<open>n\<close> insertions: a stored value is the number of a key of the list, and every key has its last number.\<close>

definition loaded_table :: "u64 list \<Rightarrow> nat \<Rightarrow> ludo_cp \<Rightarrow> bool" where
  "loaded_table keys n cp \<longleftrightarrow> lc_inv cp \<and> (\<forall>k v. lc_toMap cp k = Some v \<longrightarrow> unat v < n \<and> keys ! unat v = k) \<and>
     (\<forall>i<n. \<exists>v. lc_toMap cp (keys ! i) = Some v \<and> i \<le> unat v)"

lemma loaded_table_start:
  assumes "lf_ok lf" "ControlPlaneLudo lf rnd 1024 [] [] = Inr cp"
  shows "loaded_table keys 0 cp"
  using ControlPlaneLudo_ok [OF assms] by (simp add: loaded_table_def)

lemma loaded_table_insert:
  assumes "loaded_table keys n cp" "n < 2 ^ 64" "lc_insert (keys ! n) (of_nat n) False cp = Inr (r, cp')"
  shows "loaded_table keys (Suc n) cp'"
proof -
  have t: "lc_inv cp" "\<And>k v. lc_toMap cp k = Some v \<Longrightarrow> unat v < n \<and> keys ! unat v = k" "\<And>i. i < n \<Longrightarrow> \<exists>v. lc_toMap cp (keys ! i) = Some v \<and> i \<le> unat v"
    using assms(1) by (auto simp: loaded_table_def)
  have i: "lc_inv cp'" "lc_toMap cp' = (lc_toMap cp)(keys ! n \<mapsto> of_nat n)" using lc_insert_ok [OF t(1) assms(3)] by simp_all
  have n: "unat (of_nat n :: u64) = n" using assms(2) by (simp add: unsigned_of_nat take_bit_nat_eq_self)
  have "unat v < Suc n \<and> keys ! unat v = k" if "lc_toMap cp' k = Some v" for k v
    using that t(2) [of k v] n unfolding i(2) by (auto split: if_splits)
  moreover have "\<exists>v. lc_toMap cp' (keys ! j) = Some v \<and> j \<le> unat v" if "j < Suc n" for j
    using that t(3) [of j] n unfolding i(2) by (cases "keys ! j = keys ! n") (auto simp: less_Suc_eq)
  ultimately show ?thesis using i(1) unfolding loaded_table_def by blast
qed

lemma loaded_last:
  assumes "loaded_table keys (length keys) cp" "i < length keys" "\<And>j. i < j \<Longrightarrow> j < length keys \<Longrightarrow> keys ! j \<noteq> keys ! i"
  shows "\<exists>v. lc_toMap cp (keys ! i) = Some v \<and> unat v = i"
proof -
  obtain v where v: "lc_toMap cp (keys ! i) = Some v" "i \<le> unat v" using assms(1,2) unfolding loaded_table_def by blast
  then have "unat v < length keys" "keys ! unat v = keys ! i" using assms(1) unfolding loaded_table_def by blast+
  then have "unat v = i" using v(2) assms(3) [of "unat v"] by (metis le_neq_implies_less)
  then show ?thesis using v(1) by blast
qed

lemma load_table_ok:
  assumes "lf_ok lf" "length keys < 2 ^ 64" "load_table lf rnd keys = Inr cp"
  shows "loaded_table keys (length keys) cp"
proof -
  obtain cp0 where c: "ControlPlaneLudo lf rnd 1024 [] [] = Inr cp0"
    "rfold (\<lambda>i cp. rbind (lc_insert (keys ! i) (of_nat i) False cp) (\<lambda>(r, cp1). Inr cp1)) [0..<length keys] cp0 = Inr cp"
    using assms(3) by (auto simp: load_table_def elim!: rbindE)
  show ?thesis
  proof (rule rfold_upt_inv [OF c(2), where P = "loaded_table keys"])
    fix i s t assume i: "i < length keys" "loaded_table keys i s" "rbind (lc_insert (keys ! i) (of_nat i) False s) (\<lambda>(r, cp1). Inr cp1) = Inr t"
    obtain r where "lc_insert (keys ! i) (of_nat i) False s = Inr (r, t)" using i(3) by (auto elim!: rbindE)
    then show "loaded_table keys (Suc i) t" using loaded_table_insert [OF i(2)] i(1) assms(2) by simp
  qed (rule loaded_table_start [OF assms(1) c(1)])
qed

section \<open>The RDMA server\<close>

definition loaded_records :: "u64 list \<Rightarrow> nat \<Rightarrow> packed_data \<Rightarrow> bool" where
  "loaded_records keys n pd \<longleftrightarrow> pd_wf pd \<and> unat (pd_num pd) = n \<and> unat (numElements pd) = 2 * length keys \<and>
     (\<forall>i<n. rawArray pd ! i = \<lparr>ps_key = keys ! i, ps_data_length = 8, ps_data = of_nat i\<rparr>)"

lemma loaded_records_step:
  assumes "loaded_records keys n pd" "2 * length keys \<le> 2 ^ 32" "bulk_load_data pd (keys ! n) 8 (of_nat n) = Inr (addr, pd')"
  shows "loaded_records keys (Suc n) pd'" "(ucast addr :: u64) = of_nat n"
proof -
  have pd: "pd_wf pd" "unat (pd_num pd) = n" "unat (numElements pd) = 2 * length keys" using assms(1) by (simp_all add: loaded_records_def)
  note b = bulk_load_data_Inr [OF pd(1) assms(3)]
  have l: "n < length (rawArray pd)" using b(1) pd by (simp add: pd_wf_def)
  then show "loaded_records keys (Suc n) pd'" using assms(1) b pd unfolding loaded_records_def by (auto simp: nth_list_update less_Suc_eq)
  have n: "n < 2 ^ 32" using b(1) pd(2,3) assms(2) by simp
  have "unat (ucast addr :: u64) = n" unfolding b(2) using n pd(2) by (simp add: unsigned_ucast_eq unsigned_take_bit_eq take_bit_nat_eq_self)
  then show "(ucast addr :: u64) = of_nat n" using n by (simp add: word_unat_eq_iff unsigned_of_nat take_bit_nat_eq_self)
qed

lemma new_records:
  assumes "2 * length keys \<le> 2 ^ 32"
  shows "loaded_records keys 0 (PackedData_new junk (2 * of_nat (length keys)))"
proof -
  have "(2 * of_nat (length keys) :: u64) = of_nat (2 * length keys)" by simp
  then have "unat (2 * of_nat (length keys) :: u64) = 2 * length keys" using assms by (simp only: unsigned_of_nat) (simp add: take_bit_nat_eq_self)
  then show ?thesis using PackedData_new_wf [of junk "2 * of_nat (length keys)"] by (simp add: loaded_records_def PackedData_new_def)
qed

lemma server_setup_parts:
  assumes n: "2 * length keys \<le> 2 ^ 32" and lf: "lf_ok lf" and set: "server_setup junk lf rnd keys = Inr sv"
  obtains cp where "load_table lf rnd keys = Inr cp" "loaded_table keys (length keys) cp" "loaded_records keys (length keys) (sv_data sv)"
    "sv_lookup sv = exported_unit cp" "sv_buckets sv = exported_rows cp" "sv_mutexes sv = length (bucketsArray (sv_buckets sv))" "cache_wf (sv_cache sv)"
proof -
  let ?pd0 = "PackedData_new junk (2 * of_nat (length keys))"
  let ?load = "\<lambda>i cp. rbind (lc_insert (keys ! i) (of_nat i) False cp) (\<lambda>(r, cp1). Inr cp1)"
  obtain cp0 pd cp unit rows where c: "ControlPlaneLudo lf rnd 1024 [] [] = Inr cp0"
    "rfold (\<lambda>i (pd, cp). rbind (bulk_load_data pd (keys ! i) 8 (of_nat i)) (\<lambda>(addr, pd1).
        rbind (lc_insert (keys ! i) (ucast addr) False cp) (\<lambda>(r, cp1). Inr (pd1, cp1)))) [0..<length keys] (?pd0, cp0) = Inr (pd, cp)"
    "DataPlaneLudo cp = Inr unit" "DataPlaneLudo_pd cp = Inr rows"
    "sv = \<lparr>sv_lookup = unit, sv_buckets = snd rows, sv_data = pd, sv_cache = Cache_new 2048 10, sv_mutexes = unat (getBucketsNum unit)\<rparr>"
    using set unfolding server_setup_def by (elim rbindE) (auto split: prod.splits elim!: rbindE)
  have start: "loaded_records keys 0 ?pd0" by (rule new_records [OF n])
  have "(\<lambda>(pd, cp). loaded_records keys (length keys) pd \<and> rfold ?load [0..<length keys] cp0 = Inr cp) (pd, cp)"
  proof (rule rfold_upt_inv [OF c(2), where P = "\<lambda>i (pd, cp). loaded_records keys i pd \<and> rfold ?load [0..<i] cp0 = Inr cp"])
    show "case (?pd0, cp0) of (pd, cp) \<Rightarrow> loaded_records keys 0 pd \<and> rfold ?load [0..<0] cp0 = Inr cp" using start by simp
    fix i s t assume "i < length keys" and P: "case s of (pd, cp) \<Rightarrow> loaded_records keys i pd \<and> rfold ?load [0..<i] cp0 = Inr cp"
      and st: "(\<lambda>(pd, cp). rbind (bulk_load_data pd (keys ! i) 8 (of_nat i)) (\<lambda>(addr, pd1).
        rbind (lc_insert (keys ! i) (ucast addr) False cp) (\<lambda>(r, cp1). Inr (pd1, cp1)))) s = Inr t"
    obtain pd1 cp1 pd2 cp2 where st': "s = (pd1, cp1)" "t = (pd2, cp2)" by (cases s, cases t)
    obtain addr r where b: "bulk_load_data pd1 (keys ! i) 8 (of_nat i) = Inr (addr, pd2)" "lc_insert (keys ! i) (ucast addr) False cp1 = Inr (r, cp2)"
      using st unfolding st' by (auto elim!: rbindE)
    have r: "loaded_records keys (Suc i) pd2" "(ucast addr :: u64) = of_nat i" using loaded_records_step [OF _ n b(1)] P st' by simp_all
    show "case t of (pd, cp) \<Rightarrow> loaded_records keys (Suc i) pd \<and> rfold ?load [0..<Suc i] cp0 = Inr cp"
      using P r(1) b(2) unfolding st' r(2) by (simp add: rfold_append)
  qed
  then have l: "loaded_records keys (length keys) pd" "load_table lf rnd keys = Inr cp" using c(1) by (simp_all add: load_table_def)
  have t: "loaded_table keys (length keys) cp" by (rule load_table_ok [OF lf _ l(2)]) (use n in simp)
  then have inv: "lc_inv cp" by (simp add: loaded_table_def)
  then have e: "unit = exported_unit cp" "rows = (exported_unit cp, exported_rows cp)" using DataPlaneLudo_eq [of cp] c(3,4) by (simp_all add: lc_inv_def)
  have "unat (getBucketsNum unit) = length (bucketsArray (exported_rows cp))"
  proof -
    have "length (lc_buckets cp) < 2 ^ 32" using inv unsigned_less [of "lc_num_buckets cp", where 'a = nat] by (simp add: lc_inv_def)
    then show ?thesis unfolding e(1) by (simp add: getBucketsNum_def exported_unit_def exported_rows_def unsigned_of_nat take_bit_nat_eq_self)
  qed
  then show thesis using that [OF l(2) t] l(1) c(5) e by (simp add: Cache_new_wf)
qed

text \<open>The rows of the exported table and the records fit together.\<close>

lemma loaded_word:
  assumes "loaded_table keys n cp" "n \<le> 2 ^ 32" "r < length (bucketsArray (exported_rows cp))" "s < 4" "used_slot (bucketsArray (exported_rows cp)) r s"
  obtains v where "unat (toAddr (cell (exported_rows cp) r s)) = unat v" "unat v < n" "lc_toMap cp (keys ! unat v) = Some v"
    "s = unat (slot_of (ld_seeds (exported_unit cp) ! r) (keys ! unat v))" "unat (bucket_of (exported_unit cp) (keys ! unat v)) = r"
proof -
  have inv: "lc_inv cp" using assms(1) by (simp add: loaded_table_def)
  have "cell (exported_rows cp) r s \<noteq> 0" using assms(5) by (auto simp: toLength_def)
  then obtain k v where w: "lc_toMap cp k = Some v" "cell (exported_rows cp) r s = bulk_word v"
    "s = unat (slot_of (ld_seeds (exported_unit cp) ! r) k)" "unat (bucket_of (exported_unit cp) k) = r"
    by (rule exported_word [OF inv assms(3,4)])
  have v: "unat v < n" "keys ! unat v = k" using assms(1) w(1) unfolding loaded_table_def by blast+
  have "toAddr (bulk_word v) = v" by (rule bulk_word_fields(1)) (use v(1) assms(2) in simp)
  then show thesis using that [of v] w v by simp
qed

lemma server_setup_inv:
  assumes n: "2 * length keys \<le> 2 ^ 32" and lf: "lf_ok lf" and set: "server_setup junk lf rnd keys = Inr sv"
  shows "srv_inv sv"
proof -
  obtain cp where cp: "loaded_table keys (length keys) cp" "loaded_records keys (length keys) (sv_data sv)"
    "sv_lookup sv = exported_unit cp" "sv_buckets sv = exported_rows cp" "sv_mutexes sv = length (bucketsArray (sv_buckets sv))" "cache_wf (sv_cache sv)"
    by (rule server_setup_parts [OF n lf set])
  let ?rows = "bucketsArray (exported_rows cp)" and ?seeds = "ld_seeds (exported_unit cp)" and ?arr = "rawArray (sv_data sv)"
  have inv: "lc_inv cp" using cp(1) by (simp add: loaded_table_def)
  note wf = exported_wf [OF inv]
  have n': "length keys \<le> 2 ^ 32" using n by simp
  have kv: "ps_key (?arr ! i) = keys ! i" if "i < length keys" for i using cp(2) that by (simp add: loaded_records_def)
  have "unat (toAddr (?rows ! r ! s)) < length keys \<and> unat (slot_of (?seeds ! r) (ps_key (rec_at ?rows ?arr r s))) = s"
    if "r < length ?rows" "s < 4" "used_slot ?rows r s" for r s
    using loaded_word [OF cp(1) n' that] kv by (metis)
  moreover have "r = r' \<and> s = s'" if h: "r < length ?rows" "s < 4" "r' < length ?rows" "s' < 4" "used_slot ?rows r s" "used_slot ?rows r' s'" "toAddr (?rows ! r ! s) = toAddr (?rows ! r' ! s')" for r s r' s'
  proof -
    obtain v where v: "unat (toAddr (?rows ! r ! s)) = unat v" "unat v < length keys" "lc_toMap cp (keys ! unat v) = Some v" "s = unat (slot_of (?seeds ! r) (keys ! unat v))" "unat (bucket_of (exported_unit cp) (keys ! unat v)) = r"
      by (rule loaded_word [OF cp(1) n' h(1,2,5)])
    obtain v' where v': "unat (toAddr (?rows ! r' ! s')) = unat v'" "unat v' < length keys" "lc_toMap cp (keys ! unat v') = Some v'" "s' = unat (slot_of (?seeds ! r') (keys ! unat v'))" "unat (bucket_of (exported_unit cp) (keys ! unat v')) = r'"
      by (rule loaded_word [OF cp(1) n' h(3,4,6)])
    have e: "unat v = unat v'" using v(1) v'(1) h(7) by simp
    have r: "r = r'" using v(5) v'(5) unfolding e by (rule trans [OF sym])
    have "s = s'" using v(4) v'(4) unfolding e r by (rule trans [OF _ sym])
    then show ?thesis using r by simp
  qed
  moreover have "length ?seeds = length ?rows" "\<forall>r<length ?rows. length (?rows ! r) = 4" using wf(3,4) by (auto simp: lb_wf_def)
  ultimately have "slots_ok ?rows ?seeds ?arr (length keys)" unfolding slots_ok_def by blast
  then show ?thesis using cp(2-6) n unfolding srv_inv_def loaded_records_def by simp
qed

text \<open>
  (C4) The table a server serves after its set-up: the invariant of the request handlers holds, and for every loaded key
  the lookup unit that a client makes from the same keys with the same values of \<open>rand()\<close> is the server's, and
  sends the key to a location from which GET returns the value loaded for it (that of the last occurrence, should
  the key be loaded twice).
\<close>
theorem loaded_keys_served:
  assumes "lf_ok lf" and "2 * length keys \<le> 2 ^ 32" and "server_setup junk lf rnd keys = Inr sv" and "length (bucketsArray (sv_buckets sv)) \<le> 2 ^ 30"
  shows "srv_inv sv \<and> client_setup lf rnd keys = Inr (sv_lookup sv) \<and>
    (\<forall>i<length keys. (\<forall>j. i < j \<and> j < length keys \<longrightarrow> keys ! j \<noteq> keys ! i) \<longrightarrow>
       (\<exists>row slot. lookup_slot (sv_lookup sv) (keys ! i) = Inr (row, slot) \<and>
          do_get sv (loc_of row slot) = Inr \<lparr>rv_status = True, rv_val = of_nat i\<rparr>))"
proof -
  obtain cp where cp: "load_table lf rnd keys = Inr cp" "loaded_table keys (length keys) cp" "loaded_records keys (length keys) (sv_data sv)"
    "sv_lookup sv = exported_unit cp" "sv_buckets sv = exported_rows cp"
    by (rule server_setup_parts [OF assms(2,1,3)])
  have inv: "srv_inv sv" by (rule server_setup_inv [OF assms(2,1,3)])
  have lc: "lc_inv cp" using cp(2) by (simp add: loaded_table_def)
  have "client_setup lf rnd keys = Inr (sv_lookup sv)" using cp(1,4) DataPlaneLudo_eq(1) [of cp] lc by (simp add: client_setup_def lc_inv_def)
  moreover have "\<exists>row slot. lookup_slot (sv_lookup sv) (keys ! i) = Inr (row, slot) \<and> do_get sv (loc_of row slot) = Inr \<lparr>rv_status = True, rv_val = of_nat i\<rparr>"
    if i: "i < length keys" "\<forall>j. i < j \<and> j < length keys \<longrightarrow> keys ! j \<noteq> keys ! i" for i
  proof -
    obtain v where v: "lc_toMap cp (keys ! i) = Some v" "unat v = i" using loaded_last [OF cp(2) i(1)] i(2) by blast
    obtain row slot where r: "lookup_slot (exported_unit cp) (keys ! i) = Inr (row, slot)" "unat row < length (bucketsArray (exported_rows cp))" "unat slot < 4"
      "slot = slot_of (ld_seeds (exported_unit cp) ! unat row) (keys ! i)" "cell (exported_rows cp) (unat row) (unat slot) = bulk_word v"
      by (rule exported_lookup [OF lc v(1)])
    have w: "toAddr (bulk_word v) = v" "toLength (bulk_word v) = 0x4000" by (rule bulk_word_fields; use v(2) i(1) assms(2) in simp)+
    have "srv_map sv (unat row, keys ! i) = Some (of_nat i)"
      using r(2-5) w cp(3-5) v(2) i(1) by (simp add: srv_map_def kv_at_def Let_def loaded_records_def)
    then have "do_get sv (loc_of row slot) = Inr \<lparr>rv_status = True, rv_val = of_nat i\<rparr>"
      using do_get_map [OF inv] r(2,4) cp(4,5) assms(4) by simp
    then show ?thesis using r(1) unfolding cp(4) by blast
  qed
  ultimately show ?thesis using inv by blast
qed

text \<open>One key loaded: the first insertion finds room.\<close>

lemma load_one_key:
  "\<exists>cp. load_table (1, 0) (s # rnd) [k] = Inr cp \<and> length (lc_buckets cp) = 256"
proof -
  obtain cp0 where c: "ControlPlaneLudo (1, 0) (s # rnd) 1024 [] [] = Inr cp0" "length (lc_buckets cp0) = 256" "lc_nKeys cp0 = 0" "lc_capacity cp0 = 1024"
    "\<not> cp_full (lc_locator cp0)" "\<forall>k. \<not> cp_cyclic (lc_locator cp0) k" "lc_buckets cp0 = replicate 256 no_bucket"
    using new_ludo_returns by blast
  have lf: "lf_ok (1, 0)" by (simp add: lf_ok_def)
  have inv: "lc_inv cp0" "lc_toMap cp0 = Map.empty" using ControlPlaneLudo_ok [OF lf c(1)] by simp_all
  have "has_room k cp0" by (rule new_table_room [OF inv(1) c(7)]) (use c in simp_all)
  then obtain r cp where i: "lc_insert k 0 False cp0 = Inr (r, cp)" "inserted k 0 cp0 cp" using lc_insert_room [OF inv(1), of k 0] inv(2) by auto
  then have "length (lc_buckets cp) = 256" using c(2) by (simp add: inserted_def lc_frame_def)
  then show ?thesis using c(1) i(1) by (simp add: load_table_def)
qed

text \<open>The RDMA server loads what \<open>load_table\<close> loads.\<close>

lemma server_setup_returns:
  assumes "2 * length keys \<le> 2 ^ 32" "load_table lf rnd keys = Inr cp" "unat (lc_num_buckets cp) = length (lc_buckets cp)"
  shows "\<exists>sv. server_setup junk lf rnd keys = Inr sv \<and> length (bucketsArray (sv_buckets sv)) = length (lc_buckets cp)"
proof -
  let ?load = "\<lambda>i cp. rbind (lc_insert (keys ! i) (of_nat i) False cp) (\<lambda>(r, cp1). Inr cp1)"
  let ?both = "\<lambda>i (pd, cp). rbind (bulk_load_data pd (keys ! i) 8 (of_nat i)) (\<lambda>(addr, pd1).
        rbind (lc_insert (keys ! i) (ucast addr) False cp) (\<lambda>(r, cp1). Inr (pd1, cp1)))"
  obtain cp0 where c: "ControlPlaneLudo lf rnd 1024 [] [] = Inr cp0" "rfold ?load [0..<length keys] cp0 = Inr cp"
    using assms(2) by (auto simp: load_table_def elim!: rbindE)
  have "\<exists>pd. rfold ?both [0..<n] (PackedData_new junk (2 * of_nat (length keys)), cp0) = Inr (pd, cp') \<and> loaded_records keys n pd"
    if "n \<le> length keys" "rfold ?load [0..<n] cp0 = Inr cp'" for n cp'
    using that
  proof (induction n arbitrary: cp')
    case 0
    then show ?case using new_records [OF assms(1)] by simp
  next
    case (Suc n)
    obtain cp1 r where l: "rfold ?load [0..<n] cp0 = Inr cp1" "lc_insert (keys ! n) (of_nat n) False cp1 = Inr (r, cp')"
      using Suc.prems(2) by (auto simp: rfold_append elim!: rbindE)
    obtain pd where pd: "rfold ?both [0..<n] (PackedData_new junk (2 * of_nat (length keys)), cp0) = Inr (pd, cp1)" "loaded_records keys n pd"
      using Suc.IH [OF _ l(1)] Suc.prems(1) by auto
    have "pd_num pd < numElements pd" using pd(2) Suc.prems(1) by (simp add: loaded_records_def word_less_nat_alt)
    then obtain addr pd1 where b: "bulk_load_data pd (keys ! n) 8 (of_nat n) = Inr (addr, pd1)" using bulk_load_data_ok pd(2) by (auto simp: loaded_records_def)
    note st = loaded_records_step [OF pd(2) assms(1) b]
    show ?case using pd(1) b l(2) st by (simp add: rfold_append)
  qed
  then obtain pd where "rfold ?both [0..<length keys] (PackedData_new junk (2 * of_nat (length keys)), cp0) = Inr (pd, cp)" using c(2) by blast
  then show ?thesis using c(1) DataPlaneLudo_eq [OF assms(3)] by (simp add: server_setup_def exported_rows_def)
qed

definition zeroes :: "nat \<Rightarrow> packed_struct" where
  "zeroes i = zero_struct"

theorem loaded_keys_served_witness:
  "\<exists>sv row slot. server_setup zeroes (1, 0) [5] [7] = Inr sv \<and> srv_inv sv \<and> client_setup (1, 0) [5] [7] = Inr (sv_lookup sv) \<and>
     lookup_slot (sv_lookup sv) 7 = Inr (row, slot) \<and> do_get sv (loc_of row slot) = Inr \<lparr>rv_status = True, rv_val = 0\<rparr>"
proof -
  obtain cp where cp: "load_table (1, 0) [5] [7] = Inr cp" "length (lc_buckets cp) = 256" using load_one_key by blast
  have lf: "lf_ok (1, 0)" by (simp add: lf_ok_def)
  have inv: "lc_inv cp" using load_table_ok [OF lf _ cp(1)] by (simp add: loaded_table_def)
  obtain sv where sv: "server_setup zeroes (1, 0) [5] [7] = Inr sv" "length (bucketsArray (sv_buckets sv)) = 256" using server_setup_returns [OF _ cp(1)] cp(2) inv by (auto simp: lc_inv_def)
  from loaded_keys_served [OF lf _ sv(1)] sv show ?thesis by auto
qed

section \<open>The NUMA server and its clients\<close>

text \<open>The index and the records of the first region are those of the loaded table.\<close>



end
