(* ===== verification/Murmur.thy ===== *)
theory Murmur
  imports Prelude
begin

text \<open>
  The 64-bit Murmur hash of one eight-byte key, which the three systems used for comparison carry a copy of:
  \<open>MurmurHash64\<close> of \<open>race/race_table.hh\<close>, \<open>MurmurHash64A\<close> of \<open>drtmr/clusterhash.h\<close>, \<open>murmurhash\<close> of \<open>mica/trait.hpp\<close>.
  The loop over the eight-byte blocks runs once, and the switch on the rest of the length (\<open>8 & 7\<close>) has no case to run.

  Shown: for a fixed seed the hash is injective, so two keys collide only in what is cut out of it.
\<close>

definition murmur_m :: u64 where
  "murmur_m = 0xc6a4a7935bd1e995"

definition murmur_shift :: "u64 \<Rightarrow> u64" where
  "murmur_shift x = x XOR drop_bit 47 x"

definition murmur64 :: "u64 \<Rightarrow> u32 \<Rightarrow> u64" where
  "murmur64 key seed =
    (let h = ucast seed XOR (8 * murmur_m);
         k = murmur_shift (key * murmur_m) * murmur_m;
         h = (h XOR k) * murmur_m
     in murmur_shift (murmur_shift h * murmur_m))"

definition murmur_inv :: u64 where
  "murmur_inv = 0x5f7a0ea7e59b19bd"

lemma murmur_m_unit: "murmur_m * murmur_inv = 1"
proof -
  have "(0xc6a4a7935bd1e995 * 0x5f7a0ea7e59b19bd :: int) mod 2 ^ 64 = 1" by simp
  then have "take_bit 64 (0xc6a4a7935bd1e995 * 0x5f7a0ea7e59b19bd :: int) = 1" by (simp only: take_bit_eq_mod)
  then have "(word_of_int (0xc6a4a7935bd1e995 * 0x5f7a0ea7e59b19bd) :: u64) = word_of_int 1"
    by (simp only: word_of_int_eq_iff) simp
  then show ?thesis unfolding murmur_m_def murmur_inv_def by (simp only: of_int_mult of_int_numeral of_int_1)
qed

lemma times_murmur_m_inj: "x * murmur_m = y * murmur_m \<Longrightarrow> x = y"
proof -
  assume "x * murmur_m = y * murmur_m"
  then have "x * murmur_m * murmur_inv = y * murmur_m * murmur_inv" by (rule arg_cong)
  then show "x = y" unfolding mult.assoc murmur_m_unit mult_1_right .
qed

text \<open>Doubling the shift clears the word, so the step undoes itself.\<close>

lemma murmur_shift_twice [simp]: "murmur_shift (murmur_shift x) = x"
  by (rule bit_word_eqI) (auto simp: murmur_shift_def bit_xor_iff bit_drop_bit_eq)

lemma murmur_shift_inj: "murmur_shift x = murmur_shift y \<Longrightarrow> x = y"
  by (metis murmur_shift_twice)

lemma murmur64_inj:
  assumes "murmur64 k seed = murmur64 k' seed"
  shows "k = k'"
proof -
  let ?h = "ucast seed XOR (8 * murmur_m) :: u64" and ?k = "\<lambda>k. murmur_shift (k * murmur_m) * murmur_m"
  have "murmur_shift (murmur_shift ((?h XOR ?k k) * murmur_m) * murmur_m) = murmur_shift (murmur_shift ((?h XOR ?k k') * murmur_m) * murmur_m)"
    using assms unfolding murmur64_def Let_def .
  then have "?h XOR ?k k = ?h XOR ?k k'" by (rule times_murmur_m_inj [OF murmur_shift_inj [OF times_murmur_m_inj [OF murmur_shift_inj]]])
  then have "?h XOR (?h XOR ?k k) = ?h XOR (?h XOR ?k k')" by (rule arg_cong)
  then have "?k k = ?k k'" unfolding xor.assoc [symmetric] xor_self_eq xor.left_neutral .
  then show ?thesis by (rule times_murmur_m_inj [OF murmur_shift_inj [OF times_murmur_m_inj]])
qed

end
