(* ===== verification/Cluster_Hash.thy ===== *)
theory Cluster_Hash
  imports Interfaces Murmur
begin

text \<open>
  The cluster hash table of \<open>drtmr/clusterhash.h\<close>: header nodes of sixteen keys with the numbers of their data nodes,
  chained by \<open>next\<close> when a bucket overflows, and data nodes taken one after the other. The memory behind \<open>array\<close> is the
  two areas that the code divides it into: \<open>ch_headers\<close> (numbers below \<open>indirect_length\<close>) and \<open>ch_datas\<close> (numbers from
  \<open>indirect_length\<close> on); a pointer to a node is its number, and an access outside its area is out of bounds. A value is
  \<open>entrysize\<close> bytes, kept as eight-byte words.

  Shown: the chains end, are disjoint and hold only keys of their own bucket, as long as the memory was zero at the
  start; the areas do not overlap; an insertion never replaces: it makes a key visible that was not stored, and leaves
  the table as it was for a reader otherwise; an update changes the first word of a stored value and nothing else.
\<close>

section \<open>Definitions\<close>

record header_node =
  hn_next :: u64
  hn_keys :: "u64 list"
  hn_indexes :: "u64 list"

record data_node =
  dn_key :: u64
  dn_valid :: bool
  dn_val :: "u64 list"

record cluster_hash =
  ch_headers :: "header_node list"
  ch_datas :: "data_node list"
  ch_length :: u64
  Logical_length :: u64
  indirect_length :: u64
  total_length :: u64
  entrysize :: u64
  header_size :: u64
  data_size :: u64
  ch_size :: u64
  free_indirect :: u64
  free_data :: u64

definition CLUSTER_H :: nat where
  "CLUSTER_H = 16"

definition sizeof_HeaderNode :: u64 where
  "sizeof_HeaderNode = 264"

definition sizeof_DataNode :: u64 where
  "sizeof_DataNode = 16"

text \<open>The constructor; \<open>hmem\<close> and \<open>dmem\<close> are what the memory at \<open>arr\<close> holds.\<close>

definition RdmaClusterHash :: "(nat \<Rightarrow> header_node) \<Rightarrow> (nat \<Rightarrow> data_node) \<Rightarrow> u64 \<Rightarrow> u64 \<Rightarrow> cluster_hash" where
  "RdmaClusterHash hmem dmem len esize =
    (let es = push_bit 3 (drop_bit 3 (esize - 1) + 1);
         logical = len * 1 div 16;
         indirect = len * 1 div 2;
         dsize = sizeof_DataNode + es
     in \<lparr>ch_headers = map hmem [0..<unat indirect], ch_datas = map dmem [0..<unat len], ch_length = len,
         Logical_length = logical, indirect_length = indirect, total_length = len + indirect, entrysize = es,
         header_size = sizeof_HeaderNode, data_size = dsize,
         ch_size = indirect * sizeof_HeaderNode + len * dsize, free_indirect = logical, free_data = indirect\<rparr>)"

definition MurmurHash64A :: "u64 \<Rightarrow> u32 \<Rightarrow> u64" where
  "MurmurHash64A key seed = murmur64 key seed"

definition GetHash :: "cluster_hash \<Rightarrow> u64 \<Rightarrow> u64 res" where
  "GetHash ch key =
    (if Logical_length ch = 0 then Inl DivByZero else Inr (MurmurHash64A key 0xdeadbeef mod Logical_length ch))"

definition getDataNode_loc :: "cluster_hash \<Rightarrow> u64 \<Rightarrow> u64" where
  "getDataNode_loc ch i = indirect_length ch * header_size ch + (i - indirect_length ch) * data_size ch"

definition getHeaderNode_loc :: "cluster_hash \<Rightarrow> u64 \<Rightarrow> u64" where
  "getHeaderNode_loc ch i = i * header_size ch"

text \<open>The subscript of \<open>getDataNode(i)\<close> in the area of the data nodes.\<close>

definition getDataNode :: "cluster_hash \<Rightarrow> u64 \<Rightarrow> nat" where
  "getDataNode ch i = unat (i - indirect_length ch)"

text \<open>The loop to the end of a chain; the fuel is the number of header nodes.\<close>

fun last_node :: "nat \<Rightarrow> header_node list \<Rightarrow> u64 \<Rightarrow> u64 res" where
  "last_node 0 hs n = Inl Diverges"
| "last_node (Suc f) hs n =
    rbind (aget hs (unat n)) (\<lambda>node. if hn_next node \<noteq> 0 then last_node f hs (hn_next node) else Inr n)"

definition free_slot :: "header_node \<Rightarrow> nat option" where
  "free_slot node = find (\<lambda>i. hn_indexes node ! i = 0) [0..<CLUSTER_H]"

definition key_slot :: "u64 \<Rightarrow> header_node \<Rightarrow> nat option" where
  "key_slot key node = find (\<lambda>i. hn_keys node ! i = key \<and> hn_indexes node ! i \<noteq> 0) [0..<CLUSTER_H]"

text \<open>\<open>free_node->key = key\<close> and the copy of \<open>entrysize\<close> bytes.\<close>

definition write_entry :: "cluster_hash \<Rightarrow> u64 \<Rightarrow> u64 list \<Rightarrow> cluster_hash res" where
  "write_entry ch key val =
    (let n = unat (entrysize ch) div 8; d = getDataNode ch (free_data ch) in
     if length val < n then Inl OutOfBounds
     else rbind (aget (ch_datas ch) d) (\<lambda>dn.
       Inr (ch\<lparr>ch_datas := (ch_datas ch)[d := dn\<lparr>dn_key := key, dn_val := take n val\<rparr>]\<rparr>)))"

text \<open>\<open>node->keys[i] = key\<close>, \<open>node->indexes[i] = free_data\<close>, \<open>free_data++\<close>.\<close>

definition take_slot :: "cluster_hash \<Rightarrow> u64 \<Rightarrow> nat \<Rightarrow> u64 \<Rightarrow> cluster_hash res" where
  "take_slot ch n i key =
    rbind (aget (ch_headers ch) (unat n)) (\<lambda>node.
      Inr (ch\<lparr>ch_headers := (ch_headers ch)[unat n := node\<lparr>hn_keys := (hn_keys node)[i := key],
              hn_indexes := (hn_indexes node)[i := free_data ch]\<rparr>],
              free_data := free_data ch + 1\<rparr>))"

definition ch_Insert :: "cluster_hash \<Rightarrow> u64 \<Rightarrow> u64 list \<Rightarrow> cluster_hash res" where
  "ch_Insert ch key val =
    (if free_data ch = total_length ch then Inl AssertFailed
     else rbind (GetHash ch key) (\<lambda>hash.
       rbind (last_node (length (ch_headers ch)) (ch_headers ch) hash) (\<lambda>n.
       rbind (aget (ch_headers ch) (unat n)) (\<lambda>node.
       case free_slot node of
         Some i \<Rightarrow> rbind (write_entry ch key val) (\<lambda>ch1. take_slot ch1 n i key)
       | None \<Rightarrow>
           if free_indirect ch = indirect_length ch then Inl AssertFailed
           else rbind (write_entry
                  (ch\<lparr>ch_headers := (ch_headers ch)[unat n := node\<lparr>hn_next := free_indirect ch\<rparr>],
                      free_indirect := free_indirect ch + 1\<rparr>) key val) (\<lambda>ch1.
                take_slot ch1 (free_indirect ch) 0 key)))))"

text \<open>The search loop of \<open>Update\<close> and \<open>Get\<close>: the number of the data node.\<close>

fun find_index :: "nat \<Rightarrow> header_node list \<Rightarrow> u64 \<Rightarrow> u64 \<Rightarrow> u64 option res" where
  "find_index 0 hs key n = Inl Diverges"
| "find_index (Suc f) hs key n =
    rbind (aget hs (unat n)) (\<lambda>node.
      case key_slot key node of
        Some i \<Rightarrow> Inr (Some (hn_indexes node ! i))
      | None \<Rightarrow> if hn_next node \<noteq> 0 then find_index f hs key (hn_next node) else Inr None)"

definition ch_Update :: "cluster_hash \<Rightarrow> u64 \<Rightarrow> u64 list \<Rightarrow> cluster_hash res" where
  "ch_Update ch key val =
    rbind (GetHash ch key) (\<lambda>hash.
    rbind (find_index (length (ch_headers ch)) (ch_headers ch) key hash) (\<lambda>r.
    case r of
      None \<Rightarrow> Inr ch
    | Some i \<Rightarrow>
        rbind (aget val 0) (\<lambda>w.
        rbind (aget (ch_datas ch) (getDataNode ch i)) (\<lambda>dn.
        rbind (aset (dn_val dn) 0 w) (\<lambda>ws.
        Inr (ch\<lparr>ch_datas := (ch_datas ch)[getDataNode ch i := dn\<lparr>dn_val := ws\<rparr>]\<rparr>))))))"

text \<open>\<open>Get\<close> returns a pointer to the value: the number of its data node, or the null pointer.\<close>

definition ch_Get :: "cluster_hash \<Rightarrow> u64 \<Rightarrow> u64 option res" where
  "ch_Get ch key =
    rbind (GetHash ch key) (\<lambda>hash. find_index (length (ch_headers ch)) (ch_headers ch) key hash)"

definition deref_value :: "cluster_hash \<Rightarrow> u64 option \<Rightarrow> u64 res" where
  "deref_value ch p =
    (case p of None \<Rightarrow> Inl NullDeref
     | Some i \<Rightarrow> rbind (aget (ch_datas ch) (getDataNode ch i)) (\<lambda>dn. aget (dn_val dn) 0))"

text \<open>\<open>read\<close>: the number of header nodes visited.\<close>

fun count_nodes :: "nat \<Rightarrow> header_node list \<Rightarrow> u64 \<Rightarrow> u64 \<Rightarrow> nat \<Rightarrow> nat res" where
  "count_nodes 0 hs key n c = Inl Diverges"
| "count_nodes (Suc f) hs key n c =
    rbind (aget hs (unat n)) (\<lambda>node.
      case key_slot key node of
        Some i \<Rightarrow> Inr (Suc c)
      | None \<Rightarrow> if hn_next node \<noteq> 0 then count_nodes f hs key (hn_next node) (Suc c) else Inl AssertFailed)"

definition ch_read :: "cluster_hash \<Rightarrow> u64 \<Rightarrow> nat res" where
  "ch_read ch key =
    rbind (GetHash ch key) (\<lambda>hash. count_nodes (length (ch_headers ch)) (ch_headers ch) key hash 0)"

definition ch_Delete :: "cluster_hash \<Rightarrow> u64 \<Rightarrow> cluster_hash" where
  "ch_Delete ch key = ch"

section \<open>Chains\<close>

text \<open>\<open>ns\<close> is the chain of header nodes that starts at \<open>n\<close>.\<close>

fun links :: "header_node list \<Rightarrow> nat \<Rightarrow> nat list \<Rightarrow> bool" where
  "links hs n [] \<longleftrightarrow> False"
| "links hs n (a # as) \<longleftrightarrow> a = n \<and> n < length hs \<and>
     (if hn_next (hs ! n) = 0 then as = [] else links hs (unat (hn_next (hs ! n))) as)"

definition node_entries :: "header_node \<Rightarrow> (u64 \<times> u64) list" where
  "node_entries node = filter (\<lambda>(k, i). i \<noteq> 0) (zip (hn_keys node) (hn_indexes node))"

definition entries :: "header_node list \<Rightarrow> nat list \<Rightarrow> (u64 \<times> u64) list" where
  "entries hs ns = concat (map (\<lambda>i. node_entries (hs ! i)) ns)"

lemma links_unique: "links hs n as \<Longrightarrow> links hs n bs \<Longrightarrow> as = bs"
proof (induction as arbitrary: n bs)
  case (Cons a as)
  then show ?case by (cases bs) (auto split: if_splits)
qed simp

lemma links_in: "links hs n ns \<Longrightarrow> i \<in> set ns \<Longrightarrow> i < length hs"
  by (induction ns arbitrary: n) (auto split: if_splits)

lemma links_nonempty: "links hs n ns \<Longrightarrow> ns \<noteq> [] \<and> hd ns = n"
  by (cases ns) auto

lemma links_last: "links hs n ns \<Longrightarrow> hn_next (hs ! last ns) = 0"
  by (induction ns arbitrary: n) (auto split: if_splits)

lemma links_exists:
  assumes up: "\<And>i. i < b \<Longrightarrow> hn_next (hs ! i) \<noteq> 0 \<Longrightarrow> i < unat (hn_next (hs ! i)) \<and> unat (hn_next (hs ! i)) < b"
    and b: "b \<le> length hs"
  shows "n < b \<Longrightarrow> \<exists>ns. links hs n ns \<and> distinct ns \<and> (\<forall>i\<in>set ns. n \<le> i \<and> i < b) \<and> length ns \<le> b - n"
proof (induction "b - n" arbitrary: n rule: less_induct)
  case less
  show ?case
  proof (cases "hn_next (hs ! n) = 0")
    case True
    then show ?thesis using less.prems b by (intro exI [of _ "[n]"]) simp
  next
    case False
    let ?m = "unat (hn_next (hs ! n))"
    have m: "n < ?m" "?m < b" using up [OF less.prems False] by simp_all
    obtain ns where ns: "links hs ?m ns" "distinct ns" "\<forall>i\<in>set ns. ?m \<le> i \<and> i < b" "length ns \<le> b - ?m"
      using less.hyps [of ?m] m by (meson diff_less_mono2 less.prems)
    have "links hs n (n # ns)" "distinct (n # ns)" "\<forall>i\<in>set (n # ns). n \<le> i \<and> i < b" "length (n # ns) \<le> b - n"
      using ns m False less.prems b by auto
    then show ?thesis by blast
  qed
qed

lemma last_node_ok:
  "links hs (unat n) ns \<Longrightarrow> length ns \<le> f \<Longrightarrow> \<exists>m. last_node f hs n = Inr m \<and> unat m = last ns"
proof (induction f arbitrary: n ns)
  case (Suc f)
  obtain a as where ns: "ns = a # as" using Suc.prems(1) by (cases ns) auto
  show ?case
  proof (cases "hn_next (hs ! unat n) = 0")
    case True
    then show ?thesis using Suc.prems by (simp add: ns)
  next
    case False
    then have "links hs (unat (hn_next (hs ! unat n))) as" "length as \<le> f" using Suc.prems by (simp_all add: ns)
    from Suc.IH [OF this] links_nonempty [OF this(1)] show ?thesis using False Suc.prems(1) by (simp add: ns)
  qed
qed simp

text \<open>The loop over the sixteen slots finds what the list of used entries holds.\<close>

lemma find_slot_map_of:
  "length ks = length xs \<Longrightarrow>
   map_option (nth xs) (find (\<lambda>i. ks ! i = k \<and> xs ! i \<noteq> (0 :: u64)) [0..<length xs]) =
   map_of (filter (\<lambda>(k, i). i \<noteq> 0) (zip ks xs)) k"
proof (induction ks xs rule: list_induct2)
  case (Cons a ks x xs)
  have up: "[0..<length (x # xs)] = 0 # map Suc [0..<length xs]" by (simp add: upt_conv_Cons map_Suc_upt del: upt_Suc)
  have fm: "find P (map g ys) = map_option g (find (P \<circ> g) ys)" for P :: "nat \<Rightarrow> bool" and g :: "nat \<Rightarrow> nat" and ys
    by (induction ys) auto
  show ?case unfolding up using Cons by (auto simp: fm comp_def option.map_comp)
qed simp

definition node_shape :: "header_node \<Rightarrow> bool" where
  "node_shape node \<longleftrightarrow> length (hn_keys node) = CLUSTER_H \<and> length (hn_indexes node) = CLUSTER_H"

lemma key_slot_entries:
  assumes "node_shape node"
  shows "map_option (nth (hn_indexes node)) (key_slot key node) = map_of (node_entries node) key"
  using find_slot_map_of [of "hn_keys node" "hn_indexes node" key] assms
  by (simp add: key_slot_def node_entries_def node_shape_def)

lemma find_index_ok:
  assumes "links hs (unat n) ns" "length ns \<le> f" "\<And>i. i \<in> set ns \<Longrightarrow> node_shape (hs ! i)"
  shows "find_index f hs key n = Inr (map_of (entries hs ns) key)"
  using assms
proof (induction f arbitrary: n ns)
  case (Suc f)
  obtain a as where ns: "ns = a # as" using Suc.prems(1) by (cases ns) auto
  let ?nd = "hs ! unat n"
  have nd: "a = unat n" "unat n < length hs" using Suc.prems(1) by (simp_all add: ns)
  have e: "map_of (entries hs ns) key = (case map_of (node_entries ?nd) key of None \<Rightarrow> map_of (entries hs as) key | Some i \<Rightarrow> Some i)"
    by (simp add: ns nd entries_def map_add_def split: option.split)
  have k: "map_option (nth (hn_indexes ?nd)) (key_slot key ?nd) = map_of (node_entries ?nd) key"
    by (rule key_slot_entries) (use Suc.prems(3) ns nd in simp)
  have rest: "find_index f hs key (hn_next ?nd) = Inr (map_of (entries hs as) key)" if "hn_next ?nd \<noteq> 0"
    by (rule Suc.IH) (use that Suc.prems ns in auto)
  have none: "entries hs as = []" if "hn_next ?nd = 0" using that Suc.prems(1) by (simp add: ns entries_def)
  show ?case using k rest none nd unfolding e by (cases "key_slot key ?nd"; cases "map_of (node_entries ?nd) key") auto
qed simp

text \<open>Frame rules: a node outside the chain, a change that keeps the link, and a new last node.\<close>

lemma links_upd_out: "a \<notin> set ns \<Longrightarrow> links (hs[a := x]) n ns = links hs n ns"
proof (induction ns arbitrary: n)
  case (Cons b ns)
  then have "b = n \<Longrightarrow> hs[a := x] ! n = hs ! n" by simp
  then show ?case using Cons by (cases "b = n") simp_all
qed simp

lemma links_upd_same: "hn_next x = hn_next (hs ! a) \<Longrightarrow> links (hs[a := x]) n ns = links hs n ns"
proof (induction ns arbitrary: n)
  case (Cons b ns)
  have "hn_next (hs[a := x] ! n) = hn_next (hs ! n)" if "n < length hs" using Cons.prems that by (cases "a = n") simp_all
  then show ?case using Cons.IH [OF Cons.prems] by (cases "n < length hs") simp_all
qed simp

lemma links_snoc:
  assumes "links hs n ns" "distinct ns" "b \<notin> set ns" "b < length hs" "unat nx = b" "b \<noteq> 0" "hn_next (hs ! b) = 0"
    "hn_next x = nx"
  shows "links (hs[last ns := x]) n (ns @ [b])"
  using assms(1,2,3)
proof (induction ns arbitrary: n)
  case (Cons a as)
  have nx: "nx \<noteq> 0" using assms(5,6) by auto
  show ?case
  proof (cases "as = []")
    case True
    then have "a = n" "n < length hs" using Cons.prems(1) by (simp_all split: if_splits)
    then show ?thesis using True nx assms Cons.prems(3) by auto
  next
    case False
    then have n: "a = n" "n < length hs" "hn_next (hs ! n) \<noteq> 0" "links hs (unat (hn_next (hs ! n))) as"
      using Cons.prems(1) by (auto split: if_splits)
    have "last as \<noteq> n" using Cons.prems(2) False n(1) by (metis distinct.simps(2) last_in_set)
    moreover have "links (hs[last as := x]) (unat (hn_next (hs ! n))) (as @ [b])"
      using Cons.IH [OF n(4)] Cons.prems by simp
    ultimately show ?thesis using n False by simp
  qed
qed simp

lemma entries_upd_out: "a \<notin> set ns \<Longrightarrow> entries (hs[a := x]) ns = entries hs ns"
  unfolding entries_def by (rule arg_cong [of _ _ concat], rule map_cong [OF refl]) (metis nth_list_update_neq)

lemma entries_append: "entries hs (ns @ ms) = entries hs ns @ entries hs ms"
  by (simp add: entries_def)

lemma entries_upd_last:
  assumes "ns \<noteq> []" "distinct ns" "last ns < length hs" "node_entries x = node_entries (hs ! last ns) @ es"
  shows "entries (hs[last ns := x]) ns = entries hs ns @ es"
proof -
  obtain ms where ms: "ns = ms @ [last ns]" using assms(1) by (metis append_butlast_last_id)
  then have "last ns \<notin> set ms" using assms(2) by (metis distinct.simps(2) distinct_append distinct1_rotate rotate1.simps(2))
  then have "entries (hs[last ns := x]) (ms @ [last ns]) = entries hs (ms @ [last ns]) @ es"
    using assms(3,4) by (simp add: entries_append entries_upd_out) (simp add: entries_def)
  then show ?thesis using ms by simp
qed

text \<open>Filling the first free slot of a node whose used slots come first.\<close>

lemma free_slot_Some:
  assumes "free_slot node = Some i"
  shows "i < CLUSTER_H" "hn_indexes node ! i = 0" "\<And>j. j < i \<Longrightarrow> hn_indexes node ! j \<noteq> 0"
  using assms by (auto simp: free_slot_def find_Some_iff)

lemma node_entries_fill:
  assumes "node_shape node" "i < CLUSTER_H" "\<And>j. j < i \<Longrightarrow> hn_indexes node ! j \<noteq> 0"
    "\<And>j. i \<le> j \<Longrightarrow> j < CLUSTER_H \<Longrightarrow> hn_indexes node ! j = 0" "x \<noteq> 0"
  shows "node_entries (node\<lparr>hn_keys := (hn_keys node)[i := k], hn_indexes := (hn_indexes node)[i := x]\<rparr>) = node_entries node @ [(k, x)]"
proof -
  let ?z = "zip (hn_keys node) (hn_indexes node)" and ?P = "\<lambda>(k :: u64, i :: u64). i \<noteq> 0"
  have len: "length ?z = CLUSTER_H" using assms(1) by (simp add: node_shape_def)
  have z: "zip ((hn_keys node)[i := k]) ((hn_indexes node)[i := x]) = ?z[i := (k, x)]" by (simp add: zip_update)
  have drop: "filter ?P (drop i ?z) = []"
    using assms(1,4) len by (auto simp: filter_empty_conv in_set_conv_nth node_shape_def)
  have dropS: "filter ?P (drop (Suc i) ?z) = []"
    using assms(1,4) len by (auto simp: filter_empty_conv in_set_conv_nth node_shape_def)
  have "filter ?P (?z[i := (k, x)]) = filter ?P (take i ?z) @ [(k, x)]"
    using assms(2,5) len dropS by (simp add: upd_conv_take_nth_drop)
  moreover have "filter ?P ?z = filter ?P (take i ?z)"
    using drop filter_append [of ?P "take i ?z" "drop i ?z"] by (simp del: filter_append)
  ultimately show ?thesis by (simp add: node_entries_def z)
qed

section \<open>The invariant\<close>

abbreviation ch_hash :: "cluster_hash \<Rightarrow> u64 \<Rightarrow> nat" where
  "ch_hash ch key \<equiv> unat (MurmurHash64A key 0xdeadbeef mod Logical_length ch)"

text \<open>The bucket a header node belongs to: its own number, or the bucket of the key it was taken for.\<close>

definition ch_home :: "(u64 \<Rightarrow> nat) \<Rightarrow> nat \<Rightarrow> header_node list \<Rightarrow> nat \<Rightarrow> nat" where
  "ch_home hash ll hs i = (if i < ll then i else hash (hn_keys (hs ! i) ! 0))"

definition entry_ok :: "nat \<Rightarrow> nat \<Rightarrow> data_node list \<Rightarrow> u64 \<Rightarrow> u64 \<Rightarrow> bool" where
  "entry_ok il fd ds key idx \<longleftrightarrow> il \<le> unat idx \<and> unat idx < fd \<and> dn_key (ds ! (unat idx - il)) = key"

definition header_ok ::
  "(u64 \<Rightarrow> nat) \<Rightarrow> nat \<Rightarrow> nat \<Rightarrow> nat \<Rightarrow> nat \<Rightarrow> data_node list \<Rightarrow> header_node list \<Rightarrow> nat \<Rightarrow> bool" where
  "header_ok hash ll il fi fd ds hs i \<longleftrightarrow> node_shape (hs ! i) \<and>
     (hn_next (hs ! i) \<noteq> 0 \<longrightarrow> i < unat (hn_next (hs ! i)) \<and> ll \<le> unat (hn_next (hs ! i)) \<and> unat (hn_next (hs ! i)) < fi \<and>
        ch_home hash ll hs (unat (hn_next (hs ! i))) = ch_home hash ll hs i) \<and>
     (\<forall>s<CLUSTER_H. hn_indexes (hs ! i) ! s \<noteq> 0 \<longrightarrow>
        entry_ok il fd ds (hn_keys (hs ! i) ! s) (hn_indexes (hs ! i) ! s) \<and> hash (hn_keys (hs ! i) ! s) = ch_home hash ll hs i) \<and>
     (\<forall>t<CLUSTER_H. \<forall>s<t. hn_indexes (hs ! i) ! s = 0 \<longrightarrow> hn_indexes (hs ! i) ! t = 0) \<and>
     (ll \<le> i \<longrightarrow> hn_indexes (hs ! i) ! 0 \<noteq> 0)"

definition empty_node :: "header_node \<Rightarrow> bool" where
  "empty_node node \<longleftrightarrow> node_shape node \<and> hn_next node = 0 \<and> (\<forall>s<CLUSTER_H. hn_indexes node ! s = 0)"

definition ch_geometry :: "cluster_hash \<Rightarrow> bool" where
  "ch_geometry ch \<longleftrightarrow> 0 < unat (Logical_length ch) \<and> unat (Logical_length ch) \<le> unat (free_indirect ch) \<and>
     unat (free_indirect ch) \<le> unat (indirect_length ch) \<and> unat (indirect_length ch) \<le> unat (free_data ch) \<and>
     unat (free_data ch) \<le> unat (total_length ch) \<and>
     unat (total_length ch) = unat (indirect_length ch) + unat (ch_length ch) \<and>
     length (ch_headers ch) = unat (indirect_length ch) \<and> length (ch_datas ch) = unat (ch_length ch) \<and>
     (\<forall>dn\<in>set (ch_datas ch). length (dn_val dn) = unat (entrysize ch) div 8)"

abbreviation node_ok_in :: "cluster_hash \<Rightarrow> nat \<Rightarrow> bool" where
  "node_ok_in ch \<equiv> header_ok (ch_hash ch) (unat (Logical_length ch)) (unat (indirect_length ch)) (unat (free_indirect ch))
     (unat (free_data ch)) (ch_datas ch) (ch_headers ch)"

definition ch_inv :: "cluster_hash \<Rightarrow> bool" where
  "ch_inv ch \<longleftrightarrow> ch_geometry ch \<and> (\<forall>i<unat (free_indirect ch). node_ok_in ch i) \<and>
     (\<forall>i<unat (indirect_length ch). unat (free_indirect ch) \<le> i \<longrightarrow> empty_node (ch_headers ch ! i))"

text \<open>A table on zeroed memory.\<close>

lemma RdmaClusterHash_inv:
  assumes len: "16 \<le> unat len" "2 * unat len < 2 ^ 64"
    and zero: "\<And>i. empty_node (hmem i)" and words: "\<And>i. length (dn_val (dmem i)) = unat (push_bit 3 (drop_bit 3 (esize - 1) + 1 :: u64)) div 8"
  shows "ch_inv (RdmaClusterHash hmem dmem len esize)"
proof -
  let ?ch = "RdmaClusterHash hmem dmem len esize"
  have l: "unat (Logical_length ?ch) = unat len div 16" "unat (free_indirect ?ch) = unat len div 16"
    by (simp_all add: RdmaClusterHash_def Let_def unat_div)
  have i: "unat (indirect_length ?ch) = unat len div 2" "unat (free_data ?ch) = unat len div 2"
    by (simp_all add: RdmaClusterHash_def Let_def unat_div)
  have t: "unat (total_length ?ch) = unat len div 2 + unat len"
    using len(2) by (simp add: RdmaClusterHash_def Let_def unat_word_ariths unat_div)
  have c: "unat (ch_length ?ch) = unat len" "ch_headers ?ch = map hmem [0..<unat len div 2]" "ch_datas ?ch = map dmem [0..<unat len]"
    "entrysize ?ch = push_bit 3 (drop_bit 3 (esize - 1) + 1)"
    by (simp_all add: RdmaClusterHash_def Let_def unat_div)
  have d: "0 < unat len div 16" "unat len div 16 \<le> unat len div 2" using len(1) by simp_all
  have "ch_geometry ?ch" unfolding ch_geometry_def l i t c using d words by (simp add: c(4))
  moreover have "node_ok_in ?ch j" if "j < unat (free_indirect ?ch)" for j
    using that d zero [of j] unfolding header_ok_def l i c by (simp add: empty_node_def)
  ultimately show ?thesis unfolding ch_inv_def l i c using zero d by simp
qed

lemma ch_inv_node: "ch_inv ch \<Longrightarrow> i < unat (free_indirect ch) \<Longrightarrow> node_ok_in ch i"
  by (simp add: ch_inv_def)

lemma ch_inv_geometry:
  assumes "ch_inv ch"
  shows "0 < unat (Logical_length ch)" "unat (Logical_length ch) \<le> unat (free_indirect ch)"
    "unat (free_indirect ch) \<le> unat (indirect_length ch)" "unat (indirect_length ch) \<le> unat (free_data ch)"
    "unat (free_data ch) \<le> unat (total_length ch)" "unat (total_length ch) = unat (indirect_length ch) + unat (ch_length ch)"
    "length (ch_headers ch) = unat (indirect_length ch)" "length (ch_datas ch) = unat (ch_length ch)"
    "\<And>dn. dn \<in> set (ch_datas ch) \<Longrightarrow> length (dn_val dn) = unat (entrysize ch) div 8"
  using assms by (simp_all add: ch_inv_def ch_geometry_def)

lemma GetHash_ok:
  assumes "ch_inv ch"
  shows "\<exists>h. GetHash ch key = Inr h \<and> unat h = ch_hash ch key" "ch_hash ch key < unat (Logical_length ch)"
proof -
  have "Logical_length ch \<noteq> 0" using ch_inv_geometry(1) [OF assms] by auto
  then show "\<exists>h. GetHash ch key = Inr h \<and> unat h = ch_hash ch key" by (simp add: GetHash_def)
  show "ch_hash ch key < unat (Logical_length ch)" using ch_inv_geometry(1) [OF assms] by (simp add: unat_mod_distrib)
qed

text \<open>The chain of a bucket, and that all of it belongs to the bucket.\<close>

lemma bucket_chain:
  assumes "ch_inv ch" "h < unat (Logical_length ch)"
  obtains ns where "links (ch_headers ch) h ns" "distinct ns" "\<forall>i\<in>set ns. i < unat (free_indirect ch)"
    "length ns \<le> length (ch_headers ch)"
proof -
  note g = ch_inv_geometry [OF assms(1)]
  have "i < unat (hn_next (ch_headers ch ! i)) \<and> unat (hn_next (ch_headers ch ! i)) < unat (free_indirect ch)"
    if "i < unat (free_indirect ch)" "hn_next (ch_headers ch ! i) \<noteq> 0" for i
    using ch_inv_node [OF assms(1) that(1)] that(2) by (simp add: header_ok_def)
  from links_exists [OF this] have "\<exists>ns. links (ch_headers ch) h ns \<and> distinct ns \<and> (\<forall>i\<in>set ns. h \<le> i \<and> i < unat (free_indirect ch)) \<and>
      length ns \<le> unat (free_indirect ch) - h" using assms(2) g by simp
  then show thesis using that g by fastforce
qed

lemma links_home:
  assumes "ch_inv ch" "links (ch_headers ch) n ns" "n < unat (free_indirect ch)" "i \<in> set ns"
  shows "ch_home (ch_hash ch) (unat (Logical_length ch)) (ch_headers ch) i = ch_home (ch_hash ch) (unat (Logical_length ch)) (ch_headers ch) n"
  using assms(2,3,4)
proof (induction ns arbitrary: n)
  case (Cons a as)
  show ?case
  proof (cases "i = n")
    case False
    let ?m = "hn_next (ch_headers ch ! n)"
    have m: "?m \<noteq> 0" "links (ch_headers ch) (unat ?m) as" "i \<in> set as" using Cons.prems False by (auto split: if_splits)
    then show ?thesis using Cons.IH [OF m(2) _ m(3)] ch_inv_node [OF assms(1) Cons.prems(2)] by (simp add: header_ok_def)
  qed simp
qed simp

lemma Get_chain:
  assumes "ch_inv ch" "links (ch_headers ch) (ch_hash ch key) ns"
  shows "ch_Get ch key = Inr (map_of (entries (ch_headers ch) ns) key)"
proof -
  obtain h where h: "GetHash ch key = Inr h" "unat h = ch_hash ch key" using GetHash_ok [OF assms(1)] by blast
  obtain ms where ms: "links (ch_headers ch) (ch_hash ch key) ms" "distinct ms" "\<forall>i\<in>set ms. i < unat (free_indirect ch)" "length ms \<le> length (ch_headers ch)"
    by (rule bucket_chain [OF assms(1) GetHash_ok(2) [OF assms(1), of key]])
  have "node_shape (ch_headers ch ! i)" if "i \<in> set ms" for i using ch_inv_node [OF assms(1) bspec [OF ms(3) that]] by (simp add: header_ok_def)
  then have "find_index (length (ch_headers ch)) (ch_headers ch) key h = Inr (map_of (entries (ch_headers ch) ms) key)"
    using ms h by (intro find_index_ok) simp_all
  then show ?thesis using links_unique [OF assms(2) ms(1)] h by (simp add: ch_Get_def)
qed

text \<open>\<open>Get\<close> returns, and what it points to is the data node of the key.\<close>

lemma entries_ok:
  assumes "ch_inv ch" "\<forall>i\<in>set ns. i < unat (free_indirect ch)" "(k, x) \<in> set (entries (ch_headers ch) ns)"
  shows "entry_ok (unat (indirect_length ch)) (unat (free_data ch)) (ch_datas ch) k x"
proof -
  obtain i where i: "i \<in> set ns" "(k, x) \<in> set (node_entries (ch_headers ch ! i))" using assms(3) by (auto simp: entries_def)
  then have "x \<noteq> 0" "\<exists>s<CLUSTER_H. hn_keys (ch_headers ch ! i) ! s = k \<and> hn_indexes (ch_headers ch ! i) ! s = x"
    using ch_inv_node [OF assms(1) bspec [OF assms(2) i(1)]] by (auto simp: node_entries_def set_zip header_ok_def node_shape_def)
  then show ?thesis using ch_inv_node [OF assms(1) bspec [OF assms(2) i(1)]] by (auto simp: header_ok_def)
qed

lemma Get_ok:
  assumes "ch_inv ch"
  obtains r where "ch_Get ch key = Inr r" "\<And>x. r = Some x \<Longrightarrow> entry_ok (unat (indirect_length ch)) (unat (free_data ch)) (ch_datas ch) key x"
proof -
  obtain ns where ns: "links (ch_headers ch) (ch_hash ch key) ns" "distinct ns" "\<forall>i\<in>set ns. i < unat (free_indirect ch)"
    "length ns \<le> length (ch_headers ch)"
    by (rule bucket_chain [OF assms GetHash_ok(2) [OF assms, of key]])
  show thesis by (rule that [OF Get_chain [OF assms ns(1)]]) (use entries_ok [OF assms ns(3)] map_of_SomeD in fast)
qed

lemma getDataNode_eq: "unat (indirect_length ch) \<le> unat x \<Longrightarrow> getDataNode ch x = unat x - unat (indirect_length ch)"
  unfolding getDataNode_def by (rule unat_sub) (simp add: word_le_nat_alt)

text \<open>The table as a map.\<close>

definition ch_toMap :: "cluster_hash \<Rightarrow> u64 \<rightharpoonup> u64 list" where
  "ch_toMap ch key = (case ch_Get ch key of Inr (Some i) \<Rightarrow> Some (dn_val (ch_datas ch ! getDataNode ch i)) | _ \<Rightarrow> None)"

section \<open>Insertion\<close>

text \<open>A node that an operation does not touch stays as the invariant wants it.\<close>

lemma header_ok_mono:
  assumes "header_ok hash ll il fi fd ds hs i" "hs' ! i = hs ! i" "i < fi" "fi \<le> fi'" "fd \<le> fd'"
    and "\<And>j. j < fi \<Longrightarrow> ch_home hash ll hs' j = ch_home hash ll hs j"
    and "\<And>j. j < fd - il \<Longrightarrow> dn_key (ds' ! j) = dn_key (ds ! j)"
  shows "header_ok hash ll il fi' fd' ds' hs' i"
proof -
  note n = assms(1) [unfolded header_ok_def]
  have nx: "i < unat x \<and> ll \<le> unat x \<and> unat x < fi' \<and> ch_home hash ll hs' (unat x) = ch_home hash ll hs' i" if "hn_next (hs ! i) = x" "x \<noteq> 0" for x
    using n that assms(3,4,6) by auto
  have ent: "entry_ok il fd' ds' k x" if "entry_ok il fd ds k x" for k x
    using that assms(5,7) unfolding entry_ok_def by (auto simp: less_le_trans diff_less_mono)
  show ?thesis unfolding header_ok_def assms(2) assms(6) [OF assms(3)] using n nx ent assms(3,6) by simp
qed

text \<open>
  The two ways to place an entry, with the states they lead to: in the first free slot of the last node of the chain, or in
  a new node linked to it. The data node at \<open>free_data\<close> holds the pair.
\<close>

definition place_slot :: "cluster_hash \<Rightarrow> nat \<Rightarrow> nat \<Rightarrow> u64 \<Rightarrow> data_node list \<Rightarrow> cluster_hash" where
  "place_slot ch n i key ds = ch\<lparr>ch_headers := (ch_headers ch)[n := (ch_headers ch ! n)\<lparr>hn_keys := (hn_keys (ch_headers ch ! n))[i := key],
      hn_indexes := (hn_indexes (ch_headers ch ! n))[i := free_data ch]\<rparr>], ch_datas := ds, free_data := free_data ch + 1\<rparr>"

definition place_node :: "cluster_hash \<Rightarrow> nat \<Rightarrow> u64 \<Rightarrow> data_node list \<Rightarrow> cluster_hash" where
  "place_node ch n key ds =
    (let f = unat (free_indirect ch); node = ch_headers ch ! f in
     ch\<lparr>ch_headers := (ch_headers ch)[n := (ch_headers ch ! n)\<lparr>hn_next := free_indirect ch\<rparr>,
          f := node\<lparr>hn_keys := (hn_keys node)[0 := key], hn_indexes := (hn_indexes node)[0 := free_data ch]\<rparr>],
        ch_datas := ds, free_indirect := free_indirect ch + 1, free_data := free_data ch + 1\<rparr>)"

definition stored_at_free :: "cluster_hash \<Rightarrow> u64 \<Rightarrow> u64 list \<Rightarrow> data_node list \<Rightarrow> bool" where
  "stored_at_free ch key v ds \<longleftrightarrow> (\<exists>dn. dn_key dn = key \<and> dn_val dn = v \<and> length v = unat (entrysize ch) div 8 \<and>
     unat (free_data ch) < unat (total_length ch) \<and> ds = (ch_datas ch)[unat (free_data ch) - unat (indirect_length ch) := dn])"

lemma Insert_cases:
  assumes inv: "ch_inv ch" and ins: "ch_Insert ch key val = Inr ch'"
  obtains ns ds where "links (ch_headers ch) (ch_hash ch key) ns" "distinct ns" "\<forall>i\<in>set ns. i < unat (free_indirect ch)"
    "stored_at_free ch key (take (unat (entrysize ch) div 8) val) ds"
    "(\<exists>i. free_slot (ch_headers ch ! last ns) = Some i \<and> ch' = place_slot ch (last ns) i key ds) \<or>
     (free_slot (ch_headers ch ! last ns) = None \<and> unat (free_indirect ch) < unat (indirect_length ch) \<and> ch' = place_node ch (last ns) key ds)"
proof -
  note g = ch_inv_geometry [OF inv]
  let ?hs = "ch_headers ch" and ?w = "take (unat (entrysize ch) div 8) val" and ?d = "unat (free_data ch) - unat (indirect_length ch)"
  obtain h where h: "GetHash ch key = Inr h" "unat h = ch_hash ch key" using GetHash_ok [OF inv] by blast
  obtain ns where ns: "links ?hs (ch_hash ch key) ns" "distinct ns" "\<forall>i\<in>set ns. i < unat (free_indirect ch)" "length ns \<le> length ?hs"
    by (rule bucket_chain [OF inv GetHash_ok(2) [OF inv, of key]])
  obtain m where m: "last_node (length ?hs) ?hs h = Inr m" "unat m = last ns" using last_node_ok [of ?hs h ns] ns h by auto
  have l: "last ns < unat (free_indirect ch)" using ns(3) links_nonempty [OF ns(1)] by simp
  have full: "free_data ch \<noteq> total_length ch" using ins by (auto simp: ch_Insert_def)
  then have fd: "unat (free_data ch) < unat (total_length ch)" using g(5) by (metis le_neq_implies_less word_unat_eq_iff)
  then have d: "?d < length (ch_datas ch)" "getDataNode ch (free_data ch) = ?d" using g getDataNode_eq [OF g(4)] by simp_all
  let ?ds = "(ch_datas ch)[?d := (ch_datas ch ! ?d)\<lparr>dn_key := key, dn_val := ?w\<rparr>]"
  have lm: "unat m < length ?hs" using l m g by simp
  have w: "write_entry ch2 key val = (if length val < unat (entrysize ch) div 8 then Inl OutOfBounds else Inr (ch2\<lparr>ch_datas := ?ds\<rparr>))"
    if "ch_datas ch2 = ch_datas ch" "free_data ch2 = free_data ch" "entrysize ch2 = entrysize ch" "indirect_length ch2 = indirect_length ch" for ch2
    using that d by (simp add: write_entry_def getDataNode_def Let_def)
  have st: "stored_at_free ch key ?w ?ds" if "\<not> length val < unat (entrysize ch) div 8"
    unfolding stored_at_free_def using that fd by (intro exI [of _ "(ch_datas ch ! ?d)\<lparr>dn_key := key, dn_val := ?w\<rparr>"]) simp
  show thesis
  proof (cases "free_slot (?hs ! last ns)")
    case (Some i)
    then have "\<not> length val < unat (entrysize ch) div 8" "ch' = place_slot ch (last ns) i key ?ds"
      using ins full h m lm w [of ch] by (auto simp: ch_Insert_def take_slot_def place_slot_def elim!: rbindE split: if_splits)
    then show thesis using that [OF ns(1-3) st] Some by blast
  next
    case None
    have fi: "free_indirect ch \<noteq> indirect_length ch" using ins full h m lm None by (auto simp: ch_Insert_def)
    then have lt: "unat (free_indirect ch) < unat (indirect_length ch)" using g(3) by (metis le_neq_implies_less word_unat_eq_iff)
    let ?ch2 = "ch\<lparr>ch_headers := ?hs[last ns := (?hs ! last ns)\<lparr>hn_next := free_indirect ch\<rparr>], free_indirect := free_indirect ch + 1\<rparr>"
    have "\<not> length val < unat (entrysize ch) div 8" "ch' = place_node ch (last ns) key ?ds"
      using ins full h m lm fi w [of ?ch2] None lt l g(7) by (auto simp: ch_Insert_def take_slot_def place_node_def Let_def elim!: rbindE split: if_splits)
    then show thesis using that [OF ns(1-3) st] lt None by blast
  qed
qed

text \<open>What the two cases share: the bucket and the data area.\<close>

definition get_adds :: "cluster_hash \<Rightarrow> u64 \<Rightarrow> cluster_hash \<Rightarrow> bool" where
  "get_adds ch key ch' \<longleftrightarrow> (\<forall>k. ch_Get ch' k = (if k = key \<and> ch_Get ch k = Inr None then Inr (Some (free_data ch)) else ch_Get ch k))"

lemma get_addsI:
  assumes inv: "ch_inv ch" "ch_inv ch'" "Logical_length ch' = Logical_length ch"
    and own: "links (ch_headers ch) (ch_hash ch key) ns"
      "\<exists>ms. links (ch_headers ch') (ch_hash ch key) ms \<and> entries (ch_headers ch') ms = entries (ch_headers ch) ns @ [(key, free_data ch)]"
    and other: "\<And>h ms. h < unat (Logical_length ch) \<Longrightarrow> h \<noteq> ch_hash ch key \<Longrightarrow> links (ch_headers ch) h ms \<Longrightarrow>
      links (ch_headers ch') h ms \<and> entries (ch_headers ch') ms = entries (ch_headers ch) ms"
  shows "get_adds ch key ch'"
  unfolding get_adds_def
proof
  fix k
  show "ch_Get ch' k = (if k = key \<and> ch_Get ch k = Inr None then Inr (Some (free_data ch)) else ch_Get ch k)"
  proof (cases "ch_hash ch k = ch_hash ch key")
    case True
    obtain ms where ms: "links (ch_headers ch') (ch_hash ch key) ms" "entries (ch_headers ch') ms = entries (ch_headers ch) ns @ [(key, free_data ch)]"
      using own(2) by blast
    have "ch_Get ch' k = Inr (map_of (entries (ch_headers ch') ms) k)" by (rule Get_chain [OF inv(2)]) (use ms(1) True inv(3) in simp)
    moreover have "ch_Get ch k = Inr (map_of (entries (ch_headers ch) ns) k)" by (rule Get_chain [OF inv(1)]) (use own(1) True in simp)
    ultimately show ?thesis unfolding ms(2) by (cases "map_of (entries (ch_headers ch) ns) k") (auto simp: map_add_def)
  next
    case False
    then have k: "k \<noteq> key" by auto
    obtain ms where ms: "links (ch_headers ch) (ch_hash ch k) ms" "distinct ms" "\<forall>i\<in>set ms. i < unat (free_indirect ch)" "length ms \<le> length (ch_headers ch)"
      by (rule bucket_chain [OF inv(1) GetHash_ok(2) [OF inv(1), of k]])
    note o = other [OF GetHash_ok(2) [OF inv(1), of k] False ms(1)]
    have "ch_Get ch' k = Inr (map_of (entries (ch_headers ch') ms) k)" by (rule Get_chain [OF inv(2)]) (use o inv(3) in simp)
    then show ?thesis using Get_chain [OF inv(1) ms(1)] o k by simp
  qed
qed

lemma chain_bucket:
  assumes "ch_inv ch" "h < unat (Logical_length ch)" "links (ch_headers ch) h ns" "i \<in> set ns"
  shows "ch_home (ch_hash ch) (unat (Logical_length ch)) (ch_headers ch) i = h" "i < unat (free_indirect ch)"
proof -
  have "h < unat (free_indirect ch)" using assms(2) ch_inv_geometry(2) [OF assms(1)] by simp
  from links_home [OF assms(1,3) this assms(4)] show "ch_home (ch_hash ch) (unat (Logical_length ch)) (ch_headers ch) i = h"
    using assms(2) by (simp add: ch_home_def)
  obtain ms where "links (ch_headers ch) h ms" "distinct ms" "\<forall>i\<in>set ms. i < unat (free_indirect ch)" "length ms \<le> length (ch_headers ch)"
    by (rule bucket_chain [OF assms(1,2)])
  then show "i < unat (free_indirect ch)" using links_unique [OF assms(3)] assms(4) by blast
qed

lemma stored_at_freeD:
  assumes "ch_inv ch" "stored_at_free ch key v ds"
  shows "length ds = length (ch_datas ch)" "\<And>j. j < unat (free_data ch) - unat (indirect_length ch) \<Longrightarrow> ds ! j = ch_datas ch ! j"
    "dn_key (ds ! (unat (free_data ch) - unat (indirect_length ch))) = key" "dn_val (ds ! (unat (free_data ch) - unat (indirect_length ch))) = v"
    "unat (free_data ch + 1) = Suc (unat (free_data ch))" "unat (free_data ch) < unat (total_length ch)"
    "\<And>dn. dn \<in> set ds \<Longrightarrow> length (dn_val dn) = unat (entrysize ch) div 8"
proof -
  note g = ch_inv_geometry [OF assms(1)]
  let ?d = "unat (free_data ch) - unat (indirect_length ch)"
  obtain dn where dn: "dn_key dn = key" "dn_val dn = v" "length v = unat (entrysize ch) div 8" "unat (free_data ch) < unat (total_length ch)"
    "ds = (ch_datas ch)[?d := dn]" using assms(2) unfolding stored_at_free_def by blast
  have d: "?d < length (ch_datas ch)" using dn(4) g by simp
  show "length ds = length (ch_datas ch)" "\<And>j. j < ?d \<Longrightarrow> ds ! j = ch_datas ch ! j" "dn_key (ds ! ?d) = key" "dn_val (ds ! ?d) = v"
    "unat (free_data ch) < unat (total_length ch)" using dn d by simp_all
  show "unat (free_data ch + 1) = Suc (unat (free_data ch))" by (rule unat_succ_lt [OF dn(4)])
  show "length (dn_val e) = unat (entrysize ch) div 8" if "e \<in> set ds" for e
    using that set_update_subset_insert [of "ch_datas ch" ?d dn] dn g(9) by auto
qed

lemma place_slot_ok:
  assumes inv: "ch_inv ch" and ns: "links (ch_headers ch) (ch_hash ch key) ns" "distinct ns"
    and st: "stored_at_free ch key v ds" and free: "free_slot (ch_headers ch ! last ns) = Some i"
  shows "ch_inv (place_slot ch (last ns) i key ds)" "get_adds ch key (place_slot ch (last ns) i key ds)"
proof -
  let ?ch = "place_slot ch (last ns) i key ds" and ?hs = "ch_headers ch" and ?n = "last ns"
  let ?ll = "unat (Logical_length ch)" and ?il = "unat (indirect_length ch)" and ?fi = "unat (free_indirect ch)" and ?fd = "unat (free_data ch)"
  let ?node = "(?hs ! ?n)\<lparr>hn_keys := (hn_keys (?hs ! ?n))[i := key], hn_indexes := (hn_indexes (?hs ! ?n))[i := free_data ch]\<rparr>"
  note g = ch_inv_geometry [OF inv] and s = stored_at_freeD [OF inv st] and f = free_slot_Some [OF free]
  note h = GetHash_ok(2) [OF inv, of key]
  have nn: "?n \<in> set ns" using links_nonempty [OF ns(1)] by simp
  note n = chain_bucket [OF inv h ns(1) nn]
  have nl: "?n < length ?hs" using n(2) g by simp
  have ch': "ch_headers ?ch = ?hs[?n := ?node]" "ch_datas ?ch = ds" "Logical_length ?ch = Logical_length ch" "indirect_length ?ch = indirect_length ch"
    "free_indirect ?ch = free_indirect ch" "free_data ?ch = free_data ch + 1" "total_length ?ch = total_length ch" "ch_length ?ch = ch_length ch"
    "entrysize ?ch = entrysize ch" by (simp_all add: place_slot_def)
  note ok = ch_inv_node [OF inv n(2), unfolded header_ok_def]
  have shape: "node_shape (?hs ! ?n)" using ok by blast
  have x: "free_data ch \<noteq> 0" using g(1-4) by auto
  have home: "ch_home (ch_hash ch) ?ll (?hs[?n := ?node]) j = ch_home (ch_hash ch) ?ll ?hs j" for j
  proof (cases "j = ?n \<and> ?ll \<le> j")
    case True
    then have "i \<noteq> 0" using ok f(2) by metis
    then show ?thesis using nl True by (simp add: ch_home_def)
  qed (auto simp: ch_home_def)
  have first: "hn_indexes (?hs ! ?n) ! t = 0" if "i \<le> t" "t < CLUSTER_H" for t using ok f(2) that by (metis le_neq_implies_less)
  have "header_ok (ch_hash ch) ?ll ?il ?fi (Suc ?fd) ds (?hs[?n := ?node]) j" if "j < ?fi" for j
  proof (cases "j = ?n")
    case False
    then show ?thesis using that s(2) by (intro header_ok_mono [OF ch_inv_node [OF inv that] _ that _ _ home]) simp_all
  next
    case True
    have idx: "hn_indexes ?node ! t = (if t = i then free_data ch else hn_indexes (?hs ! ?n) ! t)"
      "hn_keys ?node ! t = (if t = i then key else hn_keys (?hs ! ?n) ! t)" if "t < CLUSTER_H" for t
      using that shape by (auto simp: node_shape_def)
    have ent: "entry_ok ?il (Suc ?fd) ds k y" if "entry_ok ?il ?fd (ch_datas ch) k y" for k y
      using that s(2) unfolding entry_ok_def by (auto simp: diff_less_mono)
    have new: "entry_ok ?il (Suc ?fd) ds key (free_data ch)" using s(3) g(4) by (simp add: entry_ok_def)
    show ?thesis unfolding header_ok_def True home nth_list_update_eq [OF nl] n(1)
    proof (intro conjI allI impI)
      show "node_shape ?node" using shape by (simp add: node_shape_def)
      show "hn_indexes ?node ! t = 0" if "t < CLUSTER_H" "u < t" "hn_indexes ?node ! u = 0" for t u
      proof (cases "u < i")
        case True
        then show ?thesis using that f(3) [OF True] idx [of u] by simp
      next
        case False
        then show ?thesis using that first [of t] idx [of t] idx [of u] x by (cases "u = i") simp_all
      qed
      show "hn_indexes ?node ! 0 \<noteq> 0" if "?ll \<le> ?n" using that ok idx [of 0] f(1) x by auto
    qed (use ok n ent new idx in \<open>auto split: if_splits\<close>)
  qed
  moreover have "ch_geometry ?ch" using g s unfolding ch_geometry_def ch' by simp
  moreover have "empty_node (?hs[?n := ?node] ! j)" if "j < ?il" "?fi \<le> j" for j
    using inv that n(2) unfolding ch_inv_def by (auto simp: nth_list_update)
  ultimately show inv': "ch_inv ?ch" unfolding ch_inv_def ch' s(5) by simp
  have e: "node_entries ?node = node_entries (?hs ! ?n) @ [(key, free_data ch)]" using f(1,3) first x by (intro node_entries_fill [OF shape])
  show "get_adds ch key ?ch"
  proof (rule get_addsI [OF inv inv' ch'(3) ns(1)])
    have "links (ch_headers ?ch) (ch_hash ch key) ns" unfolding ch' by (subst links_upd_same) (simp_all add: ns)
    moreover have "entries (ch_headers ?ch) ns = entries ?hs ns @ [(key, free_data ch)]"
      unfolding ch' by (rule entries_upd_last [OF _ ns(2) nl e]) (use nn in auto)
    ultimately show "\<exists>ms. links (ch_headers ?ch) (ch_hash ch key) ms \<and> entries (ch_headers ?ch) ms = entries ?hs ns @ [(key, free_data ch)]" by blast
    fix h' ms assume o: "h' < ?ll" "h' \<noteq> ch_hash ch key" "links ?hs h' ms"
    then have "?n \<notin> set ms" using chain_bucket(1) [OF inv o(1,3), of ?n] n(1) by auto
    then show "links (ch_headers ?ch) h' ms \<and> entries (ch_headers ?ch) ms = entries ?hs ms" unfolding ch' using o(3) by (simp add: links_upd_out entries_upd_out)
  qed
qed

lemma place_node_ok:
  assumes inv: "ch_inv ch" and ns: "links (ch_headers ch) (ch_hash ch key) ns" "distinct ns"
    and st: "stored_at_free ch key v ds" and room: "unat (free_indirect ch) < unat (indirect_length ch)"
  shows "ch_inv (place_node ch (last ns) key ds)" "get_adds ch key (place_node ch (last ns) key ds)"
proof -
  let ?ch = "place_node ch (last ns) key ds" and ?hs = "ch_headers ch" and ?n = "last ns"
  let ?ll = "unat (Logical_length ch)" and ?il = "unat (indirect_length ch)" and ?fi = "unat (free_indirect ch)" and ?fd = "unat (free_data ch)"
  let ?old = "(?hs ! ?n)\<lparr>hn_next := free_indirect ch\<rparr>"
  let ?new = "(?hs ! ?fi)\<lparr>hn_keys := (hn_keys (?hs ! ?fi))[0 := key], hn_indexes := (hn_indexes (?hs ! ?fi))[0 := free_data ch]\<rparr>"
  let ?hs' = "?hs[?n := ?old, ?fi := ?new]"
  note g = ch_inv_geometry [OF inv] and s = stored_at_freeD [OF inv st]
  note h = GetHash_ok(2) [OF inv, of key]
  have nn: "?n \<in> set ns" using links_nonempty [OF ns(1)] by simp
  note n = chain_bucket [OF inv h ns(1) nn]
  have nl: "?n < length ?hs" "?fi < length ?hs" using n(2) g room by simp_all
  have sf: "unat (free_indirect ch + 1) = Suc ?fi" by (rule unat_succ_lt [OF room])
  have ch': "ch_headers ?ch = ?hs'" "ch_datas ?ch = ds" "Logical_length ?ch = Logical_length ch" "indirect_length ?ch = indirect_length ch"
    "free_indirect ?ch = free_indirect ch + 1" "free_data ?ch = free_data ch + 1" "total_length ?ch = total_length ch" "ch_length ?ch = ch_length ch"
    "entrysize ?ch = entrysize ch" by (simp_all add: place_node_def Let_def)
  have em: "empty_node (?hs ! ?fi)" using inv room by (simp add: ch_inv_def)
  then have shape: "node_shape (?hs ! ?fi)" "hn_next (?hs ! ?fi) = 0" by (simp_all add: empty_node_def)
  have x: "free_data ch \<noteq> 0" using g(1-4) by auto
  have at: "?hs' ! ?fi = ?new" "?hs' ! ?n = ?old" "\<And>j. j \<noteq> ?n \<Longrightarrow> j \<noteq> ?fi \<Longrightarrow> ?hs' ! j = ?hs ! j" using nl n(2) by simp_all
  have C0: "0 < CLUSTER_H" by (simp add: CLUSTER_H_def)
  have home: "ch_home (ch_hash ch) ?ll ?hs' j = ch_home (ch_hash ch) ?ll ?hs j" if "j < ?fi" for j
    using that at(2,3) by (cases "j = ?n") (simp_all add: ch_home_def)
  have homef: "ch_home (ch_hash ch) ?ll ?hs' ?fi = ch_hash ch key" using at(1) g(2) shape(1) C0 by (simp add: ch_home_def node_shape_def)
  have ent: "entry_ok ?il (Suc ?fd) ds k y" if "entry_ok ?il ?fd (ch_datas ch) k y" for k y
    using that s(2) unfolding entry_ok_def by (auto simp: diff_less_mono)
  have fresh: "header_ok (ch_hash ch) ?ll ?il (Suc ?fi) (Suc ?fd) ds ?hs' ?fi"
  proof -
    have idx: "hn_indexes ?new ! t = (if t = 0 then free_data ch else 0)" "hn_keys ?new ! 0 = key" if "t < CLUSTER_H" for t
      using that em C0 by (auto simp: empty_node_def node_shape_def nth_list_update)
    have "entry_ok ?il (Suc ?fd) ds key (free_data ch)" using s(3) g(4) by (simp add: entry_ok_def)
    moreover have "hn_next ?new = 0" "node_shape ?new" using shape by (simp_all add: node_shape_def)
    ultimately show ?thesis unfolding header_ok_def homef unfolding at(1) using idx C0 x em by (auto simp: empty_node_def split: if_splits)
  qed
  have "header_ok (ch_hash ch) ?ll ?il (Suc ?fi) (Suc ?fd) ds ?hs' j" if "j < Suc ?fi" for j
  proof -
    consider "j = ?fi" | "j = ?n" | "j < ?fi" "j \<noteq> ?n" using \<open>j < Suc ?fi\<close> by linarith
    then show ?thesis
    proof cases
      case 3
      then show ?thesis using s(2) at(3) by (intro header_ok_mono [OF ch_inv_node [OF inv 3(1)] _ 3(1) _ _ home]) simp_all
    next
      case 2
      note ok = ch_inv_node [OF inv n(2), unfolded header_ok_def]
      have "hn_next ?old \<noteq> 0" using g(1,2) by auto
      then show ?thesis unfolding header_ok_def 2 home [OF n(2)] unfolding at(2) using ok n ent homef g(2) by (simp add: node_shape_def)
    qed (simp add: fresh)
  qed
  moreover have "ch_geometry ?ch" using g s room unfolding ch_geometry_def ch' by (simp add: sf)
  moreover have "empty_node (?hs' ! j)" if "j < ?il" "Suc ?fi \<le> j" for j
    using inv that n(2) unfolding ch_inv_def by (auto simp: nth_list_update)
  ultimately show inv': "ch_inv ?ch" unfolding ch_inv_def ch' s(5) sf by simp
  have out: "?fi \<notin> set ns" using chain_bucket(2) [OF inv h ns(1)] by blast
  have e: "node_entries ?new = [(key, free_data ch)]"
  proof -
    have "node_entries ?new = node_entries (?hs ! ?fi) @ [(key, free_data ch)]"
      using em C0 x by (intro node_entries_fill [OF shape(1)]) (simp_all add: empty_node_def)
    moreover have "node_entries (?hs ! ?fi) = []" using em by (auto simp: node_entries_def empty_node_def node_shape_def filter_empty_conv set_zip)
    ultimately show ?thesis by simp
  qed
  show "get_adds ch key ?ch"
  proof (rule get_addsI [OF inv inv' ch'(3) ns(1)])
    have l: "links (?hs[?n := ?old]) (ch_hash ch key) (ns @ [?fi])"
      by (rule links_snoc [OF ns out nl(2) refl _ shape(2)]) (use g(1,2) in simp_all)
    have "links (ch_headers ?ch) (ch_hash ch key) (ns @ [?fi])" unfolding ch' by (subst links_upd_same) (use l shape(2) n(2) in simp_all)
    moreover have "entries ?hs' ns = entries ?hs ns"
    proof -
      have "entries (?hs[?n := ?old]) ns = entries ?hs ns @ []"
        by (rule entries_upd_last [OF _ ns(2) nl(1)]) (use nn in \<open>auto simp: node_entries_def\<close>)
      then show ?thesis using out by (simp add: entries_upd_out)
    qed
    moreover have "entries ?hs' [?fi] = [(key, free_data ch)]" using at(1) e by (simp add: entries_def)
    ultimately show "\<exists>ms. links (ch_headers ?ch) (ch_hash ch key) ms \<and> entries (ch_headers ?ch) ms = entries ?hs ns @ [(key, free_data ch)]"
      unfolding ch' by (intro exI [of _ "ns @ [?fi]"]) (simp only: entries_append)
    fix h' ms assume o: "h' < ?ll" "h' \<noteq> ch_hash ch key" "links ?hs h' ms"
    then have "?n \<notin> set ms" "?fi \<notin> set ms" using chain_bucket [OF inv o(1,3)] n(1) by blast+
    then show "links (ch_headers ?ch) h' ms \<and> entries (ch_headers ?ch) ms = entries ?hs ms" unfolding ch' using o(3) by (simp add: links_upd_out entries_upd_out)
  qed
qed

text \<open>An insertion does not replace: it adds the pair for a key that was not stored.\<close>

theorem Insert_ok:
  assumes inv: "ch_inv ch" and ins: "ch_Insert ch key val = Inr ch'"
  shows "ch_inv ch' \<and> entrysize ch' = entrysize ch \<and>
    ch_toMap ch' = [key \<mapsto> take (unat (entrysize ch) div 8) val] ++ ch_toMap ch"
proof -
  note g = ch_inv_geometry [OF inv]
  obtain ns ds where c: "links (ch_headers ch) (ch_hash ch key) ns" "distinct ns" "\<forall>i\<in>set ns. i < unat (free_indirect ch)"
    "stored_at_free ch key (take (unat (entrysize ch) div 8) val) ds"
    "(\<exists>i. free_slot (ch_headers ch ! last ns) = Some i \<and> ch' = place_slot ch (last ns) i key ds) \<or>
     (free_slot (ch_headers ch ! last ns) = None \<and> unat (free_indirect ch) < unat (indirect_length ch) \<and> ch' = place_node ch (last ns) key ds)"
    by (rule Insert_cases [OF inv ins])
  have ok: "ch_inv ch'" "get_adds ch key ch'" using c(5) place_slot_ok [OF inv c(1,2,4)] place_node_ok [OF inv c(1,2,4)] by blast+
  have eq: "ch_datas ch' = ds" "indirect_length ch' = indirect_length ch" "entrysize ch' = entrysize ch"
    using c(5) by (auto simp: place_slot_def place_node_def Let_def)
  note s = stored_at_freeD [OF inv c(4)]
  have dn: "getDataNode ch' x = getDataNode ch x" for x by (simp add: getDataNode_def eq)
  have "ch_toMap ch' k = ([key \<mapsto> take (unat (entrysize ch) div 8) val] ++ ch_toMap ch) k" for k
  proof -
    obtain r where r: "ch_Get ch k = Inr r" "\<And>x. r = Some x \<Longrightarrow> entry_ok (unat (indirect_length ch)) (unat (free_data ch)) (ch_datas ch) k x"
      using Get_ok [OF inv, of k] by blast
    have get: "ch_Get ch' k = (if k = key \<and> ch_Get ch k = Inr None then Inr (Some (free_data ch)) else ch_Get ch k)" using ok(2) by (simp add: get_adds_def)
    show ?thesis
    proof (cases r)
      case None
      then show ?thesis using get r(1) s(4) getDataNode_eq [OF g(4)] by (simp add: ch_toMap_def eq dn map_add_def)
    next
      case (Some x)
      then have "getDataNode ch x < unat (free_data ch) - unat (indirect_length ch)"
        using r(2) [OF Some] by (simp add: getDataNode_eq entry_ok_def diff_less_mono)
      then show ?thesis using get r(1) Some s(2) by (simp add: ch_toMap_def eq dn map_add_def)
    qed
  qed
  then show ?thesis using ok(1) eq(3) by auto
qed

section \<open>ch_Update, and the table as a store of words\<close>

text \<open>An update writes the first word of the value and touches no other key.\<close>

theorem Update_ok:
  assumes inv: "ch_inv ch" and up: "ch_Update ch key val = Inr ch'"
  shows "ch_inv ch' \<and> entrysize ch' = entrysize ch \<and>
    ch_toMap ch' = (case ch_toMap ch key of None \<Rightarrow> ch_toMap ch | Some ws \<Rightarrow> (ch_toMap ch)(key \<mapsto> ws[0 := hd val]))"
proof -
  note g = ch_inv_geometry [OF inv]
  obtain r where r: "ch_Get ch key = Inr r" "\<And>x. r = Some x \<Longrightarrow> entry_ok (unat (indirect_length ch)) (unat (free_data ch)) (ch_datas ch) key x"
    using Get_ok [OF inv, of key] by blast
  show ?thesis
  proof (cases r)
    case None
    then have "ch' = ch" using up r(1) unfolding ch_Update_def ch_Get_def by (auto elim!: rbindE)
    then show ?thesis using inv None r(1) by (simp add: ch_toMap_def)
  next
    case (Some x)
    let ?d = "unat x - unat (indirect_length ch)"
    have e: "entry_ok (unat (indirect_length ch)) (unat (free_data ch)) (ch_datas ch) key x" by (rule r(2) [OF Some])
    then have x: "unat (indirect_length ch) \<le> unat x" "unat x < unat (free_data ch)" by (simp_all add: entry_ok_def)
    have d: "getDataNode ch x = ?d" "?d < length (ch_datas ch)" using x g(5,6,8) getDataNode_eq [OF x(1)] by linarith+
    let ?dn = "(ch_datas ch ! ?d)\<lparr>dn_val := (dn_val (ch_datas ch ! ?d))[0 := hd val]\<rparr>"
    have ch': "ch' = ch\<lparr>ch_datas := (ch_datas ch)[?d := ?dn]\<rparr>" 
      using up r(1) Some d unfolding ch_Update_def ch_Get_def by (auto simp: aget_eq_Inr aset_eq_Inr hd_conv_nth elim!: rbindE)
    have dk: "dn_key ((ch_datas ch)[?d := ?dn] ! j) = dn_key (ch_datas ch ! j)" for j by (cases "j = ?d") (use d in simp_all)
    have "node_ok_in ch' i" if "i < unat (free_indirect ch)" for i
      using ch_inv_node [OF inv that] unfolding ch' header_ok_def entry_ok_def by (simp add: dk)
    moreover have "ch_geometry ch'"
      using inv set_update_subset_insert [of "ch_datas ch" ?d ?dn] d(2) g(9) unfolding ch' ch_inv_def ch_geometry_def by auto
    ultimately have inv': "ch_inv ch'" using inv unfolding ch_inv_def by (simp add: ch')
    have get: "ch_Get ch' k = ch_Get ch k" for k by (simp add: ch' ch_Get_def GetHash_def)
    have "ch_toMap ch' k = ((ch_toMap ch)(key \<mapsto> (dn_val (ch_datas ch ! ?d))[0 := hd val])) k" for k
    proof (cases "k = key")
      case True
      then show ?thesis using r(1) Some d by (simp add: ch_toMap_def get) (simp add: ch' getDataNode_def)
    next
      case False
      obtain q where q: "ch_Get ch k = Inr q" "\<And>y. q = Some y \<Longrightarrow> entry_ok (unat (indirect_length ch)) (unat (free_data ch)) (ch_datas ch) k y"
        using Get_ok [OF inv, of k] by blast
      have "ch_datas ch' ! getDataNode ch' y = ch_datas ch ! getDataNode ch y" if "q = Some y" for y
      proof -
        have "getDataNode ch y \<noteq> ?d" using q(2) [OF that] e False by (auto simp: getDataNode_eq entry_ok_def)
        then show ?thesis by (simp add: ch' getDataNode_def)
      qed
      then show ?thesis using q(1) False by (cases q) (simp_all add: ch_toMap_def get)
    qed
    then show ?thesis using inv' r(1) Some d by (auto simp: ch_toMap_def ch')
  qed
qed

text \<open>With entries of eight bytes, as the server uses it, the table is a store in which the first value stays.\<close>

definition word_table :: "cluster_hash \<Rightarrow> bool" where
  "word_table ch \<longleftrightarrow> ch_inv ch \<and> entrysize ch = 8"

definition insert_word :: "u64 \<Rightarrow> u64 \<Rightarrow> cluster_hash \<Rightarrow> cluster_hash res" where
  "insert_word key v ch = ch_Insert ch key [v]"

definition update_word :: "u64 \<Rightarrow> u64 \<Rightarrow> cluster_hash \<Rightarrow> cluster_hash res" where
  "update_word key v ch = ch_Update ch key [v]"

definition lookup_word :: "cluster_hash \<Rightarrow> u64 \<rightharpoonup> u64" where
  "lookup_word ch key = map_option hd (ch_toMap ch key)"

lemma toMap_words:
  assumes "ch_inv ch" "ch_toMap ch key = Some ws"
  shows "length ws = unat (entrysize ch) div 8"
proof -
  note g = ch_inv_geometry [OF assms(1)]
  obtain r where r: "ch_Get ch key = Inr r" "\<And>x. r = Some x \<Longrightarrow> entry_ok (unat (indirect_length ch)) (unat (free_data ch)) (ch_datas ch) key x"
    using Get_ok [OF assms(1), of key] by blast
  then obtain x where x: "r = Some x" "ws = dn_val (ch_datas ch ! getDataNode ch x)" using assms(2) by (auto simp: ch_toMap_def split: option.splits)
  then have "unat (indirect_length ch) \<le> unat x" "unat x < unat (free_data ch)" using r(2) by (simp_all add: entry_ok_def)
  then have "getDataNode ch x < length (ch_datas ch)" using getDataNode_eq [of ch x] g(5,6,8) by linarith
  then show ?thesis using x(2) g(9) by simp
qed

interpretation cluster: first_write_store word_table insert_word update_word lookup_word
proof
  fix m m' k v assume m: "word_table m" and i: "insert_word k v m = Inr m'"
  have "ch_inv m' \<and> entrysize m' = entrysize m \<and> ch_toMap m' = [k \<mapsto> take (unat (entrysize m) div 8) [v]] ++ ch_toMap m"
    using Insert_ok m i unfolding word_table_def insert_word_def by blast
  then show "word_table m' \<and> lookup_word m' = [k \<mapsto> v] ++ lookup_word m"
    using m by (auto simp: word_table_def lookup_word_def map_add_def fun_eq_iff split: option.splits)
next
  fix m m' k v assume m: "word_table m" and u: "update_word k v m = Inr m'"
  have o: "ch_inv m' \<and> entrysize m' = entrysize m \<and>
      ch_toMap m' = (case ch_toMap m k of None \<Rightarrow> ch_toMap m | Some ws \<Rightarrow> (ch_toMap m)(k \<mapsto> ws[0 := hd [v]]))"
    using Update_ok m u unfolding word_table_def update_word_def by blast
  show "word_table m' \<and> lookup_word m' = (if lookup_word m k = None then lookup_word m else (lookup_word m)(k \<mapsto> v))"
  proof (cases "ch_toMap m k")
    case None
    then show ?thesis using o m by (auto simp: word_table_def lookup_word_def)
  next
    case (Some ws)
    then have "length ws = 1" using toMap_words [of m k ws] m by (simp add: word_table_def)
    then have "ws \<noteq> []" by auto
    then show ?thesis using o m Some by (cases ws) (auto simp: word_table_def lookup_word_def)
  qed
qed

text \<open>\<open>Get\<close> and the reading of the word it points to.\<close>

lemma Get_word:
  assumes "word_table ch"
  shows "rbind (ch_Get ch key) (deref_value ch) = (case lookup_word ch key of None \<Rightarrow> Inl NullDeref | Some v \<Rightarrow> Inr v)"
proof -
  have inv: "ch_inv ch" "entrysize ch = 8" using assms by (simp_all add: word_table_def)
  note g = ch_inv_geometry [OF inv(1)]
  obtain r where r: "ch_Get ch key = Inr r" "\<And>x. r = Some x \<Longrightarrow> entry_ok (unat (indirect_length ch)) (unat (free_data ch)) (ch_datas ch) key x"
    using Get_ok [OF inv(1), of key] by blast
  show ?thesis
  proof (cases r)
    case None
    then show ?thesis using r(1) by (simp add: deref_value_def lookup_word_def ch_toMap_def)
  next
    case (Some x)
    then have m: "ch_toMap ch key = Some (dn_val (ch_datas ch ! getDataNode ch x))" using r(1) by (simp add: ch_toMap_def)
    then have l: "length (dn_val (ch_datas ch ! getDataNode ch x)) = 1" using toMap_words [OF inv(1) m] inv(2) by simp
    have "unat (indirect_length ch) \<le> unat x" "unat x < unat (free_data ch)" using r(2) [OF Some] by (simp_all add: entry_ok_def)
    then have "getDataNode ch x < length (ch_datas ch)" using getDataNode_eq [of ch x] g(5,6,8) by linarith
    moreover have "dn_val (ch_datas ch ! getDataNode ch x) \<noteq> []" using l by auto
    ultimately show ?thesis using r(1) Some m by (simp add: deref_value_def lookup_word_def hd_conv_nth)
  qed
qed

text \<open>An update of eight bytes returns.\<close>

lemma Update_returns:
  assumes "word_table ch"
  shows "\<exists>ch'. ch_Update ch key [v] = Inr ch'"
proof -
  have inv: "ch_inv ch" and es: "entrysize ch = 8" using assms by (simp_all add: word_table_def)
  note g = ch_inv_geometry [OF inv]
  obtain r where r: "ch_Get ch key = Inr r" "\<And>x. r = Some x \<Longrightarrow> entry_ok (unat (indirect_length ch)) (unat (free_data ch)) (ch_datas ch) key x"
    using Get_ok [OF inv, of key] by blast
  show ?thesis
  proof (cases r)
    case None
    then show ?thesis using r(1) unfolding ch_Update_def ch_Get_def by (auto elim!: rbindE)
  next
    case (Some x)
    then have x: "unat (indirect_length ch) \<le> unat x" "unat x < unat (free_data ch)" using r(2) by (simp_all add: entry_ok_def)
    have d: "getDataNode ch x < length (ch_datas ch)" using x g(5,6,8) getDataNode_eq [OF x(1)] by linarith
    then have "length (dn_val (ch_datas ch ! getDataNode ch x)) = 1" using g(9) es by simp
    then show ?thesis using r(1) Some d unfolding ch_Update_def ch_Get_def by (auto elim!: rbindE)
  qed
qed

section \<open>Room\<close>

text \<open>
  A header node is chained only when it is full. So the number of chained nodes is at most a sixteenth of the number of
  entries, and a table that was made for \<open>n\<close> keys takes \<open>n\<close> insertions, whatever their buckets.
\<close>

definition ch_counts :: "cluster_hash \<Rightarrow> bool" where
  "ch_counts ch \<longleftrightarrow>
     sum_list (map (\<lambda>node. length (node_entries node)) (ch_headers ch)) = unat (free_data ch) - unat (indirect_length ch) \<and>
     sum_list (map (\<lambda>node. of_bool (hn_next node \<noteq> 0)) (ch_headers ch)) = unat (free_indirect ch) - unat (Logical_length ch) \<and>
     (\<forall>node\<in>set (ch_headers ch). hn_next node \<noteq> 0 \<longrightarrow> length (node_entries node) = CLUSTER_H)"

lemma chained_nodes_bound:
  assumes "ch_counts ch"
  shows "16 * (unat (free_indirect ch) - unat (Logical_length ch)) \<le> unat (free_data ch) - unat (indirect_length ch)"
proof -
  have "16 * sum_list (map (\<lambda>node. of_bool (hn_next node \<noteq> 0)) hs) \<le> sum_list (map (\<lambda>node. length (node_entries node)) hs)"
    if "\<forall>node\<in>set hs. hn_next node \<noteq> 0 \<longrightarrow> length (node_entries node) = CLUSTER_H" for hs
    using that by (induction hs) (auto simp: CLUSTER_H_def)
  then show ?thesis using assms unfolding ch_counts_def by metis
qed

lemma empty_node_entries: "empty_node node \<Longrightarrow> node_entries node = []"
  by (auto simp: node_entries_def empty_node_def node_shape_def filter_empty_conv set_zip)

lemma full_node_entries:
  assumes "node_shape node" "free_slot node = None"
  shows "length (node_entries node) = CLUSTER_H"
proof -
  have "hn_indexes node ! i \<noteq> 0" if "i < CLUSTER_H" for i using assms(2) that by (auto simp: free_slot_def find_None_iff)
  then have "node_entries node = zip (hn_keys node) (hn_indexes node)"
    using assms(1) by (auto simp: node_entries_def node_shape_def filter_id_conv set_zip)
  then show ?thesis using assms(1) by (simp add: node_shape_def)
qed

lemma RdmaClusterHash_counts:
  assumes "\<And>i. empty_node (hmem i)"
  shows "ch_counts (RdmaClusterHash hmem dmem len esize)"
proof -
  have "hn_next (hmem i) = 0" for i using assms [of i] by (simp add: empty_node_def)
  then show ?thesis using empty_node_entries [OF assms] by (auto simp: ch_counts_def RdmaClusterHash_def Let_def comp_def)
qed

lemma sum_list_upd:
  fixes f :: "'a \<Rightarrow> nat"
  assumes "n < length xs"
  shows "sum_list (map f (xs[n := x])) + f (xs ! n) = sum_list (map f xs) + f x"
  using assms by (induction xs arbitrary: n) (auto split: nat.splits)

lemma Insert_counts:
  assumes inv: "ch_inv ch" and cnt: "ch_counts ch" and ins: "ch_Insert ch key val = Inr ch'"
  shows "ch_counts ch'" "unat (free_data ch') = Suc (unat (free_data ch))" "total_length ch' = total_length ch"
    "indirect_length ch' = indirect_length ch" "ch_length ch' = ch_length ch" "Logical_length ch' = Logical_length ch"
proof -
  note g = ch_inv_geometry [OF inv]
  let ?hs = "ch_headers ch" and ?e = "\<lambda>node. length (node_entries node)" and ?o = "\<lambda>node. of_bool (hn_next node \<noteq> 0) :: nat"
  obtain ns ds where c: "links ?hs (ch_hash ch key) ns" "distinct ns" "\<forall>i\<in>set ns. i < unat (free_indirect ch)"
    "stored_at_free ch key (take (unat (entrysize ch) div 8) val) ds"
    "(\<exists>i. free_slot (?hs ! last ns) = Some i \<and> ch' = place_slot ch (last ns) i key ds) \<or>
     (free_slot (?hs ! last ns) = None \<and> unat (free_indirect ch) < unat (indirect_length ch) \<and> ch' = place_node ch (last ns) key ds)"
    by (rule Insert_cases [OF inv ins])
  let ?n = "last ns" and ?f = "unat (free_indirect ch)"
  have nf: "?n < ?f" using c(3) links_nonempty [OF c(1)] by simp
  then have n: "?n < length ?hs" using g by simp
  note s = stored_at_freeD [OF inv c(4)] and l = links_last [OF c(1)] and ok = ch_inv_node [OF inv nf, unfolded header_ok_def]
  have x: "free_data ch \<noteq> 0" using g(1-4) by auto
  show "unat (free_data ch') = Suc (unat (free_data ch))" "total_length ch' = total_length ch" "indirect_length ch' = indirect_length ch"
    "ch_length ch' = ch_length ch" "Logical_length ch' = Logical_length ch"
    using c(5) s(5) by (auto simp: place_slot_def place_node_def Let_def)
  note fd = Suc_diff_le [OF g(4)]
  from c(5) show "ch_counts ch'"
  proof (elim disjE exE conjE)
    fix i assume i: "free_slot (?hs ! ?n) = Some i" and ch': "ch' = place_slot ch ?n i key ds"
    let ?node = "(?hs ! ?n)\<lparr>hn_keys := (hn_keys (?hs ! ?n))[i := key], hn_indexes := (hn_indexes (?hs ! ?n))[i := free_data ch]\<rparr>"
    note f = free_slot_Some [OF i]
    have "hn_indexes (?hs ! ?n) ! t = 0" if "i \<le> t" "t < CLUSTER_H" for t using ok f(2) that by (metis le_neq_implies_less)
    then have "?e ?node = Suc (?e (?hs ! ?n))" using node_entries_fill [of "?hs ! ?n" i "free_data ch" key] ok f(1,3) x by simp
    moreover have "?o ?node = ?o (?hs ! ?n)" "hn_next ?node = 0" using l by simp_all
    ultimately show ?thesis
      using cnt sum_list_upd [OF n, of ?e ?node] sum_list_upd [OF n, of ?o ?node] s(5) fd set_update_subset_insert [of ?hs ?n ?node]
      unfolding ch_counts_def ch' place_slot_def by auto
  next
    assume full: "free_slot (?hs ! ?n) = None" and room: "?f < unat (indirect_length ch)" and ch': "ch' = place_node ch ?n key ds"
    let ?old = "(?hs ! ?n)\<lparr>hn_next := free_indirect ch\<rparr>"
    let ?new = "(?hs ! ?f)\<lparr>hn_keys := (hn_keys (?hs ! ?f))[0 := key], hn_indexes := (hn_indexes (?hs ! ?f))[0 := free_data ch]\<rparr>"
    have em: "empty_node (?hs ! ?f)" using inv room by (simp add: ch_inv_def)
    have e1: "?e ?old = ?e (?hs ! ?n)" "?e (?hs ! ?n) = CLUSTER_H" using full_node_entries [OF _ full] ok by (simp_all add: node_entries_def)
    have e2: "?e ?new = 1" "?e (?hs ! ?f) = 0"
      using node_entries_fill [of "?hs ! ?f" 0 "free_data ch" key] em x empty_node_entries [OF em] by (simp_all add: empty_node_def CLUSTER_H_def)
    have o: "?o ?old = 1" "?o (?hs ! ?n) = 0" "?o ?new = ?o (?hs ! ?f)" "hn_next ?new = 0" using l em g(1,2) by (auto simp: empty_node_def)
    have f: "?f < length (?hs[?n := ?old])" "?hs[?n := ?old] ! ?f = ?hs ! ?f" using room g nf by simp_all
    have sub: "set (?hs[?n := ?old, ?f := ?new]) \<subseteq> insert ?new (insert ?old (set ?hs))"
      using set_update_subset_insert [of "?hs[?n := ?old]" ?f ?new] set_update_subset_insert [of ?hs ?n ?old] by blast
    have "unat (free_indirect ch + 1) = Suc ?f" by (rule unat_succ_lt [OF room])
    moreover have "sum_list (map ?e (?hs[?n := ?old, ?f := ?new])) = Suc (sum_list (map ?e ?hs))"
      using sum_list_upd [OF n, of ?e ?old] sum_list_upd [OF f(1), of ?e ?new] unfolding f(2) e1(1) e2 by linarith
    moreover have "sum_list (map ?o (?hs[?n := ?old, ?f := ?new])) = Suc (sum_list (map ?o ?hs))"
      using sum_list_upd [OF n, of ?o ?old] sum_list_upd [OF f(1), of ?o ?new] unfolding f(2) o(1-3) by linarith
    moreover have "length (node_entries node) = CLUSTER_H" if "node \<in> set (?hs[?n := ?old, ?f := ?new])" "hn_next node \<noteq> 0" for node
    proof -
      have "node \<noteq> ?new" using that(2) o(4) by metis
      then have "node = ?old \<or> node \<in> set ?hs" using that(1) sub by blast
      then show ?thesis using e1 cnt that(2) unfolding ch_counts_def by metis
    qed
    ultimately show ?thesis using cnt s(5) fd Suc_diff_le [OF g(2)] unfolding ch_counts_def ch' place_node_def Let_def by simp
  qed
qed

text \<open>An insertion returns while there is a data node left and a header node for a new link.\<close>

lemma Insert_returns:
  assumes inv: "ch_inv ch" and room: "unat (free_data ch) < unat (total_length ch)" "unat (free_indirect ch) < unat (indirect_length ch)"
    and val: "unat (entrysize ch) div 8 \<le> length val"
  shows "\<exists>ch'. ch_Insert ch key val = Inr ch'"
proof -
  note g = ch_inv_geometry [OF inv]
  obtain h where h: "GetHash ch key = Inr h" "unat h = ch_hash ch key" using GetHash_ok [OF inv] by blast
  obtain ns where ns: "links (ch_headers ch) (ch_hash ch key) ns" "distinct ns" "\<forall>i\<in>set ns. i < unat (free_indirect ch)" "length ns \<le> length (ch_headers ch)"
    by (rule bucket_chain [OF inv GetHash_ok(2) [OF inv, of key]])
  obtain m where m: "last_node (length (ch_headers ch)) (ch_headers ch) h = Inr m" "unat m = last ns"
    using last_node_ok [of "ch_headers ch" h ns] ns h by auto
  have l: "unat m < length (ch_headers ch)" using m(2) bspec [OF ns(3), of "last ns"] links_nonempty [OF ns(1)] g(3,7) by simp
  have d: "unat (free_data ch) - unat (indirect_length ch) < length (ch_datas ch)" "getDataNode ch (free_data ch) = unat (free_data ch) - unat (indirect_length ch)"
    using g room(1) getDataNode_eq [OF g(4)] by simp_all
  have ne: "free_data ch \<noteq> total_length ch" "free_indirect ch \<noteq> indirect_length ch" using room by auto
  have w: "getDataNode (ch\<lparr>ch_headers := hs, free_indirect := f\<rparr>) (free_data ch) = getDataNode ch (free_data ch)" for hs f by (simp add: getDataNode_def)
  show ?thesis using h m l d ne val room(2) g(7) w
    by (cases "free_slot (ch_headers ch ! last ns)") (simp_all add: ch_Insert_def write_entry_def take_slot_def Let_def)
qed

text \<open>The areas do not overlap and lie within \<open>size\<close> bytes.\<close>

lemma node_locations:
  assumes ch: "ch = RdmaClusterHash hmem dmem len esize" and small: "unat len * (148 + unat (entrysize ch)) < 2 ^ 64"
    and i: "unat i < unat (indirect_length ch)" and j: "unat (indirect_length ch) \<le> unat j" "unat j < unat (indirect_length ch) + unat len"
  shows "unat (getHeaderNode_loc ch i) + 264 \<le> unat (getDataNode_loc ch j)"
    and "unat (getDataNode_loc ch j) + (16 + unat (entrysize ch)) \<le> unat (ch_size ch)"
proof -
  let ?es = "unat (entrysize ch)" and ?il = "unat (indirect_length ch)"
  have il: "?il = unat len div 2" by (simp add: ch RdmaClusterHash_def Let_def unat_div)
  have total: "?il * 264 + unat len * (16 + ?es) < 2 ^ 64"
  proof -
    have "?il * 264 \<le> unat len * 132" unfolding il by simp
    then show ?thesis using small by (simp add: algebra_simps)
  qed
  have pos: "1 \<le> unat len" using i il by simp
  have es: "16 + ?es < 2 ^ 64"
  proof -
    have "16 + ?es \<le> unat len * (16 + ?es)" using mult_le_mono1 [OF pos, of "16 + ?es"] by (simp only: mult_1)
    also have "\<dots> \<le> ?il * 264 + unat len * (16 + ?es)" by (rule le_add2)
    also note total
    finally show ?thesis .
  qed
  have ds: "unat (data_size ch) = 16 + ?es" using es by (simp add: ch RdmaClusterHash_def Let_def sizeof_DataNode_def unat_word_ariths)
  have hs: "unat (header_size ch) = 264" by (simp add: ch RdmaClusterHash_def Let_def sizeof_HeaderNode_def)
  have n: "unat (j - indirect_length ch) = unat j - ?il" by (rule unat_sub) (use j(1) in \<open>simp add: word_le_nat_alt\<close>)
  have lt: "Suc (unat j - ?il) \<le> unat len" using j by simp
  have d: "(unat j - ?il) * (16 + ?es) + (16 + ?es) \<le> unat len * (16 + ?es)" using mult_le_mono1 [OF lt, of "16 + ?es"] by simp
  have h: "unat i * 264 + 264 \<le> ?il * 264" using i by simp
  have m1: "unat (i * header_size ch) = unat i * 264" using h total hs by (subst unat_mult_lem [THEN iffD1]) simp_all
  have m2: "unat (indirect_length ch * header_size ch) = ?il * 264" using total hs by (subst unat_mult_lem [THEN iffD1]) simp_all
  have m3: "unat ((j - indirect_length ch) * data_size ch) = (unat j - ?il) * (16 + ?es)" using total d n ds by (subst unat_mult_lem [THEN iffD1]) simp_all
  have loc: "unat (getDataNode_loc ch j) = ?il * 264 + (unat j - ?il) * (16 + ?es)"
    unfolding getDataNode_loc_def by (subst unat_add_lem [THEN iffD1]) (use m2 m3 total d in simp_all)
  have m4: "unat (len * data_size ch) = unat len * (16 + ?es)" using total ds by (subst unat_mult_lem [THEN iffD1]) simp_all
  have sz: "ch_size ch = indirect_length ch * header_size ch + len * data_size ch" by (simp add: ch RdmaClusterHash_def Let_def)
  have "unat (ch_size ch) = ?il * 264 + unat len * (16 + ?es)"
    unfolding sz by (subst unat_add_lem [THEN iffD1]) (use m2 m4 total in simp_all)
  then show "unat (getDataNode_loc ch j) + (16 + ?es) \<le> unat (ch_size ch)" using loc d by simp
  show "unat (getHeaderNode_loc ch i) + 264 \<le> unat (getDataNode_loc ch j)" unfolding getHeaderNode_loc_def m1 loc using h by simp
qed

end
