(* ===== verification/Drtmr_Server.thy ===== *)
theory Drtmr_Server
  imports Cluster_Hash Outback_Server Double_Arith
begin

text \<open>
  The server of \<open>benchs/drtmr/server.cc\<close> as it is built (\<open>CLUSTER_HASH_MODE\<close>): the loading of the cluster hash table and
  the five callbacks. The table holds the record number of a loaded key, and the value of a key that a PUT or an UPDATE
  stored; no callback reads the records.

  Shown: the loading never fails, whatever the buckets of the keys; a GET then answers with the number of the first
  record of the key, and the table is full, so that the first PUT ends the process; a GET of an absent key dereferences
  the null pointer; a PUT of a stored key is acknowledged and changes no answer.
\<close>

section \<open>Definitions\<close>

record drtmr_server =
  dt_table :: cluster_hash
  dt_data :: packed_data

text \<open>
  \<open>setup_cluster_hash_table\<close>: \<open>1.2 * nkeys\<close> records, a table for \<open>1.0 * nkeys\<close> keys with entries of eight bytes on memory
  from \<open>malloc\<close> (\<open>hmem\<close> and \<open>dmem\<close>), and one record and one entry per key. Every 100000th key is read back for the log.
\<close>

definition drtmr_load ::
  "u64 list \<Rightarrow> nat \<Rightarrow> drtmr_server \<Rightarrow> drtmr_server res" where
  "drtmr_load keys i sv =
    (let key = keys ! i in
     rbind (bulk_load_data (dt_data sv) key 8 (of_nat i)) (\<lambda>(addr, pd).
     rbind (ch_Insert (dt_table sv) key [ucast addr]) (\<lambda>ch.
     rbind (if i mod 100000 = 0 then rbind (rbind (ch_Get ch key) (deref_value ch)) (\<lambda>_. Inr ()) else Inr ()) (\<lambda>_.
     Inr \<lparr>dt_table = ch, dt_data = pd\<rparr>))))"

definition setup_cluster_hash_table ::
  "(nat \<Rightarrow> packed_struct) \<Rightarrow> (nat \<Rightarrow> header_node) \<Rightarrow> (nat \<Rightarrow> data_node) \<Rightarrow> u64 list \<Rightarrow> drtmr_server res" where
  "setup_cluster_hash_table junk hmem dmem keys =
    (let n = length keys in
     rfold (drtmr_load keys) [0..<n]
       \<lparr>dt_table = RdmaClusterHash hmem dmem (of_nat (dbl_trunc n (2 ^ 52) 52)) 8,
        dt_data = PackedData_new junk (of_nat (dbl_trunc n 5404319552844595 52))\<rparr>)"

text \<open>The callbacks; \<open>reply\<close> below is an uninitialised local variable where the code leaves it so.\<close>

definition drtmr_get :: "drtmr_server \<Rightarrow> u64 \<Rightarrow> reply_value res" where
  "drtmr_get sv key =
    rbind (rbind (ch_Get (dt_table sv) key) (deref_value (dt_table sv))) (\<lambda>dummy_value.
    Inr (if dummy_value \<noteq> 0 then \<lparr>rv_status = True, rv_val = dummy_value\<rparr> else \<lparr>rv_status = False, rv_val = dummy_value\<rparr>))"

definition drtmr_get_callback :: "stack_junk \<Rightarrow> drtmr_server rpc_callback" where
  "drtmr_get_callback junk sv h args =
    (if length args \<noteq> 8 then Inl AssertFailed
     else rbind (interpret_as_u64 args 0) (\<lambda>key.
          rbind (drtmr_get sv key) (\<lambda>reply.
          rbind (answer junk h reply) (\<lambda>m. Inr (sv, m)))))"

definition drtmr_put :: "drtmr_server \<Rightarrow> u64 \<Rightarrow> u64 \<Rightarrow> drtmr_server res" where
  "drtmr_put sv key val = rbind (ch_Insert (dt_table sv) key [val]) (\<lambda>ch. Inr (sv\<lparr>dt_table := ch\<rparr>))"

definition drtmr_put_callback :: "stack_junk \<Rightarrow> reply_value \<Rightarrow> drtmr_server rpc_callback" where
  "drtmr_put_callback junk reply sv h args =
    (if length args \<noteq> 16 then Inl AssertFailed
     else rbind (interpret_as_u64 args 0) (\<lambda>key.
          rbind (interpret_as_u64 args 8) (\<lambda>val.
          rbind (drtmr_put sv key val) (\<lambda>sv'.
          rbind (answer junk h reply) (\<lambda>m. Inr (sv', m))))))"

definition drtmr_update :: "drtmr_server \<Rightarrow> u64 \<Rightarrow> u64 \<Rightarrow> (reply_value \<times> drtmr_server) res" where
  "drtmr_update sv key val =
    rbind (ch_Update (dt_table sv) key [val]) (\<lambda>ch. Inr (\<lparr>rv_status = True, rv_val = val\<rparr>, sv\<lparr>dt_table := ch\<rparr>))"

definition drtmr_update_callback :: "stack_junk \<Rightarrow> drtmr_server rpc_callback" where
  "drtmr_update_callback junk sv h args =
    (if length args \<noteq> 16 then Inl AssertFailed
     else rbind (interpret_as_u64 args 0) (\<lambda>key.
          rbind (interpret_as_u64 args 8) (\<lambda>val.
          rbind (drtmr_update sv key val) (\<lambda>(reply, sv').
          rbind (answer junk h reply) (\<lambda>m. Inr (sv', m))))))"

definition drtmr_remove_callback :: "stack_junk \<Rightarrow> drtmr_server rpc_callback" where
  "drtmr_remove_callback junk sv h args =
    (if length args \<noteq> 8 then Inl AssertFailed
     else rbind (interpret_as_u64 args 0) (\<lambda>key.
          rbind (answer junk h \<lparr>rv_status = True, rv_val = 0\<rparr>) (\<lambda>m. Inr (sv, m))))"

definition drtmr_scan_callback :: "stack_junk \<Rightarrow> reply_value \<Rightarrow> drtmr_server rpc_callback" where
  "drtmr_scan_callback junk reply sv h args =
    (if length args \<noteq> 16 then Inl AssertFailed
     else rbind (interpret_as_u64 args 0) (\<lambda>key.
          rbind (interpret_as_u64 args 8) (\<lambda>n.
          rbind (answer junk h reply) (\<lambda>m. Inr (sv, m)))))"

section \<open>Loading\<close>

text \<open>After \<open>n\<close> of the keys: the counters, the records, and the first number of every key.\<close>

definition drtmr_loaded :: "u64 list \<Rightarrow> nat \<Rightarrow> drtmr_server \<Rightarrow> bool" where
  "drtmr_loaded keys n sv \<longleftrightarrow> word_table (dt_table sv) \<and> ch_counts (dt_table sv) \<and>
     unat (ch_length (dt_table sv)) = length keys \<and> unat (Logical_length (dt_table sv)) = length keys div 16 \<and>
     unat (indirect_length (dt_table sv)) = length keys div 2 \<and> unat (free_data (dt_table sv)) = length keys div 2 + n \<and>
     lookup_word (dt_table sv) = map_of (map (\<lambda>i. (keys ! i, of_nat i)) [0..<n]) \<and>
     pd_wf (dt_data sv) \<and> unat (pd_num (dt_data sv)) = n \<and> length keys \<le> unat (numElements (dt_data sv))"

lemma map_of_snoc: "map_of (xs @ [(k, v)]) = [k \<mapsto> v] ++ map_of xs"
  by simp

lemma drtmr_load_step:
  assumes l: "drtmr_loaded keys n sv" and n: "n < length keys" "16 \<le> length keys" "length keys \<le> 2 ^ 32"
  shows "\<exists>sv'. drtmr_load keys n sv = Inr sv' \<and> drtmr_loaded keys (Suc n) sv'"
proof -
  let ?ch = "dt_table sv" and ?pd = "dt_data sv"
  have t: "word_table ?ch" "ch_inv ?ch" "entrysize ?ch = 8" "ch_counts ?ch" and pd: "pd_wf ?pd" "unat (pd_num ?pd) = n" "length keys \<le> unat (numElements ?pd)"
    and c: "unat (ch_length ?ch) = length keys" "unat (Logical_length ?ch) = length keys div 16" "unat (indirect_length ?ch) = length keys div 2"
      "unat (free_data ?ch) = length keys div 2 + n"
    using l by (simp_all add: drtmr_loaded_def word_table_def)
  have lt: "pd_num ?pd < numElements ?pd" using pd n(1) by (simp add: word_less_nat_alt)
  obtain addr pd' where b: "bulk_load_data ?pd (keys ! n) 8 (of_nat n) = Inr (addr, pd')" using bulk_load_data_ok [OF pd(1) lt] by blast
  note b' = bulk_load_data_Inr [OF pd(1) b]
  have "unat (ucast addr :: u64) = n" unfolding b'(2) using n(1,3) pd(2) by (simp add: unsigned_ucast_eq unsigned_take_bit_eq take_bit_nat_eq_self)
  then have addr: "(ucast addr :: u64) = of_nat n" using n(1,3) by (simp add: word_unat_eq_iff unsigned_of_nat take_bit_nat_eq_self)
  note g = ch_inv_geometry [OF t(2)]
  have "unat (free_data ?ch) < unat (total_length ?ch)" using c g(6) n(1) by simp
  moreover have "unat (free_indirect ?ch) < unat (indirect_length ?ch)"
  proof -
    have "16 * (unat (free_indirect ?ch) - length keys div 16) \<le> n" using chained_nodes_bound [OF t(4)] unfolding c by simp
    then have "16 * unat (free_indirect ?ch) \<le> n + 16 * (length keys div 16)" by simp
    then show ?thesis unfolding c(3) using n(1,2) by linarith
  qed
  ultimately obtain ch' where ch': "ch_Insert ?ch (keys ! n) [ucast addr] = Inr ch'" using Insert_returns [OF t(2)] t(3) by fastforce
  have w: "word_table ch' \<and> lookup_word ch' = [keys ! n \<mapsto> ucast addr] ++ lookup_word ?ch"
    using cluster.insert_ok [OF t(1), of "keys ! n" "ucast addr" ch'] ch' by (simp add: insert_word_def)
  obtain v where "lookup_word ch' (keys ! n) = Some v" using w by (cases "lookup_word ?ch (keys ! n)") (simp_all add: map_add_def)
  then have "rbind (ch_Get ch' (keys ! n)) (deref_value ch') = Inr v" using Get_word [of ch' "keys ! n"] w by simp
  then have "drtmr_load keys n sv = Inr \<lparr>dt_table = ch', dt_data = pd'\<rparr>" using b ch' by (simp add: drtmr_load_def Let_def)
  moreover have "drtmr_loaded keys (Suc n) \<lparr>dt_table = ch', dt_data = pd'\<rparr>"
    using w Insert_counts [OF t(2,4) ch'] c b' pd l addr unfolding drtmr_loaded_def by (simp add: map_of_snoc del: map_of_append)
  ultimately show ?thesis by blast
qed

lemma drtmr_loaded_start:
  assumes n: "16 \<le> length keys" "length keys \<le> 2 ^ 32" and zero: "\<And>i. empty_node (hmem i)" and words: "\<And>i. length (dn_val (dmem i)) = 1"
  shows "drtmr_loaded keys 0 \<lparr>dt_table = RdmaClusterHash hmem dmem (of_nat (length keys)) 8,
    dt_data = PackedData_new junk (of_nat (dbl_trunc (length keys) 5404319552844595 52))\<rparr>"
proof -
  let ?n = "length keys" and ?ch = "RdmaClusterHash hmem dmem (of_nat (length keys)) 8"
  have un: "unat (of_nat ?n :: u64) = ?n" using n(2) by (simp add: unsigned_of_nat take_bit_nat_eq_self)
  have d: "?n \<le> dbl_trunc ?n 5404319552844595 52" "dbl_trunc ?n 5404319552844595 52 \<le> 2 * ?n"
    by (rule dbl_trunc_bounds, use n in \<open>simp_all del: length_greater_0_conv\<close>)+
  have ud: "unat (of_nat (dbl_trunc ?n 5404319552844595 52) :: u64) = dbl_trunc ?n 5404319552844595 52"
    using d(2) n(2) by (simp add: unsigned_of_nat take_bit_nat_eq_self)
  have es: "push_bit 3 (drop_bit 3 (8 - 1) + 1 :: u64) = 8" by simp
  have inv: "ch_inv ?ch" by (rule RdmaClusterHash_inv) (use un n zero words es in simp_all)
  have c: "entrysize ?ch = 8" "unat (ch_length ?ch) = ?n" "unat (Logical_length ?ch) = ?n div 16" "unat (indirect_length ?ch) = ?n div 2" "unat (free_data ?ch) = ?n div 2"
    by (simp_all add: RdmaClusterHash_def Let_def unat_div un)
  have "lookup_word ?ch k = None" for k
  proof -
    obtain r where r: "ch_Get ?ch k = Inr r" "\<And>x. r = Some x \<Longrightarrow> entry_ok (unat (indirect_length ?ch)) (unat (free_data ?ch)) (ch_datas ?ch) k x"
      using Get_ok [OF inv, of k] by blast
    then have "r = None" by (cases r) (auto simp: entry_ok_def c)
    then show ?thesis using r(1) by (simp add: lookup_word_def ch_toMap_def)
  qed
  then have "lookup_word ?ch = Map.empty" ..
  then show ?thesis using inv c RdmaClusterHash_counts [OF zero] d(1) ud PackedData_new_wf
    by (simp add: drtmr_loaded_def word_table_def) (simp add: PackedData_new_def)
qed

lemma drtmr_setup_ok:
  assumes "16 \<le> length keys" "length keys \<le> 2 ^ 32" "\<And>i. empty_node (hmem i)" "\<And>i. length (dn_val (dmem i)) = 1"
  shows "\<exists>sv. setup_cluster_hash_table junk hmem dmem keys = Inr sv \<and> drtmr_loaded keys (length keys) sv"
proof -
  have len: "dbl_trunc (length keys) (2 ^ 52) 52 = length keys" by (rule dbl_trunc_one) (use assms(2) in simp)
  show ?thesis unfolding setup_cluster_hash_table_def Let_def len
    by (rule rfold_upt) (use drtmr_loaded_start drtmr_load_step assms in simp_all)
qed

section \<open>Properties\<close>

lemma first_number:
  assumes "i < n" "\<And>j. j < i \<Longrightarrow> keys ! j \<noteq> keys ! i"
  shows "map_of (map (\<lambda>i. (keys ! i, of_nat i :: u64)) [0..<n]) (keys ! i) = Some (of_nat i)"
proof -
  have u: "[0..<n] = [0..<i] @ i # [Suc i..<n]" using assms(1) by (metis le_add1 less_imp_add_positive upt_add_eq_append upt_conv_Cons add_0 less_imp_le_nat)
  have "map_of (map (\<lambda>i. (keys ! i, of_nat i :: u64)) [0..<i]) (keys ! i) = None" using assms(2) by (force simp: map_of_eq_None_iff)
  then show ?thesis unfolding u by (simp add: map_add_def)
qed



text \<open>The callbacks on the table as a map: a PUT stores a value only for a key that has none, and a PUT of a stored key
  is acknowledged and changes no answer; an UPDATE changes the value of a stored key and nothing else; a GET answers
  with the stored value and reports success unless it is 0.\<close>

theorem drtmr_first_value_stays:
  assumes "word_table (dt_table sv)"
  shows "(\<forall>sv1. drtmr_put sv k v = Inr sv1 \<longrightarrow> word_table (dt_table sv1) \<and> lookup_word (dt_table sv1) = [k \<mapsto> v] ++ lookup_word (dt_table sv)) \<and>
    (\<forall>r sv2. drtmr_update sv k v = Inr (r, sv2) \<longrightarrow> r = \<lparr>rv_status = True, rv_val = v\<rparr> \<and> word_table (dt_table sv2) \<and>
      lookup_word (dt_table sv2) = (if lookup_word (dt_table sv) k = None then lookup_word (dt_table sv) else (lookup_word (dt_table sv))(k \<mapsto> v))) \<and>
    drtmr_get sv k = (case lookup_word (dt_table sv) k of None \<Rightarrow> Inl NullDeref | Some w \<Rightarrow> Inr \<lparr>rv_status = (w \<noteq> 0), rv_val = w\<rparr>)"
proof (intro conjI allI impI)
  fix sv1 assume p: "drtmr_put sv k v = Inr sv1"
  have "word_table (dt_table sv1) \<and> lookup_word (dt_table sv1) = [k \<mapsto> v] ++ lookup_word (dt_table sv)"
    using p cluster.insert_ok [OF assms] by (auto simp: drtmr_put_def insert_word_def elim!: rbindE)
  then show "word_table (dt_table sv1)" "lookup_word (dt_table sv1) = [k \<mapsto> v] ++ lookup_word (dt_table sv)" by simp_all
next
  fix r sv2 assume u: "drtmr_update sv k v = Inr (r, sv2)"
  obtain ch where ch: "update_word k v (dt_table sv) = Inr ch" "r = \<lparr>rv_status = True, rv_val = v\<rparr>" "dt_table sv2 = ch"
    using u by (auto simp: drtmr_update_def update_word_def elim!: rbindE)
  show "r = \<lparr>rv_status = True, rv_val = v\<rparr>" "word_table (dt_table sv2)"
    "lookup_word (dt_table sv2) = (if lookup_word (dt_table sv) k = None then lookup_word (dt_table sv) else (lookup_word (dt_table sv))(k \<mapsto> v))"
    using cluster.update_ok [OF assms ch(1)] ch by simp_all
qed (use Get_word [OF assms, of k] in \<open>auto simp: drtmr_get_def split: option.splits\<close>)

definition small_table :: drtmr_server where
  "small_table = \<lparr>dt_table = RdmaClusterHash (\<lambda>_. \<lparr>hn_next = 0, hn_keys = replicate 16 0, hn_indexes = replicate 16 0\<rparr>)
      (\<lambda>_. \<lparr>dn_key = 0, dn_valid = False, dn_val = [0]\<rparr>) 16 8, dt_data = PackedData_new (\<lambda>_. zero_struct) 19\<rparr>"

lemma small_table_ok:
  "word_table (dt_table small_table)" "lookup_word (dt_table small_table) = Map.empty" "\<exists>sv. drtmr_put small_table k v = Inr sv"
proof -
  have e: "empty_node \<lparr>hn_next = 0, hn_keys = replicate 16 0, hn_indexes = replicate 16 0\<rparr>" by (simp add: empty_node_def node_shape_def CLUSTER_H_def)
  have l: "drtmr_loaded (replicate 16 0) 0 \<lparr>dt_table = dt_table small_table, dt_data = PackedData_new (\<lambda>_. zero_struct) (of_nat (dbl_trunc 16 5404319552844595 52))\<rparr>"
    using drtmr_loaded_start [of "replicate 16 0" "\<lambda>_. \<lparr>hn_next = 0, hn_keys = replicate 16 0, hn_indexes = replicate 16 0\<rparr>"
      "\<lambda>_. \<lparr>dn_key = 0, dn_valid = False, dn_val = [0]\<rparr>"] e by (simp add: small_table_def)
  then show t: "word_table (dt_table small_table)" "lookup_word (dt_table small_table) = Map.empty" by (simp_all add: drtmr_loaded_def)
  have "ch_inv (dt_table small_table)" "entrysize (dt_table small_table) = 8" using t(1) by (simp_all add: word_table_def)
  moreover have "unat (free_data (dt_table small_table)) < unat (total_length (dt_table small_table))"
    "unat (free_indirect (dt_table small_table)) < unat (indirect_length (dt_table small_table))"
    by (simp_all add: small_table_def RdmaClusterHash_def Let_def)
  ultimately have "\<exists>ch. ch_Insert (dt_table small_table) k [v] = Inr ch" by (intro Insert_returns) simp_all
  then show "\<exists>sv. drtmr_put small_table k v = Inr sv" by (auto simp: drtmr_put_def)
qed

theorem drtmr_first_value_stays_witness:
  "\<exists>sv. drtmr_put small_table 5 7 = Inr sv \<and> lookup_word (dt_table sv) = [5 \<mapsto> 7] \<and> drtmr_get small_table 5 = Inl NullDeref"
proof -
  obtain sv where sv: "drtmr_put small_table 5 7 = Inr sv" using small_table_ok(3) by blast
  show ?thesis using drtmr_first_value_stays [OF small_table_ok(1), of 5 7] sv small_table_ok(2) by simp
qed

end
