(* ===== verification/Byte_Blocks.thy ===== *)
theory Byte_Blocks
  imports Rpc
begin

text \<open>
  Arrays of structures in plain memory: what a remote reader copies out of a registered region is bytes, what it casts
  them to are structures of a fixed size.

  The locale \<open>fixed_codec\<close> is the contract of such a structure: its bytes have a fixed number and decode to it. Its client
  lemmas: reading some consecutive elements out of a region gives their bytes, writing the bytes of elements over others
  replaces these and leaves the rest of the region alone.
\<close>

text \<open>What a write leaves in every cell.\<close>

lemma write_at_nth:
  assumes "write_at buf off bs = Inr buf'"
  shows "length buf' = length buf" "off + length bs \<le> length buf"
    "\<And>i. i < length buf \<Longrightarrow> buf' ! i = (if off \<le> i \<and> i < off + length bs then bs ! (i - off) else buf ! i)"
  using assms by (auto simp: write_at_def nth_append min_def split: if_splits)

lemma le_word_2: "ucast (le_word (le_bytes 2 (ucast (w :: u16)))) = w"
proof -
  have "le_word (le_bytes 2 (ucast w)) = ucast w"
    unfolding le_word_le_bytes by (rule bit_word_eqI) (auto simp: bit_simps dest: bit_imp_le_length)
  moreover have "ucast (ucast w :: u64) = w" by (rule bit_word_eqI) (simp add: bit_simps)
  ultimately show ?thesis by simp
qed

locale fixed_codec =
  fixes enc :: "'r \<Rightarrow> u8 list"
    and dec :: "u8 list \<Rightarrow> 'r"
    and sz :: nat
    and ok :: "'r \<Rightarrow> bool"
  assumes length_enc: "ok r \<Longrightarrow> length (enc r) = sz"
    and dec_enc: "ok r \<Longrightarrow> dec (enc r) = r"
begin

lemma length_blocks: "\<forall>r\<in>set rs. ok r \<Longrightarrow> length (concat (map enc rs)) = sz * length rs"
  by (induction rs) (simp_all add: length_enc)

lemma take_blocks: "\<forall>r\<in>set rs. ok r \<Longrightarrow> take (sz * k) (concat (map enc rs)) = concat (map enc (take k rs))"
proof (induction rs arbitrary: k)
  case (Cons r rs)
  then show ?case by (cases k) (simp_all add: length_enc)
qed simp

lemma drop_blocks: "\<forall>r\<in>set rs. ok r \<Longrightarrow> drop (sz * k) (concat (map enc rs)) = concat (map enc (drop k rs))"
proof (induction rs arbitrary: k)
  case (Cons r rs)
  then show ?case by (cases k) (simp_all add: length_enc)
qed simp

lemma read_blocks:
  assumes "\<forall>r\<in>set rs. ok r" "i + k \<le> length rs" "length pre = p"
  shows "take (sz * k) (drop (p + sz * i) (pre @ concat (map enc rs) @ post)) = concat (map enc (take k (drop i rs)))"
proof -
  have ok: "\<forall>r\<in>set (drop i rs). ok r" using assms(1) by (meson in_set_dropD)
  have "sz * i \<le> length (concat (map enc rs))" using length_blocks [OF assms(1)] assms(2) by simp
  then have "drop (p + sz * i) (pre @ concat (map enc rs) @ post) = concat (map enc (drop i rs)) @ post"
    using assms(3) drop_blocks [OF assms(1)] by simp
  moreover have "sz * k \<le> length (concat (map enc (drop i rs)))" using length_blocks [OF ok] assms(2) by auto
  ultimately show ?thesis using take_blocks [OF ok] by simp
qed

lemma read_block:
  assumes "\<forall>r\<in>set rs. ok r" "i < length rs" "length pre = p"
  shows "take sz (drop (p + sz * i) (pre @ concat (map enc rs) @ post)) = enc (rs ! i)"
  using read_blocks [of rs i 1 pre p post] assms by (simp add: take_Suc hd_drop_conv_nth)

lemma write_blocks:
  assumes "\<forall>r\<in>set rs. ok r" "\<forall>r\<in>set ss. ok r" "i + length ss \<le> length rs" "length pre = p"
  shows "write_at (pre @ concat (map enc rs) @ post) (p + sz * i) (concat (map enc ss)) =
    Inr (pre @ concat (map enc (take i rs @ ss @ drop (i + length ss) rs)) @ post)"
proof -
  have l: "length (concat (map enc ss)) = sz * length ss" "length (concat (map enc rs)) = sz * length rs"
    using length_blocks assms(1,2) by blast+
  have "sz * i + sz * length ss \<le> sz * length rs" using mult_le_mono2 [OF assms(3), of sz] by (simp add: algebra_simps)
  then have "write_at (pre @ concat (map enc rs) @ post) (p + sz * i) (concat (map enc ss)) =
    Inr (pre @ take (sz * i) (concat (map enc rs)) @ concat (map enc ss) @ drop (sz * (i + length ss)) (concat (map enc rs)) @ post)"
    using l assms(3,4) by (simp add: write_at_def algebra_simps)
  then show ?thesis by (simp add: take_blocks [OF assms(1)] drop_blocks [OF assms(1)])
qed

lemma write_block:
  assumes "\<forall>r\<in>set rs. ok r" "ok r" "i < length rs" "length pre = p"
  shows "write_at (pre @ concat (map enc rs) @ post) (p + sz * i) (enc r) = Inr (pre @ concat (map enc (rs[i := r])) @ post)"
  using write_blocks [of rs "[r]" i pre p post] assms by (simp add: upd_conv_take_nth_drop)

end

end
