(* ===== verification/Mica.thy ===== *)
theory Mica
  imports Interfaces Murmur Byte_Blocks
begin

text \<open>
  The MICA store of \<open>mica/mica.cc\<close>: an index of buckets of eight slots (used, tag, offset) over a circular log of bytes. The
  log is addressed by virtual offsets that only grow; the physical offset is the virtual one cut by a mask, and an entry
  whose virtual offset lies a whole log behind the head is taken as overwritten. A slot keeps its bit widths; an operation
  is laid out in bytes the way the compiler does, with two bytes of padding before the value.

  Shown, for values of eight bytes as the server stores them: every access to the log is in range, also after the log has
  wrapped; the store is a map that may forget: what was put is found, and every other key keeps its value or is lost.
\<close>

section \<open>Definitions\<close>

record mica_key =
  mk_unused :: u64
  mk_bkt :: u32
  mk_server :: u16
  mk_tag :: u16

record mica_op =
  mo_key :: mica_key
  mo_opcode :: u8
  mo_val_len :: u8
  mo_pad :: "u8 list"      \<comment> \<open>two bytes before the aligned value\<close>
  mo_value :: "u32 list"

record mica_slot =
  ms_in_use :: bool
  ms_tag :: "23 word"
  ms_offset :: "40 word"

record mica_kv =
  ht_index :: "mica_slot list list"
  ht_log :: "u8 list"
  kv_num_bkts :: u32
  bkt_mask :: u32
  log_cap :: u64
  log_mask :: u64
  log_head :: u64
  num_get_op :: int
  num_get_fail :: int
  num_put_op :: int
  num_index_evictions :: int

record mica_resp =
  mr_type :: u8
  mr_val_len :: u8
  mr_val_ptr :: "nat option"   \<comment> \<open>the offset in the log that \<open>val_ptr\<close> points to\<close>

definition MICA_OP_GET :: u8 where "MICA_OP_GET = 111"
definition MICA_OP_PUT :: u8 where "MICA_OP_PUT = 112"
definition MICA_RESP_PUT_SUCCESS :: u8 where "MICA_RESP_PUT_SUCCESS = 113"
definition MICA_RESP_GET_SUCCESS :: u8 where "MICA_RESP_GET_SUCCESS = 114"
definition MICA_RESP_GET_FAIL :: u8 where "MICA_RESP_GET_FAIL = 115"

text \<open>\<open>(64 - (sizeof(struct mica_key) + sizeof(uint8_t) + sizeof(uint8_t)))/4\<close>\<close>

definition MICA_MAX_VALUE :: nat where "MICA_MAX_VALUE = (64 - (16 + 1 + 1)) div 4"

text \<open>The memory of a key and of an operation.\<close>

definition key_bytes :: "mica_key \<Rightarrow> u8 list" where
  "key_bytes k = le_bytes 8 (mk_unused k) @ le_bytes 4 (ucast (mk_bkt k)) @ le_bytes 2 (ucast (mk_server k)) @ le_bytes 2 (ucast (mk_tag k))"

definition value_bytes :: "mica_op \<Rightarrow> u8 list" where
  "value_bytes op = concat (map (\<lambda>w. le_bytes 4 (ucast w)) (mo_value op))"

definition op_mem :: "mica_op \<Rightarrow> u8 list" where
  "op_mem op = key_bytes (mo_key op) @ [mo_opcode op, mo_val_len op] @ mo_pad op @ value_bytes op"

definition is_power_of_2 :: "nat \<Rightarrow> bool" where
  "is_power_of_2 x \<longleftrightarrow> list_ex (\<lambda>i. x = 2 ^ i) [0..<31]"

text \<open>The doubling loop of \<open>mica_init\<close>; after 22 doublings the power is 0 for good, so 33 rounds decide.\<close>

fun power_up :: "nat \<Rightarrow> u32 \<Rightarrow> u32 \<Rightarrow> u32 res" where
  "power_up 0 p n = Inl Diverges"
| "power_up (Suc f) p n = (if p < n then power_up f (p * 2) n else Inr p)"

text \<open>\<open>mica_init\<close>; \<open>junk_slot\<close> and \<open>junk_log\<close> are what \<open>malloc\<close> left in the index and in the log.\<close>

definition mica_init :: "(nat \<Rightarrow> nat \<Rightarrow> mica_slot) \<Rightarrow> (nat \<Rightarrow> u8) \<Rightarrow> nat \<Rightarrow> u32 \<Rightarrow> nat \<Rightarrow> mica_kv res" where
  "mica_init junk_slot junk_log node_id num_bkts cap =
    (if \<not> (node_id = 0 \<or> node_id = 1) then Inl AssertFailed
     else rbind (power_up 33 1024 num_bkts) (\<lambda>n.
       if \<not> (is_power_of_2 (unat n) \<and> unat n \<le> 134217728) then Inl AssertFailed
       else if \<not> (0 < cap \<and> cap \<le> 1073741824 \<and> cap mod 2097152 = 0 \<and> is_power_of_2 cap) then Inl AssertFailed
       else Inr \<lparr>ht_index = map (\<lambda>i. map (\<lambda>j. (junk_slot i j)\<lparr>ms_in_use := False\<rparr>) [0..<8]) [0..<unat n],
              ht_log = map junk_log [0..<cap], kv_num_bkts = n, bkt_mask = n - 1, log_cap = of_nat cap,
              log_mask = of_nat cap - 1, log_head = 0, num_get_op = 0, num_get_fail = 0, num_put_op = 0, num_index_evictions = 0\<rparr>))"

text \<open>The loop that chooses a slot keeps the last one that fits.\<close>

definition slot_to_use :: "mica_slot list \<Rightarrow> u16 \<Rightarrow> nat option" where
  "slot_to_use slots tag =
    fold (\<lambda>i r. if ms_tag (slots ! i) = ucast tag \<or> \<not> ms_in_use (slots ! i) then Some i else r) [0..<8] None"

text \<open>The new head: behind the copy, eight-byte aligned, and moved on to the next lap near the end of the log.\<close>

definition advance_head :: "mica_kv \<Rightarrow> nat \<Rightarrow> u64" where
  "advance_head kv len =
    (let head = (log_head kv + of_nat len + 7) AND NOT 7
     in if log_cap kv - head \<le> of_nat (MICA_MAX_VALUE + 32) then (head + log_cap kv) AND NOT (log_mask kv) else head)"

definition mica_insert_one :: "mica_kv \<Rightarrow> mica_op \<Rightarrow> mica_kv res" where
  "mica_insert_one kv op =
    (let bkt = unat (mk_bkt (mo_key op) AND bkt_mask kv); tag = mk_tag (mo_key op) in
     rbind (aget (ht_index kv) bkt) (\<lambda>slots.
     let (s, evicted) = (case slot_to_use slots tag of Some i \<Rightarrow> (i, 0) | None \<Rightarrow> (unat (tag AND 7), 1));
         slots' = slots[s := \<lparr>ms_in_use = True, ms_tag = ucast tag, ms_offset = ucast (log_head kv)\<rparr>];
         len = 18 + unat (mo_val_len op) in
     if \<not> (2 ^ 40 - log_head kv > of_nat (len + 8)) then Inl AssertFailed
     else rbind (read_at (op_mem op) 0 len) (\<lambda>bytes.
       rbind (write_at (ht_log kv) (unat (log_head kv AND log_mask kv)) bytes) (\<lambda>log.
       Inr (kv\<lparr>ht_index := (ht_index kv)[bkt := slots'], ht_log := log, log_head := advance_head kv len,
               num_put_op := num_put_op kv + 1, num_index_evictions := num_index_evictions kv + evicted\<rparr>)))))"

text \<open>The first two loops of \<open>mica_batch_op\<close>: the place in the log that the tag leads to.\<close>

definition tag_slot :: "mica_slot list \<Rightarrow> u16 \<Rightarrow> nat option" where
  "tag_slot slots tag = find (\<lambda>j. ms_in_use (slots ! j) \<and> ms_tag (slots ! j) = ucast tag) [0..<8]"

definition kv_ptr :: "mica_kv \<Rightarrow> mica_op \<Rightarrow> nat option res" where
  "kv_ptr kv op =
    rbind (aget (ht_index kv) (unat (mk_bkt (mo_key op) AND bkt_mask kv))) (\<lambda>slots.
    Inr (case tag_slot slots (mk_tag (mo_key op)) of
           None \<Rightarrow> None
         | Some j \<Rightarrow> if log_head kv - ucast (ms_offset (slots ! j)) \<ge> log_cap kv then None
                    else Some (unat (ucast (ms_offset (slots ! j)) AND log_mask kv))))"

text \<open>The third loop: compare the keys and answer.\<close>

definition key_in_store :: "mica_kv \<Rightarrow> mica_op \<Rightarrow> nat option \<Rightarrow> bool res" where
  "key_in_store kv op ptr =
    (case ptr of None \<Rightarrow> Inr False
     | Some p \<Rightarrow> rbind (read_at (ht_log kv) p 16) (\<lambda>k. Inr (k = key_bytes (mo_key op))))"

definition answer_hit :: "mica_kv \<Rightarrow> mica_op \<Rightarrow> nat \<Rightarrow> (mica_resp \<times> mica_kv) res" where
  "answer_hit kv op p =
    rbind (aget (ht_log kv) (p + 17)) (\<lambda>len.
    if mo_opcode op = MICA_OP_GET then
      Inr (\<lparr>mr_type = MICA_RESP_GET_SUCCESS, mr_val_len = len, mr_val_ptr = Some (p + 20)\<rparr>, kv\<lparr>num_get_op := num_get_op kv + 1\<rparr>)
    else if mo_val_len op \<noteq> len then Inl AssertFailed
    else rbind (read_at (value_bytes op) 0 (unat len)) (\<lambda>bytes.
      rbind (write_at (ht_log kv) (p + 20) bytes) (\<lambda>log.
      Inr (\<lparr>mr_type = MICA_RESP_PUT_SUCCESS, mr_val_len = 0, mr_val_ptr = None\<rparr>,
           kv\<lparr>ht_log := log, num_put_op := num_put_op kv + 1\<rparr>))))"

definition answer_miss :: "mica_kv \<Rightarrow> mica_op \<Rightarrow> (mica_resp \<times> mica_kv) res" where
  "answer_miss kv op =
    (if mo_opcode op = MICA_OP_GET then
       Inr (\<lparr>mr_type = MICA_RESP_GET_FAIL, mr_val_len = 0, mr_val_ptr = None\<rparr>, kv\<lparr>num_get_fail := num_get_fail kv + 1\<rparr>)
     else rbind (mica_insert_one kv op) (\<lambda>kv'.
       Inr (\<lparr>mr_type = MICA_RESP_PUT_SUCCESS, mr_val_len = 0, mr_val_ptr = None\<rparr>, kv')))"

definition answer_op :: "mica_kv \<Rightarrow> mica_op \<Rightarrow> nat option \<Rightarrow> (mica_resp \<times> mica_kv) res" where
  "answer_op kv op ptr =
    rbind (key_in_store kv op ptr) (\<lambda>found. if found then answer_hit kv op (the ptr) else answer_miss kv op)"

text \<open>The arrays on the stack have room for 32 operations; every place is looked up before the first answer.\<close>

definition mica_batch_op :: "mica_kv \<Rightarrow> mica_op list \<Rightarrow> (mica_resp list \<times> mica_kv) res" where
  "mica_batch_op kv ops =
    (if 32 < length ops then Inl OutOfBounds
     else rbind (rfold (\<lambda>op ps. rbind (kv_ptr kv op) (\<lambda>p. Inr (ps @ [p]))) ops []) (\<lambda>ptrs.
       rfold (\<lambda>(op, p) (resps, kv). rbind (answer_op kv op p) (\<lambda>(r, kv'). Inr (resps @ [r], kv')))
         (zip ops ptrs) ([], kv)))"

section \<open>Bytes\<close>

lemma length_key_bytes [simp]: "length (key_bytes k) = 16"
  by (simp add: key_bytes_def)

text \<open>Equal key bytes mean equal keys.\<close>

lemma key_bytes_inj:
  assumes "key_bytes k = key_bytes k'"
  shows "k = k'"
proof -
  have "le_bytes 8 (mk_unused k) = le_bytes 8 (mk_unused k')" "le_bytes 4 (ucast (mk_bkt k)) = le_bytes 4 (ucast (mk_bkt k'))"
    "le_bytes 2 (ucast (mk_server k)) = le_bytes 2 (ucast (mk_server k'))" "le_bytes 2 (ucast (mk_tag k)) = le_bytes 2 (ucast (mk_tag k'))"
    using assms unfolding key_bytes_def by (simp_all del: le_bytes.simps add: append_eq_append_conv)
  then have "mk_unused k = mk_unused k'" "mk_bkt k = mk_bkt k'" "mk_server k = mk_server k'" "mk_tag k = mk_tag k'"
    by (metis le_word_8, metis le_word_4, metis le_word_2, metis le_word_2)
  then show ?thesis by simp
qed

lemma length_value_bytes [simp]: "length (value_bytes op) = 4 * length (mo_value op)"
  by (simp add: value_bytes_def length_concat comp_def sum_list_triv)

section \<open>Masks\<close>

lemma unat_and_mask:
  "unat ((x :: 'a::len word) AND (2 ^ n - 1)) = unat x mod 2 ^ n"
proof -
  have e: "x AND (2 ^ n - 1) = take_bit n x" unfolding take_bit_eq_mask mask_eq_exp_minus_1 ..
  show ?thesis unfolding e unsigned_take_bit_eq by (rule take_bit_eq_mod)
qed

lemma unat_and_not_mask:
  "unat ((x :: 'a::len word) AND NOT (2 ^ n - 1)) = unat x div 2 ^ n * 2 ^ n"
proof -
  let ?m = "2 ^ n - 1 :: 'a word"
  have "(x AND NOT ?m) + (x AND ?m) = (x AND NOT ?m) OR (x AND ?m)"
    by (rule disjunctive_add_eq_or) (simp add: bit_eq_iff bit_simps)
  also have "\<dots> = x" by (rule bit_word_eqI) (auto simp: bit_simps)
  finally have "x AND NOT ?m = x - (x AND ?m)" by (simp add: eq_diff_eq)
  moreover have "x AND ?m \<le> x" by (simp add: word_le_nat_alt unat_and_mask)
  ultimately have "unat (x AND NOT ?m) = unat x - unat x mod 2 ^ n" by (simp add: unat_sub unat_and_mask)
  then show ?thesis by (simp add: minus_mod_eq_div_mult)
qed

section \<open>The invariant\<close>

abbreviation used_in :: "mica_kv \<Rightarrow> nat \<Rightarrow> nat \<Rightarrow> bool" where
  "used_in kv i s \<equiv> ms_in_use (ht_index kv ! i ! s)"

abbreviation off_in :: "mica_kv \<Rightarrow> nat \<Rightarrow> nat \<Rightarrow> nat" where
  "off_in kv i s \<equiv> unat (ms_offset (ht_index kv ! i ! s))"

text \<open>A bucket: the used slots come last, with different tags.\<close>

definition bkt_ok :: "mica_slot list \<Rightarrow> bool" where
  "bkt_ok slots \<longleftrightarrow> length slots = 8 \<and>
     (\<forall>s<8. \<forall>t<8. ms_in_use (slots ! s) \<longrightarrow> ms_in_use (slots ! t) \<longrightarrow> ms_tag (slots ! s) = ms_tag (slots ! t) \<longrightarrow> s = t) \<and>
     (\<forall>s<8. \<forall>t<8. s < t \<longrightarrow> ms_in_use (slots ! s) \<longrightarrow> ms_in_use (slots ! t))"

text \<open>
  Sizes are powers of two, entries are 32 bytes apart, no two slots share an entry, and every live entry has a value of
  eight bytes. The head never stops 32 bytes before the end of the first lap, where the next wrap would skip a lap.
\<close>

definition mica_sizes :: "nat \<Rightarrow> nat \<Rightarrow> mica_kv \<Rightarrow> bool" where
  "mica_sizes c b kv \<longleftrightarrow> 21 \<le> c \<and> c \<le> 30 \<and> b \<le> 27 \<and> log_cap kv = 2 ^ c \<and> log_mask kv = 2 ^ c - 1 \<and> length (ht_log kv) = 2 ^ c \<and>
     bkt_mask kv = 2 ^ b - 1 \<and> length (ht_index kv) = 2 ^ b \<and> (\<forall>slots\<in>set (ht_index kv). bkt_ok slots) \<and>
     32 dvd unat (log_head kv) \<and> unat (log_head kv) < 2 ^ 40 \<and> unat (log_head kv) + 32 \<noteq> 2 ^ c"

definition mica_inv :: "nat \<Rightarrow> nat \<Rightarrow> mica_kv \<Rightarrow> bool" where
  "mica_inv c b kv \<longleftrightarrow> mica_sizes c b kv \<and>
     (\<forall>i<2 ^ b. \<forall>s<8. used_in kv i s \<longrightarrow> 32 dvd off_in kv i s \<and> off_in kv i s < unat (log_head kv) \<and>
        (unat (log_head kv) - off_in kv i s < 2 ^ c \<longrightarrow> ht_log kv ! (off_in kv i s mod 2 ^ c + 17) = 8)) \<and>
     (\<forall>i<2 ^ b. \<forall>s<8. \<forall>i'<2 ^ b. \<forall>s'<8. used_in kv i s \<longrightarrow> used_in kv i' s' \<longrightarrow> off_in kv i s = off_in kv i' s' \<longrightarrow> i = i' \<and> s = s')"

definition op_ok :: "mica_op \<Rightarrow> bool" where
  "op_ok op \<longleftrightarrow> mo_val_len op = 8 \<and> length (mo_pad op) = 2 \<and> length (mo_value op) = 11"

definition bkt_of :: "nat \<Rightarrow> mica_key \<Rightarrow> nat" where
  "bkt_of b key = unat (mk_bkt key) mod 2 ^ b"

lemma bkt_of_lt: "bkt_of b key < 2 ^ b"
  by (simp add: bkt_of_def)

text \<open>The entry of a key: live, with the tag in its bucket and the key in the log.\<close>

definition entry_of :: "nat \<Rightarrow> nat \<Rightarrow> mica_kv \<Rightarrow> mica_key \<Rightarrow> nat \<Rightarrow> bool" where
  "entry_of c b kv key p \<longleftrightarrow> (\<exists>s<8. used_in kv (bkt_of b key) s \<and> ms_tag (ht_index kv ! bkt_of b key ! s) = ucast (mk_tag key) \<and>
     unat (log_head kv) - off_in kv (bkt_of b key) s < 2 ^ c \<and> p = off_in kv (bkt_of b key) s mod 2 ^ c \<and>
     take 16 (drop p (ht_log kv)) = key_bytes key)"

definition kv_find :: "nat \<Rightarrow> nat \<Rightarrow> mica_kv \<Rightarrow> mica_key \<Rightarrow> nat option" where
  "kv_find c b kv key = find (entry_of c b kv key)
     (map (\<lambda>s. off_in kv (bkt_of b key) s mod 2 ^ c) [0..<8])"

lemma find_unique:
  assumes "\<And>x y. x \<in> set xs \<Longrightarrow> y \<in> set xs \<Longrightarrow> P x \<Longrightarrow> P y \<Longrightarrow> x = y"
  shows "find P xs = Some x \<longleftrightarrow> x \<in> set xs \<and> P x"
  using assms by (induction xs) auto

lemma mica_bkt:
  assumes "mica_inv c b kv" "i < 2 ^ b"
  shows "bkt_ok (ht_index kv ! i)"
  using assms by (simp add: mica_inv_def mica_sizes_def)

lemma entry_of_unique:
  assumes "mica_inv c b kv" "entry_of c b kv key p" "entry_of c b kv key q"
  shows "p = q"
  using mica_bkt [OF assms(1) bkt_of_lt, of key] assms(2,3) unfolding entry_of_def bkt_ok_def by metis

lemma kv_find_iff:
  assumes "mica_inv c b kv"
  shows "kv_find c b kv key = Some p \<longleftrightarrow> entry_of c b kv key p"
proof -
  have "p \<in> set (map (\<lambda>s. off_in kv (bkt_of b key) s mod 2 ^ c) [0..<8])" if "entry_of c b kv key p" using that by (auto simp: entry_of_def)
  then show ?thesis unfolding kv_find_def using find_unique [of _ "entry_of c b kv key" p] entry_of_unique [OF assms] by blast
qed

lemma kv_find_None: "mica_inv c b kv \<Longrightarrow> kv_find c b kv key = None \<longleftrightarrow> (\<forall>p. \<not> entry_of c b kv key p)"
  by (metis kv_find_iff not_None_eq)

text \<open>The place of an entry: in range, 32 bytes apart from any other.\<close>

lemma block_place:
  assumes "32 dvd (x :: nat)" "5 \<le> c"
  shows "x mod 2 ^ c + 32 \<le> 2 ^ c" "32 dvd x mod 2 ^ c"
proof -
  have "(32 :: nat) dvd 2 ^ c" using le_imp_power_dvd [OF assms(2), of "2 :: nat"] by simp
  then show d: "32 dvd x mod 2 ^ c" using assms(1) by (simp add: dvd_mod_iff)
  obtain k m where "x mod 2 ^ c = 32 * k" "(2 :: nat) ^ c = 32 * m" using d \<open>32 dvd 2 ^ c\<close> by (elim dvdE)
  moreover have "x mod 2 ^ c < 2 ^ c" by simp
  ultimately show "x mod 2 ^ c + 32 \<le> 2 ^ c" by simp
qed

lemma near_mod_inj:
  assumes "(x :: nat) \<le> y" "y - x < n" "x mod n = y mod n"
  shows "x = y"
proof -
  have "n dvd y - x" using assms(1,3) by (metis mod_eq_dvd_iff_nat)
  then show ?thesis using assms(1,2) by (metis diff_is_0_eq dvd_imp_le le_antisym not_le neq0_conv)
qed

lemma blocks_apart:
  assumes "32 dvd (p :: nat)" "32 dvd q" "p \<noteq> q" "p \<le> i" "i < p + 32"
  shows "\<not> (q \<le> i \<and> i < q + 32)"
  using assms by (auto elim!: dvdE)

section \<open>Insertion\<close>

lemma fold_last_Some:
  "fold (\<lambda>i r. if P i then Some i else r) [0..<n] None = Some i \<longleftrightarrow> i < n \<and> P i \<and> (\<forall>j. i < j \<longrightarrow> j < n \<longrightarrow> \<not> P j)"
  by (induction n) (auto simp: less_Suc_eq)

lemma fold_last_None:
  "fold (\<lambda>i r. if P i then Some i else r) [0..<n] None = None \<longleftrightarrow> (\<forall>i<n. \<not> P i)"
  by (induction n) (auto simp: less_Suc_eq)

definition chosen_slot :: "mica_slot list \<Rightarrow> u16 \<Rightarrow> nat" where
  "chosen_slot slots tag = (case slot_to_use slots tag of Some i \<Rightarrow> i | None \<Rightarrow> unat (tag AND 7))"

text \<open>No other used slot of the bucket has the tag, and the used slots stay at the end.\<close>

lemma chosen_slot_ok:
  assumes ok: "bkt_ok slots" and new: "ms_in_use new" "ms_tag new = ucast tag"
  shows "chosen_slot slots tag < 8" "\<And>j. j < 8 \<Longrightarrow> j \<noteq> chosen_slot slots tag \<Longrightarrow> ms_in_use (slots ! j) \<Longrightarrow> ms_tag (slots ! j) \<noteq> ucast tag"
    "bkt_ok (slots[chosen_slot slots tag := new])"
proof -
  let ?s = "chosen_slot slots tag" and ?P = "\<lambda>i. ms_tag (slots ! i) = ucast tag \<or> \<not> ms_in_use (slots ! i)"
  have tags: "s = t" if "s < 8" "t < 8" "ms_in_use (slots ! s)" "ms_in_use (slots ! t)" "ms_tag (slots ! s) = ms_tag (slots ! t)" for s t
    using ok that unfolding bkt_ok_def by blast
  have suf: "ms_in_use (slots ! t)" if "s < t" "t < 8" "ms_in_use (slots ! s)" for s t using ok that unfolding bkt_ok_def by (metis less_trans)
  have seven: "unat (tag AND 7) < 8" using and_mask_lt [of tag 3] by simp
  show lt: "?s < 8" using seven by (auto simp: chosen_slot_def slot_to_use_def fold_last_Some split: option.splits)
  have above: "ms_in_use (slots ! j)" if "?s < j" "j < 8" for j
    using that by (auto simp: chosen_slot_def slot_to_use_def fold_last_Some fold_last_None split: option.splits)
  show other: "ms_tag (slots ! j) \<noteq> ucast tag" if j: "j < 8" "j \<noteq> ?s" "ms_in_use (slots ! j)" for j
  proof (cases "slot_to_use slots tag")
    case None
    then show ?thesis using j(1) by (auto simp: slot_to_use_def fold_last_None)
  next
    case (Some i)
    then have "?s = i" by (simp add: chosen_slot_def)
    moreover have "i < 8" "?P i" "\<And>j. i < j \<Longrightarrow> j < 8 \<Longrightarrow> \<not> ?P j" using Some by (simp_all add: slot_to_use_def fold_last_Some)
    ultimately have i: "?s = i" "i < 8" "?P i" "\<And>j. i < j \<Longrightarrow> j < 8 \<Longrightarrow> \<not> ?P j" by blast+
    show ?thesis
    proof (cases "j < i")
      case True
      then have "ms_in_use (slots ! i)" using suf j i(2) by blast
      then show ?thesis using i(3) tags [OF j(1) i(2) j(3)] True by auto
    next
      case False
      then show ?thesis using i(1,4) j by (metis linorder_neqE_nat)
    qed
  qed
  have len: "length slots = 8" using ok by (simp add: bkt_ok_def)
  have n: "slots[?s := new] ! j = (if j = ?s then new else slots ! j)" if "j < 8" for j using that len lt by simp
  show "bkt_ok (slots[?s := new])" unfolding bkt_ok_def
  proof (intro conjI allI impI)
    show "length (slots[?s := new]) = 8" using len by simp
    show "s = t" if "s < 8" "t < 8" "ms_in_use (slots[?s := new] ! s)" "ms_in_use (slots[?s := new] ! t)"
        "ms_tag (slots[?s := new] ! s) = ms_tag (slots[?s := new] ! t)" for s t
    proof (cases "s = ?s \<or> t = ?s")
      case True
      then show ?thesis using that(3,4,5) other [OF that(1)] other [OF that(2)] new unfolding n [OF that(1)] n [OF that(2)] by metis
    next
      case False
      then show ?thesis using that(3,4,5) tags [OF that(1,2)] unfolding n [OF that(1)] n [OF that(2)] by simp
    qed
    show "ms_in_use (slots[?s := new] ! t)" if "s < 8" "t < 8" "s < t" "ms_in_use (slots[?s := new] ! s)" for s t
      using that n [OF that(1)] n [OF that(2)] suf [OF that(3,2)] above [of t] new by (auto split: if_splits)
  qed
qed

text \<open>The head moves by 32 bytes, or by 64 at the end of the first lap.\<close>

lemma advance_head_ok:
  assumes inv: "mica_sizes c b kv" and room: "unat (log_head kv) + 34 < 2 ^ 40"
  shows "unat (log_head kv) + 32 \<le> unat (advance_head kv 26)" "32 dvd unat (advance_head kv 26)"
    "unat (advance_head kv 26) - unat (log_head kv) < 2 ^ c" "unat (advance_head kv 26) < 2 ^ 40" "unat (advance_head kv 26) + 32 \<noteq> 2 ^ c"
    "unat (advance_head kv 26) \<le> unat (log_head kv) + 64"
proof -
  let ?h = "unat (log_head kv)"
  have s: "21 \<le> c" "c \<le> 30" "log_cap kv = 2 ^ c" "log_mask kv = 2 ^ c - 1" "32 dvd ?h" "?h + 32 \<noteq> 2 ^ c" using inv by (simp_all add: mica_sizes_def)
  have c: "(2 :: nat) ^ 21 \<le> 2 ^ c" "(2 :: nat) ^ c \<le> 2 ^ 30" using s(1,2) by (intro power_increasing; simp)+
  define h1 where "h1 = (log_head kv + of_nat 26 + 7) AND NOT 7"
  have adv: "advance_head kv 26 = (if 2 ^ c - h1 \<le> of_nat (MICA_MAX_VALUE + 32) then (h1 + 2 ^ c) AND NOT (2 ^ c - 1) else h1)"
    unfolding advance_head_def Let_def h1_def s(3,4) ..
  have u: "unat (log_head kv + of_nat 26 + 7) = ?h + 33" using room by (simp add: unat_word_ariths)
  obtain k where k: "?h = 32 * k" using s(5) by (elim dvdE)
  have h1: "unat h1 = ?h + 32"
  proof -
    have "unat h1 = (?h + 33) div 8 * 8" unfolding h1_def using unat_and_not_mask [of "log_head kv + of_nat 26 + 7" 3] u by simp
    also have "\<dots> = ?h + 32" unfolding k by presburger
    finally show ?thesis .
  qed
  have cap: "unat (2 ^ c :: u64) = 2 ^ c" using s(2) by (simp add: unat_exp)
  have d32: "(32 :: nat) dvd 2 ^ c" using le_imp_power_dvd [of 5 c "2 :: nat"] s(1) by simp
  have c43: "unat (of_nat (MICA_MAX_VALUE + 32) :: u64) = 43" by (simp add: MICA_MAX_VALUE_def)
  have wrap: "(2 ^ c - h1 \<le> of_nat (MICA_MAX_VALUE + 32)) \<longleftrightarrow> ?h + 64 = 2 ^ c"
  proof (cases "?h + 32 \<le> 2 ^ c")
    case True
    then have "unat (2 ^ c - h1) = 2 ^ c - (?h + 32)" using h1 cap by (simp add: unat_sub word_le_nat_alt)
    moreover obtain m where m: "(2 :: nat) ^ c = 32 * m" using d32 by (elim dvdE)
    moreover obtain d where "m = k + 2 + d" using True s(6) unfolding m k by (metis add_2_eq_Suc' add_Suc_right le_Suc_ex less_eq_Suc_le
        mult_Suc_right mult_le_cancel1 nat_less_le add.commute zero_less_numeral)
    ultimately show ?thesis unfolding word_le_nat_alt c43 k by (cases d) simp_all
  next
    case False
    then have lt: "(2 ^ c :: u64) < h1" using h1 cap by (simp add: word_less_nat_alt)
    have "unat (2 ^ c - h1) = 2 ^ 64 + 2 ^ c - (?h + 32)" using lt h1 cap unat_sub_if' [of "2 ^ c" h1] by (simp add: word_le_nat_alt False)
    then show ?thesis unfolding word_le_nat_alt c43 using False room by simp
  qed
  have "unat (advance_head kv 26) = (if ?h + 64 = 2 ^ c then 2 ^ c else ?h + 32)"
  proof (cases "?h + 64 = 2 ^ c")
    case True
    have sum: "unat (h1 + 2 ^ c) = (2 ^ c - 32) + 2 ^ c" using h1 cap True c(2) by (simp add: unat_word_ariths)
    have "unat ((h1 + 2 ^ c) AND NOT (2 ^ c - 1)) = ((2 ^ c - 32) + 2 ^ c) div 2 ^ c * 2 ^ c" using unat_and_not_mask [of "h1 + 2 ^ c" c] sum by simp
    also have "((2 ^ c - 32) + 2 ^ c) div 2 ^ c = (1 :: nat)" by (rule div_nat_eqI) (use c(1) in simp_all)
    finally show ?thesis unfolding adv wrap using True by simp
  next
    case False
    then show ?thesis unfolding adv wrap using h1 by simp
  qed
  then show "?h + 32 \<le> unat (advance_head kv 26)" "32 dvd unat (advance_head kv 26)" "unat (advance_head kv 26) - ?h < 2 ^ c"
    "unat (advance_head kv 26) < 2 ^ 40" "unat (advance_head kv 26) + 32 \<noteq> 2 ^ c" "unat (advance_head kv 26) \<le> ?h + 64"
    using s(5) d32 c room by (auto simp: dvd_add)
qed

text \<open>What an insertion that returns does to the index, the log and the head.\<close>

lemma length_op_mem: "op_ok op \<Longrightarrow> length (op_mem op) = 64"
  by (simp add: op_mem_def op_ok_def)

lemma insert_one_cases:
  assumes inv: "mica_inv c b kv" and op: "op_ok op" and ins: "mica_insert_one kv op = Inr kv'"
  obtains s where "s = chosen_slot (ht_index kv ! bkt_of b (mo_key op)) (mk_tag (mo_key op))"
    "unat (log_head kv) + 34 < 2 ^ 40"
    "ht_index kv' = (ht_index kv)[bkt_of b (mo_key op) := (ht_index kv ! bkt_of b (mo_key op))[s :=
       \<lparr>ms_in_use = True, ms_tag = ucast (mk_tag (mo_key op)), ms_offset = ucast (log_head kv)\<rparr>]]"
    "write_at (ht_log kv) (unat (log_head kv) mod 2 ^ c) (take 26 (op_mem op)) = Inr (ht_log kv')"
    "log_head kv' = advance_head kv 26" "log_cap kv' = log_cap kv" "log_mask kv' = log_mask kv" "bkt_mask kv' = bkt_mask kv"
proof -
  have z: "log_mask kv = 2 ^ c - 1" "bkt_mask kv = 2 ^ b - 1" "length (ht_index kv) = 2 ^ b" "unat (log_head kv) < 2 ^ 40" "c \<le> 30"
    using inv by (simp_all add: mica_inv_def mica_sizes_def)
  have i: "unat (mk_bkt (mo_key op) AND bkt_mask kv) = bkt_of b (mo_key op)" unfolding z bkt_of_def by (rule unat_and_mask)
  have q: "unat (log_head kv AND log_mask kv) = unat (log_head kv) mod 2 ^ c" unfolding z by (rule unat_and_mask)
  have len: "18 + unat (mo_val_len op) = 26" using op by (simp add: op_ok_def)
  have r: "read_at (op_mem op) 0 26 = Inr (take 26 (op_mem op))" using length_op_mem [OF op] by (simp add: read_at_def)
  have u: "unat (2 ^ 40 - log_head kv) = 2 ^ 40 - unat (log_head kv)"
  proof -
    have "log_head kv \<le> 2 ^ 40" using z(4) by (simp add: word_le_nat_alt)
    from unat_sub [OF this] show ?thesis by simp
  qed
  have lt: "bkt_of b (mo_key op) < length (ht_index kv)" using bkt_of_lt z(3) by simp
  have room: "unat (log_head kv) + 34 < 2 ^ 40"
  proof -
    have "2 ^ 40 - log_head kv > of_nat (26 + 8)" using ins unfolding mica_insert_one_def i len by (auto simp: lt Let_def split: prod.splits if_splits)
    then show ?thesis unfolding word_less_nat_alt u by (simp add: less_diff_conv)
  qed
  obtain log where log: "write_at (ht_log kv) (unat (log_head kv) mod 2 ^ c) (take 26 (op_mem op)) = Inr log"
    using ins unfolding mica_insert_one_def i len q by (auto simp: lt r Let_def elim!: rbindE split: prod.splits if_splits)
  show thesis
    by (rule that [OF refl room])
      (use ins log in \<open>auto simp: mica_insert_one_def i len q lt r Let_def chosen_slot_def elim!: rbindE split: prod.splits if_splits option.splits\<close>)
qed

text \<open>In the bytes of an entry: the key, the length, and the first word of the value.\<close>

lemma op_mem_parts:
  assumes "op_ok op"
  shows "take 16 (take 26 (op_mem op)) = key_bytes (mo_key op)" "take 26 (op_mem op) ! 17 = 8"
    "take 4 (drop 20 (take 26 (op_mem op))) = le_bytes 4 (ucast (mo_value op ! 0))"
proof -
  obtain x y where pad: "mo_pad op = [x, y]" using assms by (auto simp: op_ok_def length_Suc_conv numeral_2_eq_2)
  obtain w ws where val: "mo_value op = w # ws" using assms by (cases "mo_value op") (auto simp: op_ok_def)
  have m: "op_mem op = key_bytes (mo_key op) @ [mo_opcode op, mo_val_len op, x, y] @ le_bytes 4 (ucast w) @ concat (map (\<lambda>w. le_bytes 4 (ucast w)) ws)"
    by (simp add: op_mem_def pad value_bytes_def val del: le_bytes.simps)
  show "take 16 (take 26 (op_mem op)) = key_bytes (mo_key op)" unfolding m by (simp del: le_bytes.simps)
  show "take 26 (op_mem op) ! 17 = 8" unfolding m using assms by (simp add: nth_append op_ok_def del: le_bytes.simps)
  show "take 4 (drop 20 (take 26 (op_mem op))) = le_bytes 4 (ucast (mo_value op ! 0))" unfolding m by (simp add: val del: le_bytes.simps)
qed

lemma nth_slice_eqI:
  assumes "length xs = length ys" "p + n \<le> length xs" "\<And>i. p \<le> i \<Longrightarrow> i < p + n \<Longrightarrow> xs ! i = ys ! i"
  shows "take n (drop p xs) = take n (drop p ys)"
  using assms by (intro nth_equalityI) simp_all

definition kv_value :: "mica_kv \<Rightarrow> nat \<Rightarrow> u32" where
  "kv_value kv p = ucast (le_word (take 4 (drop (p + 20) (ht_log kv))))"

definition kv_lookup :: "nat \<Rightarrow> nat \<Rightarrow> mica_kv \<Rightarrow> mica_key \<Rightarrow> u32 option" where
  "kv_lookup c b kv key = map_option (kv_value kv) (kv_find c b kv key)"

lemma mica_slotD:
  assumes "mica_inv c b kv" "i < 2 ^ b" "s < 8" "used_in kv i s"
  shows "32 dvd off_in kv i s" "off_in kv i s < unat (log_head kv)"
    "unat (log_head kv) - off_in kv i s < 2 ^ c \<Longrightarrow> ht_log kv ! (off_in kv i s mod 2 ^ c + 17) = 8"
    "off_in kv i s mod 2 ^ c + 32 \<le> 2 ^ c" "32 dvd off_in kv i s mod 2 ^ c"
proof -
  show d: "32 dvd off_in kv i s" and "off_in kv i s < unat (log_head kv)"
    and "unat (log_head kv) - off_in kv i s < 2 ^ c \<Longrightarrow> ht_log kv ! (off_in kv i s mod 2 ^ c + 17) = 8"
    using assms by (simp_all add: mica_inv_def)
  have "5 \<le> c" using assms(1) by (simp add: mica_inv_def mica_sizes_def)
  then show "off_in kv i s mod 2 ^ c + 32 \<le> 2 ^ c" "32 dvd off_in kv i s mod 2 ^ c" using block_place [OF d] by simp_all
qed

lemma entry_ofD:
  assumes "mica_inv c b kv" "entry_of c b kv key p"
  shows "p + 32 \<le> 2 ^ c" "32 dvd p" "ht_log kv ! (p + 17) = 8" "take 16 (drop p (ht_log kv)) = key_bytes key"
  using assms(2) mica_slotD [OF assms(1) bkt_of_lt] by (auto simp: entry_of_def)

lemma insert_one_ok:
  assumes inv: "mica_inv c b kv" and op: "op_ok op" and ins: "mica_insert_one kv op = Inr kv'"
  shows "mica_inv c b kv'" "kv_lookup c b kv' (mo_key op) = Some (mo_value op ! 0)"
    "\<And>key p. entry_of c b kv' key p \<Longrightarrow> key \<noteq> mo_key op \<Longrightarrow> entry_of c b kv key p \<and> kv_value kv' p = kv_value kv p"
    "unat (log_head kv') \<le> unat (log_head kv) + 64"
proof -
  let ?i = "bkt_of b (mo_key op)" and ?q = "unat (log_head kv) mod 2 ^ c" and ?h = "unat (log_head kv)"
  let ?new = "\<lparr>ms_in_use = True, ms_tag = ucast (mk_tag (mo_key op)), ms_offset = ucast (log_head kv)\<rparr>"
  obtain s where s: "s = chosen_slot (ht_index kv ! ?i) (mk_tag (mo_key op))" and room: "?h + 34 < 2 ^ 40"
    and idx: "ht_index kv' = (ht_index kv)[?i := (ht_index kv ! ?i)[s := ?new]]"
    and log: "write_at (ht_log kv) ?q (take 26 (op_mem op)) = Inr (ht_log kv')"
    and hd: "log_head kv' = advance_head kv 26" and same: "log_cap kv' = log_cap kv" "log_mask kv' = log_mask kv" "bkt_mask kv' = bkt_mask kv"
    by (rule insert_one_cases [OF inv op ins])
  have sz: "mica_sizes c b kv" using inv by (simp add: mica_inv_def)
  then have z: "length (ht_index kv) = 2 ^ b" "length (ht_log kv) = 2 ^ c" "32 dvd ?h" "5 \<le> c" "?h < 2 ^ 40" by (simp_all add: mica_sizes_def)
  note ch = chosen_slot_ok [OF mica_bkt [OF inv bkt_of_lt [of b "mo_key op"]], of ?new "mk_tag (mo_key op)", simplified, folded s]
  note adv = advance_head_ok [OF sz room, folded hd] and w = write_at_nth [OF log] and parts = op_mem_parts [OF op]
  have q: "?q + 32 \<le> 2 ^ c" "32 dvd ?q" using block_place [OF z(3,4)] .
  show "unat (log_head kv') \<le> ?h + 64" by (rule adv(6))
  have len8: "length (ht_index kv ! ?i) = 8" using mica_bkt [OF inv bkt_of_lt] by (simp add: bkt_ok_def)
  have len26: "length (take 26 (op_mem op)) = 26" using length_op_mem [OF op] by simp
  have sl: "ht_index kv' ! i ! t = (if i = ?i \<and> t = s then ?new else ht_index kv ! i ! t)" if "i < 2 ^ b" "t < 8" for i t
    using that z(1) bkt_of_lt [of b "mo_key op"] len8 ch(1) unfolding idx by (cases "i = ?i") simp_all
  have off: "unat (ms_offset ?new) = ?h" using z(5) by (simp add: unsigned_ucast_eq unsigned_take_bit_eq take_bit_nat_eq_self)
  have wq: "take 16 (drop ?q (ht_log kv')) = key_bytes (mo_key op)" "ht_log kv' ! (?q + 17) = 8"
    "take 4 (drop (?q + 20) (ht_log kv')) = le_bytes 4 (ucast (mo_value op ! 0))"
  proof -
    have d: "drop ?q (ht_log kv') = take 26 (op_mem op) @ drop (?q + 26) (ht_log kv)"
    proof -
      have "ht_log kv' = take ?q (ht_log kv) @ take 26 (op_mem op) @ drop (?q + 26) (ht_log kv)"
        using log len26 by (auto simp: write_at_def split: if_splits)
      then show ?thesis using q(1) z(2) by simp
    qed
    show "take 16 (drop ?q (ht_log kv')) = key_bytes (mo_key op)" unfolding d using parts(1) len26 by simp
    have "ht_log kv' ! (?q + 17) = drop ?q (ht_log kv') ! 17" using q(1) w(1) z(2) by simp
    then show "ht_log kv' ! (?q + 17) = 8" unfolding d using parts(2) length_op_mem [OF op] by (simp add: nth_append)
    have "drop (?q + 20) (ht_log kv') = drop 20 (drop ?q (ht_log kv'))" by (simp add: add.commute)
    then show "take 4 (drop (?q + 20) (ht_log kv')) = le_bytes 4 (ucast (mo_value op ! 0))" unfolding d using parts(3) len26 by simp
  qed
  have keep: "ht_log kv' ! j = ht_log kv ! j" if "i < 2 ^ b" "t < 8" "used_in kv i t" "?h - off_in kv i t < 2 ^ c"
      "off_in kv i t mod 2 ^ c \<le> j" "j < off_in kv i t mod 2 ^ c + 32" for i t j
  proof -
    note m = mica_slotD [OF inv that(1-3)]
    have "off_in kv i t mod 2 ^ c \<noteq> ?q" using near_mod_inj [of "off_in kv i t" ?h "2 ^ c"] m(2) that(4) by auto
    from blocks_apart [OF m(5) q(2) this that(5,6)] show ?thesis using w(3) [of j] m(4) that(6) z(2) len26 by auto
  qed
  have cl: "(i = ?i \<and> t = s \<and> off_in kv' i t = ?h) \<or> (used_in kv i t \<and> off_in kv' i t = off_in kv i t \<and> off_in kv i t < ?h)"
    if "i < 2 ^ b" "t < 8" "used_in kv' i t" for i t
    using that(3) off mica_slotD(2) [OF inv that(1,2)] unfolding sl [OF that(1,2)] by (cases "i = ?i \<and> t = s") simp_all
  have live: "?h - x < 2 ^ c" if "unat (log_head kv') - x < 2 ^ c" for x using that adv(1) by linarith
  have "bkt_ok slots" if "slots \<in> set (ht_index kv')" for slots
    using that sz ch(3) set_update_subset_insert [of "ht_index kv" ?i "(ht_index kv ! ?i)[s := ?new]"] unfolding idx mica_sizes_def by auto
  then have sz': "mica_sizes c b kv'" using sz adv w(1) unfolding mica_sizes_def same by (simp add: idx)
  show inv': "mica_inv c b kv'" unfolding mica_inv_def
  proof (intro conjI allI impI)
    fix i t assume i: "i < 2 ^ b" "t < 8" "used_in kv' i t"
    have c: "(i = ?i \<and> t = s) \<or> (used_in kv i t \<and> ht_index kv' ! i ! t = ht_index kv ! i ! t)" using i(3) unfolding sl [OF i(1,2)] by (auto split: if_splits)
    show "32 dvd off_in kv' i t" "off_in kv' i t < unat (log_head kv')"
      using c off z(3) adv(1) mica_slotD(1,2) [OF inv i(1,2)] unfolding sl [OF i(1,2)] by auto
    show "ht_log kv' ! (off_in kv' i t mod 2 ^ c + 17) = 8" if l: "unat (log_head kv') - off_in kv' i t < 2 ^ c"
      using c
    proof (elim disjE conjE)
      assume "i = ?i" "t = s"
      then show ?thesis using wq(2) off sl [OF i(1,2)] by simp
    next
      assume o: "used_in kv i t" "ht_index kv' ! i ! t = ht_index kv ! i ! t"
      have l': "?h - off_in kv i t < 2 ^ c" using live l unfolding o(2) .
      show ?thesis unfolding o(2) using keep [OF i(1,2) o(1) l'] mica_slotD(3) [OF inv i(1,2) o(1) l'] by simp
    qed
    fix i' t' assume i': "i' < 2 ^ b" "t' < 8" "used_in kv' i' t'" "off_in kv' i t = off_in kv' i' t'"
    have "i = i' \<and> t = t'" using cl [OF i] cl [OF i'(1-3)] i'(4)
    proof (elim disjE conjE)
      assume "used_in kv i t" "used_in kv i' t'" "off_in kv' i t = off_in kv i t" "off_in kv' i' t' = off_in kv i' t'"
      then show ?thesis using inv i(1,2) i'(1,2,4) unfolding mica_inv_def by metis
    qed simp_all
    then show "i = i'" "t = t'" by simp_all
  qed (rule sz')
  have ent: "entry_of c b kv' (mo_key op) ?q" unfolding entry_of_def
    using ch(1) sl [OF bkt_of_lt ch(1), of "mo_key op"] off wq(1) adv(3) by (intro exI [of _ s]) simp
  then have "kv_find c b kv' (mo_key op) = Some ?q" using kv_find_iff [OF inv'] by blast
  then show "kv_lookup c b kv' (mo_key op) = Some (mo_value op ! 0)" by (simp add: kv_lookup_def kv_value_def wq(3))
  show "entry_of c b kv key p \<and> kv_value kv' p = kv_value kv p" if e: "entry_of c b kv' key p" "key \<noteq> mo_key op" for key p
  proof -
    obtain t where t: "t < 8" "used_in kv' (bkt_of b key) t" "ms_tag (ht_index kv' ! bkt_of b key ! t) = ucast (mk_tag key)"
      "unat (log_head kv') - off_in kv' (bkt_of b key) t < 2 ^ c" "p = off_in kv' (bkt_of b key) t mod 2 ^ c" "take 16 (drop p (ht_log kv')) = key_bytes key"
      using e(1) unfolding entry_of_def by blast
    have "\<not> (bkt_of b key = ?i \<and> t = s)"
    proof
      assume "bkt_of b key = ?i \<and> t = s"
      then have "p = ?q" using t(5) sl [OF bkt_of_lt t(1)] off by simp
      then show False using t(6) wq(1) key_bytes_inj e(2) by metis
    qed
    then have o: "ht_index kv' ! bkt_of b key ! t = ht_index kv ! bkt_of b key ! t" using sl [OF bkt_of_lt t(1), of key] by (auto split: if_splits)
    note t = t [unfolded o]
    have k: "ht_log kv' ! j = ht_log kv ! j" if "p \<le> j" "j < p + 32" for j
      using keep [OF bkt_of_lt t(1,2) live [OF t(4)]] that t(5) by simp
    have p: "p + 32 \<le> 2 ^ c" using mica_slotD(4) [OF inv bkt_of_lt t(1,2)] t(5) by simp
    have "take 16 (drop p (ht_log kv')) = take 16 (drop p (ht_log kv))" using w(1) p z(2) k by (intro nth_slice_eqI) simp_all
    moreover have "take 4 (drop (p + 20) (ht_log kv')) = take 4 (drop (p + 20) (ht_log kv))" using w(1) p z(2) k by (intro nth_slice_eqI) simp_all
    ultimately show ?thesis using t live [OF t(4)] unfolding entry_of_def kv_value_def by metis
  qed
qed

section \<open>One operation\<close>

text \<open>The place that the tag leads to, and whether the key is there.\<close>

lemma kv_ptr_ok:
  assumes inv: "mica_inv c b kv"
  obtains ptr where "kv_ptr kv op = Inr ptr" "key_in_store kv op ptr = Inr (kv_find c b kv (mo_key op) \<noteq> None)"
    "kv_find c b kv (mo_key op) \<noteq> None \<Longrightarrow> ptr = kv_find c b kv (mo_key op)"
proof -
  let ?key = "mo_key op" and ?h = "unat (log_head kv)"
  let ?i = "bkt_of b ?key"
  let ?slots = "ht_index kv ! ?i"
  have z: "length (ht_index kv) = 2 ^ b" "length (ht_log kv) = 2 ^ c" "log_cap kv = 2 ^ c" "log_mask kv = 2 ^ c - 1" "bkt_mask kv = 2 ^ b - 1" "c \<le> 30"
    using inv by (simp_all add: mica_inv_def mica_sizes_def)
  have i: "unat (mk_bkt ?key AND bkt_mask kv) = ?i" unfolding z bkt_of_def by (rule unat_and_mask)
  have ok: "bkt_ok ?slots" by (rule mica_bkt [OF inv bkt_of_lt])
  let ?ptr = "case tag_slot ?slots (mk_tag ?key) of None \<Rightarrow> None
     | Some j \<Rightarrow> if log_head kv - ucast (ms_offset (?slots ! j)) \<ge> log_cap kv then None else Some (unat (ucast (ms_offset (?slots ! j)) AND log_mask kv))"
  have ptr: "kv_ptr kv op = Inr ?ptr" unfolding kv_ptr_def i using bkt_of_lt [of b ?key] z(1) by simp
  have uniq: "x = y" if "x < 8" "y < 8" "ms_in_use (?slots ! x)" "ms_in_use (?slots ! y)" "ms_tag (?slots ! x) = ms_tag (?slots ! y)" for x y
    using ok that unfolding bkt_ok_def by blast
  have p: "?ptr = Some p \<longleftrightarrow> (\<exists>s<8. used_in kv ?i s \<and> ms_tag (?slots ! s) = ucast (mk_tag ?key) \<and> ?h - off_in kv ?i s < 2 ^ c \<and> p = off_in kv ?i s mod 2 ^ c)" for p
  proof -
    have t: "tag_slot ?slots (mk_tag ?key) = Some j \<longleftrightarrow> j < 8 \<and> used_in kv ?i j \<and> ms_tag (?slots ! j) = ucast (mk_tag ?key)" for j
      unfolding tag_slot_def using find_unique [of "[0..<8]" "\<lambda>j. ms_in_use (?slots ! j) \<and> ms_tag (?slots ! j) = ucast (mk_tag ?key)" j] uniq by auto
    have l: "log_head kv - ucast (ms_offset (?slots ! j)) \<ge> log_cap kv \<longleftrightarrow> \<not> ?h - off_in kv ?i j < 2 ^ c"
      and m: "unat (ucast (ms_offset (?slots ! j)) AND log_mask kv :: u64) = off_in kv ?i j mod 2 ^ c" if "j < 8" "used_in kv ?i j" for j
    proof -
      have u: "unat (ucast (ms_offset (?slots ! j)) :: u64) = off_in kv ?i j" by (rule unat_ucast_up) simp
      then have "ucast (ms_offset (?slots ! j)) \<le> log_head kv" using mica_slotD(2) [OF inv bkt_of_lt that] by (simp add: word_le_nat_alt)
      then have "unat (log_head kv - ucast (ms_offset (?slots ! j))) = ?h - off_in kv ?i j" using u by (simp add: unat_sub)
      then show "log_head kv - ucast (ms_offset (?slots ! j)) \<ge> log_cap kv \<longleftrightarrow> \<not> ?h - off_in kv ?i j < 2 ^ c"
        using z(3,6) by (simp add: word_le_nat_alt unat_exp not_less)
      show "unat (ucast (ms_offset (?slots ! j)) AND log_mask kv :: u64) = off_in kv ?i j mod 2 ^ c" unfolding z(4) unat_and_mask u ..
    qed
    show ?thesis
    proof (cases "tag_slot ?slots (mk_tag ?key)")
      case None
      then show ?thesis using t by auto
    next
      case (Some j)
      then have j: "j < 8" "used_in kv ?i j" "ms_tag (?slots ! j) = ucast (mk_tag ?key)" using t by simp_all
      have "s = j" if "s < 8" "used_in kv ?i s" "ms_tag (?slots ! s) = ucast (mk_tag ?key)" for s using uniq [of s j] that j by simp
      then have r: "(\<exists>s<8. used_in kv ?i s \<and> ms_tag (?slots ! s) = ucast (mk_tag ?key) \<and> ?h - off_in kv ?i s < 2 ^ c \<and> p = off_in kv ?i s mod 2 ^ c)
          \<longleftrightarrow> ?h - off_in kv ?i j < 2 ^ c \<and> p = off_in kv ?i j mod 2 ^ c" using j by metis
      show ?thesis unfolding r Some option.case l [OF j(1,2)] m [OF j(1,2)] by (cases "?h - off_in kv ?i j < 2 ^ c") auto
    qed
  qed
  have e: "entry_of c b kv ?key q \<longleftrightarrow> ?ptr = Some q \<and> take 16 (drop q (ht_log kv)) = key_bytes ?key" for q unfolding p entry_of_def by blast
  have r: "read_at (ht_log kv) q 16 = Inr (take 16 (drop q (ht_log kv)))" if "?ptr = Some q" for q
  proof -
    have "q + 32 \<le> 2 ^ c" using that mica_slotD(4) [OF inv bkt_of_lt] unfolding p by blast
    then show ?thesis using z(2) by (simp add: read_at_def)
  qed
  have f: "kv_find c b kv ?key \<noteq> None \<longleftrightarrow> (\<exists>q. entry_of c b kv ?key q)" using kv_find_None [OF inv, of ?key] by simp
  show thesis
  proof (rule that [OF ptr])
    show "key_in_store kv op ?ptr = Inr (kv_find c b kv ?key \<noteq> None)" unfolding key_in_store_def f e
      using r by (cases ?ptr) simp_all
    show "?ptr = kv_find c b kv ?key" if ne: "kv_find c b kv ?key \<noteq> None"
    proof -
      obtain q where q: "kv_find c b kv ?key = Some q" using ne by blast
      then have "entry_of c b kv ?key q" using kv_find_iff [OF inv, of ?key q] by blast
      then have "?ptr = Some q" unfolding e ..
      then show ?thesis unfolding q .
    qed
  qed
qed

lemma batch_one:
  "mica_batch_op kv [op] = rbind (kv_ptr kv op) (\<lambda>p. rbind (answer_op kv op p) (\<lambda>(r, kv'). Inr ([r], kv')))"
  by (cases "kv_ptr kv op") (simp_all add: mica_batch_op_def split_def rbind_assoc)

lemma batch_op_cases:
  assumes "mica_inv c b kv"
  shows "mica_batch_op kv [op] = rbind (case kv_find c b kv (mo_key op) of None \<Rightarrow> answer_miss kv op | Some p \<Rightarrow> answer_hit kv op p)
    (\<lambda>(r, kv'). Inr ([r], kv'))"
proof -
  obtain ptr where "kv_ptr kv op = Inr ptr" "key_in_store kv op ptr = Inr (kv_find c b kv (mo_key op) \<noteq> None)"
    "kv_find c b kv (mo_key op) \<noteq> None \<Longrightarrow> ptr = kv_find c b kv (mo_key op)" using kv_ptr_ok [OF assms] by blast
  then show ?thesis by (cases "kv_find c b kv (mo_key op)") (simp_all add: batch_one answer_op_def)
qed

text \<open>Overwriting the value of an entry.\<close>

lemma answer_hit_put:
  assumes inv: "mica_inv c b kv" and op: "op_ok op" "mo_opcode op \<noteq> MICA_OP_GET" and e: "entry_of c b kv (mo_key op) p"
  shows "\<exists>kv'. answer_hit kv op p = Inr (\<lparr>mr_type = MICA_RESP_PUT_SUCCESS, mr_val_len = 0, mr_val_ptr = None\<rparr>, kv') \<and> mica_inv c b kv' \<and>
    kv_lookup c b kv' (mo_key op) = Some (mo_value op ! 0) \<and>
    (\<forall>key q. entry_of c b kv' key q \<longrightarrow> key \<noteq> mo_key op \<longrightarrow> entry_of c b kv key q \<and> kv_value kv' q = kv_value kv q)"
proof -
  note d = entry_ofD [OF inv e]
  have z: "length (ht_log kv) = 2 ^ c" using inv by (simp add: mica_inv_def mica_sizes_def)
  have v: "length (value_bytes op) = 44" "mo_val_len op = 8" using op by (simp_all add: op_ok_def)
  let ?bytes = "take 8 (value_bytes op)"
  obtain log where log: "write_at (ht_log kv) (p + 20) ?bytes = Inr log" using d(1) z v by (simp add: write_at_def)
  note w = write_at_nth [OF log]
  let ?kv = "kv\<lparr>ht_log := log, num_put_op := num_put_op kv + 1\<rparr>"
  have a: "answer_hit kv op p = Inr (\<lparr>mr_type = MICA_RESP_PUT_SUCCESS, mr_val_len = 0, mr_val_ptr = None\<rparr>, ?kv)"
    using d(1,3) z v op(2) log by (simp add: answer_hit_def read_at_def)
  have l8: "length ?bytes = 8" using v by simp
  have low: "log ! (q + j) = ht_log kv ! (q + j)" if "32 dvd q" "q + 32 \<le> 2 ^ c" "j < 20" for q j
  proof (cases "q = p")
    case True
    then show ?thesis using w(3) [of "q + j"] that z l8 by simp
  next
    case False
    then show ?thesis using blocks_apart [OF that(1) d(2) False, of "q + j"] w(3) [of "q + j"] that z l8 by auto
  qed
  have key: "take 16 (drop q log) = take 16 (drop q (ht_log kv))" if "32 dvd q" "q + 32 \<le> 2 ^ c" for q
  proof (rule nth_slice_eqI)
    fix i assume i: "q \<le> i" "i < q + 16"
    then show "log ! i = ht_log kv ! i" using low [OF that, of "i - q"] by simp
  qed (use w(1) that z in simp_all)
  have ent: "entry_of c b ?kv k q \<longleftrightarrow> entry_of c b kv k q" for k q
    unfolding entry_of_def using key mica_slotD(4,5) [OF inv bkt_of_lt, of _ k] by auto
  have inv': "mica_inv c b ?kv"
  proof -
    have "log ! (off_in kv i s mod 2 ^ c + 17) = 8" if "i < 2 ^ b" "s < 8" "used_in kv i s" "unat (log_head kv) - off_in kv i s < 2 ^ c" for i s
      using low [of "off_in kv i s mod 2 ^ c" 17] mica_slotD [OF inv that(1-3)] that(4) by simp
    then show ?thesis using inv w(1) unfolding mica_inv_def mica_sizes_def by simp
  qed
  have "take 4 (drop (p + 20) log) = le_bytes 4 (ucast (mo_value op ! 0))"
  proof -
    have "log = take (p + 20) (ht_log kv) @ ?bytes @ drop (p + 28) (ht_log kv)" using log l8 by (auto simp: write_at_def add.commute split: if_splits)
    then have "drop (p + 20) log = ?bytes @ drop (p + 28) (ht_log kv)" using d(1) z by simp
    then show ?thesis using op_mem_parts(3) [OF op(1)] op(1) v l8
      by (cases "mo_value op") (simp_all add: value_bytes_def op_ok_def del: le_bytes.simps)
  qed
  moreover have "kv_find c b ?kv (mo_key op) = Some p" using ent e kv_find_iff [OF inv'] by blast
  ultimately have "kv_lookup c b ?kv (mo_key op) = Some (mo_value op ! 0)" by (simp add: kv_lookup_def kv_value_def)
  moreover have "kv_value ?kv q = kv_value kv q" if "entry_of c b kv k q" "k \<noteq> mo_key op" for k q
  proof -
    note dq = entry_ofD [OF inv that(1)]
    have "q \<noteq> p" using dq(4) d(4) that(2) key_bytes_inj by metis
    then have "log ! i = ht_log kv ! i" if "q \<le> i" "i < q + 32" for i
      using blocks_apart [OF dq(2) d(2) _ that] w(3) [of i] that dq(1) z l8 by auto
    then have "take 4 (drop (q + 20) log) = take 4 (drop (q + 20) (ht_log kv))" using w(1) dq(1) z by (intro nth_slice_eqI) simp_all
    then show ?thesis by (simp add: kv_value_def)
  qed
  ultimately show ?thesis using a inv' ent by blast
qed

text \<open>A PUT and a GET as the store sees them.\<close>

theorem mica_put_ok:
  assumes inv: "mica_inv c b kv" and op: "op_ok op" "mo_opcode op \<noteq> MICA_OP_GET" and put: "mica_batch_op kv [op] = Inr (rs, kv')"
  shows "mica_inv c b kv' \<and> rs = [\<lparr>mr_type = MICA_RESP_PUT_SUCCESS, mr_val_len = 0, mr_val_ptr = None\<rparr>] \<and>
    kv_lookup c b kv' (mo_key op) = Some (mo_value op ! 0) \<and>
    (\<forall>key. key \<noteq> mo_key op \<longrightarrow> kv_lookup c b kv' key = None \<or> kv_lookup c b kv' key = kv_lookup c b kv key)"
proof -
  have "mica_inv c b kv' \<and> rs = [\<lparr>mr_type = MICA_RESP_PUT_SUCCESS, mr_val_len = 0, mr_val_ptr = None\<rparr>] \<and>
    kv_lookup c b kv' (mo_key op) = Some (mo_value op ! 0) \<and>
    (\<forall>key q. entry_of c b kv' key q \<longrightarrow> key \<noteq> mo_key op \<longrightarrow> entry_of c b kv key q \<and> kv_value kv' q = kv_value kv q)"
  proof (cases "kv_find c b kv (mo_key op)")
    case None
    then have "mica_insert_one kv op = Inr kv'" "rs = [\<lparr>mr_type = MICA_RESP_PUT_SUCCESS, mr_val_len = 0, mr_val_ptr = None\<rparr>]"
      using put op(2) by (auto simp: batch_op_cases [OF inv] answer_miss_def elim!: rbindE)
    then show ?thesis using insert_one_ok [OF inv op(1)] by blast
  next
    case (Some p)
    then have "entry_of c b kv (mo_key op) p" using kv_find_iff [OF inv] by blast
    from answer_hit_put [OF inv op this] show ?thesis using put Some by (auto simp: batch_op_cases [OF inv])
  qed
  then show ?thesis using kv_find_iff [OF inv] kv_find_iff [where kv = kv'] unfolding kv_lookup_def
    by (metis (no_types, lifting) not_Some_eq option.map(1) option.map(2))
qed

theorem mica_get_ok:
  assumes inv: "mica_inv c b kv" and op: "mo_opcode op = MICA_OP_GET"
  shows "\<exists>kv'. mica_batch_op kv [op] = Inr ([case kv_find c b kv (mo_key op) of
      None \<Rightarrow> \<lparr>mr_type = MICA_RESP_GET_FAIL, mr_val_len = 0, mr_val_ptr = None\<rparr>
    | Some p \<Rightarrow> \<lparr>mr_type = MICA_RESP_GET_SUCCESS, mr_val_len = 8, mr_val_ptr = Some (p + 20)\<rparr>], kv') \<and>
    mica_inv c b kv' \<and> (\<forall>key. kv_lookup c b kv' key = kv_lookup c b kv key) \<and> ht_log kv' = ht_log kv \<and> log_head kv' = log_head kv"
proof -
  have "entry_of c b (kv\<lparr>num_get_op := x\<rparr>) = entry_of c b kv" "entry_of c b (kv\<lparr>num_get_fail := x\<rparr>) = entry_of c b kv"
    "kv_value (kv\<lparr>num_get_op := x\<rparr>) = kv_value kv" "kv_value (kv\<lparr>num_get_fail := x\<rparr>) = kv_value kv" for x
    by (simp_all add: entry_of_def kv_value_def fun_eq_iff)
  note same = this
  have keep: "mica_inv c b (kv\<lparr>num_get_op := x\<rparr>)" "mica_inv c b (kv\<lparr>num_get_fail := x\<rparr>)"
    "kv_lookup c b (kv\<lparr>num_get_op := x\<rparr>) = kv_lookup c b kv" "kv_lookup c b (kv\<lparr>num_get_fail := x\<rparr>) = kv_lookup c b kv" for x
    using inv by (simp_all add: mica_inv_def mica_sizes_def kv_lookup_def kv_find_def same fun_eq_iff)
  have z: "length (ht_log kv) = 2 ^ c" using inv by (simp add: mica_inv_def mica_sizes_def)
  show ?thesis
  proof (cases "kv_find c b kv (mo_key op)")
    case None
    then show ?thesis using keep op by (simp add: batch_op_cases [OF inv] answer_miss_def)
  next
    case (Some p)
    then have "entry_of c b kv (mo_key op) p" using kv_find_iff [OF inv] by blast
    note d = entry_ofD [OF inv this]
    show ?thesis using keep op Some d(1,3) z by (simp add: batch_op_cases [OF inv] answer_hit_def)
  qed
qed

text \<open>An insertion or a PUT returns until the virtual offsets have used up their 40 bits: no access to the log is out of range.\<close>

lemma insert_one_returns:
  assumes inv: "mica_inv c b kv" and op: "op_ok op" and room: "unat (log_head kv) + 34 < 2 ^ 40"
  shows "\<exists>kv'. mica_insert_one kv op = Inr kv'"
proof -
  have z: "length (ht_index kv) = 2 ^ b" "length (ht_log kv) = 2 ^ c" "log_mask kv = 2 ^ c - 1" "bkt_mask kv = 2 ^ b - 1" "32 dvd unat (log_head kv)" "5 \<le> c"
    using inv by (simp_all add: mica_inv_def mica_sizes_def)
  have i: "unat (mk_bkt (mo_key op) AND bkt_mask kv) < length (ht_index kv)" unfolding z(1,4) unat_and_mask by simp
  have q: "unat (log_head kv AND log_mask kv) + 32 \<le> 2 ^ c" unfolding z(3) unat_and_mask by (rule block_place(1) [OF z(5,6)])
  have len: "18 + unat (mo_val_len op) = 26" using op by (simp add: op_ok_def)
  have "log_head kv \<le> 2 ^ 40" using room by (simp add: word_le_nat_alt)
  from unat_sub [OF this] have "2 ^ 40 - log_head kv > of_nat (26 + 8)" using room by (simp add: word_less_nat_alt)
  then show ?thesis unfolding mica_insert_one_def len Let_def
    using i q z(2) length_op_mem [OF op] by (simp add: read_at_def write_at_def split: prod.splits)
qed

lemma mica_put_returns:
  assumes inv: "mica_inv c b kv" and op: "op_ok op" "mo_opcode op \<noteq> MICA_OP_GET" and room: "unat (log_head kv) + 34 < 2 ^ 40"
  shows "\<exists>rs kv'. mica_batch_op kv [op] = Inr (rs, kv')"
proof (cases "kv_find c b kv (mo_key op)")
  case None
  then show ?thesis using op(2) insert_one_returns [OF inv op(1) room] by (auto simp: batch_op_cases [OF inv] answer_miss_def)
next
  case (Some p)
  then have "entry_of c b kv (mo_key op) p" using kv_find_iff [OF inv] by blast
  from answer_hit_put [OF inv op this] show ?thesis using Some by (auto simp: batch_op_cases [OF inv])
qed

section \<open>A new store\<close>

lemma is_power_of_2D: "is_power_of_2 x \<Longrightarrow> \<exists>i<31. x = 2 ^ i"
  by (auto simp: is_power_of_2_def list_ex_iff)

lemma is_power_of_2I: "i < 31 \<Longrightarrow> is_power_of_2 (2 ^ i)"
  by (auto simp: is_power_of_2_def list_ex_iff)

lemma power_up_returns:
  "i + d \<le> 27 \<Longrightarrow> unat (n :: u32) \<le> 2 ^ (i + d) \<Longrightarrow> d < f \<Longrightarrow> \<exists>e. i \<le> e \<and> e \<le> i + d \<and> power_up f (2 ^ i) n = Inr (2 ^ e)"
proof (induction d arbitrary: i f)
  case 0
  then obtain g where "f = Suc g" by (cases f) auto
  then show ?case using 0 by (auto simp: word_less_nat_alt unat_exp)
next
  case (Suc d)
  obtain g where f: "f = Suc g" using Suc.prems(3) by (cases f) auto
  show ?case
  proof (cases "(2 ^ i :: u32) < n")
    case True
    obtain e where "Suc i \<le> e" "e \<le> Suc i + d" "power_up g (2 ^ Suc i) n = Inr (2 ^ e)" using Suc.IH [of "Suc i" g] Suc.prems f by auto
    then show ?thesis using True f by (intro exI [of _ e]) (simp add: mult.commute)
  next
    case False
    then show ?thesis using f by (intro exI [of _ i]) simp
  qed
qed

lemma mica_init_returns:
  assumes "node_id \<le> 1" "unat num_bkts \<le> 2 ^ 27" "21 \<le> c" "c \<le> 30"
  shows "\<exists>kv. mica_init junk_slot junk_log node_id num_bkts (2 ^ c) = Inr kv"
proof -
  obtain e where e: "10 \<le> e" "e \<le> 27" "power_up 33 (2 ^ 10) num_bkts = Inr (2 ^ e)" using power_up_returns [of 10 17 num_bkts 33] assms(2) by auto
  have n: "unat (2 ^ e :: u32) = 2 ^ e" using e(2) by (simp add: unat_exp)
  have "(2 :: nat) ^ e \<le> 2 ^ 27" "(2 :: nat) ^ c \<le> 2 ^ 30" using e(2) assms(4) by (intro power_increasing; simp)+
  moreover have "(2 :: nat) ^ c mod 2 ^ 21 = 0" using le_imp_power_dvd [OF assms(3), of "2 :: nat"] by (simp add: dvd_eq_mod_eq_0)
  moreover have "node_id = 0 \<or> node_id = 1" using assms(1) by auto
  ultimately show ?thesis using e n is_power_of_2I [of e] is_power_of_2I [of c] assms(4) by (simp add: mica_init_def)
qed

lemma mica_init_inv:
  assumes "mica_init junk_slot junk_log node_id num_bkts cap = Inr kv"
  obtains c b where "mica_inv c b kv" "cap = 2 ^ c" "\<And>key. kv_lookup c b kv key = None" "log_head kv = 0"
proof -
  obtain n where n: "is_power_of_2 (unat n)" "unat n \<le> 134217728" "0 < cap" "cap \<le> 1073741824" "cap mod 2097152 = 0" "is_power_of_2 cap"
    and kv: "kv = \<lparr>ht_index = map (\<lambda>i. map (\<lambda>j. (junk_slot i j)\<lparr>ms_in_use := False\<rparr>) [0..<8]) [0..<unat n],
        ht_log = map junk_log [0..<cap], kv_num_bkts = n, bkt_mask = n - 1, log_cap = of_nat cap,
        log_mask = of_nat cap - 1, log_head = 0, num_get_op = 0, num_get_fail = 0, num_put_op = 0, num_index_evictions = 0\<rparr>"
    using assms by (auto simp: mica_init_def elim!: rbindE split: if_splits)
  obtain b c where b: "unat n = 2 ^ b" "b < 31" and c: "cap = 2 ^ c" "c < 31" using is_power_of_2D n(1,6) by metis
  have "b \<le> 27" using n(2) unfolding b(1) by (rule_tac ccontr) (use power_strict_increasing [of 27 b "2 :: nat"] in simp)
  moreover have "21 \<le> c"
  proof (rule ccontr)
    assume "\<not> 21 \<le> c"
    then have "(2 :: nat) ^ c < 2 ^ 21" by (intro power_strict_increasing) simp_all
    then show False using n(3,5) unfolding c(1) by simp
  qed
  moreover have "n = 2 ^ b" using b by (simp add: word_unat_eq_iff unat_exp)
  moreover have "(of_nat cap :: u64) = 2 ^ c" by (simp add: c(1))
  moreover have "bkt_ok (map (\<lambda>j. (junk_slot i j)\<lparr>ms_in_use := False\<rparr>) [0..<8])" for i by (simp add: bkt_ok_def)
  moreover have "(32 :: nat) \<noteq> 2 ^ c" using \<open>21 \<le> c\<close> power_increasing [of 21 c "2 :: nat"] by auto
  ultimately have sz: "mica_sizes c b kv" using b c unfolding mica_sizes_def kv by auto
  have un: "\<not> used_in kv i s" if "i < 2 ^ b" "s < 8" for i s using that b(1) by (simp add: kv)
  then have inv: "mica_inv c b kv" using sz by (auto simp: mica_inv_def)
  have "kv_lookup c b kv key = None" for key
    using kv_find_None [OF inv, of key] un [OF bkt_of_lt] by (auto simp: kv_lookup_def entry_of_def)
  then show thesis using that [OF inv c(1)] by (simp add: kv)
qed

end
