(* ===== verification/Fasst_Server.thy ===== *)
theory Fasst_Server
  imports Mica Outback_Server
begin

text \<open>
  The server of \<open>benchs/fasst/server.cc\<close>: one MICA store and one operation record \<open>op\<close>, both global, which every callback fills
  in and passes on. A key reaches the server as 48 bits of hash (\<open>hashbucket\<close> and \<open>hashtag\<close> of \<open>mica/trait.hpp\<close>); a value is
  kept in the first word of the operation, so 32 bits of it remain.

  Shown: the callbacks make a map that may forget; a GET after a PUT returns the low 32 bits of the value; the loading
  returns, and afterwards no hash is answered with anything but the number of the last key that has it.
\<close>

section \<open>Definitions\<close>

record fasst_server =
  fs_kv :: mica_kv
  fs_op :: mica_op

definition murmurhash :: "u64 \<Rightarrow> u32 \<Rightarrow> u64" where
  "murmurhash key seed = murmur64 key seed"

definition hashtag :: "u64 \<Rightarrow> u16" where
  "hashtag key = ucast (murmurhash key 0x7a2c531) AND 0xFFFF"

definition hashbucket :: "u64 \<Rightarrow> u32" where
  "hashbucket key = ucast (murmurhash key 0x90123456) AND 0xFFFFFFFF"

text \<open>\<open>*resp->val_ptr\<close>\<close>

definition deref_u32 :: "mica_kv \<Rightarrow> nat option \<Rightarrow> u32 res" where
  "deref_u32 kv ptr = (case ptr of None \<Rightarrow> Inl NullDeref | Some p \<Rightarrow> rbind (read_at (ht_log kv) p 4) (\<lambda>bs. Inr (ucast (le_word bs))))"

text \<open>The fields that the code sets before a PUT (\<open>val_len\<close>, \<open>value[0]\<close>, \<open>key.server\<close>, \<open>opcode\<close>, \<open>key.bkt\<close>, \<open>key.tag\<close>) and before a GET.\<close>

definition put_request :: "mica_op \<Rightarrow> u32 \<Rightarrow> u16 \<Rightarrow> u32 \<Rightarrow> mica_op" where
  "put_request op bkt tag v = op\<lparr>mo_opcode := MICA_OP_PUT, mo_val_len := 8, mo_value := (mo_value op)[0 := v],
     mo_key := (mo_key op)\<lparr>mk_server := 0, mk_bkt := bkt, mk_tag := tag\<rparr>\<rparr>"

definition get_request :: "mica_op \<Rightarrow> u32 \<Rightarrow> u16 \<Rightarrow> mica_op" where
  "get_request op bkt tag = op\<lparr>mo_opcode := MICA_OP_GET, mo_key := (mo_key op)\<lparr>mk_bkt := bkt, mk_tag := tag\<rparr>\<rparr>"

definition fasst_load :: "u64 list \<Rightarrow> nat \<Rightarrow> fasst_server \<Rightarrow> fasst_server res" where
  "fasst_load keys i fs =
    (let key = keys ! i; op = put_request (fs_op fs) (hashbucket key) (hashtag key) (of_nat i) in
     rbind (mica_insert_one (fs_kv fs) op) (\<lambda>kv.
     if i mod 1000000 = 0 then
       let op = op\<lparr>mo_opcode := MICA_OP_GET\<rparr> in
       rbind (mica_batch_op kv [op]) (\<lambda>(resps, kv'). rbind (deref_u32 kv' (mr_val_ptr (hd resps))) (\<lambda>_. Inr \<lparr>fs_kv = kv', fs_op = op\<rparr>))
     else Inr \<lparr>fs_kv = kv, fs_op = op\<rparr>))"

text \<open>\<open>setup_mica_table\<close>; \<open>op0\<close> is what \<open>malloc\<close> left in the operation.\<close>

definition setup_mica_table :: "(nat \<Rightarrow> nat \<Rightarrow> mica_slot) \<Rightarrow> (nat \<Rightarrow> u8) \<Rightarrow> mica_op \<Rightarrow> u64 list \<Rightarrow> fasst_server res" where
  "setup_mica_table junk_slot junk_log op0 keys =
    rbind (mica_init junk_slot junk_log 0 (of_nat (length keys div 4)) (2 ^ 30)) (\<lambda>kv.
    rfold (fasst_load keys) [0..<length keys] \<lparr>fs_kv = kv, fs_op = op0\<rparr>)"

definition fasst_get :: "fasst_server \<Rightarrow> u32 \<Rightarrow> u16 \<Rightarrow> (reply_value \<times> fasst_server) res" where
  "fasst_get fs bkt tag =
    (let op = get_request (fs_op fs) bkt tag in
     rbind (mica_batch_op (fs_kv fs) [op]) (\<lambda>(resps, kv).
     if mr_type (hd resps) = MICA_RESP_GET_SUCCESS then
       rbind (deref_u32 kv (mr_val_ptr (hd resps))) (\<lambda>v. Inr (\<lparr>rv_status = True, rv_val = ucast v\<rparr>, \<lparr>fs_kv = kv, fs_op = op\<rparr>))
     else Inr (\<lparr>rv_status = False, rv_val = 0\<rparr>, \<lparr>fs_kv = kv, fs_op = op\<rparr>)))"

definition fasst_put :: "fasst_server \<Rightarrow> u32 \<Rightarrow> u16 \<Rightarrow> u64 \<Rightarrow> (reply_value \<times> fasst_server) res" where
  "fasst_put fs bkt tag val =
    (let op = put_request (fs_op fs) bkt tag (ucast val) in
     rbind (mica_batch_op (fs_kv fs) [op]) (\<lambda>(resps, kv). Inr (\<lparr>rv_status = True, rv_val = 1\<rparr>, \<lparr>fs_kv = kv, fs_op = op\<rparr>)))"

definition interpret_as_u32 :: "u8 list \<Rightarrow> nat \<Rightarrow> u32 res" where
  "interpret_as_u32 buf off = rbind (read_at buf off 4) (\<lambda>bs. Inr (ucast (le_word bs)))"

definition interpret_as_u16 :: "u8 list \<Rightarrow> nat \<Rightarrow> u16 res" where
  "interpret_as_u16 buf off = rbind (read_at buf off 2) (\<lambda>bs. Inr (ucast (le_word bs)))"

definition fasst_get_callback :: "stack_junk \<Rightarrow> fasst_server rpc_callback" where
  "fasst_get_callback junk fs h args =
    (if length args \<noteq> 6 then Inl AssertFailed
     else rbind (interpret_as_u32 args 0) (\<lambda>bkt.
          rbind (interpret_as_u16 args 4) (\<lambda>tag.
          rbind (fasst_get fs bkt tag) (\<lambda>(reply, fs').
          rbind (answer junk h reply) (\<lambda>m. Inr (fs', m))))))"

definition fasst_put_callback :: "stack_junk \<Rightarrow> fasst_server rpc_callback" where
  "fasst_put_callback junk fs h args =
    (if length args \<noteq> 14 then Inl AssertFailed
     else rbind (interpret_as_u32 args 0) (\<lambda>bkt.
          rbind (interpret_as_u16 args 4) (\<lambda>tag.
          rbind (interpret_as_u64 args 6) (\<lambda>val.
          rbind (fasst_put fs bkt tag val) (\<lambda>(reply, fs').
          rbind (answer junk h reply) (\<lambda>m. Inr (fs', m)))))))"

text \<open>An UPDATE does what a PUT does, down to the reply.\<close>

definition fasst_update_callback :: "stack_junk \<Rightarrow> fasst_server rpc_callback" where
  "fasst_update_callback junk fs h args =
    (if length args \<noteq> 14 then Inl AssertFailed
     else rbind (interpret_as_u32 args 0) (\<lambda>bkt.
          rbind (interpret_as_u16 args 4) (\<lambda>tag.
          rbind (interpret_as_u64 args 6) (\<lambda>val.
          rbind (fasst_put fs bkt tag val) (\<lambda>(reply, fs').
          rbind (answer junk h reply) (\<lambda>m. Inr (fs', m)))))))"

definition fasst_remove_callback :: "stack_junk \<Rightarrow> fasst_server rpc_callback" where
  "fasst_remove_callback junk fs h args =
    (if length args \<noteq> 8 then Inl AssertFailed
     else rbind (interpret_as_u64 args 0) (\<lambda>key_i.
          rbind (answer junk h \<lparr>rv_status = True, rv_val = 0\<rparr>) (\<lambda>m. Inr (fs, m))))"

definition fasst_scan_callback :: "stack_junk \<Rightarrow> reply_value \<Rightarrow> fasst_server rpc_callback" where
  "fasst_scan_callback junk reply fs h args =
    (if length args \<noteq> 16 then Inl AssertFailed
     else rbind (interpret_as_u64 args 0) (\<lambda>key.
          rbind (interpret_as_u64 args 8) (\<lambda>n.
          rbind (answer junk h reply) (\<lambda>m. Inr (fs, m)))))"

section \<open>The server as a map that may forget\<close>

definition fs_inv :: "nat \<Rightarrow> nat \<Rightarrow> fasst_server \<Rightarrow> bool" where
  "fs_inv c b fs \<longleftrightarrow> mica_inv c b (fs_kv fs) \<and> length (mo_pad (fs_op fs)) = 2 \<and> length (mo_value (fs_op fs)) = 11 \<and> mk_server (mo_key (fs_op fs)) = 0"

definition key_for :: "mica_op \<Rightarrow> u32 \<times> u16 \<Rightarrow> mica_key" where
  "key_for op k = (mo_key op)\<lparr>mk_server := 0, mk_bkt := fst k, mk_tag := snd k\<rparr>"

definition fasst_lookup :: "nat \<Rightarrow> nat \<Rightarrow> fasst_server \<Rightarrow> u32 \<times> u16 \<Rightarrow> u32 option" where
  "fasst_lookup c b fs k = kv_lookup c b (fs_kv fs) (key_for (fs_op fs) k)"

definition fasst_store :: "u32 \<times> u16 \<Rightarrow> u32 \<Rightarrow> fasst_server \<Rightarrow> fasst_server res" where
  "fasst_store k v fs = rbind (fasst_put fs (fst k) (snd k) (ucast v)) (\<lambda>(r, fs'). Inr fs')"

lemma key_for_inj: "key_for op k = key_for op k' \<Longrightarrow> k = k'"
  by (auto simp: key_for_def dest!: arg_cong [of _ _ "\<lambda>k. (mk_bkt k, mk_tag k)"] intro: prod_eqI)

lemma put_request_ok:
  assumes "length (mo_pad op) = 2" "length (mo_value op) = 11"
  shows "op_ok (put_request op bkt tag v)" "mo_opcode (put_request op bkt tag v) \<noteq> MICA_OP_GET" "mo_value (put_request op bkt tag v) ! 0 = v"
    "mo_key (put_request op bkt tag v) = key_for op (bkt, tag)" "key_for (put_request op bkt tag v) = key_for op"
  using assms by (simp_all add: put_request_def op_ok_def MICA_OP_PUT_def MICA_OP_GET_def key_for_def fun_eq_iff)

lemma fasst_put_ok:
  assumes inv: "fs_inv c b fs" and put: "fasst_put fs bkt tag val = Inr (r, fs')"
  shows "fs_inv c b fs' \<and> r = \<lparr>rv_status = True, rv_val = 1\<rparr> \<and> fasst_lookup c b fs' (bkt, tag) = Some (ucast val) \<and>
    (\<forall>k. k \<noteq> (bkt, tag) \<longrightarrow> fasst_lookup c b fs' k = None \<or> fasst_lookup c b fs' k = fasst_lookup c b fs k)"
proof -
  let ?op = "put_request (fs_op fs) bkt tag (ucast val)"
  have o: "length (mo_pad (fs_op fs)) = 2" "length (mo_value (fs_op fs)) = 11" and m: "mica_inv c b (fs_kv fs)" using inv by (simp_all add: fs_inv_def)
  note q = put_request_ok [OF o, of bkt tag "ucast val"]
  obtain rs kv where b: "mica_batch_op (fs_kv fs) [?op] = Inr (rs, kv)" "r = \<lparr>rv_status = True, rv_val = 1\<rparr>" "fs' = \<lparr>fs_kv = kv, fs_op = ?op\<rparr>"
    using put by (auto simp: fasst_put_def Let_def elim!: rbindE)
  have p: "mica_inv c b kv" "kv_lookup c b kv (key_for (fs_op fs) (bkt, tag)) = Some (ucast val)"
    "\<And>key. key \<noteq> key_for (fs_op fs) (bkt, tag) \<Longrightarrow> kv_lookup c b kv key = None \<or> kv_lookup c b kv key = kv_lookup c b (fs_kv fs) key"
    using mica_put_ok [OF m q(1,2) b(1)] q(3,4) by simp_all
  have "fs_inv c b fs'" using p(1) o by (simp add: b(3) fs_inv_def put_request_def)
  moreover have "fasst_lookup c b fs' k = kv_lookup c b kv (key_for (fs_op fs) k)" for k by (simp add: fasst_lookup_def b(3) q(5))
  ultimately show ?thesis using b(2) p(2,3) key_for_inj unfolding fasst_lookup_def by metis
qed

interpretation mica: lossy_map "fs_inv c b" fasst_store "fasst_lookup c b" for c b
proof
  fix m m' :: fasst_server and k :: "u32 \<times> u16" and v
  assume m: "fs_inv c b m" and s: "fasst_store k v m = Inr m'"
  obtain r where "fasst_put m (fst k) (snd k) (ucast v) = Inr (r, m')" using s by (auto simp: fasst_store_def elim!: rbindE)
  note p = fasst_put_ok [OF m this]
  show "fs_inv c b m'" using p by blast
  have "ucast (ucast v :: u64) = v" by (rule bit_word_eqI) (simp add: bit_simps)
  then show "fasst_lookup c b m' k = Some v" using p by simp
  show "fasst_lookup c b m' k' = None \<or> fasst_lookup c b m' k' = fasst_lookup c b m k'" if "k' \<noteq> k" for k' using p that by (metis prod.collapse)
qed

text \<open>A GET answers with what the map holds and changes nothing of it.\<close>

lemma fasst_get_ok:
  assumes inv: "fs_inv c b fs"
  shows "\<exists>fs'. fasst_get fs bkt tag = Inr (case fasst_lookup c b fs (bkt, tag) of None \<Rightarrow> \<lparr>rv_status = False, rv_val = 0\<rparr>
      | Some v \<Rightarrow> \<lparr>rv_status = True, rv_val = ucast v\<rparr>, fs') \<and> fs_inv c b fs' \<and> fasst_lookup c b fs' = fasst_lookup c b fs"
proof -
  let ?op = "get_request (fs_op fs) bkt tag"
  have m: "mica_inv c b (fs_kv fs)" "mk_server (mo_key (fs_op fs)) = 0" using inv by (simp_all add: fs_inv_def)
  have k: "mo_key ?op = key_for (fs_op fs) (bkt, tag)" "mo_opcode ?op = MICA_OP_GET" "key_for ?op = key_for (fs_op fs)"
    using m(2) by (simp_all add: get_request_def key_for_def fun_eq_iff)
  obtain kv where kv: "mica_batch_op (fs_kv fs) [?op] = Inr ([case kv_find c b (fs_kv fs) (mo_key ?op) of
      None \<Rightarrow> \<lparr>mr_type = MICA_RESP_GET_FAIL, mr_val_len = 0, mr_val_ptr = None\<rparr>
    | Some p \<Rightarrow> \<lparr>mr_type = MICA_RESP_GET_SUCCESS, mr_val_len = 8, mr_val_ptr = Some (p + 20)\<rparr>], kv)"
    "mica_inv c b kv" "\<forall>key. kv_lookup c b kv key = kv_lookup c b (fs_kv fs) key" "ht_log kv = ht_log (fs_kv fs)"
    using mica_get_ok [OF m(1) k(2)] by blast
  let ?fs = "\<lparr>fs_kv = kv, fs_op = ?op\<rparr>"
  have i: "fs_inv c b ?fs" using kv(2) inv by (simp add: fs_inv_def get_request_def)
  have l: "fasst_lookup c b ?fs = fasst_lookup c b fs" using kv(3) by (simp add: fasst_lookup_def k(3) fun_eq_iff)
  show ?thesis
  proof (cases "kv_find c b (fs_kv fs) (mo_key ?op)")
    case None
    then have "fasst_get fs bkt tag = Inr (\<lparr>rv_status = False, rv_val = 0\<rparr>, ?fs)" "fasst_lookup c b fs (bkt, tag) = None"
      using kv(1) by (simp_all add: fasst_get_def Let_def MICA_RESP_GET_FAIL_def MICA_RESP_GET_SUCCESS_def fasst_lookup_def kv_lookup_def k(1))
    then show ?thesis using i l by simp
  next
    case (Some p)
    then have "p + 32 \<le> 2 ^ c" using kv_find_iff [OF m(1)] entry_ofD(1) [OF m(1)] by blast
    then have "deref_u32 kv (Some (p + 20)) = Inr (kv_value (fs_kv fs) p)"
      using m(1) kv(4) by (simp add: deref_u32_def read_at_def kv_value_def mica_inv_def mica_sizes_def)
    then have "fasst_get fs bkt tag = Inr (\<lparr>rv_status = True, rv_val = ucast (kv_value (fs_kv fs) p)\<rparr>, ?fs)"
      using kv(1) Some by (simp add: fasst_get_def Let_def)
    moreover have "fasst_lookup c b fs (bkt, tag) = Some (kv_value (fs_kv fs) p)" using Some by (simp add: fasst_lookup_def kv_lookup_def k(1))
    ultimately show ?thesis using i l by simp
  qed
qed

section \<open>Loading\<close>

definition key_hash :: "u64 \<Rightarrow> u32 \<times> u16" where
  "key_hash key = (hashbucket key, hashtag key)"

text \<open>After \<open>n\<close> keys: whatever is found is the number of the last of them with that hash, and the last key is found.\<close>

definition fasst_loaded :: "nat \<Rightarrow> nat \<Rightarrow> u64 list \<Rightarrow> nat \<Rightarrow> fasst_server \<Rightarrow> bool" where
  "fasst_loaded c b keys n fs \<longleftrightarrow> mica_inv c b (fs_kv fs) \<and> length (mo_pad (fs_op fs)) = 2 \<and> length (mo_value (fs_op fs)) = 11 \<and>
     (0 < n \<longrightarrow> mk_server (mo_key (fs_op fs)) = 0) \<and> unat (log_head (fs_kv fs)) \<le> 64 * n \<and>
     (\<forall>k v. fasst_lookup c b fs k = Some v \<longrightarrow> (\<exists>i<n. v = of_nat i \<and> key_hash (keys ! i) = k \<and> (\<forall>j<n. i < j \<longrightarrow> key_hash (keys ! j) \<noteq> k))) \<and>
     (0 < n \<longrightarrow> fasst_lookup c b fs (key_hash (keys ! (n - 1))) = Some (of_nat (n - 1)))"

lemma fasst_load_step:
  assumes l: "fasst_loaded c b keys n fs" and n: "n < length keys" "length keys \<le> 2 ^ 29"
  shows "\<exists>fs'. fasst_load keys n fs = Inr fs' \<and> fasst_loaded c b keys (Suc n) fs'"
proof -
  let ?k = "key_hash (keys ! n)" and ?v = "of_nat n :: u32"
  let ?op = "put_request (fs_op fs) (fst ?k) (snd ?k) ?v"
  have o: "length (mo_pad (fs_op fs)) = 2" "length (mo_value (fs_op fs)) = 11" and m: "mica_inv c b (fs_kv fs)" "unat (log_head (fs_kv fs)) \<le> 64 * n"
    using l by (simp_all add: fasst_loaded_def)
  have hit: "\<exists>i<n. v = of_nat i \<and> key_hash (keys ! i) = k \<and> (\<forall>j<n. i < j \<longrightarrow> key_hash (keys ! j) \<noteq> k)" if h: "fasst_lookup c b fs k = Some v" for k v
    using l h unfolding fasst_loaded_def by blast
  note q = put_request_ok [OF o, of "fst ?k" "snd ?k" ?v, simplified]
  obtain kv where kv: "mica_insert_one (fs_kv fs) ?op = Inr kv" using insert_one_returns [OF m(1) q(1)] m(2) n by fastforce
  note r = insert_one_ok [OF m(1) q(1) kv, unfolded q(3,4)]
  have load: "fasst_loaded c b keys (Suc n) fs'" if "mica_inv c b (fs_kv fs')" "length (mo_pad (fs_op fs')) = 2" "length (mo_value (fs_op fs')) = 11"
    "mk_server (mo_key (fs_op fs')) = 0" "log_head (fs_kv fs') = log_head kv" and look: "\<And>k. fasst_lookup c b fs' k = kv_lookup c b kv (key_for (fs_op fs) k)" for fs'
  proof -
    have "\<exists>i<Suc n. v = of_nat i \<and> key_hash (keys ! i) = k \<and> (\<forall>j<Suc n. i < j \<longrightarrow> key_hash (keys ! j) \<noteq> k)" if e: "fasst_lookup c b fs' k = Some v" for k v
    proof (cases "k = ?k")
      case True
      then show ?thesis using e r(2) unfolding look by (intro exI [of _ n]) auto
    next
      case False
      then have ne: "key_for (fs_op fs) k \<noteq> key_for (fs_op fs) ?k" using key_for_inj by metis
      obtain p where p: "kv_find c b kv (key_for (fs_op fs) k) = Some p" "v = kv_value kv p" using e unfolding look kv_lookup_def by auto
      then have "entry_of c b (fs_kv fs) (key_for (fs_op fs) k) p" "kv_value kv p = kv_value (fs_kv fs) p"
        using r(3) ne kv_find_iff [OF r(1)] by blast+
      moreover from this(1) have "kv_find c b (fs_kv fs) (key_for (fs_op fs) k) = Some p" using kv_find_iff [OF m(1)] by blast
      ultimately have "fasst_lookup c b fs k = Some v" using p(2) by (simp add: fasst_lookup_def kv_lookup_def)
      from hit [OF this] show ?thesis using False by (auto simp: less_Suc_eq)
    qed
    then show ?thesis using that(1-5) r(2,4) m(2) look unfolding fasst_loaded_def by simp
  qed
  show ?thesis
  proof (cases "n mod 1000000 = 0")
    case False
    then have "fasst_load keys n fs = Inr \<lparr>fs_kv = kv, fs_op = ?op\<rparr>" using kv by (simp add: fasst_load_def Let_def key_hash_def)
    moreover have "fasst_loaded c b keys (Suc n) \<lparr>fs_kv = kv, fs_op = ?op\<rparr>"
      by (rule load) (use r(1) o q(5) in \<open>simp_all add: fasst_lookup_def\<close>, simp_all add: put_request_def)
    ultimately show ?thesis by blast
  next
    case True
    let ?op' = "?op\<lparr>mo_opcode := MICA_OP_GET\<rparr>"
    obtain p where p: "kv_find c b kv (key_for (fs_op fs) ?k) = Some p" using r(2) by (auto simp: kv_lookup_def)
    have k: "mo_key ?op' = key_for (fs_op fs) ?k" "mo_opcode ?op' = MICA_OP_GET" using q(4) by simp_all
    obtain kv' where g: "mica_batch_op kv [?op'] = Inr ([\<lparr>mr_type = MICA_RESP_GET_SUCCESS, mr_val_len = 8, mr_val_ptr = Some (p + 20)\<rparr>], kv')"
      "mica_inv c b kv'" "\<forall>key. kv_lookup c b kv' key = kv_lookup c b kv key" "ht_log kv' = ht_log kv" "log_head kv' = log_head kv"
      using mica_get_ok [OF r(1) k(2)] unfolding k(1) p by auto
    have "p + 32 \<le> 2 ^ c" using p kv_find_iff [OF r(1)] entry_ofD(1) [OF r(1)] by blast
    then obtain w where "deref_u32 kv' (Some (p + 20)) = Inr w"
      using r(1) g(4) by (simp add: deref_u32_def read_at_def mica_inv_def mica_sizes_def)
    then have "fasst_load keys n fs = Inr \<lparr>fs_kv = kv', fs_op = ?op'\<rparr>" using kv True g(1) by (simp add: fasst_load_def Let_def key_hash_def)
    moreover have "key_for ?op' = key_for (fs_op fs)" using q(5) by (simp add: key_for_def fun_eq_iff)
    then have "fasst_loaded c b keys (Suc n) \<lparr>fs_kv = kv', fs_op = ?op'\<rparr>"
      by (intro load) (use g o in \<open>simp_all add: fasst_lookup_def\<close>, simp_all add: put_request_def)
    ultimately show ?thesis by blast
  qed
qed

lemma fasst_setup_ok:
  assumes n: "length keys \<le> 2 ^ 29" and op: "length (mo_pad op0) = 2" "length (mo_value op0) = 11"
  shows "\<exists>fs b. setup_mica_table junk_slot junk_log op0 keys = Inr fs \<and> fasst_loaded 30 b keys (length keys) fs"
proof -
  have u: "unat (of_nat (length keys div 4) :: u32) \<le> 2 ^ 27" using n by (simp add: unsigned_of_nat take_bit_nat_eq_self)
  obtain kv where kv: "mica_init junk_slot junk_log 0 (of_nat (length keys div 4)) (2 ^ 30) = Inr kv"
    using mica_init_returns [of 0 "of_nat (length keys div 4)" 30 junk_slot junk_log] u by auto
  obtain c b where cb: "mica_inv c b kv" "2 ^ 30 = (2 :: nat) ^ c" "\<And>key. kv_lookup c b kv key = None" "log_head kv = 0"
    using mica_init_inv [OF kv] by blast
  have c: "c = 30" using cb(2) power_inject_exp [of "2 :: nat" 30 c] by simp
  have "fasst_loaded 30 b keys 0 \<lparr>fs_kv = kv, fs_op = op0\<rparr>" using cb op unfolding c by (simp add: fasst_loaded_def fasst_lookup_def)
  then have "\<exists>fs. rfold (fasst_load keys) [0..<length keys] \<lparr>fs_kv = kv, fs_op = op0\<rparr> = Inr fs \<and> fasst_loaded 30 b keys (length keys) fs"
    by (rule rfold_upt) (use fasst_load_step n in blast)
  then show ?thesis using kv by (auto simp: setup_mica_table_def)
qed

section \<open>Properties\<close>

definition blank_op :: mica_op where
  "blank_op = \<lparr>mo_key = \<lparr>mk_unused = 0, mk_bkt = 0, mk_server = 0, mk_tag = 0\<rparr>, mo_opcode = 0, mo_val_len = 0, mo_pad = [0, 0], mo_value = replicate 11 0\<rparr>"

lemma blank_op_lengths: "length (mo_pad blank_op) = 2" "length (mo_value blank_op) = 11"
  by (simp_all add: blank_op_def)

definition empty_slot :: mica_slot where
  "empty_slot = \<lparr>ms_in_use = False, ms_tag = 0, ms_offset = 0\<rparr>"

text \<open>On the MICA server a PUT that returns makes a GET of the same hash answer with the low 32 bits of its value, and a
  GET of any other hash answer as before or with "not found"; a PUT returns until the virtual log offsets reach the end
  of their 40 bits, so no access to the circular log is out of range, whatever was evicted or overwritten.\<close>

theorem fasst_put_then_get:
  assumes "fs_inv c b fs"
  shows "(unat (log_head (fs_kv fs)) + 34 < 2 ^ 40 \<longrightarrow> (\<exists>r fs'. fasst_put fs bkt tag val = Inr (r, fs'))) \<and>
    (\<forall>r fs'. fasst_put fs bkt tag val = Inr (r, fs') \<longrightarrow> fs_inv c b fs' \<and>
      (\<exists>fs2. fasst_get fs' bkt tag = Inr (\<lparr>rv_status = True, rv_val = ucast (ucast val :: u32)\<rparr>, fs2)) \<and>
      (\<forall>bkt' tag'. (bkt', tag') \<noteq> (bkt, tag) \<longrightarrow>
        (\<exists>fs2. fasst_get fs' bkt' tag' = Inr (\<lparr>rv_status = False, rv_val = 0\<rparr>, fs2)) \<or>
        (\<exists>a fs1 fs2. fasst_get fs bkt' tag' = Inr (a, fs1) \<and> fasst_get fs' bkt' tag' = Inr (a, fs2))))"
proof (intro conjI allI impI)
  assume room: "unat (log_head (fs_kv fs)) + 34 < 2 ^ 40"
  have o: "length (mo_pad (fs_op fs)) = 2" "length (mo_value (fs_op fs)) = 11" "mica_inv c b (fs_kv fs)" using assms by (simp_all add: fs_inv_def)
  show "\<exists>r fs'. fasst_put fs bkt tag val = Inr (r, fs')"
    using mica_put_returns [OF o(3) put_request_ok(1,2) [OF o(1,2), of bkt tag "ucast val"] room] by (auto simp: fasst_put_def Let_def)
next
  fix r fs' assume put: "fasst_put fs bkt tag val = Inr (r, fs')"
  note p = fasst_put_ok [OF assms put]
  then have inv': "fs_inv c b fs'" by blast
  then show "fs_inv c b fs'" .
  show "\<exists>fs2. fasst_get fs' bkt tag = Inr (\<lparr>rv_status = True, rv_val = ucast (ucast val :: u32)\<rparr>, fs2)"
    using fasst_get_ok [OF inv', of bkt tag] p by auto
  fix bkt' tag' assume "(bkt', tag') \<noteq> (bkt, tag)"
  then have "fasst_lookup c b fs' (bkt', tag') = None \<or> fasst_lookup c b fs' (bkt', tag') = fasst_lookup c b fs (bkt', tag')" using p by blast
  then show "(\<exists>fs2. fasst_get fs' bkt' tag' = Inr (\<lparr>rv_status = False, rv_val = 0\<rparr>, fs2)) \<or>
        (\<exists>a fs1 fs2. fasst_get fs bkt' tag' = Inr (a, fs1) \<and> fasst_get fs' bkt' tag' = Inr (a, fs2))"
    using fasst_get_ok [OF inv', of bkt' tag'] fasst_get_ok [OF assms, of bkt' tag'] by (auto split: option.splits)
qed

text \<open>The hypothesis holds of a server that was just set up with one key; the value $2^{32} + 5$ comes back as 5.\<close>

theorem fasst_put_then_get_witness:
  "\<exists>fs b r fs' fs2. setup_mica_table (\<lambda>i j. empty_slot) (\<lambda>i. 0) blank_op [5] = Inr fs \<and> fs_inv 30 b fs \<and>
     fasst_put fs 7 9 0x100000005 = Inr (r, fs') \<and> fasst_get fs' 7 9 = Inr (\<lparr>rv_status = True, rv_val = 5\<rparr>, fs2)"
proof -
  obtain fs b where fs: "setup_mica_table (\<lambda>i j. empty_slot) (\<lambda>i. 0) blank_op [5] = Inr fs" "fasst_loaded 30 b [5] (length [5 :: u64]) fs"
    using fasst_setup_ok [of "[5]" blank_op "\<lambda>i j. empty_slot" "\<lambda>i. 0"] blank_op_lengths by fastforce
  then have i: "fs_inv 30 b fs" "unat (log_head (fs_kv fs)) \<le> 64" by (simp_all add: fasst_loaded_def fs_inv_def)
  have v: "ucast (ucast (0x100000005 :: u64) :: u32) = (5 :: u64)" by simp
  show ?thesis using fasst_put_then_get [OF i(1), of 7 9 "0x100000005"] i fs(1) unfolding v by force
qed

text \<open>The loading of the MICA server returns for up to $2^{29}$ keys, whatever \<^verbatim>\<open>malloc\<close> left in the index, the log and the
  operation. Afterwards a GET answers a hash with "not found" or with the number of the last loaded key that has this
  hash, and the last key is found. Two keys with the same 48 bits of hash are one key to the server.\<close>

theorem fasst_load_no_stale:
  assumes "length keys \<le> 2 ^ 29" "keys \<noteq> []" "length (mo_pad op0) = 2" "length (mo_value op0) = 11"
  shows "\<exists>fs. setup_mica_table junk_slot junk_log op0 keys = Inr fs \<and>
    (\<forall>bkt tag. \<exists>a fs'. fasst_get fs bkt tag = Inr (a, fs') \<and> (a = \<lparr>rv_status = False, rv_val = 0\<rparr> \<or>
      (\<exists>i<length keys. a = \<lparr>rv_status = True, rv_val = of_nat i\<rparr> \<and> (hashbucket (keys ! i), hashtag (keys ! i)) = (bkt, tag) \<and>
        (\<forall>j<length keys. i < j \<longrightarrow> (hashbucket (keys ! j), hashtag (keys ! j)) \<noteq> (bkt, tag))))) \<and>
    (\<exists>fs'. fasst_get fs (hashbucket (last keys)) (hashtag (last keys)) = Inr (\<lparr>rv_status = True, rv_val = of_nat (length keys - 1)\<rparr>, fs'))"
proof -
  obtain fs b where fs: "setup_mica_table junk_slot junk_log op0 keys = Inr fs" and l: "fasst_loaded 30 b keys (length keys) fs"
    using fasst_setup_ok [OF assms(1,3,4)] by blast
  have inv: "fs_inv 30 b fs" using l assms(2) by (simp add: fasst_loaded_def fs_inv_def)
  have u: "ucast (of_nat i :: u32) = (of_nat i :: u64)" if "i < length keys" for i
  proof -
    have "unat (of_nat i :: u32) = i" "unat (of_nat i :: u64) = i" using that assms(1) by (simp_all add: unsigned_of_nat take_bit_nat_eq_self)
    then show ?thesis by (simp only: word_unat_eq_iff unat_ucast_up_simps)
  qed
  have "\<exists>a fs'. fasst_get fs bkt tag = Inr (a, fs') \<and> (a = \<lparr>rv_status = False, rv_val = 0\<rparr> \<or>
      (\<exists>i<length keys. a = \<lparr>rv_status = True, rv_val = of_nat i\<rparr> \<and> (hashbucket (keys ! i), hashtag (keys ! i)) = (bkt, tag) \<and>
        (\<forall>j<length keys. i < j \<longrightarrow> (hashbucket (keys ! j), hashtag (keys ! j)) \<noteq> (bkt, tag))))" for bkt tag
  proof (cases "fasst_lookup 30 b fs (bkt, tag)")
    case None
    then show ?thesis using fasst_get_ok [OF inv, of bkt tag] by auto
  next
    case (Some v)
    then obtain i where i: "i < length keys" "v = of_nat i" "key_hash (keys ! i) = (bkt, tag)" "\<forall>j<length keys. i < j \<longrightarrow> key_hash (keys ! j) \<noteq> (bkt, tag)"
      using l unfolding fasst_loaded_def by blast
    obtain fs' where "fasst_get fs bkt tag = Inr (\<lparr>rv_status = True, rv_val = of_nat i\<rparr>, fs')"
      using fasst_get_ok [OF inv, of bkt tag] Some i(2) u [OF i(1)] by auto
    then show ?thesis using i unfolding key_hash_def by blast
  qed
  moreover have "fasst_lookup 30 b fs (hashbucket (last keys), hashtag (last keys)) = Some (of_nat (length keys - 1))"
    using l assms(2) by (simp add: fasst_loaded_def key_hash_def last_conv_nth)
  then have "\<exists>fs'. fasst_get fs (hashbucket (last keys)) (hashtag (last keys)) = Inr (\<lparr>rv_status = True, rv_val = of_nat (length keys - 1)\<rparr>, fs')"
    using fasst_get_ok [OF inv, of "hashbucket (last keys)" "hashtag (last keys)"] u [of "length keys - 1"] assms(2) by auto
  ultimately show ?thesis using fs by blast
qed

theorem fasst_load_no_stale_witness:
  "\<exists>fs fs'. setup_mica_table (\<lambda>i j. empty_slot) (\<lambda>i. 0) blank_op [5, 8] = Inr fs \<and>
     fasst_get fs (hashbucket 8) (hashtag 8) = Inr (\<lparr>rv_status = True, rv_val = 1\<rparr>, fs')"
  using fasst_load_no_stale [of "[5, 8]" blank_op "\<lambda>i j. empty_slot" "\<lambda>i. 0"] blank_op_lengths by auto

end
