(* ===== verification/Fasst_Client.thy ===== *)
theory Fasst_Client
  imports Fasst_Server Rpc_Call
begin

text \<open>
  The calls of \<open>benchs/fasst/client.cc\<close> and their exchange with the MICA server of \<open>Fasst_Server\<close>. The client sends 48 bits of
  hash in place of the key.

  Shown: over the network a PUT is visible to a search of the same key, cut to 32 bits; a search of a key with another
  hash answers as before or finds nothing; a key with the same hash is taken for the key of the PUT.
\<close>

section \<open>Definitions\<close>

definition fasst_callbacks :: "stack_junk \<Rightarrow> reply_value \<Rightarrow> fasst_server rpc_callback list" where
  "fasst_callbacks junk reply =
    [fasst_get_callback junk, fasst_put_callback junk, fasst_update_callback junk, fasst_remove_callback junk, fasst_scan_callback junk reply]"

definition hash_bytes :: "u64 \<Rightarrow> u8 list" where
  "hash_bytes key = le_bytes 4 (ucast (hashbucket key)) @ le_bytes 2 (ucast (hashtag key))"

definition fasst_remote_search where
  "fasst_remote_search callbacks session j cor key core sc = remote_query callbacks session j cor (hash_bytes key) core sc"

definition fasst_remote_put where
  "fasst_remote_put callbacks session j cor key val core sc = remote_call callbacks session j cor PUT (hash_bytes key @ serialize_to val) core sc"

definition fasst_remote_update where
  "fasst_remote_update callbacks session j cor key val core sc = remote_call callbacks session j cor UPDATE (hash_bytes key @ serialize_to val) core sc"

definition fasst_remote_remove where
  "fasst_remote_remove callbacks session j cor key core sc = remote_call callbacks session j cor DELETE (serialize_to key) core sc"

definition fasst_remote_scan where
  "fasst_remote_scan callbacks session j cor key n core sc = remote_call callbacks session j cor SCAN (serialize_to key @ serialize_to n) core sc"

section \<open>The arguments\<close>

lemma length_hash_bytes [simp]: "length (hash_bytes key) = 6"
  by (simp add: hash_bytes_def)

lemma interpret_hash:
  "interpret_as_u32 (hash_bytes key @ rest) 0 = Inr (hashbucket key)" "interpret_as_u16 (hash_bytes key @ rest) 4 = Inr (hashtag key)"
  "interpret_as_u64 (hash_bytes key @ serialize_to v) 6 = Inr v"
proof -
  show "interpret_as_u32 (hash_bytes key @ rest) 0 = Inr (hashbucket key)" "interpret_as_u16 (hash_bytes key @ rest) 4 = Inr (hashtag key)"
    by (simp_all add: interpret_as_u32_def interpret_as_u16_def read_at_def hash_bytes_def le_word_2 del: le_bytes.simps)
  show "interpret_as_u64 (hash_bytes key @ serialize_to v) 6 = Inr v"
    using interpret_as_u64_append [of "hash_bytes key" v "[]"] by (simp add: serialize_to_def del: le_bytes.simps)
qed

lemma interpret_hash_only: "interpret_as_u32 (hash_bytes key) 0 = Inr (hashbucket key)" "interpret_as_u16 (hash_bytes key) 4 = Inr (hashtag key)"
  using interpret_hash(1,2) [of key "[]"] by simp_all

text \<open>A search answers with what the map of the server holds for the hash of the key.\<close>

lemma fasst_search_answer:
  assumes rdy: "rpc_ready j sj session cor core sc" and inv: "fs_inv c b (rc_app sc)"
  shows "\<exists>core' sc'. fasst_remote_search (fasst_callbacks sj rj) session j cor key core sc =
      Inr (map_option ucast (fasst_lookup c b (rc_app sc) (hashbucket key, hashtag key)), core', sc')"
proof -
  obtain fs' where g: "fasst_get (rc_app sc) (hashbucket key) (hashtag key) = Inr (case fasst_lookup c b (rc_app sc) (hashbucket key, hashtag key) of
      None \<Rightarrow> \<lparr>rv_status = False, rv_val = 0\<rparr> | Some v \<Rightarrow> \<lparr>rv_status = True, rv_val = ucast v\<rparr>, fs')"
    using fasst_get_ok [OF inv] by blast
  then have "fasst_get_callback sj (rc_app sc) h (hash_bytes key) = rbind (answer sj h (case fasst_lookup c b (rc_app sc) (hashbucket key, hashtag key) of
      None \<Rightarrow> \<lparr>rv_status = False, rv_val = 0\<rparr> | Some v \<Rightarrow> \<lparr>rv_status = True, rv_val = ucast v\<rparr>)) (\<lambda>m. Inr (fs', m))" for h
    by (simp add: fasst_get_callback_def interpret_hash_only)
  from remote_query_ok [where f = "fasst_get_callback sj" and callbacks = "fasst_callbacks sj rj", OF rdy _ _ _ this]
  show ?thesis by (auto simp: fasst_remote_search_def fasst_callbacks_def rpc_code_def split: option.splits)
qed

section \<open>Properties\<close>

text \<open>(C35) The MICA server over the network: a PUT of a client returns while virtual log offsets remain. A search then returns
  the low 32 bits of the value for every key with the same 48 bits of hash, and for every other key what it returned
  before the PUT, or nothing.\<close>

theorem fasst_remote_put_search:
  assumes "rpc_ready j sj session cor core sc" "fs_inv c b (rc_app sc)" "unat (log_head (fs_kv (rc_app sc))) + 34 < 2 ^ 40"
  shows "\<exists>core1 sc1. fasst_remote_put (fasst_callbacks sj rj) session j cor k v core sc = Inr (core1, sc1) \<and> fs_inv c b (rc_app sc1) \<and>
    (\<forall>k'. if (hashbucket k', hashtag k') = (hashbucket k, hashtag k)
      then \<exists>core2 sc2. fasst_remote_search (fasst_callbacks sj rj) session j cor k' core1 sc1 = Inr (Some (take_bit 32 v), core2, sc2)
      else \<exists>r core0 sc0 core2 sc2 r'. fasst_remote_search (fasst_callbacks sj rj) session j cor k' core sc = Inr (r, core0, sc0) \<and>
        fasst_remote_search (fasst_callbacks sj rj) session j cor k' core1 sc1 = Inr (r', core2, sc2) \<and> (r' = None \<or> r' = r))"
proof -
  let ?hk = "\<lambda>k. (hashbucket k, hashtag k)"
  have o: "length (mo_pad (fs_op (rc_app sc))) = 2" "length (mo_value (fs_op (rc_app sc))) = 11" "mica_inv c b (fs_kv (rc_app sc))" using assms(2) by (simp_all add: fs_inv_def)
  obtain r fs where put: "fasst_put (rc_app sc) (hashbucket k) (hashtag k) v = Inr (r, fs)"
    using mica_put_returns [OF o(3) put_request_ok(1,2) [OF o(1,2), of "hashbucket k" "hashtag k" "ucast v"] assms(3)] by (auto simp: fasst_put_def Let_def)
  note p = fasst_put_ok [OF assms(2) put]
  have "fasst_put_callback sj (rc_app sc) h (hash_bytes k @ serialize_to v) = rbind (answer sj h r) (\<lambda>m. Inr (fs, m))" for h
    using put by (simp add: fasst_put_callback_def interpret_hash)
  from remote_call_ok [where f = "fasst_put_callback sj" and callbacks = "fasst_callbacks sj rj" and i = PUT, OF assms(1) _ _ _ this]
  obtain core1 sc1 where c1: "fasst_remote_put (fasst_callbacks sj rj) session j cor k v core sc = Inr (core1, sc1)" "rc_app sc1 = fs" "rpc_ready j sj session cor core1 sc1"
    by (auto simp: fasst_remote_put_def fasst_callbacks_def rpc_code_def)
  have i1: "fs_inv c b (rc_app sc1)" using p c1(2) by simp
  have u: "ucast (ucast v :: u32) = take_bit 32 v" by (rule bit_word_eqI) (auto simp: bit_simps)
  have same: "\<exists>core2 sc2. fasst_remote_search (fasst_callbacks sj rj) session j cor k' core1 sc1 = Inr (Some (take_bit 32 v), core2, sc2)" if "?hk k' = ?hk k" for k'
    using fasst_search_answer [OF c1(3) i1, of rj k'] p c1(2) that u by auto
  have other: "\<exists>r core0 sc0 core2 sc2 r'. fasst_remote_search (fasst_callbacks sj rj) session j cor k' core sc = Inr (r, core0, sc0) \<and>
      fasst_remote_search (fasst_callbacks sj rj) session j cor k' core1 sc1 = Inr (r', core2, sc2) \<and> (r' = None \<or> r' = r)" if n: "?hk k' \<noteq> ?hk k" for k'
  proof -
    have "fasst_lookup c b (rc_app sc1) (?hk k') = None \<or> fasst_lookup c b (rc_app sc1) (?hk k') = fasst_lookup c b (rc_app sc) (?hk k')" using p n c1(2) by blast
    then show ?thesis using fasst_search_answer [OF c1(3) i1, of rj k'] fasst_search_answer [OF assms(1,2), of rj k'] by auto
  qed
  show ?thesis using c1(1) i1 same other by (intro exI [of _ core1] exI [of _ sc1]) auto
qed

theorem fasst_remote_put_search_witness:
  "\<exists>fs core1 sc1 core2 sc2. setup_mica_table (\<lambda>i j. empty_slot) (\<lambda>i. 0) blank_op [5] = Inr fs \<and>
     fasst_remote_put (fasst_callbacks sample_stack sample_reply) 7 sample_call 0 8 0x100000005 (sample_core ()) (sample_core fs) = Inr (core1, sc1) \<and>
     fasst_remote_search (fasst_callbacks sample_stack sample_reply) 7 sample_call 0 8 core1 sc1 = Inr (Some 5, core2, sc2)"
proof -
  obtain fs b where fs: "setup_mica_table (\<lambda>i j. empty_slot) (\<lambda>i. 0) blank_op [5] = Inr fs" "fasst_loaded 30 b [5] (length [5 :: u64]) fs"
    using fasst_setup_ok [of "[5]" blank_op "\<lambda>i j. empty_slot" "\<lambda>i. 0"] blank_op_lengths by fastforce
  then have i: "fs_inv 30 b (rc_app (sample_core fs))" "unat (log_head (fs_kv (rc_app (sample_core fs)))) + 34 < 2 ^ 40"
    by (simp_all add: fasst_loaded_def fs_inv_def sample_core_def)
  have v: "take_bit 32 (0x100000005 :: u64) = 5" by (simp add: take_bit_eq_mod)
  show ?thesis using fasst_remote_put_search [OF sample_rpc_ready i, of sample_reply 8 "0x100000005"] fs(1) unfolding v by (metis (no_types, lifting))
qed

end
