(* ===== verification/Race_Table.thy ===== *)
theory Race_Table
  imports Byte_Blocks Packed_Data Murmur Double_Arith
begin

text \<open>
  The RACE hash table of \<open>race/race_table.hh\<close> and its server, the set-up of \<open>benchs/race/server.cc\<close>. Buckets come in threes:
  a main bucket, a spare bucket that it shares, another main bucket. A key has two main buckets and the spares beside
  them. Buckets and records lie in one registered region; the server fills it and then only the clients touch it, with
  one-sided reads and writes.

  Not modelled: the cuckoo moves (\<open>CUCKOO_KICK_MODE\<close> is 0), \<open>bulkload\<close> (called with no keys), \<open>lookup\<close> (never instantiated).

  Shown: the size of the table, computed in floating point, leaves room for the records; main and spare buckets are in
  range, and a main bucket is never a spare one; an insertion takes the first free slot of the four buckets and changes
  nothing else; after the set-up every used slot belongs to a loaded key with the fingerprint of its record.
\<close>

section \<open>Definitions\<close>

record cuckoo_bucket =
  occupied :: u8
  cb_fps :: "u8 list"
  cb_lens :: "u16 list"
  cb_addrs :: "u64 list"
  cb_pad :: "u8 list"     \<comment> \<open>up to the alignment of 64 bytes\<close>

record race_table =
  nsize :: u64
  msize :: u64

text \<open>\<open>round(1.5 * ((entries / 4) / 0.85))\<close>; the \<open>double\<close> 0.85 is \<open>0x1b333333333333 / 2 ^ 53\<close>, 1.5 is \<open>3 / 2\<close>.\<close>

definition race_size :: "nat \<Rightarrow> nat" where
  "race_size entries = (dbl_prod (dbl_quot (dbl_prod (entries div 4) 1) 0x1b333333333333 53) 3 + 2 ^ 52) div 2 ^ 53"

definition RaceHashTable :: "u64 \<Rightarrow> race_table" where
  "RaceHashTable entries = (let n = of_nat (race_size (unat entries)) in \<lparr>nsize = n, msize = n * 2 div 3\<rparr>)"

definition total_size :: "race_table \<Rightarrow> u64" where
  "total_size rt = nsize rt * 64"

definition hash_to_cuckoo_index :: "race_table \<Rightarrow> u64 \<Rightarrow> u64" where
  "hash_to_cuckoo_index rt h =
    (if h AND 1 \<noteq> 0 then (if 3 * (h div 2 + 1) - 1 > 0 then 3 * (h div 2 + 1) - 1 else 0)
     else if 3 * (h div 2) < nsize rt - 1 then 3 * (h div 2) else nsize rt - 1)"

definition cuckoo_hash :: "race_table \<Rightarrow> u64 \<Rightarrow> u64 list res" where
  "cuckoo_hash rt key =
    (if msize rt = 0 then Inl DivByZero
     else let seed = murmur64 key 0x1234; h = seed XOR (0x9e3779b9 + push_bit 6 seed + drop_bit 2 seed)
          in Inr [hash_to_cuckoo_index rt (seed mod msize rt), hash_to_cuckoo_index rt (h mod msize rt)])"

text \<open>The spare bucket, a signed integer that is compared with 0 as such and with \<open>nsize\<close> as an unsigned one.\<close>

definition spare_bucket :: "u64 \<Rightarrow> u64" where
  "spare_bucket b = (if b mod 3 = 0 then b + 1 else if b mod 3 = 2 then b - 1 else - 1)"

definition spare_ok :: "race_table \<Rightarrow> u64 \<Rightarrow> bool" where
  "spare_ok rt s \<longleftrightarrow> 0 < sint s \<and> s < nsize rt"

definition spare_buckets_num :: "race_table \<Rightarrow> u64 list \<Rightarrow> u64 list" where
  "spare_buckets_num rt bs = map (\<lambda>b. if spare_ok rt (spare_bucket b) then spare_bucket b else b) bs"

definition race_fingerprint :: "u64 \<Rightarrow> u8" where
  "race_fingerprint key = ucast (murmur64 key 0x87654321 AND 0xFF)"

definition slot_used :: "cuckoo_bucket \<Rightarrow> nat \<Rightarrow> bool" where
  "slot_used b s \<longleftrightarrow> occupied b AND push_bit s 1 \<noteq> 0"

definition fill_slot :: "cuckoo_bucket \<Rightarrow> nat \<Rightarrow> u8 \<Rightarrow> u64 \<Rightarrow> u16 \<Rightarrow> cuckoo_bucket" where
  "fill_slot b s fp addr len = b\<lparr>cb_fps := (cb_fps b)[s := fp], cb_addrs := (cb_addrs b)[s := addr],
     cb_lens := (cb_lens b)[s := len], occupied := occupied b OR push_bit s 1\<rparr>"

definition open_slot :: "cuckoo_bucket \<Rightarrow> nat option" where
  "open_slot b = find (\<lambda>s. \<not> slot_used b s) [0..<4]"

text \<open>The loop over two buckets and their slots, which \<open>insert\<close> has twice: once for the main buckets, once for the spare ones.\<close>

fun race_place :: "u8 \<Rightarrow> u64 \<Rightarrow> u16 \<Rightarrow> u64 list \<Rightarrow> cuckoo_bucket list \<Rightarrow> cuckoo_bucket list option res" where
  "race_place fp addr len [] tb = Inr None"
| "race_place fp addr len (b # bs) tb =
    rbind (aget tb (unat b)) (\<lambda>bucket.
    case open_slot bucket of
      Some s \<Rightarrow> Inr (Some (tb[unat b := fill_slot bucket s fp addr len]))
    | None \<Rightarrow> race_place fp addr len bs tb)"

definition race_insert :: "race_table \<Rightarrow> cuckoo_bucket list \<Rightarrow> u64 \<Rightarrow> u64 \<Rightarrow> (bool \<times> cuckoo_bucket list) res" where
  "race_insert rt tb key addr =
    rbind (cuckoo_hash rt key) (\<lambda>bs.
    rbind (race_place (race_fingerprint key) addr 16 bs tb) (\<lambda>r.
    case r of Some tb' \<Rightarrow> Inr (True, tb')
    | None \<Rightarrow> rbind (race_place (race_fingerprint key) addr 16 (spare_buckets_num rt bs) tb) (\<lambda>r.
        case r of Some tb' \<Rightarrow> Inr (True, tb') | None \<Rightarrow> Inr (False, tb))))"

text \<open>Where a client reads: an offset in the region and a number of bytes.\<close>

definition remote_lookup :: "race_table \<Rightarrow> u64 \<Rightarrow> (u64 \<times> u32) res" where
  "remote_lookup rt key =
    rbind (cuckoo_hash rt key) (\<lambda>bs.
    let ac_addr = bs ! 0; spare = spare_bucket ac_addr;
        read_size = (if spare_ok rt spare then 2 * 64 else 64);
        ac_addr = (if ac_addr < spare then ac_addr else spare)
    in Inr (ac_addr * 64, read_size))"

text \<open>The set-up of the server; \<open>buckets\<close> and \<open>records\<close> are what the registered memory holds before, \<open>junk\<close> the local record of \<open>PackedData\<close>.\<close>

record race_server =
  rs_table :: race_table
  rs_buckets :: "cuckoo_bucket list"
  rs_data :: packed_data

definition race_load :: "u64 list \<Rightarrow> nat \<Rightarrow> race_server \<Rightarrow> race_server res" where
  "race_load keys i sv =
    (let key = keys ! i in
     rbind (bulk_load_data (rs_data sv) key 8 key) (\<lambda>(addr, pd).
     rbind (race_insert (rs_table sv) (rs_buckets sv) key (ucast addr)) (\<lambda>(stored, tb).
     Inr (sv\<lparr>rs_buckets := tb, rs_data := pd\<rparr>))))"

definition setup_race_hash_packed_data ::
  "packed_struct \<Rightarrow> cuckoo_bucket list \<Rightarrow> packed_struct list \<Rightarrow> u64 list \<Rightarrow> race_server res" where
  "setup_race_hash_packed_data junk buckets records keys =
    (let n = length keys in
     rbind (PackedData_map junk records (of_nat (3 * n div 2))) (\<lambda>pd.
     rfold (race_load keys) [0..<n] \<lparr>rs_table = RaceHashTable (of_nat n), rs_buckets = buckets, rs_data = pd\<rparr>))"

text \<open>The structures as memory.\<close>

definition bucket_bytes :: "cuckoo_bucket \<Rightarrow> u8 list" where
  "bucket_bytes b = occupied b # cb_fps b @ concat (map (\<lambda>w. le_bytes 2 (ucast w)) (cb_lens b)) @ concat (map (le_bytes 8) (cb_addrs b)) @ cb_pad b"

definition bucket_of_bytes :: "u8 list \<Rightarrow> cuckoo_bucket" where
  "bucket_of_bytes bs = \<lparr>occupied = bs ! 0, cb_fps = take 4 (drop 1 bs),
     cb_lens = map (\<lambda>i. ucast (le_word (take 2 (drop (5 + 2 * i) bs)))) [0..<4],
     cb_addrs = map (\<lambda>i. le_word (take 8 (drop (13 + 8 * i) bs))) [0..<4], cb_pad = drop 45 bs\<rparr>"

definition struct_bytes :: "packed_struct \<Rightarrow> u8 list" where
  "struct_bytes r = le_bytes 8 (ps_key r) @ le_bytes 4 (ucast (ps_data_length r)) @ le_bytes 8 (ps_data r)"

definition struct_of_bytes :: "u8 list \<Rightarrow> packed_struct" where
  "struct_of_bytes bs = \<lparr>ps_key = le_word (take 8 bs), ps_data_length = ucast (le_word (take 4 (drop 8 bs))), ps_data = le_word (take 8 (drop 12 bs))\<rparr>"

definition region_bytes :: "cuckoo_bucket list \<Rightarrow> packed_struct list \<Rightarrow> u8 list \<Rightarrow> u8 list" where
  "region_bytes tb recs rest = concat (map bucket_bytes tb) @ concat (map struct_bytes recs) @ rest"

section \<open>The codecs\<close>

definition bucket_ok :: "cuckoo_bucket \<Rightarrow> bool" where
  "bucket_ok b \<longleftrightarrow> length (cb_fps b) = 4 \<and> length (cb_lens b) = 4 \<and> length (cb_addrs b) = 4 \<and> length (cb_pad b) = 19"

lemma length_4D: "length xs = 4 \<Longrightarrow> \<exists>a b c d. xs = [a, b, c, d]"
  by (auto simp: numeral_eq_Suc length_Suc_conv)

interpretation bucket_codec: fixed_codec bucket_bytes bucket_of_bytes 64 bucket_ok
proof
  fix b assume ok: "bucket_ok b"
  obtain f0 f1 f2 f3 l0 l1 l2 l3 a0 a1 a2 a3 where b: "cb_fps b = [f0, f1, f2, f3]" "cb_lens b = [l0, l1, l2, l3]" "cb_addrs b = [a0, a1, a2, a3]"
    using ok length_4D unfolding bucket_ok_def by meson
  have p: "length (cb_pad b) = 19" using ok by (simp add: bucket_ok_def)
  show "length (bucket_bytes b) = 64" using p by (simp add: bucket_bytes_def b)
  have u: "[0..<4] = [0, 1, 2, 3 :: nat]" by (simp add: upt_rec)
  show "bucket_of_bytes (bucket_bytes b) = b"
    using p by (intro cuckoo_bucket.equality) (simp_all add: bucket_of_bytes_def bucket_bytes_def b u le_word_2 del: le_bytes.simps)
qed

interpretation struct_codec: fixed_codec struct_bytes struct_of_bytes 20 "\<lambda>r. True"
  by unfold_locales (simp_all add: struct_bytes_def struct_of_bytes_def del: le_bytes.simps)

section \<open>The size of the table\<close>

lemma dbl_prod_one: "a < 2 ^ 53 \<Longrightarrow> dbl_prod a 1 = a"
  using dbl_prod_pow2 [of a 0] by (simp add: dbl_prod_def)

lemma race_size_bounds:
  assumes "4 \<le> n" "n < 2 ^ 50"
  shows "2 \<le> race_size n" "race_size n \<le> 2 * (n div 4)"
proof -
  define a M c P x y :: nat where "a = n div 4" and "M = 0x1b333333333333" and "c = 5298352502788818" and "P = a * 2 ^ (53 + 52) div M"
    and "x = dbl_quot a M 53" and "y = dbl_prod x 3"
  have a: "1 \<le> a" "a < 2 ^ 53" using assms by (simp_all add: a_def)
  have c: "c * M \<le> 2 ^ (53 + 52)" "2 ^ (53 + 52) \<le> (c + 1) * M" "0 < M" by (simp_all add: c_def M_def)
  have "a * c * M \<le> a * 2 ^ (53 + 52)" using mult_le_mono2 [OF c(1), of a] by (simp only: mult.assoc)
  then have P1: "a * c \<le> P" unfolding P_def using c(3) by (simp only: less_eq_div_iff_mult_less_eq)
  have "a * 2 ^ (53 + 52) \<le> a * (c + 1) * M" using mult_le_mono2 [OF c(2), of a] by (simp only: mult.assoc)
  then have "P \<le> a * (c + 1) * M div M" unfolding P_def by (rule div_le_mono)
  then have P2: "P \<le> a * (c + 1)" using c(3) by simp
  have P: "P \<le> 2 * a * 2 ^ 52" using P2 by (simp add: c_def)
  have s: "2 ^ (bit_length P - 53) \<le> 2 * a" using dbl_unit_le [OF P] a(1) by simp
  have x: "x \<le> P + 2 * a" "P < x + 2 * a" using dbl_quot_bounds [OF c(3), of a 53] s unfolding P_def x_def by linarith+
  have "x * 3 \<le> 4 * a * 2 ^ 52" using x(1) P2 by (simp add: c_def)
  then have s': "2 ^ (bit_length (x * 3) - 53) \<le> 4 * a" by (rule dbl_unit_le) (use a(1) in simp)
  have y: "y \<le> x * 3 + 4 * a" "x * 3 < y + 4 * a" using dbl_prod_upper [of x 3] dbl_prod_lower [of x 3] s' unfolding y_def by linarith+
  have r: "race_size n = (y + 2 ^ 52) div 2 ^ 53"
    using dbl_prod_one [OF a(2)] unfolding race_size_def y_def x_def M_def a_def by simp
  have "2 * 2 ^ 53 \<le> y + 2 ^ 52" using y(2) x(2) P1 a(1) by (simp add: c_def)
  then show "2 \<le> race_size n" unfolding r by (simp only: less_eq_div_iff_mult_less_eq zero_less_power zero_less_numeral)
  have "y + 2 ^ 52 < (2 * a + 1) * 2 ^ 53" using y(1) x(1) P2 by (simp add: c_def)
  then have "race_size n < 2 * a + 1" unfolding r by (rule less_mult_imp_div_less)
  then show "race_size n \<le> 2 * (n div 4)" by (simp add: a_def)
qed

section \<open>Buckets in range\<close>

definition race_geom :: "race_table \<Rightarrow> bool" where
  "race_geom rt \<longleftrightarrow> 2 \<le> unat (nsize rt) \<and> unat (nsize rt) < 2 ^ 50 \<and> unat (msize rt) = 2 * unat (nsize rt) div 3"

lemma RaceHashTable_geom:
  assumes "4 \<le> n" "n < 2 ^ 50"
  shows "race_geom (RaceHashTable (of_nat n))" "unat (nsize (RaceHashTable (of_nat n))) = race_size n"
proof -
  have b: "2 \<le> race_size n" "race_size n < 2 ^ 50" using race_size_bounds [OF assms] assms(2) by simp_all
  have n: "unat (of_nat n :: u64) = n" using assms(2) by (simp add: unsigned_of_nat take_bit_nat_eq_self)
  have r: "unat (of_nat (race_size n) :: u64) = race_size n" using b(2) by (simp add: unsigned_of_nat take_bit_nat_eq_self)
  then show u: "unat (nsize (RaceHashTable (of_nat n))) = race_size n" by (simp add: RaceHashTable_def Let_def n)
  have "unat (of_nat (race_size n) * 2 div 3 :: u64) = race_size n * 2 div 3"
    using r b(2) by (simp add: unat_div unat_word_ariths)
  then show "race_geom (RaceHashTable (of_nat n))" using b u by (simp add: race_geom_def RaceHashTable_def Let_def n mult.commute)
qed

text \<open>A main bucket is the first or the third of its group, and the spare one is in the middle.\<close>

lemma index_ok:
  assumes g: "race_geom rt" and h: "unat h < unat (msize rt)"
  shows "unat (hash_to_cuckoo_index rt h) = 3 * (unat h div 2) + (if odd (unat h) then 2 else 0)"
    "unat (spare_bucket (hash_to_cuckoo_index rt h)) = 3 * (unat h div 2) + 1"
    "unat (hash_to_cuckoo_index rt h) < unat (nsize rt)" "spare_ok rt (spare_bucket (hash_to_cuckoo_index rt h))"
proof -
  let ?n = "unat (nsize rt)" and ?k = "unat h div 2" and ?b = "hash_to_cuckoo_index rt h"
  have n: "2 \<le> ?n" "?n < 2 ^ 50" "unat h < 2 * ?n div 3" using g h by (simp_all add: race_geom_def)
  have d: "unat (h div 2) = ?k" by (simp add: unat_div)
  have "(unat h + 1) * 3 \<le> 2 * ?n div 3 * 3" using n(3) by (intro mult_le_mono1) simp
  then have "3 * (unat h + 1) \<le> 2 * ?n" using div_times_less_eq_dividend [of "2 * ?n" 3] by (simp only: mult.commute [of 3])
  moreover have "3 * (x div 2) + 1 < m \<and> (x mod 2 = 1 \<longrightarrow> 3 * (x div 2) + 2 < m)" if "3 * (x + 1) \<le> 2 * m" for x m :: nat
    using that by presburger
  ultimately have k: "3 * ?k + 1 < ?n" "unat h mod 2 = 1 \<Longrightarrow> 3 * ?k + 2 < ?n" by blast+
  have o: "h AND 1 \<noteq> 0 \<longleftrightarrow> odd (unat h)"
    by (simp add: and_one_eq word_unat_eq_iff unat_mod_distrib odd_iff_mod_2_eq_one)
  have m: "unat (nsize rt - 1) = ?n - 1" using n(1) by (intro unat_minus_one) auto
  have s1: "unat (h div 2 + 1) = ?k + 1" using k(1) n(2) by (subst unat_word_ariths) (simp add: d)
  have t: "unat (3 * (h div 2)) = 3 * ?k" using k(1) n(2) by (subst unat_word_ariths) (simp add: d)
  have t3: "unat (3 * (h div 2 + 1)) = 3 * ?k + 3" using k(1) n(2) by (subst unat_word_ariths) (simp add: s1)
  then have t2: "unat (3 * (h div 2 + 1) - 1) = 3 * ?k + 2" by (subst unat_minus_one) auto
  have "0 < 3 * (h div 2 + 1) - 1" using t2 by (simp add: word_less_nat_alt)
  moreover have "3 * (h div 2) < nsize rt - 1" using t m k(1) by (simp add: word_less_nat_alt)
  ultimately show b: "unat ?b = 3 * ?k + (if odd (unat h) then 2 else 0)" using o t t2 by (simp add: hash_to_cuckoo_index_def)
  show lt: "unat ?b < ?n" using b k by (simp add: odd_iff_mod_2_eq_one split: if_splits)
  have b3: "unat (?b mod 3) = (if odd (unat h) then 2 else 0)" using b by (simp add: unat_mod_distrib)
  show sp: "unat (spare_bucket ?b) = 3 * ?k + 1"
  proof (cases "odd (unat h)")
    case True
    then have "?b mod 3 = 2" "?b \<noteq> 0" using b b3 by (auto simp: word_unat_eq_iff)
    then show ?thesis using True b by (simp add: spare_bucket_def unat_minus_one)
  next
    case False
    then have "?b mod 3 = 0" using b3 by (simp add: word_unat_eq_iff)
    then show ?thesis using False b lt n(2) by (simp add: spare_bucket_def) (subst unat_word_ariths, simp)
  qed
  have "sint (spare_bucket ?b) = int (3 * ?k + 1)"
    using sp k(1) n(2) by (simp add: sint_uint signed_take_bit_int_eq_self uint_nat)
  then show "spare_ok rt (spare_bucket ?b)" using sp k(1) by (simp add: spare_ok_def word_less_nat_alt)
qed

definition homes :: "race_table \<Rightarrow> u64 \<Rightarrow> nat set" where
  "homes rt key = (case cuckoo_hash rt key of Inl e \<Rightarrow> {} | Inr bs \<Rightarrow> unat ` (set bs \<union> spare_bucket ` set bs))"

text \<open>The first of the two neighbouring buckets that a client reads.\<close>

definition pair_start :: "race_table \<Rightarrow> u64 \<Rightarrow> nat" where
  "pair_start rt key = (let h = unat (murmur64 key 0x1234 mod msize rt) in 3 * (h div 2) + h mod 2)"

lemma cuckoo_hash_ok:
  assumes "race_geom rt"
  shows "\<exists>h0 h1. cuckoo_hash rt key = Inr [hash_to_cuckoo_index rt h0, hash_to_cuckoo_index rt h1] \<and> h0 = murmur64 key 0x1234 mod msize rt \<and>
    unat h0 < unat (msize rt) \<and> unat h1 < unat (msize rt)"
proof -
  have "0 < unat (msize rt)" using assms by (simp add: race_geom_def div_greater_zero_iff)
  then have m: "msize rt \<noteq> 0" "unat (x mod msize rt) < unat (msize rt)" for x by (auto simp: unat_mod_distrib)
  show ?thesis unfolding cuckoo_hash_def Let_def using m by auto
qed

lemma homes_lt:
  assumes "race_geom rt" "j \<in> homes rt key"
  shows "j < unat (nsize rt)"
proof -
  obtain h0 h1 where h: "cuckoo_hash rt key = Inr [hash_to_cuckoo_index rt h0, hash_to_cuckoo_index rt h1]" "unat h0 < unat (msize rt)" "unat h1 < unat (msize rt)"
    using cuckoo_hash_ok [OF assms(1)] by blast
  note i = index_ok(3,4) [OF assms(1) h(2)] index_ok(3,4) [OF assms(1) h(3)]
  show ?thesis using assms(2) i by (auto simp: homes_def h(1) spare_ok_def word_less_nat_alt)
qed

lemma remote_lookup_ok:
  assumes "race_geom rt"
  shows "\<exists>ac. remote_lookup rt key = Inr (ac, 128) \<and> unat ac = 64 * pair_start rt key" "Suc (pair_start rt key) < unat (nsize rt)"
    "{pair_start rt key, Suc (pair_start rt key)} \<subseteq> homes rt key"
proof -
  obtain h0 h1 where h: "cuckoo_hash rt key = Inr [hash_to_cuckoo_index rt h0, hash_to_cuckoo_index rt h1]" "h0 = murmur64 key 0x1234 mod msize rt" "unat h0 < unat (msize rt)"
    using cuckoo_hash_ok [OF assms] by blast
  let ?b = "hash_to_cuckoo_index rt h0" and ?p = "pair_start rt key"
  note i = index_ok [OF assms h(3)]
  have p: "?p = 3 * (unat h0 div 2) + unat h0 mod 2" by (simp add: pair_start_def Let_def h(2))
  have e: "{?p, Suc ?p} = {unat ?b, unat (spare_bucket ?b)}" "unat (if ?b < spare_bucket ?b then ?b else spare_bucket ?b) = ?p"
    using i(1,2) p by (auto simp: word_less_nat_alt odd_iff_mod_2_eq_one)
  show "{?p, Suc ?p} \<subseteq> homes rt key" unfolding e(1) by (auto simp: homes_def h(1))
  have lt: "unat (spare_bucket ?b) < unat (nsize rt)" using i(4) by (simp add: spare_ok_def word_less_nat_alt)
  show n: "Suc ?p < unat (nsize rt)" using e(1) i(3) lt by (metis insertCI insert_iff singletonD)
  have "64 * ?p < 2 ^ 64" using n assms by (simp add: race_geom_def)
  then have "unat ((if ?b < spare_bucket ?b then ?b else spare_bucket ?b) * 64) = 64 * ?p"
    by (subst unat_word_ariths) (simp only: e(2), simp add: mult.commute)
  then show "\<exists>ac. remote_lookup rt key = Inr (ac, 128) \<and> unat ac = 64 * ?p"
    using i(4) by (auto simp: remote_lookup_def h(1) Let_def split: if_splits)
qed

section \<open>Insertion\<close>

lemma race_place_cases:
  assumes "\<forall>b\<in>set bs. unat b < length tb"
  shows "(race_place fp addr len bs tb = Inr None \<and> (\<forall>b\<in>set bs. open_slot (tb ! unat b) = None)) \<or>
    (\<exists>b\<in>set bs. \<exists>s. open_slot (tb ! unat b) = Some s \<and>
      race_place fp addr len bs tb = Inr (Some (tb[unat b := fill_slot (tb ! unat b) s fp addr len])))"
  using assms
proof (induction bs)
  case (Cons b bs)
  then show ?case by (cases "open_slot (tb ! unat b)") auto
qed simp

lemma spare_buckets_num_ok: "\<forall>b\<in>set bs. spare_ok rt (spare_bucket b) \<Longrightarrow> set (spare_buckets_num rt bs) = spare_bucket ` set bs"
  by (force simp: spare_buckets_num_def)

text \<open>An insertion fills a free slot of one of the four buckets, or finds all sixteen slots taken and reports failure.\<close>

lemma race_insert_cases:
  assumes g: "race_geom rt" and l: "length tb = unat (nsize rt)"
  obtains (full) "race_insert rt tb key addr = Inr (False, tb)" "\<forall>j\<in>homes rt key. open_slot (tb ! j) = None"
  | (stored) j s where "j \<in> homes rt key" "open_slot (tb ! j) = Some s"
      "race_insert rt tb key addr = Inr (True, tb[j := fill_slot (tb ! j) s (race_fingerprint key) addr 16])"
proof -
  obtain h0 h1 where h: "cuckoo_hash rt key = Inr [hash_to_cuckoo_index rt h0, hash_to_cuckoo_index rt h1]" "unat h0 < unat (msize rt)" "unat h1 < unat (msize rt)"
    using cuckoo_hash_ok [OF g] by blast
  define bs where "bs = [hash_to_cuckoo_index rt h0, hash_to_cuckoo_index rt h1]"
  have ok: "\<forall>b\<in>set bs. spare_ok rt (spare_bucket b)" using index_ok(4) [OF g h(2)] index_ok(4) [OF g h(3)] by (simp add: bs_def)
  have m: "\<forall>b\<in>set bs. unat b < length tb" "\<forall>b\<in>set (spare_buckets_num rt bs). unat b < length tb"
    using homes_lt [OF g, of _ key] l spare_buckets_num_ok [OF ok] by (auto simp: homes_def h(1) bs_def [symmetric])
  have hm: "homes rt key = unat ` (set bs \<union> set (spare_buckets_num rt bs))" using spare_buckets_num_ok [OF ok] by (simp add: homes_def h(1) bs_def)
  have e: "race_insert rt tb key addr =
    rbind (race_place (race_fingerprint key) addr 16 bs tb) (\<lambda>r. case r of Some tb' \<Rightarrow> Inr (True, tb')
    | None \<Rightarrow> rbind (race_place (race_fingerprint key) addr 16 (spare_buckets_num rt bs) tb) (\<lambda>r.
        case r of Some tb' \<Rightarrow> Inr (True, tb') | None \<Rightarrow> Inr (False, tb)))"
    unfolding race_insert_def h(1) bs_def [symmetric] rbind_Inr ..
  from race_place_cases [OF m(1), of "race_fingerprint key" addr 16]
  show thesis
  proof
    assume "\<exists>b\<in>set bs. \<exists>s. open_slot (tb ! unat b) = Some s \<and>
      race_place (race_fingerprint key) addr 16 bs tb = Inr (Some (tb[unat b := fill_slot (tb ! unat b) s (race_fingerprint key) addr 16]))"
    then show thesis using stored unfolding e hm by force
  next
    assume n: "race_place (race_fingerprint key) addr 16 bs tb = Inr None \<and> (\<forall>b\<in>set bs. open_slot (tb ! unat b) = None)"
    from race_place_cases [OF m(2), of "race_fingerprint key" addr 16]
    show thesis
    proof
      assume "\<exists>b\<in>set (spare_buckets_num rt bs). \<exists>s. open_slot (tb ! unat b) = Some s \<and> race_place (race_fingerprint key) addr 16 (spare_buckets_num rt bs) tb =
        Inr (Some (tb[unat b := fill_slot (tb ! unat b) s (race_fingerprint key) addr 16]))"
      then show thesis using stored n unfolding e hm by force
    next
      assume "race_place (race_fingerprint key) addr 16 (spare_buckets_num rt bs) tb = Inr None \<and> (\<forall>b\<in>set (spare_buckets_num rt bs). open_slot (tb ! unat b) = None)"
      then show thesis using full n unfolding e hm by auto
    qed
  qed
qed

text \<open>The slots of a bucket; \<open>K addr fp\<close> says what a used slot may hold. Free slots are zero and come last.\<close>

definition slots_inv :: "(u64 \<Rightarrow> u8 \<Rightarrow> bool) \<Rightarrow> cuckoo_bucket \<Rightarrow> bool" where
  "slots_inv K b \<longleftrightarrow> bucket_ok b \<and> (\<forall>s<4. if slot_used b s then cb_lens b ! s = 16 \<and> K (cb_addrs b ! s) (cb_fps b ! s)
     else cb_fps b ! s = 0 \<and> cb_addrs b ! s = 0 \<and> (\<forall>t<4. s < t \<longrightarrow> \<not> slot_used b t))"

lemma slot_used_bit: "slot_used b s \<longleftrightarrow> bit (occupied b) s"
  unfolding slot_used_def by (rule bit_iff_and_push_bit_not_eq_0 [symmetric])

lemma slot_used_fill: "s < 4 \<Longrightarrow> slot_used (fill_slot b s fp addr len) t \<longleftrightarrow> t = s \<or> slot_used b t"
  by (auto simp: slot_used_bit fill_slot_def bit_simps)

lemma open_slot_Some:
  assumes "open_slot b = Some s"
  shows "s < 4" "\<not> slot_used b s" "\<And>t. t < s \<Longrightarrow> slot_used b t"
  using assms unfolding open_slot_def by (auto simp: find_Some_iff)

lemma open_slot_None: "open_slot b = None \<longleftrightarrow> (\<forall>s<4. slot_used b s)"
  by (auto simp: open_slot_def find_None_iff)

lemma slots_inv_fill:
  assumes b: "slots_inv K b" and s: "open_slot b = Some s" and k: "K' addr fp" and mono: "\<And>a f. K a f \<Longrightarrow> K' a f"
  shows "slots_inv K' (fill_slot b s fp addr 16)"
proof -
  note o = open_slot_Some [OF s]
  have ok: "bucket_ok (fill_slot b s fp addr 16)" using b by (simp add: slots_inv_def bucket_ok_def fill_slot_def)
  have f: "cb_lens (fill_slot b s fp addr 16) ! t = (if t = s then 16 else cb_lens b ! t)"
    "cb_addrs (fill_slot b s fp addr 16) ! t = (if t = s then addr else cb_addrs b ! t)"
    "cb_fps (fill_slot b s fp addr 16) ! t = (if t = s then fp else cb_fps b ! t)" for t
    using b o(1) by (simp_all add: slots_inv_def bucket_ok_def fill_slot_def nth_list_update)
  have used: "\<forall>t<4. if slot_used b t then cb_lens b ! t = 16 \<and> K (cb_addrs b ! t) (cb_fps b ! t)
     else cb_fps b ! t = 0 \<and> cb_addrs b ! t = 0 \<and> (\<forall>u<4. t < u \<longrightarrow> \<not> slot_used b u)" using b by (simp add: slots_inv_def)
  show ?thesis unfolding slots_inv_def slot_used_fill [OF o(1)] f
    using ok used k mono o by (auto split: if_splits)
qed

lemma slots_inv_mono: "slots_inv K b \<Longrightarrow> (\<And>a f. K a f \<Longrightarrow> K' a f) \<Longrightarrow> slots_inv K' b"
  by (auto simp: slots_inv_def)

section \<open>Loading\<close>

text \<open>What a used slot of bucket \<open>j\<close> may hold once \<open>n\<close> keys are loaded: the number of one of them that belongs there.\<close>

definition key_entry :: "race_table \<Rightarrow> u64 list \<Rightarrow> nat \<Rightarrow> nat \<Rightarrow> u64 \<Rightarrow> u8 \<Rightarrow> bool" where
  "key_entry rt keys n j addr fp \<longleftrightarrow> (\<exists>k<n. addr = of_nat k \<and> fp = race_fingerprint (keys ! k) \<and> j \<in> homes rt (keys ! k))"

definition has_slot :: "cuckoo_bucket list \<Rightarrow> nat \<Rightarrow> nat \<Rightarrow> bool" where
  "has_slot tb j k \<longleftrightarrow> (\<exists>s<4. slot_used (tb ! j) s \<and> cb_addrs (tb ! j) ! s = of_nat k)"

definition race_loaded :: "u64 list \<Rightarrow> nat \<Rightarrow> race_server \<Rightarrow> bool" where
  "race_loaded keys n sv \<longleftrightarrow> race_geom (rs_table sv) \<and> length (rs_buckets sv) = unat (nsize (rs_table sv)) \<and>
     (\<forall>j<length (rs_buckets sv). slots_inv (key_entry (rs_table sv) keys n j) (rs_buckets sv ! j)) \<and>
     (\<forall>k<n. (\<exists>j\<in>homes (rs_table sv) (keys ! k). has_slot (rs_buckets sv) j k) \<or>
        (\<forall>j\<in>homes (rs_table sv) (keys ! k). open_slot (rs_buckets sv ! j) = None)) \<and>
     pd_wf (rs_data sv) \<and> unat (pd_num (rs_data sv)) = n \<and>
     (\<forall>k<n. rawArray (rs_data sv) ! k = \<lparr>ps_key = keys ! k, ps_data_length = 8, ps_data = keys ! k\<rparr>)"

lemma has_slot_fill:
  assumes "open_slot (tb ! j) = Some s" "j < length tb" "bucket_ok (tb ! j)"
  shows "has_slot tb i k \<Longrightarrow> has_slot (tb[j := fill_slot (tb ! j) s fp addr 16]) i k"
    "has_slot (tb[j := fill_slot (tb ! j) s fp (of_nat m) 16]) j m"
proof -
  note o = open_slot_Some [OF assms(1)]
  have a: "cb_addrs (fill_slot (tb ! j) s fp x 16) ! t = (if t = s then x else cb_addrs (tb ! j) ! t)" for t x
    using assms(3) o(1) by (simp add: bucket_ok_def fill_slot_def nth_list_update)
  show "has_slot tb i k \<Longrightarrow> has_slot (tb[j := fill_slot (tb ! j) s fp addr 16]) i k"
    unfolding has_slot_def using o(1,2) assms(2) by (cases "i = j") (auto simp: slot_used_fill a)
  show "has_slot (tb[j := fill_slot (tb ! j) s fp (of_nat m) 16]) j m"
    unfolding has_slot_def using o(1) assms(2) by (auto simp: slot_used_fill a)
qed

lemma race_load_step:
  assumes l: "race_loaded keys n sv" and n: "n < length keys" "length keys < 2 ^ 32" "n < unat (numElements (rs_data sv))"
  shows "\<exists>sv'. race_load keys n sv = Inr sv' \<and> race_loaded keys (Suc n) sv' \<and> rs_table sv' = rs_table sv \<and>
    numElements (rs_data sv') = numElements (rs_data sv) \<and> length (rawArray (rs_data sv')) = length (rawArray (rs_data sv))"
proof -
  let ?k = "keys ! n" and ?rt = "rs_table sv" and ?tb = "rs_buckets sv" and ?pd = "rs_data sv"
  have w: "race_geom ?rt" "length ?tb = unat (nsize ?rt)" "pd_wf ?pd" "unat (pd_num ?pd) = n"
    and sl: "\<And>j. j < length ?tb \<Longrightarrow> slots_inv (key_entry ?rt keys n j) (?tb ! j)"
    and hs: "\<And>k. k < n \<Longrightarrow> (\<exists>j\<in>homes ?rt (keys ! k). has_slot ?tb j k) \<or> (\<forall>j\<in>homes ?rt (keys ! k). open_slot (?tb ! j) = None)"
    and rc: "\<And>k. k < n \<Longrightarrow> rawArray ?pd ! k = \<lparr>ps_key = keys ! k, ps_data_length = 8, ps_data = keys ! k\<rparr>"
    using l by (auto simp: race_loaded_def)
  let ?pd' = "?pd\<lparr>rawArray := (rawArray ?pd)[unat (pd_num ?pd) := \<lparr>ps_key = ?k, ps_data_length = 8, ps_data = ?k\<rparr>], pd_num := pd_num ?pd + 1\<rparr>"
  have b: "bulk_load_data ?pd ?k 8 ?k = Inr (ucast (pd_num ?pd), ?pd')" using bulk_load_data_ok [OF w(3)] n(3) w(4) by (simp add: word_less_nat_alt)
  note bd = bulk_load_data_Inr [OF w(3) b]
  have "unat (ucast (ucast (pd_num ?pd) :: u32) :: u64) = n" using n w(4) by (simp add: unsigned_ucast_eq unsigned_take_bit_eq take_bit_nat_eq_self)
  then have a: "ucast (ucast (pd_num ?pd) :: u32) = (of_nat n :: u64)"
    using n by (simp add: word_unat_eq_iff unsigned_of_nat take_bit_nat_eq_self)
  have rc': "rawArray ?pd' ! k = \<lparr>ps_key = keys ! k, ps_data_length = 8, ps_data = keys ! k\<rparr>" if "k < Suc n" for k
    using that rc [of k] n(3) w(3,4) by (auto simp: nth_list_update pd_wf_def less_Suc_eq)
  have mono: "key_entry ?rt keys n j x f \<Longrightarrow> key_entry ?rt keys (Suc n) j x f" for j x f by (auto simp: key_entry_def less_Suc_eq)
  have fin: ?thesis if i: "race_insert ?rt ?tb ?k (of_nat n) = Inr (r, tb)" and tb: "length tb = length ?tb"
    "\<And>j. j < length tb \<Longrightarrow> slots_inv (key_entry ?rt keys (Suc n) j) (tb ! j)" "\<And>j k. has_slot ?tb j k \<Longrightarrow> has_slot tb j k"
    "\<And>j. j < length tb \<Longrightarrow> open_slot (?tb ! j) = None \<Longrightarrow> open_slot (tb ! j) = None"
    "(\<exists>j\<in>homes ?rt ?k. has_slot tb j n) \<or> (\<forall>j\<in>homes ?rt ?k. open_slot (tb ! j) = None)" for r tb
  proof -
    have "race_load keys n sv = Inr (sv\<lparr>rs_buckets := tb, rs_data := ?pd'\<rparr>)" using b i a by (simp add: race_load_def Let_def)
    moreover have "(\<exists>j\<in>homes ?rt (keys ! k). has_slot tb j k) \<or> (\<forall>j\<in>homes ?rt (keys ! k). open_slot (tb ! j) = None)" if "k < Suc n" for k
      using that hs [of k] tb(3-5) homes_lt [OF w(1), of _ "keys ! k"] w(2) tb(1) by (metis less_SucE)
    then have "race_loaded keys (Suc n) (sv\<lparr>rs_buckets := tb, rs_data := ?pd'\<rparr>)"
      using w bd(3,6) tb(1,2) rc' unfolding race_loaded_def by simp
    ultimately show ?thesis by auto
  qed
  show ?thesis
  proof (rule race_insert_cases [OF w(1,2), of ?k "of_nat n"])
    assume "race_insert ?rt ?tb ?k (of_nat n) = Inr (False, ?tb)" "\<forall>j\<in>homes ?rt ?k. open_slot (?tb ! j) = None"
    then show ?thesis by (intro fin) (use slots_inv_mono [OF sl] mono in blast)+
  next
    fix j s assume s: "j \<in> homes ?rt ?k" "open_slot (?tb ! j) = Some s"
      and i: "race_insert ?rt ?tb ?k (of_nat n) = Inr (True, ?tb[j := fill_slot (?tb ! j) s (race_fingerprint ?k) (of_nat n) 16])"
    have j: "j < length ?tb" using homes_lt [OF w(1) s(1)] w(2) by simp
    have ok: "bucket_ok (?tb ! j)" using sl [OF j] by (simp add: slots_inv_def)
    have e: "key_entry ?rt keys (Suc n) j (of_nat n) (race_fingerprint ?k)" using s(1) by (auto simp: key_entry_def)
    note f = slots_inv_fill [OF sl [OF j] s(2), of "key_entry ?rt keys (Suc n) j", OF e mono] has_slot_fill [OF s(2) j ok]
    let ?tb' = "?tb[j := fill_slot (?tb ! j) s (race_fingerprint ?k) (of_nat n) 16]"
    show ?thesis
    proof (rule fin [OF i])
      show "slots_inv (key_entry ?rt keys (Suc n) j') (?tb' ! j')" if "j' < length ?tb'" for j'
        using that f(1) slots_inv_mono [OF sl mono] by (cases "j' = j") auto
      show "(\<exists>j\<in>homes ?rt ?k. has_slot ?tb' j n) \<or> (\<forall>j\<in>homes ?rt ?k. open_slot (?tb' ! j) = None)" using s(1) f(3) by blast
    qed (use f(2) s(2) j in \<open>auto simp: nth_list_update\<close>)
  qed
qed

definition blank_bucket :: "cuckoo_bucket \<Rightarrow> bool" where
  "blank_bucket b \<longleftrightarrow> bucket_ok b \<and> occupied b = 0 \<and> cb_fps b = replicate 4 0 \<and> cb_addrs b = replicate 4 0"

lemma blank_bucket_inv: "blank_bucket b \<Longrightarrow> slots_inv K b"
  by (auto simp: blank_bucket_def slots_inv_def slot_used_def)

lemma race_setup_ok:
  assumes n: "4 \<le> length keys" "length keys < 2 ^ 32" and buckets: "length buckets = race_size (length keys)" "\<forall>b\<in>set buckets. blank_bucket b"
    and records: "3 * length keys div 2 \<le> length records"
  shows "\<exists>sv. setup_race_hash_packed_data junk buckets records keys = Inr sv \<and> race_loaded keys (length keys) sv \<and>
    rs_table sv = RaceHashTable (of_nat (length keys)) \<and> length (rawArray (rs_data sv)) = length records"
proof -
  let ?n = "length keys" and ?rt = "RaceHashTable (of_nat (length keys))"
  have e: "unat (of_nat (3 * ?n div 2) :: u64) = 3 * ?n div 2" using n(2) by (simp add: unsigned_of_nat take_bit_nat_eq_self)
  define pd where "pd = \<lparr>rawArray = replicate (3 * ?n div 2) junk @ drop (3 * ?n div 2) records, pd_num = 0, numElements = of_nat (3 * ?n div 2)\<rparr>"
  have pd: "PackedData_map junk records (of_nat (3 * ?n div 2)) = Inr pd" "pd_wf pd" "unat (numElements pd) = 3 * ?n div 2" "length (rawArray pd) = length records"
    using PackedData_map_eq [of "of_nat (3 * ?n div 2)" records junk] records e by (simp_all add: pd_def pd_wf_def)
  let ?sv0 = "\<lparr>rs_table = ?rt, rs_buckets = buckets, rs_data = pd\<rparr>"
  let ?P = "\<lambda>i sv. race_loaded keys i sv \<and> rs_table sv = ?rt \<and> unat (numElements (rs_data sv)) = 3 * ?n div 2 \<and> length (rawArray (rs_data sv)) = length records"
  have "race_geom ?rt" "unat (nsize ?rt) = race_size ?n" using RaceHashTable_geom [of ?n] n by simp_all
  then have "?P 0 ?sv0" using pd buckets blank_bucket_inv by (simp add: race_loaded_def) (simp add: pd_def)
  then have "\<exists>sv. rfold (race_load keys) [0..<?n] ?sv0 = Inr sv \<and> ?P ?n sv"
  proof (rule rfold_upt)
    fix i sv assume i: "i < ?n" "?P i sv"
    moreover have "i < 3 * ?n div 2" using i(1) by simp
    ultimately show "\<exists>t. race_load keys i sv = Inr t \<and> ?P (Suc i) t" using race_load_step [of keys i sv] n(2) by fastforce
  qed
  then show ?thesis using pd(1) by (auto simp: setup_race_hash_packed_data_def Let_def)
qed

section \<open>Properties\<close>

text \<open>The geometry of the RACE region, for $4 \le n < 2^{50}$ keys, with the size of the table computed in floating point: the two
  main buckets of a key are never in the middle of a group of three, they and their spare buckets are in the table, a
  client always reads exactly two neighbouring buckets of the table, and the table with the records behind it fits into
  the registered memory of $64 n$ bytes.\<close>

theorem race_region_in_range:
  assumes "4 \<le> n" "n < 2 ^ 50" "rt = RaceHashTable (of_nat n)"
  shows "(\<exists>b0 b1. cuckoo_hash rt key = Inr [b0, b1] \<and> (\<forall>b\<in>{b0, b1}. b mod 3 \<noteq> 1 \<and> b < nsize rt \<and> spare_bucket b mod 3 = 1 \<and> spare_bucket b < nsize rt)) \<and>
    (\<exists>ac. remote_lookup rt key = Inr (ac, 128) \<and> 64 dvd unat ac \<and> unat ac + 128 \<le> unat (total_size rt)) \<and>
    unat (total_size rt) + unat sizeof_packed_struct * (3 * n div 2) \<le> 64 * n"
proof (intro conjI)
  have g: "race_geom rt" and r: "unat (nsize rt) = race_size n" using RaceHashTable_geom [OF assms(1,2)] assms(3) by simp_all
  have t: "unat (total_size rt) = 64 * race_size n"
    using g r unfolding total_size_def race_geom_def by (subst unat_word_ariths) simp
  have m: "unat (b mod 3) = unat b mod 3" for b :: u64 by (simp add: unat_mod_distrib)
  have i: "b mod 3 \<noteq> 1 \<and> b < nsize rt \<and> spare_bucket b mod 3 = 1 \<and> spare_bucket b < nsize rt"
    if h: "unat h < unat (msize rt)" "b = hash_to_cuckoo_index rt h" for b h
    using index_ok [OF g h(1)] unfolding h(2) by (simp add: word_unat_eq_iff m word_less_nat_alt spare_ok_def)
  obtain h0 h1 where h: "cuckoo_hash rt key = Inr [hash_to_cuckoo_index rt h0, hash_to_cuckoo_index rt h1]" "unat h0 < unat (msize rt)" "unat h1 < unat (msize rt)"
    using cuckoo_hash_ok [OF g] by blast
  then show "\<exists>b0 b1. cuckoo_hash rt key = Inr [b0, b1] \<and> (\<forall>b\<in>{b0, b1}. b mod 3 \<noteq> 1 \<and> b < nsize rt \<and> spare_bucket b mod 3 = 1 \<and> spare_bucket b < nsize rt)"
    using i by blast
  show "\<exists>ac. remote_lookup rt key = Inr (ac, 128) \<and> 64 dvd unat ac \<and> unat ac + 128 \<le> unat (total_size rt)"
    using remote_lookup_ok(1,2) [OF g, of key] t r by auto
  show "unat (total_size rt) + unat sizeof_packed_struct * (3 * n div 2) \<le> 64 * n"
    using race_size_bounds(2) [OF assms(1,2)] unfolding t by (simp add: sizeof_packed_struct_def)
qed

theorem race_region_in_range_witness:
  "\<exists>ac. remote_lookup (RaceHashTable 8) 5 = Inr (ac, 128) \<and> unat ac + 128 \<le> unat (total_size (RaceHashTable 8)) \<and>
     unat (total_size (RaceHashTable 8)) + unat sizeof_packed_struct * 12 \<le> 512"
  using race_region_in_range [of 8 "RaceHashTable 8" 5] by auto

end
