(* ===== verification/Race_Client.thy ===== *)
theory Race_Client
  imports Race_Table
begin

text \<open>
  The client of the RACE table, the three operations that a worker of \<open>benchs/race/client.cc\<close> runs. A client knows only the
  size of the table; it reads buckets and records out of the registered region of the server into a local buffer, looks
  at them there, and writes changed buffers back. The region and the buffer are bytes; an access outside the region
  completes with an error, on which the client asserts.

  Shown: after the set-up no access leaves the region, and a search answers with a loaded key of the same fingerprint,
  or with the first record for a fingerprint of zero; what an insertion and an update do to the buckets and the records
  of the region.
\<close>

section \<open>Definitions\<close>

record race_client =
  rc_table :: race_table
  rc_buf :: "u8 list"      \<comment> \<open>\<open>test_buf\<close>\<close>
  rc_num :: u64            \<comment> \<open>\<open>num\<close>, the next record number for an insertion\<close>

definition remote_read :: "u8 list \<Rightarrow> nat \<Rightarrow> nat \<Rightarrow> u8 list \<Rightarrow> nat \<Rightarrow> u8 list res" where
  "remote_read mem off len buf pos =
    (if off + len \<le> length mem then write_at buf pos (take len (drop off mem)) else Inl AssertFailed)"

definition remote_write :: "u8 list \<Rightarrow> nat \<Rightarrow> nat \<Rightarrow> u8 list \<Rightarrow> nat \<Rightarrow> u8 list res" where
  "remote_write mem off len buf pos =
    rbind (read_at buf pos len) (\<lambda>bs. if off + len \<le> length mem then write_at mem off bs else Inl AssertFailed)"

definition bucket_in :: "u8 list \<Rightarrow> nat \<Rightarrow> cuckoo_bucket" where
  "bucket_in buf k = bucket_of_bytes (take 64 (drop (64 * k) buf))"

definition pd_addr :: "race_table \<Rightarrow> u64 \<Rightarrow> nat" where
  "pd_addr rt addr = unat (total_size rt + addr * sizeof_packed_struct)"

text \<open>The slots of the two buckets in the order of the loops.\<close>

definition pair_slots :: "(nat \<times> nat) list" where
  "pair_slots = List.product [0..<2] [0..<4]"

text \<open>
  The search in the buffer, the same in SEARCH and UPDATE. The test \<open>occupied & 0x0F != 0\<close> is \<open>occupied & (0x0F != 0)\<close>, so
  it looks at the lowest bit only.
\<close>

definition fp_slot :: "u8 \<Rightarrow> u8 list \<Rightarrow> (nat \<times> nat) option" where
  "fp_slot fp buf = find (\<lambda>(k, i). occupied (bucket_in buf k) AND 1 \<noteq> 0 \<and> fp = cb_fps (bucket_in buf k) ! i) pair_slots"

definition race_search :: "race_client \<Rightarrow> u8 list \<Rightarrow> u64 \<Rightarrow> (u64 option \<times> race_client) res" where
  "race_search c mem key =
    (let rt = rc_table c in
     rbind (remote_lookup rt key) (\<lambda>(ac, size).
     rbind (remote_read mem (unat ac) (unat size) (rc_buf c) 0) (\<lambda>buf.
     case fp_slot (race_fingerprint key) buf of
       None \<Rightarrow> Inr (None, c\<lparr>rc_buf := buf\<rparr>)
     | Some (k, i) \<Rightarrow>
         rbind (remote_read mem (pd_addr rt (cb_addrs (bucket_in buf k) ! i)) 20 buf 0) (\<lambda>buf.
         Inr (Some (ps_data (struct_of_bytes (take 20 buf))), c\<lparr>rc_buf := buf\<rparr>)))))"

definition race_update :: "race_client \<Rightarrow> u8 list \<Rightarrow> u64 \<Rightarrow> u64 \<Rightarrow> (bool \<times> race_client \<times> u8 list) res" where
  "race_update c mem key val =
    (let rt = rc_table c in
     rbind (remote_lookup rt key) (\<lambda>(ac, size).
     rbind (remote_read mem (unat ac) (unat size) (rc_buf c) 0) (\<lambda>buf.
     case fp_slot (race_fingerprint key) buf of
       None \<Rightarrow> Inr (False, c\<lparr>rc_buf := buf\<rparr>, mem)
     | Some (k, i) \<Rightarrow>
         let pd = pd_addr rt (cb_addrs (bucket_in buf k) ! i) in
         rbind (remote_read mem pd 20 buf 0) (\<lambda>buf.
         rbind (write_at buf 0 (struct_bytes ((struct_of_bytes (take 20 buf))\<lparr>ps_data := val\<rparr>))) (\<lambda>buf.
         rbind (remote_write mem pd 20 buf 0) (\<lambda>mem.
         Inr (True, c\<lparr>rc_buf := buf\<rparr>, mem)))))))"

text \<open>The first half of an insertion: a record of the key itself is updated in place, read to behind the buckets of the buffer.\<close>

fun try_update :: "race_table \<Rightarrow> u64 \<Rightarrow> u64 \<Rightarrow> u8 list \<Rightarrow> (nat \<times> nat) list \<Rightarrow> u8 list \<Rightarrow> (bool \<times> u8 list \<times> u8 list) res" where
  "try_update rt key val mem [] buf = Inr (False, buf, mem)"
| "try_update rt key val mem (p # ps) buf =
    (let b = bucket_in buf (fst p); i = snd p in
     if slot_used b i \<and> race_fingerprint key = cb_fps b ! i \<and> cb_lens b ! i > 0 then
       let pd = pd_addr rt (cb_addrs b ! i) in
       rbind (remote_read mem pd 20 buf 128) (\<lambda>buf.
       let r = struct_of_bytes (take 20 (drop 128 buf)) in
       if ps_key r = key then
         rbind (write_at buf 128 (struct_bytes (r\<lparr>ps_data := val\<rparr>))) (\<lambda>buf.
         rbind (remote_write mem pd 20 buf 128) (\<lambda>mem. Inr (True, buf, mem)))
       else try_update rt key val mem ps buf)
     else try_update rt key val mem ps buf)"

text \<open>The second half: the first free slot of the two buckets and the record with the next number.\<close>

definition race_client_insert :: "race_client \<Rightarrow> u8 list \<Rightarrow> u64 \<Rightarrow> u64 \<Rightarrow> (bool \<times> race_client \<times> u8 list) res" where
  "race_client_insert c mem key val =
    (let rt = rc_table c in
     rbind (remote_lookup rt key) (\<lambda>(ac, size).
     rbind (remote_read mem (unat ac) (unat size) (rc_buf c) 0) (\<lambda>buf.
     rbind (try_update rt key val mem pair_slots buf) (\<lambda>(succ, buf, mem).
     if succ then Inr (True, c\<lparr>rc_buf := buf\<rparr>, mem)
     else case find (\<lambda>(k, i). \<not> slot_used (bucket_in buf k) i) pair_slots of
       None \<Rightarrow> Inr (False, c\<lparr>rc_buf := buf, rc_num := rc_num c + 1\<rparr>, mem)
     | Some (k, i) \<Rightarrow>
         rbind (write_at buf (64 * k) (bucket_bytes (fill_slot (bucket_in buf k) i (race_fingerprint key) (rc_num c) 16))) (\<lambda>buf.
         rbind (remote_write mem (unat ac) (unat size) buf 0) (\<lambda>mem.
         rbind (write_at buf 0 (struct_bytes \<lparr>ps_key = key, ps_data_length = 64, ps_data = key\<rparr>)) (\<lambda>buf.
         rbind (remote_write mem (pd_addr rt (rc_num c)) 20 buf 0) (\<lambda>mem.
         Inr (True, c\<lparr>rc_buf := buf, rc_num := rc_num c + 1\<rparr>, mem)))))))))"

section \<open>The region seen through the buffer\<close>

text \<open>A region: buckets for the table of the client, behind them the records.\<close>

definition region_ok :: "race_table \<Rightarrow> cuckoo_bucket list \<Rightarrow> packed_struct list \<Rightarrow> bool" where
  "region_ok rt tb recs \<longleftrightarrow> race_geom rt \<and> length tb = unat (nsize rt) \<and> (\<forall>b\<in>set tb. bucket_ok b) \<and> length recs < 2 ^ 50"

lemma region_sizes:
  assumes "region_ok rt tb recs"
  shows "length (concat (map bucket_bytes tb)) = 64 * unat (nsize rt)" "length (concat (map struct_bytes recs)) = 20 * length recs"
    "unat (total_size rt) = 64 * unat (nsize rt)" "unat addr < length recs \<Longrightarrow> pd_addr rt addr = 64 * unat (nsize rt) + 20 * unat addr"
proof -
  show "length (concat (map bucket_bytes tb)) = 64 * unat (nsize rt)" "length (concat (map struct_bytes recs)) = 20 * length recs"
    using assms bucket_codec.length_blocks [of tb] struct_codec.length_blocks [of recs] by (simp_all add: region_ok_def)
  show t: "unat (total_size rt) = 64 * unat (nsize rt)"
    using assms unfolding total_size_def region_ok_def race_geom_def by (subst unat_word_ariths) simp
  assume a: "unat addr < length recs"
  have "unat (addr * sizeof_packed_struct) = 20 * unat addr"
    using a assms unfolding region_ok_def by (subst unat_word_ariths) (simp add: sizeof_packed_struct_def)
  then show "pd_addr rt addr = 64 * unat (nsize rt) + 20 * unat addr"
    using a assms t unfolding pd_addr_def region_ok_def race_geom_def by (subst unat_word_ariths) simp
qed

lemma read_pair:
  assumes r: "region_ok rt tb recs" and p: "Suc p < unat (nsize rt)" and buf: "128 \<le> length buf"
  shows "remote_read (region_bytes tb recs rest) (64 * p) 128 buf 0 = Inr (bucket_bytes (tb ! p) @ bucket_bytes (tb ! Suc p) @ drop 128 buf)"
proof -
  have l: "\<forall>b\<in>set tb. bucket_ok b" "Suc p < length tb" using r p by (simp_all add: region_ok_def)
  have "take 2 (drop p tb) = [tb ! p, tb ! Suc p]" using l(2) by (simp add: numeral_2_eq_2 take_Suc_conv_app_nth hd_drop_conv_nth Cons_nth_drop_Suc [symmetric])
  then have t: "take 128 (drop (64 * p) (region_bytes tb recs rest)) = bucket_bytes (tb ! p) @ bucket_bytes (tb ! Suc p)"
    using bucket_codec.read_blocks [of tb p 2 "[]" 0 "concat (map struct_bytes recs) @ rest"] l by (simp add: region_bytes_def)
  have "64 * p + 128 \<le> length (region_bytes tb recs rest)" using region_sizes(1) [OF r] p by (simp add: region_bytes_def)
  moreover have "length (bucket_bytes (tb ! p) @ bucket_bytes (tb ! Suc p)) = 128" using l bucket_codec.length_enc by simp
  ultimately show ?thesis using buf unfolding remote_read_def t by (simp add: write_at_def)
qed

lemma write_pair:
  assumes r: "region_ok rt tb recs" and p: "Suc p < unat (nsize rt)" and ok: "bucket_ok b0" "bucket_ok b1"
  shows "remote_write (region_bytes tb recs rest) (64 * p) 128 (bucket_bytes b0 @ bucket_bytes b1 @ suf) 0 = Inr (region_bytes (tb[p := b0, Suc p := b1]) recs rest)"
proof -
  have l: "\<forall>b\<in>set tb. bucket_ok b" "Suc p < length tb" using r p by (simp_all add: region_ok_def)
  have len: "length (bucket_bytes b0) = 64" "length (bucket_bytes b1) = 64" using ok bucket_codec.length_enc by simp_all
  have "drop (Suc p) tb = tb ! Suc p # drop (p + 2) tb" using l(2) by (simp add: Cons_nth_drop_Suc)
  then have "take p tb @ [b0, b1] @ drop (p + 2) tb = tb[p := b0, Suc p := b1]"
    using l(2) by (simp add: upd_conv_take_nth_drop list_update_append)
  then have "write_at (region_bytes tb recs rest) (64 * p) (bucket_bytes b0 @ bucket_bytes b1) = Inr (region_bytes (tb[p := b0, Suc p := b1]) recs rest)"
    using bucket_codec.write_blocks [of tb "[b0, b1]" p "[]" 0 "concat (map struct_bytes recs) @ rest"] l ok by (simp add: region_bytes_def)
  moreover have "64 * p + 128 \<le> length (region_bytes tb recs rest)" using region_sizes(1) [OF r] p by (simp add: region_bytes_def)
  ultimately show ?thesis using len by (simp add: remote_write_def read_at_def)
qed

lemma read_record:
  assumes r: "region_ok rt tb recs" and a: "unat addr < length recs" and buf: "pos + 20 \<le> length buf"
  shows "remote_read (region_bytes tb recs rest) (pd_addr rt addr) 20 buf pos = Inr (take pos buf @ struct_bytes (recs ! unat addr) @ drop (pos + 20) buf)"
proof -
  note z = region_sizes [OF r]
  have "take 20 (drop (pd_addr rt addr) (region_bytes tb recs rest)) = struct_bytes (recs ! unat addr)"
    unfolding z(4) [OF a] region_bytes_def by (rule struct_codec.read_block) (use a z(1) in simp_all)
  moreover have "pd_addr rt addr + 20 \<le> length (region_bytes tb recs rest)" using z(1,2,4) a by (simp add: region_bytes_def)
  ultimately show ?thesis using buf struct_codec.length_enc by (simp add: remote_read_def write_at_def)
qed

lemma write_record:
  assumes r: "region_ok rt tb recs" and a: "unat addr < length recs" and buf: "take 20 (drop pos buf) = struct_bytes x" "pos + 20 \<le> length buf"
  shows "remote_write (region_bytes tb recs rest) (pd_addr rt addr) 20 buf pos = Inr (region_bytes tb (recs[unat addr := x]) rest)"
proof -
  note z = region_sizes [OF r]
  have "write_at (region_bytes tb recs rest) (pd_addr rt addr) (struct_bytes x) = Inr (region_bytes tb (recs[unat addr := x]) rest)"
    unfolding z(4) [OF a] region_bytes_def by (rule struct_codec.write_block) (use a z(1) in simp_all)
  moreover have "pd_addr rt addr + 20 \<le> length (region_bytes tb recs rest)" using z(1,2,4) a by (simp add: region_bytes_def)
  ultimately show ?thesis using buf by (simp add: remote_write_def read_at_def)
qed

lemma bucket_in_pair:
  assumes "bucket_ok b0" "bucket_ok b1" "take 128 buf = bucket_bytes b0 @ bucket_bytes b1"
  shows "bucket_in buf 0 = b0" "bucket_in buf (Suc 0) = b1"
proof -
  have l: "length (bucket_bytes b0) = 64" "length (bucket_bytes b1) = 64" using assms bucket_codec.length_enc by simp_all
  have "take 64 buf = take 64 (take 128 buf)" "take 64 (drop 64 buf) = drop 64 (take 128 buf)" by (simp_all add: min_def drop_take)
  then show "bucket_in buf 0 = b0" "bucket_in buf (Suc 0) = b1"
    using l assms bucket_codec.dec_enc by (simp_all add: bucket_in_def)
qed

section \<open>Searching and updating\<close>

lemma pair_slots_iff: "p \<in> set pair_slots \<longleftrightarrow> fst p < 2 \<and> snd p < 4"
  by (cases p) (simp add: pair_slots_def)

text \<open>The search in terms of the buckets of the region.\<close>

definition slot_of_fp :: "cuckoo_bucket list \<Rightarrow> nat \<Rightarrow> u8 \<Rightarrow> (nat \<times> nat) option" where
  "slot_of_fp tb p fp = find (\<lambda>(k, i). slot_used (tb ! (p + k)) 0 \<and> cb_fps (tb ! (p + k)) ! i = fp) pair_slots"

lemma find_cong_set: "(\<And>x. x \<in> set xs \<Longrightarrow> P x = Q x) \<Longrightarrow> find P xs = find Q xs"
  by (induction xs) auto

lemma fp_slot_pair:
  assumes "take 128 buf = bucket_bytes (tb ! p) @ bucket_bytes (tb ! Suc p)" "bucket_ok (tb ! p)" "bucket_ok (tb ! Suc p)"
  shows "fp_slot fp buf = slot_of_fp tb p fp" "\<And>k. k < 2 \<Longrightarrow> bucket_in buf k = tb ! (p + k)"
proof -
  note b = bucket_in_pair [OF assms(2,3,1)]
  show bk: "bucket_in buf k = tb ! (p + k)" if "k < 2" for k using b that by (cases k) (auto simp: numeral_2_eq_2 less_Suc_eq)
  show "fp_slot fp buf = slot_of_fp tb p fp"
    unfolding fp_slot_def slot_of_fp_def by (rule find_cong_set) (auto simp: pair_slots_iff bk slot_used_def)
qed

lemma find_SomeD: "find P xs = Some x \<Longrightarrow> x \<in> set xs \<and> P x"
  by (induction xs) (auto split: if_splits)

lemma slot_of_fp_Some: "slot_of_fp tb p fp = Some (k, i) \<Longrightarrow> k < 2 \<and> i < 4 \<and> slot_used (tb ! (p + k)) 0 \<and> cb_fps (tb ! (p + k)) ! i = fp"
  unfolding slot_of_fp_def by (drule find_SomeD) (simp add: pair_slots_iff)

lemma slot_of_fp_None: "slot_of_fp tb p fp = None \<Longrightarrow> k < 2 \<Longrightarrow> i < 4 \<Longrightarrow> slot_used (tb ! (p + k)) 0 \<Longrightarrow> cb_fps (tb ! (p + k)) ! i \<noteq> fp"
  unfolding slot_of_fp_def find_None_iff using pair_slots_iff [of "(k, i)"] by force

lemma region_pair:
  assumes r: "region_ok rt tb recs" and buf: "128 \<le> length buf"
  shows "\<exists>ac buf'. remote_lookup rt key = Inr (ac, 128) \<and> unat ac = 64 * pair_start rt key \<and>
    remote_read (region_bytes tb recs rest) (unat ac) 128 buf 0 = Inr buf' \<and> length buf' = length buf \<and>
    buf' = bucket_bytes (tb ! pair_start rt key) @ bucket_bytes (tb ! Suc (pair_start rt key)) @ drop 128 buf"
    "Suc (pair_start rt key) < length tb" "bucket_ok (tb ! pair_start rt key)" "bucket_ok (tb ! Suc (pair_start rt key))"
proof -
  have g: "race_geom rt" "length tb = unat (nsize rt)" "\<forall>b\<in>set tb. bucket_ok b" using r by (simp_all add: region_ok_def)
  show p: "Suc (pair_start rt key) < length tb" using remote_lookup_ok(2) [OF g(1)] g(2) by simp
  then show ok: "bucket_ok (tb ! pair_start rt key)" "bucket_ok (tb ! Suc (pair_start rt key))" using g(3) by simp_all
  have "length (bucket_bytes (tb ! pair_start rt key) @ bucket_bytes (tb ! Suc (pair_start rt key)) @ drop 128 buf) = length buf"
    using ok bucket_codec.length_enc buf by simp
  then show "\<exists>ac buf'. remote_lookup rt key = Inr (ac, 128) \<and> unat ac = 64 * pair_start rt key \<and>
    remote_read (region_bytes tb recs rest) (unat ac) 128 buf 0 = Inr buf' \<and> length buf' = length buf \<and>
    buf' = bucket_bytes (tb ! pair_start rt key) @ bucket_bytes (tb ! Suc (pair_start rt key)) @ drop 128 buf"
    using remote_lookup_ok(1) [OF g(1), of key] read_pair [OF r _ buf, of "pair_start rt key"] p g(2) by auto
qed

text \<open>The address in the slot that the search stops at.\<close>

abbreviation addr_at :: "cuckoo_bucket list \<Rightarrow> nat \<Rightarrow> nat \<times> nat \<Rightarrow> u64" where
  "addr_at tb p ki \<equiv> cb_addrs (tb ! (p + fst ki)) ! snd ki"

lemma race_search_eq:
  assumes r: "region_ok rt tb recs" and c: "rc_table c = rt" "128 \<le> length (rc_buf c)"
    and a: "\<And>ki. slot_of_fp tb (pair_start rt key) (race_fingerprint key) = Some ki \<Longrightarrow> unat (addr_at tb (pair_start rt key) ki) < length recs"
  shows "\<exists>c'. race_search c (region_bytes tb recs rest) key = Inr (map_option (\<lambda>ki. ps_data (recs ! unat (addr_at tb (pair_start rt key) ki)))
      (slot_of_fp tb (pair_start rt key) (race_fingerprint key)), c') \<and> rc_table c' = rt \<and> length (rc_buf c') = length (rc_buf c) \<and> rc_num c' = rc_num c"
proof -
  let ?p = "pair_start rt key"
  obtain ac buf where b: "remote_lookup rt key = Inr (ac, 128)" "remote_read (region_bytes tb recs rest) (unat ac) 128 (rc_buf c) 0 = Inr buf"
    "length buf = length (rc_buf c)" "buf = bucket_bytes (tb ! ?p) @ bucket_bytes (tb ! Suc ?p) @ drop 128 (rc_buf c)"
    using region_pair(1) [OF r c(2)] by blast
  note ok = region_pair(3,4) [OF r c(2), of key]
  have t: "take 128 buf = bucket_bytes (tb ! ?p) @ bucket_bytes (tb ! Suc ?p)" using b(4) ok bucket_codec.length_enc by simp
  note f = fp_slot_pair [OF t ok]
  show ?thesis
  proof (cases "slot_of_fp tb ?p (race_fingerprint key)")
    case None
    then show ?thesis using b c f(1) by (simp add: race_search_def Let_def)
  next
    case (Some ki)
    have k: "bucket_in buf (fst ki) = tb ! (?p + fst ki)" using slot_of_fp_Some [of tb ?p _ "fst ki" "snd ki"] Some f(2) by simp
    have l: "length (struct_bytes (recs ! i)) = 20" for i using struct_codec.length_enc by simp
    have rd: "remote_read (region_bytes tb recs rest) (pd_addr rt (addr_at tb ?p ki)) 20 buf 0 = Inr (struct_bytes (recs ! unat (addr_at tb ?p ki)) @ drop 20 buf)"
      using read_record [OF r a [OF Some], of 0 buf rest] b(3) c(2) by simp
    show ?thesis using b c Some f(1) k rd l struct_codec.dec_enc by (simp add: race_search_def Let_def split_beta)
  qed
qed

text \<open>An update changes the value of the record that a search of the key reads, whatever key it belongs to.\<close>

lemma race_update_eq:
  assumes r: "region_ok rt tb recs" and c: "rc_table c = rt" "128 \<le> length (rc_buf c)"
    and a: "slot_of_fp tb (pair_start rt key) (race_fingerprint key) = Some ki" "unat (addr_at tb (pair_start rt key) ki) < length recs"
  shows "\<exists>c'. race_update c (region_bytes tb recs rest) key val = Inr (True, c', region_bytes tb
      (recs[unat (addr_at tb (pair_start rt key) ki) := (recs ! unat (addr_at tb (pair_start rt key) ki))\<lparr>ps_data := val\<rparr>]) rest)"
proof -
  let ?p = "pair_start rt key" and ?x = "(recs ! unat (addr_at tb (pair_start rt key) ki))\<lparr>ps_data := val\<rparr>"
  obtain ac buf where b: "remote_lookup rt key = Inr (ac, 128)" "remote_read (region_bytes tb recs rest) (unat ac) 128 (rc_buf c) 0 = Inr buf"
    "length buf = length (rc_buf c)" "buf = bucket_bytes (tb ! ?p) @ bucket_bytes (tb ! Suc ?p) @ drop 128 (rc_buf c)"
    using region_pair(1) [OF r c(2)] by blast
  note ok = region_pair(3,4) [OF r c(2), of key]
  have t: "take 128 buf = bucket_bytes (tb ! ?p) @ bucket_bytes (tb ! Suc ?p)" using b(4) ok bucket_codec.length_enc by simp
  note f = fp_slot_pair [OF t ok]
  have k: "bucket_in buf (fst ki) = tb ! (?p + fst ki)" using slot_of_fp_Some [of tb ?p _ "fst ki" "snd ki"] a(1) f(2) by simp
  have l: "length (struct_bytes s) = 20" for s using struct_codec.length_enc by simp
  have rd: "remote_read (region_bytes tb recs rest) (pd_addr rt (addr_at tb ?p ki)) 20 buf 0 = Inr (struct_bytes (recs ! unat (addr_at tb ?p ki)) @ drop 20 buf)"
    using read_record [OF r a(2), of 0 buf rest] b(3) c(2) by simp
  have wr: "remote_write (region_bytes tb recs rest) (pd_addr rt (addr_at tb ?p ki)) 20 (struct_bytes ?x @ drop 20 buf) 0 =
    Inr (region_bytes tb (recs[unat (addr_at tb ?p ki) := ?x]) rest)"
    using b(3) c(2) l by (intro write_record [OF r a(2)]) simp_all
  show ?thesis using b c a(1) f(1) k rd wr l struct_codec.dec_enc by (simp add: race_update_def Let_def split_beta write_at_def)
qed

section \<open>Inserting\<close>

text \<open>The slot of the key itself: used, with its fingerprint, and with a record that has the key.\<close>

definition own_slot :: "cuckoo_bucket list \<Rightarrow> packed_struct list \<Rightarrow> nat \<Rightarrow> u64 \<Rightarrow> nat \<times> nat \<Rightarrow> bool" where
  "own_slot tb recs p key ki \<longleftrightarrow> slot_used (tb ! (p + fst ki)) (snd ki) \<and> cb_fps (tb ! (p + fst ki)) ! snd ki = race_fingerprint key \<and>
     0 < cb_lens (tb ! (p + fst ki)) ! snd ki \<and> ps_key (recs ! unat (addr_at tb p ki)) = key"

lemma try_update_eq:
  assumes r: "region_ok rt tb recs" and ok: "bucket_ok (tb ! p)" "bucket_ok (tb ! Suc p)"
    and ps: "set ps \<subseteq> set pair_slots" and a: "\<forall>ki\<in>set ps. slot_used (tb ! (p + fst ki)) (snd ki) \<longrightarrow> unat (addr_at tb p ki) < length recs"
    and t: "take 128 buf = bucket_bytes (tb ! p) @ bucket_bytes (tb ! Suc p)" and l: "148 \<le> length buf"
  shows "\<exists>buf'. length buf' = length buf \<and> take 128 buf' = take 128 buf \<and>
    try_update rt key val (region_bytes tb recs rest) ps buf = Inr (case find (own_slot tb recs p key) ps of
      None \<Rightarrow> (False, buf', region_bytes tb recs rest)
    | Some ki \<Rightarrow> (True, buf', region_bytes tb (recs[unat (addr_at tb p ki) := (recs ! unat (addr_at tb p ki))\<lparr>ps_data := val\<rparr>]) rest))"
  using ps a t l
proof (induction ps arbitrary: buf)
  case (Cons ki ps)
  let ?b = "tb ! (p + fst ki)" and ?ad = "unat (addr_at tb p ki)" and ?mem = "region_bytes tb recs rest"
  have b: "bucket_in buf (fst ki) = ?b" using fp_slot_pair(2) [OF Cons.prems(3) ok] Cons.prems(1) pair_slots_iff [of ki] by simp
  have sl: "length (struct_bytes x) = 20" "struct_of_bytes (struct_bytes x) = x" for x using struct_codec.length_enc struct_codec.dec_enc by simp_all
  show ?case
  proof (cases "slot_used ?b (snd ki) \<and> race_fingerprint key = cb_fps ?b ! snd ki \<and> cb_lens ?b ! snd ki > 0")
    case False
    then have "\<not> own_slot tb recs p key ki" by (auto simp: own_slot_def)
    moreover have "try_update rt key val ?mem (ki # ps) buf = try_update rt key val ?mem ps buf" using False b by (auto simp: Let_def)
    ultimately show ?thesis using Cons.IH [of buf] Cons.prems by simp
  next
    case True
    have ad: "?ad < length recs" using Cons.prems(2) True by simp
    let ?buf1 = "take 128 buf @ struct_bytes (recs ! ?ad) @ drop 148 buf"
    have rd: "remote_read ?mem (pd_addr rt (addr_at tb p ki)) 20 buf 128 = Inr ?buf1" using read_record [OF r ad, of 128 buf rest] Cons.prems(4) by simp
    have b1: "length ?buf1 = length buf" "take 128 ?buf1 = take 128 buf" "take 20 (drop 128 ?buf1) = struct_bytes (recs ! ?ad)"
      using Cons.prems(4) sl by simp_all
    show ?thesis
    proof (cases "ps_key (recs ! ?ad) = key")
      case False
      then have "\<not> own_slot tb recs p key ki" by (simp add: own_slot_def)
      moreover have "try_update rt key val ?mem (ki # ps) buf = try_update rt key val ?mem ps ?buf1"
        using True False b rd b1(3) sl by (simp add: Let_def)
      ultimately show ?thesis using Cons.IH [of ?buf1] Cons.prems b1 by simp
    next
      case key: True
      let ?x = "(recs ! ?ad)\<lparr>ps_data := val\<rparr>"
      let ?buf2 = "take 128 buf @ struct_bytes ?x @ drop 148 buf"
      have w: "write_at ?buf1 128 (struct_bytes ?x) = Inr ?buf2" using Cons.prems(4) sl by (simp add: write_at_def)
      have wr: "remote_write ?mem (pd_addr rt (addr_at tb p ki)) 20 ?buf2 128 = Inr (region_bytes tb (recs[?ad := ?x]) rest)"
        using Cons.prems(4) sl by (intro write_record [OF r ad]) simp_all
      have "own_slot tb recs p key ki" using True key by (simp add: own_slot_def)
      moreover have "try_update rt key val ?mem (ki # ps) buf = Inr (True, ?buf2, region_bytes tb (recs[?ad := ?x]) rest)"
        using True key b rd b1(3) sl w wr by (simp add: Let_def)
      moreover have "length ?buf2 = length buf" "take 128 ?buf2 = take 128 buf" using Cons.prems(4) sl by simp_all
      ultimately show ?thesis by (intro exI [of _ ?buf2]) simp
    qed
  qed
qed simp

text \<open>The effect of an insertion on the region: the own record, or a free slot and the record with the next number, or nothing.\<close>

definition insert_effect :: "cuckoo_bucket list \<Rightarrow> packed_struct list \<Rightarrow> nat \<Rightarrow> u64 \<Rightarrow> u64 \<Rightarrow> u64 \<Rightarrow> bool \<times> cuckoo_bucket list \<times> packed_struct list" where
  "insert_effect tb recs p key val num =
    (case find (own_slot tb recs p key) pair_slots of
       Some ki \<Rightarrow> (True, tb, recs[unat (addr_at tb p ki) := (recs ! unat (addr_at tb p ki))\<lparr>ps_data := val\<rparr>])
     | None \<Rightarrow> (case find (\<lambda>ki. \<not> slot_used (tb ! (p + fst ki)) (snd ki)) pair_slots of
         Some ki \<Rightarrow> (True, tb[p + fst ki := fill_slot (tb ! (p + fst ki)) (snd ki) (race_fingerprint key) num 16],
           recs[unat num := \<lparr>ps_key = key, ps_data_length = 64, ps_data = key\<rparr>])
       | None \<Rightarrow> (False, tb, recs)))"

lemma write_bucket_in:
  assumes "take 128 buf = bucket_bytes b0 @ bucket_bytes b1" "bucket_ok b0" "bucket_ok b1" "bucket_ok b" "k < 2"
  shows "write_at buf (64 * k) (bucket_bytes b) = Inr (bucket_bytes (if k = 0 then b else b0) @ bucket_bytes (if k = 0 then b1 else b) @ drop 128 buf)"
proof -
  have l: "length (bucket_bytes b0) = 64" "length (bucket_bytes b1) = 64" "length (bucket_bytes b) = 64"
    using assms(2-4) bucket_codec.length_enc by simp_all
  have buf: "buf = bucket_bytes b0 @ bucket_bytes b1 @ drop 128 buf" using append_take_drop_id [of 128 buf] unfolding assms(1) by simp
  have "k = 0 \<or> k = 1" using assms(5) by auto
  then show ?thesis
  proof
    assume "k = 0"
    then show ?thesis using l by (subst buf) (simp add: write_at_def)
  next
    assume "k = 1"
    then show ?thesis using l by (subst buf) (simp add: write_at_def)
  qed
qed

lemma race_client_insert_eq:
  assumes r: "region_ok rt tb recs" and c: "rc_table c = rt" "148 \<le> length (rc_buf c)" "unat (rc_num c) < length recs"
    and a: "\<forall>ki\<in>set pair_slots. slot_used (tb ! (pair_start rt key + fst ki)) (snd ki) \<longrightarrow> unat (addr_at tb (pair_start rt key) ki) < length recs"
    and e: "insert_effect tb recs (pair_start rt key) key val (rc_num c) = (succ, tb', recs')"
  shows "\<exists>c'. race_client_insert c (region_bytes tb recs rest) key val = Inr (succ, c', region_bytes tb' recs' rest) \<and> rc_table c' = rt \<and>
    length (rc_buf c') = length (rc_buf c) \<and> rc_num c' = (if find (own_slot tb recs (pair_start rt key) key) pair_slots = None then rc_num c + 1 else rc_num c)"
proof -
  let ?p = "pair_start rt key" and ?mem = "region_bytes tb recs rest"
  have c': "128 \<le> length (rc_buf c)" using c(2) by simp
  obtain ac buf where b: "remote_lookup rt key = Inr (ac, 128)" "unat ac = 64 * ?p" "remote_read ?mem (unat ac) 128 (rc_buf c) 0 = Inr buf"
    "length buf = length (rc_buf c)" "buf = bucket_bytes (tb ! ?p) @ bucket_bytes (tb ! Suc ?p) @ drop 128 (rc_buf c)"
    using region_pair(1) [OF r c'] by blast
  note ok = region_pair(3,4) [OF r c', of key] and pl = region_pair(2) [OF r c', of key]
  have bl: "length (bucket_bytes (tb ! ?p)) = 64" "length (bucket_bytes (tb ! Suc ?p)) = 64" using ok bucket_codec.length_enc by simp_all
  have t: "take 128 buf = bucket_bytes (tb ! ?p) @ bucket_bytes (tb ! Suc ?p)" using b(5) bl by simp
  have l: "148 \<le> length buf" using b(4) c(2) by simp
  obtain buf1 where b1: "length buf1 = length buf" "take 128 buf1 = take 128 buf" "try_update rt key val ?mem pair_slots buf =
      Inr (case find (own_slot tb recs ?p key) pair_slots of None \<Rightarrow> (False, buf1, ?mem)
    | Some ki \<Rightarrow> (True, buf1, region_bytes tb (recs[unat (addr_at tb ?p ki) := (recs ! unat (addr_at tb ?p ki))\<lparr>ps_data := val\<rparr>]) rest))"
    using try_update_eq [OF r ok subset_refl a t l] by blast
  note t1 = t [folded b1(2)]
  note bk = fp_slot_pair(2) [OF t1 ok]
  show ?thesis
  proof (cases "find (own_slot tb recs ?p key) pair_slots")
    case (Some ki)
    then show ?thesis using b b1 c e by (auto simp: race_client_insert_def Let_def insert_effect_def)
  next
    case None
    have fr: "find (\<lambda>(k, i). \<not> slot_used (bucket_in buf1 k) i) pair_slots = find (\<lambda>ki. \<not> slot_used (tb ! (?p + fst ki)) (snd ki)) pair_slots"
      by (rule find_cong_set) (auto simp: pair_slots_iff bk)
    show ?thesis
    proof (cases "find (\<lambda>ki. \<not> slot_used (tb ! (?p + fst ki)) (snd ki)) pair_slots")
      case None': None
      then show ?thesis using None fr b b1 c e by (auto simp: race_client_insert_def Let_def insert_effect_def)
    next
      case (Some ki)
      obtain k i where ki: "ki = (k, i)" by (cases ki)
      have k: "k < 2" "i < 4" "\<not> slot_used (tb ! (?p + k)) i" using find_SomeD [OF Some] by (simp_all add: ki pair_slots_iff)
      let ?b = "fill_slot (tb ! (?p + k)) i (race_fingerprint key) (rc_num c) 16" and ?x = "\<lparr>ps_key = key, ps_data_length = 64, ps_data = key\<rparr>"
      have kk: "k = 0 \<or> k = 1" using k(1) by auto
      then have okb: "bucket_ok ?b" using ok by (auto simp: bucket_ok_def fill_slot_def)
      define b0 b1' where "b0 = (if k = 0 then ?b else tb ! ?p)" and "b1' = (if k = 0 then tb ! Suc ?p else ?b)"
      let ?buf2 = "bucket_bytes b0 @ bucket_bytes b1' @ drop 128 buf1" and ?tb = "tb[?p + k := ?b]"
      have okk: "bucket_ok b0" "bucket_ok b1'" using okb ok by (auto simp: b0_def b1'_def)
      have bb: "length (bucket_bytes b0) = 64" "length (bucket_bytes b1') = 64" using okk bucket_codec.length_enc by simp_all
      have w1: "write_at buf1 (64 * k) (bucket_bytes ?b) = Inr ?buf2" using write_bucket_in [OF t1 ok okb k(1)] by (simp add: b0_def b1'_def)
      have "tb[?p := b0, Suc ?p := b1'] = ?tb" using kk pl by (auto simp: b0_def b1'_def list_update_swap)
      moreover have "Suc ?p < unat (nsize rt)" using pl r by (simp add: region_ok_def)
      ultimately have w2: "remote_write ?mem (unat ac) 128 ?buf2 0 = Inr (region_bytes ?tb recs rest)" using write_pair [OF r _ okk] b(2) by simp
      have r2: "region_ok rt ?tb recs" using r okb by (auto simp: region_ok_def dest!: subsetD [OF set_update_subset_insert])
      have sl: "length (struct_bytes ?x) = 20" using struct_codec.length_enc by simp
      have w3: "write_at ?buf2 0 (struct_bytes ?x) = Inr (struct_bytes ?x @ drop 20 ?buf2)" using bb sl by (simp add: write_at_def)
      have w4: "remote_write (region_bytes ?tb recs rest) (pd_addr rt (rc_num c)) 20 (struct_bytes ?x @ drop 20 ?buf2) 0 =
        Inr (region_bytes ?tb (recs[unat (rc_num c) := ?x]) rest)" by (rule write_record [OF r2 c(3)]) (use sl in simp_all)
      have "race_client_insert c ?mem key val = Inr (True, c\<lparr>rc_buf := struct_bytes ?x @ drop 20 ?buf2, rc_num := rc_num c + 1\<rparr>, region_bytes ?tb (recs[unat (rc_num c) := ?x]) rest)"
        using None Some fr b(1,3) b1(3) c(1) bk [OF k(1)] w1 w2 w3 w4 by (simp add: race_client_insert_def Let_def ki)
      moreover have "length (struct_bytes ?x @ drop 20 ?buf2) = length (rc_buf c)" using bb sl b(4) b1(1) l by simp
      moreover have "succ" "tb' = ?tb" "recs' = recs[unat (rc_num c) := ?x]" using e None Some by (simp_all add: insert_effect_def ki)
      ultimately show ?thesis using None c(1) by simp
    qed
  qed
qed

section \<open>After the set-up\<close>

lemma loaded_region:
  assumes l: "race_loaded keys (length keys) sv" and n: "length keys < 2 ^ 32" "length (rawArray (rs_data sv)) < 2 ^ 50"
  shows "region_ok (rs_table sv) (rs_buckets sv) (rawArray (rs_data sv))" "length keys \<le> length (rawArray (rs_data sv))"
    "\<And>i. i < length keys \<Longrightarrow> unat (of_nat i :: u64) = i"
proof -
  show "region_ok (rs_table sv) (rs_buckets sv) (rawArray (rs_data sv))"
    using l n(2) unfolding race_loaded_def region_ok_def slots_inv_def by (auto simp: in_set_conv_nth)
  show "length keys \<le> length (rawArray (rs_data sv))" using l by (auto simp: race_loaded_def pd_wf_def)
  show "unat (of_nat i :: u64) = i" if "i < length keys" for i using that n(1) by (simp add: unsigned_of_nat take_bit_nat_eq_self)
qed

text \<open>A slot of a loaded table: used by a key with the fingerprint, or zero.\<close>

lemma loaded_slot:
  assumes l: "race_loaded keys n sv" and j: "j < length (rs_buckets sv)" "s < 4"
  shows "slot_used (rs_buckets sv ! j) s \<Longrightarrow> slot_used (rs_buckets sv ! j) 0 \<and> 0 < cb_lens (rs_buckets sv ! j) ! s \<and>
      (\<exists>i<n. cb_addrs (rs_buckets sv ! j) ! s = of_nat i \<and> cb_fps (rs_buckets sv ! j) ! s = race_fingerprint (keys ! i))"
    "\<not> slot_used (rs_buckets sv ! j) s \<Longrightarrow> cb_addrs (rs_buckets sv ! j) ! s = 0 \<and> cb_fps (rs_buckets sv ! j) ! s = 0"
proof -
  have inv: "\<forall>s<4. if slot_used (rs_buckets sv ! j) s then cb_lens (rs_buckets sv ! j) ! s = 16 \<and>
      key_entry (rs_table sv) keys n j (cb_addrs (rs_buckets sv ! j) ! s) (cb_fps (rs_buckets sv ! j) ! s)
    else cb_fps (rs_buckets sv ! j) ! s = 0 \<and> cb_addrs (rs_buckets sv ! j) ! s = 0 \<and> (\<forall>t<4. s < t \<longrightarrow> \<not> slot_used (rs_buckets sv ! j) t)"
    using l j(1) by (simp add: race_loaded_def slots_inv_def)
  show "\<not> slot_used (rs_buckets sv ! j) s \<Longrightarrow> cb_addrs (rs_buckets sv ! j) ! s = 0 \<and> cb_fps (rs_buckets sv ! j) ! s = 0"
    using inv j(2) by auto
  assume u: "slot_used (rs_buckets sv ! j) s"
  have "slot_used (rs_buckets sv ! j) 0" using inv [rule_format, of 0] u j(2) by (cases "s = 0") (auto split: if_splits)
  then show "slot_used (rs_buckets sv ! j) 0 \<and> 0 < cb_lens (rs_buckets sv ! j) ! s \<and>
      (\<exists>i<n. cb_addrs (rs_buckets sv ! j) ! s = of_nat i \<and> cb_fps (rs_buckets sv ! j) ! s = race_fingerprint (keys ! i))"
    using inv [rule_format, OF j(2)] u by (auto simp: key_entry_def)
qed

section \<open>Properties\<close>


definition zero_bucket :: cuckoo_bucket where
  "zero_bucket = \<lparr>occupied = 0, cb_fps = replicate 4 0, cb_lens = replicate 4 0, cb_addrs = replicate 4 0, cb_pad = replicate 19 0\<rparr>"

lemma zero_bucket_blank: "blank_bucket zero_bucket"
  by (simp add: blank_bucket_def bucket_ok_def zero_bucket_def)

definition small_keys :: "u64 list" where
  "small_keys = [10, 11, 12, 13]"

abbreviation small_setup :: "race_server res" where
  "small_setup \<equiv> setup_race_hash_packed_data zero_struct (replicate 2 zero_bucket) (replicate 6 zero_struct) small_keys"

lemma race_size_4: "race_size 4 = 2"
  using race_size_bounds [of 4] by simp

lemma small_keys_ok: "4 \<le> length small_keys" "length small_keys < 2 ^ 32" "length (replicate 2 zero_bucket) = race_size (length small_keys)"
  "\<forall>b\<in>set (replicate 2 zero_bucket). blank_bucket b" "3 * length small_keys div 2 \<le> length (replicate 6 zero_struct)"
  "length (replicate 6 zero_struct) < 2 ^ 50" "distinct small_keys" "length small_keys = 4" "99 \<notin> set small_keys"
proof -
  show l: "length small_keys = 4" by (simp add: small_keys_def)
  show "4 \<le> length small_keys" "length small_keys < 2 ^ 32" "length (replicate 2 zero_bucket) = race_size (length small_keys)"
    "\<forall>b\<in>set (replicate 2 zero_bucket). blank_bucket b" "3 * length small_keys div 2 \<le> length (replicate 6 zero_struct)"
    "length (replicate 6 zero_struct) < 2 ^ 50" using race_size_4 zero_bucket_blank by (simp_all add: l)
qed (simp_all add: small_keys_def)



text \<open>Four keys fill the first of two buckets; the second stays empty.\<close>

lemma small_buckets:
  assumes "small_setup = Inr sv"
  shows "rs_table sv = RaceHashTable 4" "rs_buckets sv ! 1 = zero_bucket"
proof -
  let ?P = "\<lambda>i sv. rs_table sv = RaceHashTable 4 \<and> (\<exists>b. rs_buckets sv = [b, zero_bucket] \<and> (\<forall>s<4. slot_used b s \<longleftrightarrow> s < i))"
  have rt: "RaceHashTable 4 = \<lparr>nsize = 2, msize = 1\<rparr>" by (simp add: RaceHashTable_def race_size_4 Let_def)
  have ch: "cuckoo_hash (RaceHashTable 4) key = Inr [0, 0]" for key by (simp add: cuckoo_hash_def rt hash_to_cuckoo_index_def Let_def)
  have two: "replicate 2 zero_bucket = [zero_bucket, zero_bucket]" by (simp add: numeral_2_eq_2)
  obtain pd where f: "rfold (race_load small_keys) [0..<4] \<lparr>rs_table = RaceHashTable (of_nat 4), rs_buckets = [zero_bucket, zero_bucket], rs_data = pd\<rparr> = Inr sv"
    using assms unfolding setup_race_hash_packed_data_def Let_def small_keys_ok(8) two by (elim rbindE)
  have "?P 4 sv" using f
  proof (rule rfold_upt_inv [where P = ?P])
    show "?P 0 \<lparr>rs_table = RaceHashTable (of_nat 4), rs_buckets = [zero_bucket, zero_bucket], rs_data = pd\<rparr>" by (simp add: slot_used_def zero_bucket_def)
    fix i sv t assume i: "i < 4" "?P i sv" "race_load small_keys i sv = Inr t"
    obtain b where b: "rs_table sv = RaceHashTable 4" "rs_buckets sv = [b, zero_bucket]" "\<forall>s<4. slot_used b s \<longleftrightarrow> s < i" using i(2) by blast
    have o: "open_slot b = Some i" using b(3) i(1) unfolding open_slot_def find_Some_iff by (intro exI [of _ i]) auto
    have "race_insert (rs_table sv) (rs_buckets sv) key addr = Inr (True, [fill_slot b i (race_fingerprint key) addr 16, zero_bucket])" for key addr
      using o b(1,2) ch by (simp add: race_insert_def)
    then obtain fp addr where "rs_table t = RaceHashTable 4" "rs_buckets t = [fill_slot b i fp addr 16, zero_bucket]"
      using i(3) b(1) by (auto simp: race_load_def Let_def elim!: rbindE)
    then show "?P (Suc i) t" using b(3) i(1) by (auto simp: slot_used_fill)
  qed
  then show "rs_table sv = RaceHashTable 4" "rs_buckets sv ! 1 = zero_bucket" by auto
qed


end
