(* ===== verification/Atomic_RW.thy ===== *)
theory Atomic_RW
  imports Byte_Blocks
begin

text \<open>
  The atomic reads of \<open>xcomm/src/atomic_rw\<close>: an object between two sequence numbers (\<open>wrapper_type.hh\<close>), the two local
  ways to copy it (\<open>local_rw_op.hh\<close>) and the reader that copies until the numbers agree (\<open>mod.hh\<close>). An object is its bytes;
  \<open>n\<close> is the size of the payload. The writer is a step relation, one store a step, and its stores to the payload are any
  stores. A reader is given the history of the object and the instants of its loads.

  Shown: in every state of a history the two numbers agree exactly when no write is open, but for the number that has
  wrapped to 0; an ordered copy with equal numbers is the object at one instant without a write; a copy in any order need
  not be; the limit on the number of retries is never reached.
\<close>

section \<open>Definitions\<close>

definition kInvalidSeq :: u32 where
  "kInvalidSeq = 0"

text \<open>The structure is packed and aligned to 64 bytes: \<open>seq\<close>, \<open>payload\<close>, \<open>seq_check\<close>, padding.\<close>

definition sizeof_Wrapped :: "nat \<Rightarrow> nat" where
  "sizeof_Wrapped n = 64 * ((n + 8 + 63) div 64)"

definition load_u32 :: "u8 list \<Rightarrow> nat \<Rightarrow> u32 res" where
  "load_u32 m off = rbind (read_at m off 4) (\<lambda>bs. Inr (ucast (le_word bs)))"

definition store_u32 :: "u8 list \<Rightarrow> nat \<Rightarrow> u32 \<Rightarrow> u8 list res" where
  "store_u32 m off w = write_at m off (le_bytes 4 (ucast w))"

definition wrapped_init :: "nat \<Rightarrow> u8 list \<Rightarrow> u8 list res" where
  "wrapped_init n m =
    rbind (store_u32 m 0 (kInvalidSeq + 1)) (\<lambda>m.
    rbind (load_u32 m 0) (store_u32 m (4 + n)))"

definition wrapped_reset :: "nat \<Rightarrow> u8 list \<Rightarrow> u8 list \<Rightarrow> u8 list res" where
  "wrapped_reset n t m = rbind (wrapped_init n m) (\<lambda>m. write_at m 4 t)"

definition WrappedType :: "nat \<Rightarrow> u8 list \<Rightarrow> u8 list \<Rightarrow> u8 list res" where
  "WrappedType n p junk = rbind (write_at junk 4 p) (wrapped_init n)"

definition get_payload :: "nat \<Rightarrow> u8 list \<Rightarrow> u8 list" where
  "get_payload n m = take n (drop 4 m)"

definition meta_sz :: nat where
  "meta_sz = 4 + 4"

definition consistent :: "nat \<Rightarrow> u8 list \<Rightarrow> bool res" where
  "consistent n m =
    rbind (load_u32 m 0) (\<lambda>seq.
    rbind (load_u32 m (4 + n)) (\<lambda>seq_check.
    Inr (seq = seq_check \<and> seq \<noteq> kInvalidSeq)))"

definition begin_write :: "nat \<Rightarrow> u8 list \<Rightarrow> (u32 \<times> u8 list) res" where
  "begin_write n m =
    rbind (load_u32 m (4 + n)) (\<lambda>ret.
    rbind (store_u32 m (4 + n) kInvalidSeq) (\<lambda>m.
    rbind (store_u32 m 0 kInvalidSeq) (\<lambda>m. Inr (ret, m))))"

definition done_write :: "nat \<Rightarrow> u32 \<Rightarrow> u8 list \<Rightarrow> u8 list res" where
  "done_write n seq m =
    rbind (store_u32 m 0 (seq + 1)) (\<lambda>m.
    rbind (load_u32 m 0) (store_u32 m (4 + n)))"

text \<open>
  The copies. \<open>\<sigma> t\<close> is the memory of the source at instant \<open>t\<close>; \<open>tm off\<close> is the instant of the load at offset \<open>off\<close>: word by
  word from the start in \<open>OrderedRWOp\<close>, byte by byte in whatever order in the \<open>memcpy\<close> of \<open>LocalRWOp\<close>. The answer is the
  \<open>Result<>\<close> (Ok or Err) and the destination.
\<close>

function ordered_loop :: "(nat \<Rightarrow> u8 list) \<Rightarrow> (nat \<Rightarrow> nat) \<Rightarrow> nat \<Rightarrow> nat \<Rightarrow> u8 list \<Rightarrow> u8 list res" where
  "ordered_loop \<sigma> tm sz cur dp =
    (if cur < sz
     then if sz - cur < 8 then Inl AssertFailed
       else rbind (interpret_as_u64 (\<sigma> (tm cur)) cur) (\<lambda>v.
         rbind (write_at dp cur (le_bytes 8 v)) (\<lambda>dp.
         ordered_loop \<sigma> tm sz (cur + 8) dp))
     else Inr dp)"
  by pat_completeness auto
termination by (relation "measure (\<lambda>(\<sigma>, tm, sz, cur, dp). sz - cur)") auto

declare ordered_loop.simps [simp del]

definition ordered_read :: "(nat \<Rightarrow> u8 list) \<Rightarrow> (nat \<Rightarrow> nat) \<Rightarrow> nat \<Rightarrow> u8 list \<Rightarrow> (bool \<times> u8 list) res" where
  "ordered_read \<sigma> tm sz dest = rbind (ordered_loop \<sigma> tm sz 0 dest) (\<lambda>d. Inr (True, d))"

definition memcpy :: "(nat \<Rightarrow> u8 list) \<Rightarrow> (nat \<Rightarrow> nat) \<Rightarrow> nat \<Rightarrow> u8 list \<Rightarrow> u8 list res" where
  "memcpy \<sigma> tm sz dest = rfold (\<lambda>i d. rbind (aget (\<sigma> (tm i)) i) (aset d i)) [0..<sz] dest"

definition local_read :: "nat \<Rightarrow> (nat \<Rightarrow> u8 list) \<Rightarrow> (nat \<Rightarrow> nat) \<Rightarrow> nat \<Rightarrow> u8 list \<Rightarrow> (bool \<times> u8 list) res" where
  "local_read src_sz \<sigma> tm sz dest =
    (if sz < src_sz then Inr (False, dest) else rbind (memcpy \<sigma> tm sz dest) (\<lambda>d. Inr (True, d)))"

text \<open>
  \<open>AtomicRW\<close>. Every attempt of the retry loop has its own instants; the list of attempts is the fuel, \<open>None\<close> is a loop still
  at work after all of them. \<open>op\<close> is the copy with its source.
\<close>

record atomic_rw =
  retry_cnt :: u64

fun atomic_retry :: "nat \<Rightarrow> ('e \<Rightarrow> nat \<Rightarrow> u8 list \<Rightarrow> (bool \<times> u8 list) res) \<Rightarrow> 'e list \<Rightarrow> u8 list \<Rightarrow> atomic_rw \<Rightarrow>
    (bool \<times> u8 list \<times> atomic_rw) option res" where
  "atomic_retry n op [] dest a = Inr None"
| "atomic_retry n op (e # es) dest a =
    (let a = a\<lparr>retry_cnt := 0\<rparr>
     in rbind (op e (sizeof_Wrapped n) dest) (\<lambda>(ok, dest).
        if \<not> ok then Inr (Some (False, dest, a))
        else rbind (consistent n dest) (\<lambda>c.
          if c then Inr (Some (True, dest, a))
          else let a = a\<lparr>retry_cnt := retry_cnt a + 1\<rparr>
               in if retry_cnt a > 1000000 then Inl AssertFailed
                  else atomic_retry n op es dest a)))"

definition atomic_read :: "nat \<Rightarrow> ('e \<Rightarrow> nat \<Rightarrow> u8 list \<Rightarrow> (bool \<times> u8 list) res) \<Rightarrow> 'e list \<Rightarrow> u8 list \<Rightarrow> atomic_rw \<Rightarrow>
    (bool \<times> u8 list \<times> atomic_rw) option res" where
  "atomic_read n op attempts dest a =
    (if length dest < sizeof_Wrapped n then Inl AssertFailed else atomic_retry n op attempts dest a)"

section \<open>The writer, one store a step\<close>

datatype wpc =
    Quiet          \<comment> \<open>no write is open\<close>
  | Begun u32      \<comment> \<open>after the first store of \<open>begin_write\<close>; the value to return\<close>
  | Writing u32    \<comment> \<open>after \<open>begin_write\<close>\<close>
  | Sealing        \<comment> \<open>after the first store of \<open>done_write\<close>\<close>

record wobj =
  wo_mem :: "u8 list"
  wo_pc :: wpc

inductive writer_step :: "nat \<Rightarrow> wobj \<Rightarrow> wobj \<Rightarrow> bool" for n where
  begin_check: "load_u32 m (4 + n) = Inr ret \<Longrightarrow> store_u32 m (4 + n) kInvalidSeq = Inr m' \<Longrightarrow>
    writer_step n \<lparr>wo_mem = m, wo_pc = Quiet\<rparr> \<lparr>wo_mem = m', wo_pc = Begun ret\<rparr>"
| begin_seq: "store_u32 m 0 kInvalidSeq = Inr m' \<Longrightarrow>
    writer_step n \<lparr>wo_mem = m, wo_pc = Begun ret\<rparr> \<lparr>wo_mem = m', wo_pc = Writing ret\<rparr>"
| payload: "off + length bs \<le> n \<Longrightarrow> write_at m (4 + off) bs = Inr m' \<Longrightarrow>
    writer_step n \<lparr>wo_mem = m, wo_pc = Writing ret\<rparr> \<lparr>wo_mem = m', wo_pc = Writing ret\<rparr>"
| done_seq: "store_u32 m 0 (ret + 1) = Inr m' \<Longrightarrow>
    writer_step n \<lparr>wo_mem = m, wo_pc = Writing ret\<rparr> \<lparr>wo_mem = m', wo_pc = Sealing\<rparr>"
| done_check: "load_u32 m 0 = Inr s \<Longrightarrow> store_u32 m (4 + n) s = Inr m' \<Longrightarrow>
    writer_step n \<lparr>wo_mem = m, wo_pc = Sealing\<rparr> \<lparr>wo_mem = m', wo_pc = Quiet\<rparr>"
| pause: "writer_step n w w"

inductive_cases writer_stepE: "writer_step n w w'"

text \<open>A history starts with an initialised object; \<open>phase\<close> counts the steps other than stores to the payload.\<close>

definition wrapped_history :: "nat \<Rightarrow> (nat \<Rightarrow> wobj) \<Rightarrow> bool" where
  "wrapped_history n \<sigma> \<longleftrightarrow>
    (\<exists>m. wrapped_init n m = Inr (wo_mem (\<sigma> 0))) \<and> length (wo_mem (\<sigma> 0)) = sizeof_Wrapped n \<and> wo_pc (\<sigma> 0) = Quiet \<and>
    (\<forall>i. writer_step n (\<sigma> i) (\<sigma> (Suc i)))"

fun phase :: "(nat \<Rightarrow> wobj) \<Rightarrow> nat \<Rightarrow> nat" where
  "phase \<sigma> 0 = 0"
| "phase \<sigma> (Suc i) = phase \<sigma> i + (if wo_pc (\<sigma> (Suc i)) = wo_pc (\<sigma> i) then 0 else 1)"

text \<open>The number of writes that are finished at an instant.\<close>

definition writes :: "(nat \<Rightarrow> wobj) \<Rightarrow> nat \<Rightarrow> nat" where
  "writes \<sigma> i = phase \<sigma> i div 4"

text \<open>The steps compose to the two operations.\<close>

lemma begin_write_steps:
  assumes "begin_write n m = Inr (ret, m')"
  shows "(writer_step n OO writer_step n) \<lparr>wo_mem = m, wo_pc = Quiet\<rparr> \<lparr>wo_mem = m', wo_pc = Writing ret\<rparr>"
  using assms by (auto simp: begin_write_def elim!: rbindE intro: writer_step.intros)

lemma done_write_steps:
  assumes "done_write n ret m = Inr m'"
  shows "(writer_step n OO writer_step n) \<lparr>wo_mem = m, wo_pc = Writing ret\<rparr> \<lparr>wo_mem = m', wo_pc = Quiet\<rparr>"
  using assms by (auto simp: done_write_def elim!: rbindE intro: writer_step.intros)

section \<open>The sequence numbers\<close>

abbreviation num_at :: "u8 list \<Rightarrow> nat \<Rightarrow> u32" where
  "num_at m off \<equiv> ucast (le_word (take 4 (drop off m)))"

lemma load_u32_eq: "load_u32 m off = (if off + 4 \<le> length m then Inr (num_at m off) else Inl OutOfBounds)"
  by (simp add: load_u32_def read_at_def)

lemma store_u32_length: "store_u32 m off w = Inr m' \<Longrightarrow> length m' = length m"
  using write_at_nth(1) by (auto simp: store_u32_def)

lemma store_u32_num: "store_u32 m off w = Inr m' \<Longrightarrow> num_at m' off = w"
  by (auto simp: store_u32_def write_at_def simp del: le_bytes.simps split: if_splits)

text \<open>A store leaves what does not overlap with it.\<close>

lemma write_at_block:
  assumes "write_at m off bs = Inr m'" "off' + k \<le> off \<or> off + length bs \<le> off'"
  shows "take k (drop off' m') = take k (drop off' m)"
proof (rule nth_equalityI)
  show "length (take k (drop off' m')) = length (take k (drop off' m))" using write_at_nth(1) [OF assms(1)] by simp
  fix i assume "i < length (take k (drop off' m'))"
  then show "take k (drop off' m') ! i = take k (drop off' m) ! i" using write_at_nth [OF assms(1)] assms(2) by auto
qed

lemma store_u32_block:
  assumes "store_u32 m off w = Inr m'" "off' + k \<le> off \<or> off + 4 \<le> off'"
  shows "take k (drop off' m') = take k (drop off' m)"
  using write_at_block [of m off "le_bytes 4 (ucast w)"] assms by (simp add: store_u32_def del: le_bytes.simps)

text \<open>What the phase says of the object.\<close>

definition phase_ok :: "nat \<Rightarrow> nat \<Rightarrow> wobj \<Rightarrow> bool" where
  "phase_ok n p w \<longleftrightarrow> length (wo_mem w) = sizeof_Wrapped n \<and>
    (let v = of_nat (p div 4 + 1); seq = num_at (wo_mem w) 0; seq_check = num_at (wo_mem w) (4 + n)
     in (p mod 4 = 0 \<and> wo_pc w = Quiet \<and> seq = v \<and> seq_check = v) \<or>
        (p mod 4 = 1 \<and> wo_pc w = Begun v \<and> seq = v \<and> seq_check = 0) \<or>
        (p mod 4 = 2 \<and> wo_pc w = Writing v \<and> seq = 0 \<and> seq_check = 0) \<or>
        (p mod 4 = 3 \<and> wo_pc w = Sealing \<and> seq = v + 1 \<and> seq_check = 0))"

lemma sizeof_Wrapped_ge: "n + 8 \<le> sizeof_Wrapped n" "sizeof_Wrapped n mod 8 = 0"
  by (simp_all add: sizeof_Wrapped_def)

lemma phase_ok_step:
  assumes "phase_ok n p w" "writer_step n w w'"
  shows "phase_ok n (p + (if wo_pc w' = wo_pc w then 0 else 1)) w'"
  using assms(2)
proof cases
  case (begin_check m ret m')
  then have "p mod 4 = 0" "length m' = sizeof_Wrapped n" "ret = of_nat (p div 4 + 1)" "num_at m' 0 = num_at m 0" "num_at m' (4 + n) = 0"
    using assms(1) sizeof_Wrapped_ge(1) [of n] store_u32_length store_u32_num [of m "4 + n" kInvalidSeq m'] store_u32_block [of m "4 + n" _ m' 0 4]
    by (auto simp: phase_ok_def load_u32_eq kInvalidSeq_def Let_def)
  then show ?thesis using assms(1) begin_check by (simp add: phase_ok_def Let_def mod_Suc div_Suc)
next
  case (begin_seq m m' ret)
  then have "p mod 4 = 1" "length m' = sizeof_Wrapped n" "ret = of_nat (p div 4 + 1)" "num_at m' (4 + n) = num_at m (4 + n)" "num_at m' 0 = 0"
    using assms(1) store_u32_length store_u32_num [of m 0 kInvalidSeq m'] store_u32_block [of m 0 _ m' "4 + n" 4]
    by (auto simp: phase_ok_def kInvalidSeq_def Let_def)
  then show ?thesis using assms(1) begin_seq by (simp add: phase_ok_def Let_def mod_Suc div_Suc)
next
  case (payload off bs m m' ret)
  then have "length m' = length m" "num_at m' (4 + n) = num_at m (4 + n)" "num_at m' 0 = num_at m 0"
    using write_at_nth(1) write_at_block [OF payload(4), of 0 4] write_at_block [OF payload(4), of "4 + n" 4] by auto
  then show ?thesis using assms(1) payload by (simp add: phase_ok_def)
next
  case (done_seq m ret m')
  then have "p mod 4 = 2" "length m' = sizeof_Wrapped n" "ret = of_nat (p div 4 + 1)" "num_at m' (4 + n) = num_at m (4 + n)" "num_at m' 0 = ret + 1"
    using assms(1) store_u32_length store_u32_num [of m 0 _ m'] store_u32_block [of m 0 _ m' "4 + n" 4]
    by (auto simp: phase_ok_def Let_def)
  then show ?thesis using assms(1) done_seq by (simp add: phase_ok_def Let_def mod_Suc div_Suc)
next
  case (done_check m s m')
  then have "p mod 4 = 3" "length m' = sizeof_Wrapped n" "s = of_nat (p div 4 + 1) + 1" "num_at m' 0 = num_at m 0" "num_at m' (4 + n) = s"
    using assms(1) sizeof_Wrapped_ge(1) [of n] store_u32_length store_u32_num [of m "4 + n" s m'] store_u32_block [of m "4 + n" _ m' 0 4]
    by (auto simp: phase_ok_def load_u32_eq Let_def)
  then show ?thesis using assms(1) done_check by (simp add: phase_ok_def Let_def mod_Suc div_Suc)
qed (use assms(1) in simp)

lemma wrapped_init_ok:
  assumes "wrapped_init n m = Inr m'" "length m' = sizeof_Wrapped n"
  shows "phase_ok n 0 \<lparr>wo_mem = m', wo_pc = Quiet\<rparr>"
proof -
  obtain m1 where m1: "store_u32 m 0 1 = Inr m1" "store_u32 m1 (4 + n) (num_at m1 0) = Inr m'"
    using assms(1) by (auto simp: wrapped_init_def load_u32_eq kInvalidSeq_def elim!: rbindE split: if_splits)
  then show ?thesis using assms(2) store_u32_num [OF m1(1)] store_u32_num [OF m1(2)] store_u32_block [OF m1(2), of 0 4]
    by (simp add: phase_ok_def)
qed

lemma history_phase:
  assumes "wrapped_history n \<sigma>"
  shows "phase_ok n (phase \<sigma> t) (\<sigma> t)"
proof (induction t)
  case 0
  obtain m where "wrapped_init n m = Inr (wo_mem (\<sigma> 0))" "length (wo_mem (\<sigma> 0)) = sizeof_Wrapped n" "wo_pc (\<sigma> 0) = Quiet"
    using assms by (auto simp: wrapped_history_def)
  then show ?case using wrapped_init_ok by (cases "\<sigma> 0") auto
next
  case (Suc t)
  then show ?case using phase_ok_step [OF Suc] assms by (simp add: wrapped_history_def)
qed

lemma phase_mono: "s \<le> t \<Longrightarrow> phase \<sigma> s \<le> phase \<sigma> t"
  by (rule lift_Suc_mono_le [of "phase \<sigma>"]) simp_all

text \<open>The payload changes in phase 2 only.\<close>

lemma payload_step:
  assumes "writer_step n w w'" "\<forall>ret. wo_pc w \<noteq> Writing ret"
  shows "get_payload n (wo_mem w') = get_payload n (wo_mem w)"
  using assms(1)
proof cases
  case (begin_check m ret m')
  then show ?thesis using store_u32_block [of m "4 + n" _ m' 4 n] by (simp add: get_payload_def)
next
  case (begin_seq m m' ret)
  then show ?thesis using store_u32_block [of m 0 _ m' 4 n] by (simp add: get_payload_def)
next
  case (done_check m s m')
  then show ?thesis using store_u32_block [of m "4 + n" _ m' 4 n] by (simp add: get_payload_def)
qed (use assms(2) in auto)

lemma payload_stable:
  assumes "wrapped_history n \<sigma>" "s \<le> t" "\<forall>i\<in>{s..<t}. phase \<sigma> i mod 4 \<noteq> 2"
  shows "get_payload n (wo_mem (\<sigma> t)) = get_payload n (wo_mem (\<sigma> s))"
  using assms(2,3)
proof (induction t rule: dec_induct)
  case (step t)
  have "\<forall>ret. wo_pc (\<sigma> t) \<noteq> Writing ret" using history_phase [OF assms(1), of t] step.prems step.hyps by (auto simp: phase_ok_def Let_def)
  then show ?case using payload_step [of n "\<sigma> t" "\<sigma> (Suc t)"] assms(1) step by (simp add: wrapped_history_def)
qed simp

lemma near_multiple: "y mod 4 = 0 \<Longrightarrow> x = y \<or> Suc x = y \<Longrightarrow> (x :: nat) mod 4 \<noteq> 2"
  using mod_Suc [of x 4] by auto

text \<open>Equal numbers, the first read before the second, bracket a time without a store to the payload.\<close>

lemma equal_numbers_bracket:
  assumes h: "wrapped_history n \<sigma>" and st: "s \<le> t" and w: "writes \<sigma> t < writes \<sigma> s + 2 ^ 32"
    and eq: "num_at (wo_mem (\<sigma> s)) 0 = num_at (wo_mem (\<sigma> t)) (4 + n)" "num_at (wo_mem (\<sigma> s)) 0 \<noteq> 0"
  shows "wo_pc (\<sigma> t) = Quiet" "\<forall>i\<in>{s..t}. phase \<sigma> i mod 4 \<noteq> 2"
proof -
  let ?p = "phase \<sigma> s" and ?q = "phase \<sigma> t"
  have pq: "?p \<le> ?q" using st by (rule phase_mono)
  have q: "?q mod 4 = 0" "wo_pc (\<sigma> t) = Quiet" "num_at (wo_mem (\<sigma> t)) (4 + n) = of_nat (?q div 4 + 1)"
    using history_phase [OF h, of t] eq by (auto simp: phase_ok_def Let_def)
  then show "wo_pc (\<sigma> t) = Quiet" by simp
  have same: "v = ?q div 4" if "of_nat (v + 1) = (of_nat (?q div 4 + 1) :: u32)" "v \<le> ?q div 4" "?p div 4 \<le> v" for v
  proof -
    have "(of_nat (?q div 4 - v) :: u32) = 0" using that(1,2) by (simp add: of_nat_diff)
    then have "2 ^ 32 dvd ?q div 4 - v" by (simp add: word_of_nat_eq_0_iff)
    moreover have "?q div 4 - v < 2 ^ 32" using w that(3) by (simp add: writes_def)
    ultimately show ?thesis using that(2) nat_dvd_not_less by fastforce
  qed
  have "?q \<le> ?p + 1"
  proof (cases "?p mod 4 = 3")
    case True
    then have "num_at (wo_mem (\<sigma> s)) 0 = of_nat (?p div 4 + 1 + 1)" using history_phase [OF h, of s] by (auto simp: phase_ok_def Let_def)
    moreover have "?p div 4 + 1 \<le> ?q div 4" using True pq q(1) div_mult_mod_eq [of ?p 4] div_mult_mod_eq [of ?q 4] by linarith
    ultimately have "?p div 4 + 1 = ?q div 4" using same [of "?p div 4 + 1"] q(3) eq(1) by simp
    then show ?thesis using True q(1) div_mult_mod_eq [of ?p 4] div_mult_mod_eq [of ?q 4] by linarith
  next
    case False
    then have "num_at (wo_mem (\<sigma> s)) 0 = of_nat (?p div 4 + 1)" using history_phase [OF h, of s] eq(2) by (auto simp: phase_ok_def Let_def)
    then have "?p div 4 = ?q div 4" using same [of "?p div 4"] q(3) eq(1) pq by (simp add: div_le_mono)
    then show ?thesis using q(1) div_mult_mod_eq [of ?p 4] div_mult_mod_eq [of ?q 4] by linarith
  qed
  then have near: "phase \<sigma> i = ?q \<or> Suc (phase \<sigma> i) = ?q" if "i \<in> {s..t}" for i
    using phase_mono [of s i \<sigma>] phase_mono [of i t \<sigma>] that by auto
  show "\<forall>i\<in>{s..t}. phase \<sigma> i mod 4 \<noteq> 2" using near_multiple [OF q(1) near] by blast
qed

section \<open>The copies\<close>

lemma take_bit_le_word: "take_bit (8 * length bs) (le_word bs) = le_word bs"
proof (induction bs)
  case (Cons b bs)
  have b: "bit (le_word bs) j \<Longrightarrow> j < 8 * length bs" for j using Cons by (metis bit_take_bit_iff)
  show ?case by (rule bit_word_eqI) (auto simp: bit_simps dest: b bit_imp_le_length)
qed simp

lemma le_bytes_le_word: "length bs \<le> 8 \<Longrightarrow> le_bytes (length bs) (le_word bs) = bs"
proof (induction bs)
  case (Cons b bs)
  have b: "bit (le_word bs) j \<Longrightarrow> j < 8 * length bs" for j using take_bit_le_word [of bs] by (metis bit_take_bit_iff)
  have "ucast (le_word (b # bs)) = b" by (rule bit_word_eqI) (auto simp: bit_simps)
  moreover have "drop_bit 8 (le_word (b # bs)) = le_word bs"
    using Cons.prems by (intro bit_word_eqI) (auto simp: bit_simps dest: b bit_imp_le_length)
  ultimately show ?case using Cons by simp
qed simp

lemma word_start:
  assumes "(cur :: nat) mod 8 = 0" "cur \<le> j" "j < cur + 8"
  shows "8 * (j div 8) = cur"
proof -
  obtain k where "cur = 8 * k" using assms(1) mult_div_mod_eq [of 8 cur] by (metis add_0_right)
  moreover from this assms(2,3) have "j div 8 = k" by (intro div_nat_eqI) simp_all
  ultimately show ?thesis by simp
qed

lemma same_word:
  assumes "(off :: nat) mod 8 \<le> 4" "i < 4"
  shows "(off + i) div 8 = off div 8"
proof -
  obtain q r where "off = 8 * q + r" "r \<le> 4" "off div 8 = q" using assms(1) mult_div_mod_eq [of 8 off] by metis
  then show ?thesis using assms(2) by (intro div_nat_eqI) simp_all
qed

lemma word_fits:
  assumes "(cur :: nat) mod 8 = 0" "sz mod 8 = 0" "cur < sz"
  shows "cur + 8 \<le> sz"
proof -
  have m: "cur = 8 * (cur div 8)" "sz = 8 * (sz div 8)" using assms(1,2) mult_div_mod_eq [of 8 cur] mult_div_mod_eq [of 8 sz] by linarith+
  then have "cur div 8 + 1 \<le> sz div 8" using assms(3) by linarith
  then show ?thesis using m by linarith
qed

text \<open>An ordered copy returns, and takes every word as it was at its instant.\<close>

lemma ordered_loop_bytes:
  assumes "\<forall>t. length (\<sigma> t) = sz" "sz mod 8 = 0" "cur mod 8 = 0" "sz \<le> length dp"
  shows "\<exists>d. ordered_loop \<sigma> tm sz cur dp = Inr d \<and> length d = length dp \<and>
    (\<forall>j<length dp. d ! j = (if cur \<le> j \<and> j < sz then \<sigma> (tm (8 * (j div 8))) ! j else dp ! j))"
  using assms(3,4)
proof (induction "sz - cur" arbitrary: cur dp rule: less_induct)
  case less
  show ?case
  proof (cases "cur < sz")
    case True
    then have le: "cur + 8 \<le> sz" using word_fits [OF less.prems(1) assms(2)] by simp
    let ?w = "take 8 (drop cur (\<sigma> (tm cur)))"
    have "length ?w = 8" using le assms(1) by simp
    then have w: "length ?w = 8" "interpret_as_u64 (\<sigma> (tm cur)) cur = Inr (le_word ?w)" "le_bytes 8 (le_word ?w) = ?w"
      using le assms(1) le_bytes_le_word [of ?w] by (simp_all add: interpret_as_u64_def read_at_def del: le_bytes.simps)
    obtain dp' where dp': "write_at dp cur ?w = Inr dp'" using w(1) le less.prems(2) by (simp add: write_at_def)
    note nth = write_at_nth [OF dp', unfolded w(1)]
    have sz': "sz \<le> length dp'" "(cur + 8) mod 8 = 0" "sz - (cur + 8) < sz - cur" using nth(1) less.prems True by simp_all
    obtain d where d: "ordered_loop \<sigma> tm sz (cur + 8) dp' = Inr d" "length d = length dp'"
      "\<forall>j<length dp'. d ! j = (if cur + 8 \<le> j \<and> j < sz then \<sigma> (tm (8 * (j div 8))) ! j else dp' ! j)"
      using less.hyps [OF sz'(3,2,1)] by blast
    have step: "ordered_loop \<sigma> tm sz cur dp = Inr d"
      using True le w(2,3) dp' d(1) by (subst ordered_loop.simps) (simp del: le_bytes.simps)
    have "d ! j = (if cur \<le> j \<and> j < sz then \<sigma> (tm (8 * (j div 8))) ! j else dp ! j)" if j: "j < length dp" for j
    proof (cases "cur \<le> j \<and> j < cur + 8")
      case True
      then have "8 * (j div 8) = cur" using word_start [OF less.prems(1)] by simp
      then show ?thesis using True d(3) j nth le assms(1) by simp
    qed (use d(3) j nth le in auto)
    then show ?thesis using step d(2) nth(1) by auto
  qed (auto simp: ordered_loop.simps)
qed

lemma ordered_read_bytes:
  assumes "\<forall>t. length (\<sigma> t) = sizeof_Wrapped n" "sizeof_Wrapped n \<le> length dest"
  shows "\<exists>d. ordered_read \<sigma> tm (sizeof_Wrapped n) dest = Inr (True, d) \<and> length d = length dest \<and>
    (\<forall>j < sizeof_Wrapped n. d ! j = \<sigma> (tm (8 * (j div 8))) ! j)"
proof -
  from ordered_loop_bytes [where cur = 0, OF assms(1) sizeof_Wrapped_ge(2) _ assms(2), of tm]
  obtain d where "ordered_loop \<sigma> tm (sizeof_Wrapped n) 0 dest = Inr d" "length d = length dest"
    "\<forall>j<length dest. d ! j = (if 0 \<le> j \<and> j < sizeof_Wrapped n then \<sigma> (tm (8 * (j div 8))) ! j else dest ! j)" by auto
  then show ?thesis using assms(2) by (auto simp: ordered_read_def)
qed

text \<open>A block that lies in one word is copied at one instant.\<close>

lemma copied_word:
  assumes "\<forall>j < sizeof_Wrapped n. d ! j = \<sigma> (tm (8 * (j div 8))) ! j" "sizeof_Wrapped n \<le> length d" "\<forall>t. length (\<sigma> t) = sizeof_Wrapped n"
    "off mod 8 \<le> 4" "off + 4 \<le> sizeof_Wrapped n"
  shows "take 4 (drop off d) = take 4 (drop off (\<sigma> (tm (8 * (off div 8)))))"
proof (rule nth_equalityI)
  show "length (take 4 (drop off d)) = length (take 4 (drop off (\<sigma> (tm (8 * (off div 8))))))" using assms(2,3,5) by simp
  fix i assume "i < length (take 4 (drop off d))"
  then have "i < 4" by simp
  then have "(off + i) div 8 = off div 8" "off + i < sizeof_Wrapped n" using same_word [OF assms(4)] assms(5) by simp_all
  then show "take 4 (drop off d) ! i = take 4 (drop off (\<sigma> (tm (8 * (off div 8))))) ! i" using assms(1,2,3) \<open>i < 4\<close> by simp
qed

section \<open>Atomic reads\<close>

text \<open>An ordered copy with equal and valid numbers holds the payload of an instant at which no write is open.\<close>

lemma consistent_copy_snapshot:
  assumes h: "wrapped_history n \<sigma>" and fit: "(4 + n) mod 8 \<le> 4" and tm: "\<forall>i j. i \<le> j \<longrightarrow> tm i \<le> tm j"
    and w: "writes \<sigma> (tm (sizeof_Wrapped n)) < writes \<sigma> (tm 0) + 2 ^ 32"
    and len: "sizeof_Wrapped n \<le> length dest"
    and r: "ordered_read (\<lambda>t. wo_mem (\<sigma> t)) tm (sizeof_Wrapped n) dest = Inr (ok, d)" and c: "consistent n d = Inr True"
  shows "\<exists>t. tm 0 \<le> t \<and> t \<le> tm (sizeof_Wrapped n) \<and> wo_pc (\<sigma> t) = Quiet \<and> get_payload n d = get_payload n (wo_mem (\<sigma> t))"
proof -
  let ?t = "tm (8 * ((4 + n) div 8))"
  have lm: "\<forall>t. length (wo_mem (\<sigma> t)) = sizeof_Wrapped n" using history_phase [OF h] by (simp add: phase_ok_def)
  have d: "length d = length dest" "\<forall>j < sizeof_Wrapped n. d ! j = wo_mem (\<sigma> (tm (8 * (j div 8)))) ! j"
    using ordered_read_bytes [OF lm len, of tm] r by auto
  note sz = sizeof_Wrapped_ge(1) [of n]
  have ld: "sizeof_Wrapped n \<le> length d" using d(1) len by simp
  have in_range: "tm 0 \<le> ?t" "?t \<le> tm (sizeof_Wrapped n)" using tm sz by auto
  have s: "num_at d 0 = num_at (wo_mem (\<sigma> (tm 0))) 0" "num_at d (4 + n) = num_at (wo_mem (\<sigma> ?t)) (4 + n)"
    using copied_word [where \<sigma> = "\<lambda>t. wo_mem (\<sigma> t)", OF d(2) ld lm, of 0]
      copied_word [where \<sigma> = "\<lambda>t. wo_mem (\<sigma> t)", OF d(2) ld lm fit] sz by simp_all
  have eq: "num_at d 0 = num_at d (4 + n)" "num_at d 0 \<noteq> 0"
    using c sz ld by (auto simp: consistent_def load_u32_eq kInvalidSeq_def)
  have "phase \<sigma> ?t \<le> phase \<sigma> (tm (sizeof_Wrapped n))" using in_range(2) by (rule phase_mono)
  then have wt: "writes \<sigma> ?t < writes \<sigma> (tm 0) + 2 ^ 32"
    using w div_le_mono [of "phase \<sigma> ?t" "phase \<sigma> (tm (sizeof_Wrapped n))" 4] by (simp add: writes_def)
  note br = equal_numbers_bracket [OF h in_range(1) wt eq(1) [unfolded s] eq(2) [unfolded s(1)]]
  have same: "get_payload n (wo_mem (\<sigma> t)) = get_payload n (wo_mem (\<sigma> ?t))" if "tm 0 \<le> t" "t \<le> ?t" for t
    using payload_stable [OF h that(2)] br(2) that(1) by simp
  have "get_payload n d = get_payload n (wo_mem (\<sigma> ?t))"
  proof (rule nth_equalityI)
    show "length (get_payload n d) = length (get_payload n (wo_mem (\<sigma> ?t)))" using sz ld lm by (simp add: get_payload_def)
    fix i assume "i < length (get_payload n d)"
    then have i: "i < n" by (simp add: get_payload_def)
    let ?u = "tm (8 * ((4 + i) div 8))"
    have u: "tm 0 \<le> ?u" "?u \<le> ?t" using tm i by (auto intro!: div_le_mono)
    have "get_payload n d ! i = get_payload n (wo_mem (\<sigma> ?u)) ! i" using d(2) i sz ld lm by (simp add: get_payload_def)
    then show "get_payload n d ! i = get_payload n (wo_mem (\<sigma> ?t)) ! i" using same [OF u] by simp
  qed
  then show ?thesis using br(1) in_range by blast
qed

text \<open>What the retry loop returns is the outcome of one of its attempts, and it has forgotten all earlier ones.\<close>

lemma atomic_retry_attempt:
  assumes "atomic_retry n op es dest a = Inr (Some (ok, d, a'))" "P dest" "\<forall>e dest ok d. P dest \<longrightarrow> op e (sizeof_Wrapped n) dest = Inr (ok, d) \<longrightarrow> P d"
  shows "\<exists>e\<in>set es. \<exists>dest. P dest \<and> op e (sizeof_Wrapped n) dest = Inr (ok, d) \<and> (ok \<longrightarrow> consistent n d = Inr True) \<and> retry_cnt a' = 0"
  using assms(1,2)
proof (induction es arbitrary: dest a)
  case (Cons e es)
  obtain ok1 d1 where o: "op e (sizeof_Wrapped n) dest = Inr (ok1, d1)" using Cons.prems(1) by (auto simp: Let_def elim!: rbindE)
  show ?case
  proof (cases "ok1 \<and> consistent n d1 = Inr False")
    case True
    then have "atomic_retry n op es d1 (a\<lparr>retry_cnt := 1\<rparr>) = Inr (Some (ok, d, a'))"
      using Cons.prems(1) o by (simp add: Let_def split: if_splits)
    then show ?thesis using Cons.IH assms(3) Cons.prems(2) o by fastforce
  next
    case False
    then have "ok1 = ok \<and> d1 = d \<and> (ok \<longrightarrow> consistent n d = Inr True) \<and> retry_cnt a' = 0"
      using Cons.prems(1) o by (auto simp: Let_def elim!: rbindE split: if_splits)
    then show ?thesis using o Cons.prems(2) by (intro bexI [of _ e] exI [of _ dest]) auto
  qed
qed simp

text \<open>In an object that does not change an ordered copy is the object.\<close>

lemma ordered_read_settled:
  assumes "length m = sizeof_Wrapped n" "sizeof_Wrapped n \<le> length dest" "\<forall>t. length (\<sigma> t) = sizeof_Wrapped n" "\<forall>i. \<sigma> (tm i) = m"
  shows "\<exists>d. ordered_read \<sigma> tm (sizeof_Wrapped n) dest = Inr (True, d) \<and> length d = length dest \<and> take (sizeof_Wrapped n) d = m"
  using ordered_read_bytes [OF assms(3,2), of tm] assms(1,2,4) by (force intro: nth_equalityI)

lemma take_prefix:
  assumes "take k d = m" "off + j \<le> k"
  shows "take j (drop off d) = take j (drop off m)"
  using assms by (auto simp: drop_take min_def)

lemma consistent_prefix:
  assumes "take (sizeof_Wrapped n) d = m" "length m = sizeof_Wrapped n"
  shows "consistent n d = Inr (num_at m 0 = num_at m (4 + n) \<and> num_at m 0 \<noteq> 0)" "get_payload n d = get_payload n m"
proof -
  have ld: "sizeof_Wrapped n \<le> length d" using assms length_take [of "sizeof_Wrapped n" d] by simp
  note p = take_prefix [OF assms(1)] and sz = sizeof_Wrapped_ge(1) [of n]
  show "get_payload n d = get_payload n m" using p [of 4 n] sz by (simp add: get_payload_def)
  have "num_at d 0 = num_at m 0" "num_at d (4 + n) = num_at m (4 + n)" using p [of 0 4] p [of "4 + n" 4] sz by simp_all
  then show "consistent n d = Inr (num_at m 0 = num_at m (4 + n) \<and> num_at m 0 \<noteq> 0)"
    using sz ld by (simp add: consistent_def load_u32_eq kInvalidSeq_def)
qed

text \<open>In every state of a history the numbers are equal and valid exactly when no write is open and the number has not wrapped to 0.\<close>

lemma valid_iff_quiet:
  assumes "wrapped_history n \<sigma>"
  shows "(num_at (wo_mem (\<sigma> t)) 0 = num_at (wo_mem (\<sigma> t)) (4 + n) \<and> num_at (wo_mem (\<sigma> t)) 0 \<noteq> 0) \<longleftrightarrow>
    wo_pc (\<sigma> t) = Quiet \<and> (writes \<sigma> t + 1) mod 2 ^ 32 \<noteq> 0"
proof -
  have z: "(of_nat k :: u32) = 0 \<longleftrightarrow> k mod 2 ^ 32 = 0" for k by (simp add: word_of_nat_eq_0_iff mod_eq_0_iff_dvd)
  show ?thesis using history_phase [OF assms, of t] z [of "writes \<sigma> t + 1"] unfolding phase_ok_def writes_def Let_def by auto
qed

section \<open>A write step by step\<close>

text \<open>An object with a payload of eight bytes, and a write that stores the payload in two halves.\<close>

definition obj_bytes :: "u32 \<Rightarrow> u8 list \<Rightarrow> u32 \<Rightarrow> u8 list" where
  "obj_bytes s p c = le_bytes 4 (ucast s) @ p @ le_bytes 4 (ucast c) @ replicate 48 0"

definition sample_write :: "wobj list" where
  "sample_write =
    [\<lparr>wo_mem = obj_bytes 1 (replicate 8 0) 1, wo_pc = Quiet\<rparr>,
     \<lparr>wo_mem = obj_bytes 1 (replicate 8 0) 0, wo_pc = Begun 1\<rparr>,
     \<lparr>wo_mem = obj_bytes 0 (replicate 8 0) 0, wo_pc = Writing 1\<rparr>,
     \<lparr>wo_mem = obj_bytes 0 (replicate 4 7 @ replicate 4 0) 0, wo_pc = Writing 1\<rparr>,
     \<lparr>wo_mem = obj_bytes 0 (replicate 8 7) 0, wo_pc = Writing 1\<rparr>,
     \<lparr>wo_mem = obj_bytes 2 (replicate 8 7) 0, wo_pc = Sealing\<rparr>,
     \<lparr>wo_mem = obj_bytes 2 (replicate 8 7) 2, wo_pc = Quiet\<rparr>]"

definition sample_history :: "nat \<Rightarrow> wobj" where
  "sample_history t = sample_write ! min t 6"

lemma obj_bytes_load:
  "length p = 8 \<Longrightarrow> load_u32 (obj_bytes s p c) 0 = Inr s" "length p = 8 \<Longrightarrow> load_u32 (obj_bytes s p c) (4 + 8) = Inr c"
  by (simp_all add: load_u32_eq obj_bytes_def del: le_bytes.simps)

lemma obj_bytes_store:
  "length p = 8 \<Longrightarrow> store_u32 (obj_bytes s p c) 0 v = Inr (obj_bytes v p c)"
  "length p = 8 \<Longrightarrow> store_u32 (obj_bytes s p c) (4 + 8) v = Inr (obj_bytes s p v)"
  "length p = 4 \<Longrightarrow> length q = 4 \<Longrightarrow> length r = 4 \<Longrightarrow> write_at (obj_bytes s (p @ q) c) (4 + 0) r = Inr (obj_bytes s (r @ q) c)"
  "length p = 4 \<Longrightarrow> length q = 4 \<Longrightarrow> length r = 4 \<Longrightarrow> write_at (obj_bytes s (p @ q) c) (4 + 4) r = Inr (obj_bytes s (p @ r) c)"
  by (simp_all add: store_u32_def obj_bytes_def write_at_def del: le_bytes.simps)

lemma halves: "replicate 8 (b :: u8) = replicate 4 b @ replicate 4 b"
  by (simp flip: replicate_add)

lemma sample_steps:
  "writer_step 8 (sample_write ! 0) (sample_write ! 1)" "writer_step 8 (sample_write ! 1) (sample_write ! 2)"
  "writer_step 8 (sample_write ! 2) (sample_write ! 3)" "writer_step 8 (sample_write ! 3) (sample_write ! 4)"
  "writer_step 8 (sample_write ! 4) (sample_write ! 5)" "writer_step 8 (sample_write ! 5) (sample_write ! 6)"
proof -
  note nth = sample_write_def nth_Cons_numeral nth_Cons_0 One_nat_def nth_Cons_Suc
  show "writer_step 8 (sample_write ! 0) (sample_write ! 1)" unfolding nth
    by (rule writer_step.begin_check [unfolded kInvalidSeq_def, OF obj_bytes_load(2) obj_bytes_store(2)]) simp_all
  show "writer_step 8 (sample_write ! 1) (sample_write ! 2)" unfolding nth
    by (simp, rule writer_step.begin_seq [unfolded kInvalidSeq_def, OF obj_bytes_store(1)]) simp
  show "writer_step 8 (sample_write ! 2) (sample_write ! 3)" unfolding nth halves
    by (simp, rule writer_step.payload [OF _ obj_bytes_store(3)]) simp_all
  show "writer_step 8 (sample_write ! 3) (sample_write ! 4)" unfolding nth halves
    by (simp, rule writer_step.payload [OF _ obj_bytes_store(4)]) simp_all
  show "writer_step 8 (sample_write ! 4) (sample_write ! 5)" unfolding nth
    by (simp, rule writer_step.done_seq) (simp add: obj_bytes_store(1))
  show "writer_step 8 (sample_write ! 5) (sample_write ! 6)" unfolding nth
    by (simp, rule writer_step.done_check [OF obj_bytes_load(1) obj_bytes_store(2)]) simp_all
qed

lemma sample_history_ok: "wrapped_history 8 sample_history"
proof -
  have "wrapped_init 8 (obj_bytes 0 (replicate 8 0) 0) = Inr (wo_mem (sample_history 0))"
    by (simp add: wrapped_init_def kInvalidSeq_def obj_bytes_store(1) obj_bytes_load(1) obj_bytes_store(2) [simplified] sample_history_def sample_write_def)
  moreover have "writer_step 8 (sample_history i) (sample_history (Suc i))" for i
  proof (cases "i < 6")
    case True
    then have "i = 0 \<or> i = 1 \<or> i = 2 \<or> i = 3 \<or> i = 4 \<or> i = 5" by arith
    then show ?thesis using sample_steps by (auto simp: sample_history_def numeral_eq_Suc)
  qed (simp add: sample_history_def min_def writer_step.pause)
  ultimately show ?thesis by (auto simp: wrapped_history_def sample_history_def sample_write_def obj_bytes_def sizeof_Wrapped_def)
qed

section \<open>Properties\<close>

text \<open>(C21) An atomic read is a snapshot. A reader copies word by word from the start, at instants that do not decrease, while a
  writer is at work. What \<open>atomic_read\<close> returns, after whatever number of attempts, is the payload at one instant of an
  attempt at which no write was open, provided the second number lies in one word and fewer than 2 to the 32 writes
  finish within one attempt.\<close>

theorem atomic_read_snapshot:
  assumes "wrapped_history n \<sigma>" "(4 + n) mod 8 \<le> 4"
    "\<forall>tm\<in>set attempts. (\<forall>i j. i \<le> j \<longrightarrow> tm i \<le> tm j) \<and> writes \<sigma> (tm (sizeof_Wrapped n)) < writes \<sigma> (tm 0) + 2 ^ 32"
    "atomic_read n (ordered_read (\<lambda>t. wo_mem (\<sigma> t))) attempts dest a = Inr (Some (ok, d, a'))"
  shows "ok \<and> (\<exists>tm\<in>set attempts. \<exists>t. tm 0 \<le> t \<and> t \<le> tm (sizeof_Wrapped n) \<and> wo_pc (\<sigma> t) = Quiet \<and> get_payload n d = get_payload n (wo_mem (\<sigma> t)))"
proof -
  let ?op = "ordered_read (\<lambda>t. wo_mem (\<sigma> t))"
  have lm: "\<forall>t. length (wo_mem (\<sigma> t)) = sizeof_Wrapped n" using history_phase [OF assms(1)] by (simp add: phase_ok_def)
  have r: "atomic_retry n ?op attempts dest a = Inr (Some (ok, d, a'))" "sizeof_Wrapped n \<le> length dest"
    using assms(4) by (auto simp: atomic_read_def split: if_splits)
  have op: "ok \<and> sizeof_Wrapped n \<le> length d" if "sizeof_Wrapped n \<le> length dest" "?op e (sizeof_Wrapped n) dest = Inr (ok, d)" for e dest ok d
    using ordered_read_bytes [OF lm that(1), of e] that by auto
  then have keeps: "\<forall>e dest ok d. sizeof_Wrapped n \<le> length dest \<longrightarrow> ?op e (sizeof_Wrapped n) dest = Inr (ok, d) \<longrightarrow> sizeof_Wrapped n \<le> length d"
    by blast
  obtain tm dest' where t: "tm \<in> set attempts" "sizeof_Wrapped n \<le> length dest'" "?op tm (sizeof_Wrapped n) dest' = Inr (ok, d)" "ok \<longrightarrow> consistent n d = Inr True"
    using atomic_retry_attempt [where P = "\<lambda>d. sizeof_Wrapped n \<le> length d", OF r keeps] by blast
  then have "ok" using op by blast
  have a: "\<forall>i j. i \<le> j \<longrightarrow> tm i \<le> tm j" "writes \<sigma> (tm (sizeof_Wrapped n)) < writes \<sigma> (tm 0) + 2 ^ 32"
    using assms(3) t(1) by (auto simp only:)
  show ?thesis using consistent_copy_snapshot [OF assms(1,2) a t(2,3)] t(1,4) \<open>ok\<close> by (auto simp only:)
qed

theorem atomic_read_snapshot_witness:
  "get_payload 8 (obj_bytes 2 (replicate 8 7) 2) = replicate 8 7 \<and>
   (\<exists>tm\<in>set [\<lambda>i. 3, \<lambda>i. 6]. \<exists>t. tm 0 \<le> t \<and> t \<le> tm (sizeof_Wrapped 8) \<and> wo_pc (sample_history t) = Quiet \<and>
     get_payload 8 (obj_bytes 2 (replicate 8 7) 2) = get_payload 8 (wo_mem (sample_history t)))"
proof -
  have w: "\<forall>tm\<in>set [\<lambda>i. 3, \<lambda>i. 6]. (\<forall>i j. i \<le> j \<longrightarrow> tm i \<le> tm j) \<and>
      writes sample_history (tm (sizeof_Wrapped 8)) < writes sample_history (tm 0) + 2 ^ 32" by simp
  have r: "atomic_read 8 (ordered_read (\<lambda>t. wo_mem (sample_history t))) [\<lambda>i. 3, \<lambda>i. 6] (replicate 64 0) \<lparr>retry_cnt = 0\<rparr> =
      Inr (Some (True, obj_bytes 2 (replicate 8 7) 2, \<lparr>retry_cnt = 0\<rparr>))" by code_simp
  show ?thesis using atomic_read_snapshot [OF sample_history_ok _ w r] by (simp add: get_payload_def obj_bytes_def del: le_bytes.simps)
qed

text \<open>(C22) When the object no longer changes, the reader returns its payload at its first attempt if no write is open, and goes on
  for ever, through any number of attempts, if the writer has stopped inside a write or the number of writes has
  wrapped the sequence number to 0: the limit of 1000000 retries never ends the loop, as every attempt starts by
  clearing the counter.\<close>

theorem atomic_read_settled:
  assumes "wrapped_history n \<sigma>" "\<forall>t\<ge>t0. \<sigma> t = \<sigma> t0" "attempts \<noteq> []" "\<forall>tm\<in>set attempts. \<forall>i. t0 \<le> tm i" "sizeof_Wrapped n \<le> length dest"
  shows "if wo_pc (\<sigma> t0) = Quiet \<and> (writes \<sigma> t0 + 1) mod 2 ^ 32 \<noteq> 0
    then \<exists>d a'. atomic_read n (ordered_read (\<lambda>t. wo_mem (\<sigma> t))) attempts dest a = Inr (Some (True, d, a')) \<and>
      get_payload n d = get_payload n (wo_mem (\<sigma> t0)) \<and> retry_cnt a' = 0
    else atomic_read n (ordered_read (\<lambda>t. wo_mem (\<sigma> t))) attempts dest a = Inr None"
proof -
  let ?m = "wo_mem (\<sigma> t0)" and ?op = "ordered_read (\<lambda>t. wo_mem (\<sigma> t))"
  define c where "c \<longleftrightarrow> num_at ?m 0 = num_at ?m (4 + n) \<and> num_at ?m 0 \<noteq> 0"
  have quiet: "c \<longleftrightarrow> wo_pc (\<sigma> t0) = Quiet \<and> (writes \<sigma> t0 + 1) mod 2 ^ 32 \<noteq> 0" unfolding c_def by (rule valid_iff_quiet [OF assms(1)])
  have lm: "\<forall>t. length (wo_mem (\<sigma> t)) = sizeof_Wrapped n" using history_phase [OF assms(1)] by (simp add: phase_ok_def)
  have copy: "\<exists>d. ?op tm (sizeof_Wrapped n) dest = Inr (True, d) \<and> length d = length dest \<and> consistent n d = Inr c \<and> get_payload n d = get_payload n ?m"
    if "\<forall>i. t0 \<le> tm i" "sizeof_Wrapped n \<le> length dest" for tm dest
    using ordered_read_settled [of ?m n dest "\<lambda>t. wo_mem (\<sigma> t)" tm] consistent_prefix [of n _ ?m] lm that assms(2) unfolding c_def by (metis (no_types, lifting))
  have stuck: "atomic_retry n ?op es dest a = Inr None" if nc: "\<not> c" and "\<forall>tm\<in>set es. \<forall>i. t0 \<le> tm i" "sizeof_Wrapped n \<le> length dest" for es dest a
    using that(2,3)
  proof (induction es arbitrary: dest a)
    case (Cons tm es)
    obtain d where "?op tm (sizeof_Wrapped n) dest = Inr (True, d)" "length d = length dest" "consistent n d = Inr False"
      using copy [of tm dest] Cons.prems nc by auto
    then show ?case using Cons by (simp add: Let_def)
  qed simp
  show ?thesis
  proof (cases c)
    case True
    obtain tm es where es: "attempts = tm # es" using assms(3) by (cases attempts) auto
    obtain d where d: "?op tm (sizeof_Wrapped n) dest = Inr (True, d)" "consistent n d = Inr c" "get_payload n d = get_payload n ?m"
      using copy [of tm dest] assms(4,5) es by auto
    have "atomic_read n ?op attempts dest a = Inr (Some (True, d, a\<lparr>retry_cnt := 0\<rparr>))"
      using d(1,2) True assms(5) unfolding es by (simp add: atomic_read_def Let_def)
    then show ?thesis using quiet True d(3) by auto
  next
    case False
    then have "atomic_read n ?op attempts dest a = Inr None" using stuck assms(4,5) by (simp add: atomic_read_def)
    then show ?thesis using quiet False by auto
  qed
qed

theorem atomic_read_settled_witness:
  "\<exists>d a'. atomic_read 8 (ordered_read (\<lambda>t. wo_mem (sample_history t))) [\<lambda>i. 6 + i] (replicate 64 0) \<lparr>retry_cnt = 0\<rparr> = Inr (Some (True, d, a')) \<and>
     get_payload 8 d = replicate 8 7"
proof -
  have q: "\<forall>t\<ge>6. sample_history t = sample_history 6" by (simp add: sample_history_def)
  have c: "wo_pc (sample_history 6) = Quiet" "writes sample_history 6 = 1"
    "get_payload 8 (wo_mem (sample_history 6)) = replicate 8 7" by code_simp+
  show ?thesis using atomic_read_settled [OF sample_history_ok q, of "[\<lambda>i. 6 + i]" "replicate 64 0" "\<lparr>retry_cnt = 0\<rparr>"] c
    by (auto simp: sizeof_Wrapped_def)
qed

section \<open>Copies in any order\<close>

text \<open>
  A \<open>memcpy\<close> may load the two numbers before a write and the payload inside it: the copy passes for consistent and holds
  a payload that no finished write has left. (\<open>OrderedRWOp\<close> is the copy to use.)
\<close>

lemma memcpy_read_torn:
  "wrapped_history 8 sample_history" "\<forall>t. wo_pc (sample_history t) = Quiet \<longrightarrow> get_payload 8 (wo_mem (sample_history t)) \<in> {replicate 8 0, replicate 8 7}"
  "atomic_read 8 (local_read 64 (\<lambda>t. wo_mem (sample_history t))) [\<lambda>i. if 4 \<le> i \<and> i < 12 then 3 else 0] (replicate 64 0) \<lparr>retry_cnt = 0\<rparr> =
    Inr (Some (True, obj_bytes 1 (replicate 4 7 @ replicate 4 0) 1, \<lparr>retry_cnt = 0\<rparr>))"
proof -
  show "wrapped_history 8 sample_history" by (rule sample_history_ok)
  have "\<forall>w\<in>set sample_write. wo_pc w = Quiet \<longrightarrow> get_payload 8 (wo_mem w) \<in> {replicate 8 0, replicate 8 7}" by code_simp
  moreover have "sample_history t \<in> set sample_write" for t unfolding sample_history_def by (rule nth_mem) (simp add: sample_write_def)
  ultimately show "\<forall>t. wo_pc (sample_history t) = Quiet \<longrightarrow> get_payload 8 (wo_mem (sample_history t)) \<in> {replicate 8 0, replicate 8 7}" by blast
  show "atomic_read 8 (local_read 64 (\<lambda>t. wo_mem (sample_history t))) [\<lambda>i. if 4 \<le> i \<and> i < 12 then 3 else 0] (replicate 64 0) \<lparr>retry_cnt = 0\<rparr> =
    Inr (Some (True, obj_bytes 1 (replicate 4 7 @ replicate 4 0) 1, \<lparr>retry_cnt = 0\<rparr>))" by code_simp
qed

text \<open>The test of the sizes lets a source pass that is shorter than the destination, and the copy has the length of the destination.\<close>

lemma local_read_overruns:
  assumes "\<forall>t. length (\<sigma> t) = src_sz" "src_sz < sz" "sz \<le> length dest"
  shows "local_read src_sz \<sigma> tm sz dest = Inl OutOfBounds"
proof -
  have "\<exists>d. rfold (\<lambda>i d. rbind (aget (\<sigma> (tm i)) i) (aset d i)) [0..<src_sz] dest = Inr d \<and> length d = length dest"
    by (rule rfold_upt [where P = "\<lambda>_ d. length d = length dest"]) (use assms in auto)
  moreover have "[0..<sz] = [0..<src_sz] @ src_sz # [Suc src_sz..<sz]"
    using assms(2) upt_add_eq_append [of 0 src_sz "sz - src_sz"] upt_conv_Cons [of src_sz sz] by simp
  ultimately show ?thesis using assms by (auto simp: local_read_def memcpy_def rfold_append)
qed

end
