(* ===== verification/Spec2Isabelle.thy ===== *)
theory Spec2Isabelle
  imports Outback_Client Outback_Client_Numa Outback_Setup Spin_Lock Ludo_Control Drtmr_Client Fasst_Client Race_Client Atomic_RW
begin

text \<open>
  \<^bold>\<open>Outback: an index for a key-value store on disaggregated memory\<close>

  The repository holds a key-value store that splits a Ludo hash index in two: compute nodes keep the
  \<^emph>\<open>lookup unit\<close> (an Othello bit array that chooses one of two candidate rows, and one seed
  per row that chooses the slot in the row), the memory node keeps the rows of slot words and the
  packed records they point to. The original program runs over RDMA with remote procedure calls; the
  extension replaces the network by loads and stores into regions shared between NUMA sockets and adds
  an online resize of the index. Beside it the repository holds the systems the store is compared with: a cluster hash
  table (DrTM), a MICA store (FaSST) and a RACE hash table, each with its server and its client.

  \<^bold>\<open>Parts, theories and the code they model\<close> (paths below \<^verbatim>\<open>src/\<close>)

  \<^item> \<^verbatim>\<open>Prelude\<close>: results with errors, monadic folds, lists updated by index, words; no code of
    the program. \<^verbatim>\<open>Byte_Blocks\<close>: values of a fixed size written into and read from a byte array.
    \<^verbatim>\<open>Double_Arith\<close>: the rounding of the \<^verbatim>\<open>double\<close> products and quotients by which the programs size their tables.
    \<^verbatim>\<open>Interfaces\<close>: the contracts between components as locales (a map that may forget, a map that does not, a map that
    keeps the first value, storage by record number, a queue of limited room).
  \<^item> \<^verbatim>\<open>Packed_Data\<close> (\<^verbatim>\<open>outback/packed_data.hh\<close>): the record array, loads, reads,
    updates and removals with their range assertions.
  \<^item> \<^verbatim>\<open>Hash_Util\<close> (\<^verbatim>\<open>deps/ludo/hashutils\<close>): the seeded 64-bit hasher (Bob Jenkins) and the fast
    hasher (farmhash) on eight-byte keys, computed on words.
  \<^item> \<^verbatim>\<open>Ludo_Slot\<close> (\<^verbatim>\<open>outback/ludo_slot.hh\<close>): the bit fields of a slot word and the rows.
  \<^item> \<^verbatim>\<open>Lru_Cache\<close> (\<^verbatim>\<open>outback/cache.hh\<close>): the overflow cache, a linked list together with a map of
    iterators into it.
  \<^item> \<^verbatim>\<open>Othello_Mem\<close> and \<^verbatim>\<open>Ludo_DP\<close> (\<^verbatim>\<open>deps/ludo/tables/othello_cp_dp.h\<close>, lines 40 to 361, and
    the data plane of \<^verbatim>\<open>deps/ludo/ludo_cp_dp.h\<close>): the bit-packed array, the optimistic lookup that
    runs against a writer, and the slot lookup built on it. A reader is given the history of states
    that the writer produces and the instants at which it looks; an attempt is a function of those.
  \<^item> \<^verbatim>\<open>Forest\<close> and \<^verbatim>\<open>Disjoint_Set\<close> (\<^verbatim>\<open>deps/ludo/tables/disjointset.h\<close>): graphs given by an edge
    list, walks, forests and depth-first search over next-pointer lists; the parent array with path
    compression.
  \<^item> \<^verbatim>\<open>Othello_CP\<close>, \<^verbatim>\<open>Othello_Build\<close>, \<^verbatim>\<open>Othello_Update\<close>, \<^verbatim>\<open>Othello_Remove\<close>, \<^verbatim>\<open>Othello_Grow\<close>
    (\<^verbatim>\<open>deps/ludo/tables/othello_cp_dp.h\<close>, lines 390 to 1163): the Othello control plane, a bipartite
    graph over the two halves of the bit array with one edge per key. \<^verbatim>\<open>Othello_CP\<close> holds the
    definitions of all operations and the graph they maintain; the others hold the lemmas on building,
    on inserting and changing values, on removing, and on rebuilding, growing and exporting.
  \<^item> \<^verbatim>\<open>Slot_Seed\<close>: the search for the seed of a row, the same loop in the server and in the Ludo control
    plane. \<^verbatim>\<open>Path_Queue\<close>, \<^verbatim>\<open>Ludo_CP\<close>, \<^verbatim>\<open>Ludo_Table\<close>, \<^verbatim>\<open>Ludo_Insert\<close>, \<^verbatim>\<open>Ludo_Path\<close>, \<^verbatim>\<open>Ludo_Rebuild\<close>,
    \<^verbatim>\<open>Ludo_Grow\<close>, \<^verbatim>\<open>Ludo_Control\<close> (\<^verbatim>\<open>deps/ludo/ludo_cp_dp.h\<close>, the control plane and the constructors of the data
    plane): a cuckoo table whose locator is an Othello. \<^verbatim>\<open>Path_Queue\<close> is the ring buffer of the path search,
    \<^verbatim>\<open>Ludo_CP\<close> holds the definitions of all operations; the others hold the invariant and the lookups, the operations
    on one item, the path search and the moves, the rebuild, the growing, and what all this means to a caller.
  \<^item> \<^verbatim>\<open>Rpc\<close> (\<^verbatim>\<open>xcomm/src/rpc\<close>, \<^verbatim>\<open>xutils/marshal.hh\<close>): message building, the header bit fields, the
    reply station and the dispatch loop over a list of received messages.
  \<^item> \<^verbatim>\<open>Outback_Server\<close> (\<^verbatim>\<open>outback/outback_server.hh\<close>) and \<^verbatim>\<open>Outback_Client\<close>
    (\<^verbatim>\<open>outback/outback_client.hh\<close>): the five handlers and the five remote operations. A coroutine of the
    client is cut at its yield into what it sends and what it does with the reply. \<^verbatim>\<open>Rpc_Call\<close> is the exchange all clients
    share: the registration of the reply, the request in the loop of the server, the reply in the poll loop of the client.
  \<^item> \<^verbatim>\<open>Spin_Lock\<close> (\<^verbatim>\<open>xutils/spin_lock.hh\<close>, \<^verbatim>\<open>race/spinlock.hh\<close>, the byte locks of
    \<^verbatim>\<open>xcomm/src/transport/numa_transport.hh\<close>): the locks as step relations of any number of threads.
  \<^item> \<^verbatim>\<open>Numa_Transport\<close> (\<^verbatim>\<open>xcomm/src/transport/numa_transport.hh\<close>): names of shared objects, the
    registry, the epochs and the regions; what a system call answers is an argument.
    \<^verbatim>\<open>Numa_Table\<close>: rows and records in a region.
  \<^item> \<^verbatim>\<open>Outback_Resize\<close> (\<^verbatim>\<open>outback/outback_resize.hh\<close>): the resize orchestrator, its cycle of six states,
    the copy, the deferred mutations, their replay and the collector.
  \<^item> \<^verbatim>\<open>Outback_Server_Numa\<close> (\<^verbatim>\<open>outback/outback_server_numa.hh\<close>, \<^verbatim>\<open>benchs/outback/server_numa.cc\<close>) and
    \<^verbatim>\<open>Outback_Client_Numa\<close> (\<^verbatim>\<open>outback/outback_client_numa.hh\<close>): the direct handlers, the set-up, and
    the client that works on the shared region.
  \<^item> \<^verbatim>\<open>Outback_Setup\<close> (\<^verbatim>\<open>setup_ludo_table\<close> of the programs in \<^verbatim>\<open>benchs/outback\<close>): the loading of the keys into a Ludo
    control plane, the rows and the records of the servers, the lookup units of the clients.
  \<^item> \<^verbatim>\<open>Atomic_RW\<close> (\<^verbatim>\<open>xcomm/src/atomic_rw\<close>): an object between two sequence numbers, a writer store by store, and the
    reader that copies it until the numbers agree.
  \<^item> \<^verbatim>\<open>Murmur\<close> (the hash of \<^verbatim>\<open>drtmr/clusterhash.h\<close> and \<^verbatim>\<open>race/race_table.hh\<close>), \<^verbatim>\<open>Cluster_Hash\<close> (\<^verbatim>\<open>drtmr/clusterhash.h\<close>),
    \<^verbatim>\<open>Drtmr_Server\<close> and \<^verbatim>\<open>Drtmr_Client\<close> (\<^verbatim>\<open>benchs/drtmr\<close>): chains of header nodes with sixteen slots each over one array of
    data nodes; the set-up, the callbacks and the calls.
  \<^item> \<^verbatim>\<open>Mica\<close> (\<^verbatim>\<open>mica/mica.cc\<close>, \<^verbatim>\<open>mica/mica.h\<close>, \<^verbatim>\<open>mica/trait.hpp\<close>), \<^verbatim>\<open>Fasst_Server\<close> and \<^verbatim>\<open>Fasst_Client\<close>
    (\<^verbatim>\<open>benchs/fasst\<close>): a lossy index of eight-slot buckets over a circular log of bytes that is addressed by growing
    virtual offsets; the set-up, the callbacks and the calls.
  \<^item> \<^verbatim>\<open>Race_Table\<close> (\<^verbatim>\<open>race/race_table.hh\<close>) and \<^verbatim>\<open>Race_Client\<close> (\<^verbatim>\<open>benchs/race\<close>): two candidate buckets with a spare
    bucket beside each, the region of buckets and records as bytes, and the one-sided reads and writes of the client.

  \<^bold>\<open>How code corresponds to definitions\<close>

  A class is a record, a method a function from the record to the new record, with the name of the
  method (a prefix such as \<^verbatim>\<open>cp_\<close>, \<^verbatim>\<open>dp_\<close>, \<^verbatim>\<open>cache_\<close> where two classes share a name). Unsigned
  integers are words of their width. An assertion, an exception, an exit of the process and an access
  out of range are error values of the result type of \<^verbatim>\<open>Prelude\<close>. Code that several threads run is
  a step relation (locks, resize, lanes) or takes the history of the memory it reads (lookup).

  \<^bold>\<open>What the lemmas show\<close>

  \<^item> Index and data: a PUT is visible to a GET and changes no other key; UPDATE and REMOVE likewise;
    the same for the operations of the NUMA client. The remote operations have the effect of the
    handlers, and leave the lookup unit of the client in step with the server.
  \<^item> Lookup: an answer of the optimistic lookup is the answer in one state of the writer; without a
    writer a lookup answers at once, in range.
  \<^item> Atomic reads: what a reader returns beside a writer is the object at one instant without an open write; a copy in
    another order may be torn; on an object that does not change the reader returns at once or never.
  \<^item> Othello: an attempt to build succeeds exactly when the keys form a forest, and then every key
    looks up its value; insertion and removal change the stored map at one key and keep the lists,
    the arrays and the disjoint set in agreement; rebuilding and growing keep the map.
  \<^item> Ludo: an insertion, by whatever path, changes the stored map at one key; the search for a path ends within its
    arrays; a rebuild and a growth keep the map; the exported rows and lookup unit find every stored key. Hence
    every loaded key is served after set-up, over RDMA and in shared memory, and the lookup units of clients and
    server agree as long as their values of \<^verbatim>\<open>rand()\<close> do.
  \<^item> Resize: an invariant of all reachable states, the order of the states, the end of the wait for
    acknowledgements, what a copy leaves behind and what deferred mutations become.
  \<^item> Contracts: the cache is a bounded recency list; the record array is a map of records; bit
    fields, headers and messages survive a round trip; locks exclude each other; lanes hand out
    distinct records; the arrays of a region do not overlap.
  \<^item> Compared systems, each as a map: the cluster hash server keeps the first value of a key; the MICA server answers a
    PUT with the low half of its value until it forgets it; a RACE client finds every loaded key whose fingerprint is
    alone in its buckets, and overwrites another key with the same fingerprint. The accesses to nodes, log and region
    stay in range.
  \<^item> Errors: the cases in which the code ends the process, loses a mutation or reads another record.

  \<^bold>\<open>Loops that may not end\<close>

  The retry loops of the lookups take the number of attempts as fuel; one attempt is enough without
  a writer, and the safety lemmas hold for any number. The search of a seed is bounded by the code
  (seeds below 255). Depth-first searches carry a bound on the depth, and the lemmas show that the number
  of nodes is enough. The build loop and an insertion that may rebuild end only when a seed makes
  the keys a forest; they take fuel, and \<^verbatim>\<open>Othello_Grow\<close> shows that they return when one of the
  first five seeds does. An insertion into the Ludo table that may grow or rebuild takes as fuel the number of random
  values still to come; the lemmas hold for what it returns, and it returns at once when the key is stored or a
  candidate bucket has room. The path search takes the size of its queue as fuel, which is shown to be enough. Path compression follows parents; its fuel is the number of nodes, enough on
  every array that merges produce. A walk along a chain of the cluster hash is bounded by the number of header nodes,
  which is enough as chains do not meet; an atomic read takes the list of its attempts as fuel; the doubling of the size of a MICA log ends within 33 rounds.

  \<^bold>\<open>Not modelled\<close>

  Operations of the Ludo table that no program instantiates (its conversion to another value type); the printing and the
  population with generated keys of the MICA store, with the CityHash they use, and \<^verbatim>\<open>race/cuckoo_ht.h\<close>, which no program
  calls; Rolex and the indexes ALEX and B+ tree, which are vendored; the RDMA (with its atomic reads), coroutine and messaging runtimes, which
  the store only calls; the generators of workloads and the benchmark drivers, which start threads, measure and print.
\<close>

end
